(* ===== verification/Prelude.thy ===== *)
theory Prelude
  imports Main "HOL-Library.Word" "HOL-Library.Monad_Syntax"
begin

text \<open>
  Shared vocabulary of the development: the machine types of
  \<^verbatim>\<open>src/src/kernel/include/core/types.h\<close>, the error numbers of
  \<^verbatim>\<open>bits/errno.h\<close>, checked array access, assertions, and the generic lemmas on
  words, lists and bounded loops that the component theories rely on.

  Every operation of the kernel that can touch memory or panic is modelled by a function
  into an \<open>option\<close> type.  \<^term>\<open>None\<close> means that the call does not return normally:
  the C code dereferences an address that is not an allocated object, indexes an array
  out of bounds, fails an \<^verbatim>\<open>assert\<close>, or loops forever.  \<^term>\<open>Some\<close> carries the
  C return value and the new state, so a theorem that states \<open>f s = Some r\<close> also states
  that the call is memory safe and terminates.
\<close>

unbundle bit_operations_syntax

section \<open>Machine types and error numbers\<close>

type_synonym u64 = "64 word"
type_synonym u32 = "32 word"
type_synonym u8 = "8 word"

text \<open>Addresses are 64-bit words; the null pointer is \<open>0\<close>.\<close>

type_synonym addr = "64 word"

abbreviation (input) NULL :: addr where "NULL \<equiv> 0"

abbreviation (input) EPERM :: int where "EPERM \<equiv> 1"
abbreviation (input) ENOENT :: int where "ENOENT \<equiv> 2"
abbreviation (input) EAGAIN :: int where "EAGAIN \<equiv> 11"
abbreviation (input) ENOMEM :: int where "ENOMEM \<equiv> 12"
abbreviation (input) EACCES :: int where "EACCES \<equiv> 13"
abbreviation (input) EFAULT :: int where "EFAULT \<equiv> 14"
abbreviation (input) EEXIST :: int where "EEXIST \<equiv> 17"
abbreviation (input) EINVAL :: int where "EINVAL \<equiv> 22"
abbreviation (input) ENOSPC :: int where "ENOSPC \<equiv> 28"
abbreviation (input) EALREADY :: int where "EALREADY \<equiv> 114"

section \<open>Assertions and checked array access\<close>

text \<open>\<^verbatim>\<open>assert(c, ...)\<close> panics, hence does not return, when \<^verbatim>\<open>c\<close> is false.\<close>

definition assert_that :: "bool \<Rightarrow> unit option" where
  "assert_that b = (if b then Some () else None)"

lemma assert_that_simps [simp]:
  "assert_that True = Some ()" "assert_that False = None"
  by (simp_all add: assert_that_def)

lemma assert_that_iff [simp]: "assert_that b = Some u \<longleftrightarrow> b"
  by (simp add: assert_that_def)

lemma assert_that_bind [simp]:
  "(assert_that b \<bind> f = Some r) \<longleftrightarrow> b \<and> f () = Some r"
  by (simp add: assert_that_def)

text \<open>An access \<^verbatim>\<open>a[i]\<close> with \<^verbatim>\<open>i\<close> beyond the array is undefined behaviour in C.\<close>

definition array_get :: "'a list \<Rightarrow> u64 \<Rightarrow> 'a option" where
  "array_get xs i = (if unat i < length xs then Some (xs ! unat i) else None)"

definition array_set :: "'a list \<Rightarrow> u64 \<Rightarrow> 'a \<Rightarrow> 'a list option" where
  "array_set xs i v = (if unat i < length xs then Some (xs[unat i := v]) else None)"

lemma array_get_in [simp]: "unat i < length xs \<Longrightarrow> array_get xs i = Some (xs ! unat i)"
  by (simp add: array_get_def)

lemma array_get_out [simp]: "length xs \<le> unat i \<Longrightarrow> array_get xs i = None"
  by (simp add: array_get_def)

lemma array_set_in [simp]: "unat i < length xs \<Longrightarrow> array_set xs i v = Some (xs[unat i := v])"
  by (simp add: array_set_def)

lemma array_set_out [simp]: "length xs \<le> unat i \<Longrightarrow> array_set xs i v = None"
  by (simp add: array_set_def)

section \<open>Word arithmetic\<close>

lemma unat_Suc_less: "i < (n :: 'a::len word) \<Longrightarrow> unat (i + 1) = Suc (unat i)"
proof -
  assume "i < n"
  then have "Suc (unat i) \<le> unat n"
    by (simp add: word_less_nat_alt)
  also have "unat n < 2 ^ LENGTH('a)"
    by (rule unsigned_less)
  finally show ?thesis
    by (simp add: unat_word_ariths)
qed

text \<open>
  The measure of a C loop \<^verbatim>\<open>for (usize i = ...; i < n; i++)\<close>: the counter never wraps,
  because it is below the bound when it is incremented.
\<close>

lemma loop_measure [termination_simp]:
  "i < (n :: 'a::len word) \<Longrightarrow> unat n - unat (i + 1) < unat n - unat i"
  by (simp add: unat_Suc_less word_less_nat_alt)

lemma unat_add_bounded:
  "unat (a :: u64) + unat b < 2 ^ 64 \<Longrightarrow> unat (a + b) = unat a + unat b"
  by (simp add: unat_word_ariths)

lemma unat_sub_bounded: "b \<le> (a :: 'a::len word) \<Longrightarrow> unat (a - b) = unat a - unat b"
  by (rule unat_sub)

lemma unat_uminus: "x \<noteq> (0 :: u64) \<Longrightarrow> unat (- x) = 2 ^ 64 - unat x"
proof -
  assume "x \<noteq> 0"
  then have x: "0 < unat x" "unat x < 2 ^ 64" "unat (- x) < 2 ^ 64"
    using unsigned_less [of x] unsigned_less [of "- x"] by (simp_all add: unat_gt_0)
  have "(unat (- x) + unat x) mod 2 ^ 64 = unat (- x + x)"
    unfolding unat_word_ariths(1) by simp
  then have "2 ^ 64 dvd unat (- x) + unat x" by (simp add: dvd_eq_mod_eq_0)
  then obtain k where k: "unat (- x) + unat x = 2 ^ 64 * k" by (elim dvdE)
  have "2 ^ 64 * k < 2 ^ 64 * 2" using k x by linarith
  moreover have "0 < 2 ^ 64 * k" using k x by linarith
  ultimately have "k = 1" by simp
  with k show ?thesis by simp
qed

section \<open>Sets given by cases\<close>

lemma Collect_if_simps [simp]:
  "{k. if k \<in> A then True else k \<in> B} = B \<union> A"
  "{k. if k \<in> A then False else k \<in> B} = B - A"
  by auto

section \<open>Signed readings\<close>

lemma sint_small:
  fixes x :: u64
  assumes "unat x < 2 ^ 63"
  shows "sint x = int (unat x)"
proof -
  have "int (unat x) < int (2 ^ 63)" using assms by (simp only: of_nat_less_iff)
  then have "take_bit 63 (uint x) = uint x" by (simp add: take_bit_int_eq_self_iff)
  moreover have "\<not> bit (uint x) 63" using assms
    by (metis bit_take_bit_iff calculation order_less_irrefl)
  ultimately show ?thesis by (simp add: sint_uint signed_take_bit_eq_if_positive)
qed

end
