(* ===== verification/Ringbuf.thy ===== *)
theory Ringbuf
  imports Prelude
begin

text \<open>
  The byte ring buffer of \<^verbatim>\<open>src/src/kernel/ds/ringbuf.c\<close>.  \<^verbatim>\<open>head\<close> and \<^verbatim>\<open>tail\<close> run freely
  and are reduced modulo the size at each access; \<^verbatim>\<open>count\<close> says how many bytes are stored.
  The abstraction \<open>ring_contents\<close> is the list of stored bytes, oldest first, and the theorems
  show that reading and writing are the operations of a bounded FIFO on that list.

  A read returns the bytes it stores through \<^verbatim>\<open>buf\<close>, as a list; a write takes the bytes it
  reads through \<^verbatim>\<open>buf\<close>, and reading beyond them is an invalid access.
\<close>

section \<open>State and operations\<close>

record ringbuf =
  rb_buf :: "u8 list option"
  rb_size :: u64
  rb_head :: u64
  rb_tail :: u64
  rb_count :: u64
  rb_lock :: bool

definition ringbuf_assert_locked :: "ringbuf \<Rightarrow> unit option" where
  "ringbuf_assert_locked r = assert_that (rb_lock r)"

text \<open>\<^verbatim>\<open>i % ring->size\<close>; the division traps when the size is zero.\<close>

definition RINGBUF_INDEX :: "ringbuf \<Rightarrow> u64 \<Rightarrow> u64 option" where
  "RINGBUF_INDEX ring i = (if rb_size ring = 0 then None else Some (i mod rb_size ring))"

definition rb_load :: "ringbuf \<Rightarrow> u64 \<Rightarrow> u8 option" where
  "rb_load ring i = do { b \<leftarrow> rb_buf ring; j \<leftarrow> RINGBUF_INDEX ring i; array_get b j }"

definition rb_store :: "ringbuf \<Rightarrow> u64 \<Rightarrow> u8 \<Rightarrow> ringbuf option" where
  "rb_store ring i v = do {
     b \<leftarrow> rb_buf ring; j \<leftarrow> RINGBUF_INDEX ring i; b \<leftarrow> array_set b j v;
     Some (ring\<lparr>rb_buf := Some b\<rparr>) }"

definition ringbuf_isempty :: "ringbuf \<Rightarrow> bool option" where
  "ringbuf_isempty ring = do { ringbuf_assert_locked ring; Some (rb_count ring = 0) }"

definition ringbuf_isfull :: "ringbuf \<Rightarrow> bool option" where
  "ringbuf_isfull ring = do { ringbuf_assert_locked ring; Some (rb_count ring = rb_size ring) }"

text \<open>The loop of \<^verbatim>\<open>ringbuf_read\<close>: the bytes read, the value of \<^verbatim>\<open>n\<close> at the end, the ring.\<close>

function ringbuf_read_loop :: "ringbuf \<Rightarrow> u64 \<Rightarrow> (u8 list \<times> u64 \<times> ringbuf) option" where
  "ringbuf_read_loop ring n =
     (if n \<noteq> 0 then do {
        empty \<leftarrow> ringbuf_isempty ring;
        if empty then Some ([], n, ring)
        else do {
          c \<leftarrow> rb_load ring (rb_head ring);
          (cs, n', ring') \<leftarrow> ringbuf_read_loop
             (ring\<lparr>rb_head := rb_head ring + 1, rb_count := rb_count ring - 1\<rparr>) (n - 1);
          Some (c # cs, n', ring') } }
      else Some ([], n, ring))"
  by pat_completeness auto
termination
  by (relation "measure (\<lambda>(ring, n). unat n)") (auto simp: unat_minus_one unat_gt_0)

definition ringbuf_read :: "ringbuf \<Rightarrow> u64 \<Rightarrow> (u64 \<times> u8 list \<times> ringbuf) option" where
  "ringbuf_read ring n = do {
     ringbuf_assert_locked ring;
     (cs, n', ring') \<leftarrow> ringbuf_read_loop ring n;
     Some (n - n', cs, ring') }"

function ringbuf_write_loop :: "ringbuf \<Rightarrow> u8 list \<Rightarrow> u64 \<Rightarrow> (u64 \<times> ringbuf) option" where
  "ringbuf_write_loop ring buf n =
     (if n \<noteq> 0 then do {
        full \<leftarrow> ringbuf_isfull ring;
        if full then Some (n, ring)
        else do {
          c \<leftarrow> array_get buf 0;
          ring \<leftarrow> rb_store ring (rb_tail ring) c;
          ringbuf_write_loop
            (ring\<lparr>rb_tail := rb_tail ring + 1, rb_count := rb_count ring + 1\<rparr>) (tl buf) (n - 1) } }
      else Some (n, ring))"
  by pat_completeness auto
termination
  by (relation "measure (\<lambda>(ring, buf, n). unat n)") (auto simp: unat_minus_one unat_gt_0)

definition ringbuf_write :: "ringbuf \<Rightarrow> u8 list \<Rightarrow> u64 \<Rightarrow> (u64 \<times> ringbuf) option" where
  "ringbuf_write ring buf n = do {
     ringbuf_assert_locked ring;
     (n', ring') \<leftarrow> ringbuf_write_loop ring buf n;
     Some (n - n', ring') }"

definition ringbuf_available :: "ringbuf \<Rightarrow> u64 option" where
  "ringbuf_available ring = do {
     ringbuf_assert_locked ring;
     if rb_tail ring \<ge> rb_head ring then Some (rb_tail ring - rb_head ring)
     else Some (rb_tail ring + rb_size ring - rb_head ring) }"

declare ringbuf_read_loop.simps [simp del] ringbuf_write_loop.simps [simp del]

text \<open>
  The constructors work on a heap of ring objects.  \<open>kbuf\<close> is what \<^verbatim>\<open>kmalloc\<close> returns for the
  byte buffer, \<open>p\<close> the address it returns for the ring (null when there is no memory).
  \<^verbatim>\<open>kfree\<close> of an object that is not allocated is an error of the caller.
\<close>

type_synonym ring_heap = "addr \<Rightarrow> ringbuf option"

definition ring_kfree :: "ring_heap \<Rightarrow> addr \<Rightarrow> ring_heap option" where
  "ring_kfree h p = do { assert_that (h p \<noteq> None); Some (h(p := None)) }"

definition ringbuf_init :: "u8 list option \<Rightarrow> ring_heap \<Rightarrow> u64 \<Rightarrow> addr \<Rightarrow> (int \<times> ring_heap) option" where
  "ringbuf_init kbuf h sz ring =
     (if ring = NULL then Some (- EINVAL, h)
      else case kbuf of
        None \<Rightarrow> do { h \<leftarrow> ring_kfree h ring; Some (- ENOMEM, h) }
      | Some buf \<Rightarrow> do {
          assert_that (h ring \<noteq> None);
          Some (0, h(ring \<mapsto> \<lparr>rb_buf = Some buf, rb_size = sz, rb_head = 0, rb_tail = 0,
                               rb_count = 0, rb_lock = False\<rparr>)) })"

definition ringbuf_new :: "addr \<Rightarrow> ringbuf \<Rightarrow> u8 list option \<Rightarrow> ring_heap \<Rightarrow> u64 \<Rightarrow> bool \<Rightarrow>
    (int \<times> addr option \<times> ring_heap) option" where
  "ringbuf_new p junk kbuf h sz rref = do {
     assert_that rref;
     if p = NULL then Some (- ENOMEM, None, h)
     else do {
       (err, h) \<leftarrow> ringbuf_init kbuf (h(p \<mapsto> junk)) sz p;
       if err \<noteq> 0
       then do { h \<leftarrow> ring_kfree h p; Some (err, None, h) }
       else Some (0, Some p, h) } }"

definition ringbuf_free_buffer :: "ringbuf \<Rightarrow> ringbuf" where
  "ringbuf_free_buffer r =
     (if rb_buf r \<noteq> None
      then r\<lparr>rb_head := 0, rb_size := 0, rb_tail := 0, rb_count := 0, rb_buf := None\<rparr>
      else r)"

definition ringbuf_free :: "ring_heap \<Rightarrow> addr \<Rightarrow> ring_heap option" where
  "ringbuf_free h r = do { assert_that (r \<noteq> NULL); ring_kfree h r }"

section \<open>Abstraction and invariant\<close>

definition ring_contents :: "ringbuf \<Rightarrow> u8 list" where
  "ring_contents r = map (\<lambda>i. the (rb_buf r) ! ((unat (rb_head r) + i) mod unat (rb_size r)))
     [0..<unat (rb_count r)]"

text \<open>The counters have not wrapped around \<open>2\<^sup>6\<^sup>4\<close>.\<close>

definition ring_inv :: "ringbuf \<Rightarrow> bool" where
  "ring_inv r \<longleftrightarrow>
     (case rb_buf r of None \<Rightarrow> False | Some b \<Rightarrow> length b = unat (rb_size r)) \<and> rb_size r \<noteq> 0 \<and>
     rb_count r \<le> rb_size r \<and> unat (rb_tail r) = unat (rb_head r) + unat (rb_count r)"

lemma ring_invE:
  assumes "ring_inv r"
  obtains b where "rb_buf r = Some b" "length b = unat (rb_size r)" "0 < unat (rb_size r)"
    "unat (rb_count r) \<le> unat (rb_size r)" "unat (rb_tail r) = unat (rb_head r) + unat (rb_count r)"
  using assms by (auto simp: ring_inv_def word_le_nat_alt unat_gt_0 split: option.splits)

lemma length_ring_contents [simp]: "length (ring_contents r) = unat (rb_count r)"
  by (simp add: ring_contents_def)

lemma unat_pos_minus_one: "n \<noteq> 0 \<Longrightarrow> unat (n - 1 :: u64) = unat n - 1"
  by (simp add: unat_minus_one)

lemma read_step:
  assumes inv: "ring_inv r" and "rb_count r \<noteq> 0"
  defines "r' \<equiv> r\<lparr>rb_head := rb_head r + 1, rb_count := rb_count r - 1\<rparr>"
  shows "rb_load r (rb_head r) = Some (hd (ring_contents r))"
    and "ring_inv r'" and "ring_contents r' = tl (ring_contents r)"
proof -
  obtain b where b: "rb_buf r = Some b" "length b = unat (rb_size r)" "0 < unat (rb_size r)"
    "unat (rb_count r) \<le> unat (rb_size r)" "unat (rb_tail r) = unat (rb_head r) + unat (rb_count r)"
    using inv by (rule ring_invE)
  have c: "0 < unat (rb_count r)" using assms(2) by (simp add: unat_gt_0)
  have h: "unat (rb_head r + 1) = Suc (unat (rb_head r))"
    using b(5) c by (intro unat_Suc_less [of _ "rb_tail r"]) (simp add: word_less_nat_alt)
  have c1: "unat (rb_count r - 1) = unat (rb_count r) - 1"
    by (rule unat_pos_minus_one [OF assms(2)])
  have i: "[0..<unat (rb_count r)] = 0 # map Suc [0..<unat (rb_count r) - 1]"
    using c by (simp add: map_Suc_upt upt_conv_Cons)
  show "rb_load r (rb_head r) = Some (hd (ring_contents r))"
    using b c i inv by (simp add: rb_load_def RINGBUF_INDEX_def ring_contents_def unat_mod ring_inv_def)
  show "ring_inv r'"
    using inv b h c1 c by (auto simp: ring_inv_def r'_def word_le_nat_alt)
  show "ring_contents r' = tl (ring_contents r)"
    using b h c1 i by (simp add: ring_contents_def r'_def comp_def)
qed

lemma read_loop_spec:
  assumes "ring_inv r" "rb_lock r"
  shows "\<exists>n' r'. ringbuf_read_loop r n = Some (take (unat n) (ring_contents r), n', r') \<and>
    unat n' = unat n - unat (rb_count r) \<and> ring_inv r' \<and> rb_lock r' \<and> rb_size r' = rb_size r \<and>
    ring_contents r' = drop (unat n) (ring_contents r) \<and> rb_tail r' = rb_tail r"
  using assms
proof (induction "unat n" arbitrary: n r)
  case 0
  then show ?case by (subst ringbuf_read_loop.simps) (simp add: unat_eq_zero)
next
  case (Suc k)
  then have n: "n \<noteq> 0" by auto
  have n1: "unat (n - 1) = k" using unat_pos_minus_one [OF n] Suc.hyps(2) by simp
  show ?case
  proof (cases "rb_count r = 0")
    case True
    then have "ring_contents r = []" by (simp add: ring_contents_def)
    with True n Suc.prems show ?thesis
      by (subst ringbuf_read_loop.simps) (simp add: ringbuf_isempty_def ringbuf_assert_locked_def)
  next
    case False
    let ?r = "r\<lparr>rb_head := rb_head r + 1, rb_count := rb_count r - 1\<rparr>"
    note step = read_step [OF Suc.prems(1) False]
    obtain n' r' where ih: "ringbuf_read_loop ?r (n - 1) = Some (take k (ring_contents ?r), n', r')"
      "unat n' = k - unat (rb_count ?r)" "ring_inv r'" "rb_lock r'" "rb_size r' = rb_size ?r"
      "ring_contents r' = drop k (ring_contents ?r)" "rb_tail r' = rb_tail r"
      using Suc.hyps(1) [of "n - 1" ?r] n1 step(2) Suc.prems(2) by auto
    have ne: "ring_contents r \<noteq> []" using False by (metis length_ring_contents length_0_conv unat_eq_zero)
    have "unat n' = unat n - unat (rb_count r)"
      using ih(2) Suc.hyps(2) unat_pos_minus_one [OF False] False unat_gt_0 [of "rb_count r"] by simp
    with ih step n False Suc.hyps(2) [symmetric] Suc.prems(2) ne show ?thesis
      by (subst ringbuf_read_loop.simps)
         (simp add: ringbuf_isempty_def ringbuf_assert_locked_def take_Suc drop_Suc)
  qed
qed

lemma ringbuf_read_spec:
  assumes "ring_inv r" "rb_lock r"
  shows "\<exists>r'. ringbuf_read r n = Some (min n (rb_count r), take (unat n) (ring_contents r), r') \<and>
    ring_inv r' \<and> rb_lock r' \<and> rb_size r' = rb_size r \<and>
    ring_contents r' = drop (unat n) (ring_contents r) \<and> rb_tail r' = rb_tail r"
proof -
  obtain n' r' where r': "ringbuf_read_loop r n = Some (take (unat n) (ring_contents r), n', r')"
    "unat n' = unat n - unat (rb_count r)" "ring_inv r'" "rb_lock r'" "rb_size r' = rb_size r"
    "ring_contents r' = drop (unat n) (ring_contents r)" "rb_tail r' = rb_tail r"
    using read_loop_spec [OF assms] by blast
  have "n' \<le> n" using r'(2) by (simp add: word_le_nat_alt)
  then have "unat (n - n') = unat (min n (rb_count r))"
    using r'(2) by (simp add: unat_sub min_def word_le_nat_alt)
  then have "n - n' = min n (rb_count r)" by (simp add: word_unat_eq_iff)
  with r' assms(2) show ?thesis
    by (simp add: ringbuf_read_def ringbuf_assert_locked_def)
qed

text \<open>C13: Reading is dequeuing: a read of \<open>n\<close> bytes from a locked ring returns the
  \<open>min n count\<close> oldest bytes in order, leaves the rest, and keeps the invariant.\<close>

theorem ringbuf_read_fifo:
  assumes "ring_inv r" "rb_lock r"
  shows "\<exists>r'. ringbuf_read r n = Some (min n (rb_count r), take (unat n) (ring_contents r), r') \<and>
    ring_inv r' \<and> rb_lock r' \<and> rb_size r' = rb_size r \<and>
    ring_contents r' = drop (unat n) (ring_contents r)"
  using ringbuf_read_spec [OF assms] by blast

lemma write_step:
  assumes inv: "ring_inv r" and room: "rb_count r \<noteq> rb_size r"
    and nowrap: "unat (rb_tail r) + 1 < 2 ^ 64"
  shows "\<exists>r1. rb_store r (rb_tail r) c = Some r1 \<and> rb_tail r1 = rb_tail r \<and> rb_count r1 = rb_count r \<and>
    rb_size r1 = rb_size r \<and> rb_lock r1 = rb_lock r \<and> rb_head r1 = rb_head r \<and>
    unat (rb_count r + 1) = unat (rb_count r) + 1 \<and> unat (rb_tail r + 1) = unat (rb_tail r) + 1 \<and>
    ring_inv (r1\<lparr>rb_tail := rb_tail r + 1, rb_count := rb_count r + 1\<rparr>) \<and>
    ring_contents (r1\<lparr>rb_tail := rb_tail r + 1, rb_count := rb_count r + 1\<rparr>) = ring_contents r @ [c]"
proof -
  obtain b where b: "rb_buf r = Some b" "length b = unat (rb_size r)" "0 < unat (rb_size r)"
    "unat (rb_count r) \<le> unat (rb_size r)" "unat (rb_tail r) = unat (rb_head r) + unat (rb_count r)"
    using inv by (rule ring_invE)
  let ?s = "unat (rb_size r)" and ?c = "unat (rb_count r)" and ?h = "unat (rb_head r)"
  have lt: "?c < ?s" using b(4) room by (metis le_neq_implies_less word_unat_eq_iff)
  have c1: "unat (rb_count r + 1) = ?c + 1"
    using lt by (simp add: unat_Suc_less [of _ "rb_size r"] word_less_nat_alt)
  have t1: "unat (rb_tail r + 1) = unat (rb_tail r) + 1"
    using nowrap by (simp add: unat_word_ariths)
  let ?j = "(?h + ?c) mod ?s"
  let ?r1 = "r\<lparr>rb_buf := Some (b[?j := c])\<rparr>"
  have "rb_store r (rb_tail r) c = Some ?r1"
    using b inv by (simp add: rb_store_def RINGBUF_INDEX_def unat_mod ring_inv_def)
  moreover have "ring_inv (?r1\<lparr>rb_tail := rb_tail r + 1, rb_count := rb_count r + 1\<rparr>)"
    using inv b c1 t1 lt by (simp add: ring_inv_def word_le_nat_alt)
  moreover have "b[?j := c] ! ((?h + i) mod ?s) = (if i = ?c then c else b ! ((?h + i) mod ?s))"
    if "i < ?c + 1" for i
  proof (cases "i = ?c")
    case False
    then have i: "i < ?c" using that by simp
    have "(?h + i) mod ?s \<noteq> ?j"
    proof
      assume "(?h + i) mod ?s = ?j"
      then have "?s dvd (?h + ?c) - (?h + i)" using i by (metis add_le_cancel_left less_imp_le mod_eq_dvd_iff_nat)
      then have "?s dvd ?c - i" by simp
      then have "?s \<le> ?c - i" using i by (intro dvd_imp_le) simp_all
      with lt show False by simp
    qed
    then show ?thesis using False b(3) by simp
  qed (use b in simp)
  then have "ring_contents (?r1\<lparr>rb_tail := rb_tail r + 1, rb_count := rb_count r + 1\<rparr>) = ring_contents r @ [c]"
    using b c1 by (simp add: ring_contents_def)
  ultimately show ?thesis using c1 t1 by auto
qed

lemma write_loop_spec:
  assumes "ring_inv r" "rb_lock r" "unat n \<le> length buf" "unat (rb_tail r) + unat n < 2 ^ 64"
  shows "\<exists>n' r'. ringbuf_write_loop r buf n = Some (n', r') \<and>
    unat n' = unat n - (unat (rb_size r) - unat (rb_count r)) \<and>
    ring_inv r' \<and> rb_lock r' \<and> rb_size r' = rb_size r \<and>
    ring_contents r' = ring_contents r @ take (min (unat n) (unat (rb_size r) - unat (rb_count r))) buf \<and> rb_head r' = rb_head r"
  using assms
proof (induction "unat n" arbitrary: n r buf)
  case 0
  then show ?case by (subst ringbuf_write_loop.simps) (simp add: unat_eq_zero)
next
  case (Suc k)
  then have n: "n \<noteq> 0" by auto
  have n1: "unat (n - 1) = k" using unat_pos_minus_one [OF n] Suc.hyps(2) by simp
  obtain c cs where buf: "buf = c # cs" using Suc.hyps(2) Suc.prems(3) by (cases buf) auto
  show ?case
  proof (cases "rb_count r = rb_size r")
    case True
    with n Suc.prems show ?thesis
      by (subst ringbuf_write_loop.simps) (simp add: ringbuf_isfull_def ringbuf_assert_locked_def)
  next
    case False
    obtain r1 where r1: "rb_store r (rb_tail r) c = Some r1" "rb_tail r1 = rb_tail r"
      "rb_count r1 = rb_count r" "rb_size r1 = rb_size r" "rb_lock r1 = rb_lock r" "rb_head r1 = rb_head r"
      "unat (rb_count r + 1) = unat (rb_count r) + 1" "unat (rb_tail r + 1) = unat (rb_tail r) + 1"
      "ring_inv (r1\<lparr>rb_tail := rb_tail r + 1, rb_count := rb_count r + 1\<rparr>)"
      "ring_contents (r1\<lparr>rb_tail := rb_tail r + 1, rb_count := rb_count r + 1\<rparr>) = ring_contents r @ [c]"
      using write_step [OF Suc.prems(1) False] Suc.prems(4) Suc.hyps(2) by fastforce
    let ?r = "r1\<lparr>rb_tail := rb_tail r + 1, rb_count := rb_count r + 1\<rparr>"
    let ?room = "unat (rb_size r) - unat (rb_count r)"
    have room: "0 < ?room" "unat (rb_size r) - unat (rb_count r + 1) = ?room - 1"
      using Suc.prems(1) False r1(7)
      by (auto simp: ring_inv_def word_le_nat_alt word_unat_eq_iff)
    obtain n' r' where ih: "ringbuf_write_loop ?r cs (n - 1) = Some (n', r')"
      "unat n' = k - (?room - 1)" "ring_inv r'" "rb_lock r'" "rb_size r' = rb_size r"
      "ring_contents r' = (ring_contents r @ [c]) @ take (min k (?room - 1)) cs" "rb_head r' = rb_head r"
      using Suc.hyps(1) [of "n - 1" ?r cs] n1 r1 Suc.prems Suc.hyps(2) buf room(2) by auto
    have "take (min (Suc k) ?room) buf = c # take (min k (?room - 1)) cs"
      using buf room(1) by (cases ?room) simp_all
    with ih n False r1 room(1) Suc.hyps(2) [symmetric] Suc.prems(2) buf show ?thesis
      by (subst ringbuf_write_loop.simps) (simp add: ringbuf_isfull_def ringbuf_assert_locked_def)
  qed
qed

text \<open>Writing is enqueuing with a bound: a write of \<open>n\<close> bytes appends as many of them as
  there is room for, in order, returns that number, and keeps the invariant (as long as the
  free-running \<^verbatim>\<open>tail\<close> counter does not reach \<open>2\<^sup>6\<^sup>4\<close>).\<close>

theorem ringbuf_write_fifo:
  assumes "ring_inv r" "rb_lock r" "unat n \<le> length buf" "unat (rb_tail r) + unat n < 2 ^ 64"
  shows "\<exists>r'. ringbuf_write r buf n = Some (min n (rb_size r - rb_count r), r') \<and>
    ring_inv r' \<and> rb_lock r' \<and> rb_size r' = rb_size r \<and>
    ring_contents r' = ring_contents r @ take (unat (min n (rb_size r - rb_count r))) buf \<and> rb_head r' = rb_head r"
proof -
  obtain n' r' where r': "ringbuf_write_loop r buf n = Some (n', r')"
    "unat n' = unat n - (unat (rb_size r) - unat (rb_count r))"
    "ring_inv r'" "rb_lock r'" "rb_size r' = rb_size r"
    "ring_contents r' = ring_contents r @ take (min (unat n) (unat (rb_size r) - unat (rb_count r))) buf" "rb_head r' = rb_head r"
    using write_loop_spec [OF assms] by blast
  have room: "unat (rb_size r - rb_count r) = unat (rb_size r) - unat (rb_count r)"
    using assms(1) by (auto simp: ring_inv_def unat_sub)
  have mins: "unat (min n (rb_size r - rb_count r)) = min (unat n) (unat (rb_size r) - unat (rb_count r))"
    using room by (simp add: min_def word_le_nat_alt)
  have "n' \<le> n" using r'(2) by (simp add: word_le_nat_alt)
  then have "unat (n - n') = unat (min n (rb_size r - rb_count r))"
    unfolding unat_sub [OF \<open>n' \<le> n\<close>] r'(2) mins by (simp add: min_def)
  then have "n - n' = min n (rb_size r - rb_count r)" by (simp add: word_unat_eq_iff)
  with r' mins assms(2) show ?thesis
    by (simp add: ringbuf_write_def ringbuf_assert_locked_def)
qed

text \<open>\<^verbatim>\<open>ringbuf_available\<close> returns the number of stored bytes, and the two tests agree
  with it, as long as the counters have not wrapped.\<close>

theorem ringbuf_available_count:
  assumes "ring_inv r" "rb_lock r"
  shows "ringbuf_available r = Some (rb_count r) \<and>
    ringbuf_isempty r = Some (ring_contents r = []) \<and>
    ringbuf_isfull r = Some (length (ring_contents r) = unat (rb_size r))"
proof -
  have "unat (rb_tail r - rb_head r) = unat (rb_count r)"
    using assms(1) by (simp add: ring_inv_def unat_sub word_le_nat_alt)
  then have "rb_tail r - rb_head r = rb_count r" by (simp add: word_unat_eq_iff)
  moreover have "rb_head r \<le> rb_tail r" using assms(1) by (simp add: ring_inv_def word_le_nat_alt)
  moreover have "ring_contents r = [] \<longleftrightarrow> rb_count r = 0"
    by (metis length_ring_contents length_0_conv unat_eq_zero)
  ultimately show ?thesis
    using assms(2)
    by (simp add: ringbuf_available_def ringbuf_isempty_def ringbuf_isfull_def
        ringbuf_assert_locked_def word_unat_eq_iff)
qed

section \<open>Construction\<close>

lemma ringbuf_new_establishes_cases:
  assumes "p \<noteq> NULL" "length buf = unat sz" "sz \<noteq> 0"
  shows "\<exists>r. ringbuf_new p junk (Some buf) h sz True = Some (0, Some p, h(p \<mapsto> r)) \<and>
      ring_inv r \<and> ring_contents r = [] \<and> \<not> rb_lock r"
    and "ringbuf_new NULL junk kbuf h sz True = Some (- ENOMEM, None, h)"
  using assms
  by (auto simp: ringbuf_new_def ringbuf_init_def ring_inv_def ring_contents_def
      intro!: exI [of _ "\<lparr>rb_buf = Some buf, rb_size = sz, rb_head = 0, rb_tail = 0,
        rb_count = 0, rb_lock = False\<rparr>"])

text \<open>\<^verbatim>\<open>ringbuf_new\<close> returns an empty, well-formed ring when both allocations succeed, and
  \<^verbatim>\<open>-ENOMEM\<close> without touching the heap when there is no memory for the ring.\<close>

theorem ringbuf_new_establishes:
  assumes "p \<noteq> NULL" "length buf = unat sz" "sz \<noteq> 0"
  shows "(\<exists>r. ringbuf_new p junk (Some buf) h sz True = Some (0, Some p, h(p \<mapsto> r)) \<and>
      ring_inv r \<and> ring_contents r = [] \<and> \<not> rb_lock r) \<and>
    (ringbuf_new NULL junk kbuf h sz True = Some (- ENOMEM, None, h))"
  using ringbuf_new_establishes_cases [OF assms] by blast

text \<open>When the allocation of the byte buffer fails, \<^verbatim>\<open>ringbuf_init\<close> frees the ring and
  \<^verbatim>\<open>ringbuf_new\<close> frees it again: the call never completes without a double free.\<close>

theorem ringbuf_new_double_free:
  assumes "p \<noteq> NULL"
  shows "ringbuf_new p junk None h sz True = None"
  using assms by (simp add: ringbuf_new_def ringbuf_init_def ring_kfree_def)

section \<open>The theorems at a concrete ring\<close>

definition sample_ring :: ringbuf where
  "sample_ring = \<lparr>rb_buf = Some [10, 20, 30, 40], rb_size = 4, rb_head = 3, rb_tail = 5,
     rb_count = 2, rb_lock = True\<rparr>"

lemma sample_ring_ok [simp]:
  "ring_inv sample_ring" "rb_lock sample_ring" "ring_contents sample_ring = [40, 10]"
  "rb_size sample_ring = 4" "rb_count sample_ring = 2" "rb_tail sample_ring = 5"
  by (simp_all add: sample_ring_def ring_inv_def ring_contents_def upt_rec)

theorem ringbuf_read_fifo_witness:
  "\<exists>r'. ringbuf_read sample_ring 1 = Some (1, [40], r') \<and> ring_contents r' = [10]"
  using ringbuf_read_fifo [of sample_ring 1] by (auto simp: min_def)

theorem ringbuf_write_fifo_witness:
  "\<exists>r'. ringbuf_write sample_ring [1, 2, 3] 3 = Some (2, r') \<and> ring_contents r' = [40, 10, 1, 2]"
  using ringbuf_write_fifo [of sample_ring 3 "[1, 2, 3]"] by (auto simp: min_def)

theorem ringbuf_available_count_witness: "ringbuf_available sample_ring = Some 2"
  using ringbuf_available_count [of sample_ring] by simp

theorem ringbuf_new_establishes_witness:
  "\<exists>r. ringbuf_new 64 sample_ring (Some [0, 0]) Map.empty 2 True = Some (0, Some 64, [64 \<mapsto> r]) \<and>
    ring_inv r"
  using ringbuf_new_establishes [of 64 "[0, 0]" 2 sample_ring Map.empty] by auto

theorem ringbuf_new_double_free_witness: "ringbuf_new 64 sample_ring None Map.empty 2 True = None"
  using ringbuf_new_double_free [of 64 sample_ring Map.empty 2] by simp

end
