(* ===== verification/Bitmap.thy ===== *)
theory Bitmap
  imports Prelude
begin

text \<open>
  The bitmap allocator of \<^verbatim>\<open>src/src/kernel/ds/bitmap.c\<close>: an array of 64-bit units, a
  size in bits and a lock.  The operations are translated with their loops, their
  \<^verbatim>\<open>usize\<close> arithmetic (which wraps) and their array accesses (which can be out of
  bounds).  The abstraction \<open>bits\<close> is the set of positions that are set; the theorems show
  that each operation acts on that set as its name says.

  The lock is modelled by the flag \<open>bm_lock\<close>: held by the running context or not.
  \<^verbatim>\<open>spin_lock\<close> panics when the caller already holds the lock, \<^verbatim>\<open>spin_unlock\<close> when it
  does not.  The output pointer \<^verbatim>\<open>pos\<close> is an \<open>option\<close>: the value stored there, if any.
\<close>

section \<open>State and elementary accesses\<close>

record bitmap =
  bm_map :: "u64 list"
  bm_size :: u64
  bm_lock :: bool

definition bitmap_lock :: "bitmap \<Rightarrow> bitmap option" where
  "bitmap_lock bm = do { assert_that (\<not> bm_lock bm); Some (bm\<lparr>bm_lock := True\<rparr>) }"

definition bitmap_unlock :: "bitmap \<Rightarrow> bitmap option" where
  "bitmap_unlock bm = do { assert_that (bm_lock bm); Some (bm\<lparr>bm_lock := False\<rparr>) }"

abbreviation BITS_PER_USIZE :: u64 where "BITS_PER_USIZE \<equiv> 64"

definition num_units :: "u64 \<Rightarrow> u64" where
  "num_units bm_sz = (bm_sz + BITS_PER_USIZE - 1) div BITS_PER_USIZE"

text \<open>The mask \<^verbatim>\<open>1UL << bit\<close> of a position, and the access of the unit that holds it.\<close>

definition bit_mask :: "u64 \<Rightarrow> u64" where
  "bit_mask p = push_bit (unat (p mod BITS_PER_USIZE)) 1"

definition bm_test_bit :: "u64 list \<Rightarrow> u64 \<Rightarrow> bool option" where
  "bm_test_bit m p = do {
     w \<leftarrow> array_get m (p div BITS_PER_USIZE);
     Some (w AND bit_mask p \<noteq> 0) }"

definition bm_modify_bit :: "(u64 \<Rightarrow> u64 \<Rightarrow> u64) \<Rightarrow> u64 list \<Rightarrow> u64 \<Rightarrow> u64 list option" where
  "bm_modify_bit f m p = do {
     w \<leftarrow> array_get m (p div BITS_PER_USIZE);
     array_set m (p div BITS_PER_USIZE) (f w (bit_mask p)) }"

text \<open>
  The two loops every range operation is made of: does some bit of the range have the
  value \<open>v\<close> (the loop leaves at the first one), and modify every bit of the range.
\<close>

function bm_scan :: "bool \<Rightarrow> u64 list \<Rightarrow> u64 \<Rightarrow> u64 \<Rightarrow> u64 \<Rightarrow> bool option" where
  "bm_scan v m pos nbits i =
     (if i < nbits
      then do { b \<leftarrow> bm_test_bit m (pos + i);
                if b = v then Some True else bm_scan v m pos nbits (i + 1) }
      else Some False)"
  by pat_completeness auto
termination
  by (relation "measure (\<lambda>(v, m, pos, nbits, i). unat nbits - unat i)") (auto simp: loop_measure)

function bm_update :: "(u64 \<Rightarrow> u64 \<Rightarrow> u64) \<Rightarrow> u64 list \<Rightarrow> u64 \<Rightarrow> u64 \<Rightarrow> u64 \<Rightarrow> u64 list option" where
  "bm_update f m pos nbits i =
     (if i < nbits
      then do { m' \<leftarrow> bm_modify_bit f m (pos + i); bm_update f m' pos nbits (i + 1) }
      else Some m)"
  by pat_completeness auto
termination
  by (relation "measure (\<lambda>(f, m, pos, nbits, i). unat nbits - unat i)") (auto simp: loop_measure)

text \<open>The loop \<^verbatim>\<open>for (i = from; i < n; i++) bm_map[i] = v\<close>.\<close>

function bm_fill :: "u64 \<Rightarrow> u64 list \<Rightarrow> u64 \<Rightarrow> u64 \<Rightarrow> u64 list option" where
  "bm_fill v m n i =
     (if i < n then do { m' \<leftarrow> array_set m i v; bm_fill v m' n (i + 1) } else Some m)"
  by pat_completeness auto
termination
  by (relation "measure (\<lambda>(v, m, n, i). unat n - unat i)") (auto simp: loop_measure)

declare bm_scan.simps [simp del] bm_update.simps [simp del] bm_fill.simps [simp del]

section \<open>Operations\<close>

text \<open>
  Allocation: a null argument is \<^term>\<open>None\<close>, and \<open>kcalloc_ok\<close>, \<open>kmalloc_ok\<close> say whether the
  kernel allocator returns memory.  \<^verbatim>\<open>kcalloc\<close> returns zeroed memory.
\<close>

definition bitmap_init :: "bitmap option \<Rightarrow> u64 list option \<Rightarrow> u64 \<Rightarrow> (int \<times> bitmap option) option" where
  "bitmap_init bitmap bm_array bm_sz =
     (if bitmap = None \<or> bm_array = None \<or> bm_sz = 0 then Some (- EINVAL, bitmap)
      else do {
        m \<leftarrow> bm_fill 0 (the bm_array) (num_units bm_sz) 0;
        Some (0, Some \<lparr>bm_map = m, bm_size = bm_sz, bm_lock = False\<rparr>) })"

definition bitmap_init_array :: "bool \<Rightarrow> bitmap option \<Rightarrow> u64 \<Rightarrow> (int \<times> bitmap option) option" where
  "bitmap_init_array kcalloc_ok bitmap bm_sz =
     (if bitmap = None then Some (- EINVAL, bitmap)
      else if \<not> kcalloc_ok then Some (- ENOMEM, bitmap)
      else bitmap_init bitmap (Some (replicate (unat (num_units bm_sz)) 0)) bm_sz)"

definition bitmap_alloc :: "bool \<Rightarrow> bool \<Rightarrow> bitmap \<Rightarrow> bool \<Rightarrow> u64 \<Rightarrow> (int \<times> bitmap option) option" where
  "bitmap_alloc kcalloc_ok kmalloc_ok fresh ppbm bm_sz =
     (if \<not> ppbm \<or> bm_sz = 0 then Some (- 1, None)
      else if \<not> kcalloc_ok then Some (- 1, None)
      else if \<not> kmalloc_ok then Some (- ENOMEM, None)
      else do {
        (err, bitmap) \<leftarrow>
          bitmap_init (Some fresh) (Some (replicate (unat (num_units bm_sz)) 0)) bm_sz;
        if err \<noteq> 0 then Some (err, None) else Some (0, bitmap) })"

definition bitmap_set :: "bitmap \<Rightarrow> u64 \<Rightarrow> u64 \<Rightarrow> (int \<times> bitmap) option" where
  "bitmap_set bm pos nbits = do {
     bm \<leftarrow> bitmap_lock bm;
     if pos + nbits > bm_size bm
     then do { bm \<leftarrow> bitmap_unlock bm; Some (- EINVAL, bm) }
     else do {
       found \<leftarrow> bm_scan True (bm_map bm) pos nbits 0;
       if found then do { bm \<leftarrow> bitmap_unlock bm; Some (- EALREADY, bm) }
       else do {
         m \<leftarrow> bm_update (OR) (bm_map bm) pos nbits 0;
         bm \<leftarrow> bitmap_unlock (bm\<lparr>bm_map := m\<rparr>);
         Some (0, bm) } } }"

definition bitmap_unset :: "bitmap \<Rightarrow> u64 \<Rightarrow> u64 \<Rightarrow> (int \<times> bitmap) option" where
  "bitmap_unset bm pos nbits = do {
     bm \<leftarrow> bitmap_lock bm;
     if pos + nbits > bm_size bm
     then do { bm \<leftarrow> bitmap_unlock bm; Some (- EINVAL, bm) }
     else do {
       found \<leftarrow> bm_scan False (bm_map bm) pos nbits 0;
       if found then do { bm \<leftarrow> bitmap_unlock bm; Some (- EALREADY, bm) }
       else do {
         m \<leftarrow> bm_update (\<lambda>w b. w AND NOT b) (bm_map bm) pos nbits 0;
         bm \<leftarrow> bitmap_unlock (bm\<lparr>bm_map := m\<rparr>);
         Some (0, bm) } } }"

definition bitmap_test :: "bitmap \<Rightarrow> u64 \<Rightarrow> u64 \<Rightarrow> (int \<times> bitmap) option" where
  "bitmap_test bm pos nbits = do {
     bm \<leftarrow> bitmap_lock bm;
     if pos + nbits > bm_size bm
     then do { bm \<leftarrow> bitmap_unlock bm; Some (- EINVAL, bm) }
     else do {
       found \<leftarrow> bm_scan False (bm_map bm) pos nbits 0;
       bm \<leftarrow> bitmap_unlock bm;
       Some (if found then 0 else 1, bm) } }"

text \<open>
  The search loop of \<^verbatim>\<open>bitmap_alloc_range\<close>: \<open>lim\<close> is \<^verbatim>\<open>bm_size - nbits\<close> and the result is
  the first start of a free range with the updated units, or \<^term>\<open>None\<close> inside
  \<^term>\<open>Some\<close> when the loop runs out.
\<close>

partial_function (option) alloc_range_loop ::
  "u64 list \<Rightarrow> u64 \<Rightarrow> u64 \<Rightarrow> u64 \<Rightarrow> (u64 \<times> u64 list) option option" where
  "alloc_range_loop m nbits lim i =
     (if i \<le> lim
      then do {
        used \<leftarrow> bm_scan True m i nbits 0;
        if \<not> used then do { m' \<leftarrow> bm_update (OR) m i nbits 0; Some (Some (i, m')) }
        else alloc_range_loop m nbits lim (i + 1) }
      else Some None)"

definition bitmap_alloc_range :: "bitmap \<Rightarrow> u64 \<Rightarrow> bool \<Rightarrow> (int \<times> u64 option \<times> bitmap) option" where
  "bitmap_alloc_range bm nbits pos = do {
     bm \<leftarrow> bitmap_lock bm;
     if nbits = 0 \<or> nbits > bm_size bm \<or> \<not> pos
     then do { bm \<leftarrow> bitmap_unlock bm; Some (- EINVAL, None, bm) }
     else do {
       r \<leftarrow> alloc_range_loop (bm_map bm) nbits (bm_size bm - nbits) 0;
       case r of
         Some (i, m) \<Rightarrow> do { bm \<leftarrow> bitmap_unlock (bm\<lparr>bm_map := m\<rparr>); Some (0, Some i, bm) }
       | None \<Rightarrow> do { bm \<leftarrow> bitmap_unlock bm; Some (- ENOSPC, None, bm) } } }"

definition bitmap_clear_all :: "bitmap \<Rightarrow> bitmap option" where
  "bitmap_clear_all bm = do {
     bm \<leftarrow> bitmap_lock bm;
     m \<leftarrow> bm_fill 0 (bm_map bm) (num_units (bm_size bm)) 0;
     bitmap_unlock (bm\<lparr>bm_map := m\<rparr>) }"

text \<open>\<^verbatim>\<open>map[n - 1] &= ~0 >> excess\<close>, executed when there are excess bits.\<close>

definition bm_trim :: "u64 list \<Rightarrow> u64 \<Rightarrow> u64 \<Rightarrow> u64 list option" where
  "bm_trim m n bm_sz =
     (let excess_bits = n * BITS_PER_USIZE - bm_sz in
      if excess_bits > 0
      then do {
        w \<leftarrow> array_get m (n - 1);
        array_set m (n - 1) (w AND drop_bit (unat excess_bits) (NOT 0)) }
      else Some m)"

definition bitmap_set_all :: "bitmap \<Rightarrow> bitmap option" where
  "bitmap_set_all bm = do {
     bm \<leftarrow> bitmap_lock bm;
     m \<leftarrow> bm_fill (NOT 0) (bm_map bm) (num_units (bm_size bm)) 0;
     m \<leftarrow> bm_trim m (num_units (bm_size bm)) (bm_size bm);
     bitmap_unlock (bm\<lparr>bm_map := m\<rparr>) }"

text \<open>The inner and the outer loop of \<^verbatim>\<open>bitmap_find_first_unset\<close>.\<close>

function unset_in_unit :: "u64 \<Rightarrow> u64 \<Rightarrow> u64 \<Rightarrow> u64 \<Rightarrow> u64 option" where
  "unset_in_unit w bm_sz i b =
     (if b < BITS_PER_USIZE
      then (let bit_pos = i * BITS_PER_USIZE + b in
            if bit_pos \<ge> bm_sz then None
            else if w AND push_bit (unat b) 1 = 0 then Some bit_pos
            else unset_in_unit w bm_sz i (b + 1))
      else None)"
  by pat_completeness auto
termination
  by (relation "measure (\<lambda>(w, s, i, b). unat (64 :: u64) - unat b)")
     (auto simp only: in_measure case_prod_conv intro!: loop_measure)

function first_unset_loop :: "u64 list \<Rightarrow> u64 \<Rightarrow> u64 \<Rightarrow> u64 \<Rightarrow> u64 option option" where
  "first_unset_loop m bm_sz n i =
     (if i < n
      then do {
        w \<leftarrow> array_get m i;
        case (if w \<noteq> NOT 0 then unset_in_unit w bm_sz i 0 else None) of
          Some p \<Rightarrow> Some (Some p)
        | None \<Rightarrow> first_unset_loop m bm_sz n (i + 1) }
      else Some None)"
  by pat_completeness auto
termination
  by (relation "measure (\<lambda>(m, s, n, i). unat n - unat i)") (auto simp: loop_measure)

declare unset_in_unit.simps [simp del] first_unset_loop.simps [simp del]

definition bitmap_find_first_unset :: "bitmap \<Rightarrow> (int \<times> u64 option \<times> bitmap) option" where
  "bitmap_find_first_unset bm = do {
     bm \<leftarrow> bitmap_lock bm;
     r \<leftarrow> first_unset_loop (bm_map bm) (bm_size bm) (num_units (bm_size bm)) 0;
     bm \<leftarrow> bitmap_unlock bm;
     Some (case r of Some p \<Rightarrow> (0, Some p, bm) | None \<Rightarrow> (- ENOENT, None, bm)) }"

text \<open>\<^verbatim>\<open>while (val) { count += val & 1; val >>= 1; }\<close>\<close>

function count_unit :: "u64 \<Rightarrow> u64 \<Rightarrow> u64" where
  "count_unit val count =
     (if val \<noteq> 0 then count_unit (drop_bit 1 val) (count + (val AND 1)) else count)"
  by pat_completeness auto
termination
  by (relation "measure (\<lambda>(val, count). unat val)")
     (auto simp: drop_bit_eq_div unat_div unat_gt_0)

function count_loop :: "u64 list \<Rightarrow> u64 \<Rightarrow> u64 \<Rightarrow> u64 \<Rightarrow> u64 option" where
  "count_loop m n i count =
     (if i < n
      then do { val \<leftarrow> array_get m i; count_loop m n (i + 1) (count_unit val count) }
      else Some count)"
  by pat_completeness auto
termination
  by (relation "measure (\<lambda>(m, n, i, c). unat n - unat i)") (auto simp: loop_measure)

declare count_unit.simps [simp del] count_loop.simps [simp del]

definition bitmap_count_set :: "bitmap \<Rightarrow> (u64 \<times> bitmap) option" where
  "bitmap_count_set bm = do {
     bm \<leftarrow> bitmap_lock bm;
     c \<leftarrow> count_loop (bm_map bm) (num_units (bm_size bm)) 0 0;
     bm \<leftarrow> bitmap_unlock bm;
     Some (c, bm) }"

definition bitmap_count_unset :: "bitmap \<Rightarrow> (u64 \<times> bitmap) option" where
  "bitmap_count_unset bm = do {
     (c, bm') \<leftarrow> bitmap_count_set bm;
     Some (bm_size bm - c, bm') }"

text \<open>
  \<^verbatim>\<open>krealloc\<close> keeps the old contents up to the smaller of the two sizes; what it returns
  beyond the old array is unspecified (\<open>junk\<close>).
\<close>

definition krealloc_units :: "u64 list \<Rightarrow> u64 \<Rightarrow> (nat \<Rightarrow> u64) \<Rightarrow> u64 list" where
  "krealloc_units m n junk = map (\<lambda>i. if i < length m then m ! i else junk i) [0..<unat n]"

definition bitmap_resize :: "bool \<Rightarrow> (nat \<Rightarrow> u64) \<Rightarrow> bitmap \<Rightarrow> u64 \<Rightarrow> (int \<times> bitmap) option" where
  "bitmap_resize krealloc_ok junk bm new_size = do {
     bm \<leftarrow> bitmap_lock bm;
     let old_num_units = num_units (bm_size bm);
     let new_num_units = num_units new_size;
     if \<not> krealloc_ok then do { bm \<leftarrow> bitmap_unlock bm; Some (- ENOMEM, bm) }
     else do {
       let m = krealloc_units (bm_map bm) new_num_units junk;
       m \<leftarrow> (if new_num_units > old_num_units
             then bm_fill 0 m new_num_units old_num_units else Some m);
       m \<leftarrow> bm_trim m new_num_units new_size;
       bm \<leftarrow> bitmap_unlock (bm\<lparr>bm_map := m, bm_size := new_size\<rparr>);
       Some (0, bm) } }"

definition bitmap_toggle :: "bitmap \<Rightarrow> u64 \<Rightarrow> u64 \<Rightarrow> (int \<times> bitmap) option" where
  "bitmap_toggle bm pos nbits =
     (if pos + nbits > bm_size bm then Some (- EINVAL, bm)
      else do {
        bm \<leftarrow> bitmap_lock bm;
        m \<leftarrow> bm_update (XOR) (bm_map bm) pos nbits 0;
        bm \<leftarrow> bitmap_unlock (bm\<lparr>bm_map := m\<rparr>);
        Some (0, bm) })"

text \<open>
  \<^verbatim>\<open>bitmap_copy\<close> returns the source (whose lock it takes and releases) and the
  destination; on failure the destination has the new size and a null map.
\<close>

definition bitmap_copy :: "bool \<Rightarrow> bitmap \<Rightarrow> bitmap \<Rightarrow> (int \<times> bitmap \<times> bitmap) option" where
  "bitmap_copy kmalloc_ok src dest = do {
     src \<leftarrow> bitmap_lock src;
     let dest = dest\<lparr>bm_size := bm_size src\<rparr>;
     let n = num_units (bm_size src);
     if \<not> kmalloc_ok
     then do { src \<leftarrow> bitmap_unlock src; Some (- EINVAL, src, dest\<lparr>bm_map := []\<rparr>) }
     else do {
       assert_that (unat n \<le> length (bm_map src));
       let dest = dest\<lparr>bm_map := take (unat n) (bm_map src), bm_lock := False\<rparr>;
       src \<leftarrow> bitmap_unlock src;
       Some (0, src, dest) } }"


section \<open>Abstraction and invariant\<close>

definition bm_bit :: "u64 list \<Rightarrow> nat \<Rightarrow> bool" where
  "bm_bit m k \<longleftrightarrow> k div 64 < length m \<and> bit (m ! (k div 64)) (k mod 64)"

definition bits :: "bitmap \<Rightarrow> nat set" where
  "bits bm = {k. k < unat (bm_size bm) \<and> bm_bit (bm_map bm) k}"

text \<open>
  The invariant: exactly the units the size needs, a size whose rounding to units does not
  wrap, and no bit set beyond the size (which the counting operations rely on).
\<close>

definition bitmap_inv :: "bitmap \<Rightarrow> bool" where
  "bitmap_inv bm \<longleftrightarrow>
     unat (bm_size bm) + 63 < 2 ^ 64 \<and>
     length (bm_map bm) = (unat (bm_size bm) + 63) div 64 \<and>
     (\<forall>k. bm_bit (bm_map bm) k \<longrightarrow> k < unat (bm_size bm))"

lemma bm_bit_bound: "bm_bit m k \<Longrightarrow> k < 64 * length m"
  by (auto simp: bm_bit_def less_mult_imp_div_less dest: dividend_less_div_times)

lemma bits_inv: "bitmap_inv bm \<Longrightarrow> bits bm = {k. bm_bit (bm_map bm) k}"
  by (auto simp: bitmap_inv_def bits_def)

lemma bits_less: "k \<in> bits bm \<Longrightarrow> k < unat (bm_size bm)"
  by (simp add: bits_def)

lemma finite_bits [simp]: "finite (bits bm)"
  by (simp add: bits_def)

lemma bits_lock [simp]: "bits (bm\<lparr>bm_lock := l\<rparr>) = bits bm"
  by (simp add: bits_def)

lemma bitmap_inv_lock [simp]: "bitmap_inv (bm\<lparr>bm_lock := l\<rparr>) = bitmap_inv bm"
  by (simp add: bitmap_inv_def)

lemma bitmap_lock_simps [simp]:
  "\<not> bm_lock bm \<Longrightarrow> bitmap_lock bm = Some (bm\<lparr>bm_lock := True\<rparr>)"
  "bm_lock bm \<Longrightarrow> bitmap_unlock bm = Some (bm\<lparr>bm_lock := False\<rparr>)"
  by (simp_all add: bitmap_lock_def bitmap_unlock_def)

lemma unlock_again [simp]: "\<not> bm_lock bm \<Longrightarrow> bm\<lparr>bm_lock := False\<rparr> = bm"
  by simp

lemma inv_covers: "bitmap_inv bm \<Longrightarrow> unat (bm_size bm) \<le> 64 * length (bm_map bm)"
  by (simp add: bitmap_inv_def)

lemma unat_num_units:
  "unat bm_sz + 63 < 2 ^ 64 \<Longrightarrow> unat (num_units bm_sz) = (unat bm_sz + 63) div 64"
proof -
  assume "unat bm_sz + 63 < 2 ^ 64"
  then have "unat (bm_sz + 63) = unat bm_sz + 63"
    using unat_add_bounded [of bm_sz 63] by simp
  moreover have "num_units bm_sz = (bm_sz + 63) div 64"
    by (simp add: num_units_def add.commute)
  ultimately show ?thesis
    by (simp add: unat_div)
qed

lemma num_units_inv:
  "bitmap_inv bm \<Longrightarrow> unat (num_units (bm_size bm)) = length (bm_map bm)"
  by (simp add: bitmap_inv_def unat_num_units)

section \<open>Bit accesses and loops\<close>

lemma unat_p_div [simp]: "unat (p div 64 :: u64) = unat p div 64"
  and unat_p_mod [simp]: "unat (p mod 64 :: u64) = unat p mod 64"
  by (simp_all add: unat_div unat_mod)

lemma bm_test_bit_in [simp]:
  "unat p < 64 * length m \<Longrightarrow> bm_test_bit m p = Some (bm_bit m (unat p))"
  by (simp add: bm_test_bit_def bm_bit_def bit_mask_def less_mult_imp_div_less mult.commute
        and_exp_eq_0_iff_not_bit)

lemma bm_test_bit_out: "64 * length m \<le> unat p \<Longrightarrow> bm_test_bit m p = None"
  by (simp add: bm_test_bit_def less_eq_div_iff_mult_less_eq mult.commute)

lemma bm_scan_spec:
  assumes "unat pos + unat nbits \<le> 64 * length m" "unat pos + unat nbits < 2 ^ 64"
  shows "bm_scan v m pos nbits i =
    Some (\<exists>j. unat i \<le> j \<and> j < unat nbits \<and> bm_bit m (unat pos + j) = v)"
  using assms
proof (induction v m pos nbits i rule: bm_scan.induct)
  case (1 v m pos nbits i)
  show ?case
  proof (cases "i < nbits")
    case True
    then have i: "unat i < unat nbits" by (simp add: word_less_nat_alt)
    then have p: "unat (pos + i) = unat pos + unat i"
      using "1.prems" by (intro unat_add_bounded) simp
    have split: "(\<exists>j. unat i \<le> j \<and> j < unat nbits \<and> P j) \<longleftrightarrow>
        P (unat i) \<or> (\<exists>j. Suc (unat i) \<le> j \<and> j < unat nbits \<and> P j)" for P
      using i by (metis Suc_leD Suc_leI le_neq_implies_less order_refl)
    have here: "bm_test_bit m (pos + i) = Some (bm_bit m (unat pos + unat i))"
      using "1.prems" p i by simp
    show ?thesis
    proof (cases "bm_bit m (unat pos + unat i) = v")
      case hit: True
      then show ?thesis
        using True here split by (subst bm_scan.simps) auto
    next
      case False
      then have "bm_scan v m pos nbits (i + 1) =
          Some (\<exists>j. Suc (unat i) \<le> j \<and> j < unat nbits \<and> bm_bit m (unat pos + j) = v)"
        using "1.IH" [OF True here] "1.prems" unat_Suc_less [OF True] by simp
      then show ?thesis
        using True False here split by (subst bm_scan.simps) simp
    qed
  next
    case False
    then show ?thesis
      by (subst bm_scan.simps) (auto simp: word_less_nat_alt)
  qed
qed


text \<open>
  The update loops share one contract: the mask operation changes exactly the bit of the
  mask, by a function of its old value.
\<close>

locale bit_modifier =
  fixes f :: "u64 \<Rightarrow> u64 \<Rightarrow> u64" and g :: "bool \<Rightarrow> bool"
  assumes modifies:
    "j < 64 \<Longrightarrow> b < 64 \<Longrightarrow> bit (f w (push_bit b 1)) j = (if j = b then g (bit w j) else bit w j)"
begin

lemma modify_bit_spec:
  assumes "unat p < 64 * length m"
  shows "\<exists>m'. bm_modify_bit f m p = Some m' \<and> length m' = length m \<and>
    (\<forall>k. bm_bit m' k = (if k = unat p then g (bm_bit m k) else bm_bit m k))"
proof -
  let ?i = "unat p div 64" and ?m' = "m[unat p div 64 := f (m ! (unat p div 64)) (bit_mask p)]"
  have i: "?i < length m"
    using assms by (simp add: less_mult_imp_div_less mult.commute)
  have "bm_bit ?m' k = (if k = unat p then g (bm_bit m k) else bm_bit m k)" for k
  proof (cases "k div 64 = ?i")
    case True
    then have "k = unat p \<longleftrightarrow> k mod 64 = unat p mod 64"
      by (metis div_mult_mod_eq)
    then show ?thesis
      using True i modifies [of "k mod 64" "unat p mod 64"]
      by (simp add: bm_bit_def bit_mask_def)
  next
    case False
    then show ?thesis by (auto simp: bm_bit_def)
  qed
  then show ?thesis
    using i by (simp add: bm_modify_bit_def)
qed

lemma update_spec:
  assumes "unat pos + unat nbits \<le> 64 * length m" "unat pos + unat nbits < 2 ^ 64"
  shows "\<exists>m'. bm_update f m pos nbits i = Some m' \<and> length m' = length m \<and>
    (\<forall>k. bm_bit m' k =
      (if unat pos + unat i \<le> k \<and> k < unat pos + unat nbits then g (bm_bit m k) else bm_bit m k))"
  using assms
proof (induction "unat nbits - unat i" arbitrary: m i)
  case 0
  then have "\<not> i < nbits" by (simp add: word_less_nat_alt)
  with 0 show ?case by (subst bm_update.simps) auto
next
  case (Suc d)
  then have less: "i < nbits" by (simp add: word_less_nat_alt)
  then have i: "unat i < unat nbits" and i1: "unat (i + 1) = Suc (unat i)"
    by (simp_all add: word_less_nat_alt unat_Suc_less)
  have d: "d = unat nbits - unat (i + 1)"
    using Suc.hyps(2) i1 by simp
  have p: "unat (pos + i) = unat pos + unat i"
    using i Suc.prems by (intro unat_add_bounded) simp
  obtain m1 where m1: "bm_modify_bit f m (pos + i) = Some m1" "length m1 = length m"
    "\<And>k. bm_bit m1 k = (if k = unat pos + unat i then g (bm_bit m k) else bm_bit m k)"
    using modify_bit_spec [of "pos + i" m] i p Suc.prems by auto
  obtain m2 where m2: "bm_update f m1 pos nbits (i + 1) = Some m2" "length m2 = length m1"
    "\<And>k. bm_bit m2 k = (if unat pos + Suc (unat i) \<le> k \<and> k < unat pos + unat nbits
        then g (bm_bit m1 k) else bm_bit m1 k)"
    using Suc.hyps(1) [OF d, of m1] Suc.prems m1(2) i1 by auto
  show ?case
    using less m1 m2 i by (subst bm_update.simps) auto
qed

end

interpretation set_bits: bit_modifier "(OR)" "\<lambda>_. True"
  by unfold_locales (auto simp: bit_or_iff bit_exp_iff)

interpretation clear_bits: bit_modifier "\<lambda>w b. w AND NOT b" "\<lambda>_. False"
  by unfold_locales (auto simp: bit_and_iff bit_not_iff bit_exp_iff)

interpretation flip_bits: bit_modifier "(XOR)" Not
  by unfold_locales (auto simp: bit_xor_iff bit_exp_iff)

lemma bm_fill_spec:
  assumes "unat n \<le> length m"
  shows "bm_fill v m n i = Some (map (\<lambda>k. if unat i \<le> k \<and> k < unat n then v else m ! k) [0..<length m])"
  using assms
proof (induction "unat n - unat i" arbitrary: m i)
  case 0
  then have "\<not> i < n" by (simp add: word_less_nat_alt)
  with 0 show ?case
    by (subst bm_fill.simps) (auto simp: map_nth word_less_nat_alt intro!: nth_equalityI)
next
  case (Suc d)
  then have less: "i < n" by (simp add: word_less_nat_alt)
  then have i: "unat i < unat n" and i1: "unat (i + 1) = Suc (unat i)"
    by (simp_all add: word_less_nat_alt unat_Suc_less)
  have d: "d = unat n - unat (i + 1)"
    using Suc.hyps(2) i1 by simp
  have "bm_fill v (m[unat i := v]) n (i + 1) =
      Some (map (\<lambda>k. if Suc (unat i) \<le> k \<and> k < unat n then v else m[unat i := v] ! k) [0..<length m])"
    using Suc.hyps(1) [OF d, of "m[unat i := v]"] Suc.prems i1 by simp
  then show ?case
    using less i Suc.prems by (subst bm_fill.simps) (auto simp: nth_list_update intro!: nth_equalityI)
qed

section \<open>Range operations\<close>

lemma range_guard:
  assumes "unat pos + unat nbits < 2 ^ 64"
  shows "(pos + nbits > bm_size bm) \<longleftrightarrow> unat (bm_size bm) < unat pos + unat nbits"
  using assms by (simp add: word_less_nat_alt unat_add_bounded)

text \<open>What a range update leaves: the invariant and the bits outside the range.\<close>

lemma bitmap_inv_update:
  assumes "bitmap_inv bm" "length m = length (bm_map bm)"
    and "\<And>k. bm_bit m k \<Longrightarrow> k < unat (bm_size bm)"
  shows "bitmap_inv (bm\<lparr>bm_map := m\<rparr>)"
  using assms by (simp add: bitmap_inv_def)

definition bit_range :: "u64 \<Rightarrow> u64 \<Rightarrow> nat set" where
  "bit_range pos nbits = {unat pos ..< unat pos + unat nbits}"

lemma bm_scan_range:
  assumes "bitmap_inv bm" "unat pos + unat nbits \<le> unat (bm_size bm)"
  shows "bm_scan True (bm_map bm) pos nbits 0 = Some (bits bm \<inter> bit_range pos nbits \<noteq> {})"
    and "bm_scan False (bm_map bm) pos nbits 0 = Some (\<not> bit_range pos nbits \<subseteq> bits bm)"
proof -
  have b: "unat pos + unat nbits \<le> 64 * length (bm_map bm)" "unat pos + unat nbits < 2 ^ 64"
    using assms inv_covers [of bm] by (auto simp: bitmap_inv_def)
  have ex: "(\<exists>j<unat nbits. P (unat pos + j)) \<longleftrightarrow> (\<exists>k\<in>bit_range pos nbits. P k)" for P
    by (auto simp: bit_range_def) (metis add_less_cancel_left le_add_diff_inverse)
  show "bm_scan True (bm_map bm) pos nbits 0 = Some (bits bm \<inter> bit_range pos nbits \<noteq> {})"
    using assms bm_scan_spec [OF b] ex [of "bm_bit (bm_map bm)"]
    by (auto simp: bits_inv)
  show "bm_scan False (bm_map bm) pos nbits 0 = Some (\<not> bit_range pos nbits \<subseteq> bits bm)"
    using assms bm_scan_spec [OF b] ex [of "\<lambda>k. \<not> bm_bit (bm_map bm) k"]
    by (auto simp: bits_inv)
qed


lemma range_bounds:
  assumes "bitmap_inv bm" "unat pos + unat nbits \<le> unat (bm_size bm)"
  shows "unat pos + unat nbits \<le> 64 * length (bm_map bm)" "unat pos + unat nbits < 2 ^ 64"
  using assms inv_covers [of bm] by (auto simp: bitmap_inv_def)

context bit_modifier
begin

lemma update_range:
  assumes inv: "bitmap_inv bm" and range: "unat pos + unat nbits \<le> unat (bm_size bm)"
  shows "\<exists>m. bm_update f (bm_map bm) pos nbits 0 = Some m \<and> bitmap_inv (bm\<lparr>bm_map := m\<rparr>) \<and>
    bits (bm\<lparr>bm_map := m\<rparr>) =
      {k. if k \<in> bit_range pos nbits then g (k \<in> bits bm) else k \<in> bits bm}"
proof -
  obtain m where m: "bm_update f (bm_map bm) pos nbits 0 = Some m"
    "length m = length (bm_map bm)"
    "\<And>k. bm_bit m k =
      (if k \<in> bit_range pos nbits then g (bm_bit (bm_map bm) k) else bm_bit (bm_map bm) k)"
    using update_spec [OF range_bounds [OF assms], of 0] by (auto simp: bit_range_def)
  have "bitmap_inv (bm\<lparr>bm_map := m\<rparr>)"
    using inv range m by (intro bitmap_inv_update) (auto simp: bitmap_inv_def bit_range_def split: if_splits)
  with m inv show ?thesis
    by (auto simp: bits_inv)
qed

end

lemma bits_map_lock [simp]:
  "bits (bm\<lparr>bm_map := m, bm_lock := l\<rparr>) = bits (bm\<lparr>bm_map := m\<rparr>)"
  "bitmap_inv (bm\<lparr>bm_map := m, bm_lock := l\<rparr>) = bitmap_inv (bm\<lparr>bm_map := m\<rparr>)"
  by (simp_all add: bits_def bitmap_inv_def)

lemma bitmap_set_in_range:
  assumes "bitmap_inv bm" "\<not> bm_lock bm" "unat pos + unat nbits \<le> unat (bm_size bm)"
    "bits bm \<inter> bit_range pos nbits = {}"
  shows "\<exists>bm'. bitmap_set bm pos nbits = Some (0, bm') \<and> bitmap_inv bm' \<and> \<not> bm_lock bm' \<and>
    bm_size bm' = bm_size bm \<and> bits bm' = bits bm \<union> bit_range pos nbits"
proof -
  obtain m where m: "bm_update (OR) (bm_map bm) pos nbits 0 = Some m"
    "bitmap_inv (bm\<lparr>bm_map := m\<rparr>)"
    "bits (bm\<lparr>bm_map := m\<rparr>) = bits bm \<union> bit_range pos nbits"
    using set_bits.update_range [OF assms(1,3)] by auto
  have "\<not> bm_size bm < pos + nbits"
    using assms range_bounds [of bm pos nbits] by (simp add: range_guard)
  with m assms show ?thesis
    by (simp add: bitmap_set_def bm_scan_range(1))
qed

lemma bitmap_unset_in_range:
  assumes "bitmap_inv bm" "\<not> bm_lock bm" "unat pos + unat nbits \<le> unat (bm_size bm)"
    "bit_range pos nbits \<subseteq> bits bm"
  shows "\<exists>bm'. bitmap_unset bm pos nbits = Some (0, bm') \<and> bitmap_inv bm' \<and> \<not> bm_lock bm' \<and>
    bm_size bm' = bm_size bm \<and> bits bm' = bits bm - bit_range pos nbits"
proof -
  obtain m where m: "bm_update (\<lambda>w b. w AND NOT b) (bm_map bm) pos nbits 0 = Some m"
    "bitmap_inv (bm\<lparr>bm_map := m\<rparr>)"
    "bits (bm\<lparr>bm_map := m\<rparr>) = bits bm - bit_range pos nbits"
    using clear_bits.update_range [OF assms(1,3)] by auto
  have "\<not> bm_size bm < pos + nbits"
    using assms range_bounds [of bm pos nbits] by (simp add: range_guard)
  with m assms show ?thesis
    by (simp add: bitmap_unset_def bm_scan_range(2))
qed

lemma bitmap_range_errors:
  assumes "bitmap_inv bm" "\<not> bm_lock bm" "unat pos + unat nbits < 2 ^ 64"
  shows "unat (bm_size bm) < unat pos + unat nbits \<Longrightarrow> bitmap_set bm pos nbits = Some (- EINVAL, bm)"
    and "unat (bm_size bm) < unat pos + unat nbits \<Longrightarrow> bitmap_unset bm pos nbits = Some (- EINVAL, bm)"
    and "unat pos + unat nbits \<le> unat (bm_size bm) \<Longrightarrow> bits bm \<inter> bit_range pos nbits \<noteq> {} \<Longrightarrow>
      bitmap_set bm pos nbits = Some (- EALREADY, bm)"
    and "unat pos + unat nbits \<le> unat (bm_size bm) \<Longrightarrow> \<not> bit_range pos nbits \<subseteq> bits bm \<Longrightarrow>
      bitmap_unset bm pos nbits = Some (- EALREADY, bm)"
  using assms
  by (simp_all add: bitmap_set_def bitmap_unset_def range_guard bm_scan_range)

text \<open>Setting a range of bits.  For every range that does not wrap around the address
  arithmetic, \<^verbatim>\<open>bitmap_set\<close> returns; it refuses a range beyond the size with
  \<^verbatim>\<open>-EINVAL\<close> and a range with a set bit with \<^verbatim>\<open>-EALREADY\<close>, without changing the bitmap,
  and otherwise adds exactly that range to the set bits.\<close>

theorem bitmap_set_correct:
  assumes "bitmap_inv bm" "\<not> bm_lock bm" "unat pos + unat nbits < 2 ^ 64"
  shows "\<exists>r bm'. bitmap_set bm pos nbits = Some (r, bm') \<and> bitmap_inv bm' \<and> \<not> bm_lock bm' \<and>
    bm_size bm' = bm_size bm \<and>
    r = (if unat (bm_size bm) < unat pos + unat nbits then - EINVAL
         else if bits bm \<inter> bit_range pos nbits \<noteq> {} then - EALREADY else 0) \<and>
    bits bm' = (if r = 0 then bits bm \<union> bit_range pos nbits else bits bm)"
proof (cases "unat (bm_size bm) < unat pos + unat nbits")
  case True
  then show ?thesis using assms by (simp add: bitmap_range_errors)
next
  case False
  then show ?thesis
    using assms bitmap_set_in_range [of bm pos nbits]
    by (cases "bits bm \<inter> bit_range pos nbits = {}") (auto simp: bitmap_range_errors)
qed

text \<open>Clearing a range of bits, the mirror image of setting one: out of range is
  \<^verbatim>\<open>-EINVAL\<close>, a range with a clear bit is \<^verbatim>\<open>-EALREADY\<close>, and otherwise exactly the range is
  removed from the set bits.\<close>

theorem bitmap_unset_correct:
  assumes "bitmap_inv bm" "\<not> bm_lock bm" "unat pos + unat nbits < 2 ^ 64"
  shows "\<exists>r bm'. bitmap_unset bm pos nbits = Some (r, bm') \<and> bitmap_inv bm' \<and> \<not> bm_lock bm' \<and>
    bm_size bm' = bm_size bm \<and>
    r = (if unat (bm_size bm) < unat pos + unat nbits then - EINVAL
         else if \<not> bit_range pos nbits \<subseteq> bits bm then - EALREADY else 0) \<and>
    bits bm' = (if r = 0 then bits bm - bit_range pos nbits else bits bm)"
proof (cases "unat (bm_size bm) < unat pos + unat nbits")
  case True
  then show ?thesis using assms by (simp add: bitmap_range_errors)
next
  case False
  then show ?thesis
    using assms bitmap_unset_in_range [of bm pos nbits]
    by (cases "bit_range pos nbits \<subseteq> bits bm") (auto simp: bitmap_range_errors)
qed

lemma bitmap_test_spec:
  assumes "bitmap_inv bm" "\<not> bm_lock bm" "unat pos + unat nbits < 2 ^ 64"
  shows "bitmap_test bm pos nbits =
    Some (if unat (bm_size bm) < unat pos + unat nbits then - EINVAL
          else if bit_range pos nbits \<subseteq> bits bm then 1 else 0, bm)"
  using assms by (simp add: bitmap_test_def range_guard bm_scan_range)


section \<open>Allocation of a range: first fit\<close>

text \<open>The start positions the search loop of \<^verbatim>\<open>bitmap_alloc_range\<close> accepts.\<close>

definition free_at :: "bitmap \<Rightarrow> u64 \<Rightarrow> u64 \<Rightarrow> bool" where
  "free_at bm nbits p \<longleftrightarrow>
     unat p + unat nbits \<le> unat (bm_size bm) \<and> bits bm \<inter> bit_range p nbits = {}"

lemma alloc_range_loop_spec:
  assumes inv: "bitmap_inv bm" and n: "0 < nbits" "nbits \<le> bm_size bm"
    and start: "\<forall>q<i. \<not> free_at bm nbits q"
  shows "(\<exists>p m. alloc_range_loop (bm_map bm) nbits (bm_size bm - nbits) i = Some (Some (p, m)) \<and>
            bm_update (OR) (bm_map bm) p nbits 0 = Some m \<and>
            free_at bm nbits p \<and> (\<forall>q<p. \<not> free_at bm nbits q)) \<or>
         (alloc_range_loop (bm_map bm) nbits (bm_size bm - nbits) i = Some None \<and>
            (\<forall>q. \<not> free_at bm nbits q))"
  using start
proof (induction "unat (bm_size bm) - unat i" arbitrary: i rule: less_induct)
  case less
  let ?lim = "bm_size bm - nbits"
  have lim: "unat ?lim = unat (bm_size bm) - unat nbits"
    using n by (simp add: unat_sub)
  show ?case
  proof (cases "i \<le> ?lim")
    case True
    then have i: "unat i + unat nbits \<le> unat (bm_size bm)"
      using lim n by (simp add: word_le_nat_alt)
    then have scan: "bm_scan True (bm_map bm) i nbits 0 = Some (\<not> free_at bm nbits i)"
      using inv by (simp add: bm_scan_range(1) free_at_def)
    obtain m where m: "bm_update (OR) (bm_map bm) i nbits 0 = Some m"
      using set_bits.update_range [OF inv i] by auto
    have nb: "0 < unat nbits" using n by (simp add: unat_gt_0 word_neq_0_conv)
    then have lt: "i < bm_size bm" using i by (simp add: word_less_nat_alt)
    have i1: "unat (i + 1) = Suc (unat i)" using lt by (rule unat_Suc_less)
    have step: "\<not> free_at bm nbits q" if "q < i + 1" "\<not> free_at bm nbits i" for q
      using that i1 less.prems by (metis less_Suc_eq word_less_nat_alt word_unat_eq_iff)
    have shrink: "unat (bm_size bm) - unat (i + 1) < unat (bm_size bm) - unat i"
      using lt by (rule loop_measure)
    show ?thesis
    proof (cases "free_at bm nbits i")
      case free: True
      then show ?thesis
        using True scan m less.prems by (subst (1 2) alloc_range_loop.simps) auto
    next
      case False
      then show ?thesis
        using True scan less.hyps [OF shrink] step by (subst (1 2) alloc_range_loop.simps) auto
    qed
  next
    case False
    have "\<not> free_at bm nbits q" for q
    proof (cases "q < i")
      case True
      then show ?thesis using less.prems by simp
    next
      case not_less: False
      then show ?thesis
        using False lim by (auto simp: free_at_def word_le_nat_alt word_less_nat_alt)
    qed
    with False show ?thesis
      by (subst (1 2) alloc_range_loop.simps) simp
  qed
qed

lemma alloc_range_first_fit:
  assumes "bitmap_inv bm" "\<not> bm_lock bm" "0 < nbits" "nbits \<le> bm_size bm"
  shows "(\<exists>p bm'. bitmap_alloc_range bm nbits True = Some (0, Some p, bm') \<and>
            bitmap_inv bm' \<and> \<not> bm_lock bm' \<and> bm_size bm' = bm_size bm \<and>
            bits bm' = bits bm \<union> bit_range p nbits \<and>
            free_at bm nbits p \<and> (\<forall>q<p. \<not> free_at bm nbits q)) \<or>
         (bitmap_alloc_range bm nbits True = Some (- ENOSPC, None, bm) \<and>
            (\<forall>q. \<not> free_at bm nbits q))"
proof -
  have start: "\<forall>q<0. \<not> free_at bm nbits q"
    by simp
  show ?thesis
    using alloc_range_loop_spec [OF assms(1,3,4) start]
  proof (elim disjE exE conjE)
    fix p m
    assume loop: "alloc_range_loop (bm_map bm) nbits (bm_size bm - nbits) 0 = Some (Some (p, m))"
      and upd: "bm_update (OR) (bm_map bm) p nbits 0 = Some m"
      and fit: "free_at bm nbits p" "\<forall>q<p. \<not> free_at bm nbits q"
    have "bitmap_inv (bm\<lparr>bm_map := m\<rparr>)" "bits (bm\<lparr>bm_map := m\<rparr>) = bits bm \<union> bit_range p nbits"
      using set_bits.update_range [OF assms(1), of p nbits] upd fit(1) by (auto simp: free_at_def)
    then show ?thesis
      using assms loop fit by (auto simp: bitmap_alloc_range_def)
  qed (use assms in \<open>auto simp: bitmap_alloc_range_def\<close>)
qed

text \<open>C6: \<^verbatim>\<open>bitmap_alloc_range\<close> is a first-fit allocator.  For a request of at least one bit
  and at most the size it always returns: either with success, marking as used a range that
  lies inside the bitmap, was completely free, and is the lowest such range; or with
  \<^verbatim>\<open>-ENOSPC\<close> and an unchanged bitmap, and then no free range of that length exists.\<close>

theorem bitmap_alloc_range_first_fit:
  assumes "bitmap_inv bm" "\<not> bm_lock bm" "0 < nbits" "nbits \<le> bm_size bm"
  shows "(\<exists>p bm'. bitmap_alloc_range bm nbits True = Some (0, Some p, bm') \<and>
            bitmap_inv bm' \<and> \<not> bm_lock bm' \<and> bm_size bm' = bm_size bm \<and>
            bits bm' = bits bm \<union> bit_range p nbits \<and>
            free_at bm nbits p \<and> (\<forall>q<p. \<not> free_at bm nbits q)) \<or>
         (bitmap_alloc_range bm nbits True = Some (- ENOSPC, None, bm) \<and>
            (\<forall>q. \<not> free_at bm nbits q))"
  using assms by (rule alloc_range_first_fit)

lemma bitmap_alloc_range_invalid:
  "\<not> bm_lock bm \<Longrightarrow> nbits = 0 \<or> bm_size bm < nbits \<or> \<not> pos \<Longrightarrow>
    bitmap_alloc_range bm nbits pos = Some (- EINVAL, None, bm)"
  by (auto simp: bitmap_alloc_range_def)


section \<open>Searching and counting\<close>

lemma unset_in_unit_spec:
  assumes i: "unat i * 64 + 63 < 2 ^ 64"
  shows "case unset_in_unit w bm_sz i b of
      None \<Rightarrow> \<forall>j. unat b \<le> j \<and> j < 64 \<and> unat i * 64 + j < unat bm_sz \<longrightarrow> bit w j
    | Some p \<Rightarrow> \<exists>j. unat p = unat i * 64 + j \<and> unat b \<le> j \<and> j < 64 \<and>
        unat i * 64 + j < unat bm_sz \<and> \<not> bit w j \<and> (\<forall>k. unat b \<le> k \<and> k < j \<longrightarrow> bit w k)"
proof (induction "64 - unat b" arbitrary: b)
  case 0
  then have "\<not> b < 64" by (simp add: word_less_nat_alt)
  with 0 show ?case by (subst unset_in_unit.simps) auto
next
  case (Suc d)
  then have less: "b < 64" by (simp add: word_less_nat_alt)
  then have b: "unat b < 64"
    by (simp add: word_less_nat_alt)
  have b1: "unat (b + 1) = Suc (unat b)"
    using less by (rule unat_Suc_less)
  have d: "d = 64 - unat (b + 1)" using Suc.hyps(2) b1 by simp
  have "unat (i * 64) = unat i * 64"
    using i by (simp add: unat_word_ariths)
  then have p: "unat (i * 64 + b) = unat i * 64 + unat b"
    using i b unat_add_bounded [of "i * 64" b] by simp
  have unfold: "unset_in_unit w bm_sz i b =
      (if unat bm_sz \<le> unat i * 64 + unat b then None
       else if \<not> bit w (unat b) then Some (i * 64 + b) else unset_in_unit w bm_sz i (b + 1))"
    using less p by (subst unset_in_unit.simps) (simp add: and_exp_eq_0_iff_not_bit word_le_nat_alt)
  show ?case
  proof (cases "unat bm_sz \<le> unat i * 64 + unat b \<or> \<not> bit w (unat b)")
    case True
    then show ?thesis using unfold p b by auto
  next
    case False
    then show ?thesis
      using unfold Suc.hyps(1) [OF d] b1
      by (auto split: option.splits) (metis Suc_leI le_eq_less_or_eq not_less)+
  qed
qed

lemma in_bits_unit:
  assumes "unat i < length (bm_map bm)" "j < 64"
  shows "unat i * 64 + j \<in> bits bm \<longleftrightarrow>
    unat i * 64 + j < unat (bm_size bm) \<and> bit (bm_map bm ! unat i) j"
  using assms by (simp add: bits_def bm_bit_def)

text \<open>The first unset position of the bitmap is described by an upper bound for the bits seen.\<close>

definition all_set_below :: "bitmap \<Rightarrow> nat \<Rightarrow> bool" where
  "all_set_below bm n \<longleftrightarrow> {..<n} \<inter> {..<unat (bm_size bm)} \<subseteq> bits bm"

lemma unset_in_unit_first:
  assumes inv: "bitmap_inv bm" and i: "unat i < length (bm_map bm)"
    and seen: "all_set_below bm (unat i * 64)"
  shows "case unset_in_unit (bm_map bm ! unat i) (bm_size bm) i 0 of
      None \<Rightarrow> all_set_below bm (unat i * 64 + 64)
    | Some p \<Rightarrow> unat p < unat (bm_size bm) \<and> unat p \<notin> bits bm \<and> all_set_below bm (unat p)"
proof -
  have "64 * length (bm_map bm) \<le> unat (bm_size bm) + 63" "unat (bm_size bm) + 63 < 2 ^ 64"
    using inv by (auto simp: bitmap_inv_def)
  then have small: "unat i * 64 + 63 < 2 ^ 64"
    using i by linarith
  have step: "all_set_below bm (unat i * 64 + n)"
    if n: "n \<le> 64" and set: "\<And>j. j < n \<Longrightarrow> unat i * 64 + j < unat (bm_size bm) \<Longrightarrow> bit (bm_map bm ! unat i) j" for n
  proof -
    have "k \<in> bits bm" if k: "k < unat i * 64 + n" "k < unat (bm_size bm)" for k
    proof (cases "k < unat i * 64")
      case True
      then show ?thesis using seen k by (auto simp: all_set_below_def)
    next
      case False
      then obtain j where "k = unat i * 64 + j" by (metis le_iff_add not_less)
      then show ?thesis using in_bits_unit [OF i, of j] n set [of j] k by auto
    qed
    then show ?thesis by (auto simp: all_set_below_def)
  qed
  show ?thesis
  proof (cases "unset_in_unit (bm_map bm ! unat i) (bm_size bm) i 0")
    case None
    then show ?thesis
      using unset_in_unit_spec [OF small, where w = "bm_map bm ! unat i" and bm_sz = "bm_size bm" and b = 0] step [of 64] by auto
  next
    case (Some p)
    then obtain j where j: "unat p = unat i * 64 + j" "j < 64" "unat i * 64 + j < unat (bm_size bm)"
      "\<not> bit (bm_map bm ! unat i) j" "\<forall>k<j. bit (bm_map bm ! unat i) k"
      using unset_in_unit_spec [OF small, where w = "bm_map bm ! unat i" and bm_sz = "bm_size bm" and b = 0] by auto
    then show ?thesis
      using Some in_bits_unit [OF i, of j] step [of j] by auto
  qed
qed

lemma full_unit_set:
  assumes "unat i < length (bm_map bm)" "bm_map bm ! unat i = NOT 0" "all_set_below bm (unat i * 64)"
  shows "all_set_below bm (unat i * 64 + 64)"
proof -
  have "k \<in> bits bm" if k: "k < unat i * 64 + 64" "k < unat (bm_size bm)" for k
  proof (cases "k < unat i * 64")
    case True
    then show ?thesis using assms(3) k by (auto simp: all_set_below_def)
  next
    case False
    then obtain j where "k = unat i * 64 + j" by (metis le_iff_add not_less)
    then show ?thesis using in_bits_unit [OF assms(1), of j] assms(2) k by (auto simp: bit_not_iff)
  qed
  then show ?thesis by (auto simp: all_set_below_def)
qed

lemma first_unset_loop_spec:
  assumes "bitmap_inv bm" "all_set_below bm (unat i * 64)"
  shows "\<exists>r. first_unset_loop (bm_map bm) (bm_size bm) (num_units (bm_size bm)) i = Some r \<and>
    (case r of None \<Rightarrow> all_set_below bm (unat (bm_size bm))
     | Some p \<Rightarrow> unat p < unat (bm_size bm) \<and> unat p \<notin> bits bm \<and> all_set_below bm (unat p))"
  using assms(2)
proof (induction "length (bm_map bm) - unat i" arbitrary: i)
  case 0
  have n: "unat (num_units (bm_size bm)) = length (bm_map bm)"
    using assms(1) by (rule num_units_inv)
  then have "\<not> i < num_units (bm_size bm)"
    using 0 by (simp add: word_less_nat_alt)
  moreover have "all_set_below bm (unat (bm_size bm))"
    using 0 inv_covers [OF assms(1)] by (auto simp: all_set_below_def subset_iff)
  ultimately show ?case
    by (subst first_unset_loop.simps) simp
next
  case (Suc d)
  have n: "unat (num_units (bm_size bm)) = length (bm_map bm)"
    using assms(1) by (rule num_units_inv)
  then have less: "i < num_units (bm_size bm)" and i: "unat i < length (bm_map bm)"
    using Suc.hyps(2) by (simp_all add: word_less_nat_alt)
  have i1: "unat (i + 1) = Suc (unat i)" using less by (rule unat_Suc_less)
  have d: "d = length (bm_map bm) - unat (i + 1)" using Suc.hyps(2) i1 by simp
  let ?w = "bm_map bm ! unat i"
  let ?u = "if ?w \<noteq> NOT 0 then unset_in_unit ?w (bm_size bm) i 0 else None"
  have u: "case ?u of None \<Rightarrow> all_set_below bm (unat (i + 1) * 64)
     | Some p \<Rightarrow> unat p < unat (bm_size bm) \<and> unat p \<notin> bits bm \<and> all_set_below bm (unat p)"
    using unset_in_unit_first [OF assms(1) i Suc.prems] full_unit_set [OF i _ Suc.prems] i1
    by (auto simp: add.commute split: option.splits)
  have unfold: "first_unset_loop (bm_map bm) (bm_size bm) (num_units (bm_size bm)) i =
      (case ?u of Some p \<Rightarrow> Some (Some p)
       | None \<Rightarrow> first_unset_loop (bm_map bm) (bm_size bm) (num_units (bm_size bm)) (i + 1))"
    using less i by (subst first_unset_loop.simps) simp
  show ?case
  proof (cases ?u)
    case None
    with u have "all_set_below bm (unat (i + 1) * 64)" by simp
    then show ?thesis using Suc.hyps(1) [OF d] unfold None by simp
  next
    case (Some p)
    then show ?thesis using u unfold by simp
  qed
qed

text \<open>\<^verbatim>\<open>bitmap_find_first_unset\<close> returns the lowest clear position of the bitmap, and
  \<^verbatim>\<open>-ENOENT\<close> exactly when every position below the size is set; it changes nothing.\<close>

theorem bitmap_find_first_unset_correct:
  assumes "bitmap_inv bm" "\<not> bm_lock bm"
  shows "(\<exists>p. bitmap_find_first_unset bm = Some (0, Some p, bm) \<and>
            unat p < unat (bm_size bm) \<and> unat p \<notin> bits bm \<and> (\<forall>k < unat p. k \<in> bits bm)) \<or>
         (bitmap_find_first_unset bm = Some (- ENOENT, None, bm) \<and> bits bm = {..<unat (bm_size bm)})"
proof -
  have "all_set_below bm (unat (0 :: u64) * 64)" by (simp add: all_set_below_def)
  then obtain r where r: "first_unset_loop (bm_map bm) (bm_size bm) (num_units (bm_size bm)) 0 = Some r"
    "case r of None \<Rightarrow> all_set_below bm (unat (bm_size bm))
     | Some p \<Rightarrow> unat p < unat (bm_size bm) \<and> unat p \<notin> bits bm \<and> all_set_below bm (unat p)"
    using first_unset_loop_spec [OF assms(1)] by blast
  show ?thesis
  proof (cases r)
    case None
    then have "bits bm = {..<unat (bm_size bm)}"
      using r(2) bits_less by (auto simp: all_set_below_def)
    with None r(1) assms(2) show ?thesis by (simp add: bitmap_find_first_unset_def)
  next
    case (Some p)
    then have "\<forall>k < unat p. k \<in> bits bm"
      using r(2) by (auto simp: all_set_below_def)
    with Some r assms(2) show ?thesis by (simp add: bitmap_find_first_unset_def)
  qed
qed


definition unit_bits :: "u64 \<Rightarrow> nat set" where
  "unit_bits w = {j. bit w j}"

lemma unit_bits_bound: "unit_bits w \<subseteq> {..<64}"
  using bit_imp_le_length by (fastforce simp: unit_bits_def)

lemma finite_unit_bits [simp]: "finite (unit_bits w)"
  using unit_bits_bound finite_subset by blast

lemma card_unit_bits_step:
  "card (unit_bits w) = (if bit w 0 then 1 else 0) + card (unit_bits (drop_bit 1 w))"
proof -
  have split: "unit_bits w = (if bit w 0 then {0} else {}) \<union> Suc ` unit_bits (drop_bit 1 w)"
  proof (intro set_eqI)
    fix j
    show "j \<in> unit_bits w \<longleftrightarrow> j \<in> (if bit w 0 then {0} else {}) \<union> Suc ` unit_bits (drop_bit 1 w)"
      by (cases j) (auto simp: unit_bits_def bit_drop_bit_eq image_iff)
  qed
  have "card (Suc ` unit_bits (drop_bit 1 w)) = card (unit_bits (drop_bit 1 w))"
    by (rule card_image) simp
  then show ?thesis
    by (subst split) (auto simp: card_Un_disjoint card_insert_if)
qed

lemma count_unit_spec: "count_unit val count = count + of_nat (card (unit_bits val))"
proof (induction val count rule: count_unit.induct)
  case (1 val count)
  show ?case
  proof (cases "val = 0")
    case True
    then show ?thesis by (simp add: count_unit.simps unit_bits_def)
  next
    case False
    have "val AND 1 = (if bit val 0 then 1 else 0)"
      by (simp add: and_one_eq bit_0 odd_iff_mod_2_eq_one even_iff_mod_2_eq_zero)
    then show ?thesis
      using 1 False card_unit_bits_step [of val] by (subst count_unit.simps) (simp add: add.assoc)
  qed
qed

lemma card_bm_bits: "card {k. bm_bit m k} = (\<Sum>u<length m. card (unit_bits (m ! u)))"
proof -
  have un: "{k. bm_bit m k} = (\<Union>u<length m. (\<lambda>j. u * 64 + j) ` unit_bits (m ! u))"
  proof (intro set_eqI iffI)
    fix k assume k: "k \<in> {k. bm_bit m k}"
    then have "k = k div 64 * 64 + k mod 64" "k mod 64 \<in> unit_bits (m ! (k div 64))"
      by (simp_all add: bm_bit_def unit_bits_def)
    moreover have "k div 64 < length m" using k by (simp add: bm_bit_def)
    ultimately show "k \<in> (\<Union>u<length m. (\<lambda>j. u * 64 + j) ` unit_bits (m ! u))"
      by (intro UN_I [of "k div 64"] image_eqI [of _ _ "k mod 64"]) simp_all
  next
    fix k assume "k \<in> (\<Union>u<length m. (\<lambda>j. u * 64 + j) ` unit_bits (m ! u))"
    then obtain u j where "u < length m" "k = u * 64 + j" "j \<in> unit_bits (m ! u)" by auto
    then show "k \<in> {k. bm_bit m k}"
      using unit_bits_bound [of "m ! u"] by (auto simp: bm_bit_def unit_bits_def subset_iff)
  qed
  have disj: "(\<lambda>j. u * 64 + j) ` unit_bits (m ! u) \<inter> (\<lambda>j. v * 64 + j) ` unit_bits (m ! v) = {}"
    if "u \<noteq> v" for u v
  proof (rule ccontr)
    assume "\<not> ?thesis"
    then obtain i j where ij: "i \<in> unit_bits (m ! u)" "j \<in> unit_bits (m ! v)" "u * 64 + i = v * 64 + j"
      by auto
    then have "i < 64" "j < 64" using unit_bits_bound by blast+
    then have "(u * 64 + i) div 64 = u" "(v * 64 + j) div 64 = v" by simp_all
    with ij(3) that show False by simp
  qed
  have "card {k. bm_bit m k} = (\<Sum>u<length m. card ((\<lambda>j. u * 64 + j) ` unit_bits (m ! u)))"
    unfolding un using disj by (intro card_UN_disjoint) auto
  also have "\<dots> = (\<Sum>u<length m. card (unit_bits (m ! u)))"
    by (intro sum.cong card_image refl) (simp add: inj_on_def)
  finally show ?thesis .
qed

lemma count_loop_spec:
  assumes "unat n \<le> length m"
  shows "count_loop m n i count = Some (count + of_nat (\<Sum>u\<in>{unat i..<unat n}. card (unit_bits (m ! u))))"
proof (induction "unat n - unat i" arbitrary: i count)
  case 0
  then have "\<not> i < n" by (simp add: word_less_nat_alt)
  with 0 show ?case by (subst count_loop.simps) simp
next
  case (Suc d)
  then have less: "i < n" and i: "unat i < unat n" by (simp_all add: word_less_nat_alt)
  have i1: "unat (i + 1) = Suc (unat i)" using less by (rule unat_Suc_less)
  have d: "d = unat n - unat (i + 1)" using Suc.hyps(2) i1 by simp
  show ?case
    using less i assms Suc.hyps(1) [OF d] i1
    by (subst count_loop.simps) (simp add: count_unit_spec sum.atLeast_Suc_lessThan add.assoc)
qed

lemma card_bits_le: "card (bits bm) \<le> unat (bm_size bm)"
proof -
  have "card (bits bm) \<le> card {..<unat (bm_size bm)}"
    by (rule card_mono) (auto simp: bits_def)
  then show ?thesis by simp
qed

text \<open>The counting operations agree with the set of bits: \<^verbatim>\<open>bitmap_count_set\<close> returns its
  cardinality and \<^verbatim>\<open>bitmap_count_unset\<close> the number of clear positions, so the two add up to
  the size, and neither changes the bitmap.\<close>

theorem bitmap_count_correct:
  assumes "bitmap_inv bm" "\<not> bm_lock bm"
  shows "\<exists>c u. bitmap_count_set bm = Some (c, bm) \<and> bitmap_count_unset bm = Some (u, bm) \<and>
    unat c = card (bits bm) \<and> unat u = card ({..<unat (bm_size bm)} - bits bm)"
proof -
  let ?c = "of_nat (card (bits bm)) :: u64"
  have c: "unat ?c = card (bits bm)"
    using le_less_trans [OF card_bits_le [of bm] unsigned_less] by (simp add: unat_of_nat take_bit_nat_eq_self)
  have count: "bitmap_count_set bm = Some (?c, bm)"
    using assms num_units_inv [OF assms(1)] count_loop_spec [of "num_units (bm_size bm)" "bm_map bm" 0 0]
    by (simp add: bitmap_count_set_def bits_inv card_bm_bits lessThan_atLeast0)
  moreover have "unat (bm_size bm - ?c) = unat (bm_size bm) - card (bits bm)"
    using c card_bits_le [of bm] by (simp add: unat_sub word_le_nat_alt)
  moreover have "card ({..<unat (bm_size bm)} - bits bm) = unat (bm_size bm) - card (bits bm)"
    by (subst card_Diff_subset) (auto simp: bits_def)
  ultimately show ?thesis
    using c by (simp add: bitmap_count_unset_def)
qed

section \<open>Operations on the whole bitmap\<close>

lemma bm_modify_bit_out: "64 * length m \<le> unat p \<Longrightarrow> bm_modify_bit f m p = None"
  by (simp add: bm_modify_bit_def less_eq_div_iff_mult_less_eq mult.commute)

lemma bitmap_inv_code:
  "bitmap_inv bm \<longleftrightarrow>
     unat (bm_size bm) + 63 < 2 ^ 64 \<and>
     length (bm_map bm) = (unat (bm_size bm) + 63) div 64 \<and>
     list_all (\<lambda>k. \<not> bm_bit (bm_map bm) k) [unat (bm_size bm)..<64 * length (bm_map bm)]"
  using bm_bit_bound by (fastforce simp: bitmap_inv_def list_all_iff)

lemma bm_bit_map_upt [simp]:
  "bm_bit (map h [0..<n]) k \<longleftrightarrow> k div 64 < n \<and> bit (h (k div 64)) (k mod 64)"
  by (auto simp: bm_bit_def)

text \<open>A bitmap value with an array that covers its size is well formed once the bits beyond
  the size are clear.\<close>

lemma bitmap_invI:
  assumes "unat sz + 63 < 2 ^ 64" "length m = (unat sz + 63) div 64"
    and "\<And>k. bm_bit m k \<longleftrightarrow> k < unat sz \<and> P k"
  shows "bitmap_inv \<lparr>bm_map = m, bm_size = sz, bm_lock = l\<rparr>"
    and "bits \<lparr>bm_map = m, bm_size = sz, bm_lock = l\<rparr> = {k. k < unat sz \<and> P k}"
  using assms by (auto simp: bitmap_inv_def bits_def)

lemma bit_ones_drop: "bit (drop_bit e (NOT 0) :: u64) j \<longleftrightarrow> j + e < 64"
  unfolding bit_drop_bit_eq by (auto simp: bit_minus_1_iff)

lemma bm_trim_spec:
  assumes sz: "unat sz + 63 < 2 ^ 64" and len: "length m = (unat sz + 63) div 64"
  shows "\<exists>m'. bm_trim m (num_units sz) sz = Some m' \<and> length m' = length m \<and>
    (\<forall>k. bm_bit m' k \<longleftrightarrow> k < unat sz \<and> bm_bit m k)"
proof -
  let ?n = "num_units sz"
  have n: "unat ?n = length m" using unat_num_units [OF sz] len by simp
  have le: "unat sz \<le> length m * 64" "length m * 64 < 2 ^ 64" "length m * 64 < unat sz + 64"
    using sz len by linarith+
  have n64: "unat (?n * 64) = length m * 64"
    using n le by (simp add: unat_word_ariths)
  have ex: "unat (?n * 64 - sz) = length m * 64 - unat sz"
    using n64 le by (subst unat_sub) (simp_all add: word_le_nat_alt)
  show ?thesis
  proof (cases "length m * 64 = unat sz")
    case True
    then have "?n * 64 - sz = 0" using ex by (simp add: word_unat_eq_iff)
    moreover have "k < unat sz" if "bm_bit m k" for k
      using bm_bit_bound [OF that] True by (simp add: mult.commute)
    ultimately show ?thesis by (auto simp: bm_trim_def)
  next
    case False
    then have pos: "0 < ?n * 64 - sz" "0 < length m"
      using ex le by (auto simp: word_less_nat_alt)
    let ?u = "length m - 1" and ?ex = "length m * 64 - unat sz"
    have n1: "unat (?n - 1) = ?u"
      using pos(2) n by (subst unat_sub) (simp_all add: word_le_nat_alt Suc_le_eq)
    let ?m' = "m[?u := m ! ?u AND drop_bit ?ex (NOT 0)]"
    have "bm_trim m ?n sz = Some ?m'"
      using pos n1 ex by (simp add: bm_trim_def)
    moreover have "bm_bit ?m' k \<longleftrightarrow> k < unat sz \<and> bm_bit m k" for k
    proof (cases "k div 64 = ?u")
      case True
      then have k: "k = ?u * 64 + k mod 64" by (metis div_mult_mod_eq)
      have "k mod 64 + ?ex < 64 \<longleftrightarrow> k < unat sz"
        using k le pos(2) by (cases "length m") auto
      then show ?thesis
        using True pos(2) bit_ones_drop [of ?ex "k mod 64"]
        by (auto simp: bm_bit_def bit_and_iff)
    next
      case False
      have "k < unat sz" if "bm_bit m k"
      proof -
        have "k div 64 < ?u" using that False by (auto simp: bm_bit_def)
        then have "k < ?u * 64" by (simp add: div_less_iff_less_mult)
        with le pos(2) show ?thesis by (cases "length m") auto
      qed
      then show ?thesis using False by (auto simp: bm_bit_def)
    qed
    ultimately show ?thesis by simp
  qed
qed

lemma bitmap_clear_all_spec:
  assumes "bitmap_inv bm" "\<not> bm_lock bm"
  shows "\<exists>bm'. bitmap_clear_all bm = Some bm' \<and> bitmap_inv bm' \<and> \<not> bm_lock bm' \<and>
    bm_size bm' = bm_size bm \<and> bits bm' = {}"
  using assms num_units_inv [OF assms(1)]
  by (simp add: bitmap_clear_all_def bm_fill_spec bitmap_inv_def bits_def)

lemma bitmap_set_all_spec:
  assumes "bitmap_inv bm" "\<not> bm_lock bm"
  shows "\<exists>bm'. bitmap_set_all bm = Some bm' \<and> bitmap_inv bm' \<and> \<not> bm_lock bm' \<and>
    bm_size bm' = bm_size bm \<and> bits bm' = {..<unat (bm_size bm)}"
proof -
  have sz: "unat (bm_size bm) + 63 < 2 ^ 64" "length (bm_map bm) = (unat (bm_size bm) + 63) div 64"
    using assms(1) by (simp_all add: bitmap_inv_def)
  let ?m = "map (\<lambda>k. if k < length (bm_map bm) then - 1 else bm_map bm ! k) [0..<length (bm_map bm)]"
  have full: "bm_bit ?m k" if "k < unat (bm_size bm)" for k
    using that sz(2) by simp
  obtain m where "bm_trim ?m (num_units (bm_size bm)) (bm_size bm) = Some m"
    "length m = length (bm_map bm)" "\<And>k. bm_bit m k \<longleftrightarrow> k < unat (bm_size bm) \<and> bm_bit ?m k"
    using bm_trim_spec [of "bm_size bm" ?m] sz by auto
  then show ?thesis
    using assms num_units_inv [OF assms(1)] full
    by (auto simp: bitmap_set_all_def bm_fill_spec bitmap_inv_def bits_def)
qed

lemma bitmap_resize_correct_cases:
  assumes "bitmap_inv bm" "\<not> bm_lock bm" "unat new_size + 63 < 2 ^ 64"
  shows "\<exists>bm'. bitmap_resize True junk bm new_size = Some (0, bm') \<and> bitmap_inv bm' \<and>
      \<not> bm_lock bm' \<and> bm_size bm' = new_size \<and> bits bm' = bits bm \<inter> {..<unat new_size}"
    and "bitmap_resize False junk bm new_size = Some (- ENOMEM, bm)"
proof -
  let ?o = "num_units (bm_size bm)" and ?n = "num_units new_size"
  let ?k = "krealloc_units (bm_map bm) ?n junk"
  have o: "unat ?o = length (bm_map bm)" by (rule num_units_inv [OF assms(1)])
  have n: "unat ?n = (unat new_size + 63) div 64" by (rule unat_num_units [OF assms(3)])
  define m where "m = map (\<lambda>i. if i < length (bm_map bm) then bm_map bm ! i else 0) [0..<unat ?n]"
  have m: "(if ?n > ?o then bm_fill 0 ?k ?n ?o else Some ?k) = Some m" "length m = unat ?n"
    using o by (auto simp: m_def bm_fill_spec krealloc_units_def word_less_nat_alt intro!: nth_equalityI)
  have mbit: "bm_bit m k \<longleftrightarrow> k div 64 < unat ?n \<and> bm_bit (bm_map bm) k" for k
    unfolding m_def bm_bit_map_upt by (auto simp: bm_bit_def split: if_splits)
  obtain m' where m': "bm_trim m ?n new_size = Some m'" "length m' = unat ?n"
    "\<And>k. bm_bit m' k \<longleftrightarrow> k < unat new_size \<and> bm_bit m k"
    using bm_trim_spec [of new_size m] assms(3) m(2) n by auto
  have in_units: "k div 64 < unat ?n" if "k < unat new_size" for k
    using that n by linarith
  let ?bm' = "bm\<lparr>bm_map := m', bm_size := new_size\<rparr>"
  have "bitmap_inv ?bm'" "bits ?bm' = bits bm \<inter> {..<unat new_size}"
    using m' mbit n assms(1,3) in_units by (auto simp: bitmap_inv_def bits_def)
  then show "\<exists>bm'. bitmap_resize True junk bm new_size = Some (0, bm') \<and> bitmap_inv bm' \<and>
      \<not> bm_lock bm' \<and> bm_size bm' = new_size \<and> bits bm' = bits bm \<inter> {..<unat new_size}"
    using assms(2) m(1) m'(1) by (auto simp: bitmap_resize_def Let_def split: if_splits)
  show "bitmap_resize False junk bm new_size = Some (- ENOMEM, bm)"
    using assms by (simp add: bitmap_resize_def Let_def)
qed

text \<open>Resizing keeps the old contents: after \<^verbatim>\<open>bitmap_resize\<close> to any size whose unit count
  does not overflow, the bitmap is well formed, has the new size, and its set bits are the old ones
  below the new size, whatever the reallocated memory contained; without memory it answers
  \<^verbatim>\<open>-ENOMEM\<close> and leaves the bitmap alone.\<close>

theorem bitmap_resize_correct:
  assumes "bitmap_inv bm" "\<not> bm_lock bm" "unat new_size + 63 < 2 ^ 64"
  shows "(\<exists>bm'. bitmap_resize True junk bm new_size = Some (0, bm') \<and> bitmap_inv bm' \<and>
      \<not> bm_lock bm' \<and> bm_size bm' = new_size \<and> bits bm' = bits bm \<inter> {..<unat new_size}) \<and>
    (bitmap_resize False junk bm new_size = Some (- ENOMEM, bm))"
  using bitmap_resize_correct_cases [OF assms] by blast

lemma bitmap_toggle_spec:
  assumes "bitmap_inv bm" "\<not> bm_lock bm" "unat pos + unat nbits \<le> unat (bm_size bm)"
  shows "\<exists>bm'. bitmap_toggle bm pos nbits = Some (0, bm') \<and> bitmap_inv bm' \<and> \<not> bm_lock bm' \<and>
    bm_size bm' = bm_size bm \<and>
    bits bm' = (bits bm - bit_range pos nbits) \<union> (bit_range pos nbits - bits bm)"
proof -
  obtain m where m: "bm_update (XOR) (bm_map bm) pos nbits 0 = Some m"
    "bitmap_inv (bm\<lparr>bm_map := m\<rparr>)"
    "bits (bm\<lparr>bm_map := m\<rparr>) = {k. if k \<in> bit_range pos nbits then k \<notin> bits bm else k \<in> bits bm}"
    using flip_bits.update_range [OF assms(1,3)] by auto
  have "\<not> bm_size bm < pos + nbits"
    using assms range_bounds [of bm pos nbits] by (simp add: range_guard)
  with m assms show ?thesis
    by (auto simp: bitmap_toggle_def)
qed

lemma bitmap_copy_spec:
  assumes "bitmap_inv src" "\<not> bm_lock src"
  shows "\<exists>dest'. bitmap_copy True src dest = Some (0, src, dest') \<and> bitmap_inv dest' \<and>
    \<not> bm_lock dest' \<and> bm_size dest' = bm_size src \<and> bits dest' = bits src"
  using assms num_units_inv [OF assms(1)]
  by (auto simp: bitmap_copy_def bitmap_inv_def bits_def Let_def)

lemma bitmap_init_spec:
  assumes "0 < bm_sz" "unat bm_sz + 63 < 2 ^ 64" "length arr = (unat bm_sz + 63) div 64"
  shows "\<exists>bm'. bitmap_init (Some bm) (Some arr) bm_sz = Some (0, Some bm') \<and> bitmap_inv bm' \<and>
    \<not> bm_lock bm' \<and> bm_size bm' = bm_sz \<and> bits bm' = {}"
  using assms unat_num_units [OF assms(2)]
  by (auto simp: bitmap_init_def bm_fill_spec bitmap_inv_def bits_def)

lemma bitmap_alloc_establishes_cases:
  assumes "0 < bm_sz" "unat bm_sz + 63 < 2 ^ 64"
  shows "\<exists>bm'. bitmap_alloc True True fresh True bm_sz = Some (0, Some bm') \<and>
      bitmap_init_array True (Some fresh) bm_sz = Some (0, Some bm') \<and> bitmap_inv bm' \<and>
      \<not> bm_lock bm' \<and> bm_size bm' = bm_sz \<and> bits bm' = {}"
    and "bitmap_alloc False ok fresh True bm_sz = Some (- 1, None)"
    and "bitmap_alloc True False fresh True bm_sz = Some (- ENOMEM, None)"
proof -
  let ?arr = "replicate (unat (num_units bm_sz)) 0 :: u64 list"
  have "length ?arr = (unat bm_sz + 63) div 64" using unat_num_units [OF assms(2)] by simp
  from bitmap_init_spec [OF assms this, of fresh] assms(1)
  show "\<exists>bm'. bitmap_alloc True True fresh True bm_sz = Some (0, Some bm') \<and>
      bitmap_init_array True (Some fresh) bm_sz = Some (0, Some bm') \<and> bitmap_inv bm' \<and>
      \<not> bm_lock bm' \<and> bm_size bm' = bm_sz \<and> bits bm' = {}"
    by (auto simp: bitmap_alloc_def bitmap_init_array_def)
qed (use assms in \<open>auto simp: bitmap_alloc_def\<close>)

text \<open>The constructors establish the invariant: \<^verbatim>\<open>bitmap_init_array\<close> and
  \<^verbatim>\<open>bitmap_alloc\<close> give, when the allocator has memory, a well-formed unlocked bitmap of the
  requested size with no bit set, and an error otherwise.\<close>

theorem bitmap_alloc_establishes:
  assumes "0 < bm_sz" "unat bm_sz + 63 < 2 ^ 64"
  shows "(\<exists>bm'. bitmap_alloc True True fresh True bm_sz = Some (0, Some bm') \<and>
      bitmap_init_array True (Some fresh) bm_sz = Some (0, Some bm') \<and> bitmap_inv bm' \<and>
      \<not> bm_lock bm' \<and> bm_size bm' = bm_sz \<and> bits bm' = {}) \<and>
    (bitmap_alloc False ok fresh True bm_sz = Some (- 1, None)) \<and>
    (bitmap_alloc True False fresh True bm_sz = Some (- ENOMEM, None))"
  using bitmap_alloc_establishes_cases [OF assms] by blast

lemma bitmap_range_check_wraps_cases:
  assumes "bitmap_inv bm" "\<not> bm_lock bm"
  shows "bitmap_set bm (- 1) 1 = None"
    and "bitmap_unset bm (- 1) 1 = None"
    and "bitmap_test bm (- 1) 1 = None"
    and "bitmap_toggle bm (- 1) 1 = None"
proof -
  have m1: "unat (- 1 :: u64) = 2 ^ 64 - 1" by (simp add: unsigned_minus_1_eq_mask mask_eq_exp_minus_1)
  have len: "64 * length (bm_map bm) \<le> unat (- 1 :: u64)"
    using assms(1) m1 by (auto simp: bitmap_inv_def)
  have scan: "bm_scan v (bm_map bm) (- 1) 1 0 = None" for v
    by (subst bm_scan.simps) (simp add: bm_test_bit_out [OF len])
  have upd: "bm_update f (bm_map bm) (- 1) 1 0 = None" for f
    by (subst bm_update.simps) (simp add: bm_modify_bit_out [OF len])
  show "bitmap_set bm (- 1) 1 = None" "bitmap_unset bm (- 1) 1 = None"
    "bitmap_test bm (- 1) 1 = None" "bitmap_toggle bm (- 1) 1 = None"
    using assms(2) scan upd
    by (simp_all add: bitmap_set_def bitmap_unset_def bitmap_test_def bitmap_toggle_def)
qed

text \<open>The bound check of the range operations is a sum that can wrap around: with a start
  of \<open>2\<^sup>6\<^sup>4 - 1\<close> and one bit it lets the range through, and the access it guards is outside
  the array of every well-formed bitmap.\<close>

theorem bitmap_range_check_wraps:
  assumes "bitmap_inv bm" "\<not> bm_lock bm"
  shows "(bitmap_set bm (- 1) 1 = None) \<and>
    (bitmap_unset bm (- 1) 1 = None) \<and>
    (bitmap_test bm (- 1) 1 = None) \<and>
    (bitmap_toggle bm (- 1) 1 = None)"
  using bitmap_range_check_wraps_cases [OF assms] by blast

section \<open>The theorems at a concrete bitmap\<close>

definition sample_bitmap :: bitmap where
  "sample_bitmap = \<lparr>bm_map = [5], bm_size = 10, bm_lock = False\<rparr>"

lemma bits_code: "bits bm = set (filter (bm_bit (bm_map bm)) [0..<unat (bm_size bm)])"
  by (auto simp: bits_def)

lemma sample_bitmap_ok [simp]:
  "bitmap_inv sample_bitmap" "\<not> bm_lock sample_bitmap" "bm_size sample_bitmap = 10"
  by (simp_all add: sample_bitmap_def bitmap_inv_code bm_bit_def upt_rec)

lemma sample_bits [simp]: "bits sample_bitmap = {0, 2}"
  by (auto simp: sample_bitmap_def bits_code bm_bit_def upt_rec)

theorem bitmap_set_correct_witness:
  "\<exists>bm'. bitmap_set sample_bitmap 3 2 = Some (0, bm') \<and> bits bm' = {0, 2} \<union> bit_range 3 2"
  using bitmap_set_correct [of sample_bitmap 3 2] by (auto simp: bit_range_def)

theorem bitmap_unset_correct_witness:
  "\<exists>bm'. bitmap_unset sample_bitmap 2 1 = Some (0, bm') \<and> bits bm' = {0}"
  using bitmap_unset_correct [of sample_bitmap 2 1] by (auto simp: bit_range_def)

theorem bitmap_test_spec_witness: "bitmap_test sample_bitmap 1 1 = Some (0, sample_bitmap)"
  using bitmap_test_spec [of sample_bitmap 1 1] by (auto simp: bit_range_def)

theorem bitmap_alloc_range_first_fit_witness:
  "\<exists>bm'. bitmap_alloc_range sample_bitmap 2 True = Some (0, Some 3, bm') \<and>
    bits bm' = {0, 2} \<union> bit_range 3 2"
proof -
  have "free_at sample_bitmap 2 3" by (auto simp: free_at_def bit_range_def)
  moreover have "p = 3" if p: "free_at sample_bitmap 2 p" "\<forall>q<p. \<not> free_at sample_bitmap 2 q" for p
  proof -
    have "\<not> 3 < p" using p(2) \<open>free_at sample_bitmap 2 3\<close> by blast
    moreover have "unat p \<noteq> 0" "unat p \<noteq> 1" "unat p \<noteq> 2"
      using p(1) by (auto simp: free_at_def bit_range_def)
    ultimately show ?thesis by (simp add: word_less_nat_alt word_unat_eq_iff)
  qed
  ultimately show ?thesis
    using bitmap_alloc_range_first_fit [of sample_bitmap 2] by (fastforce simp: word_less_nat_alt)
qed

theorem bitmap_find_first_unset_correct_witness:
  "\<exists>p. bitmap_find_first_unset sample_bitmap = Some (0, Some p, sample_bitmap) \<and> unat p = 1"
proof -
  have "1 \<in> {..<10 :: nat}" "1 \<notin> {0, 2 :: nat}" by simp_all
  then have "{0, 2} \<noteq> {..<10 :: nat}" by metis
  then obtain p where p: "bitmap_find_first_unset sample_bitmap = Some (0, Some p, sample_bitmap)"
    "unat p \<noteq> 0" "\<forall>k < unat p. k = 0 \<or> k = 2"
    using bitmap_find_first_unset_correct [of sample_bitmap] by auto
  then have "unat p = 1" using spec [OF p(3), of 1] by auto
  with p show ?thesis by blast
qed

theorem bitmap_count_correct_witness:
  "\<exists>c u. bitmap_count_set sample_bitmap = Some (c, sample_bitmap) \<and> unat c = 2 \<and> 
     bitmap_count_unset sample_bitmap = Some (u, sample_bitmap) \<and> unat u = 8"
  using bitmap_count_correct [of sample_bitmap] by (auto simp: lessThan_nat_numeral)

theorem bitmap_resize_correct_witness:
  "(\<exists>bm'. bitmap_resize True (\<lambda>_. 7) sample_bitmap 1 = Some (0, bm') \<and> bits bm' = {0}) \<and>
   bitmap_resize False (\<lambda>_. 7) sample_bitmap 1 = Some (- ENOMEM, sample_bitmap)"
  using bitmap_resize_correct [of sample_bitmap 1 "\<lambda>_. 7"] by auto

theorem bitmap_alloc_establishes_witness:
  "\<exists>bm'. bitmap_alloc True True sample_bitmap True 70 = Some (0, Some bm') \<and> bits bm' = {}"
  using bitmap_alloc_establishes [of 70 sample_bitmap] by (auto simp: word_less_nat_alt)

theorem bitmap_range_check_wraps_witness: "bitmap_set sample_bitmap (- 1) 1 = None"
  using bitmap_range_check_wraps [of sample_bitmap] by simp

end
