(* ===== verification/Boot.thy ===== *)
theory Boot
  imports Prelude "HOL-Library.Multiset"
begin

text \<open>
  Boot information and the early allocator, \<^verbatim>\<open>src/src/kernel/boot/boot.c\<close>: the memory map that
  the boot loader hands over is copied into \<^verbatim>\<open>bootinfo.mmap\<close>, together with the regions of the
  kernel image, the modules and the framebuffer, and sorted; \<^verbatim>\<open>boot_alloc\<close> is a bump allocator
  that reserves what it hands out in the same table.

  The multiboot structures are read only: \<open>mb_mmap_at\<close> gives the map entry that lies at an address
  and \<open>mb_mods\<close> the array of module descriptors.  \<^verbatim>\<open>framebuffer_gfx_init\<close>, which \<^verbatim>\<open>boot.c\<close> calls
  in another component, does not change \<^verbatim>\<open>bootinfo\<close> and is left out.
\<close>

section \<open>Address macros\<close>

abbreviation (input) PGSZ :: u64 where "PGSZ \<equiv> 4096"
abbreviation (input) VMA_BASE :: u64 where "VMA_BASE \<equiv> 0xFFFF800000000000"

definition V2LO :: "u64 \<Rightarrow> u64" where "V2LO p = p - VMA_BASE"
definition V2HI :: "u64 \<Rightarrow> u64" where "V2HI p = p + VMA_BASE"
definition PGOFF :: "u64 \<Rightarrow> u64" where "PGOFF p = p AND 0xFFF"
definition PGROUND :: "u64 \<Rightarrow> u64" where "PGROUND p = p AND NOT 0xFFF"
definition PGROUNDUP :: "u64 \<Rightarrow> u64" where "PGROUNDUP p = (if PGOFF p \<noteq> 0 then PGROUND (p + PGSZ) else p)"
definition NPAGE :: "u64 \<Rightarrow> u64" where "NPAGE p = p div PGSZ + (if PGOFF p \<noteq> 0 then 1 else 0)"
definition KiB :: "u64 \<Rightarrow> u64" where "KiB x = 1024 * x"
definition B2KiB :: "u64 \<Rightarrow> u64" where "B2KiB x = x div 1024"
definition OVERLAPS :: "u64 \<Rightarrow> u64 \<Rightarrow> u64 \<Rightarrow> u64 \<Rightarrow> bool" where
  "OVERLAPS x sx y sy \<longleftrightarrow> x < y + sy \<and> y < x + sx"

text \<open>\<^verbatim>\<open>GiB(4)\<close>.\<close>

abbreviation (input) GiB4 :: u64 where "GiB4 \<equiv> 0x100000000"

text \<open>The conversion of a \<^verbatim>\<open>uint32_t\<close> to 64 bits.\<close>

abbreviation (input) widen :: "u32 \<Rightarrow> u64" where "widen \<equiv> ucast"

section \<open>State\<close>

record boot_mmap =
  mm_addr :: u64
  mm_size :: u64
  mm_type :: u32

record boot_mod =
  mod_addr :: u64
  mod_size :: u64
  mod_cmd :: addr

record bootinfo =
  bi_watermark :: u64
  bi_memtotal :: u64
  bi_usable :: u64
  bi_memlo :: u64
  bi_memhi :: u64
  bi_hole_addr :: u64
  bi_hole_size :: u64
  bi_fb_addr :: u64
  bi_fb_size :: u64
  bi_phyaddr :: u64
  bi_mmap :: "boot_mmap list"
  bi_mmapcnt :: u64
  bi_mods :: "boot_mod list"
  bi_modcnt :: u64
  kern_base :: u64
  kern_size :: u64

abbreviation (input) NMODS :: u32 where "NMODS \<equiv> 64"
abbreviation (input) NMMAP :: u64 where "NMMAP \<equiv> 72"
abbreviation (input) BOOT_ALLOC_WATERMARK :: u64 where "BOOT_ALLOC_WATERMARK \<equiv> 0x8932CD33DEADFAAF"
abbreviation (input) MULTIBOOT_MEMORY_AVAILABLE :: u32 where "MULTIBOOT_MEMORY_AVAILABLE \<equiv> 1"
abbreviation (input) MULTIBOOT_MEMORY_RESERVED :: u32 where "MULTIBOOT_MEMORY_RESERVED \<equiv> 2"
abbreviation (input) MULTIBOOT_INFO_MODS :: u32 where "MULTIBOOT_INFO_MODS \<equiv> 0x8"
abbreviation (input) MULTIBOOT_INFO_MEM_MAP :: u32 where "MULTIBOOT_INFO_MEM_MAP \<equiv> 0x40"
abbreviation (input) MULTIBOOT_INFO_FRAMEBUFFER_INFO :: u32 where "MULTIBOOT_INFO_FRAMEBUFFER_INFO \<equiv> 0x1000"

definition is_kernel_addr :: "bootinfo \<Rightarrow> addr \<Rightarrow> bool" where
  "is_kernel_addr bi a \<longleftrightarrow> a \<ge> kern_base bi \<and> a < kern_base bi + kern_size bi"

record mmap_entry =
  me_size :: u32
  me_addr :: u64
  me_len :: u64
  me_type :: u32

record mod_entry =
  mod_start :: u32
  mod_end :: u32
  mod_cmdline :: u32

record multiboot_info =
  mb_flags :: u32
  mb_mem_lower :: u32
  mb_mem_upper :: u32
  mb_mods_count :: u32
  mb_mods :: "mod_entry list"
  mb_mmap_length :: u32
  mb_mmap_addr :: u32
  mb_mmap_at :: "addr \<Rightarrow> mmap_entry"
  mb_framebuffer_addr :: u64
  mb_framebuffer_pitch :: u32
  mb_framebuffer_height :: u32

section \<open>Sorting the memory map\<close>

definition swap_mmap :: "boot_mmap list \<Rightarrow> u64 \<Rightarrow> u64 \<Rightarrow> boot_mmap list option" where
  "swap_mmap xs a b = do {
     x \<leftarrow> array_get xs a;
     y \<leftarrow> array_get xs b;
     xs \<leftarrow> array_set xs a y;
     array_set xs b x }"

text \<open>The two loops; \<open>n\<close> is the bound of the loop, \<^verbatim>\<open>count - 1 - i\<close> and \<^verbatim>\<open>count - 1\<close>.\<close>

function bubble_inner :: "boot_mmap list \<Rightarrow> u64 \<Rightarrow> u64 \<Rightarrow> boot_mmap list option" where
  "bubble_inner xs j n =
     (if j < n then do {
        x \<leftarrow> array_get xs j;
        y \<leftarrow> array_get xs (j + 1);
        xs \<leftarrow> (if mm_addr x > mm_addr y then swap_mmap xs j (j + 1) else Some xs);
        bubble_inner xs (j + 1) n }
      else Some xs)"
  by pat_completeness auto
termination by (relation "measure (\<lambda>(xs, j, n). unat n - unat j)") (auto simp: loop_measure)

declare bubble_inner.simps [simp del]

function bubble_outer :: "boot_mmap list \<Rightarrow> u64 \<Rightarrow> u64 \<Rightarrow> boot_mmap list option" where
  "bubble_outer xs i n =
     (if i < n then do { xs \<leftarrow> bubble_inner xs 0 (n - i); bubble_outer xs (i + 1) n } else Some xs)"
  by pat_completeness auto
termination by (relation "measure (\<lambda>(xs, i, n). unat n - unat i)") (auto simp: loop_measure)

declare bubble_outer.simps [simp del]

definition bubble_sort_mmap :: "boot_mmap list \<Rightarrow> u64 \<Rightarrow> boot_mmap list option" where
  "bubble_sort_mmap xs cnt = bubble_outer xs 0 (cnt - 1)"

section \<open>Collecting the boot information\<close>

definition bootinfo_add_mmap :: "bootinfo \<Rightarrow> u32 \<Rightarrow> u64 \<Rightarrow> u64 \<Rightarrow> bootinfo option" where
  "bootinfo_add_mmap bi type ad sz = do {
     assert_that (bi_mmapcnt bi < NMMAP);
     mmap \<leftarrow> array_set (bi_mmap bi) (bi_mmapcnt bi) \<lparr>mm_addr = ad, mm_size = sz, mm_type = type\<rparr>;
     Some (bi\<lparr>bi_mmap := mmap, bi_mmapcnt := bi_mmapcnt bi + 1\<rparr>) }"

text \<open>
  The body of the loop of \<^verbatim>\<open>boot_process_mmaps\<close>: one entry of the boot loader's map.  The local
  pointer \<^verbatim>\<open>mmap\<close> always is the slot with index \<^verbatim>\<open>mmapcnt\<close>.
\<close>

definition mmap_entry_body :: "mmap_entry \<Rightarrow> bootinfo \<Rightarrow> bootinfo option" where
  "mmap_entry_body e bi =
     (if me_addr e < GiB4 \<or> (me_addr e \<ge> GiB4 \<and> me_type e = MULTIBOOT_MEMORY_AVAILABLE)
      then do {
        mmap \<leftarrow> array_set (bi_mmap bi) (bi_mmapcnt bi)
          \<lparr>mm_addr = V2HI (me_addr e), mm_size = me_len e, mm_type = me_type e\<rparr>;
        let bi = bi\<lparr>bi_mmap := mmap\<rparr>;
        let bi =
          (if KiB (bi_memtotal bi) = me_addr e
           then bi\<lparr>bi_memtotal := bi_memtotal bi + B2KiB (me_len e), bi_hole_addr := me_addr e, bi_hole_size := me_len e\<rparr>
           else if me_addr e \<ge> GiB4 \<and> me_type e = MULTIBOOT_MEMORY_AVAILABLE
           then bi\<lparr>bi_memtotal := bi_memtotal bi + B2KiB (me_len e)\<rparr> else bi);
        let bi = (if me_type e = MULTIBOOT_MEMORY_AVAILABLE
          then bi\<lparr>bi_usable := bi_usable bi + me_len e\<rparr> else bi);
        Some (bi\<lparr>bi_mmapcnt := bi_mmapcnt bi + 1\<rparr>) }
      else Some bi)"

text \<open>
  The walk over the map.  The end is the sum of two 32-bit numbers, taken at 32 bits; so the walk
  stays far from the top of the address space and each step moves forward.
\<close>

lemma unat_ucast_32 [simp]: "unat (widen e) = unat e"
  by (simp add: unsigned_ucast_eq take_bit_nat_eq_self unsigned_less [THEN order.strict_trans])

lemma unat_V2HI: "unat p < 2 ^ 47 \<Longrightarrow> unat (V2HI p) = unat p + 0xFFFF800000000000"
  unfolding V2HI_def by (subst unat_add_bounded) simp_all

lemma mmap_step_forward:
  assumes "entry < V2HI (widen e)"
  shows "unat (V2HI (widen e)) - unat (entry + widen s + 4) < unat (V2HI (widen e)) - unat entry"
proof -
  have b: "unat e < 2 ^ 32" "unat s < 2 ^ 32" using unsigned_less [of e] unsigned_less [of s] by simp_all
  then have h: "unat (V2HI (widen e)) = unat e + 0xFFFF800000000000" by (simp add: unat_V2HI)
  then have "unat entry < unat e + 0xFFFF800000000000" using assms by (simp add: word_less_nat_alt)
  then have "unat (entry + widen s + 4) = unat entry + unat s + 4"
    using b by (simp add: unat_add_bounded)
  then show ?thesis using h assms by (simp add: word_less_nat_alt)
qed

function mmap_walk :: "multiboot_info \<Rightarrow> addr \<Rightarrow> bootinfo \<Rightarrow> bootinfo option" where
  "mmap_walk mbi entry bi =
     (if entry < V2HI (widen (mb_mmap_addr mbi + mb_mmap_length mbi)) \<and> bi_mmapcnt bi < NMMAP
      then do {
        let e = mb_mmap_at mbi entry;
        bi \<leftarrow> mmap_entry_body e bi;
        mmap_walk mbi (entry + widen (me_size e) + 4) bi }
      else Some bi)"
  by pat_completeness auto
termination
  by (relation "measure (\<lambda>(mbi, entry, bi).
        unat (V2HI (widen (mb_mmap_addr mbi + mb_mmap_length mbi))) - unat entry)")
     (use mmap_step_forward in auto)

declare mmap_walk.simps [simp del]

definition boot_process_mmaps :: "multiboot_info \<Rightarrow> bootinfo \<Rightarrow> bootinfo option" where
  "boot_process_mmaps mbi bi = do {
     bi \<leftarrow>
       (if mb_flags mbi AND MULTIBOOT_INFO_MEM_MAP \<noteq> 0
        then do {
          mmap \<leftarrow> array_set (bi_mmap bi) 0
            \<lparr>mm_addr = kern_base bi, mm_size = kern_size bi, mm_type = MULTIBOOT_MEMORY_RESERVED\<rparr>;
          mmap_walk mbi (V2HI (widen (mb_mmap_addr mbi))) (bi\<lparr>bi_mmapcnt := 1, bi_mmap := mmap\<rparr>) }
        else Some bi);
     Some (bi\<lparr>bi_usable := bi_usable bi - kern_size bi, bi_phyaddr := V2LO (kern_base bi) + kern_size bi\<rparr>) }"

text \<open>The loop over the modules and its body.\<close>

definition module_body :: "multiboot_info \<Rightarrow> u64 \<Rightarrow> bootinfo \<Rightarrow> bootinfo option" where
  "module_body mbi i bi = do {
     e \<leftarrow> array_get (mb_mods mbi) i;
     let m = \<lparr>mod_addr = V2HI (ucast (mod_start e)), mod_size = PGROUNDUP (ucast (mod_end e - mod_start e)),
       mod_cmd = V2HI (ucast (mod_cmdline e))\<rparr>;
     mods \<leftarrow> array_set (bi_mods bi) i m;
     let bi = bi\<lparr>bi_mods := mods, bi_usable := bi_usable bi - mod_size m,
       bi_phyaddr := V2LO (mod_addr m) + mod_size m\<rparr>;
     assert_that (\<not> bi_mmapcnt bi \<ge> NMMAP);
     bootinfo_add_mmap bi MULTIBOOT_MEMORY_RESERVED (mod_addr m) (mod_size m) }"

lemma module_body_modcnt [termination_simp]: "module_body mbi i bi = Some bi' \<Longrightarrow> bi_modcnt bi' = bi_modcnt bi"
  by (auto simp: module_body_def bootinfo_add_mmap_def Let_def bind_eq_Some_conv)

function modules_loop :: "multiboot_info \<Rightarrow> u64 \<Rightarrow> bootinfo \<Rightarrow> bootinfo option" where
  "modules_loop mbi i bi =
     (if i < bi_modcnt bi then do { bi' \<leftarrow> module_body mbi i bi; modules_loop mbi (i + 1) bi' }
      else Some bi)"
  by pat_completeness auto
termination
  by (relation "measure (\<lambda>(mbi, i, bi). unat (bi_modcnt bi) - unat i)")
     (auto simp: module_body_modcnt loop_measure)

declare modules_loop.simps [simp del]

definition boot_process_modules :: "multiboot_info \<Rightarrow> bootinfo \<Rightarrow> bootinfo option" where
  "boot_process_modules mbi bi =
     (if mb_flags mbi AND MULTIBOOT_INFO_MODS \<noteq> 0
      then modules_loop mbi 0
             (bi\<lparr>bi_modcnt := (if mb_mods_count mbi > NMODS then 64 else ucast (mb_mods_count mbi))\<rparr>)
      else Some bi)"

text \<open>The size is a product of two 32-bit numbers, taken at 32 bits.\<close>

definition boot_process_framebuffer :: "multiboot_info \<Rightarrow> bootinfo \<Rightarrow> bootinfo option" where
  "boot_process_framebuffer mbi bi =
     (if mb_flags mbi AND MULTIBOOT_INFO_FRAMEBUFFER_INFO \<noteq> 0
      then do {
        let bi = bi\<lparr>bi_fb_addr := V2HI (mb_framebuffer_addr mbi),
          bi_fb_size := ucast (mb_framebuffer_height mbi * mb_framebuffer_pitch mbi)\<rparr>;
        bootinfo_add_mmap bi MULTIBOOT_MEMORY_RESERVED (bi_fb_addr bi) (bi_fb_size bi) }
      else Some bi)"

definition zero_mmap :: boot_mmap where
  "zero_mmap = \<lparr>mm_addr = 0, mm_size = 0, mm_type = 0\<rparr>"

definition zero_bootinfo :: bootinfo where
  "zero_bootinfo = \<lparr>bi_watermark = 0, bi_memtotal = 0, bi_usable = 0, bi_memlo = 0, bi_memhi = 0, bi_hole_addr = 0,
     bi_hole_size = 0, bi_fb_addr = 0, bi_fb_size = 0, bi_phyaddr = 0, bi_mmap = replicate 72 zero_mmap,
     bi_mmapcnt = 0, bi_mods = replicate 64 \<lparr>mod_addr = 0, mod_size = 0, mod_cmd = 0\<rparr>, bi_modcnt = 0,
     kern_base = 0, kern_size = 0\<rparr>"

lemma zero_bootinfo_fields [simp]:
  "bi_watermark zero_bootinfo = 0" "bi_mmapcnt zero_bootinfo = 0" "length (bi_mmap zero_bootinfo) = 72"
  by (simp_all add: zero_bootinfo_def)

text \<open>The linker's symbols \<^verbatim>\<open>__kernel_start\<close> and \<^verbatim>\<open>__kernel_end\<close> are arguments.\<close>

definition multiboot_info_process :: "u64 \<Rightarrow> u64 \<Rightarrow> multiboot_info \<Rightarrow> bootinfo option" where
  "multiboot_info_process kernel_start kernel_end mbi = do {
     let bi = zero_bootinfo\<lparr>kern_base := PGROUND kernel_start,
       kern_size := PGROUNDUP kernel_end - PGROUND kernel_start,
       bi_memlo := ucast (mb_mem_lower mbi), bi_memhi := ucast (mb_mem_upper mbi),
       bi_memtotal := 1024 + ucast (mb_mem_upper mbi)\<rparr>;
     bi \<leftarrow> boot_process_mmaps mbi bi;
     bi \<leftarrow> boot_process_modules mbi bi;
     let bi = bi\<lparr>bi_usable := PGROUND (bi_usable bi) div 1024\<rparr>;
     bi \<leftarrow> boot_process_framebuffer mbi bi;
     mmap \<leftarrow> bubble_sort_mmap (bi_mmap bi) (bi_mmapcnt bi);
     Some (bi\<lparr>bi_mmap := mmap\<rparr>) }"

section \<open>The early allocator\<close>

definition boot_alloc :: "bootinfo \<Rightarrow> u64 \<Rightarrow> u64 \<Rightarrow> (addr \<times> bootinfo) option" where
  "boot_alloc bi sz alignment = do {
     assert_that (bi_watermark bi \<noteq> BOOT_ALLOC_WATERMARK);
     assert_that (\<not> (sz = 0 \<or> alignment = 0 \<or> alignment AND (alignment - 1) \<noteq> 0));
     let sz = (sz + alignment - 1) AND NOT (alignment - 1);
     let aligned_addr =
       (if bi_phyaddr bi mod alignment \<noteq> 0
        then (bi_phyaddr bi + alignment - 1) AND NOT (alignment - 1) else bi_phyaddr bi);
     assert_that (\<not> aligned_addr + sz < aligned_addr);
     assert_that (\<not> aligned_addr + sz > KiB (bi_usable bi));
     assert_that (bi_mmapcnt bi \<noteq> NMMAP);
     let ad = V2HI aligned_addr;
     let bi = bi\<lparr>bi_phyaddr := aligned_addr + sz, bi_usable := bi_usable bi - B2KiB sz\<rparr>;
     bi \<leftarrow> bootinfo_add_mmap bi MULTIBOOT_MEMORY_RESERVED ad sz;
     Some (ad, bi) }"

lemma boot_alloc_Some:
  assumes "boot_alloc bi sz al = Some (ad, bi')"
  obtains A N where "N = (sz + al - 1) AND NOT (al - 1)"
    "A = (if bi_phyaddr bi mod al \<noteq> 0 then (bi_phyaddr bi + al - 1) AND NOT (al - 1) else bi_phyaddr bi)"
    "A \<le> A + N" "A + N \<le> KiB (bi_usable bi)" "ad = V2HI A"
    "bootinfo_add_mmap (bi\<lparr>bi_phyaddr := A + N, bi_usable := bi_usable bi - B2KiB N\<rparr>)
       MULTIBOOT_MEMORY_RESERVED (V2HI A) N = Some bi'"
  using assms unfolding boot_alloc_def Let_def by (simp only: assert_that_bind bind_eq_Some_conv not_less) auto

section \<open>The sort\<close>

lemma swap_mmap_spec:
  assumes "unat a < length xs" "unat b < length xs"
  shows "swap_mmap xs a b = Some (xs[unat a := xs ! unat b, unat b := xs ! unat a])"
  using assms by (simp add: swap_mmap_def)

text \<open>One pass moves the largest of the first \<open>n + 1\<close> entries to position \<open>n\<close>.\<close>

definition pass_result :: "boot_mmap list \<Rightarrow> boot_mmap list \<Rightarrow> nat \<Rightarrow> bool" where
  "pass_result xs ys n \<longleftrightarrow> length ys = length xs \<and> mset ys = mset xs \<and>
     (\<forall>k. n < k \<longrightarrow> k < length xs \<longrightarrow> ys ! k = xs ! k) \<and>
     (\<forall>l \<le> n. \<exists>l' \<le> n. ys ! l = xs ! l')"

lemma pass_result_trans: "pass_result xs ys n \<Longrightarrow> pass_result ys zs n \<Longrightarrow> pass_result xs zs n"
  unfolding pass_result_def by (metis (no_types, lifting))

lemma pass_result_mono:
  assumes "pass_result xs ys m" "m \<le> n" "n < length xs"
  shows "pass_result xs ys n"
proof -
  have "\<exists>l' \<le> n. ys ! l = xs ! l'" if "l \<le> n" for l
  proof (cases "l \<le> m")
    case True
    then obtain l' where "l' \<le> m" "ys ! l = xs ! l'" using assms(1) by (auto simp: pass_result_def)
    then show ?thesis using assms(2) by (intro exI [of _ l']) simp
  qed (use assms that in \<open>auto simp: pass_result_def\<close>)
  then show ?thesis using assms by (auto simp: pass_result_def)
qed

lemma pass_result_swap:
  assumes "Suc j \<le> n" "n < length xs"
  shows "pass_result xs (xs[j := xs ! Suc j, Suc j := xs ! j]) n"
proof -
  have "mset (xs[j := xs ! Suc j, Suc j := xs ! j]) = mset xs"
    using assms by (intro mset_swap) simp_all
  moreover have "\<exists>l' \<le> n. xs[j := xs ! Suc j, Suc j := xs ! j] ! l = xs ! l'" if "l \<le> n" for l
    using that assms by (cases "l = j"; cases "l = Suc j") (auto intro: exI [of _ j] exI [of _ "Suc j"])
  ultimately show ?thesis using assms by (auto simp: pass_result_def)
qed

lemma bubble_inner_spec:
  assumes "unat n < length xs" "unat j \<le> unat n"
    and "\<forall>l \<le> unat j. mm_addr (xs ! l) \<le> mm_addr (xs ! unat j)"
  shows "\<exists>ys. bubble_inner xs j n = Some ys \<and> pass_result xs ys (unat n) \<and>
    (\<forall>l \<le> unat n. mm_addr (ys ! l) \<le> mm_addr (ys ! unat n))"
  using assms
proof (induction xs j n rule: bubble_inner.induct)
  case (1 xs j n)
  show ?case
  proof (cases "j < n")
    case False
    then have "unat j = unat n" using 1 by (simp add: word_less_nat_alt)
    then show ?thesis using 1 False by (subst bubble_inner.simps) (auto simp: pass_result_def)
  next
    case True
    then have s: "unat (j + 1) = Suc (unat j)" "Suc (unat j) \<le> unat n"
      using unat_Suc_less [OF True] by (simp_all add: word_less_nat_alt)
    then have b: "unat j < length xs" "unat (j + 1) < length xs" using 1 by simp_all
    let ?x = "xs ! unat j" and ?y = "xs ! unat (j + 1)"
    define zs where "zs = (if mm_addr ?x > mm_addr ?y
      then xs[unat j := xs ! Suc (unat j), Suc (unat j) := xs ! unat j] else xs)"
    have step: "bubble_inner xs j n = bubble_inner zs (j + 1) n"
      using True b swap_mmap_spec [OF b] s(1) by (subst bubble_inner.simps) (simp add: zs_def)
    have p: "pass_result xs zs (unat n)"
      using pass_result_swap [OF s(2)] 1(2) by (auto simp: zs_def) (auto simp: pass_result_def)
    have "\<forall>l \<le> unat (j + 1). mm_addr (zs ! l) \<le> mm_addr (zs ! unat (j + 1))"
      using 1(4) b s(1) by (auto simp: zs_def nth_list_update le_Suc_eq not_less intro: order.trans)
    moreover have "unat n < length zs" using p 1(2) by (simp add: pass_result_def)
    ultimately obtain ys where "bubble_inner zs (j + 1) n = Some ys" "pass_result zs ys (unat n)"
        "\<forall>l \<le> unat n. mm_addr (ys ! l) \<le> mm_addr (ys ! unat n)"
      using 1(1) [OF True, of ?x ?y zs] b swap_mmap_spec [OF b] s by (auto simp: zs_def split: if_splits)
    then show ?thesis using step pass_result_trans [OF p] by auto
  qed
qed

text \<open>The entries above position \<open>m\<close>, up to \<open>N\<close>, are in their final place.\<close>

definition settled :: "boot_mmap list \<Rightarrow> nat \<Rightarrow> nat \<Rightarrow> bool" where
  "settled xs m N \<longleftrightarrow> (\<forall>k l. m \<le> k \<longrightarrow> k \<le> N \<longrightarrow> l \<le> k \<longrightarrow> mm_addr (xs ! l) \<le> mm_addr (xs ! k))"

lemma settled_pass:
  assumes "pass_result xs ys m" "\<forall>l \<le> m. mm_addr (ys ! l) \<le> mm_addr (ys ! m)"
    and "settled xs (Suc m) N" "N < length xs"
  shows "settled ys m N"
  unfolding settled_def
proof (intro allI impI)
  fix k l assume k: "m \<le> k" "k \<le> N" "l \<le> k"
  show "mm_addr (ys ! l) \<le> mm_addr (ys ! k)"
  proof (cases "k = m")
    case False
    then have "ys ! k = xs ! k" using assms(1,4) k by (simp add: pass_result_def)
    moreover have "\<exists>l' \<le> k. ys ! l = xs ! l'"
      using pass_result_mono [OF assms(1), of k] assms(4) k by (simp add: pass_result_def)
    ultimately show ?thesis using assms(3) k False by (auto simp: settled_def)
  qed (use assms(2) k in simp)
qed

lemma bubble_outer_spec:
  assumes "unat n < length xs" "unat i \<le> unat n" "settled xs (Suc (unat n - unat i)) (unat n)"
  shows "\<exists>ys. bubble_outer xs i n = Some ys \<and> pass_result xs ys (unat n) \<and> settled ys 1 (unat n)"
  using assms
proof (induction xs i n rule: bubble_outer.induct)
  case (1 xs i n)
  show ?case
  proof (cases "i < n")
    case False
    then have "unat i = unat n" using 1 by (simp add: word_less_nat_alt)
    then show ?thesis using 1 False by (subst bubble_outer.simps) (auto simp: pass_result_def)
  next
    case True
    then have s: "unat (i + 1) = Suc (unat i)" "unat (n - i) = unat n - unat i" "unat i < unat n"
      using unat_Suc_less [OF True] unat_sub_bounded [OF less_imp_le [OF True]]
      by (simp_all add: word_less_nat_alt)
    obtain ys where ys: "bubble_inner xs 0 (n - i) = Some ys" "pass_result xs ys (unat n - unat i)"
        "\<forall>l \<le> unat n - unat i. mm_addr (ys ! l) \<le> mm_addr (ys ! (unat n - unat i))"
      using bubble_inner_spec [of "n - i" xs 0] less_imp_diff_less [OF 1(2)] s(2) by auto
    have "settled ys (unat n - unat i) (unat n)" using settled_pass [OF ys(2,3) 1(4,2)] .
    moreover have "Suc (unat n - unat (i + 1)) = unat n - unat i" using s by simp
    moreover have len: "unat n < length ys" using ys(2) 1(2) by (simp add: pass_result_def)
    ultimately obtain zs where "bubble_outer ys (i + 1) n = Some zs" "pass_result ys zs (unat n)" "settled zs 1 (unat n)"
      using 1(1) [OF True ys(1)] s by auto
    moreover have "pass_result xs ys (unat n)" using pass_result_mono [OF ys(2)] 1(2) by simp
    ultimately show ?thesis
      using True ys(1) pass_result_trans by (subst bubble_outer.simps) auto
  qed
qed

lemma bubble_sort_pass:
  assumes "0 < cnt" "unat cnt \<le> length xs"
  shows "\<exists>ys. bubble_sort_mmap xs cnt = Some ys \<and> pass_result xs ys (unat cnt - 1) \<and> settled ys 1 (unat cnt - 1)"
proof -
  have "unat (cnt - 1) = unat cnt - 1" "unat cnt > 0" using assms(1) by (simp_all add: unat_minus_one unat_gt_0)
  then show ?thesis
    using bubble_outer_spec [of "cnt - 1" xs 0] assms unfolding bubble_sort_mmap_def
    by (force simp: settled_def)
qed

lemma mset_take_cong:
  assumes "length ys = length xs" "mset ys = mset xs" "drop n ys = drop n xs"
  shows "mset (take n ys) = mset (take n xs)"
  using assms by (metis add_right_cancel append_take_drop_id mset_append)

lemma bubble_sort_mmap_spec:
  assumes "0 < cnt" "unat cnt \<le> length xs"
  shows "\<exists>ys. bubble_sort_mmap xs cnt = Some ys \<and> length ys = length xs \<and>
    sorted (map mm_addr (take (unat cnt) ys)) \<and>
    mset (take (unat cnt) ys) = mset (take (unat cnt) xs) \<and> drop (unat cnt) ys = drop (unat cnt) xs"
proof -
  obtain ys where ys: "bubble_sort_mmap xs cnt = Some ys" "pass_result xs ys (unat cnt - 1)" "settled ys 1 (unat cnt - 1)"
    using bubble_sort_pass [OF assms] by auto
  have len: "length ys = length xs" "mset ys = mset xs" using ys(2) by (simp_all add: pass_result_def)
  have "drop (unat cnt) ys = drop (unat cnt) xs"
    using ys(2) assms unat_gt_0 [of cnt] by (intro nth_equalityI) (auto simp: pass_result_def word_gt_0)
  moreover have "sorted (map mm_addr (take (unat cnt) ys))"
    unfolding sorted_iff_nth_mono_less using ys(3) len assms by (auto simp: settled_def)
  ultimately show ?thesis using ys(1) len mset_take_cong by blast
qed

text \<open>For a non-empty table \<^verbatim>\<open>bubble_sort_mmap\<close> returns, the first \<^verbatim>\<open>count\<close> entries become sorted
  by address, they are a permutation of what they were, and no other entry of the array changes.\<close>

theorem bubble_sort_mmap_sorts:
  assumes "0 < cnt" "unat cnt \<le> length xs"
  shows "\<exists>ys. bubble_sort_mmap xs cnt = Some ys \<and> length ys = length xs \<and>
    sorted (map mm_addr (take (unat cnt) ys)) \<and>
    mset (take (unat cnt) ys) = mset (take (unat cnt) xs) \<and> drop (unat cnt) ys = drop (unat cnt) xs"
  using assms by (rule bubble_sort_mmap_spec)

lemma bubble_inner_runs_off:
  assumes "length xs \<le> unat n" "unat j < length xs"
  shows "bubble_inner xs j n = None"
  using assms
proof (induction xs j n rule: bubble_inner.induct)
  case (1 xs j n)
  have lt: "j < n" using 1(2,3) by (simp add: word_less_nat_alt)
  note s = unat_Suc_less [OF lt]
  show ?case
  proof (cases "unat (j + 1) < length xs")
    case True
    define zs where "zs = (if mm_addr (xs ! unat j) > mm_addr (xs ! unat (j + 1))
      then xs[unat j := xs ! unat (j + 1), unat (j + 1) := xs ! unat j] else xs)"
    have "bubble_inner zs (j + 1) n = None"
      using 1(1) [OF lt, of _ _ zs] 1(2,3) True swap_mmap_spec [of j xs "j + 1"] by (auto simp: zs_def)
    then show ?thesis
      using lt True 1(3) swap_mmap_spec [of j xs "j + 1"]
      by (subst bubble_inner.simps) (auto simp: zs_def)
  qed (use lt 1(3) in \<open>subst bubble_inner.simps, simp\<close>)
qed

text \<open>For an empty table the bound \<^verbatim>\<open>count - 1\<close> wraps around: the sort runs off the array.
  That is the table of a boot loader that passes no memory map, no modules and no framebuffer.\<close>

theorem bubble_sort_mmap_empty:
  assumes "xs \<noteq> []" "length xs < 2 ^ 64 - 1"
  shows "bubble_sort_mmap xs 0 = None"
proof -
  have m: "unat (- 1 :: u64) = 2 ^ 64 - 1" by (subst unat_uminus) simp_all
  then have "(0 :: u64) < - 1" by (simp add: word_less_nat_alt)
  moreover have "bubble_inner xs 0 (- 1) = None"
    using assms m by (intro bubble_inner_runs_off) simp_all
  ultimately show ?thesis
    unfolding bubble_sort_mmap_def by (subst bubble_outer.simps) simp
qed

section \<open>The allocator\<close>

lemma and_not_mask: "(x :: u64) AND NOT (mask k) = push_bit k (drop_bit k x)"
  by (rule bit_eqI) (auto simp: bit_simps)

lemma unat_and_not_mask: "unat ((x :: u64) AND NOT (mask k)) = unat x div 2 ^ k * 2 ^ k"
proof -
  have "unat x div 2 ^ k * 2 ^ k \<le> unat x" by simp
  then have "unat x div 2 ^ k * 2 ^ k < 2 ^ 64" 
    using unsigned_less [of x, where ?'a = nat] by (simp add: le_less_trans [OF div_times_less_eq_dividend])
  moreover have "unat (push_bit k (drop_bit k x)) = take_bit 64 (push_bit k (drop_bit k (unat x)))"
    unfolding unsigned_push_bit_eq unsigned_drop_bit_eq
    using unsigned_less [of x, where ?'a = nat] by (simp add: take_bit_nat_eq_self)
  ultimately show ?thesis
    unfolding and_not_mask drop_bit_eq_div [of k "unat x"] push_bit_eq_mult [of k "unat x div 2 ^ k"]
    by (simp only: take_bit_nat_eq_self)
qed

lemma of_nat_unat_u64: "of_nat (unat x) = (x :: u64)"
  by simp

definition round_up :: "nat \<Rightarrow> nat \<Rightarrow> nat" where
  "round_up al x = (x + al - 1) div al * al"

lemma round_up_bounds: "0 < al \<Longrightarrow> x \<le> round_up al x \<and> round_up al x < x + al \<and> al dvd round_up al x"
proof -
  assume "0 < al"
  let ?y = "x + al - 1"
  have "?y div al * al + ?y mod al = ?y" by (rule div_mult_mod_eq)
  moreover have "?y mod al < al" using \<open>0 < al\<close> by simp
  ultimately have "x \<le> ?y div al * al" "?y div al * al < x + al" using \<open>0 < al\<close> by linarith+
  then show ?thesis by (simp add: round_up_def)
qed

lemma round_up_dvd: "0 < al \<Longrightarrow> al dvd x \<Longrightarrow> round_up al x = x"
proof -
  assume "0 < al" "al dvd x"
  then obtain q where "x = al * q" by (elim dvdE)
  then have "x + al - 1 = (al - 1) + al * q" using \<open>0 < al\<close> by simp
  then have "(x + al - 1) div al = q" using \<open>0 < al\<close> by (simp only: div_mult_self2) simp
  then show ?thesis using \<open>x = al * q\<close> by (simp add: round_up_def)
qed

lemma unat_exp_2: "k < 64 \<Longrightarrow> unat (2 ^ k :: u64) = 2 ^ k"
proof -
  assume "k < 64"
  moreover have "unat (of_nat (2 ^ k) :: u64) = take_bit 64 (2 ^ k)"
    unfolding unsigned_of_nat by simp
  ultimately show ?thesis by simp
qed

lemma unat_exp_minus_1: "k < 64 \<Longrightarrow> unat (2 ^ k - 1 :: u64) = 2 ^ k - 1"
proof -
  assume "k < 64"
  then have "unat (1 :: u64) \<le> unat (2 ^ k :: u64)" by (simp add: unat_exp_2)
  then show ?thesis using \<open>k < 64\<close> by (subst unat_sub) (simp_all add: word_le_nat_alt unat_exp_2)
qed

lemma exp_and_mask: "(2 ^ k :: u64) AND (2 ^ k - 1) = 0"
  unfolding mask_eq_exp_minus_1 [symmetric] by (rule bit_eqI) (auto simp: bit_simps)

lemma align_up:
  assumes "k < 64" "unat (x :: u64) + 2 ^ k - 1 < 2 ^ 64"
  shows "unat ((x + 2 ^ k - 1) AND NOT (2 ^ k - 1)) = round_up (2 ^ k) (unat x)"
proof -
  have "unat (2 ^ k - 1 :: u64) = 2 ^ k - 1"
    using assms(1) by (simp add: unat_exp_minus_1)
  then have "unat (x + (2 ^ k - 1)) = unat x + (2 ^ k - 1)"
    using assms(2) by (simp add: unat_add_bounded)
  then show ?thesis
    unfolding round_up_def by (simp add: mask_eq_exp_minus_1 [symmetric] unat_and_not_mask add_diff_eq [symmetric])
qed

lemma unat_KiB: "unat x < 2 ^ 54 \<Longrightarrow> unat (KiB x) = 1024 * unat x"
  by (simp add: KiB_def unat_word_ariths)

text \<open>C12: \<^verbatim>\<open>boot_alloc\<close> with a power of two as alignment hands out exactly the first aligned range at
  or above \<^verbatim>\<open>bootinfo.phyaddr\<close>, rounded up in size; it moves \<^verbatim>\<open>phyaddr\<close> to the end of the range, so
  that ranges handed out later cannot overlap it, and appends the range to the memory map as
  reserved.  If the allocator has been retired, the range does not end below the limit of usable
  memory or the map is full, it panics.\<close>

theorem boot_alloc_correct:
  assumes "k < 64" "sz \<noteq> 0" "length (bi_mmap bi) = 72" "bi_mmapcnt bi \<le> NMMAP" "unat (bi_usable bi) < 2 ^ 54"
    and "a = round_up (2 ^ k) (unat (bi_phyaddr bi))" "n = round_up (2 ^ k) (unat sz)" "a + n < 2 ^ 64"
    and "unat (bi_phyaddr bi) + 2 ^ k < 2 ^ 64" "unat sz + 2 ^ k < 2 ^ 64"
  shows "unat (bi_phyaddr bi) \<le> a \<and> a < unat (bi_phyaddr bi) + 2 ^ k \<and> 2 ^ k dvd a \<and>
    unat sz \<le> n \<and> n < unat sz + 2 ^ k \<and> 2 ^ k dvd n \<and>
    boot_alloc bi sz (2 ^ k) =
      (if bi_watermark bi \<noteq> BOOT_ALLOC_WATERMARK \<and> a + n \<le> 1024 * unat (bi_usable bi) \<and> bi_mmapcnt bi < NMMAP
       then Some (V2HI (of_nat a),
         bi\<lparr>bi_phyaddr := of_nat (a + n), bi_usable := bi_usable bi - of_nat (n div 1024),
            bi_mmap := (bi_mmap bi)[unat (bi_mmapcnt bi) :=
              \<lparr>mm_addr = V2HI (of_nat a), mm_size = of_nat n, mm_type = MULTIBOOT_MEMORY_RESERVED\<rparr>],
            bi_mmapcnt := bi_mmapcnt bi + 1\<rparr>)
       else None)"
proof -
  have al: "(2 ^ k :: u64) AND (2 ^ k - 1) = 0" "(2 ^ k :: u64) \<noteq> 0"
    by (rule exp_and_mask) (use unat_exp_2 [OF assms(1)] in force)
  let ?A = "if bi_phyaddr bi mod 2 ^ k \<noteq> 0 then (bi_phyaddr bi + 2 ^ k - 1) AND NOT (2 ^ k - 1) else bi_phyaddr bi"
  have A: "unat ?A = a"
  proof (cases "bi_phyaddr bi mod 2 ^ k = 0")
    case True
    then have "2 ^ k dvd unat (bi_phyaddr bi)"
      using unat_exp_2 [OF assms(1)] by (metis dvd_eq_mod_eq_0 unat_0 unat_mod)
    then show ?thesis using True assms(6) by (simp add: round_up_dvd)
  next
    case False
    then show ?thesis using align_up [OF assms(1), of "bi_phyaddr bi"] assms(6,9) by simp
  qed
  let ?N = "(sz + 2 ^ k - 1) AND NOT (2 ^ k - 1)"
  have N: "unat ?N = n" using align_up [OF assms(1), of sz] assms(7,10) by simp
  have e: "?A = of_nat a" "?N = of_nat n"
    using arg_cong [OF A, of "of_nat :: nat \<Rightarrow> u64"] arg_cong [OF N, of "of_nat :: nat \<Rightarrow> u64"]
    unfolding of_nat_unat_u64 .
  have AN: "unat (?A + ?N) = a + n" using A N assms(8) by (simp add: unat_add_bounded)
  have c: "\<not> ?A + ?N < ?A" "?A + ?N > KiB (bi_usable bi) \<longleftrightarrow> \<not> a + n \<le> 1024 * unat (bi_usable bi)"
    unfolding word_less_nat_alt AN A unat_KiB [OF assms(5)] by auto
  have d: "B2KiB ?N = of_nat (n div 1024)" "?A + ?N = of_nat (a + n)"
    using of_nat_unat_u64 [of "?N div 1024", symmetric] of_nat_unat_u64 [of "?A + ?N", symmetric]
    unfolding B2KiB_def unat_div N AN by simp_all
  have m: "bi_mmapcnt bi \<noteq> NMMAP \<longleftrightarrow> bi_mmapcnt bi < NMMAP" using assms(4) by auto
  have "boot_alloc bi sz (2 ^ k) = (if bi_watermark bi \<noteq> BOOT_ALLOC_WATERMARK \<and>
      a + n \<le> 1024 * unat (bi_usable bi) \<and> bi_mmapcnt bi < NMMAP
    then Some (V2HI ?A, bi\<lparr>bi_phyaddr := ?A + ?N, bi_usable := bi_usable bi - B2KiB ?N,
            bi_mmap := (bi_mmap bi)[unat (bi_mmapcnt bi) :=
              \<lparr>mm_addr = V2HI ?A, mm_size = ?N, mm_type = MULTIBOOT_MEMORY_RESERVED\<rparr>],
            bi_mmapcnt := bi_mmapcnt bi + 1\<rparr>) else None)"
    unfolding boot_alloc_def Let_def bootinfo_add_mmap_def using al assms(2,3) c m
    by (simp add: word_less_nat_alt assert_that_def)
  then show ?thesis
    using round_up_bounds [of "2 ^ k"] assms(6,7) d(1) [unfolded e] unfolding d(2) e by simp
qed

section \<open>The regions of the table\<close>

text \<open>The regions in use, and the shape of the table that every step of the collection keeps.\<close>

definition regions :: "bootinfo \<Rightarrow> boot_mmap list" where
  "regions bi = take (unat (bi_mmapcnt bi)) (bi_mmap bi)"

definition table_ok :: "bootinfo \<Rightarrow> bool" where
  "table_ok bi \<longleftrightarrow> length (bi_mmap bi) = 72 \<and> bi_mmapcnt bi \<le> NMMAP"

text \<open>
  A step of the collection: the table keeps its shape and only grows at its end, and the place of
  the kernel image does not change.
\<close>

definition grows :: "bootinfo \<Rightarrow> bootinfo \<Rightarrow> bool" where
  "grows bi bi' \<longleftrightarrow> table_ok bi' \<and> (\<exists>rs. regions bi' = regions bi @ rs) \<and>
     kern_base bi' = kern_base bi \<and> kern_size bi' = kern_size bi"

lemma grows_refl: "table_ok bi \<Longrightarrow> grows bi bi"
  by (simp add: grows_def)

lemma grows_trans: "grows a b \<Longrightarrow> grows b c \<Longrightarrow> grows a c"
  by (auto simp: grows_def)

lemma grows_cong: "grows bi bi' \<Longrightarrow> bi_mmap b2 = bi_mmap bi' \<Longrightarrow> bi_mmapcnt b2 = bi_mmapcnt bi' \<Longrightarrow>
    kern_base b2 = kern_base bi' \<Longrightarrow> kern_size b2 = kern_size bi' \<Longrightarrow> grows bi b2"
  by (simp add: grows_def table_ok_def regions_def)

lemma push_region:
  assumes "table_ok bi" "bi_mmapcnt bi < NMMAP"
    and "bi_mmap bi' = (bi_mmap bi)[unat (bi_mmapcnt bi) := r]" "bi_mmapcnt bi' = bi_mmapcnt bi + 1"
    and "kern_base bi' = kern_base bi" "kern_size bi' = kern_size bi"
  shows "grows bi bi'" "regions bi' = regions bi @ [r]"
proof -
  have s: "unat (bi_mmapcnt bi + 1) = Suc (unat (bi_mmapcnt bi))" by (rule unat_Suc_less [OF assms(2)])
  have "unat (bi_mmapcnt bi) < 72" using assms(2) by (simp add: word_less_nat_alt)
  then have t: "table_ok bi'" and r: "regions bi' = regions bi @ [r]"
    using assms(1,3,4) s by (simp_all add: table_ok_def regions_def word_le_nat_alt take_Suc_conv_app_nth)
  then show "grows bi bi'" using assms(5,6) by (simp add: grows_def)
  show "regions bi' = regions bi @ [r]" by (rule r)
qed

lemma bootinfo_add_mmap_grows:
  assumes "table_ok bi" "bootinfo_add_mmap bi type ad sz = Some bi'"
  shows "grows bi bi'" "regions bi' = regions bi @ [\<lparr>mm_addr = ad, mm_size = sz, mm_type = type\<rparr>]"
proof -
  let ?r = "\<lparr>mm_addr = ad, mm_size = sz, mm_type = type\<rparr>"
  have lt: "bi_mmapcnt bi < NMMAP" and e: "bi' = bi\<lparr>bi_mmap := (bi_mmap bi)[unat (bi_mmapcnt bi) := ?r], bi_mmapcnt := bi_mmapcnt bi + 1\<rparr>"
    using assms by (auto simp: bootinfo_add_mmap_def array_set_def bind_eq_Some_conv split: if_splits)
  show "grows bi bi'" "regions bi' = regions bi @ [?r]"
    using push_region [OF assms(1) lt, of bi' ?r] e by simp_all
qed

lemma mmap_entry_body_grows:
  assumes "table_ok bi" "bi_mmapcnt bi < NMMAP" "mmap_entry_body e bi = Some bi'"
  shows "grows bi bi'"
proof (cases "me_addr e < GiB4 \<or> (me_addr e \<ge> GiB4 \<and> me_type e = MULTIBOOT_MEMORY_AVAILABLE)")
  case True
  then show ?thesis
    using assms by (intro push_region(1) [OF assms(1,2), of _ "\<lparr>mm_addr = V2HI (me_addr e), mm_size = me_len e, mm_type = me_type e\<rparr>"])
      (auto simp: mmap_entry_body_def Let_def array_set_def bind_eq_Some_conv split: if_splits)
next
  case False
  then have "bi' = bi" using assms(3) unfolding mmap_entry_body_def by (simp only: if_False option.inject)
  then show ?thesis using grows_refl assms(1) by simp
qed

lemma mmap_walk_grows: "table_ok bi \<Longrightarrow> mmap_walk mbi entry bi = Some bi' \<Longrightarrow> grows bi bi'"
proof (induction mbi entry bi rule: mmap_walk.induct)
  case (1 mbi entry bi)
  show ?case
  proof (cases "entry < V2HI (widen (mb_mmap_addr mbi + mb_mmap_length mbi)) \<and> bi_mmapcnt bi < NMMAP")
    case True
    then obtain b1 where b1: "mmap_entry_body (mb_mmap_at mbi entry) bi = Some b1"
        "mmap_walk mbi (entry + widen (me_size (mb_mmap_at mbi entry)) + 4) b1 = Some bi'"
      using 1(3) by (subst (asm) mmap_walk.simps) (auto simp: bind_eq_Some_conv Let_def)
    have g: "grows bi b1" using mmap_entry_body_grows [OF 1(2) _ b1(1)] True by blast
    then have "grows b1 bi'" using 1(1) [OF True refl b1(1) _ b1(2)] by (simp add: grows_def)
    with g show ?thesis by (rule grows_trans)
  next
    case False
    then have "bi' = bi" using 1(3) by (subst (asm) mmap_walk.simps) (simp only: if_False option.inject)
    then show ?thesis using grows_refl 1(2) by simp
  qed
qed

lemma module_body_grows:
  assumes "table_ok bi" "module_body mbi i bi = Some bi'"
  shows "grows bi bi'"
proof -
  obtain b1 ad sz where b: "bootinfo_add_mmap b1 MULTIBOOT_MEMORY_RESERVED ad sz = Some bi'"
      "bi_mmap b1 = bi_mmap bi" "bi_mmapcnt b1 = bi_mmapcnt bi" "kern_base b1 = kern_base bi" "kern_size b1 = kern_size bi"
    using assms(2) by (auto simp: module_body_def bind_eq_Some_conv Let_def)
  have g: "grows bi b1" using grows_cong [OF grows_refl [OF assms(1)]] b(2-5) by blast
  then have "grows b1 bi'" using bootinfo_add_mmap_grows(1) [OF _ b(1)] by (simp add: grows_def)
  with g show ?thesis by (rule grows_trans)
qed

lemma modules_loop_grows: "table_ok bi \<Longrightarrow> modules_loop mbi i bi = Some bi' \<Longrightarrow> grows bi bi'"
proof (induction mbi i bi rule: modules_loop.induct)
  case (1 mbi i bi)
  show ?case
  proof (cases "i < bi_modcnt bi")
    case True
    then obtain b1 where b1: "module_body mbi i bi = Some b1" "modules_loop mbi (i + 1) b1 = Some bi'"
      using 1(3) by (subst (asm) modules_loop.simps) (auto simp: bind_eq_Some_conv)
    have g: "grows bi b1" by (rule module_body_grows [OF 1(2) b1(1)])
    then have "grows b1 bi'" using 1(1) [OF True b1(1) _ b1(2)] by (simp add: grows_def)
    with g show ?thesis by (rule grows_trans)
  next
    case False
    then have "bi' = bi" using 1(3) by (subst (asm) modules_loop.simps) simp
    then show ?thesis using grows_refl 1(2) by simp
  qed
qed

lemma boot_process_modules_grows:
  assumes "table_ok bi" "boot_process_modules mbi bi = Some bi'"
  shows "grows bi bi'"
proof -
  let ?b = "bi\<lparr>bi_modcnt := (if mb_mods_count mbi > NMODS then 64 else ucast (mb_mods_count mbi))\<rparr>"
  have g: "grows bi ?b" by (rule grows_cong [OF grows_refl [OF assms(1)]]) simp_all
  show ?thesis
  proof (cases "mb_flags mbi AND MULTIBOOT_INFO_MODS = 0")
    case False
    then have "grows ?b bi'"
      using modules_loop_grows [of ?b mbi 0 bi'] assms by (simp add: boot_process_modules_def table_ok_def)
    with g show ?thesis by (rule grows_trans)
  qed (use assms grows_refl in \<open>simp add: boot_process_modules_def\<close>)
qed

lemma boot_process_framebuffer_grows:
  assumes "table_ok bi" "boot_process_framebuffer mbi bi = Some bi'"
  shows "grows bi bi'"
proof -
  let ?b = "bi\<lparr>bi_fb_addr := V2HI (mb_framebuffer_addr mbi),
          bi_fb_size := ucast (mb_framebuffer_height mbi * mb_framebuffer_pitch mbi)\<rparr>"
  have g: "grows bi ?b" by (rule grows_cong [OF grows_refl [OF assms(1)]]) simp_all
  show ?thesis
  proof (cases "mb_flags mbi AND MULTIBOOT_INFO_FRAMEBUFFER_INFO = 0")
    case False
    then have "grows ?b bi'"
      using bootinfo_add_mmap_grows(1) [of ?b] assms by (simp add: boot_process_framebuffer_def table_ok_def)
    with g show ?thesis by (rule grows_trans)
  qed (use assms grows_refl in \<open>simp add: boot_process_framebuffer_def\<close>)
qed

lemma boot_process_mmaps_kernel:
  assumes "length (bi_mmap bi) = 72" "mb_flags mbi AND MULTIBOOT_INFO_MEM_MAP \<noteq> 0" "boot_process_mmaps mbi bi = Some bi'"
  shows "table_ok bi' \<and> kern_base bi' = kern_base bi \<and> kern_size bi' = kern_size bi \<and>
    (\<exists>rs. regions bi' = \<lparr>mm_addr = kern_base bi, mm_size = kern_size bi, mm_type = MULTIBOOT_MEMORY_RESERVED\<rparr> # rs)"
proof -
  let ?k = "\<lparr>mm_addr = kern_base bi, mm_size = kern_size bi, mm_type = MULTIBOOT_MEMORY_RESERVED\<rparr>"
  let ?b = "bi\<lparr>bi_mmapcnt := 1, bi_mmap := (bi_mmap bi)[0 := ?k]\<rparr>"
  obtain b1 where b1: "mmap_walk mbi (V2HI (widen (mb_mmap_addr mbi))) ?b = Some b1"
      "bi' = b1\<lparr>bi_usable := bi_usable b1 - kern_size b1, bi_phyaddr := V2LO (kern_base b1) + kern_size b1\<rparr>"
    using assms by (auto simp: boot_process_mmaps_def bind_eq_Some_conv array_set_def)
  have "regions ?b = [?k]" using assms(1) by (cases "bi_mmap bi") (simp_all add: regions_def)
  moreover have "grows ?b b1" using mmap_walk_grows [OF _ b1(1)] assms(1) by (simp add: table_ok_def)
  ultimately have "grows ?b bi'" "regions ?b = [?k]" using b1(2) by (auto intro: grows_cong)
  then show ?thesis by (auto simp: grows_def)
qed

lemma collected_table:
  assumes "mb_flags mbi AND MULTIBOOT_INFO_MEM_MAP \<noteq> 0" "multiboot_info_process ks ke mbi = Some bi"
  shows "\<lparr>mm_addr = PGROUND ks, mm_size = PGROUNDUP ke - PGROUND ks, mm_type = MULTIBOOT_MEMORY_RESERVED\<rparr> \<in> set (regions bi) \<and>
    sorted (map mm_addr (regions bi)) \<and> kern_base bi = PGROUND ks \<and> kern_size bi = PGROUNDUP ke - PGROUND ks"
proof -
  define b0 where "b0 = zero_bootinfo\<lparr>kern_base := PGROUND ks, kern_size := PGROUNDUP ke - PGROUND ks,
       bi_memlo := ucast (mb_mem_lower mbi), bi_memhi := ucast (mb_mem_upper mbi),
       bi_memtotal := 1024 + ucast (mb_mem_upper mbi)\<rparr>"
  let ?k = "\<lparr>mm_addr = PGROUND ks, mm_size = PGROUNDUP ke - PGROUND ks, mm_type = MULTIBOOT_MEMORY_RESERVED\<rparr>"
  obtain b1 b2 b3 mmap where b: "boot_process_mmaps mbi b0 = Some b1" "boot_process_modules mbi b1 = Some b2"
      "boot_process_framebuffer mbi (b2\<lparr>bi_usable := PGROUND (bi_usable b2) div 1024\<rparr>) = Some b3"
      "bubble_sort_mmap (bi_mmap b3) (bi_mmapcnt b3) = Some mmap" "bi = b3\<lparr>bi_mmap := mmap\<rparr>"
    using assms(2) by (auto simp: multiboot_info_process_def Let_def bind_eq_Some_conv b0_def)
  obtain rs where k: "table_ok b1" "kern_base b1 = PGROUND ks" "kern_size b1 = PGROUNDUP ke - PGROUND ks" "regions b1 = ?k # rs"
    using boot_process_mmaps_kernel [OF _ assms(1) b(1)] by (auto simp: b0_def zero_bootinfo_def)
  let ?b2 = "b2\<lparr>bi_usable := PGROUND (bi_usable b2) div 1024\<rparr>"
  have g: "grows b1 ?b2" using boot_process_modules_grows [OF k(1) b(2)] by (rule grows_cong) simp_all
  then have "table_ok ?b2" by (simp add: grows_def)
  then have "grows b1 b3" using grows_trans [OF g] boot_process_framebuffer_grows b(3) by blast
  then have t: "table_ok b3" "kern_base b3 = PGROUND ks" "kern_size b3 = PGROUNDUP ke - PGROUND ks" "?k \<in> set (regions b3)"
    using k by (auto simp: grows_def)
  then have "0 < bi_mmapcnt b3" "unat (bi_mmapcnt b3) \<le> length (bi_mmap b3)"
    by (auto simp: table_ok_def regions_def word_gt_0 word_le_nat_alt)
  from bubble_sort_mmap_spec [OF this] b(4) have "sorted (map mm_addr (take (unat (bi_mmapcnt b3)) mmap))"
      "mset (take (unat (bi_mmapcnt b3)) mmap) = mset (regions b3)"
    by (auto simp: regions_def)
  then show ?thesis using t b(5) by (auto simp: regions_def dest: mset_eq_setD)
qed

lemma mmap_entry_body_returns:
  "table_ok bi \<Longrightarrow> bi_mmapcnt bi < NMMAP \<Longrightarrow> \<exists>bi'. mmap_entry_body e bi = Some bi'"
  by (auto simp: mmap_entry_body_def Let_def table_ok_def word_less_nat_alt)

lemma mmap_walk_returns: "table_ok bi \<Longrightarrow> \<exists>bi'. mmap_walk mbi entry bi = Some bi'"
proof (induction mbi entry bi rule: mmap_walk.induct)
  case (1 mbi entry bi)
  show ?case
  proof (cases "entry < V2HI (widen (mb_mmap_addr mbi + mb_mmap_length mbi)) \<and> bi_mmapcnt bi < NMMAP")
    case True
    then obtain b1 where b1: "mmap_entry_body (mb_mmap_at mbi entry) bi = Some b1"
      using mmap_entry_body_returns 1(2) by blast
    then have "table_ok b1" using mmap_entry_body_grows [OF 1(2) _ b1] True by (simp add: grows_def)
    then show ?thesis using 1(1) [OF True refl b1] True b1 by (subst mmap_walk.simps) (simp add: Let_def)
  qed (subst mmap_walk.simps, auto)
qed

lemma multiboot_info_process_returns:
  assumes "mb_flags mbi AND MULTIBOOT_INFO_MEM_MAP \<noteq> 0" "mb_flags mbi AND MULTIBOOT_INFO_MODS = 0"
    "mb_flags mbi AND MULTIBOOT_INFO_FRAMEBUFFER_INFO = 0"
  shows "\<exists>bi. multiboot_info_process ks ke mbi = Some bi"
proof -
  define b0 where "b0 = zero_bootinfo\<lparr>kern_base := PGROUND ks, kern_size := PGROUNDUP ke - PGROUND ks,
       bi_memlo := ucast (mb_mem_lower mbi), bi_memhi := ucast (mb_mem_upper mbi),
       bi_memtotal := 1024 + ucast (mb_mem_upper mbi)\<rparr>"
  have len: "length (bi_mmap b0) = 72" by (simp add: b0_def zero_bootinfo_def)
  let ?k = "\<lparr>mm_addr = kern_base b0, mm_size = kern_size b0, mm_type = MULTIBOOT_MEMORY_RESERVED\<rparr>"
  let ?b = "b0\<lparr>bi_mmapcnt := 1, bi_mmap := (bi_mmap b0)[0 := ?k]\<rparr>"
  obtain b where "mmap_walk mbi (V2HI (widen (mb_mmap_addr mbi))) ?b = Some b"
    using mmap_walk_returns [of ?b] len by (auto simp: table_ok_def)
  then obtain b1 where b1: "boot_process_mmaps mbi b0 = Some b1"
    using assms(1) len by (simp add: boot_process_mmaps_def)
  then have "table_ok b1" "regions b1 \<noteq> []" using boot_process_mmaps_kernel [OF len assms(1)] by auto
  then have "0 < bi_mmapcnt b1" "unat (bi_mmapcnt b1) \<le> length (bi_mmap b1)"
    by (auto simp: table_ok_def regions_def word_gt_0 word_le_nat_alt)
  then obtain xs where "bubble_sort_mmap (bi_mmap b1) (bi_mmapcnt b1) = Some xs" using bubble_sort_mmap_spec by blast
  then show ?thesis
    using b1 assms(2,3)
    by (simp add: multiboot_info_process_def b0_def [symmetric] Let_def boot_process_modules_def boot_process_framebuffer_def)
qed

text \<open>Whenever the boot loader passes a memory map and the collection of the boot information
  returns, the kernel image is in the table as a reserved region, and the table is sorted by address;
  and the collection does return when there are no modules and no framebuffer to add.\<close>

theorem kernel_image_reserved:
  assumes "mb_flags mbi AND MULTIBOOT_INFO_MEM_MAP \<noteq> 0"
  shows "(mb_flags mbi AND MULTIBOOT_INFO_MODS = 0 \<and> mb_flags mbi AND MULTIBOOT_INFO_FRAMEBUFFER_INFO = 0 \<longrightarrow>
      multiboot_info_process ks ke mbi \<noteq> None) \<and>
    (\<forall>bi. multiboot_info_process ks ke mbi = Some bi \<longrightarrow>
      \<lparr>mm_addr = PGROUND ks, mm_size = PGROUNDUP ke - PGROUND ks, mm_type = MULTIBOOT_MEMORY_RESERVED\<rparr> \<in> set (regions bi) \<and>
      sorted (map mm_addr (regions bi)) \<and> kern_base bi = PGROUND ks \<and> kern_size bi = PGROUNDUP ke - PGROUND ks)"
  using multiboot_info_process_returns [OF assms] collected_table [OF assms] by auto

section \<open>The theorems at a concrete input\<close>

text \<open>A table with two regions out of order; a boot loader that reports 32 MiB above 1 MiB.\<close>

definition sample_table :: "boot_mmap list" where
  "sample_table = [\<lparr>mm_addr = 0x9000, mm_size = 1, mm_type = 1\<rparr>, \<lparr>mm_addr = 0x1000, mm_size = 2, mm_type = 2\<rparr>, zero_mmap]"

definition sample_mbi :: multiboot_info where
  "sample_mbi = \<lparr>mb_flags = 0x40, mb_mem_lower = 640, mb_mem_upper = 0x8000, mb_mods_count = 0, mb_mods = [],
     mb_mmap_length = 24, mb_mmap_addr = 0x500,
     mb_mmap_at = (\<lambda>_. \<lparr>me_size = 20, me_addr = 0, me_len = 0x2100000, me_type = 1\<rparr>),
     mb_framebuffer_addr = 0, mb_framebuffer_pitch = 0, mb_framebuffer_height = 0\<rparr>"

theorem bubble_sort_mmap_sorts_witness:
  "\<exists>ys. bubble_sort_mmap sample_table 2 = Some ys \<and> sorted (map mm_addr (take 2 ys))"
  using bubble_sort_mmap_sorts [of 2 sample_table] by (auto simp: sample_table_def)

theorem bubble_sort_mmap_empty_witness: "bubble_sort_mmap sample_table 0 = None"
  using bubble_sort_mmap_empty [of sample_table] by (simp add: sample_table_def)

theorem boot_alloc_correct_witness:
  "\<exists>bi'. boot_alloc (zero_bootinfo\<lparr>bi_usable := 1024, bi_phyaddr := 0x1800\<rparr>) 100 0x1000 = Some (V2HI 0x2000, bi')"
proof -
  let ?b = "zero_bootinfo\<lparr>bi_usable := 1024, bi_phyaddr := 0x1800\<rparr>"
  have "0x2000 = round_up (2 ^ 12) (unat (bi_phyaddr ?b))" "0x1000 = round_up (2 ^ 12) (unat (100 :: u64))"
    by (simp_all add: round_up_def)
  from boot_alloc_correct [OF _ _ _ _ _ this] show ?thesis by simp
qed

theorem kernel_image_reserved_witness:
  "\<exists>bi. multiboot_info_process 0xFFFF800000100000 0xFFFF800000200000 sample_mbi = Some bi \<and>
     sorted (map mm_addr (regions bi))"
  using kernel_image_reserved [of sample_mbi "0xFFFF800000100000" "0xFFFF800000200000"] by (auto simp: sample_mbi_def)

end
