(* ===== verification/Pmm.thy ===== *)
theory Pmm
  imports Bitmap Boot
begin

text \<open>
  The physical page allocator, \<^verbatim>\<open>src/src/kernel/mm/pmm\<close>: \<^verbatim>\<open>alloc.c\<close>, \<^verbatim>\<open>free.c\<close>,
  \<^verbatim>\<open>pages.c\<close> and the zone lookup of \<^verbatim>\<open>zones.c\<close>.  A zone owns a bitmap of its page frames,
  the array of page descriptors with their reference counts, and counters; the physical memory
  itself is a map from addresses to bytes, so that zero-filled allocation can be stated.

  A \<^verbatim>\<open>page_t *\<close> is an address inside the descriptor array of a zone (descriptors are packed,
  40 bytes each).  The page tables are not part of this component: \<open>mount\<close> gives the virtual
  address at which \<^verbatim>\<open>arch_mount\<close> maps a frame, or \<^term>\<open>None\<close> when it fails.
\<close>

section \<open>State\<close>

record page =
  pg_flags :: u64
  pg_refcnt :: u64
  pg_mapcnt :: u64
  pg_icache :: addr
  pg_watermark :: u64

record zone =
  z_size :: u64
  z_start :: u64
  z_bitmap :: bitmap
  z_pages :: addr
  z_parr :: "page list"
  z_npages :: u64
  z_upages :: u64
  z_flags :: u64
  z_lock :: bool

record pmm =
  pm_zones :: "zone list"
  pm_ram :: "addr \<Rightarrow> u8"

abbreviation (input) PAGE_T :: u64 where "PAGE_T \<equiv> 40"
abbreviation (input) ZONE_VALID :: u64 where "ZONE_VALID \<equiv> 1"
abbreviation (input) PG_SWAPPABLE :: u64 where "PG_SWAPPABLE \<equiv> 256"
abbreviation (input) NZONE :: nat where "NZONE \<equiv> 4"
abbreviation (input) ZONEi_DMA :: int where "ZONEi_DMA \<equiv> 0"
abbreviation (input) ZONEi_NORM :: int where "ZONEi_NORM \<equiv> 1"
abbreviation (input) ZONEi_HOLE :: int where "ZONEi_HOLE \<equiv> 2"
abbreviation (input) ZONEi_HIGH :: int where "ZONEi_HIGH \<equiv> 3"
abbreviation (input) PGWM_RESERVED :: u64 where "PGWM_RESERVED \<equiv> 0xFEEF5434C0DEDEED"
abbreviation (input) PGWM_DMA_POOL :: u64 where "PGWM_DMA_POOL \<equiv> 0xBADDCAFEBEEFBABE"
abbreviation (input) PGWM_NORM_POOL :: u64 where "PGWM_NORM_POOL \<equiv> 0xBADDBEEFC0DEFEED"
abbreviation (input) PGWM_HOLE_POOL :: u64 where "PGWM_HOLE_POOL \<equiv> 0xBADDC0DEDEAFBED2"
abbreviation (input) PGWM_HIGH_POOL :: u64 where "PGWM_HIGH_POOL \<equiv> 0xBADDBABE2000BEEF"
abbreviation (input) GFP_NORMAL :: u32 where "GFP_NORMAL \<equiv> 2"
abbreviation (input) GFP_ZERO :: u32 where "GFP_ZERO \<equiv> 0x1000"

definition zone_lock :: "zone \<Rightarrow> zone option" where
  "zone_lock z = do { assert_that (\<not> z_lock z); Some (z\<lparr>z_lock := True\<rparr>) }"

definition zone_unlock :: "zone \<Rightarrow> zone option" where
  "zone_unlock z = do { assert_that (z_lock z); Some (z\<lparr>z_lock := False\<rparr>) }"

definition zone_isvalid :: "zone \<Rightarrow> bool" where
  "zone_isvalid z \<longleftrightarrow> z_flags z AND ZONE_VALID \<noteq> 0"

definition page_index :: "zone \<Rightarrow> addr \<Rightarrow> u64" where
  "page_index z p = (p - z_pages z) div PAGE_T"

definition page_addr :: "zone \<Rightarrow> u64 \<Rightarrow> u64" where
  "page_addr z i = z_start z + i * PGSZ"

definition page_verify_watermark :: "page \<Rightarrow> unit option" where
  "page_verify_watermark p =
     assert_that (pg_watermark p \<noteq> PGWM_RESERVED \<and>
       pg_watermark p \<in> {PGWM_RESERVED, PGWM_DMA_POOL, PGWM_NORM_POOL, PGWM_HOLE_POOL, PGWM_HIGH_POOL})"

section \<open>Finding a zone\<close>

text \<open>
  The loop over the zone array: lock a zone, and return it locked if the test holds, unlock it
  and go on otherwise.  The result is the index and the new array.
\<close>

fun getzone_scan :: "(zone \<Rightarrow> bool) \<Rightarrow> zone list \<Rightarrow> (nat \<times> zone list) option option" where
  "getzone_scan P [] = Some None"
| "getzone_scan P (z # zs) = do {
     z \<leftarrow> zone_lock z;
     if P z then Some (Some (0, z # zs))
     else do {
       z \<leftarrow> zone_unlock z;
       r \<leftarrow> getzone_scan P zs;
       Some (case r of None \<Rightarrow> None | Some (i, zs') \<Rightarrow> Some (Suc i, z # zs')) } }"

definition getzone_byaddr :: "zone list \<Rightarrow> u64 \<Rightarrow> u64 \<Rightarrow> bool \<Rightarrow> (int \<times> nat option \<times> zone list) option" where
  "getzone_byaddr zs paddr sz ppz =
     (if \<not> ppz then Some (- EINVAL, None, zs)
      else do {
        r \<leftarrow> getzone_scan (\<lambda>z. paddr \<ge> z_start z \<and> zone_isvalid z \<and> paddr + sz \<le> z_start z + z_size z) zs;
        Some (case r of None \<Rightarrow> (- ENOENT, None, zs) | Some (i, zs') \<Rightarrow> (0, Some i, zs')) })"

definition getzone_bypage :: "zone list \<Rightarrow> addr \<Rightarrow> bool \<Rightarrow> (int \<times> nat option \<times> zone list) option" where
  "getzone_bypage zs page ppz =
     (if page = NULL \<or> \<not> ppz then Some (- EINVAL, None, zs)
      else do {
        r \<leftarrow> getzone_scan (\<lambda>z. page \<ge> z_pages z \<and> zone_isvalid z \<and> page < z_pages z + z_npages z * PAGE_T) zs;
        Some (case r of None \<Rightarrow> (- ENOENT, None, zs) | Some (i, zs') \<Rightarrow> (0, Some i, zs')) })"

text \<open>The bound is the one of the code, which admits the index one past the array.\<close>

definition getzone_byindex :: "zone list \<Rightarrow> int \<Rightarrow> (int \<times> nat option \<times> zone list) option" where
  "getzone_byindex zs zone_i =
     (if zone_i < 0 \<or> zone_i > int NZONE then Some (- EINVAL, None, zs)
      else do {
        let i = nat zone_i;
        assert_that (i < length zs);
        z \<leftarrow> zone_lock (zs ! i);
        if \<not> zone_isvalid z
        then do { z \<leftarrow> zone_unlock z; Some (- EINVAL, None, zs[i := z]) }
        else Some (0, Some i, zs[i := z]) })"

section \<open>Allocation\<close>

text \<open>
  \<^verbatim>\<open>get_page_order\<close>: a shift by 64 or more is undefined in C.
\<close>

function page_order_loop :: "u64 \<Rightarrow> nat \<Rightarrow> nat option" where
  "page_order_loop pages_needed order =
     (if order \<ge> 64 then None
      else if push_bit order 1 < pages_needed then page_order_loop pages_needed (order + 1)
      else Some order)"
  by pat_completeness auto
termination by (relation "measure (\<lambda>(n, order). 64 - order)") auto

declare page_order_loop.simps [simp del]

definition get_page_order :: "u64 \<Rightarrow> nat option" where
  "get_page_order size_in_bytes = page_order_loop ((size_in_bytes + PGSZ - 1) div PGSZ) 0"

definition memset_page :: "(addr \<Rightarrow> u8) \<Rightarrow> u64 \<Rightarrow> addr \<Rightarrow> u8" where
  "memset_page ram paddr = (\<lambda>a. if unat paddr \<le> unat a \<and> unat a < unat paddr + 4096 then 0 else ram a)"

definition zero_fill_page :: "(u64 \<Rightarrow> addr option) \<Rightarrow> bootinfo \<Rightarrow> zone \<Rightarrow> u64 \<Rightarrow> int \<Rightarrow> (addr \<Rightarrow> u8) \<Rightarrow>
    (addr \<Rightarrow> u8) option" where
  "zero_fill_page mount bi z i whence ram = do {
     p \<leftarrow> array_get (z_parr z) i;
     page_verify_watermark p;
     let paddr = z_start z + i * PGSZ;
     if whence = ZONEi_HOLE \<or> whence = ZONEi_HIGH
     then do {
       vaddr \<leftarrow> mount paddr;
       assert_that (\<not> is_kernel_addr bi vaddr);
       Some (memset_page ram paddr) }
     else do {
       assert_that (\<not> is_kernel_addr bi (paddr + VMA_BASE));
       Some (memset_page ram paddr) } }"

definition GFP_WHENCE :: "u32 \<Rightarrow> u32" where
  "GFP_WHENCE gflags = gflags AND 15"

definition validate_input :: "u32 \<Rightarrow> u64 \<Rightarrow> bool \<Rightarrow> bool \<Rightarrow> int" where
  "validate_input gflags order ppage ppaddr =
     (if \<not> ppage \<and> \<not> ppaddr then - EINVAL
      else if order \<ge> 64 then - ENOMEM
      else if GFP_WHENCE gflags > 4 then - EINVAL else 0)"

definition gfp_to_zone_index :: "u32 \<Rightarrow> int" where
  "gfp_to_zone_index gflags =
     (let w = GFP_WHENCE gflags in
      if w = 0 then ZONEi_NORM else if w = 1 then ZONEi_DMA else if w = 2 then ZONEi_NORM
      else if w = 3 then ZONEi_HOLE else if w = 4 then ZONEi_HIGH else - EINVAL)"

text \<open>The loop that takes a reference to each page of the allocated range.\<close>

function take_pages :: "(u64 \<Rightarrow> addr option) \<Rightarrow> bootinfo \<Rightarrow> u32 \<Rightarrow> int \<Rightarrow> zone \<Rightarrow> (addr \<Rightarrow> u8) \<Rightarrow> u64 \<Rightarrow> u64 \<Rightarrow>
    (zone \<times> (addr \<Rightarrow> u8)) option" where
  "take_pages mount bi gflags whence z ram i npage =
     (if npage = 0 then Some (z, ram)
      else do {
        p \<leftarrow> array_get (z_parr z) i;
        assert_that (\<not> OVERLAPS (page_addr z i) PGSZ (kern_base bi) (kern_size bi));
        assert_that (pg_refcnt p = 0);
        let p = p\<lparr>pg_refcnt := pg_refcnt p + 1\<rparr>;
        page_verify_watermark p;
        arr \<leftarrow> array_set (z_parr z) i p;
        let z = z\<lparr>z_parr := arr\<rparr>;
        ram \<leftarrow> (if gflags AND GFP_ZERO \<noteq> 0 then zero_fill_page mount bi z i whence ram else Some ram);
        take_pages mount bi gflags whence z ram (i + 1) (npage - 1) })"
  by pat_completeness auto
termination
  by (relation "measure (\<lambda>(mount, bi, gflags, whence, z, ram, i, npage). unat npage)")
     (auto simp: unat_minus_one unat_gt_0)

declare take_pages.simps [simp del]

text \<open>
  \<^verbatim>\<open>do_page_alloc_n\<close>: the error, the page descriptor and the physical address of the range.
\<close>

definition do_page_alloc_n :: "(u64 \<Rightarrow> addr option) \<Rightarrow> bootinfo \<Rightarrow> pmm \<Rightarrow> u32 \<Rightarrow> u64 \<Rightarrow> bool \<Rightarrow> bool \<Rightarrow>
    (int \<times> addr option \<times> u64 option \<times> pmm) option" where
  "do_page_alloc_n mount bi s gflags order ppage ppaddr =
     (let err = validate_input gflags order ppage ppaddr; whence = gfp_to_zone_index gflags;
          npage = push_bit (unat order) 1 in
      if err \<noteq> 0 then Some (err, None, None, s)
      else if whence < 0 then Some (whence, None, None, s)
      else do {
        (err, zi, zs) \<leftarrow> getzone_byindex (pm_zones s) whence;
        case zi of
          None \<Rightarrow> Some (err, None, None, s\<lparr>pm_zones := zs\<rparr>)
        | Some i \<Rightarrow> do {
            let z = zs ! i;
            (err, idx, bm) \<leftarrow> bitmap_alloc_range (z_bitmap z) npage True;
            let z = z\<lparr>z_bitmap := bm\<rparr>;
            case idx of
              None \<Rightarrow> do {
                z \<leftarrow> zone_unlock z;
                Some (if err = - ENOSPC then - ENOMEM else err, None, None, s\<lparr>pm_zones := zs[i := z]\<rparr>) }
            | Some index \<Rightarrow> do {
                (z, ram) \<leftarrow> take_pages mount bi gflags whence z (pm_ram s) index npage;
                z \<leftarrow> zone_unlock (z\<lparr>z_upages := z_upages z + push_bit (unat order) 1\<rparr>);
                Some (0, if ppage then Some (z_pages z + index * PAGE_T) else None,
                      if ppaddr then Some (page_addr z index) else None,
                      s\<lparr>pm_zones := zs[i := z], pm_ram := ram\<rparr>) } } })"

definition page_alloc_n :: "(u64 \<Rightarrow> addr option) \<Rightarrow> bootinfo \<Rightarrow> pmm \<Rightarrow> u32 \<Rightarrow> u64 \<Rightarrow> bool \<Rightarrow>
    (int \<times> addr option \<times> u64 option \<times> pmm) option" where
  "page_alloc_n mount bi s gflags order pp = do_page_alloc_n mount bi s gflags order pp False"

definition page_alloc :: "(u64 \<Rightarrow> addr option) \<Rightarrow> bootinfo \<Rightarrow> pmm \<Rightarrow> u32 \<Rightarrow> bool \<Rightarrow>
    (int \<times> addr option \<times> u64 option \<times> pmm) option" where
  "page_alloc mount bi s gflags pp = do_page_alloc_n mount bi s gflags 0 pp False"

definition page_alloc_n_phys :: "(u64 \<Rightarrow> addr option) \<Rightarrow> bootinfo \<Rightarrow> pmm \<Rightarrow> u32 \<Rightarrow> u64 \<Rightarrow> bool \<Rightarrow>
    (int \<times> addr option \<times> u64 option \<times> pmm) option" where
  "page_alloc_n_phys mount bi s gflags order pp = do_page_alloc_n mount bi s gflags order False pp"

definition page_alloc_phys :: "(u64 \<Rightarrow> addr option) \<Rightarrow> bootinfo \<Rightarrow> pmm \<Rightarrow> u32 \<Rightarrow> bool \<Rightarrow>
    (int \<times> addr option \<times> u64 option \<times> pmm) option" where
  "page_alloc_phys mount bi s gflags pp = do_page_alloc_n mount bi s gflags 0 False pp"

definition page_alloc_x :: "(u64 \<Rightarrow> addr option) \<Rightarrow> bootinfo \<Rightarrow> pmm \<Rightarrow> u32 \<Rightarrow> u64 \<Rightarrow> bool \<Rightarrow> bool \<Rightarrow>
    (int \<times> addr option \<times> u64 option \<times> pmm) option" where
  "page_alloc_x mount bi s gflags order ppage paddr = do_page_alloc_n mount bi s gflags order ppage paddr"

section \<open>Freeing\<close>

text \<open>The loop of \<^verbatim>\<open>do_page_free_n\<close> over the pages of the range.\<close>

function release_pages :: "zone \<Rightarrow> u64 \<Rightarrow> u64 \<Rightarrow> zone option" where
  "release_pages z pos npage =
     (if npage = 0 then Some z
      else do {
        p \<leftarrow> array_get (z_parr z) pos;
        assert_that (pg_refcnt p \<noteq> 0);
        let p = p\<lparr>pg_refcnt := pg_refcnt p - 1\<rparr>;
        arr \<leftarrow> array_set (z_parr z) pos p;
        let z = z\<lparr>z_parr := arr\<rparr>;
        if pg_refcnt p \<noteq> 0 then release_pages z (pos + 1) (npage - 1)
        else do {
          (err, bm) \<leftarrow> bitmap_unset (z_bitmap z) pos 1;
          assert_that (err = 0);
          let p = p\<lparr>pg_flags := PG_SWAPPABLE, pg_icache := NULL\<rparr>;
          arr \<leftarrow> array_set (z_parr z) pos p;
          release_pages (z\<lparr>z_bitmap := bm, z_parr := arr, z_upages := z_upages z - 1\<rparr>) (pos + 1) (npage - 1) } })"
  by pat_completeness auto
termination
  by (relation "measure (\<lambda>(z, pos, npage). unat npage)") (auto simp: unat_minus_one unat_gt_0)

declare release_pages.simps [simp del]

text \<open>\<^verbatim>\<open>BS(order)\<close>: a shift by 64 or more is undefined, so the order 64 that the check admits is not
  one that the function can serve.\<close>

definition BS :: "nat \<Rightarrow> u64 option" where
  "BS p = (if p < 64 then Some (push_bit p 1) else None)"

text \<open>The zone and the index of the page that \<^verbatim>\<open>do_page_free_n\<close> is to free.\<close>

definition free_target :: "pmm \<Rightarrow> addr \<Rightarrow> u64 \<Rightarrow> u64 \<Rightarrow> (nat \<times> u64 \<times> zone list) option" where
  "free_target s page ad npage =
     (if page = NULL
      then do {
        (err, zi, zs) \<leftarrow> getzone_byaddr (pm_zones s) ad (npage * PGSZ) True;
        assert_that (err = 0);
        i \<leftarrow> zi;
        let z = zs ! i;
        let idx = (ad - z_start z) div PGSZ;
        p \<leftarrow> array_get (z_parr z) idx;
        assert_that (pg_refcnt p \<noteq> 0);
        (used, bm) \<leftarrow> bitmap_test (z_bitmap z) idx 1;
        assert_that (used \<noteq> 0);
        Some (i, idx, zs[i := z\<lparr>z_bitmap := bm\<rparr>]) }
      else do {
        (err, zi, zs) \<leftarrow> getzone_bypage (pm_zones s) page True;
        assert_that (err = 0);
        i \<leftarrow> zi;
        Some (i, page_index (zs ! i) page, zs) })"

definition do_page_free_n :: "bootinfo \<Rightarrow> pmm \<Rightarrow> addr \<Rightarrow> u64 \<Rightarrow> nat \<Rightarrow> pmm option" where
  "do_page_free_n bi s page ad order = do {
     npage \<leftarrow> BS order;
     assert_that (order \<le> 64);
     (i, pos, zs) \<leftarrow> free_target s page ad npage;
     let z = zs ! i;
     assert_that (\<not> is_kernel_addr bi (page_addr z pos));
     if page_addr z pos + npage * PGSZ \<ge> z_start z + z_size z
     then do { z \<leftarrow> zone_unlock z; Some (s\<lparr>pm_zones := zs[i := z]\<rparr>) }
     else do {
       z \<leftarrow> release_pages z pos npage;
       z \<leftarrow> zone_unlock z;
       Some (s\<lparr>pm_zones := zs[i := z]\<rparr>) } }"

definition page_free_n :: "bootinfo \<Rightarrow> pmm \<Rightarrow> addr \<Rightarrow> nat \<Rightarrow> pmm option" where
  "page_free_n bi s page order = do_page_free_n bi s page 0 order"

definition page_free :: "bootinfo \<Rightarrow> pmm \<Rightarrow> addr \<Rightarrow> pmm option" where
  "page_free bi s page = do_page_free_n bi s page 0 0"

definition page_free_n_phys :: "bootinfo \<Rightarrow> pmm \<Rightarrow> u64 \<Rightarrow> nat \<Rightarrow> pmm option" where
  "page_free_n_phys bi s ad order = do_page_free_n bi s NULL ad order"

definition page_free_phys :: "bootinfo \<Rightarrow> pmm \<Rightarrow> u64 \<Rightarrow> pmm option" where
  "page_free_phys bi s ad = page_free_n_phys bi s ad 0"

section \<open>Reference counts\<close>

text \<open>
  \<^verbatim>\<open>page_increment\<close>, \<^verbatim>\<open>page_decrement\<close> and their variants by physical address differ in how
  they find the zone and the index only: \<open>with_page\<close> and \<open>with_paddr\<close> do that, run the body on
  the locked zone and unlock it.
\<close>

definition with_page :: "(zone \<Rightarrow> u64 \<Rightarrow> ('a \<times> zone) option) \<Rightarrow> pmm \<Rightarrow> addr \<Rightarrow> (int \<times> 'a option \<times> pmm) option" where
  "with_page body s page =
     (if page = NULL then Some (- EINVAL, None, s)
      else do {
        (err, zi, zs) \<leftarrow> getzone_bypage (pm_zones s) page True;
        case zi of
          None \<Rightarrow> Some (err, None, s\<lparr>pm_zones := zs\<rparr>)
        | Some i \<Rightarrow> do {
            (a, z) \<leftarrow> body (zs ! i) (page_index (zs ! i) page);
            z \<leftarrow> zone_unlock z;
            Some (0, Some a, s\<lparr>pm_zones := zs[i := z]\<rparr>) } })"

definition with_paddr :: "(zone \<Rightarrow> u64 \<Rightarrow> ('a \<times> zone) option) \<Rightarrow> pmm \<Rightarrow> u64 \<Rightarrow> (int \<times> 'a option \<times> pmm) option" where
  "with_paddr body s paddr =
     (if paddr = 0 then Some (- EINVAL, None, s)
      else do {
        (err, zi, zs) \<leftarrow> getzone_byaddr (pm_zones s) paddr PGSZ True;
        case zi of
          None \<Rightarrow> Some (err, None, s\<lparr>pm_zones := zs\<rparr>)
        | Some i \<Rightarrow> do {
            (a, z) \<leftarrow> body (zs ! i) ((paddr - z_start (zs ! i)) div PGSZ);
            z \<leftarrow> zone_unlock z;
            Some (0, Some a, s\<lparr>pm_zones := zs[i := z]\<rparr>) } })"

definition increment_body :: "zone \<Rightarrow> u64 \<Rightarrow> (unit \<times> zone) option" where
  "increment_body z i = do {
     (used, bm) \<leftarrow> bitmap_test (z_bitmap z) i 1;
     assert_that (used \<noteq> 0);
     p \<leftarrow> array_get (z_parr z) i;
     arr \<leftarrow> array_set (z_parr z) i (p\<lparr>pg_refcnt := pg_refcnt p + 1\<rparr>);
     Some ((), z\<lparr>z_bitmap := bm, z_parr := arr\<rparr>) }"

definition decrement_body :: "zone \<Rightarrow> u64 \<Rightarrow> (unit \<times> zone) option" where
  "decrement_body z i = do {
     (used, bm) \<leftarrow> bitmap_test (z_bitmap z) i 1;
     assert_that (used \<noteq> 0);
     let z = z\<lparr>z_bitmap := bm\<rparr>;
     p \<leftarrow> array_get (z_parr z) i;
     let p = p\<lparr>pg_refcnt := pg_refcnt p - 1\<rparr>;
     arr \<leftarrow> array_set (z_parr z) i p;
     let z = z\<lparr>z_parr := arr\<rparr>;
     if pg_refcnt p = 0
     then do {
       (err, bm) \<leftarrow> bitmap_unset (z_bitmap z) i 1;
       assert_that (err = 0);
       Some ((), z\<lparr>z_bitmap := bm\<rparr>) }
     else Some ((), z) }"

definition getcount_body :: "zone \<Rightarrow> u64 \<Rightarrow> (u64 \<times> zone) option" where
  "getcount_body z i = do { p \<leftarrow> array_get (z_parr z) i; Some (pg_refcnt p, z) }"

definition page_increment :: "pmm \<Rightarrow> addr \<Rightarrow> (int \<times> unit option \<times> pmm) option" where
  "page_increment = with_page increment_body"

definition page_decrement :: "pmm \<Rightarrow> addr \<Rightarrow> (int \<times> unit option \<times> pmm) option" where
  "page_decrement = with_page decrement_body"

definition page_increment_phys :: "pmm \<Rightarrow> u64 \<Rightarrow> (int \<times> unit option \<times> pmm) option" where
  "page_increment_phys = with_paddr increment_body"

definition page_decrement_phys :: "pmm \<Rightarrow> u64 \<Rightarrow> (int \<times> unit option \<times> pmm) option" where
  "page_decrement_phys = with_paddr decrement_body"

definition page_get :: "pmm \<Rightarrow> addr \<Rightarrow> (int \<times> unit option \<times> pmm) option" where
  "page_get = page_increment"

definition page_get_phys :: "pmm \<Rightarrow> u64 \<Rightarrow> (int \<times> unit option \<times> pmm) option" where
  "page_get_phys = page_increment_phys"

definition page_put_phys :: "pmm \<Rightarrow> u64 \<Rightarrow> (int \<times> unit option \<times> pmm) option" where
  "page_put_phys = page_decrement_phys"

definition page_put :: "pmm \<Rightarrow> addr \<Rightarrow> pmm option" where
  "page_put s page = do { (err, _, s) \<leftarrow> page_decrement s page; assert_that (err = 0); Some s }"

definition page_get_address :: "pmm \<Rightarrow> addr \<Rightarrow> bool \<Rightarrow> (int \<times> u64 option \<times> pmm) option" where
  "page_get_address s page ppa =
     (if page = NULL \<or> \<not> ppa then Some (- EINVAL, None, s)
      else with_page (\<lambda>z i. Some (page_addr z i, z)) s page)"

definition page_getcount :: "pmm \<Rightarrow> addr \<Rightarrow> bool \<Rightarrow> (int \<times> u64 option \<times> pmm) option" where
  "page_getcount s page pcnt =
     (if page = NULL \<or> \<not> pcnt then Some (- EINVAL, None, s) else with_page getcount_body s page)"

definition page_getcount_phys :: "pmm \<Rightarrow> u64 \<Rightarrow> bool \<Rightarrow> (int \<times> u64 option \<times> pmm) option" where
  "page_getcount_phys s paddr pcnt =
     (if paddr = 0 \<or> \<not> pcnt then Some (- EINVAL, None, s) else with_paddr getcount_body s paddr)"

definition mm_alloc :: "(u64 \<Rightarrow> addr option) \<Rightarrow> bootinfo \<Rightarrow> pmm \<Rightarrow> (u64 \<times> pmm) option" where
  "mm_alloc mount bi s = do {
     (_, _, paddr, s) \<leftarrow> page_alloc_phys mount bi s GFP_NORMAL True;
     Some (case paddr of None \<Rightarrow> 0 | Some a \<Rightarrow> a, s) }"

definition mm_free :: "pmm \<Rightarrow> u64 \<Rightarrow> pmm option" where
  "mm_free s ad = do { (_, _, s) \<leftarrow> page_put_phys s ad; Some s }"

text \<open>
  \<^verbatim>\<open>page_check_watermark\<close>; \<open>mapping\<close> stands for \<^verbatim>\<open>arch_getmapping\<close> of the page-table code: the error,
  or the physical address in the page-table entry of a virtual address.
\<close>

definition page_check_watermark :: "(addr \<Rightarrow> int + u64) \<Rightarrow> pmm \<Rightarrow> addr \<Rightarrow> (int \<times> pmm) option" where
  "page_check_watermark mapping s vaddr =
     (case mapping vaddr of
        Inl err \<Rightarrow> Some (err, s)
      | Inr paddr \<Rightarrow> do {
          (err, zi, zs) \<leftarrow> getzone_byaddr (pm_zones s) paddr PGSZ True;
          case zi of
            None \<Rightarrow> Some (err, s\<lparr>pm_zones := zs\<rparr>)
          | Some i \<Rightarrow> do {
              let z = zs ! i;
              let idx = (paddr - z_start z) div PGSZ;
              p \<leftarrow> array_get (z_parr z) idx;
              (used, z) \<leftarrow>
                (if pg_refcnt p = 0 then Some (0, z)
                 else do { (used, bm) \<leftarrow> bitmap_test (z_bitmap z) idx 1; Some (used, z\<lparr>z_bitmap := bm\<rparr>) });
              if used = 0
              then do { z \<leftarrow> zone_unlock z; Some (- EACCES, s\<lparr>pm_zones := zs[i := z]\<rparr>) }
              else do {
                page_verify_watermark p;
                z \<leftarrow> zone_unlock z;
                Some (0, s\<lparr>pm_zones := zs[i := z]\<rparr>) } } })"

text \<open>The loops of \<^verbatim>\<open>mem_free\<close> and \<^verbatim>\<open>mem_used\<close> over the zones, each locked and unlocked in turn.\<close>

fun mem_sum :: "(zone \<Rightarrow> u64) \<Rightarrow> zone list \<Rightarrow> u64 \<Rightarrow> u64 option" where
  "mem_sum f [] sz = Some sz"
| "mem_sum f (z # zs) sz = do {
     z \<leftarrow> zone_lock z;
     let sz = (if zone_isvalid z then sz + f z else sz);
     _ \<leftarrow> zone_unlock z;
     mem_sum f zs sz }"

definition mem_free :: "pmm \<Rightarrow> u64 option" where
  "mem_free s = do {
     sz \<leftarrow> mem_sum (\<lambda>z. (z_npages z - z_upages z) * PGSZ) (pm_zones s) 0; Some (sz div 1024) }"

definition mem_used :: "pmm \<Rightarrow> u64 option" where
  "mem_used s = do { sz \<leftarrow> mem_sum (\<lambda>z. z_upages z * PGSZ) (pm_zones s) 0; Some (sz div 1024) }"

end
