(* ===== verification/Pmm_Proofs.thy ===== *)
theory Pmm_Proofs
  imports Pmm
begin

text \<open>
  Correctness of the physical page allocator.  The invariant of a zone ties the bitmap to the
  reference counts (a bit is set iff the count is not zero) and says that every free frame may
  be handed out: it lies outside the kernel image and carries a pool watermark.
\<close>

section \<open>Invariant\<close>

definition frame_ok :: "bootinfo \<Rightarrow> u64 \<Rightarrow> nat \<Rightarrow> page \<Rightarrow> bool" where
  "frame_ok bi start i p \<longleftrightarrow>
     \<not> OVERLAPS (start + of_nat i * PGSZ) PGSZ (kern_base bi) (kern_size bi) \<and>
     \<not> is_kernel_addr bi (start + of_nat i * PGSZ + VMA_BASE) \<and>
     pg_watermark p \<in> {PGWM_DMA_POOL, PGWM_NORM_POOL, PGWM_HOLE_POOL, PGWM_HIGH_POOL}"

definition zone_ok :: "bootinfo \<Rightarrow> zone \<Rightarrow> bool" where
  "zone_ok bi z \<longleftrightarrow>
     bitmap_inv (z_bitmap z) \<and> \<not> bm_lock (z_bitmap z) \<and> bm_size (z_bitmap z) = z_npages z \<and>
     length (z_parr z) = unat (z_npages z) \<and>
     unat (z_start z) + unat (z_npages z) * 4096 < 2 ^ 64 \<and>
     (\<forall>i < unat (z_npages z). i \<in> bits (z_bitmap z) \<longleftrightarrow> pg_refcnt (z_parr z ! i) \<noteq> 0) \<and>
     (\<forall>i < unat (z_npages z). i \<notin> bits (z_bitmap z) \<longrightarrow> frame_ok bi (z_start z) i (z_parr z ! i))"

text \<open>The used-page counter agrees with the bitmap.\<close>

definition accounted :: "zone \<Rightarrow> bool" where
  "accounted z \<longleftrightarrow> unat (z_upages z) = card (bits (z_bitmap z))"

definition pmm_inv :: "bootinfo \<Rightarrow> pmm \<Rightarrow> bool" where
  "pmm_inv bi s \<longleftrightarrow> length (pm_zones s) = NZONE \<and>
     (\<forall>z \<in> set (pm_zones s). \<not> z_lock z \<and> (zone_isvalid z \<longrightarrow> zone_ok bi z))"

lemma zone_ok_lock [simp]: "zone_ok bi (z\<lparr>z_lock := l\<rparr>) = zone_ok bi z"
  by (simp add: zone_ok_def)

lemma zone_isvalid_upd [simp]:
  "zone_isvalid (z\<lparr>z_lock := l\<rparr>) = zone_isvalid z"
  "zone_isvalid (z\<lparr>z_bitmap := bm\<rparr>) = zone_isvalid z"
  "zone_isvalid (z\<lparr>z_parr := ps\<rparr>) = zone_isvalid z"
  "zone_isvalid (z\<lparr>z_upages := u\<rparr>) = zone_isvalid z"
  by (simp_all add: zone_isvalid_def)

lemma zone_lock_simps [simp]:
  "\<not> z_lock z \<Longrightarrow> zone_lock z = Some (z\<lparr>z_lock := True\<rparr>)"
  "z_lock z \<Longrightarrow> zone_unlock z = Some (z\<lparr>z_lock := False\<rparr>)"
  by (simp_all add: zone_lock_def zone_unlock_def)

lemma zone_unlocked [simp]: "\<not> z_lock z \<Longrightarrow> z\<lparr>z_lock := False\<rparr> = z"
  by simp

lemma page_addr_unat:
  assumes "unat start + n * 4096 < 2 ^ 64" "k \<le> n"
  shows "unat (start + of_nat k * 4096 :: u64) = unat start + k * 4096"
proof -
  have k: "unat start + k * 4096 < 2 ^ 64"
    using assms by (meson add_left_mono mult_le_mono1 le_less_trans)
  then have "unat (of_nat k :: u64) = k" by (simp add: unat_of_nat take_bit_nat_eq_self)
  then have "unat (of_nat k * 4096 :: u64) = k * 4096" using k by (simp add: unat_word_ariths)
  then show ?thesis using k by (simp add: unat_add_bounded)
qed

section \<open>Taking references to a free range\<close>

definition map_range :: "('a \<Rightarrow> 'a) \<Rightarrow> nat \<Rightarrow> nat \<Rightarrow> 'a list \<Rightarrow> 'a list" where
  "map_range f i n xs = map (\<lambda>k. if i \<le> k \<and> k < i + n then f (xs ! k) else xs ! k) [0..<length xs]"

lemma length_map_range [simp]: "length (map_range f i n xs) = length xs"
  by (simp add: map_range_def)

lemma nth_map_range [simp]:
  "k < length xs \<Longrightarrow> map_range f i n xs ! k = (if i \<le> k \<and> k < i + n then f (xs ! k) else xs ! k)"
  by (simp add: map_range_def)

lemma map_range_0 [simp]: "map_range f i 0 xs = xs"
  by (rule nth_equalityI) auto

lemma map_range_step:
  "i < length xs \<Longrightarrow> map_range f (Suc i) n (xs[i := f (xs ! i)]) = map_range f i (Suc n) xs"
  by (rule nth_equalityI) (auto simp: nth_list_update)

definition zero_range :: "(addr \<Rightarrow> u8) \<Rightarrow> nat \<Rightarrow> nat \<Rightarrow> addr \<Rightarrow> u8" where
  "zero_range ram lo hi = (\<lambda>a. if lo \<le> unat a \<and> unat a < hi then 0 else ram a)"

definition mount_ok :: "(u64 \<Rightarrow> addr option) \<Rightarrow> bootinfo \<Rightarrow> bool" where
  "mount_ok mount bi \<longleftrightarrow> (\<forall>pa. \<exists>v. mount pa = Some v \<and> \<not> is_kernel_addr bi v)"

lemma frame_watermark:
  "frame_ok bi start i p \<Longrightarrow> page_verify_watermark (p\<lparr>pg_refcnt := c\<rparr>) = Some ()"
  by (auto simp: frame_ok_def page_verify_watermark_def)

lemma zero_fill_spec:
  assumes "mount_ok mount bi" "unat i < length (z_parr z)" "frame_ok bi (z_start z) (unat i) (z_parr z ! unat i)"
    "unat (z_start z) + length (z_parr z) * 4096 < 2 ^ 64"
  shows "zero_fill_page mount bi z i whence ram =
    Some (zero_range ram (unat (z_start z) + unat i * 4096) (unat (z_start z) + Suc (unat i) * 4096))"
proof -
  obtain v where "mount (z_start z + i * 4096) = Some v" "\<not> is_kernel_addr bi v"
    using assms(1) by (auto simp: mount_ok_def)
  moreover have "page_verify_watermark (z_parr z ! unat i) = Some ()"
    using frame_watermark [OF assms(3), of "pg_refcnt (z_parr z ! unat i)"] by simp
  moreover have "unat (z_start z + i * 4096) = unat (z_start z) + unat i * 4096"
    using page_addr_unat [OF assms(4), of "unat i"] assms(2) by simp
  ultimately show ?thesis
    using assms(2,3) by (auto simp: zero_fill_page_def memset_page_def zero_range_def frame_ok_def fun_eq_iff Let_def)
qed

lemma take_pages_spec:
  assumes mnt: "mount_ok mount bi" and "unat i + unat n \<le> length (z_parr z)"
    and "unat (z_start z) + length (z_parr z) * 4096 < 2 ^ 64"
    and "\<forall>k. unat i \<le> k \<and> k < unat i + unat n \<longrightarrow>
      pg_refcnt (z_parr z ! k) = 0 \<and> frame_ok bi (z_start z) k (z_parr z ! k)"
  shows "take_pages mount bi gflags whence z ram i n =
    Some (z\<lparr>z_parr := map_range (\<lambda>p. p\<lparr>pg_refcnt := 1\<rparr>) (unat i) (unat n) (z_parr z)\<rparr>,
      if gflags AND GFP_ZERO \<noteq> 0
      then zero_range ram (unat (z_start z) + unat i * 4096) (unat (z_start z) + (unat i + unat n) * 4096)
      else ram)"
  using assms(2-4)
proof (induction "unat n" arbitrary: i n z ram)
  case 0
  then have "n = 0" by (simp add: unat_eq_zero)
  then show ?case by (subst take_pages.simps) (auto simp: zero_range_def fun_eq_iff)
next
  case (Suc m)
  then have n: "n \<noteq> 0" and i: "unat i < length (z_parr z)" by auto
  have n1: "unat (n - 1) = m" using Suc.hyps(2) n by (simp add: unat_minus_one)
  have i1: "unat (i + 1) = Suc (unat i)"
  proof (rule unat_Suc_less [of i "of_nat (length (z_parr z))"])
    have "length (z_parr z) < 2 ^ 64" using Suc.prems(2) by simp
    then show "i < of_nat (length (z_parr z))"
      using i by (simp add: word_less_nat_alt unat_of_nat take_bit_nat_eq_self)
  qed
  let ?p = "z_parr z ! unat i"
  let ?z = "z\<lparr>z_parr := (z_parr z)[unat i := ?p\<lparr>pg_refcnt := 1\<rparr>]\<rparr>"
  have fr: "pg_refcnt ?p = 0" "frame_ok bi (z_start z) (unat i) ?p"
    using Suc.prems(3) Suc.hyps(2) by simp_all
  have fr': "frame_ok bi (z_start ?z) (unat i) (z_parr ?z ! unat i)"
    using fr(2) i by (simp add: frame_ok_def)
  let ?ram = "if gflags AND GFP_ZERO \<noteq> 0
    then zero_range ram (unat (z_start z) + unat i * 4096) (unat (z_start z) + Suc (unat i) * 4096) else ram"
  have zf: "(if gflags AND GFP_ZERO \<noteq> 0 then zero_fill_page mount bi ?z i whence ram else Some ram) = Some ?ram"
    using zero_fill_spec [OF mnt _ fr'] i Suc.prems(2) by simp
  have step: "take_pages mount bi gflags whence z ram i n = take_pages mount bi gflags whence ?z ?ram (i + 1) (n - 1)"
    using n i fr zf frame_watermark [OF fr(2)]
    by (subst take_pages.simps) (auto simp: page_addr_def frame_ok_def Let_def)
  have "take_pages mount bi gflags whence ?z ?ram (i + 1) (n - 1) =
    Some (?z\<lparr>z_parr := map_range (\<lambda>p. p\<lparr>pg_refcnt := 1\<rparr>) (Suc (unat i)) m (z_parr ?z)\<rparr>,
      if gflags AND GFP_ZERO \<noteq> 0
      then zero_range ?ram (unat (z_start z) + Suc (unat i) * 4096) (unat (z_start z) + (Suc (unat i) + m) * 4096)
      else ?ram)"
    using Suc.hyps(1) [of "n - 1" "i + 1" ?z ?ram] Suc.prems Suc.hyps(2) n1 i1 by (simp add: nth_list_update)
  moreover have "map_range (\<lambda>p. p\<lparr>pg_refcnt := 1\<rparr>) (Suc (unat i)) m (z_parr ?z) =
      map_range (\<lambda>p. p\<lparr>pg_refcnt := 1\<rparr>) (unat i) (unat n) (z_parr z)"
    using map_range_step [OF i, of "\<lambda>p. p\<lparr>pg_refcnt := 1\<rparr>" m] Suc.hyps(2) by simp
  moreover have "unat (z_start z) + (Suc (unat i) + m) * 4096 = unat (z_start z) + (unat i + unat n) * 4096"
    using Suc.hyps(2) by simp
  ultimately show ?case
    unfolding step by (auto simp: zero_range_def fun_eq_iff)
qed


section \<open>Allocation\<close>

lemma unat_order: "order < 64 \<Longrightarrow> unat (push_bit (unat order) 1 :: u64) = 2 ^ unat (order :: u64)"
proof -
  assume "order < 64"
  then have "unat order < 64" by (simp add: word_less_nat_alt)
  then have "(2 :: nat) ^ unat order < 2 ^ 64" by (intro power_strict_increasing) simp_all
  then have "unat (of_nat (2 ^ unat order) :: u64) = 2 ^ unat order"
    by (subst unat_of_nat) (simp add: take_bit_nat_eq_self)
  then show ?thesis by (simp add: push_bit_eq_mult)
qed

lemma pmm_zone:
  assumes "pmm_inv bi s" "i < NZONE"
  shows "i < length (pm_zones s)" "\<not> z_lock (pm_zones s ! i)"
    "zone_isvalid (pm_zones s ! i) \<Longrightarrow> zone_ok bi (pm_zones s ! i)"
  using assms by (auto simp: pmm_inv_def)

lemma pmm_inv_update:
  assumes "pmm_inv bi s" "\<not> z_lock z" "zone_isvalid z \<longrightarrow> zone_ok bi z"
  shows "pmm_inv bi (s\<lparr>pm_zones := (pm_zones s)[i := z]\<rparr>)"
    and "pmm_inv bi (s\<lparr>pm_zones := (pm_zones s)[i := z], pm_ram := ram\<rparr>)"
  using assms set_update_subset_insert [of "pm_zones s" i z] by (auto simp: pmm_inv_def)

lemma getzone_byindex_valid:
  assumes "pmm_inv bi s" "0 \<le> w" "w < int NZONE" "zone_isvalid (pm_zones s ! nat w)"
  shows "getzone_byindex (pm_zones s) w =
    Some (0, Some (nat w), (pm_zones s)[nat w := (pm_zones s ! nat w)\<lparr>z_lock := True\<rparr>])"
  using assms pmm_zone [OF assms(1), of "nat w"] by (simp add: getzone_byindex_def Let_def)

lemma bit_range_nth: "k \<in> bit_range p n \<longleftrightarrow> unat p \<le> k \<and> k < unat p + unat n"
  by (auto simp: bit_range_def)

text \<open>The zone after a successful allocation of the range \<open>p .. p + n\<close>.\<close>

definition zone_taken :: "zone \<Rightarrow> bitmap \<Rightarrow> u64 \<Rightarrow> u64 \<Rightarrow> zone" where
  "zone_taken z bm p n = z\<lparr>z_bitmap := bm,
     z_parr := map_range (\<lambda>q. q\<lparr>pg_refcnt := 1\<rparr>) (unat p) (unat n) (z_parr z), z_upages := z_upages z + n\<rparr>"

lemma zone_taken_ok:
  assumes z: "zone_ok bi z" and fit: "free_at (z_bitmap z) n p" and bm: "bitmap_inv bm" "\<not> bm_lock bm"
    "bm_size bm = bm_size (z_bitmap z)" "bits bm = bits (z_bitmap z) \<union> bit_range p n"
  shows "zone_ok bi (zone_taken z bm p n)" "accounted z \<Longrightarrow> accounted (zone_taken z bm p n)"
proof -
  have range: "unat p + unat n \<le> unat (z_npages z)" "bits (z_bitmap z) \<inter> bit_range p n = {}"
    using z fit by (simp_all add: zone_ok_def free_at_def)
  show "zone_ok bi (zone_taken z bm p n)"
    using z bm range by (auto simp: zone_ok_def zone_taken_def bit_range_nth)
  have "card (bits bm) = card (bits (z_bitmap z)) + unat n"
    using range(2) bm(4) by (simp add: card_Un_disjoint bit_range_def)
  moreover have "card (bits bm) < 2 ^ 64"
    using le_less_trans [OF card_bits_le unsigned_less, of bm] by simp
  ultimately show "accounted (zone_taken z bm p n)" if "accounted z"
    using that by (simp add: accounted_def zone_taken_def unat_add_bounded)
qed

lemma gfp_zone_bounds:
  assumes "GFP_WHENCE gflags \<le> 4"
  shows "0 \<le> gfp_to_zone_index gflags" "gfp_to_zone_index gflags < int NZONE"
proof -
  have "GFP_WHENCE gflags = 0 \<or> GFP_WHENCE gflags = 1 \<or> GFP_WHENCE gflags = 2 \<or>
      GFP_WHENCE gflags = 3 \<or> GFP_WHENCE gflags = 4"
    using assms by (simp add: word_le_nat_alt word_unat_eq_iff) linarith
  then show "0 \<le> gfp_to_zone_index gflags" "gfp_to_zone_index gflags < int NZONE"
    by (auto simp: gfp_to_zone_index_def)
qed

lemma alloc_spec:
  assumes inv: "pmm_inv bi s" and mnt: "mount_ok mount bi"
    and gf: "GFP_WHENCE gflags \<le> 4" and ord: "order < 64" and out: "ppage \<or> ppaddr"
    and w: "w = nat (gfp_to_zone_index gflags)" and z: "z = pm_zones s ! w" "zone_isvalid z"
    and n: "n = push_bit (unat order) 1" "n \<le> z_npages z"
  shows "(\<exists>p bm ram. do_page_alloc_n mount bi s gflags order ppage ppaddr =
            Some (0, if ppage then Some (z_pages z + p * PAGE_T) else None,
                  if ppaddr then Some (page_addr z p) else None,
                  s\<lparr>pm_zones := (pm_zones s)[w := zone_taken z bm p n], pm_ram := ram\<rparr>) \<and>
            free_at (z_bitmap z) n p \<and> (\<forall>q<p. \<not> free_at (z_bitmap z) n q) \<and>
            bitmap_inv bm \<and> \<not> bm_lock bm \<and> bm_size bm = bm_size (z_bitmap z) \<and>
            bits bm = bits (z_bitmap z) \<union> bit_range p n \<and>
            ram = (if gflags AND GFP_ZERO \<noteq> 0
                   then zero_range (pm_ram s) (unat (z_start z) + unat p * 4096)
                          (unat (z_start z) + (unat p + unat n) * 4096)
                   else pm_ram s)) \<or>
         (do_page_alloc_n mount bi s gflags order ppage ppaddr = Some (- ENOMEM, None, None, s) \<and>
            (\<forall>q. \<not> free_at (z_bitmap z) n q))"
proof -
  note wi = gfp_zone_bounds [OF gf]
  have wl: "w < NZONE" using w wi by simp
  note pz = pmm_zone [OF inv wl]
  have zok: "zone_ok bi z" using pz(3) z by simp
  have val: "validate_input gflags order ppage ppaddr = 0"
    using out ord gf by (auto simp: validate_input_def)
  have gz: "getzone_byindex (pm_zones s) (gfp_to_zone_index gflags) =
      Some (0, Some w, (pm_zones s)[w := z\<lparr>z_lock := True\<rparr>])"
    using getzone_byindex_valid [OF inv wi] z w by simp
  have bi: "bitmap_inv (z_bitmap z)" "\<not> bm_lock (z_bitmap z)" "bm_size (z_bitmap z) = z_npages z"
    using zok by (simp_all add: zone_ok_def)
  have n0: "0 < n" using n(1) unat_order [OF ord] by (simp add: word_less_nat_alt)
  have nb: "n \<le> bm_size (z_bitmap z)" using n(2) bi(3) by simp
  show ?thesis
    using alloc_range_first_fit [OF bi(1,2) n0 nb]
  proof (elim disjE exE conjE)
    fix p bm
    assume a: "bitmap_alloc_range (z_bitmap z) n True = Some (0, Some p, bm)" "bitmap_inv bm" "\<not> bm_lock bm"
      "bm_size bm = bm_size (z_bitmap z)" "bits bm = bits (z_bitmap z) \<union> bit_range p n"
      "free_at (z_bitmap z) n p" "\<forall>q<p. \<not> free_at (z_bitmap z) n q"
    let ?z = "z\<lparr>z_lock := True, z_bitmap := bm\<rparr>"
    have fit: "unat p + unat n \<le> unat (z_npages z)" "bits (z_bitmap z) \<inter> bit_range p n = {}"
      using a(6) bi(3) by (simp_all add: free_at_def)
    have free: "pg_refcnt (z_parr z ! k) = 0 \<and> frame_ok bi (z_start z) k (z_parr z ! k)"
      if "unat p \<le> k \<and> k < unat p + unat n" for k
    proof -
      have "k < unat (z_npages z)" "k \<notin> bits (z_bitmap z)" using that fit by (auto simp: bit_range_nth)
      then show ?thesis using zok by (simp add: zone_ok_def)
    qed
    let ?ram = "if gflags AND GFP_ZERO \<noteq> 0
      then zero_range (pm_ram s) (unat (z_start z) + unat p * 4096) (unat (z_start z) + (unat p + unat n) * 4096)
      else pm_ram s"
    have "take_pages mount bi gflags (gfp_to_zone_index gflags) ?z (pm_ram s) p n =
      Some (?z\<lparr>z_parr := map_range (\<lambda>q. q\<lparr>pg_refcnt := 1\<rparr>) (unat p) (unat n) (z_parr z)\<rparr>, ?ram)"
      using take_pages_spec [OF mnt, of p n ?z gflags "gfp_to_zone_index gflags" "pm_ram s"] fit(1) free zok
      by (simp add: zone_ok_def)
    moreover have "zone_taken z bm p n = z\<lparr>z_bitmap := bm,
        z_parr := map_range (\<lambda>q. q\<lparr>pg_refcnt := 1\<rparr>) (unat p) (unat n) (z_parr z),
        z_upages := z_upages z + n, z_lock := False\<rparr>"
      using pz(2) z(1) by (simp add: zone_taken_def)
    ultimately have "do_page_alloc_n mount bi s gflags order ppage ppaddr =
            Some (0, if ppage then Some (z_pages z + p * PAGE_T) else None,
                  if ppaddr then Some (page_addr z p) else None,
                  s\<lparr>pm_zones := (pm_zones s)[w := zone_taken z bm p n], pm_ram := ?ram\<rparr>)"
      using val wi(1) gz pz(1) a(1)
      unfolding do_page_alloc_n_def n(1) [symmetric] Let_def by (auto simp: page_addr_def)
    then show ?thesis using a(2-7) by blast
  next
    assume a: "bitmap_alloc_range (z_bitmap z) n True = Some (- ENOSPC, None, z_bitmap z)"
      and no: "\<forall>q. \<not> free_at (z_bitmap z) n q"
    have "(pm_zones s)[w := z] = pm_zones s" using z(1) by simp
    then have "do_page_alloc_n mount bi s gflags order ppage ppaddr = Some (- ENOMEM, None, None, s)"
      using val wi(1) gz pz(1,2) a z(1) unfolding do_page_alloc_n_def n(1) [symmetric] Let_def by simp
    then show ?thesis using no by blast
  qed
qed


text \<open>C4: Page allocation.  From a state in which the zone invariants hold, a request for
  \<open>2\<^sup>order\<close> pages of a valid zone returns.  Either it succeeds with the lowest free aligned-to-page
  range, whose frames were all free: they are marked used with reference count one, the counter
  of used pages grows by their number, the frames are zero if \<^verbatim>\<open>GFP_ZERO\<close> was given, all
  invariants hold again and the other zones are unchanged.  Or it answers \<^verbatim>\<open>-ENOMEM\<close>, changes
  nothing, and no free range of that length exists.\<close>

theorem page_alloc_correct:
  assumes "pmm_inv bi s" "mount_ok mount bi" "GFP_WHENCE gflags \<le> 4" "order < 64"
    and "w = nat (gfp_to_zone_index gflags)" "z = pm_zones s ! w" "zone_isvalid z"
    and "n = push_bit (unat order) 1" "n \<le> z_npages z"
  shows "(\<exists>p z' s'. do_page_alloc_n mount bi s gflags order True True =
            Some (0, Some (z_pages z + p * PAGE_T), Some (page_addr z p), s') \<and>
            pmm_inv bi s' \<and> pm_zones s' = (pm_zones s)[w := z'] \<and> (accounted z \<longrightarrow> accounted z') \<and>
            free_at (z_bitmap z) n p \<and> (\<forall>q<p. \<not> free_at (z_bitmap z) n q) \<and>
            bits (z_bitmap z') = bits (z_bitmap z) \<union> bit_range p n \<and>
            (\<forall>k \<in> bit_range p n. pg_refcnt (z_parr z' ! k) = 1) \<and>
            z_upages z' = z_upages z + n \<and>
            (gflags AND GFP_ZERO \<noteq> 0 \<longrightarrow> (\<forall>a. unat (z_start z) + unat p * 4096 \<le> unat a \<and>
               unat a < unat (z_start z) + (unat p + unat n) * 4096 \<longrightarrow> pm_ram s' a = 0))) \<or>
         (do_page_alloc_n mount bi s gflags order True True = Some (- ENOMEM, None, None, s) \<and>
            (\<forall>q. \<not> free_at (z_bitmap z) n q))"
proof -
  have w: "w < NZONE" using gfp_zone_bounds [OF assms(3)] assms(5) by simp
  note pz = pmm_zone [OF assms(1) w, folded assms(6)]
  consider (ok) p bm ram where "do_page_alloc_n mount bi s gflags order True True =
      Some (0, Some (z_pages z + p * PAGE_T), Some (page_addr z p),
        s\<lparr>pm_zones := (pm_zones s)[w := zone_taken z bm p n], pm_ram := ram\<rparr>)"
      "free_at (z_bitmap z) n p" "\<forall>q<p. \<not> free_at (z_bitmap z) n q"
      "bitmap_inv bm" "\<not> bm_lock bm" "bm_size bm = bm_size (z_bitmap z)"
      "bits bm = bits (z_bitmap z) \<union> bit_range p n"
      "ram = (if gflags AND GFP_ZERO \<noteq> 0
         then zero_range (pm_ram s) (unat (z_start z) + unat p * 4096) (unat (z_start z) + (unat p + unat n) * 4096)
         else pm_ram s)"
    | (full) "do_page_alloc_n mount bi s gflags order True True = Some (- ENOMEM, None, None, s)"
      "\<forall>q. \<not> free_at (z_bitmap z) n q"
    using alloc_spec [OF assms(1-4) _ assms(5-9), of True True] by auto
  then show ?thesis
  proof cases
    case ok
    let ?z = "zone_taken z bm p n"
    let ?s = "s\<lparr>pm_zones := (pm_zones s)[w := ?z], pm_ram := ram\<rparr>"
    note zt = zone_taken_ok [OF pz(3) [OF assms(7)] ok(2,4-7)]
    have "\<not> z_lock ?z" using pz(2) by (simp add: zone_taken_def)
    then have inv: "pmm_inv bi ?s" using zt(1) by (intro pmm_inv_update(2) [OF assms(1)]) simp_all
    have cnt: "pg_refcnt (z_parr ?z ! k) = 1" if "k \<in> bit_range p n" for k
    proof -
      have "k < length (z_parr z)"
        using that ok(2) pz(3) [OF assms(7)] by (auto simp: bit_range_nth free_at_def zone_ok_def)
      then show ?thesis using that by (simp add: zone_taken_def bit_range_nth)
    qed
    have "pm_ram ?s a = 0" if "gflags AND GFP_ZERO \<noteq> 0" "unat (z_start z) + unat p * 4096 \<le> unat a"
        "unat a < unat (z_start z) + (unat p + unat n) * 4096" for a
      using that ok(8) by (simp add: zero_range_def)
    moreover have "pm_zones ?s = (pm_zones s)[w := ?z]" "bits (z_bitmap ?z) = bits (z_bitmap z) \<union> bit_range p n"
      "z_upages ?z = z_upages z + n"
      using ok(7) by (simp_all add: zone_taken_def)
    ultimately show ?thesis using ok(1-3) inv zt(2) cnt by blast
  next
    case full
    then show ?thesis by blast
  qed
qed


section \<open>Freeing\<close>

definition same_frame :: "zone \<Rightarrow> zone \<Rightarrow> bool" where
  "same_frame z z' \<longleftrightarrow> z_start z' = z_start z \<and> z_size z' = z_size z \<and> z_npages z' = z_npages z \<and>
     z_pages z' = z_pages z \<and> z_flags z' = z_flags z \<and> z_lock z' = z_lock z \<and>
     length (z_parr z') = length (z_parr z) \<and>
     (\<forall>k < length (z_parr z). pg_watermark (z_parr z' ! k) = pg_watermark (z_parr z ! k))"

lemma frame_ok_watermark: "pg_watermark q = pg_watermark p \<Longrightarrow> frame_ok bi start i q = frame_ok bi start i p"
  by (simp add: frame_ok_def)

text \<open>Clearing the bit of one frame whose descriptor is replaced by a free one.\<close>

lemma free_bit:
  assumes z: "zone_ok bi z" and i: "unat i < unat (z_npages z)" "unat i \<in> bits (z_bitmap z)"
    and ps: "length ps = length (z_parr z)" "pg_refcnt (ps ! unat i) = 0" "frame_ok bi (z_start z) (unat i) (ps ! unat i)"
      "\<forall>k < length (z_parr z). k \<noteq> unat i \<longrightarrow> ps ! k = z_parr z ! k"
  shows "\<exists>bm. bitmap_unset (z_bitmap z) i 1 = Some (0, bm) \<and> zone_ok bi (z\<lparr>z_bitmap := bm, z_parr := ps\<rparr>) \<and>
    bits bm = bits (z_bitmap z) - {unat i} \<and> card (bits (z_bitmap z)) = Suc (card (bits bm))"
proof -
  have r: "bit_range i 1 = {unat i}" by (auto simp: bit_range_def)
  have "bitmap_inv (z_bitmap z)" "\<not> bm_lock (z_bitmap z)" "bm_size (z_bitmap z) = z_npages z"
    using z by (simp_all add: zone_ok_def)
  then obtain bm where bm: "bitmap_unset (z_bitmap z) i 1 = Some (0, bm)" "bitmap_inv bm" "\<not> bm_lock bm"
    "bm_size bm = z_npages z" "bits bm = bits (z_bitmap z) - {unat i}"
    using bitmap_unset_in_range [of "z_bitmap z" i 1] i r by auto
  have "zone_ok bi (z\<lparr>z_bitmap := bm, z_parr := ps\<rparr>)"
    using z bm ps i unfolding zone_ok_def by (auto simp: less_Suc_eq)
  moreover have "card (bits (z_bitmap z)) = Suc (card (bits bm))"
    unfolding bm(5) using i(2) by (intro card.remove) simp_all
  ultimately show ?thesis using bm by blast
qed

lemma zone_ok_upages [simp]: "zone_ok bi (z\<lparr>z_upages := u\<rparr>) = zone_ok bi z"
  by (simp add: zone_ok_def)

lemma release_pages_spec:
  assumes "zone_ok bi z" "unat pos + unat n \<le> unat (z_npages z)"
    and "\<forall>k. unat pos \<le> k \<and> k < unat pos + unat n \<longrightarrow>
      pg_refcnt (z_parr z ! k) \<noteq> 0 \<and> frame_ok bi (z_start z) k (z_parr z ! k)"
  shows "\<exists>z'. release_pages z pos n = Some z' \<and> zone_ok bi z' \<and> same_frame z z' \<and> (accounted z \<longrightarrow> accounted z') \<and>
    (\<forall>k < unat (z_npages z). pg_refcnt (z_parr z' ! k) = (if unat pos \<le> k \<and> k < unat pos + unat n
       then pg_refcnt (z_parr z ! k) - 1 else pg_refcnt (z_parr z ! k)))"
  using assms
proof (induction "unat n" arbitrary: pos n z)
  case 0
  then have "n = 0" by (simp add: unat_eq_zero)
  with 0 show ?case by (subst release_pages.simps) (simp add: same_frame_def)
next
  case (Suc m)
  then have n: "n \<noteq> 0" and pos: "unat pos < unat (z_npages z)" by auto
  have n1: "unat (n - 1) = m" using Suc.hyps(2) n by (simp add: unat_minus_one)
  have pos1: "unat (pos + 1) = Suc (unat pos)"
    using pos by (intro unat_Suc_less [of _ "z_npages z"]) (simp add: word_less_nat_alt)
  let ?p = "z_parr z ! unat pos"
  have fr: "pg_refcnt ?p \<noteq> 0" "frame_ok bi (z_start z) (unat pos) ?p"
    using Suc.prems(3) Suc.hyps(2) by simp_all
  have len: "length (z_parr z) = unat (z_npages z)" using Suc.prems(1) by (simp add: zone_ok_def)
  obtain z1 where z1: "release_pages z pos n = release_pages z1 (pos + 1) (n - 1)" "zone_ok bi z1" "same_frame z z1"
    "accounted z \<longrightarrow> accounted z1"
    "\<forall>k < unat (z_npages z). pg_refcnt (z_parr z1 ! k) =
      (if k = unat pos then pg_refcnt (z_parr z ! k) - 1 else pg_refcnt (z_parr z ! k))"
  proof (cases "pg_refcnt ?p = 1")
    case True
    let ?ps = "(z_parr z)[unat pos := ?p\<lparr>pg_refcnt := 0, pg_flags := PG_SWAPPABLE, pg_icache := NULL\<rparr>]"
    have mem: "unat pos \<in> bits (z_bitmap z)" using Suc.prems(1) pos fr(1) by (simp add: zone_ok_def)
    obtain bm where bm: "bitmap_unset (z_bitmap z) pos 1 = Some (0, bm)" "zone_ok bi (z\<lparr>z_bitmap := bm, z_parr := ?ps\<rparr>)"
      "bits bm = bits (z_bitmap z) - {unat pos}" "card (bits (z_bitmap z)) = Suc (card (bits bm))"
      using free_bit [OF Suc.prems(1) pos mem, of ?ps] fr(2) pos len by (auto simp: frame_ok_def)
    let ?z1 = "z\<lparr>z_bitmap := bm, z_parr := ?ps, z_upages := z_upages z - 1\<rparr>"
    have "release_pages z pos n = release_pages ?z1 (pos + 1) (n - 1)"
      using n pos len fr True bm(1) by (subst release_pages.simps) (simp add: Let_def)
    moreover have "accounted z \<longrightarrow> accounted ?z1"
    proof
      assume "accounted z"
      then have u: "unat (z_upages z) = Suc (card (bits bm))" using bm(4) by (simp add: accounted_def)
      then have "z_upages z \<noteq> 0" by auto
      then show "accounted ?z1" using u by (simp add: accounted_def unat_minus_one)
    qed
    moreover have "same_frame z ?z1" using pos len by (auto simp: same_frame_def nth_list_update)
    ultimately show thesis using that [of ?z1] bm(2) True pos len by (auto simp: nth_list_update)
  next
    case False
    let ?z1 = "z\<lparr>z_parr := (z_parr z)[unat pos := ?p\<lparr>pg_refcnt := pg_refcnt ?p - 1\<rparr>]\<rparr>"
    have ne: "pg_refcnt ?p - 1 \<noteq> 0" using False by simp
    have "release_pages z pos n = release_pages ?z1 (pos + 1) (n - 1)"
      using n pos len fr ne by (subst release_pages.simps) (simp add: Let_def)
    moreover have "zone_ok bi ?z1"
      using Suc.prems(1) pos len fr ne unfolding zone_ok_def
      by (auto simp: nth_list_update frame_ok_def)
    moreover have "same_frame z ?z1" using pos len by (auto simp: same_frame_def nth_list_update)
    ultimately show thesis using that [of ?z1] pos len by (auto simp: nth_list_update accounted_def)
  qed
  have "\<exists>z'. release_pages z1 (pos + 1) (n - 1) = Some z' \<and> zone_ok bi z' \<and> same_frame z1 z' \<and> (accounted z1 \<longrightarrow> accounted z') \<and>
    (\<forall>k < unat (z_npages z1). pg_refcnt (z_parr z' ! k) = (if Suc (unat pos) \<le> k \<and> k < Suc (unat pos) + m
       then pg_refcnt (z_parr z1 ! k) - 1 else pg_refcnt (z_parr z1 ! k)))"
  proof -
    have "pg_refcnt (z_parr z1 ! k) \<noteq> 0 \<and> frame_ok bi (z_start z1) k (z_parr z1 ! k)"
      if k: "unat (pos + 1) \<le> k \<and> k < unat (pos + 1) + unat (n - 1)" for k
    proof -
      have kk: "unat pos \<le> k" "k < unat pos + unat n" "k \<noteq> unat pos" "k < unat (z_npages z)"
        using k n1 pos1 Suc.hyps(2) Suc.prems(2) by auto
      then show ?thesis
        using Suc.prems(3) z1(3,5) len frame_ok_watermark [of "z_parr z1 ! k" "z_parr z ! k"]
        by (simp add: same_frame_def)
    qed
    then show ?thesis
      using Suc.hyps(1) [of "n - 1" z1 "pos + 1"] n1 pos1 z1(2,3) Suc.prems(2) Suc.hyps(2)
      by (simp add: same_frame_def)
  qed
  then obtain z' where z': "release_pages z1 (pos + 1) (n - 1) = Some z'" "zone_ok bi z'" "same_frame z1 z'"
    "accounted z1 \<longrightarrow> accounted z'"
    "\<forall>k < unat (z_npages z1). pg_refcnt (z_parr z' ! k) = (if Suc (unat pos) \<le> k \<and> k < Suc (unat pos) + m
       then pg_refcnt (z_parr z1 ! k) - 1 else pg_refcnt (z_parr z1 ! k))"
    by blast
  have np: "z_npages z1 = z_npages z" using z1(3) by (simp add: same_frame_def)
  have "same_frame z z'" using z1(3) z'(3) by (simp add: same_frame_def)
  moreover have "pg_refcnt (z_parr z' ! k) = (if unat pos \<le> k \<and> k < unat pos + unat n
       then pg_refcnt (z_parr z ! k) - 1 else pg_refcnt (z_parr z ! k))" if "k < unat (z_npages z)" for k
    using that z1(5) z'(5) np Suc.hyps(2) by (cases "k = unat pos") (auto simp: less_Suc_eq)
  ultimately show ?case using z1(1,4) z' by auto
qed


lemma getzone_scan_first:
  assumes "\<forall>z \<in> set zs. \<not> z_lock z" "i < length zs" "P ((zs ! i)\<lparr>z_lock := True\<rparr>)"
    "\<forall>j < i. \<not> P ((zs ! j)\<lparr>z_lock := True\<rparr>)"
  shows "getzone_scan P zs = Some (Some (i, zs[i := (zs ! i)\<lparr>z_lock := True\<rparr>]))"
  using assms
proof (induction zs arbitrary: i)
  case (Cons z zs)
  show ?case
  proof (cases i)
    case 0
    then show ?thesis using Cons.prems by simp
  next
    case (Suc i')
    have "\<not> P (z\<lparr>z_lock := True\<rparr>)" using Cons.prems(4) Suc by auto
    moreover have "getzone_scan P zs = Some (Some (i', zs[i' := (zs ! i')\<lparr>z_lock := True\<rparr>]))"
    proof (rule Cons.IH)
      show "\<forall>j < i'. \<not> P ((zs ! j)\<lparr>z_lock := True\<rparr>)"
      proof (intro allI impI)
        fix j assume "j < i'"
        then show "\<not> P ((zs ! j)\<lparr>z_lock := True\<rparr>)" using Cons.prems(4) Suc spec [of _ "Suc j"] by fastforce
      qed
    qed (use Cons.prems Suc in auto)
    ultimately show ?thesis using Cons.prems(1) Suc by simp
  qed
qed simp

text \<open>The zone array \<open>w\<close> is the first one whose descriptor array, or address range, covers the page.\<close>

definition page_zone :: "pmm \<Rightarrow> nat \<Rightarrow> addr \<Rightarrow> bool" where
  "page_zone s w page \<longleftrightarrow> w < NZONE \<and>
     (let owns = (\<lambda>z. page \<ge> z_pages z \<and> zone_isvalid z \<and> page < z_pages z + z_npages z * PAGE_T)
      in owns (pm_zones s ! w) \<and> (\<forall>j < w. \<not> owns (pm_zones s ! j)))"

definition addr_zone :: "pmm \<Rightarrow> nat \<Rightarrow> u64 \<Rightarrow> u64 \<Rightarrow> bool" where
  "addr_zone s w paddr sz \<longleftrightarrow> w < NZONE \<and>
     (let owns = (\<lambda>z. paddr \<ge> z_start z \<and> zone_isvalid z \<and> paddr + sz \<le> z_start z + z_size z)
      in owns (pm_zones s ! w) \<and> (\<forall>j < w. \<not> owns (pm_zones s ! j)))"

lemma getzone_bypage_found:
  assumes "pmm_inv bi s" "page_zone s w page" "page \<noteq> NULL"
  shows "getzone_bypage (pm_zones s) page True =
    Some (0, Some w, (pm_zones s)[w := (pm_zones s ! w)\<lparr>z_lock := True\<rparr>])"
proof -
  let ?P = "\<lambda>z. page \<ge> z_pages z \<and> zone_isvalid z \<and> page < z_pages z + z_npages z * PAGE_T"
  have "getzone_scan ?P (pm_zones s) = Some (Some (w, (pm_zones s)[w := (pm_zones s ! w)\<lparr>z_lock := True\<rparr>]))"
    using assms(1,2) by (intro getzone_scan_first) (auto simp: pmm_inv_def page_zone_def Let_def)
  then show ?thesis using assms(3) by (simp add: getzone_bypage_def)
qed

lemma getzone_byaddr_found:
  assumes "pmm_inv bi s" "addr_zone s w paddr sz"
  shows "getzone_byaddr (pm_zones s) paddr sz True =
    Some (0, Some w, (pm_zones s)[w := (pm_zones s ! w)\<lparr>z_lock := True\<rparr>])"
proof -
  let ?P = "\<lambda>z. paddr \<ge> z_start z \<and> zone_isvalid z \<and> paddr + sz \<le> z_start z + z_size z"
  have "getzone_scan ?P (pm_zones s) = Some (Some (w, (pm_zones s)[w := (pm_zones s ! w)\<lparr>z_lock := True\<rparr>]))"
    using assms by (intro getzone_scan_first) (auto simp: pmm_inv_def addr_zone_def Let_def)
  then show ?thesis by (simp add: getzone_byaddr_def)
qed

lemma page_index_descriptor:
  assumes "zone_ok bi z" "unat p < unat (z_npages z)"
  shows "page_index z (z_pages z + p * PAGE_T) = p"
proof -
  have "unat p * 40 < 2 ^ 64" using assms by (auto simp: zone_ok_def)
  then have "unat (p * 40) = unat p * 40" by (simp add: unat_word_ariths)
  then have "unat (p * 40 div 40) = unat p" by (simp add: unat_div)
  then show ?thesis by (simp add: page_index_def word_unat_eq_iff)
qed

lemma push_bit_zero_word [simp]: "push_bit n (1 :: u64) * 4096 = push_bit n 1 * PGSZ"
  by simp

lemma addr_index:
  assumes "zone_ok bi z" "unat p < unat (z_npages z)"
  shows "(page_addr z p - z_start z) div PGSZ = p"
proof -
  have "unat p * 4096 < 2 ^ 64" using assms by (auto simp: zone_ok_def)
  then have "unat (p * 4096) = unat p * 4096" by (simp add: unat_word_ariths)
  then have "unat (p * 4096 div 4096) = unat p" by (simp add: unat_div)
  then show ?thesis by (simp add: page_addr_def word_unat_eq_iff)
qed

lemma used_bit:
  assumes "zone_ok bi z" "unat p < unat (z_npages z)" "pg_refcnt (z_parr z ! unat p) \<noteq> 0"
  shows "bitmap_test (z_bitmap z) p 1 = Some (1, z_bitmap z)" "unat p \<in> bits (z_bitmap z)"
proof -
  show mem: "unat p \<in> bits (z_bitmap z)" using assms by (simp add: zone_ok_def)
  have "bit_range p 1 = {unat p}" by (auto simp: bit_range_def)
  moreover have "unat p + 1 < 2 ^ 64"
    using less_le_trans [OF assms(2)] unsigned_less [of "z_npages z", where 'a = nat] by simp
  ultimately show "bitmap_test (z_bitmap z) p 1 = Some (1, z_bitmap z)"
    using assms mem bitmap_test_spec [of "z_bitmap z" p 1] by (simp add: zone_ok_def)
qed

lemma released_bits:
  assumes "zone_ok bi z" "zone_ok bi z1" "z_npages z1 = z_npages z"
    and cnt: "\<forall>k < unat (z_npages z). pg_refcnt (z_parr z1 ! k) = (if unat p \<le> k \<and> k < unat p + unat n
       then pg_refcnt (z_parr z ! k) - 1 else pg_refcnt (z_parr z ! k))"
    and pages: "\<And>k. k \<in> bit_range p n \<Longrightarrow> pg_refcnt (z_parr z ! k) \<noteq> 0"
  shows "bits (z_bitmap z1) = bits (z_bitmap z) - {k \<in> bit_range p n. pg_refcnt (z_parr z ! k) = 1}"
proof (intro set_eqI)
  fix k
  have eq: "k \<in> bits (z_bitmap x) \<longleftrightarrow> k < unat (z_npages x) \<and> pg_refcnt (z_parr x ! k) \<noteq> 0"
    if "zone_ok bi x" for x
    using that bits_less [of k "z_bitmap x"] by (auto simp: zone_ok_def)
  show "k \<in> bits (z_bitmap z1) \<longleftrightarrow> k \<in> bits (z_bitmap z) - {k \<in> bit_range p n. pg_refcnt (z_parr z ! k) = 1}"
    using eq [OF assms(1)] eq [OF assms(2)] cnt assms(3) pages
    by (cases "k \<in> bit_range p n") (auto simp: bit_range_nth)
qed

text \<open>What the caller of the freeing functions names: a page by its descriptor, or by its address and a null pointer.\<close>

definition names_page :: "pmm \<Rightarrow> nat \<Rightarrow> u64 \<Rightarrow> u64 \<Rightarrow> addr \<Rightarrow> u64 \<Rightarrow> bool" where
  "names_page s w p n page ad \<longleftrightarrow>
     page = z_pages (pm_zones s ! w) + p * PAGE_T \<and> page \<noteq> NULL \<and> page_zone s w page \<or>
     page = NULL \<and> ad = page_addr (pm_zones s ! w) p \<and> addr_zone s w ad (n * PGSZ)"

lemma free_target_named:
  assumes inv: "pmm_inv bi s" and named: "names_page s w p n page ad" and z: "z = pm_zones s ! w"
    and p: "unat p < unat (z_npages z)" "pg_refcnt (z_parr z ! unat p) \<noteq> 0"
  shows "free_target s page ad n = Some (w, p, (pm_zones s)[w := z\<lparr>z_lock := True\<rparr>])" "w < NZONE" "zone_isvalid z"
proof -
  show w: "w < NZONE" "zone_isvalid z" using named z by (auto simp: names_page_def page_zone_def addr_zone_def Let_def)
  note pz = pmm_zone [OF inv w(1), folded z]
  have zok: "zone_ok bi z" using pz(3) w(2) .
  have len: "length (z_parr z) = unat (z_npages z)" using zok by (simp add: zone_ok_def)
  from named show "free_target s page ad n = Some (w, p, (pm_zones s)[w := z\<lparr>z_lock := True\<rparr>])" unfolding names_page_def
  proof
    assume h: "page = z_pages (pm_zones s ! w) + p * PAGE_T \<and> page \<noteq> NULL \<and> page_zone s w page"
    then have "getzone_bypage (pm_zones s) page True = Some (0, Some w, (pm_zones s)[w := z\<lparr>z_lock := True\<rparr>])"
      using getzone_bypage_found [OF inv, of w page] z by blast
    moreover have "page_index (z\<lparr>z_lock := True\<rparr>) page = p" using page_index_descriptor [OF zok p(1)] h z by (simp add: page_index_def)
    moreover have "page \<noteq> NULL" using h by blast
    ultimately show ?thesis using pz(1) by (simp add: free_target_def)
  next
    assume h: "page = NULL \<and> ad = page_addr (pm_zones s ! w) p \<and> addr_zone s w ad (n * PGSZ)"
    have i: "(page_addr z p - z_start z) div PGSZ = p" by (rule addr_index [OF zok p(1)])
    have "getzone_byaddr (pm_zones s) (page_addr z p) (n * PGSZ) True = Some (0, Some w, (pm_zones s)[w := z\<lparr>z_lock := True\<rparr>])"
      using getzone_byaddr_found [OF inv, of w "page_addr z p" "n * PGSZ"] h unfolding z by blast
    moreover have "page = NULL" "ad = page_addr z p" using h z by blast+
    ultimately show ?thesis using i p len pz(1) used_bit(1) [OF zok p] by (simp add: free_target_def)
  qed
qed

text \<open>C5: Freeing pages, named by a descriptor (\<^verbatim>\<open>page_free_n\<close>) or by an address (\<^verbatim>\<open>__page_free_n\<close>).  For a range of a zone whose pages are all in use and that ends before the
  end of the zone, \<^verbatim>\<open>do_page_free_n\<close> drops one reference of each page; the frames whose count
  reaches zero become free again and nothing else changes: the invariant and the accounting of
  used pages are kept.  A range that reaches the end of the zone is not freed at all: the range check of the code uses \<open>\<ge>\<close>, so the call returns without any change, and the last page of a zone is never given
  back.\<close>

theorem page_free_correct:
  assumes inv: "pmm_inv bi s" and named: "names_page s w p n page ad" and z: "z = pm_zones s ! w"
    and n: "n = push_bit order 1" "order < 64" "unat p + unat n \<le> unat (z_npages z)"
    and pages: "\<forall>k \<in> bit_range p n. pg_refcnt (z_parr z ! k) \<noteq> 0 \<and> frame_ok bi (z_start z) k (z_parr z ! k)"
    and kern: "\<not> is_kernel_addr bi (page_addr z p)"
  shows "if page_addr z p + n * PGSZ < z_start z + z_size z
    then \<exists>z' s'. do_page_free_n bi s page ad order = Some s' \<and>
      pmm_inv bi s' \<and> pm_zones s' = (pm_zones s)[w := z'] \<and> (accounted z \<longrightarrow> accounted z') \<and>
      (\<forall>k < unat (z_npages z). pg_refcnt (z_parr z' ! k) =
         (if k \<in> bit_range p n then pg_refcnt (z_parr z ! k) - 1 else pg_refcnt (z_parr z ! k))) \<and>
      bits (z_bitmap z') = bits (z_bitmap z) - {k \<in> bit_range p n. pg_refcnt (z_parr z ! k) = 1}
    else do_page_free_n bi s page ad order = Some s"
proof -
  have "n \<noteq> 0" using n(1,2) by (simp add: push_bit_eq_mult)
  then have p: "unat p < unat (z_npages z)" "unat p \<in> bit_range p n" using n(3) unat_gt_0 [of n] by (simp_all add: bit_range_nth)
  note ft = free_target_named [OF inv named z p(1)]
  have ft: "free_target s page ad n = Some (w, p, (pm_zones s)[w := z\<lparr>z_lock := True\<rparr>])" and w: "w < NZONE" "zone_isvalid z"
    using ft pages p(2) by blast+
  note pz = pmm_zone [OF inv w(1), folded z]
  have zok: "zone_ok bi z" using pz(3) w(2) .
  let ?z = "z\<lparr>z_lock := True\<rparr>"
  obtain z1 where z1: "release_pages ?z p n = Some z1" "zone_ok bi z1" "same_frame ?z z1"
    "accounted ?z \<longrightarrow> accounted z1"
    "\<forall>k < unat (z_npages z). pg_refcnt (z_parr z1 ! k) = (if unat p \<le> k \<and> k < unat p + unat n
       then pg_refcnt (z_parr z ! k) - 1 else pg_refcnt (z_parr z ! k))"
    using release_pages_spec [of bi ?z p n] zok n(3) pages by (auto simp: bit_range_nth)
  have sf: "z_lock z1" "z_npages z1 = z_npages z" "zone_isvalid z1" "length (z_parr z1) = unat (z_npages z)"
    using z1(3) w(2) zok by (auto simp: same_frame_def zone_isvalid_def zone_ok_def)
  let ?s = "s\<lparr>pm_zones := (pm_zones s)[w := z1\<lparr>z_lock := False\<rparr>]\<rparr>"
  have same: "(pm_zones s)[w := z] = pm_zones s" using z by simp
  have run: "do_page_free_n bi s page ad order = Some (if page_addr z p + n * PGSZ < z_start z + z_size z then ?s else s)"
    using ft n(2) kern pz(1,2) z1(1) sf(1) same unfolding do_page_free_n_def BS_def n(1) [symmetric] Let_def
    by (simp add: page_addr_def not_le)
  have "pmm_inv bi ?s" using z1(2) by (intro pmm_inv_update(1) [OF inv]) simp_all
  moreover have "bits (z_bitmap z1) = bits (z_bitmap z) - {k \<in> bit_range p n. pg_refcnt (z_parr z ! k) = 1}"
    by (rule released_bits [OF zok z1(2) sf(2) z1(5)]) (use pages in blast)
  moreover have "accounted z \<longrightarrow> accounted (z1\<lparr>z_lock := False\<rparr>)"
    using z1(4) by (simp add: accounted_def)
  ultimately show ?thesis
    using z1(5) run by (auto simp: bit_range_nth intro!: exI [of _ "z1\<lparr>z_lock := False\<rparr>"])
qed

text \<open>The last page of a zone can never be freed: the range check of \<^verbatim>\<open>do_page_free_n\<close> uses
  \<open>\<ge>\<close> where the range may end exactly at the end of the zone, so the call returns without
  dropping the reference.\<close>

theorem page_free_keeps_last_page:
  assumes inv: "pmm_inv bi s" and zone: "page_zone s w (z_pages z + p * PAGE_T)" "z = pm_zones s ! w"
      "z_pages z + p * PAGE_T \<noteq> NULL"
    and p: "unat p < unat (z_npages z)" "page_addr z p + PGSZ = z_start z + z_size z"
    and kern: "\<not> is_kernel_addr bi (page_addr z p)"
  shows "page_free bi s (z_pages z + p * PAGE_T) = Some s"
proof -
  have w: "w < NZONE" "zone_isvalid z" using zone(1,2) by (auto simp: page_zone_def Let_def)
  note pz = pmm_zone [OF inv w(1), folded zone(2)]
  have zok: "zone_ok bi z" using pz(3) w(2) .
  have ft: "free_target s (z_pages z + p * PAGE_T) 0 (push_bit 0 1) = Some (w, p, (pm_zones s)[w := z\<lparr>z_lock := True\<rparr>])"
    using getzone_bypage_found [OF inv zone(1,3)] page_index_descriptor [OF zok p(1)] zone(2,3) pz(1)
    by (simp add: free_target_def page_index_def)
  have same: "(pm_zones s)[w := z] = pm_zones s" using zone(2) by simp
  show ?thesis
    using ft kern p(2) pz(1,2) same unfolding page_free_def do_page_free_n_def BS_def Let_def
    by (simp add: page_addr_def add.assoc)
qed

text \<open>Looking up the zone with index \<^verbatim>\<open>NZONE\<close> passes the bound check, which compares with
  \<open>>\<close>, and accesses the zone array out of bounds; every other index outside the array is
  refused.\<close>

theorem getzone_byindex_off_by_one:
  assumes "pmm_inv bi s"
  shows "getzone_byindex (pm_zones s) (int NZONE) = None \<and>
    (\<forall>i. i < 0 \<or> i > int NZONE \<longrightarrow> getzone_byindex (pm_zones s) i = Some (- EINVAL, None, pm_zones s))"
  using assms by (auto simp: getzone_byindex_def pmm_inv_def Let_def)


section \<open>Reference counts and accounting\<close>

text \<open>Taking a reference to a used page by its physical address adds one to its count and changes
  nothing else.\<close>

theorem page_increment_counts:
  assumes inv: "pmm_inv bi s" and zone: "addr_zone s w (page_addr z p) PGSZ" "z = pm_zones s ! w" "page_addr z p \<noteq> 0"
    and p: "unat p < unat (z_npages z)" "pg_refcnt (z_parr z ! unat p) \<noteq> 0"
  shows "page_increment_phys s (page_addr z p) = Some (0, Some (),
    s\<lparr>pm_zones := (pm_zones s)[w := z\<lparr>z_parr := (z_parr z)[unat p :=
      (z_parr z ! unat p)\<lparr>pg_refcnt := pg_refcnt (z_parr z ! unat p) + 1\<rparr>]\<rparr>]\<rparr>)"
proof -
  have w: "w < NZONE" "zone_isvalid z" using zone(1,2) by (auto simp: addr_zone_def Let_def)
  note pz = pmm_zone [OF inv w(1), folded zone(2)]
  have zok: "zone_ok bi z" using pz(3) w(2) .
  have len: "length (z_parr z) = unat (z_npages z)" using zok by (simp add: zone_ok_def)
  have g: "getzone_byaddr (pm_zones s) (page_addr z p) PGSZ True = Some (0, Some w, (pm_zones s)[w := z\<lparr>z_lock := True\<rparr>])"
    using getzone_byaddr_found [OF inv zone(1)] zone(2) by simp
  have i: "(page_addr z p - z_start z) div PGSZ = p" by (rule addr_index [OF zok p(1)])
  show ?thesis
    using g i zone(3) used_bit [OF zok p] pz(1,2) p(1) len
    by (simp add: page_increment_phys_def with_paddr_def increment_body_def)
qed

text \<open>\<^verbatim>\<open>mm_free\<close>, the kernel's general page release, loses track of used pages: dropping the last
  reference frees the frame in the bitmap, but the counter of used pages is not decremented
  (as \<^verbatim>\<open>do_page_free_n\<close> does), so an accurate counter is wrong afterwards.\<close>

theorem mm_free_breaks_accounting:
  assumes inv: "pmm_inv bi s" and zone: "addr_zone s w (page_addr z p) PGSZ" "z = pm_zones s ! w" "page_addr z p \<noteq> 0"
    and p: "unat p < unat (z_npages z)" "pg_refcnt (z_parr z ! unat p) = 1" "frame_ok bi (z_start z) (unat p) (z_parr z ! unat p)"
    and acc: "accounted z"
  shows "\<exists>z' s'. mm_free s (page_addr z p) = Some s' \<and> pmm_inv bi s' \<and> pm_zones s' = (pm_zones s)[w := z'] \<and>
    bits (z_bitmap z') = bits (z_bitmap z) - {unat p} \<and> z_upages z' = z_upages z \<and> \<not> accounted z'"
proof -
  have w: "w < NZONE" "zone_isvalid z" using zone(1,2) by (auto simp: addr_zone_def Let_def)
  note pz = pmm_zone [OF inv w(1), folded zone(2)]
  have zok: "zone_ok bi z" using pz(3) w(2) .
  have len: "length (z_parr z) = unat (z_npages z)" using zok by (simp add: zone_ok_def)
  have g: "getzone_byaddr (pm_zones s) (page_addr z p) PGSZ True = Some (0, Some w, (pm_zones s)[w := z\<lparr>z_lock := True\<rparr>])"
    using getzone_byaddr_found [OF inv zone(1)] zone(2) by simp
  have i: "(page_addr z p - z_start z) div PGSZ = p" by (rule addr_index [OF zok p(1)])
  have used: "bitmap_test (z_bitmap z) p 1 = Some (1, z_bitmap z)" "unat p \<in> bits (z_bitmap z)"
    using used_bit [OF zok p(1)] p(2) by simp_all
  let ?ps = "(z_parr z)[unat p := (z_parr z ! unat p)\<lparr>pg_refcnt := 0\<rparr>]"
  obtain bm where bm: "bitmap_unset (z_bitmap z) p 1 = Some (0, bm)" "zone_ok bi (z\<lparr>z_bitmap := bm, z_parr := ?ps\<rparr>)"
    "bits bm = bits (z_bitmap z) - {unat p}" "card (bits (z_bitmap z)) = Suc (card (bits bm))"
    using free_bit [OF zok p(1) used(2), of ?ps] p len by (auto simp: frame_ok_def)
  let ?z = "z\<lparr>z_parr := ?ps, z_bitmap := bm\<rparr>"
  let ?s = "s\<lparr>pm_zones := (pm_zones s)[w := ?z]\<rparr>"
  have comm: "z\<lparr>z_bitmap := bm, z_parr := ?ps\<rparr> = ?z" by simp
  have "page_decrement_phys s (page_addr z p) = Some (0, Some (), ?s)"
    using g i zone(3) used(1) pz(1,2) p(1,2) len bm(1)
    by (simp add: page_decrement_phys_def with_paddr_def decrement_body_def Let_def)
  then have "mm_free s (page_addr z p) = Some ?s" by (simp add: mm_free_def page_put_phys_def)
  moreover have "pmm_inv bi ?s" using bm(2) pz(2) unfolding comm by (intro pmm_inv_update(1) [OF inv]) simp_all
  moreover have "\<not> accounted ?z" using acc bm(4) by (simp add: accounted_def)
  ultimately show ?thesis using bm(3) by (intro exI [of _ ?z] exI [of _ ?s]) simp
qed

section \<open>Page orders\<close>

lemma page_order_loop_spec:
  assumes "unat n \<le> 2 ^ 52" "order \<le> 52" "\<forall>k < order. 2 ^ k < unat n"
  shows "\<exists>r. page_order_loop n order = Some r \<and> unat n \<le> 2 ^ r \<and> (\<forall>k < r. 2 ^ k < unat n)"
  using assms
proof (induction "52 - order" arbitrary: order)
  have pow: "unat (push_bit k 1 :: u64) = 2 ^ k" if "k \<le> 52" for k
    using unat_order [of "of_nat k"] that
    by (simp add: word_less_nat_alt unat_of_nat take_bit_nat_eq_self)
  {
    case 0
    then have "order = 52" by simp
    then show ?case using 0 pow [of 52] by (subst page_order_loop.simps) (simp add: word_less_nat_alt)
  next
    case (Suc d)
    show ?case
    proof (cases "2 ^ order < unat n")
      case True
      then have "\<forall>k < order + 1. 2 ^ k < unat n" using Suc.prems(3) by (auto simp: less_Suc_eq)
      then show ?thesis
        using Suc.hyps(1) [of "order + 1"] Suc.hyps(2) Suc.prems(1) True pow [of order]
        by (subst page_order_loop.simps) (simp add: word_less_nat_alt)
    next
      case False
      then show ?thesis
        using Suc.prems Suc.hyps(2) pow [of order] by (subst page_order_loop.simps) (simp add: word_less_nat_alt)
    qed
  }
qed

text \<open>\<^verbatim>\<open>get_page_order\<close> terminates without an undefined shift and returns the smallest order
  whose \<open>2\<^sup>order\<close> pages hold the given number of bytes, for every size that is not within a page
  of \<open>2\<^sup>6\<^sup>4\<close>.\<close>

theorem get_page_order_least:
  assumes "unat sz + 4095 < 2 ^ 64"
  shows "\<exists>order. get_page_order sz = Some order \<and> unat sz \<le> 2 ^ order * 4096 \<and>
    (\<forall>k < order. 2 ^ k * 4096 < unat sz)"
proof -
  let ?n = "(sz + 4096 - 1) div 4096"
  have "unat (sz + 4096 - 1) = unat (sz + 4095)" by (simp add: add.commute)
  also have "\<dots> = unat sz + 4095" using assms by (simp add: unat_add_bounded)
  finally have n: "unat ?n = (unat sz + 4095) div 4096" unfolding unat_div by simp
  then have "unat ?n \<le> 2 ^ 52" using assms by simp
  then obtain r where r: "page_order_loop ?n 0 = Some r" "unat ?n \<le> 2 ^ r" "\<forall>k < r. 2 ^ k < unat ?n"
    using page_order_loop_spec [of ?n 0] by auto
  have "unat sz \<le> 2 ^ r * 4096" using r(2) n by linarith
  moreover have "2 ^ k * 4096 < unat sz" if "k < r" for k
  proof -
    have "2 ^ k < (unat sz + 4095) div 4096" using r(3) that n by simp
    then show ?thesis by linarith
  qed
  ultimately show ?thesis using r(1) by (auto simp: get_page_order_def)
qed


section \<open>The theorems at a concrete state\<close>

text \<open>One valid zone, NORM, of four pages from 16 MiB on; the first page and the last are used.\<close>

definition sample_boot :: bootinfo where
  "sample_boot = zero_bootinfo\<lparr>kern_base := 0xFFFF800000100000, kern_size := 0x1000\<rparr>"

definition sample_page :: "u64 \<Rightarrow> page" where
  "sample_page c = \<lparr>pg_flags = 0, pg_refcnt = c, pg_mapcnt = 0, pg_icache = 0, pg_watermark = PGWM_NORM_POOL\<rparr>"

definition empty_zone :: zone where
  "empty_zone = \<lparr>z_size = 0, z_start = 0, z_bitmap = \<lparr>bm_map = [], bm_size = 0, bm_lock = False\<rparr>, z_pages = 0,
     z_parr = [], z_npages = 0, z_upages = 0, z_flags = 0, z_lock = False\<rparr>"

definition sample_zone :: zone where
  "sample_zone = \<lparr>z_size = 16384, z_start = 0x1000000,
     z_bitmap = \<lparr>bm_map = [9], bm_size = 4, bm_lock = False\<rparr>, z_pages = 0x5000,
     z_parr = [sample_page 1, sample_page 0, sample_page 0, sample_page 1],
     z_npages = 4, z_upages = 2, z_flags = ZONE_VALID, z_lock = False\<rparr>"

definition sample_pmm :: pmm where
  "sample_pmm = \<lparr>pm_zones = [empty_zone, sample_zone, empty_zone, empty_zone], pm_ram = (\<lambda>_. 7)\<rparr>"

definition sample_mount :: "u64 \<Rightarrow> addr option" where
  "sample_mount pa = Some 0x4000"

lemma sample_zone_fields [simp]:
  "z_pages sample_zone = 0x5000" "z_npages sample_zone = 4" "z_start sample_zone = 0x1000000"
  "z_size sample_zone = 16384" "z_upages sample_zone = 2" "zone_isvalid sample_zone"
  "\<not> zone_isvalid empty_zone" "pm_zones sample_pmm ! Suc 0 = sample_zone" "pm_zones sample_pmm ! 0 = empty_zone"
  "pg_refcnt (z_parr sample_zone ! 0) = 1" "pg_refcnt (z_parr sample_zone ! 3) = 1"
  by (simp_all add: sample_zone_def sample_pmm_def empty_zone_def zone_isvalid_def sample_page_def)

lemma sample_zone_bits [simp]: "bits (z_bitmap sample_zone) = {0, 3}"
  by (auto simp: sample_zone_def bits_code bm_bit_def upt_rec)

lemma less4: "(i :: nat) < 4 \<longleftrightarrow> i = 0 \<or> i = 1 \<or> i = 2 \<or> i = 3"
  by auto

lemma sample_frames [simp]: "i < 4 \<Longrightarrow> frame_ok sample_boot 0x1000000 i (z_parr sample_zone ! i)"
  by (auto simp: less4 frame_ok_def sample_boot_def OVERLAPS_def is_kernel_addr_def sample_zone_def
      sample_page_def word_less_nat_alt word_le_nat_alt)

lemma sample_zone_ok [simp]: "zone_ok sample_boot sample_zone" "accounted sample_zone"
proof -
  have "bitmap_inv (z_bitmap sample_zone)" "\<not> bm_lock (z_bitmap sample_zone)" "bm_size (z_bitmap sample_zone) = 4"
    "length (z_parr sample_zone) = 4"
    by (simp_all add: sample_zone_def bitmap_inv_code bm_bit_def upt_rec)
  moreover have "pg_refcnt (z_parr sample_zone ! i) \<noteq> 0 \<longleftrightarrow> i = 0 \<or> i = 3" if "i < 4" for i
    using that by (auto simp: less4 sample_zone_def sample_page_def)
  ultimately show "zone_ok sample_boot sample_zone" by (auto simp: zone_ok_def)
  show "accounted sample_zone" by (simp add: accounted_def)
qed

lemma sample_kernel [simp]:
  "is_kernel_addr sample_boot a \<longleftrightarrow> 0xFFFF800000100000 \<le> a \<and> a < 0xFFFF800000101000"
  by (simp add: is_kernel_addr_def sample_boot_def)

lemma sample_locks [simp]: "\<not> z_lock sample_zone" "\<not> z_lock empty_zone"
  by (simp_all add: sample_zone_def empty_zone_def)

lemma sample_pmm_inv [simp]: "pmm_inv sample_boot sample_pmm" "mount_ok sample_mount sample_boot"
  by (simp_all add: pmm_inv_def sample_pmm_def mount_ok_def sample_mount_def)

lemma sample_page_zone [simp]: "i < 4 \<Longrightarrow> page_zone sample_pmm 1 (0x5000 + of_nat i * 40)"
  by (auto simp: page_zone_def Let_def less4)

theorem page_alloc_correct_witness:
  "\<exists>p s'. do_page_alloc_n sample_mount sample_boot sample_pmm 0x1002 1 True True =
      Some (0, Some (0x5000 + p * 40), Some (page_addr sample_zone p), s') \<and> pmm_inv sample_boot s'"
proof -
  have "free_at (z_bitmap sample_zone) 2 1"
    by (auto simp: free_at_def bit_range_def) (simp add: sample_zone_def)
  then show ?thesis
    using page_alloc_correct [where bi = sample_boot and s = sample_pmm and mount = sample_mount
        and gflags = "0x1002" and order = 1 and w = 1 and z = sample_zone and n = 2]
    by (auto simp: GFP_WHENCE_def gfp_to_zone_index_def Let_def)
qed

theorem page_free_correct_witness:
  "\<exists>z' s'. do_page_free_n sample_boot sample_pmm 0x5000 0 0 = Some s' \<and>
     pm_zones s' = (pm_zones sample_pmm)[1 := z'] \<and> bits (z_bitmap z') = {3} \<and> accounted z'"
proof -
  have r: "bit_range 0 1 = {0}" by (auto simp: bit_range_def)
  have b: "{0, 3} - {k. k = 0 \<and> pg_refcnt (z_parr sample_zone ! k) = 1} = {3 :: nat}" by auto
  have "names_page sample_pmm 1 0 1 0x5000 0" using sample_page_zone [of 0] by (simp add: names_page_def)
  then show ?thesis
    using page_free_correct [where bi = sample_boot and s = sample_pmm and w = 1 and z = sample_zone
        and p = 0 and n = 1 and order = 0 and page = "0x5000" and ad = 0] r b sample_frames [of 0]
    by (simp add: page_addr_def) blast
qed

theorem page_free_keeps_last_page_witness: "page_free sample_boot sample_pmm 0x5078 = Some sample_pmm"
  using page_free_keeps_last_page [where bi = sample_boot and s = sample_pmm and w = 1 and z = sample_zone and p = 3]
    sample_page_zone [of 3]
  by (simp add: page_addr_def)

theorem getzone_byindex_off_by_one_witness: "getzone_byindex (pm_zones sample_pmm) 4 = None"
  using getzone_byindex_off_by_one [of sample_boot sample_pmm] by simp

theorem page_increment_counts_witness:
  "\<exists>s'. page_increment_phys sample_pmm 0x1000000 = Some (0, Some (), s')"
  using page_increment_counts [of sample_boot sample_pmm 1 sample_zone 0]
  by (auto simp: addr_zone_def Let_def page_addr_def less_Suc_eq word_less_nat_alt word_le_nat_alt)

theorem mm_free_breaks_accounting_witness:
  "\<exists>z' s'. mm_free sample_pmm 0x1000000 = Some s' \<and> pm_zones s' = (pm_zones sample_pmm)[1 := z'] \<and>
     \<not> accounted z'"
  using mm_free_breaks_accounting [of sample_boot sample_pmm 1 sample_zone 0]
  by (fastforce simp: addr_zone_def Let_def page_addr_def less_Suc_eq word_less_nat_alt word_le_nat_alt)

theorem get_page_order_least_witness:
  "\<exists>order. get_page_order 5000 = Some order \<and> 5000 \<le> 2 ^ order * (4096 :: nat)"
  using get_page_order_least [of 5000] by auto

end
