(* ===== verification/Zones.thy ===== *)
theory Zones
  imports Pmm_Proofs
begin

text \<open>
  Initialisation of the memory zones, the second half of \<^verbatim>\<open>src/src/kernel/mm/pmm/zones.c\<close>: the
  physical memory is divided into the zones DMA, NORM, HOLE and HIGH, each gets its bitmap and its
  array of page descriptors from the early allocator, and every reserved region of the boot
  information is marked as used.  The main result is that this establishes the invariant of
  \<open>Pmm_Proofs\<close>, on which the theorems on allocation and release rest.
\<close>

section \<open>Definitions\<close>

abbreviation (input) MEMMIO :: u64 where "MEMMIO \<equiv> 0xFE000000"

definition zone_watermark :: "nat \<Rightarrow> u64" where
  "zone_watermark idx =
     (if idx = 0 then PGWM_DMA_POOL else if idx = 1 then PGWM_NORM_POOL
      else if idx = 2 then PGWM_HOLE_POOL else PGWM_HIGH_POOL)"

text \<open>
  The bitmap and the page array of a zone.  The words of the new bitmap and the descriptors of the
  new array are those that the two initialisation loops leave behind; what the memory held before
  is overwritten.
\<close>

definition zone_alloc_buffers :: "bootinfo \<Rightarrow> nat \<Rightarrow> zone \<Rightarrow> (int \<times> bootinfo \<times> zone) option" where
  "zone_alloc_buffers bi idx z =
     (if z_size z = 0 then Some (0, bi, z)
      else do {
        (bm_array, bi) \<leftarrow> boot_alloc bi (PGROUNDUP ((z_npages z + 64 - 1) div 64 * 8)) PGSZ;
        if bm_array = NULL then Some (- ENOMEM, bi, z)
        else do {
          (err, bm) \<leftarrow> bitmap_init (Some (z_bitmap z))
            (Some (replicate (unat (num_units (z_npages z))) 0)) (z_npages z);
          bm \<leftarrow> bm;
          let z = z\<lparr>z_bitmap := bm\<rparr>;
          if err \<noteq> 0 then Some (err, bi, z)
          else do {
            (pages, bi) \<leftarrow> boot_alloc bi (PGROUNDUP (z_npages z * PAGE_T)) PGSZ;
            if pages = NULL then Some (- ENOMEM, bi, z)
            else do {
              let p = \<lparr>pg_flags = 0, pg_refcnt = 0, pg_mapcnt = 0, pg_icache = NULL, pg_watermark = zone_watermark idx\<rparr>;
              let z = z\<lparr>z_pages := pages, z_parr := replicate (unat (z_npages z)) p\<rparr>;
              assert_that (z_lock z);
              Some (0, bi, z\<lparr>z_flags := z_flags z OR ZONE_VALID\<rparr>) } } } })"

definition zone_set_address_range :: "bootinfo \<Rightarrow> zone list \<Rightarrow> nat \<Rightarrow> u64 \<Rightarrow> u64 \<Rightarrow> (int \<times> bootinfo \<times> zone list) option" where
  "zone_set_address_range bi zs idx ad sz =
     (if idx > 0 \<and> z_flags (zs ! (idx - 1)) AND ZONE_VALID = 0 then Some (- EINVAL, bi, zs)
      else do {
        let z = (zs ! idx)\<lparr>z_start := ad, z_size := sz, z_npages := NPAGE sz\<rparr>;
        (err, bi, z) \<leftarrow> zone_alloc_buffers bi idx z;
        let z = (if err \<noteq> 0 then z\<lparr>z_start := 0, z_size := 0, z_npages := 0\<rparr> else z);
        Some (err, bi, zs[idx := z]) })"

text \<open>Where a zone starts and how large it is, from the memory (in KiB) that is left.\<close>

definition zone_extent :: "bootinfo \<Rightarrow> nat \<Rightarrow> u64 \<Rightarrow> (u64 \<times> u64) option" where
  "zone_extent bi idx memsz =
     (if idx = 0 then Some (0, if memsz > 0x4000 then 0x1000000 else KiB memsz)
      else if idx = 1 then Some (0x1000000, if memsz > 0x1FC000 then 0x7F000000 else KiB memsz)
      else if idx = 2 then Some (0x80000000, KiB (bi_memhi bi + 1024) + bi_hole_size bi - 0x80000000)
      else if idx = 3 then Some (0x100000000, KiB memsz)
      else None)"

definition zone_enumerate :: "bootinfo \<Rightarrow> zone list \<Rightarrow> nat \<Rightarrow> u64 \<Rightarrow> (int \<times> bootinfo \<times> zone list \<times> u64) option" where
  "zone_enumerate bi zs idx memsz = do {
     assert_that (z_lock (zs ! idx));
     case zone_extent bi idx memsz of
       None \<Rightarrow> Some (- EINVAL, bi, zs, memsz)
     | Some (ad, sz) \<Rightarrow> do {
         (err, bi, zs) \<leftarrow> zone_set_address_range bi zs idx ad sz;
         if err \<noteq> 0 then Some (err, bi, zs, memsz)
         else Some (0, bi, zs, memsz - B2KiB (z_size (zs ! idx))) } }"

definition initialize_zone_struct :: zone where
  "initialize_zone_struct = \<lparr>z_size = 0, z_start = 0, z_bitmap = \<lparr>bm_map = [], bm_size = 0, bm_lock = False\<rparr>,
     z_pages = NULL, z_parr = [], z_npages = 0, z_upages = 0, z_flags = 0, z_lock = False\<rparr>"

definition initialize_memory_zone :: "bootinfo \<Rightarrow> zone list \<Rightarrow> nat \<Rightarrow> u64 \<Rightarrow> (int \<times> bootinfo \<times> zone list \<times> u64) option" where
  "initialize_memory_zone bi zs idx memsz = do {
     z \<leftarrow> zone_lock initialize_zone_struct;
     (err, bi, zs, memsz) \<leftarrow>
       (if memsz \<noteq> 0 then zone_enumerate bi (zs[idx := z]) idx memsz else Some (0, bi, zs[idx := z], memsz));
     z \<leftarrow> zone_unlock (zs ! idx);
     Some (err, bi, zs[idx := z], memsz) }"

text \<open>
  \<^verbatim>\<open>mark_reserved_pages\<close>: the body of the loop, and the loop.  The result of \<^verbatim>\<open>bitmap_set\<close>, which refuses
  a bit that is set, is ignored.
\<close>

definition mark_page :: "zone \<Rightarrow> u64 \<Rightarrow> zone option" where
  "mark_page z i = do {
     (_, bm) \<leftarrow> bitmap_set (z_bitmap z) i 1;
     p \<leftarrow> array_get (z_parr z) i;
     let up = (if pg_refcnt p = 0 then z_upages z + 1 else z_upages z);
     arr \<leftarrow> array_set (z_parr z) i
       (p\<lparr>pg_flags := pg_flags p OR 3, pg_refcnt := pg_refcnt p + 1, pg_mapcnt := pg_mapcnt p + 1, pg_watermark := PGWM_RESERVED\<rparr>);
     Some (z\<lparr>z_bitmap := bm, z_parr := arr, z_upages := up\<rparr>) }"

function mark_loop :: "zone \<Rightarrow> u64 \<Rightarrow> u64 \<Rightarrow> zone option" where
  "mark_loop z i np = (if np = 0 then Some z else do { z \<leftarrow> mark_page z i; mark_loop z (i + 1) (np - 1) })"
  by pat_completeness auto
termination
  by (relation "measure (\<lambda>(z, i, np). unat np)") (auto simp: unat_minus_one unat_gt_0)

declare mark_loop.simps [simp del]

definition mark_reserved_pages :: "zone \<Rightarrow> u64 \<Rightarrow> u64 \<Rightarrow> zone option" where
  "mark_reserved_pages z ad sz = mark_loop z (NPAGE (ad - z_start z)) (NPAGE sz)"

definition process_memory_map :: "zone list \<Rightarrow> boot_mmap \<Rightarrow> zone list option" where
  "process_memory_map zs m =
     (if mm_addr m \<ge> V2HI MEMMIO \<or> mm_type m = MULTIBOOT_MEMORY_AVAILABLE then Some zs
      else do {
        let ad = PGROUND (V2LO (mm_addr m));
        (err, zi, zs) \<leftarrow> getzone_byaddr zs ad (mm_size m) True;
        assert_that (err = 0);
        i \<leftarrow> zi;
        z \<leftarrow> mark_reserved_pages (zs ! i) ad (mm_size m);
        z \<leftarrow> zone_unlock z;
        Some (zs[i := z]) })"

text \<open>The two loops of \<^verbatim>\<open>zones_init\<close>.\<close>

fun init_zones :: "bootinfo \<Rightarrow> zone list \<Rightarrow> u64 \<Rightarrow> nat list \<Rightarrow> (int \<times> bootinfo \<times> zone list) option" where
  "init_zones bi zs memsz [] = Some (0, bi, zs)"
| "init_zones bi zs memsz (i # is) = do {
     (err, bi, zs, memsz) \<leftarrow> initialize_memory_zone bi zs i memsz;
     if err \<noteq> 0 then Some (err, bi, zs) else init_zones bi zs memsz is }"

fun process_maps :: "zone list \<Rightarrow> boot_mmap list \<Rightarrow> zone list option" where
  "process_maps zs [] = Some zs"
| "process_maps zs (m # ms) = do { zs \<leftarrow> process_memory_map zs m; process_maps zs ms }"

definition zones_init :: "bootinfo \<Rightarrow> zone list \<Rightarrow> (int \<times> bootinfo \<times> zone list) option" where
  "zones_init bi zs = do {
     (err, bi, zs) \<leftarrow> init_zones bi zs (bi_memtotal bi) [0..<NZONE];
     if err \<noteq> 0 then Some (err, bi, zs)
     else do {
       zs \<leftarrow> process_maps zs (regions bi);
       Some (0, bi\<lparr>bi_watermark := BOOT_ALLOC_WATERMARK\<rparr>, zs) } }"

section \<open>The early allocator as it is used here\<close>

text \<open>The table has its shape and the usable memory is at most 16 PiB.\<close>

definition boot_ok :: "bootinfo \<Rightarrow> bool" where
  "boot_ok bi \<longleftrightarrow> table_ok bi \<and> unat (bi_usable bi) < 2 ^ 44"

lemma mask_12: "(0xFFF :: u64) = mask 12"
  by (simp add: mask_eq_exp_minus_1)

lemma unat_PGROUND: "unat (PGROUND p) = unat p div 4096 * 4096"
  unfolding PGROUND_def mask_12 unat_and_not_mask by simp

lemma unat_PGOFF: "unat (PGOFF p) = unat p mod 4096"
  unfolding PGOFF_def mask_12 take_bit_eq_mask [symmetric] unsigned_take_bit_eq take_bit_eq_mod
  by (simp add: unat_mod)

lemma PGROUNDUP_ge:
  assumes "unat p + 4096 < 2 ^ 64"
  shows "unat p \<le> unat (PGROUNDUP p) \<and> unat (PGROUNDUP p) \<le> unat p + 4096"
proof -
  have "unat (p + 4096) = unat p + 4096" using assms by (simp add: unat_add_bounded)
  moreover have "unat p \<le> (unat p + 4096) div 4096 * 4096 \<and> (unat p + 4096) div 4096 * 4096 \<le> unat p + 4096"
    using round_up_bounds [of 4096 "unat p + 1"] by (simp add: round_up_def)
  ultimately show ?thesis by (simp add: PGROUNDUP_def unat_PGROUND)
qed

lemma ceil_page: "(x + 4095) div 4096 = x div 4096 + (if x mod 4096 = 0 then 0 else 1)" for x :: nat
proof -
  obtain q t where "x = 4096 * q + t" "t < 4096" by (metis mod_less_divisor mult_div_mod_eq zero_less_numeral)
  moreover have "(4096 * q + t + 4095) div 4096 = (if t = 0 then q else q + 1)"
    using \<open>t < 4096\<close> by (intro div_nat_eqI) auto
  ultimately show ?thesis by simp
qed

lemma unat_NPAGE: "unat (NPAGE p) = (unat p + 4095) div 4096"
proof -
  have z: "PGOFF p = 0 \<longleftrightarrow> unat p mod 4096 = 0" using unat_PGOFF [of p] by (metis unat_0 unat_eq_zero)
  have d: "unat (p div 4096) = unat p div 4096" by (simp add: unat_div)
  have "unat p < 2 ^ 64" using unsigned_less [of p, where ?'a = nat] by simp
  then have "unat p div 4096 + 1 < 2 ^ 64" by simp
  then have "unat (p div 4096 + 1) = unat p div 4096 + 1" using d by (simp add: unat_add_bounded)
  then show ?thesis using z d by (simp add: NPAGE_def ceil_page)
qed

lemma boot_alloc_page:
  assumes "boot_ok bi" "unat sz + 4096 < 2 ^ 64" "boot_alloc bi sz PGSZ = Some (ad, bi')"
  shows "grows bi bi'" "boot_ok bi'" "unat sz < 2 ^ 54" "bi_watermark bi' = bi_watermark bi"
proof -
  obtain A N where N: "N = (sz + PGSZ - 1) AND NOT (PGSZ - 1)" and c: "A \<le> A + N" "A + N \<le> KiB (bi_usable bi)"
      and b: "bootinfo_add_mmap (bi\<lparr>bi_phyaddr := A + N, bi_usable := bi_usable bi - B2KiB N\<rparr>)
        MULTIBOOT_MEMORY_RESERVED (V2HI A) N = Some bi'"
    using boot_alloc_Some [OF assms(3)] by metis
  let ?b = "bi\<lparr>bi_phyaddr := A + N, bi_usable := bi_usable bi - B2KiB N\<rparr>"
  have N': "unat N = round_up (2 ^ 12) (unat sz)" using align_up [of 12 sz] assms(2) N by simp
  have u: "unat (bi_usable bi) < 2 ^ 44" "table_ok ?b" using assms(1) by (simp_all add: boot_ok_def table_ok_def)
  have "unat (A + N) \<le> 1024 * unat (bi_usable bi)"
    using c(2) unat_KiB [of "bi_usable bi"] u(1) by (simp add: word_le_nat_alt)
  then have n: "unat N \<le> 1024 * unat (bi_usable bi)" using unat_plus_simple [of A N] c(1) by simp
  then show "unat sz < 2 ^ 54" using N' round_up_bounds [of "2 ^ 12" "unat sz"] u(1) by simp
  have "unat (B2KiB N) \<le> unat (bi_usable bi)" using n by (simp add: B2KiB_def unat_div)
  then have us: "unat (bi_usable ?b) \<le> unat (bi_usable bi)" by (simp add: unat_sub_bounded word_le_nat_alt)
  have g: "grows ?b bi'" using bootinfo_add_mmap_grows(1) [OF u(2) b] .
  moreover have "grows bi ?b" using grows_cong [OF grows_refl] assms(1) by (simp add: boot_ok_def)
  ultimately show "grows bi bi'" by (rule grows_trans [rotated])
  have "bi_usable bi' = bi_usable ?b" "bi_watermark bi' = bi_watermark bi"
    using b by (auto simp: bootinfo_add_mmap_def bind_eq_Some_conv)
  then show "boot_ok bi'" "bi_watermark bi' = bi_watermark bi" using us u(1) g by (auto simp: boot_ok_def grows_def)
qed

section \<open>Marking reserved pages\<close>

abbreviation (input) pools :: "u64 set" where
  "pools \<equiv> {PGWM_DMA_POOL, PGWM_NORM_POOL, PGWM_HOLE_POOL, PGWM_HIGH_POOL}"

text \<open>
  A zone during initialisation: like \<^term>\<open>zone_ok\<close>, but without the condition on the kernel image,
  and with a bound on the reference counts, which is \<open>c + 1\<close> below index \<open>i\<close> and \<open>c\<close> from there on.
\<close>

definition zone_wf_at :: "nat \<Rightarrow> nat \<Rightarrow> zone \<Rightarrow> bool" where
  "zone_wf_at c i z \<longleftrightarrow>
     bitmap_inv (z_bitmap z) \<and> \<not> bm_lock (z_bitmap z) \<and> bm_size (z_bitmap z) = z_npages z \<and>
     length (z_parr z) = unat (z_npages z) \<and> z_npages z = NPAGE (z_size z) \<and>
     4096 dvd unat (z_start z) \<and> unat (z_start z) + unat (z_npages z) * 4096 < 2 ^ 63 \<and> accounted z \<and>
     (\<forall>k < unat (z_npages z). (k \<in> bits (z_bitmap z) \<longleftrightarrow> pg_refcnt (z_parr z ! k) \<noteq> 0) \<and>
        unat (pg_refcnt (z_parr z ! k)) \<le> (if k < i then c + 1 else c) \<and>
        (k \<notin> bits (z_bitmap z) \<longrightarrow> pg_watermark (z_parr z ! k) \<in> pools))"

abbreviation zone_wf :: "nat \<Rightarrow> zone \<Rightarrow> bool" where
  "zone_wf c \<equiv> zone_wf_at c 0"

definition same_extent :: "zone \<Rightarrow> zone \<Rightarrow> bool" where
  "same_extent z z' \<longleftrightarrow> z_start z' = z_start z \<and> z_size z' = z_size z \<and> z_npages z' = z_npages z \<and>
     z_flags z' = z_flags z \<and> z_lock z' = z_lock z"

lemma zone_wf_at_end: "zone_wf_at c i z \<Longrightarrow> zone_wf (c + 1) z"
  by (auto simp: zone_wf_at_def split: if_splits)

lemma zone_wf_mono: "zone_wf c z \<Longrightarrow> c \<le> d \<Longrightarrow> zone_wf d z"
  by (auto simp: zone_wf_at_def intro: order.trans)

lemma set_one_bit:
  assumes "bitmap_inv bm" "\<not> bm_lock bm" "unat i < unat (bm_size bm)"
  obtains r bm' where "bitmap_set bm i 1 = Some (r, bm')" "bitmap_inv bm'" "\<not> bm_lock bm'" "bm_size bm' = bm_size bm"
    "bits bm' = insert (unat i) (bits bm)"
proof -
  have r: "bit_range i 1 = {unat i}" by (auto simp: bit_range_def)
  have s: "unat i + unat (1 :: u64) \<le> unat (bm_size bm)" "unat i + unat (1 :: u64) < 2 ^ 64"
    using assms(3) unsigned_less [of "bm_size bm", where ?'a = nat] by simp_all
  show ?thesis
  proof (cases "unat i \<in> bits bm")
    case True
    then have "bitmap_set bm i 1 = Some (- EALREADY, bm)"
      using bitmap_range_errors(3) [OF assms(1,2) s(2,1)] r by simp
    then show ?thesis using that assms True by (simp add: insert_absorb)
  next
    case False
    then show ?thesis using that bitmap_set_in_range [OF assms(1,2) s(1)] r by auto
  qed
qed

lemma mark_page_spec:
  assumes "zone_wf_at c (unat i) z" "c + 1 < 2 ^ 64" "mark_page z i = Some z'"
  shows "zone_wf_at c (unat (i + 1)) z'" "same_extent z z'" "bits (z_bitmap z') = insert (unat i) (bits (z_bitmap z))"
    "unat (i + 1) = Suc (unat i)"
proof -
  note wf = assms(1) [unfolded zone_wf_at_def]
  define p where "p = z_parr z ! unat i"
  obtain r bm where set: "bitmap_set (z_bitmap z) i 1 = Some (r, bm)" and i: "unat i < unat (z_npages z)"
    and z': "z' = z\<lparr>z_bitmap := bm, z_parr := (z_parr z)[unat i :=
        p\<lparr>pg_flags := pg_flags p OR 3, pg_refcnt := pg_refcnt p + 1, pg_mapcnt := pg_mapcnt p + 1, pg_watermark := PGWM_RESERVED\<rparr>],
        z_upages := (if pg_refcnt p = 0 then z_upages z + 1 else z_upages z)\<rparr>"
    using assms(3) wf
    by (auto simp: mark_page_def bind_eq_Some_conv Let_def array_get_def array_set_def p_def split: if_splits)
  show s: "unat (i + 1) = Suc (unat i)" using i by (intro unat_Suc_less) (simp add: word_less_nat_alt)
  have bm: "bitmap_inv bm" "\<not> bm_lock bm" "bm_size bm = z_npages z" "bits bm = insert (unat i) (bits (z_bitmap z))"
    using set_one_bit [of "z_bitmap z" i] wf i set by auto
  show "bits (z_bitmap z') = insert (unat i) (bits (z_bitmap z))" using bm(4) z' by simp
  show "same_extent z z'" using z' by (simp add: same_extent_def)
  have pc: "unat (pg_refcnt p) \<le> c" "unat i \<in> bits (z_bitmap z) \<longleftrightarrow> pg_refcnt p \<noteq> 0" using wf i p_def by auto
  then have pn: "unat (pg_refcnt p + 1) = Suc (unat (pg_refcnt p))" using assms(2) by (simp add: unat_add_bounded)
  have up: "unat (z_upages z) = card (bits (z_bitmap z))" using wf by (simp add: accounted_def)
  have "card (bits (z_bitmap z)) \<le> unat (z_npages z)" using card_bits_le [of "z_bitmap z"] wf by simp
  moreover have "unat (z_start z) + unat (z_npages z) * 4096 < 2 ^ 63" using wf by blast
  ultimately have "unat (z_upages z) + 1 < 2 ^ 64" using up by simp
  then have "accounted z'"
    using pc(2) bm(4) z' up by (auto simp: accounted_def unat_add_bounded card_insert_if)
  have fields: "z_npages z' = z_npages z" "z_start z' = z_start z" "z_size z' = z_size z"
      "length (z_parr z') = length (z_parr z)" "z_bitmap z' = bm"
    using z' by simp_all
  have "pg_refcnt p + 1 \<noteq> 0" using pn by auto
  have "accounted z'" by fact
  moreover have "(k \<in> bits (z_bitmap z') \<longleftrightarrow> pg_refcnt (z_parr z' ! k) \<noteq> 0) \<and>
      unat (pg_refcnt (z_parr z' ! k)) \<le> (if k < unat (i + 1) then c + 1 else c) \<and>
      (k \<notin> bits (z_bitmap z') \<longrightarrow> pg_watermark (z_parr z' ! k) \<in> pools)" if k: "k < unat (z_npages z)" for k
  proof (cases "k = unat i")
    case True
    then show ?thesis using wf i z' bm(4) pn pc(1) s \<open>pg_refcnt p + 1 \<noteq> 0\<close> by simp
  next
    case False
    have "(k \<in> bits (z_bitmap z) \<longleftrightarrow> pg_refcnt (z_parr z ! k) \<noteq> 0) \<and>
        unat (pg_refcnt (z_parr z ! k)) \<le> (if k < unat i then c + 1 else c) \<and>
        (k \<notin> bits (z_bitmap z) \<longrightarrow> pg_watermark (z_parr z ! k) \<in> pools)"
      using wf k by blast
    then show ?thesis using False z' bm(4) s by (simp add: less_Suc_eq)
  qed
  then have "\<forall>k < unat (z_npages z). (k \<in> bits bm \<longleftrightarrow> pg_refcnt (z_parr z' ! k) \<noteq> 0) \<and>
      unat (pg_refcnt (z_parr z' ! k)) \<le> (if k < unat (i + 1) then c + 1 else c) \<and>
      (k \<notin> bits bm \<longrightarrow> pg_watermark (z_parr z' ! k) \<in> pools)" unfolding fields by blast
  ultimately show "zone_wf_at c (unat (i + 1)) z'"
    using wf bm(1-3) unfolding zone_wf_at_def fields by blast
qed

lemma same_extent_trans: "same_extent a b \<Longrightarrow> same_extent b c \<Longrightarrow> same_extent a c"
  by (simp add: same_extent_def)

lemma mark_loop_spec:
  assumes "zone_wf_at c (unat i) z" "c + 1 < 2 ^ 64" "mark_loop z i np = Some z'"
  shows "zone_wf (c + 1) z' \<and> same_extent z z' \<and> bits (z_bitmap z) \<subseteq> bits (z_bitmap z') \<and>
    (\<forall>k < unat np. unat i + k \<in> bits (z_bitmap z'))"
  using assms
proof (induction z i np rule: mark_loop.induct)
  case (1 z i np)
  show ?case
  proof (cases "np = 0")
    case True
    then have "z' = z" using 1(4) by (subst (asm) mark_loop.simps) simp
    then show ?thesis using zone_wf_at_end [OF 1(2)] True by (simp add: same_extent_def)
  next
    case False
    then obtain z1 where z1: "mark_page z i = Some z1" "mark_loop z1 (i + 1) (np - 1) = Some z'"
      using 1(4) by (subst (asm) mark_loop.simps) (auto simp: bind_eq_Some_conv)
    note st = mark_page_spec [OF 1(2,3) z1(1)]
    note ih = 1(1) [OF False z1(1) st(1) 1(3) z1(2)]
    have "unat i + k \<in> bits (z_bitmap z')" if "k < unat np" for k
    proof (cases k)
      case 0
      then show ?thesis using ih st(3) by auto
    next
      case (Suc l)
      then have "l < unat (np - 1)" using that False by (simp add: unat_minus_one)
      then show ?thesis using ih st(4) Suc by simp
    qed
    then show ?thesis using ih st(2,3) same_extent_trans by blast
  qed
qed

section \<open>The memory map\<close>

definition zone_base :: "nat \<Rightarrow> nat" where
  "zone_base w = (if w = 0 then 0 else if w = 1 then 0x1000000 else if w = 2 then 0x80000000 else 0x100000000)"

definition zone_cap :: "nat \<Rightarrow> nat" where
  "zone_cap w = (if w = 0 then 0x1000000 else if w = 1 then 0x80000000 else 2 ^ 63)"

definition zone_placed :: "nat \<Rightarrow> nat \<Rightarrow> zone \<Rightarrow> bool" where
  "zone_placed c w z \<longleftrightarrow> \<not> z_lock z \<and> (zone_isvalid z \<longrightarrow> zone_wf c z \<and> unat (z_start z) = zone_base w \<and>
     zone_base w + unat (z_npages z) * 4096 \<le> zone_cap w)"

definition zones_wf :: "nat \<Rightarrow> zone list \<Rightarrow> bool" where
  "zones_wf c zs \<longleftrightarrow> length zs = NZONE \<and> (\<forall>w < NZONE. zone_placed c w (zs ! w))"

text \<open>A region that has to be marked, and that all its pages are marked in one valid zone.\<close>

definition reserved :: "boot_mmap \<Rightarrow> bool" where
  "reserved m \<longleftrightarrow> \<not> (mm_addr m \<ge> V2HI MEMMIO \<or> mm_type m = MULTIBOOT_MEMORY_AVAILABLE)"

definition covered :: "zone list \<Rightarrow> boot_mmap \<Rightarrow> bool" where
  "covered zs m \<longleftrightarrow> (let ad = PGROUND (V2LO (mm_addr m)) in
     \<exists>w < NZONE. zone_isvalid (zs ! w) \<and> z_start (zs ! w) \<le> ad \<and>
       (\<forall>k < unat (NPAGE (mm_size m)). unat (NPAGE (ad - z_start (zs ! w))) + k \<in> bits (z_bitmap (zs ! w))))"

definition zones_le :: "zone list \<Rightarrow> zone list \<Rightarrow> bool" where
  "zones_le zs zs' \<longleftrightarrow> (\<forall>w < NZONE. z_start (zs' ! w) = z_start (zs ! w) \<and> z_flags (zs' ! w) = z_flags (zs ! w) \<and>
     bits (z_bitmap (zs ! w)) \<subseteq> bits (z_bitmap (zs' ! w)))"

lemma zones_le_refl: "zones_le zs zs"
  by (simp add: zones_le_def)

lemma zones_le_trans: "zones_le a b \<Longrightarrow> zones_le b c \<Longrightarrow> zones_le a c"
  by (force simp: zones_le_def)

lemma covered_mono:
  assumes "covered zs m" "zones_le zs zs'"
  shows "covered zs' m"
proof -
  let ?ad = "PGROUND (V2LO (mm_addr m))"
  obtain w where w: "w < NZONE" "zone_isvalid (zs ! w)" "z_start (zs ! w) \<le> ?ad"
      "\<forall>k < unat (NPAGE (mm_size m)). unat (NPAGE (?ad - z_start (zs ! w))) + k \<in> bits (z_bitmap (zs ! w))"
    using assms(1) by (auto simp: covered_def Let_def)
  have "z_start (zs' ! w) = z_start (zs ! w)" "z_flags (zs' ! w) = z_flags (zs ! w)"
      "bits (z_bitmap (zs ! w)) \<subseteq> bits (z_bitmap (zs' ! w))"
    using assms(2) w(1) by (simp_all add: zones_le_def)
  then show ?thesis using w unfolding covered_def Let_def by (intro exI [of _ w]) (auto simp: zone_isvalid_def)
qed

lemma getzone_scan_SomeD:
  "getzone_scan P zs = Some (Some (i, zs')) \<Longrightarrow> \<forall>z \<in> set zs. \<not> z_lock z \<Longrightarrow>
     i < length zs \<and> P ((zs ! i)\<lparr>z_lock := True\<rparr>) \<and> zs' = zs[i := (zs ! i)\<lparr>z_lock := True\<rparr>]"
proof (induction zs arbitrary: i zs')
  case (Cons z zs)
  show ?case
  proof (cases "P (z\<lparr>z_lock := True\<rparr>)")
    case True
    then show ?thesis using Cons(2,3) by auto
  next
    case False
    moreover have nl: "\<not> z_lock z" using Cons(3) by simp
    ultimately have "getzone_scan P (z # zs) = do { x \<leftarrow> getzone_scan P zs;
        Some (case x of None \<Rightarrow> None | Some (i, zs') \<Rightarrow> Some (Suc i, z # zs')) }"
      by simp
    then obtain j zs1 where j: "getzone_scan P zs = Some (Some (j, zs1))" "i = Suc j" "zs' = z # zs1"
      using Cons(2) by (cases "getzone_scan P zs") (auto split: option.splits)
    then show ?thesis using Cons(1) [OF j(1)] Cons(3) by simp
  qed
qed simp

lemma zone_wf_lock [simp]: "zone_wf_at c i (z\<lparr>z_lock := l\<rparr>) = zone_wf_at c i z"
  by (simp add: zone_wf_at_def accounted_def)

lemma zones_wf_mono: "zones_wf c zs \<Longrightarrow> c \<le> d \<Longrightarrow> zones_wf d zs"
  using zone_wf_mono by (auto simp: zones_wf_def zone_placed_def)

lemma zones_wf_update:
  assumes "zones_wf c zs" "c \<le> d" "zone_placed d w z"
  shows "zones_wf d (zs[w := z])"
  using zones_wf_mono [OF assms(1,2)] assms(3) unfolding zones_wf_def
  by (metis length_list_update nth_list_update_eq nth_list_update_neq)

lemma process_memory_map_spec:
  assumes "zones_wf c zs" "c + 1 < 2 ^ 64" "process_memory_map zs m = Some zs'"
  shows "zones_wf (c + 1) zs' \<and> zones_le zs zs' \<and> (reserved m \<longrightarrow> covered zs' m)"
proof (cases "reserved m")
  case False
  then have "zs' = zs" using assms(3) by (simp add: process_memory_map_def reserved_def)
  then show ?thesis using False zones_le_refl zones_wf_mono [OF assms(1)] by simp
next
  case True
  let ?ad = "PGROUND (V2LO (mm_addr m))"
  let ?P = "\<lambda>z. ?ad \<ge> z_start z \<and> zone_isvalid z \<and> ?ad + mm_size m \<le> z_start z + z_size z"
  have len: "length zs = 4" and unl: "\<forall>z \<in> set zs. \<not> z_lock z"
    using assms(1) by (auto simp: zones_wf_def zone_placed_def in_set_conv_nth)
  obtain i zs1 z1 z2 where g: "getzone_scan ?P zs = Some (Some (i, zs1))"
      and m: "mark_reserved_pages (zs1 ! i) ?ad (mm_size m) = Some z1" "zone_unlock z1 = Some z2" "zs' = zs1[i := z2]"
    using assms(3) True
    by (auto simp: process_memory_map_def reserved_def getzone_byaddr_def bind_eq_Some_conv Let_def split: option.splits)
  define z where "z = zs ! i"
  have i: "i < 4" "z_start z \<le> ?ad" "zone_isvalid z" and zs1: "zs1 = zs[i := z\<lparr>z_lock := True\<rparr>]"
    using getzone_scan_SomeD [OF g unl] len by (auto simp: z_def)
  have p: "zone_placed c i z" using assms(1) i(1) by (simp add: zones_wf_def z_def)
  then have "zone_wf_at c 0 (z\<lparr>z_lock := True\<rparr>)" using i(3) by (simp add: zone_placed_def)
  then have "zone_wf_at c (unat (NPAGE (?ad - z_start z))) (z\<lparr>z_lock := True\<rparr>)"
    by (auto simp: zone_wf_at_def)
  from mark_loop_spec [OF this assms(2)] m(1) zs1 i(1) len
  have z1: "zone_wf (c + 1) z1" "same_extent (z\<lparr>z_lock := True\<rparr>) z1" "bits (z_bitmap z) \<subseteq> bits (z_bitmap z1)"
      "\<forall>k < unat (NPAGE (mm_size m)). unat (NPAGE (?ad - z_start z)) + k \<in> bits (z_bitmap z1)"
    by (auto simp: mark_reserved_pages_def)
  have z2: "z2 = z1\<lparr>z_lock := False\<rparr>" using m(2) z1(2) by (simp add: same_extent_def)
  have "zone_isvalid z2" "zone_placed (c + 1) i z2" "z_start z2 = z_start z" "z_flags z2 = z_flags z"
    using z1(1,2) p i(3) by (auto simp: z2 zone_placed_def same_extent_def zone_isvalid_def)
  moreover have zs': "zs' = zs[i := z2]" using m(3) zs1 by simp
  ultimately have "zones_wf (c + 1) zs'" "zones_le zs zs'"
    using zones_wf_update [OF assms(1), of "c + 1" i z2] z1(3) len i(1)
    by (auto simp: zones_le_def nth_list_update z_def z2)
  moreover have "covered zs' m"
    using i(1,2) z1(4) \<open>zone_isvalid z2\<close> \<open>z_start z2 = z_start z\<close> len
    by (auto simp: covered_def Let_def zs' z2 intro!: exI [of _ i])
  ultimately show ?thesis by simp
qed

lemma process_maps_spec:
  assumes "zones_wf c zs" "c + length ms < 2 ^ 64" "process_maps zs ms = Some zs'"
  shows "zones_wf (c + length ms) zs' \<and> zones_le zs zs' \<and> (\<forall>m \<in> set ms. reserved m \<longrightarrow> covered zs' m)"
  using assms
proof (induction ms arbitrary: zs c)
  case Nil
  then show ?case by (simp add: zones_le_refl)
next
  case (Cons m ms)
  then obtain zs1 where zs1: "process_memory_map zs m = Some zs1" "process_maps zs1 ms = Some zs'"
    by (auto simp: bind_eq_Some_conv)
  have st: "zones_wf (c + 1) zs1 \<and> zones_le zs zs1 \<and> (reserved m \<longrightarrow> covered zs1 m)"
    using process_memory_map_spec [OF Cons(2) _ zs1(1)] Cons(3) by simp
  then have ih: "zones_wf (c + 1 + length ms) zs' \<and> zones_le zs1 zs' \<and> (\<forall>m \<in> set ms. reserved m \<longrightarrow> covered zs' m)"
    using Cons(1) [of "c + 1" zs1] Cons(3) zs1(2) by simp
  then show ?case using st zones_le_trans covered_mono by (auto simp: add.commute add.left_commute)
qed

section \<open>Setting up the zones\<close>

lemma NPAGE_bounds: "unat (NPAGE p) \<le> 2 ^ 52" "p \<noteq> 0 \<Longrightarrow> 0 < unat (NPAGE p)"
proof -
  have "unat p < 2 ^ 64" using unsigned_less [of p, where ?'a = nat] by simp
  then have "(unat p + 4095) div 4096 < 2 ^ 52 + 1" by (intro div_less_iff_less_mult [THEN iffD2]) simp_all
  then show "unat (NPAGE p) \<le> 2 ^ 52" unfolding unat_NPAGE by simp
  show "0 < unat (NPAGE p)" if "p \<noteq> 0"
    using that unat_gt_0 [of p] unfolding unat_NPAGE by (intro div_greater_zero_iff [THEN iffD2]) simp
qed

lemma buffer_sizes:
  assumes "unat n \<le> 2 ^ 52"
  shows "unat (PGROUNDUP ((n + 64 - 1) div 64 * 8)) + 4096 < 2 ^ 64"
    "unat (PGROUNDUP (n * PAGE_T)) + 4096 < 2 ^ 64" "unat n * 40 \<le> unat (PGROUNDUP (n * PAGE_T))"
proof -
  have "n + 64 - 1 = n + 63" by (simp add: add.commute)
  then have "unat ((n + 64 - 1) div 64) = (unat n + 63) div 64" using assms by (simp add: unat_div unat_add_bounded)
  moreover have "(unat n + 63) div 64 \<le> unat n + 63" by simp
  ultimately have "unat ((n + 64 - 1) div 64) * 8 \<le> 2 ^ 56" using assms by simp
  then have a: "unat ((n + 64 - 1) div 64 * 8) \<le> 2 ^ 56" by (simp add: unat_word_ariths)
  have b: "unat (n * 40) = unat n * 40" using assms by (simp add: unat_word_ariths)
  show "unat (PGROUNDUP ((n + 64 - 1) div 64 * 8)) + 4096 < 2 ^ 64"
    using a PGROUNDUP_ge [of "(n + 64 - 1) div 64 * 8"] by simp
  show "unat (PGROUNDUP (n * PAGE_T)) + 4096 < 2 ^ 64" "unat n * 40 \<le> unat (PGROUNDUP (n * PAGE_T))"
    using b assms PGROUNDUP_ge [of "n * 40"] by simp_all
qed

lemma zone_watermark_pool: "zone_watermark idx \<in> pools"
  by (simp add: zone_watermark_def)

lemma zone_alloc_buffers_spec:
  assumes "boot_ok bi" "zone_alloc_buffers bi idx z = Some (0, bi', z')"
    and "z_npages z = NPAGE (z_size z)" "z_upages z = 0" "unat (z_start z) \<le> 2 ^ 33" "4096 dvd unat (z_start z)"
    and "\<not> zone_isvalid z"
  shows "grows bi bi' \<and> boot_ok bi' \<and> z_lock z' = z_lock z \<and> z_start z' = z_start z \<and> z_size z' = z_size z \<and>
    z_npages z' = z_npages z \<and> (zone_isvalid z' \<longrightarrow> zone_wf 0 z')"
proof (cases "z_size z = 0")
  case True
  then have "z' = z" "bi' = bi" using assms(2) by (simp_all add: zone_alloc_buffers_def)
  then show ?thesis using assms(1,7) grows_refl by (simp add: boot_ok_def)
next
  case False
  let ?n = "z_npages z"
  define p where "p = \<lparr>pg_flags = 0, pg_refcnt = 0, pg_mapcnt = 0, pg_icache = NULL, pg_watermark = zone_watermark idx\<rparr>"
  obtain a1 b1 bm a2 where b: "boot_alloc bi (PGROUNDUP ((?n + 64 - 1) div 64 * 8)) PGSZ = Some (a1, b1)"
      "bitmap_init (Some (z_bitmap z)) (Some (replicate (unat (num_units ?n)) 0)) ?n = Some (0, Some bm)"
      "boot_alloc b1 (PGROUNDUP (?n * PAGE_T)) PGSZ = Some (a2, bi')"
      "z' = z\<lparr>z_bitmap := bm, z_pages := a2, z_parr := replicate (unat ?n) p, z_flags := z_flags z OR ZONE_VALID\<rparr>"
    using assms(2) False
    by (auto simp: zone_alloc_buffers_def bind_eq_Some_conv Let_def p_def split: if_splits)
  have n: "unat ?n \<le> 2 ^ 52" "0 < unat ?n" using NPAGE_bounds [of "z_size z"] assms(3) False by simp_all
  note sz = buffer_sizes [OF n(1)]
  note a1 = boot_alloc_page [OF assms(1) sz(1) b(1)]
  note a2 = boot_alloc_page [OF a1(2) sz(2) b(3)]
  have "unat ?n * 40 < 2 ^ 54" using sz(3) a2(3) by simp
  then have ext: "unat (z_start z) + unat ?n * 4096 < 2 ^ 63" using assms(5) by simp
  have "unat (num_units ?n) = (unat ?n + 63) div 64" using unat_num_units [of ?n] n(1) by simp
  then have bm: "bitmap_inv bm" "\<not> bm_lock bm" "bm_size bm = ?n" "bits bm = {}"
    using bitmap_init_spec [of ?n "replicate (unat (num_units ?n)) 0" "z_bitmap z"] n b(2)
    by (auto simp: word_less_nat_alt)
  have "zone_wf 0 z'"
    using bm ext assms(3,4,6) b(4) zone_watermark_pool [of idx] by (simp add: zone_wf_at_def accounted_def p_def)
  then show ?thesis using b(4) a2(2) grows_trans [OF a1(1) a2(1)] by simp
qed

text \<open>The zones below index \<open>n\<close> are set up.\<close>

definition zones_upto :: "nat \<Rightarrow> zone list \<Rightarrow> bool" where
  "zones_upto n zs \<longleftrightarrow> length zs = NZONE \<and> (\<forall>w < n. zone_placed 0 w (zs ! w))"

lemma NPAGE_le: "unat sz \<le> m * 4096 \<Longrightarrow> unat (NPAGE sz) \<le> m"
proof -
  assume "unat sz \<le> m * 4096"
  then have "(unat sz + 4095) div 4096 < m + 1" by (intro div_less_iff_less_mult [THEN iffD2]) simp_all
  then show ?thesis unfolding unat_NPAGE by simp
qed

lemma unat_KiB_le: "memsz \<le> n \<Longrightarrow> unat n < 2 ^ 54 \<Longrightarrow> unat (KiB memsz) \<le> 1024 * unat n"
  by (simp add: word_le_nat_alt unat_KiB)

lemma zone_extent_spec:
  assumes "zone_extent bi w memsz = Some (ad, sz)"
  shows "w < NZONE" "unat ad = zone_base w" "w < 2 \<Longrightarrow> zone_base w + unat (NPAGE sz) * 4096 \<le> zone_cap w"
proof -
  show "w < NZONE" "unat ad = zone_base w"
    using assms by (auto simp: zone_extent_def zone_base_def split: if_splits)
  assume "w < 2"
  then consider "w = 0" | "w = 1" by linarith
  then show "zone_base w + unat (NPAGE sz) * 4096 \<le> zone_cap w"
  proof cases
    case 1
    then have "unat sz \<le> 0x1000 * 4096"
      using assms unat_KiB_le [of memsz "0x4000"] by (auto simp: zone_extent_def split: if_splits)
    then show ?thesis using NPAGE_le [of sz "0x1000"] 1 by (simp add: zone_base_def zone_cap_def)
  next
    case 2
    then have "unat sz \<le> 0x7F000 * 4096"
      using assms unat_KiB_le [of memsz "0x1FC000"] by (auto simp: zone_extent_def split: if_splits)
    then show ?thesis using NPAGE_le [of sz "0x7F000"] 2 by (simp add: zone_base_def zone_cap_def)
  qed
qed

lemma zone_base_le: "zone_base w \<le> 2 ^ 33" "4096 dvd zone_base w"
  by (auto simp: zone_base_def)

lemma zone_set_address_range_spec:
  assumes "boot_ok bi" "zone_set_address_range bi zs w ad sz = Some (0, bi', zs')" "w < length zs"
    and "\<not> zone_isvalid (zs ! w)" "z_upages (zs ! w) = 0" "z_lock (zs ! w)" "unat ad = zone_base w"
    and "w < 2 \<Longrightarrow> zone_base w + unat (NPAGE sz) * 4096 \<le> zone_cap w"
  shows "grows bi bi' \<and> boot_ok bi' \<and> (\<exists>z. zs' = zs[w := z] \<and> z_lock z \<and> zone_placed 0 w (z\<lparr>z_lock := False\<rparr>))"
proof -
  let ?z = "(zs ! w)\<lparr>z_start := ad, z_size := sz, z_npages := NPAGE sz\<rparr>"
  obtain z where z: "zone_alloc_buffers bi w ?z = Some (0, bi', z)" "zs' = zs[w := z]"
    using assms(2) by (auto simp: zone_set_address_range_def bind_eq_Some_conv Let_def split: if_splits)
  have "\<not> zone_isvalid ?z" using assms(4) by (simp add: zone_isvalid_def)
  then have sp: "grows bi bi' \<and> boot_ok bi' \<and> z_lock z = z_lock (zs ! w) \<and> z_start z = ad \<and> z_size z = sz \<and>
      z_npages z = NPAGE sz \<and> (zone_isvalid z \<longrightarrow> zone_wf 0 z)"
    using zone_alloc_buffers_spec [OF assms(1) z(1)] assms(5,7) zone_base_le [of w] by simp
  have "zone_base w + unat (NPAGE sz) * 4096 \<le> zone_cap w" if "zone_wf 0 z"
    using that assms(7,8) sp by (cases "w < 2") (auto simp: zone_wf_at_def zone_cap_def)
  then have "zone_placed 0 w (z\<lparr>z_lock := False\<rparr>)" using sp assms(7) by (simp add: zone_placed_def)
  then show ?thesis using sp z(2) assms(6) by blast
qed

lemma initialize_memory_zone_spec:
  assumes "boot_ok bi" "zones_upto w zs" "w < NZONE" "initialize_memory_zone bi zs w memsz = Some (0, bi', zs', memsz')"
  shows "grows bi bi' \<and> boot_ok bi' \<and> zones_upto (Suc w) zs'"
proof -
  let ?z = "initialize_zone_struct\<lparr>z_lock := True\<rparr>"
  have i: "zone_lock initialize_zone_struct = Some ?z" "\<not> zone_isvalid ?z" "z_upages ?z = 0"
    by (simp_all add: initialize_zone_struct_def zone_isvalid_def)
  have len: "length zs = NZONE" using assms(2) by (simp add: zones_upto_def)
  have keep: "zones_upto (Suc w) (zs[w := z])" if "zone_placed 0 w z" for z
    using that assms(2,3) len unfolding zones_upto_def less_Suc_eq
    by (metis length_list_update nth_list_update_eq nth_list_update_neq)
  show ?thesis
  proof (cases "memsz = 0")
    case True
    then have "bi' = bi" "zs' = zs[w := initialize_zone_struct]"
      using assms(3,4) i(1) len by (auto simp: initialize_memory_zone_def initialize_zone_struct_def)
    moreover have "zone_placed 0 w initialize_zone_struct"
      by (simp add: zone_placed_def initialize_zone_struct_def zone_isvalid_def)
    ultimately show ?thesis using keep assms(1) grows_refl by (simp add: boot_ok_def)
  next
    case False
    then obtain ad sz zs1 z1 where e: "zone_extent bi w memsz = Some (ad, sz)"
        "zone_set_address_range bi (zs[w := ?z]) w ad sz = Some (0, bi', zs1)"
      and u: "zone_unlock (zs1 ! w) = Some z1" "zs' = zs1[w := z1]"
      using assms(3,4) i(1) len
      by (auto simp: initialize_memory_zone_def zone_enumerate_def bind_eq_Some_conv Let_def split: option.splits if_splits)
    have wl: "w < length (zs[w := ?z])" "(zs[w := ?z]) ! w = ?z" using assms(3) len by simp_all
    obtain z where z: "grows bi bi'" "boot_ok bi'" "zs1 = zs[w := z]" "z_lock z" "zone_placed 0 w (z\<lparr>z_lock := False\<rparr>)"
      using zone_set_address_range_spec [OF assms(1) e(2) wl(1)] i(2,3) wl(2) zone_extent_spec [OF e(1)] by auto
    then have "zs' = zs[w := z\<lparr>z_lock := False\<rparr>]" using u assms(3) len by simp
    then show ?thesis using z keep by simp
  qed
qed

lemma init_zones_spec:
  assumes "boot_ok bi" "zones_upto w zs" "init_zones bi zs memsz [w..<NZONE] = Some (0, bi', zs')" "w \<le> NZONE"
  shows "grows bi bi' \<and> boot_ok bi' \<and> zones_upto NZONE zs'"
  using assms
proof (induction "NZONE - w" arbitrary: w bi zs memsz)
  case 0
  then show ?case using grows_refl by (simp add: boot_ok_def)
next
  case (Suc n)
  then have w: "w < NZONE" by simp
  then obtain b1 zs1 m1 where s: "initialize_memory_zone bi zs w memsz = Some (0, b1, zs1, m1)"
      "init_zones b1 zs1 m1 [Suc w..<NZONE] = Some (0, bi', zs')"
    using Suc.prems(3) by (auto simp: upt_conv_Cons bind_eq_Some_conv split: if_splits)
  note st = initialize_memory_zone_spec [OF Suc.prems(1,2) w s(1)]
  have "n = NZONE - Suc w" using Suc.hyps(2) by simp
  from Suc.hyps(1) [OF this _ _ s(2)] st w have "grows b1 bi' \<and> boot_ok bi' \<and> zones_upto NZONE zs'" by simp
  then show ?case using st grows_trans by blast
qed

section \<open>The invariant holds after initialisation\<close>

text \<open>The kernel image: page aligned, in the higher half, and below 2 GiB in physical memory.\<close>

definition kernel_placed :: "bootinfo \<Rightarrow> bool" where
  "kernel_placed bi \<longleftrightarrow> VMA_BASE \<le> kern_base bi \<and> 4096 dvd unat (V2LO (kern_base bi)) \<and>
     unat (V2LO (kern_base bi)) + unat (kern_size bi) \<le> 0x80000000"

lemma zone_wfD:
  assumes "zone_wf c z"
  shows "bitmap_inv (z_bitmap z)" "\<not> bm_lock (z_bitmap z)" "bm_size (z_bitmap z) = z_npages z"
    "length (z_parr z) = unat (z_npages z)" "4096 dvd unat (z_start z)"
    "unat (z_start z) + unat (z_npages z) * 4096 < 2 ^ 63" "accounted z"
    "\<forall>k < unat (z_npages z). k \<in> bits (z_bitmap z) \<longleftrightarrow> pg_refcnt (z_parr z ! k) \<noteq> 0"
    "\<forall>k < unat (z_npages z). k \<notin> bits (z_bitmap z) \<longrightarrow> pg_watermark (z_parr z ! k) \<in> pools"
  using assms unfolding zone_wf_at_def by blast+

lemma zone_wf_frame:
  assumes "zone_wf c z" "i < unat (z_npages z)"
  shows "unat (z_start z + of_nat i * 4096) = unat (z_start z) + i * 4096"
    "unat (z_start z) + i * 4096 + 4096 < 2 ^ 63"
proof -
  have b: "unat (z_start z) + unat (z_npages z) * 4096 < 2 ^ 63" by (rule zone_wfD [OF assms(1)])
  then show "unat (z_start z) + i * 4096 + 4096 < 2 ^ 63" using assms(2) by linarith
  show "unat (z_start z + of_nat i * 4096) = unat (z_start z) + i * 4096"
    using page_addr_unat [of "z_start z" "unat (z_npages z)" i] b assms(2) by simp
qed

lemma kernel_addr_nat:
  assumes "kernel_placed bi" "is_kernel_addr bi (f + VMA_BASE)" "unat f < 2 ^ 63"
  shows "unat (V2LO (kern_base bi)) \<le> unat f \<and> unat f < unat (V2LO (kern_base bi)) + unat (kern_size bi)"
proof -
  let ?kb = "unat (V2LO (kern_base bi))"
  have "unat (VMA_BASE) \<le> unat (kern_base bi)" using assms(1) by (simp add: kernel_placed_def word_le_nat_alt)
  then have kb: "unat (kern_base bi) = ?kb + 0xFFFF800000000000"
    using assms(1) by (simp add: V2LO_def unat_sub_bounded kernel_placed_def)
  have lim: "?kb + unat (kern_size bi) \<le> 0x80000000" using assms(1) by (simp add: kernel_placed_def)
  then have "unat (kern_base bi + kern_size bi) = ?kb + 0xFFFF800000000000 + unat (kern_size bi)"
    using kb by (simp add: unat_add_bounded)
  then have k: "?kb + 0xFFFF800000000000 \<le> unat (f + VMA_BASE)"
      "unat (f + VMA_BASE) < ?kb + 0xFFFF800000000000 + unat (kern_size bi)"
    using assms(2) kb by (simp_all add: is_kernel_addr_def word_le_nat_alt word_less_nat_alt)
  have "unat f < 2 ^ 47"
  proof (rule ccontr)
    assume "\<not> unat f < 2 ^ 47"
    then have "unat (f + VMA_BASE) = unat f + 0xFFFF800000000000 - 2 ^ 64"
      using assms(3) by (simp add: unat_word_ariths mod_if)
    then show False using k(1) assms(3) by simp
  qed
  then have "unat (f + VMA_BASE) = unat f + 0xFFFF800000000000" by (simp add: unat_add_bounded)
  then show ?thesis using k by simp
qed

lemma PGROUND_aligned: "4096 dvd unat p \<Longrightarrow> PGROUND p = p"
  using unat_PGROUND [of p] by (simp add: word_unat_eq_iff)

lemma zone_disjoint:
  assumes "v < NZONE" "w < NZONE" "zone_base v \<le> f" "f < zone_cap v" "zone_base w \<le> f" "f < zone_cap w" "f < 0x80000000"
  shows "v = w"
  using assms by (auto simp: zone_base_def zone_cap_def split: if_splits)

text \<open>A frame of a valid zone that lies in the kernel image is marked as used.\<close>

lemma kernel_frame_used:
  assumes "zones_wf c zs" "covered zs m" "mm_addr m = kern_base bi" "mm_size m = kern_size bi" "kernel_placed bi"
    and "w < NZONE" "zone_isvalid (zs ! w)" "i < unat (z_npages (zs ! w))"
    and "is_kernel_addr bi (z_start (zs ! w) + of_nat i * PGSZ + VMA_BASE)"
  shows "i \<in> bits (z_bitmap (zs ! w))"
proof -
  define kb where "kb = unat (V2LO (kern_base bi))"
  define sz where "sz = unat (kern_size bi)"
  have al: "PGROUND (V2LO (kern_base bi)) = V2LO (kern_base bi)" "4096 dvd kb" "kb + sz \<le> 0x80000000"
    using assms(5) PGROUND_aligned by (simp_all add: kernel_placed_def kb_def sz_def)
  have pl: "zone_wf c z \<and> unat (z_start z) = zone_base v \<and> zone_base v + unat (z_npages z) * 4096 \<le> zone_cap v"
    if "v < NZONE" "zone_isvalid z" "z = zs ! v" for v z
    using that assms(1) by (auto simp: zones_wf_def zone_placed_def)
  define f where "f = zone_base w + i * 4096"
  have wz: "zone_wf c (zs ! w)" "unat (z_start (zs ! w)) = zone_base w"
      "zone_base w + unat (z_npages (zs ! w)) * 4096 \<le> zone_cap w"
    using pl [OF assms(6,7) refl] by simp_all
  have f: "unat (z_start (zs ! w) + of_nat i * 4096) = f" "f + 4096 < 2 ^ 63"
    using zone_wf_frame [OF wz(1) assms(8)] wz(2) by (simp_all add: f_def)
  have kf: "kb \<le> f" "f < kb + sz"
    using kernel_addr_nat [OF assms(5,9)] f by (simp_all add: kb_def sz_def)
  obtain v where v: "v < NZONE" "zone_isvalid (zs ! v)" "z_start (zs ! v) \<le> V2LO (kern_base bi)"
      "\<forall>k < unat (NPAGE (kern_size bi)). unat (NPAGE (V2LO (kern_base bi) - z_start (zs ! v))) + k \<in> bits (z_bitmap (zs ! v))"
    using assms(2-4) al(1) by (auto simp: covered_def Let_def)
  have vz: "zone_wf c (zs ! v)" "unat (z_start (zs ! v)) = zone_base v"
      "zone_base v + unat (z_npages (zs ! v)) * 4096 \<le> zone_cap v"
    using pl [OF v(1,2) refl] by simp_all
  have bv: "zone_base v \<le> kb" using v(3) vz(2) by (simp add: word_le_nat_alt kb_def)
  have "unat (V2LO (kern_base bi) - z_start (zs ! v)) = kb - zone_base v"
    using v(3) vz(2) by (simp add: unat_sub_bounded kb_def)
  moreover have dv: "4096 dvd kb - zone_base v" using al(2) zone_base_le(2) by simp
  ultimately have idx: "unat (NPAGE (V2LO (kern_base bi) - z_start (zs ! v))) = (kb - zone_base v) div 4096"
    unfolding unat_NPAGE by (simp add: ceil_page)
  define q where "q = (kb - zone_base v) div 4096"
  define d where "d = (f - kb) div 4096"
  have q: "kb = zone_base v + q * 4096" using dv bv by (simp add: q_def)
  have "d + 1 = (f - kb + 4096) div 4096" by (simp add: d_def)
  also have "\<dots> \<le> (sz + 4095) div 4096" using kf by (intro div_le_mono) simp
  finally have "d < unat (NPAGE (kern_size bi))" unfolding unat_NPAGE sz_def by simp
  then have qd: "q + d \<in> bits (z_bitmap (zs ! v))" using v(4) idx by (simp add: q_def)
  have "4096 dvd f - kb" using al(2) zone_base_le(2) by (simp add: f_def)
  then have fd: "f = zone_base v + (q + d) * 4096" using kf(1) q by (simp add: d_def algebra_simps)
  have "q + d < unat (z_npages (zs ! v))" using bits_less [OF qd] zone_wfD(3) [OF vz(1)] by simp
  then have "f < zone_cap v" using fd vz(3) by simp
  moreover have "f < zone_cap w" using wz(3) assms(8) by (simp add: f_def)
  ultimately have "v = w"
    using zone_disjoint [OF v(1) assms(6), of f] fd kf al(3) by (simp add: f_def)
  then have "i = q + d" using fd unfolding f_def by simp
  then show ?thesis using qd \<open>v = w\<close> by simp
qed

text \<open>
  After initialisation the allocator's invariant holds: the frames of each zone that are free may be
  handed out.
\<close>

lemma zone_ok_initial:
  assumes "zones_wf c zs" "covered zs m" "mm_addr m = kern_base bi" "mm_size m = kern_size bi" "kernel_placed bi"
    and "w < NZONE" "zone_isvalid (zs ! w)"
  shows "zone_ok bi (zs ! w)"
proof -
  let ?z = "zs ! w"
  have wf: "zone_wf c ?z" using assms(1,6,7) by (simp add: zones_wf_def zone_placed_def)
  have kb: "0xFFFF800000000000 \<le> unat (kern_base bi)"
    using assms(5) by (simp add: kernel_placed_def word_le_nat_alt)
  have "frame_ok bi (z_start ?z) i (z_parr ?z ! i)" if i: "i < unat (z_npages ?z)" "i \<notin> bits (z_bitmap ?z)" for i
  proof -
    note f = zone_wf_frame [OF wf i(1)]
    have "unat (z_start ?z + of_nat i * PGSZ + PGSZ) = unat (z_start ?z) + i * 4096 + 4096"
      using f by (simp add: unat_add_bounded)
    then have "\<not> OVERLAPS (z_start ?z + of_nat i * PGSZ) PGSZ (kern_base bi) (kern_size bi)"
      using kb f(2) by (simp add: OVERLAPS_def word_less_nat_alt)
    moreover have "\<not> is_kernel_addr bi (z_start ?z + of_nat i * PGSZ + VMA_BASE)"
      using kernel_frame_used [OF assms i(1)] i(2) by blast
    ultimately show ?thesis using zone_wfD(9) [OF wf] i unfolding frame_ok_def by blast
  qed
  then show ?thesis using zone_wfD [OF wf] unfolding zone_ok_def by (auto intro: less_trans)
qed

text \<open>C8: If \<^verbatim>\<open>zones_init\<close> succeeds, the invariant of the page allocator holds for the zones it sets
  up, every zone's count of used pages agrees with its bitmap, and every page of every reserved
  region, the regions that the early allocator added on the way included, is marked as used in its
  zone; so neither the kernel image nor the allocator's own tables can be handed out.\<close>

theorem zones_init_establishes:
  assumes "boot_ok bi" "length zs = NZONE" "kernel_placed bi"
    and "\<lparr>mm_addr = kern_base bi, mm_size = kern_size bi, mm_type = MULTIBOOT_MEMORY_RESERVED\<rparr> \<in> set (regions bi)"
    and "zones_init bi zs = Some (0, bi', zs')"
  shows "pmm_inv bi' \<lparr>pm_zones = zs', pm_ram = ram\<rparr> \<and> (\<forall>z \<in> set zs'. zone_isvalid z \<longrightarrow> accounted z) \<and>
    (\<exists>rs. regions bi' = regions bi @ rs) \<and> (\<forall>m \<in> set (regions bi'). reserved m \<longrightarrow> covered zs' m)"
proof -
  let ?k = "\<lparr>mm_addr = kern_base bi, mm_size = kern_size bi, mm_type = MULTIBOOT_MEMORY_RESERVED\<rparr>"
  obtain b1 zs1 where z: "init_zones bi zs (bi_memtotal bi) [0..<NZONE] = Some (0, b1, zs1)"
      "process_maps zs1 (regions b1) = Some zs'" "bi' = b1\<lparr>bi_watermark := BOOT_ALLOC_WATERMARK\<rparr>"
    using assms(5) by (auto simp: zones_init_def bind_eq_Some_conv split: if_splits)
  have i: "grows bi b1" "boot_ok b1" "zones_upto NZONE zs1"
    using init_zones_spec [OF assms(1) _ z(1)] assms(2) by (simp_all add: zones_upto_def)
  have g: "grows bi bi'" using i(1) z(3) by (auto intro: grows_cong)
  have "length (regions b1) \<le> 72" using i(2) by (simp add: regions_def boot_ok_def table_ok_def)
  then obtain c where p: "zones_wf c zs'" "\<forall>m \<in> set (regions b1). reserved m \<longrightarrow> covered zs' m"
    using process_maps_spec [OF _ _ z(2), of 0] i(3) by (auto simp: zones_wf_def zones_upto_def)
  have "unat (V2LO (kern_base bi)) = unat (kern_base bi) - 0xFFFF800000000000"
      "unat (V2LO (kern_base bi)) \<le> 0x80000000"
    using assms(3) unat_sub_bounded [of VMA_BASE "kern_base bi"] by (simp_all add: kernel_placed_def V2LO_def)
  then have "unat (kern_base bi) < unat (V2HI MEMMIO)" using unat_V2HI [of MEMMIO] by simp
  then have "reserved ?k" by (simp add: reserved_def word_le_nat_alt)
  moreover have r: "regions bi' = regions b1" "kern_base bi' = kern_base bi" "kern_size bi' = kern_size bi"
    using z(3) i(1) by (simp_all add: regions_def grows_def)
  ultimately have "covered zs' ?k" using p(2) g assms(4) by (auto simp: grows_def)
  moreover have "kernel_placed bi'" using assms(3) r by (simp add: kernel_placed_def)
  ultimately have ok: "zone_ok bi' (zs' ! w)" if "w < NZONE" "zone_isvalid (zs' ! w)" for w
    using zone_ok_initial [OF p(1)] r that by auto
  have "pmm_inv bi' \<lparr>pm_zones = zs', pm_ram = ram\<rparr>"
    using p(1) ok by (auto simp: pmm_inv_def zones_wf_def zone_placed_def in_set_conv_nth)
  moreover have "\<forall>z \<in> set zs'. zone_isvalid z \<longrightarrow> accounted z"
    using p(1) zone_wfD(7) [of c] by (auto simp: zones_wf_def zone_placed_def in_set_conv_nth)
  ultimately show ?thesis using p(2) r g by (auto simp: grows_def)
qed

section \<open>Initialisation of a small machine\<close>

text \<open>A machine with 16 KiB of memory whose first page holds the kernel.\<close>

definition small_boot :: bootinfo where
  "small_boot = zero_bootinfo\<lparr>bi_memtotal := 16, bi_usable := 16, bi_phyaddr := 0x1000,
     bi_mmap := \<lparr>mm_addr = VMA_BASE, mm_size = 0x1000, mm_type = MULTIBOOT_MEMORY_RESERVED\<rparr> # replicate 71 zero_mmap,
     bi_mmapcnt := 1, kern_base := VMA_BASE, kern_size := 0x1000\<rparr>"

lemma small_init: "map_option fst (zones_init small_boot (replicate 4 initialize_zone_struct)) = Some 0"
  by code_simp

theorem zones_init_establishes_witness:
  "\<exists>bi' zs'. zones_init small_boot (replicate 4 initialize_zone_struct) = Some (0, bi', zs') \<and>
     pmm_inv bi' \<lparr>pm_zones = zs', pm_ram = (\<lambda>_. 0)\<rparr>"
proof -
  obtain bi' zs' where z: "zones_init small_boot (replicate 4 initialize_zone_struct) = Some (0, bi', zs')"
    using small_init by (auto simp: map_option_case split: option.splits)
  have "boot_ok small_boot" "kernel_placed small_boot"
    by (simp_all add: boot_ok_def table_ok_def kernel_placed_def small_boot_def V2LO_def)
  then show ?thesis
    using z zones_init_establishes [OF _ _ _ _ z, of "\<lambda>_. 0"] by (simp add: small_boot_def regions_def)
qed

end
