(* ===== verification/Dll.thy ===== *)
theory Dll
  imports Prelude
begin

text \<open>
  Doubly linked chains of queue nodes, the data structure under
  \<^verbatim>\<open>src/src/kernel/ds/queue/queue.c\<close> and \<^verbatim>\<open>src/src/kernel/ds/queue/embedded.c\<close>
  (\<^verbatim>\<open>queue_node_t\<close> of \<^verbatim>\<open>include/ds/queue.h\<close>).  The heap maps addresses to nodes;
  dereferencing null or an address that holds no node is \<^term>\<open>None\<close>.  \<open>dll h b ps e\<close> says
  that the nodes \<open>ps\<close> form a chain in \<open>h\<close> whose first back link is \<open>b\<close> and whose last forward
  link is \<open>e\<close>.  The lemmas say what the elementary pointer updates do to such a chain.
\<close>

section \<open>Nodes and elementary accesses\<close>

record queue_node =
  qn_prev :: addr
  qn_data :: addr
  qn_next :: addr

type_synonym node_heap = "addr \<Rightarrow> queue_node option"

definition load :: "node_heap \<Rightarrow> addr \<Rightarrow> queue_node option" where
  "load h p = (if p = NULL then None else h p)"

definition set_prev :: "node_heap \<Rightarrow> addr \<Rightarrow> addr \<Rightarrow> node_heap option" where
  "set_prev h p v = do { n \<leftarrow> load h p; Some (h(p \<mapsto> n\<lparr>qn_prev := v\<rparr>)) }"

definition set_next :: "node_heap \<Rightarrow> addr \<Rightarrow> addr \<Rightarrow> node_heap option" where
  "set_next h p v = do { n \<leftarrow> load h p; Some (h(p \<mapsto> n\<lparr>qn_next := v\<rparr>)) }"

definition set_data :: "node_heap \<Rightarrow> addr \<Rightarrow> addr \<Rightarrow> node_heap option" where
  "set_data h p v = do { n \<leftarrow> load h p; Some (h(p \<mapsto> n\<lparr>qn_data := v\<rparr>)) }"

text \<open>\<^verbatim>\<open>if (p) p->next = v;\<close> and \<^verbatim>\<open>if (p) p->prev = v;\<close>\<close>

definition link_next :: "node_heap \<Rightarrow> addr \<Rightarrow> addr \<Rightarrow> node_heap option" where
  "link_next h p v = (if p \<noteq> NULL then set_next h p v else Some h)"

definition link_prev :: "node_heap \<Rightarrow> addr \<Rightarrow> addr \<Rightarrow> node_heap option" where
  "link_prev h p v = (if p \<noteq> NULL then set_prev h p v else Some h)"

text \<open>
  The loop \<^verbatim>\<open>forlinked(node, head, node->next) { if (found) return node; }\<close>.  A chain with a
  cycle makes it run forever, which is \<^term>\<open>None\<close>.
\<close>

partial_function (option) find_loop ::
  "(addr \<Rightarrow> queue_node \<Rightarrow> bool) \<Rightarrow> node_heap \<Rightarrow> addr \<Rightarrow> addr option option" where
  "find_loop P h node =
     (if node = NULL then Some None
      else do {
        n \<leftarrow> load h node;
        if P node n then Some (Some node) else find_loop P h (qn_next n) })"

text \<open>\<^verbatim>\<open>while (node && index < pos) node = node->next\<close>\<close>

function walk :: "node_heap \<Rightarrow> addr \<Rightarrow> u64 \<Rightarrow> u64 \<Rightarrow> addr option" where
  "walk h node index pos =
     (if node \<noteq> NULL \<and> index < pos
      then do { n \<leftarrow> load h node; walk h (qn_next n) (index + 1) pos }
      else Some node)"
  by pat_completeness auto
termination
  by (relation "measure (\<lambda>(h, node, index, pos). unat pos - unat index)") (auto simp: loop_measure)

text \<open>\<^verbatim>\<open>for (i = 1; i < n; i++) last = last->next\<close>, which dereferences \<^verbatim>\<open>last\<close> unchecked.\<close>

function walk_last :: "node_heap \<Rightarrow> addr \<Rightarrow> u64 \<Rightarrow> u64 \<Rightarrow> addr option" where
  "walk_last h last_node i n =
     (if i < n
      then do { nd \<leftarrow> load h last_node; walk_last h (qn_next nd) (i + 1) n }
      else Some last_node)"
  by pat_completeness auto
termination
  by (relation "measure (\<lambda>(h, l, i, n). unat n - unat i)") (auto simp: loop_measure)

declare walk.simps [simp del] walk_last.simps [simp del]

section \<open>Chains\<close>

fun hdp :: "addr list \<Rightarrow> addr \<Rightarrow> addr" where
  "hdp [] e = e"
| "hdp (p # ps) e = p"

definition lastp :: "addr \<Rightarrow> addr list \<Rightarrow> addr" where
  "lastp b ps = (if ps = [] then b else last ps)"

fun dll :: "node_heap \<Rightarrow> addr \<Rightarrow> addr list \<Rightarrow> addr \<Rightarrow> bool" where
  "dll h b [] e \<longleftrightarrow> True"
| "dll h b (p # ps) e \<longleftrightarrow>
     p \<noteq> NULL \<and> (\<exists>n. h p = Some n \<and> qn_prev n = b \<and> qn_next n = hdp ps e) \<and> dll h p ps e"

text \<open>The data of a node, as a partial function that the link updates do not change.\<close>

definition node_data :: "node_heap \<Rightarrow> addr \<Rightarrow> addr option" where
  "node_data h p = map_option qn_data (h p)"

lemma lastp_simps [simp]:
  "lastp b [] = b" "lastp b (p # ps) = lastp p ps" "lastp b (ps @ [p]) = p"
  "lastp b (ps @ qs) = lastp (lastp b ps) qs"
  by (auto simp: lastp_def)

lemma hdp_append [simp]: "hdp (ps @ qs) e = hdp ps (hdp qs e)"
  by (cases ps) auto

lemma dll_append [simp]: "dll h b (ps @ qs) e \<longleftrightarrow> dll h b ps (hdp qs e) \<and> dll h (lastp b ps) qs e"
  by (induction ps arbitrary: b) (auto split: option.splits)

lemma dll_frame: "dll h b ps e \<Longrightarrow> \<forall>p \<in> set ps. h' p = h p \<Longrightarrow> dll h' b ps e"
  by (induction ps arbitrary: b) auto

lemma dll_not_null: "dll h b ps e \<Longrightarrow> NULL \<notin> set ps"
  by (induction ps arbitrary: b) auto

lemma dll_loaded: "dll h b ps e \<Longrightarrow> p \<in> set ps \<Longrightarrow> p \<noteq> NULL \<and> (\<exists>n. h p = Some n)"
  by (induction ps arbitrary: b) (auto split: option.splits)

lemma load_Some [simp]: "p \<noteq> NULL \<Longrightarrow> load h p = h p" and load_NULL [simp]: "load h NULL = None"
  by (simp_all add: load_def)

lemma lastp_in: "ps \<noteq> [] \<Longrightarrow> lastp b ps \<in> set ps" and hdp_in: "ps \<noteq> [] \<Longrightarrow> hdp ps e \<in> set ps"
  by (auto simp: lastp_def) (cases ps, auto)

lemma hdp_eq_iff: "dll h b ps e \<Longrightarrow> hdp ps NULL = NULL \<longleftrightarrow> ps = []"
  by (cases ps) auto

lemma lastp_eq_iff: "dll h b ps e \<Longrightarrow> lastp NULL ps = NULL \<longleftrightarrow> ps = []"
  using dll_not_null lastp_in by (metis lastp_simps(1))

text \<open>What changes under an update of links: nothing outside a set of addresses, no data.\<close>

definition links_only :: "addr set \<Rightarrow> node_heap \<Rightarrow> node_heap \<Rightarrow> bool" where
  "links_only S h h' \<longleftrightarrow> (\<forall>p. p \<notin> S \<longrightarrow> h' p = h p) \<and> node_data h' = node_data h"

lemma links_only_refl [simp]: "links_only S h h"
  by (simp add: links_only_def)

lemma links_only_trans: "links_only S h h' \<Longrightarrow> links_only T h' h'' \<Longrightarrow> links_only (S \<union> T) h h''"
  by (simp add: links_only_def)

lemma links_only_mono: "links_only S h h' \<Longrightarrow> S \<subseteq> T \<Longrightarrow> links_only T h h'"
  by (auto simp: links_only_def)

lemma links_only_outside: "links_only S h h' \<Longrightarrow> p \<notin> S \<Longrightarrow> h' p = h p"
  by (simp add: links_only_def)

lemma links_only_dll: "links_only S h h' \<Longrightarrow> dll h b ps e \<Longrightarrow> set ps \<inter> S = {} \<Longrightarrow> dll h' b ps e"
  by (rule dll_frame) (auto simp: links_only_def)

lemma set_next_spec:
  "p \<noteq> NULL \<Longrightarrow> h p = Some n \<Longrightarrow>
     set_next h p v = Some (h(p \<mapsto> n\<lparr>qn_next := v\<rparr>)) \<and> links_only {p} h (h(p \<mapsto> n\<lparr>qn_next := v\<rparr>))"
  and set_prev_spec:
  "p \<noteq> NULL \<Longrightarrow> h p = Some n \<Longrightarrow>
     set_prev h p v = Some (h(p \<mapsto> n\<lparr>qn_prev := v\<rparr>)) \<and> links_only {p} h (h(p \<mapsto> n\<lparr>qn_prev := v\<rparr>))"
  by (auto simp: set_next_def set_prev_def links_only_def node_data_def fun_eq_iff)

text \<open>Redirecting the forward link of the last node, or the back link of the first one; on an
  empty chain the guard of the C code makes both a no-op.\<close>

lemma link_next_dll:
  assumes "dll h b ps e" "distinct ps"
  shows "\<exists>h'. link_next h (lastp NULL ps) v = Some h' \<and> dll h' b ps v \<and> links_only (set ps) h h'"
proof (cases ps rule: rev_cases)
  case Nil
  then show ?thesis by (simp add: link_next_def)
next
  case (snoc qs p)
  then obtain n where n: "p \<noteq> NULL" "h p = Some n" "qn_prev n = lastp b qs"
    using assms by (auto split: option.splits)
  have "dll (h(p \<mapsto> n\<lparr>qn_next := v\<rparr>)) b ps v"
    using assms snoc n by (auto intro: dll_frame)
  moreover have "links_only (set ps) h (h(p \<mapsto> n\<lparr>qn_next := v\<rparr>))"
    using set_next_spec [of p h n v] n snoc by (auto intro: links_only_mono)
  ultimately show ?thesis using snoc n by (simp add: link_next_def set_next_def)
qed

lemma link_prev_dll:
  assumes "dll h b ps e" "distinct ps"
  shows "\<exists>h'. link_prev h (hdp ps NULL) v = Some h' \<and> dll h' v ps e \<and> links_only (set ps) h h'"
proof (cases ps)
  case Nil
  then show ?thesis by (simp add: link_prev_def)
next
  case (Cons p qs)
  then obtain n where n: "p \<noteq> NULL" "h p = Some n" "qn_next n = hdp qs e"
    using assms by (auto split: option.splits)
  have "dll (h(p \<mapsto> n\<lparr>qn_prev := v\<rparr>)) v ps e"
    using assms Cons n by (auto intro: dll_frame)
  moreover have "links_only (set ps) h (h(p \<mapsto> n\<lparr>qn_prev := v\<rparr>))"
    using set_prev_spec [of p h n v] n Cons by (auto intro: links_only_mono)
  ultimately show ?thesis using Cons n by (simp add: link_prev_def set_prev_def)
qed

text \<open>Joining two chains over whatever stood between them: the two guarded updates that every
  removal performs, in either order.\<close>

lemma join_dll:
  assumes "dll h b as e" "dll h c bs NULL" "distinct (as @ bs)"
  shows "\<exists>h1 h2. link_next h (lastp NULL as) (hdp bs NULL) = Some h1 \<and>
      link_prev h1 (hdp bs NULL) (lastp NULL as) = Some h2 \<and>
      dll h2 b as (hdp bs NULL) \<and> dll h2 (lastp NULL as) bs NULL \<and> links_only (set as \<union> set bs) h h2"
proof -
  obtain h1 where h1: "link_next h (lastp NULL as) (hdp bs NULL) = Some h1"
    "dll h1 b as (hdp bs NULL)" "links_only (set as) h h1"
    using link_next_dll [OF assms(1)] assms(3) by auto
  have "dll h1 c bs NULL" using links_only_dll [OF h1(3) assms(2)] assms(3) by auto
  then obtain h2 where h2: "link_prev h1 (hdp bs NULL) (lastp NULL as) = Some h2"
    "dll h2 (lastp NULL as) bs NULL" "links_only (set bs) h1 h2"
    using link_prev_dll [of h1 c bs NULL] assms(3) by auto
  have "dll h2 b as (hdp bs NULL)" using links_only_dll [OF h2(3) h1(2)] assms(3) by auto
  then show ?thesis using h1 h2 links_only_trans by blast
qed

lemma join_dll_rev:
  assumes "dll h b as e" "dll h c bs NULL" "distinct (as @ bs)"
  shows "\<exists>h1 h2. link_prev h (hdp bs NULL) (lastp NULL as) = Some h1 \<and>
      link_next h1 (lastp NULL as) (hdp bs NULL) = Some h2 \<and>
      dll h2 b as (hdp bs NULL) \<and> dll h2 (lastp NULL as) bs NULL \<and> links_only (set as \<union> set bs) h h2"
proof -
  obtain h1 where h1: "link_prev h (hdp bs NULL) (lastp NULL as) = Some h1"
    "dll h1 (lastp NULL as) bs NULL" "links_only (set bs) h h1"
    using link_prev_dll [OF assms(2)] assms(3) by auto
  have "dll h1 b as e" using links_only_dll [OF h1(3) assms(1)] assms(3) by auto
  then obtain h2 where h2: "link_next h1 (lastp NULL as) (hdp bs NULL) = Some h2"
    "dll h2 b as (hdp bs NULL)" "links_only (set as) h1 h2"
    using link_next_dll [of h1 b as e] assms(3) by auto
  have "dll h2 (lastp NULL as) bs NULL" using links_only_dll [OF h2(3) h1(2)] assms(3) by auto
  moreover have "links_only (set as \<union> set bs) h h2"
    using links_only_trans [OF h1(3) h2(3)] by (simp add: Un_commute)
  ultimately show ?thesis using h1 h2 by blast
qed

section \<open>Searching and walking\<close>

lemma find_loop_NULL [simp]: "find_loop P h NULL = Some None"
  by (simp add: find_loop.simps)

lemma find_loop_dll:
  "dll h b ps NULL \<Longrightarrow>
     find_loop P h (hdp ps NULL) = Some (List.find (\<lambda>p. P p (the (h p))) ps)"
proof (induction ps arbitrary: b)
  case (Cons p ps)
  then obtain n where "h p = Some n" "p \<noteq> NULL" "qn_next n = hdp ps NULL" "dll h p ps NULL"
    by (auto split: option.splits)
  with Cons.IH show ?case by (subst find_loop.simps) simp
qed simp

lemma walk_dll:
  assumes "dll h b ps NULL"
  shows "walk h (hdp ps NULL) index pos = Some (hdp (drop (unat pos - unat index) ps) NULL)"
  using assms
proof (induction ps arbitrary: b index)
  case Nil
  then show ?case by (simp add: walk.simps)
next
  case (Cons p ps)
  then obtain n where n: "h p = Some n" "p \<noteq> NULL" "qn_next n = hdp ps NULL" "dll h p ps NULL"
    by (auto split: option.splits)
  show ?case
  proof (cases "index < pos")
    case True
    then have "unat pos - unat index = Suc (unat pos - unat (index + 1))"
      by (simp add: unat_Suc_less word_less_nat_alt)
    with True n Cons.IH show ?thesis by (subst walk.simps) simp
  next
    case False
    then show ?thesis by (subst walk.simps) (simp add: word_less_nat_alt)
  qed
qed

lemma walk_last_dll:
  assumes "dll h b ps NULL" "unat n - unat i < length ps"
  shows "walk_last h (hdp ps NULL) i n = Some (ps ! (unat n - unat i))"
  using assms
proof (induction ps arbitrary: b i)
  case (Cons p ps)
  then obtain nd where nd: "h p = Some nd" "p \<noteq> NULL" "qn_next nd = hdp ps NULL" "dll h p ps NULL"
    by (auto split: option.splits)
  show ?case
  proof (cases "i < n")
    case True
    then have "unat n - unat i = Suc (unat n - unat (i + 1))"
      by (simp add: unat_Suc_less word_less_nat_alt)
    with True nd Cons show ?thesis by (subst walk_last.simps) simp
  next
    case False
    then show ?thesis by (subst walk_last.simps) (simp add: word_less_nat_alt)
  qed
qed simp

lemma find_split:
  "List.find P ps = Some p \<Longrightarrow> \<exists>as bs. ps = as @ p # bs \<and> P p \<and> (\<forall>x \<in> set as. \<not> P x)"
proof (induction ps)
  case (Cons x ps)
  show ?case
  proof (cases "P x")
    case True
    with Cons.prems show ?thesis by (auto intro: exI [of _ "[]"])
  next
    case False
    with Cons obtain as bs where "ps = as @ p # bs" "P p" "\<forall>y \<in> set as. \<not> P y" by auto
    with False show ?thesis
      by (intro exI [of _ "x # as"] exI [of _ bs]) simp
  qed
qed simp

end
