(* ===== verification/Queue.thy ===== *)
theory Queue
  imports Dll
begin

text \<open>
  The queue of \<^verbatim>\<open>src/src/kernel/ds/queue/queue.c\<close>: a doubly linked chain of nodes that the
  operations allocate and free, with a head, a tail and a counter.  The state holds every node
  and every queue object of the kernel, so that operations on two queues and the frame of an
  operation (which other queues it leaves alone) can be stated.

  The result of \<^verbatim>\<open>kmalloc\<close> is an argument \<open>p\<close>: null when there is no memory, otherwise an
  address that holds no node.  Output pointers that may be null are dropped when the caller
  ignores them (\<^verbatim>\<open>pnp\<close>) and a flag where the code checks them (\<^verbatim>\<open>pdp\<close>).
  The enumerations are numbers, as in C, so that values outside them exist.
\<close>

section \<open>State\<close>

record queue =
  q_head :: addr
  q_tail :: addr
  q_count :: u64
  q_lock :: bool

record qstate =
  qs_nodes :: node_heap
  qs_queues :: "addr \<Rightarrow> queue option"

type_synonym queue_uniqueness_t = u32
type_synonym queue_relloc_t = u32

abbreviation (input) QUEUE_DUPLICATES :: queue_uniqueness_t where "QUEUE_DUPLICATES \<equiv> 0"
abbreviation (input) QUEUE_UNIQUE :: queue_uniqueness_t where "QUEUE_UNIQUE \<equiv> 1"
abbreviation (input) QUEUE_TAIL :: queue_relloc_t where "QUEUE_TAIL \<equiv> 0"
abbreviation (input) QUEUE_HEAD :: queue_relloc_t where "QUEUE_HEAD \<equiv> 1"

definition get_queue :: "qstate \<Rightarrow> addr \<Rightarrow> queue option" where
  "get_queue st q = (if q = NULL then None else qs_queues st q)"

definition put_queue :: "qstate \<Rightarrow> addr \<Rightarrow> queue \<Rightarrow> qstate" where
  "put_queue st q qr = st\<lparr>qs_queues := (qs_queues st)(q \<mapsto> qr)\<rparr>"

definition queue_assert_locked :: "qstate \<Rightarrow> addr \<Rightarrow> queue option" where
  "queue_assert_locked st q = do { qr \<leftarrow> get_queue st q; assert_that (q_lock qr); Some qr }"

definition count_add :: "qstate \<Rightarrow> addr \<Rightarrow> u64 \<Rightarrow> qstate option" where
  "count_add st q k = do { qr \<leftarrow> get_queue st q; Some (put_queue st q (qr\<lparr>q_count := q_count qr + k\<rparr>)) }"

definition kfree_node :: "qstate \<Rightarrow> addr \<Rightarrow> qstate option" where
  "kfree_node st p = do { _ \<leftarrow> load (qs_nodes st) p; Some (st\<lparr>qs_nodes := (qs_nodes st)(p := None)\<rparr>) }"

section \<open>The pointer manipulations shared by the operations\<close>

text \<open>
  Taking a node out of the chain: the two guarded link updates, then the head and the tail.
  \<open>unlink_rev\<close> is the order of \<^verbatim>\<open>queue_rellocate_node\<close>.
\<close>

definition fix_ends :: "queue \<Rightarrow> addr \<Rightarrow> addr \<Rightarrow> addr \<Rightarrow> queue" where
  "fix_ends qr node pv nx =
     (let qr = (if node = q_head qr then qr\<lparr>q_head := nx\<rparr> else qr)
      in if node = q_tail qr then qr\<lparr>q_tail := pv\<rparr> else qr)"

definition unlink :: "qstate \<Rightarrow> addr \<Rightarrow> addr \<Rightarrow> qstate option" where
  "unlink st q node = do {
     n \<leftarrow> load (qs_nodes st) node;
     h \<leftarrow> link_next (qs_nodes st) (qn_prev n) (qn_next n);
     h \<leftarrow> link_prev h (qn_next n) (qn_prev n);
     qr \<leftarrow> get_queue st q;
     Some (put_queue (st\<lparr>qs_nodes := h\<rparr>) q (fix_ends qr node (qn_prev n) (qn_next n))) }"

definition unlink_rev :: "qstate \<Rightarrow> addr \<Rightarrow> addr \<Rightarrow> qstate option" where
  "unlink_rev st q node = do {
     n \<leftarrow> load (qs_nodes st) node;
     h \<leftarrow> link_prev (qs_nodes st) (qn_next n) (qn_prev n);
     h \<leftarrow> link_next h (qn_prev n) (qn_next n);
     qr \<leftarrow> get_queue st q;
     Some (put_queue (st\<lparr>qs_nodes := h\<rparr>) q (fix_ends qr node (qn_prev n) (qn_next n))) }"

definition clear_links :: "qstate \<Rightarrow> addr \<Rightarrow> qstate option" where
  "clear_links st node = do {
     h \<leftarrow> set_prev (qs_nodes st) node NULL;
     h \<leftarrow> set_next h node NULL;
     Some (st\<lparr>qs_nodes := h\<rparr>) }"

text \<open>Attaching a node (whose links are clear) at the tail or at the head.\<close>

definition attach_tail :: "qstate \<Rightarrow> addr \<Rightarrow> addr \<Rightarrow> qstate option" where
  "attach_tail st q node = do {
     qr \<leftarrow> get_queue st q;
     if q_head qr = NULL
     then Some (put_queue st q (qr\<lparr>q_head := node, q_tail := node\<rparr>))
     else do {
       h \<leftarrow> set_next (qs_nodes st) (q_tail qr) node;
       h \<leftarrow> set_prev h node (q_tail qr);
       Some (put_queue (st\<lparr>qs_nodes := h\<rparr>) q (qr\<lparr>q_tail := node\<rparr>)) } }"

definition attach_head :: "qstate \<Rightarrow> addr \<Rightarrow> addr \<Rightarrow> qstate option" where
  "attach_head st q node = do {
     qr \<leftarrow> get_queue st q;
     if q_head qr = NULL
     then Some (put_queue st q (qr\<lparr>q_tail := node, q_head := node\<rparr>))
     else do {
       h \<leftarrow> set_prev (qs_nodes st) (q_head qr) node;
       h \<leftarrow> set_next h node (q_head qr);
       Some (put_queue (st\<lparr>qs_nodes := h\<rparr>) q (qr\<lparr>q_head := node\<rparr>)) } }"

section \<open>Operations\<close>

definition queue_node_init :: "qstate \<Rightarrow> addr \<Rightarrow> addr \<Rightarrow> (int \<times> qstate) option" where
  "queue_node_init st qnode data =
     (if qnode = NULL then Some (- EINVAL, st)
      else do {
        h \<leftarrow> set_data (qs_nodes st) qnode data;
        st \<leftarrow> clear_links (st\<lparr>qs_nodes := h\<rparr>) qnode;
        Some (0, st) })"

definition queue_init :: "qstate \<Rightarrow> addr \<Rightarrow> (int \<times> qstate) option" where
  "queue_init st q =
     (if q = NULL then Some (- EINVAL, st)
      else do {
        _ \<leftarrow> get_queue st q;
        Some (0, put_queue st q \<lparr>q_head = NULL, q_tail = NULL, q_count = 0, q_lock = False\<rparr>) })"

definition queue_alloc :: "addr \<Rightarrow> queue \<Rightarrow> qstate \<Rightarrow> bool \<Rightarrow> (int \<times> addr option \<times> qstate) option" where
  "queue_alloc p junk st pqp =
     (if \<not> pqp then Some (- EINVAL, None, st)
      else if p = NULL then Some (- ENOMEM, None, st)
      else do {
        (_, st) \<leftarrow> queue_init (put_queue st p junk) p;
        Some (0, Some p, st) })"

partial_function (option) flush_loop :: "qstate \<Rightarrow> addr \<Rightarrow> addr \<Rightarrow> qstate option" where
  "flush_loop st q node =
     (if node = NULL then Some st
      else do {
        n \<leftarrow> load (qs_nodes st) node;
        st \<leftarrow> unlink st q node;
        st \<leftarrow> count_add st q (- 1);
        st \<leftarrow> kfree_node st node;
        flush_loop st q (qn_next n) })"

definition queue_flush :: "qstate \<Rightarrow> addr \<Rightarrow> qstate option" where
  "queue_flush st q = do {
     qr \<leftarrow> queue_assert_locked st q;
     st \<leftarrow> flush_loop st q (q_head qr);
     qr \<leftarrow> get_queue st q;
     Some (put_queue st q (qr\<lparr>q_tail := NULL, q_head := NULL\<rparr>)) }"

definition queue_length :: "qstate \<Rightarrow> addr \<Rightarrow> u64 option" where
  "queue_length st q = do { qr \<leftarrow> queue_assert_locked st q; Some (q_count qr) }"

definition queue_empty :: "qstate \<Rightarrow> addr \<Rightarrow> bool option" where
  "queue_empty st q = do { _ \<leftarrow> queue_assert_locked st q; n \<leftarrow> queue_length st q; Some (n = 0) }"

definition queue_free :: "qstate \<Rightarrow> addr \<Rightarrow> qstate option" where
  "queue_free st q = do {
     qr \<leftarrow> get_queue st q;
     st \<leftarrow> queue_flush (put_queue st q (qr\<lparr>q_lock := True\<rparr>)) q;
     Some (st\<lparr>qs_queues := (qs_queues st)(q := None)\<rparr>) }"

definition queue_peek :: "qstate \<Rightarrow> addr \<Rightarrow> queue_relloc_t \<Rightarrow> bool \<Rightarrow> (int \<times> addr option) option" where
  "queue_peek st q whence pdp = do {
     qr \<leftarrow> queue_assert_locked st q;
     if \<not> pdp then Some (- EINVAL, None)
     else if whence \<noteq> QUEUE_HEAD \<and> whence \<noteq> QUEUE_TAIL then Some (- EINVAL, None)
     else do {
       len \<leftarrow> queue_length st q;
       if len = 0 then Some (- ENOENT, None)
       else do {
         n \<leftarrow> load (qs_nodes st) (if whence = QUEUE_TAIL then q_tail qr else q_head qr);
         Some (0, Some (qn_data n)) } } }"

definition queue_contains :: "qstate \<Rightarrow> addr \<Rightarrow> addr \<Rightarrow> (int \<times> addr option) option" where
  "queue_contains st q data = do {
     qr \<leftarrow> queue_assert_locked st q;
     r \<leftarrow> find_loop (\<lambda>_ n. qn_data n = data) (qs_nodes st) (q_head qr);
     Some (case r of Some node \<Rightarrow> (0, Some node) | None \<Rightarrow> (- ENOENT, None)) }"

definition enqueue_with :: "(qstate \<Rightarrow> addr \<Rightarrow> addr \<Rightarrow> qstate option) \<Rightarrow> addr \<Rightarrow> qstate \<Rightarrow> addr \<Rightarrow> addr \<Rightarrow>
    queue_uniqueness_t \<Rightarrow> (int \<times> addr option \<times> qstate) option" where
  "enqueue_with attach p st q data uniqueness = do {
     _ \<leftarrow> queue_assert_locked st q;
     dup \<leftarrow> (if uniqueness = QUEUE_UNIQUE
            then do { (err, _) \<leftarrow> queue_contains st q data; Some (err = 0) } else Some False);
     if dup then Some (- EEXIST, None, st)
     else if p = NULL then Some (- ENOMEM, None, st)
     else do {
       let st = st\<lparr>qs_nodes := (qs_nodes st)(p \<mapsto> \<lparr>qn_prev = NULL, qn_data = data, qn_next = NULL\<rparr>)\<rparr>;
       st \<leftarrow> attach st q p;
       st \<leftarrow> count_add st q 1;
       Some (0, Some p, st) } }"

definition enqueue :: "addr \<Rightarrow> qstate \<Rightarrow> addr \<Rightarrow> addr \<Rightarrow> queue_uniqueness_t \<Rightarrow>
    (int \<times> addr option \<times> qstate) option" where
  "enqueue = enqueue_with attach_tail"

definition enqueue_head :: "addr \<Rightarrow> qstate \<Rightarrow> addr \<Rightarrow> addr \<Rightarrow> queue_uniqueness_t \<Rightarrow>
    (int \<times> addr option \<times> qstate) option" where
  "enqueue_head = enqueue_with attach_head"

definition enqueue_whence :: "addr \<Rightarrow> qstate \<Rightarrow> addr \<Rightarrow> addr \<Rightarrow> queue_uniqueness_t \<Rightarrow> queue_relloc_t \<Rightarrow>
    (int \<times> addr option \<times> qstate) option" where
  "enqueue_whence p st q data uniqueness whence = do {
     _ \<leftarrow> queue_assert_locked st q;
     if whence = QUEUE_HEAD then enqueue_head p st q data uniqueness
     else if whence = QUEUE_TAIL then enqueue p st q data uniqueness
     else Some (- EINVAL, None, st) }"

definition remove_free :: "qstate \<Rightarrow> addr \<Rightarrow> addr \<Rightarrow> qstate option" where
  "remove_free st q node = do {
     st \<leftarrow> unlink st q node;
     st \<leftarrow> count_add st q (- 1);
     kfree_node st node }"

definition dequeue_at :: "(queue \<Rightarrow> addr) \<Rightarrow> qstate \<Rightarrow> addr \<Rightarrow> bool \<Rightarrow> (int \<times> addr option \<times> qstate) option" where
  "dequeue_at which st q pdp = do {
     qr \<leftarrow> queue_assert_locked st q;
     if \<not> pdp then Some (- EINVAL, None, st)
     else if which qr \<noteq> NULL
     then do {
       n \<leftarrow> load (qs_nodes st) (which qr);
       st \<leftarrow> remove_free st q (which qr);
       Some (0, Some (qn_data n), st) }
     else Some (- ENOENT, None, st) }"

definition dequeue :: "qstate \<Rightarrow> addr \<Rightarrow> bool \<Rightarrow> (int \<times> addr option \<times> qstate) option" where
  "dequeue = dequeue_at q_head"

definition dequeue_tail :: "qstate \<Rightarrow> addr \<Rightarrow> bool \<Rightarrow> (int \<times> addr option \<times> qstate) option" where
  "dequeue_tail = dequeue_at q_tail"

definition dequeue_whence :: "qstate \<Rightarrow> addr \<Rightarrow> queue_relloc_t \<Rightarrow> bool \<Rightarrow>
    (int \<times> addr option \<times> qstate) option" where
  "dequeue_whence st q whence pdp = do {
     _ \<leftarrow> queue_assert_locked st q;
     if whence = QUEUE_HEAD then dequeue st q pdp
     else if whence = QUEUE_TAIL then dequeue_tail st q pdp
     else Some (- EINVAL, None, st) }"

definition queue_remove_node :: "qstate \<Rightarrow> addr \<Rightarrow> addr \<Rightarrow> (int \<times> qstate) option" where
  "queue_remove_node st q node = do {
     qr \<leftarrow> queue_assert_locked st q;
     if node = NULL then Some (- EINVAL, st)
     else do {
       r \<leftarrow> find_loop (\<lambda>p _. node = p) (qs_nodes st) (q_head qr);
       case r of
         Some p \<Rightarrow> do { st \<leftarrow> remove_free st q p; Some (0, st) }
       | None \<Rightarrow> Some (- ENOENT, st) } }"

definition queue_remove :: "qstate \<Rightarrow> addr \<Rightarrow> addr \<Rightarrow> (int \<times> qstate) option" where
  "queue_remove st q data = do {
     qr \<leftarrow> queue_assert_locked st q;
     r \<leftarrow> find_loop (\<lambda>_ n. qn_data n = data) (qs_nodes st) (q_head qr);
     case r of
       Some p \<Rightarrow> do { st \<leftarrow> remove_free st q p; Some (0, st) }
     | None \<Rightarrow> Some (- ENOENT, st) }"

definition queue_rellocate_node :: "qstate \<Rightarrow> addr \<Rightarrow> addr \<Rightarrow> queue_relloc_t \<Rightarrow> (int \<times> qstate) option" where
  "queue_rellocate_node st q node whence =
     (if q = NULL \<or> node = NULL then Some (- EINVAL, st)
      else do {
        _ \<leftarrow> queue_assert_locked st q;
        if whence \<noteq> QUEUE_HEAD \<and> whence \<noteq> QUEUE_TAIL then Some (- EINVAL, st)
        else do {
          st \<leftarrow> unlink_rev st q node;
          st \<leftarrow> clear_links st node;
          st \<leftarrow> (if whence = QUEUE_HEAD then attach_head st q node else attach_tail st q node);
          Some (0, st) } })"

definition queue_rellocate :: "qstate \<Rightarrow> addr \<Rightarrow> addr \<Rightarrow> queue_relloc_t \<Rightarrow> (int \<times> qstate) option" where
  "queue_rellocate st q data whence =
     (if q = NULL then Some (- EINVAL, st)
      else do {
        _ \<leftarrow> queue_assert_locked st q;
        (err, node) \<leftarrow> queue_contains st q data;
        case node of
          None \<Rightarrow> Some (err, st)
        | Some node \<Rightarrow> queue_rellocate_node st q node whence })"

text \<open>
  Migration of the nodes \<^verbatim>\<open>first .. last\<close> from \<^verbatim>\<open>src\<close> to \<^verbatim>\<open>dst\<close>: cut them out of the source,
  clear the outer links, and attach the segment.
\<close>

definition cut_segment :: "qstate \<Rightarrow> addr \<Rightarrow> addr \<Rightarrow> addr \<Rightarrow> qstate option" where
  "cut_segment st srcq first_node last_node = do {
     f \<leftarrow> load (qs_nodes st) first_node;
     l \<leftarrow> load (qs_nodes st) last_node;
     st \<leftarrow> (if qn_prev f \<noteq> NULL
           then do { h \<leftarrow> set_next (qs_nodes st) (qn_prev f) (qn_next l); Some (st\<lparr>qs_nodes := h\<rparr>) }
           else do { qr \<leftarrow> get_queue st srcq; Some (put_queue st srcq (qr\<lparr>q_head := qn_next l\<rparr>)) });
     f \<leftarrow> load (qs_nodes st) first_node;
     l \<leftarrow> load (qs_nodes st) last_node;
     if qn_next l \<noteq> NULL
     then do { h \<leftarrow> set_prev (qs_nodes st) (qn_next l) (qn_prev f); Some (st\<lparr>qs_nodes := h\<rparr>) }
     else do { qr \<leftarrow> get_queue st srcq; Some (put_queue st srcq (qr\<lparr>q_tail := qn_prev f\<rparr>)) } }"

definition attach_segment :: "qstate \<Rightarrow> addr \<Rightarrow> addr \<Rightarrow> addr \<Rightarrow> queue_relloc_t \<Rightarrow> qstate option" where
  "attach_segment st dstq first_node last_node whence =
     (if whence = QUEUE_HEAD
      then do {
        qr \<leftarrow> get_queue st dstq;
        h \<leftarrow> set_next (qs_nodes st) last_node (q_head qr);
        h \<leftarrow> link_prev h (q_head qr) last_node;
        let qr = qr\<lparr>q_head := first_node\<rparr>;
        Some (put_queue (st\<lparr>qs_nodes := h\<rparr>) dstq
                (if q_tail qr = NULL then qr\<lparr>q_tail := last_node\<rparr> else qr)) }
      else if whence = QUEUE_TAIL
      then do {
        qr \<leftarrow> get_queue st dstq;
        h \<leftarrow> set_prev (qs_nodes st) first_node (q_tail qr);
        h \<leftarrow> link_next h (q_tail qr) first_node;
        let qr = qr\<lparr>q_tail := last_node\<rparr>;
        Some (put_queue (st\<lparr>qs_nodes := h\<rparr>) dstq
                (if q_head qr = NULL then qr\<lparr>q_head := first_node\<rparr> else qr)) }
      else Some st)"

definition detach_segment :: "qstate \<Rightarrow> addr \<Rightarrow> addr \<Rightarrow> addr \<Rightarrow> u64 \<Rightarrow> qstate option" where
  "detach_segment st srcq first_node last_node num_nodes = do {
     st \<leftarrow> cut_segment st srcq first_node last_node;
     st \<leftarrow> count_add st srcq (- num_nodes);
     h \<leftarrow> set_prev (qs_nodes st) first_node NULL;
     h \<leftarrow> set_next h last_node NULL;
     Some (st\<lparr>qs_nodes := h\<rparr>) }"

definition queue_node_migrate :: "qstate \<Rightarrow> addr \<Rightarrow> addr \<Rightarrow> u64 \<Rightarrow> u64 \<Rightarrow> queue_relloc_t \<Rightarrow>
    (int \<times> qstate) option" where
  "queue_node_migrate st dstq srcq start_pos num_nodes whence = do {
     src \<leftarrow> queue_assert_locked st srcq;
     _ \<leftarrow> queue_assert_locked st dstq;
     if start_pos \<ge> q_count src \<or> num_nodes = 0 \<or> start_pos + num_nodes > q_count src
     then Some (- EINVAL, st)
     else if whence \<noteq> QUEUE_HEAD \<and> whence \<noteq> QUEUE_TAIL then Some (- EINVAL, st)
     else do {
       node \<leftarrow> walk (qs_nodes st) (q_head src) 0 start_pos;
       if node = NULL then Some (- ENOENT, st)
       else do {
         last_node \<leftarrow> walk_last (qs_nodes st) node 1 num_nodes;
         st \<leftarrow> detach_segment st srcq node last_node num_nodes;
         _ \<leftarrow> find_loop (\<lambda>_ _. False) (qs_nodes st) node;
         st \<leftarrow> attach_segment st dstq node last_node whence;
         st \<leftarrow> count_add st dstq num_nodes;
         Some (0, st) } } }"

definition queue_move :: "qstate \<Rightarrow> addr \<Rightarrow> addr \<Rightarrow> queue_relloc_t \<Rightarrow> (int \<times> qstate) option" where
  "queue_move st dstq srcq whence = do {
     src \<leftarrow> queue_assert_locked st srcq;
     _ \<leftarrow> queue_assert_locked st dstq;
     if whence \<noteq> QUEUE_HEAD \<and> whence \<noteq> QUEUE_TAIL then Some (- EINVAL, st)
     else queue_node_migrate st dstq srcq 0 (q_count src) whence }"

definition queue_replace :: "qstate \<Rightarrow> addr \<Rightarrow> addr \<Rightarrow> addr \<Rightarrow> (int \<times> qstate) option" where
  "queue_replace st q data0 data1 =
     (if q = NULL \<or> data0 = data1 then Some (- EINVAL, st)
      else do {
        qr \<leftarrow> queue_assert_locked st q;
        r \<leftarrow> find_loop (\<lambda>_ n. qn_data n = data0) (qs_nodes st) (q_head qr);
        case r of
          Some node \<Rightarrow> do { h \<leftarrow> set_data (qs_nodes st) node data1; Some (0, st\<lparr>qs_nodes := h\<rparr>) }
        | None \<Rightarrow> Some (- ENOENT, st) })"


section \<open>What a queue represents\<close>

text \<open>
  \<open>shape st q ps c\<close>: the locked queue \<open>q\<close> is a well-formed chain of the nodes \<open>ps\<close>, with the
  counter at \<open>c\<close>; \<open>queue_rep\<close> adds that the counter is the length.
\<close>

definition shape :: "qstate \<Rightarrow> addr \<Rightarrow> addr list \<Rightarrow> u64 \<Rightarrow> bool" where
  "shape st q ps c \<longleftrightarrow> q \<noteq> NULL \<and>
     qs_queues st q = Some \<lparr>q_head = hdp ps NULL, q_tail = lastp NULL ps, q_count = c, q_lock = True\<rparr> \<and>
     distinct ps \<and> dll (qs_nodes st) NULL ps NULL"

definition queue_rep :: "qstate \<Rightarrow> addr \<Rightarrow> addr list \<Rightarrow> bool" where
  "queue_rep st q ps \<longleftrightarrow> shape st q ps (of_nat (length ps))"

text \<open>An operation on queue \<open>q\<close> that changes links of the nodes in \<open>S\<close> only.\<close>

definition touches :: "addr \<Rightarrow> addr set \<Rightarrow> qstate \<Rightarrow> qstate \<Rightarrow> bool" where
  "touches q S st st' \<longleftrightarrow> links_only S (qs_nodes st) (qs_nodes st') \<and>
     (\<forall>r. r \<noteq> q \<longrightarrow> qs_queues st' r = qs_queues st r)"

lemma touches_refl [simp]: "touches q S st st"
  by (simp add: touches_def)

lemma touches_trans: "touches q S st st' \<Longrightarrow> touches q T st' st'' \<Longrightarrow> touches q (S \<union> T) st st''"
  by (auto simp: touches_def intro: links_only_trans)

lemma touches_mono: "touches q S st st' \<Longrightarrow> S \<subseteq> T \<Longrightarrow> touches q T st st'"
  by (auto simp: touches_def intro: links_only_mono)

lemma touches_shape:
  "touches q S st st' \<Longrightarrow> shape st r qs c \<Longrightarrow> r \<noteq> q \<Longrightarrow> set qs \<inter> S = {} \<Longrightarrow> shape st' r qs c"
  by (auto simp: touches_def shape_def intro: links_only_dll)

lemma touches_node: "touches q S st st' \<Longrightarrow> p \<notin> S \<Longrightarrow> qs_nodes st' p = qs_nodes st p"
  by (auto simp: touches_def links_only_def)

lemma touches_data: "touches q S st st' \<Longrightarrow> node_data (qs_nodes st') = node_data (qs_nodes st)"
  by (auto simp: touches_def links_only_def)

lemma get_put_queue [simp]:
  "q \<noteq> NULL \<Longrightarrow> get_queue st q = qs_queues st q"
  "qs_queues (put_queue st q qr) = (qs_queues st)(q \<mapsto> qr)"
  "qs_nodes (put_queue st q qr) = qs_nodes st"
  by (simp_all add: get_queue_def put_queue_def)

lemma shape_locked:
  "shape st q ps c \<Longrightarrow> queue_assert_locked st q =
     Some \<lparr>q_head = hdp ps NULL, q_tail = lastp NULL ps, q_count = c, q_lock = True\<rparr>"
  by (simp add: shape_def queue_assert_locked_def)

lemma length_addrs: "distinct ps \<Longrightarrow> NULL \<notin> set ps \<Longrightarrow> length (ps :: addr list) < 2 ^ 64"
proof -
  assume ps: "distinct ps" "NULL \<notin> set ps"
  then have "length (NULL # ps) = card (set (NULL # ps))" by (metis distinct.simps(2) distinct_card)
  also have "\<dots> \<le> card (UNIV :: addr set)" by (intro card_mono) auto
  also have "\<dots> = 2 ^ 64" by (simp add: card_word)
  finally show ?thesis by simp
qed

lemma shape_length:
  assumes "shape st q ps c"
  shows "length ps < 2 ^ 64" "unat (of_nat (length ps) :: u64) = length ps"
proof -
  show "length ps < 2 ^ 64"
    using assms dll_not_null by (intro length_addrs) (auto simp: shape_def)
  then show "unat (of_nat (length ps) :: u64) = length ps"
    by (simp add: unat_of_nat take_bit_nat_eq_self)
qed

lemma shape_count_0: "shape st q ps c \<Longrightarrow> of_nat (length ps) = (0 :: u64) \<longleftrightarrow> ps = []"
  by (simp add: word_unat_eq_iff shape_length(2))

lemma count_add_shape:
  assumes "shape st q ps c"
  shows "\<exists>st'. count_add st q k = Some st' \<and> shape st' q ps (c + k) \<and> touches q {} st st' \<and>
    qs_nodes st' = qs_nodes st"
  using assms by (simp add: shape_def count_add_def touches_def)

lemma fix_ends_split:
  assumes "distinct (as @ p # bs)"
  shows "fix_ends \<lparr>q_head = hdp (as @ p # bs) NULL, q_tail = lastp NULL (as @ p # bs), q_count = c, q_lock = l\<rparr>
      p (lastp NULL as) (hdp bs NULL) =
    \<lparr>q_head = hdp (as @ bs) NULL, q_tail = lastp NULL (as @ bs), q_count = c, q_lock = l\<rparr>"
  using assms by (cases as; cases bs rule: rev_cases) (auto simp: fix_ends_def Let_def lastp_def)

lemma unlink_shape:
  assumes "shape st q (as @ p # bs) c"
  shows "\<exists>st'. unlink st q p = Some st' \<and> shape st' q (as @ bs) c \<and> touches q (set as \<union> set bs) st st'"
    and "\<exists>st'. unlink_rev st q p = Some st' \<and> shape st' q (as @ bs) c \<and> touches q (set as \<union> set bs) st st'"
    and "\<exists>n. qs_nodes st p = Some n \<and> p \<noteq> NULL \<and> qn_prev n = lastp NULL as \<and> qn_next n = hdp bs NULL"
proof -
  let ?h = "qs_nodes st"
  have d: "distinct (as @ bs)" "distinct (as @ p # bs)" and q: "q \<noteq> NULL"
    and qr: "qs_queues st q = Some \<lparr>q_head = hdp (as @ p # bs) NULL,
        q_tail = lastp NULL (as @ p # bs), q_count = c, q_lock = True\<rparr>"
    and chain: "dll ?h NULL as p" "dll ?h p bs NULL"
    using assms by (auto simp: shape_def)
  show "\<exists>n. ?h p = Some n \<and> p \<noteq> NULL \<and> qn_prev n = lastp NULL as \<and> qn_next n = hdp bs NULL"
    using assms by (auto simp: shape_def split: option.splits)
  then obtain n where n: "?h p = Some n" "p \<noteq> NULL" "qn_prev n = lastp NULL as" "qn_next n = hdp bs NULL"
    by blast
  note ends = fix_ends_split [OF d(2), of c True]
  show "\<exists>st'. unlink st q p = Some st' \<and> shape st' q (as @ bs) c \<and> touches q (set as \<union> set bs) st st'"
    using join_dll [OF chain d(1)] n q qr d(1) ends
    by (auto simp: unlink_def shape_def touches_def simp del: lastp_simps(2) hdp.simps)
  show "\<exists>st'. unlink_rev st q p = Some st' \<and> shape st' q (as @ bs) c \<and> touches q (set as \<union> set bs) st st'"
    using join_dll_rev [OF chain d(1)] n q qr d(1) ends
    by (auto simp: unlink_rev_def shape_def touches_def simp del: lastp_simps(2) hdp.simps)
qed

lemma clear_links_node:
  assumes "p \<noteq> NULL" "qs_nodes st p = Some n"
  shows "\<exists>st'. clear_links st p = Some st' \<and> touches q {p} st st' \<and> qs_queues st' = qs_queues st \<and>
    qs_nodes st' p = Some (n\<lparr>qn_prev := NULL, qn_next := NULL\<rparr>)"
  using assms
  by (auto simp: clear_links_def set_prev_def set_next_def touches_def links_only_def node_data_def)

text \<open>A node outside the chain, ready to be attached.\<close>

definition loose :: "qstate \<Rightarrow> addr \<Rightarrow> bool" where
  "loose st p \<longleftrightarrow> p \<noteq> NULL \<and> (\<exists>n. qs_nodes st p = Some n \<and> qn_prev n = NULL \<and> qn_next n = NULL)"

lemma loose_dll: "loose st p \<longleftrightarrow> dll (qs_nodes st) NULL [p] NULL"
  by (simp add: loose_def)

lemma attach_tail_shape:
  assumes "shape st q ps c" "loose st p" "p \<notin> set ps"
  shows "\<exists>st'. attach_tail st q p = Some st' \<and> shape st' q (ps @ [p]) c \<and> touches q (insert p (set ps)) st st'"
proof (cases "ps = []")
  case True
  then show ?thesis
    using assms by (auto simp: attach_tail_def shape_def loose_dll touches_def)
next
  case False
  let ?h = "qs_nodes st"
  have ps: "dll ?h NULL ps NULL" "distinct ps" using assms(1) by (auto simp: shape_def)
  have ends: "hdp ps NULL \<noteq> NULL" "lastp NULL ps \<noteq> NULL" "hdp ps NULL = hdp ps p"
    using False hdp_eq_iff [OF ps(1)] lastp_eq_iff [OF ps(1)] by (auto simp: neq_Nil_conv)
  obtain h1 where h1: "link_next ?h (lastp NULL ps) p = Some h1" "dll h1 NULL ps p" "links_only (set ps) ?h h1"
    using link_next_dll [OF ps(1,2)] by blast
  have "dll h1 NULL [p] NULL"
    using links_only_dll [OF h1(3), of NULL "[p]" NULL] assms by (simp add: loose_dll)
  then obtain h2 where h2: "link_prev h1 (hdp [p] NULL) (lastp NULL ps) = Some h2"
    "dll h2 (lastp NULL ps) [p] NULL" "links_only (set [p]) h1 h2"
    using link_prev_dll [of h1 NULL "[p]" NULL "lastp NULL ps"] by auto
  have "dll h2 NULL ps p" using links_only_dll [OF h2(3) h1(2)] assms(3) by simp
  moreover have "links_only (insert p (set ps)) ?h h2"
    using links_only_trans [OF h1(3) h2(3)] by simp
  ultimately show ?thesis
    using assms ps ends h1(1) h2(1,2)
    by (auto simp: attach_tail_def shape_def loose_def link_next_def link_prev_def touches_def)
qed

lemma attach_head_shape:
  assumes "shape st q ps c" "loose st p" "p \<notin> set ps"
  shows "\<exists>st'. attach_head st q p = Some st' \<and> shape st' q (p # ps) c \<and> touches q (insert p (set ps)) st st'"
proof (cases "ps = []")
  case True
  then show ?thesis
    using assms by (auto simp: attach_head_def shape_def loose_dll touches_def)
next
  case False
  let ?h = "qs_nodes st"
  have ps: "dll ?h NULL ps NULL" "distinct ps" "hdp ps NULL \<noteq> NULL" "lastp NULL ps = lastp p ps"
    using assms(1) False hdp_eq_iff by (auto simp: shape_def lastp_def)
  obtain h1 where h1: "link_prev ?h (hdp ps NULL) p = Some h1" "dll h1 p ps NULL" "links_only (set ps) ?h h1"
    using link_prev_dll [OF ps(1,2)] by blast
  have "dll h1 NULL [p] NULL"
    using links_only_dll [OF h1(3), of NULL "[p]" NULL] assms by (simp add: loose_dll)
  then obtain h2 where h2: "link_next h1 (lastp NULL [p]) (hdp ps NULL) = Some h2"
    "dll h2 NULL [p] (hdp ps NULL)" "links_only (set [p]) h1 h2"
    using link_next_dll [of h1 NULL "[p]" NULL "hdp ps NULL"] by auto
  have "dll h2 p ps NULL" using links_only_dll [OF h2(3) h1(2)] assms(3) by simp
  moreover have "links_only (insert p (set ps)) ?h h2"
    using links_only_trans [OF h1(3) h2(3)] by simp
  ultimately show ?thesis
    using assms ps h1(1) h2(1,2)
    by (auto simp: attach_head_def shape_def loose_def link_next_def link_prev_def touches_def)
qed


section \<open>All queues at once\<close>

text \<open>
  The abstract state gives for each queue address the list of its nodes; \<open>represents\<close> says that
  every one of these queues is well formed and that no node is on two of them.  Each operation
  is shown to act on the abstract state, hence to leave every other queue alone.
\<close>

type_synonym queues = "addr \<Rightarrow> addr list option"

definition represents :: "qstate \<Rightarrow> queues \<Rightarrow> bool" where
  "represents st A \<longleftrightarrow>
     (\<forall>q ps. A q = Some ps \<longrightarrow> queue_rep st q ps) \<and>
     (\<forall>q r ps qs. A q = Some ps \<longrightarrow> A r = Some qs \<longrightarrow> q \<noteq> r \<longrightarrow> set ps \<inter> set qs = {})"

definition unowned :: "queues \<Rightarrow> addr \<Rightarrow> bool" where
  "unowned A p \<longleftrightarrow> (\<forall>q ps. A q = Some ps \<longrightarrow> p \<notin> set ps)"

definition queue_data :: "qstate \<Rightarrow> addr list \<Rightarrow> addr list" where
  "queue_data st ps = map (\<lambda>p. the (node_data (qs_nodes st) p)) ps"

definition keeps :: "addr \<Rightarrow> addr set \<Rightarrow> qstate \<Rightarrow> qstate \<Rightarrow> bool" where
  "keeps q S st st' \<longleftrightarrow> (\<forall>p. p \<notin> S \<longrightarrow> qs_nodes st' p = qs_nodes st p) \<and>
     (\<forall>r. r \<noteq> q \<longrightarrow> qs_queues st' r = qs_queues st r)"

lemma touches_keeps: "touches q S st st' \<Longrightarrow> keeps q S st st'"
  by (auto simp: touches_def links_only_def keeps_def)

lemma keeps_trans: "keeps q S st st' \<Longrightarrow> keeps q T st' st'' \<Longrightarrow> keeps q (S \<union> T) st st''"
  by (auto simp: keeps_def)

lemma keeps_mono: "keeps q S st st' \<Longrightarrow> S \<subseteq> T \<Longrightarrow> keeps q T st st'"
  by (auto simp: keeps_def)

lemma representsD: "represents st A \<Longrightarrow> A q = Some ps \<Longrightarrow> queue_rep st q ps"
  by (simp add: represents_def)

lemma representsD_shape: "represents st A \<Longrightarrow> A q = Some ps \<Longrightarrow> shape st q ps (of_nat (length ps))"
  by (simp add: represents_def queue_rep_def)

lemma represents_owned: "represents st A \<Longrightarrow> qs_nodes st p = None \<Longrightarrow> unowned A p"
  using dll_loaded by (fastforce simp: unowned_def represents_def queue_rep_def shape_def)

lemma keeps_queue_rep:
  "keeps q S st st' \<Longrightarrow> queue_rep st r qs \<Longrightarrow> r \<noteq> q \<Longrightarrow> set qs \<inter> S = {} \<Longrightarrow> queue_rep st' r qs"
  unfolding queue_rep_def shape_def keeps_def by (auto intro: dll_frame)

lemma represents_update:
  assumes "represents st A" "A q = Some ps" "queue_rep st' q ps'" "keeps q S st st'"
    and "S \<union> set ps' \<subseteq> set ps \<union> {p. unowned A p}"
  shows "represents st' (A(q \<mapsto> ps'))"
proof -
  have disj: "set qs \<inter> (S \<union> set ps') = {}" if "A r = Some qs" "r \<noteq> q" for r qs
    using assms(1,2,5) that by (fastforce simp: represents_def unowned_def)
  have "queue_rep st' r qs" if "A r = Some qs" "r \<noteq> q" for r qs
    using keeps_queue_rep [OF assms(4) representsD [OF assms(1) that(1)] that(2)] disj [OF that] by blast
  with assms(1,3) disj show ?thesis
    unfolding represents_def by (auto split: if_splits)
qed

text \<open>An operation on links only.\<close>

lemma represents_touches:
  assumes "represents st A" "A q = Some ps" "queue_rep st' q ps'" "touches q S st st'"
    and "S \<union> set ps' \<subseteq> set ps"
  shows "represents st' (A(q \<mapsto> ps'))"
  using assms(5) by (intro represents_update [OF assms(1-3) touches_keeps [OF assms(4)]]) auto

section \<open>Adding and removing\<close>

lemma find_data_dll:
  assumes "dll h b ps NULL"
  shows "find_loop (\<lambda>_ n. qn_data n = data) h (hdp ps NULL) =
    Some (List.find (\<lambda>p. node_data h p = Some data) ps)"
proof -
  have "List.find (\<lambda>p. qn_data (the (h p)) = data) ps = List.find (\<lambda>p. node_data h p = Some data) ps"
    using dll_loaded [OF assms] by (intro find_cong refl) (fastforce simp: node_data_def)
  then show ?thesis by (simp add: find_loop_dll [OF assms])
qed

lemma dll_data: "h x = Some n \<Longrightarrow> dll h b ps e \<Longrightarrow> dll (h(x \<mapsto> n\<lparr>qn_data := v\<rparr>)) b ps e"
  by (induction ps arbitrary: b) auto

lemma queue_contains_spec:
  assumes "shape st q ps c"
  shows "queue_contains st q data =
    Some (case List.find (\<lambda>p. node_data (qs_nodes st) p = Some data) ps of
            Some node \<Rightarrow> (0, Some node) | None \<Rightarrow> (- ENOENT, None))"
proof -
  have chain: "dll (qs_nodes st) NULL ps NULL" using assms by (simp add: shape_def)
  show ?thesis
    by (simp add: queue_contains_def shape_locked [OF assms] find_data_dll [OF chain])
qed

lemma shape_loaded: "shape st q ps c \<Longrightarrow> \<forall>p \<in> set ps. p \<noteq> NULL \<and> (\<exists>n. qs_nodes st p = Some n)"
  unfolding shape_def using dll_loaded by blast

lemma queue_data_iff:
  "\<forall>p \<in> set ps. p \<noteq> NULL \<and> (\<exists>n. qs_nodes st p = Some n) \<Longrightarrow>
     data \<in> set (queue_data st ps) \<longleftrightarrow> (\<exists>p \<in> set ps. node_data (qs_nodes st) p = Some data)"
proof -
  assume "\<forall>p \<in> set ps. p \<noteq> NULL \<and> (\<exists>n. qs_nodes st p = Some n)"
  then have "data = the (node_data (qs_nodes st) p) \<longleftrightarrow> node_data (qs_nodes st) p = Some data"
    if "p \<in> set ps" for p
    using that by (auto simp: node_data_def)
  then show ?thesis by (auto simp: queue_data_def image_iff)
qed

lemma find_data_None:
  "shape st q ps c \<Longrightarrow>
     List.find (\<lambda>p. node_data (qs_nodes st) p = Some data) ps = None \<longleftrightarrow> data \<notin> set (queue_data st ps)"
  using queue_data_iff [of ps st data] shape_loaded [of st q ps c] by (auto simp: find_None_iff)

lemma count_snoc: "of_nat (length ps) + 1 = (of_nat (length (ps @ [p])) :: u64)"
  "of_nat (length ps) + 1 = (of_nat (length (p # ps)) :: u64)"
  by simp_all

lemma count_remove: "of_nat (length (as @ p # bs)) + (- 1) = (of_nat (length (as @ bs)) :: u64)"
  by simp

lemma remove_free_shape:
  assumes "shape st q (as @ p # bs) c"
  shows "\<exists>st'. remove_free st q p = Some st' \<and> shape st' q (as @ bs) (c + - 1) \<and>
    keeps q (set (as @ p # bs)) st st' \<and>
    node_data (qs_nodes st') = (node_data (qs_nodes st))(p := None)"
proof -
  obtain st1 where st1: "unlink st q p = Some st1" "shape st1 q (as @ bs) c"
    "touches q (set as \<union> set bs) st st1"
    using unlink_shape(1) [OF assms] by blast
  obtain st2 where st2: "count_add st1 q (- 1) = Some st2" "shape st2 q (as @ bs) (c + - 1)"
    "touches q {} st1 st2"
    using count_add_shape [OF st1(2)] by blast
  have p: "p \<notin> set as \<union> set bs" using assms by (simp add: shape_def)
  obtain n where n: "qs_nodes st p = Some n" "p \<noteq> NULL" using unlink_shape(3) [OF assms] by blast
  have t: "touches q (set as \<union> set bs) st st2" using touches_trans [OF st1(3) st2(3)] by simp
  then have n2: "qs_nodes st2 p = Some n" using touches_node [OF t p] n by simp
  let ?st = "st2\<lparr>qs_nodes := (qs_nodes st2)(p := None)\<rparr>"
  have "remove_free st q p = Some ?st"
    using st1(1) st2(1) n2 n(2) by (simp add: remove_free_def kfree_node_def)
  moreover have "shape ?st q (as @ bs) (c + - 1)"
    using st2(2) p by (auto simp: shape_def intro: dll_frame)
  moreover have "keeps q (set (as @ p # bs)) st ?st"
    using touches_keeps [OF t] by (auto simp: keeps_def)
  moreover have "node_data (qs_nodes ?st) = (node_data (qs_nodes st))(p := None)"
    using touches_data [OF t] by (auto simp: node_data_def fun_eq_iff)
  ultimately show ?thesis by blast
qed

lemma remove_free_represents:
  assumes "represents st A" "A q = Some (as @ p # bs)"
  shows "\<exists>st'. remove_free st q p = Some st' \<and> represents st' (A(q \<mapsto> as @ bs)) \<and>
    node_data (qs_nodes st') = (node_data (qs_nodes st))(p := None)"
proof -
  obtain st' where st': "remove_free st q p = Some st'"
    "shape st' q (as @ bs) (of_nat (length (as @ p # bs)) + - 1)" "keeps q (set (as @ p # bs)) st st'"
    "node_data (qs_nodes st') = (node_data (qs_nodes st))(p := None)"
    using remove_free_shape [OF representsD_shape [OF assms]] by blast
  then have "queue_rep st' q (as @ bs)"
    unfolding queue_rep_def count_remove by simp
  from represents_update [OF assms this st'(3)] st' show ?thesis by auto
qed

text \<open>
  What the operations that add a node need of a way of attaching it: \<open>attach\<close> puts a loose node
  into the chain at the place given by \<open>place\<close> and touches the nodes of that queue only.
\<close>

locale attach_end =
  fixes attach :: "qstate \<Rightarrow> addr \<Rightarrow> addr \<Rightarrow> qstate option"
    and place :: "addr \<Rightarrow> addr list \<Rightarrow> addr list"
  assumes attach_shape: "shape st q ps c \<Longrightarrow> loose st p \<Longrightarrow> p \<notin> set ps \<Longrightarrow>
      \<exists>st'. attach st q p = Some st' \<and> shape st' q (place p ps) c \<and> touches q (insert p (set ps)) st st'"
    and place_length: "length (place p ps) = Suc (length ps)"
    and place_set: "set (place p ps) = insert p (set ps)"
begin

lemma enqueue_with_spec:
  assumes rep: "represents st A" "A q = Some ps" and p: "p \<noteq> NULL" "qs_nodes st p = None"
    and new: "uniqueness \<noteq> QUEUE_UNIQUE \<or> data \<notin> set (queue_data st ps)"
  shows "\<exists>st'. enqueue_with attach p st q data uniqueness = Some (0, Some p, st') \<and>
    represents st' (A(q \<mapsto> place p ps)) \<and>
    node_data (qs_nodes st') = (node_data (qs_nodes st))(p \<mapsto> data)"
proof -
  let ?ps' = "place p ps"
  let ?n = "\<lparr>qn_prev = NULL, qn_data = data, qn_next = NULL\<rparr>"
  let ?st = "st\<lparr>qs_nodes := (qs_nodes st)(p \<mapsto> ?n)\<rparr>"
  note shp = representsD_shape [OF rep]
  have out: "p \<notin> set ps" and free: "unowned A p"
    using represents_owned [OF rep(1) p(2)] rep(2) by (auto simp: unowned_def)
  have s1: "shape ?st q ps (of_nat (length ps))" "loose ?st p"
    using shp out p(1) by (auto simp: shape_def loose_def intro: dll_frame)
  obtain st1 where st1: "attach ?st q p = Some st1" "shape st1 q ?ps' (of_nat (length ps))"
    "touches q (insert p (set ps)) ?st st1"
    using attach_shape [OF s1 out] by blast
  obtain st2 where st2: "count_add st1 q 1 = Some st2" "shape st2 q ?ps' (of_nat (length ps) + 1)"
    "touches q {} st1 st2"
    using count_add_shape [OF st1(2)] by blast
  have r: "queue_rep st2 q ?ps'" using st2(2) place_length by (simp add: queue_rep_def add.commute)
  have t: "touches q (insert p (set ps)) ?st st2" using touches_trans [OF st1(3) st2(3)] by simp
  have "keeps q {p} st ?st" by (simp add: keeps_def)
  then have "keeps q (insert p (set ps)) st st2"
    using keeps_trans [OF _ touches_keeps [OF t]] by fastforce
  then have "represents st2 (A(q \<mapsto> ?ps'))"
    using represents_update [OF rep r] place_set free by auto
  moreover have "node_data (qs_nodes st2) = (node_data (qs_nodes st))(p \<mapsto> data)"
    using touches_data [OF t] by (auto simp: node_data_def fun_eq_iff)
  moreover have "enqueue_with attach p st q data uniqueness = Some (0, Some p, st2)"
    using new p st1(1) st2(1) shape_locked [OF shp] queue_contains_spec [OF shp, of data]
      find_data_None [OF shp, of data]
    by (auto simp: enqueue_with_def Let_def)
  ultimately show ?thesis by blast
qed

text \<open>The same for a node that the caller provides, with its links cleared.\<close>

lemma attach_counted:
  assumes "represents st A" "A q = Some ps" "loose st p" "unowned A p"
  shows "\<exists>st1 st'. attach st q p = Some st1 \<and> count_add st1 q 1 = Some st' \<and>
    represents st' (A(q \<mapsto> place p ps)) \<and> touches q (insert p (set ps)) st st'"
proof -
  have out: "p \<notin> set ps" using assms(2,4) by (simp add: unowned_def)
  obtain st1 where st1: "attach st q p = Some st1" "shape st1 q (place p ps) (of_nat (length ps))"
    "touches q (insert p (set ps)) st st1"
    using attach_shape [OF representsD_shape [OF assms(1,2)] assms(3) out] by blast
  obtain st2 where st2: "count_add st1 q 1 = Some st2"
    "shape st2 q (place p ps) (of_nat (length ps) + 1)" "touches q {} st1 st2"
    using count_add_shape [OF st1(2)] by blast
  have r: "queue_rep st2 q (place p ps)"
    using st2(2) place_length by (simp add: queue_rep_def add.commute)
  have t: "touches q (insert p (set ps)) st st2" using touches_trans [OF st1(3) st2(3)] by simp
  have "represents st2 (A(q \<mapsto> place p ps))"
    using represents_update [OF assms(1,2) r touches_keeps [OF t]] assms(4) place_set by auto
  then show ?thesis using st1(1) st2(1) t by blast
qed

end

interpretation at_tail: attach_end attach_tail "\<lambda>p ps. ps @ [p]"
  by unfold_locales (auto intro: attach_tail_shape)

interpretation at_head: attach_end attach_head "(#)"
  by unfold_locales (auto intro: attach_head_shape)

lemma enqueue_with_errors:
  assumes "represents st A" "A q = Some ps"
  shows "uniqueness = QUEUE_UNIQUE \<Longrightarrow> data \<in> set (queue_data st ps) \<Longrightarrow>
      enqueue_with attach p st q data uniqueness = Some (- EEXIST, None, st)"
    and "\<not> (uniqueness = QUEUE_UNIQUE \<and> data \<in> set (queue_data st ps)) \<Longrightarrow>
      enqueue_with attach NULL st q data uniqueness = Some (- ENOMEM, None, st)"
  using shape_locked [OF representsD_shape [OF assms]]
    queue_contains_spec [OF representsD_shape [OF assms], of data]
    find_data_None [OF representsD_shape [OF assms], of data]
  by (auto simp: enqueue_with_def split: option.splits)


lemma enqueue_appends_cases:
  assumes "represents st A" "A q = Some ps" "p \<noteq> NULL" "qs_nodes st p = None"
  shows "uniqueness = QUEUE_UNIQUE \<and> data \<in> set (queue_data st ps) \<Longrightarrow>
      enqueue p st q data uniqueness = Some (- EEXIST, None, st)"
    and "\<not> (uniqueness = QUEUE_UNIQUE \<and> data \<in> set (queue_data st ps)) \<Longrightarrow>
      \<exists>st'. enqueue p st q data uniqueness = Some (0, Some p, st') \<and>
      represents st' (A(q \<mapsto> ps @ [p])) \<and> node_data (qs_nodes st') = (node_data (qs_nodes st))(p \<mapsto> data)"
    and "\<not> (uniqueness = QUEUE_UNIQUE \<and> data \<in> set (queue_data st ps)) \<Longrightarrow>
      enqueue NULL st q data uniqueness = Some (- ENOMEM, None, st)"
  using enqueue_with_errors [OF assms(1,2)] at_tail.enqueue_with_spec [OF assms(1-4)]
  by (auto simp: enqueue_def)

text \<open>C10: \<^verbatim>\<open>enqueue\<close> appends.  On a queue of nodes \<open>ps\<close> with free memory at \<open>p\<close>, it either
  refuses a duplicate with \<^verbatim>\<open>-EEXIST\<close> and changes nothing, or adds the node \<open>p\<close> holding
  \<open>data\<close> at the tail; the data of the other nodes and all other queues are unchanged.  Without
  memory it answers \<^verbatim>\<open>-ENOMEM\<close>.\<close>

theorem enqueue_appends:
  assumes "represents st A" "A q = Some ps" "p \<noteq> NULL" "qs_nodes st p = None"
  shows "((uniqueness = QUEUE_UNIQUE \<and> data \<in> set (queue_data st ps)) \<longrightarrow> (enqueue p st q data uniqueness = Some (- EEXIST, None, st))) \<and>
    ((\<not> (uniqueness = QUEUE_UNIQUE \<and> data \<in> set (queue_data st ps))) \<longrightarrow> (\<exists>st'. enqueue p st q data uniqueness = Some (0, Some p, st') \<and>
      represents st' (A(q \<mapsto> ps @ [p])) \<and> node_data (qs_nodes st') = (node_data (qs_nodes st))(p \<mapsto> data))) \<and>
    ((\<not> (uniqueness = QUEUE_UNIQUE \<and> data \<in> set (queue_data st ps))) \<longrightarrow> (enqueue NULL st q data uniqueness = Some (- ENOMEM, None, st)))"
  by (intro conjI impI) (rule enqueue_appends_cases [OF assms]; assumption)+

lemma enqueue_head_prepends:
  assumes "represents st A" "A q = Some ps" "p \<noteq> NULL" "qs_nodes st p = None"
    "\<not> (uniqueness = QUEUE_UNIQUE \<and> data \<in> set (queue_data st ps))"
  shows "\<exists>st'. enqueue_head p st q data uniqueness = Some (0, Some p, st') \<and>
      represents st' (A(q \<mapsto> p # ps)) \<and> node_data (qs_nodes st') = (node_data (qs_nodes st))(p \<mapsto> data)"
  using at_head.enqueue_with_spec [OF assms(1-4)] assms(5)
  by (auto simp: enqueue_head_def)

lemma dequeue_at_nonempty:
  assumes rep: "represents st A" "A q = Some (as @ p # bs)"
    and which: "\<And>c l. which \<lparr>q_head = hdp (as @ p # bs) NULL, q_tail = lastp NULL (as @ p # bs),
      q_count = c, q_lock = l\<rparr> = p"
  shows "\<exists>st'. dequeue_at which st q True = Some (0, node_data (qs_nodes st) p, st') \<and>
    represents st' (A(q \<mapsto> as @ bs)) \<and> node_data (qs_nodes st') = (node_data (qs_nodes st))(p := None)"
proof -
  note shp = representsD_shape [OF rep]
  obtain n where n: "qs_nodes st p = Some n" "p \<noteq> NULL" using unlink_shape(3) [OF shp] by blast
  obtain st' where "remove_free st q p = Some st'" "represents st' (A(q \<mapsto> as @ bs))"
    "node_data (qs_nodes st') = (node_data (qs_nodes st))(p := None)"
    using remove_free_represents [OF rep] by blast
  with n show ?thesis
    unfolding dequeue_at_def shape_locked [OF shp] by (simp add: which [simplified] node_data_def)
qed

lemma dequeue_empty:
  assumes "represents st A" "A q = Some []"
  shows "dequeue st q True = Some (- ENOENT, None, st)" "dequeue_tail st q True = Some (- ENOENT, None, st)"
  using shape_locked [OF representsD_shape [OF assms]]
  by (simp_all add: dequeue_def dequeue_tail_def dequeue_at_def)

lemma dequeue_nonempty:
  assumes "represents st A" "A q = Some (p # ps)"
  shows "\<exists>st'. dequeue st q True = Some (0, node_data (qs_nodes st) p, st') \<and>
    represents st' (A(q \<mapsto> ps)) \<and> node_data (qs_nodes st') = (node_data (qs_nodes st))(p := None)"
  using dequeue_at_nonempty [of st A q "[]" p ps q_head] assms by (simp add: dequeue_def)

lemma dequeue_tail_nonempty:
  assumes "represents st A" "A q = Some (ps @ [p])"
  shows "\<exists>st'. dequeue_tail st q True = Some (0, node_data (qs_nodes st) p, st') \<and>
    represents st' (A(q \<mapsto> ps)) \<and> node_data (qs_nodes st') = (node_data (qs_nodes st))(p := None)"
  using dequeue_at_nonempty [of st A q ps p "[]" q_tail] assms by (simp add: dequeue_tail_def)

lemma dequeue_takes_ends_cases:
  assumes "represents st A" "A q = Some ps"
  shows "ps \<noteq> [] \<Longrightarrow> \<exists>st'. dequeue st q True = Some (0, node_data (qs_nodes st) (hd ps), st') \<and>
      represents st' (A(q \<mapsto> tl ps)) \<and>
      node_data (qs_nodes st') = (node_data (qs_nodes st))(hd ps := None)"
    and "ps \<noteq> [] \<Longrightarrow> \<exists>st'. dequeue_tail st q True = Some (0, node_data (qs_nodes st) (last ps), st') \<and>
      represents st' (A(q \<mapsto> butlast ps)) \<and>
      node_data (qs_nodes st') = (node_data (qs_nodes st))(last ps := None)"
    and "ps = [] \<Longrightarrow> dequeue st q True = Some (- ENOENT, None, st) \<and>
      dequeue_tail st q True = Some (- ENOENT, None, st)"
  using assms dequeue_nonempty [OF assms(1), of q "hd ps" "tl ps"]
    dequeue_tail_nonempty [OF assms(1), of q "butlast ps" "last ps"] dequeue_empty [OF assms(1)]
  by auto

text \<open>\<^verbatim>\<open>dequeue\<close> and \<^verbatim>\<open>dequeue_tail\<close> take from the two ends: on a nonempty queue they return
  the data of the first or last node, free that node and leave the rest in order; on an empty
  queue they answer \<^verbatim>\<open>-ENOENT\<close>.  No other queue and no other node's data change.\<close>

theorem dequeue_takes_ends:
  assumes "represents st A" "A q = Some ps"
  shows "(ps \<noteq> [] \<longrightarrow> (\<exists>st'. dequeue st q True = Some (0, node_data (qs_nodes st) (hd ps), st') \<and>
      represents st' (A(q \<mapsto> tl ps)) \<and>
      node_data (qs_nodes st') = (node_data (qs_nodes st))(hd ps := None))) \<and>
    (ps \<noteq> [] \<longrightarrow> (\<exists>st'. dequeue_tail st q True = Some (0, node_data (qs_nodes st) (last ps), st') \<and>
      represents st' (A(q \<mapsto> butlast ps)) \<and>
      node_data (qs_nodes st') = (node_data (qs_nodes st))(last ps := None))) \<and>
    (ps = [] \<longrightarrow> (dequeue st q True = Some (- ENOENT, None, st) \<and>
      dequeue_tail st q True = Some (- ENOENT, None, st)))"
  using dequeue_takes_ends_cases [OF assms] by blast

section \<open>Searching, removing and reordering\<close>

lemma find_node_dll:
  assumes "dll h b ps NULL"
  shows "find_loop (\<lambda>p _. x = p) h (hdp ps NULL) = Some (if x \<in> set ps then Some x else None)"
proof -
  have "List.find (\<lambda>p. x = p) ps = (if x \<in> set ps then Some x else None)"
    by (induction ps) auto
  then show ?thesis by (simp add: find_loop_dll [OF assms])
qed

lemma queue_remove_node_exact_cases:
  assumes "represents st A" "A q = Some ps" "node \<noteq> NULL"
  shows "node \<in> set ps \<Longrightarrow> \<exists>st'. queue_remove_node st q node = Some (0, st') \<and>
      represents st' (A(q \<mapsto> remove1 node ps)) \<and>
      node_data (qs_nodes st') = (node_data (qs_nodes st))(node := None)"
    and "node \<notin> set ps \<Longrightarrow> queue_remove_node st q node = Some (- ENOENT, st)"
proof -
  note shp = representsD_shape [OF assms(1,2)]
  have chain: "dll (qs_nodes st) NULL ps NULL" "distinct ps" using shp by (auto simp: shape_def)
  show "queue_remove_node st q node = Some (- ENOENT, st)" if "node \<notin> set ps"
    using that assms(3) by (simp add: queue_remove_node_def shape_locked [OF shp] find_node_dll [OF chain(1)])
  show "\<exists>st'. queue_remove_node st q node = Some (0, st') \<and> represents st' (A(q \<mapsto> remove1 node ps)) \<and>
      node_data (qs_nodes st') = (node_data (qs_nodes st))(node := None)" if mem: "node \<in> set ps"
  proof -
    obtain as bs where ps: "ps = as @ node # bs" using mem by (meson split_list)
    then have "remove1 node ps = as @ bs" using chain(2) by (simp add: remove1_append)
    then show ?thesis
      using remove_free_represents [OF assms(1) assms(2) [unfolded ps]] mem assms(3)
      by (auto simp: queue_remove_node_def shape_locked [OF shp] find_node_dll [OF chain(1)])
  qed
qed

text \<open>\<^verbatim>\<open>queue_remove_node\<close> removes exactly the node it is given, wherever it stands in the
  queue, and answers \<^verbatim>\<open>-ENOENT\<close> without a change when the node is not on the queue.\<close>

theorem queue_remove_node_exact:
  assumes "represents st A" "A q = Some ps" "node \<noteq> NULL"
  shows "(node \<in> set ps \<longrightarrow> (\<exists>st'. queue_remove_node st q node = Some (0, st') \<and>
      represents st' (A(q \<mapsto> remove1 node ps)) \<and>
      node_data (qs_nodes st') = (node_data (qs_nodes st))(node := None))) \<and>
    (node \<notin> set ps \<longrightarrow> (queue_remove_node st q node = Some (- ENOENT, st)))"
  using queue_remove_node_exact_cases [OF assms] by blast

lemma queue_remove_first_cases:
  assumes "represents st A" "A q = Some ps"
  shows "data \<in> set (queue_data st ps) \<Longrightarrow>
      \<exists>as p bs st'. ps = as @ p # bs \<and> node_data (qs_nodes st) p = Some data \<and>
        data \<notin> set (queue_data st as) \<and> queue_remove st q data = Some (0, st') \<and>
        represents st' (A(q \<mapsto> as @ bs)) \<and>
        node_data (qs_nodes st') = (node_data (qs_nodes st))(p := None)"
    and "data \<notin> set (queue_data st ps) \<Longrightarrow> queue_remove st q data = Some (- ENOENT, st)"
proof -
  note shp = representsD_shape [OF assms(1,2)]
  have chain: "dll (qs_nodes st) NULL ps NULL" using shp by (auto simp: shape_def)
  note find = find_data_dll [OF chain]
  show "queue_remove st q data = Some (- ENOENT, st)" if "data \<notin> set (queue_data st ps)"
    using that find_data_None [OF shp, of data]
    by (simp add: queue_remove_def shape_locked [OF shp] find)
  show "\<exists>as p bs st'. ps = as @ p # bs \<and> node_data (qs_nodes st) p = Some data \<and>
        data \<notin> set (queue_data st as) \<and> queue_remove st q data = Some (0, st') \<and>
        represents st' (A(q \<mapsto> as @ bs)) \<and>
        node_data (qs_nodes st') = (node_data (qs_nodes st))(p := None)"
    if mem: "data \<in> set (queue_data st ps)"
  proof -
    obtain p where p: "List.find (\<lambda>p. node_data (qs_nodes st) p = Some data) ps = Some p"
      using mem find_data_None [OF shp, of data] by auto
    then obtain as bs where ps: "ps = as @ p # bs" "node_data (qs_nodes st) p = Some data"
      "\<forall>x \<in> set as. node_data (qs_nodes st) x \<noteq> Some data"
      using find_split [OF p] by blast
    have "data \<notin> set (queue_data st as)"
      using ps(1,3) shape_loaded [OF shp] queue_data_iff [of as st data] by auto
    moreover obtain st' where "remove_free st q p = Some st'" "represents st' (A(q \<mapsto> as @ bs))"
      "node_data (qs_nodes st') = (node_data (qs_nodes st))(p := None)"
      using remove_free_represents [OF assms(1) assms(2) [unfolded ps(1)]] by blast
    moreover from this(1) have "queue_remove st q data = Some (0, st')"
      by (simp add: queue_remove_def shape_locked [OF shp] find p)
    ultimately show ?thesis using ps by blast
  qed
qed

text \<open>\<^verbatim>\<open>queue_remove\<close> removes the first node that holds \<open>data\<close>, and only that one;
  when no node holds it the answer is \<^verbatim>\<open>-ENOENT\<close>.\<close>

theorem queue_remove_first:
  assumes "represents st A" "A q = Some ps"
  shows "(data \<in> set (queue_data st ps) \<longrightarrow> (\<exists>as p bs st'. ps = as @ p # bs \<and> node_data (qs_nodes st) p = Some data \<and>
        data \<notin> set (queue_data st as) \<and> queue_remove st q data = Some (0, st') \<and>
        represents st' (A(q \<mapsto> as @ bs)) \<and>
        node_data (qs_nodes st') = (node_data (qs_nodes st))(p := None))) \<and>
    (data \<notin> set (queue_data st ps) \<longrightarrow> (queue_remove st q data = Some (- ENOENT, st)))"
  using queue_remove_first_cases [OF assms] by blast

lemma rellocate_node_moves:
  assumes rep: "represents st A" "A q = Some (as @ p # bs)"
    and whence: "whence = QUEUE_HEAD \<or> whence = QUEUE_TAIL"
  shows "\<exists>st'. queue_rellocate_node st q p whence = Some (0, st') \<and>
    represents st' (A(q \<mapsto> if whence = QUEUE_HEAD then p # as @ bs else as @ bs @ [p])) \<and>
    node_data (qs_nodes st') = node_data (qs_nodes st)"
proof -
  note shp = representsD_shape [OF rep]
  let ?c = "of_nat (length (as @ p # bs)) :: u64"
  let ?ps = "if whence = QUEUE_HEAD then p # as @ bs else as @ bs @ [p]"
  obtain n where n: "qs_nodes st p = Some n" "p \<noteq> NULL" using unlink_shape(3) [OF shp] by blast
  have p: "p \<notin> set (as @ bs)" and q: "q \<noteq> NULL" using shp by (simp_all add: shape_def)
  obtain st1 where st1: "unlink_rev st q p = Some st1" "shape st1 q (as @ bs) ?c"
    "touches q (set as \<union> set bs) st st1"
    using unlink_shape(2) [OF shp] by blast
  have n1: "qs_nodes st1 p = Some n" using touches_node [OF st1(3)] p n by simp
  obtain st2 where st2: "clear_links st1 p = Some st2" "touches q {p} st1 st2"
    "qs_queues st2 = qs_queues st1" "qs_nodes st2 p = Some (n\<lparr>qn_prev := NULL, qn_next := NULL\<rparr>)"
    using clear_links_node [OF n(2) n1] by blast
  have s2: "shape st2 q (as @ bs) ?c"
    using st1(2) st2(2,3) p by (auto simp: shape_def touches_def intro: links_only_dll)
  have l2: "loose st2 p" using st2(4) n(2) by (simp add: loose_def)
  obtain st3 where st3: "(if whence = QUEUE_HEAD then attach_head st2 q p else attach_tail st2 q p) = Some st3"
    "shape st3 q ?ps ?c" "touches q (insert p (set (as @ bs))) st2 st3"
    using attach_head_shape [OF s2 l2 p] attach_tail_shape [OF s2 l2 p]
    by (cases "whence = QUEUE_HEAD") auto
  have t: "touches q (set (as @ p # bs)) st st3"
    by (rule touches_mono [OF touches_trans [OF touches_trans [OF st1(3) st2(2)] st3(3)]]) auto
  have "queue_rep st3 q ?ps"
    using st3(2) by (simp add: queue_rep_def add.commute split: if_splits)
  then have "represents st3 (A(q \<mapsto> ?ps))"
    by (rule represents_touches [OF rep _ t]) auto
  moreover have "queue_rellocate_node st q p whence = Some (0, st3)"
    using whence n(2) q st1(1) st2(1) st3(1)
    by (auto simp: queue_rellocate_node_def shape_locked [OF shp])
  ultimately show ?thesis using touches_data [OF t] by auto
qed

text \<open>\<^verbatim>\<open>queue_rellocate_node\<close> moves a node of the queue to its front or its back and keeps
  the order of the others, the counter and all data.\<close>

theorem queue_rellocate_node_moves:
  assumes rep: "represents st A" "A q = Some (as @ p # bs)"
    and whence: "whence = QUEUE_HEAD \<or> whence = QUEUE_TAIL"
  shows "\<exists>st'. queue_rellocate_node st q p whence = Some (0, st') \<and>
    represents st' (A(q \<mapsto> if whence = QUEUE_HEAD then p # as @ bs else as @ bs @ [p])) \<and>
    node_data (qs_nodes st') = node_data (qs_nodes st)"
  using assms by (rule rellocate_node_moves)


section \<open>The theorems at a concrete state\<close>

text \<open>Two queues, at addresses 1 and 2, with the nodes 16, 32 and 48.\<close>

definition sample_queues :: qstate where
  "sample_queues = \<lparr>
     qs_nodes = [16 \<mapsto> \<lparr>qn_prev = 0, qn_data = 7, qn_next = 32\<rparr>,
                 32 \<mapsto> \<lparr>qn_prev = 16, qn_data = 8, qn_next = 0\<rparr>,
                 48 \<mapsto> \<lparr>qn_prev = 0, qn_data = 9, qn_next = 0\<rparr>],
     qs_queues = [1 \<mapsto> \<lparr>q_head = 16, q_tail = 32, q_count = 2, q_lock = True\<rparr>,
                  2 \<mapsto> \<lparr>q_head = 48, q_tail = 48, q_count = 1, q_lock = True\<rparr>]\<rparr>"

definition sample_abs :: queues where
  "sample_abs = [1 \<mapsto> [16, 32], 2 \<mapsto> [48]]"

lemma sample_represents [simp]: "represents sample_queues sample_abs"
  by (auto simp: represents_def queue_rep_def shape_def sample_queues_def sample_abs_def split: if_splits)

lemma sample_abs_simps [simp]: "sample_abs 1 = Some [16, 32]" "sample_abs 2 = Some [48]"
  by (simp_all add: sample_abs_def)

lemma sample_nodes [simp]:
  "qs_nodes sample_queues 64 = None" "queue_data sample_queues [16, 32] = [7, 8]"
  "node_data (qs_nodes sample_queues) 16 = Some 7" "node_data (qs_nodes sample_queues) 32 = Some 8"
  "node_data (qs_nodes sample_queues) 48 = Some 9"
  by (simp_all add: sample_queues_def queue_data_def node_data_def)

theorem enqueue_appends_witness:
  "enqueue 64 sample_queues 1 7 QUEUE_UNIQUE = Some (- EEXIST, None, sample_queues) \<and>
   (\<exists>st'. enqueue 64 sample_queues 1 5 QUEUE_UNIQUE = Some (0, Some 64, st') \<and>
      represents st' (sample_abs(1 \<mapsto> [16, 32, 64])))"
  using enqueue_appends [of sample_queues sample_abs 1 "[16, 32]" 64 QUEUE_UNIQUE 7]
    enqueue_appends [of sample_queues sample_abs 1 "[16, 32]" 64 QUEUE_UNIQUE 5]
  by auto

theorem dequeue_takes_ends_witness:
  "\<exists>st'. dequeue sample_queues 1 True = Some (0, Some 7, st') \<and> represents st' (sample_abs(1 \<mapsto> [32]))"
  using dequeue_takes_ends [of sample_queues sample_abs 1 "[16, 32]"] by auto

theorem queue_remove_node_exact_witness:
  "(\<exists>st'. queue_remove_node sample_queues 1 32 = Some (0, st') \<and> represents st' (sample_abs(1 \<mapsto> [16]))) \<and>
   queue_remove_node sample_queues 1 48 = Some (- ENOENT, sample_queues)"
  using queue_remove_node_exact [of sample_queues sample_abs 1 "[16, 32]" 32]
    queue_remove_node_exact [of sample_queues sample_abs 1 "[16, 32]" 48] by auto

theorem queue_remove_first_witness:
  "(\<exists>st'. queue_remove sample_queues 1 8 = Some (0, st')) \<and>
   queue_remove sample_queues 1 9 = Some (- ENOENT, sample_queues)"
  using queue_remove_first [of sample_queues sample_abs 1 "[16, 32]" 8]
    queue_remove_first [of sample_queues sample_abs 1 "[16, 32]" 9] by auto

theorem queue_rellocate_node_moves_witness:
  "\<exists>st'. queue_rellocate_node sample_queues 1 32 QUEUE_HEAD = Some (0, st') \<and>
     represents st' (sample_abs(1 \<mapsto> [32, 16]))"
  using queue_rellocate_node_moves [of sample_queues sample_abs 1 "[16]" 32 "[]" QUEUE_HEAD] by auto

end
