(* ===== verification/Queue_Moves.thy ===== *)
theory Queue_Moves
  imports Queue
begin

text \<open>
  The operations of \<^verbatim>\<open>src/src/kernel/ds/queue/queue.c\<close> that move many nodes: migrating a
  range of nodes to another queue, moving a whole queue, and flushing one; with the remaining
  single-queue operations (peek, replace, relocate by data).
\<close>

section \<open>Segments\<close>

lemma dll_hd:
  assumes "dll h b ms e" "ms \<noteq> []"
  shows "\<exists>n. h (hd ms) = Some n \<and> qn_prev n = b" "hdp ms x = hd ms" "hd ms \<noteq> NULL" "lastp x ms = last ms"
  using assms by (cases ms; auto simp: lastp_def)+

lemma dll_last:
  assumes "dll h b ms e" "ms \<noteq> []"
  shows "\<exists>n. h (last ms) = Some n \<and> qn_next n = e" "last ms \<noteq> NULL"
  using assms by (cases ms rule: rev_cases; auto)+

lemma cut_segment_shape:
  assumes shp: "shape st q (as @ ms @ bs) c" and ms: "ms \<noteq> []"
  shows "\<exists>st'. cut_segment st q (hd ms) (last ms) = Some st' \<and> shape st' q (as @ bs) c \<and>
    dll (qs_nodes st') (lastp NULL as) ms (hdp bs NULL) \<and> touches q (set as \<union> set bs) st st'"
proof -
  let ?h = "qs_nodes st"
  have q: "q \<noteq> NULL" and d: "distinct (as @ bs)" "set ms \<inter> (set as \<union> set bs) = {}"
    and qr: "qs_queues st q = Some \<lparr>q_head = hdp as (hd ms), q_tail = lastp (last ms) bs,
        q_count = c, q_lock = True\<rparr>"
    and chain: "dll ?h NULL as (hd ms)" "dll ?h (lastp NULL as) ms (hdp bs NULL)" "dll ?h (last ms) bs NULL"
    using shp ms by (auto simp: shape_def dll_hd(2,4))
  obtain f where f: "?h (hd ms) = Some f" "qn_prev f = lastp NULL as" "hd ms \<noteq> NULL"
    using dll_hd [OF chain(2) ms] by blast
  obtain l where l: "?h (last ms) = Some l" "qn_next l = hdp bs NULL" "last ms \<noteq> NULL"
    using dll_last [OF chain(2) ms] by blast
  obtain h1 h2 where h: "link_next ?h (lastp NULL as) (hdp bs NULL) = Some h1"
    "link_prev h1 (hdp bs NULL) (lastp NULL as) = Some h2"
    "dll h2 NULL as (hdp bs NULL)" "dll h2 (lastp NULL as) bs NULL" "links_only (set as \<union> set bs) ?h h2"
    using join_dll [OF chain(1,3) d(1)] by blast
  have "links_only (set as) ?h h1"
    using link_next_dll [OF chain(1), of "hdp bs NULL"] d(1) h(1) by auto
  then have h1: "h1 (hd ms) = Some f" "h1 (last ms) = Some l"
    using f(1) l(1) d(2) hd_in_set [OF ms] last_in_set [OF ms] by (auto simp: links_only_def)
  have ms2: "dll h2 (lastp NULL as) ms (hdp bs NULL)"
    using links_only_dll [OF h(5) chain(2)] d(2) by blast
  have ends: "as \<noteq> [] \<Longrightarrow> hdp as x = hdp as y" "bs \<noteq> [] \<Longrightarrow> lastp x bs = lastp y bs"
    "lastp NULL as = NULL \<longleftrightarrow> as = []" "hdp bs NULL = NULL \<longleftrightarrow> bs = []" for x y
    using lastp_eq_iff [OF chain(1)] hdp_eq_iff [OF chain(3)] by (auto simp: neq_Nil_conv)
  let ?q' = "\<lparr>q_head = hdp as (hdp bs NULL), q_tail = lastp (lastp NULL as) bs, q_count = c, q_lock = True\<rparr>"
  have "\<exists>st'. cut_segment st q (hd ms) (last ms) = Some st' \<and> qs_nodes st' = h2 \<and>
      qs_queues st' q = Some ?q' \<and> (\<forall>r. r \<noteq> q \<longrightarrow> qs_queues st' r = qs_queues st r)"
    using q qr f l h(1,2) h1 ends
    by (cases "as = []"; cases "bs = []")
       (auto simp: cut_segment_def link_next_def link_prev_def)
  then show ?thesis
    using q d(1) h(3-5) ms2 by (auto simp: shape_def touches_def)
qed

lemma detach_segment_shape:
  assumes shp: "shape st q (as @ ms @ bs) c" and ms: "ms \<noteq> []"
  shows "\<exists>st'. detach_segment st q (hd ms) (last ms) k = Some st' \<and> shape st' q (as @ bs) (c - k) \<and>
    dll (qs_nodes st') NULL ms NULL \<and> touches q (set (as @ ms @ bs)) st st'"
proof -
  have d: "distinct ms" "set ms \<inter> (set as \<union> set bs) = {}" using shp by (auto simp: shape_def)
  obtain st1 where st1: "cut_segment st q (hd ms) (last ms) = Some st1" "shape st1 q (as @ bs) c"
    "dll (qs_nodes st1) (lastp NULL as) ms (hdp bs NULL)" "touches q (set as \<union> set bs) st st1"
    using cut_segment_shape [OF assms] by blast
  obtain st2 where st2: "count_add st1 q (- k) = Some st2" "shape st2 q (as @ bs) (c + - k)"
    "touches q {} st1 st2" "qs_nodes st2 = qs_nodes st1"
    using count_add_shape [OF st1(2)] by blast
  note c = st1(3) [folded st2(4)]
  obtain h1 where h1: "set_prev (qs_nodes st2) (hd ms) NULL = Some h1" "dll h1 NULL ms (hdp bs NULL)"
    "links_only (set ms) (qs_nodes st2) h1"
    using link_prev_dll [OF c d(1), of NULL] dll_hd [OF c ms] by (auto simp: link_prev_def)
  obtain h2 where h2: "set_next h1 (last ms) NULL = Some h2" "dll h2 NULL ms NULL" "links_only (set ms) h1 h2"
    using link_next_dll [OF h1(2) d(1), of NULL] dll_hd(4) [OF h1(2) ms] dll_last(2) [OF h1(2) ms]
    by (auto simp: link_next_def)
  have l: "links_only (set ms) (qs_nodes st2) h2" using links_only_trans [OF h1(3) h2(3)] by simp
  let ?st = "st2\<lparr>qs_nodes := h2\<rparr>"
  have "shape ?st q (as @ bs) (c - k)"
    using st2(2) links_only_dll [OF l] d(2) by (auto simp: shape_def)
  moreover have "touches q (set ms) st2 ?st" using l by (simp add: touches_def)
  then have "touches q (set (as @ ms @ bs)) st ?st"
    using touches_trans [OF touches_trans [OF st1(4) st2(3)]] by (auto intro: touches_mono)
  ultimately show ?thesis
    using st1(1) st2(1) h1(1) h2(1,2) by (auto simp: detach_segment_def)
qed

lemma attach_segment_shape:
  assumes shp: "shape st q ds c" and seg: "dll (qs_nodes st) NULL ms NULL" "distinct ms" "ms \<noteq> []"
    and disj: "set ms \<inter> set ds = {}" and whence: "whence = QUEUE_HEAD \<or> whence = QUEUE_TAIL"
  shows "\<exists>st'. attach_segment st q (hd ms) (last ms) whence = Some st' \<and>
    shape st' q (if whence = QUEUE_HEAD then ms @ ds else ds @ ms) c \<and>
    touches q (set ms \<union> set ds) st st'"
proof -
  have ds: "dll (qs_nodes st) NULL ds NULL" "distinct ds" and q: "q \<noteq> NULL"
    and qr: "qs_queues st q = Some \<lparr>q_head = hdp ds NULL, q_tail = lastp NULL ds, q_count = c, q_lock = True\<rparr>"
    using shp by (auto simp: shape_def)
  note ends = lastp_eq_iff [OF ds(1)] hdp_eq_iff [OF ds(1)]
  have ne: "ds \<noteq> [] \<Longrightarrow> hdp ds x = hdp ds y" "ds \<noteq> [] \<Longrightarrow> lastp x ds = lastp y ds" for x y
    by (auto simp: neq_Nil_conv)
  note m = dll_hd(2-4) [OF seg(1,3)] dll_last(2) [OF seg(1,3)]
  show ?thesis
  proof (cases "whence = QUEUE_HEAD")
    case True
    obtain h1 h2 where "link_next (qs_nodes st) (lastp NULL ms) (hdp ds NULL) = Some h1"
      "link_prev h1 (hdp ds NULL) (lastp NULL ms) = Some h2"
      "dll h2 NULL ms (hdp ds NULL)" "dll h2 (lastp NULL ms) ds NULL" "links_only (set ms \<union> set ds) (qs_nodes st) h2"
      using join_dll [OF seg(1) ds(1)] seg(2) ds(2) disj by auto
    then show ?thesis
      using True q qr m ends seg(2) ds(2) disj ne
      by (cases "ds = []") (auto simp: attach_segment_def shape_def touches_def link_next_def)
  next
    case False
    obtain h1 h2 where "link_prev (qs_nodes st) (hdp ms NULL) (lastp NULL ds) = Some h1"
      "link_next h1 (lastp NULL ds) (hdp ms NULL) = Some h2"
      "dll h2 NULL ds (hdp ms NULL)" "dll h2 (lastp NULL ds) ms NULL" "links_only (set ds \<union> set ms) (qs_nodes st) h2"
      using join_dll_rev [OF ds(1) seg(1)] seg(2) ds(2) disj by auto
    then show ?thesis
      using False whence q qr m ends seg(2) ds(2) disj ne
      by (cases "ds = []") (auto simp: attach_segment_def shape_def touches_def link_prev_def Un_commute)
  qed
qed

text \<open>The two steps together, on the state of all queues.\<close>

lemma migrate_represents:
  assumes rep: "represents st A" "A src = Some (as @ ms @ bs)" "A dst = Some ds" "src \<noteq> dst"
    and ms: "ms \<noteq> []" and k: "k = of_nat (length ms)"
    and whence: "whence = QUEUE_HEAD \<or> whence = QUEUE_TAIL"
  shows "\<exists>st1 st2 st3. detach_segment st src (hd ms) (last ms) k = Some st1 \<and>
    dll (qs_nodes st1) NULL ms NULL \<and>
    attach_segment st1 dst (hd ms) (last ms) whence = Some st2 \<and> count_add st2 dst k = Some st3 \<and>
    represents st3 (A(src \<mapsto> as @ bs, dst \<mapsto> if whence = QUEUE_HEAD then ms @ ds else ds @ ms)) \<and>
    node_data (qs_nodes st3) = node_data (qs_nodes st)"
proof -
  let ?ds = "if whence = QUEUE_HEAD then ms @ ds else ds @ ms"
  obtain st1 where st1: "detach_segment st src (hd ms) (last ms) k = Some st1"
    "shape st1 src (as @ bs) (of_nat (length (as @ ms @ bs)) - k)"
    "dll (qs_nodes st1) NULL ms NULL" "touches src (set (as @ ms @ bs)) st st1"
    using detach_segment_shape [OF representsD_shape [OF rep(1,2)] ms] by blast
  have "queue_rep st1 src (as @ bs)" using st1(2) by (simp add: queue_rep_def k)
  then have rep1: "represents st1 (A(src \<mapsto> as @ bs))"
    by (rule represents_touches [OF rep(1,2) _ st1(4)]) auto
  have own: "unowned (A(src \<mapsto> as @ bs)) p" if "p \<in> set ms" for p
    using that rep representsD_shape [OF rep(1,2)] unfolding unowned_def represents_def
    by (auto simp: shape_def split: if_splits) fastforce
  have dst1: "(A(src \<mapsto> as @ bs)) dst = Some ds" using rep(3,4) by simp
  have disj: "set ms \<inter> set ds = {}" using own dst1 by (auto simp: unowned_def)
  have d: "distinct ms" using representsD_shape [OF rep(1,2)] by (simp add: shape_def)
  obtain st2 where st2: "attach_segment st1 dst (hd ms) (last ms) whence = Some st2"
    "shape st2 dst ?ds (of_nat (length ds))" "touches dst (set ms \<union> set ds) st1 st2"
    using attach_segment_shape [OF representsD_shape [OF rep1 dst1] st1(3) d ms disj whence] by blast
  obtain st3 where st3: "count_add st2 dst k = Some st3" "shape st3 dst ?ds (of_nat (length ds) + k)"
    "touches dst {} st2 st3"
    using count_add_shape [OF st2(2)] by blast
  have t: "touches dst (set ms \<union> set ds) st1 st3" using touches_trans [OF st2(3) st3(3)] by simp
  have "queue_rep st3 dst ?ds" using st3(2) by (auto simp: queue_rep_def k add.commute)
  moreover have "set ms \<union> set ds \<union> set ?ds \<subseteq> set ds \<union> {p. unowned (A(src \<mapsto> as @ bs)) p}"
    using own by (auto split: if_splits)
  ultimately have "represents st3 (A(src \<mapsto> as @ bs, dst \<mapsto> ?ds))"
    by (rule represents_update [OF rep1 dst1 _ touches_keeps [OF t]])
  then show ?thesis
    using st1 st2(1) st3(1) touches_data [OF t] touches_data [OF st1(4)] by auto
qed


section \<open>Migration\<close>

lemma walk_last_off:
  assumes "dll h b ps NULL" "length ps < unat n - unat i"
  shows "walk_last h (hdp ps NULL) i n = None"
  using assms
proof (induction ps arbitrary: b i)
  case Nil
  then show ?case by (simp add: walk_last.simps word_less_nat_alt)
next
  case (Cons p ps)
  then obtain nd where nd: "h p = Some nd" "p \<noteq> NULL" "qn_next nd = hdp ps NULL" "dll h p ps NULL" by auto
  have i: "i < n" using Cons.prems by (simp add: word_less_nat_alt)
  then show ?case
    using Cons nd unat_Suc_less [OF i] by (subst walk_last.simps) simp
qed

lemma no_search: "dll h b ps NULL \<Longrightarrow> find_loop (\<lambda>_ _. False) h (hdp ps NULL) = Some None"
  by (simp add: find_loop_dll find_None_iff)

lemma migrate_range_guard:
  assumes "unat start + unat num \<le> length ps" "num \<noteq> 0" "length ps < 2 ^ 64"
  shows "\<not> (start \<ge> (of_nat (length ps) :: u64) \<or> num = 0 \<or> start + num > of_nat (length ps))"
proof -
  have "unat (of_nat (length ps) :: u64) = length ps" "unat (start + num) = unat start + unat num"
    using assms by (simp_all add: unat_of_nat take_bit_nat_eq_self unat_add_bounded)
  moreover have "0 < unat num" using assms(2) by (simp add: unat_gt_0)
  ultimately show ?thesis using assms by (simp add: word_less_nat_alt word_le_nat_alt)
qed

text \<open>The nodes a migration moves: \<open>num\<close> of them from position \<open>start\<close>.\<close>

lemma segment_split:
  assumes "unat start + unat num \<le> length ps" "num \<noteq> 0"
  shows "ps = take (unat start) ps @ take (unat num) (drop (unat start) ps) @ drop (unat start + unat num) ps"
    and "take (unat num) (drop (unat start) ps) \<noteq> []"
    and "length (take (unat num) (drop (unat start) ps)) = unat num"
    and "last (take (unat num) (drop (unat start) ps)) = drop (unat start) ps ! (unat num - 1)"
proof -
  have n: "0 < unat num" using assms(2) by (simp add: unat_gt_0)
  show "ps = take (unat start) ps @ take (unat num) (drop (unat start) ps) @ drop (unat start + unat num) ps"
    by (metis append_take_drop_id drop_drop add.commute)
  show "take (unat num) (drop (unat start) ps) \<noteq> []"
    "length (take (unat num) (drop (unat start) ps)) = unat num"
    using assms n by auto
  then show "last (take (unat num) (drop (unat start) ps)) = drop (unat start) ps ! (unat num - 1)"
    using n by (simp add: last_conv_nth)
qed

lemma dll_drop: "dll h b ps NULL \<Longrightarrow> \<exists>b'. dll h b' (drop k ps) NULL"
  by (metis append_take_drop_id dll_append)

lemma walk_segment:
  assumes "dll h b ps NULL" "unat start + unat num \<le> length ps" "num \<noteq> 0"
  defines "ms \<equiv> take (unat num) (drop (unat start) ps)"
  shows "walk h (hdp ps NULL) 0 start = Some (hd ms)" "hd ms \<noteq> NULL"
    and "walk_last h (hd ms) 1 num = Some (last ms)"
proof -
  have n: "0 < unat num" using assms(3) by (simp add: unat_gt_0)
  obtain b' where d: "dll h b' (drop (unat start) ps) NULL" using dll_drop [OF assms(1)] by blast
  have ne: "drop (unat start) ps \<noteq> []" using assms(2) n by simp
  have hd: "hdp (drop (unat start) ps) NULL = hd ms" "hd ms = hd (drop (unat start) ps)"
    using dll_hd(2) [OF d ne] ne n by (simp_all add: ms_def)
  then show "walk h (hdp ps NULL) 0 start = Some (hd ms)" "hd ms \<noteq> NULL"
    using walk_dll [OF assms(1), of 0 start] dll_hd(3) [OF d ne] by simp_all
  have "unat num - unat (1 :: u64) < length (drop (unat start) ps)" using assms(2) n by simp
  then show "walk_last h (hd ms) 1 num = Some (last ms)"
    using walk_last_dll [OF d, of num 1] segment_split(4) [OF assms(2,3)] hd(1) by (simp add: ms_def)
qed

lemma migrate_moves:
  assumes rep: "represents st A" "A src = Some ps" "A dst = Some ds" "src \<noteq> dst"
    and range: "unat start + unat num \<le> length ps" "num \<noteq> 0"
    and whence: "whence = QUEUE_HEAD \<or> whence = QUEUE_TAIL"
  shows "\<exists>st'. queue_node_migrate st dst src start num whence = Some (0, st') \<and>
    represents st'
      (A(src \<mapsto> take (unat start) ps @ drop (unat start + unat num) ps,
         dst \<mapsto> if whence = QUEUE_HEAD then take (unat num) (drop (unat start) ps) @ ds
                else ds @ take (unat num) (drop (unat start) ps))) \<and>
    node_data (qs_nodes st') = node_data (qs_nodes st)"
proof -
  let ?ms = "take (unat num) (drop (unat start) ps)"
  note split = segment_split [OF range]
  note shp = representsD_shape [OF rep(1,2)]
  have chain: "dll (qs_nodes st) NULL ps NULL" using shp by (simp add: shape_def)
  have k: "num = of_nat (length ?ms)" using split(3) by simp
  obtain st1 st2 st3 where m: "detach_segment st src (hd ?ms) (last ?ms) num = Some st1"
    "dll (qs_nodes st1) NULL ?ms NULL" "attach_segment st1 dst (hd ?ms) (last ?ms) whence = Some st2"
    "count_add st2 dst num = Some st3"
    "represents st3 (A(src \<mapsto> take (unat start) ps @ drop (unat start + unat num) ps,
       dst \<mapsto> if whence = QUEUE_HEAD then ?ms @ ds else ds @ ?ms))"
    "node_data (qs_nodes st3) = node_data (qs_nodes st)"
    using migrate_represents [OF rep(1) _ rep(3,4) split(2) k whence] rep(2) split(1) by metis
  have "find_loop (\<lambda>_ _. False) (qs_nodes st1) (hd ?ms) = Some None"
    using no_search [OF m(2)] dll_hd(2) [OF m(2) split(2)] by simp
  with m show ?thesis
    using migrate_range_guard [OF range shape_length(1) [OF shp]] whence walk_segment [OF chain range]
    unfolding queue_node_migrate_def shape_locked [OF shp] shape_locked [OF representsD_shape [OF rep(1,3)]]
    by auto
qed

text \<open>C9: Migration.  \<^verbatim>\<open>queue_node_migrate\<close> of the \<open>num\<close> nodes from position \<open>start\<close> of one queue
  to the front or back of another moves exactly that segment, in order, and both counters
  follow; every other queue and all data are unchanged.\<close>

theorem queue_node_migrate_moves:
  assumes rep: "represents st A" "A src = Some ps" "A dst = Some ds" "src \<noteq> dst"
    and range: "unat start + unat num \<le> length ps" "num \<noteq> 0"
    and whence: "whence = QUEUE_HEAD \<or> whence = QUEUE_TAIL"
  shows "\<exists>st'. queue_node_migrate st dst src start num whence = Some (0, st') \<and>
    represents st'
      (A(src \<mapsto> take (unat start) ps @ drop (unat start + unat num) ps,
         dst \<mapsto> if whence = QUEUE_HEAD then take (unat num) (drop (unat start) ps) @ ds
                else ds @ take (unat num) (drop (unat start) ps))) \<and>
    node_data (qs_nodes st') = node_data (qs_nodes st)"
  using assms by (rule migrate_moves)

text \<open>A range that lies outside the source queue is refused with \<^verbatim>\<open>-EINVAL\<close>, as long as the
  sum of position and number does not wrap around.\<close>

theorem queue_node_migrate_rejects:
  assumes "represents st A" "A src = Some ps" "A dst = Some ds"
    and "unat start + unat num < 2 ^ 64"
    and "length ps \<le> unat start \<or> num = 0 \<or> length ps < unat start + unat num"
  shows "queue_node_migrate st dst src start num whence = Some (- EINVAL, st)"
proof -
  note shp = representsD_shape [OF assms(1,2)] representsD_shape [OF assms(1,3)]
  have "unat (start + num) = unat start + unat num" using assms(4) by (rule unat_add_bounded)
  then show ?thesis
    unfolding queue_node_migrate_def shape_locked [OF shp(1)] shape_locked [OF shp(2)]
    using assms(5) shape_length(2) [OF shp(1)] by (simp add: word_less_nat_alt word_le_nat_alt)
qed

text \<open>The range check of \<^verbatim>\<open>queue_node_migrate\<close> adds without looking at the overflow: from any
  position other than the first, \<open>num = -start\<close> passes the check, and the walk to the last node
  runs off the end of the queue.\<close>

theorem queue_node_migrate_overflow:
  assumes "represents st A" "A src = Some ps" "A dst = Some ds" "start \<noteq> 0" "unat start < length ps"
    and "whence = QUEUE_HEAD \<or> whence = QUEUE_TAIL" "length ps + 1 < 2 ^ 64"
  shows "queue_node_migrate st dst src start (- start) whence = None"
proof -
  note shp = representsD_shape [OF assms(1,2)] representsD_shape [OF assms(1,3)]
  have chain: "dll (qs_nodes st) NULL ps NULL" using shp(1) by (simp add: shape_def)
  obtain b where d: "dll (qs_nodes st) b (drop (unat start) ps) NULL" using dll_drop [OF chain] by blast
  have ne: "drop (unat start) ps \<noteq> []" using assms(5) by simp
  have w: "walk (qs_nodes st) (hdp ps NULL) 0 start = Some (hdp (drop (unat start) ps) NULL)"
    "hdp (drop (unat start) ps) NULL \<noteq> NULL"
    using walk_dll [OF chain, of 0 start] dll_hd [OF d ne] by simp_all
  have m: "unat (- start) = 2 ^ 64 - unat start"
    using assms(4) by (rule unat_uminus)
  have "walk_last (qs_nodes st) (hdp (drop (unat start) ps) NULL) 1 (- start) = None"
    using m assms(5,7) by (intro walk_last_off [OF d]) simp
  moreover have "\<not> (start \<ge> of_nat (length ps) \<or> - start = 0 \<or> start + - start > of_nat (length ps))"
    using assms(4,5) shape_length(2) [OF shp(1)] by (simp add: word_le_nat_alt)
  ultimately show ?thesis
    unfolding queue_node_migrate_def shape_locked [OF shp(1)] shape_locked [OF shp(2)]
    using w assms(6) by auto
qed


lemma queue_move_all_cases:
  assumes rep: "represents st A" "A src = Some ps" "A dst = Some ds" "src \<noteq> dst"
    and whence: "whence = QUEUE_HEAD \<or> whence = QUEUE_TAIL"
  shows "ps \<noteq> [] \<Longrightarrow> \<exists>st'. queue_move st dst src whence = Some (0, st') \<and>
      represents st' (A(src \<mapsto> [], dst \<mapsto> if whence = QUEUE_HEAD then ps @ ds else ds @ ps)) \<and>
      node_data (qs_nodes st') = node_data (qs_nodes st)"
    and "ps = [] \<Longrightarrow> queue_move st dst src whence = Some (- EINVAL, st)"
proof -
  note shp = representsD_shape [OF rep(1,2)] representsD_shape [OF rep(1,3)]
  have n: "unat (of_nat (length ps) :: u64) = length ps" using shape_length(2) [OF shp(1)] .
  have move: "queue_move st dst src whence = queue_node_migrate st dst src 0 (of_nat (length ps)) whence"
    unfolding queue_move_def shape_locked [OF shp(1)] shape_locked [OF shp(2)] using whence by auto
  show "queue_move st dst src whence = Some (- EINVAL, st)" if "ps = []"
    unfolding move queue_node_migrate_def shape_locked [OF shp(1)] shape_locked [OF shp(2)]
    using that by simp
  show "\<exists>st'. queue_move st dst src whence = Some (0, st') \<and>
      represents st' (A(src \<mapsto> [], dst \<mapsto> if whence = QUEUE_HEAD then ps @ ds else ds @ ps)) \<and>
      node_data (qs_nodes st') = node_data (qs_nodes st)" if ne: "ps \<noteq> []"
  proof -
    have "of_nat (length ps) \<noteq> (0 :: u64)" using shape_count_0 [OF shp(1)] ne by simp
    then show ?thesis
      using migrate_moves [OF rep, of 0 "of_nat (length ps)" whence] whence n
      unfolding move by (cases "whence = QUEUE_HEAD") auto
  qed
qed

text \<open>\<^verbatim>\<open>queue_move\<close> transfers a whole nonempty queue, in order, and leaves the source empty;
  an empty source gives \<^verbatim>\<open>-EINVAL\<close>.\<close>

theorem queue_move_all:
  assumes rep: "represents st A" "A src = Some ps" "A dst = Some ds" "src \<noteq> dst"
    and whence: "whence = QUEUE_HEAD \<or> whence = QUEUE_TAIL"
  shows "(ps \<noteq> [] \<longrightarrow> (\<exists>st'. queue_move st dst src whence = Some (0, st') \<and>
      represents st' (A(src \<mapsto> [], dst \<mapsto> if whence = QUEUE_HEAD then ps @ ds else ds @ ps)) \<and>
      node_data (qs_nodes st') = node_data (qs_nodes st))) \<and>
    (ps = [] \<longrightarrow> (queue_move st dst src whence = Some (- EINVAL, st)))"
  using queue_move_all_cases [OF assms] by blast

section \<open>Flushing\<close>

lemma flush_loop_spec:
  assumes "shape st q ps c"
  shows "\<exists>st'. flush_loop st q (hdp ps NULL) = Some st' \<and> shape st' q [] (c - of_nat (length ps)) \<and>
    keeps q (set ps) st st' \<and>
    node_data (qs_nodes st') = (\<lambda>p. if p \<in> set ps then None else node_data (qs_nodes st) p)"
  using assms
proof (induction ps arbitrary: st c)
  case Nil
  then show ?case by (auto simp: flush_loop.simps keeps_def)
next
  case (Cons p ps)
  obtain n where n: "qs_nodes st p = Some n" "p \<noteq> NULL" "qn_next n = hdp ps NULL"
    using unlink_shape(3) [of st q "[]" p ps c] Cons.prems by auto
  obtain st1 where st1: "remove_free st q p = Some st1" "shape st1 q ps (c + - 1)"
    "keeps q (insert p (set ps)) st st1" "node_data (qs_nodes st1) = (node_data (qs_nodes st))(p := None)"
    using remove_free_shape [of st q "[]" p ps c] Cons.prems by auto
  obtain st2 where st2: "flush_loop st1 q (hdp ps NULL) = Some st2"
    "shape st2 q [] (c + - 1 - of_nat (length ps))" "keeps q (set ps) st1 st2"
    "node_data (qs_nodes st2) = (\<lambda>p. if p \<in> set ps then None else node_data (qs_nodes st1) p)"
    using Cons.IH [OF st1(2)] by blast
  have "flush_loop st q (hdp (p # ps) NULL) = remove_free st q p \<bind> (\<lambda>st. flush_loop st q (hdp ps NULL))"
    using n by (subst flush_loop.simps) (simp add: remove_free_def)
  moreover have "keeps q (set (p # ps)) st st2"
    using keeps_trans [OF st1(3) st2(3)] by (rule keeps_mono) auto
  moreover have "shape st2 q [] (c - of_nat (length (p # ps)))"
    using st2(2) by (simp add: algebra_simps)
  ultimately show ?case using st1(1,4) st2(1,4) by (auto simp: fun_eq_iff)
qed

text \<open>\<^verbatim>\<open>queue_flush\<close> terminates, empties the queue, sets its counter to zero and frees
  exactly the nodes that were on it.\<close>

theorem queue_flush_empties:
  assumes "represents st A" "A q = Some ps"
  shows "\<exists>st'. queue_flush st q = Some st' \<and> represents st' (A(q \<mapsto> [])) \<and>
    node_data (qs_nodes st') = (\<lambda>p. if p \<in> set ps then None else node_data (qs_nodes st) p)"
proof -
  note shp = representsD_shape [OF assms]
  obtain st1 where st1: "flush_loop st q (hdp ps NULL) = Some st1"
    "shape st1 q [] (of_nat (length ps) - of_nat (length ps))" "keeps q (set ps) st st1"
    "node_data (qs_nodes st1) = (\<lambda>p. if p \<in> set ps then None else node_data (qs_nodes st) p)"
    using flush_loop_spec [OF shp] by blast
  then have r: "queue_rep st1 q []" by (simp add: queue_rep_def)
  have "queue_flush st q = Some st1"
    using st1(1,2) unfolding queue_flush_def shape_locked [OF shp]
    by (auto simp: shape_def put_queue_def fun_upd_idem)
  with represents_update [OF assms r st1(3)] st1(4) show ?thesis by auto
qed

section \<open>Peeking, replacing, relocating by data\<close>

lemma queue_length_spec:
  "represents st A \<Longrightarrow> A q = Some ps \<Longrightarrow> queue_length st q = Some (of_nat (length ps))"
  by (simp add: queue_length_def shape_locked [OF representsD_shape])

lemma queue_empty_spec:
  assumes "represents st A" "A q = Some ps"
  shows "queue_empty st q = Some (ps = [])"
proof -
  show ?thesis
    by (simp add: shape_count_0 [OF representsD_shape [OF assms]] queue_empty_def queue_length_spec [OF assms] shape_locked [OF representsD_shape [OF assms]])
qed

lemma queue_peek_ends_cases:
  assumes "represents st A" "A q = Some ps"
  shows "ps \<noteq> [] \<Longrightarrow> queue_peek st q QUEUE_HEAD True = Some (0, node_data (qs_nodes st) (hd ps))"
    and "ps \<noteq> [] \<Longrightarrow> queue_peek st q QUEUE_TAIL True = Some (0, node_data (qs_nodes st) (last ps))"
    and "ps = [] \<Longrightarrow> queue_peek st q QUEUE_HEAD True = Some (- ENOENT, None) \<and>
      queue_peek st q QUEUE_TAIL True = Some (- ENOENT, None)"
proof -
  note shp = representsD_shape [OF assms]
  have chain: "dll (qs_nodes st) NULL ps NULL" using shp by (simp add: shape_def)
  note n = shape_count_0 [OF shp]
  note len = queue_length_spec [OF assms]
  show "queue_peek st q QUEUE_HEAD True = Some (0, node_data (qs_nodes st) (hd ps))" if "ps \<noteq> []"
    using that n dll_hd [OF chain that] by (auto simp: queue_peek_def len shape_locked [OF shp] node_data_def)
  show "queue_peek st q QUEUE_TAIL True = Some (0, node_data (qs_nodes st) (last ps))" if "ps \<noteq> []"
    using that n dll_hd(4) [OF chain that] dll_last [OF chain that]
    by (auto simp: queue_peek_def len shape_locked [OF shp] node_data_def)
  show "queue_peek st q QUEUE_HEAD True = Some (- ENOENT, None) \<and>
      queue_peek st q QUEUE_TAIL True = Some (- ENOENT, None)" if "ps = []"
    using that n by (simp add: queue_peek_def len shape_locked [OF shp])
qed

text \<open>\<^verbatim>\<open>queue_peek\<close> returns the data at the end it is asked for, without changing the queue,
  and \<^verbatim>\<open>-ENOENT\<close> on an empty queue.\<close>

theorem queue_peek_ends:
  assumes "represents st A" "A q = Some ps"
  shows "(ps \<noteq> [] \<longrightarrow> (queue_peek st q QUEUE_HEAD True = Some (0, node_data (qs_nodes st) (hd ps)))) \<and>
    (ps \<noteq> [] \<longrightarrow> (queue_peek st q QUEUE_TAIL True = Some (0, node_data (qs_nodes st) (last ps)))) \<and>
    (ps = [] \<longrightarrow> (queue_peek st q QUEUE_HEAD True = Some (- ENOENT, None) \<and>
      queue_peek st q QUEUE_TAIL True = Some (- ENOENT, None)))"
  using queue_peek_ends_cases [OF assms] by blast

text \<open>\<^verbatim>\<open>queue_rellocate\<close> moves the first node that holds \<open>data\<close> to the front or the back.\<close>

theorem queue_rellocate_moves:
  assumes "represents st A" "A q = Some ps" "data \<in> set (queue_data st ps)"
    and "whence = QUEUE_HEAD \<or> whence = QUEUE_TAIL"
  shows "\<exists>as p bs st'. ps = as @ p # bs \<and> node_data (qs_nodes st) p = Some data \<and>
    queue_rellocate st q data whence = Some (0, st') \<and>
    represents st' (A(q \<mapsto> if whence = QUEUE_HEAD then p # as @ bs else as @ bs @ [p])) \<and>
    node_data (qs_nodes st') = node_data (qs_nodes st)"
proof -
  note shp = representsD_shape [OF assms(1,2)]
  have q: "q \<noteq> NULL" using shp by (simp add: shape_def)
  obtain p where p: "List.find (\<lambda>p. node_data (qs_nodes st) p = Some data) ps = Some p"
    using assms(3) find_data_None [OF shp, of data] by auto
  then obtain as bs where ps: "ps = as @ p # bs" "node_data (qs_nodes st) p = Some data"
    using find_split [OF p] by blast
  have "queue_rellocate st q data whence = queue_rellocate_node st q p whence"
    using q by (simp add: queue_rellocate_def shape_locked [OF shp] queue_contains_spec [OF shp] p)
  then show ?thesis
    using rellocate_node_moves [OF assms(1) assms(2) [unfolded ps(1)] assms(4)] ps by metis
qed

lemma queue_replace_data_cases:
  assumes "represents st A" "A q = Some ps" "data0 \<noteq> data1"
  shows "data0 \<in> set (queue_data st ps) \<Longrightarrow>
      \<exists>as p bs st'. ps = as @ p # bs \<and> node_data (qs_nodes st) p = Some data0 \<and>
        queue_replace st q data0 data1 = Some (0, st') \<and> represents st' A \<and>
        node_data (qs_nodes st') = (node_data (qs_nodes st))(p \<mapsto> data1)"
    and "data0 \<notin> set (queue_data st ps) \<Longrightarrow> queue_replace st q data0 data1 = Some (- ENOENT, st)"
proof -
  note shp = representsD_shape [OF assms(1,2)]
  have q: "q \<noteq> NULL" and chain: "dll (qs_nodes st) NULL ps NULL" using shp by (auto simp: shape_def)
  note find = find_data_dll [OF chain]
  show "queue_replace st q data0 data1 = Some (- ENOENT, st)" if "data0 \<notin> set (queue_data st ps)"
    using that assms(3) q find_data_None [OF shp, of data0]
    by (simp add: queue_replace_def shape_locked [OF shp] find)
  show "\<exists>as p bs st'. ps = as @ p # bs \<and> node_data (qs_nodes st) p = Some data0 \<and>
        queue_replace st q data0 data1 = Some (0, st') \<and> represents st' A \<and>
        node_data (qs_nodes st') = (node_data (qs_nodes st))(p \<mapsto> data1)"
    if mem: "data0 \<in> set (queue_data st ps)"
  proof -
    obtain p where p: "List.find (\<lambda>p. node_data (qs_nodes st) p = Some data0) ps = Some p"
      using mem find_data_None [OF shp, of data0] by auto
    then obtain as bs where ps: "ps = as @ p # bs" "node_data (qs_nodes st) p = Some data0"
      using find_split [OF p] by blast
    then obtain n where n: "qs_nodes st p = Some n" "p \<noteq> NULL" using shape_loaded [OF shp] by auto
    let ?h = "(qs_nodes st)(p \<mapsto> n\<lparr>qn_data := data1\<rparr>)"
    have "represents (st\<lparr>qs_nodes := ?h\<rparr>) A"
      using assms(1) dll_data [of "qs_nodes st" p n]  n(1) by (auto simp: represents_def queue_rep_def shape_def)
    moreover have "queue_replace st q data0 data1 = Some (0, st\<lparr>qs_nodes := ?h\<rparr>)"
      using assms(3) q n by (simp add: queue_replace_def shape_locked [OF shp] find p set_data_def)
    ultimately show ?thesis using ps by (fastforce simp: node_data_def)
  qed
qed


text \<open>\<^verbatim>\<open>queue_replace\<close> overwrites the data of the first node that holds \<open>data0\<close> and changes
  no link; when none does, the answer is \<^verbatim>\<open>-ENOENT\<close>.\<close>

theorem queue_replace_data:
  assumes "represents st A" "A q = Some ps" "data0 \<noteq> data1"
  shows "(data0 \<in> set (queue_data st ps) \<longrightarrow> (\<exists>as p bs st'. ps = as @ p # bs \<and> node_data (qs_nodes st) p = Some data0 \<and>
        queue_replace st q data0 data1 = Some (0, st') \<and> represents st' A \<and>
        node_data (qs_nodes st') = (node_data (qs_nodes st))(p \<mapsto> data1))) \<and>
    (data0 \<notin> set (queue_data st ps) \<longrightarrow> (queue_replace st q data0 data1 = Some (- ENOENT, st)))"
  using queue_replace_data_cases [OF assms] by blast

section \<open>The theorems at a concrete state\<close>

theorem queue_node_migrate_moves_witness:
  "\<exists>st'. queue_node_migrate sample_queues 2 1 1 1 QUEUE_TAIL = Some (0, st') \<and>
     represents st' (sample_abs(1 \<mapsto> [16], 2 \<mapsto> [48, 32]))"
  using queue_node_migrate_moves [of sample_queues sample_abs 1 "[16, 32]" 2 "[48]" 1 1 QUEUE_TAIL]
  by auto

theorem queue_node_migrate_rejects_witness:
  "queue_node_migrate sample_queues 2 1 1 2 QUEUE_TAIL = Some (- EINVAL, sample_queues)"
  using queue_node_migrate_rejects [of sample_queues sample_abs 1 "[16, 32]" 2 "[48]" 1 2 QUEUE_TAIL]
  by auto

theorem queue_node_migrate_overflow_witness:
  "queue_node_migrate sample_queues 2 1 1 (- 1) QUEUE_TAIL = None"
  using queue_node_migrate_overflow [of sample_queues sample_abs 1 "[16, 32]" 2 "[48]" 1 QUEUE_TAIL]
  by auto

theorem queue_move_all_witness:
  "\<exists>st'. queue_move sample_queues 2 1 QUEUE_HEAD = Some (0, st') \<and>
     represents st' (sample_abs(1 \<mapsto> [], 2 \<mapsto> [16, 32, 48]))"
  using queue_move_all [of sample_queues sample_abs 1 "[16, 32]" 2 "[48]" QUEUE_HEAD] by auto

theorem queue_flush_empties_witness:
  "\<exists>st'. queue_flush sample_queues 1 = Some st' \<and> represents st' (sample_abs(1 \<mapsto> []))"
  using queue_flush_empties [of sample_queues sample_abs 1 "[16, 32]"] by auto

theorem queue_peek_ends_witness:
  "queue_peek sample_queues 1 QUEUE_TAIL True = Some (0, Some 8)"
  using queue_peek_ends [of sample_queues sample_abs 1 "[16, 32]"] by simp

theorem queue_rellocate_moves_witness:
  "\<exists>st'. queue_rellocate sample_queues 1 8 QUEUE_HEAD = Some (0, st')"
  using queue_rellocate_moves [of sample_queues sample_abs 1 "[16, 32]" 8 QUEUE_HEAD] by auto

theorem queue_replace_data_witness:
  "\<exists>st'. queue_replace sample_queues 1 8 5 = Some (0, st') \<and> represents st' sample_abs"
  using queue_replace_data [of sample_queues sample_abs 1 "[16, 32]" 8 5] by auto

end
