(* ===== verification/Stack.thy ===== *)
theory Stack
  imports Queue_Moves
begin

text \<open>
  The stack of \<^verbatim>\<open>src/src/kernel/ds/stack.c\<close>: a queue with a lock of its own, used at its tail.  A
  stack object lies at the address of its first member, the queue \<^verbatim>\<open>s_queue\<close>; so an address stands
  for both, and the state adds the stack locks to the state of the queues.

  The contract is the locale \<open>lifo\<close>: pushing appends, popping takes the last element.  What a client
  relies on, that popping returns what was pushed in reverse order, is proved there once.
\<close>

section \<open>State and operations\<close>

record sstate =
  ss_q :: qstate
  ss_lock :: "addr \<Rightarrow> bool option"

definition stack_assert_locked :: "sstate \<Rightarrow> addr \<Rightarrow> unit option" where
  "stack_assert_locked ss s = do { assert_that (s \<noteq> NULL); l \<leftarrow> ss_lock ss s; assert_that l }"

definition queue_lock :: "qstate \<Rightarrow> addr \<Rightarrow> qstate option" where
  "queue_lock st q = do {
     qr \<leftarrow> get_queue st q; assert_that (\<not> q_lock qr); Some (put_queue st q (qr\<lparr>q_lock := True\<rparr>)) }"

definition queue_unlock :: "qstate \<Rightarrow> addr \<Rightarrow> qstate option" where
  "queue_unlock st q = do {
     qr \<leftarrow> get_queue st q; assert_that (q_lock qr); Some (put_queue st q (qr\<lparr>q_lock := False\<rparr>)) }"

text \<open>The operations share a frame: the queue is locked, used and unlocked.\<close>

definition with_queue :: "(qstate \<Rightarrow> addr \<Rightarrow> ('a \<times> qstate) option) \<Rightarrow> sstate \<Rightarrow> addr \<Rightarrow> ('a \<times> sstate) option" where
  "with_queue body ss s = do {
     st \<leftarrow> queue_lock (ss_q ss) s;
     (a, st) \<leftarrow> body st s;
     st \<leftarrow> queue_unlock st s;
     Some (a, ss\<lparr>ss_q := st\<rparr>) }"

definition stack_init :: "sstate \<Rightarrow> addr \<Rightarrow> (int \<times> sstate) option" where
  "stack_init ss s =
     (if s = NULL then Some (- EINVAL, ss)
      else do {
        _ \<leftarrow> ss_lock ss s;
        let st = put_queue (ss_q ss) s \<lparr>q_head = NULL, q_tail = NULL, q_count = 0, q_lock = False\<rparr>;
        Some (0, ss\<lparr>ss_q := st, ss_lock := (ss_lock ss)(s \<mapsto> False)\<rparr>) })"

definition stack_push :: "addr \<Rightarrow> sstate \<Rightarrow> addr \<Rightarrow> addr \<Rightarrow> (int \<times> sstate) option" where
  "stack_push p ss s pd =
     (if s = NULL then Some (- EINVAL, ss)
      else do {
        stack_assert_locked ss s;
        with_queue (\<lambda>st q. do { (err, _, st) \<leftarrow> enqueue p st q pd QUEUE_DUPLICATES; Some (err, st) }) ss s })"

definition stack_pop :: "sstate \<Rightarrow> addr \<Rightarrow> bool \<Rightarrow> (int \<times> addr option \<times> sstate) option" where
  "stack_pop ss s pdp =
     (if s = NULL then Some (- EINVAL, None, ss)
      else do {
        stack_assert_locked ss s;
        ((err, d), ss) \<leftarrow> with_queue (\<lambda>st q. do { (err, d, st) \<leftarrow> dequeue_tail st q pdp; Some ((err, d), st) }) ss s;
        Some (err, d, ss) })"

definition stack_remove :: "sstate \<Rightarrow> addr \<Rightarrow> addr \<Rightarrow> (int \<times> sstate) option" where
  "stack_remove ss s data =
     (if s = NULL then Some (- EINVAL, ss)
      else do { stack_assert_locked ss s; with_queue (\<lambda>st q. queue_remove st q data) ss s })"

definition stack_contains :: "sstate \<Rightarrow> addr \<Rightarrow> addr \<Rightarrow> (int \<times> sstate) option" where
  "stack_contains ss s data =
     (if s = NULL then Some (- EINVAL, ss)
      else do {
        stack_assert_locked ss s;
        with_queue (\<lambda>st q. do { (err, _) \<leftarrow> queue_contains st q data; Some (err, st) }) ss s })"

definition stack_size :: "sstate \<Rightarrow> addr \<Rightarrow> (u64 \<times> sstate) option" where
  "stack_size ss s = do {
     stack_assert_locked ss s;
     with_queue (\<lambda>st q. do { n \<leftarrow> queue_length st q; Some (n, st) }) ss s }"

definition stack_flush :: "sstate \<Rightarrow> addr \<Rightarrow> (int \<times> sstate) option" where
  "stack_flush ss s =
     (if s = NULL then Some (- EINVAL, ss)
      else do {
        stack_assert_locked ss s;
        with_queue (\<lambda>st q. do { st \<leftarrow> queue_flush st q; Some (0, st) }) ss s })"

text \<open>The result of \<^verbatim>\<open>kmalloc\<close> is the argument \<open>p\<close>; what the memory holds is overwritten.\<close>

definition stack_alloc :: "addr \<Rightarrow> sstate \<Rightarrow> bool \<Rightarrow> (int \<times> addr option \<times> sstate) option" where
  "stack_alloc p ss psp =
     (if \<not> psp then Some (- EINVAL, None, ss)
      else if p = NULL then Some (- ENOMEM, None, ss)
      else do {
        (err, ss') \<leftarrow> stack_init (ss\<lparr>ss_lock := (ss_lock ss)(p \<mapsto> False)\<rparr>) p;
        Some (if err \<noteq> 0 then (err, None, ss) else (0, Some p, ss')) })"

definition stack_free :: "sstate \<Rightarrow> addr \<Rightarrow> sstate option" where
  "stack_free ss s =
     (if s = NULL then Some ss
      else do {
        _ \<leftarrow> ss_lock ss s;
        (_, ss) \<leftarrow> stack_flush (ss\<lparr>ss_lock := (ss_lock ss)(s \<mapsto> True)\<rparr>) s;
        let st = (ss_q ss)\<lparr>qs_queues := (qs_queues (ss_q ss))(s := None)\<rparr>;
        Some (ss\<lparr>ss_q := st, ss_lock := (ss_lock ss)(s := None)\<rparr>) })"

definition stack_peek :: "sstate \<Rightarrow> addr \<Rightarrow> u32 \<Rightarrow> bool \<Rightarrow> (int \<times> addr option \<times> sstate) option" where
  "stack_peek ss s whence pdp =
     (if s = NULL \<or> \<not> pdp then Some (- EINVAL, None, ss)
      else do {
        stack_assert_locked ss s;
        ((err, d), ss) \<leftarrow> with_queue (\<lambda>st q. do { r \<leftarrow> queue_peek st q whence pdp; Some (r, st) }) ss s;
        Some (err, d, ss) })"

section \<open>The contract\<close>

text \<open>Pushing a list of values, each into memory of its own, and popping a number of them.\<close>

fun push_all :: "('p \<Rightarrow> 's \<Rightarrow> 'd \<Rightarrow> (int \<times> 's) option) \<Rightarrow> ('p \<times> 'd) list \<Rightarrow> 's \<Rightarrow> 's option" where
  "push_all push [] s = Some s"
| "push_all push ((p, d) # pds) s = do { (err, s) \<leftarrow> push p s d; assert_that (err = 0); push_all push pds s }"

fun pop_n :: "('s \<Rightarrow> (int \<times> 'd option \<times> 's) option) \<Rightarrow> nat \<Rightarrow> 's \<Rightarrow> ('d list \<times> 's) option" where
  "pop_n pop 0 s = Some ([], s)"
| "pop_n pop (Suc n) s = do { (err, d, s) \<leftarrow> pop s; d \<leftarrow> d; (ds, s) \<leftarrow> pop_n pop n s; Some (d # ds, s) }"

locale lifo =
  fixes rep :: "'s \<Rightarrow> 'd list \<Rightarrow> bool"
    and fresh :: "'s \<Rightarrow> 'p \<Rightarrow> bool"
    and push :: "'p \<Rightarrow> 's \<Rightarrow> 'd \<Rightarrow> (int \<times> 's) option"
    and pop :: "'s \<Rightarrow> (int \<times> 'd option \<times> 's) option"
  assumes push_rep: "rep s xs \<Longrightarrow> fresh s p \<Longrightarrow>
      \<exists>s'. push p s d = Some (0, s') \<and> rep s' (xs @ [d]) \<and> (\<forall>r. r \<noteq> p \<longrightarrow> fresh s r \<longrightarrow> fresh s' r)"
    and pop_rep: "rep s (xs @ [d]) \<Longrightarrow> \<exists>s'. pop s = Some (0, Some d, s') \<and> rep s' xs"
    and pop_empty: "rep s [] \<Longrightarrow> \<exists>s'. pop s = Some (- ENOENT, None, s') \<and> rep s' []"
begin

lemma push_all_rep:
  "rep s xs \<Longrightarrow> distinct (map fst pds) \<Longrightarrow> \<forall>p \<in> set (map fst pds). fresh s p \<Longrightarrow>
    \<exists>s'. push_all push pds s = Some s' \<and> rep s' (xs @ map snd pds)"
proof (induction pds arbitrary: s xs)
  case (Cons pd pds)
  obtain p d where pd: "pd = (p, d)" by (cases pd)
  obtain s1 where s1: "push p s d = Some (0, s1)" "rep s1 (xs @ [d])" "\<forall>r. r \<noteq> p \<longrightarrow> fresh s r \<longrightarrow> fresh s1 r"
    using push_rep [OF Cons.prems(1), of p d] Cons.prems(3) pd by auto
  have "\<forall>r \<in> set (map fst pds). fresh s1 r" using s1(3) Cons.prems(2,3) pd by auto
  then obtain s2 where "push_all push pds s1 = Some s2" "rep s2 ((xs @ [d]) @ map snd pds)"
    using Cons.IH [OF s1(2)] Cons.prems(2) by auto
  then show ?case using s1(1) pd by simp
qed simp

lemma pop_n_rep: "rep s (xs @ ds) \<Longrightarrow> \<exists>s'. pop_n pop (length ds) s = Some (rev ds, s') \<and> rep s' xs"
proof (induction ds arbitrary: s rule: rev_induct)
  case (snoc d ds)
  obtain s1 where s1: "pop s = Some (0, Some d, s1)" "rep s1 (xs @ ds)"
    using pop_rep [of s "xs @ ds" d] snoc.prems by auto
  obtain s2 where "pop_n pop (length ds) s1 = Some (rev ds, s2)" "rep s2 xs"
    using snoc.IH [OF s1(2)] by blast
  then show ?case using s1(1) by simp
qed simp

lemma push_then_pop:
  assumes "rep s xs" "distinct (map fst pds)" "\<forall>p \<in> set (map fst pds). fresh s p"
  shows "\<exists>s1 s2. push_all push pds s = Some s1 \<and> pop_n pop (length pds) s1 = Some (rev (map snd pds), s2) \<and> rep s2 xs"
  using push_all_rep [OF assms] pop_n_rep [of _ xs "map snd pds"] by fastforce

end

section \<open>The stack implements it\<close>

definition stack_rep :: "sstate \<Rightarrow> addr \<Rightarrow> addr list \<Rightarrow> bool" where
  "stack_rep ss s ds \<longleftrightarrow> ss_lock ss s = Some True \<and> (\<exists>qr ps. s \<noteq> NULL \<and> qs_queues (ss_q ss) s = Some qr \<and> \<not> q_lock qr \<and>
     represents (put_queue (ss_q ss) s (qr\<lparr>q_lock := True\<rparr>)) [s \<mapsto> ps] \<and> queue_data (ss_q ss) ps = ds)"

definition stack_fresh :: "sstate \<Rightarrow> addr \<Rightarrow> bool" where
  "stack_fresh ss p \<longleftrightarrow> p \<noteq> NULL \<and> qs_nodes (ss_q ss) p = None"

text \<open>An operation of the queue carries over: it runs between the lock and the unlock.\<close>

lemma with_queue_rep:
  assumes "stack_rep ss s ds"
    and body: "\<And>st ps. represents st [s \<mapsto> ps] \<Longrightarrow> queue_data st ps = ds \<Longrightarrow> qs_nodes st = qs_nodes (ss_q ss) \<Longrightarrow>
      \<exists>st' ps'. body st s = Some (a, st') \<and> represents st' [s \<mapsto> ps'] \<and> queue_data st' ps' = ds' \<and> P (qs_nodes st')"
  shows "\<exists>ss'. with_queue body ss s = Some (a, ss') \<and> stack_rep ss' s ds' \<and> P (qs_nodes (ss_q ss'))"
proof -
  obtain qr ps where q: "s \<noteq> NULL" "qs_queues (ss_q ss) s = Some qr" "\<not> q_lock qr"
      "represents (put_queue (ss_q ss) s (qr\<lparr>q_lock := True\<rparr>)) [s \<mapsto> ps]" "queue_data (ss_q ss) ps = ds" "ss_lock ss s = Some True"
    using assms(1) by (auto simp: stack_rep_def)
  let ?st = "put_queue (ss_q ss) s (qr\<lparr>q_lock := True\<rparr>)"
  have "queue_data ?st ps = ds" using q(5) by (simp add: queue_data_def)
  then obtain st' ps' where b: "body ?st s = Some (a, st')" "represents st' [s \<mapsto> ps']" "queue_data st' ps' = ds'" "P (qs_nodes st')"
    using body [OF q(4)] by auto
  obtain qr' where qr': "qs_queues st' s = Some qr'" "q_lock qr'"
    using representsD_shape [OF b(2), of s ps'] by (auto simp: shape_def)
  let ?u = "put_queue st' s (qr'\<lparr>q_lock := False\<rparr>)"
  have "put_queue ?u s (qr'\<lparr>q_lock := True\<rparr>) = st'"
    using qr' by (cases st'; cases qr') (auto simp: put_queue_def fun_upd_idem)
  then have "stack_rep (ss\<lparr>ss_q := ?u\<rparr>) s ds'"
    using b(2,3) q(1,6) unfolding stack_rep_def by (auto simp: queue_data_def intro!: exI [of _ ps'])
  moreover have "with_queue body ss s = Some (a, ss\<lparr>ss_q := ?u\<rparr>)"
    using q(1-3) b(1) qr' by (simp add: with_queue_def queue_lock_def queue_unlock_def)
  ultimately show ?thesis using b(4) by auto
qed

lemma stack_locked: "stack_rep ss s ds \<Longrightarrow> s \<noteq> NULL \<and> stack_assert_locked ss s = Some ()"
  by (auto simp: stack_rep_def stack_assert_locked_def)

lemma queue_data_cong: "\<forall>p \<in> set ps. node_data (qs_nodes st') p = node_data (qs_nodes st) p \<Longrightarrow> queue_data st' ps = queue_data st ps"
  by (simp add: queue_data_def)

lemma stack_push_rep:
  assumes "stack_rep ss s ds" "stack_fresh ss p"
  shows "\<exists>ss'. stack_push p ss s d = Some (0, ss') \<and> stack_rep ss' s (ds @ [d]) \<and>
    (\<forall>r. r \<noteq> p \<longrightarrow> stack_fresh ss r \<longrightarrow> stack_fresh ss' r)"
proof -
  let ?body = "\<lambda>st q. do { (err, _, st) \<leftarrow> enqueue p st q d QUEUE_DUPLICATES; Some (err, st) }"
  have "\<exists>st' ps'. ?body st s = Some (0, st') \<and> represents st' [s \<mapsto> ps'] \<and> queue_data st' ps' = ds @ [d] \<and>
      (\<forall>r. r \<noteq> p \<longrightarrow> qs_nodes (ss_q ss) r = None \<longrightarrow> qs_nodes st' r = None)"
    if r: "represents st [s \<mapsto> ps]" "queue_data st ps = ds" "qs_nodes st = qs_nodes (ss_q ss)" for st ps
  proof -
    have p: "p \<noteq> NULL" "qs_nodes st p = None" using assms(2) r(3) by (simp_all add: stack_fresh_def)
    obtain st' where st': "enqueue p st s d QUEUE_DUPLICATES = Some (0, Some p, st')" "represents st' [s \<mapsto> ps @ [p]]"
        "node_data (qs_nodes st') = (node_data (qs_nodes st))(p \<mapsto> d)"
      using enqueue_appends_cases(2) [OF r(1) _ p, of s ps QUEUE_DUPLICATES d] by auto
    have "p \<notin> set ps" using represents_owned [OF r(1) p(2)] by (simp add: unowned_def)
    then have "queue_data st' (ps @ [p]) = ds @ [d]"
      using st'(3) r(2) queue_data_cong [of ps st' st] by (auto simp: queue_data_def)
    moreover have "qs_nodes st' t = None" if "t \<noteq> p" "qs_nodes st t = None" for t
      using st'(3) that by (auto simp: node_data_def fun_eq_iff split: if_splits)
    ultimately show ?thesis using st'(1,2) r(3) by auto
  qed
  then obtain ss' where "with_queue ?body ss s = Some (0, ss')" "stack_rep ss' s (ds @ [d])"
      "\<forall>r. r \<noteq> p \<longrightarrow> qs_nodes (ss_q ss) r = None \<longrightarrow> qs_nodes (ss_q ss') r = None"
    using with_queue_rep [OF assms(1), of ?body 0 "ds @ [d]"
        "\<lambda>h. \<forall>r. r \<noteq> p \<longrightarrow> qs_nodes (ss_q ss) r = None \<longrightarrow> h r = None"] by blast
  then show ?thesis using stack_locked [OF assms(1)] by (auto simp: stack_push_def stack_fresh_def)
qed

lemma stack_pop_rep:
  assumes "stack_rep ss s (ds @ [d])"
  shows "\<exists>ss'. stack_pop ss s True = Some (0, Some d, ss') \<and> stack_rep ss' s ds"
proof -
  let ?body = "\<lambda>st q. do { (err, d, st) \<leftarrow> dequeue_tail st q True; Some ((err, d), st) }"
  have "\<exists>st' ps'. ?body st s = Some ((0, Some d), st') \<and> represents st' [s \<mapsto> ps'] \<and> queue_data st' ps' = ds \<and> True"
    if r: "represents st [s \<mapsto> ps]" "queue_data st ps = ds @ [d]" for st ps
  proof -
    have "ps \<noteq> []" using r(2) by (auto simp: queue_data_def)
    then obtain as p where ps: "ps = as @ [p]" by (cases ps rule: rev_cases) auto
    then have d: "queue_data st as = ds" "the (node_data (qs_nodes st) p) = d" using r(2) by (simp_all add: queue_data_def)
    obtain st' where st': "dequeue_tail st s True = Some (0, node_data (qs_nodes st) p, st')" "represents st' [s \<mapsto> as]"
        "node_data (qs_nodes st') = (node_data (qs_nodes st))(p := None)"
      using dequeue_tail_nonempty [OF r(1), of s as p] ps by auto
    have shp: "shape st s (as @ [p]) (of_nat (length (as @ [p])))" using representsD_shape [OF r(1), of s ps] ps by simp
    then have "p \<notin> set as" "node_data (qs_nodes st) p = Some d"
      using shape_loaded [OF shp] d(2) by (auto simp: shape_def node_data_def)
    moreover have "queue_data st' as = ds"
      using st'(3) \<open>p \<notin> set as\<close> d(1) queue_data_cong [of as st' st] by fastforce
    ultimately show ?thesis using st'(1,2) by auto
  qed
  then obtain ss' where "with_queue ?body ss s = Some ((0, Some d), ss')" "stack_rep ss' s ds"
    using with_queue_rep [OF assms, of ?body "(0, Some d)" ds "\<lambda>_. True"] by blast
  then show ?thesis using stack_locked [OF assms] by (auto simp: stack_pop_def)
qed

lemma stack_pop_empty:
  assumes "stack_rep ss s []"
  shows "\<exists>ss'. stack_pop ss s True = Some (- ENOENT, None, ss') \<and> stack_rep ss' s []"
proof -
  let ?body = "\<lambda>st q. do { (err, d, st) \<leftarrow> dequeue_tail st q True; Some ((err, d), st) }"
  have "\<exists>st' ps'. ?body st s = Some ((- ENOENT, None), st') \<and> represents st' [s \<mapsto> ps'] \<and> queue_data st' ps' = [] \<and> True"
    if r: "represents st [s \<mapsto> ps]" "queue_data st ps = []" for st ps
    using that dequeue_empty(2) [OF r(1), of s] by (auto simp: queue_data_def)
  then obtain ss' where "with_queue ?body ss s = Some ((- ENOENT, None), ss')" "stack_rep ss' s []"
    using with_queue_rep [OF assms, of ?body "(- ENOENT, None)" "[]" "\<lambda>_. True"] by blast
  then show ?thesis using stack_locked [OF assms] by (auto simp: stack_pop_def)
qed

interpretation stk: lifo "\<lambda>ss. stack_rep ss s" stack_fresh "\<lambda>p ss d. stack_push p ss s d" "\<lambda>ss. stack_pop ss s True" for s
  by unfold_locales (use stack_push_rep stack_pop_rep stack_pop_empty in blast)+

text \<open>The stack is last in, first out.  Pushing any list of values, each into a fresh piece of
  memory, succeeds, and popping as many values then returns exactly them in reverse order and
  leaves the stack with the contents it had; on an empty stack \<^verbatim>\<open>stack_pop\<close> answers \<^verbatim>\<open>-ENOENT\<close>.\<close>

theorem stack_is_lifo:
  assumes "stack_rep ss s xs" "distinct (map fst pds)" "\<forall>p \<in> set (map fst pds). stack_fresh ss p"
  shows "(\<exists>s1 s2. push_all (\<lambda>p ss d. stack_push p ss s d) pds ss = Some s1 \<and>
      pop_n (\<lambda>ss. stack_pop ss s True) (length pds) s1 = Some (rev (map snd pds), s2) \<and> stack_rep s2 s xs) \<and>
    (xs = [] \<longrightarrow> (\<exists>s'. stack_pop ss s True = Some (- ENOENT, None, s')))"
  using stk.push_then_pop [OF assms] stk.pop_empty [of ss s] assms(1) by blast

text \<open>The other operations keep the contents or change them as their names say.\<close>

lemma stack_size_correct:
  assumes "stack_rep ss s ds"
  shows "\<exists>ss'. stack_size ss s = Some (of_nat (length ds), ss') \<and> stack_rep ss' s ds"
proof -
  let ?body = "\<lambda>st q. do { n \<leftarrow> queue_length st q; Some (n, st) }"
  have "\<exists>st' ps'. ?body st s = Some (of_nat (length ds), st') \<and> represents st' [s \<mapsto> ps'] \<and> queue_data st' ps' = ds \<and> True"
    if r: "represents st [s \<mapsto> ps]" "queue_data st ps = ds" for st ps
    using that queue_length_spec [OF r(1), of s ps] by (auto simp: queue_data_def)
  then show ?thesis
    using with_queue_rep [OF assms, of ?body _ ds "\<lambda>_. True"] stack_locked [OF assms] by (auto simp: stack_size_def)
qed

lemma stack_alloc_empty:
  assumes "p \<noteq> NULL"
  shows "\<exists>ss'. stack_alloc p ss True = Some (0, Some p, ss') \<and>
    stack_rep (ss'\<lparr>ss_lock := (ss_lock ss')(p \<mapsto> True)\<rparr>) p []"
  using assms
  by (auto simp: stack_alloc_def stack_init_def stack_rep_def represents_def queue_rep_def shape_def queue_data_def)

section \<open>A sample stack\<close>

definition sample_stack :: sstate where
  "sample_stack = \<lparr>ss_q = \<lparr>qs_nodes = Map.empty, qs_queues = [8 \<mapsto> \<lparr>q_head = 0, q_tail = 0, q_count = 0, q_lock = False\<rparr>]\<rparr>,
     ss_lock = [8 \<mapsto> True]\<rparr>"

theorem stack_is_lifo_witness:
  "\<exists>s1 s2. push_all (\<lambda>p ss d. stack_push p ss 8 d) [(16, 5), (32, 6)] sample_stack = Some s1 \<and>
     pop_n (\<lambda>ss. stack_pop ss 8 True) (Suc (Suc 0)) s1 = Some ([6, 5], s2)"
proof -
  have "stack_rep sample_stack 8 []"
    by (auto simp: sample_stack_def stack_rep_def represents_def queue_rep_def shape_def queue_data_def)
  moreover have "stack_fresh sample_stack 16" "stack_fresh sample_stack 32"
    by (simp_all add: stack_fresh_def sample_stack_def)
  ultimately show ?thesis
    using stack_is_lifo [of sample_stack 8 "[]" "[(16, 5), (32, 6)]"] by (simp del: push_all.simps pop_n.simps) blast
qed

end
