(* ===== verification/Mmap.thy ===== *)
theory Mmap
  imports Dll Boot
begin

text \<open>
  Address spaces, \<^verbatim>\<open>src/src/kernel/mm/mmap.c\<close>: a memory map (\<^verbatim>\<open>mmap_t\<close>) owns a doubly linked list of
  virtual memory regions (\<^verbatim>\<open>vmr_t\<close>), sorted by address.  The regions live in a heap; the operations
  take the memory map and the heap and return them updated.

  What the operations do to page tables (\<^verbatim>\<open>arch_unmap_n\<close>, \<^verbatim>\<open>arch_mprotect\<close>) is not part of this model;
  the result of \<^verbatim>\<open>arch_mprotect\<close> is an argument.  The result of \<^verbatim>\<open>kzalloc\<close> is an argument \<open>p\<close>, null when
  there is no memory.  The memory map itself is never null here, so the checks of that pointer are
  left out; its own address is \<open>m_self\<close>, and the regions of its list belong to it (\<^verbatim>\<open>r->mmap\<close>).  Flags
  and protection bits, \<^verbatim>\<open>int\<close> or \<^verbatim>\<open>long\<close> in C, are 64-bit words.
\<close>

section \<open>State\<close>

record vmr =
  v_refs :: int
  v_flags :: u64
  v_vflags :: u64
  v_priv :: addr
  v_file :: addr
  v_filesz :: u64
  v_memsz :: u64
  v_file_pos :: u64
  v_mmap :: addr
  v_vmops :: addr
  v_paddr :: u64
  v_start :: u64
  v_end :: u64
  v_prev :: addr
  v_next :: addr

type_synonym vheap = "addr \<Rightarrow> vmr option"

record mmap =
  m_flags :: u64
  m_refs :: int
  m_priv :: addr
  m_arg :: addr
  m_env :: addr
  m_heap :: addr
  m_brk :: u64
  m_pgdir :: u64
  m_limit :: u64
  m_guard :: u64
  m_used_space :: u64
  m_head :: addr
  m_tail :: addr
  m_entry :: addr
  m_lock :: bool
  m_self :: addr

abbreviation (input) mmap_limit :: u64 where "mmap_limit \<equiv> 0x7FFFFFFFFFFF"
abbreviation (input) MMAP_USER :: u64 where "MMAP_USER \<equiv> 1"
abbreviation (input) VM_EXEC :: u64 where "VM_EXEC \<equiv> 1"
abbreviation (input) VM_WRITE :: u64 where "VM_WRITE \<equiv> 2"
abbreviation (input) VM_READ :: u64 where "VM_READ \<equiv> 4"
abbreviation (input) VM_ZERO :: u64 where "VM_ZERO \<equiv> 8"
abbreviation (input) VM_SHARED :: u64 where "VM_SHARED \<equiv> 0x10"
abbreviation (input) VM_GROWSDOWN :: u64 where "VM_GROWSDOWN \<equiv> 0x100"
abbreviation (input) VM_DONTEXPAND :: u64 where "VM_DONTEXPAND \<equiv> 0x200"
abbreviation (input) PTE_R :: u64 where "PTE_R \<equiv> 1"
abbreviation (input) PTE_X :: u64 where "PTE_X \<equiv> 1"
abbreviation (input) PTE_W :: u64 where "PTE_W \<equiv> 2"
abbreviation (input) PTE_U :: u64 where "PTE_U \<equiv> 4"
abbreviation (input) PROT_READ :: u64 where "PROT_READ \<equiv> 1"
abbreviation (input) PROT_WRITE :: u64 where "PROT_WRITE \<equiv> 2"
abbreviation (input) PROT_EXEC :: u64 where "PROT_EXEC \<equiv> 4"
abbreviation (input) MAP_PRIVATE :: u64 where "MAP_PRIVATE \<equiv> 1"
abbreviation (input) MAP_SHARED :: u64 where "MAP_SHARED \<equiv> 2"
abbreviation (input) MAP_DONTEXPAND :: u64 where "MAP_DONTEXPAND \<equiv> 4"
abbreviation (input) MAP_ZERO :: u64 where "MAP_ZERO \<equiv> 0x10"
abbreviation (input) MAP_STACK :: u64 where "MAP_STACK \<equiv> 0x100"
abbreviation (input) MAP_FIXED :: u64 where "MAP_FIXED \<equiv> 0x1000"
abbreviation (input) whence_start :: u64 where "whence_start \<equiv> 0"
abbreviation (input) whence_end :: u64 where "whence_end \<equiv> 1"

text \<open>\<^verbatim>\<open>sizeof(vmr_t)\<close>: fifteen members of eight bytes.\<close>

abbreviation (input) VMR_T :: u64 where "VMR_T \<equiv> 120"

definition vload :: "vheap \<Rightarrow> addr \<Rightarrow> vmr option" where
  "vload h p = (if p = NULL then None else h p)"

definition vupd :: "vheap \<Rightarrow> addr \<Rightarrow> (vmr \<Rightarrow> vmr) \<Rightarrow> vheap option" where
  "vupd h p f = do { v \<leftarrow> vload h p; Some (h(p \<mapsto> f v)) }"

definition has :: "u64 \<Rightarrow> u64 \<Rightarrow> bool" where
  "has flags f \<longleftrightarrow> flags AND f \<noteq> 0"

definition opt_flag :: "bool \<Rightarrow> u64 \<Rightarrow> u64" where
  "opt_flag b f = (if b then f else 0)"

definition vmr_size :: "vmr \<Rightarrow> u64" where "vmr_size v = (v_end v - v_start v) + 1"
definition vmr_upper_bound :: "vmr \<Rightarrow> u64" where "vmr_upper_bound v = v_end v + 1"
definition vmr_lower_bound :: "vmr \<Rightarrow> u64" where "vmr_lower_bound v = v_start v - 1"
definition vmr_isstack :: "vmr \<Rightarrow> bool" where "vmr_isstack v = has (v_flags v) VM_GROWSDOWN"
definition isaligned :: "u64 \<Rightarrow> bool" where "isaligned p \<longleftrightarrow> p AND 0xFFF = 0"
definition valid_addr :: "u64 \<Rightarrow> bool" where "valid_addr a \<longleftrightarrow> a \<le> mmap_limit"

definition mmap_assert_locked :: "mmap \<Rightarrow> unit option" where
  "mmap_assert_locked m = assert_that (m_lock m)"

section \<open>Searching\<close>

text \<open>
  \<^verbatim>\<open>forlinked(tmp, p, next(tmp)) if (P) return tmp\<close>, forwards or backwards; null when there is none.
\<close>

partial_function (option) vfind :: "(vmr \<Rightarrow> addr) \<Rightarrow> (addr \<Rightarrow> vmr \<Rightarrow> bool) \<Rightarrow> vheap \<Rightarrow> addr \<Rightarrow> addr option" where
  "vfind nxt P h p =
     (if p = NULL then Some NULL
      else do { v \<leftarrow> vload h p; if P p v then Some p else vfind nxt P h (nxt v) })"

definition mmap_contains :: "mmap \<Rightarrow> vheap \<Rightarrow> addr \<Rightarrow> int option" where
  "mmap_contains m h r =
     (if r = NULL then Some (- EINVAL)
      else do {
        mmap_assert_locked m;
        p \<leftarrow> vfind v_next (\<lambda>p _. p = r) h (m_head m);
        Some (if p \<noteq> NULL then 1 else 0) })"

definition mmap_find :: "mmap \<Rightarrow> vheap \<Rightarrow> u64 \<Rightarrow> addr option" where
  "mmap_find m h a = do {
     mmap_assert_locked m;
     vfind v_next (\<lambda>_ v. a \<ge> v_start v \<and> a \<le> v_end v) h (m_head m) }"

definition mmap_find_stack :: "mmap \<Rightarrow> vheap \<Rightarrow> u64 \<Rightarrow> bool \<Rightarrow> (int \<times> addr) option" where
  "mmap_find_stack m h a pvp =
     (if \<not> pvp then Some (- EINVAL, NULL)
      else do {
        p \<leftarrow> mmap_find m h a;
        if p = NULL then Some (- EFAULT, NULL)
        else do { v \<leftarrow> vload h p; Some (if vmr_isstack v then (0, p) else (- EFAULT, NULL)) } })"

definition mmap_find_exact :: "mmap \<Rightarrow> vheap \<Rightarrow> u64 \<Rightarrow> u64 \<Rightarrow> addr option" where
  "mmap_find_exact m h s e = do {
     mmap_assert_locked m;
     p \<leftarrow> mmap_find m h s;
     if p = NULL then Some NULL
     else do { v \<leftarrow> vload h p; Some (if s \<noteq> v_start v \<or> e \<noteq> v_end v then NULL else p) } }"

text \<open>The region that holds the address, or null, and the following (preceding) one.\<close>

definition mmap_find_vmr_next :: "mmap \<Rightarrow> vheap \<Rightarrow> u64 \<Rightarrow> (addr \<times> addr) option" where
  "mmap_find_vmr_next m h a = do {
     mmap_assert_locked m;
     r \<leftarrow> mmap_find m h a;
     if r \<noteq> NULL then do { v \<leftarrow> vload h r; Some (r, v_next v) }
     else do { p \<leftarrow> vfind v_next (\<lambda>_ v. a < v_start v) h (m_head m); Some (NULL, p) } }"

definition mmap_find_vmr_prev :: "mmap \<Rightarrow> vheap \<Rightarrow> u64 \<Rightarrow> (addr \<times> addr) option" where
  "mmap_find_vmr_prev m h a = do {
     mmap_assert_locked m;
     r \<leftarrow> mmap_find m h a;
     if r \<noteq> NULL then do { v \<leftarrow> vload h r; Some (r, v_prev v) }
     else do { p \<leftarrow> vfind v_prev (\<lambda>_ v. v_end v < a) h (m_tail m); Some (NULL, p) } }"

definition mmap_find_vmr_overlap :: "mmap \<Rightarrow> vheap \<Rightarrow> u64 \<Rightarrow> u64 \<Rightarrow> addr option" where
  "mmap_find_vmr_overlap m h s e = do {
     mmap_assert_locked m;
     r \<leftarrow> mmap_find m h s;
     if r = NULL then Some NULL
     else do { v \<leftarrow> vload h r; Some (if e \<le> v_end v then r else NULL) } }"

definition mmap_getholesize :: "mmap \<Rightarrow> vheap \<Rightarrow> u64 \<Rightarrow> (int \<times> u64) option" where
  "mmap_getholesize m h a = do {
     mmap_assert_locked m;
     if a > m_limit m then Some (- EINVAL, 0)
     else do {
       r \<leftarrow> mmap_find m h a;
       if r \<noteq> NULL then Some (- EINVAL, 0)
       else do {
         (_, nx) \<leftarrow> mmap_find_vmr_next m h a;
         if nx = NULL then Some (0, (m_limit m + 1) - a)
         else do { v \<leftarrow> vload h nx; Some (0, v_start v - a) } } } }"

section \<open>Inserting and removing a region\<close>

definition vmr_free :: "vheap \<Rightarrow> addr \<Rightarrow> vheap option" where
  "vmr_free h r =
     (if r = NULL then Some h
      else do {
        v \<leftarrow> vload h r;
        Some (h(r := (if v_refs v - 1 \<le> 0 then None else Some (v\<lparr>v_refs := v_refs v - 1\<rparr>)))) })"

definition zero_vmr :: vmr where
  "zero_vmr = \<lparr>v_refs = 0, v_flags = 0, v_vflags = 0, v_priv = NULL, v_file = NULL, v_filesz = 0, v_memsz = 0,
     v_file_pos = 0, v_mmap = NULL, v_vmops = NULL, v_paddr = 0, v_start = 0, v_end = 0, v_prev = NULL, v_next = NULL\<rparr>"

definition vmr_alloc :: "addr \<Rightarrow> vheap \<Rightarrow> bool \<Rightarrow> (int \<times> addr \<times> vheap) option" where
  "vmr_alloc p h ref =
     (if \<not> ref then Some (- EINVAL, NULL, h)
      else if p = NULL then Some (- ENOMEM, NULL, h)
      else Some (0, p, h(p \<mapsto> zero_vmr)))"

text \<open>The loop of \<^verbatim>\<open>mmap_mapin\<close> that looks for an overlap with the regions that are mapped.\<close>

partial_function (option) mapin_check :: "mmap \<Rightarrow> vheap \<Rightarrow> u64 \<Rightarrow> u64 \<Rightarrow> int option" where
  "mapin_check m h a e =
     (if \<not> a \<le> e then Some 0
      else do {
        r \<leftarrow> mmap_find m h a;
        if r \<noteq> NULL then Some (- EEXIST)
        else do {
          (err, hole) \<leftarrow> mmap_getholesize m h a;
          if err \<noteq> 0 then Some err
          else do { assert_that (hole \<noteq> 0); mapin_check m h (a + hole) e } } })"

text \<open>
  Insertion before \<open>node\<close>.  When \<open>node\<close> is the head the code steps \<^verbatim>\<open>node\<close> past the region (\<^verbatim>\<open>node++\<close>)
  before it writes \<^verbatim>\<open>node->prev\<close>.
\<close>

definition insert_before :: "mmap \<Rightarrow> vheap \<Rightarrow> addr \<Rightarrow> addr \<Rightarrow> (mmap \<times> vheap) option" where
  "insert_before m h r node = do {
     nv \<leftarrow> vload h node;
     h \<leftarrow> vupd h r (\<lambda>v. v\<lparr>v_next := node, v_prev := v_prev nv\<rparr>);
     (m, h, node) \<leftarrow>
       (if v_prev nv \<noteq> NULL
        then do {
          h \<leftarrow> vupd h (v_prev nv) (\<lambda>v. v\<lparr>v_next := r\<rparr>);
          h \<leftarrow> vupd h r (\<lambda>v. v\<lparr>v_refs := v_refs v + 1\<rparr>);
          Some (m, h, node) }
        else do {
          h \<leftarrow> vupd h r (\<lambda>v. v\<lparr>v_refs := v_refs v + 1\<rparr>);
          Some (m\<lparr>m_head := r\<rparr>, h, node + VMR_T) });
     h \<leftarrow> vupd h node (\<lambda>v. v\<lparr>v_prev := r\<rparr>);
     h \<leftarrow> vupd h r (\<lambda>v. v\<lparr>v_refs := v_refs v + 1, v_mmap := m_self m\<rparr>);
     Some (m, h) }"

definition insert_last :: "mmap \<Rightarrow> vheap \<Rightarrow> addr \<Rightarrow> (mmap \<times> vheap) option" where
  "insert_last m h r = do {
     h \<leftarrow> vupd h r (\<lambda>v. v\<lparr>v_next := NULL, v_prev := m_tail m\<rparr>);
     (m, h) \<leftarrow>
       (if m_tail m \<noteq> NULL
        then do {
          h \<leftarrow> vupd h (m_tail m) (\<lambda>v. v\<lparr>v_next := r\<rparr>);
          h \<leftarrow> vupd h r (\<lambda>v. v\<lparr>v_refs := v_refs v + 1\<rparr>);
          Some (m, h) }
        else do {
          h \<leftarrow> vupd h r (\<lambda>v. v\<lparr>v_refs := v_refs v + 1\<rparr>);
          Some (m\<lparr>m_head := r\<rparr>, h) });
     h \<leftarrow> vupd h r (\<lambda>v. v\<lparr>v_refs := v_refs v + 1, v_mmap := m_self m\<rparr>);
     Some (m\<lparr>m_tail := r\<rparr>, h) }"

definition insert_only :: "mmap \<Rightarrow> vheap \<Rightarrow> addr \<Rightarrow> (mmap \<times> vheap) option" where
  "insert_only m h r = do {
     h \<leftarrow> vupd h r (\<lambda>v. v\<lparr>v_refs := v_refs v + 2, v_mmap := m_self m\<rparr>);
     Some (m\<lparr>m_head := r, m_tail := r\<rparr>, h) }"

definition insert_sorted :: "mmap \<Rightarrow> vheap \<Rightarrow> addr \<Rightarrow> vmr \<Rightarrow> (mmap \<times> vheap) option" where
  "insert_sorted m h r rv =
     (if m_head m = NULL then insert_only m h r
      else do {
        node \<leftarrow> vfind v_next (\<lambda>_ v. v_start rv < v_start v) h (m_head m);
        if node \<noteq> NULL then insert_before m h r node else insert_last m h r })"

definition mmap_mapin :: "mmap \<Rightarrow> vheap \<Rightarrow> addr \<Rightarrow> (int \<times> mmap \<times> vheap) option" where
  "mmap_mapin m h r =
     (if r = NULL then Some (- EINVAL, m, h)
      else do {
        assert_that (r > V2HI 0);
        c \<leftarrow> mmap_contains m h r;
        if c \<noteq> 0 then Some (- EEXIST, m, h)
        else do {
          rv \<leftarrow> vload h r;
          if vmr_size rv = 0 \<or> v_end rv > mmap_limit then Some (- EINVAL, m, h)
          else do {
            err \<leftarrow> mapin_check m h (v_start rv) (v_end rv);
            if err \<noteq> 0 then Some (err, m, h)
            else do {
              (m, h) \<leftarrow> insert_sorted m h r rv;
              rv \<leftarrow> vload h r;
              Some (0, m\<lparr>m_refs := m_refs m + 1, m_used_space := m_used_space m + vmr_size rv\<rparr>, h) } } } })"

text \<open>Unlinking in \<^verbatim>\<open>mmap_remove\<close>: the neighbours, the head and the tail.\<close>

definition unlink_neighbours :: "vheap \<Rightarrow> addr \<Rightarrow> vmr \<Rightarrow> vheap option" where
  "unlink_neighbours h r rv = do {
     h \<leftarrow> (if v_prev rv \<noteq> NULL
          then do {
            h \<leftarrow> vupd h (v_prev rv) (\<lambda>v. v\<lparr>v_next := v_next rv\<rparr>);
            vupd h r (\<lambda>v. v\<lparr>v_refs := v_refs v - 1\<rparr>) }
          else Some h);
     if v_next rv \<noteq> NULL
     then do {
       h \<leftarrow> vupd h (v_next rv) (\<lambda>v. v\<lparr>v_prev := v_prev rv\<rparr>);
       vupd h r (\<lambda>v. v\<lparr>v_refs := v_refs v - 1\<rparr>) }
     else Some h }"

definition unlink_head :: "mmap \<Rightarrow> vheap \<Rightarrow> addr \<Rightarrow> vmr \<Rightarrow> (mmap \<times> vheap) option" where
  "unlink_head m h r rv =
     (if m_head m = r
      then do {
        let m = m\<lparr>m_head := v_next rv\<rparr>;
        h \<leftarrow> (if m_head m \<noteq> NULL
             then vupd h (m_head m) (\<lambda>v. (let v = v\<lparr>v_prev := NULL\<rparr> in if v_next v = NULL then v\<lparr>v_refs := v_refs v - 1\<rparr> else v))
             else Some h);
        Some (m, h) }
      else Some (m, h))"

definition unlink_tail :: "mmap \<Rightarrow> vheap \<Rightarrow> addr \<Rightarrow> vmr \<Rightarrow> (mmap \<times> vheap) option" where
  "unlink_tail m h r rv =
     (if m_tail m = r
      then do {
        let m = m\<lparr>m_tail := v_prev rv\<rparr>;
        h \<leftarrow> (if m_tail m \<noteq> NULL
             then vupd h (m_tail m) (\<lambda>v. (let v = v\<lparr>v_next := NULL\<rparr> in if v_prev v = NULL then v\<lparr>v_refs := v_refs v - 1\<rparr> else v))
             else Some h);
        Some (m, h) }
      else Some (m, h))"

definition forget_special :: "mmap \<Rightarrow> addr \<Rightarrow> mmap" where
  "forget_special m r =
     (if r = m_heap m then m\<lparr>m_brk := 0, m_heap := NULL\<rparr>
      else if r = m_arg m then m\<lparr>m_arg := NULL\<rparr>
      else if r = m_env m then m\<lparr>m_env := NULL\<rparr> else m)"

definition mmap_remove :: "mmap \<Rightarrow> vheap \<Rightarrow> addr \<Rightarrow> (int \<times> mmap \<times> vheap) option" where
  "mmap_remove m h r =
     (if r = NULL then Some (- EINVAL, m, h)
      else do {
        mmap_assert_locked m;
        c \<leftarrow> mmap_contains m h r;
        if c = 0 then Some (- ENOENT, m, h)
        else do {
          rv \<leftarrow> vload h r;
          h \<leftarrow> unlink_neighbours h r rv;
          (m, h) \<leftarrow> unlink_head m h r rv;
          (m, h) \<leftarrow> unlink_tail m h r rv;
          h \<leftarrow> vupd h r (\<lambda>v. v\<lparr>v_refs := v_refs v - 1, v_mmap := NULL\<rparr>);
          let m = forget_special (m\<lparr>m_refs := m_refs m - 1\<rparr>) r;
          h \<leftarrow> vmr_free h r;
          Some (0, m, h) } })"

section \<open>Splitting and unmapping\<close>

definition vmr_can_split :: "vmr \<Rightarrow> u64 \<Rightarrow> bool" where
  "vmr_can_split v a \<longleftrightarrow> v_start v < a \<and> a < v_end v"

text \<open>\<^verbatim>\<open>vmr_split\<close> writes \<^verbatim>\<open>*pvmr\<close> before it tests \<^verbatim>\<open>pvmr\<close>; \<open>pvmr\<close> says whether the pointer is not null.\<close>

definition vmr_split :: "addr \<Rightarrow> mmap \<Rightarrow> vheap \<Rightarrow> addr \<Rightarrow> u64 \<Rightarrow> bool \<Rightarrow> (int \<times> mmap \<times> vheap) option" where
  "vmr_split p m h r a pvmr =
     (if r = NULL then Some (- EINVAL, m, h)
      else do {
        v \<leftarrow> vload h r;
        if \<not> vmr_can_split v a then Some (- EINVAL, m, h)
        else do {
          assert_that pvmr;
          (err, new, h) \<leftarrow> vmr_alloc p h True;
          if err \<noteq> 0 then Some (err, m, h)
          else do {
            h \<leftarrow> vupd h new (\<lambda>n. n\<lparr>v_start := a, v_end := v_end v, v_file := v_file v, v_flags := v_flags v,
              v_vflags := v_vflags v, v_file_pos := (if v_file v \<noteq> NULL then v_file_pos n + (a - v_start v) else v_file_pos n)\<rparr>);
            h \<leftarrow> vupd h r (\<lambda>v. v\<lparr>v_end := a - 1\<rparr>);
            (err, m, h) \<leftarrow> (if v_mmap v = NULL then Some (- EINVAL, m, h) else mmap_mapin m h new);
            if err \<noteq> 0 then do { h \<leftarrow> vmr_free h new; Some (err, m, h) }
            else Some (0, m, h) } } })"

partial_function (option) unmap_loop :: "mmap \<Rightarrow> vheap \<Rightarrow> u64 \<Rightarrow> u64 \<Rightarrow> (mmap \<times> vheap) option" where
  "unmap_loop m h s len =
     (if len = 0 then Some (m, h)
      else do {
        let e = s + len - 1;
        x \<leftarrow> mmap_find_exact m h s e;
        if x \<noteq> NULL
        then do {
          (_, m, h) \<leftarrow> mmap_remove m h x;
          unmap_loop m h (s + (e - s)) (len - (e - s)) }
        else do {
          r \<leftarrow> mmap_find m h s;
          if r \<noteq> NULL
          then do {
            v \<leftarrow> vload h r;
            if v_start v = s
            then
              (if vmr_size v > len
               then do { h \<leftarrow> vupd h r (\<lambda>v. v\<lparr>v_start := v_start v + len\<rparr>); Some (m, h) }
               else if vmr_size v < len
               then do { (_, m, h) \<leftarrow> mmap_remove m h r; unmap_loop m h (vmr_upper_bound v) (len - vmr_size v) }
               else unmap_loop m h s len)
            else if v_end v = s
            then do { h \<leftarrow> vupd h r (\<lambda>v. v\<lparr>v_end := v_end v - 1\<rparr>); unmap_loop m h s len }
            else do { (_, m, h) \<leftarrow> vmr_split NULL m h r s False; unmap_loop m h s len } }
          else do {
            (_, hole) \<leftarrow> mmap_getholesize m h s;
            if hole = 0 then Some (m, h)
            else do {
              let hole = (if hole > len then len else hole);
              unmap_loop m h (s + hole) (len - hole) } } } })"

definition mmap_unmap :: "mmap \<Rightarrow> vheap \<Rightarrow> u64 \<Rightarrow> u64 \<Rightarrow> (int \<times> mmap \<times> vheap) option" where
  "mmap_unmap m h s len =
     (if len = 0 then Some (- EINVAL, m, h)
      else do {
        mmap_assert_locked m;
        if \<not> valid_addr (s + len - 1) then Some (- EINVAL, m, h)
        else do { (m, h) \<leftarrow> unmap_loop m h s len; Some (0, m, h) } })"

definition mmap_forced_mapin :: "mmap \<Rightarrow> vheap \<Rightarrow> addr \<Rightarrow> (int \<times> mmap \<times> vheap) option" where
  "mmap_forced_mapin m h r =
     (if r = NULL then Some (- EINVAL, m, h)
      else do {
        mmap_assert_locked m;
        rv \<leftarrow> vload h r;
        (err, m, h) \<leftarrow> mmap_unmap m h (v_start rv) (vmr_size rv);
        if err \<noteq> 0 then Some (err, m, h) else mmap_mapin m h r })"

section \<open>Finding holes\<close>

text \<open>The walks over the list: from a region on forwards, and backwards; \<^term>\<open>None\<close> inside when there is no hole.\<close>

partial_function (option) hole_forward :: "mmap \<Rightarrow> vheap \<Rightarrow> u64 \<Rightarrow> addr \<Rightarrow> u64 option option" where
  "hole_forward m h sz tmp =
     (if tmp = NULL then Some None
      else do {
        v \<leftarrow> vload h tmp;
        if v_next v \<noteq> NULL
        then do {
          nv \<leftarrow> vload h (v_next v);
          if v_start nv - vmr_upper_bound v \<ge> sz then Some (Some (vmr_upper_bound v))
          else hole_forward m h sz (v_next v) }
        else do {
          (_, hole) \<leftarrow> mmap_getholesize m h (vmr_upper_bound v);
          if hole \<ge> sz then Some (Some (vmr_upper_bound v)) else hole_forward m h sz (v_next v) } })"

partial_function (option) hole_backward :: "bool \<Rightarrow> vheap \<Rightarrow> u64 \<Rightarrow> addr \<Rightarrow> u64 option option" where
  "hole_backward first h sz tmp =
     (if tmp = NULL then Some None
      else do {
        v \<leftarrow> vload h tmp;
        if v_prev v \<noteq> NULL
        then do {
          pv \<leftarrow> vload h (v_prev v);
          if v_start v - vmr_upper_bound pv \<ge> sz then Some (Some (v_start v - sz))
          else hole_backward first h sz (v_prev v) }
        else if first \<and> vmr_lower_bound v > 0 \<and> v_start v \<ge> sz then Some (Some (v_start v - sz))
        else hole_backward first h sz (v_prev v) })"

text \<open>The error and the address of the hole; the output pointer is never null here.\<close>

definition mmap_find_hole :: "mmap \<Rightarrow> vheap \<Rightarrow> u64 \<Rightarrow> u64 \<Rightarrow> (int \<times> u64) option" where
  "mmap_find_hole m h sz whence =
     (if sz = 0 then Some (- EINVAL, 0)
      else do {
        mmap_assert_locked m;
        if whence = whence_start
        then do {
          (_, hole) \<leftarrow> mmap_getholesize m h 0;
          if hole \<ge> sz then Some (0, 0)
          else do {
            r \<leftarrow> hole_forward m h sz (m_head m);
            Some (case r of Some a \<Rightarrow> (0, a) | None \<Rightarrow> (- ENOMEM, 0)) } }
        else if whence = whence_end
        then do {
          (_, hole) \<leftarrow> mmap_getholesize m h (m_limit m + 1 - sz);
          if hole \<ge> sz then Some (0, m_limit m + 1 - sz)
          else do {
            r \<leftarrow> hole_backward True h sz (m_tail m);
            Some (case r of Some a \<Rightarrow> (0, a) | None \<Rightarrow> (- ENOMEM, 0)) } }
        else Some (- ENOMEM, 0) })"

text \<open>The two halves of \<^verbatim>\<open>mmap_find_holeat\<close>, by direction; \<^term>\<open>None\<close> inside means to fall back.\<close>

definition holeat_start :: "mmap \<Rightarrow> vheap \<Rightarrow> u64 \<Rightarrow> u64 \<Rightarrow> addr \<Rightarrow> u64 option option" where
  "holeat_start m h a sz near_vmr = do {
     (_, hole) \<leftarrow> mmap_getholesize m h a;
     if hole \<ge> sz then Some (Some a)
     else do {
       let near_vmr = (if near_vmr \<noteq> NULL then near_vmr else m_head m);
       before \<leftarrow>
         (if near_vmr = NULL then Some None
          else do {
            v \<leftarrow> vload h near_vmr;
            if v_prev v = NULL then Some None
            else do {
              pv \<leftarrow> vload h (v_prev v);
              Some (if v_start v - vmr_upper_bound pv \<ge> sz then Some (vmr_upper_bound pv) else None) } });
       case before of Some b \<Rightarrow> Some (Some b) | None \<Rightarrow> hole_forward m h sz near_vmr } }"

definition holeat_end :: "mmap \<Rightarrow> vheap \<Rightarrow> u64 \<Rightarrow> addr \<Rightarrow> u64 option option" where
  "holeat_end m h sz near_vmr = do {
     let near_vmr = (if near_vmr \<noteq> NULL then near_vmr else m_tail m);
     first \<leftarrow>
       (if near_vmr \<noteq> NULL
        then do {
          v \<leftarrow> vload h near_vmr;
          if v_next v \<noteq> NULL
          then do {
            nv \<leftarrow> vload h (v_next v);
            Some (if v_start nv - vmr_upper_bound v \<ge> sz then Some (v_start nv - sz) else None) }
          else do {
            (_, hole) \<leftarrow> mmap_getholesize m h (vmr_upper_bound v);
            Some (if hole \<ge> sz then Some (vmr_upper_bound v + hole - sz) else None) } }
        else do {
          (_, hole) \<leftarrow> mmap_getholesize m h (m_limit m + 1 - sz);
          Some (if hole \<ge> sz then Some (m_limit m + 1 - sz) else None) });
     case first of Some b \<Rightarrow> Some (Some b) | None \<Rightarrow> hole_backward False h sz near_vmr }"

definition mmap_find_holeat :: "mmap \<Rightarrow> vheap \<Rightarrow> u64 \<Rightarrow> u64 \<Rightarrow> u64 \<Rightarrow> (int \<times> u64) option" where
  "mmap_find_holeat m h a sz whence =
     (if sz = 0 then Some (- EINVAL, 0)
      else do {
        mmap_assert_locked m;
        near_vmr \<leftarrow>
          (if a \<noteq> 0 \<and> whence = whence_start then do { (_, p) \<leftarrow> mmap_find_vmr_next m h a; Some p }
           else if a \<noteq> 0 \<and> whence = whence_end then do { (_, p) \<leftarrow> mmap_find_vmr_prev m h a; Some p }
           else Some NULL);
        r \<leftarrow> (if whence = whence_start then holeat_start m h a sz near_vmr
             else if whence = whence_end then holeat_end m h sz near_vmr else Some None);
        case r of Some b \<Rightarrow> Some (0, b) | None \<Rightarrow> mmap_find_hole m h sz whence })"

section \<open>Mapping regions\<close>

definition map_flags_ok :: "u64 \<Rightarrow> u64 \<Rightarrow> u64 \<Rightarrow> u64 \<Rightarrow> bool" where
  "map_flags_ok a len prot flags \<longleftrightarrow>
     \<not> (has flags MAP_FIXED \<and> \<not> isaligned a) \<and>
     \<not> (has flags MAP_FIXED \<and> \<not> valid_addr a) \<and>
     \<not> (has flags MAP_STACK \<and> (\<not> isaligned a \<or> \<not> isaligned len)) \<and>
     \<not> (has flags MAP_PRIVATE \<and> has flags MAP_SHARED \<or> \<not> has flags MAP_PRIVATE \<and> \<not> has flags MAP_SHARED) \<and>
     \<not> (has flags MAP_STACK \<and> \<not> (has prot PROT_READ \<and> has prot PROT_WRITE))"

definition region_flags :: "u64 \<Rightarrow> u64 \<Rightarrow> u64" where
  "region_flags prot flags =
     opt_flag (has prot PROT_EXEC) VM_EXEC OR opt_flag (has prot PROT_READ) VM_READ OR
     opt_flag (has prot PROT_WRITE) VM_WRITE OR opt_flag (has flags MAP_ZERO) VM_ZERO OR
     opt_flag (has flags MAP_SHARED) VM_SHARED OR opt_flag (has flags MAP_STACK) VM_GROWSDOWN OR
     opt_flag (has flags MAP_DONTEXPAND) VM_DONTEXPAND"

definition page_flags :: "mmap \<Rightarrow> u64 \<Rightarrow> u64" where
  "page_flags m flags =
     opt_flag (has flags VM_READ) PTE_R OR opt_flag (has flags VM_WRITE) PTE_W OR
     opt_flag (has flags VM_EXEC) PTE_X OR opt_flag (has (m_flags m) MMAP_USER) PTE_U"

definition mmap_map_region :: "addr \<Rightarrow> mmap \<Rightarrow> vheap \<Rightarrow> u64 \<Rightarrow> u64 \<Rightarrow> u64 \<Rightarrow> u64 \<Rightarrow> bool \<Rightarrow>
    (int \<times> addr \<times> mmap \<times> vheap) option" where
  "mmap_map_region p m h a len prot flags pvmr =
     (if (\<not> has flags MAP_FIXED \<and> \<not> pvmr) \<or> len = 0 then Some (- EINVAL, NULL, m, h)
      else do {
        mmap_assert_locked m;
        if \<not> map_flags_ok a len prot flags then Some (- EINVAL, NULL, m, h)
        else do {
          let len = (if has flags MAP_STACK then len + m_guard m else len);
          let whence = (if has flags MAP_STACK then whence_end else whence_start);
          (err, a) \<leftarrow> (if \<not> has flags MAP_FIXED then mmap_find_holeat m h a len whence else Some (0, a));
          if err \<noteq> 0 then Some (err, NULL, m, h)
          else do {
            (err, r, h) \<leftarrow> vmr_alloc p h True;
            if err \<noteq> 0 then Some (err, NULL, m, h)
            else do {
              let fl = region_flags prot flags;
              h \<leftarrow> vupd h r (\<lambda>v. v\<lparr>v_start := a, v_end := (a + len) - 1, v_flags := v_flags v OR fl,
                v_vflags := v_vflags v OR page_flags m fl\<rparr>);
              (err, m, h) \<leftarrow> (if has flags MAP_FIXED then mmap_forced_mapin m h r else mmap_mapin m h r);
              if err \<noteq> 0 then do { h \<leftarrow> vmr_free h r; Some (err, NULL, m, h) }
              else Some (0, r, m, h) } } } })"

definition mmap_alloc_vmr :: "addr \<Rightarrow> mmap \<Rightarrow> vheap \<Rightarrow> u64 \<Rightarrow> u64 \<Rightarrow> u64 \<Rightarrow> bool \<Rightarrow> (int \<times> addr \<times> mmap \<times> vheap) option" where
  "mmap_alloc_vmr p m h sz prot flags pvmr =
     (if \<not> pvmr then Some (- EINVAL, NULL, m, h)
      else do {
        mmap_assert_locked m;
        if has flags MAP_FIXED then Some (- EINVAL, NULL, m, h)
        else mmap_map_region p m h 0 sz prot flags pvmr })"

text \<open>\<open>map_n\<close> is the result of \<^verbatim>\<open>arch_map_n\<close>.\<close>

definition mmap_alloc_mapped_vmr :: "addr \<Rightarrow> (u64 \<Rightarrow> u64 \<Rightarrow> u64 \<Rightarrow> int) \<Rightarrow> mmap \<Rightarrow> vheap \<Rightarrow> u64 \<Rightarrow> u64 \<Rightarrow> u64 \<Rightarrow> u64 \<Rightarrow> bool \<Rightarrow>
    (int \<times> addr \<times> mmap \<times> vheap) option" where
  "mmap_alloc_mapped_vmr p map_n m h a len prot flags pvmr =
     (if \<not> pvmr then Some (- EINVAL, NULL, m, h)
      else do {
        mmap_assert_locked m;
        if has flags MAP_FIXED then Some (- EINVAL, NULL, m, h)
        else do {
          (err, r, m, h) \<leftarrow> mmap_map_region p m h a len prot flags True;
          if err \<noteq> 0 then Some (err, NULL, m, h)
          else do {
            v \<leftarrow> vload h r;
            let err = map_n (v_start v) len (v_vflags v);
            if err \<noteq> 0 then do { (_, m, h) \<leftarrow> mmap_remove m h r; Some (err, NULL, m, h) }
            else Some (0, r, m, h) } } })"

definition mmap_alloc_stack :: "addr \<Rightarrow> mmap \<Rightarrow> vheap \<Rightarrow> u64 \<Rightarrow> bool \<Rightarrow> (int \<times> addr \<times> mmap \<times> vheap) option" where
  "mmap_alloc_stack p m h sz pstack =
     (if \<not> pstack then Some (- EINVAL, NULL, m, h)
      else do {
        mmap_assert_locked m;
        mmap_map_region p m h 0 sz (PROT_READ OR PROT_WRITE) (MAP_STACK OR MAP_PRIVATE) pstack })"

text \<open>
  \<^verbatim>\<open>mmap_vmr_expand\<close>: sizes and the increment are signed; the C code adds them without a check, so
  the sum wraps around at 64 bits.
\<close>

definition mmap_vmr_expand :: "mmap \<Rightarrow> vheap \<Rightarrow> addr \<Rightarrow> u64 \<Rightarrow> (int \<times> mmap \<times> vheap) option" where
  "mmap_vmr_expand m h r incr =
     (if r = NULL then Some (- EINVAL, m, h)
      else if incr = 0 then Some (0, m, h)
      else do {
        mmap_assert_locked m;
        v \<leftarrow> vload h r;
        if has (v_flags v) VM_DONTEXPAND then Some (- EINVAL, m, h)
        else do {
          let oldsz = vmr_size v;
          let newsz = oldsz + incr;
          let down = has (v_flags v) VM_GROWSDOWN;
          if sint newsz > sint oldsz
          then do {
            let hole_addr = (if down then v_start v - incr else vmr_upper_bound v);
            (err, hole) \<leftarrow> mmap_getholesize m h hole_addr;
            if err \<noteq> 0 then Some (err, m, h)
            else if hole \<ge> incr
            then do {
              h \<leftarrow> vupd h r (\<lambda>v. if down then v\<lparr>v_start := hole_addr\<rparr> else v\<lparr>v_end := (v_start v + newsz) - 1\<rparr>);
              Some (0, m, h) }
            else Some (- ENOMEM, m, h) }
          else if sint newsz < 0 then Some (- EINVAL, m, h)
          else if newsz = 0 then mmap_remove m h r
          else do {
            h \<leftarrow> vupd h r (\<lambda>v. if down then v\<lparr>v_start := v_start v + (oldsz - newsz)\<rparr>
              else v\<lparr>v_end := v_end v - (oldsz - newsz)\<rparr>);
            Some (0, m, h) } } })"

section \<open>Copying\<close>

definition vmr_copy :: "vheap \<Rightarrow> addr \<Rightarrow> addr \<Rightarrow> (int \<times> vheap) option" where
  "vmr_copy h rdst rsrc =
     (if rdst = NULL \<or> rsrc = NULL then Some (- EINVAL, h)
      else do {
        d \<leftarrow> vload h rdst;
        s \<leftarrow> vload h rsrc;
        if v_mmap d \<noteq> NULL \<and> v_mmap d = v_mmap s then Some (- EINVAL, h)
        else Some (0, h(rdst \<mapsto> s\<lparr>v_refs := 0, v_mmap := NULL, v_priv := NULL, v_prev := NULL, v_next := NULL\<rparr>)) })"

definition vmr_clone :: "addr \<Rightarrow> vheap \<Rightarrow> addr \<Rightarrow> bool \<Rightarrow> (int \<times> addr \<times> vheap) option" where
  "vmr_clone p h src pclone =
     (if src = NULL \<or> \<not> pclone then Some (- EINVAL, NULL, h)
      else do {
        (err, clone, h) \<leftarrow> vmr_alloc p h True;
        if err \<noteq> 0 then Some (err, NULL, h)
        else do {
          (err, h) \<leftarrow> vmr_copy h clone src;
          if err \<noteq> 0 then do { h \<leftarrow> vmr_free h clone; Some (err, NULL, h) }
          else Some (0, clone, h) } })"

end
