(* ===== verification/Mmap_Proofs.thy ===== *)
theory Mmap_Proofs
  imports Mmap
begin

text \<open>
  Correctness of the address-space lists.  The invariant says that the list is a well-formed chain
  of non-empty regions below the limit, in ascending order and pairwise disjoint; \<open>mapped\<close> is the
  set of addresses that the regions cover.
\<close>

section \<open>Chains of regions\<close>

text \<open>The links of a region, so that the lemmas on chains of queue nodes apply.\<close>

definition links :: "vheap \<Rightarrow> node_heap" where
  "links h p = map_option (\<lambda>v. \<lparr>qn_prev = v_prev v, qn_data = 0, qn_next = v_next v\<rparr>) (h p)"

definition vmr_at :: "vheap \<Rightarrow> addr \<Rightarrow> vmr" where
  "vmr_at h p = the (h p)"

lemma links_Some: "links h p = Some n \<longleftrightarrow>
    (\<exists>v. h p = Some v \<and> n = \<lparr>qn_prev = v_prev v, qn_data = 0, qn_next = v_next v\<rparr>)"
  by (auto simp: links_def)

lemma vload_Some [simp]: "p \<noteq> NULL \<Longrightarrow> vload h p = h p"
  by (simp add: vload_def)

lemma chain_Cons:
  "dll (links h) b (p # ps) e \<longleftrightarrow> p \<noteq> NULL \<and> h p = Some (vmr_at h p) \<and> v_prev (vmr_at h p) = b \<and>
     v_next (vmr_at h p) = hdp ps e \<and> dll (links h) p ps e"
  by (auto simp: links_Some vmr_at_def)

lemma chain_loaded: "dll (links h) b ps e \<Longrightarrow> p \<in> set ps \<Longrightarrow> p \<noteq> NULL \<and> h p = Some (vmr_at h p)"
  using dll_loaded [of "links h" b ps e p] by (auto simp: links_Some vmr_at_def)

lemma vfind_NULL [simp]: "vfind nxt P h NULL = Some NULL"
  by (subst vfind.simps) simp

lemma vfind_step: "p \<noteq> NULL \<Longrightarrow> h p = Some v \<Longrightarrow> vfind nxt P h p = (if P p v then Some p else vfind nxt P h (nxt v))"
  by (subst vfind.simps) simp

lemma vfind_chain:
  "dll (links h) b ps NULL \<Longrightarrow> vfind v_next P h (hdp ps NULL) =
     Some (case List.find (\<lambda>p. P p (vmr_at h p)) ps of Some p \<Rightarrow> p | None \<Rightarrow> NULL)"
proof (induction ps arbitrary: b)
  case (Cons p ps)
  then show ?case using Cons.IH [of p] unfolding chain_Cons by (auto simp: vfind_step)
qed simp

section \<open>The invariant\<close>

definition vrange :: "vheap \<Rightarrow> addr \<Rightarrow> u64 set" where
  "vrange h p = {v_start (vmr_at h p) .. v_end (vmr_at h p)}"

definition mapped :: "vheap \<Rightarrow> addr list \<Rightarrow> u64 set" where
  "mapped h ps = (\<Union>p \<in> set ps. vrange h p)"

definition ordered :: "vheap \<Rightarrow> addr list \<Rightarrow> bool" where
  "ordered h ps \<longleftrightarrow> sorted_wrt (\<lambda>p q. v_end (vmr_at h p) < v_start (vmr_at h q)) ps \<and>
     (\<forall>p \<in> set ps. v_start (vmr_at h p) \<le> v_end (vmr_at h p) \<and> v_end (vmr_at h p) \<le> mmap_limit)"

definition mm_inv :: "mmap \<Rightarrow> vheap \<Rightarrow> addr list \<Rightarrow> bool" where
  "mm_inv m h ps \<longleftrightarrow> m_lock m \<and> m_limit m = mmap_limit \<and> m_head m = hdp ps NULL \<and> m_tail m = lastp NULL ps \<and>
     distinct ps \<and> dll (links h) NULL ps NULL \<and> ordered h ps"

lemma mm_locked [simp]: "mm_inv m h ps \<Longrightarrow> mmap_assert_locked m = Some ()"
  by (simp add: mm_inv_def mmap_assert_locked_def)

lemma ordered_Cons: "ordered h (p # ps) \<longleftrightarrow> v_start (vmr_at h p) \<le> v_end (vmr_at h p) \<and> v_end (vmr_at h p) \<le> mmap_limit \<and>
    (\<forall>q \<in> set ps. v_end (vmr_at h p) < v_start (vmr_at h q)) \<and> ordered h ps"
  by (auto simp: ordered_def)

lemma ordered_append: "ordered h (ps @ qs) \<longleftrightarrow> ordered h ps \<and> ordered h qs \<and>
    (\<forall>p \<in> set ps. \<forall>q \<in> set qs. v_end (vmr_at h p) < v_start (vmr_at h q))"
  by (auto simp: ordered_def sorted_wrt_append)

lemma mapped_simps [simp]:
  "mapped h [] = {}" "mapped h (p # ps) = vrange h p \<union> mapped h ps" "mapped h (ps @ qs) = mapped h ps \<union> mapped h qs"
  by (auto simp: mapped_def)

lemma find_NULL:
  assumes "dll (links h) b ps e"
  shows "(case List.find P ps of Some p \<Rightarrow> p | None \<Rightarrow> NULL) = NULL \<longleftrightarrow> (\<forall>p \<in> set ps. \<not> P p)"
  using dll_not_null [OF assms] by (auto split: option.splits simp: find_Some_iff find_None_iff) (metis nth_mem)+

text \<open>\<^verbatim>\<open>mmap_find\<close> finds the region that holds an address.\<close>

lemma mmap_find_spec:
  assumes "mm_inv m h ps"
  shows "\<exists>p. mmap_find m h a = Some p \<and> (p = NULL \<longleftrightarrow> a \<notin> mapped h ps) \<and> (p \<noteq> NULL \<longrightarrow> p \<in> set ps \<and> a \<in> vrange h p)"
proof -
  have c: "dll (links h) NULL ps NULL" "m_head m = hdp ps NULL" using assms by (simp_all add: mm_inv_def)
  let ?P = "\<lambda>p. a \<ge> v_start (vmr_at h p) \<and> a \<le> v_end (vmr_at h p)"
  define p where "p = (case List.find ?P ps of Some p \<Rightarrow> p | None \<Rightarrow> NULL)"
  have "mmap_find m h a = Some p"
    using assms vfind_chain [OF c(1), of "\<lambda>_ v. a \<ge> v_start v \<and> a \<le> v_end v"] c(2) by (simp add: mmap_find_def p_def)
  moreover have "p = NULL \<longleftrightarrow> a \<notin> mapped h ps"
    unfolding p_def find_NULL [OF c(1)] by (auto simp: mapped_def vrange_def)
  moreover have "p \<in> set ps \<and> a \<in> vrange h p" if "p \<noteq> NULL"
  proof (cases "List.find ?P ps")
    case None
    then show ?thesis using that by (simp add: p_def)
  next
    case (Some q)
    then have "q \<in> set ps" "?P q" by (auto simp: find_Some_iff)
    moreover have "p = q" using Some by (simp add: p_def)
    ultimately show ?thesis by (simp add: vrange_def)
  qed
  ultimately show ?thesis by blast
qed

section \<open>Holes\<close>

text \<open>The list split at an address, and the first region above an address that is not mapped.\<close>

lemma split_at:
  assumes "dll (links h) NULL ps NULL" "ordered h ps"
  obtains as bs where "ps = as @ bs" "\<forall>p \<in> set as. v_start (vmr_at h p) \<le> a" "\<forall>p \<in> set bs. a < v_start (vmr_at h p)"
    "vfind v_next (\<lambda>_ v. a < v_start v) h (hdp ps NULL) = Some (hdp bs NULL)"
proof -
  let ?P = "\<lambda>p. a < v_start (vmr_at h p)"
  define as where "as = takeWhile (\<lambda>p. \<not> ?P p) ps"
  define bs where "bs = dropWhile (\<lambda>p. \<not> ?P p) ps"
  have ps: "ps = as @ bs" by (simp add: as_def bs_def)
  have as: "v_start (vmr_at h p) \<le> a" if "p \<in> set as" for p
    using that by (auto simp: as_def not_less dest: set_takeWhileD)
  have bs: "a < v_start (vmr_at h p)" if "p \<in> set bs" for p
  proof (cases bs)
    case (Cons b bs')
    then have b: "a < v_start (vmr_at h b)" unfolding bs_def by (metis dropWhile_eq_Cons_conv)
    have "ordered h (b # bs')" using assms(2) ps Cons by (simp add: ordered_append)
    then have "p = b \<or> v_end (vmr_at h b) < v_start (vmr_at h p)" "v_start (vmr_at h b) \<le> v_end (vmr_at h b)"
      using that Cons by (auto simp: ordered_Cons)
    then show ?thesis using b by auto
  qed (use that in simp)
  have "List.find ?P ps = (case bs of [] \<Rightarrow> None | b # _ \<Rightarrow> Some b)"
    unfolding bs_def by (induction ps) auto
  then have "vfind v_next (\<lambda>_ v. a < v_start v) h (hdp ps NULL) = Some (hdp bs NULL)"
    using vfind_chain [OF assms(1), of "\<lambda>_ v. a < v_start v"] by (cases bs) simp_all
  then show ?thesis using that ps as bs by blast
qed

lemma next_region:
  assumes "mm_inv m h ps" "a \<notin> mapped h ps"
  obtains as bs where "ps = as @ bs" "\<forall>p \<in> set as. v_end (vmr_at h p) < a" "\<forall>p \<in> set bs. a < v_start (vmr_at h p)"
    "mmap_find_vmr_next m h a = Some (NULL, hdp bs NULL)"
proof -
  have c: "dll (links h) NULL ps NULL" "m_head m = hdp ps NULL" "ordered h ps" using assms(1) by (simp_all add: mm_inv_def)
  obtain as bs where s: "ps = as @ bs" "\<forall>p \<in> set as. v_start (vmr_at h p) \<le> a" "\<forall>p \<in> set bs. a < v_start (vmr_at h p)"
    "vfind v_next (\<lambda>_ v. a < v_start v) h (hdp ps NULL) = Some (hdp bs NULL)"
    using split_at [OF c(1,3)] by blast
  have "v_end (vmr_at h p) < a" if "p \<in> set as" for p
    using s(1,2) that assms(2) by (auto simp: mapped_def vrange_def not_le)
  moreover have "mmap_find m h a = Some NULL" using mmap_find_spec [OF assms(1), of a] assms(2) by auto
  then have "mmap_find_vmr_next m h a = Some (NULL, hdp bs NULL)"
    using assms(1) s(4) c(2) by (simp add: mmap_find_vmr_next_def)
  ultimately show ?thesis using that s by blast
qed

text \<open>
  The size of the hole at an address: what lies between it and the next region, or the end of the
  address space.
\<close>

definition hole_end :: "vheap \<Rightarrow> addr list \<Rightarrow> u64 \<Rightarrow> u64" where
  "hole_end h ps a = (case filter (\<lambda>p. a < v_start (vmr_at h p)) ps of [] \<Rightarrow> mmap_limit + 1 | p # _ \<Rightarrow> v_start (vmr_at h p))"

lemma hole_end_bounds:
  assumes "ordered h ps" "a \<le> mmap_limit"
  shows "a < hole_end h ps a" "hole_end h ps a \<le> mmap_limit + 1"
proof -
  have "a < hole_end h ps a \<and> hole_end h ps a \<le> mmap_limit + 1"
  proof (cases "filter (\<lambda>p. a < v_start (vmr_at h p)) ps")
    case Nil
    then show ?thesis using assms(2) by (auto simp: hole_end_def word_less_nat_alt word_le_nat_alt)
  next
    case (Cons p qs)
    then have p: "p \<in> set ps" "a < v_start (vmr_at h p)" by (auto dest: filter_eq_ConsD simp: Cons_eq_filter_iff)
    then have "v_start (vmr_at h p) \<le> mmap_limit" using assms(1) by (auto simp: ordered_def)
    then have "v_start (vmr_at h p) \<le> mmap_limit + 1" by (simp add: word_le_nat_alt)
    then show ?thesis using p Cons by (simp add: hole_end_def)
  qed
  then show "a < hole_end h ps a" "hole_end h ps a \<le> mmap_limit + 1" by auto
qed

lemma getholesize_spec:
  assumes "mm_inv m h ps"
  shows "mmap_getholesize m h a =
    Some (if a \<le> mmap_limit \<and> a \<notin> mapped h ps then (0, hole_end h ps a - a) else (- EINVAL, 0))"
proof (cases "a \<le> mmap_limit \<and> a \<notin> mapped h ps")
  case False
  obtain p where "mmap_find m h a = Some p" "p = NULL \<longleftrightarrow> a \<notin> mapped h ps"
    using mmap_find_spec [OF assms] by blast
  moreover have "m_limit m = mmap_limit" using assms by (simp add: mm_inv_def)
  ultimately show ?thesis using False assms by (auto simp: mmap_getholesize_def not_le)
next
  case True
  then obtain as bs where ps: "ps = as @ bs" and as: "\<forall>p \<in> set as. v_end (vmr_at h p) < a"
    and bs: "\<forall>p \<in> set bs. a < v_start (vmr_at h p)" and nx: "mmap_find_vmr_next m h a = Some (NULL, hdp bs NULL)"
    using next_region [OF assms] by blast
  have inv: "m_limit m = mmap_limit" "ordered h ps" "dll (links h) NULL ps NULL" using assms by (simp_all add: mm_inv_def)
  have "\<forall>p \<in> set as. \<not> a < v_start (vmr_at h p)"
    using as inv(2) ps unfolding ordered_def by (force simp: not_less)
  then have "filter (\<lambda>p. a < v_start (vmr_at h p)) as = []" by (simp add: filter_empty_conv)
  moreover have "filter (\<lambda>p. a < v_start (vmr_at h p)) bs = bs" using bs by (simp add: filter_id_conv)
  ultimately have he: "hole_end h ps a = (case bs of [] \<Rightarrow> mmap_limit + 1 | p # _ \<Rightarrow> v_start (vmr_at h p))"
    by (simp add: hole_end_def ps)
  have f: "mmap_find m h a = Some NULL" using mmap_find_spec [OF assms, of a] True by auto
  show ?thesis
  proof (cases bs)
    case Nil
    then show ?thesis using assms True inv nx f he by (simp add: mmap_getholesize_def not_less)
  next
    case (Cons b bs')
    then have "b \<noteq> NULL" "h b = Some (vmr_at h b)" using chain_loaded [OF inv(3), of b] ps by auto
    then show ?thesis using assms True inv nx f he Cons by (simp add: mmap_getholesize_def not_less)
  qed
qed

text \<open>The hole is free, and it is as long as possible.\<close>

lemma hole_free:
  assumes "ordered h ps" "a \<notin> mapped h ps"
  shows "{a ..< hole_end h ps a} \<inter> mapped h ps = {}"
proof -
  have "x \<notin> vrange h p" if "a \<le> x" "x < hole_end h ps a" "p \<in> set ps" for x p
  proof (cases "a < v_start (vmr_at h p)")
    case True
    note p = that(3)
    obtain q qs where f: "filter (\<lambda>p. a < v_start (vmr_at h p)) ps = q # qs"
      using True p by (cases "filter (\<lambda>p. a < v_start (vmr_at h p)) ps") (auto simp: filter_empty_conv)
    have "sorted_wrt (\<lambda>p q. v_end (vmr_at h p) < v_start (vmr_at h q)) (q # qs)"
      using assms(1) f sorted_wrt_filter unfolding ordered_def by metis
    moreover have "p \<in> set (filter (\<lambda>p. a < v_start (vmr_at h p)) ps)" using True p by simp
    then have "p \<in> set (q # qs)" unfolding f .
    moreover have "q \<in> set ps" using f by (metis filter_eq_ConsD in_set_conv_decomp)
    then have "v_start (vmr_at h q) \<le> v_end (vmr_at h q)" using assms(1) by (simp add: ordered_def)
    ultimately have "v_start (vmr_at h q) \<le> v_start (vmr_at h p)" by auto
    moreover have "x < v_start (vmr_at h q)" using that(2) f by (simp add: hole_end_def)
    ultimately show ?thesis by (auto simp: vrange_def)
  next
    case False
    then have "v_end (vmr_at h p) < a" using assms(2) that(3) by (auto simp: mapped_def vrange_def not_less not_le)
    then show ?thesis using that(1) by (auto simp: vrange_def)
  qed
  then show ?thesis by (auto simp: mapped_def)
qed

lemma hole_maximal:
  assumes "ordered h ps" "hole_end h ps a \<noteq> mmap_limit + 1"
  shows "hole_end h ps a \<in> mapped h ps"
proof (cases "filter (\<lambda>p. a < v_start (vmr_at h p)) ps")
  case Nil
  then show ?thesis using assms by (simp add: hole_end_def)
next
  case (Cons q qs)
  then have "q \<in> set ps" by (metis filter_eq_ConsD in_set_conv_decomp)
  moreover have "v_start (vmr_at h q) \<in> vrange h q" using calculation assms(1) by (simp add: vrange_def ordered_def)
  ultimately show ?thesis using Cons by (auto simp: hole_end_def mapped_def)
qed

section \<open>Inserting a region\<close>

text \<open>The overlap test of \<^verbatim>\<open>mmap_mapin\<close> ends after at most two rounds and is exact.\<close>

lemma mapin_check_spec:
  assumes "mm_inv m h ps" "a \<le> e" "e \<le> mmap_limit"
  shows "mapin_check m h a e = Some (if {a .. e} \<inter> mapped h ps = {} then 0 else - EEXIST)"
proof (cases "a \<in> mapped h ps")
  case True
  then obtain p where "mmap_find m h a = Some p" "p \<noteq> NULL" using mmap_find_spec [OF assms(1)] by blast
  then show ?thesis using True assms(2) by (subst mapin_check.simps) auto
next
  case False
  have ord: "ordered h ps" using assms(1) by (simp add: mm_inv_def)
  have a: "a \<le> mmap_limit" using assms by simp
  let ?e = "hole_end h ps a"
  have fnd: "mmap_find m h a = Some NULL" using mmap_find_spec [OF assms(1), of a] False by auto
  note bnd = hole_end_bounds [OF ord a]
  have step: "mapin_check m h a e = mapin_check m h ?e e"
    using assms(2) a False bnd(1) fnd getholesize_spec [OF assms(1), of a] by (subst mapin_check.simps) (auto simp: assert_that_def)
  show ?thesis
  proof (cases "?e \<le> e")
    case True
    then have le: "?e \<le> mmap_limit" using assms(3) by simp
    then have "?e \<noteq> mmap_limit + 1" by auto
    then have m: "?e \<in> mapped h ps" using hole_maximal [OF ord] by blast
    then obtain p where "mmap_find m h ?e = Some p" "p \<noteq> NULL" using mmap_find_spec [OF assms(1)] by blast
    then have "mapin_check m h ?e e = Some (- EEXIST)" using True by (subst mapin_check.simps) simp
    moreover have "?e \<in> {a .. e} \<inter> mapped h ps" using True bnd(1) m by simp
    ultimately show ?thesis using step by auto
  next
    case False2: False
    then have "mapin_check m h ?e e = Some 0" by (subst mapin_check.simps) simp
    moreover have "{a .. e} \<subseteq> {a ..< ?e}" using False2 by auto
    then have "{a .. e} \<inter> mapped h ps = {}" using hole_free [OF ord False] by blast
    ultimately show ?thesis using step by simp
  qed
qed

lemma mmap_contains_spec:
  assumes "mm_inv m h ps" "r \<noteq> NULL"
  shows "mmap_contains m h r = Some (if r \<in> set ps then 1 else 0)"
proof -
  have c: "dll (links h) NULL ps NULL" "m_head m = hdp ps NULL" using assms(1) by (simp_all add: mm_inv_def)
  have "vfind v_next (\<lambda>p _. p = r) h (m_head m) = Some (case List.find (\<lambda>p. p = r) ps of Some p \<Rightarrow> p | None \<Rightarrow> NULL)"
    using vfind_chain [OF c(1), of "\<lambda>p _. p = r"] c(2) by simp
  then show ?thesis
    using assms find_NULL [OF c(1), of "\<lambda>p. p = r"] by (auto simp: mmap_contains_def)
qed

text \<open>Which facts about the list depend only on the regions' bounds; the operations on the list also keep the flags.\<close>

definition same_bounds :: "addr set \<Rightarrow> vheap \<Rightarrow> vheap \<Rightarrow> bool" where
  "same_bounds S h h' \<longleftrightarrow> (\<forall>p \<in> S. v_start (vmr_at h' p) = v_start (vmr_at h p) \<and> v_end (vmr_at h' p) = v_end (vmr_at h p) \<and>
     v_flags (vmr_at h' p) = v_flags (vmr_at h p) \<and> v_vflags (vmr_at h' p) = v_vflags (vmr_at h p))"

lemma same_bounds_ordered: "same_bounds (set ps) h h' \<Longrightarrow> ordered h' ps = ordered h ps"
  by (induction ps) (auto simp: same_bounds_def ordered_Cons, auto simp: ordered_def)

lemma same_bounds_mapped: "same_bounds (set ps) h h' \<Longrightarrow> mapped h' ps = mapped h ps"
  by (auto simp: same_bounds_def mapped_def vrange_def)

lemma links_upd [simp]: "links (h(p \<mapsto> v)) = (links h)(p \<mapsto> \<lparr>qn_prev = v_prev v, qn_data = 0, qn_next = v_next v\<rparr>)"
  by (auto simp: links_def)

lemma vmr_at_upd [simp]: "vmr_at (h(p \<mapsto> v)) q = (if q = p then v else vmr_at h q)"
  by (simp add: vmr_at_def)

lemma vupd_Some [simp]: "p \<noteq> NULL \<Longrightarrow> h p = Some v \<Longrightarrow> vupd h p f = Some (h(p \<mapsto> f v))"
  by (simp add: vupd_def)

text \<open>The order of a list in which a region that does not overlap is put at its place.\<close>

lemma ordered_insert:
  assumes "ordered h (as @ bs)" "v_start (vmr_at h r) \<le> v_end (vmr_at h r)" "v_end (vmr_at h r) \<le> mmap_limit"
    "vrange h r \<inter> mapped h (as @ bs) = {}"
    "\<forall>p \<in> set as. v_start (vmr_at h p) \<le> v_start (vmr_at h r)" "\<forall>p \<in> set bs. v_start (vmr_at h r) < v_start (vmr_at h p)"
  shows "ordered h (as @ r # bs)"
proof -
  have "v_end (vmr_at h p) < v_start (vmr_at h r)" if "p \<in> set as" for p
  proof (rule ccontr)
    assume "\<not> v_end (vmr_at h p) < v_start (vmr_at h r)"
    then have "v_start (vmr_at h r) \<in> vrange h p" "v_start (vmr_at h r) \<in> vrange h r"
      using assms(2,5) that by (auto simp: vrange_def)
    then show False using assms(4) that by (auto simp: mapped_def)
  qed
  moreover have "v_end (vmr_at h r) < v_start (vmr_at h p)" if "p \<in> set bs" for p
  proof (rule ccontr)
    assume "\<not> v_end (vmr_at h r) < v_start (vmr_at h p)"
    moreover have "v_start (vmr_at h p) \<le> v_end (vmr_at h p)" using assms(1) that by (simp add: ordered_def)
    ultimately have "v_start (vmr_at h p) \<in> vrange h p" "v_start (vmr_at h p) \<in> vrange h r"
      using assms(6) that by (auto simp: vrange_def)
    then show False using assms(4) that by (auto simp: mapped_def)
  qed
  ultimately show ?thesis using assms(1-3) by (auto simp: ordered_append ordered_Cons)
qed

definition relinked :: "addr set \<Rightarrow> vheap \<Rightarrow> vheap \<Rightarrow> bool" where
  "relinked S h h' \<longleftrightarrow> (\<forall>p. p \<notin> S \<longrightarrow> h' p = h p) \<and> same_bounds S h h'"

lemma relinked_bounds: "relinked S h h' \<Longrightarrow> same_bounds T h h'"
  by (auto simp: relinked_def same_bounds_def vmr_at_def)

lemma insert_before_spec:
  assumes "dll (links h) NULL (as @ a # b # bs) NULL" "distinct (as @ a # b # bs)" "r \<notin> set (as @ a # b # bs)"
    "r \<noteq> NULL" "h r = Some rv"
  shows "\<exists>h'. insert_before m h r b = Some (m, h') \<and> dll (links h') NULL (as @ a # r # b # bs) NULL \<and> relinked {a, r, b} h h'"
proof -
  have "dll (links h) a (b # bs) NULL" "dll (links h) (lastp NULL as) (a # b # bs) NULL" using assms(1) by simp_all
  then have a: "a \<noteq> NULL" "h a = Some (vmr_at h a)" "v_prev (vmr_at h a) = lastp NULL as"
    and b: "b \<noteq> NULL" "h b = Some (vmr_at h b)" "v_prev (vmr_at h b) = a" "v_next (vmr_at h b) = hdp bs NULL"
    and bs: "dll (links h) b bs NULL"
    unfolding chain_Cons by auto
  have as: "dll (links h) NULL as a" using assms(1) by simp
  define h' where "h' = h(a \<mapsto> (vmr_at h a)\<lparr>v_next := r\<rparr>, b \<mapsto> (vmr_at h b)\<lparr>v_prev := r\<rparr>,
    r \<mapsto> rv\<lparr>v_next := b, v_prev := a, v_refs := v_refs rv + 2, v_mmap := m_self m\<rparr>)"
  have ne: "a \<noteq> b" "r \<noteq> a" "r \<noteq> b" using assms(2,3) by auto
  have "insert_before m h r b = Some (m, h')"
    using a b ne assms(4,5) by (auto simp: insert_before_def h'_def fun_eq_iff)
  moreover have "dll (links h') NULL as a" "dll (links h') b bs NULL"
    using as bs assms(2,3) by (auto simp: h'_def intro!: dll_frame [OF as] dll_frame [OF bs])
  then have "dll (links h') NULL (as @ a # r # b # bs) NULL"
    using a b ne assms(4) by (simp add: h'_def)
  moreover have "relinked {a, r, b} h h'" using ne assms(5) by (auto simp: relinked_def same_bounds_def h'_def vmr_at_def)
  ultimately show ?thesis by blast
qed

lemma insert_last_spec:
  assumes "dll (links h) NULL (as @ [a]) NULL" "distinct (as @ [a])" "r \<notin> set (as @ [a])" "m_tail m = a"
    "r \<noteq> NULL" "h r = Some rv"
  shows "\<exists>h'. insert_last m h r = Some (m\<lparr>m_tail := r\<rparr>, h') \<and> dll (links h') NULL (as @ [a, r]) NULL \<and> relinked {a, r} h h'"
proof -
  have "dll (links h) (lastp NULL as) [a] NULL" using assms(1) by simp
  then have a: "a \<noteq> NULL" "h a = Some (vmr_at h a)" "v_prev (vmr_at h a) = lastp NULL as" unfolding chain_Cons by auto
  have as: "dll (links h) NULL as a" using assms(1) by simp
  define h' where "h' = h(a \<mapsto> (vmr_at h a)\<lparr>v_next := r\<rparr>,
    r \<mapsto> rv\<lparr>v_next := NULL, v_prev := a, v_refs := v_refs rv + 2, v_mmap := m_self m\<rparr>)"
  have ne: "r \<noteq> a" using assms(3) by auto
  have "insert_last m h r = Some (m\<lparr>m_tail := r\<rparr>, h')"
    using a ne assms(4-6) by (auto simp: insert_last_def h'_def fun_eq_iff)
  moreover have "dll (links h') NULL as a" using as assms(2,3) by (auto simp: h'_def intro!: dll_frame [OF as])
  then have "dll (links h') NULL (as @ [a, r]) NULL" using a ne assms(5) by (simp add: h'_def)
  moreover have "relinked {a, r} h h'" using ne assms(6) by (auto simp: relinked_def same_bounds_def h'_def vmr_at_def)
  ultimately show ?thesis by blast
qed

text \<open>
  The place of a region in the list, when it does not start below all the others: behind the last
  region that starts below it.
\<close>

lemma size_not_zero: "v_start v \<le> v_end v \<Longrightarrow> v_end v \<le> mmap_limit \<Longrightarrow> vmr_size v \<noteq> 0"
proof
  assume a: "v_start v \<le> v_end v" "v_end v \<le> mmap_limit" "vmr_size v = 0"
  then have "v_end v - v_start v = - 1" by (simp add: vmr_size_def eq_neg_iff_add_eq_0)
  moreover have "v_end v - v_start v \<le> mmap_limit" using a word_sub_le [of "v_start v" "v_end v"] by (meson order_trans)
  ultimately have "(- 1 :: u64) \<le> mmap_limit" by simp
  then show False by (simp add: word_order.extremum_unique)
qed

definition not_below :: "vheap \<Rightarrow> addr list \<Rightarrow> u64 \<Rightarrow> bool" where
  "not_below h ps a \<longleftrightarrow> ps = [] \<or> v_start (vmr_at h (hd ps)) \<le> a"

lemma insert_sorted_spec:
  assumes "mm_inv m h ps" "r \<noteq> NULL" "h r = Some rv" "r \<notin> set ps" "v_prev rv = NULL" "v_next rv = NULL"
    "not_below h ps (v_start rv)"
  shows "\<exists>h' as bs. insert_sorted m h r rv = Some (m\<lparr>m_head := hdp (as @ r # bs) NULL, m_tail := lastp NULL (as @ r # bs)\<rparr>, h') \<and>
    ps = as @ bs \<and> dll (links h') NULL (as @ r # bs) NULL \<and> relinked (insert r (set ps)) h h' \<and>
    (\<forall>p \<in> set as. v_start (vmr_at h p) \<le> v_start rv) \<and> (\<forall>p \<in> set bs. v_start rv < v_start (vmr_at h p))"
proof (cases "ps = []")
  case True
  define h' where "h' = h(r \<mapsto> rv\<lparr>v_refs := v_refs rv + 2, v_mmap := m_self m\<rparr>)"
  have "insert_sorted m h r rv = Some (m\<lparr>m_head := r, m_tail := r\<rparr>, h')"
    using True assms by (simp add: insert_sorted_def insert_only_def mm_inv_def h'_def)
  moreover have "dll (links h') NULL [r] NULL" "relinked {r} h h'"
    using assms by (auto simp: h'_def relinked_def same_bounds_def vmr_at_def)
  ultimately show ?thesis using True by (intro exI [of _ h'] exI [of _ "[]"]) simp
next
  case False
  have c: "dll (links h) NULL ps NULL" "m_head m = hdp ps NULL" "m_tail m = lastp NULL ps" "ordered h ps" "distinct ps"
    using assms(1) by (simp_all add: mm_inv_def)
  obtain as bs where s: "ps = as @ bs" "\<forall>p \<in> set as. v_start (vmr_at h p) \<le> v_start rv"
      "\<forall>p \<in> set bs. v_start rv < v_start (vmr_at h p)"
      "vfind v_next (\<lambda>_ v. v_start rv < v_start v) h (hdp ps NULL) = Some (hdp bs NULL)"
    using split_at [OF c(1,4)] by blast
  have "as \<noteq> []"
  proof
    assume "as = []"
    then have "hd ps \<in> set bs" using s(1) False by simp
    then show False using s(3) assms(7) False by (auto simp: not_below_def not_less)
  qed
  then obtain as' a where as: "as = as' @ [a]" by (cases as rule: rev_cases) auto
  have head: "m_head m \<noteq> NULL" using hdp_eq_iff [OF c(1)] c(2) False by simp
  show ?thesis
  proof (cases bs)
    case Nil
    obtain h' where h': "insert_last m h r = Some (m\<lparr>m_tail := r\<rparr>, h')" "dll (links h') NULL (as' @ [a, r]) NULL" "relinked {a, r} h h'"
      using insert_last_spec [of h as' a r m rv] c s as Nil assms by auto
    have "insert_sorted m h r rv = Some (m\<lparr>m_tail := r\<rparr>, h')" using head s(4) c(2) Nil h'(1) by (simp add: insert_sorted_def)
    moreover have "relinked (insert r (set ps)) h h'" using h'(3) s(1) as by (auto simp: relinked_def same_bounds_def vmr_at_def)
    moreover have eq: "hdp (as @ [r]) NULL = m_head m" using c(2) s(1) Nil as by (cases as') simp_all
    moreover have "dll (links h') NULL (as @ r # bs) NULL" using h'(2) as Nil by simp
    ultimately show ?thesis using s(1-3) Nil by (intro exI [of _ h'] exI [of _ as] exI [of _ bs]) simp
  next
    case (Cons b bs')
    have "dll (links h) NULL (as' @ a # b # bs') NULL" using c(1) s(1) as Cons by simp
    moreover have "distinct (as' @ a # b # bs')" "r \<notin> set (as' @ a # b # bs')" using c(5) assms(4) s(1) as Cons by auto
    ultimately obtain h' where h': "insert_before m h r b = Some (m, h')" "dll (links h') NULL (as' @ a # r # b # bs') NULL"
        "relinked {a, r, b} h h'"
      using insert_before_spec [of h as' a b bs' r rv m] assms(2,3) by blast
    have "b \<noteq> NULL" using chain_loaded [OF c(1), of b] s(1) Cons by simp
    then have "insert_sorted m h r rv = Some (m, h')" using head s(4) c(2) Cons h'(1) by (simp add: insert_sorted_def)
    moreover have "relinked (insert r (set ps)) h h'" using h'(3) s(1) as Cons by (auto simp: relinked_def same_bounds_def vmr_at_def)
    moreover have "hdp (as @ r # bs) NULL = m_head m" "lastp NULL (as @ r # bs) = m_tail m"
      using c(2,3) s(1) Cons as by (cases as'; simp)+
    moreover have "dll (links h') NULL (as @ r # bs) NULL" using h'(2) as Cons by simp
    ultimately show ?thesis using s(1-3) by (intro exI [of _ h'] exI [of _ as] exI [of _ bs]) simp
  qed
qed

text \<open>What an operation on the list leaves alone in the memory map.\<close>

definition same_space :: "mmap \<Rightarrow> mmap \<Rightarrow> bool" where
  "same_space m m' \<longleftrightarrow> m_flags m' = m_flags m \<and> m_guard m' = m_guard m \<and> m_pgdir m' = m_pgdir m \<and> m_self m' = m_self m"

lemma same_space_refl [simp]: "same_space m m"
  by (simp add: same_space_def)

lemma same_space_trans: "same_space m m' \<Longrightarrow> same_space m' m'' \<Longrightarrow> same_space m m''"
  by (simp add: same_space_def)

lemma mapin_spec:
  assumes "mm_inv m h ps" "r > V2HI 0" "h r = Some rv" "r \<notin> set ps" "v_prev rv = NULL" "v_next rv = NULL"
    "v_start rv \<le> v_end rv" "v_end rv \<le> mmap_limit" "not_below h ps (v_start rv)"
  shows "\<exists>e m' h'. mmap_mapin m h r = Some (e, m', h') \<and>
    (if {v_start rv .. v_end rv} \<inter> mapped h ps \<noteq> {} then e = - EEXIST \<and> m' = m \<and> h' = h
     else e = 0 \<and> m_used_space m' = m_used_space m + vmr_size rv \<and> same_space m m' \<and> relinked (insert r (set ps)) h h' \<and>
       (\<exists>as bs. ps = as @ bs \<and> mm_inv m' h' (as @ r # bs) \<and> (\<forall>p \<in> set bs. v_start rv < v_start (vmr_at h p))))"
proof -
  have r: "r \<noteq> NULL" using assms(2) by auto
  have sz: "vmr_size rv \<noteq> 0"
    using size_not_zero [OF assms(7,8)] .
  have chk: "mapin_check m h (v_start rv) (v_end rv) = Some (if {v_start rv .. v_end rv} \<inter> mapped h ps = {} then 0 else - EEXIST)"
    using mapin_check_spec [OF assms(1,7,8)] .
  have con: "mmap_contains m h r = Some 0" using mmap_contains_spec [OF assms(1) r] assms(4) by simp
  have vr: "vrange h r = {v_start rv .. v_end rv}" using assms(3) by (simp add: vrange_def vmr_at_def)
  show ?thesis
  proof (cases "{v_start rv .. v_end rv} \<inter> mapped h ps = {}")
    case False
    then show ?thesis using assms r sz chk con by (simp add: mmap_mapin_def not_less)
  next
    case True
    obtain h' as bs where s: "insert_sorted m h r rv = Some (m\<lparr>m_head := hdp (as @ r # bs) NULL, m_tail := lastp NULL (as @ r # bs)\<rparr>, h')"
        "ps = as @ bs" "dll (links h') NULL (as @ r # bs) NULL" "relinked (insert r (set ps)) h h'"
        "\<forall>p \<in> set as. v_start (vmr_at h p) \<le> v_start rv" "\<forall>p \<in> set bs. v_start rv < v_start (vmr_at h p)"
      using insert_sorted_spec [OF assms(1) r assms(3-6,9)] by blast
    define m' where "m' = m\<lparr>m_head := hdp (as @ r # bs) NULL, m_tail := lastp NULL (as @ r # bs)\<rparr>"
    note s = s(1) [folded m'_def] s(2-4) m'_def s(5,6)
    have b: "same_bounds (set (as @ r # bs)) h h'" using relinked_bounds [OF s(4)] .
    have "ordered h (as @ r # bs)"
      using ordered_insert [of h as bs r] assms(1,3,7,8) s(2,6,7) True vr by (auto simp: mm_inv_def vmr_at_def)
    then have ord: "ordered h' (as @ r # bs)" using same_bounds_ordered [OF b] by simp
    have hr: "h' r = Some (vmr_at h' r)" using chain_loaded [OF s(3), of r] by simp
    have szr: "vmr_size (vmr_at h' r) = vmr_size rv"
      using b assms(3) by (simp add: vmr_size_def same_bounds_def vmr_at_def)
    define m'' where "m'' = m'\<lparr>m_refs := m_refs m' + 1, m_used_space := m_used_space m' + vmr_size (vmr_at h' r)\<rparr>"
    have "mmap_mapin m h r = Some (0, m'', h')"
      using assms r sz chk con True s(1) hr by (simp add: mmap_mapin_def not_less m''_def)
    moreover have "mm_inv m'' h' (as @ r # bs)"
      using assms(1,4) s ord by (auto simp: mm_inv_def m''_def)
    moreover have "m_used_space m'' = m_used_space m + vmr_size rv" using s(5) szr by (simp add: m''_def)
    moreover have "same_space m m''" using s(5) by (simp add: m''_def same_space_def)
    ultimately show ?thesis using True s(2,4,7) by auto
  qed
qed

lemma mapin_overlap:
  assumes "mm_inv m h ps" "r > V2HI 0" "h r = Some rv" "r \<notin> set ps" "v_start rv \<le> v_end rv" "v_end rv \<le> mmap_limit"
    "{v_start rv .. v_end rv} \<inter> mapped h ps \<noteq> {}"
  shows "mmap_mapin m h r = Some (- EEXIST, m, h)"
proof -
  have r: "r \<noteq> NULL" using assms(2) by auto
  then show ?thesis
    using assms size_not_zero [OF assms(5,6)] mapin_check_spec [OF assms(1,5,6)] mmap_contains_spec [OF assms(1) r]
    by (simp add: mmap_mapin_def not_less)
qed

lemma mapin_below_faults:
  assumes "mm_inv m h (p # ps)" "r > V2HI 0" "h r = Some rv" "r \<notin> set (p # ps)" "v_start rv \<le> v_end rv" "v_end rv \<le> mmap_limit"
    "{v_start rv .. v_end rv} \<inter> mapped h (p # ps) = {}" "v_start rv < v_start (vmr_at h p)" "h (p + VMR_T) = None"
  shows "mmap_mapin m h r = None"
proof -
  have c: "dll (links h) NULL (p # ps) NULL" "m_head m = p" using assms(1) by (simp_all add: mm_inv_def)
  have p: "p \<noteq> NULL" "h p = Some (vmr_at h p)" "v_prev (vmr_at h p) = NULL" using c(1) unfolding chain_Cons by simp_all
  have r: "r \<noteq> NULL" using assms(2) by auto
  have "r \<noteq> p + VMR_T" using assms(3,9) by auto
  moreover have "p + VMR_T \<noteq> p" "r \<noteq> p" using assms(4) by auto
  ultimately have "insert_before m h r p = None"
    using p r assms(3,9) by (simp add: insert_before_def vupd_def vload_def)
  moreover have "vfind v_next (\<lambda>_ v. v_start rv < v_start v) h p = Some p" using p assms(8) by (simp add: vfind_step)
  ultimately have "insert_sorted m h r rv = None" using p(1) c(2) by (simp add: insert_sorted_def)
  then show ?thesis
    using mmap_contains_spec [OF assms(1) r] mapin_check_spec [OF assms(1,5,6)] assms r size_not_zero [OF assms(5,6)]
    by (simp add: mmap_mapin_def not_less)
qed

text \<open>C3: What \<^verbatim>\<open>mmap_mapin\<close> does with a region that is not on the list.  When it overlaps a mapped one it is refused
  with \<^verbatim>\<open>-EEXIST\<close> and nothing changes.  Otherwise, when it does not start below the first mapped region, the call succeeds, the list stays a sorted chain of
  disjoint regions, exactly the addresses of the new region become mapped, and \<^verbatim>\<open>used_space\<close> grows by its size.  A region that starts below all mapped ones is not inserted: the code makes it
  the head, but steps \<^verbatim>\<open>node\<close> by the size of a region before it sets \<^verbatim>\<open>node->prev\<close>, and the write to the memory behind the first region faults when no region object lies there.\<close>

theorem mmap_mapin_correct:
  assumes "mm_inv m h ps" "r > V2HI 0" "h r = Some rv" "r \<notin> set ps" "v_prev rv = NULL" "v_next rv = NULL"
    "v_start rv \<le> v_end rv" "v_end rv \<le> mmap_limit"
  shows "if {v_start rv .. v_end rv} \<inter> mapped h ps \<noteq> {} then mmap_mapin m h r = Some (- EEXIST, m, h)
    else if ps = [] \<or> v_start (vmr_at h (hd ps)) \<le> v_start rv
    then \<exists>m' h' as bs. mmap_mapin m h r = Some (0, m', h') \<and> m_used_space m' = m_used_space m + vmr_size rv \<and>
       ps = as @ bs \<and> mm_inv m' h' (as @ r # bs) \<and> mapped h' (as @ r # bs) = mapped h ps \<union> {v_start rv .. v_end rv}
    else h (hd ps + VMR_T) = None \<longrightarrow> mmap_mapin m h r = None"
proof (cases "{v_start rv .. v_end rv} \<inter> mapped h ps = {}")
  case False
  then show ?thesis using mapin_overlap [OF assms(1-4,7,8)] by simp
next
  case True
  show ?thesis
  proof (cases "not_below h ps (v_start rv)")
    case nb: True
    from True obtain m' h' as bs where r: "mmap_mapin m h r = Some (0, m', h')" "m_used_space m' = m_used_space m + vmr_size rv"
        "relinked (insert r (set ps)) h h'" "ps = as @ bs" "mm_inv m' h' (as @ r # bs)"
      using mapin_spec [OF assms nb] by auto
    have "mapped h' (as @ r # bs) = mapped h (as @ r # bs)" using same_bounds_mapped [OF relinked_bounds [OF r(3)]] .
    then have "mapped h' (as @ r # bs) = mapped h ps \<union> {v_start rv .. v_end rv}"
      using r(4) assms(3) by (auto simp: vrange_def vmr_at_def)
    then show ?thesis using True nb r unfolding not_below_def by auto
  next
    case False
    then obtain p qs where p: "ps = p # qs" "v_start rv < v_start (vmr_at h p)" by (cases ps) (auto simp: not_below_def)
    then show ?thesis using True mapin_below_faults [of m h p qs r rv] assms by auto
  qed
qed

section \<open>Removing a region\<close>

lemma unlink_neighbours_spec:
  assumes "dll (links h) NULL (as @ r # bs) NULL" "distinct (as @ r # bs)"
  shows "\<exists>h'. unlink_neighbours h r (vmr_at h r) = Some h' \<and> dll (links h') NULL (as @ bs) NULL \<and>
    relinked (set (as @ r # bs)) h h' \<and> h' r \<noteq> None"
proof -
  have "dll (links h) (lastp NULL as) (r # bs) NULL" and as: "dll (links h) NULL as r" using assms(1) by simp_all
  then have r: "r \<noteq> NULL" "h r = Some (vmr_at h r)" "v_prev (vmr_at h r) = lastp NULL as" "v_next (vmr_at h r) = hdp bs NULL"
    and bs: "dll (links h) r bs NULL" unfolding chain_Cons by auto
  define h1 where "h1 = (if as = [] then h else h(last as \<mapsto> (vmr_at h (last as))\<lparr>v_next := hdp bs NULL\<rparr>,
    r \<mapsto> (vmr_at h r)\<lparr>v_refs := v_refs (vmr_at h r) - 1\<rparr>))"
  have last: "last as \<noteq> NULL \<and> h (last as) = Some (vmr_at h (last as)) \<and> last as \<noteq> r \<and> last as \<notin> set bs" if "as \<noteq> []"
  proof -
    have "last as \<in> set as" using that by simp
    then show ?thesis using chain_loaded [OF as, of "last as"] assms(2) by auto
  qed
  have r1: "h1 r = Some (vmr_at h1 r)" "relinked (set (as @ [r])) h h1" using r(2) last
    by (auto simp: h1_def relinked_def same_bounds_def vmr_at_def)
  have as1: "dll (links h1) NULL as (hdp bs NULL)"
  proof (cases as rule: rev_cases)
    case (snoc as' a)
    have a: "dll (links h) NULL as' a" "a \<notin> set as'" "r \<notin> set as'" using as assms(2) snoc by auto
    then have "dll (links h1) NULL as' a" by (auto simp: h1_def snoc intro!: dll_frame [OF a(1)])
    moreover have "v_prev (vmr_at h a) = lastp NULL as'"
      using as snoc by (auto simp: links_Some vmr_at_def)
    ultimately show ?thesis using last snoc by (simp add: h1_def)
  qed simp
  have bs1: "dll (links h1) r bs NULL" using bs assms(2) last by (auto simp: h1_def intro!: dll_frame [OF bs])
  show ?thesis
  proof (cases bs)
    case Nil
    have "unlink_neighbours h r (vmr_at h r) = Some h1"
      using r last Nil by (cases "as = []") (auto simp: unlink_neighbours_def h1_def lastp_def)
    then show ?thesis using as1 r1 Nil by auto
  next
    case (Cons b bs')
    have b: "b \<noteq> NULL" "h1 b = Some (vmr_at h1 b)" "v_next (vmr_at h1 b) = hdp bs' NULL" "dll (links h1) b bs' NULL"
      using bs1 unfolding Cons chain_Cons by auto
    define h2 where "h2 = h1(b \<mapsto> (vmr_at h1 b)\<lparr>v_prev := lastp NULL as\<rparr>,
      r \<mapsto> (vmr_at h1 r)\<lparr>v_refs := v_refs (vmr_at h1 r) - 1\<rparr>)"
    have ne: "b \<noteq> r" "b \<notin> set bs'" "b \<notin> set as" "r \<notin> set bs'" "r \<notin> set as" using assms(2) Cons by auto
    have "unlink_neighbours h r (vmr_at h r) = Some h2"
      using r last b r1(1) ne Cons by (cases "as = []") (auto simp: unlink_neighbours_def h1_def h2_def lastp_def vmr_at_def)
    moreover have "dll (links h2) b bs' NULL" using ne by (auto simp: h2_def intro!: dll_frame [OF b(4)])
    then have "dll (links h2) (lastp NULL as) (b # bs') NULL" using b ne by (simp add: h2_def)
    moreover have "dll (links h2) NULL as (hdp bs NULL)" using ne by (auto simp: h2_def intro!: dll_frame [OF as1])
    moreover have "relinked (set (as @ r # bs)) h h2" using r1 b ne Cons
      by (auto simp: h2_def relinked_def same_bounds_def vmr_at_def)
    ultimately show ?thesis using Cons by (auto simp: h2_def)
  qed
qed

text \<open>The updates at the head and at the tail rewrite links that are already right.\<close>

definition bookkeeping :: "addr set \<Rightarrow> vheap \<Rightarrow> vheap \<Rightarrow> bool" where
  "bookkeeping S h h' \<longleftrightarrow> links h' = links h \<and> relinked S h h' \<and> (\<forall>p. h' p = None \<longleftrightarrow> h p = None)"

lemma bookkeeping_refl [simp]: "bookkeeping S h h"
  by (simp add: bookkeeping_def relinked_def same_bounds_def)

lemma bookkeeping_upd:
  assumes "h p = Some v" "v_prev v' = v_prev v" "v_next v' = v_next v" "v_start v' = v_start v" "v_end v' = v_end v"
    "v_flags v' = v_flags v" "v_vflags v' = v_vflags v" "p \<in> S"
  shows "bookkeeping S h (h(p \<mapsto> v'))"
  using assms by (auto simp: bookkeeping_def links_def relinked_def same_bounds_def vmr_at_def)

lemma unlink_head_spec:
  assumes "dll (links h) NULL (as @ bs) NULL" "m_head m = hdp (as @ [r]) NULL" "v_next rv = hdp bs NULL" "r \<notin> set as"
  shows "\<exists>h'. unlink_head m h r rv = Some (m\<lparr>m_head := hdp (as @ bs) NULL\<rparr>, h') \<and> bookkeeping (set bs) h h'"
proof (cases as)
  case (Cons a as')
  then show ?thesis using assms by (auto simp: unlink_head_def)
next
  case Nil
  show ?thesis
  proof (cases bs)
    case (Cons b bs')
    have "dll (links h) NULL (b # bs') NULL" using assms(1) Nil Cons by simp
    then have "b \<noteq> NULL" "h b = Some (vmr_at h b)" "v_prev (vmr_at h b) = NULL" unfolding chain_Cons by auto
    then show ?thesis using assms(2,3) Nil Cons
      by (auto simp: unlink_head_def Let_def intro!: bookkeeping_upd)
  qed (use assms Nil in \<open>auto simp: unlink_head_def\<close>)
qed

lemma unlink_tail_spec:
  assumes "dll (links h) NULL (as @ bs) NULL" "m_tail m = lastp r bs" "v_prev rv = lastp NULL as" "r \<notin> set bs"
  shows "\<exists>h'. unlink_tail m h r rv = Some (m\<lparr>m_tail := lastp NULL (as @ bs)\<rparr>, h') \<and> bookkeeping (set as) h h'"
proof (cases bs rule: rev_cases)
  case (snoc bs' b)
  then show ?thesis using assms by (auto simp: unlink_tail_def)
next
  case Nil
  show ?thesis
  proof (cases as rule: rev_cases)
    case (snoc as' a)
    have "dll (links h) (lastp NULL as') [a] NULL" using assms(1) Nil snoc by simp
    then have "a \<noteq> NULL" "h a = Some (vmr_at h a)" "v_next (vmr_at h a) = NULL" unfolding chain_Cons by auto
    then show ?thesis using assms(2,3) Nil snoc
      by (auto simp: unlink_tail_def Let_def intro!: bookkeeping_upd)
  qed (use assms Nil in \<open>auto simp: unlink_tail_def\<close>)
qed

lemma relinked_trans: "relinked S h h' \<Longrightarrow> relinked T h' h'' \<Longrightarrow> relinked (S \<union> T) h h''"
  by (auto simp: relinked_def same_bounds_def vmr_at_def) metis+

lemma forget_special_links [simp]:
  "m_head (forget_special m r) = m_head m" "m_tail (forget_special m r) = m_tail m" "m_lock (forget_special m r) = m_lock m"
  "m_limit (forget_special m r) = m_limit m" "m_used_space (forget_special m r) = m_used_space m"
  "m_flags (forget_special m r) = m_flags m" "m_guard (forget_special m r) = m_guard m"
  "m_pgdir (forget_special m r) = m_pgdir m" "m_self (forget_special m r) = m_self m"
  by (simp_all add: forget_special_def)

text \<open>A region that is given up: freed, or kept alive by other references and detached from its address space.\<close>

definition let_go :: "vheap \<Rightarrow> addr \<Rightarrow> bool" where
  "let_go h r \<longleftrightarrow> (case h r of None \<Rightarrow> True | Some v \<Rightarrow> v_mmap v = NULL)"

lemma remove_spec:
  assumes "mm_inv m h (as @ r # bs)"
  shows "\<exists>m' h'. mmap_remove m h r = Some (0, m', h') \<and> mm_inv m' h' (as @ bs) \<and>
    same_bounds (set (as @ bs)) h h' \<and> same_space m m' \<and> m_used_space m' = m_used_space m \<and>
    let_go h' r \<and> (\<forall>x. x \<notin> set (as @ r # bs) \<longrightarrow> h' x = h x)"
proof -
  have c: "dll (links h) NULL (as @ r # bs) NULL" "distinct (as @ r # bs)" "ordered h (as @ r # bs)" using assms by (simp_all add: mm_inv_def)
  then have r: "r \<noteq> NULL" "h r = Some (vmr_at h r)" using chain_loaded [OF c(1), of r] by auto
  have "dll (links h) (lastp NULL as) (r # bs) NULL" using c(1) by simp
  then have l: "v_prev (vmr_at h r) = lastp NULL as" "v_next (vmr_at h r) = hdp bs NULL" unfolding chain_Cons by auto
  obtain h1 where h1: "unlink_neighbours h r (vmr_at h r) = Some h1" "dll (links h1) NULL (as @ bs) NULL"
      "relinked (set (as @ r # bs)) h h1" "h1 r \<noteq> None"
    using unlink_neighbours_spec [OF c(1,2)] by blast
  obtain h2 where h2: "unlink_head m h1 r (vmr_at h r) = Some (m\<lparr>m_head := hdp (as @ bs) NULL\<rparr>, h2)" "bookkeeping (set bs) h1 h2"
    using unlink_head_spec [OF h1(2), of m r "vmr_at h r"] assms l c(2) by (cases as) (auto simp: mm_inv_def)
  let ?m2 = "m\<lparr>m_head := hdp (as @ bs) NULL\<rparr>"
  obtain h3 where h3: "unlink_tail ?m2 h2 r (vmr_at h r) = Some (?m2\<lparr>m_tail := lastp NULL (as @ bs)\<rparr>, h3)" "bookkeeping (set as) h2 h3"
    using unlink_tail_spec [of h2 as bs ?m2 r "vmr_at h r"] assms l c(2) h1(2) h2(2) by (auto simp: mm_inv_def bookkeeping_def)
  have "h3 r \<noteq> None" using h1(4) h2(2) h3(2) by (simp add: bookkeeping_def)
  then obtain v3 where v3: "h3 r = Some v3" by blast
  define m' where "m' = forget_special (m\<lparr>m_head := hdp (as @ bs) NULL, m_tail := lastp NULL (as @ bs), m_refs := m_refs m - 1\<rparr>) r"
  obtain x where fr: "vmr_free (h3(r \<mapsto> v3\<lparr>v_refs := v_refs v3 - 1, v_mmap := NULL\<rparr>)) r = Some (h3(r := x))" "x = None \<or> v_mmap (the x) = NULL"
    using r(1) by (auto simp: vmr_free_def split: if_splits)
  have "mmap_remove m h r = Some (0, m', h3(r := x))"
    using assms r mmap_contains_spec [OF assms r(1)] h1(1) h2(1) h3(1) v3 fr(1) by (simp add: mmap_remove_def m'_def Let_def)
  moreover have rl: "relinked (set (as @ r # bs)) h h3"
  proof -
    have eq: "set (as @ r # bs) \<union> set bs \<union> set as = set (as @ r # bs)" by auto
    have "relinked (set bs) h1 h2" "relinked (set as) h2 h3" using h2(2) h3(2) by (simp_all add: bookkeeping_def)
    from relinked_trans [OF relinked_trans [OF h1(3) this(1)] this(2)] show ?thesis unfolding eq .
  qed
  have sb: "same_bounds (set (as @ bs)) h (h3(r := x))"
    using relinked_bounds [OF rl, of "set (as @ bs)"] c(2) by (auto simp: same_bounds_def vmr_at_def)
  have o: "ordered h (as @ bs)" using c(3) by (simp add: ordered_append ordered_Cons)
  have "dll (links h3) NULL (as @ bs) NULL" using h1(2) h2(2) h3(2) by (simp add: bookkeeping_def)
  then have "dll (links (h3(r := x))) NULL (as @ bs) NULL" using c(2) by (elim dll_frame) (auto simp: links_def)
  then have "mm_inv m' (h3(r := x)) (as @ bs)"
    using assms same_bounds_ordered [OF sb] o by (simp add: mm_inv_def m'_def)
  moreover have "same_space m m'" by (simp add: m'_def same_space_def)
  moreover have "m_used_space m' = m_used_space m" by (simp add: m'_def)
  moreover have "let_go (h3(r := x)) r" using fr(2) by (auto simp: let_go_def split: option.split)
  moreover have "\<forall>y. y \<notin> set (as @ r # bs) \<longrightarrow> (h3(r := x)) y = h y" using rl by (auto simp: relinked_def)
  ultimately show ?thesis using sb by blast
qed

text \<open>\<^verbatim>\<open>mmap_remove\<close> takes a region out of the list: the list stays a sorted chain of disjoint
  regions, the bounds of the others do not change, and exactly the addresses of the region stop being
  mapped.  The counter \<^verbatim>\<open>used_space\<close>, which \<^verbatim>\<open>mmap_mapin\<close> increases, stays as it is.\<close>

theorem mmap_remove_correct:
  assumes "mm_inv m h (as @ r # bs)"
  shows "\<exists>m' h'. mmap_remove m h r = Some (0, m', h') \<and> mm_inv m' h' (as @ bs) \<and>
    mapped h' (as @ bs) = mapped h (as @ r # bs) - vrange h r \<and> m_used_space m' = m_used_space m"
proof -
  have "ordered h (as @ r # bs)" using assms by (simp add: mm_inv_def)
  then have "vrange h r \<inter> mapped h (as @ bs) = {}" by (force simp: mapped_def vrange_def ordered_append ordered_Cons)
  then show ?thesis using remove_spec [OF assms] same_bounds_mapped [of "as @ bs" h] by fastforce
qed

section \<open>A sample address space\<close>

text \<open>Two regions, \<^verbatim>\<open>0x1000..0x1FFF\<close> and \<^verbatim>\<open>0x4000..0x4FFF\<close>, and a third one that is not in the list.\<close>

definition r1 :: addr where "r1 = 0xFFFF800000001000"
definition r2 :: addr where "r2 = 0xFFFF800000002000"
definition r3 :: addr where "r3 = 0xFFFF800000003000"

definition sample_vmr :: "u64 \<Rightarrow> u64 \<Rightarrow> addr \<Rightarrow> addr \<Rightarrow> vmr" where
  "sample_vmr s e pr nx = zero_vmr\<lparr>v_refs := 2, v_start := s, v_end := e, v_prev := pr, v_next := nx\<rparr>"

definition sample_vheap :: vheap where
  "sample_vheap = [r1 \<mapsto> sample_vmr 0x1000 0x1FFF NULL r2, r2 \<mapsto> sample_vmr 0x4000 0x4FFF r1 NULL,
     r3 \<mapsto> sample_vmr 0x2000 0x2FFF NULL NULL]"

definition sample_mmap :: mmap where
  "sample_mmap = \<lparr>m_flags = 1, m_refs = 2, m_priv = NULL, m_arg = NULL, m_env = NULL, m_heap = NULL, m_brk = 0, m_pgdir = 0x1000,
     m_limit = mmap_limit, m_guard = 0x1000, m_used_space = 0x2000, m_head = r1, m_tail = r2, m_entry = NULL, m_lock = True, m_self = 0xFFFF800000000800\<rparr>"

lemma sample_regions [simp]:
  "vmr_at sample_vheap r1 = sample_vmr 0x1000 0x1FFF NULL r2" "vmr_at sample_vheap r2 = sample_vmr 0x4000 0x4FFF r1 NULL"
  "sample_vheap r1 = Some (sample_vmr 0x1000 0x1FFF NULL r2)" "sample_vheap r2 = Some (sample_vmr 0x4000 0x4FFF r1 NULL)"
  "sample_vheap r3 = Some (sample_vmr 0x2000 0x2FFF NULL NULL)"
  by (simp_all add: sample_vheap_def vmr_at_def r1_def r2_def r3_def)

lemma sample_vmr_sel [simp]:
  "v_start (sample_vmr s e pr nx) = s" "v_end (sample_vmr s e pr nx) = e" "v_prev (sample_vmr s e pr nx) = pr"
  "v_next (sample_vmr s e pr nx) = nx"
  by (simp_all add: sample_vmr_def)

lemma sample_inv: "mm_inv sample_mmap sample_vheap [r1, r2]"
proof -
  have "dll (links sample_vheap) NULL [r1, r2] NULL" unfolding chain_Cons by (simp add: r1_def [symmetric]) (simp add: r1_def r2_def)
  then show ?thesis by (simp add: mm_inv_def sample_mmap_def ordered_def) (simp add: r1_def r2_def)
qed

lemma sample_ranges [simp]: "vrange sample_vheap r1 = {0x1000 .. 0x1FFF}" "vrange sample_vheap r2 = {0x4000 .. 0x4FFF}"
  by (simp_all add: vrange_def)

theorem mmap_mapin_correct_witness:
  "\<exists>m' h'. mmap_mapin sample_mmap sample_vheap r3 = Some (0, m', h') \<and> m_used_space m' = 0x3000"
proof -
  have d: "{0x2000 .. 0x2FFF} \<inter> mapped sample_vheap [r1, r2] = {}"
    by (auto simp: disjoint_iff word_le_nat_alt)
  have r: "r3 > V2HI 0" "r3 \<notin> set [r1, r2]" by (simp_all add: V2HI_def r1_def r2_def r3_def)
  show ?thesis
    using mmap_mapin_correct [OF sample_inv r(1), of "sample_vmr 0x2000 0x2FFF NULL NULL"] r(2) d
    by (auto simp: vmr_size_def sample_mmap_def)
qed

theorem mmap_remove_correct_witness:
  "\<exists>m' h'. mmap_remove sample_mmap sample_vheap r1 = Some (0, m', h') \<and> mm_inv m' h' [r2]"
  using mmap_remove_correct [of sample_mmap sample_vheap "[]" r1 "[r2]"] sample_inv by auto

section \<open>Inserting below the first region\<close>

text \<open>A region that starts below every mapped one is not inserted properly.  The code makes it the head
  and then steps \<^verbatim>\<open>node\<close> by the size of a region before it sets \<^verbatim>\<open>node->prev\<close>: the write goes to the memory
  behind the first region, which is a fault when no region object lies there.\<close>

theorem mapin_below_head_faults:
  assumes "mm_inv m h (p # ps)" "r > V2HI 0" "h r = Some rv" "r \<notin> set (p # ps)" "v_start rv \<le> v_end rv"
    "v_end rv < v_start (vmr_at h p)" "h (p + VMR_T) = None"
  shows "mmap_mapin m h r = None"
proof -
  have o: "ordered h (p # ps)" using assms(1) by (simp add: mm_inv_def)
  have le: "v_end rv \<le> mmap_limit" using o assms(6) by (auto simp: ordered_Cons)
  have d: "{v_start rv .. v_end rv} \<inter> mapped h (p # ps) = {}" using o assms(6) by (force simp: mapped_def vrange_def ordered_Cons)
  show ?thesis using assms(5,6) by (intro mapin_below_faults [OF assms(1-5) le d _ assms(7)]) simp
qed

text \<open>The region \<^verbatim>\<open>0..0xFFF\<close> below the two regions of the sample.\<close>

theorem mapin_below_head_faults_witness:
  "mmap_mapin sample_mmap (sample_vheap(r3 \<mapsto> sample_vmr 0 0xFFF NULL NULL)) r3 = None"
proof -
  let ?h = "sample_vheap(r3 \<mapsto> sample_vmr 0 0xFFF NULL NULL)"
  have ne: "r1 \<noteq> r3" "r2 \<noteq> r3" by (simp_all add: r1_def r2_def r3_def)
  then have "mm_inv sample_mmap ?h [r1, r2]"
    using sample_inv unfolding mm_inv_def chain_Cons by (simp add: ordered_def)
  moreover have "r3 > V2HI 0" "r3 \<notin> set [r1, r2]" using ne by (simp_all add: V2HI_def r3_def)
  moreover have "?h (r1 + 120) = None" by (simp add: sample_vheap_def r1_def r2_def r3_def)
  ultimately show ?thesis
    using mapin_below_head_faults [of sample_mmap ?h r1 "[r2]" r3 "sample_vmr 0 0xFFF NULL NULL"] ne by simp
qed

section \<open>Unmapping a part of a region\<close>

text \<open>Unmapping a range that begins inside a region, neither at its first nor at its last byte, faults:
  \<^verbatim>\<open>mmap_unmap\<close> calls \<^verbatim>\<open>vmr_split\<close> with a null result pointer, through which \<^verbatim>\<open>vmr_split\<close> writes.\<close>

theorem unmap_inside_faults:
  assumes "mm_inv m h ps" "p \<in> set ps" "v_start (vmr_at h p) < s" "s < v_end (vmr_at h p)" "len \<noteq> 0" "s + len - 1 \<le> mmap_limit"
  shows "mmap_unmap m h s len = None"
proof -
  have "s \<in> mapped h ps" using assms(2-4) less_imp_le unfolding mapped_def vrange_def by fastforce
  then obtain q where q: "mmap_find m h s = Some q" "q \<noteq> NULL" "q \<in> set ps" "s \<in> vrange h q"
    using mmap_find_spec [OF assms(1), of s] by blast
  have ord: "ordered h ps" "dll (links h) NULL ps NULL" using assms(1) by (simp_all add: mm_inv_def)
  have "q = p"
  proof (rule ccontr)
    assume "q \<noteq> p"
    then have "v_end (vmr_at h p) < v_start (vmr_at h q) \<or> v_end (vmr_at h q) < v_start (vmr_at h p)"
      using ord(1) assms(2) q(3) unfolding ordered_def by (metis (no_types, lifting) in_set_conv_nth nat_neq_iff sorted_wrt_nth_less)
    then show False using q(4) assms(3,4) by (auto simp: vrange_def)
  qed
  then have p: "p \<noteq> NULL" "h p = Some (vmr_at h p)" using chain_loaded [OF ord(2)] assms(2) by auto
  have "mmap_find_exact m h s (s + len - 1) = Some NULL"
    using q p \<open>q = p\<close> assms(1,3) by (auto simp: mmap_find_exact_def)
  moreover have "vmr_split NULL m h p s False = None"
    using p assms(3,4) by (simp add: vmr_split_def vmr_can_split_def)
  ultimately have "unmap_loop m h s len = None"
    using q \<open>q = p\<close> p assms(3-5) by (subst unmap_loop.simps) (auto simp: Let_def)
  then show ?thesis using assms by (simp add: mmap_unmap_def valid_addr_def)
qed

theorem unmap_inside_faults_witness: "mmap_unmap sample_mmap sample_vheap 0x1800 0x100 = None"
  using unmap_inside_faults [OF sample_inv, of r1 "0x1800" "0x100"] by simp

end
