(* ===== verification/Mmap_Holes.thy ===== *)
theory Mmap_Holes
  imports Mmap_Proofs
begin

text \<open>
  The search for holes in an address space: \<^verbatim>\<open>mmap_getholesize\<close> is exact and \<^verbatim>\<open>mmap_find_hole\<close>, searching
  from the start, is a first-fit allocator of address ranges.
\<close>

section \<open>Finding a hole\<close>

text \<open>A range of \<open>sz\<close> bytes at \<open>x\<close> that lies inside the address space and is not mapped.\<close>

definition fits :: "vheap \<Rightarrow> addr list \<Rightarrow> u64 \<Rightarrow> u64 \<Rightarrow> bool" where
  "fits h ps sz x \<longleftrightarrow> unat x + unat sz \<le> unat mmap_limit + 1 \<and>
     (\<forall>y. x \<le> y \<and> unat y < unat x + unat sz \<longrightarrow> y \<notin> mapped h ps)"

definition start_of :: "vheap \<Rightarrow> addr list \<Rightarrow> u64" where
  "start_of h bs = (case bs of [] \<Rightarrow> mmap_limit + 1 | b # _ \<Rightarrow> v_start (vmr_at h b))"

lemma start_of_le: "ordered h bs \<Longrightarrow> unat (start_of h bs) \<le> unat mmap_limit + 1"
proof (cases bs)
  case (Cons b bs')
  assume "ordered h bs"
  then have "v_start (vmr_at h b) \<le> mmap_limit" using Cons by (auto simp: ordered_def)
  then show ?thesis using Cons by (simp add: start_of_def word_le_nat_alt)
qed (simp add: start_of_def)

lemma start_of_min: "ordered h bs \<Longrightarrow> p \<in> set bs \<Longrightarrow> start_of h bs \<le> v_start (vmr_at h p)"
  by (cases bs) (auto simp: start_of_def ordered_Cons)

lemma not_fits_mapped: "sz \<noteq> 0 \<Longrightarrow> x \<in> mapped h ps \<Longrightarrow> \<not> fits h ps sz x"
  unfolding fits_def using unat_gt_0 [of sz] by (metis less_add_same_cancel1 order_refl)

lemma fits_gap:
  assumes "ordered h (as @ bs)" "\<forall>p \<in> set as. v_end (vmr_at h p) < x" "x \<le> start_of h bs" "sz \<noteq> 0"
  shows "fits h (as @ bs) sz x \<longleftrightarrow> sz \<le> start_of h bs - x"
proof -
  have ob: "ordered h bs" using assms(1) by (simp add: ordered_append)
  have le: "unat x \<le> unat (start_of h bs)" using assms(3) by (simp add: word_le_nat_alt)
  have eq: "sz \<le> start_of h bs - x \<longleftrightarrow> unat x + unat sz \<le> unat (start_of h bs)"
    using le unat_sub [OF assms(3)] by (simp add: word_le_nat_alt le_diff_conv2 add.commute)
  have "y \<notin> mapped h (as @ bs)" if "x \<le> y" "unat y < unat (start_of h bs)" for y
  proof -
    have "y \<notin> vrange h p" if "p \<in> set bs" for p
      using start_of_min [OF ob that] \<open>unat y < _\<close> by (auto simp: vrange_def word_le_nat_alt)
    moreover have "y \<notin> vrange h p" if "p \<in> set as" for p
      using assms(2) that \<open>x \<le> y\<close> by (auto simp: vrange_def)
    ultimately show ?thesis by (auto simp: mapped_def)
  qed
  then have "fits h (as @ bs) sz x" if "unat x + unat sz \<le> unat (start_of h bs)"
    using that start_of_le [OF ob] unfolding fits_def by force
  moreover have "unat x + unat sz \<le> unat (start_of h bs)" if f: "fits h (as @ bs) sz x"
  proof (cases bs)
    case Nil
    then show ?thesis using f by (simp add: fits_def start_of_def)
  next
    case (Cons b bs')
    then have "start_of h bs \<in> mapped h (as @ bs)"
      using ob by (auto simp: start_of_def vrange_def ordered_Cons)
    then show ?thesis using f assms(3) unfolding fits_def by (meson not_le)
  qed
  ultimately show ?thesis using eq by blast
qed

lemma fits_gap_down:
  assumes "ordered h (as @ bs)" "\<forall>p \<in> set as. v_end (vmr_at h p) < x" "x \<le> y" "y \<le> start_of h bs" "sz \<noteq> 0"
    "fits h (as @ bs) sz y"
  shows "sz \<le> start_of h bs - x"
proof -
  have "\<forall>p \<in> set as. v_end (vmr_at h p) < y" using assms(2,3) by auto
  then have "sz \<le> start_of h bs - y" using fits_gap [OF assms(1) _ assms(4,5)] assms(6) by blast
  also have "\<dots> \<le> start_of h bs - x" using assms(3,4) by (simp add: word_le_nat_alt unat_sub)
  finally show ?thesis .
qed

text \<open>
  The walk forwards from a region finds the lowest range behind it.
\<close>

definition first_fit :: "vheap \<Rightarrow> addr list \<Rightarrow> u64 \<Rightarrow> u64 \<Rightarrow> u64 option \<Rightarrow> bool" where
  "first_fit h ps sz lo res \<longleftrightarrow>
     (case res of
        None \<Rightarrow> \<forall>y. lo \<le> y \<longrightarrow> \<not> fits h ps sz y
      | Some a \<Rightarrow> lo \<le> a \<and> fits h ps sz a \<and> (\<forall>y. lo \<le> y \<and> y < a \<longrightarrow> \<not> fits h ps sz y))"

lemma upper_bound_le:
  assumes "ordered h (as @ t # bs)"
  shows "v_end (vmr_at h t) < vmr_upper_bound (vmr_at h t)" "vmr_upper_bound (vmr_at h t) \<le> start_of h bs"
    "v_end (vmr_at h t) < y \<Longrightarrow> vmr_upper_bound (vmr_at h t) \<le> y"
proof -
  have le: "v_end (vmr_at h t) \<le> mmap_limit" using assms by (simp add: ordered_append ordered_Cons)
  then have u: "unat (vmr_upper_bound (vmr_at h t)) = unat (v_end (vmr_at h t)) + 1"
    by (simp add: vmr_upper_bound_def word_le_nat_alt unat_word_ariths)
  then show "v_end (vmr_at h t) < vmr_upper_bound (vmr_at h t)" by (simp add: word_less_nat_alt)
  show up: "vmr_upper_bound (vmr_at h t) \<le> y" if "v_end (vmr_at h t) < y" for y
    using u that by (simp add: word_less_nat_alt word_le_nat_alt)
  show "vmr_upper_bound (vmr_at h t) \<le> start_of h bs"
  proof (cases bs)
    case Nil
    then show ?thesis using le u by (simp add: start_of_def word_le_nat_alt)
  next
    case (Cons b bs')
    then have "v_end (vmr_at h t) < v_start (vmr_at h b)" using assms by (simp add: ordered_append ordered_Cons)
    then show ?thesis using up Cons by (simp add: start_of_def)
  qed
qed

lemma ends_below:
  assumes "ordered h (as @ t # bs)" "p \<in> set (as @ [t])"
  shows "v_end (vmr_at h p) < vmr_upper_bound (vmr_at h t)"
proof -
  have "v_end (vmr_at h p) \<le> v_end (vmr_at h t)"
    using assms by (force simp: ordered_append ordered_Cons)
  then show ?thesis using upper_bound_le(1) [OF assms(1)] by simp
qed

text \<open>The size of the hole behind the last region.\<close>

lemma last_hole:
  assumes "mm_inv m h (as @ [t])" "sz \<noteq> 0"
  shows "\<exists>e hole. mmap_getholesize m h (vmr_upper_bound (vmr_at h t)) = Some (e, hole) \<and>
    (sz \<le> hole \<longleftrightarrow> sz \<le> start_of h [] - vmr_upper_bound (vmr_at h t))"
proof -
  let ?x = "vmr_upper_bound (vmr_at h t)"
  have ord: "ordered h (as @ [t])" using assms(1) by (simp add: mm_inv_def)
  note below = ends_below [OF ord]
  have nm: "?x \<notin> mapped h (as @ [t])"
  proof
    assume "?x \<in> mapped h (as @ [t])"
    then obtain p where "p \<in> set (as @ [t])" "?x \<in> vrange h p" unfolding mapped_def by blast
    then show False using below [of p] by (simp add: vrange_def not_le [symmetric])
  qed
  have "\<not> ?x < v_start (vmr_at h p)" if "p \<in> set (as @ [t])" for p
  proof -
    have "v_start (vmr_at h p) \<le> v_end (vmr_at h p)" using ord that unfolding ordered_def by blast
    then show ?thesis using below [OF that] by simp
  qed
  then have "filter (\<lambda>p. ?x < v_start (vmr_at h p)) (as @ [t]) = []" unfolding filter_empty_conv by blast
  then have he: "hole_end h (as @ [t]) ?x = mmap_limit + 1" unfolding hole_end_def by simp
  show ?thesis
  proof (cases "?x \<le> mmap_limit")
    case True
    then show ?thesis using getholesize_spec [OF assms(1), of ?x] nm he by (simp add: start_of_def)
  next
    case False
    then have "?x = mmap_limit + 1"
      using upper_bound_le(2) [OF ord] by (simp add: start_of_def word_le_nat_alt word_unat_eq_iff)
    then show ?thesis using getholesize_spec [OF assms(1), of ?x] False assms(2) by (simp add: start_of_def)
  qed
qed

lemma first_fit_here:
  assumes "ordered h (as @ t # bs)" "sz \<noteq> 0" "sz \<le> start_of h bs - vmr_upper_bound (vmr_at h t)"
  shows "first_fit h (as @ t # bs) sz (vmr_upper_bound (vmr_at h t)) (Some (vmr_upper_bound (vmr_at h t)))"
proof -
  have "\<forall>p \<in> set (as @ [t]). v_end (vmr_at h p) < vmr_upper_bound (vmr_at h t)" using ends_below [OF assms(1)] by blast
  then have "fits h ((as @ [t]) @ bs) sz (vmr_upper_bound (vmr_at h t))"
    using assms upper_bound_le(2) [OF assms(1)] fits_gap [of h "as @ [t]" bs] by auto
  then show ?thesis by (auto simp: first_fit_def)
qed

lemma first_fit_skip:
  assumes "ordered h (as @ t # bs)" "sz \<noteq> 0" "\<not> sz \<le> start_of h bs - vmr_upper_bound (vmr_at h t)"
    "vmr_upper_bound (vmr_at h t) \<le> y" "y \<le> start_of h bs"
  shows "\<not> fits h (as @ t # bs) sz y"
proof
  assume f: "fits h (as @ t # bs) sz y"
  have "\<forall>p \<in> set (as @ [t]). v_end (vmr_at h p) < vmr_upper_bound (vmr_at h t)" using ends_below [OF assms(1)] by blast
  then have "sz \<le> start_of h bs - vmr_upper_bound (vmr_at h t)"
    using fits_gap_down [of h "as @ [t]" bs "vmr_upper_bound (vmr_at h t)" y sz] assms f by simp
  then show False using assms(3) by simp
qed

lemma first_fit_shift:
  assumes "first_fit h ps sz lo' res" "lo \<le> lo'" "\<forall>y. lo \<le> y \<and> y < lo' \<longrightarrow> \<not> fits h ps sz y"
  shows "first_fit h ps sz lo res"
  using assms unfolding first_fit_def by (cases res) (simp_all, (meson not_le order_trans)+)

lemma fits_limit: "fits h ps sz y \<Longrightarrow> sz \<noteq> 0 \<Longrightarrow> y \<le> mmap_limit"
  using unat_gt_0 [of sz] by (simp add: fits_def word_le_nat_alt)

lemma hole_forward_last:
  assumes "mm_inv m h (as @ [t])" "sz \<noteq> 0"
  shows "\<exists>res. hole_forward m h sz t = Some res \<and> first_fit h (as @ [t]) sz (vmr_upper_bound (vmr_at h t)) res"
proof -
  have ord: "ordered h (as @ t # [])" "dll (links h) (lastp NULL as) [t] NULL" using assms(1) by (simp_all add: mm_inv_def)
  then have t: "t \<noteq> NULL" "h t = Some (vmr_at h t)" "v_next (vmr_at h t) = NULL" unfolding chain_Cons by simp_all
  obtain e hole where g: "mmap_getholesize m h (vmr_upper_bound (vmr_at h t)) = Some (e, hole)"
      "sz \<le> hole \<longleftrightarrow> sz \<le> start_of h [] - vmr_upper_bound (vmr_at h t)"
    using last_hole [OF assms] by blast
  have nul: "hole_forward m h sz NULL = Some None" by (subst hole_forward.simps) simp
  show ?thesis
  proof (cases "sz \<le> hole")
    case True
    then have "hole_forward m h sz t = Some (Some (vmr_upper_bound (vmr_at h t)))"
      using t g by (subst hole_forward.simps) simp
    then show ?thesis using first_fit_here [OF ord(1) assms(2)] True g(2) by auto
  next
    case False
    have "\<not> fits h (as @ [t]) sz y" if y: "vmr_upper_bound (vmr_at h t) \<le> y" for y
    proof
      assume f: "fits h (as @ [t]) sz y"
      have "y \<le> start_of h []" using fits_limit [OF f assms(2)] by (simp add: start_of_def word_le_nat_alt)
      then show False using first_fit_skip [OF ord(1) assms(2) _ y] False g(2) f by simp
    qed
    moreover have "hole_forward m h sz t = Some None" using t g False nul by (subst hole_forward.simps) simp
    ultimately show ?thesis by (simp add: first_fit_def)
  qed
qed

text \<open>When the gap in front of the next region is too small, the search goes on behind that region.\<close>

lemma first_fit_step:
  assumes "ordered h (as @ t # u # bs)" "sz \<noteq> 0" "\<not> sz \<le> start_of h (u # bs) - vmr_upper_bound (vmr_at h t)"
    "first_fit h (as @ t # u # bs) sz (vmr_upper_bound (vmr_at h u)) res"
  shows "first_fit h (as @ t # u # bs) sz (vmr_upper_bound (vmr_at h t)) res"
proof (rule first_fit_shift [OF assms(4)])
  have ord: "ordered h ((as @ [t]) @ u # bs)" using assms(1) by simp
  have "v_end (vmr_at h t) < v_start (vmr_at h u)" "v_start (vmr_at h u) \<le> v_end (vmr_at h u)"
    using assms(1) by (simp_all add: ordered_append ordered_Cons)
  then show "vmr_upper_bound (vmr_at h t) \<le> vmr_upper_bound (vmr_at h u)"
    using upper_bound_le(1) [OF ord] upper_bound_le(3) [OF assms(1)] by simp
  have "\<not> fits h (as @ t # u # bs) sz y" if y: "vmr_upper_bound (vmr_at h t) \<le> y" "y < vmr_upper_bound (vmr_at h u)" for y
  proof (cases "y \<le> v_start (vmr_at h u)")
    case True
    then show ?thesis using first_fit_skip [OF assms(1-3) y(1)] by (simp add: start_of_def)
  next
    case False
    have "y \<le> v_end (vmr_at h u)" using upper_bound_le(3) [OF ord, of y] y(2) by fastforce
    then have "y \<in> mapped h (as @ t # u # bs)" using False by (simp add: vrange_def) auto
    then show ?thesis using not_fits_mapped [OF assms(2)] by blast
  qed
  then show "\<forall>y. vmr_upper_bound (vmr_at h t) \<le> y \<and> y < vmr_upper_bound (vmr_at h u) \<longrightarrow> \<not> fits h (as @ t # u # bs) sz y"
    by blast
qed

lemma hole_forward_spec:
  assumes "mm_inv m h ps" "sz \<noteq> 0"
  shows "ps = as @ t # bs \<Longrightarrow>
    \<exists>res. hole_forward m h sz t = Some res \<and> first_fit h ps sz (vmr_upper_bound (vmr_at h t)) res"
proof (induction bs arbitrary: as t)
  case Nil
  then show ?case using hole_forward_last [of m h as t sz] assms by simp
next
  case (Cons u bs)
  have ord: "ordered h (as @ t # u # bs)" "dll (links h) (lastp NULL as) (t # u # bs) NULL"
    using assms(1) Cons.prems by (simp_all add: mm_inv_def)
  then have t: "t \<noteq> NULL" "h t = Some (vmr_at h t)" "v_next (vmr_at h t) = u" "u \<noteq> NULL" "h u = Some (vmr_at h u)"
    unfolding chain_Cons by simp_all
  show ?case
  proof (cases "sz \<le> start_of h (u # bs) - vmr_upper_bound (vmr_at h t)")
    case True
    then have "hole_forward m h sz t = Some (Some (vmr_upper_bound (vmr_at h t)))"
      using t by (subst hole_forward.simps) (simp add: start_of_def)
    then show ?thesis using first_fit_here [OF ord(1) assms(2) True] Cons.prems by simp
  next
    case False
    obtain res where r: "hole_forward m h sz u = Some res" "first_fit h ps sz (vmr_upper_bound (vmr_at h u)) res"
      using Cons.IH [of "as @ [t]" u] Cons.prems by auto
    have "hole_forward m h sz t = Some res" using t False r(1) by (subst hole_forward.simps) (simp add: start_of_def)
    then show ?thesis using first_fit_step [OF ord(1) assms(2) False] r(2) Cons.prems by blast
  qed
qed

text \<open>The hole at the beginning of the address space.\<close>

lemma hole_at_zero:
  assumes "mm_inv m h ps" "sz \<noteq> 0"
  shows "\<exists>e hole. mmap_getholesize m h 0 = Some (e, hole) \<and> (sz \<le> hole \<longleftrightarrow> fits h ps sz 0)"
proof (cases "0 \<in> mapped h ps")
  case True
  then show ?thesis using getholesize_spec [OF assms(1), of 0] assms(2) not_fits_mapped by simp
next
  case False
  have ord: "ordered h ps" using assms(1) by (simp add: mm_inv_def)
  have "0 < v_start (vmr_at h p)" if "p \<in> set ps" for p
    using False that by (auto simp: mapped_def vrange_def word_gt_0)
  then have "filter (\<lambda>p. 0 < v_start (vmr_at h p)) ps = ps" by (simp add: filter_id_conv)
  then have "hole_end h ps 0 = start_of h ps" unfolding hole_end_def start_of_def by simp
  then show ?thesis using getholesize_spec [OF assms(1), of 0] False fits_gap [of h "[]" ps 0 sz] ord assms(2) by simp
qed

lemma hole_forward_head:
  assumes "mm_inv m h ps" "sz \<noteq> 0" "\<not> fits h ps sz 0"
  shows "\<exists>res. hole_forward m h sz (m_head m) = Some res \<and> first_fit h ps sz 0 res"
proof (cases ps)
  case Nil
  have "\<not> fits h [] sz y" for y
    using fits_gap_down [of h "[]" "[]" 0 y sz] fits_limit [of h "[]" sz y] fits_gap [of h "[]" "[]" 0 sz] assms(2,3) Nil
    by (auto simp: start_of_def word_le_nat_alt ordered_def)
  then show ?thesis using Nil assms(1) by (subst hole_forward.simps) (simp add: first_fit_def mm_inv_def)
next
  case (Cons t bs)
  have inv: "m_head m = t" "ordered h ps" using assms(1) Cons by (simp_all add: mm_inv_def)
  obtain res where r: "hole_forward m h sz t = Some res" "first_fit h ps sz (vmr_upper_bound (vmr_at h t)) res"
    using hole_forward_spec [OF assms(1,2), of "[]" t bs] Cons by auto
  have "\<not> fits h ps sz y" if "y < vmr_upper_bound (vmr_at h t)" for y
  proof (cases "y < v_start (vmr_at h t)")
    case True
    then have "y \<le> start_of h ps" using Cons by (simp add: start_of_def)
    then show ?thesis
      using fits_gap_down [of h "[]" ps 0 y sz] fits_gap [of h "[]" ps 0 sz] assms(2,3) inv(2) by auto
  next
    case False
    have "y \<le> v_end (vmr_at h t)" using upper_bound_le(3) [of h "[]" t bs y] inv(2) Cons that by fastforce
    then show ?thesis using False Cons not_fits_mapped [OF assms(2), of y h ps] by (simp add: vrange_def not_less)
  qed
  then show ?thesis using first_fit_shift [OF r(2), of 0] r(1) inv(1) by auto
qed

text \<open>C7: \<^verbatim>\<open>mmap_find_hole\<close> searching from the start terminates and is first fit: it returns the lowest
  address at which the requested number of bytes is free and inside the address space, or
  \<^verbatim>\<open>-ENOMEM\<close> exactly when there is no such address.\<close>

theorem mmap_find_hole_first_fit:
  assumes "mm_inv m h ps" "sz \<noteq> 0"
  shows "\<exists>e a. mmap_find_hole m h sz whence_start = Some (e, a) \<and>
    (if \<exists>b. fits h ps sz b then e = 0 \<and> fits h ps sz a \<and> (\<forall>b < a. \<not> fits h ps sz b) else e = - ENOMEM \<and> a = 0)"
proof -
  obtain e hole where g: "mmap_getholesize m h 0 = Some (e, hole)" "sz \<le> hole \<longleftrightarrow> fits h ps sz 0"
    using hole_at_zero [OF assms] by blast
  show ?thesis
  proof (cases "fits h ps sz 0")
    case True
    then show ?thesis using assms g by (auto simp: mmap_find_hole_def)
  next
    case False
    then obtain res where "hole_forward m h sz (m_head m) = Some res" "first_fit h ps sz 0 res"
      using hole_forward_head [OF assms] by blast
    then show ?thesis using assms g False by (cases res) (auto simp: mmap_find_hole_def first_fit_def)
  qed
qed

text \<open>\<^verbatim>\<open>mmap_getholesize\<close> is exact: at an address that is mapped or above the limit it returns
  \<^verbatim>\<open>-EINVAL\<close> and the size 0; otherwise the size is positive, the hole is free and stays below the limit, and
  the address behind it is mapped or is the end of the address space.\<close>

theorem mmap_getholesize_correct:
  assumes "mm_inv m h ps"
  shows "\<exists>e n. mmap_getholesize m h a = Some (e, n) \<and>
    (if a > mmap_limit \<or> a \<in> mapped h ps then e = - EINVAL \<and> n = 0
     else e = 0 \<and> n > 0 \<and> fits h ps n a \<and> (a + n = mmap_limit + 1 \<or> a + n \<in> mapped h ps))"
proof (cases "a \<le> mmap_limit \<and> a \<notin> mapped h ps")
  case False
  then show ?thesis using getholesize_spec [OF assms, of a] by auto
next
  case True
  have ord: "ordered h ps" using assms by (simp add: mm_inv_def)
  note b = hole_end_bounds [OF ord, of a]
  have un: "unat (hole_end h ps a - a) = unat (hole_end h ps a) - unat a"
    using b True by (intro unat_sub) simp
  have "fits h ps (hole_end h ps a - a) a"
    using b True hole_free [OF ord, of a] un by (auto simp: fits_def word_le_nat_alt word_less_nat_alt)
  moreover have "hole_end h ps a - a > 0" using b True by (simp add: word_gt_0)
  moreover have "hole_end h ps a = mmap_limit + 1 \<or> hole_end h ps a \<in> mapped h ps" using hole_maximal [OF ord] by blast
  ultimately show ?thesis using getholesize_spec [OF assms, of a] True by auto
qed

text \<open>In the sample, four pages fit first at \<^verbatim>\<open>0x5000\<close>; the hole at \<^verbatim>\<open>0x2000\<close> has two pages.\<close>

theorem mmap_find_hole_first_fit_witness:
  "\<exists>e a. mmap_find_hole sample_mmap sample_vheap 0x4000 whence_start = Some (e, a) \<and> e = 0 \<and> fits sample_vheap [r1, r2] 0x4000 a"
proof -
  have "fits sample_vheap [r1, r2] 0x4000 0x5000"
    by (auto simp: fits_def word_le_nat_alt)
  then have "\<exists>b. fits sample_vheap [r1, r2] 0x4000 b" by blast
  then show ?thesis using mmap_find_hole_first_fit [OF sample_inv, of "0x4000"] by auto
qed

theorem mmap_getholesize_correct_witness:
  "\<exists>n. mmap_getholesize sample_mmap sample_vheap 0x2000 = Some (0, n) \<and> n > 0 \<and> fits sample_vheap [r1, r2] n 0x2000"
proof -
  have "(0x2000 :: u64) \<notin> mapped sample_vheap [r1, r2]" by simp
  then show ?thesis using mmap_getholesize_correct [OF sample_inv, of "0x2000"] by auto
qed

end
