(* ===== verification/Mmap_Space.thy ===== *)
theory Mmap_Space
  imports Mmap_Holes
begin

text \<open>
  Whole address spaces, the rest of \<^verbatim>\<open>src/src/kernel/mm/mmap.c\<close>: changing the protection of a range,
  cleaning, initialising, allocating, copying, cloning and freeing a memory map.

  The register \<^verbatim>\<open>cr3\<close> (the active page directory) is part of the state; \<open>kp\<close> is the physical address of
  the kernel's own page directory.  The contents of page tables are not modelled: the results of
  \<^verbatim>\<open>arch_mprotect\<close>, \<^verbatim>\<open>arch_getpgdir\<close> and \<^verbatim>\<open>arch_lazycpy\<close> are arguments, as are the addresses that
  \<^verbatim>\<open>kzalloc\<close> returns (null when there is no memory).
\<close>

section \<open>Changing the protection\<close>

definition prot_of :: "vmr \<Rightarrow> u64" where
  "prot_of v = opt_flag (has (v_flags v) VM_READ) PROT_READ OR opt_flag (has (v_flags v) VM_WRITE) PROT_WRITE OR
     opt_flag (has (v_flags v) VM_EXEC) PROT_EXEC"

definition protect_denied :: "u64 \<Rightarrow> u64 \<Rightarrow> bool" where
  "protect_denied prot old \<longleftrightarrow> has prot PROT_WRITE \<and> has prot PROT_EXEC \<or> has prot PROT_WRITE \<and> has old PROT_EXEC \<or>
     has prot PROT_EXEC \<and> has old PROT_WRITE"

text \<open>The three ways to split off what keeps its protection: above, below, and on both sides.\<close>

definition split_above :: "mmap \<Rightarrow> vheap \<Rightarrow> addr \<Rightarrow> vmr \<Rightarrow> addr \<Rightarrow> u64 \<Rightarrow> (int \<times> mmap \<times> vheap) option" where
  "split_above m h r rv s0 e = do {
     h \<leftarrow> vupd h r (\<lambda>v. v\<lparr>v_end := e\<rparr>);
     h \<leftarrow> vupd h s0 (\<lambda>v. v\<lparr>v_start := e + 1\<rparr>);
     (err, m, h) \<leftarrow> mmap_mapin m h s0;
     if err \<noteq> 0
     then do { h \<leftarrow> vupd h r (\<lambda>v. v\<lparr>v_end := v_end rv\<rparr>); h \<leftarrow> vmr_free h s0; Some (err, m, h) }
     else Some (0, m, h) }"

definition split_below :: "mmap \<Rightarrow> vheap \<Rightarrow> addr \<Rightarrow> vmr \<Rightarrow> addr \<Rightarrow> u64 \<Rightarrow> (int \<times> mmap \<times> vheap) option" where
  "split_below m h r rv s0 a = do {
     h \<leftarrow> vupd h r (\<lambda>v. v\<lparr>v_start := a\<rparr>);
     h \<leftarrow> vupd h s0 (\<lambda>v. v\<lparr>v_end := a - 1\<rparr>);
     (err, m, h) \<leftarrow> mmap_mapin m h s0;
     if err \<noteq> 0
     then do { h \<leftarrow> vupd h r (\<lambda>v. v\<lparr>v_start := v_start rv\<rparr>); h \<leftarrow> vmr_free h s0; Some (err, m, h) }
     else Some (0, m, h) }"

definition split_both :: "addr \<Rightarrow> mmap \<Rightarrow> vheap \<Rightarrow> addr \<Rightarrow> vmr \<Rightarrow> addr \<Rightarrow> u64 \<Rightarrow> u64 \<Rightarrow> (int \<times> mmap \<times> vheap) option" where
  "split_both p1 m h r rv s0 a e = do {
     (err, s1, h) \<leftarrow> vmr_alloc p1 h True;
     if err \<noteq> 0 then do { h \<leftarrow> vmr_free h s0; Some (err, m, h) }
     else do {
       h \<leftarrow> vupd h s1 (\<lambda>_. rv\<lparr>v_prev := NULL, v_next := NULL\<rparr>);
       h \<leftarrow> vupd h s0 (\<lambda>v. v\<lparr>v_refs := 0\<rparr>);
       h \<leftarrow> vupd h r (\<lambda>v. v\<lparr>v_start := a, v_end := e\<rparr>);
       h \<leftarrow> vupd h s0 (\<lambda>v. v\<lparr>v_end := a - 1\<rparr>);
       h \<leftarrow> vupd h s1 (\<lambda>v. v\<lparr>v_start := e + 1\<rparr>);
       (err, m, h) \<leftarrow> mmap_mapin m h s0;
       if err \<noteq> 0
       then do { h \<leftarrow> vupd h r (\<lambda>_. rv); h \<leftarrow> vmr_free h s0; h \<leftarrow> vmr_free h s1; Some (err, m, h) }
       else do {
         (err, m, h) \<leftarrow> mmap_mapin m h s1;
         if err \<noteq> 0
         then do {
           h \<leftarrow> vupd h r (\<lambda>_. rv);
           (_, m, h) \<leftarrow> mmap_remove m h s0;
           h \<leftarrow> vmr_free h s0;
           h \<leftarrow> vmr_free h s1;
           Some (err, m, h) }
         else Some (0, m, h) } } }"

definition protect_split :: "addr \<Rightarrow> addr \<Rightarrow> mmap \<Rightarrow> vheap \<Rightarrow> addr \<Rightarrow> vmr \<Rightarrow> u64 \<Rightarrow> u64 \<Rightarrow> (int \<times> mmap \<times> vheap) option" where
  "protect_split p0 p1 m h r rv a e = do {
     (err, s0, h) \<leftarrow> vmr_alloc p0 h True;
     if err \<noteq> 0 then Some (err, m, h)
     else do {
       h \<leftarrow> vupd h s0 (\<lambda>_. rv\<lparr>v_refs := 0, v_prev := NULL, v_next := NULL\<rparr>);
       if v_start rv = a then split_above m h r rv s0 e
       else if v_end rv = e then split_below m h r rv s0 a
       else split_both p1 m h r rv s0 a e } }"

definition set_prot :: "mmap \<Rightarrow> u64 \<Rightarrow> vmr \<Rightarrow> vmr" where
  "set_prot m prot v =
     (let fl = opt_flag (has prot PROT_READ) VM_READ OR opt_flag (has prot PROT_WRITE) VM_WRITE OR opt_flag (has prot PROT_EXEC) VM_EXEC
      in v\<lparr>v_flags := fl, v_vflags := page_flags m fl\<rparr>)"

definition mmap_protect :: "addr \<Rightarrow> addr \<Rightarrow> (u64 \<Rightarrow> u64 \<Rightarrow> u64 \<Rightarrow> int) \<Rightarrow> mmap \<Rightarrow> vheap \<Rightarrow> u64 \<Rightarrow> u64 \<Rightarrow> u64 \<Rightarrow>
    (int \<times> mmap \<times> vheap) option" where
  "mmap_protect p0 p1 mprot m h a len prot =
     (if len = 0 then Some (- EINVAL, m, h)
      else do {
        mmap_assert_locked m;
        if \<not> isaligned a \<or> \<not> isaligned len then Some (- EINVAL, m, h)
        else if \<not> valid_addr a then Some (- ENOMEM, m, h)
        else do {
          r \<leftarrow> mmap_find_vmr_overlap m h a (a + len - 1);
          if r = NULL then Some (- ENOMEM, m, h)
          else do {
            rv \<leftarrow> vload h r;
            if vmr_isstack rv then Some (- EACCES, m, h)
            else if prot_of rv = prot then Some (0, m, h)
            else if protect_denied prot (prot_of rv) then Some (- EACCES, m, h)
            else do {
              (err, m, h) \<leftarrow> (if len < vmr_size rv then protect_split p0 p1 m h r rv a (a + len - 1) else Some (0, m, h));
              if err \<noteq> 0 then Some (err, m, h)
              else do {
                h \<leftarrow> vupd h r (set_prot m prot);
                v \<leftarrow> vload h r;
                Some (mprot (v_start v) (vmr_size v) (v_vflags v), m, h) } } } } })"

section \<open>Cleaning, initialising, allocating and freeing\<close>

text \<open>The value written through \<^verbatim>\<open>old\<close>, and the new \<^verbatim>\<open>cr3\<close>.\<close>

definition x86_64_switchvm :: "u64 \<Rightarrow> u64 \<Rightarrow> u64 \<Rightarrow> u64 \<times> u64" where
  "x86_64_switchvm kp pdbr cr3 = (cr3, if pdbr \<noteq> 0 then pdbr else kp)"

definition mmap_set_focus :: "u64 \<Rightarrow> mmap \<Rightarrow> u64 \<Rightarrow> u64 \<Rightarrow> (int \<times> u64 \<times> u64) option" where
  "mmap_set_focus kp m ref cr3 = do {
     mmap_assert_locked m;
     if m_pgdir m = 0 then Some (- EINVAL, ref, cr3)
     else (let (old, cr3) = x86_64_switchvm kp (m_pgdir m) cr3 in Some (0, old, cr3)) }"

definition mmap_clean :: "u64 \<Rightarrow> mmap \<Rightarrow> vheap \<Rightarrow> u64 \<Rightarrow> (int \<times> mmap \<times> vheap \<times> u64) option" where
  "mmap_clean kp m h cr3 = do {
     mmap_assert_locked m;
     (old, cr3) \<leftarrow>
       (if cr3 = m_pgdir m then Some (0, cr3)
        else do { (_, old, cr3) \<leftarrow> mmap_set_focus kp m 0 cr3; Some (old, cr3) });
     (err, m, h) \<leftarrow> mmap_unmap m h 0 (m_limit m + 1);
     let cr3 = (if old \<noteq> 0 then snd (x86_64_switchvm kp old cr3) else cr3);
     if err \<noteq> 0 then Some (err, m, h, cr3)
     else Some (0, m\<lparr>m_refs := 0, m_used_space := 0, m_brk := 0, m_arg := NULL, m_env := NULL, m_heap := NULL, m_priv := NULL,
       m_head := NULL, m_tail := NULL, m_flags := MMAP_USER, m_guard := 0x1000, m_limit := mmap_limit\<rparr>, h, cr3) }"

definition mmap_init :: "u64 \<Rightarrow> addr \<Rightarrow> mmap \<Rightarrow> vheap \<Rightarrow> u64 \<Rightarrow> (int \<times> mmap \<times> vheap \<times> u64) option" where
  "mmap_init kp p m h cr3 = do {
     mmap_assert_locked m;
     (err, m, h, cr3) \<leftarrow> mmap_clean kp m h cr3;
     if err \<noteq> 0 then Some (err, m, h, cr3)
     else do {
       (err, _, m, h) \<leftarrow> mmap_map_region p m h 0 0x1000000 0 (MAP_FIXED OR MAP_PRIVATE OR MAP_DONTEXPAND) False;
       if err \<noteq> 0 then Some (err, m, h, cr3) else Some (0, m, h, cr3) } }"

definition zero_mmap :: "addr \<Rightarrow> mmap" where
  "zero_mmap a = \<lparr>m_flags = 0, m_refs = 0, m_priv = NULL, m_arg = NULL, m_env = NULL, m_heap = NULL, m_brk = 0, m_pgdir = 0,
     m_limit = 0, m_guard = 0, m_used_space = 0, m_head = NULL, m_tail = NULL, m_entry = NULL, m_lock = False, m_self = a\<rparr>"

text \<open>\<^verbatim>\<open>spin_lock\<close> asserts that the caller does not hold the lock, \<^verbatim>\<open>spin_unlock\<close> that it does.\<close>

definition mmap_lock :: "mmap \<Rightarrow> mmap option" where
  "mmap_lock m = do { assert_that (\<not> m_lock m); Some (m\<lparr>m_lock := True\<rparr>) }"

definition mmap_unlock :: "mmap \<Rightarrow> mmap option" where
  "mmap_unlock m = do { assert_that (m_lock m); Some (m\<lparr>m_lock := False\<rparr>) }"

text \<open>\<open>gp\<close> is the result of \<^verbatim>\<open>arch_getpgdir\<close> and the page directory; \<open>a\<close> and \<open>p\<close> come from \<^verbatim>\<open>kzalloc\<close>.\<close>

definition mmap_alloc :: "u64 \<Rightarrow> int \<times> u64 \<Rightarrow> addr \<Rightarrow> addr \<Rightarrow> bool \<Rightarrow> vheap \<Rightarrow> u64 \<Rightarrow> (int \<times> mmap option \<times> vheap \<times> u64) option" where
  "mmap_alloc kp gp a p ref h cr3 =
     (if \<not> ref then Some (- EINVAL, None, h, cr3)
      else if fst gp \<noteq> 0 then Some (fst gp, None, h, cr3)
      else if a = NULL then Some (- ENOMEM, None, h, cr3)
      else do {
        m \<leftarrow> mmap_lock ((zero_mmap a)\<lparr>m_pgdir := snd gp, m_flags := MMAP_USER, m_guard := 0x1000, m_limit := mmap_limit\<rparr>);
        (err, m, h, cr3) \<leftarrow> mmap_init kp p m h cr3;
        if err \<noteq> 0 then do { _ \<leftarrow> mmap_unlock m; Some (err, None, h, cr3) }
        else Some (0, Some m, h, cr3) })"

text \<open>\<^verbatim>\<open>mmap_free\<close>; \<^term>\<open>None\<close> inside when the memory map itself was freed.\<close>

definition mmap_free :: "u64 \<Rightarrow> mmap \<Rightarrow> vheap \<Rightarrow> u64 \<Rightarrow> (mmap option \<times> vheap \<times> u64) option" where
  "mmap_free kp m h cr3 = do {
     m \<leftarrow> (if m_lock m then Some m else mmap_lock m);
     (_, m, h, cr3) \<leftarrow> mmap_clean kp m h cr3;
     m' \<leftarrow> mmap_unlock m;
     Some (if m_refs m \<le> 0 then None else Some m', h, cr3) }"

section \<open>Copying an address space\<close>

text \<open>The loop over the regions of the source; \<open>al\<close> are the addresses that \<^verbatim>\<open>kzalloc\<close> returns in turn.\<close>

definition next_alloc :: "addr list \<Rightarrow> addr" where
  "next_alloc al = (case al of [] \<Rightarrow> NULL | p # _ \<Rightarrow> p)"

partial_function (option) copy_loop :: "addr list \<Rightarrow> mmap \<Rightarrow> vheap \<Rightarrow> addr \<Rightarrow> (int \<times> mmap \<times> vheap) option" where
  "copy_loop al d h tmp =
     (if tmp = NULL then Some (0, d, h)
      else do {
        (err, c, h) \<leftarrow> vmr_clone (next_alloc al) h tmp True;
        if err \<noteq> 0 then Some (err, d, h)
        else do {
          (err, d, h) \<leftarrow> mmap_mapin d h c;
          if err \<noteq> 0 then do { h \<leftarrow> vmr_free h c; Some (err, d, h) }
          else do { t \<leftarrow> vload h tmp; copy_loop (tl al) d h (v_next t) } } })"

definition copy_ref :: "mmap \<Rightarrow> vheap \<Rightarrow> addr \<Rightarrow> addr option" where
  "copy_ref d h p = (if p \<noteq> NULL then do { v \<leftarrow> vload h p; mmap_find d h (v_start v) } else Some NULL)"

definition mmap_copy :: "addr list \<Rightarrow> int \<Rightarrow> mmap \<Rightarrow> mmap \<Rightarrow> vheap \<Rightarrow> (int \<times> mmap \<times> vheap) option" where
  "mmap_copy al lazycpy dst src h = do {
     mmap_assert_locked src;
     mmap_assert_locked dst;
     let dst = dst\<lparr>m_flags := m_flags src, m_limit := m_limit src, m_guard := m_guard src, m_refs := 0, m_used_space := 0,
       m_priv := NULL, m_head := NULL, m_tail := NULL, m_heap := NULL, m_arg := NULL, m_env := NULL\<rparr>;
     (err, dst, h) \<leftarrow> copy_loop al dst h (m_head src);
     if err \<noteq> 0 then Some (err, dst, h)
     else do {
       arg \<leftarrow> copy_ref dst h (m_arg src);
       let dst = dst\<lparr>m_arg := arg\<rparr>;
       env \<leftarrow> copy_ref dst h (m_env src);
       let dst = dst\<lparr>m_env := env\<rparr>;
       heap \<leftarrow> copy_ref dst h (m_heap src);
       let dst = dst\<lparr>m_heap := heap\<rparr>;
       Some (if lazycpy \<noteq> 0 then (lazycpy, dst, h) else (0, dst, h)) } }"

definition mmap_clone :: "u64 \<Rightarrow> int \<times> u64 \<Rightarrow> addr \<Rightarrow> addr \<Rightarrow> addr list \<Rightarrow> int \<Rightarrow> bool \<Rightarrow> mmap \<Rightarrow> vheap \<Rightarrow> u64 \<Rightarrow>
    (int \<times> mmap option \<times> vheap \<times> u64) option" where
  "mmap_clone kp gp a p al lazycpy pclone m h cr3 =
     (if \<not> pclone then Some (- EINVAL, None, h, cr3)
      else do {
        mmap_assert_locked m;
        (err, c, h, cr3) \<leftarrow> mmap_alloc kp gp a p True h cr3;
        case c of
          None \<Rightarrow> Some (err, None, h, cr3)
        | Some c \<Rightarrow> do {
            c \<leftarrow> mmap_lock c;
            (err, c, h) \<leftarrow> mmap_copy al lazycpy c m h;
            if err \<noteq> 0 then do { (_, h, cr3) \<leftarrow> mmap_free kp c h cr3; Some (err, None, h, cr3) }
            else do { c \<leftarrow> mmap_unlock c; Some (0, Some c, h, cr3) } } })"

section \<open>Cleaning removes everything\<close>

text \<open>The steps of the unmapping loop over a hole and over a region that lies at its start.\<close>

lemma find_unmapped: "mm_inv m h ps \<Longrightarrow> s \<notin> mapped h ps \<Longrightarrow> mmap_find m h s = Some NULL"
  using mmap_find_spec [of m h ps s] by auto

lemma find_in:
  assumes "mm_inv m h (as @ p # bs)" "v_start (vmr_at h p) \<le> s" "s \<le> v_end (vmr_at h p)"
  shows "mmap_find m h s = Some p"
proof -
  have "s \<in> mapped h (as @ p # bs)" using assms(2,3) by (simp add: vrange_def)
  then obtain q where q: "mmap_find m h s = Some q" "q \<in> set (as @ p # bs)" "s \<in> vrange h q"
    using mmap_find_spec [OF assms(1), of s] by blast
  have "ordered h (as @ p # bs)" using assms(1) by (simp add: mm_inv_def)
  then have "q = p" using q(2,3) assms(2,3) by (force simp: ordered_append ordered_Cons vrange_def)
  then show ?thesis using q(1) by simp
qed

lemma unmap_over_hole:
  assumes "mm_inv m h ps" "s \<le> mmap_limit" "s \<notin> mapped h ps" "len \<noteq> 0"
  defines "n \<equiv> min (hole_end h ps s - s) len"
  shows "unmap_loop m h s len = unmap_loop m h (s + n) (len - n)"
proof -
  have ord: "ordered h ps" using assms(1) by (simp add: mm_inv_def)
  have "hole_end h ps s - s \<noteq> 0" using hole_end_bounds(1) [OF ord assms(2)] by auto
  moreover have "mmap_find m h s = Some NULL" using find_unmapped assms by blast
  moreover have "mmap_find_exact m h s (s + len - 1) = Some NULL" using calculation assms(1) by (simp add: mmap_find_exact_def)
  moreover have "mmap_getholesize m h s = Some (0, hole_end h ps s - s)" using getholesize_spec [OF assms(1), of s] assms(2,3) by simp
  ultimately show ?thesis using assms(4) by (subst unmap_loop.simps) (auto simp: Let_def n_def min_def)
qed

text \<open>What is left is to clear an address space that is empty from \<open>s\<close> on.\<close>

abbreviation (input) SPACE :: nat where "SPACE \<equiv> 0x800000000000"

lemma unmap_rest:
  assumes "mm_inv m h []" "unat s + unat len = SPACE"
  shows "unmap_loop m h s len = Some (m, h)"
proof (cases "len = 0")
  case True
  then show ?thesis by (subst unmap_loop.simps) simp
next
  case False
  have s: "s \<le> mmap_limit" using assms(2) False unat_gt_0 [of len] by (simp add: word_le_nat_alt)
  have e: "hole_end h [] s - s = len"
    using assms(2) s by (simp add: hole_end_def word_unat_eq_iff unat_sub word_le_nat_alt)
  have "unmap_loop m h s len = unmap_loop m h (s + len) 0" using unmap_over_hole [OF assms(1) s _ False] e by simp
  then show ?thesis by (subst (asm) (2) unmap_loop.simps) simp
qed

lemma unmap_at_region:
  assumes "mm_inv m h (p # ps)" "s = v_start (vmr_at h p)" "unat s + unat len = SPACE"
  shows "\<exists>m' h' s' len'. unmap_loop m h s len = unmap_loop m' h' s' len' \<and> mm_inv m' h' ps \<and> same_space m m' \<and>
    same_bounds (set ps) h h' \<and> unat s' + unat len' = SPACE \<and> (\<forall>q \<in> set ps. s' \<le> v_start (vmr_at h' q)) \<and>
    let_go h' p \<and> (\<forall>x. x \<notin> set (p # ps) \<longrightarrow> h' x = h x)"
proof -
  have c: "dll (links h) NULL (p # ps) NULL" "ordered h (p # ps)" using assms(1) by (simp_all add: mm_inv_def)
  then have p: "p \<noteq> NULL" "h p = Some (vmr_at h p)" unfolding chain_Cons by simp_all
  let ?e = "v_end (vmr_at h p)"
  have le: "s \<le> ?e" "unat ?e < SPACE" using c(2) assms(2) by (auto simp: ordered_Cons word_le_nat_alt)
  have len: "len \<noteq> 0" using le assms(3) by (auto simp: word_le_nat_alt)
  have sz: "unat (vmr_size (vmr_at h p)) = unat ?e - unat s + 1"
    using le assms(2) by (simp add: vmr_size_def unat_word_ariths(1) unat_sub)
  have ub: "unat (vmr_upper_bound (vmr_at h p)) = unat ?e + 1" using le by (simp add: vmr_upper_bound_def unat_word_ariths(1))
  have le': "unat (s + len - 1) = SPACE - 1"
  proof -
    have "unat (s + len) = SPACE" using assms(3) by (simp add: unat_word_ariths(1))
    then show ?thesis by (subst unat_sub) (simp_all add: word_le_nat_alt)
  qed
  obtain m' h' where r: "mmap_remove m h p = Some (0, m', h')" "mm_inv m' h' ps" "same_bounds (set ps) h h'" "same_space m m'" "let_go h' p" "\<forall>x. x \<notin> set (p # ps) \<longrightarrow> h' x = h x"
    using remove_spec [of m h "[]" p ps] assms(1) by auto
  have f: "mmap_find m h s = Some p" using find_in [of m h "[]" p ps s] assms(1,2) le(1) by simp
  have above: "?e < v_start (vmr_at h' q)" if "q \<in> set ps" for q
    using c(2) r(3) that by (simp add: ordered_Cons same_bounds_def)
  show ?thesis
  proof (cases "?e = s + len - 1")
    case True
    then have "ps = []" using c(2) le' by (cases ps) (auto simp: ordered_Cons word_le_nat_alt word_less_nat_alt)
    moreover have "mmap_find_exact m h s (s + len - 1) = Some p" using f p True assms(1,2) by (simp add: mmap_find_exact_def)
    then have "unmap_loop m h s len = unmap_loop m' h' (s + (?e - s)) (len - (?e - s))"
      using p(1) True r(1) len by (subst unmap_loop.simps) (simp add: Let_def)
    moreover have "unat (s + (?e - s)) + unat (len - (?e - s)) = SPACE"
    proof -
      have "len - (?e - s) = 1" using True by simp
      moreover have "unat (s + (?e - s)) = SPACE - 1" using True le' by (simp only: add.commute [of s] diff_add_cancel)
      ultimately show ?thesis by simp
    qed
    ultimately show ?thesis using r by auto
  next
    case False
    then have lt: "unat ?e < SPACE - 1" using le le' by (simp add: word_unat_eq_iff)
    have "vmr_size (vmr_at h p) < len" using sz lt le(1) assms(3) by (simp add: word_less_nat_alt word_le_nat_alt)
    moreover have "mmap_find_exact m h s (s + len - 1) = Some NULL" using f p False assms(1,2) by (simp add: mmap_find_exact_def)
    ultimately have "unmap_loop m h s len = unmap_loop m' h' (vmr_upper_bound (vmr_at h p)) (len - vmr_size (vmr_at h p))"
      using p f assms(2) r(1) len by (subst unmap_loop.simps) (auto simp: Let_def)
    moreover have "unat (vmr_upper_bound (vmr_at h p)) + unat (len - vmr_size (vmr_at h p)) = SPACE"
      using ub sz lt le(1) assms(3) \<open>vmr_size (vmr_at h p) < len\<close> by (simp add: unat_sub word_le_nat_alt)
    moreover have "vmr_upper_bound (vmr_at h p) \<le> v_start (vmr_at h' q)" if "q \<in> set ps" for q
      using above [OF that] ub by (simp add: word_le_nat_alt word_less_nat_alt)
    ultimately show ?thesis using r by blast
  qed
qed

lemma unmap_all:
  assumes "mm_inv m h ps" "unat s + unat len = SPACE" "\<forall>q \<in> set ps. s \<le> v_start (vmr_at h q)"
  shows "\<exists>m' h'. unmap_loop m h s len = Some (m', h') \<and> mm_inv m' h' [] \<and> same_space m m' \<and>
    (\<forall>p \<in> set ps. let_go h' p) \<and> (\<forall>x. x \<notin> set ps \<longrightarrow> h' x = h x)"
  using assms
proof (induction ps arbitrary: m h s len)
  case Nil
  then show ?case using unmap_rest by auto
next
  case (Cons p ps)
  have ord: "ordered h (p # ps)" using Cons.prems(1) by (simp add: mm_inv_def)
  have sp: "s \<le> v_start (vmr_at h p)" "v_start (vmr_at h p) \<le> mmap_limit" using Cons.prems(3) ord by (auto simp: ordered_Cons)
  define s' where "s' = v_start (vmr_at h p)"
  define len' where "len' = len - (s' - s)"
  have le: "unat (s' - s) = unat s' - unat s" "unat s' - unat s \<le> unat len" "unat s \<le> unat s'" "unat s' \<le> unat mmap_limit"
    using sp Cons.prems(2) by (simp_all add: s'_def unat_sub word_le_nat_alt)
  then have ulen: "unat len' = unat len - (unat s' - unat s)"
    unfolding len'_def by (subst unat_sub) (simp_all add: word_le_nat_alt)
  then have eq: "unat s' + unat len' = SPACE" using le Cons.prems(2) by simp
  have "unmap_loop m h s len = unmap_loop m h s' len'"
  proof (cases "s = s'")
    case False
    then have lt: "s < s'" using sp by (simp add: s'_def)
    have nm: "s \<notin> mapped h (p # ps)" using lt ord by (force simp: s'_def mapped_def vrange_def ordered_Cons)
    have "hole_end h (p # ps) s = s'" using lt by (simp add: hole_end_def s'_def)
    moreover have "s' - s \<le> len" using le by (simp add: word_le_nat_alt)
    moreover have "len \<noteq> 0" using le lt by (auto simp: word_less_nat_alt)
    ultimately show ?thesis using unmap_over_hole [OF Cons.prems(1) _ nm, of len] sp by (simp add: len'_def min_def)
  qed (simp add: len'_def)
  then obtain m1 h1 s1 len1 where r: "unmap_loop m h s len = unmap_loop m1 h1 s1 len1" "mm_inv m1 h1 ps" "same_space m m1"
      "unat s1 + unat len1 = SPACE" "\<forall>q \<in> set ps. s1 \<le> v_start (vmr_at h1 q)" "let_go h1 p" "\<forall>x. x \<notin> set (p # ps) \<longrightarrow> h1 x = h x"
    using unmap_at_region [OF Cons.prems(1) s'_def eq] by auto
  obtain m2 h2 where r2: "unmap_loop m1 h1 s1 len1 = Some (m2, h2)" "mm_inv m2 h2 []" "same_space m1 m2"
      "\<forall>p \<in> set ps. let_go h2 p" "\<forall>x. x \<notin> set ps \<longrightarrow> h2 x = h1 x"
    using Cons.IH [OF r(2,4,5)] by blast
  have "p \<notin> set ps" using Cons.prems(1) by (auto simp: mm_inv_def)
  then have "let_go h2 p" using r(6) r2(5) by (simp add: let_go_def)
  then show ?case using r r2 same_space_trans [OF r(3) r2(3)] by auto
qed

lemma clean_spec:
  assumes "mm_inv m h ps" "cr3 \<noteq> 0"
  shows "\<exists>m' h'. mmap_clean kp m h cr3 = Some (0, m', h', cr3) \<and> mm_inv m' h' [] \<and> m_used_space m' = 0 \<and> m_refs m' = 0 \<and>
    m_heap m' = NULL \<and> m_arg m' = NULL \<and> m_env m' = NULL \<and> m_pgdir m' = m_pgdir m \<and> m_flags m' = MMAP_USER \<and>
    (\<forall>p \<in> set ps. let_go h' p) \<and> (\<forall>x. x \<notin> set ps \<longrightarrow> h' x = h x)"
proof -
  have lim: "m_limit m = mmap_limit" using assms(1) by (simp add: mm_inv_def)
  obtain m' h' where u: "unmap_loop m h 0 (mmap_limit + 1) = Some (m', h')" "mm_inv m' h' []" "same_space m m'"
      "\<forall>p \<in> set ps. let_go h' p" "\<forall>x. x \<notin> set ps \<longrightarrow> h' x = h x"
    using unmap_all [OF assms(1), of 0 "mmap_limit + 1"] by auto
  have um: "mmap_unmap m h 0 (m_limit m + 1) = Some (0, m', h')"
    using assms(1) lim u(1) by (simp add: mmap_unmap_def valid_addr_def)
  define m2 where "m2 = m'\<lparr>m_refs := 0, m_used_space := 0, m_brk := 0, m_arg := NULL, m_env := NULL, m_heap := NULL, m_priv := NULL,
       m_head := NULL, m_tail := NULL, m_flags := MMAP_USER, m_guard := 0x1000, m_limit := mmap_limit\<rparr>"
  have "mmap_clean kp m h cr3 = Some (0, m2, h', cr3)"
    unfolding mmap_clean_def m2_def using assms um by (simp add: mmap_set_focus_def x86_64_switchvm_def Let_def)
  moreover have "mm_inv m2 h' []" using u(2) by (simp add: mm_inv_def m2_def)
  moreover have "m_pgdir m2 = m_pgdir m" using u(3) by (simp add: m2_def same_space_def)
  ultimately show ?thesis using u(4,5) by (auto simp: m2_def)
qed

text \<open>C14: \<^verbatim>\<open>mmap_clean\<close> terminates and empties an address space: every region object is given up, that is freed or, when something else still refers to it, detached from the address space; no other object
  changes; the list is empty, the counters and the special regions are reset, and the page directory that was active is active again.\<close>

theorem mmap_clean_empties:
  assumes "mm_inv m h ps" "cr3 \<noteq> 0"
  shows "\<exists>m' h'. mmap_clean kp m h cr3 = Some (0, m', h', cr3) \<and> mm_inv m' h' [] \<and> m_used_space m' = 0 \<and> m_refs m' = 0 \<and>
    m_heap m' = NULL \<and> m_arg m' = NULL \<and> m_env m' = NULL \<and> m_pgdir m' = m_pgdir m \<and>
    (\<forall>p \<in> set ps. case h' p of None \<Rightarrow> True | Some v \<Rightarrow> v_mmap v = NULL) \<and> (\<forall>x. x \<notin> set ps \<longrightarrow> h' x = h x)"
  using clean_spec [OF assms, of kp] unfolding let_go_def by blast

section \<open>A new address space\<close>

text \<open>The region that \<^verbatim>\<open>mmap_init\<close> reserves: the first 16 MiB, with no access.\<close>

lemma map_first_region:
  assumes "mm_inv m h []" "p > V2HI 0"
  shows "\<exists>m' h'. mmap_map_region p m h 0 0x1000000 0 (MAP_FIXED OR MAP_PRIVATE OR MAP_DONTEXPAND) False = Some (0, p, m', h') \<and>
    mm_inv m' h' [p] \<and> vrange h' p = {0 .. 0xFFFFFF} \<and> v_flags (vmr_at h' p) = VM_DONTEXPAND \<and> same_space m m'"
proof -
  have p: "p \<noteq> NULL" using assms(2) by auto
  define v where "v = zero_vmr\<lparr>v_start := 0, v_end := 0xFFFFFF, v_flags := VM_DONTEXPAND, v_vflags := page_flags m VM_DONTEXPAND\<rparr>"
  let ?h = "h(p \<mapsto> v)"
  have inv: "mm_inv m ?h []" using assms(1) by (simp add: mm_inv_def ordered_def)
  have sz: "vmr_size v = 0x1000000" by (simp add: v_def vmr_size_def)
  have he: "hole_end ?h [] 0 = mmap_limit + 1" by (simp add: hole_end_def)
  have "unmap_loop m ?h 0 0x1000000 = unmap_loop m ?h 0x1000000 0"
    using unmap_over_hole [OF inv, of 0 "0x1000000"] he by (simp add: min_def)
  also have "\<dots> = Some (m, ?h)" by (subst unmap_loop.simps) simp
  finally have um: "mmap_unmap m ?h 0 0x1000000 = Some (0, m, ?h)"
    using assms(1) by (simp add: mmap_unmap_def valid_addr_def)
  obtain m' h' where r: "mmap_mapin m ?h p = Some (0, m', h')" "mm_inv m' h' [p]" "same_space m m'" "relinked {p} ?h h'"
    using mapin_spec [OF inv assms(2), of v] by (auto simp: v_def zero_vmr_def not_below_def)
  have st: "h' p = Some (v\<lparr>v_refs := v_refs v + 2, v_mmap := m_self m\<rparr>)"
    using r(1) p assms sz by (auto simp: mmap_mapin_def insert_sorted_def insert_only_def mm_inv_def v_def split: bind_splits if_splits)
  have flags: "region_flags 0 (MAP_FIXED OR MAP_PRIVATE OR MAP_DONTEXPAND) = VM_DONTEXPAND"
    "map_flags_ok 0 0x1000000 0 (MAP_FIXED OR MAP_PRIVATE OR MAP_DONTEXPAND)"
    "has (MAP_FIXED OR MAP_PRIVATE OR MAP_DONTEXPAND) MAP_FIXED" "\<not> has (MAP_FIXED OR MAP_PRIVATE OR MAP_DONTEXPAND) MAP_STACK"
    by (simp_all add: region_flags_def map_flags_ok_def has_def opt_flag_def isaligned_def valid_addr_def)
  have "mmap_forced_mapin m ?h p = Some (0, m', h')"
    using p assms(1) um r(1) sz by (simp add: mmap_forced_mapin_def v_def)
  then have "mmap_map_region p m h 0 0x1000000 0 (MAP_FIXED OR MAP_PRIVATE OR MAP_DONTEXPAND) False = Some (0, p, m', h')"
    using assms(1) p flags unfolding mmap_map_region_def by (simp add: vmr_alloc_def v_def zero_vmr_def)
  then show ?thesis using r st by (auto simp: vrange_def vmr_at_def v_def)
qed

lemma init_spec:
  assumes "mm_inv m h ps" "p > V2HI 0" "cr3 \<noteq> 0"
  shows "\<exists>m' h'. mmap_init kp p m h cr3 = Some (0, m', h', cr3) \<and> mm_inv m' h' [p] \<and> vrange h' p = {0 .. 0xFFFFFF} \<and>
    v_flags (vmr_at h' p) = VM_DONTEXPAND \<and> m_pgdir m' = m_pgdir m \<and> m_flags m' = MMAP_USER"
proof -
  obtain m1 h1 where c: "mmap_clean kp m h cr3 = Some (0, m1, h1, cr3)" "mm_inv m1 h1 []" "m_pgdir m1 = m_pgdir m" "m_flags m1 = MMAP_USER"
    using clean_spec [OF assms(1,3)] by blast
  obtain m2 h2 where r: "mmap_map_region p m1 h1 0 0x1000000 0 (MAP_FIXED OR MAP_PRIVATE OR MAP_DONTEXPAND) False = Some (0, p, m2, h2)"
      "mm_inv m2 h2 [p]" "vrange h2 p = {0 .. 0xFFFFFF}" "v_flags (vmr_at h2 p) = VM_DONTEXPAND" "same_space m1 m2"
    using map_first_region [OF c(2) assms(2)] by blast
  have "mmap_init kp p m h cr3 = Some (0, m2, h2, cr3)" unfolding mmap_init_def using assms(1) c(1) r(1) by simp
  then show ?thesis using r c by (auto simp: same_space_def)
qed

lemma mmap_alloc_spec:
  assumes "fst gp = 0" "a \<noteq> NULL" "p > V2HI 0" "cr3 \<noteq> 0"
  shows "\<exists>m h'. mmap_alloc kp gp a p True h cr3 = Some (0, Some m, h', cr3) \<and> mm_inv m h' [p] \<and> vrange h' p = {0 .. 0xFFFFFF} \<and>
    v_flags (vmr_at h' p) = VM_DONTEXPAND \<and> m_pgdir m = snd gp \<and> m_flags m = MMAP_USER"
proof -
  define m0 where "m0 = (zero_mmap a)\<lparr>m_pgdir := snd gp, m_flags := MMAP_USER, m_guard := 0x1000, m_limit := mmap_limit, m_lock := True\<rparr>"
  have "mm_inv m0 h []" by (simp add: mm_inv_def m0_def zero_mmap_def ordered_def)
  from init_spec [OF this assms(3,4), of kp] obtain m h' where r: "mmap_init kp p m0 h cr3 = Some (0, m, h', cr3)" "mm_inv m h' [p]"
      "vrange h' p = {0 .. 0xFFFFFF}" "v_flags (vmr_at h' p) = VM_DONTEXPAND" "m_pgdir m = m_pgdir m0" "m_flags m = MMAP_USER"
    by blast
  have "mmap_alloc kp gp a p True h cr3 = Some (0, Some m, h', cr3)"
    using assms r(1) by (simp add: mmap_alloc_def mmap_lock_def m0_def zero_mmap_def)
  then show ?thesis using r by (simp add: m0_def)
qed

text \<open>\<^verbatim>\<open>mmap_alloc\<close> makes a well-formed address space, locked, in which exactly the first 16 MiB are
  reserved, by a region with no access that does not expand.\<close>

theorem mmap_alloc_correct:
  assumes "fst gp = 0" "a \<noteq> NULL" "p > V2HI 0" "cr3 \<noteq> 0"
  shows "\<exists>m h'. mmap_alloc kp gp a p True h cr3 = Some (0, Some m, h', cr3) \<and> mm_inv m h' [p] \<and>
    mapped h' [p] = {0 .. 0xFFFFFF} \<and> v_flags (vmr_at h' p) = VM_DONTEXPAND \<and> m_pgdir m = snd gp"
  using mmap_alloc_spec [OF assms, of kp h] by auto

theorem mmap_alloc_correct_witness:
  "\<exists>m h'. mmap_alloc 0x1000 (0, 0x2000) 0xFFFF800000000800 r1 True Map.empty 0x1000 = Some (0, Some m, h', 0x1000) \<and> mm_inv m h' [r1]"
proof -
  have "r1 > V2HI 0" by (simp add: V2HI_def r1_def)
  then show ?thesis using mmap_alloc_correct [of "(0, 0x2000)" "0xFFFF800000000800" r1 "0x1000" "0x1000" Map.empty] by auto
qed

theorem mmap_clean_empties_witness:
  "\<exists>m' h'. mmap_clean 0x1000 sample_mmap sample_vheap 0x3000 = Some (0, m', h', 0x3000) \<and> mm_inv m' h' []"
  using mmap_clean_empties [OF sample_inv, of "0x3000" "0x1000"] by auto

text \<open>\<^verbatim>\<open>mmap_clone\<close> never returns when its allocation succeeds: \<^verbatim>\<open>mmap_alloc\<close> returns the new memory map
  locked, and \<^verbatim>\<open>mmap_clone\<close> locks it again, which is an assertion failure.\<close>

theorem mmap_clone_panics:
  assumes "m_lock m" "fst gp = 0" "a \<noteq> NULL" "p > V2HI 0" "cr3 \<noteq> 0"
  shows "mmap_clone kp gp a p al lazycpy True m h cr3 = None"
proof -
  obtain c h' where "mmap_alloc kp gp a p True h cr3 = Some (0, Some c, h', cr3)" "mm_inv c h' [p]"
    using mmap_alloc_spec [OF assms(2-5)] by blast
  then show ?thesis using assms(1) by (simp add: mmap_clone_def mmap_assert_locked_def mmap_lock_def mm_inv_def)
qed

theorem mmap_clone_panics_witness:
  "mmap_clone 0x1000 (0, 0x2000) 0xFFFF800000000800 r3 [] 0 True sample_mmap sample_vheap 0x1000 = None"
proof -
  have "r3 > V2HI 0" "m_lock sample_mmap" by (simp_all add: V2HI_def r3_def sample_mmap_def)
  then show ?thesis
    using mmap_clone_panics [of sample_mmap "(0, 0x2000)" "0xFFFF800000000800" r3 "0x1000" "0x1000" "[]" 0 sample_vheap] by simp
qed

section \<open>Changing the protection of a whole region\<close>

text \<open>\<^verbatim>\<open>mmap_protect\<close> on exactly one region that is not a stack replaces its protection bits, unless the
  combination of write and execute is denied (\<^verbatim>\<open>-EACCES\<close>) or nothing changes.  It replaces all the other
  flags as well: a shared or a fixed-size region stops being one.\<close>

theorem mmap_protect_region:
  assumes "mm_inv m h (as @ p # bs)" "isaligned (v_start (vmr_at h p))" "isaligned (vmr_size (vmr_at h p))"
    "\<not> vmr_isstack (vmr_at h p)"
  shows "mmap_protect p0 p1 mprot m h (v_start (vmr_at h p)) (vmr_size (vmr_at h p)) prot =
    Some (let v = vmr_at h p; v' = set_prot m prot v in
      if prot_of v = prot then (0, m, h)
      else if protect_denied prot (prot_of v) then (- EACCES, m, h)
      else (mprot (v_start v) (vmr_size v) (v_vflags v'), m, h(p \<mapsto> v'))) \<and>
    \<not> has (v_flags (set_prot m prot (vmr_at h p))) VM_SHARED \<and> \<not> has (v_flags (set_prot m prot (vmr_at h p))) VM_DONTEXPAND"
proof -
  let ?v = "vmr_at h p"
  have c: "ordered h (as @ p # bs)" "dll (links h) NULL (as @ p # bs) NULL" using assms(1) by (simp_all add: mm_inv_def)
  have p: "p \<noteq> NULL" "h p = Some ?v" using chain_loaded [OF c(2), of p] by auto
  have b: "v_start ?v \<le> v_end ?v" "v_end ?v \<le> mmap_limit" using c(1) by (simp_all add: ordered_append ordered_Cons)
  have e: "v_start ?v + vmr_size ?v - 1 = v_end ?v" by (simp add: vmr_size_def)
  have f: "mmap_find m h (v_start ?v) = Some p" using find_in [OF assms(1)] b(1) by simp
  have ov: "mmap_find_vmr_overlap m h (v_start ?v) (v_start ?v + vmr_size ?v - 1) = Some p"
    using assms(1) f p e by (simp add: mmap_find_vmr_overlap_def)
  have va: "valid_addr (v_start ?v)" using b by (simp add: valid_addr_def)
  have "mmap_protect p0 p1 mprot m h (v_start ?v) (vmr_size ?v) prot =
    Some (if prot_of ?v = prot then (0, m, h) else if protect_denied prot (prot_of ?v) then (- EACCES, m, h)
      else (mprot (v_start ?v) (vmr_size ?v) (v_vflags (set_prot m prot ?v)), m, h(p \<mapsto> set_prot m prot ?v)))"
    using assms p ov va size_not_zero [OF b] unfolding mmap_protect_def
    by (simp add: set_prot_def Let_def vmr_size_def)
  moreover have "\<not> has (v_flags (set_prot m prot ?v)) VM_SHARED" "\<not> has (v_flags (set_prot m prot ?v)) VM_DONTEXPAND"
    by (simp_all add: set_prot_def Let_def has_def opt_flag_def bit_simps)
  ultimately show ?thesis by (simp add: Let_def)
qed

text \<open>The first region of the sample becomes readable.\<close>

theorem mmap_protect_region_witness:
  "\<exists>h'. mmap_protect NULL NULL (\<lambda>_ _ _. 0) sample_mmap sample_vheap 0x1000 0x1000 PROT_READ = Some (0, sample_mmap, h')"
proof -
  have "isaligned 0x1000" "vmr_size (vmr_at sample_vheap r1) = 0x1000" by (simp_all add: isaligned_def vmr_size_def)
  moreover have "\<not> vmr_isstack (vmr_at sample_vheap r1)" "prot_of (vmr_at sample_vheap r1) = 0" "\<not> protect_denied PROT_READ 0"
    by (simp_all add: vmr_isstack_def prot_of_def protect_denied_def has_def opt_flag_def sample_vmr_def zero_vmr_def)
  ultimately show ?thesis
    using mmap_protect_region [of sample_mmap sample_vheap "[]" r1 "[r2]" NULL NULL "\<lambda>_ _ _. 0" PROT_READ] sample_inv
    by (simp add: Let_def)
qed

section \<open>Copying an address space\<close>

text \<open>What a copy preserves of a region.\<close>

definition view :: "vheap \<Rightarrow> addr \<Rightarrow> u64 \<times> u64 \<times> u64 \<times> u64" where
  "view h p = (v_start (vmr_at h p), v_end (vmr_at h p), v_flags (vmr_at h p), v_vflags (vmr_at h p))"

lemma view_bounds: "same_bounds S h h' \<Longrightarrow> p \<in> S \<Longrightarrow> view h' p = view h p"
  by (simp add: same_bounds_def view_def)

lemma clone_spec:
  assumes "h p = Some v" "p \<noteq> NULL" "c \<noteq> NULL" "c \<noteq> p"
  shows "vmr_clone c h p True = Some (0, c, h(c \<mapsto> v\<lparr>v_refs := 0, v_mmap := NULL, v_priv := NULL, v_prev := NULL, v_next := NULL\<rparr>))"
  using assms by (simp add: vmr_clone_def vmr_alloc_def vmr_copy_def zero_vmr_def)

text \<open>Appending a copy of a region that lies above all the others.\<close>

lemma append_copy:
  assumes "mm_inv d h qs" "c > V2HI 0" "c \<notin> set qs" "c \<noteq> p" "p \<noteq> NULL" "h p = Some (vmr_at h p)"
    "v_start (vmr_at h p) \<le> v_end (vmr_at h p)" "v_end (vmr_at h p) \<le> mmap_limit"
    "\<forall>q \<in> set qs. v_end (vmr_at h q) < v_start (vmr_at h p)"
  shows "\<exists>h1 d' h'. vmr_clone c h p True = Some (0, c, h1) \<and> mmap_mapin d h1 c = Some (0, d', h') \<and> mm_inv d' h' (qs @ [c]) \<and>
    (\<forall>x. x \<notin> set (qs @ [c]) \<longrightarrow> h' x = h x) \<and> map (view h') (qs @ [c]) = map (view h) (qs @ [p])"
proof -
  define v where "v = (vmr_at h p)\<lparr>v_refs := 0, v_mmap := NULL, v_priv := NULL, v_prev := NULL, v_next := NULL\<rparr>"
  let ?h = "h(c \<mapsto> v)"
  have cl: "vmr_clone c h p True = Some (0, c, ?h)" using clone_spec [of h p "vmr_at h p" c] assms(2,4-6) unfolding v_def by (metis word_not_simps(1))
  have same: "vmr_at ?h q = vmr_at h q" if "q \<in> set qs" for q using that assms(3) by (auto simp: vmr_at_def)
  have sb: "same_bounds (set qs) h ?h" using same by (simp add: same_bounds_def)
  have "dll (links ?h) NULL qs NULL" using assms(1,3) by (auto simp: mm_inv_def intro: dll_frame)
  then have inv: "mm_inv d ?h qs" using assms(1) same_bounds_ordered [OF sb] by (simp add: mm_inv_def)
  have ord: "ordered h qs" using assms(1) by (simp add: mm_inv_def)
  have disj: "{v_start v .. v_end v} \<inter> mapped ?h qs = {}"
    using assms(9) same_bounds_mapped [OF sb] by (force simp: v_def mapped_def vrange_def)
  have nb: "not_below ?h qs (v_start v)"
  proof (cases qs)
    case (Cons q qs')
    then have "v_start (vmr_at h q) \<le> v_end (vmr_at h q)" "v_end (vmr_at h q) < v_start v" using ord assms(9) by (auto simp: ordered_Cons v_def)
    then show ?thesis using same [of q] Cons by (simp add: not_below_def)
  qed (simp add: not_below_def)
  have vv: "v_prev v = NULL" "v_next v = NULL" "v_start v \<le> v_end v" "v_end v \<le> mmap_limit" using assms(7,8) by (simp_all add: v_def)
  have "?h c = Some v" by simp
  from mapin_spec [OF inv assms(2) this assms(3) vv nb] disj
  obtain d' h' as bs where r: "mmap_mapin d ?h c = Some (0, d', h')" "relinked (insert c (set qs)) ?h h'" "qs = as @ bs" "mm_inv d' h' (as @ c # bs)"
      "\<forall>q \<in> set bs. v_start v < v_start (vmr_at ?h q)"
    by auto
  have "bs = []"
  proof (rule ccontr)
    assume "bs \<noteq> []"
    then have hd: "hd bs \<in> set bs" "hd bs \<in> set qs" using r(3) by auto
    then have b: "hd bs \<in> set qs" "v_start v < v_start (vmr_at h (hd bs))" using r(5) same [of "hd bs"] by (blast, metis)
    then have "v_start (vmr_at h (hd bs)) \<le> v_end (vmr_at h (hd bs))" "v_end (vmr_at h (hd bs)) < v_start v"
      using ord assms(9) by (auto simp: ordered_def v_def)
    then show False using b(2) by simp
  qed
  then have "mm_inv d' h' (qs @ [c])" using r by simp
  moreover have "\<forall>x. x \<notin> set (qs @ [c]) \<longrightarrow> h' x = h x" using r(2) by (auto simp: relinked_def)
  moreover have "view h' q = view h q" if "q \<in> set qs" for q
    using view_bounds [OF relinked_bounds [OF r(2)], of q UNIV] same [OF that] by (simp add: view_def)
  moreover have "view h' c = view h p"
    using view_bounds [OF relinked_bounds [OF r(2)], of c UNIV] by (simp add: view_def v_def)
  ultimately show ?thesis using cl r(1) by auto
qed

lemma copy_loop_spec:
  assumes "mm_inv d h qs" "dll (links h) b rest NULL" "ordered h rest" "distinct rest" "\<forall>q \<in> set qs. \<forall>p \<in> set rest. v_end (vmr_at h q) < v_start (vmr_at h p)"
    "set qs \<inter> set rest = {}" "length al = length rest" "distinct al" "set al \<inter> (set qs \<union> set rest) = {}" "\<forall>c \<in> set al. c > V2HI 0"
  shows "\<exists>d' h'. copy_loop al d h (hdp rest NULL) = Some (0, d', h') \<and> mm_inv d' h' (qs @ al) \<and>
    (\<forall>x. x \<notin> set (qs @ al) \<longrightarrow> h' x = h x) \<and> map (view h') (qs @ al) = map (view h) (qs @ rest)"
  using assms
proof (induction rest arbitrary: b al d h qs)
  case Nil
  then show ?case by (subst copy_loop.simps) simp
next
  case (Cons p rest)
  obtain c al' where al: "al = c # al'" using Cons.prems(7) by (cases al) auto
  have p: "p \<noteq> NULL" "h p = Some (vmr_at h p)" "v_next (vmr_at h p) = hdp rest NULL" "dll (links h) p rest NULL"
    using Cons.prems(2) unfolding chain_Cons by auto
  have o: "v_start (vmr_at h p) \<le> v_end (vmr_at h p)" "v_end (vmr_at h p) \<le> mmap_limit" "ordered h rest"
      "\<forall>q \<in> set rest. v_end (vmr_at h p) < v_start (vmr_at h q)"
    using Cons.prems(3) by (auto simp: ordered_Cons)
  obtain h1 d2 h2 where r: "vmr_clone c h p True = Some (0, c, h1)" "mmap_mapin d h1 c = Some (0, d2, h2)" "mm_inv d2 h2 (qs @ [c])"
      "\<forall>x. x \<notin> set (qs @ [c]) \<longrightarrow> h2 x = h x" "map (view h2) (qs @ [c]) = map (view h) (qs @ [p])"
    using append_copy [OF Cons.prems(1), of c p] Cons.prems p o al by auto
  have out: "h2 x = h x" if "x \<in> set (p # rest)" for x using r(4) that Cons.prems(6,9) al by auto
  then have same: "vmr_at h2 x = vmr_at h x" if "x \<in> set (p # rest)" for x using that by (simp add: vmr_at_def)
  have chain: "dll (links h2) p rest NULL" using p(4) out by (auto simp: links_def intro: dll_frame)
  have ord: "ordered h2 rest" using same_bounds_ordered [of rest h h2] same o(3) by (simp add: same_bounds_def)
  have vq: "v_end (vmr_at h2 q) = v_end (vmr_at h q)" if "q \<in> set qs" for q using r(5) that by (simp add: view_def)
  have vc: "v_end (vmr_at h2 c) = v_end (vmr_at h p)" using r(5) by (simp add: view_def)
  have sep: "\<forall>q \<in> set (qs @ [c]). \<forall>x \<in> set rest. v_end (vmr_at h2 q) < v_start (vmr_at h2 x)"
    using Cons.prems(5) o(4) same vq vc by auto
  have "copy_loop al d h p = copy_loop al' d2 h2 (hdp rest NULL)"
    using p r(1,2) out al by (subst copy_loop.simps) (simp add: next_alloc_def)
  moreover obtain d' h' where ih: "copy_loop al' d2 h2 (hdp rest NULL) = Some (0, d', h')" "mm_inv d' h' ((qs @ [c]) @ al')"
      "\<forall>x. x \<notin> set ((qs @ [c]) @ al') \<longrightarrow> h' x = h2 x" "map (view h') ((qs @ [c]) @ al') = map (view h2) ((qs @ [c]) @ rest)"
    using Cons.IH [OF r(3) chain ord _ sep, of al'] Cons.prems al by auto
  moreover have "map (view h2) rest = map (view h) rest" using same by (simp add: view_def)
  ultimately show ?case using r(4,5) al by auto
qed

text \<open>\<^verbatim>\<open>mmap_copy\<close> terminates and duplicates an address space: the destination becomes a well-formed list with the
  same ranges, flags and page flags, in the same order, made of new region objects; the source is left alone.\<close>

theorem mmap_copy_same:
  assumes "mm_inv src h ps" "m_lock dst" "length al = length ps" "distinct al" "set al \<inter> set ps = {}" "\<forall>c \<in> set al. c > V2HI 0"
    "m_arg src = NULL" "m_env src = NULL" "m_heap src = NULL"
  shows "\<exists>d' h'. mmap_copy al 0 dst src h = Some (0, d', h') \<and> mm_inv d' h' al \<and> map (view h') al = map (view h) ps \<and>
    mapped h' al = mapped h ps \<and> mm_inv src h' ps"
proof -
  have src: "m_lock src" "m_limit src = mmap_limit" "m_head src = hdp ps NULL" "dll (links h) NULL ps NULL" "ordered h ps" "distinct ps"
    using assms(1) by (simp_all add: mm_inv_def)
  define d where "d = dst\<lparr>m_flags := m_flags src, m_limit := m_limit src, m_guard := m_guard src, m_refs := 0, m_used_space := 0,
       m_priv := NULL, m_head := NULL, m_tail := NULL, m_heap := NULL, m_arg := NULL, m_env := NULL\<rparr>"
  have "mm_inv d h []" using assms(2) src(2) by (simp add: mm_inv_def d_def ordered_def)
  from copy_loop_spec [OF this src(4,5,6), of al] assms(3-6)
  obtain d' h' where r: "copy_loop al d h (hdp ps NULL) = Some (0, d', h')" "mm_inv d' h' al" "\<forall>x. x \<notin> set al \<longrightarrow> h' x = h x"
      "map (view h') al = map (view h) ps"
    by auto
  define d2 where "d2 = d'\<lparr>m_arg := NULL, m_env := NULL, m_heap := NULL\<rparr>"
  have "mmap_copy al 0 dst src h = Some (0, d2, h')"
    unfolding mmap_copy_def Let_def d_def [symmetric] using assms(2,7-9) src(1,3) r(1)
    by (simp add: mmap_assert_locked_def copy_ref_def d2_def)
  moreover have "mm_inv d2 h' al" using r(2) by (simp add: mm_inv_def d2_def)
  moreover have "map (vrange h') al = map (vrange h) ps"
    using arg_cong [OF r(4), of "map (\<lambda>(s, e, _). {s .. e})"] by (simp add: view_def vrange_def [abs_def] comp_def)
  then have "mapped h' al = mapped h ps" unfolding mapped_def by (metis list.set_map)
  moreover have out: "h' x = h x" if "x \<in> set ps" for x using r(3) that assms(5) by auto
  then have "dll (links h') NULL ps NULL" using src(4) by (auto simp: links_def intro: dll_frame)
  moreover have "ordered h' ps" using same_bounds_ordered [of ps h h'] out src(5) by (simp add: same_bounds_def vmr_at_def)
  ultimately show ?thesis using r(4) assms(1) by (auto simp: mm_inv_def)
qed

theorem mmap_copy_same_witness:
  "\<exists>d' h'. mmap_copy [r3, 0xFFFF800000004000] 0 sample_mmap sample_mmap sample_vheap = Some (0, d', h') \<and>
    mapped h' [r3, 0xFFFF800000004000] = mapped sample_vheap [r1, r2]"
proof -
  have "m_lock sample_mmap" "m_arg sample_mmap = NULL" "m_env sample_mmap = NULL" "m_heap sample_mmap = NULL"
    by (simp_all add: sample_mmap_def)
  moreover have "distinct [r3, 0xFFFF800000004000]" "set [r3, 0xFFFF800000004000] \<inter> set [r1, r2] = {}"
    "\<forall>c \<in> set [r3, 0xFFFF800000004000]. c > V2HI 0"
    by (simp_all add: r1_def r2_def r3_def V2HI_def)
  ultimately show ?thesis
    using mmap_copy_same [OF sample_inv, of sample_mmap "[r3, 0xFFFF800000004000]"] by auto
qed

end
