(* ===== verification/Vmm.thy ===== *)
theory Vmm
  imports Dll Pmm
begin

text \<open>
  The allocator of kernel virtual address ranges, \<^verbatim>\<open>src/src/kernel/mm/vmm/vmm.c\<close>.  Free ranges and
  used ranges are two lists of nodes sorted by address; nodes come from a pool.  Neighbouring free ranges
  are merged when a range is freed.

  A node (\<^verbatim>\<open>node_t\<close>) is split into its links, which are a node of the heap of doubly linked chains, and
  its two other members, \<open>nd_base\<close> and \<open>nd_size\<close>, which are functions of its address.
\<close>

section \<open>State\<close>

record vmm =
  vm_locked :: bool
  kheap_size :: u64
  vm_ready :: bool
  init_watermark :: u64
  used_memsz :: u64
  free_node_list :: addr
  usedvmr_list :: addr
  freevmr_list :: addr
  vm_nodes :: node_heap
  nd_base :: "addr \<Rightarrow> u64"
  nd_size :: "addr \<Rightarrow> u64"

text \<open>\<^verbatim>\<open>V2HI(GiB(4))\<close> and \<^verbatim>\<open>sizeof(node_t)\<close>\<close>

abbreviation (input) KHEAPBASE :: u64 where "KHEAPBASE \<equiv> 0xFFFF800100000000"
abbreviation (input) NODE_T :: u64 where "NODE_T \<equiv> 32"

definition NNODES :: "vmm \<Rightarrow> u64" where "NNODES st = kheap_size st div 4096"

definition vm_lock :: "vmm \<Rightarrow> vmm option" where
  "vm_lock st = do { assert_that (\<not> vm_locked st); Some (st\<lparr>vm_locked := True\<rparr>) }"

definition vm_unlock :: "vmm \<Rightarrow> vmm option" where
  "vm_unlock st = do { assert_that (vm_locked st); Some (st\<lparr>vm_locked := False\<rparr>) }"

definition vm_assert_locked :: "vmm \<Rightarrow> unit option" where
  "vm_assert_locked st = assert_that (vm_locked st)"

section \<open>The pool of nodes\<close>

text \<open>\<^verbatim>\<open>*node = (node_t) {0}\<close>\<close>

definition zero_node :: "vmm \<Rightarrow> addr \<Rightarrow> vmm option" where
  "zero_node st p = do {
     _ \<leftarrow> load (vm_nodes st) p;
     Some (st\<lparr>vm_nodes := (vm_nodes st)(p \<mapsto> \<lparr>qn_prev = NULL, qn_data = 0, qn_next = NULL\<rparr>),
       nd_base := (nd_base st)(p := 0), nd_size := (nd_size st)(p := 0)\<rparr>) }"

definition free_node_get :: "vmm \<Rightarrow> (addr \<times> vmm) option" where
  "free_node_get st = do {
     vm_assert_locked st;
     if free_node_list st = NULL then Some (NULL, st)
     else do {
       let node = free_node_list st;
       nd \<leftarrow> load (vm_nodes st) node;
       h \<leftarrow> link_prev (vm_nodes st) (qn_next nd) NULL;
       st \<leftarrow> zero_node (st\<lparr>free_node_list := qn_next nd, vm_nodes := h\<rparr>) node;
       Some (node, st) } }"

definition free_node_put :: "vmm \<Rightarrow> addr \<Rightarrow> vmm option" where
  "free_node_put st node = do {
     assert_that (node \<noteq> NULL);
     vm_assert_locked st;
     st \<leftarrow> zero_node st node;
     h \<leftarrow> set_next (vm_nodes st) node (free_node_list st);
     h \<leftarrow> link_prev h (free_node_list st) node;
     Some (st\<lparr>vm_nodes := h, free_node_list := node\<rparr>) }"

section \<open>The lists of ranges\<close>

definition can_merge_prev :: "vmm \<Rightarrow> addr \<Rightarrow> addr \<Rightarrow> bool" where
  "can_merge_prev st node prev \<longleftrightarrow> prev \<noteq> NULL \<and> nd_base st prev + nd_size st prev = nd_base st node"

definition can_merge_next :: "vmm \<Rightarrow> addr \<Rightarrow> addr \<Rightarrow> bool" where
  "can_merge_next st node next \<longleftrightarrow> next \<noteq> NULL \<and> nd_base st node + nd_size st node = nd_base st next"

text \<open>The walk to the place of a node: on while \<open>P\<close> holds, with the node passed last.\<close>

partial_function (option) vm_scan :: "(addr \<Rightarrow> bool) \<Rightarrow> node_heap \<Rightarrow> addr \<Rightarrow> addr \<Rightarrow> (addr \<times> addr) option" where
  "vm_scan P h next prev =
     (if next = NULL then Some (NULL, prev)
      else do { nd \<leftarrow> load h next; if P next then vm_scan P h (qn_next nd) next else Some (next, prev) })"

definition usedvmr_put :: "vmm \<Rightarrow> addr \<Rightarrow> vmm option" where
  "usedvmr_put st node = do {
     assert_that (node \<noteq> NULL);
     vm_assert_locked st;
     h \<leftarrow> set_next (vm_nodes st) node NULL;
     h \<leftarrow> set_prev h node NULL;
     (next, tail) \<leftarrow> vm_scan (\<lambda>p. \<not> nd_base st node < nd_base st p) h (usedvmr_list st) NULL;
     if next \<noteq> NULL
     then do {
       h \<leftarrow> set_next h node next;
       nd \<leftarrow> load h next;
       (h, list) \<leftarrow>
         (if qn_prev nd \<noteq> NULL then do { h \<leftarrow> set_next h (qn_prev nd) node; Some (h, usedvmr_list st) }
          else Some (h, node));
       nd \<leftarrow> load h next;
       h \<leftarrow> set_prev h node (qn_prev nd);
       h \<leftarrow> set_prev h next node;
       Some (st\<lparr>vm_nodes := h, usedvmr_list := list\<rparr>) }
     else if tail \<noteq> NULL
     then do {
       h \<leftarrow> set_next h tail node;
       h \<leftarrow> set_prev h node tail;
       Some (st\<lparr>vm_nodes := h\<rparr>) }
     else Some (st\<lparr>vm_nodes := h, usedvmr_list := node\<rparr>) }"

definition usedvmr_find :: "vmm \<Rightarrow> u64 \<Rightarrow> (int \<times> addr) option" where
  "usedvmr_find st base = do {
     vm_assert_locked st;
     if base = 0 then Some (- EINVAL, NULL)
     else do {
       r \<leftarrow> find_loop (\<lambda>p _. base = nd_base st p) (vm_nodes st) (usedvmr_list st);
       Some (case r of Some p \<Rightarrow> (0, p) | None \<Rightarrow> (- ENOENT, NULL)) } }"

text \<open>The three outcomes of \<^verbatim>\<open>freevmr_put\<close>: merged into the previous range, into the next one, or inserted.\<close>

definition merge_into_prev :: "vmm \<Rightarrow> addr \<Rightarrow> addr \<Rightarrow> addr \<Rightarrow> vmm option" where
  "merge_into_prev st node prev next = do {
     let st = st\<lparr>nd_size := (nd_size st)(prev := nd_size st prev + nd_size st node)\<rparr>;
     st \<leftarrow>
       (if next \<noteq> NULL \<and> can_merge_next st prev next
        then do {
          nd \<leftarrow> load (vm_nodes st) next;
          h \<leftarrow> set_next (vm_nodes st) prev (qn_next nd);
          h \<leftarrow> link_prev h (qn_next nd) prev;
          free_node_put (st\<lparr>nd_size := (nd_size st)(prev := nd_size st prev + nd_size st next), vm_nodes := h\<rparr>) next }
        else Some st);
     free_node_put st node }"

definition merge_into_next :: "vmm \<Rightarrow> addr \<Rightarrow> addr \<Rightarrow> addr \<Rightarrow> vmm option" where
  "merge_into_next st node prev next = do {
     let sz = nd_size st node;
     let st = st\<lparr>nd_size := (nd_size st)(next := nd_size st next + sz), nd_base := (nd_base st)(next := nd_base st next - sz)\<rparr>;
     h \<leftarrow> link_next (vm_nodes st) prev next;
     h \<leftarrow> set_prev h next prev;
     free_node_put (st\<lparr>vm_nodes := h, freevmr_list := (if prev \<noteq> NULL then freevmr_list st else next)\<rparr>) node }"

definition insert_free :: "vmm \<Rightarrow> addr \<Rightarrow> addr \<Rightarrow> addr \<Rightarrow> vmm option" where
  "insert_free st node prev next = do {
     h \<leftarrow> set_next (vm_nodes st) node next;
     h \<leftarrow> set_prev h node prev;
     h \<leftarrow> link_prev h next node;
     h \<leftarrow> link_next h prev node;
     Some (st\<lparr>vm_nodes := h, freevmr_list := (if prev \<noteq> NULL then freevmr_list st else node)\<rparr>) }"

definition freevmr_put :: "vmm \<Rightarrow> addr \<Rightarrow> vmm option" where
  "freevmr_put st node = do {
     assert_that (node \<noteq> NULL);
     vm_assert_locked st;
     h \<leftarrow> set_next (vm_nodes st) node NULL;
     h \<leftarrow> set_prev h node NULL;
     (next, prev) \<leftarrow> vm_scan (\<lambda>p. nd_base st p < nd_base st node) h (freevmr_list st) NULL;
     let st = st\<lparr>vm_nodes := h\<rparr>;
     if prev \<noteq> NULL \<and> can_merge_prev st node prev then merge_into_prev st node prev next
     else if next \<noteq> NULL \<and> can_merge_next st node next then merge_into_next st node prev next
     else insert_free st node prev next }"

definition freevmr_get :: "vmm \<Rightarrow> u64 \<Rightarrow> (int \<times> addr) option" where
  "freevmr_get st sz = do {
     vm_assert_locked st;
     if sz = 0 then Some (- EINVAL, NULL)
     else do {
       r \<leftarrow> find_loop (\<lambda>p _. nd_size st p \<ge> sz) (vm_nodes st) (freevmr_list st);
       Some (case r of Some p \<Rightarrow> (0, p) | None \<Rightarrow> (- ENOMEM, NULL)) } }"

section \<open>Initialisation\<close>

text \<open>The loop that links the array of nodes; the memory was not cleared, but for the first pointer.\<close>

function link_nodes :: "addr \<Rightarrow> u64 \<Rightarrow> node_heap \<Rightarrow> u64 \<Rightarrow> node_heap option" where
  "link_nodes nodes n h i =
     (if i < n
      then do {
        h \<leftarrow> (if i > 0 then set_prev h (nodes + NODE_T * i) (nodes + NODE_T * (i - 1)) else Some h);
        h \<leftarrow> (if i + 1 < n then set_next h (nodes + NODE_T * i) (nodes + NODE_T * (i + 1)) else Some h);
        link_nodes nodes n h (i + 1) }
      else Some h)"
  by pat_completeness auto
termination
  by (relation "measure (\<lambda>(nodes, n, h, i). unat n - unat i)") (auto simp: loop_measure)

declare link_nodes.simps [simp del]

text \<open>
  What \<^verbatim>\<open>vmm_init\<close> gets from outside of this file: \<^verbatim>\<open>bootinfo.total\<close>, the result of \<^verbatim>\<open>physical_memory_init\<close>, and the
  error and the physical address that \<^verbatim>\<open>pmman.get_pages\<close> gives for an order.
\<close>

record vm_env =
  env_total :: u64
  env_pm_init :: int
  env_get_pages :: "nat \<Rightarrow> int \<times> addr"

text \<open>\<^verbatim>\<open>memset(nodes, 0, sizeof nodes)\<close> clears eight bytes, the \<^verbatim>\<open>prev\<close> link of the first node.\<close>

definition vmm_init :: "vm_env \<Rightarrow> vmm \<Rightarrow> vmm option" where
  "vmm_init env st =
     (if vm_ready st then Some st
      else do {
        assert_that (init_watermark st = -1);
        st \<leftarrow> vm_lock (st\<lparr>init_watermark := 0\<rparr>);
        assert_that (env_pm_init env = 0);
        let st = st\<lparr>kheap_size := KiB (env_total env) * 2\<rparr>;
        order \<leftarrow> get_page_order (NNODES st * NODE_T);
        assert_that (fst (env_get_pages env order) = 0);
        let nodes = V2HI (snd (env_get_pages env order));
        h \<leftarrow> set_prev (vm_nodes st) nodes NULL;
        h \<leftarrow> link_nodes nodes (NNODES st) h 0;
        (node, st) \<leftarrow> free_node_get (st\<lparr>vm_nodes := h, free_node_list := nodes\<rparr>);
        st \<leftarrow> zero_node st node;
        st \<leftarrow> freevmr_put (st\<lparr>nd_base := (nd_base st)(node := KHEAPBASE), nd_size := (nd_size st)(node := kheap_size st)\<rparr>) node;
        vm_unlock (st\<lparr>vm_ready := True\<rparr>) })"

section \<open>Allocation and release\<close>

definition split_range :: "vmm \<Rightarrow> addr \<Rightarrow> u64 \<Rightarrow> (addr \<times> vmm) option" where
  "split_range st split sz = do {
     (node, st) \<leftarrow> free_node_get st;
     assert_that (node \<noteq> NULL);
     let st = st\<lparr>nd_base := (nd_base st)(node := nd_base st split)\<rparr>;
     let st = st\<lparr>nd_base := (nd_base st)(split := nd_base st split + sz), nd_size := (nd_size st)(split := nd_size st split - sz)\<rparr>;
     let st = st\<lparr>nd_size := (nd_size st)(node := sz)\<rparr>;
     st' \<leftarrow> usedvmr_put st node;
     Some (nd_base st node, st') }"

definition take_range :: "vmm \<Rightarrow> addr \<Rightarrow> (addr \<times> vmm) option" where
  "take_range st split = do {
     nd \<leftarrow> load (vm_nodes st) split;
     h \<leftarrow> link_prev (vm_nodes st) (qn_next nd) (qn_prev nd);
     h \<leftarrow> link_next h (qn_prev nd) (qn_next nd);
     let st = st\<lparr>vm_nodes := h, freevmr_list := (if qn_prev nd \<noteq> NULL then freevmr_list st else qn_next nd)\<rparr>;
     st' \<leftarrow> usedvmr_put st split;
     Some (nd_base st split, st') }"

text \<open>The error and the address that \<^verbatim>\<open>alloc\<close> writes; \<open>env\<close> is for a first call before initialisation.\<close>

definition vm_alloc :: "vm_env \<Rightarrow> vmm \<Rightarrow> u64 \<Rightarrow> (int \<times> addr option \<times> vmm) option" where
  "vm_alloc env st sz = do {
     st \<leftarrow> (if vm_ready st then Some st else vmm_init env st);
     st \<leftarrow> vm_lock st;
     (err, split) \<leftarrow> freevmr_get st sz;
     if err \<noteq> 0 then do { st \<leftarrow> vm_unlock st; Some (err, None, st) }
     else do {
       (a, st) \<leftarrow>
         (if nd_size st split > sz then split_range st split sz
          else if nd_size st split = sz then take_range st split else None);
       st \<leftarrow> vm_unlock (st\<lparr>used_memsz := used_memsz st + sz\<rparr>);
       Some (0, Some a, st) } }"

definition vm_free :: "vmm \<Rightarrow> addr \<Rightarrow> vmm option" where
  "vm_free st a = do {
     assert_that (a \<noteq> NULL);
     st \<leftarrow> vm_lock st;
     (err, node) \<leftarrow> usedvmr_find st a;
     if err \<noteq> 0 then vm_unlock st
     else do {
       nd \<leftarrow> load (vm_nodes st) node;
       h \<leftarrow> link_next (vm_nodes st) (qn_prev nd) (qn_next nd);
       h \<leftarrow> link_prev h (qn_next nd) (qn_prev nd);
       let st = st\<lparr>vm_nodes := h, usedvmr_list := (if qn_prev nd \<noteq> NULL then usedvmr_list st else qn_next nd),
         used_memsz := used_memsz st - nd_size st node\<rparr>;
       st \<leftarrow> freevmr_put st node;
       vm_unlock st } }"

definition vmm_free :: "vmm \<Rightarrow> u64 \<Rightarrow> vmm option" where
  "vmm_free st a = vm_free st a"

definition vmm_alloc :: "vm_env \<Rightarrow> vmm \<Rightarrow> u64 \<Rightarrow> (u64 \<times> vmm) option" where
  "vmm_alloc env st sz = do {
     (_, a, st) \<leftarrow> vm_alloc env st sz;
     Some (case a of Some a \<Rightarrow> a | None \<Rightarrow> 0, st) }"

definition vmm_getinuse :: "vmm \<Rightarrow> u64" where "vmm_getinuse st = used_memsz st"
definition vmm_getfreesize :: "vmm \<Rightarrow> u64" where "vmm_getfreesize st = kheap_size st - used_memsz st"
definition vmm_active :: "vmm \<Rightarrow> bool" where "vmm_active st = vm_ready st"

end
