(* ===== verification/Vmm_Proofs.thy ===== *)
theory Vmm_Proofs
  imports Vmm "HOL-Library.Multiset"
begin

text \<open>
  Correctness of the allocator of kernel address ranges.  The invariant: the three lists are well-formed
  chains without common nodes, ranges are not empty and do not wrap around, free ranges are sorted with a
  gap between any two, used ranges are sorted, no two overlap, and \<^verbatim>\<open>used_memsz\<close> is the sum of the sizes.
\<close>

section \<open>Walking\<close>

lemma vm_scan_chain:
  "dll h b ps NULL \<Longrightarrow> vm_scan P h (hdp ps NULL) pr = Some (hdp (dropWhile P ps) NULL, lastp pr (takeWhile P ps))"
proof (induction ps arbitrary: b pr)
  case Nil
  then show ?case by (subst vm_scan.simps) simp
next
  case (Cons p ps)
  then obtain n where n: "h p = Some n" "p \<noteq> NULL" "qn_next n = hdp ps NULL" "dll h p ps NULL" by auto
  with Cons.IH [of p p] show ?case by (subst vm_scan.simps) simp
qed

section \<open>The invariant\<close>

definition lo :: "vmm \<Rightarrow> addr \<Rightarrow> nat" where "lo st p = unat (nd_base st p)"
definition hi :: "vmm \<Rightarrow> addr \<Rightarrow> nat" where "hi st p = unat (nd_base st p) + unat (nd_size st p)"

definition extent :: "vmm \<Rightarrow> addr \<Rightarrow> nat set" where "extent st p = {lo st p ..< hi st p}"
definition cover :: "vmm \<Rightarrow> addr list \<Rightarrow> nat set" where "cover st ps = (\<Union>p \<in> set ps. extent st p)"

lemma cover_simps [simp]: "cover st [] = {}" "cover st (p # ps) = extent st p \<union> cover st ps" "cover st (ps @ qs) = cover st ps \<union> cover st qs"
  by (auto simp: cover_def)

text \<open>The shape: the three chains.\<close>

definition vm_shape :: "vmm \<Rightarrow> addr list \<Rightarrow> addr list \<Rightarrow> addr list \<Rightarrow> bool" where
  "vm_shape st fs us ns \<longleftrightarrow> freevmr_list st = hdp fs NULL \<and> usedvmr_list st = hdp us NULL \<and> free_node_list st = hdp ns NULL \<and>
     dll (vm_nodes st) NULL fs NULL \<and> dll (vm_nodes st) NULL us NULL \<and> dll (vm_nodes st) NULL ns NULL \<and> distinct (fs @ us @ ns)"

text \<open>The ranges.\<close>

definition proper :: "vmm \<Rightarrow> addr \<Rightarrow> bool" where
  "proper st p \<longleftrightarrow> lo st p < hi st p \<and> hi st p < 2 ^ 64 \<and> lo st p \<noteq> 0"

definition vm_ranges :: "vmm \<Rightarrow> addr list \<Rightarrow> addr list \<Rightarrow> bool" where
  "vm_ranges st fs us \<longleftrightarrow> (\<forall>p \<in> set (fs @ us). proper st p) \<and> sorted_wrt (\<lambda>p q. hi st p < lo st q) fs \<and>
     sorted_wrt (\<lambda>p q. hi st p \<le> lo st q) us \<and> cover st fs \<inter> cover st us = {} \<and> used_memsz st = sum_list (map (nd_size st) us)"

definition vm_inv :: "vmm \<Rightarrow> addr list \<Rightarrow> addr list \<Rightarrow> addr list \<Rightarrow> bool" where
  "vm_inv st fs us ns \<longleftrightarrow> vm_ready st \<and> \<not> vm_locked st \<and> vm_shape st fs us ns \<and> vm_ranges st fs us"

lemma proper_word:
  assumes "proper st p"
  shows "unat (nd_base st p + nd_size st p) = hi st p"
  using assms unfolding hi_def proper_def by (intro unat_add_bounded) simp

section \<open>Updates of chains\<close>

lemma zero_node_shape:
  assumes "load (vm_nodes st) p = Some n"
  shows "zero_node st p = Some (st\<lparr>vm_nodes := (vm_nodes st)(p \<mapsto> \<lparr>qn_prev = NULL, qn_data = 0, qn_next = NULL\<rparr>),
       nd_base := (nd_base st)(p := 0), nd_size := (nd_size st)(p := 0)\<rparr>)"
  using assms by (simp add: zero_node_def)

text \<open>Inserting a node between two chains, in the order of the C code of \<^verbatim>\<open>freevmr_put\<close>.\<close>

lemma insert_chain:
  assumes "dll h NULL as e" "dll h c bs NULL" "distinct (as @ node # bs)" "node \<noteq> NULL" "h node = Some n"
  shows "\<exists>h1 h2 h3 h4. set_next h node (hdp bs NULL) = Some h1 \<and> set_prev h1 node (lastp NULL as) = Some h2 \<and>
    link_prev h2 (hdp bs NULL) node = Some h3 \<and> link_next h3 (lastp NULL as) node = Some h4 \<and>
    dll h4 NULL (as @ node # bs) NULL \<and> links_only (set (as @ node # bs)) h h4"
proof -
  define h2 where "h2 = h(node \<mapsto> n\<lparr>qn_next := hdp bs NULL, qn_prev := lastp NULL as\<rparr>)"
  have h12: "set_next h node (hdp bs NULL) = Some (h(node \<mapsto> n\<lparr>qn_next := hdp bs NULL\<rparr>))"
    "set_prev (h(node \<mapsto> n\<lparr>qn_next := hdp bs NULL\<rparr>)) node (lastp NULL as) = Some h2"
    using assms(4,5) by (simp_all add: set_next_def set_prev_def h2_def)
  have l2: "links_only {node} h h2" using assms(5) by (auto simp: links_only_def h2_def node_data_def)
  have d2: "dll h2 NULL as e" "dll h2 c bs NULL" using links_only_dll [OF l2] assms(1-3) by auto
  obtain h3 where h3: "link_prev h2 (hdp bs NULL) node = Some h3" "dll h3 node bs NULL" "links_only (set bs) h2 h3"
    using link_prev_dll [OF d2(2), of node] assms(3) by auto
  have "dll h3 NULL as e" using links_only_dll [OF h3(3) d2(1)] assms(3) by auto
  then obtain h4 where h4: "link_next h3 (lastp NULL as) node = Some h4" "dll h4 NULL as node" "links_only (set as) h3 h4"
    using link_next_dll [of h3 NULL as e node] assms(3) by auto
  have d4: "dll h4 node bs NULL" using links_only_dll [OF h4(3) h3(2)] assms(3) by auto
  have "h4 node = h2 node" using links_only_outside [OF h4(3)] links_only_outside [OF h3(3)] assms(3) by auto
  then have "dll h4 NULL (as @ node # bs) NULL" using h4(2) d4 assms(4) by (simp add: h2_def)
  moreover have "links_only (set (as @ node # bs)) h h4"
    using links_only_trans [OF links_only_trans [OF l2 h3(3)] h4(3)] by (rule links_only_mono) auto
  ultimately show ?thesis using h12 h3(1) h4(1) by blast
qed

text \<open>The same in the order of \<^verbatim>\<open>usedvmr_put\<close>.\<close>

lemma insert_chain_used:
  assumes "dll h NULL (as @ bs) NULL" "distinct (as @ node # bs)" "node \<noteq> NULL" "h node = Some n"
  shows "\<exists>h1 h2 h3 h4. set_next h node (hdp bs NULL) = Some h1 \<and> link_next h1 (lastp NULL as) node = Some h2 \<and>
    set_prev h2 node (lastp NULL as) = Some h3 \<and> link_prev h3 (hdp bs NULL) node = Some h4 \<and>
    dll h2 (lastp NULL as) bs NULL \<and> dll h1 (lastp NULL as) bs NULL \<and>
    dll h4 NULL (as @ node # bs) NULL \<and> links_only (set (as @ node # bs)) h h4"
proof -
  have d: "dll h NULL as (hdp bs NULL)" "dll h (lastp NULL as) bs NULL" using assms(1) by simp_all
  define h1 where "h1 = h(node \<mapsto> n\<lparr>qn_next := hdp bs NULL\<rparr>)"
  have s1: "set_next h node (hdp bs NULL) = Some h1" "links_only {node} h h1"
    using assms(3,4) by (auto simp: set_next_def h1_def links_only_def node_data_def)
  have d1: "dll h1 NULL as (hdp bs NULL)" "dll h1 (lastp NULL as) bs NULL" using links_only_dll [OF s1(2)] d assms(2) by auto
  obtain h2 where h2: "link_next h1 (lastp NULL as) node = Some h2" "dll h2 NULL as node" "links_only (set as) h1 h2"
    using link_next_dll [OF d1(1), of node] assms(2) by auto
  have n2: "h2 node = Some (n\<lparr>qn_next := hdp bs NULL\<rparr>)" using links_only_outside [OF h2(3), of node] assms(2) by (auto simp: h1_def)
  have d2: "dll h2 (lastp NULL as) bs NULL" using links_only_dll [OF h2(3) d1(2)] assms(2) by auto
  define h3 where "h3 = h2(node \<mapsto> n\<lparr>qn_next := hdp bs NULL, qn_prev := lastp NULL as\<rparr>)"
  have s3: "set_prev h2 node (lastp NULL as) = Some h3" "links_only {node} h2 h3"
    using assms(3) n2 by (auto simp: set_prev_def h3_def links_only_def node_data_def)
  have d3: "dll h3 NULL as node" "dll h3 (lastp NULL as) bs NULL" using links_only_dll [OF s3(2)] h2(2) d2 assms(2) by auto
  obtain h4 where h4: "link_prev h3 (hdp bs NULL) node = Some h4" "dll h4 node bs NULL" "links_only (set bs) h3 h4"
    using link_prev_dll [OF d3(2), of node] assms(2) by auto
  have "dll h4 NULL as node" using links_only_dll [OF h4(3) d3(1)] assms(2) by auto
  moreover have "h4 node = h3 node" using links_only_outside [OF h4(3), of node] assms(2) by auto
  ultimately have "dll h4 NULL (as @ node # bs) NULL" using h4(2) assms(3) by (simp add: h3_def)
  moreover have "links_only (set (as @ node # bs)) h h4"
    using links_only_trans [OF links_only_trans [OF links_only_trans [OF s1(2) h2(3)] s3(2)] h4(3)] by (rule links_only_mono) auto
  ultimately show ?thesis using s1(1) h2(1) s3(1) h4(1) d2 d1(2) by blast
qed

text \<open>What an operation leaves of the heap outside of some nodes.\<close>

lemma detached_node:
  assumes "node \<noteq> NULL" "h node = Some n" "dll h NULL ps NULL" "node \<notin> set ps"
  shows "\<exists>h1 h2. set_next h node NULL = Some h1 \<and> set_prev h1 node NULL = Some h2 \<and> dll h2 NULL ps NULL \<and>
    h2 node = Some (n\<lparr>qn_next := NULL, qn_prev := NULL\<rparr>) \<and> links_only {node} h h2"
proof -
  let ?h = "h(node \<mapsto> n\<lparr>qn_next := NULL, qn_prev := NULL\<rparr>)"
  have l: "links_only {node} h ?h" using assms(2) by (auto simp: links_only_def node_data_def)
  have "dll ?h NULL ps NULL" using links_only_dll [OF l assms(3)] assms(4) by auto
  then show ?thesis using assms(1,2) l by (simp add: set_next_def set_prev_def)
qed

lemma usedvmr_put_spec:
  assumes "vm_locked st" "usedvmr_list st = hdp us NULL" "dll (vm_nodes st) NULL us NULL" "distinct (node # us)"
    "node \<noteq> NULL" "vm_nodes st node = Some n"
  defines "as \<equiv> takeWhile (\<lambda>p. \<not> nd_base st node < nd_base st p) us" and "bs \<equiv> dropWhile (\<lambda>p. \<not> nd_base st node < nd_base st p) us"
  shows "\<exists>h'. usedvmr_put st node = Some (st\<lparr>vm_nodes := h', usedvmr_list := hdp (as @ node # bs) NULL\<rparr>) \<and>
    dll h' NULL (as @ node # bs) NULL \<and> links_only (set (node # us)) (vm_nodes st) h'"
proof -
  have us: "us = as @ bs" by (simp add: as_def bs_def)
  obtain g1 g2 where g: "set_next (vm_nodes st) node NULL = Some g1" "set_prev g1 node NULL = Some g2" "dll g2 NULL us NULL"
      "g2 node = Some (n\<lparr>qn_next := NULL, qn_prev := NULL\<rparr>)" "links_only {node} (vm_nodes st) g2"
    using detached_node [OF assms(5,6,3)] assms(4) by auto
  have sc: "vm_scan (\<lambda>p. \<not> nd_base st node < nd_base st p) g2 (hdp us NULL) NULL = Some (hdp bs NULL, lastp NULL as)"
    using vm_scan_chain [OF g(3)] by (simp add: as_def bs_def)
  have dist: "distinct (as @ node # bs)" using assms(4) us by auto
  obtain h1 h2 h3 h4 where h: "set_next g2 node (hdp bs NULL) = Some h1" "link_next h1 (lastp NULL as) node = Some h2"
      "set_prev h2 node (lastp NULL as) = Some h3" "link_prev h3 (hdp bs NULL) node = Some h4"
      "dll h2 (lastp NULL as) bs NULL" "dll h1 (lastp NULL as) bs NULL"
      "dll h4 NULL (as @ node # bs) NULL" "links_only (set (as @ node # bs)) g2 h4"
    using insert_chain_used [of g2 as bs node] g(3,4) us assms(5) dist by metis
  have lo: "links_only (set (node # us)) (vm_nodes st) h4"
    using links_only_trans [OF g(5) h(8)] by (rule links_only_mono) (auto simp: us)
  have dn: "dll g2 NULL as (hdp bs NULL)" using g(3) us by simp
  have nn: "lastp NULL as = NULL \<longleftrightarrow> as = []" using lastp_eq_iff [OF dn] .
  have "usedvmr_put st node = Some (st\<lparr>vm_nodes := h4, usedvmr_list := hdp (as @ node # bs) NULL\<rparr>)"
  proof (cases bs)
    case Nil
    have h1: "h1 = g2" using h(1) g(4) assms(5) Nil by (auto simp: set_next_def)
    have h4: "h4 = h3" using h(4) Nil by (simp add: link_prev_def)
    show ?thesis
    proof (cases "as = []")
      case True
      have "h2 = g2" "h3 = g2" using h(2,3) h1 True g(4) assms(5) by (auto simp: link_next_def set_prev_def)
      then show ?thesis using assms(1,2,5) g(1,2) sc Nil True h4 us by (simp add: usedvmr_put_def vm_assert_locked_def)
    next
      case False
      then have l: "lastp NULL as \<noteq> NULL" "set_next g2 (lastp NULL as) node = Some h2" using nn h(2) h1 by (simp_all add: link_next_def)
      have "usedvmr_list st = hdp (as @ node # bs) NULL" using assms(2) us Nil False by (cases as) simp_all
      then show ?thesis using assms(1,2,5) g(1,2) sc Nil l h(3) h4 by (simp add: usedvmr_put_def vm_assert_locked_def)
    qed
  next
    case (Cons b bs')
    have b: "b \<noteq> NULL" "\<exists>nd. h1 b = Some nd \<and> qn_prev nd = lastp NULL as" "\<exists>nd. h2 b = Some nd \<and> qn_prev nd = lastp NULL as"
      using h(5,6) Cons by auto
    have s4: "set_prev h3 b node = Some h4" using h(4) Cons b(1) by (simp add: link_prev_def)
    show ?thesis
    proof (cases "as = []")
      case True
      then have "h2 = h1" using h(2) by (simp add: link_next_def)
      then show ?thesis using assms(1,2,5) g(1,2) sc Cons b h(1,3) s4 True by (auto simp: usedvmr_put_def vm_assert_locked_def)
    next
      case False
      then have l: "lastp NULL as \<noteq> NULL" "set_next h1 (lastp NULL as) node = Some h2" using nn h(2) by (simp_all add: link_next_def)
      have "usedvmr_list st = hdp (as @ node # bs) NULL" using assms(2) us False by (cases as) simp_all
      then show ?thesis using assms(1,2,5) g(1,2) sc Cons b h(1,3) s4 l by (auto simp: usedvmr_put_def vm_assert_locked_def)
    qed
  qed
  then show ?thesis using h(7) lo by blast
qed

lemma free_node_get_spec:
  assumes "vm_locked st" "free_node_list st = hdp (p # ns) NULL" "dll (vm_nodes st) NULL (p # ns) NULL" "distinct (p # ns)"
  shows "\<exists>h'. free_node_get st = Some (p, st\<lparr>free_node_list := hdp ns NULL, vm_nodes := h',
      nd_base := (nd_base st)(p := 0), nd_size := (nd_size st)(p := 0)\<rparr>) \<and>
    dll h' NULL ns NULL \<and> h' p = Some \<lparr>qn_prev = NULL, qn_data = 0, qn_next = NULL\<rparr> \<and> (\<forall>x. x \<notin> set (p # ns) \<longrightarrow> h' x = vm_nodes st x)"
proof -
  obtain n where n: "p \<noteq> NULL" "vm_nodes st p = Some n" "qn_next n = hdp ns NULL" "dll (vm_nodes st) p ns NULL" using assms(3) by auto
  obtain h1 where h1: "link_prev (vm_nodes st) (hdp ns NULL) NULL = Some h1" "dll h1 NULL ns NULL" "links_only (set ns) (vm_nodes st) h1"
    using link_prev_dll [OF n(4), of NULL] assms(4) by auto
  define h' where "h' = h1(p \<mapsto> \<lparr>qn_prev = NULL, qn_data = 0, qn_next = NULL\<rparr>)"
  have p1: "h1 p = Some n" using links_only_outside [OF h1(3), of p] assms(4) n(2) by simp
  have "free_node_get st = Some (p, st\<lparr>free_node_list := hdp ns NULL, vm_nodes := h', nd_base := (nd_base st)(p := 0), nd_size := (nd_size st)(p := 0)\<rparr>)"
    using assms(1,2) n h1(1) p1 by (simp add: free_node_get_def vm_assert_locked_def zero_node_def h'_def Let_def)
  moreover have "dll h' NULL ns NULL" using h1(2) assms(4) by (auto simp: h'_def intro: dll_frame)
  moreover have "\<forall>x. x \<notin> set (p # ns) \<longrightarrow> h' x = vm_nodes st x" using links_only_outside [OF h1(3)] by (auto simp: h'_def)
  ultimately show ?thesis by (auto simp: h'_def)
qed

section \<open>Sorted lists of ranges\<close>

lemma sorted_split:
  assumes "sorted_wrt (\<lambda>p q. hi st p \<le> lo st q) us" "\<forall>p \<in> set us. lo st p < hi st p"
  shows "\<forall>p \<in> set (takeWhile (\<lambda>p. \<not> b < lo st p) us). lo st p \<le> b" "\<forall>p \<in> set (dropWhile (\<lambda>p. \<not> b < lo st p) us). b < lo st p"
proof -
  show "\<forall>p \<in> set (takeWhile (\<lambda>p. \<not> b < lo st p) us). lo st p \<le> b" by (auto dest: set_takeWhileD)
  show "\<forall>p \<in> set (dropWhile (\<lambda>p. \<not> b < lo st p) us). b < lo st p"
    using assms
  proof (induction us)
    case (Cons q us)
    show ?case
    proof (cases "b < lo st q")
      case True
      have "lo st q < lo st p" if "p \<in> set us" for p using Cons.prems that by (meson list.set_intros(1) order_less_le_trans sorted_wrt.simps(2))
      then show ?thesis using True by (simp add: less_trans)
    next
      case False
      have "sorted_wrt (\<lambda>p q. hi st p \<le> lo st q) us" "\<forall>p \<in> set us. lo st p < hi st p" using Cons.prems by simp_all
      from Cons.IH [OF this] False show ?thesis by (simp only: dropWhile.simps if_True not_False_eq_True)
    qed
  qed simp
qed

lemma sorted_place:
  assumes "sorted_wrt (\<lambda>p q. hi st p \<le> lo st q) (as @ bs)" "\<forall>p \<in> set (as @ bs). lo st p < hi st p" "lo st x < hi st x"
    "extent st x \<inter> cover st (as @ bs) = {}" "\<forall>p \<in> set as. lo st p \<le> lo st x" "\<forall>p \<in> set bs. lo st x < lo st p"
  shows "sorted_wrt (\<lambda>p q. hi st p \<le> lo st q) (as @ x # bs)"
proof -
  have "hi st p \<le> lo st x" if "p \<in> set as" for p
  proof (rule ccontr)
    assume "\<not> hi st p \<le> lo st x"
    then have "lo st x \<in> extent st p" "lo st x \<in> extent st x" using assms(3,5) that by (auto simp: extent_def)
    then show False using assms(4) that by (auto simp: cover_def)
  qed
  moreover have "hi st x \<le> lo st p" if "p \<in> set bs" for p
  proof (rule ccontr)
    assume "\<not> hi st x \<le> lo st p"
    then have "lo st p \<in> extent st p" "lo st p \<in> extent st x" using assms(2,6) that by (auto simp: extent_def less_imp_le)
    then show False using assms(4) that by (auto simp: cover_def)
  qed
  ultimately show ?thesis using assms(1) by (auto simp: sorted_wrt_append)
qed

text \<open>A range of addresses that is free lies in one node, because there is a gap between any two.\<close>

lemma contiguous_in_one:
  assumes "sorted_wrt (\<lambda>p q. hi st p < lo st q) fs" "{x ..< x + n} \<subseteq> cover st fs" "0 < n"
  shows "\<exists>p \<in> set fs. lo st p \<le> x \<and> x + n \<le> hi st p"
proof -
  have "x \<in> cover st fs" using assms(2,3) by auto
  then obtain p where p: "p \<in> set fs" "lo st p \<le> x" "x < hi st p" by (auto simp: cover_def extent_def)
  have "x + n \<le> hi st p"
  proof (rule ccontr)
    assume "\<not> x + n \<le> hi st p"
    then have "hi st p \<in> cover st fs" using assms(2) p(3) by auto
    then obtain q where q: "q \<in> set fs" "lo st q \<le> hi st p" "hi st p < hi st q" by (auto simp: cover_def extent_def)
    then have "p \<noteq> q" by auto
    then have "hi st p < lo st q \<or> hi st q < lo st p"
      using assms(1) p(1) q(1) by (metis (no_types, lifting) in_set_conv_nth nat_neq_iff sorted_wrt_nth_less)
    then show False using p q by auto
  qed
  then show ?thesis using p by blast
qed

text \<open>The first node that is large enough holds the lowest address at which the range fits.\<close>

lemma first_node_lowest:
  assumes "sorted_wrt (\<lambda>p q. hi st p < lo st q) (as @ p # bs)" "\<forall>q \<in> set as. hi st q - lo st q < n" "lo st p + n \<le> hi st p" "0 < n"
    "\<forall>q \<in> set (as @ p # bs). lo st q < hi st q"
  shows "{lo st p ..< lo st p + n} \<subseteq> cover st (as @ p # bs)" "{x ..< x + n} \<subseteq> cover st (as @ p # bs) \<Longrightarrow> lo st p \<le> x"
proof -
  show "{lo st p ..< lo st p + n} \<subseteq> cover st (as @ p # bs)" using assms(3) by (auto simp: extent_def)
  assume "{x ..< x + n} \<subseteq> cover st (as @ p # bs)"
  then obtain q where q: "q \<in> set (as @ p # bs)" "lo st q \<le> x" "x + n \<le> hi st q"
    using contiguous_in_one [OF assms(1)] assms(4) by blast
  then have "q \<notin> set as" using assms(2) by auto
  then have "q = p \<or> hi st p < lo st q" using q(1) assms(1) by (auto simp: sorted_wrt_append)
  then show "lo st p \<le> x" using q(2) assms(5) by auto
qed

section \<open>Allocation\<close>

lemma vm_shapeD:
  assumes "vm_shape st fs us ns"
  shows "freevmr_list st = hdp fs NULL" "usedvmr_list st = hdp us NULL" "free_node_list st = hdp ns NULL"
    "dll (vm_nodes st) NULL fs NULL" "dll (vm_nodes st) NULL us NULL" "dll (vm_nodes st) NULL ns NULL" "distinct (fs @ us @ ns)"
  using assms by (simp_all add: vm_shape_def)

lemma usedvmr_put_inv:
  assumes "vm_locked st" "vm_shape st fs us ns" "x \<notin> set (fs @ us @ ns)" "x \<noteq> NULL" "vm_nodes st x = Some n"
    "\<forall>p \<in> set us. proper st p" "proper st x" "sorted_wrt (\<lambda>p q. hi st p \<le> lo st q) us" "extent st x \<inter> cover st us = {}"
  shows "\<exists>h' l' us'. usedvmr_put st x = Some (st\<lparr>vm_nodes := h', usedvmr_list := l'\<rparr>) \<and>
    vm_shape (st\<lparr>vm_nodes := h', usedvmr_list := l'\<rparr>) fs us' ns \<and> mset us' = add_mset x (mset us) \<and>
    sorted_wrt (\<lambda>p q. hi st p \<le> lo st q) us'"
proof -
  note sh = vm_shapeD [OF assms(2)]
  let ?P = "\<lambda>p. \<not> nd_base st x < nd_base st p"
  have eq: "?P = (\<lambda>p. \<not> lo st x < lo st p)" by (simp add: lo_def word_less_nat_alt)
  define as where "as = takeWhile ?P us"
  define bs where "bs = dropWhile ?P us"
  have us: "us = as @ bs" by (simp add: as_def bs_def)
  obtain h' where h': "usedvmr_put st x = Some (st\<lparr>vm_nodes := h', usedvmr_list := hdp (as @ x # bs) NULL\<rparr>)"
      "dll h' NULL (as @ x # bs) NULL" "links_only (set (x # us)) (vm_nodes st) h'"
    using usedvmr_put_spec [OF assms(1) sh(2,5) _ assms(4,5)] assms(3) sh(7) unfolding as_def bs_def by auto
  have "dll h' NULL fs NULL" using links_only_dll [OF h'(3) sh(4)] sh(7) assms(3) by auto
  moreover have "dll h' NULL ns NULL" using links_only_dll [OF h'(3) sh(6)] sh(7) assms(3) by auto
  ultimately have "vm_shape (st\<lparr>vm_nodes := h', usedvmr_list := hdp (as @ x # bs) NULL\<rparr>) fs (as @ x # bs) ns"
    using sh h'(2) assms(3) us by (auto simp: vm_shape_def)
  moreover have "\<forall>p \<in> set us. lo st p < hi st p" using assms(6) by (simp add: proper_def)
  then have "sorted_wrt (\<lambda>p q. hi st p \<le> lo st q) (as @ x # bs)"
  proof -
    have "\<forall>p \<in> set as. lo st p \<le> lo st x" "\<forall>p \<in> set bs. lo st x < lo st p"
      using sorted_split [OF assms(8) \<open>\<forall>p \<in> set us. lo st p < hi st p\<close>, of "lo st x"] unfolding as_def bs_def eq .
    then show ?thesis using sorted_place [of st as bs x] assms(7-9) \<open>\<forall>p \<in> set us. lo st p < hi st p\<close> us by (simp add: proper_def)
  qed
  moreover have "mset (as @ x # bs) = add_mset x (mset us)" using us by simp
  ultimately show ?thesis using h'(1) by blast
qed

text \<open>Unlinking a free node that is used up.\<close>

lemma unlink_free:
  assumes "vm_shape st (as @ p # bs) us ns"
  shows "\<exists>nd h1 h2. vm_nodes st p = Some nd \<and> p \<noteq> NULL \<and> link_prev (vm_nodes st) (qn_next nd) (qn_prev nd) = Some h1 \<and>
    link_next h1 (qn_prev nd) (qn_next nd) = Some h2 \<and> h2 p = Some nd \<and>
    vm_shape (st\<lparr>vm_nodes := h2, freevmr_list := (if qn_prev nd \<noteq> NULL then freevmr_list st else qn_next nd)\<rparr>) (as @ bs) us ns"
proof -
  note sh = vm_shapeD [OF assms]
  obtain nd where nd: "p \<noteq> NULL" "vm_nodes st p = Some nd" "qn_prev nd = lastp NULL as" "qn_next nd = hdp bs NULL"
      "dll (vm_nodes st) NULL as p" "dll (vm_nodes st) p bs NULL"
    using sh(4) by auto
  obtain h1 h2 where h: "link_prev (vm_nodes st) (hdp bs NULL) (lastp NULL as) = Some h1" "link_next h1 (lastp NULL as) (hdp bs NULL) = Some h2"
      "dll h2 NULL as (hdp bs NULL)" "dll h2 (lastp NULL as) bs NULL" "links_only (set as \<union> set bs) (vm_nodes st) h2"
  proof -
    have "distinct (as @ bs)" using sh(7) by auto
    from join_dll_rev [OF nd(5,6) this] that show thesis by blast
  qed
  have "dll h2 NULL us NULL" using links_only_dll [OF h(5) sh(5)] sh(7) by auto
  moreover have "dll h2 NULL ns NULL" using links_only_dll [OF h(5) sh(6)] sh(7) by auto
  moreover have "(if qn_prev nd \<noteq> NULL then freevmr_list st else qn_next nd) = hdp (as @ bs) NULL"
    using sh(1) nd(3,4) lastp_eq_iff [OF nd(5)] by (cases as) auto
  ultimately have "vm_shape (st\<lparr>vm_nodes := h2, freevmr_list := (if qn_prev nd \<noteq> NULL then freevmr_list st else qn_next nd)\<rparr>) (as @ bs) us ns"
    using sh h(3,4) by (simp add: vm_shape_def)
  moreover have "h2 p = Some nd" using links_only_outside [OF h(5), of p] nd(2) sh(7) by auto
  ultimately show ?thesis using nd h by auto
qed

lemma freevmr_get_spec:
  assumes "vm_locked st" "vm_shape st fs us ns" "sz \<noteq> 0"
  shows "freevmr_get st sz = Some (case List.find (\<lambda>p. nd_size st p \<ge> sz) fs of Some p \<Rightarrow> (0, p) | None \<Rightarrow> (- ENOMEM, NULL))"
  using assms(1,3) vm_shapeD [OF assms(2)] find_loop_dll [of "vm_nodes st" NULL fs "\<lambda>p _. nd_size st p \<ge> sz"]
  by (simp add: freevmr_get_def vm_assert_locked_def)

definition owned :: "vmm \<Rightarrow> addr list \<Rightarrow> (u64 \<times> u64) set" where
  "owned st us = (\<lambda>p. (nd_base st p, nd_size st p)) ` set us"

text \<open>What an allocation of \<open>[a, a + sz)\<close> does to the ranges.\<close>

definition allocated :: "vmm \<Rightarrow> addr list \<Rightarrow> addr list \<Rightarrow> u64 \<Rightarrow> u64 \<Rightarrow> vmm \<Rightarrow> addr list \<Rightarrow> addr list \<Rightarrow> bool" where
  "allocated st fs us a sz st' fs' us' \<longleftrightarrow> cover st' fs' = cover st fs - {unat a ..< unat a + unat sz} \<and>
     cover st' us' = cover st us \<union> {unat a ..< unat a + unat sz} \<and> owned st' us' = insert (a, sz) (owned st us)"

lemma sum_list_add_mset:
  fixes f :: "'a \<Rightarrow> u64"
  assumes "mset us' = add_mset x (mset us)"
  shows "sum_list (map f us') = f x + sum_list (map f us)"
proof -
  have "sum_list (map f us') = sum_mset (image_mset f (mset us'))" by (simp only: sum_mset_sum_list [symmetric] mset_map)
  also have "\<dots> = f x + sum_mset (image_mset f (mset us))" using assms by simp
  finally show ?thesis by (simp only: sum_mset_sum_list [symmetric] mset_map)
qed

lemma sorted_extents_disjoint:
  assumes "sorted_wrt (\<lambda>p q. hi st p < lo st q) (as @ p # bs)" "\<forall>q \<in> set (as @ p # bs). lo st q < hi st q"
  shows "extent st p \<inter> cover st (as @ bs) = {}"
proof -
  have "extent st p \<inter> extent st q = {}" if "q \<in> set (as @ bs)" for q
    using assms(1) that by (auto simp: sorted_wrt_append extent_def)
  then show ?thesis by (auto simp: cover_def)
qed

lemma take_range_spec:
  assumes "vm_locked st" "vm_shape st (as @ p # bs) us ns" "vm_ranges st (as @ p # bs) us"
  shows "\<exists>st' us'. take_range st p = Some (nd_base st p, st') \<and> vm_locked st' \<and> vm_ready st' = vm_ready st \<and>
    vm_shape st' (as @ bs) us' ns \<and> used_memsz st' = used_memsz st \<and>
    vm_ranges (st'\<lparr>used_memsz := used_memsz st + nd_size st p\<rparr>) (as @ bs) us' \<and>
    allocated st (as @ p # bs) us (nd_base st p) (nd_size st p) st' (as @ bs) us'"
proof -
  note sh = vm_shapeD [OF assms(2)]
  have rg: "\<forall>q \<in> set (as @ p # bs @ us). proper st q" "sorted_wrt (\<lambda>p q. hi st p < lo st q) (as @ p # bs)"
      "sorted_wrt (\<lambda>p q. hi st p \<le> lo st q) us" "cover st (as @ p # bs) \<inter> cover st us = {}" "used_memsz st = sum_list (map (nd_size st) us)"
    using assms(3) by (auto simp: vm_ranges_def)
  obtain nd h1 h2 where u: "vm_nodes st p = Some nd" "p \<noteq> NULL" "link_prev (vm_nodes st) (qn_next nd) (qn_prev nd) = Some h1"
      "link_next h1 (qn_prev nd) (qn_next nd) = Some h2" "h2 p = Some nd"
      "vm_shape (st\<lparr>vm_nodes := h2, freevmr_list := (if qn_prev nd \<noteq> NULL then freevmr_list st else qn_next nd)\<rparr>) (as @ bs) us ns"
    using unlink_free [OF assms(2)] by blast
  define st1 where "st1 = st\<lparr>vm_nodes := h2, freevmr_list := (if qn_prev nd \<noteq> NULL then freevmr_list st else qn_next nd)\<rparr>"
  have ex: "lo st1 = lo st" "hi st1 = hi st" "nd_base st1 = nd_base st" "nd_size st1 = nd_size st" "proper st1 = proper st" "extent st1 = extent st" "cover st1 = cover st"
    by (auto simp: st1_def lo_def hi_def proper_def extent_def cover_def fun_eq_iff)
  obtain h' l' us' where r: "usedvmr_put st1 p = Some (st1\<lparr>vm_nodes := h', usedvmr_list := l'\<rparr>)"
      "vm_shape (st1\<lparr>vm_nodes := h', usedvmr_list := l'\<rparr>) (as @ bs) us' ns" "mset us' = add_mset p (mset us)"
      "sorted_wrt (\<lambda>p q. hi st p \<le> lo st q) us'"
    using usedvmr_put_inv [of st1 "as @ bs" us ns p nd] u assms(1) sh(7) rg ex by (auto simp: st1_def)
  define st' where "st' = st1\<lparr>vm_nodes := h', usedvmr_list := l'\<rparr>"
  have ex': "lo st' = lo st" "hi st' = hi st" "nd_base st' = nd_base st" "nd_size st' = nd_size st" "proper st' = proper st" "extent st' = extent st" "cover st' = cover st"
    by (auto simp: st'_def st1_def lo_def hi_def proper_def extent_def cover_def fun_eq_iff)
  have "take_range st p = Some (nd_base st p, st')"
    using u r(1) by (simp add: take_range_def Let_def st1_def [symmetric] ex st'_def)
  moreover have set': "set us' = insert p (set us)" using r(3) by (metis set_mset_add_mset_insert set_mset_mset)
  have disj: "extent st p \<inter> cover st (as @ bs) = {}"
    using sorted_extents_disjoint [OF rg(2)] rg(1) by (auto simp: proper_def)
  have cov: "cover st us' = cover st us \<union> extent st p" using set' by (auto simp: cover_def)
  have "vm_ranges (st'\<lparr>used_memsz := used_memsz st + nd_size st p\<rparr>) (as @ bs) us'"
  proof -
    have "sum_list (map (nd_size st) us') = used_memsz st + nd_size st p" using sum_list_add_mset [OF r(3)] rg(5) by (simp add: add.commute)
    moreover have "sorted_wrt (\<lambda>p q. hi st p < lo st q) (as @ bs)" using rg(2) by (simp add: sorted_wrt_append)
    moreover have "cover st (as @ bs) \<inter> cover st us' = {}" using rg(4) disj cov by auto
    ultimately show ?thesis using rg(1) r(4) set' ex'
      by (auto simp: vm_ranges_def proper_def lo_def hi_def extent_def cover_def)
  qed
  moreover have "allocated st (as @ p # bs) us (nd_base st p) (nd_size st p) st' (as @ bs) us'"
    using disj cov ex' set' by (auto simp: allocated_def owned_def extent_def lo_def hi_def)
  ultimately show ?thesis using r(2) assms(1) by (auto simp: st'_def st1_def)
qed

text \<open>Cutting \<open>sz\<close> bytes off the front of a free range \<open>p\<close>, into a node \<open>x\<close>.\<close>

lemma cut_extents:
  assumes "proper st p" "sz < nd_size st p" "sz \<noteq> 0" "x \<noteq> p"
    "nd_base st' = (nd_base st)(x := nd_base st p, p := nd_base st p + sz)" "nd_size st' = (nd_size st)(x := sz, p := nd_size st p - sz)"
  shows "lo st' p = lo st p + unat sz" "hi st' p = hi st p" "lo st' x = lo st p" "hi st' x = lo st p + unat sz"
    "q \<noteq> p \<Longrightarrow> q \<noteq> x \<Longrightarrow> lo st' q = lo st q \<and> hi st' q = hi st q"
    "proper st' p" "proper st' x" "extent st' x \<union> extent st' p = extent st p" "extent st' x \<inter> extent st' p = {}"
proof -
  have sz: "0 < unat sz" "unat sz < unat (nd_size st p)" using assms(2,3) by (simp_all add: word_less_nat_alt unat_gt_0)
  have b: "unat (nd_base st p) + unat (nd_size st p) < 2 ^ 64" using assms(1) by (simp add: proper_def hi_def)
  have a: "unat (nd_base st p + sz) = unat (nd_base st p) + unat sz" using b sz by (intro unat_add_bounded) simp
  have d: "unat (nd_size st p - sz) = unat (nd_size st p) - unat sz" using assms(2) by (intro unat_sub_bounded) simp
  show e: "lo st' p = lo st p + unat sz" "hi st' p = hi st p" "lo st' x = lo st p" "hi st' x = lo st p + unat sz"
    using assms(4-6) a d sz by (simp_all add: lo_def hi_def)
  show "q \<noteq> p \<Longrightarrow> q \<noteq> x \<Longrightarrow> lo st' q = lo st q \<and> hi st' q = hi st q" using assms(5,6) by (simp add: lo_def hi_def)
  have h: "lo st p + unat sz < hi st p" using sz by (simp add: lo_def hi_def)
  then show "proper st' p" "proper st' x" using assms(1) e sz by (simp_all add: proper_def)
  show "extent st' x \<union> extent st' p = extent st p" "extent st' x \<inter> extent st' p = {}"
    using e h by (auto simp: extent_def)
qed

text \<open>The ranges depend on the members of the nodes only.\<close>

lemma ranges_cong:
  assumes "nd_base st' = nd_base st" "nd_size st' = nd_size st"
  shows "lo st' = lo st" "hi st' = hi st" "proper st' = proper st" "extent st' = extent st" "cover st' = cover st" "owned st' = owned st"
    "used_memsz st' = used_memsz st \<Longrightarrow> vm_ranges st' = vm_ranges st" "allocated s fs us a sz st' = allocated s fs us a sz st"
proof -
  show e: "lo st' = lo st" "hi st' = hi st" using assms by (simp_all add: lo_def hi_def fun_eq_iff)
  then show p: "proper st' = proper st" and x: "extent st' = extent st" by (simp_all add: proper_def extent_def fun_eq_iff)
  then show c: "cover st' = cover st" and o: "owned st' = owned st" using assms by (simp_all add: cover_def owned_def fun_eq_iff)
  show "used_memsz st' = used_memsz st \<Longrightarrow> vm_ranges st' = vm_ranges st" using e p c assms by (intro ext) (simp add: vm_ranges_def)
  show "allocated s fs us a sz st' = allocated s fs us a sz st" using c o by (simp add: allocated_def fun_eq_iff)
qed

lemma cut_same:
  assumes "nd_base st' = (nd_base st)(x := b, p := c)" "nd_size st' = (nd_size st)(x := d, p := e)" "q \<noteq> p" "q \<noteq> x"
  shows "lo st' q = lo st q" "hi st' q = hi st q" "extent st' q = extent st q" "proper st' q = proper st q" "nd_base st' q = nd_base st q" "nd_size st' q = nd_size st q"
  using assms by (simp_all add: lo_def hi_def extent_def proper_def)

lemma ranges_after_cut:
  assumes "vm_ranges st (as @ p # bs) us" "distinct (as @ p # bs @ us)" "x \<notin> set (as @ p # bs @ us)" "sz < nd_size st p" "sz \<noteq> 0"
    "nd_base st' = (nd_base st)(x := nd_base st p, p := nd_base st p + sz)" "nd_size st' = (nd_size st)(x := sz, p := nd_size st p - sz)"
    "mset us' = add_mset x (mset us)" "sorted_wrt (\<lambda>p q. hi st' p \<le> lo st' q) us'" "used_memsz st' = used_memsz st + sz"
  shows "vm_ranges st' (as @ p # bs) us'" "allocated st (as @ p # bs) us (nd_base st p) sz st' (as @ p # bs) us'"
proof -
  let ?fs = "as @ p # bs"
  have rg: "\<forall>q \<in> set (?fs @ us). proper st q" "sorted_wrt (\<lambda>p q. hi st p < lo st q) ?fs"
      "cover st ?fs \<inter> cover st us = {}" "used_memsz st = sum_list (map (nd_size st) us)"
    using assms(1) by (auto simp: vm_ranges_def)
  have x: "x \<noteq> p" "p \<notin> set us" using assms(2,3) by auto
  have pp: "proper st p" using rg(1) by simp
  note ce = cut_extents [OF pp assms(4,5) x(1) assms(6,7)]
  have same: "lo st' q = lo st q" "hi st' q = hi st q" "extent st' q = extent st q" "proper st' q = proper st q"
      "nd_base st' q = nd_base st q" "nd_size st' q = nd_size st q" if "q \<in> set (as @ bs @ us)" for q
  proof -
    have "q \<noteq> p" "q \<noteq> x" using that assms(2,3) by auto
    from cut_same [OF assms(6,7) this] show "lo st' q = lo st q" "hi st' q = hi st q" "extent st' q = extent st q" "proper st' q = proper st q"
      "nd_base st' q = nd_base st q" "nd_size st' q = nd_size st q" .
  qed
  have us': "set us' = insert x (set us)" using assms(8) by (metis set_mset_add_mset_insert set_mset_mset)
  have cu: "cover st' us' = cover st us \<union> extent st' x" using same us' by (auto simp: cover_def)
  have cf: "cover st' ?fs = cover st (as @ bs) \<union> extent st' p" using same by (auto simp: cover_def)
  have c0: "cover st ?fs = cover st (as @ bs) \<union> extent st p" by auto
  have dj: "extent st p \<inter> cover st (as @ bs) = {}" using sorted_extents_disjoint [OF rg(2)] rg(1) by (auto simp: proper_def)
  have xr: "extent st' x = {unat (nd_base st p) ..< unat (nd_base st p) + unat sz}" using ce(3,4) by (simp add: extent_def lo_def)
  have "sum_list (map (nd_size st') us') = used_memsz st + sz"
  proof -
    have m: "map (nd_size st') us = map (nd_size st) us" using same(6) by (intro map_cong) simp_all
    have "nd_size st' x = sz" using assms(7) x(1) by simp
    then show ?thesis using sum_list_add_mset [OF assms(8), of "nd_size st'"] rg(4) unfolding m by (simp add: add.commute)
  qed
  moreover have "\<forall>q \<in> set (?fs @ us'). proper st' q" using rg(1) same(4) ce(6,7) us' by auto
  moreover have "sorted_wrt (\<lambda>p q. hi st' p < lo st' q) ?fs"
    using rg(2) same(1,2) ce(1,2) by (auto simp: sorted_wrt_append intro: sorted_wrt_mono_rel [rotated])
  moreover have "cover st' ?fs \<inter> cover st' us' = {}" using cu cf c0 rg(3) ce(8,9) dj by blast
  ultimately show "vm_ranges st' ?fs us'" using assms(9,10) by (simp add: vm_ranges_def)
  have "cover st' ?fs = cover st ?fs - extent st' x" using cf c0 ce(8,9) dj by blast
  moreover have "owned st' us' = insert (nd_base st p, sz) (owned st us)" using us' same(5,6) assms(6,7) x(1) by (auto simp: owned_def)
  ultimately show "allocated st ?fs us (nd_base st p) sz st' ?fs us'" using cu xr by (simp add: allocated_def)
qed

lemma split_range_spec:
  assumes "vm_locked st" "vm_shape st (as @ p # bs) us (x # ns)" "vm_ranges st (as @ p # bs) us" "sz < nd_size st p" "sz \<noteq> 0"
  shows "\<exists>st' us'. split_range st p sz = Some (nd_base st p, st') \<and> vm_locked st' \<and> vm_ready st' = vm_ready st \<and>
    vm_shape st' (as @ p # bs) us' ns \<and> used_memsz st' = used_memsz st \<and>
    vm_ranges (st'\<lparr>used_memsz := used_memsz st + sz\<rparr>) (as @ p # bs) us' \<and>
    allocated st (as @ p # bs) us (nd_base st p) sz st' (as @ p # bs) us'"
proof -
  let ?fs = "as @ p # bs"
  note sh = vm_shapeD [OF assms(2)]
  obtain h1 where g: "free_node_get st = Some (x, st\<lparr>free_node_list := hdp ns NULL, vm_nodes := h1,
        nd_base := (nd_base st)(x := 0), nd_size := (nd_size st)(x := 0)\<rparr>)"
      "dll h1 NULL ns NULL" "h1 x = Some \<lparr>qn_prev = NULL, qn_data = 0, qn_next = NULL\<rparr>" "\<forall>y. y \<notin> set (x # ns) \<longrightarrow> h1 y = vm_nodes st y"
    using free_node_get_spec [OF assms(1) sh(3,6)] sh(7) by auto
  have x: "x \<noteq> NULL" "x \<noteq> p" "x \<notin> set (?fs @ us)" "x \<notin> set (?fs @ us @ ns)" using sh(6,7) by auto
  define st1 where "st1 = st\<lparr>free_node_list := hdp ns NULL, vm_nodes := h1,
    nd_base := (nd_base st)(x := nd_base st p, p := nd_base st p + sz), nd_size := (nd_size st)(x := sz, p := nd_size st p - sz)\<rparr>"
  have cut: "nd_base st1 = (nd_base st)(x := nd_base st p, p := nd_base st p + sz)" "nd_size st1 = (nd_size st)(x := sz, p := nd_size st p - sz)"
    by (simp_all add: st1_def)
  have "\<forall>q \<in> set ?fs. h1 q = vm_nodes st q" "\<forall>q \<in> set us. h1 q = vm_nodes st q" using g(4) sh(7) by auto
  then have shape1: "vm_shape st1 ?fs us ns"
    using sh g(2) dll_frame [OF sh(4)] dll_frame [OF sh(5)] by (simp add: vm_shape_def st1_def)
  have rg: "\<forall>q \<in> set (?fs @ us). proper st q" "sorted_wrt (\<lambda>p q. hi st p \<le> lo st q) us" "cover st ?fs \<inter> cover st us = {}"
    using assms(3) by (auto simp: vm_ranges_def)
  have same: "lo st1 q = lo st q" "hi st1 q = hi st q" "extent st1 q = extent st q" "proper st1 q = proper st q" if "q \<in> set us" for q
    using cut_same [OF cut, of q] that x sh(7) by auto
  have ce: "proper st1 x" "extent st1 x \<subseteq> extent st p" using cut_extents(7,8) [OF _ assms(4,5) x(2) cut] rg(1) by auto
  obtain h' l' us' where r: "usedvmr_put st1 x = Some (st1\<lparr>vm_nodes := h', usedvmr_list := l'\<rparr>)"
      "vm_shape (st1\<lparr>vm_nodes := h', usedvmr_list := l'\<rparr>) ?fs us' ns" "mset us' = add_mset x (mset us)"
      "sorted_wrt (\<lambda>p q. hi st1 p \<le> lo st1 q) us'"
  proof -
    have "extent st1 x \<inter> cover st1 us = {}" using ce(2) rg(3) same(3) by (fastforce simp: cover_def)
    moreover have "sorted_wrt (\<lambda>p q. hi st1 p \<le> lo st1 q) us" using rg(2) same(1,2) by (auto intro: sorted_wrt_mono_rel [rotated])
    ultimately show thesis using usedvmr_put_inv [OF _ shape1 x(4,1), of "\<lparr>qn_prev = NULL, qn_data = 0, qn_next = NULL\<rparr>"] that g(3) ce(1) rg(1) same(4) assms(1)
      by (auto simp: st1_def)
  qed
  define st' where "st' = st1\<lparr>vm_nodes := h', usedvmr_list := l'\<rparr>"
  have "split_range st p sz = Some (nd_base st p, st')"
    unfolding split_range_def using g(1) r(1) x(1,2) by (simp add: Let_def st1_def st'_def fun_upd_twist)
  moreover have "vm_ranges (st'\<lparr>used_memsz := used_memsz st + sz\<rparr>) ?fs us'" "allocated st ?fs us (nd_base st p) sz (st'\<lparr>used_memsz := used_memsz st + sz\<rparr>) ?fs us'"
  proof -
    have "sorted_wrt (\<lambda>p q. hi (st'\<lparr>used_memsz := used_memsz st + sz\<rparr>) p \<le> lo (st'\<lparr>used_memsz := used_memsz st + sz\<rparr>) q) us'"
      using r(4) ranges_cong(1,2) [of "st'\<lparr>used_memsz := used_memsz st + sz\<rparr>" st1] by (simp add: st'_def)
    from ranges_after_cut [OF assms(3) _ _ assms(4,5) _ _ r(3) this] sh(7) x(3) cut
    show "vm_ranges (st'\<lparr>used_memsz := used_memsz st + sz\<rparr>) ?fs us'"
      "allocated st ?fs us (nd_base st p) sz (st'\<lparr>used_memsz := used_memsz st + sz\<rparr>) ?fs us'" by (auto simp: st'_def)
  qed
  moreover have "vm_locked st'" "vm_ready st' = vm_ready st" "used_memsz st' = used_memsz st" using assms(1) by (simp_all add: st'_def st1_def)
  ultimately show ?thesis using r(2) ranges_cong(8) [of "st'\<lparr>used_memsz := used_memsz st + sz\<rparr>" st'] by (auto simp: st'_def)
qed

text \<open>The lock and the counter do not matter for the chains and the ranges.\<close>

lemma vm_shape_cong:
  assumes "freevmr_list st' = freevmr_list st" "usedvmr_list st' = usedvmr_list st" "free_node_list st' = free_node_list st" "vm_nodes st' = vm_nodes st"
  shows "vm_shape st' = vm_shape st"
  using assms by (intro ext) (simp add: vm_shape_def)

definition fits :: "vmm \<Rightarrow> addr list \<Rightarrow> nat \<Rightarrow> nat \<Rightarrow> bool" where
  "fits st fs n x \<longleftrightarrow> {x ..< x + n} \<subseteq> cover st fs"

lemma vm_alloc_fits:
  assumes "vm_inv st fs us (x # ns)" "sz \<noteq> 0" "List.find (\<lambda>p. nd_size st p \<ge> sz) fs = Some p"
  shows "\<exists>st' fs' us' ns'. vm_alloc env st sz = Some (0, Some (nd_base st p), st') \<and> vm_inv st' fs' us' ns' \<and>
    allocated st fs us (nd_base st p) sz st' fs' us' \<and> (length ns' = length ns \<or> length ns' = Suc (length ns)) \<and>
    fits st fs (unat sz) (unat (nd_base st p)) \<and> (\<forall>y. fits st fs (unat sz) y \<longrightarrow> unat (nd_base st p) \<le> y)"
proof -
  obtain as bs where fs: "fs = as @ p # bs" "sz \<le> nd_size st p" "\<forall>q \<in> set as. \<not> sz \<le> nd_size st q" using find_split [OF assms(3)] by blast
  let ?st = "st\<lparr>vm_locked := True\<rparr>"
  have inv: "vm_ready st" "\<not> vm_locked st" "vm_shape ?st fs us (x # ns)" "vm_ranges ?st fs us"
    using assms(1) vm_shape_cong [of ?st st] ranges_cong(7) [of ?st st] by (simp_all add: vm_inv_def)
  have rng: "sorted_wrt (\<lambda>p q. hi st p < lo st q) fs" "\<forall>q \<in> set fs. lo st q < hi st q"
    using assms(1) by (auto simp: vm_inv_def vm_ranges_def proper_def)
  have get: "freevmr_get ?st sz = Some (0, p)"
    using freevmr_get_spec [OF _ inv(3) assms(2)] assms(3) by simp
  define cutp where "cutp = (if nd_size st p > sz then split_range ?st p sz else take_range ?st p)"
  have "\<exists>st1 fs' us' ns'. cutp = Some (nd_base st p, st1) \<and> vm_locked st1 \<and> vm_ready st1 \<and> vm_shape st1 fs' us' ns' \<and>
      used_memsz st1 = used_memsz st \<and> vm_ranges (st1\<lparr>used_memsz := used_memsz st + sz\<rparr>) fs' us' \<and>
      allocated ?st fs us (nd_base st p) sz st1 fs' us' \<and> (length ns' = length ns \<or> length ns' = Suc (length ns))"
  proof (cases "sz < nd_size st p")
    case True
    then show ?thesis using split_range_spec [of ?st as p bs us x ns sz] inv assms(2) fs by (simp add: cutp_def) blast
  next
    case False
    then have "nd_size st p = sz" using fs(2) by simp
    then show ?thesis using take_range_spec [of ?st as p bs us "x # ns"] inv fs by (simp add: cutp_def) (metis length_Cons)
  qed
  then obtain st1 fs' us' ns' where c: "cutp = Some (nd_base st p, st1)" "vm_locked st1" "vm_ready st1" "vm_shape st1 fs' us' ns'"
      "used_memsz st1 = used_memsz st" "vm_ranges (st1\<lparr>used_memsz := used_memsz st + sz\<rparr>) fs' us'"
      "allocated ?st fs us (nd_base st p) sz st1 fs' us'" "length ns' = length ns \<or> length ns' = Suc (length ns)" by blast
  define st' where "st' = st1\<lparr>used_memsz := used_memsz st + sz, vm_locked := False\<rparr>"
  have cut: "(if nd_size st p > sz then split_range ?st p sz else if nd_size st p = sz then take_range ?st p else None) = Some (nd_base st p, st1)"
    using c(1) fs(2) by (auto simp: cutp_def)
  have "vm_alloc env st sz = Some (0, Some (nd_base st p), st')"
    using inv(1,2) get cut c(2,5) by (auto simp: vm_alloc_def vm_lock_def vm_unlock_def st'_def split: if_splits)
  moreover have "vm_inv st' fs' us' ns'"
    using c(3,4,6) vm_shape_cong [of st' st1] ranges_cong(7) [of st' "st1\<lparr>used_memsz := used_memsz st + sz\<rparr>"] by (simp add: vm_inv_def st'_def)
  moreover have "allocated st fs us (nd_base st p) sz st' fs' us'"
    using c(7) ranges_cong(5,6) [of ?st st] ranges_cong(5,6) [of st' st1] by (simp add: allocated_def st'_def)
  moreover have "\<forall>q \<in> set as. hi st q - lo st q < unat sz" "lo st p + unat sz \<le> hi st p" "0 < unat sz"
    using fs(2,3) assms(2) by (simp_all add: hi_def lo_def word_le_nat_alt unat_gt_0 not_le)
  then have "fits st fs (unat sz) (unat (nd_base st p)) \<and> (\<forall>y. fits st fs (unat sz) y \<longrightarrow> unat (nd_base st p) \<le> y)"
    using first_node_lowest [of st as p bs "unat sz"] rng fs(1) by (simp add: fits_def lo_def [symmetric])
  ultimately show ?thesis using c(8) by blast
qed

lemma vm_alloc_full:
  assumes "vm_inv st fs us ns" "sz \<noteq> 0" "List.find (\<lambda>p. nd_size st p \<ge> sz) fs = None"
  shows "vm_alloc env st sz = Some (- ENOMEM, None, st)" "\<not> fits st fs (unat sz) y"
proof -
  let ?st = "st\<lparr>vm_locked := True\<rparr>"
  have inv: "vm_ready st" "\<not> vm_locked st" "vm_shape ?st fs us ns" using assms(1) vm_shape_cong [of ?st st] by (simp_all add: vm_inv_def)
  have "freevmr_get ?st sz = Some (- ENOMEM, NULL)" using freevmr_get_spec [OF _ inv(3) assms(2)] assms(3) by simp
  then show "vm_alloc env st sz = Some (- ENOMEM, None, st)"
    using inv(1,2) by (simp add: vm_alloc_def vm_lock_def vm_unlock_def)
  have small: "\<forall>q \<in> set fs. \<not> sz \<le> nd_size st q" using assms(3) by (auto simp: find_None_iff)
  show "\<not> fits st fs (unat sz) y"
  proof
    assume "fits st fs (unat sz) y"
    then obtain q where "q \<in> set fs" "lo st q \<le> y" "y + unat sz \<le> hi st q"
      using contiguous_in_one [of st fs y "unat sz"] assms(1,2) by (auto simp: fits_def vm_inv_def vm_ranges_def unat_gt_0)
    then show False using small by (auto simp: hi_def lo_def word_le_nat_alt)
  qed
qed

end
