(* ===== verification/Vmm_Free.thy ===== *)
theory Vmm_Free
  imports Vmm_Proofs
begin

text \<open>
  The release of kernel address ranges: \<^verbatim>\<open>freevmr_put\<close> inserts the range or merges it with its neighbours,
  in each of the four cases keeping the invariant.
\<close>

section \<open>Returning a node to the pool\<close>

lemma free_node_put_spec:
  assumes "vm_locked st" "vm_shape st fs us ns" "x \<notin> set (fs @ us @ ns)" "x \<noteq> NULL" "vm_nodes st x = Some n"
  shows "\<exists>h'. free_node_put st x = Some (st\<lparr>vm_nodes := h', nd_base := (nd_base st)(x := 0), nd_size := (nd_size st)(x := 0), free_node_list := x\<rparr>) \<and>
    vm_shape (st\<lparr>vm_nodes := h', nd_base := (nd_base st)(x := 0), nd_size := (nd_size st)(x := 0), free_node_list := x\<rparr>) fs us (x # ns) \<and>
    (\<forall>y. y \<notin> set (x # ns) \<longrightarrow> h' y = vm_nodes st y)"
proof -
  note sh = vm_shapeD [OF assms(2)]
  define h1 where "h1 = (vm_nodes st)(x \<mapsto> \<lparr>qn_prev = NULL, qn_data = 0, qn_next = hdp ns NULL\<rparr>)"
  have "dll h1 NULL ns NULL" using dll_frame [OF sh(6), of h1] assms(3) by (auto simp: h1_def)
  then obtain h' where h': "link_prev h1 (hdp ns NULL) x = Some h'" "dll h' x ns NULL" "links_only (set ns) h1 h'"
    using link_prev_dll [of h1 NULL ns NULL x] sh(7) by auto
  have out: "h' y = vm_nodes st y" if "y \<notin> set (x # ns)" for y
    using links_only_outside [OF h'(3), of y] that by (auto simp: h1_def)
  have "h' x = h1 x" using links_only_outside [OF h'(3), of x] assms(3) by auto
  then have "dll h' NULL (x # ns) NULL" using h'(2) assms(4) by (simp add: h1_def)
  moreover have "set fs \<inter> set (x # ns) = {}" "set us \<inter> set (x # ns) = {}" using assms(3) sh(7) by auto
  then have "\<forall>p \<in> set fs. h' p = vm_nodes st p" "\<forall>p \<in> set us. h' p = vm_nodes st p" using out by blast+
  then have "dll h' NULL fs NULL" "dll h' NULL us NULL" using dll_frame [OF sh(4)] dll_frame [OF sh(5)] by blast+
  moreover have "free_node_put st x = Some (st\<lparr>vm_nodes := h', nd_base := (nd_base st)(x := 0), nd_size := (nd_size st)(x := 0), free_node_list := x\<rparr>)"
    using assms(1,4,5) h'(1) sh(3) by (simp add: free_node_put_def vm_assert_locked_def zero_node_def set_next_def h1_def)
  ultimately show ?thesis using out sh assms(3) by (auto simp: vm_shape_def)
qed

section \<open>Order of the ranges after a release\<close>

lemma gap_sorted:
  assumes "sorted_wrt (\<lambda>p q. hi st p < lo st q) (as @ bs)" "\<forall>q \<in> set (as @ bs). lo st q < hi st q"
    "\<forall>q \<in> set (as @ bs). lo st' q = lo st q \<and> hi st' q = hi st q"
    "as \<noteq> [] \<Longrightarrow> hi st (last as) < lo st' p" "bs \<noteq> [] \<Longrightarrow> hi st' p < lo st (hd bs)"
  shows "sorted_wrt (\<lambda>p q. hi st' p < lo st' q) (as @ p # bs)"
proof -
  have "hi st q < lo st' p" if "q \<in> set as" for q
  proof -
    have "as = butlast as @ [last as]" using that by (cases as) auto
    then have "q = last as \<or> hi st q < lo st (last as)" using assms(1) that
      by (metis (no_types, lifting) Un_iff empty_iff list.set(1) list.set_intros(1) set_ConsD set_append sorted_wrt_append)
    moreover have "last as \<in> set as" using that by (cases as) simp_all
    then have "lo st (last as) < hi st (last as)" using assms(2) by simp
    ultimately show ?thesis using assms(4) that by force
  qed
  moreover have "hi st' p < lo st q" if "q \<in> set bs" for q
  proof -
    have "q = hd bs \<or> hi st (hd bs) < lo st q" using assms(1) that by (cases bs) (auto simp: sorted_wrt_append)
    moreover have "lo st (hd bs) < hi st (hd bs)" using assms(2) that by (cases bs) auto
    ultimately show ?thesis using assms(5) that by force
  qed
  moreover have "sorted_wrt (\<lambda>p q. hi st' p < lo st' q) (as @ bs)"
    using assms(1,3) by (auto intro: sorted_wrt_mono_rel [rotated])
  ultimately show ?thesis using assms(3) by (auto simp: sorted_wrt_append)
qed

text \<open>The place that the walk finds, for a range that overlaps no free range.\<close>

lemma place_gap:
  assumes "sorted_wrt (\<lambda>p q. hi st p < lo st q) fs" "\<forall>q \<in> set fs. lo st q < hi st q" "lo st x < hi st x" "extent st x \<inter> cover st fs = {}"
  defines "as \<equiv> takeWhile (\<lambda>p. nd_base st p < nd_base st x) fs" and "bs \<equiv> dropWhile (\<lambda>p. nd_base st p < nd_base st x) fs"
  shows "\<forall>q \<in> set as. hi st q \<le> lo st x" "\<forall>q \<in> set bs. hi st x \<le> lo st q"
proof -
  have fs: "fs = as @ bs" by (simp add: as_def bs_def)
  have dj: "extent st x \<inter> extent st q = {}" if "q \<in> set fs" for q using assms(4) that by (auto simp: cover_def)
  show "\<forall>q \<in> set as. hi st q \<le> lo st x"
  proof
    fix q assume q: "q \<in> set as"
    then have "lo st q < lo st x" "q \<in> set fs" using set_takeWhileD [of q "\<lambda>p. nd_base st p < nd_base st x" fs] by (simp_all add: as_def lo_def word_less_nat_alt)
    then have "lo st x \<notin> extent st q" using dj [of q] assms(3) by (auto simp: extent_def)
    then show "hi st q \<le> lo st x" using \<open>lo st q < lo st x\<close> by (auto simp: extent_def)
  qed
  show "\<forall>q \<in> set bs. hi st x \<le> lo st q"
  proof
    fix q assume q: "q \<in> set bs"
    then have ne: "bs \<noteq> []" "hd bs \<in> set fs" "q \<in> set fs" unfolding fs by (auto intro: hd_in_set)
    have "lo st x \<le> lo st (hd bs)" using hd_dropWhile [of "\<lambda>p. nd_base st p < nd_base st x" fs] ne(1) by (simp add: bs_def lo_def word_less_nat_alt)
    moreover have "q = hd bs \<or> hi st (hd bs) < lo st q" using assms(1) q fs by (cases bs) (auto simp: sorted_wrt_append)
    ultimately have "lo st x \<le> lo st q" using assms(2) ne(2) by force
    moreover have "lo st q \<notin> extent st x" using dj [OF ne(3)] assms(2) ne(3) by (auto simp: extent_def)
    ultimately show "hi st x \<le> lo st q" by (auto simp: extent_def)
  qed
qed

section \<open>The four outcomes\<close>

text \<open>
  What \<^verbatim>\<open>freevmr_put\<close> promises: the free ranges grow by the range of \<open>x\<close>, the used ranges and the other
  state stay, and the nodes that merging made superfluous are in the pool.
\<close>

definition released :: "vmm \<Rightarrow> addr list \<Rightarrow> addr list \<Rightarrow> addr list \<Rightarrow> addr \<Rightarrow> vmm \<Rightarrow> bool" where
  "released st fs us ns x st' \<longleftrightarrow> (\<exists>fs' ns'. vm_shape st' fs' us ns' \<and> vm_locked st' = vm_locked st \<and> vm_ready st' = vm_ready st \<and>
     used_memsz st' = used_memsz st \<and> kheap_size st' = kheap_size st \<and> (\<forall>q \<in> set us. nd_base st' q = nd_base st q \<and> nd_size st' q = nd_size st q) \<and>
     (\<forall>q \<in> set fs'. proper st' q) \<and> sorted_wrt (\<lambda>p q. hi st' p < lo st' q) fs' \<and> cover st' fs' = cover st fs \<union> extent st x \<and>
     length ns \<le> length ns')"

lemma releasedI:
  assumes "vm_shape st' fs' us ns'" "vm_locked st' = vm_locked st" "vm_ready st' = vm_ready st" "used_memsz st' = used_memsz st" "kheap_size st' = kheap_size st"
    "\<forall>q \<in> set us. nd_base st' q = nd_base st q \<and> nd_size st' q = nd_size st q" "\<forall>q \<in> set fs'. proper st' q"
    "sorted_wrt (\<lambda>p q. hi st' p < lo st' q) fs'" "cover st' fs' = cover st fs \<union> extent st x" "length ns \<le> length ns'"
  shows "released st fs us ns x st'"
  using assms unfolding released_def by blast

lemma node_same:
  assumes "nd_base st' q = nd_base st q" "nd_size st' q = nd_size st q"
  shows "lo st' q = lo st q" "hi st' q = hi st q" "extent st' q = extent st q" "proper st' q = proper st q"
  using assms by (simp_all add: lo_def hi_def extent_def proper_def)

lemma insert_free_spec:
  assumes "vm_shape st (as @ bs) us ns" "x \<notin> set (as @ bs @ us @ ns)" "x \<noteq> NULL" "vm_nodes st x = Some n" "proper st x"
    "\<forall>q \<in> set (as @ bs). proper st q" "sorted_wrt (\<lambda>p q. hi st p < lo st q) (as @ bs)"
    "as \<noteq> [] \<Longrightarrow> hi st (last as) < lo st x" "bs \<noteq> [] \<Longrightarrow> hi st x < lo st (hd bs)"
  shows "\<exists>st'. insert_free st x (lastp NULL as) (hdp bs NULL) = Some st' \<and> released st (as @ bs) us ns x st'"
proof -
  note sh = vm_shapeD [OF assms(1)]
  have d: "dll (vm_nodes st) NULL as (hdp bs NULL)" "dll (vm_nodes st) (lastp NULL as) bs NULL" "distinct (as @ x # bs)" using sh(4,7) assms(2) by auto
  obtain h1 h2 h3 h4 where h: "set_next (vm_nodes st) x (hdp bs NULL) = Some h1" "set_prev h1 x (lastp NULL as) = Some h2"
      "link_prev h2 (hdp bs NULL) x = Some h3" "link_next h3 (lastp NULL as) x = Some h4" "dll h4 NULL (as @ x # bs) NULL"
      "links_only (set (as @ x # bs)) (vm_nodes st) h4"
    using insert_chain [OF d assms(3,4)] by blast
  define st' where "st' = st\<lparr>vm_nodes := h4, freevmr_list := (if lastp NULL as \<noteq> NULL then freevmr_list st else x)\<rparr>"
  have run: "insert_free st x (lastp NULL as) (hdp bs NULL) = Some st'" using h(1-4) by (simp add: insert_free_def st'_def)
  have "dll h4 NULL us NULL" "dll h4 NULL ns NULL"
    using links_only_dll [OF h(6) sh(5)] links_only_dll [OF h(6) sh(6)] sh(7) assms(2) by auto
  moreover have "(if lastp NULL as \<noteq> NULL then freevmr_list st else x) = hdp (as @ x # bs) NULL"
    using sh(1) lastp_eq_iff [OF d(1)] by (cases as) auto
  ultimately have "vm_shape st' (as @ x # bs) us ns" using sh h(5) assms(2) by (auto simp: vm_shape_def st'_def)
  moreover have e: "nd_base st' = nd_base st" "nd_size st' = nd_size st" by (simp_all add: st'_def)
  note c = ranges_cong [OF e]
  have "sorted_wrt (\<lambda>p q. hi st' p < lo st' q) (as @ x # bs)"
    using gap_sorted [OF assms(7), of st' x] assms(6,8,9) c(1,2) by (auto simp: proper_def)
  ultimately have "released st (as @ bs) us ns x st'"
    using assms(5,6) c(3-5) e by (intro releasedI) (auto simp: st'_def)
  then show ?thesis using run by blast
qed

text \<open>Merging with the next range: \<open>q\<close> takes over the start of \<open>x\<close>.\<close>

lemma merge_into_next_spec:
  assumes "vm_locked st" "vm_shape st (as @ q # bs) us ns" "x \<notin> set (as @ q # bs @ us @ ns)" "x \<noteq> NULL" "vm_nodes st x = Some n" "proper st x"
    "\<forall>p \<in> set (as @ q # bs). proper st p" "sorted_wrt (\<lambda>p q. hi st p < lo st q) (as @ q # bs)"
    "as \<noteq> [] \<Longrightarrow> hi st (last as) < lo st x" "hi st x = lo st q"
  shows "\<exists>st'. merge_into_next st x (lastp NULL as) q = Some st' \<and> released st (as @ q # bs) us ns x st'"
proof -
  note sh = vm_shapeD [OF assms(2)]
  have d: "dll (vm_nodes st) NULL as q" "dll (vm_nodes st) (lastp NULL as) (q # bs) NULL" "distinct (as @ q # bs)" "q \<noteq> NULL" "q \<noteq> x"
    using sh(4,7) assms(3) by auto
  obtain h1 h2 where h: "link_next (vm_nodes st) (lastp NULL as) q = Some h1" "link_prev h1 q (lastp NULL as) = Some h2"
      "dll h2 NULL as q" "dll h2 (lastp NULL as) (q # bs) NULL" "links_only (set as \<union> set (q # bs)) (vm_nodes st) h2"
    using join_dll [OF d(1-3)] by (metis hdp.simps(2))
  define st1 where "st1 = st\<lparr>nd_size := (nd_size st)(q := nd_size st q + nd_size st x), nd_base := (nd_base st)(q := nd_base st q - nd_size st x),
    vm_nodes := h2, freevmr_list := (if lastp NULL as \<noteq> NULL then freevmr_list st else q)\<rparr>"
  have "dll h2 NULL us NULL" "dll h2 NULL ns NULL"
    using links_only_dll [OF h(5) sh(5)] links_only_dll [OF h(5) sh(6)] sh(7) by auto
  moreover have "(if lastp NULL as \<noteq> NULL then freevmr_list st else q) = hdp (as @ q # bs) NULL"
    using sh(1) lastp_eq_iff [OF d(1)] by (cases as) auto
  ultimately have shape1: "vm_shape st1 (as @ q # bs) us ns" using sh h(3,4) by (auto simp: vm_shape_def st1_def)
  have "h2 x = Some n" using links_only_outside [OF h(5), of x] assms(3,5) by auto
  then obtain h' where f: "free_node_put st1 x = Some (st1\<lparr>vm_nodes := h', nd_base := (nd_base st1)(x := 0), nd_size := (nd_size st1)(x := 0), free_node_list := x\<rparr>)"
      "vm_shape (st1\<lparr>vm_nodes := h', nd_base := (nd_base st1)(x := 0), nd_size := (nd_size st1)(x := 0), free_node_list := x\<rparr>) (as @ q # bs) us (x # ns)"
    using free_node_put_spec [OF _ shape1 _ assms(4)] assms(1,3) by (auto simp: st1_def)
  define st' where "st' = st1\<lparr>vm_nodes := h', nd_base := (nd_base st1)(x := 0), nd_size := (nd_size st1)(x := 0), free_node_list := x\<rparr>"
  have run: "merge_into_next st x (lastp NULL as) q = Some st'"
    using h(1,2) d(4) f(1) by (cases "lastp NULL as = NULL") (simp_all add: merge_into_next_def Let_def link_prev_def st1_def st'_def)
  have same: "nd_base st' p = nd_base st p" "nd_size st' p = nd_size st p" if "p \<noteq> q" "p \<noteq> x" for p using that by (simp_all add: st'_def st1_def)
  have q: "lo st' q = lo st x" "hi st' q = hi st q"
  proof -
    have b: "unat (nd_base st q) + unat (nd_size st q) < 2 ^ 64" "unat (nd_base st x) + unat (nd_size st x) = unat (nd_base st q)"
      using assms(7,10) by (simp_all add: proper_def hi_def lo_def)
    have "unat (nd_base st q - nd_size st x) = unat (nd_base st q) - unat (nd_size st x)" using b(2) by (intro unat_sub_bounded) (simp add: word_le_nat_alt)
    moreover have "unat (nd_size st q + nd_size st x) = unat (nd_size st q) + unat (nd_size st x)" using b by (intro unat_add_bounded) linarith
    moreover have "nd_base st' q = nd_base st q - nd_size st x" "nd_size st' q = nd_size st q + nd_size st x" using d(5) by (simp_all add: st'_def st1_def)
    ultimately show "lo st' q = lo st x" "hi st' q = hi st q" using b(2) by (simp_all add: lo_def hi_def)
  qed
  have pq: "proper st' q" using assms(6,7,10) q by (auto simp: proper_def)
  have eq: "extent st' q = extent st x \<union> extent st q" using assms(6,7,10) q by (auto simp: extent_def proper_def)
  have o: "\<forall>p \<in> set (as @ bs @ us). p \<noteq> q \<and> p \<noteq> x" using assms(3) sh(7) by auto
  have srt: "sorted_wrt (\<lambda>p q. hi st' p < lo st' q) (as @ q # bs)"
  proof (rule gap_sorted [of st])
    show "sorted_wrt (\<lambda>p q. hi st p < lo st q) (as @ bs)" using assms(8) by (simp add: sorted_wrt_append)
    show "\<forall>p \<in> set (as @ bs). lo st p < hi st p" using assms(7) by (simp add: proper_def)
    show "\<forall>p \<in> set (as @ bs). lo st' p = lo st p \<and> hi st' p = hi st p" using same o by (auto intro!: node_same)
    show "as \<noteq> [] \<Longrightarrow> hi st (last as) < lo st' q" using assms(9) q by simp
    show "bs \<noteq> [] \<Longrightarrow> hi st' q < lo st (hd bs)" using assms(8) q by (cases bs) (simp_all add: sorted_wrt_append)
  qed
  have cov: "cover st' (as @ bs) = cover st (as @ bs)" using node_same(3) [of st' _ st] same o by (auto simp: cover_def)
  have "released st (as @ q # bs) us ns x st'"
  proof (rule releasedI)
    show "vm_shape st' (as @ q # bs) us (x # ns)" using f(2) by (simp add: st'_def)
    show "\<forall>p \<in> set us. nd_base st' p = nd_base st p \<and> nd_size st' p = nd_size st p" using same o by simp
    show "\<forall>p \<in> set (as @ q # bs). proper st' p" using pq assms(7) node_same(4) [of st' _ st] same o by auto
    show "cover st' (as @ q # bs) = cover st (as @ q # bs) \<union> extent st x" using cov eq by auto
  qed (use srt in \<open>simp_all add: st'_def st1_def\<close>)
  then show ?thesis using run by blast
qed

text \<open>Merging with the previous range.  First the effect on the ranges: \<open>p\<close> ends where \<open>x\<close>, or the range after it, ended.\<close>

lemma released_into_prev:
  assumes "vm_shape st' (as @ p # bs) us ns'" "vm_locked st' = vm_locked st" "vm_ready st' = vm_ready st" "used_memsz st' = used_memsz st"
    "kheap_size st' = kheap_size st" "length ns \<le> length ns'"
    "\<forall>q \<in> set (as @ bs @ us). nd_base st' q = nd_base st q \<and> nd_size st' q = nd_size st q" "proper st' p"
    "\<forall>q \<in> set (as @ bs). proper st q" "sorted_wrt (\<lambda>p q. hi st p < lo st q) (as @ bs)" "as \<noteq> [] \<Longrightarrow> hi st (last as) < lo st' p" "bs \<noteq> [] \<Longrightarrow> hi st' p < lo st (hd bs)"
    "cover st fs \<union> extent st x = cover st (as @ bs) \<union> extent st' p"
  shows "released st fs us ns x st'"
proof (rule releasedI)
  have same: "\<forall>q \<in> set (as @ bs). lo st' q = lo st q \<and> hi st' q = hi st q" using assms(7) by (auto intro!: node_same)
  have "\<forall>q \<in> set (as @ bs). lo st q < hi st q" using assms(9) by (auto simp: proper_def)
  then show "sorted_wrt (\<lambda>p q. hi st' p < lo st' q) (as @ p # bs)" using gap_sorted [OF assms(10) _ same assms(11,12)] by blast
  have "cover st' (as @ bs) = cover st (as @ bs)" using assms(7) node_same(3) [of st' _ st] by (auto simp: cover_def)
  then show "cover st' (as @ p # bs) = cover st fs \<union> extent st x" using assms(13) by auto
  show "\<forall>q \<in> set (as @ p # bs). proper st' q" using assms(7-9) node_same(4) [of st' _ st] by auto
qed (use assms in simp_all)

lemma merge_into_prev_one:
  assumes "vm_locked st" "vm_shape st (as @ p # bs) us ns" "x \<notin> set (as @ p # bs @ us @ ns)" "x \<noteq> NULL" "vm_nodes st x = Some n" "proper st x"
    "\<forall>q \<in> set (as @ p # bs). proper st q" "sorted_wrt (\<lambda>p q. hi st p < lo st q) (as @ p # bs)" "hi st p = lo st x" "bs \<noteq> [] \<Longrightarrow> hi st x < lo st (hd bs)"
  shows "\<exists>st'. merge_into_prev st x p (hdp bs NULL) = Some st' \<and> released st (as @ p # bs) us ns x st'"
proof -
  note sh = vm_shapeD [OF assms(2)]
  have px: "p \<noteq> x" using assms(3) by auto
  define st1 where "st1 = st\<lparr>nd_size := (nd_size st)(p := nd_size st p + nd_size st x)\<rparr>"
  have sz: "unat (nd_size st p + nd_size st x) = unat (nd_size st p) + unat (nd_size st x)"
    using assms(6,9) by (intro unat_add_bounded) (simp add: proper_def hi_def lo_def)
  have p1: "lo st1 p = lo st p" "hi st1 p = hi st x" using sz assms(9) by (simp_all add: st1_def lo_def hi_def)
  have "proper st1 p" using assms(6,7,9) p1 by (auto simp: proper_def)
  have nm: "\<not> (hdp bs NULL \<noteq> NULL \<and> can_merge_next st1 p (hdp bs NULL))"
  proof (cases bs)
    case (Cons q bs')
    have "lo st1 q = lo st q" using sh(7) Cons by (simp add: st1_def lo_def)
    then have "unat (nd_base st1 p + nd_size st1 p) \<noteq> unat (nd_base st1 q)"
      using proper_word [OF \<open>proper st1 p\<close>] p1(2) assms(10) Cons by (simp add: lo_def)
    then show ?thesis using Cons by (auto simp: can_merge_next_def)
  qed simp
  have shape1: "vm_shape st1 (as @ p # bs) us ns" using assms(2) vm_shape_cong [of st1 st] by (simp add: st1_def)
  obtain h' where f: "free_node_put st1 x = Some (st1\<lparr>vm_nodes := h', nd_base := (nd_base st1)(x := 0), nd_size := (nd_size st1)(x := 0), free_node_list := x\<rparr>)"
      "vm_shape (st1\<lparr>vm_nodes := h', nd_base := (nd_base st1)(x := 0), nd_size := (nd_size st1)(x := 0), free_node_list := x\<rparr>) (as @ p # bs) us (x # ns)"
    using free_node_put_spec [OF _ shape1 _ assms(4)] assms(1,3,5) by (auto simp: st1_def)
  define st' where "st' = st1\<lparr>vm_nodes := h', nd_base := (nd_base st1)(x := 0), nd_size := (nd_size st1)(x := 0), free_node_list := x\<rparr>"
  have run: "merge_into_prev st x p (hdp bs NULL) = Some st'" using nm f(1) by (auto simp: merge_into_prev_def Let_def st1_def [symmetric] st'_def)
  have p': "lo st' p = lo st p" "hi st' p = hi st x" using p1 px node_same(1,2) [of st' p st1] by (simp_all add: st'_def)
  have "released st (as @ p # bs) us ns x st'"
  proof (rule released_into_prev [of st' as p bs us "x # ns"])
    show "vm_shape st' (as @ p # bs) us (x # ns)" using f(2) by (simp add: st'_def)
    have "\<forall>q \<in> set (as @ bs @ us). q \<noteq> p \<and> q \<noteq> x" using assms(3) sh(7) by auto
    then show "\<forall>q \<in> set (as @ bs @ us). nd_base st' q = nd_base st q \<and> nd_size st' q = nd_size st q" by (simp add: st'_def st1_def)
    show "proper st' p" using assms(6,7,9) p' by (auto simp: proper_def)
    show "sorted_wrt (\<lambda>p q. hi st p < lo st q) (as @ bs)" using assms(8) by (simp add: sorted_wrt_append)
    show "as \<noteq> [] \<Longrightarrow> hi st (last as) < lo st' p" using assms(8) p'(1) by (simp add: sorted_wrt_append)
    show "bs \<noteq> [] \<Longrightarrow> hi st' p < lo st (hd bs)" using assms(10) p'(2) by simp
    show "cover st (as @ p # bs) \<union> extent st x = cover st (as @ bs) \<union> extent st' p"
      using p' assms(6,7,9) by (auto simp: extent_def proper_def)
  qed (use assms(7) in \<open>simp_all add: st'_def st1_def\<close>)
  then show ?thesis using run by blast
qed

lemma merge_into_prev_both:
  assumes "vm_locked st" "vm_shape st (as @ p # q # bs) us ns" "x \<notin> set (as @ p # q # bs @ us @ ns)" "x \<noteq> NULL" "vm_nodes st x = Some n" "proper st x"
    "\<forall>r \<in> set (as @ p # q # bs). proper st r" "sorted_wrt (\<lambda>p q. hi st p < lo st q) (as @ p # q # bs)" "hi st p = lo st x" "hi st x = lo st q"
  shows "\<exists>st'. merge_into_prev st x p q = Some st' \<and> released st (as @ p # q # bs) us ns x st'"
proof -
  note sh = vm_shapeD [OF assms(2)]
  have ne: "p \<noteq> x" "q \<noteq> x" "p \<noteq> q" "p \<noteq> NULL" "q \<noteq> NULL" using assms(3) sh(4,7) by auto
  define st1 where "st1 = st\<lparr>nd_size := (nd_size st)(p := nd_size st p + nd_size st x)\<rparr>"
  have b: "unat (nd_base st p) + unat (nd_size st p) = unat (nd_base st x)" "unat (nd_base st x) + unat (nd_size st x) = unat (nd_base st q)"
      "unat (nd_base st q) + unat (nd_size st q) < 2 ^ 64"
    using assms(7,9,10) by (simp_all add: proper_def hi_def lo_def)
  have sz1: "unat (nd_size st p + nd_size st x) = unat (nd_size st p) + unat (nd_size st x)" using b by (intro unat_add_bounded) linarith
  have sz2: "unat (nd_size st p + nd_size st x + nd_size st q) = unat (nd_size st p) + unat (nd_size st x) + unat (nd_size st q)"
    using b sz1 by (subst unat_add_bounded) linarith+
  have cm: "can_merge_next st1 p q"
  proof -
    have "unat (nd_base st p + (nd_size st p + nd_size st x)) = unat (nd_base st q)" using b sz1 by (subst unat_add_bounded) linarith+
    then show ?thesis using ne by (simp add: can_merge_next_def st1_def word_unat_eq_iff)
  qed
  obtain nd where nd: "vm_nodes st q = Some nd" "qn_next nd = hdp bs NULL" "dll (vm_nodes st) NULL (as @ [p]) q" "dll (vm_nodes st) q bs NULL" using sh(4) by auto
  obtain h1 h2 where h: "link_next (vm_nodes st) p (hdp bs NULL) = Some h1" "link_prev h1 (hdp bs NULL) p = Some h2"
      "dll h2 NULL (as @ [p]) (hdp bs NULL)" "dll h2 p bs NULL" "links_only (set (as @ [p]) \<union> set bs) (vm_nodes st) h2"
  proof -
    have "distinct ((as @ [p]) @ bs)" using sh(7) by auto
    from join_dll [OF nd(3,4) this] that show thesis by auto
  qed
  define st2 where "st2 = st1\<lparr>nd_size := (nd_size st1)(p := nd_size st1 p + nd_size st1 q), vm_nodes := h2\<rparr>"
  have "dll h2 NULL us NULL" "dll h2 NULL ns NULL"
    using links_only_dll [OF h(5) sh(5)] links_only_dll [OF h(5) sh(6)] sh(7) by auto
  then have shape2: "vm_shape st2 (as @ p # bs) us ns" using sh h(3,4) by (auto simp: vm_shape_def st2_def st1_def)
  have out: "h2 q = Some nd" "h2 x = Some n"
    using links_only_outside [OF h(5), of q] links_only_outside [OF h(5), of x] assms(3,5) sh(7) nd(1) by auto
  define st3 where "st3 h = st2\<lparr>vm_nodes := h, nd_base := (nd_base st2)(q := 0), nd_size := (nd_size st2)(q := 0), free_node_list := q\<rparr>" for h
  obtain h3 where f3: "free_node_put st2 q = Some (st3 h3)" "vm_shape (st3 h3) (as @ p # bs) us (q # ns)"
      "\<forall>y. y \<notin> set (q # ns) \<longrightarrow> h3 y = vm_nodes st2 y"
    using free_node_put_spec [OF _ shape2 _ ne(5)] out(1) assms(1) sh(7) unfolding st3_def by (auto simp: st2_def st1_def)
  have "h3 x = Some n" using f3(3) assms(3) out(2) by (simp add: st2_def)
  then have x3: "vm_locked (st3 h3)" "x \<notin> set ((as @ p # bs) @ us @ (q # ns))" "vm_nodes (st3 h3) x = Some n"
    using assms(1,3) by (auto simp: st3_def st2_def st1_def)
  define st' where "st' h = (st3 h3)\<lparr>vm_nodes := h, nd_base := (nd_base (st3 h3))(x := 0), nd_size := (nd_size (st3 h3))(x := 0), free_node_list := x\<rparr>" for h
  obtain h4 where f4: "free_node_put (st3 h3) x = Some (st' h4)" "vm_shape (st' h4) (as @ p # bs) us (x # q # ns)"
    using free_node_put_spec [OF x3(1) f3(2) x3(2) assms(4) x3(3)] unfolding st'_def by blast
  have run: "merge_into_prev st x p q = Some (st' h4)"
  proof -
    have "set_next (vm_nodes st1) p (qn_next nd) = Some h1" "link_prev h1 (qn_next nd) p = Some h2" "vm_nodes st1 q = Some nd"
      using h(1,2) ne nd by (simp_all add: link_next_def st1_def)
    then show ?thesis unfolding merge_into_prev_def Let_def st1_def [symmetric] using ne cm f3(1) f4(1) by (simp add: st2_def [symmetric])
  qed
  have "nd_base (st' h4) p = nd_base st p" "nd_size (st' h4) p = nd_size st p + nd_size st x + nd_size st q"
    using ne by (simp_all add: st'_def st3_def st2_def st1_def)
  then have p': "lo (st' h4) p = lo st p" "hi (st' h4) p = hi st q" using sz2 b by (simp_all add: lo_def hi_def)
  have "released st (as @ p # q # bs) us ns x (st' h4)"
  proof (rule released_into_prev [OF f4(2)])
    have "\<forall>r \<in> set (as @ bs @ us). r \<noteq> p \<and> r \<noteq> q \<and> r \<noteq> x" using assms(3) sh(7) by auto
    then show "\<forall>r \<in> set (as @ bs @ us). nd_base (st' h4) r = nd_base st r \<and> nd_size (st' h4) r = nd_size st r" by (simp add: st'_def st3_def st2_def st1_def)
    show "proper (st' h4) p" using assms(6,7,9,10) p' by (auto simp: proper_def)
    show "sorted_wrt (\<lambda>p q. hi st p < lo st q) (as @ bs)" using assms(8) by (simp add: sorted_wrt_append)
    show "as \<noteq> [] \<Longrightarrow> hi st (last as) < lo (st' h4) p" using assms(8) p'(1) by (simp add: sorted_wrt_append)
    show "bs \<noteq> [] \<Longrightarrow> hi (st' h4) p < lo st (hd bs)" using assms(8) p'(2) by (cases bs) (simp_all add: sorted_wrt_append)
    show "cover st (as @ p # q # bs) \<union> extent st x = cover st (as @ bs) \<union> extent (st' h4) p"
      using p' assms(6,7,9,10) by (auto simp: extent_def proper_def)
  qed (use assms(7) in \<open>simp_all add: st'_def st3_def st2_def st1_def\<close>)
  then show ?thesis using run by blast
qed

section \<open>Inserting a free range\<close>

lemma freevmr_put_spec:
  assumes "vm_locked st" "vm_shape st fs us ns" "x \<notin> set (fs @ us @ ns)" "x \<noteq> NULL" "vm_nodes st x = Some n" "proper st x"
    "\<forall>q \<in> set fs. proper st q" "sorted_wrt (\<lambda>p q. hi st p < lo st q) fs" "extent st x \<inter> cover st fs = {}"
  shows "\<exists>st'. freevmr_put st x = Some st' \<and> released st fs us ns x st'"
proof -
  note sh = vm_shapeD [OF assms(2)]
  obtain h1 h2 where h: "set_next (vm_nodes st) x NULL = Some h1" "set_prev h1 x NULL = Some h2" "dll h2 NULL fs NULL"
      "h2 x = Some (n\<lparr>qn_next := NULL, qn_prev := NULL\<rparr>)" "links_only {x} (vm_nodes st) h2"
    using detached_node [OF assms(4,5) sh(4)] assms(3) by auto
  define st1 where "st1 = st\<lparr>vm_nodes := h2\<rparr>"
  define as where "as = takeWhile (\<lambda>p. nd_base st p < nd_base st x) fs"
  define bs where "bs = dropWhile (\<lambda>p. nd_base st p < nd_base st x) fs"
  have fs: "fs = as @ bs" by (simp add: as_def bs_def)
  have sc: "vm_scan (\<lambda>p. nd_base st p < nd_base st x) h2 (freevmr_list st) NULL = Some (hdp bs NULL, lastp NULL as)"
    using vm_scan_chain [OF h(3)] sh(1) by (simp add: as_def bs_def)
  have "dll h2 NULL us NULL" "dll h2 NULL ns NULL" using links_only_dll [OF h(5) sh(5)] links_only_dll [OF h(5) sh(6)] assms(3) by auto
  then have shape1: "vm_shape st1 (as @ bs) us ns" using sh h(3) fs by (simp add: vm_shape_def st1_def)
  have e: "nd_base st1 = nd_base st" "nd_size st1 = nd_size st" by (simp_all add: st1_def)
  note c = ranges_cong [OF e]
  have pl: "\<forall>q \<in> set as. hi st q \<le> lo st x" "\<forall>q \<in> set bs. hi st x \<le> lo st q"
    using place_gap [OF assms(8) _ _ assms(9)] assms(6,7) unfolding as_def bs_def by (auto simp: proper_def)
  have run: "freevmr_put st x = (if lastp NULL as \<noteq> NULL \<and> can_merge_prev st1 x (lastp NULL as) then merge_into_prev st1 x (lastp NULL as) (hdp bs NULL)
      else if hdp bs NULL \<noteq> NULL \<and> can_merge_next st1 x (hdp bs NULL) then merge_into_next st1 x (lastp NULL as) (hdp bs NULL)
      else insert_free st1 x (lastp NULL as) (hdp bs NULL))"
    using assms(1,4) h(1,2) sc by (simp add: freevmr_put_def vm_assert_locked_def Let_def st1_def)
  have nn: "lastp NULL as \<noteq> NULL \<longleftrightarrow> as \<noteq> []" "hdp bs NULL \<noteq> NULL \<longleftrightarrow> bs \<noteq> []"
    using h(3) fs lastp_eq_iff [of h2 NULL as] hdp_eq_iff [of h2 _ bs] by auto
  have mp: "can_merge_prev st1 x q \<longleftrightarrow> hi st q = lo st x" if "q \<in> set fs" "q \<noteq> NULL" for q
    using proper_word [of st q] assms(7) that e by (auto simp: can_merge_prev_def lo_def word_unat_eq_iff)
  have mn: "can_merge_next st1 x q \<longleftrightarrow> hi st x = lo st q" if "q \<noteq> NULL" for q
    using proper_word [OF assms(6)] that e by (auto simp: can_merge_next_def lo_def word_unat_eq_iff)
  have rel: "released st1 fs us ns x st' = released st fs us ns x st'" for st' using e c by (simp add: released_def) (simp add: st1_def)
  have com: "vm_locked st1" "vm_nodes st1 x = Some (n\<lparr>qn_next := NULL, qn_prev := NULL\<rparr>)" "proper st1 x" "\<forall>q \<in> set fs. proper st1 q"
      "sorted_wrt (\<lambda>p q. hi st1 p < lo st1 q) fs"
    using assms(1,6-8) h(4) c by (simp_all add: st1_def)
  show ?thesis
  proof (cases "as \<noteq> [] \<and> hi st (last as) = lo st x")
    case True
    then obtain as' p where as: "as = as' @ [p]" "hi st p = lo st x" by (cases as rule: rev_cases) auto
    then have r: "freevmr_put st x = merge_into_prev st1 x p (hdp bs NULL)" using run nn(1) mp [of p] fs by auto
    show ?thesis
    proof (cases "bs \<noteq> [] \<and> hi st x = lo st (hd bs)")
      case True
      then obtain q bs' where bs: "bs = q # bs'" "hi st x = lo st q" by (cases bs) auto
      then show ?thesis using merge_into_prev_both [of st1 as' p q bs' us ns x] r as com assms(3,4) shape1 fs c(1,2) rel by simp
    next
      case False
      then have "bs \<noteq> [] \<Longrightarrow> hi st x < lo st (hd bs)" using pl(2) by (metis hd_in_set order_le_imp_less_or_eq)
      then show ?thesis using merge_into_prev_one [of st1 as' p bs us ns x] r as com assms(3,4) shape1 fs c(1,2) rel by simp
    qed
  next
    case False
    have la: "as \<noteq> [] \<Longrightarrow> hi st (last as) < lo st x" using False pl(1) by (metis last_in_set order_le_imp_less_or_eq)
    have np: "\<not> (lastp NULL as \<noteq> NULL \<and> can_merge_prev st1 x (lastp NULL as))" using False nn(1) mp [of "lastp NULL as"] fs by (auto simp: lastp_def)
    show ?thesis
    proof (cases "bs \<noteq> [] \<and> hi st x = lo st (hd bs)")
      case True
      then obtain q bs' where bs: "bs = q # bs'" "hi st x = lo st q" by (cases bs) auto
      then have "freevmr_put st x = merge_into_next st1 x (lastp NULL as) q" using run np nn(2) mn [of q] by auto
      then show ?thesis using merge_into_next_spec [of st1 as q bs' us ns x] bs com assms(3,4) shape1 fs c(1,2) rel la by simp
    next
      case False
      then have "bs \<noteq> [] \<Longrightarrow> hi st x < lo st (hd bs)" using pl(2) by (metis hd_in_set order_le_imp_less_or_eq)
      moreover have "\<not> (hdp bs NULL \<noteq> NULL \<and> can_merge_next st1 x (hdp bs NULL))" using False nn(2) mn by (cases bs) auto
      ultimately show ?thesis using insert_free_spec [of st1 as bs us ns x] run np com assms(3,4) shape1 fs c(1,2) rel la by auto
    qed
  qed
qed

end
