(* ===== verification/Vmm_Space.thy ===== *)
theory Vmm_Space
  imports Vmm_Free Pmm_Proofs
begin

text \<open>
  The contract of the allocator of kernel address ranges, stated over the set of free addresses and the set of
  held ranges: allocation is first fit, releasing gives back exactly the range, and initialisation establishes it.
\<close>

section \<open>Release\<close>

lemma unlink_used:
  assumes "vm_shape st fs (as @ p # bs) ns"
  shows "\<exists>nd h1 h2. vm_nodes st p = Some nd \<and> p \<noteq> NULL \<and> link_next (vm_nodes st) (qn_prev nd) (qn_next nd) = Some h1 \<and>
    link_prev h1 (qn_next nd) (qn_prev nd) = Some h2 \<and> h2 p = Some nd \<and>
    vm_shape (st\<lparr>vm_nodes := h2, usedvmr_list := (if qn_prev nd \<noteq> NULL then usedvmr_list st else qn_next nd)\<rparr>) fs (as @ bs) ns"
proof -
  note sh = vm_shapeD [OF assms]
  obtain nd where nd: "p \<noteq> NULL" "vm_nodes st p = Some nd" "qn_prev nd = lastp NULL as" "qn_next nd = hdp bs NULL"
      "dll (vm_nodes st) NULL as p" "dll (vm_nodes st) p bs NULL"
    using sh(5) by auto
  obtain h1 h2 where h: "link_next (vm_nodes st) (lastp NULL as) (hdp bs NULL) = Some h1" "link_prev h1 (hdp bs NULL) (lastp NULL as) = Some h2"
      "dll h2 NULL as (hdp bs NULL)" "dll h2 (lastp NULL as) bs NULL" "links_only (set as \<union> set bs) (vm_nodes st) h2"
  proof -
    have "distinct (as @ bs)" using sh(7) by auto
    from join_dll [OF nd(5,6) this] that show thesis by blast
  qed
  have "dll h2 NULL fs NULL" using links_only_dll [OF h(5) sh(4)] sh(7) by auto
  moreover have "dll h2 NULL ns NULL" using links_only_dll [OF h(5) sh(6)] sh(7) by auto
  moreover have "(if qn_prev nd \<noteq> NULL then usedvmr_list st else qn_next nd) = hdp (as @ bs) NULL"
    using sh(2) nd(3,4) lastp_eq_iff [OF nd(5)] by (cases as) auto
  ultimately have "vm_shape (st\<lparr>vm_nodes := h2, usedvmr_list := (if qn_prev nd \<noteq> NULL then usedvmr_list st else qn_next nd)\<rparr>) fs (as @ bs) ns"
    using sh h(3,4) by (auto simp: vm_shape_def)
  moreover have "h2 p = Some nd" using links_only_outside [OF h(5), of p] nd(2) sh(7) by auto
  ultimately show ?thesis using nd h by auto
qed

lemma usedvmr_find_spec:
  assumes "vm_locked st" "vm_shape st fs us ns" "a \<noteq> 0"
  shows "usedvmr_find st a = Some (case List.find (\<lambda>p. a = nd_base st p) us of Some p \<Rightarrow> (0, p) | None \<Rightarrow> (- ENOENT, NULL))"
  using assms(1,3) vm_shapeD [OF assms(2)] find_loop_dll [of "vm_nodes st" NULL us "\<lambda>p _. a = nd_base st p"]
  by (simp add: usedvmr_find_def vm_assert_locked_def)

lemma ranges_after_release:
  assumes "vm_ranges st fs (as @ p # bs)" "\<forall>q \<in> set (as @ bs). nd_base st' q = nd_base st q \<and> nd_size st' q = nd_size st q"
    "\<forall>q \<in> set fs'. proper st' q" "sorted_wrt (\<lambda>p q. hi st' p < lo st' q) fs'" "cover st' fs' = cover st fs \<union> extent st p"
    "used_memsz st' = used_memsz st - nd_size st p"
  shows "vm_ranges st' fs' (as @ bs)" "owned st' (as @ bs) = owned st (as @ p # bs) - {(nd_base st p, nd_size st p)}"
proof -
  have rg: "\<forall>q \<in> set (as @ p # bs). proper st q" "sorted_wrt (\<lambda>p q. hi st p \<le> lo st q) (as @ p # bs)"
      "cover st fs \<inter> cover st (as @ p # bs) = {}" "used_memsz st = sum_list (map (nd_size st) (as @ p # bs))"
    using assms(1) by (auto simp: vm_ranges_def)
  have same: "lo st' q = lo st q" "hi st' q = hi st q" "extent st' q = extent st q" "proper st' q = proper st q" if "q \<in> set (as @ bs)" for q
    using assms(2) that by (auto intro!: node_same)
  have dj: "extent st p \<inter> cover st (as @ bs) = {}" using rg(2) by (auto simp: sorted_wrt_append extent_def cover_def)
  show "vm_ranges st' fs' (as @ bs)"
    unfolding vm_ranges_def
  proof (intro conjI)
    show "\<forall>q \<in> set (fs' @ as @ bs). proper st' q" using assms(3) rg(1) same(4) by auto
    show "sorted_wrt (\<lambda>p q. hi st' p < lo st' q) fs'" by (rule assms(4))
    have "sorted_wrt (\<lambda>p q. hi st p \<le> lo st q) (as @ bs)" using rg(2) by (simp add: sorted_wrt_append)
    then show "sorted_wrt (\<lambda>p q. hi st' p \<le> lo st' q) (as @ bs)" using same(1,2) by (auto intro: sorted_wrt_mono_rel [rotated])
    have "cover st' (as @ bs) = cover st (as @ bs)" using same(3) by (auto simp: cover_def)
    then show "cover st' fs' \<inter> cover st' (as @ bs) = {}" using assms(5) dj rg(3) by auto
    have m: "map (nd_size st') (as @ bs) = map (nd_size st) (as @ bs)" using assms(2) by (intro map_cong) simp_all
    have "sum_list (map (nd_size st) (as @ p # bs)) = nd_size st p + sum_list (map (nd_size st) (as @ bs))" by (simp add: algebra_simps)
    then show "used_memsz st' = sum_list (map (nd_size st') (as @ bs))" using assms(6) rg(4) unfolding m by simp
  qed
  have "nd_base st q \<noteq> nd_base st p" if "q \<in> set (as @ bs)" for q
  proof
    assume "nd_base st q = nd_base st p"
    then have "lo st p \<in> extent st q" "lo st p \<in> extent st p" using rg(1) that by (auto simp: proper_def extent_def lo_def hi_def)
    then show False using dj that by (auto simp: cover_def)
  qed
  moreover have "owned st' (as @ bs) = owned st (as @ bs)" using assms(2) by (auto simp: owned_def)
  ultimately show "owned st' (as @ bs) = owned st (as @ p # bs) - {(nd_base st p, nd_size st p)}" by (auto simp: owned_def)
qed

lemma vm_free_known:
  assumes "vm_inv st fs us ns" "a \<noteq> 0" "List.find (\<lambda>p. a = nd_base st p) us = Some p"
  shows "\<exists>st' fs' us' ns'. vm_free st a = Some st' \<and> vm_inv st' fs' us' ns' \<and> length ns \<le> length ns' \<and> kheap_size st' = kheap_size st \<and>
    cover st' fs' = cover st fs \<union> extent st p \<and> owned st' us' = owned st us - {(a, nd_size st p)}"
proof -
  obtain as bs where us: "us = as @ p # bs" "a = nd_base st p" using find_split [OF assms(3)] by blast
  let ?st = "st\<lparr>vm_locked := True\<rparr>"
  have inv: "vm_ready st" "\<not> vm_locked st" "vm_shape ?st fs (as @ p # bs) ns" using assms(1) us vm_shape_cong [of ?st st] by (simp_all add: vm_inv_def)
  have rg: "\<forall>q \<in> set (fs @ us). proper st q" "sorted_wrt (\<lambda>p q. hi st p < lo st q) fs" "sorted_wrt (\<lambda>p q. hi st p \<le> lo st q) us"
      "cover st fs \<inter> cover st us = {}" "used_memsz st = sum_list (map (nd_size st) us)"
    using assms(1) by (auto simp: vm_inv_def vm_ranges_def)
  have fnd: "usedvmr_find ?st a = Some (0, p)" using usedvmr_find_spec [OF _ inv(3) assms(2)] assms(3) us(1) by simp
  obtain nd h1 h2 where u: "vm_nodes ?st p = Some nd" "p \<noteq> NULL" "link_next (vm_nodes ?st) (qn_prev nd) (qn_next nd) = Some h1"
      "link_prev h1 (qn_next nd) (qn_prev nd) = Some h2" "h2 p = Some nd"
      "vm_shape (?st\<lparr>vm_nodes := h2, usedvmr_list := (if qn_prev nd \<noteq> NULL then usedvmr_list ?st else qn_next nd)\<rparr>) fs (as @ bs) ns"
    using unlink_used [OF inv(3)] by blast
  define st1 where "st1 = ?st\<lparr>vm_nodes := h2, usedvmr_list := (if qn_prev nd \<noteq> NULL then usedvmr_list ?st else qn_next nd), used_memsz := used_memsz st - nd_size st p\<rparr>"
  have shape1: "vm_shape st1 fs (as @ bs) ns"
    using u(6) vm_shape_cong [of st1 "?st\<lparr>vm_nodes := h2, usedvmr_list := (if qn_prev nd \<noteq> NULL then usedvmr_list ?st else qn_next nd)\<rparr>"] by (simp add: st1_def)
  have e: "nd_base st1 = nd_base st" "nd_size st1 = nd_size st" by (simp_all add: st1_def)
  note c = ranges_cong [OF e]
  have px: "p \<notin> set (fs @ (as @ bs) @ ns)" using vm_shapeD(7) [OF inv(3)] by auto
  obtain st2 where f: "freevmr_put st1 p = Some st2" "released st1 fs (as @ bs) ns p st2"
  proof -
    have "extent st p \<inter> cover st fs = {}" using rg(4) us(1) by auto
    then show thesis using freevmr_put_spec [OF _ shape1 px u(2), of nd] that rg(1,2) us(1) c u(5) by (auto simp: st1_def)
  qed
  then obtain fs' ns' where r: "vm_shape st2 fs' (as @ bs) ns'" "vm_locked st2" "vm_ready st2" "used_memsz st2 = used_memsz st - nd_size st p" "kheap_size st2 = kheap_size st"
      "\<forall>q \<in> set (as @ bs). nd_base st2 q = nd_base st q \<and> nd_size st2 q = nd_size st q" "\<forall>q \<in> set fs'. proper st2 q"
      "sorted_wrt (\<lambda>p q. hi st2 p < lo st2 q) fs'" "cover st2 fs' = cover st fs \<union> extent st p" "length ns \<le> length ns'"
    using inv(1) c(4,5) e unfolding released_def by (auto simp: st1_def)
  define st' where "st' = st2\<lparr>vm_locked := False\<rparr>"
  have run: "vm_free st a = Some st'"
  proof -
    have "vm_free st a = do { st \<leftarrow> freevmr_put st1 p; vm_unlock st }"
      using assms(2) inv(1,2) fnd u(1-4) unfolding vm_free_def Let_def vm_lock_def st1_def by simp
    then show ?thesis using f(1) r(2) by (simp add: vm_unlock_def st'_def)
  qed
  have e': "nd_base st' = nd_base st2" "nd_size st' = nd_size st2" by (simp_all add: st'_def)
  note c' = ranges_cong [OF e']
  have "vm_ranges st fs (as @ p # bs)" using assms(1) us by (simp add: vm_inv_def)
  note rel = ranges_after_release [OF this, of st' fs']
  have "vm_ranges st' fs' (as @ bs)" "owned st' (as @ bs) = owned st us - {(a, nd_size st p)}"
    using rel r(4,6-9) us unfolding c' e' by (simp_all add: st'_def)
  moreover have "vm_shape st' fs' (as @ bs) ns'" using r(1) vm_shape_cong [of st' st2] by (simp add: st'_def)
  ultimately have "vm_inv st' fs' (as @ bs) ns'" "owned st' (as @ bs) = owned st us - {(a, nd_size st p)}" using r(3) by (simp_all add: vm_inv_def st'_def)
  then show ?thesis using run r(5,9,10) c'(5) by (intro exI [of _ st'] exI [of _ fs'] exI [of _ "as @ bs"] exI [of _ ns']) (simp add: st'_def)
qed

lemma vm_free_unknown:
  assumes "vm_inv st fs us ns" "a \<noteq> 0" "List.find (\<lambda>p. a = nd_base st p) us = None"
  shows "vm_free st a = Some st"
proof -
  let ?st = "st\<lparr>vm_locked := True\<rparr>"
  have inv: "vm_ready st" "\<not> vm_locked st" "vm_shape ?st fs us ns" using assms(1) vm_shape_cong [of ?st st] by (simp_all add: vm_inv_def)
  have "usedvmr_find ?st a = Some (- ENOENT, NULL)" using usedvmr_find_spec [OF _ inv(3) assms(2)] assms(3) by simp
  then show ?thesis using inv(2) assms(2) by (simp add: vm_free_def vm_lock_def vm_unlock_def)
qed

section \<open>The contract\<close>

text \<open>The free addresses and the held ranges of a state, and the states in which the lists are well formed.\<close>

definition vm_avail :: "vmm \<Rightarrow> nat set" where
  "vm_avail st = \<Union> {cover st fs |fs. dll (vm_nodes st) NULL fs NULL \<and> freevmr_list st = hdp fs NULL}"

definition vm_held :: "vmm \<Rightarrow> (u64 \<times> u64) set" where
  "vm_held st = \<Union> {owned st us |us. dll (vm_nodes st) NULL us NULL \<and> usedvmr_list st = hdp us NULL}"

definition vm_valid :: "vmm \<Rightarrow> bool" where
  "vm_valid st \<longleftrightarrow> (\<exists>fs us ns. vm_inv st fs us ns)"

definition vm_room :: "vmm \<Rightarrow> bool" where
  "vm_room st \<longleftrightarrow> free_node_list st \<noteq> NULL"

definition span :: "u64 \<Rightarrow> u64 \<Rightarrow> nat set" where
  "span a sz = {unat a ..< unat a + unat sz}"

lemma dll_unique:
  "dll h b ps NULL \<Longrightarrow> dll h b' qs NULL \<Longrightarrow> hdp ps NULL = hdp qs NULL \<Longrightarrow> ps = qs"
proof (induction ps arbitrary: b b' qs)
  case Nil
  then show ?case by (cases qs) auto
next
  case (Cons p ps)
  then obtain qs' where qs: "qs = p # qs'" by (cases qs) auto
  then have "hdp ps NULL = hdp qs' NULL" "dll h p ps NULL" "dll h p qs' NULL" using Cons.prems by auto
  with Cons.IH qs show ?case by blast
qed

lemma vm_avail_eq:
  assumes "vm_inv st fs us ns"
  shows "vm_avail st = cover st fs" "vm_held st = owned st us" "vm_room st \<longleftrightarrow> ns \<noteq> []"
proof -
  have sh: "vm_shape st fs us ns" using assms by (simp add: vm_inv_def)
  note d = vm_shapeD [OF sh]
  have "fs' = fs" if "dll (vm_nodes st) NULL fs' NULL" "freevmr_list st = hdp fs' NULL" for fs'
    using dll_unique [OF that(1) d(4)] that(2) d(1) by simp
  then show "vm_avail st = cover st fs" using d(1,4) unfolding vm_avail_def by blast
  have "us' = us" if "dll (vm_nodes st) NULL us' NULL" "usedvmr_list st = hdp us' NULL" for us'
    using dll_unique [OF that(1) d(5)] that(2) d(2) by simp
  then show "vm_held st = owned st us" using d(2,5) unfolding vm_held_def by blast
  show "vm_room st \<longleftrightarrow> ns \<noteq> []" using hdp_eq_iff [OF d(6)] d(3) by (simp add: vm_room_def)
qed

lemma vmm_alloc_spec:
  assumes "vm_valid st" "vm_room st" "sz \<noteq> 0"
  shows "\<exists>a st'. vmm_alloc env st sz = Some (a, st') \<and> vm_valid st' \<and>
    (if \<exists>x. {x ..< x + unat sz} \<subseteq> vm_avail st
     then a \<noteq> 0 \<and> unat a = (LEAST x. {x ..< x + unat sz} \<subseteq> vm_avail st) \<and> span a sz \<subseteq> vm_avail st \<and>
       vm_avail st' = vm_avail st - span a sz \<and> vm_held st' = insert (a, sz) (vm_held st)
     else a = 0 \<and> st' = st)"
proof -
  obtain fs us ns where inv: "vm_inv st fs us ns" using assms(1) by (auto simp: vm_valid_def)
  note q = vm_avail_eq [OF inv]
  obtain x ns' where ns: "ns = x # ns'" using assms(2) q(3) by (cases ns) auto
  show ?thesis
  proof (cases "List.find (\<lambda>p. nd_size st p \<ge> sz) fs")
    case None
    note f = vm_alloc_full [OF inv assms(3) None]
    have "vmm_alloc env st sz = Some (0, st)" using f(1) by (simp add: vmm_alloc_def)
    moreover have "\<nexists>x. {x ..< x + unat sz} \<subseteq> vm_avail st" using f(2) q(1) by (simp add: fits_def)
    ultimately show ?thesis using assms(1) by simp
  next
    case (Some p)
    let ?a = "nd_base st p"
    obtain st' fs' us' ns' where r: "vm_alloc env st sz = Some (0, Some ?a, st')" "vm_inv st' fs' us' ns'"
        "allocated st fs us ?a sz st' fs' us'" "fits st fs (unat sz) (unat ?a)" "\<forall>y. fits st fs (unat sz) y \<longrightarrow> unat ?a \<le> y"
      using vm_alloc_fits [OF inv [unfolded ns] assms(3) Some] by blast
    note q' = vm_avail_eq [OF r(2)]
    have "p \<in> set fs" using find_split [OF Some] by auto
    then have "proper st p" using inv by (simp add: vm_inv_def vm_ranges_def)
    then have nz: "?a \<noteq> 0" by (auto simp: proper_def lo_def)
    have "(LEAST x. {x ..< x + unat sz} \<subseteq> vm_avail st) = unat ?a" using r(4,5) q(1) by (intro Least_equality) (auto simp: fits_def)
    moreover have "span ?a sz \<subseteq> vm_avail st" using r(4) q(1) by (simp add: fits_def span_def)
    moreover have "\<exists>x. {x ..< x + unat sz} \<subseteq> vm_avail st" using r(4) q(1) by (auto simp: fits_def)
    moreover have "vm_avail st' = vm_avail st - span ?a sz" "vm_held st' = insert (?a, sz) (vm_held st)"
      using r(3) q q' by (simp_all add: allocated_def span_def)
    moreover have "vmm_alloc env st sz = Some (?a, st')" using r(1) by (simp add: vmm_alloc_def)
    ultimately show ?thesis using nz r(2) by (auto simp: vm_valid_def)
  qed
qed

lemma vmm_free_spec:
  assumes "vm_valid st" "(a, sz) \<in> vm_held st"
  shows "\<exists>st'. vmm_free st a = Some st' \<and> vm_valid st' \<and> vm_avail st' = vm_avail st \<union> span a sz \<and> vm_held st' = vm_held st - {(a, sz)} \<and>
    (vm_room st \<longrightarrow> vm_room st')"
proof -
  obtain fs us ns where inv: "vm_inv st fs us ns" using assms(1) by (auto simp: vm_valid_def)
  note q = vm_avail_eq [OF inv]
  have rg: "\<forall>p \<in> set us. proper st p" "sorted_wrt (\<lambda>p q. hi st p \<le> lo st q) us" using inv by (auto simp: vm_inv_def vm_ranges_def)
  obtain r where r: "r \<in> set us" "a = nd_base st r" "sz = nd_size st r" using assms(2) q(2) by (auto simp: owned_def)
  then obtain p where p: "List.find (\<lambda>p. a = nd_base st p) us = Some p" by (metis (mono_tags, lifting) find_None_iff not_None_eq)
  obtain as bs where us: "us = as @ p # bs" "a = nd_base st p" using find_split [OF p] by blast
  have "r = p"
  proof (rule ccontr)
    assume "r \<noteq> p"
    then have "hi st r \<le> lo st p \<or> hi st p \<le> lo st r" using rg(2) r(1) us(1) by (auto simp: sorted_wrt_append)
    moreover have "lo st r = lo st p" using r us by (simp add: lo_def)
    moreover have "lo st r < hi st r" "lo st p < hi st p" using bspec [OF rg(1) r(1)] bspec [OF rg(1), of p] us(1) by (simp_all add: proper_def)
    ultimately show False by linarith
  qed
  moreover have "a \<noteq> 0" using rg(1) r by (auto simp: proper_def lo_def)
  ultimately obtain st' fs' us' ns' where f: "vm_free st a = Some st'" "vm_inv st' fs' us' ns'" "length ns \<le> length ns'"
      "cover st' fs' = cover st fs \<union> extent st p" "owned st' us' = owned st us - {(a, sz)}"
    using vm_free_known [OF inv _ p] r by blast
  note q' = vm_avail_eq [OF f(2)]
  have "extent st p = span a sz" using r \<open>r = p\<close> by (simp add: extent_def span_def lo_def hi_def)
  then show ?thesis using f q q' by (auto simp: vmm_free_def vm_valid_def)
qed

lemma vm_held_span:
  assumes "vm_valid st" "(a, sz) \<in> vm_held st"
  shows "span a sz \<inter> vm_avail st = {}" "span a sz \<noteq> {}"
    and "(b, sz') \<in> vm_held st \<Longrightarrow> (b, sz') \<noteq> (a, sz) \<Longrightarrow> span a sz \<inter> span b sz' = {}"
proof -
  obtain fs us ns where inv: "vm_inv st fs us ns" using assms(1) by (auto simp: vm_valid_def)
  note q = vm_avail_eq [OF inv]
  have rg: "\<forall>p \<in> set us. proper st p" "sorted_wrt (\<lambda>p q. hi st p \<le> lo st q) us" "cover st fs \<inter> cover st us = {}"
    using inv by (auto simp: vm_inv_def vm_ranges_def)
  have ext: "\<exists>p \<in> set us. extent st p = span b s \<and> b = nd_base st p \<and> s = nd_size st p" if "(b, s) \<in> vm_held st" for b s
    using that q(2) by (auto simp: owned_def extent_def span_def lo_def hi_def)
  obtain p where p: "p \<in> set us" "extent st p = span a sz" "a = nd_base st p" "sz = nd_size st p" using ext [OF assms(2)] by blast
  show "span a sz \<inter> vm_avail st = {}" using rg(3) p(1) q(1) unfolding p(2) [symmetric] by (auto simp: cover_def)
  show "span a sz \<noteq> {}" using rg(1) p(1) unfolding p(2) [symmetric] by (auto simp: proper_def extent_def)
  assume "(b, sz') \<in> vm_held st" "(b, sz') \<noteq> (a, sz)"
  then obtain r where r: "r \<in> set us" "extent st r = span b sz'" "r \<noteq> p" using ext p by metis
  then have "hi st r \<le> lo st p \<or> hi st p \<le> lo st r" using rg(2) p(1)
    by (metis (no_types, lifting) in_set_conv_nth linorder_neqE_nat sorted_wrt_nth_less)
  then show "span a sz \<inter> span b sz' = {}" unfolding r(2) [symmetric] p(2) [symmetric] by (auto simp: extent_def)
qed

text \<open>
  The interface of an allocator of ranges, for its clients: the ranges handed out are free before and held after,
  and releasing one makes it free again.
\<close>

locale range_allocator =
  fixes valid :: "'s \<Rightarrow> bool" and room :: "'s \<Rightarrow> bool" and avail :: "'s \<Rightarrow> nat set" and held :: "'s \<Rightarrow> (u64 \<times> u64) set"
    and alloc :: "'s \<Rightarrow> u64 \<Rightarrow> (u64 \<times> 's) option" and release :: "'s \<Rightarrow> u64 \<Rightarrow> 's option"
  assumes alloc_law: "valid s \<Longrightarrow> room s \<Longrightarrow> sz \<noteq> 0 \<Longrightarrow> \<exists>a s'. alloc s sz = Some (a, s') \<and> valid s' \<and>
      (a = 0 \<and> s' = s \<or> a \<noteq> 0 \<and> span a sz \<subseteq> avail s \<and> avail s' = avail s - span a sz \<and> held s' = insert (a, sz) (held s))"
    and release_law: "valid s \<Longrightarrow> (a, sz) \<in> held s \<Longrightarrow>
      \<exists>s'. release s a = Some s' \<and> valid s' \<and> avail s' = avail s \<union> span a sz \<and> held s' = held s - {(a, sz)}"
    and held_law: "valid s \<Longrightarrow> (a, sz) \<in> held s \<Longrightarrow> span a sz \<inter> avail s = {} \<and> span a sz \<noteq> {}"
begin

lemma alloc_fresh:
  assumes "valid s" "room s" "sz \<noteq> 0" "alloc s sz = Some (a, s')" "a \<noteq> 0" "(b, n) \<in> held s"
  shows "span a sz \<inter> span b n = {}" "(b, n) \<in> held s'"
  using alloc_law [OF assms(1-3)] held_law [OF assms(1,6)] assms(4-6) by auto

lemma alloc_release:
  assumes "valid s" "room s" "sz \<noteq> 0" "alloc s sz = Some (a, s')" "a \<noteq> 0"
  shows "\<exists>s''. release s' a = Some s'' \<and> valid s'' \<and> avail s'' = avail s \<and> held s'' = held s"
proof -
  have l: "valid s'" "span a sz \<subseteq> avail s" "avail s' = avail s - span a sz" "held s' = insert (a, sz) (held s)"
    using alloc_law [OF assms(1-3)] assms(4,5) by auto
  then have ah: "(a, sz) \<in> held s'" by simp
  have "(a, sz) \<notin> held s" using held_law [OF assms(1)] l(2) by blast
  then have "held s' - {(a, sz)} = held s" "avail s' \<union> span a sz = avail s" using l(2-4) by auto
  then show ?thesis using release_law [OF l(1) ah] by simp
qed

end

interpretation kvm: range_allocator vm_valid vm_room vm_avail vm_held "vmm_alloc env" vmm_free for env
proof unfold_locales
  fix s sz assume "vm_valid s" "vm_room s" "sz \<noteq> (0 :: u64)"
  from vmm_alloc_spec [OF this, of env] show "\<exists>a s'. vmm_alloc env s sz = Some (a, s') \<and> vm_valid s' \<and>
      (a = 0 \<and> s' = s \<or> a \<noteq> 0 \<and> span a sz \<subseteq> vm_avail s \<and> vm_avail s' = vm_avail s - span a sz \<and> vm_held s' = insert (a, sz) (vm_held s))"
    by (auto split: if_splits)
next
  fix s a sz assume h: "vm_valid s" "(a, sz) \<in> vm_held s"
  from vmm_free_spec [OF this] show "\<exists>s'. vmm_free s a = Some s' \<and> vm_valid s' \<and> vm_avail s' = vm_avail s \<union> span a sz \<and> vm_held s' = vm_held s - {(a, sz)}"
    by blast
  from vm_held_span(1,2) [OF h] show "span a sz \<inter> vm_avail s = {} \<and> span a sz \<noteq> {}" by blast
qed

section \<open>Initialisation\<close>

definition node_addr :: "addr \<Rightarrow> nat \<Rightarrow> addr" where
  "node_addr nodes j = nodes + 32 * word_of_nat j"

lemma unat_node_addr:
  assumes "unat nodes + 32 * N < 2 ^ 64" "j \<le> N"
  shows "unat (node_addr nodes j) = unat nodes + 32 * j"
proof -
  have j: "unat (word_of_nat j :: u64) = j" using assms by (simp add: unat_of_nat)
  have "unat (32 * word_of_nat j :: u64) = 32 * j" using assms j by (simp add: unat_word_ariths(2))
  then show ?thesis using assms unfolding node_addr_def by (subst unat_add_bounded) simp_all
qed

lemma node_addr_inj:
  assumes "unat nodes + 32 * N < 2 ^ 64" "j \<le> N" "k \<le> N"
  shows "node_addr nodes j = node_addr nodes k \<longleftrightarrow> j = k"
  using unat_node_addr [OF assms(1,2)] unat_node_addr [OF assms(1,3)] by (auto simp: word_unat_eq_iff)

text \<open>The link that the loop writes into node \<open>j\<close>; the last node keeps its \<^verbatim>\<open>next\<close> and the first its \<^verbatim>\<open>prev\<close>.\<close>

definition linked :: "addr \<Rightarrow> nat \<Rightarrow> nat \<Rightarrow> queue_node \<Rightarrow> queue_node" where
  "linked nodes N j nd = nd\<lparr>qn_prev := (if 0 < j then node_addr nodes (j - 1) else qn_prev nd),
     qn_next := (if Suc j < N then node_addr nodes (Suc j) else qn_next nd)\<rparr>"

lemma link_nodes_spec:
  assumes "unat nodes + 32 * N < 2 ^ 64" "nodes \<noteq> 0" "N = unat n" "i \<le> N" "\<forall>j < N. \<exists>nd. h (node_addr nodes j) = Some nd"
  shows "\<exists>h'. link_nodes nodes n h (word_of_nat i) = Some h' \<and>
    (\<forall>j < N. h' (node_addr nodes j) = (if i \<le> j then map_option (linked nodes N j) (h (node_addr nodes j)) else h (node_addr nodes j)))"
  using assms(4,5)
proof (induction "N - i" arbitrary: i h)
  case 0
  then have "i = N" by simp
  then have "\<not> word_of_nat i < n" using assms(3) by simp
  then show ?case using \<open>i = N\<close> by (subst link_nodes.simps) simp
next
  case (Suc m)
  let ?p = "node_addr nodes i"
  have i: "i < N" "unat (word_of_nat i :: u64) = i" "word_of_nat i < n" "word_of_nat i + 1 = (word_of_nat (Suc i) :: u64)"
  proof -
    show "i < N" using Suc.hyps by simp
    show u: "unat (word_of_nat i :: u64) = i" using \<open>i < N\<close> assms(1) by (simp add: unat_of_nat)
    then show "word_of_nat i < n" using \<open>i < N\<close> assms(3) by (simp add: word_less_nat_alt)
    show "word_of_nat i + 1 = (word_of_nat (Suc i) :: u64)" by simp
  qed
  have u': "unat (word_of_nat (Suc i) :: u64) = Suc i" using i(1) assms(1) unfolding unat_of_nat by simp
  have ad: "nodes + NODE_T * word_of_nat i = ?p" "0 < i \<Longrightarrow> nodes + NODE_T * (word_of_nat i - 1) = node_addr nodes (i - 1)"
      "nodes + NODE_T * (word_of_nat (Suc i)) = node_addr nodes (Suc i)"
    by (simp_all add: node_addr_def of_nat_diff)
  have nz: "?p \<noteq> 0" using unat_node_addr [OF assms(1), of i] i(1) assms(2) by (auto simp: word_unat_eq_iff)
  obtain nd where nd: "h ?p = Some nd" using Suc.prems(2) i(1) by blast
  have pos: "(0 < (word_of_nat i :: u64)) = (0 < i)" using i(2) by (simp add: word_less_nat_alt)
  have nxt: "(word_of_nat (Suc i) < n) = (Suc i < N)" using u' assms(3) by (simp add: word_less_nat_alt)
  have step: "link_nodes nodes n h (word_of_nat i) = link_nodes nodes n (h(?p \<mapsto> linked nodes N i nd)) (word_of_nat (Suc i))"
  proof -
    have "link_nodes nodes n h (word_of_nat i) = do {
        h \<leftarrow> (if 0 < i then set_prev h ?p (node_addr nodes (i - 1)) else Some h);
        h \<leftarrow> (if Suc i < N then set_next h ?p (node_addr nodes (Suc i)) else Some h);
        link_nodes nodes n h (word_of_nat (Suc i)) }"
      by (subst link_nodes.simps) (simp only: i(3,4) pos nxt ad if_True cong: if_cong)
    then show ?thesis using nd nz by (auto simp: set_prev_def set_next_def linked_def fun_upd_idem)
  qed
  have "\<forall>j < N. \<exists>nd'. (h(?p \<mapsto> linked nodes N i nd)) (node_addr nodes j) = Some nd'" using Suc.prems(2) by auto
  obtain h' where h': "link_nodes nodes n (h(?p \<mapsto> linked nodes N i nd)) (word_of_nat (Suc i)) = Some h'"
      "\<forall>j < N. h' (node_addr nodes j) = (if Suc i \<le> j then map_option (linked nodes N j) ((h(?p \<mapsto> linked nodes N i nd)) (node_addr nodes j))
         else (h(?p \<mapsto> linked nodes N i nd)) (node_addr nodes j))"
  proof -
    have "m = N - Suc i" "Suc i \<le> N" using Suc.hyps(2) by simp_all
    from Suc.hyps(1) [OF this \<open>\<forall>j < N. \<exists>nd'. (h(?p \<mapsto> linked nodes N i nd)) (node_addr nodes j) = Some nd'\<close>] that show thesis by blast
  qed
  have "h' (node_addr nodes j) = (if i \<le> j then map_option (linked nodes N j) (h (node_addr nodes j)) else h (node_addr nodes j))" if "j < N" for j
    using h'(2) that node_addr_inj [OF assms(1), of j i] i(1) nd by (cases "j = i") auto
  then show ?case using step h'(1) by auto
qed

lemma node_addr_NULL:
  assumes "unat nodes + 32 * N < 2 ^ 64" "j \<le> N" "nodes \<noteq> 0"
  shows "node_addr nodes j \<noteq> NULL"
  using unat_node_addr [OF assms(1,2)] assms(3) by (auto simp: word_unat_eq_iff)

lemma linked_chain:
  assumes "unat nodes + 32 * N < 2 ^ 64" "nodes \<noteq> 0" "i \<le> N"
    "\<forall>j < N. \<exists>nd. h (node_addr nodes j) = Some nd \<and> qn_prev nd = (if 0 < j then node_addr nodes (j - 1) else NULL) \<and>
      qn_next nd = (if Suc j < N then node_addr nodes (Suc j) else NULL)"
  shows "dll h (if 0 < i then node_addr nodes (i - 1) else NULL) (map (node_addr nodes) [i ..< N]) NULL"
  using assms(3)
proof (induction "N - i" arbitrary: i)
  case (Suc m)
  then have i: "i < N" "[i ..< N] = i # [Suc i ..< N]" "m = N - Suc i" "Suc i \<le> N" by (simp_all add: upt_rec)
  have "hdp (map (node_addr nodes) [Suc i ..< N]) NULL = (if Suc i < N then node_addr nodes (Suc i) else NULL)" by (simp add: upt_rec)
  then show ?case using Suc.hyps(1) [OF i(3,4)] i(1,2) assms(4) node_addr_NULL [OF assms(1) _ assms(2), of i] by auto
qed simp

lemma link_array:
  assumes "unat nodes + 32 * N < 2 ^ 64" "nodes \<noteq> 0" "N = unat n" "0 < N" "\<forall>j < N. \<exists>nd. h (node_addr nodes j) = Some nd"
    "\<forall>nd. h (node_addr nodes (N - 1)) = Some nd \<longrightarrow> qn_next nd = NULL"
  shows "\<exists>h1 h2. set_prev h nodes NULL = Some h1 \<and> link_nodes nodes n h1 0 = Some h2 \<and> dll h2 NULL (map (node_addr nodes) [0 ..< N]) NULL"
proof -
  have n0: "node_addr nodes 0 = nodes" by (simp add: node_addr_def)
  obtain nd0 where nd0: "h nodes = Some nd0" using assms(4,5) n0 by metis
  define h1 where "h1 = h(nodes \<mapsto> nd0\<lparr>qn_prev := NULL\<rparr>)"
  have "\<forall>j < N. \<exists>nd. h1 (node_addr nodes j) = Some nd" using assms(5) by (auto simp: h1_def)
  then obtain h2 where h2: "link_nodes nodes n h1 0 = Some h2" "\<forall>j < N. h2 (node_addr nodes j) = map_option (linked nodes N j) (h1 (node_addr nodes j))"
    using link_nodes_spec [OF assms(1-3), of 0 h1] by auto
  have "\<exists>nd. h2 (node_addr nodes j) = Some nd \<and> qn_prev nd = (if 0 < j then node_addr nodes (j - 1) else NULL) \<and>
      qn_next nd = (if Suc j < N then node_addr nodes (Suc j) else NULL)" if j: "j < N" for j
  proof -
    obtain nd where nd: "h (node_addr nodes j) = Some nd" using assms(5) j by blast
    have last: "Suc j < N \<or> qn_next nd = NULL" using assms(6) nd j by (cases "Suc j < N") (auto simp: Suc_lessI dest: less_antisym)
    show ?thesis
    proof (cases "j = 0")
      case True
      then show ?thesis using h2(2) j nd nd0 n0 last by (auto simp: h1_def linked_def)
    next
      case False
      then have "node_addr nodes j \<noteq> nodes" using node_addr_inj [OF assms(1), of j 0] j n0 by auto
      then show ?thesis using h2(2) j nd False last by (auto simp: h1_def linked_def)
    qed
  qed
  then have "dll h2 NULL (map (node_addr nodes) [0 ..< N]) NULL" using linked_chain [OF assms(1,2), of 0 h2] by simp
  moreover have "set_prev h nodes NULL = Some h1" using nd0 assms(2) by (simp add: set_prev_def h1_def)
  ultimately show ?thesis using h2(1) by blast
qed

lemma vmm_init_spec:
  assumes "\<not> vm_ready st" "\<not> vm_locked st" "freevmr_list st = NULL" "usedvmr_list st = NULL" "used_memsz st = 0"
    "N = unat (KiB (env_total env) * 2) div 4096" "0 < N" "unat nodes + 32 * N < 2 ^ 64" "nodes \<noteq> 0"
    "unat KHEAPBASE + unat (KiB (env_total env) * 2) < 2 ^ 64"
    "\<forall>j < N. \<exists>nd. vm_nodes st (node_addr nodes j) = Some nd" "\<forall>nd. vm_nodes st (node_addr nodes (N - 1)) = Some nd \<longrightarrow> qn_next nd = NULL"
    "init_watermark st = -1" "env_pm_init env = 0" "\<forall>order. env_get_pages env order = (0, pa)" "nodes = V2HI pa"
  shows "\<exists>st'. vmm_init env st = Some st' \<and> vm_valid st' \<and> vm_avail st' = span KHEAPBASE (KiB (env_total env) * 2) \<and> vm_held st' = {} \<and> (1 < N \<longrightarrow> vm_room st')"
proof -
  let ?K = "KiB (env_total env) * 2" and ?A = "node_addr nodes"
  let ?ns = "map ?A [1 ..< N]"
  define st1 where "st1 = st\<lparr>init_watermark := 0, vm_locked := True, kheap_size := ?K\<rparr>"
  have nn: "NNODES st1 = ?K div 4096" "N = unat (?K div 4096)" using assms(6) by (simp_all add: NNODES_def st1_def unat_div)
  have n0: "?A 0 = nodes" "[0 ..< N] = 0 # [1 ..< N]" using assms(7) by (simp_all add: node_addr_def upt_rec)
  obtain h1 h2 where h: "set_prev (vm_nodes st) nodes NULL = Some h1" "link_nodes nodes (NNODES st1) h1 0 = Some h2" "dll h2 NULL (nodes # ?ns) NULL"
    using link_array [OF assms(8,9) nn(2) assms(7,11,12)] n0 unfolding nn(1) by auto
  have "inj_on ?A {0 ..< N}" using node_addr_inj [OF assms(8)] by (simp add: inj_on_def)
  then have "distinct (map ?A [0 ..< N])" by (simp add: distinct_map)
  then have dist: "distinct (nodes # ?ns)" using n0 by simp
  define st2 where "st2 = st1\<lparr>vm_nodes := h2, free_node_list := nodes\<rparr>"
  define st3 where "st3 h = st2\<lparr>free_node_list := hdp ?ns NULL, vm_nodes := h, nd_base := (nd_base st2)(nodes := 0), nd_size := (nd_size st2)(nodes := 0)\<rparr>" for h
  obtain h3 where g: "free_node_get st2 = Some (nodes, st3 h3)" "dll h3 NULL ?ns NULL" "h3 nodes = Some \<lparr>qn_prev = NULL, qn_data = 0, qn_next = NULL\<rparr>"
    using free_node_get_spec [of st2 nodes ?ns] h(3) dist unfolding st3_def by (auto simp: st2_def st1_def)
  define st4 where "st4 = (st3 h3)\<lparr>nd_base := (nd_base st2)(nodes := KHEAPBASE), nd_size := (nd_size st2)(nodes := ?K)\<rparr>"
  have z: "zero_node (st3 h3) nodes = Some (st3 h3)" using g(3) assms(9) by (simp add: zero_node_def st3_def fun_upd_idem)
  have shape4: "vm_shape st4 [] [] ?ns" using assms(3,4) g(2) dist by (simp add: vm_shape_def st4_def st3_def st2_def st1_def)
  have K: "0 < unat ?K" using assms(6,7) by (cases "unat ?K = 0") auto
  then have pr: "proper st4 nodes" using assms(10) by (simp add: proper_def st4_def lo_def hi_def)
  obtain st5 where p: "freevmr_put st4 nodes = Some st5" "released st4 [] [] ?ns nodes st5"
    using freevmr_put_spec [OF _ shape4 _ assms(9) _ pr] dist g(3) by (auto simp: st4_def st3_def st2_def st1_def)
  then obtain fs' ns' where r: "vm_shape st5 fs' [] ns'" "vm_locked st5" "used_memsz st5 = 0" "\<forall>q \<in> set fs'. proper st5 q"
      "sorted_wrt (\<lambda>p q. hi st5 p < lo st5 q) fs'" "cover st5 fs' = span KHEAPBASE ?K" "length ?ns \<le> length ns'"
    using assms(5) unfolding released_def by (auto simp: st4_def st3_def st2_def st1_def extent_def span_def lo_def hi_def)
  define st' where "st' = st5\<lparr>vm_ready := True, vm_locked := False\<rparr>"
  have e: "nd_base st' = nd_base st5" "nd_size st' = nd_size st5" by (simp_all add: st'_def)
  have "vm_ranges st' fs' []" using r(3-5) ranges_cong [OF e] by (simp add: vm_ranges_def st'_def)
  then have inv: "vm_inv st' fs' [] ns'" using r(1) vm_shape_cong [of st' st5] by (simp add: vm_inv_def st'_def)
  have run: "vmm_init env st = Some st'"
  proof -
    have k: "kheap_size (st3 h3) = ?K" "nd_base (st3 h3) = (nd_base st2)(nodes := 0)" "nd_size (st3 h3) = (nd_size st2)(nodes := 0)"
      by (simp_all add: st3_def st2_def st1_def)
    have "unat ?K < 2 ^ 64" using unsigned_less [of ?K] by simp
    then have "N \<le> 2 ^ 52" using assms(6) by simp
    then have "unat (NNODES st1 * 32) + 4095 < 2 ^ 64" using nn by (simp add: unat_word_ariths(2) mult.commute)
    then obtain order where o: "get_page_order (NNODES st1 * 32) = Some order" using get_page_order_least by blast
    have "vmm_init env st = do { st \<leftarrow> freevmr_put st4 nodes; vm_unlock (st\<lparr>vm_ready := True\<rparr>) }"
      using assms(1,2,13-15) assms(16) [symmetric] o h(1,2) g(1) z k unfolding vmm_init_def Let_def vm_lock_def st4_def by (simp add: st1_def [symmetric] st2_def [symmetric])
    then show ?thesis using p(1) r(2) by (simp add: vm_unlock_def st'_def)
  qed
  have "vm_avail st' = span KHEAPBASE ?K" "vm_held st' = {}" "1 < N \<longrightarrow> vm_room st'"
    using vm_avail_eq [OF inv] r(6,7) ranges_cong(5) [OF e] by (auto simp: owned_def)
  then show ?thesis using run inv unfolding vm_valid_def by blast
qed

section \<open>Properties\<close>

lemma vmm_free_stale:
  assumes "vm_valid st" "a \<noteq> 0" "\<forall>sz. (a, sz) \<notin> vm_held st"
  shows "vmm_free st a = Some st"
proof -
  obtain fs us ns where inv: "vm_inv st fs us ns" using assms(1) by (auto simp: vm_valid_def)
  then have "List.find (\<lambda>p. a = nd_base st p) us = None" using assms(3) vm_avail_eq(2) [OF inv] by (auto simp: find_None_iff owned_def)
  then show ?thesis using vm_free_unknown [OF inv assms(2)] by (simp add: vmm_free_def)
qed

text \<open>C1: \<^verbatim>\<open>vmm_alloc\<close> is first fit.  When some stretch of \<open>sz\<close> free addresses exists it returns the lowest one,
  takes exactly these addresses out of the free ones and records the range as held; otherwise it returns null
  and changes nothing.  The lists stay well formed.  A node must be left in the pool, since the C code asserts it.
\<close>

theorem vmm_alloc_first_fit:
  assumes "vm_valid st" "vm_room st" "sz \<noteq> 0"
  shows "\<exists>a st'. vmm_alloc env st sz = Some (a, st') \<and> vm_valid st' \<and>
    (if \<exists>x. {x ..< x + unat sz} \<subseteq> vm_avail st
     then a \<noteq> 0 \<and> unat a = (LEAST x. {x ..< x + unat sz} \<subseteq> vm_avail st) \<and>
       vm_avail st' = vm_avail st - span a sz \<and> vm_held st' = insert (a, sz) (vm_held st)
     else a = 0 \<and> st' = st)"
  using vmm_alloc_spec [OF assms, of env] by (auto split: if_splits)

text \<open>C2: \<^verbatim>\<open>vmm_free\<close> of a held range makes exactly its addresses free again, whether or not the range is merged with
  its neighbours; for an address at which no held range starts it changes nothing.
\<close>

theorem vmm_free_exact:
  assumes "vm_valid st" "a \<noteq> 0"
  shows "\<exists>st'. vmm_free st a = Some st' \<and> vm_valid st' \<and>
    (\<forall>sz. (a, sz) \<in> vm_held st \<longrightarrow> vm_avail st' = vm_avail st \<union> span a sz \<and> vm_held st' = vm_held st - {(a, sz)}) \<and>
    ((\<forall>sz. (a, sz) \<notin> vm_held st) \<longrightarrow> st' = st)"
proof (cases "\<exists>sz. (a, sz) \<in> vm_held st")
  case True
  then obtain sz where sz: "(a, sz) \<in> vm_held st" by blast
  have "n = sz" if "(a, n) \<in> vm_held st" for n
  proof (rule ccontr)
    assume "n \<noteq> sz"
    then have "span a sz \<inter> span a n = {}" "span a sz \<noteq> {}" "span a n \<noteq> {}"
      using vm_held_span [OF assms(1) sz] vm_held_span(2) [OF assms(1) that] that by auto
    then show False by (auto simp: span_def)
  qed
  then show ?thesis using vmm_free_spec [OF assms(1) sz] sz by blast
next
  case False
  then show ?thesis using vmm_free_stale [OF assms] assms(1) by blast
qed

text \<open>C15: Allocating a range and freeing it is a round trip: the free addresses and the held ranges are those before.
\<close>

theorem vmm_alloc_free_roundtrip:
  assumes "vm_valid st" "vm_room st" "sz \<noteq> 0" "vmm_alloc env st sz = Some (a, st')" "a \<noteq> 0"
  shows "\<exists>st''. vmm_free st' a = Some st'' \<and> vm_valid st'' \<and> vm_avail st'' = vm_avail st \<and> vm_held st'' = vm_held st"
  using kvm.alloc_release [OF assms] .

text \<open>\<^verbatim>\<open>vmm_init\<close>, on an array of nodes whose last \<^verbatim>\<open>next\<close> link is null in memory, establishes the invariant with the whole
  kernel heap free and nothing held; the pool is not empty when there is more than one node.
\<close>

theorem vmm_init_establishes:
  assumes "\<not> vm_ready st" "\<not> vm_locked st" "freevmr_list st = NULL" "usedvmr_list st = NULL" "used_memsz st = 0"
    "N = unat (KiB (env_total env) * 2) div 4096" "0 < N" "unat nodes + 32 * N < 2 ^ 64" "nodes \<noteq> 0"
    "unat KHEAPBASE + unat (KiB (env_total env) * 2) < 2 ^ 64"
    "\<forall>j < N. \<exists>nd. vm_nodes st (node_addr nodes j) = Some nd" "\<forall>nd. vm_nodes st (node_addr nodes (N - 1)) = Some nd \<longrightarrow> qn_next nd = NULL"
    "init_watermark st = -1" "env_pm_init env = 0" "\<forall>order. env_get_pages env order = (0, pa)" "nodes = V2HI pa"
  shows "\<exists>st'. vmm_init env st = Some st' \<and> vm_valid st' \<and> vm_avail st' = span KHEAPBASE (KiB (env_total env) * 2) \<and> vm_held st' = {} \<and>
    (1 < N \<longrightarrow> vm_room st')"
  using vmm_init_spec [OF assms] .

section \<open>Witnesses\<close>

text \<open>A small state: two free ranges of one and two pages, one held page between them, two spare nodes.\<close>

definition kvm0 :: vmm where
  "kvm0 = \<lparr>vm_locked = False, kheap_size = 0x4000, vm_ready = True, init_watermark = 0, used_memsz = 0x1000, free_node_list = 0x60, usedvmr_list = 0x40,
     freevmr_list = 0x20,
     vm_nodes = [0x20 \<mapsto> \<lparr>qn_prev = 0, qn_data = 0, qn_next = 0x80\<rparr>, 0x80 \<mapsto> \<lparr>qn_prev = 0x20, qn_data = 0, qn_next = 0\<rparr>,
       0x40 \<mapsto> \<lparr>qn_prev = 0, qn_data = 0, qn_next = 0\<rparr>, 0x60 \<mapsto> \<lparr>qn_prev = 0, qn_data = 0, qn_next = 0\<rparr>],
     nd_base = (\<lambda>_. 0)(0x20 := 0x10000, 0x40 := 0x11000, 0x80 := 0x12000),
     nd_size = (\<lambda>_. 0)(0x20 := 0x1000, 0x40 := 0x1000, 0x80 := 0x2000)\<rparr>"

definition env0 :: vm_env where
  "env0 = \<lparr>env_total = 4, env_pm_init = 0, env_get_pages = (\<lambda>_. (0, 0x100))\<rparr>"

lemma kvm0_inv: "vm_inv kvm0 [0x20, 0x80] [0x40] [0x60]"
  unfolding vm_inv_def vm_shape_def vm_ranges_def
  by (simp add: kvm0_def proper_def lo_def hi_def extent_def Int_Un_distrib2)

lemmas kvm0_sets = vm_avail_eq [OF kvm0_inv]

lemma kvm0_valid: "vm_valid kvm0" "vm_room kvm0" "(0x11000, 0x1000) \<in> vm_held kvm0"
  using kvm0_inv kvm0_sets by (auto simp: vm_valid_def owned_def kvm0_def)

theorem vmm_alloc_first_fit_witness:
  "\<exists>a st'. vmm_alloc env0 kvm0 0x2000 = Some (a, st') \<and> vm_valid st' \<and>
    (if \<exists>x. {x ..< x + unat (0x2000 :: u64)} \<subseteq> vm_avail kvm0
     then a \<noteq> 0 \<and> unat a = (LEAST x. {x ..< x + unat (0x2000 :: u64)} \<subseteq> vm_avail kvm0) \<and>
       vm_avail st' = vm_avail kvm0 - span a 0x2000 \<and> vm_held st' = insert (a, 0x2000) (vm_held kvm0)
     else a = 0 \<and> st' = kvm0)"
  by (rule vmm_alloc_first_fit [OF kvm0_valid(1,2)]) simp

theorem vmm_free_exact_witness:
  "\<exists>st'. vmm_free kvm0 0x11000 = Some st' \<and> vm_valid st' \<and>
    (\<forall>sz. (0x11000, sz) \<in> vm_held kvm0 \<longrightarrow> vm_avail st' = vm_avail kvm0 \<union> span 0x11000 sz \<and> vm_held st' = vm_held kvm0 - {(0x11000, sz)}) \<and>
    ((\<forall>sz. (0x11000, sz) \<notin> vm_held kvm0) \<longrightarrow> st' = kvm0)"
  by (rule vmm_free_exact [OF kvm0_valid(1)]) simp

lemma kvm0_alloc: "\<exists>st'. vmm_alloc env0 kvm0 0x800 = Some (0x10000, st')"
proof -
  have "List.find (\<lambda>p. nd_size kvm0 p \<ge> 0x800) [0x20, 0x80] = Some 0x20" by (simp add: kvm0_def)
  moreover have "nd_base kvm0 0x20 = 0x10000" by (simp add: kvm0_def)
  ultimately show ?thesis using vm_alloc_fits [OF kvm0_inv, of "0x800" "0x20" env0] by (auto simp: vmm_alloc_def)
qed

theorem vmm_alloc_free_roundtrip_witness:
  "\<exists>st' st''. vmm_alloc env0 kvm0 0x800 = Some (0x10000, st') \<and> vmm_free st' 0x10000 = Some st'' \<and> vm_valid st'' \<and>
    vm_avail st'' = vm_avail kvm0 \<and> vm_held st'' = vm_held kvm0"
proof -
  obtain st' where "vmm_alloc env0 kvm0 0x800 = Some (0x10000, st')" using kvm0_alloc by blast
  with vmm_alloc_free_roundtrip [OF kvm0_valid(1,2) _ this] show ?thesis by auto
qed

definition kvm1 :: vmm where
  "kvm1 = kvm0\<lparr>vm_ready := False, init_watermark := -1, freevmr_list := 0, usedvmr_list := 0, used_memsz := 0,
     vm_nodes := [0xFFFF800000000100 \<mapsto> \<lparr>qn_prev = 7, qn_data = 7, qn_next = 7\<rparr>, 0xFFFF800000000120 \<mapsto> \<lparr>qn_prev = 7, qn_data = 7, qn_next = 0\<rparr>]\<rparr>"

theorem vmm_init_establishes_witness:
  "\<exists>st'. vmm_init env0 kvm1 = Some st' \<and> vm_valid st' \<and> vm_avail st' = span KHEAPBASE (KiB (env_total env0) * 2) \<and> vm_held st' = {} \<and>
    (1 < (2 :: nat) \<longrightarrow> vm_room st')"
proof (rule vmm_init_establishes)
  have lt2: "j < 2 \<longleftrightarrow> j = 0 \<or> j = 1" for j :: nat by auto
  show "\<forall>j < 2. \<exists>nd. vm_nodes kvm1 (node_addr 0xFFFF800000000100 j) = Some nd" by (auto simp: lt2 kvm1_def node_addr_def)
  show "\<forall>nd. vm_nodes kvm1 (node_addr 0xFFFF800000000100 (2 - 1)) = Some nd \<longrightarrow> qn_next nd = NULL" by (simp add: kvm1_def node_addr_def)
qed (simp_all add: kvm1_def kvm0_def env0_def KiB_def V2HI_def)

end
