(* ===== verification/Btree.thy ===== *)
theory Btree
  imports Stack "HOL-Library.Tree"
begin

text \<open>
  The binary search tree of \<^verbatim>\<open>src/src/kernel/ds/btree/btree.c\<close>, its iterator \<^verbatim>\<open>btree_iter.c\<close> and the generic
  iterator \<^verbatim>\<open>src/src/kernel/ds/iter.c\<close>.  Nodes carry a key, a data pointer, links to both children, to the
  parent and to the tree object.  The state maps addresses to nodes and to tree objects.  The member
  \<^verbatim>\<open>traversal_queue\<close> of a tree is used by no operation and left out.
\<close>

section \<open>State\<close>

record btree_node =
  bn_key :: u64
  bn_data :: addr
  bn_left :: addr
  bn_parent :: addr
  bn_right :: addr
  bn_btree :: addr

record btree =
  bt_nr_nodes :: u64
  bt_root :: addr
  bt_lock :: bool

type_synonym bheap = "addr \<Rightarrow> btree_node option"

record bstate =
  bs_nodes :: bheap
  bs_trees :: "addr \<Rightarrow> btree option"

definition bload :: "bheap \<Rightarrow> addr \<Rightarrow> btree_node option" where
  "bload h p = (if p = NULL then None else h p)"

definition get_btree :: "bstate \<Rightarrow> addr \<Rightarrow> btree option" where
  "get_btree st b = (if b = NULL then None else bs_trees st b)"

definition put_btree :: "bstate \<Rightarrow> addr \<Rightarrow> btree \<Rightarrow> bstate" where
  "put_btree st b bt = st\<lparr>bs_trees := (bs_trees st)(b \<mapsto> bt)\<rparr>"

definition btree_assert_locked :: "bstate \<Rightarrow> addr \<Rightarrow> btree option" where
  "btree_assert_locked st b = do { bt \<leftarrow> get_btree st b; assert_that (bt_lock bt); Some bt }"

definition nr_nodes_add :: "bstate \<Rightarrow> addr \<Rightarrow> u64 \<Rightarrow> bstate option" where
  "nr_nodes_add st b k = do { bt \<leftarrow> get_btree st b; Some (put_btree st b (bt\<lparr>bt_nr_nodes := bt_nr_nodes bt + k\<rparr>)) }"

definition set_root :: "bstate \<Rightarrow> addr \<Rightarrow> addr \<Rightarrow> bstate option" where
  "set_root st b p = do { bt \<leftarrow> get_btree st b; Some (put_btree st b (bt\<lparr>bt_root := p\<rparr>)) }"

definition bset_parent :: "bheap \<Rightarrow> addr \<Rightarrow> addr \<Rightarrow> bheap option" where
  "bset_parent h p v = do { n \<leftarrow> bload h p; Some (h(p \<mapsto> n\<lparr>bn_parent := v\<rparr>)) }"

definition bset_left :: "bheap \<Rightarrow> addr \<Rightarrow> addr \<Rightarrow> bheap option" where
  "bset_left h p v = do { n \<leftarrow> bload h p; Some (h(p \<mapsto> n\<lparr>bn_left := v\<rparr>)) }"

definition bset_right :: "bheap \<Rightarrow> addr \<Rightarrow> addr \<Rightarrow> bheap option" where
  "bset_right h p v = do { n \<leftarrow> bload h p; Some (h(p \<mapsto> n\<lparr>bn_right := v\<rparr>)) }"

definition bset_btree :: "bheap \<Rightarrow> addr \<Rightarrow> addr \<Rightarrow> bheap option" where
  "bset_btree h p v = do { n \<leftarrow> bload h p; Some (h(p \<mapsto> n\<lparr>bn_btree := v\<rparr>)) }"

section \<open>Objects\<close>

definition btree_init :: "bstate \<Rightarrow> addr \<Rightarrow> (int \<times> bstate) option" where
  "btree_init st b =
     (if b = NULL then Some (- EINVAL, st)
      else do {
        _ \<leftarrow> get_btree st b;
        Some (0, put_btree st b \<lparr>bt_nr_nodes = 0, bt_root = NULL, bt_lock = False\<rparr>) })"

definition btree_alloc :: "addr \<Rightarrow> bstate \<Rightarrow> bool \<Rightarrow> (int \<times> addr option \<times> bstate) option" where
  "btree_alloc p st pbtree =
     (if \<not> pbtree then Some (- EINVAL, None, st)
      else if p = NULL then Some (- ENOMEM, None, st)
      else Some (0, Some p, put_btree st p \<lparr>bt_nr_nodes = 0, bt_root = NULL, bt_lock = False\<rparr>))"

definition btree_free :: "bstate \<Rightarrow> addr \<Rightarrow> bstate option" where
  "btree_free st b =
     (if b = NULL then Some st
      else do { _ \<leftarrow> get_btree st b; Some (st\<lparr>bs_trees := (bs_trees st)(b := None)\<rparr>) })"

definition btree_alloc_node :: "addr \<Rightarrow> bstate \<Rightarrow> addr \<times> bstate" where
  "btree_alloc_node p st =
     (if p = NULL then (NULL, st)
      else (p, st\<lparr>bs_nodes := (bs_nodes st)(p \<mapsto>
        \<lparr>bn_key = 0, bn_data = 0, bn_left = NULL, bn_parent = NULL, bn_right = NULL, bn_btree = NULL\<rparr>)\<rparr>))"

definition btree_free_node :: "bstate \<Rightarrow> addr \<Rightarrow> bstate option" where
  "btree_free_node st p =
     (if p = NULL then Some st
      else do { _ \<leftarrow> bload (bs_nodes st) p; Some (st\<lparr>bs_nodes := (bs_nodes st)(p := None)\<rparr>) })"

section \<open>Insertion, search and deletion\<close>

partial_function (option) insert_walk :: "bheap \<Rightarrow> addr \<Rightarrow> addr \<Rightarrow> (int \<times> bheap) option" where
  "insert_walk h node parent =
     (if parent = NULL then Some (0, h)
      else do {
        n \<leftarrow> bload h node;
        pn \<leftarrow> bload h parent;
        if bn_key n = bn_key pn then Some (- EEXIST, h)
        else do {
          let iter = (if bn_key n < bn_key pn then bn_left pn else bn_right pn);
          h \<leftarrow> (if iter = NULL
             then do {
               h \<leftarrow> bset_parent h node parent;
               if bn_key n < bn_key pn then bset_left h parent node else bset_right h parent node }
             else Some h);
          insert_walk h node iter } })"

definition btree_insert_node :: "bstate \<Rightarrow> addr \<Rightarrow> addr \<Rightarrow> (int \<times> bstate) option" where
  "btree_insert_node st b node =
     (if b = NULL \<or> node = NULL then Some (- EINVAL, st)
      else do {
        bt \<leftarrow> btree_assert_locked st b;
        h \<leftarrow> bset_parent (bs_nodes st) node NULL;
        (err, st) \<leftarrow>
          (if bt_root bt = NULL then do { st \<leftarrow> set_root (st\<lparr>bs_nodes := h\<rparr>) b node; Some (0, st) }
           else do { (err, h) \<leftarrow> insert_walk h node (bt_root bt); Some (err, st\<lparr>bs_nodes := h\<rparr>) });
        if err \<noteq> 0 then Some (err, st)
        else do {
          st \<leftarrow> nr_nodes_add st b 1;
          h \<leftarrow> bset_btree (bs_nodes st) node b;
          Some (0, st\<lparr>bs_nodes := h\<rparr>) } })"

definition btree_node_isleft :: "bheap \<Rightarrow> addr \<Rightarrow> bool option" where
  "btree_node_isleft h node = do {
     n \<leftarrow> bload h node;
     if bn_parent n = NULL then Some False
     else do { p \<leftarrow> bload h (bn_parent n); Some (bn_left p = node) } }"

definition btree_node_isright :: "bheap \<Rightarrow> addr \<Rightarrow> bool option" where
  "btree_node_isright h node = do {
     n \<leftarrow> bload h node;
     if bn_parent n = NULL then Some False
     else do { p \<leftarrow> bload h (bn_parent n); Some (bn_right p = node) } }"

text \<open>Taking a node off its parent, the first half of \<^verbatim>\<open>btree_delete_node\<close>.\<close>

definition detach_node :: "bstate \<Rightarrow> addr \<Rightarrow> addr \<Rightarrow> bstate option" where
  "detach_node st b node = do {
     bt \<leftarrow> get_btree st b;
     n \<leftarrow> bload (bs_nodes st) node;
     if node = bt_root bt then set_root st b NULL
     else do {
       right \<leftarrow> btree_node_isright (bs_nodes st) node;
       left \<leftarrow> btree_node_isleft (bs_nodes st) node;
       h \<leftarrow> (if right then bset_right (bs_nodes st) (bn_parent n) NULL
             else if left then bset_left (bs_nodes st) (bn_parent n) NULL
             else Some (bs_nodes st));
       Some (st\<lparr>bs_nodes := h\<rparr>) } }"

text \<open>\<^verbatim>\<open>if (right) { btree->nr_nodes--; btree_insert_node(btree, right); }\<close>\<close>

definition reinsert :: "bstate \<Rightarrow> addr \<Rightarrow> addr \<Rightarrow> bstate option" where
  "reinsert st b p =
     (if p \<noteq> NULL
      then do { st \<leftarrow> nr_nodes_add st b (-1); (_, st) \<leftarrow> btree_insert_node st b p; Some st }
      else Some st)"

definition btree_delete_node :: "bstate \<Rightarrow> addr \<Rightarrow> addr \<Rightarrow> bstate option" where
  "btree_delete_node st b node =
     (if b = NULL then Some st
      else do {
        _ \<leftarrow> btree_assert_locked st b;
        if node = NULL then Some st
        else do {
          n \<leftarrow> bload (bs_nodes st) node;
          st \<leftarrow> detach_node st b node;
          st \<leftarrow> btree_free_node st node;
          st \<leftarrow> nr_nodes_add st b (-1);
          st \<leftarrow> reinsert st b (bn_right n);
          reinsert st b (bn_left n) } })"

text \<open>The last node on the way along one kind of child.\<close>

partial_function (option) walk_far :: "(btree_node \<Rightarrow> addr) \<Rightarrow> bheap \<Rightarrow> addr \<Rightarrow> addr \<Rightarrow> addr option" where
  "walk_far child h tmp node =
     (if tmp = NULL then Some node else do { n \<leftarrow> bload h tmp; walk_far child h (child n) tmp })"

definition btree_least_node :: "bstate \<Rightarrow> addr \<Rightarrow> addr option" where
  "btree_least_node st b =
     (if b = NULL then Some NULL
      else do { bt \<leftarrow> btree_assert_locked st b; walk_far bn_left (bs_nodes st) (bt_root bt) NULL })"

definition btree_largest_node :: "bstate \<Rightarrow> addr \<Rightarrow> addr option" where
  "btree_largest_node st b =
     (if b = NULL then Some NULL
      else do { bt \<leftarrow> btree_assert_locked st b; walk_far bn_right (bs_nodes st) (bt_root bt) NULL })"

partial_function (option) lookup_walk :: "bheap \<Rightarrow> addr \<Rightarrow> u64 \<Rightarrow> addr option" where
  "lookup_walk h node key =
     (if node = NULL then Some NULL
      else do {
        n \<leftarrow> bload h node;
        if bn_key n = key then Some node
        else lookup_walk h (if key < bn_key n then bn_left n else bn_right n) key })"

definition btree_lookup :: "bstate \<Rightarrow> addr \<Rightarrow> u64 \<Rightarrow> addr option" where
  "btree_lookup st b key =
     (if b = NULL then Some NULL
      else do { bt \<leftarrow> btree_assert_locked st b; lookup_walk (bs_nodes st) (bt_root bt) key })"

definition btree_delete :: "bstate \<Rightarrow> addr \<Rightarrow> u64 \<Rightarrow> bstate option" where
  "btree_delete st b key = do {
     _ \<leftarrow> btree_assert_locked st b;
     node \<leftarrow> btree_lookup st b key;
     btree_delete_node st b node }"

text \<open>The error and what is stored through \<^verbatim>\<open>pdata\<close>, if it is not null.\<close>

definition btree_search :: "bstate \<Rightarrow> addr \<Rightarrow> u64 \<Rightarrow> bool \<Rightarrow> (int \<times> addr option) option" where
  "btree_search st b key pdata = do {
     _ \<leftarrow> btree_assert_locked st b;
     node \<leftarrow> btree_lookup st b key;
     if node = NULL then Some (- ENOENT, None)
     else if pdata then do { n \<leftarrow> bload (bs_nodes st) node; Some (0, Some (bn_data n)) }
     else Some (0, None) }"

definition btree_insert :: "addr \<Rightarrow> bstate \<Rightarrow> addr \<Rightarrow> u64 \<Rightarrow> addr \<Rightarrow> (int \<times> bstate) option" where
  "btree_insert p st b key data =
     (if b = NULL then Some (- EINVAL, st)
      else do {
        _ \<leftarrow> btree_assert_locked st b;
        let (node, st) = btree_alloc_node p st;
        if node = NULL then Some (- ENOMEM, st)
        else do {
          n \<leftarrow> bload (bs_nodes st) node;
          let st = st\<lparr>bs_nodes := (bs_nodes st)(node \<mapsto> n\<lparr>bn_key := key, bn_data := data\<rparr>)\<rparr>;
          (err, st) \<leftarrow> btree_insert_node st b node;
          if err \<noteq> 0 then do { st \<leftarrow> btree_free_node st node; Some (err, st) }
          else Some (0, st) } })"

definition btree_least :: "bstate \<Rightarrow> addr \<Rightarrow> addr option" where
  "btree_least st b =
     (if b = NULL then Some NULL
      else do {
        node \<leftarrow> btree_least_node st b;
        if node = NULL then Some NULL else do { n \<leftarrow> bload (bs_nodes st) node; Some (bn_data n) } })"

definition btree_largest :: "bstate \<Rightarrow> addr \<Rightarrow> addr option" where
  "btree_largest st b =
     (if b = NULL then Some NULL
      else do {
        node \<leftarrow> btree_largest_node st b;
        if node = NULL then Some NULL else do { n \<leftarrow> bload (bs_nodes st) node; Some (bn_data n) } })"

section \<open>Traversal\<close>

text \<open>
  \<open>al\<close> are the addresses that \<^verbatim>\<open>kmalloc\<close> returns in turn; \<^verbatim>\<open>enqueue\<close> asks for one unless it refuses a duplicate.
  The errors of the two recursive calls are dropped, as in the code.
\<close>

definition head_or_null :: "addr list \<Rightarrow> addr" where
  "head_or_null al = (case al of [] \<Rightarrow> NULL | p # _ \<Rightarrow> p)"

partial_function (option) btree_node_traverse ::
    "bstate \<Rightarrow> addr list \<Rightarrow> qstate \<Rightarrow> addr \<Rightarrow> addr \<Rightarrow> (int \<times> addr list \<times> qstate) option" where
  "btree_node_traverse st al qs node q = do {
     _ \<leftarrow> queue_assert_locked qs q;
     if node = NULL then Some (0, al, qs)
     else do {
       n \<leftarrow> bload (bs_nodes st) node;
       _ \<leftarrow> btree_assert_locked st (bn_btree n);
       (_, al, qs) \<leftarrow> btree_node_traverse st al qs (bn_left n) q;
       (err, _, qs) \<leftarrow> enqueue (head_or_null al) qs q (bn_data n) QUEUE_UNIQUE;
       let al = (if err = - EEXIST then al else tl al);
       if err \<noteq> 0 then Some (err, al, qs)
       else do {
         (_, al, qs) \<leftarrow> btree_node_traverse st al qs (bn_right n) q;
         Some (0, al, qs) } } }"

definition btree_traverse :: "bstate \<Rightarrow> addr list \<Rightarrow> qstate \<Rightarrow> addr \<Rightarrow> addr \<Rightarrow> (int \<times> addr list \<times> qstate) option" where
  "btree_traverse st al qs b q = do {
     bt \<leftarrow> btree_assert_locked st b;
     _ \<leftarrow> queue_assert_locked qs q;
     (err, al, qs) \<leftarrow> btree_node_traverse st al qs (bt_root bt) q;
     if err \<noteq> 0 then do { qs \<leftarrow> queue_flush qs q; Some (err, al, qs) } else Some (err, al, qs) }"

text \<open>The callback is a function on a state of its own.\<close>

partial_function (option) btree_traverse_inorder ::
    "bstate \<Rightarrow> addr \<Rightarrow> (addr \<Rightarrow> 's \<Rightarrow> int \<times> 's) \<Rightarrow> 's \<Rightarrow> (int \<times> 's) option" where
  "btree_traverse_inorder st node cb s =
     (if node = NULL then Some (- EINVAL, s)
      else do {
        n \<leftarrow> bload (bs_nodes st) node;
        _ \<leftarrow> btree_assert_locked st (bn_btree n);
        (_, s) \<leftarrow> btree_traverse_inorder st (bn_left n) cb s;
        let (err, s) = cb (bn_data n) s;
        if err \<noteq> 0 then Some (err, s)
        else do { (_, s) \<leftarrow> btree_traverse_inorder st (bn_right n) cb s; Some (0, s) } })"

partial_function (option) btree_flush_node :: "bstate \<Rightarrow> addr \<Rightarrow> (int \<times> bstate) option" where
  "btree_flush_node st node =
     (if node = NULL then Some (0, st)
      else do {
        n \<leftarrow> bload (bs_nodes st) node;
        _ \<leftarrow> btree_assert_locked st (bn_btree n);
        (_, st) \<leftarrow> btree_flush_node st (bn_left n);
        n \<leftarrow> bload (bs_nodes st) node;
        st \<leftarrow> btree_delete_node st (bn_btree n) node;
        (_, st) \<leftarrow> btree_flush_node st (bn_right n);
        Some (0, st) })"

definition btree_flush :: "bstate \<Rightarrow> addr \<Rightarrow> (int \<times> bstate) option" where
  "btree_flush st b = do { bt \<leftarrow> btree_assert_locked st b; btree_flush_node st (bt_root bt) }"

section \<open>Iterators\<close>

text \<open>An iterator is a queue; the callback that fills it is a function on the queues.\<close>

definition iter_init :: "qstate \<Rightarrow> addr \<Rightarrow> (qstate \<Rightarrow> addr \<Rightarrow> (int \<times> qstate) option) \<Rightarrow> (int \<times> qstate) option" where
  "iter_init qs iter init_cb =
     (if iter = NULL then Some (- EINVAL, qs)
      else do { qs \<leftarrow> queue_lock qs iter; (err, qs) \<leftarrow> init_cb qs iter; qs \<leftarrow> queue_unlock qs iter; Some (err, qs) })"

text \<open>The operations that take an item share a frame.\<close>

definition iter_with :: "(qstate \<Rightarrow> addr \<Rightarrow> bool \<Rightarrow> (int \<times> addr option \<times> qstate) option) \<Rightarrow> qstate \<Rightarrow> addr \<Rightarrow> bool \<Rightarrow> (int \<times> addr option \<times> qstate) option" where
  "iter_with body qs iter item =
     (if iter = NULL \<or> \<not> item then Some (- EINVAL, None, qs)
      else do { qs \<leftarrow> queue_lock qs iter; (err, d, qs) \<leftarrow> body qs iter item; qs \<leftarrow> queue_unlock qs iter; Some (err, d, qs) })"

definition iter_next :: "qstate \<Rightarrow> addr \<Rightarrow> bool \<Rightarrow> (int \<times> addr option \<times> qstate) option" where
  "iter_next = iter_with dequeue"

definition iter_reverse_next :: "qstate \<Rightarrow> addr \<Rightarrow> bool \<Rightarrow> (int \<times> addr option \<times> qstate) option" where
  "iter_reverse_next = iter_with dequeue_tail"

definition iter_peek :: "qstate \<Rightarrow> addr \<Rightarrow> bool \<Rightarrow> (int \<times> addr option \<times> qstate) option" where
  "iter_peek = iter_with (\<lambda>qs q i. do { (err, d) \<leftarrow> queue_peek qs q QUEUE_HEAD i; Some (err, d, qs) })"

definition iter_peek_reverse :: "qstate \<Rightarrow> addr \<Rightarrow> bool \<Rightarrow> (int \<times> addr option \<times> qstate) option" where
  "iter_peek_reverse = iter_with (\<lambda>qs q i. do { (err, d) \<leftarrow> queue_peek qs q QUEUE_TAIL i; Some (err, d, qs) })"

definition iter_destroy :: "qstate \<Rightarrow> addr \<Rightarrow> qstate option" where
  "iter_destroy qs iter =
     (if iter = NULL then Some qs
      else do {
        qs \<leftarrow> queue_lock qs iter; qs \<leftarrow> queue_flush qs iter; qs \<leftarrow> queue_unlock qs iter;
        Some (qs\<lparr>qs_queues := (qs_queues qs)(iter := None)\<rparr>) })"

definition iter_create :: "addr \<Rightarrow> qstate \<Rightarrow> bool \<Rightarrow> (int \<times> addr option \<times> qstate) option" where
  "iter_create p qs riter =
     (if \<not> riter then Some (- EINVAL, None, qs)
      else if p = NULL then Some (- ENOMEM, None, qs)
      else do {
        (err, qs') \<leftarrow> queue_init (put_queue qs p \<lparr>q_head = NULL, q_tail = NULL, q_count = 0, q_lock = False\<rparr>) p;
        if err \<noteq> 0 then Some (err, None, qs) else Some (0, Some p, qs') })"

definition btree_iter_init :: "bstate \<Rightarrow> addr list \<Rightarrow> addr \<Rightarrow> qstate \<Rightarrow> addr \<Rightarrow> (int \<times> qstate) option" where
  "btree_iter_init st al b qs iter =
     (if b = NULL \<or> iter = NULL then Some (- EINVAL, qs)
      else do {
        _ \<leftarrow> btree_assert_locked st b;
        qs \<leftarrow> queue_lock qs iter;
        (err, _, qs) \<leftarrow> btree_traverse st al qs b iter;
        qs \<leftarrow> queue_unlock qs iter;
        Some (err, qs) })"

definition btree_iter_create :: "addr \<Rightarrow> bstate \<Rightarrow> addr list \<Rightarrow> qstate \<Rightarrow> addr \<Rightarrow> bool \<Rightarrow> (int \<times> addr option \<times> qstate) option" where
  "btree_iter_create p st al qs b riter =
     (if b = NULL \<or> \<not> riter then Some (- EINVAL, None, qs)
      else do {
        _ \<leftarrow> btree_assert_locked st b;
        (err, it, qs) \<leftarrow> iter_create p qs True;
        case it of None \<Rightarrow> Some (err, None, qs)
        | Some iter \<Rightarrow> do {
            (err, qs) \<leftarrow> btree_iter_init st al b qs iter;
            if err \<noteq> 0 then do { qs \<leftarrow> iter_destroy qs iter; Some (err, None, qs) } else Some (0, Some iter, qs) } })"

definition btree_iter_next :: "qstate \<Rightarrow> addr \<Rightarrow> bool \<Rightarrow> (int \<times> addr option \<times> qstate) option" where
  "btree_iter_next = iter_with dequeue"

definition btree_iter_reverse_next :: "qstate \<Rightarrow> addr \<Rightarrow> bool \<Rightarrow> (int \<times> addr option \<times> qstate) option" where
  "btree_iter_reverse_next = iter_with dequeue_tail"

definition btree_iter_destory :: "qstate \<Rightarrow> addr \<Rightarrow> qstate option" where
  "btree_iter_destory = iter_destroy"

end
