(* ===== verification/Btree_Proofs.thy ===== *)
theory Btree_Proofs
  imports Btree
begin

text \<open>
  Correctness of the binary search tree.  A tree of addresses describes the shape of the nodes in the heap; the
  keys along it form a search tree.  Insertion grafts a subtree at the place its key selects; deletion prunes a
  node and grafts its two subtrees back.
\<close>

section \<open>Trees in the heap\<close>

fun bt :: "bheap \<Rightarrow> addr \<Rightarrow> addr tree \<Rightarrow> addr \<Rightarrow> bool" where
  "bt h par Leaf p \<longleftrightarrow> p = NULL"
| "bt h par (Node l q r) p \<longleftrightarrow> p = q \<and> p \<noteq> NULL \<and>
     (\<exists>n. h p = Some n \<and> bn_parent n = par \<and> bt h p l (bn_left n) \<and> bt h p r (bn_right n))"

abbreviation tdist :: "addr tree \<Rightarrow> bool" where "tdist t \<equiv> distinct (inorder t)"

definition key_of :: "bheap \<Rightarrow> addr \<Rightarrow> u64" where "key_of h p = bn_key (the (h p))"
definition data_of :: "bheap \<Rightarrow> addr \<Rightarrow> addr" where "data_of h p = bn_data (the (h p))"

definition owner :: "bheap \<Rightarrow> addr \<Rightarrow> addr option" where "owner h p = map_option bn_btree (h p)"

lemma owner_upd [simp]: "owner (h(p \<mapsto> n)) q = (if q = p then Some (bn_btree n) else owner h q)"
  by (simp add: owner_def)

lemma owner_del [simp]: "owner (h(p := None)) q = (if q = p then None else owner h q)"
  by (simp add: owner_def)

lemma owner_Some [simp]: "h p = Some n \<Longrightarrow> owner h p = Some (bn_btree n)"
  by (simp add: owner_def)

text \<open>The members that changes of links keep.\<close>

definition payload :: "bheap \<Rightarrow> addr \<Rightarrow> (u64 \<times> addr) option" where
  "payload h p = map_option (\<lambda>n. (bn_key n, bn_data n)) (h p)"

definition same_payload :: "bheap \<Rightarrow> bheap \<Rightarrow> bool" where
  "same_payload h h' \<longleftrightarrow> (\<forall>p. payload h' p = payload h p)"

lemma same_payloadD: "same_payload h h' \<Longrightarrow> h p \<noteq> None \<Longrightarrow> key_of h' p = key_of h p \<and> data_of h' p = data_of h p"
proof -
  assume sp: "same_payload h h'" and "h p \<noteq> None"
  then obtain n where n: "h p = Some n" by auto
  then have "payload h' p = Some (bn_key n, bn_data n)" using sp by (simp add: same_payload_def payload_def)
  then obtain n' where "h' p = Some n'" "bn_key n' = bn_key n" "bn_data n' = bn_data n" by (auto simp: payload_def)
  then show ?thesis using n by (simp add: key_of_def data_of_def)
qed

lemma same_payload_upd:
  assumes "same_payload h h'" "h' p = Some n" "bn_key n' = bn_key n" "bn_data n' = bn_data n"
  shows "same_payload h (h'(p \<mapsto> n'))"
proof -
  have "payload (h'(p \<mapsto> n')) q = payload h' q" for q using assms(2-4) by (cases "q = p") (simp_all add: payload_def)
  then show ?thesis using assms(1) by (simp add: same_payload_def)
qed

lemma same_payload_refl [simp]: "same_payload h h" by (simp add: same_payload_def)

lemma bload_simps [simp]: "p \<noteq> NULL \<Longrightarrow> bload h p = h p" "bload h NULL = None"
  by (simp_all add: bload_def)

lemma bt_frame: "bt h par t p \<Longrightarrow> \<forall>q \<in> set_tree t. h' q = h q \<Longrightarrow> bt h' par t p"
  by (induction t arbitrary: p par) auto

lemma bt_loaded: "bt h par t p \<Longrightarrow> q \<in> set_tree t \<Longrightarrow> q \<noteq> NULL \<and> h q \<noteq> None"
  by (induction t arbitrary: p par) auto

lemma bt_NULL: "bt h par t p \<Longrightarrow> p = NULL \<longleftrightarrow> t = Leaf"
  by (cases t) auto

lemma bt_root_in: "bt h par t p \<Longrightarrow> p \<noteq> NULL \<Longrightarrow> p \<in> set_tree t"
  by (cases t) auto

lemma tdist_Node: "tdist (Node l p r) \<longleftrightarrow> tdist l \<and> tdist r \<and> p \<notin> set_tree l \<and> p \<notin> set_tree r \<and> set_tree l \<inter> set_tree r = {}"
  by (auto simp: set_inorder)

lemma bt_retag:
  "bt h par t p \<Longrightarrow> h x = Some n \<Longrightarrow> bn_parent n' = bn_parent n \<Longrightarrow> bn_left n' = bn_left n \<Longrightarrow> bn_right n' = bn_right n \<Longrightarrow> bt (h(x \<mapsto> n')) par t p"
  by (induction t arbitrary: par p) auto

section \<open>Search trees\<close>

abbreviation bst_by :: "(addr \<Rightarrow> u64) \<Rightarrow> addr tree \<Rightarrow> bool" where "bst_by key \<equiv> bst_wrt (\<lambda>p q. key p < key q)"

lemma bst_by_cong: "\<forall>q \<in> set_tree t. key' q = key q \<Longrightarrow> bst_by key' t = bst_by key t"
  by (induction t) auto

fun find_node :: "(addr \<Rightarrow> u64) \<Rightarrow> addr tree \<Rightarrow> u64 \<Rightarrow> addr" where
  "find_node key Leaf k = NULL"
| "find_node key (Node l p r) k = (if key p = k then p else if k < key p then find_node key l k else find_node key r k)"

lemma find_node_at: "bst_by key t \<Longrightarrow> p \<in> set_tree t \<Longrightarrow> find_node key t (key p) = p"
  by (induction t) (auto dest: less_not_sym)

lemma find_node_none: "\<forall>q \<in> set_tree t. key q \<noteq> k \<Longrightarrow> find_node key t k = NULL"
  by (induction t) auto

lemma lookup_walk_spec: "bt h par t p \<Longrightarrow> lookup_walk h p k = Some (find_node (key_of h) t k)"
proof (induction t arbitrary: par p)
  case Leaf
  then show ?case by (subst lookup_walk.simps) simp
next
  case (Node l q r)
  then obtain n where n: "p = q" "p \<noteq> NULL" "h p = Some n" "bt h p l (bn_left n)" "bt h p r (bn_right n)" by auto
  then have "key_of h p = bn_key n" by (simp add: key_of_def)
  then show ?case using n(1-3) Node.IH(1) [OF n(4)] Node.IH(2) [OF n(5)] by (subst lookup_walk.simps) auto
qed

text \<open>Attaching a subtree \<open>s\<close> at the place that the key \<open>k\<close> selects.\<close>

fun graft :: "(addr \<Rightarrow> u64) \<Rightarrow> addr tree \<Rightarrow> u64 \<Rightarrow> addr tree \<Rightarrow> addr tree" where
  "graft key Leaf k s = s"
| "graft key (Node l p r) k s = (if k < key p then Node (graft key l k s) p r else Node l p (graft key r k s))"

lemma set_graft [simp]: "set_tree (graft key t k s) = set_tree t \<union> set_tree s"
  by (induction t) auto

definition in_gap :: "(addr \<Rightarrow> u64) \<Rightarrow> addr tree \<Rightarrow> u64 \<Rightarrow> addr tree \<Rightarrow> bool" where
  "in_gap key t k s \<longleftrightarrow> (\<forall>q \<in> set_tree t. k < key q \<and> (\<forall>y \<in> set_tree s. key y < key q) \<or> key q < k \<and> (\<forall>y \<in> set_tree s. key q < key y))"

lemma in_gap_Node: "in_gap key (Node l p r) k s \<Longrightarrow> in_gap key l k s \<and> in_gap key r k s"
  by (simp add: in_gap_def)

lemma graft_bst: "bst_by key t \<Longrightarrow> bst_by key s \<Longrightarrow> in_gap key t k s \<Longrightarrow> bst_by key (graft key t k s)"
proof (induction t)
  case (Node l p r)
  have "k < key p \<and> (\<forall>y \<in> set_tree s. key y < key p) \<or> key p < k \<and> (\<forall>y \<in> set_tree s. key p < key y)"
    using Node.prems(3) by (simp add: in_gap_def)
  then show ?case using Node.IH Node.prems in_gap_Node [OF Node.prems(3)] by auto
qed simp

lemma graft_cong: "\<forall>q \<in> set_tree t. key' q = key q \<Longrightarrow> graft key' t k s = graft key t k s"
  by (induction t) auto

lemma tdist_graft: "tdist t \<Longrightarrow> tdist s \<Longrightarrow> set_tree t \<inter> set_tree s = {} \<Longrightarrow> tdist (graft key t k s)"
proof (induction t)
  case (Node l p r)
  then show ?case unfolding graft.simps tdist_Node by (auto simp: tdist_Node)
qed simp

section \<open>The walk of an insertion\<close>

text \<open>A subtree at \<open>x\<close> whose parent link is to be set.\<close>

lemma bt_reparent:
  assumes "bt h x l (bn_left n)" "bt h x r (bn_right n)" "x \<noteq> NULL" "x \<notin> set_tree l" "x \<notin> set_tree r"
    "h' x = Some (n\<lparr>bn_parent := q\<rparr>)" "\<forall>y \<in> set_tree l \<union> set_tree r. h' y = h y"
  shows "bt h' q (Node l x r) x"
  using assms bt_frame [OF assms(1), of h'] bt_frame [OF assms(2), of h'] by auto

lemma insert_walk_spec:
  assumes "bt h x lx (bn_left n)" "bt h x rx (bn_right n)" "h x = Some n" "x \<noteq> NULL" "tdist (Node lx x rx)"
  defines "s \<equiv> Node lx x rx"
  shows "bt h par t p \<Longrightarrow> t \<noteq> Leaf \<Longrightarrow> tdist t \<Longrightarrow> set_tree t \<inter> set_tree s = {} \<Longrightarrow> \<forall>q \<in> set_tree t. key_of h q \<noteq> bn_key n \<Longrightarrow>
    \<exists>h'. insert_walk h x p = Some (0, h') \<and> bt h' par (graft (key_of h) t (bn_key n) s) p \<and> same_payload h h' \<and>
      (\<forall>y. y \<notin> insert x (set_tree t) \<longrightarrow> h' y = h y) \<and> (\<forall>y. owner h' y = owner h y)"
proof (induction t arbitrary: par p)
  case (Node l q r)
  let ?k = "bn_key n"
  obtain pn where pn: "p = q" "p \<noteq> NULL" "h p = Some pn" "bn_parent pn = par" "bt h p l (bn_left pn)" "bt h p r (bn_right pn)" using Node.prems(1) by auto
  have k: "?k \<noteq> bn_key pn" "key_of h p = bn_key pn" using Node.prems(5) pn by (auto simp: key_of_def)
  have ne: "p \<noteq> x" "x \<notin> set_tree l" "x \<notin> set_tree r" "p \<notin> set_tree lx" "p \<notin> set_tree rx" using Node.prems(4) pn(1) by (auto simp: s_def)
  have d: "tdist l" "tdist r" "p \<notin> set_tree l" "p \<notin> set_tree r" "set_tree l \<inter> set_tree r = {}" using Node.prems(3) pn(1) unfolding tdist_Node by auto
  have dx: "x \<notin> set_tree lx" "x \<notin> set_tree rx" using assms(5) unfolding tdist_Node by auto
  define side where "side \<longleftrightarrow> ?k < bn_key pn"
  define iter where "iter = (if side then bn_left pn else bn_right pn)"
  define c where "c = (if side then l else r)"
  have ic: "bt h p c iter" "c = Leaf \<longleftrightarrow> iter = NULL" using pn(5,6) bt_NULL [OF pn(5)] bt_NULL [OF pn(6)] by (auto simp: c_def iter_def)
  show ?case
  proof (cases "iter = NULL")
    case True
    define pn' where "pn' = (if side then pn\<lparr>bn_left := x\<rparr> else pn\<lparr>bn_right := x\<rparr>)"
    define h' where "h' = h(x \<mapsto> n\<lparr>bn_parent := p\<rparr>, p \<mapsto> pn')"
    have run: "insert_walk h x p = Some (0, h')"
      using True assms(3,4) pn(2,3) k(1) ne(1) unfolding iter_def side_def h'_def pn'_def
      by (subst insert_walk.simps, subst insert_walk.simps) (auto simp: Let_def bset_parent_def bset_left_def bset_right_def)
    have ch: "bt h' p s x" unfolding s_def
      by (rule bt_reparent [OF assms(1,2,4) dx]) (use ne(1,4,5) dx in \<open>auto simp: h'_def\<close>)
    have "bt h' p l (bn_left pn)" "bt h' p r (bn_right pn)"
      by (rule bt_frame [OF pn(5)], use d(3) ne in \<open>auto simp: h'_def\<close>) (rule bt_frame [OF pn(6)], use d(4) ne in \<open>auto simp: h'_def\<close>)
    then have "bt h' par (graft (key_of h) (Node l q r) ?k s) p"
      using True ic(2) ch pn(1,2,4) k by (auto simp: side_def c_def pn'_def h'_def)
    moreover have "same_payload h h'" using assms(3) pn(3) ne(1) unfolding h'_def by (intro same_payload_upd [where n = pn] same_payload_upd [where n = n]) (auto simp: pn'_def)
    ultimately show ?thesis using run pn(1,3) assms(3) ne(1) by (auto simp: h'_def pn'_def)
  next
    case False
    have sub: "set_tree c \<subseteq> set_tree (Node l q r)" "tdist c" "x \<notin> set_tree c" using d ne by (auto simp: c_def)
    have step: "insert_walk h x p = insert_walk h x iter"
      using False assms(3,4) pn(2,3) k(1) unfolding iter_def side_def by (subst insert_walk.simps) (auto simp: Let_def)
    have IH: "\<exists>h'. insert_walk h x iter = Some (0, h') \<and> bt h' p (graft (key_of h) c ?k s) iter \<and> same_payload h h' \<and>
        (\<forall>y. y \<notin> insert x (set_tree c) \<longrightarrow> h' y = h y) \<and> (\<forall>y. owner h' y = owner h y)"
    proof (cases side)
      case True
      then show ?thesis using Node.IH(1) [of p iter] ic False sub Node.prems(4,5) by (auto simp: c_def)
    next
      case False
      then show ?thesis using Node.IH(2) [of p iter] ic \<open>iter \<noteq> NULL\<close> sub Node.prems(4,5) by (auto simp: c_def)
    qed
    then obtain h' where h': "insert_walk h x iter = Some (0, h')" "bt h' p (graft (key_of h) c ?k s) iter" "same_payload h h'"
        "\<forall>y. y \<notin> insert x (set_tree c) \<longrightarrow> h' y = h y" "\<forall>y. owner h' y = owner h y" by blast
    have hp: "h' p = Some pn" using h'(4) pn(3) ne(1) d(3,4) by (auto simp: c_def)
    have other: "side \<Longrightarrow> bt h' p r (bn_right pn)" "\<not> side \<Longrightarrow> bt h' p l (bn_left pn)"
    proof -
      assume side
      then have "\<forall>y \<in> set_tree r. h' y = h y" using h'(4) ne(2,3) d(5) by (auto simp: c_def)
      then show "bt h' p r (bn_right pn)" by (rule bt_frame [OF pn(6)])
    next
      assume "\<not> side"
      then have "\<forall>y \<in> set_tree l. h' y = h y" using h'(4) ne(2,3) d(5) by (auto simp: c_def)
      then show "bt h' p l (bn_left pn)" by (rule bt_frame [OF pn(5)])
    qed
    have "bt h' par (graft (key_of h) (Node l q r) ?k s) p"
      using hp pn(1,2,4) h'(2) other k(2) by (cases side) (auto simp: side_def c_def iter_def)
    then show ?thesis using step h'(1,3,4,5) sub(1) by auto
  qed
qed simp

lemma insert_walk_exists:
  assumes "h x = Some n" "x \<noteq> NULL"
  shows "bt h par t p \<Longrightarrow> bst_by (key_of h) t \<Longrightarrow> \<exists>q \<in> set_tree t. key_of h q = bn_key n \<Longrightarrow> insert_walk h x p = Some (- EEXIST, h)"
proof (induction t arbitrary: par p)
  case (Node l q r)
  obtain pn where pn: "p = q" "p \<noteq> NULL" "h p = Some pn" "bt h p l (bn_left pn)" "bt h p r (bn_right pn)" using Node.prems(1) by auto
  have k: "key_of h q = bn_key pn" using pn by (simp add: key_of_def)
  obtain y where y: "y \<in> set_tree (Node l q r)" "key_of h y = bn_key n" using Node.prems(3) by blast
  show ?case
  proof (cases "bn_key n = bn_key pn")
    case True
    then show ?thesis using assms pn by (subst insert_walk.simps) simp
  next
    case False
    define c where "c = (if bn_key n < bn_key pn then l else r)"
    define iter where "iter = (if bn_key n < bn_key pn then bn_left pn else bn_right pn)"
    have yc: "y \<in> set_tree c" using y Node.prems(2) False k by (auto simp: c_def)
    have ic: "bt h p c iter" using pn by (simp add: c_def iter_def)
    then have "iter \<noteq> NULL" using yc by (cases c) auto
    then have step: "insert_walk h x p = insert_walk h x iter"
      using assms pn(2,3) False unfolding iter_def by (subst insert_walk.simps) (auto simp: Let_def)
    show ?thesis
    proof (cases "bn_key n < bn_key pn")
      case True
      then show ?thesis using Node.IH(1) [of p iter] ic yc y(2) Node.prems(2) step by (auto simp: c_def)
    next
      case False
      then show ?thesis using Node.IH(2) [of p iter] ic yc y(2) Node.prems(2) step by (auto simp: c_def)
    qed
  qed
qed simp

section \<open>Tree objects\<close>

text \<open>A locked tree object \<open>b\<close> with the nodes \<open>t\<close> and the counter \<open>c\<close>.\<close>

definition btree_shape :: "bstate \<Rightarrow> addr \<Rightarrow> addr tree \<Rightarrow> u64 \<Rightarrow> bool" where
  "btree_shape st b t c \<longleftrightarrow> b \<noteq> NULL \<and> (\<exists>B. bs_trees st b = Some B \<and> bt_lock B \<and> bt_nr_nodes B = c \<and> bt (bs_nodes st) NULL t (bt_root B)) \<and>
     tdist t \<and> bst_by (key_of (bs_nodes st)) t \<and> (\<forall>q \<in> set_tree t. owner (bs_nodes st) q = Some b)"

definition btree_rep :: "bstate \<Rightarrow> addr \<Rightarrow> addr tree \<Rightarrow> bool" where
  "btree_rep st b t \<longleftrightarrow> btree_shape st b t (of_nat (size t))"

lemma btree_shapeE:
  assumes "btree_shape st b t c"
  obtains B where "b \<noteq> NULL" "bs_trees st b = Some B" "bt_lock B" "bt_nr_nodes B = c" "bt (bs_nodes st) NULL t (bt_root B)" "tdist t"
    "bst_by (key_of (bs_nodes st)) t" "\<forall>q \<in> set_tree t. owner (bs_nodes st) q = Some b" "btree_assert_locked st b = Some B"
  using assms by (auto simp: btree_shape_def btree_assert_locked_def get_btree_def)

lemma btree_shape_frame:
  assumes "btree_shape st b t c" "\<forall>q \<in> set_tree t. bs_nodes st' q = bs_nodes st q" "bs_trees st' b = bs_trees st b"
  shows "btree_shape st' b t c"
proof -
  obtain B where B: "b \<noteq> NULL" "bs_trees st b = Some B" "bt_lock B" "bt_nr_nodes B = c" "bt (bs_nodes st) NULL t (bt_root B)" "tdist t"
      "bst_by (key_of (bs_nodes st)) t" "\<forall>q \<in> set_tree t. owner (bs_nodes st) q = Some b"
    using btree_shapeE [OF assms(1)] by blast
  have "bst_by (key_of (bs_nodes st')) t" using B(7) bst_by_cong [of t "key_of (bs_nodes st')" "key_of (bs_nodes st)"] assms(2) by (simp add: key_of_def)
  moreover have "\<forall>q \<in> set_tree t. owner (bs_nodes st') q = Some b" using B(8) assms(2) by (simp add: owner_def)
  ultimately show ?thesis using B bt_frame [OF B(5) assms(2)] assms(3) by (simp add: btree_shape_def)
qed

lemma btree_shapeD:
  assumes "btree_shape st b t c"
  shows "tdist t" "bst_by (key_of (bs_nodes st)) t" "q \<in> set_tree t \<Longrightarrow> q \<noteq> NULL \<and> bs_nodes st q \<noteq> None"
  using assms by (auto simp: btree_shape_def dest: bt_loaded)

text \<open>A subtree hanging in the air at \<open>x\<close>.\<close>

definition hanging :: "bheap \<Rightarrow> addr \<Rightarrow> addr tree \<Rightarrow> bool" where
  "hanging h x s \<longleftrightarrow> (\<exists>l r n. s = Node l x r \<and> x \<noteq> NULL \<and> h x = Some n \<and> bt h x l (bn_left n) \<and> bt h x r (bn_right n)) \<and>
     tdist s \<and> bst_by (key_of h) s"

definition only_tree :: "addr \<Rightarrow> addr set \<Rightarrow> bstate \<Rightarrow> bstate \<Rightarrow> bool" where
  "only_tree b A st st' \<longleftrightarrow> (\<forall>y. y \<notin> A \<longrightarrow> bs_nodes st' y = bs_nodes st y) \<and> (\<forall>c. c \<noteq> b \<longrightarrow> bs_trees st' c = bs_trees st c)"

lemma btree_insert_node_spec:
  assumes "btree_shape st b t c" "hanging (bs_nodes st) x s" "set_tree t \<inter> set_tree s = {}" "in_gap (key_of (bs_nodes st)) t (key_of (bs_nodes st) x) s"
    "\<forall>q \<in> set_tree s - {x}. owner (bs_nodes st) q = Some b"
  shows "\<exists>st'. btree_insert_node st b x = Some (0, st') \<and>
    btree_shape st' b (graft (key_of (bs_nodes st)) t (key_of (bs_nodes st) x) s) (c + 1) \<and>
    same_payload (bs_nodes st) (bs_nodes st') \<and> only_tree b (set_tree t \<union> {x}) st st'"
proof -
  let ?h = "bs_nodes st" and ?k = "key_of (bs_nodes st) x"
  obtain B where B: "b \<noteq> NULL" "bs_trees st b = Some B" "bt_lock B" "bt_nr_nodes B = c" "bt ?h NULL t (bt_root B)" "tdist t"
      "bst_by (key_of ?h) t" "\<forall>q \<in> set_tree t. owner ?h q = Some b" "btree_assert_locked st b = Some B"
    using btree_shapeE [OF assms(1)] by blast
  obtain l r n where x: "s = Node l x r" "x \<noteq> NULL" "?h x = Some n" "bt ?h x l (bn_left n)" "bt ?h x r (bn_right n)" "tdist s" "bst_by (key_of ?h) s"
    using assms(2) by (auto simp: hanging_def)
  have xs: "x \<notin> set_tree l" "x \<notin> set_tree r" "x \<notin> set_tree t" using x(1,6) assms(3) unfolding tdist_Node x(1) by auto
  define n1 where "n1 = n\<lparr>bn_parent := NULL\<rparr>"
  define h1 where "h1 = ?h(x \<mapsto> n1)"
  have h1: "bset_parent ?h x NULL = Some h1" using x(2,3) by (simp add: bset_parent_def h1_def n1_def)
  have key1: "key_of h1 = key_of ?h" using x(3) by (auto simp: key_of_def h1_def n1_def fun_eq_iff)
  have p1: "same_payload ?h h1" unfolding h1_def by (rule same_payload_upd [where n = n]) (use x(3) in \<open>simp_all add: n1_def\<close>)
  have f1: "bt h1 NULL t (bt_root B)" "bt h1 x l (bn_left n1)" "bt h1 x r (bn_right n1)"
    using bt_frame [OF B(5), of h1] bt_frame [OF x(4), of h1] bt_frame [OF x(5), of h1] xs by (auto simp: h1_def n1_def)
  have "\<exists>h2. (if bt_root B = NULL then h2 = h1 else insert_walk h1 x (bt_root B) = Some (0, h2)) \<and>
      bt h2 NULL (graft (key_of ?h) t ?k s) (if bt_root B = NULL then x else bt_root B) \<and> same_payload ?h h2 \<and>
      (\<forall>y. y \<notin> insert x (set_tree t) \<longrightarrow> h2 y = ?h y) \<and> (\<forall>y. owner h2 y = owner ?h y)"
  proof (cases "bt_root B = NULL")
    case True
    then have "t = Leaf" using bt_NULL [OF B(5)] by simp
    then show ?thesis using True x(1,2,3) f1(2,3) p1 by (auto simp: h1_def n1_def)
  next
    case False
    have "\<forall>q \<in> set_tree t. key_of h1 q \<noteq> bn_key n1" using assms(4) x(3) unfolding key1 by (auto simp: in_gap_def key_of_def n1_def)
    moreover have "bn_key n1 = ?k" "h1 x = Some n1" using x(3) by (simp_all add: n1_def key_of_def h1_def)
    ultimately show ?thesis
      using insert_walk_spec [OF f1(2,3) _ x(2), of NULL t "bt_root B"] f1(1) False bt_NULL [OF B(5)] B(6) assms(3) x(1,6) p1 key1
      by (auto simp: h1_def same_payload_def n1_def x(3))
  qed
  then obtain h2 where h2: "if bt_root B = NULL then h2 = h1 else insert_walk h1 x (bt_root B) = Some (0, h2)"
      "bt h2 NULL (graft (key_of ?h) t ?k s) (if bt_root B = NULL then x else bt_root B)" "same_payload ?h h2"
      "\<forall>y. y \<notin> insert x (set_tree t) \<longrightarrow> h2 y = ?h y" "\<forall>y. owner h2 y = owner ?h y" by blast
  obtain n2 where n2: "h2 x = Some n2" using h2(2) bt_loaded [OF h2(2), of x] x(1) by auto
  define h3 where "h3 = h2(x \<mapsto> n2\<lparr>bn_btree := b\<rparr>)"
  define st' where "st' = st\<lparr>bs_nodes := h3, bs_trees := (bs_trees st)(b \<mapsto> B\<lparr>bt_root := (if bt_root B = NULL then x else bt_root B), bt_nr_nodes := c + 1\<rparr>)\<rparr>"
  have run: "btree_insert_node st b x = Some (0, st')"
    using h2(1) B(1-4,9) x(2) h1 n2
    by (cases "bt_root B = NULL") (simp_all add: btree_insert_node_def set_root_def nr_nodes_add_def get_btree_def put_btree_def bset_btree_def st'_def h3_def)
  have p3: "same_payload ?h h3" unfolding h3_def by (rule same_payload_upd [OF h2(3) n2]) simp_all
  have "bt h3 NULL (graft (key_of ?h) t ?k s) (if bt_root B = NULL then x else bt_root B)"
    unfolding h3_def by (rule bt_retag [OF h2(2) n2]) simp_all
  moreover have keys: "\<forall>q \<in> set_tree t \<union> set_tree s. key_of h3 q = key_of ?h q"
    using same_payloadD [OF p3] bt_loaded [OF B(5)] bt_loaded [OF x(4)] bt_loaded [OF x(5)] x(1,3) by auto
  then have "bst_by (key_of h3) (graft (key_of ?h) t ?k s)"
    using graft_bst [OF B(7) x(7) assms(4)] bst_by_cong [of "graft (key_of ?h) t ?k s" "key_of h3" "key_of ?h"] by simp
  moreover have "\<forall>q \<in> set_tree t \<union> set_tree s. owner h3 q = Some b" using h2(5) B(8) assms(5) by (auto simp: h3_def)
  ultimately have "btree_shape st' b (graft (key_of ?h) t ?k s) (c + 1)"
    using B(1,3) tdist_graft [OF B(6) x(6) assms(3)] by (simp add: btree_shape_def st'_def)
  moreover have "only_tree b (set_tree t \<union> {x}) st st'" using h2(4) by (auto simp: only_tree_def st'_def h3_def)
  ultimately show ?thesis using run p3 by (auto simp: st'_def)
qed

section \<open>Deletion\<close>

fun prune :: "addr \<Rightarrow> addr tree \<Rightarrow> addr tree" where
  "prune x Leaf = Leaf"
| "prune x (Node l p r) = (if p = x then Leaf else Node (prune x l) p (prune x r))"

lemma prune_subset: "set_tree (prune x t) \<subseteq> set_tree t"
  by (induction t) auto

lemma prune_idem: "x \<notin> set_tree t \<Longrightarrow> prune x t = t"
  by (induction t) auto

lemma prune_bst: "bst_by key t \<Longrightarrow> bst_by key (prune x t)"
  using prune_subset by (induction t) fastforce+

lemma prune_tdist: "tdist t \<Longrightarrow> tdist (prune x t)"
proof (induction t)
  case (Node l p r)
  then show ?case using prune_subset [of x l] prune_subset [of x r] unfolding tdist_Node by (auto simp: tdist_Node)
qed simp

text \<open>The subtrees of the node \<open>x\<close>, and how they lie relative to the rest.\<close>

fun kids :: "addr \<Rightarrow> addr tree \<Rightarrow> addr tree \<times> addr tree" where
  "kids x Leaf = (Leaf, Leaf)"
| "kids x (Node l p r) = (if p = x then (l, r) else if x \<in> set_tree l then kids x l else kids x r)"

lemma kids_set:
  "x \<in> set_tree t \<Longrightarrow> tdist t \<Longrightarrow> kids x t = (l, r) \<Longrightarrow>
    set_tree t = set_tree (prune x t) \<union> set_tree (Node l x r) \<and> set_tree (prune x t) \<inter> set_tree (Node l x r) = {} \<and> tdist (Node l x r)"
proof (induction t)
  case (Node a p c)
  note d = Node.prems(2) [unfolded tdist_Node]
  consider "x = p" | "x \<noteq> p" "x \<in> set_tree a" "x \<notin> set_tree c" | "x \<noteq> p" "x \<in> set_tree c" "x \<notin> set_tree a" using Node.prems(1) d by auto
  then show ?case
  proof cases
    case 1
    then show ?thesis using Node.prems by auto
  next
    case 2
    note IH = Node.IH(1) [OF 2(2)]
    have "prune x c = c" using 2(3) by (rule prune_idem)
    moreover have "set_tree (Node l x r) \<subseteq> set_tree a" using IH Node.prems(3) 2 d by auto
    ultimately show ?thesis using IH Node.prems(3) 2 d by auto
  next
    case 3
    note IH = Node.IH(2) [OF 3(2)]
    have "prune x a = a" using 3(3) by (rule prune_idem)
    moreover have "set_tree (Node l x r) \<subseteq> set_tree c" using IH Node.prems(3) 3 d by auto
    ultimately show ?thesis using IH Node.prems(3) 3 d by auto
  qed
qed simp

lemma kids_gap:
  "x \<in> set_tree t \<Longrightarrow> tdist t \<Longrightarrow> bst_by key t \<Longrightarrow> kids x t = (l, r) \<Longrightarrow>
    bst_by key (Node l x r) \<and> (\<forall>q \<in> set_tree (prune x t). (\<forall>y \<in> set_tree (Node l x r). key y < key q) \<or> (\<forall>y \<in> set_tree (Node l x r). key q < key y))"
proof (induction t)
  case (Node a p c)
  note d = Node.prems(2) [unfolded tdist_Node]
  consider "x = p" | "x \<noteq> p" "x \<in> set_tree a" "x \<notin> set_tree c" | "x \<noteq> p" "x \<in> set_tree c" "x \<notin> set_tree a" using Node.prems(1) d by auto
  then show ?case
  proof cases
    case 1
    then show ?thesis using Node.prems by auto
  next
    case 2
    have k: "kids x a = (l, r)" using Node.prems(4) 2 by simp
    have "\<forall>q \<in> set_tree (Node l x r). q \<in> set_tree a" using kids_set [OF 2(2) _ k] d by auto
    moreover have "\<forall>q \<in> set_tree a. key q < key p \<and> (\<forall>y \<in> set_tree c. key q < key y)" using Node.prems(3) by (auto intro: less_trans)
    ultimately show ?thesis using Node.IH(1) [OF 2(2) _ _ k] d Node.prems(3) prune_idem [OF 2(3)] 2(1) by auto
  next
    case 3
    have k: "kids x c = (l, r)" using Node.prems(4) 3 by simp
    have "\<forall>q \<in> set_tree (Node l x r). q \<in> set_tree c" using kids_set [OF 3(2) _ k] d by auto
    moreover have "\<forall>q \<in> set_tree c. key p < key q \<and> (\<forall>y \<in> set_tree a. key y < key q)" using Node.prems(3) by (auto intro: less_trans)
    ultimately show ?thesis using Node.IH(2) [OF 3(2) _ _ k] d Node.prems(3) prune_idem [OF 3(3)] 3(1) by auto
  qed
qed simp

text \<open>The effect on the heap of taking \<open>x\<close> off its parent.\<close>

definition unhooked :: "bheap \<Rightarrow> addr \<Rightarrow> addr \<Rightarrow> bheap \<Rightarrow> bool" where
  "unhooked h q x h' \<longleftrightarrow> (\<exists>nq. h q = Some nq \<and>
     (bn_right nq = x \<and> h' = h(q \<mapsto> nq\<lparr>bn_right := NULL\<rparr>) \<or> bn_right nq \<noteq> x \<and> bn_left nq = x \<and> h' = h(q \<mapsto> nq\<lparr>bn_left := NULL\<rparr>)))"

lemma unhooked_outside: "unhooked h q x h' \<Longrightarrow> y \<noteq> q \<Longrightarrow> h' y = h y"
  by (auto simp: unhooked_def)

lemma unhooked_keeps:
  assumes "unhooked h q x h'"
  shows "same_payload h h'" "owner h' = owner h"
proof -
  obtain nq where nq: "h q = Some nq" "h' = h(q \<mapsto> nq\<lparr>bn_right := NULL\<rparr>) \<or> h' = h(q \<mapsto> nq\<lparr>bn_left := NULL\<rparr>)"
    using assms by (auto simp: unhooked_def)
  then show "same_payload h h'" by (auto intro: same_payload_upd [where n = nq])
  show "owner h' = owner h" using nq by (intro ext) auto
qed

lemma prune_heap:
  "bt h par t p \<Longrightarrow> tdist t \<Longrightarrow> x \<in> set_tree t \<Longrightarrow> x \<noteq> p \<Longrightarrow>
    \<exists>n h'. h x = Some n \<and> bn_parent n \<in> set_tree (prune x t) \<and> unhooked h (bn_parent n) x h' \<and> bt h' par (prune x t) p"
proof (induction t arbitrary: par p)
  case (Node a q c)
  note d = Node.prems(2) [unfolded tdist_Node]
  obtain n where n: "p = q" "p \<noteq> NULL" "h p = Some n" "bn_parent n = par" "bt h p a (bn_left n)" "bt h p c (bn_right n)" using Node.prems(1) by auto
  have side: "bn_left n \<in> set_tree a \<or> bn_left n = NULL" "bn_right n \<in> set_tree c \<or> bn_right n = NULL"
    using bt_root_in [OF n(5)] bt_root_in [OF n(6)] by auto
  have xn: "x \<noteq> NULL" using bt_loaded [OF Node.prems(1,3)] by simp
  have pp: "p \<notin> set_tree a" "p \<notin> set_tree c" using d n(1) by auto
  consider "x \<in> set_tree a" "x \<notin> set_tree c" | "x \<in> set_tree c" "x \<notin> set_tree a" using Node.prems(3,4) n(1) d by auto
  then show ?case
  proof cases
    case 1
    have pc: "prune x c = c" using 1(2) by (rule prune_idem)
    show ?thesis
    proof (cases "bn_left n = x")
      case True
      then obtain l r nx where a: "a = Node l x r" "h x = Some nx" "bn_parent nx = p" using n(5) xn by (cases a) auto
      define h' where "h' = h(p \<mapsto> n\<lparr>bn_left := NULL\<rparr>)"
      have "unhooked h p x h'" using n(3) True side(2) 1(2) xn by (auto simp: unhooked_def h'_def)
      moreover have "bt h' p c (bn_right n)" using n(6) pp(2) by (intro bt_frame [OF n(6)]) (auto simp: h'_def)
      then have "bt h' par (prune x (Node a q c)) p" using pc a(1) n(1-4) Node.prems(4) by (simp add: h'_def)
      ultimately show ?thesis using a n(1) Node.prems(4) by auto
    next
      case False
      then obtain nx h' where r: "h x = Some nx" "bn_parent nx \<in> set_tree (prune x a)" "unhooked h (bn_parent nx) x h'" "bt h' p (prune x a) (bn_left n)"
        using Node.IH(1) [OF n(5) _ 1(1)] d by auto
      have qa: "bn_parent nx \<in> set_tree a" using r(2) prune_subset [of x a] by auto
      then have "h' p = h p" using unhooked_outside [OF r(3)] pp(1) by metis
      moreover have "bt h' p c (bn_right n)" using bt_frame [OF n(6)] unhooked_outside [OF r(3)] qa d by (metis disjoint_iff)
      ultimately have "bt h' par (prune x (Node a q c)) p" using pc n(1-4) r(4) Node.prems(4) by simp
      then show ?thesis using r n(1) Node.prems(4) by auto
    qed
  next
    case 2
    have pa: "prune x a = a" using 2(2) by (rule prune_idem)
    show ?thesis
    proof (cases "bn_right n = x")
      case True
      then obtain l r nx where c: "c = Node l x r" "h x = Some nx" "bn_parent nx = p" using n(6) xn by (cases c) auto
      define h' where "h' = h(p \<mapsto> n\<lparr>bn_right := NULL\<rparr>)"
      have "unhooked h p x h'" using n(3) True by (auto simp: unhooked_def h'_def)
      moreover have "bt h' p a (bn_left n)" using n(5) pp(1) by (intro bt_frame [OF n(5)]) (auto simp: h'_def)
      then have "bt h' par (prune x (Node a q c)) p" using pa c(1) n(1-4) Node.prems(4) by (simp add: h'_def)
      ultimately show ?thesis using c n(1) Node.prems(4) by auto
    next
      case False
      then obtain nx h' where r: "h x = Some nx" "bn_parent nx \<in> set_tree (prune x c)" "unhooked h (bn_parent nx) x h'" "bt h' p (prune x c) (bn_right n)"
        using Node.IH(2) [OF n(6) _ 2(1)] d by auto
      have qc: "bn_parent nx \<in> set_tree c" using r(2) prune_subset [of x c] by auto
      then have "h' p = h p" using unhooked_outside [OF r(3)] pp(2) by metis
      moreover have "bt h' p a (bn_left n)" using bt_frame [OF n(5)] unhooked_outside [OF r(3)] qc d by (metis disjoint_iff)
      ultimately have "bt h' par (prune x (Node a q c)) p" using pa n(1-4) r(4) Node.prems(4) by simp
      then show ?thesis using r n(1) Node.prems(4) by auto
    qed
  qed
qed simp

lemma kids_heap: "bt h par t p \<Longrightarrow> x \<in> set_tree t \<Longrightarrow> kids x t = (l, r) \<Longrightarrow> \<exists>n. h x = Some n \<and> bt h x l (bn_left n) \<and> bt h x r (bn_right n)"
  by (induction t arbitrary: par p) (auto split: if_splits)

lemma size_tdist: "tdist t \<Longrightarrow> size t = card (set_tree t)"
  by (metis distinct_card length_inorder set_inorder)

lemma same_payload_trans: "same_payload h h1 \<Longrightarrow> same_payload h1 h2 \<Longrightarrow> same_payload h h2"
  by (simp add: same_payload_def)

lemma only_tree_trans: "only_tree b A st st1 \<Longrightarrow> only_tree b A' st1 st2 \<Longrightarrow> only_tree b (A \<union> A') st st2"
  by (auto simp: only_tree_def)

lemma only_tree_mono: "only_tree b A st st1 \<Longrightarrow> A \<subseteq> A' \<Longrightarrow> only_tree b A' st st1"
  by (auto simp: only_tree_def)

lemma only_treeD: "only_tree b A st st1 \<Longrightarrow> y \<notin> A \<Longrightarrow> bs_nodes st1 y = bs_nodes st y"
  by (simp add: only_tree_def)

lemma nr_nodes_add_spec:
  assumes "btree_shape st b t c"
  shows "\<exists>st'. nr_nodes_add st b k = Some st' \<and> btree_shape st' b t (c + k) \<and> bs_nodes st' = bs_nodes st \<and> only_tree b {} st st'"
proof -
  obtain B where B: "b \<noteq> NULL" "bs_trees st b = Some B" "bt_lock B" "bt_nr_nodes B = c" "bt (bs_nodes st) NULL t (bt_root B)" "tdist t"
      "bst_by (key_of (bs_nodes st)) t" "\<forall>q \<in> set_tree t. owner (bs_nodes st) q = Some b"
    using btree_shapeE [OF assms] by blast
  then show ?thesis by (simp add: nr_nodes_add_def get_btree_def put_btree_def btree_shape_def only_tree_def)
qed

definition apart :: "(addr \<Rightarrow> u64) \<Rightarrow> addr tree \<Rightarrow> addr tree \<Rightarrow> bool" where
  "apart key t s \<longleftrightarrow> (\<forall>q \<in> set_tree t. (\<forall>y \<in> set_tree s. key y < key q) \<or> (\<forall>y \<in> set_tree s. key q < key y))"

fun root_key :: "(addr \<Rightarrow> u64) \<Rightarrow> addr tree \<Rightarrow> u64" where
  "root_key key Leaf = 0"
| "root_key key (Node l p r) = key p"

lemma graft_Leaf: "graft key t k Leaf = t"
  by (induction t) auto

lemma reinsert_spec:
  assumes "btree_shape st b t c" "bt (bs_nodes st) x s p" "tdist s" "bst_by (key_of (bs_nodes st)) s" "set_tree t \<inter> set_tree s = {}"
    "apart (key_of (bs_nodes st)) t s" "\<forall>q \<in> set_tree s. owner (bs_nodes st) q = Some b"
  shows "\<exists>st'. reinsert st b p = Some st' \<and> btree_shape st' b (graft (key_of (bs_nodes st)) t (root_key (key_of (bs_nodes st)) s) s) c \<and>
    same_payload (bs_nodes st) (bs_nodes st') \<and> only_tree b (set_tree t \<union> set_tree s) st st'"
proof (cases "p = NULL")
  case True
  then have "s = Leaf" using bt_NULL [OF assms(2)] by simp
  then show ?thesis using True assms(1) by (auto simp: reinsert_def only_tree_def graft_Leaf)
next
  case False
  then obtain l r where s: "s = Node l p r" using assms(2) by (cases s) auto
  obtain st1 where st1: "nr_nodes_add st b (-1) = Some st1" "btree_shape st1 b t (c + -1)" "bs_nodes st1 = bs_nodes st" "only_tree b {} st st1"
    using nr_nodes_add_spec [OF assms(1)] by blast
  have "hanging (bs_nodes st1) p s" using assms(2-4) s st1(3) by (auto simp: hanging_def)
  moreover have "in_gap (key_of (bs_nodes st1)) t (key_of (bs_nodes st1) p) s" using assms(6) s st1(3) by (auto simp: in_gap_def apart_def)
  moreover have "\<forall>q \<in> set_tree s - {p}. owner (bs_nodes st1) q = Some b" using assms(7) st1(3) by simp
  ultimately obtain st2 where st2: "btree_insert_node st1 b p = Some (0, st2)"
      "btree_shape st2 b (graft (key_of (bs_nodes st1)) t (key_of (bs_nodes st1) p) s) (c + -1 + 1)"
      "same_payload (bs_nodes st1) (bs_nodes st2)" "only_tree b (set_tree t \<union> {p}) st1 st2"
    using btree_insert_node_spec [OF st1(2) _ assms(5)] by blast
  have "reinsert st b p = Some st2" using False st1(1) st2(1) by (simp add: reinsert_def)
  moreover have "only_tree b (set_tree t \<union> set_tree s) st st2"
    by (rule only_tree_mono [OF only_tree_trans [OF st1(4) st2(4)]]) (use s in auto)
  ultimately show ?thesis using st2(2,3) st1(3) s by (intro exI [of _ st2]) simp
qed

lemma detach_node_spec:
  assumes "btree_shape st b t c" "x \<in> set_tree t"
  shows "\<exists>st'. detach_node st b x = Some st' \<and> btree_shape st' b (prune x t) c \<and> same_payload (bs_nodes st) (bs_nodes st') \<and>
    owner (bs_nodes st') = owner (bs_nodes st) \<and> only_tree b (set_tree (prune x t)) st st'"
proof -
  let ?h = "bs_nodes st"
  obtain B where B: "b \<noteq> NULL" "bs_trees st b = Some B" "bt_lock B" "bt_nr_nodes B = c" "bt ?h NULL t (bt_root B)" "tdist t"
      "bst_by (key_of ?h) t" "\<forall>q \<in> set_tree t. owner ?h q = Some b"
    using btree_shapeE [OF assms(1)] by blast
  obtain n where n: "x \<noteq> NULL" "?h x = Some n" using bt_loaded [OF B(5) assms(2)] by auto
  show ?thesis
  proof (cases "x = bt_root B")
    case True
    then have "prune x t = Leaf" using B(5) n(1) by (cases t) auto
    then show ?thesis using True B(1-4) n by (simp add: detach_node_def get_btree_def set_root_def put_btree_def btree_shape_def only_tree_def)
  next
    case False
    obtain h' where h': "bn_parent n \<in> set_tree (prune x t)" "unhooked ?h (bn_parent n) x h'" "bt h' NULL (prune x t) (bt_root B)"
      using prune_heap [OF B(5,6) assms(2) False] n(2) by auto
    define st' where "st' = st\<lparr>bs_nodes := h'\<rparr>"
    note keep = unhooked_keeps [OF h'(2)]
    have pn: "bn_parent n \<noteq> NULL" using bt_loaded [OF B(5)] h'(1) prune_subset by blast
    have run: "detach_node st b x = Some st'"
      using h'(2) False B(1,2) n pn
      by (auto simp: unhooked_def detach_node_def get_btree_def btree_node_isright_def btree_node_isleft_def bset_right_def bset_left_def st'_def)
    have "\<forall>q \<in> set_tree (prune x t). key_of h' q = key_of ?h q" using same_payloadD [OF keep(1)] bt_loaded [OF B(5)] prune_subset by blast
    then have "bst_by (key_of h') (prune x t)" using prune_bst [OF B(7), of x] bst_by_cong by blast
    moreover have "\<forall>q \<in> set_tree (prune x t). owner h' q = Some b" using keep(2) B(8) prune_subset by (metis subset_iff)
    ultimately have "btree_shape st' b (prune x t) c" using B(1-4) h'(3) prune_tdist [OF B(6), of x] by (simp add: btree_shape_def st'_def)
    moreover have "only_tree b (set_tree (prune x t)) st st'" using unhooked_outside [OF h'(2)] h'(1) by (simp add: only_tree_def st'_def) metis
    ultimately show ?thesis using run keep by (auto simp: st'_def)
  qed
qed

lemma apart_cong: "\<forall>q \<in> set_tree t \<union> set_tree s. key' q = key q \<Longrightarrow> apart key' t s = apart key t s"
  by (auto simp: apart_def)

lemma kids_order:
  assumes "x \<in> set_tree t" "tdist t" "bst_by key t" "kids x t = (l, r)" "\<forall>q \<in> set_tree t - {x}. key' q = key q"
  shows "bst_by key' l" "bst_by key' r" "apart key' (prune x t) l" "apart key' (prune x t) r" "apart key' r l"
proof -
  note ks = kids_set [OF assms(1,2,4)] and kg = kids_gap [OF assms(1-4)]
  have dl: "x \<notin> set_tree l" "x \<notin> set_tree r" using ks unfolding tdist_Node by auto
  have same: "\<forall>q \<in> set_tree l \<union> set_tree r \<union> set_tree (prune x t). key' q = key q" using assms(5) ks dl by auto
  show "bst_by key' l" "bst_by key' r" using kg same bst_by_cong [of l key' key] bst_by_cong [of r key' key] by auto
  show "apart key' (prune x t) l" "apart key' (prune x t) r" using kg same by (auto simp: apart_def)
  have "key y < key q" if "y \<in> set_tree l" "q \<in> set_tree r" for y q using kg that by (auto intro: less_trans)
  then show "apart key' r l" using same by (auto simp: apart_def)
qed

lemma btree_delete_node_spec:
  assumes "btree_shape st b t c" "x \<in> set_tree t"
  shows "\<exists>st' t'. btree_delete_node st b x = Some st' \<and> btree_shape st' b t' (c + -1) \<and> set_tree t' = set_tree t - {x} \<and>
    (\<exists>key k k'. t' = graft key (graft key (prune x t) k (snd (kids x t))) k' (fst (kids x t))) \<and> bs_nodes st' x = None \<and> same_payload ((bs_nodes st)(x := None)) (bs_nodes st') \<and> only_tree b (set_tree t) st st'"
proof -
  let ?h = "bs_nodes st"
  obtain B where B: "b \<noteq> NULL" "bt ?h NULL t (bt_root B)" "tdist t" "bst_by (key_of ?h) t" "\<forall>q \<in> set_tree t. owner ?h q = Some b" "btree_assert_locked st b = Some B"
    using btree_shapeE [OF assms(1)] by metis
  obtain l r where k: "kids x t = (l, r)" by fastforce
  note ks = kids_set [OF assms(2) B(3) k] and kg = kids_gap [OF assms(2) B(3,4) k]
  obtain n where n: "?h x = Some n" "bt ?h x l (bn_left n)" "bt ?h x r (bn_right n)" using kids_heap [OF B(2) assms(2) k] by blast
  have xn: "x \<noteq> NULL" using bt_loaded [OF B(2) assms(2)] by simp
  have dl: "tdist l" "tdist r" "x \<notin> set_tree l" "x \<notin> set_tree r" "set_tree l \<inter> set_tree r = {}" using ks unfolding tdist_Node by auto
  obtain st1 where st1: "detach_node st b x = Some st1" "btree_shape st1 b (prune x t) c" "same_payload ?h (bs_nodes st1)"
      "owner (bs_nodes st1) = owner ?h" "only_tree b (set_tree (prune x t)) st st1"
    using detach_node_spec [OF assms] by blast
  define st2 where "st2 = st1\<lparr>bs_nodes := (bs_nodes st1)(x := None)\<rparr>"
  let ?h2 = "bs_nodes st2"
  have out: "?h2 y = ?h y" if "y \<in> set_tree l \<union> set_tree r" for y using only_treeD [OF st1(5), of y] that ks dl by (auto simp: st2_def)
  have x1: "bs_nodes st1 x = Some n" using only_treeD [OF st1(5), of x] ks n(1) by auto
  have fr: "btree_free_node st1 x = Some st2" using x1 xn by (simp add: btree_free_node_def st2_def)
  have p2: "same_payload (?h(x := None)) ?h2" using st1(3) by (simp add: same_payload_def st2_def payload_def)
  have key2: "\<forall>q \<in> set_tree t - {x}. key_of ?h2 q = key_of ?h q" using same_payloadD [OF p2] bt_loaded [OF B(2)] by (auto simp: key_of_def)
  have own2: "\<forall>q \<in> set_tree t - {x}. owner ?h2 q = Some b" using B(5) st1(4) by (simp add: st2_def)
  have sh2: "btree_shape st2 b (prune x t) c" by (rule btree_shape_frame [OF st1(2)]) (use ks in \<open>auto simp: st2_def\<close>)
  obtain st3 where st3: "nr_nodes_add st2 b (-1) = Some st3" "btree_shape st3 b (prune x t) (c + -1)" "bs_nodes st3 = ?h2" "only_tree b {} st2 st3"
    using nr_nodes_add_spec [OF sh2] by blast
  have kids2: "bt ?h2 x l (bn_left n)" "bt ?h2 x r (bn_right n)" using bt_frame [OF n(2), of ?h2] bt_frame [OF n(3), of ?h2] out by auto
  note srt = kids_order [OF assms(2) B(3,4) k key2]
  define t4 where "t4 = graft (key_of ?h2) (prune x t) (root_key (key_of ?h2) r) r"
  have set4: "set_tree t4 = set_tree (prune x t) \<union> set_tree r" by (simp add: t4_def)
  obtain st4 where st4: "reinsert st3 b (bn_right n) = Some st4" "btree_shape st4 b t4 (c + -1)"
      "same_payload ?h2 (bs_nodes st4)" "only_tree b (set_tree (prune x t) \<union> set_tree r) st3 st4"
  proof -
    have "set_tree (prune x t) \<inter> set_tree r = {}" "\<forall>q \<in> set_tree r. owner ?h2 q = Some b" using ks dl own2 by auto
    then show thesis using reinsert_spec [OF st3(2), of x r "bn_right n"] kids2(2) dl(2) srt(2,4) that unfolding st3(3) t4_def by blast
  qed
  have out4: "bs_nodes st4 y = ?h2 y" if "y \<in> insert x (set_tree l)" for y using only_treeD [OF st4(4), of y] that ks dl unfolding st3(3) by auto
  have key4: "\<forall>q \<in> set_tree t - {x}. key_of (bs_nodes st4) q = key_of ?h2 q" using same_payloadD [OF st4(3)] own2 by (metis option.map(1) option.distinct(1) owner_def)
  define t5 where "t5 = graft (key_of (bs_nodes st4)) t4 (root_key (key_of (bs_nodes st4)) l) l"
  obtain st5 where st5: "reinsert st4 b (bn_left n) = Some st5" "btree_shape st5 b t5 (c + -1)"
      "same_payload (bs_nodes st4) (bs_nodes st5)" "only_tree b (set_tree t4 \<union> set_tree l) st4 st5"
  proof -
    have "bt (bs_nodes st4) x l (bn_left n)" by (rule bt_frame [OF kids2(1)]) (use out4 in blast)
    moreover have "bst_by (key_of (bs_nodes st4)) l" using srt(1) key4 bst_by_cong [of l "key_of (bs_nodes st4)" "key_of ?h2"] ks dl by auto
    moreover have "apart (key_of (bs_nodes st4)) t4 l" using srt(3,5) key4 set4 ks dl by (auto simp: apart_def)
    moreover have "\<forall>q \<in> set_tree l. owner (bs_nodes st4) q = Some b" using own2 out4 ks dl by (auto simp: owner_def)
    moreover have "set_tree t4 \<inter> set_tree l = {}" using set4 ks dl by auto
    ultimately show thesis using reinsert_spec [OF st4(2), of x l "bn_left n"] dl(1) that unfolding t5_def by blast
  qed
  have "\<exists>key k k'. t5 = graft key (graft key (prune x t) k (snd (kids x t))) k' (fst (kids x t))"
  proof -
    have "\<forall>q \<in> set_tree (prune x t). key_of (bs_nodes st4) q = key_of ?h2 q" using key4 ks by auto
    then have "t4 = graft (key_of (bs_nodes st4)) (prune x t) (root_key (key_of ?h2) r) r" using graft_cong unfolding t4_def by metis
    then show ?thesis using k unfolding t5_def by auto
  qed
  moreover have "btree_delete_node st b x = Some st5" using B(1,6) xn n(1) st1(1) fr st3(1) st4(1) st5(1) by (simp add: btree_delete_node_def)
  moreover have "set_tree t5 = set_tree t - {x}" using set4 ks dl by (auto simp: t5_def)
  moreover have "same_payload (?h(x := None)) (bs_nodes st5)" using same_payload_trans [OF p2 same_payload_trans [OF st4(3) st5(3)]] .
  moreover have "bs_nodes st5 x = None" using only_treeD [OF st5(4), of x] out4 [of x] set4 ks dl by (auto simp: st2_def)
  moreover have "only_tree b {x} st1 st2" by (simp add: only_tree_def st2_def)
  note o = only_tree_trans [OF only_tree_trans [OF only_tree_trans [OF only_tree_trans [OF st1(5) this] st3(4)] st4(4)] st5(4)]
  have "only_tree b (set_tree t) st st5" by (rule only_tree_mono [OF o]) (use set4 ks in auto)
  ultimately show ?thesis using st5(2) by blast
qed

section \<open>The tree as a finite map\<close>

definition content :: "bheap \<Rightarrow> addr tree \<Rightarrow> u64 \<rightharpoonup> addr" where
  "content h t k = (if \<exists>p \<in> set_tree t. key_of h p = k then Some (data_of h (find_node (key_of h) t k)) else None)"

lemma content_at: "bst_by (key_of h) t \<Longrightarrow> p \<in> set_tree t \<Longrightarrow> content h t (key_of h p) = Some (data_of h p)"
  using find_node_at [of "key_of h" t p] by (auto simp: content_def)

lemma content_None: "content h t k = None \<longleftrightarrow> (\<forall>p \<in> set_tree t. key_of h p \<noteq> k)"
  by (simp add: content_def)

lemma content_iff:
  assumes "bst_by (key_of h) t"
  shows "content h t k = Some d \<longleftrightarrow> (\<exists>p \<in> set_tree t. key_of h p = k \<and> data_of h p = d)"
proof
  assume c: "content h t k = Some d"
  then obtain p where p: "p \<in> set_tree t" "key_of h p = k" by (auto simp: content_def split: if_splits)
  then show "\<exists>p \<in> set_tree t. key_of h p = k \<and> data_of h p = d" using content_at [OF assms p(1)] c by auto
next
  assume "\<exists>p \<in> set_tree t. key_of h p = k \<and> data_of h p = d"
  then show "content h t k = Some d" using content_at [OF assms] by blast
qed

definition entries :: "bheap \<Rightarrow> addr tree \<Rightarrow> (u64 \<times> addr) set" where
  "entries h t = (\<lambda>p. (key_of h p, data_of h p)) ` set_tree t"

lemma entries_same:
  assumes "\<And>q. q \<in> set_tree t \<Longrightarrow> key_of h' q = key_of h q \<and> data_of h' q = data_of h q"
  shows "entries h' t = entries h t"
  unfolding entries_def by (rule image_cong) (use assms in simp_all)

lemma content_entries: "bst_by (key_of h) t \<Longrightarrow> content h t k = Some d \<longleftrightarrow> (k, d) \<in> entries h t"
  using content_iff [of h t k d] by (auto simp: entries_def)

lemma content_cong:
  assumes "bst_by (key_of h') t'" "\<And>k d. (k, d) \<in> entries h' t' \<longleftrightarrow> m k = Some d"
  shows "content h' t' = m"
proof
  fix k
  have "content h' t' k = Some d \<longleftrightarrow> m k = Some d" for d using content_entries [OF assms(1), of k d] assms(2) by simp
  then show "content h' t' k = m k" by (cases "m k"; cases "content h' t' k") auto
qed

definition btree_map :: "bstate \<Rightarrow> addr \<Rightarrow> (u64 \<rightharpoonup> addr) \<Rightarrow> bool" where
  "btree_map st b m \<longleftrightarrow> (\<exists>t. btree_rep st b t \<and> content (bs_nodes st) t = m)"

lemma btree_search_spec:
  assumes "btree_map st b m"
  shows "btree_search st b k True = Some (case m k of Some d \<Rightarrow> (0, Some d) | None \<Rightarrow> (- ENOENT, None))"
proof -
  obtain t where t: "btree_shape st b t (of_nat (size t))" "content (bs_nodes st) t = m" using assms by (auto simp: btree_map_def btree_rep_def)
  let ?h = "bs_nodes st"
  obtain B where B: "b \<noteq> NULL" "bt ?h NULL t (bt_root B)" "bst_by (key_of ?h) t" "btree_assert_locked st b = Some B" using btree_shapeE [OF t(1)] by metis
  define p where "p = find_node (key_of ?h) t k"
  have look: "btree_lookup st b k = Some p" using lookup_walk_spec [OF B(2), of k] B(1,4) by (simp add: btree_lookup_def p_def)
  show ?thesis
  proof (cases "\<exists>q \<in> set_tree t. key_of ?h q = k")
    case True
    then obtain q where q: "q \<in> set_tree t" "key_of ?h q = k" by blast
    then have "p = q" using find_node_at [OF B(3) q(1)] by (simp add: p_def)
    moreover obtain n where n: "q \<noteq> NULL" "?h q = Some n" using bt_loaded [OF B(2) q(1)] by blast
    moreover have "m k = Some (bn_data n)" using content_at [OF B(3) q(1)] q(2) t(2) n(2) by (simp add: data_of_def)
    ultimately show ?thesis using look B(4) by (simp add: btree_search_def)
  next
    case False
    then have "p = NULL" using find_node_none [of t "key_of ?h" k] by (auto simp: p_def)
    moreover have "m k = None" using False unfolding t(2) [symmetric] content_None by blast
    ultimately show ?thesis using look B(4) by (simp add: btree_search_def)
  qed
qed

lemma btree_insert_spec:
  assumes "btree_map st b m" "p \<noteq> NULL" "bs_nodes st p = None"
  shows "\<exists>err st'. btree_insert p st b k d = Some (err, st') \<and>
    (if k \<in> dom m then err = - EEXIST \<and> btree_map st' b m else err = 0 \<and> btree_map st' b (m(k \<mapsto> d)))"
proof -
  obtain t where t: "btree_shape st b t (of_nat (size t))" "content (bs_nodes st) t = m" using assms(1) by (auto simp: btree_map_def btree_rep_def)
  let ?h = "bs_nodes st"
  obtain B where B: "b \<noteq> NULL" "bt ?h NULL t (bt_root B)" "tdist t" "bst_by (key_of ?h) t" "btree_assert_locked st b = Some B" using btree_shapeE [OF t(1)] by metis
  have pt: "p \<notin> set_tree t" using bt_loaded [OF B(2)] assms(3) by blast
  define n where "n = \<lparr>bn_key = k, bn_data = d, bn_left = NULL, bn_parent = NULL, bn_right = NULL, bn_btree = NULL\<rparr>"
  define st1 where "st1 = st\<lparr>bs_nodes := ?h(p \<mapsto> n)\<rparr>"
  have unf: "btree_insert p st b k d = do { (err, st) \<leftarrow> btree_insert_node st1 b p;
      if err \<noteq> 0 then do { st \<leftarrow> btree_free_node st p; Some (err, st) } else Some (0, st) }"
    using B(1,5) assms(2) by (simp add: btree_insert_def btree_alloc_node_def st1_def n_def)
  have key1: "\<forall>q \<in> set_tree t. key_of (bs_nodes st1) q = key_of ?h q \<and> data_of (bs_nodes st1) q = data_of ?h q" "key_of (bs_nodes st1) p = k" "data_of (bs_nodes st1) p = d"
    using pt by (auto simp: st1_def key_of_def data_of_def n_def)
  have sh1: "btree_shape st1 b t (of_nat (size t))" by (rule btree_shape_frame [OF t(1)]) (use pt in \<open>auto simp: st1_def\<close>)
  have dom: "k \<in> dom m \<longleftrightarrow> (\<exists>q \<in> set_tree t. key_of ?h q = k)" using content_None [of ?h t k] t(2) by auto
  show ?thesis
  proof (cases "k \<in> dom m")
    case False
    let ?s = "Node Leaf p Leaf :: addr tree"
    have "hanging (bs_nodes st1) p ?s" using assms(2) by (simp add: hanging_def st1_def n_def)
    moreover have "in_gap (key_of (bs_nodes st1)) t (key_of (bs_nodes st1) p) ?s" using False dom key1 by (auto simp: in_gap_def not_less_iff_gr_or_eq)
    ultimately obtain st' where st': "btree_insert_node st1 b p = Some (0, st')"
        "btree_shape st' b (graft (key_of (bs_nodes st1)) t k ?s) (of_nat (size t) + 1)" "same_payload (bs_nodes st1) (bs_nodes st')"
      using btree_insert_node_spec [OF sh1, of p ?s] pt key1(2) by auto
    define t' where "t' = graft (key_of (bs_nodes st1)) t k ?s"
    have set': "set_tree t' = insert p (set_tree t)" by (simp add: t'_def)
    have B': "tdist t'" "bst_by (key_of (bs_nodes st')) t'" using btree_shapeD [OF st'(2)] by (simp_all add: t'_def)
    have "size t' = Suc (size t)" using size_tdist [OF B'(1)] size_tdist [OF B(3)] set' pt by simp
    then have rep: "btree_rep st' b t'" using st'(2) by (simp add: btree_rep_def t'_def add.commute)
    have same: "key_of (bs_nodes st') q = key_of (bs_nodes st1) q \<and> data_of (bs_nodes st') q = data_of (bs_nodes st1) q" if "q \<in> set_tree t'" for q
      using same_payloadD [OF st'(3), of q] that set' bt_loaded [OF B(2)] by (auto simp: st1_def)
    have "entries (bs_nodes st') t' = insert (k, d) (entries ?h t)"
    proof -
      have "entries (bs_nodes st') t' = entries (bs_nodes st1) t'" using same by (rule entries_same)
      also have "\<dots> = insert (k, d) (entries (bs_nodes st1) t)" using key1(2,3) set' by (simp add: entries_def)
      also have "entries (bs_nodes st1) t = entries ?h t" using key1(1) by (intro entries_same) blast
      finally show ?thesis .
    qed
    then have "content (bs_nodes st') t' = m(k \<mapsto> d)"
    proof (intro content_cong [OF B'(2)])
      fix k' d'
      have "(k', d') \<in> entries ?h t \<longleftrightarrow> m k' = Some d'" using content_entries [OF B(4), of k' d'] t(2) by simp
      then show "(k', d') \<in> entries (bs_nodes st') t' \<longleftrightarrow> (m(k \<mapsto> d)) k' = Some d'" using False \<open>entries (bs_nodes st') t' = _\<close> by auto
    qed
    then show ?thesis using rep st'(1) unf False by (auto simp: btree_map_def)
  next
    case True
    have n1: "bs_nodes st1 p = Some n" "bn_key n = k" by (simp_all add: st1_def n_def)
    obtain B1 where B1: "bt (bs_nodes st1) NULL t (bt_root B1)" "bst_by (key_of (bs_nodes st1)) t" "btree_assert_locked st1 b = Some B1"
      using btree_shapeE [OF sh1] by metis
    have ex: "\<exists>q \<in> set_tree t. key_of (bs_nodes st1) q = bn_key n" using True dom key1(1) n1(2) by auto
    then have "bt_root B1 \<noteq> NULL" using bt_NULL [OF B1(1)] by auto
    moreover have "bset_parent (bs_nodes st1) p NULL = Some (bs_nodes st1)" using n1(1) assms(2) by (simp add: bset_parent_def n_def st1_def)
    ultimately have "btree_insert_node st1 b p = Some (- EEXIST, st1)"
      using insert_walk_exists [OF n1(1) assms(2) B1(1,2) ex] B(1) assms(2) B1(3) by (simp add: btree_insert_node_def)
    moreover have "btree_free_node st1 p = Some st" using n1(1) assms(2,3) by (simp add: btree_free_node_def st1_def fun_upd_idem)
    ultimately show ?thesis using unf assms(1) True by simp
  qed
qed

end
