(* ===== verification/Btree_Map.thy ===== *)
theory Btree_Map
  imports Btree_Proofs
begin

text \<open>
  The search tree as a finite map with an order: deletion, the least and the largest key, traversal in key order,
  and emptying.  The interface of a map is a locale that the operations of the tree interpret.
\<close>

section \<open>Deletion and bounds\<close>

lemma btree_rep_delete:
  assumes "btree_rep st b t" "x \<in> set_tree t"
  shows "\<exists>st' t'. btree_delete_node st b x = Some st' \<and> btree_rep st' b t' \<and> set_tree t' = set_tree t - {x} \<and>
    (\<exists>key k k'. t' = graft key (graft key (prune x t) k (snd (kids x t))) k' (fst (kids x t))) \<and>
    same_payload ((bs_nodes st)(x := None)) (bs_nodes st') \<and> only_tree b (set_tree t) st st' \<and> bs_nodes st' x = None"
proof -
  have sh: "btree_shape st b t (of_nat (size t))" using assms(1) by (simp add: btree_rep_def)
  obtain st' t' where r: "btree_delete_node st b x = Some st'" "btree_shape st' b t' (of_nat (size t) + -1)" "set_tree t' = set_tree t - {x}"
      "\<exists>key k k'. t' = graft key (graft key (prune x t) k (snd (kids x t))) k' (fst (kids x t))" "bs_nodes st' x = None" "same_payload ((bs_nodes st)(x := None)) (bs_nodes st')" "only_tree b (set_tree t) st st'"
    using btree_delete_node_spec [OF sh assms(2)] by blast
  have d: "tdist t" "tdist t'" using btree_shapeD(1) [OF sh] btree_shapeD(1) [OF r(2)] by simp_all
  have "size t = Suc (size t')" using size_tdist [OF d(1)] size_tdist [OF d(2)] r(3) card_Suc_Diff1 [OF _ assms(2)] by simp
  then have "btree_rep st' b t'" using r(2) by (simp add: btree_rep_def)
  then show ?thesis using r by blast
qed

lemma btree_delete_spec:
  assumes "btree_map st b m"
  shows "\<exists>st'. btree_delete st b k = Some st' \<and> btree_map st' b (m(k := None))"
proof -
  obtain t where t: "btree_rep st b t" "content (bs_nodes st) t = m" using assms by (auto simp: btree_map_def)
  let ?h = "bs_nodes st"
  obtain B where B: "b \<noteq> NULL" "bt ?h NULL t (bt_root B)" "bst_by (key_of ?h) t" "btree_assert_locked st b = Some B"
    using btree_shapeE [OF t(1) [unfolded btree_rep_def]] by metis
  have look: "btree_lookup st b k = Some (find_node (key_of ?h) t k)" using lookup_walk_spec [OF B(2), of k] B(1,4) by (simp add: btree_lookup_def)
  show ?thesis
  proof (cases "\<exists>q \<in> set_tree t. key_of ?h q = k")
    case True
    then obtain x where x: "x \<in> set_tree t" "key_of ?h x = k" by blast
    have fx: "find_node (key_of ?h) t k = x" using find_node_at [OF B(3) x(1)] x(2) by simp
    obtain st' t' where r: "btree_delete_node st b x = Some st'" "btree_rep st' b t'" "set_tree t' = set_tree t - {x}"
        "same_payload (?h(x := None)) (bs_nodes st')"
      using btree_rep_delete [OF t(1) x(1)] by blast
    have B': "bst_by (key_of (bs_nodes st')) t'" using btree_shapeD(2) [OF r(2) [unfolded btree_rep_def]] .
    have same: "key_of (bs_nodes st') q = key_of ?h q \<and> data_of (bs_nodes st') q = data_of ?h q" if "q \<in> set_tree t'" for q
    proof -
      have "(?h(x := None)) q \<noteq> None" "q \<noteq> x" using that r(3) bt_loaded [OF B(2), of q] by auto
      then show ?thesis using same_payloadD [OF r(4), of q] by (simp add: key_of_def data_of_def)
    qed
    have inj: "key_of ?h q \<noteq> k" if "q \<in> set_tree t'" for q
    proof
      assume "key_of ?h q = k"
      then have "q = x" using find_node_at [OF B(3), of q] fx that r(3) by (metis DiffD1)
      then show False using that r(3) by simp
    qed
    have "entries (bs_nodes st') t' = {e \<in> entries ?h t. fst e \<noteq> k}"
    proof -
      have "entries (bs_nodes st') t' = entries ?h t'" using same by (rule entries_same)
      also have "\<dots> = {e \<in> entries ?h t. fst e \<noteq> k}" unfolding entries_def r(3) using inj x(2) r(3) by force
      finally show ?thesis .
    qed
    then have "content (bs_nodes st') t' = m(k := None)"
    proof (intro content_cong [OF B'])
      fix k' d'
      have "(k', d') \<in> entries ?h t \<longleftrightarrow> m k' = Some d'" using content_entries [OF B(3), of k' d'] t(2) by simp
      then show "(k', d') \<in> entries (bs_nodes st') t' \<longleftrightarrow> (m(k := None)) k' = Some d'" using \<open>entries (bs_nodes st') t' = _\<close> by auto
    qed
    then show ?thesis using r(1,2) look fx B(4) by (auto simp: btree_delete_def btree_map_def)
  next
    case False
    then have "find_node (key_of ?h) t k = NULL" using find_node_none [of t "key_of ?h" k] by blast
    moreover have "m(k := None) = m" using False content_None [of ?h t k] t(2) by (auto simp: fun_eq_iff)
    ultimately show ?thesis using assms look B(1,4) by (simp add: btree_delete_def btree_delete_node_def)
  qed
qed

lemma walk_far_left:
  "bt h par t p \<Longrightarrow> bst_by (key_of h) t \<Longrightarrow> t \<noteq> Leaf \<Longrightarrow>
    \<exists>x \<in> set_tree t. walk_far bn_left h p e = Some x \<and> (\<forall>q \<in> set_tree t. key_of h x \<le> key_of h q)"
proof (induction t arbitrary: par p e)
  case (Node l q r)
  then obtain n where n: "p = q" "p \<noteq> NULL" "h p = Some n" "bt h p l (bn_left n)" by auto
  have step: "walk_far bn_left h p e = walk_far bn_left h (bn_left n) p" using n by (subst walk_far.simps) simp
  show ?case
  proof (cases "l = Leaf")
    case True
    then have "walk_far bn_left h p e = Some p" using step n by (simp add: walk_far.simps)
    then show ?thesis using n(1) True Node.prems(2) by (auto intro: less_imp_le)
  next
    case False
    obtain x where x: "x \<in> set_tree l" "walk_far bn_left h (bn_left n) p = Some x" "\<forall>q \<in> set_tree l. key_of h x \<le> key_of h q"
      using Node.IH(1) [OF n(4) _ False, of p] Node.prems(2) by (metis bst_wrt.simps(2))
    then have "key_of h x < key_of h q" using Node.prems(2) by auto
    moreover have "\<forall>y \<in> set_tree r. key_of h x < key_of h y" using \<open>key_of h x < key_of h q\<close> Node.prems(2) by (auto intro: less_trans)
    ultimately show ?thesis using x step by (auto intro: less_imp_le)
  qed
qed simp

lemma walk_far_right:
  "bt h par t p \<Longrightarrow> bst_by (key_of h) t \<Longrightarrow> t \<noteq> Leaf \<Longrightarrow>
    \<exists>x \<in> set_tree t. walk_far bn_right h p e = Some x \<and> (\<forall>q \<in> set_tree t. key_of h q \<le> key_of h x)"
proof (induction t arbitrary: par p e)
  case (Node l q r)
  then obtain n where n: "p = q" "p \<noteq> NULL" "h p = Some n" "bt h p r (bn_right n)" by auto
  have step: "walk_far bn_right h p e = walk_far bn_right h (bn_right n) p" using n by (subst walk_far.simps) simp
  show ?case
  proof (cases "r = Leaf")
    case True
    then have "walk_far bn_right h p e = Some p" using step n by (simp add: walk_far.simps)
    then show ?thesis using n(1) True Node.prems(2) by (auto intro: less_imp_le)
  next
    case False
    obtain x where x: "x \<in> set_tree r" "walk_far bn_right h (bn_right n) p = Some x" "\<forall>q \<in> set_tree r. key_of h q \<le> key_of h x"
      using Node.IH(2) [OF n(4) _ False, of p] Node.prems(2) by (metis bst_wrt.simps(2))
    then have "key_of h q < key_of h x" using Node.prems(2) by auto
    moreover have "\<forall>y \<in> set_tree l. key_of h y < key_of h x" using \<open>key_of h q < key_of h x\<close> Node.prems(2) by (auto intro: less_trans)
    ultimately show ?thesis using x step by (auto intro: less_imp_le)
  qed
qed simp

lemma walk_far_NULL: "walk_far c h NULL e = Some e"
  by (simp add: walk_far.simps)

lemma btree_bounds_spec:
  assumes "btree_map st b m"
  shows "m = Map.empty \<Longrightarrow> btree_least st b = Some NULL \<and> btree_largest st b = Some NULL"
    and "m \<noteq> Map.empty \<Longrightarrow> \<exists>k d. m k = Some d \<and> btree_least st b = Some d \<and> (\<forall>k' \<in> dom m. k \<le> k')"
    and "m \<noteq> Map.empty \<Longrightarrow> \<exists>k d. m k = Some d \<and> btree_largest st b = Some d \<and> (\<forall>k' \<in> dom m. k' \<le> k)"
proof -
  obtain t where t: "btree_rep st b t" "content (bs_nodes st) t = m" using assms by (auto simp: btree_map_def)
  let ?h = "bs_nodes st"
  obtain B where B: "b \<noteq> NULL" "bt ?h NULL t (bt_root B)" "bst_by (key_of ?h) t" "btree_assert_locked st b = Some B"
    using btree_shapeE [OF t(1) [unfolded btree_rep_def]] by metis
  have em: "m = Map.empty \<longleftrightarrow> t = Leaf"
  proof
    assume "m = Map.empty"
    then have "\<forall>k. \<forall>p \<in> set_tree t. key_of ?h p \<noteq> k" using content_None [of ?h t] t(2) by auto
    then show "t = Leaf" by (cases t) auto
  next
    assume "t = Leaf"
    then show "m = Map.empty" using t(2) by (auto simp: content_def fun_eq_iff)
  qed
  have dom: "k \<in> dom m \<longleftrightarrow> (\<exists>q \<in> set_tree t. key_of ?h q = k)" for k using content_None [of ?h t k] t(2) by auto
  have at: "m (key_of ?h q) = Some (data_of ?h q)" if "q \<in> set_tree t" for q using content_at [OF B(3) that] t(2) by simp
  show "btree_least st b = Some NULL \<and> btree_largest st b = Some NULL" if "m = Map.empty"
    using that em B(1,2,4) by (simp add: btree_least_def btree_least_node_def btree_largest_def btree_largest_node_def walk_far_NULL)
  show "\<exists>k d. m k = Some d \<and> btree_least st b = Some d \<and> (\<forall>k' \<in> dom m. k \<le> k')" if ne: "m \<noteq> Map.empty"
  proof -
    have "t \<noteq> Leaf" using ne em by simp
    then obtain x where x: "x \<in> set_tree t" "walk_far bn_left ?h (bt_root B) NULL = Some x" "\<forall>q \<in> set_tree t. key_of ?h x \<le> key_of ?h q"
      using walk_far_left [OF B(2,3)] by metis
    have "btree_least st b = Some (data_of ?h x)" using B(1,4) bt_loaded [OF B(2) x(1)] x(2)
      by (auto simp: btree_least_def btree_least_node_def data_of_def)
    moreover have "\<forall>k' \<in> dom m. key_of ?h x \<le> k'" using x(3) dom by (metis (no_types, lifting))
    ultimately show ?thesis using at [OF x(1)] by blast
  qed
  show "\<exists>k d. m k = Some d \<and> btree_largest st b = Some d \<and> (\<forall>k' \<in> dom m. k' \<le> k)" if ne: "m \<noteq> Map.empty"
  proof -
    have "t \<noteq> Leaf" using ne em by simp
    then obtain x where x: "x \<in> set_tree t" "walk_far bn_right ?h (bt_root B) NULL = Some x" "\<forall>q \<in> set_tree t. key_of ?h q \<le> key_of ?h x"
      using walk_far_right [OF B(2,3)] by metis
    have "btree_largest st b = Some (data_of ?h x)" using B(1,4) bt_loaded [OF B(2) x(1)] x(2)
      by (auto simp: btree_largest_def btree_largest_node_def data_of_def)
    moreover have "\<forall>k' \<in> dom m. k' \<le> key_of ?h x" using x(3) dom by (metis (no_types, lifting))
    ultimately show ?thesis using at [OF x(1)] by blast
  qed
qed

section \<open>Emptying\<close>

lemma prune_graft: "z \<notin> set_tree u \<Longrightarrow> prune z (graft key u k (Node l z r)) = u"
  by (induction u) (auto simp: prune_idem)

lemma kids_graft: "z \<notin> set_tree u \<Longrightarrow> kids z (graft key u k (Node l z r)) = (l, r)"
  by (induction u) auto

lemma prune_left_kid:
  "tdist t \<Longrightarrow> x \<in> set_tree t \<Longrightarrow> kids x t = (Node a y c, r) \<Longrightarrow> prune x (prune y t) = prune x t \<and> kids x (prune y t) = (Leaf, r) \<and> x \<in> set_tree (prune y t) \<and>
    y \<in> set_tree t \<and> kids y t = (a, c)"
proof (induction t)
  case (Node l p q)
  note d = Node.prems(1) [unfolded tdist_Node]
  have ks: "set_tree (Node l p q) = set_tree (prune x (Node l p q)) \<union> set_tree (Node (Node a y c) x r)" "tdist (Node (Node a y c) x r)"
    using kids_set [OF Node.prems(2,1,3)] by auto
  have yx: "y \<noteq> x" using ks(2) unfolding tdist_Node by auto
  consider "x = p" | "x \<noteq> p" "x \<in> set_tree l" "x \<notin> set_tree q" | "x \<noteq> p" "x \<in> set_tree q" "x \<notin> set_tree l" using Node.prems(2) d by auto
  then show ?case
  proof cases
    case 1
    then have "l = Node a y c" "q = r" using Node.prems(3) by auto
    moreover then have "y \<notin> set_tree q" using d by auto
    ultimately show ?thesis using 1 yx by (simp add: prune_idem)
  next
    case 2
    have k: "kids x l = (Node a y c, r)" using Node.prems(3) 2 by simp
    have "y \<in> set_tree l" using kids_set [OF 2(2) _ k] d by auto
    then have "y \<noteq> p" "y \<notin> set_tree q" using d by auto
    then show ?thesis using Node.IH(1) [OF _ 2(2) k] d 2 by (simp add: prune_idem)
  next
    case 3
    have k: "kids x q = (Node a y c, r)" using Node.prems(3) 3 by simp
    have "y \<in> set_tree q" using kids_set [OF 3(2) _ k] d by auto
    then have "y \<noteq> p" "y \<notin> set_tree l" using d by auto
    then show ?thesis using Node.IH(2) [OF _ 3(2) k] d 3 by (simp add: prune_idem)
  qed
qed simp

lemma btree_repD:
  assumes "btree_rep st b t" "x \<in> set_tree t" "kids x t = (l, r)"
  shows "x \<noteq> NULL" "\<exists>n B. bs_nodes st x = Some n \<and> bn_btree n = b \<and> btree_assert_locked st b = Some B \<and>
    bt (bs_nodes st) x l (bn_left n) \<and> bt (bs_nodes st) x r (bn_right n)"
proof -
  obtain B where B: "bt (bs_nodes st) NULL t (bt_root B)" "\<forall>q \<in> set_tree t. owner (bs_nodes st) q = Some b" "btree_assert_locked st b = Some B"
    using btree_shapeE [OF assms(1) [unfolded btree_rep_def]] by blast
  show "x \<noteq> NULL" using bt_loaded [OF B(1) assms(2)] by simp
  obtain n where n: "bs_nodes st x = Some n" "bt (bs_nodes st) x l (bn_left n)" "bt (bs_nodes st) x r (bn_right n)"
    using kids_heap [OF B(1) assms(2,3)] by blast
  then have "bn_btree n = b" using B(2) assms(2) by auto
  then show "\<exists>n B. bs_nodes st x = Some n \<and> bn_btree n = b \<and> btree_assert_locked st b = Some B \<and>
      bt (bs_nodes st) x l (bn_left n) \<and> bt (bs_nodes st) x r (bn_right n)" using n B(3) by blast
qed

lemma btree_flush_node_NULL: "btree_flush_node st NULL = Some (0, st)"
  by (simp add: btree_flush_node.simps)

definition emptied :: "addr \<Rightarrow> addr tree \<Rightarrow> addr tree \<Rightarrow> bstate \<Rightarrow> bstate \<Rightarrow> bool" where
  "emptied b t t' st st' \<longleftrightarrow> btree_rep st' b t' \<and> only_tree b (set_tree t) st st' \<and> set_tree t' \<subseteq> set_tree t \<and>
     (\<forall>q \<in> set_tree t - set_tree t'. bs_nodes st' q = None)"

lemma emptied_trans: "emptied b t t1 st st1 \<Longrightarrow> emptied b t1 t2 st1 st2 \<Longrightarrow> emptied b t t2 st st2"
proof -
  assume a: "emptied b t t1 st st1" "emptied b t1 t2 st1 st2"
  have "bs_nodes st2 q = None" if "q \<in> set_tree t" "q \<notin> set_tree t2" for q
  proof (cases "q \<in> set_tree t1")
    case False
    then have "bs_nodes st1 q = None" "bs_nodes st2 q = bs_nodes st1 q" using a that by (auto simp: emptied_def only_tree_def)
    then show ?thesis by simp
  qed (use a that in \<open>auto simp: emptied_def\<close>)
  moreover have "only_tree b (set_tree t) st st2" using a only_tree_trans only_tree_mono unfolding emptied_def by (metis sup.absorb1)
  ultimately show ?thesis using a by (auto simp: emptied_def)
qed

lemma btree_flush_node_spec:
  "btree_rep st b t \<Longrightarrow> x \<in> set_tree t \<Longrightarrow> kids x t = (l, r) \<Longrightarrow>
    \<exists>st'. btree_flush_node st x = Some (0, st') \<and> emptied b t (prune x t) st st'"
proof (induction "size l + size r" arbitrary: st t x l r rule: less_induct)
  case less
  have td: "tdist t" using btree_shapeD(1) [OF less.prems(1) [unfolded btree_rep_def]] .
  obtain n B where n: "x \<noteq> NULL" "bs_nodes st x = Some n" "bn_btree n = b" "btree_assert_locked st b = Some B"
      "bt (bs_nodes st) x l (bn_left n)"
    using btree_repD [OF less.prems] by blast
  define t1 where "t1 = (case l of Leaf \<Rightarrow> t | Node _ y _ \<Rightarrow> prune y t)"
  obtain st1 where st1: "btree_flush_node st (bn_left n) = Some (0, st1)" "emptied b t t1 st st1" "x \<in> set_tree t1" "prune x t1 = prune x t" "kids x t1 = (Leaf, r)"
  proof (cases l)
    case Leaf
    then show thesis using that [of st] n(5) less.prems by (simp add: btree_flush_node_NULL t1_def emptied_def only_tree_def)
  next
    case (Node a y c)
    then have y: "bn_left n = y" using n(5) by auto
    note pk = prune_left_kid [OF td less.prems(2) less.prems(3) [unfolded Node]]
    have "\<exists>st'. btree_flush_node st y = Some (0, st') \<and> emptied b t (prune y t) st st'"
      by (rule less.hyps [OF _ less.prems(1)]) (use pk Node in auto)
    then show thesis using that y pk Node by (auto simp: t1_def)
  qed
  have rep1: "btree_rep st1 b t1" using st1(2) by (simp add: emptied_def)
  obtain n1 where n1: "bs_nodes st1 x = Some n1" "bn_btree n1 = b" "bt (bs_nodes st1) x r (bn_right n1)"
    using btree_repD [OF rep1 st1(3,5)] by blast
  obtain st2 t2 key k where st2: "btree_delete_node st1 b x = Some st2" "btree_rep st2 b t2" "set_tree t2 = set_tree t1 - {x}"
      "t2 = graft key (prune x t) k r" "only_tree b (set_tree t1) st1 st2" "bs_nodes st2 x = None"
  proof -
    obtain st2 t2 key k k' where "btree_delete_node st1 b x = Some st2" "btree_rep st2 b t2" "set_tree t2 = set_tree t1 - {x}"
        "t2 = graft key (graft key (prune x t1) k (snd (kids x t1))) k' (fst (kids x t1))" "only_tree b (set_tree t1) st1 st2" "bs_nodes st2 x = None"
      using btree_rep_delete [OF rep1 st1(3)] by blast
    moreover from this(4) have "t2 = graft key (prune x t) k r" unfolding st1(4,5) by (simp add: graft_Leaf)
    ultimately show thesis using that by blast
  qed
  have e2: "emptied b t t2 st st2"
  proof (rule emptied_trans [OF st1(2)])
    show "emptied b t1 t2 st1 st2" unfolding emptied_def using st2(2,5) st2(6) unfolding st2(3) by blast
  qed
  obtain st3 where st3: "btree_flush_node st2 (bn_right n1) = Some (0, st3)" "emptied b t2 (prune x t) st2 st3"
  proof (cases r)
    case Leaf
    then show thesis using that [of st2] n1(3) st2(2,4) by (simp add: btree_flush_node_NULL graft_Leaf emptied_def only_tree_def)
  next
    case (Node a z c)
    have "z \<notin> set_tree (prune x t)" using kids_set [OF less.prems(2) td less.prems(3)] Node by auto
    then have "prune z t2 = prune x t" "kids z t2 = (a, c)" "z \<in> set_tree t2" using prune_graft kids_graft st2(4) Node by auto
    moreover have "bn_right n1 = z" "size a + size c < size l + size r" using n1(3) Node by auto
    ultimately show thesis using that less.hyps [OF _ st2(2), of a c z] by auto
  qed
  have "btree_flush_node st x = Some (0, st3)"
    using n st1(1) n1(1,2) st2(1) st3(1) by (subst btree_flush_node.simps) simp
  then show ?case using emptied_trans [OF e2 st3(2)] by blast
qed

lemma btree_flush_spec:
  assumes "btree_rep st b t"
  shows "\<exists>st'. btree_flush st b = Some (0, st') \<and> emptied b t Leaf st st'"
proof -
  obtain B where B: "bt (bs_nodes st) NULL t (bt_root B)" "btree_assert_locked st b = Some B"
    using btree_shapeE [OF assms [unfolded btree_rep_def]] by blast
  show ?thesis
  proof (cases t)
    case Leaf
    then show ?thesis using B assms by (simp add: btree_flush_def btree_flush_node_NULL emptied_def only_tree_def)
  next
    case (Node l p r)
    then show ?thesis using B btree_flush_node_spec [OF assms, of p l r] by (auto simp: btree_flush_def)
  qed
qed

end
