(* ===== verification/Btree_Order.thy ===== *)
theory Btree_Order
  imports Btree_Map
begin

text \<open>
  Traversal of a search tree into a queue, in the order of the keys; the interface of a finite map; the properties
  of the search tree and their witnesses.
\<close>

section \<open>Traversal\<close>

text \<open>The data of a tree in the order of its keys.\<close>

definition data_seq :: "bheap \<Rightarrow> addr tree \<Rightarrow> addr list" where
  "data_seq h t = map (data_of h) (inorder t)"

lemma data_seq_simps [simp]: "data_seq h Leaf = []" "data_seq h (Node l p r) = data_seq h l @ data_of h p # data_seq h r"
  by (simp_all add: data_seq_def)

definition fresh_cells :: "qstate \<Rightarrow> addr list \<Rightarrow> bool" where
  "fresh_cells qs al \<longleftrightarrow> distinct al \<and> (\<forall>a \<in> set al. a \<noteq> NULL \<and> qs_nodes qs a = None)"

lemma fresh_cells_ConsD: "fresh_cells qs (a # al) \<Longrightarrow> a \<noteq> NULL \<and> qs_nodes qs a = None \<and> fresh_cells qs al"
  by (simp add: fresh_cells_def)

lemma queue_data_append: "queue_data qs (ps @ rs) = queue_data qs ps @ queue_data qs rs"
  by (simp add: queue_data_def)

lemma enqueue_fresh:
  assumes "represents qs A" "A q = Some ps" "fresh_cells qs (a # al)" "d \<notin> set (queue_data qs ps)"
  shows "\<exists>qs'. enqueue a qs q d QUEUE_UNIQUE = Some (0, Some a, qs') \<and> represents qs' (A(q \<mapsto> ps @ [a])) \<and> fresh_cells qs' al \<and>
    queue_data qs' (ps @ [a]) = queue_data qs ps @ [d]"
proof -
  have a: "a \<noteq> NULL" "qs_nodes qs a = None" "fresh_cells qs al" "a \<notin> set al" using assms(3) by (auto simp: fresh_cells_def)
  obtain qs' where q: "enqueue a qs q d QUEUE_UNIQUE = Some (0, Some a, qs')" "represents qs' (A(q \<mapsto> ps @ [a]))"
      "node_data (qs_nodes qs') = (node_data (qs_nodes qs))(a \<mapsto> d)"
    using enqueue_appends_cases(2) [OF assms(1,2) a(1,2), of QUEUE_UNIQUE d] assms(4) by auto
  have nd: "qs_nodes qs' y = None \<longleftrightarrow> qs_nodes qs y = None" if "y \<noteq> a" for y
    using fun_cong [OF q(3), of y] that by (cases "qs_nodes qs y"; cases "qs_nodes qs' y") (auto simp: node_data_def)
  have "fresh_cells qs' al" using a(3,4) nd unfolding fresh_cells_def by metis
  moreover have "a \<notin> set ps" using represents_owned [OF assms(1) a(2)] assms(2) by (auto simp: unowned_def)
  then have "queue_data qs' (ps @ [a]) = queue_data qs ps @ [d]" unfolding queue_data_def q(3) by auto
  ultimately show ?thesis using q by blast
qed

lemma btree_node_traverse_spec:
  "bt (bs_nodes st) par t p \<Longrightarrow> \<forall>x \<in> set_tree t. owner (bs_nodes st) x = Some b \<Longrightarrow> btree_assert_locked st b = Some B \<Longrightarrow>
    represents qs A \<Longrightarrow> A q = Some ps \<Longrightarrow> fresh_cells qs (al @ rest) \<Longrightarrow> length al = size t \<Longrightarrow>
    distinct (queue_data qs ps @ data_seq (bs_nodes st) t) \<Longrightarrow>
    \<exists>qs'. btree_node_traverse st (al @ rest) qs p q = Some (0, rest, qs') \<and> represents qs' (A(q \<mapsto> ps @ al)) \<and> fresh_cells qs' rest \<and>
      queue_data qs' (ps @ al) = queue_data qs ps @ data_seq (bs_nodes st) t"
proof (induction t arbitrary: par p qs A ps al rest)
  case Leaf
  have "queue_assert_locked qs q \<noteq> None" using shape_locked [OF representsD_shape [OF Leaf.prems(4,5)]] by simp
  then show ?case using Leaf.prems by (subst btree_node_traverse.simps) (auto simp: fun_upd_idem)
next
  case (Node l x r)
  let ?h = "bs_nodes st"
  obtain n where n: "p = x" "p \<noteq> NULL" "?h p = Some n" "bt ?h p l (bn_left n)" "bt ?h p r (bn_right n)" using Node.prems(1) by auto
  have nb: "bn_btree n = b" "data_of ?h x = bn_data n" using Node.prems(2) n(1,3) by (auto simp: data_of_def)
  obtain Q where ql: "queue_assert_locked qs q = Some Q" using shape_locked [OF representsD_shape [OF Node.prems(4,5)]] by simp
  obtain al1 a al2 where al: "al = al1 @ a # al2" "length al1 = size l" "length al2 = size r"
  proof -
    have "size l < length al" using Node.prems(7) by simp
    then have "al = take (size l) al @ al ! size l # drop (Suc (size l)) al" by (simp add: id_take_nth_drop)
    then show thesis using that [of "take (size l) al" "al ! size l" "drop (Suc (size l)) al"] Node.prems(7) by simp
  qed
  obtain qs1 where q1: "btree_node_traverse st (al1 @ (a # al2 @ rest)) qs (bn_left n) q = Some (0, a # al2 @ rest, qs1)"
      "represents qs1 (A(q \<mapsto> ps @ al1))" "fresh_cells qs1 (a # al2 @ rest)" "queue_data qs1 (ps @ al1) = queue_data qs ps @ data_seq ?h l"
  proof -
    have "\<forall>x \<in> set_tree l. owner ?h x = Some b" "fresh_cells qs (al1 @ (a # al2 @ rest))" "distinct (queue_data qs ps @ data_seq ?h l)"
      using Node.prems(2,6,8) al(1) by auto
    from Node.IH(1) [OF n(4) this(1) Node.prems(3-5) this(2) al(2) this(3)] that show thesis by blast
  qed
  have dn: "bn_data n \<notin> set (queue_data qs1 (ps @ al1))" using Node.prems(8) nb(2) unfolding q1(4) by auto
  obtain qs2 where q2: "enqueue a qs1 q (bn_data n) QUEUE_UNIQUE = Some (0, Some a, qs2)" "represents qs2 (A(q \<mapsto> (ps @ al1) @ [a]))"
      "fresh_cells qs2 (al2 @ rest)" "queue_data qs2 ((ps @ al1) @ [a]) = queue_data qs1 (ps @ al1) @ [bn_data n]"
    using enqueue_fresh [OF q1(2) _ q1(3) dn, of q] by auto
  have "distinct (queue_data qs2 ((ps @ al1) @ [a]) @ data_seq ?h r)" using Node.prems(8) nb(2) unfolding q2(4) q1(4) by auto
  note dr = this
  have own: "\<forall>x \<in> set_tree r. owner ?h x = Some b" "(A(q \<mapsto> (ps @ al1) @ [a])) q = Some ((ps @ al1) @ [a])" using Node.prems(2) by auto
  obtain qs3 where q3: "btree_node_traverse st (al2 @ rest) qs2 (bn_right n) q = Some (0, rest, qs3)"
      "represents qs3 (A(q \<mapsto> ((ps @ al1) @ [a]) @ al2))" "fresh_cells qs3 rest"
      "queue_data qs3 (((ps @ al1) @ [a]) @ al2) = queue_data qs2 ((ps @ al1) @ [a]) @ data_seq ?h r"
    using Node.IH(2) [OF n(5) own(1) Node.prems(3) q2(2) own(2) q2(3) al(3) dr] unfolding fun_upd_upd by blast
  have "btree_node_traverse st (al @ rest) qs p q = Some (0, rest, qs3)"
    using ql n(2,3) nb(1) Node.prems(3) q1(1) q2(1) q3(1) al(1) by (subst btree_node_traverse.simps) (simp add: head_or_null_def)
  moreover have "queue_data qs3 (ps @ al) = queue_data qs ps @ data_seq ?h (Node l x r)" using q3(4) q2(4) q1(4) al(1) nb(2) by simp
  moreover have "represents qs3 (A(q \<mapsto> ps @ al))" using q3(2) al(1) by simp
  ultimately show ?case using q3(3) by blast
qed

lemma bst_sorted: "bst_by key t \<Longrightarrow> sorted_wrt (<) (map key (inorder t))"
  by (induction t) (auto simp: sorted_wrt_append intro: less_trans)

lemma btree_traverse_spec:
  assumes "btree_map st b m" "represents qs A" "A q = Some []" "fresh_cells qs al" "length al = card (dom m)" "inj_on m (dom m)"
  shows "\<exists>qs' ks. btree_traverse st al qs b q = Some (0, [], qs') \<and> represents qs' (A(q \<mapsto> al)) \<and>
    sorted_wrt (<) ks \<and> set ks = dom m \<and> map Some (queue_data qs' al) = map m ks"
proof -
  obtain t where t: "btree_shape st b t (of_nat (size t))" "content (bs_nodes st) t = m" using assms(1) by (auto simp: btree_map_def btree_rep_def)
  let ?h = "bs_nodes st"
  obtain B where B: "bt ?h NULL t (bt_root B)" "tdist t" "bst_by (key_of ?h) t" "\<forall>x \<in> set_tree t. owner ?h x = Some b" "btree_assert_locked st b = Some B"
    using btree_shapeE [OF t(1)] by blast
  define ks where "ks = map (key_of ?h) (inorder t)"
  have srt: "sorted_wrt (<) ks" using bst_sorted [OF B(3)] by (simp add: ks_def)
  have dom: "set ks = dom m"
  proof -
    have "k \<in> dom m \<longleftrightarrow> (\<exists>p \<in> set_tree t. key_of ?h p = k)" for k using content_None [of ?h t k] t(2) by auto
    then have "dom m = key_of ?h ` set_tree t" unfolding set_eq_iff image_iff by metis
    then show ?thesis by (simp add: ks_def set_inorder)
  qed
  have val: "map Some (data_seq ?h t) = map m ks" using content_at [OF B(3)] t(2) by (auto simp: data_seq_def ks_def set_inorder)
  have len: "length al = size t"
    using assms(5) distinct_card [of ks] srt dom strict_sorted_iff [of ks] by (simp add: ks_def)
  have "distinct (map m ks)" using assms(6) srt dom strict_sorted_iff [of ks] by (simp add: distinct_map)
  then have "distinct (queue_data qs [] @ data_seq ?h t)" unfolding val [symmetric] by (simp add: queue_data_def distinct_map)
  then obtain qs' where r: "btree_node_traverse st (al @ []) qs (bt_root B) q = Some (0, [], qs')" "represents qs' (A(q \<mapsto> [] @ al))"
      "queue_data qs' ([] @ al) = queue_data qs [] @ data_seq ?h t"
    using btree_node_traverse_spec [OF B(1,4,5) assms(2,3) _ len, of "[]"] assms(4) by auto
  obtain Q where "queue_assert_locked qs q = Some Q" using shape_locked [OF representsD_shape [OF assms(2,3)]] by simp
  then have "btree_traverse st al qs b q = Some (0, [], qs')" using B(5) r(1) by (simp add: btree_traverse_def)
  moreover have "map Some (queue_data qs' al) = map m ks" using r(3) val by (simp add: queue_data_def)
  ultimately show ?thesis using r(2) srt dom by auto
qed

section \<open>The interface of a finite map\<close>

locale finite_map =
  fixes abs :: "'s \<Rightarrow> ('k \<rightharpoonup> 'v) \<Rightarrow> bool" and room :: "'s \<Rightarrow> 'p \<Rightarrow> bool"
    and find :: "'s \<Rightarrow> 'k \<Rightarrow> 'v option option" and add :: "'p \<Rightarrow> 's \<Rightarrow> 'k \<Rightarrow> 'v \<Rightarrow> (bool \<times> 's) option" and del :: "'s \<Rightarrow> 'k \<Rightarrow> 's option"
  assumes find_law: "abs s m \<Longrightarrow> find s k = Some (m k)"
    and add_law: "abs s m \<Longrightarrow> room s p \<Longrightarrow> \<exists>s'. add p s k v = Some (k \<notin> dom m, s') \<and> abs s' (if k \<in> dom m then m else m(k \<mapsto> v))"
    and del_law: "abs s m \<Longrightarrow> \<exists>s'. del s k = Some s' \<and> abs s' (m(k := None))"
begin

lemma add_find:
  assumes "abs s m" "room s p" "add p s k v = Some (ok, s')"
  shows "find s' k = Some (Some (case m k of None \<Rightarrow> v | Some w \<Rightarrow> w))" "j \<noteq> k \<Longrightarrow> find s' j = find s j"
proof -
  have a: "abs s' (if k \<in> dom m then m else m(k \<mapsto> v))" using add_law [OF assms(1,2), of k v] assms(3) by auto
  show "find s' k = Some (Some (case m k of None \<Rightarrow> v | Some w \<Rightarrow> w))" using find_law [OF a, of k] by (auto split: option.splits)
  show "find s' j = find s j" if "j \<noteq> k" using find_law [OF a, of j] find_law [OF assms(1), of j] that by simp
qed

lemma add_del:
  assumes "abs s m" "room s p" "k \<notin> dom m" "add p s k v = Some (ok, s')"
  shows "\<exists>s''. del s' k = Some s'' \<and> abs s'' m"
proof -
  have "abs s' (m(k \<mapsto> v))" using add_law [OF assms(1,2), of k v] assms(3,4) by auto
  from del_law [OF this, of k] show ?thesis using assms(3) by (auto simp: fun_upd_idem domIff)
qed

lemma del_find: "abs s m \<Longrightarrow> del s k = Some s' \<Longrightarrow> find s' j = (if j = k then Some None else find s j)"
  using del_law [of s m k] find_law by fastforce

end

definition btree_free_cell :: "bstate \<Rightarrow> addr \<Rightarrow> bool" where
  "btree_free_cell st p \<longleftrightarrow> p \<noteq> NULL \<and> bs_nodes st p = None"

interpretation tree: finite_map "\<lambda>st. btree_map st b" btree_free_cell "\<lambda>st k. map_option snd (btree_search st b k True)"
    "\<lambda>p st k d. map_option (\<lambda>(err, st'). (err = 0, st')) (btree_insert p st b k d)" "\<lambda>st k. btree_delete st b k" for b
proof unfold_locales
  fix s m k assume a: "btree_map s b m"
  show "map_option snd (btree_search s b k True) = Some (m k)" using btree_search_spec [OF a] by (simp split: option.splits)
  show "\<exists>s'. btree_delete s b k = Some s' \<and> btree_map s' b (m(k := None))" using btree_delete_spec [OF a] .
  fix p v assume "btree_free_cell s p"
  then show "\<exists>s'. map_option (\<lambda>(err, st'). (err = 0, st')) (btree_insert p s b k v) = Some (k \<notin> dom m, s') \<and>
      btree_map s' b (if k \<in> dom m then m else m(k \<mapsto> v))"
    using btree_insert_spec [OF a, of p k v] by (fastforce simp: btree_free_cell_def split: if_splits)
qed

section \<open>Properties\<close>

text \<open>C16: \<^verbatim>\<open>btree_insert\<close> adds a key that is not in the tree and keeps the search order, the links and the count; for a key that
  is there it returns \<^verbatim>\<open>-EEXIST\<close> and the map is unchanged.  \<open>btree_map st b m\<close> says that the tree object \<open>b\<close> holds the map \<open>m\<close>.
\<close>

theorem btree_insert_correct:
  assumes "btree_map st b m" "p \<noteq> NULL" "bs_nodes st p = None"
  shows "\<exists>err st'. btree_insert p st b k d = Some (err, st') \<and>
    (if k \<in> dom m then err = - EEXIST \<and> btree_map st' b m else err = 0 \<and> btree_map st' b (m(k \<mapsto> d)))"
  using btree_insert_spec [OF assms] .

text \<open>C17: \<^verbatim>\<open>btree_delete\<close> removes exactly the given key: the node is freed, its two subtrees are inserted again, and every other
  key keeps its data.
\<close>

theorem btree_delete_correct:
  assumes "btree_map st b m"
  shows "\<exists>st'. btree_delete st b k = Some st' \<and> btree_map st' b (m(k := None))"
  using btree_delete_spec [OF assms] .

text \<open>\<^verbatim>\<open>btree_search\<close> terminates and returns the data stored under a key, or \<^verbatim>\<open>-ENOENT\<close> exactly when there is none.\<close>

theorem btree_search_correct:
  assumes "btree_map st b m"
  shows "btree_search st b k True = Some (case m k of Some d \<Rightarrow> (0, Some d) | None \<Rightarrow> (- ENOENT, None))"
  using btree_search_spec [OF assms] .

text \<open>\<^verbatim>\<open>btree_least\<close> and \<^verbatim>\<open>btree_largest\<close> return the data of the smallest and of the largest key, and null for an empty tree.\<close>

theorem btree_bounds_correct:
  assumes "btree_map st b m"
  shows "if m = Map.empty then btree_least st b = Some NULL \<and> btree_largest st b = Some NULL
    else (\<exists>k d. m k = Some d \<and> btree_least st b = Some d \<and> (\<forall>k' \<in> dom m. k \<le> k')) \<and>
      (\<exists>k d. m k = Some d \<and> btree_largest st b = Some d \<and> (\<forall>k' \<in> dom m. k' \<le> k))"
  using btree_bounds_spec [OF assms] by simp

text \<open>\<^verbatim>\<open>btree_traverse\<close> of a tree whose data are different fills an empty queue with them in increasing order of the keys, given memory
  for the queue nodes.
\<close>

theorem btree_traverse_in_order:
  assumes "btree_map st b m" "represents qs A" "A q = Some []" "fresh_cells qs al" "length al = card (dom m)" "inj_on m (dom m)"
  shows "\<exists>qs' ks. btree_traverse st al qs b q = Some (0, [], qs') \<and> represents qs' (A(q \<mapsto> al)) \<and>
    sorted_wrt (<) ks \<and> set ks = dom m \<and> map Some (queue_data qs' al) = map m ks"
  using btree_traverse_spec [OF assms] .

text \<open>\<^verbatim>\<open>btree_flush\<close> terminates although it deletes the nodes it walks over, leaves an empty tree, frees exactly the nodes of the
  tree and touches no other object.
\<close>

theorem btree_flush_empties:
  assumes "btree_rep st b t"
  shows "\<exists>st'. btree_flush st b = Some (0, st') \<and> btree_map st' b Map.empty \<and> (\<forall>q \<in> set_tree t. bs_nodes st' q = None) \<and>
    (\<forall>q. q \<notin> set_tree t \<longrightarrow> bs_nodes st' q = bs_nodes st q) \<and> (\<forall>c. c \<noteq> b \<longrightarrow> bs_trees st' c = bs_trees st c)"
proof -
  obtain st' where r: "btree_flush st b = Some (0, st')" "emptied b t Leaf st st'" using btree_flush_spec [OF assms] by blast
  then have "btree_map st' b Map.empty" by (auto simp: emptied_def btree_map_def content_def fun_eq_iff intro!: exI [of _ Leaf])
  then show ?thesis using r by (simp add: emptied_def only_tree_def)
qed

text \<open>Inserting a new key and deleting it is a round trip: the tree holds the map it held before.\<close>

theorem btree_insert_delete_roundtrip:
  assumes "btree_map st b m" "p \<noteq> NULL" "bs_nodes st p = None" "k \<notin> dom m" "btree_insert p st b k d = Some (err, st')"
  shows "\<exists>st''. btree_delete st' b k = Some st'' \<and> btree_map st'' b m"
  using tree.add_del [of st b m p k d "err = 0" st'] assms by (simp add: btree_free_cell_def)

text \<open>The iteration macro \<^verbatim>\<open>btree_foreach_item\<close> never works: \<^verbatim>\<open>iter_init\<close> locks the queue of the iterator and calls \<^verbatim>\<open>btree_iter_init\<close>, which
  locks it again and fails the assertion of the spin lock.
\<close>

theorem btree_foreach_panics:
  assumes "iter \<noteq> NULL" "b \<noteq> NULL"
  shows "iter_init qs iter (btree_iter_init st al b) = None"
proof (cases "get_queue qs iter")
  case (Some qr)
  have "queue_lock qs' iter = None" if "queue_lock qs iter = Some qs'" for qs'
    using that Some assms(1) by (auto simp: queue_lock_def get_queue_def put_queue_def assert_that_def split: if_splits)
  then have "btree_iter_init st al b qs' iter = None" if "queue_lock qs iter = Some qs'" for qs'
    using that assms by (simp add: btree_iter_init_def Option.bind_eq_None_conv)
  then show ?thesis using assms(1) by (auto simp: iter_init_def Option.bind_eq_None_conv)
qed (use assms in \<open>simp add: iter_init_def queue_lock_def\<close>)

section \<open>Witnesses\<close>

text \<open>A tree object at \<open>8\<close> with the keys 2, 5 and 7, rooted at 5.\<close>

definition tree0 :: bstate where
  "tree0 = \<lparr>bs_nodes = [0x50 \<mapsto> \<lparr>bn_key = 5, bn_data = 55, bn_left = 0x20, bn_parent = 0, bn_right = 0x70, bn_btree = 8\<rparr>,
       0x20 \<mapsto> \<lparr>bn_key = 2, bn_data = 22, bn_left = 0, bn_parent = 0x50, bn_right = 0, bn_btree = 8\<rparr>,
       0x70 \<mapsto> \<lparr>bn_key = 7, bn_data = 77, bn_left = 0, bn_parent = 0x50, bn_right = 0, bn_btree = 8\<rparr>],
     bs_trees = [8 \<mapsto> \<lparr>bt_nr_nodes = 3, bt_root = 0x50, bt_lock = True\<rparr>]\<rparr>"

definition shape0 :: "addr tree" where
  "shape0 = Node (Node Leaf 0x20 Leaf) 0x50 (Node Leaf 0x70 Leaf)"

lemma tree0_rep: "btree_rep tree0 8 shape0"
  by (simp add: btree_rep_def btree_shape_def tree0_def shape0_def key_of_def owner_def)

lemma tree0_map: "btree_map tree0 8 [2 \<mapsto> 22, 5 \<mapsto> 55, 7 \<mapsto> 77]"
proof -
  have "content (bs_nodes tree0) shape0 = [2 \<mapsto> 22, 5 \<mapsto> 55, 7 \<mapsto> 77]"
    by (auto simp: content_def fun_eq_iff tree0_def shape0_def key_of_def data_of_def)
  then show ?thesis using tree0_rep by (auto simp: btree_map_def)
qed

theorem btree_insert_correct_witness: "\<exists>st'. btree_insert 0x90 tree0 8 6 66 = Some (0, st') \<and> btree_map st' 8 [2 \<mapsto> 22, 5 \<mapsto> 55, 7 \<mapsto> 77, 6 \<mapsto> 66]"
  using btree_insert_correct [OF tree0_map, of "0x90" 6 66] by (auto simp: tree0_def split: if_splits)

theorem btree_delete_correct_witness: "\<exists>st'. btree_delete tree0 8 5 = Some st' \<and> btree_map st' 8 ([2 \<mapsto> 22, 5 \<mapsto> 55, 7 \<mapsto> 77](5 := None))"
  using btree_delete_correct [OF tree0_map, of 5] .

theorem btree_search_correct_witness: "btree_search tree0 8 7 True = Some (0, Some 77) \<and> btree_search tree0 8 6 True = Some (- ENOENT, None)"
  using btree_search_correct [OF tree0_map, of 7] btree_search_correct [OF tree0_map, of 6] by simp

theorem btree_bounds_correct_witness: "btree_least tree0 8 = Some 22 \<and> btree_largest tree0 8 = Some 77"
  using btree_bounds_correct [OF tree0_map] by (auto split: if_splits)

definition queues0 :: qstate where
  "queues0 = \<lparr>qs_nodes = Map.empty, qs_queues = [9 \<mapsto> \<lparr>q_head = 0, q_tail = 0, q_count = 0, q_lock = True\<rparr>]\<rparr>"

theorem btree_traverse_in_order_witness:
  "\<exists>qs' ks. btree_traverse tree0 [16, 32, 48] queues0 8 9 = Some (0, [], qs') \<and> represents qs' ([9 \<mapsto> []](9 \<mapsto> [16, 32, 48])) \<and>
    sorted_wrt (<) ks \<and> set ks = {2, 5, 7 :: u64} \<and> map Some (queue_data qs' [16, 32, 48]) = map [2 \<mapsto> 22, 5 \<mapsto> 55, 7 \<mapsto> 77] ks"
proof -
  have "represents queues0 [9 \<mapsto> []]" "fresh_cells queues0 [16, 32, 48]"
    by (auto simp: queues0_def represents_def queue_rep_def shape_def fresh_cells_def split: if_splits)
  moreover have "inj_on ([2 \<mapsto> 22, 5 \<mapsto> 55, 7 \<mapsto> 77] :: u64 \<rightharpoonup> addr) (dom ([2 \<mapsto> 22, 5 \<mapsto> 55, 7 \<mapsto> 77] :: u64 \<rightharpoonup> addr))" by (simp add: inj_on_def)
  moreover have "{7, 5, 2} = {2, 5, 7 :: u64}" by auto
  ultimately show ?thesis using btree_traverse_in_order [OF tree0_map, of queues0 "[9 \<mapsto> []]" 9 "[16, 32, 48]"] by simp
qed

theorem btree_flush_empties_witness:
  "\<exists>st'. btree_flush tree0 8 = Some (0, st') \<and> btree_map st' 8 Map.empty \<and> (\<forall>q \<in> {0x20, 0x50, 0x70}. bs_nodes st' q = None)"
  using btree_flush_empties [OF tree0_rep] by (auto simp: shape0_def)

theorem btree_insert_delete_roundtrip_witness:
  "\<exists>st' st''. btree_insert 0x90 tree0 8 6 66 = Some (0, st') \<and> btree_delete st' 8 6 = Some st'' \<and> btree_map st'' 8 [2 \<mapsto> 22, 5 \<mapsto> 55, 7 \<mapsto> 77]"
proof -
  obtain st' where st': "btree_insert 0x90 tree0 8 6 66 = Some (0, st')"
    using btree_insert_spec [OF tree0_map, of "0x90" 6 66] by (auto simp: tree0_def split: if_splits)
  with btree_insert_delete_roundtrip [OF tree0_map _ _ _ st'] show ?thesis by (auto simp: tree0_def)
qed

theorem btree_foreach_panics_witness: "iter_init queues0 9 (btree_iter_init tree0 [16, 32, 48] 8) = None"
  by (rule btree_foreach_panics) simp_all

end
