(* ===== verification/Memory.thy ===== *)
theory Memory
  imports Prelude
begin

text \<open>
  Memory as the string library sees it: bytes at addresses, words and vectors as little-endian sequences of bytes, C strings, and the loops over bytes and words that the functions of
  \<^verbatim>\<open>lib/string.c\<close> and \<^verbatim>\<open>lib/xyther_strings.c\<close> are made of.  An access to an address that is not mapped faults.
\<close>

section \<open>Bytes and words\<close>

type_synonym mem = "addr \<Rightarrow> u8 option"

definition st8 :: "mem \<Rightarrow> addr \<Rightarrow> u8 \<Rightarrow> mem option" where
  "st8 m a v = (if m a = None then None else Some (m(a \<mapsto> v)))"

fun load_bytes :: "mem \<Rightarrow> addr \<Rightarrow> nat \<Rightarrow> u8 list option" where
  "load_bytes m a 0 = Some []"
| "load_bytes m a (Suc n) = do { b \<leftarrow> m a; bs \<leftarrow> load_bytes m (a + 1) n; Some (b # bs) }"

fun store_bytes :: "mem \<Rightarrow> addr \<Rightarrow> u8 list \<Rightarrow> mem option" where
  "store_bytes m a [] = Some m"
| "store_bytes m a (b # bs) = do { m \<leftarrow> st8 m a b; store_bytes m (a + 1) bs }"

definition word_of_bytes :: "u8 list \<Rightarrow> u64" where
  "word_of_bytes bs = foldr (\<lambda>b w. ucast b OR push_bit 8 w) bs 0"

definition bytes_of_word :: "nat \<Rightarrow> u64 \<Rightarrow> u8 list" where
  "bytes_of_word n w = map (\<lambda>i. ucast (drop_bit (8 * i) w)) [0..<n]"

definition ld64 :: "mem \<Rightarrow> addr \<Rightarrow> u64 option" where
  "ld64 m a = map_option word_of_bytes (load_bytes m a 8)"

definition st64 :: "mem \<Rightarrow> addr \<Rightarrow> u64 \<Rightarrow> mem option" where
  "st64 m a w = store_bytes m a (bytes_of_word 8 w)"

definition mapped :: "mem \<Rightarrow> addr \<Rightarrow> nat \<Rightarrow> bool" where
  "mapped m a n \<longleftrightarrow> (\<forall>i<n. m (a + of_nat i) \<noteq> None)"

lemma load_bytes_Some: "load_bytes m a n = Some bs \<longleftrightarrow> length bs = n \<and> (\<forall>i<n. m (a + of_nat i) = Some (bs ! i))"
proof (induction n arbitrary: a bs)
  case (Suc n)
  have "load_bytes m a (Suc n) = Some bs \<longleftrightarrow> (\<exists>b cs. bs = b # cs \<and> m a = Some b \<and> load_bytes m (a + 1) n = Some cs)"
    by (auto simp: bind_eq_Some_conv)
  also have "\<dots> \<longleftrightarrow> (\<exists>b cs. bs = b # cs \<and> m a = Some b \<and> length cs = n \<and> (\<forall>i<n. m (a + 1 + of_nat i) = Some (cs ! i)))"
    by (simp add: Suc.IH)
  also have "\<dots> \<longleftrightarrow> length bs = Suc n \<and> (\<forall>i<Suc n. m (a + of_nat i) = Some (bs ! i))"
    by (cases bs) (auto simp: less_Suc_eq_0_disj algebra_simps)
  finally show ?case .
qed auto

lemma load_bytes_mapped: "mapped m a n \<longleftrightarrow> (\<exists>bs. load_bytes m a n = Some bs)"
proof
  assume "mapped m a n"
  then have "load_bytes m a n = Some (map (\<lambda>i. the (m (a + of_nat i))) [0..<n])"
    by (auto simp: load_bytes_Some mapped_def)
  then show "\<exists>bs. load_bytes m a n = Some bs" by blast
qed (auto simp: load_bytes_Some mapped_def)

section \<open>Distances between addresses\<close>

lemma unat_diff: "unat (a - b :: u64) = (if unat b \<le> unat a then unat a - unat b else unat a + 2 ^ 64 - unat b)"
  by (simp add: unat_sub_if_size word_size)

lemma unat_lt64: "unat (a :: u64) < 2 ^ 64"
proof -
  have "unat a < 2 ^ LENGTH(64)" by (rule unsigned_less)
  then show ?thesis by simp
qed

lemma unat_small [simp]: "n < 2 ^ 64 \<Longrightarrow> unat (of_nat n :: u64) = n"
  by (simp add: unat_of_nat)

lemma dist_of_nat: "n < 2 ^ 64 \<Longrightarrow> unat (a + of_nat n - a :: u64) = n"
  by simp

text \<open>The memory after a list of bytes has been written, and after a block has been copied: reading happens before writing.\<close>

definition written :: "mem \<Rightarrow> addr \<Rightarrow> u8 list \<Rightarrow> mem" where
  "written m a bs = (\<lambda>x. if unat (x - a) < length bs then Some (bs ! unat (x - a)) else m x)"

definition copied :: "mem \<Rightarrow> addr \<Rightarrow> addr \<Rightarrow> nat \<Rightarrow> mem" where
  "copied m d s n = (\<lambda>x. if unat (x - d) < n then m (s + (x - d)) else m x)"

lemma written_Nil [simp]: "written m a [] = m" and copied_0 [simp]: "copied m d s 0 = m"
  by (simp_all add: written_def copied_def)

lemma written_Cons:
  assumes "Suc (length bs) \<le> 2 ^ 64"
  shows "written (m(a \<mapsto> b)) (a + 1) bs = written m a (b # bs)"
proof
  fix x
  show "written (m(a \<mapsto> b)) (a + 1) bs x = written m a (b # bs) x"
  proof (cases "x = a")
    case True
    have "unat (a - (a + 1)) = 2 ^ 64 - 1" using unat_uminus [of 1] by simp
    then show ?thesis using assms True by (simp add: written_def)
  next
    case False
    then have "unat (x - a) \<noteq> 0" by (simp add: unat_eq_0)
    moreover have e: "x - (a + 1) = x - a - 1" by simp
    ultimately have "unat (x - (a + 1)) = unat (x - a) - 1" unfolding e unat_diff [of "x - a"] by simp
    then show ?thesis using False \<open>unat (x - a) \<noteq> 0\<close> by (auto simp: written_def nth_Cons' )
  qed
qed

lemma store_bytes_written:
  assumes "mapped m a (length bs)" "length bs \<le> 2 ^ 64"
  shows "store_bytes m a bs = Some (written m a bs)"
  using assms
proof (induction bs arbitrary: m a)
  case (Cons b bs)
  have "m a \<noteq> None" using Cons.prems(1) by (auto simp: mapped_def dest: spec [of _ 0])
  moreover have "mapped (m(a \<mapsto> b)) (a + 1) (length bs)"
    unfolding mapped_def
  proof (intro allI impI)
    fix i assume "i < length bs"
    then have "m (a + of_nat (Suc i)) \<noteq> None" using Cons.prems(1) unfolding mapped_def by (metis Suc_less_eq length_Cons)
    then show "(m(a \<mapsto> b)) (a + 1 + of_nat i) \<noteq> None" by (simp add: algebra_simps)
  qed
  moreover have "Suc (length bs) \<le> 2 ^ 64" using Cons.prems(2) by simp
  ultimately have "store_bytes (m(a \<mapsto> b)) (a + 1) bs = Some (written (m(a \<mapsto> b)) (a + 1) bs)" using Cons.IH by (simp del: fun_upd_apply)
  then show ?case using \<open>m a \<noteq> None\<close> \<open>Suc (length bs) \<le> 2 ^ 64\<close> by (simp add: st8_def written_Cons del: fun_upd_apply)
qed simp

lemma copy_bytes:
  assumes "load_bytes m s n = Some bs" "mapped m d n" "n \<le> 2 ^ 64"
  shows "store_bytes m d bs = Some (copied m d s n)"
proof -
  have "bs ! unat (x - d) = the (m (s + (x - d)))" "m (s + (x - d)) \<noteq> None" if "unat (x - d) < n" for x
    using assms(1) that by (auto simp: load_bytes_Some dest: spec [of _ "unat (x - d)"])
  then have "written m d bs = copied m d s n" using assms(1)
    by (fastforce simp: written_def copied_def load_bytes_Some)
  then show ?thesis using assms store_bytes_written [of m d bs] by (auto simp: load_bytes_Some)
qed

lemma copied_mapped:
  assumes "mapped m s n" "mapped m a k"
  shows "mapped (copied m d s n) a k"
proof -
  have "m (s + x) \<noteq> None" if "unat x < n" for x using assms(1) that by (auto simp: mapped_def dest: spec [of _ "unat x"])
  then show ?thesis using assms(2) by (auto simp: mapped_def copied_def)
qed

lemma copied_fwd:
  assumes "k + j \<le> 2 ^ 64" "unat (s - d) + (k + j) \<le> 2 ^ 64"
  shows "copied (copied m d s k) (d + of_nat k) (s + of_nat k) j = copied m d s (k + j)"
proof (cases "j = 0")
  case False
  then have k: "unat (of_nat k :: u64) = k" using assms(1) by simp
  show ?thesis
  proof
    fix x
    let ?u = "unat (x - d)"
    have off: "x - (d + of_nat k) = x - d - of_nat k" by simp
    show "copied (copied m d s k) (d + of_nat k) (s + of_nat k) j x = copied m d s (k + j) x"
    proof (cases "?u < k")
      case True
      then have "\<not> unat (x - (d + of_nat k)) < j" using assms(1) unfolding off unat_diff [of "x - d"] k by simp
      then show ?thesis using True by (simp add: copied_def)
    next
      case False
      have "unat (x - (d + of_nat k)) = ?u - k" using False unfolding off unat_diff [of "x - d"] k by simp
      moreover have "\<not> unat (s + (x - d) - d) < k" if "?u < k + j"
      proof -
        have "s + (x - d) - d = (s - d) + (x - d)" by simp
        then have "unat (s + (x - d) - d) = unat (s - d) + ?u" using assms(2) that by (simp only: unat_add_bounded)
        then show ?thesis using False by simp
      qed
      ultimately show ?thesis using False by (auto simp: copied_def)
    qed
  qed
qed simp

lemma copied_bwd:
  assumes "k + j \<le> 2 ^ 64" "unat (d - s) + (k + j) \<le> 2 ^ 64"
  shows "copied (copied m (d + of_nat k) (s + of_nat k) j) d s k = copied m d s (k + j)"
proof (cases "j = 0")
  case False
  then have k: "unat (of_nat k :: u64) = k" using assms(1) by simp
  show ?thesis
  proof
    fix x
    let ?u = "unat (x - d)"
    show "copied (copied m (d + of_nat k) (s + of_nat k) j) d s k x = copied m d s (k + j) x"
    proof (cases "?u < k")
      case True
      have off: "s + (x - d) - (d + of_nat k) = (x - d) - (d - s + of_nat k)" by simp
      have "unat (d - s + of_nat k) = unat (d - s) + k" using assms(2) False k by (simp add: unat_add_bounded)
      then have "\<not> unat (s + (x - d) - (d + of_nat k)) < j"
        using True assms(2) unfolding off unat_diff [of "x - d"] by simp
      then show ?thesis using True by (simp add: copied_def)
    next
      case False
      have off: "x - (d + of_nat k) = x - d - of_nat k" by simp
      have "unat (x - (d + of_nat k)) = ?u - k" using False unfolding off unat_diff [of "x - d"] k by simp
      then show ?thesis using False by (auto simp: copied_def)
    qed
  qed
qed simp

section \<open>The zero byte test\<close>

text \<open>\<^verbatim>\<open>HASZERO\<close> of \<^verbatim>\<open>lib/string.c\<close>: the macros \<^verbatim>\<open>ONES\<close> and \<^verbatim>\<open>HIGHS\<close> have a one and a high bit in every byte.\<close>

definition ONES :: u64 where "ONES = - 1 div 255"

definition HIGHS :: u64 where "HIGHS = ONES * (255 div 2 + 1)"

definition HASZERO :: "u64 \<Rightarrow> bool" where
  "HASZERO x \<longleftrightarrow> (x - ONES) AND NOT x AND HIGHS \<noteq> 0"

text \<open>The integers these words stand for, for \<open>n\<close> bytes, and the test on them.\<close>

fun ones_int :: "nat \<Rightarrow> int" where
  "ones_int 0 = 0"
| "ones_int (Suc n) = 1 + 256 * ones_int n"

fun bytes_int :: "u8 list \<Rightarrow> int" where
  "bytes_int [] = 0"
| "bytes_int (b # bs) = uint b + 256 * bytes_int bs"

lemma bit_low_high:
  assumes "0 \<le> (b :: int)" "b < 256"
  shows "bit (b + 256 * y) n = (if n < 8 then bit b n else bit y (n - 8))"
proof (cases "n < 8")
  case True
  have "take_bit 8 (b + 256 * y) = b" using assms by (simp add: take_bit_eq_mod)
  then have "bit b n = bit (take_bit 8 (b + 256 * y)) n" by simp
  then show ?thesis using True by (simp add: bit_take_bit_iff)
next
  case False
  have "drop_bit 8 (b + 256 * y) = y" using assms by (simp add: drop_bit_eq_div)
  then have "bit y (n - 8) = bit (drop_bit 8 (b + 256 * y)) (n - 8)" by simp
  then show ?thesis using False by (simp add: bit_drop_bit_eq)
qed

lemma byte_range: "0 \<le> uint (b :: u8)" "uint b < 256"
  using uint_lt2p [of b] by simp_all

lemma bytes_int_bound: "0 \<le> bytes_int bs \<and> bytes_int bs < 256 ^ length bs"
proof (induction bs)
  case (Cons b bs)
  then show ?case using byte_range [of b] by (auto intro!: add_nonneg_nonneg)
qed simp

text \<open>The highest bit of a byte is set in the difference and not in the number exactly for the zero bytes, up to the first of them.\<close>

lemma haszero_bytes:
  "(\<exists>k < length bs. bit (bytes_int bs - ones_int (length bs)) (8 * k + 7) \<and> \<not> bit (bytes_int bs) (8 * k + 7)) \<longleftrightarrow> 0 \<in> set bs"
proof (induction bs)
  case (Cons b bs)
  let ?x = "bytes_int bs" and ?o = "ones_int (length bs)"
  show ?case
  proof (cases "b = 0")
    case True
    have "bytes_int (b # bs) - ones_int (length (b # bs)) = 255 + 256 * (?x - ?o - 1)" using True by simp
    moreover have "bit (255 :: int) 7" by (simp add: bit_iff_odd)
    ultimately have "bit (bytes_int (b # bs) - ones_int (length (b # bs))) 7" by (simp only: bit_low_high [of 255]) simp
    moreover have "\<not> bit (bytes_int (b # bs)) 7" using True bit_low_high [of 0 ?x 7] by simp
    ultimately have "\<exists>k < length (b # bs). bit (bytes_int (b # bs) - ones_int (length (b # bs))) (8 * k + 7) \<and> \<not> bit (bytes_int (b # bs)) (8 * k + 7)"
      by (intro exI [of _ 0]) simp
    then show ?thesis using True by simp
  next
    case False
    then have b: "0 < uint b" using byte_range [of b] by (simp add: uint_0_iff order_less_le)
    have d: "bytes_int (b # bs) - ones_int (length (b # bs)) = (uint b - 1) + 256 * (?x - ?o)" by simp
    have diff: "bit (bytes_int (b # bs) - ones_int (length (b # bs))) n = (if n < 8 then bit (uint b - 1) n else bit (?x - ?o) (n - 8))" for n
      unfolding d using b byte_range [of b] by (intro bit_low_high) simp_all
    have val: "bit (bytes_int (b # bs)) n = (if n < 8 then bit (uint b) n else bit ?x (n - 8))" for n
      using byte_range [of b] by (simp only: bytes_int.simps bit_low_high)
    have low: "\<not> (bit (uint b - 1) 7 \<and> \<not> bit (uint b) 7)"
    proof -
      have "bit (x :: int) 7 = (x \<ge> 128)" if "0 \<le> x" "x < 256" for x
        using that by (simp add: bit_iff_odd) presburger
      then show ?thesis using b byte_range [of b] by simp
    qed
    show ?thesis using Cons.IH low False unfolding diff val by (auto simp: Ex_less_Suc2 add.commute)
  qed
qed simp

lemma word_of_bytes_Cons: "word_of_bytes (b # bs) = ucast b + 256 * word_of_bytes bs"
proof -
  have "ucast b + push_bit 8 (word_of_bytes bs) = (ucast b OR push_bit 8 (word_of_bytes bs) :: u64)"
    by (rule disjunctive_add) (auto simp: bit_push_bit_iff bit_ucast_iff dest: bit_imp_le_length)
  moreover have "push_bit 8 w = 256 * w" for w :: u64 by (simp add: push_bit_eq_mult)
  ultimately show ?thesis by (simp add: word_of_bytes_def)
qed

lemma word_of_bytes_int: "word_of_bytes bs = word_of_int (bytes_int bs)"
proof (induction bs)
  case (Cons b bs)
  have "(ucast b :: u64) = word_of_int (uint b)" by (simp add: unsigned_ucast_eq)
  then show ?case unfolding word_of_bytes_Cons Cons.IH by simp
qed (simp add: word_of_bytes_def)

lemma bit_HIGHS: "n < 64 \<Longrightarrow> bit HIGHS n \<longleftrightarrow> n mod 8 = 7"
proof -
  have "list_all (\<lambda>n. bit HIGHS n \<longleftrightarrow> n mod 8 = 7) [0..<64]" by code_simp
  then show "n < 64 \<Longrightarrow> bit HIGHS n \<longleftrightarrow> n mod 8 = 7" by (simp add: list_all_iff)
qed

lemma HASZERO_bytes:
  assumes "length bs = 8"
  shows "HASZERO (word_of_bytes bs) \<longleftrightarrow> 0 \<in> set bs"
proof -
  let ?x = "word_of_bytes bs" and ?i = "bytes_int bs" and ?o = "ones_int 8"
  have "ONES = word_of_int ?o" by code_simp
  then have d: "?x - ONES = word_of_int (?i - ?o)" by (simp add: word_of_bytes_int)
  have "HASZERO ?x \<longleftrightarrow> (\<exists>n < 64. bit (?x - ONES) n \<and> \<not> bit ?x n \<and> bit HIGHS n)"
    unfolding HASZERO_def by (auto simp: bit_eq_iff bit_and_iff bit_not_iff dest: bit_imp_le_length)
  also have "\<dots> \<longleftrightarrow> (\<exists>n < 64. bit (?i - ?o) n \<and> \<not> bit ?i n \<and> n mod 8 = 7)"
  proof -
    have "bit (?x - ONES) n = bit (?i - ?o) n" "bit ?x n = bit ?i n" if "n < 64" for n
      unfolding d unfolding word_of_bytes_int bit_word_of_int_iff using that by simp_all
    then show ?thesis using bit_HIGHS by blast
  qed
  also have "\<dots> \<longleftrightarrow> (\<exists>k < 8. bit (?i - ?o) (8 * k + 7) \<and> \<not> bit ?i (8 * k + 7))"
  proof -
    have "n = 8 * (n div 8) + 7" if "n mod 8 = 7" for n :: nat using that by presburger
    moreover have "n div 8 < 8" if "n < 64" for n :: nat using that by simp
    moreover have "(8 * k + 7) mod 8 = 7" "8 * k + 7 < 64" if "k < 8" for k :: nat using that by (presburger, simp)
    ultimately show ?thesis by metis
  qed
  finally show ?thesis using haszero_bytes [of bs] assms by simp
qed

text \<open>The same for the bytes that equal \<open>c\<close>, by exclusive or with a word whose bytes are all \<open>c\<close>.\<close>

lemma bit_word_of_bytes: "n < 64 \<Longrightarrow> length bs = 8 \<Longrightarrow> bit (word_of_bytes bs) n = bit (bs ! (n div 8)) (n mod 8)"
proof -
  have "bit (bytes_int bs) n = (n div 8 < length bs \<and> bit (bs ! (n div 8)) (n mod 8))" for n
  proof (induction bs arbitrary: n)
    case (Cons b bs)
    have "bit (uint b) n = bit b n" using bit_imp_le_length [of b n] by (auto simp: bit_uint_iff)
    moreover have "bit (bytes_int (b # bs)) n = (if n < 8 then bit (uint b) n else bit (bytes_int bs) (n - 8))"
      using byte_range [of b] by (simp only: bytes_int.simps bit_low_high)
    moreover have "n div 8 = Suc ((n - 8) div 8)" "n mod 8 = (n - 8) mod 8" if "\<not> n < 8" using that by (simp_all add: le_div_geq le_mod_geq)
    ultimately show ?case using Cons.IH [of "n - 8"] by (cases "n < 8") simp_all
  qed simp
  moreover have "n div 8 < 8" if "n < 64" using that by (simp add: less_mult_imp_div_less)
  ultimately show "n < 64 \<Longrightarrow> length bs = 8 \<Longrightarrow> bit (word_of_bytes bs) n = bit (bs ! (n div 8)) (n mod 8)"
    by (simp add: word_of_bytes_int bit_word_of_int_iff)
qed

lemma word_of_bytes_replicate: "word_of_bytes (replicate 8 c) = ONES * ucast c"
proof -
  have "ONES = 0x0101010101010101" by code_simp
  then show ?thesis by (simp add: numeral_eq_Suc word_of_bytes_Cons) (simp add: word_of_bytes_def algebra_simps)
qed

lemma word_of_bytes_xor:
  assumes "length bs = 8"
  shows "word_of_bytes bs XOR (ONES * ucast c) = word_of_bytes (map (\<lambda>b. b XOR c) bs)"
proof (rule bit_word_eqI)
  fix n assume n: "n < LENGTH(64)"
  then have "n div 8 < 8" by simp
  then show "bit (word_of_bytes bs XOR (ONES * ucast c)) n = bit (word_of_bytes (map (\<lambda>b. b XOR c) bs)) n"
    using n assms bit_word_of_bytes [of n bs] bit_word_of_bytes [of n "replicate 8 c"] bit_word_of_bytes [of n "map (\<lambda>b. b XOR c) bs"]
    by (simp add: bit_xor_iff flip: word_of_bytes_replicate)
qed

lemma HASZERO_xor:
  assumes "length bs = 8"
  shows "HASZERO (word_of_bytes bs XOR (ONES * ucast c)) \<longleftrightarrow> c \<in> set bs"
proof -
  have "b XOR c = 0 \<longleftrightarrow> b = c" for b :: u8 by (metis bit.xor_self xor.assoc xor.left_neutral)
  then show ?thesis unfolding word_of_bytes_xor [OF assms] using assms HASZERO_bytes [of "map (\<lambda>b. b XOR c) bs"] by force
qed

lemma bytes_of_word_of_bytes: "length bs = 8 \<Longrightarrow> bytes_of_word 8 (word_of_bytes bs) = bs"
proof (rule nth_equalityI)
  fix i assume bs: "length bs = 8" and "i < length (bytes_of_word 8 (word_of_bytes bs))"
  then have i: "i < 8" by (simp add: bytes_of_word_def)
  show "bytes_of_word 8 (word_of_bytes bs) ! i = bs ! i"
  proof (rule bit_word_eqI)
    fix n assume n: "n < LENGTH(8)"
    then have "(8 * i + n) div 8 = i" "(8 * i + n) mod 8 = n" "8 * i + n < 64" using i by simp_all
    then show "bit (bytes_of_word 8 (word_of_bytes bs) ! i) n = bit (bs ! i) n"
      using i n bs bit_word_of_bytes [of "8 * i + n" bs] by (simp add: bytes_of_word_def bit_ucast_iff bit_drop_bit_eq)
  qed
qed (simp add: bytes_of_word_def)

section \<open>Loops\<close>

text \<open>
  The three loops that search for a byte with a property: byte by byte, byte by byte up to an aligned address (the result \<^term>\<open>Inl\<close> is a hit, \<^term>\<open>Inr\<close> the aligned address), and word by word.
\<close>

partial_function (option) byte_scan :: "(u8 \<Rightarrow> bool) \<Rightarrow> mem \<Rightarrow> addr \<Rightarrow> addr option" where
  "byte_scan stop m s = Option.bind (m s) (\<lambda>b. if stop b then Some s else byte_scan stop m (s + 1))"

partial_function (option) align_scan :: "(u8 \<Rightarrow> bool) \<Rightarrow> mem \<Rightarrow> addr \<Rightarrow> (addr + addr) option" where
  "align_scan stop m s =
    (if s AND 7 = 0 then Some (Inr s) else Option.bind (m s) (\<lambda>b. if stop b then Some (Inl s) else align_scan stop m (s + 1)))"

partial_function (option) word_scan :: "(u64 \<Rightarrow> bool) \<Rightarrow> mem \<Rightarrow> addr \<Rightarrow> addr option" where
  "word_scan stop m w = Option.bind (ld64 m w) (\<lambda>x. if stop x then Some w else word_scan stop m (w + 8))"

declare byte_scan.simps [code] align_scan.simps [code] word_scan.simps [code]

text \<open>The first byte with the property is \<open>n\<close> bytes away.\<close>

definition first_at :: "(u8 \<Rightarrow> bool) \<Rightarrow> mem \<Rightarrow> addr \<Rightarrow> nat \<Rightarrow> bool" where
  "first_at stop m a n \<longleftrightarrow> (\<forall>i<n. \<exists>b. m (a + of_nat i) = Some b \<and> \<not> stop b) \<and> (\<exists>b. m (a + of_nat n) = Some b \<and> stop b)"

lemma first_at_0: "first_at stop m a 0 \<longleftrightarrow> (\<exists>b. m a = Some b \<and> stop b)"
  by (simp add: first_at_def)

lemma first_at_Suc: "first_at stop m a (Suc n) \<longleftrightarrow> (\<exists>b. m a = Some b \<and> \<not> stop b) \<and> first_at stop m (a + 1) n"
  by (auto simp: first_at_def less_Suc_eq_0_disj algebra_simps)

lemma first_at_add: "first_at stop m a (k + n) \<Longrightarrow> first_at stop m (a + of_nat k) n"
proof (induction k arbitrary: a)
  case (Suc k)
  then have "first_at stop m (a + 1 + of_nat k) n" by (simp add: first_at_Suc)
  then show ?case by (simp add: algebra_simps)
qed simp

lemma byte_scan_first: "first_at stop m a n \<Longrightarrow> byte_scan stop m a = Some (a + of_nat n)"
proof (induction n arbitrary: a)
  case 0
  then show ?case by (subst byte_scan.simps) (auto simp: first_at_0)
next
  case (Suc n)
  then show ?case by (subst byte_scan.simps) (auto simp: first_at_Suc algebra_simps)
qed

lemma align_scan_first:
  "first_at stop m a n \<Longrightarrow> align_scan stop m a = Some (Inl (a + of_nat n)) \<or>
    (\<exists>k\<le>n. align_scan stop m a = Some (Inr (a + of_nat k)) \<and> (a + of_nat k) AND 7 = 0)"
proof (induction n arbitrary: a)
  case 0
  then show ?case by (subst align_scan.simps) (subst align_scan.simps, auto simp: first_at_0)
next
  case (Suc n)
  show ?case
  proof (cases "a AND 7 = 0")
    case True
    then show ?thesis by (subst (2) align_scan.simps) (auto intro: exI [of _ 0])
  next
    case False
    obtain b where b: "m a = Some b" "\<not> stop b" and n: "first_at stop m (a + 1) n" using Suc.prems by (auto simp: first_at_Suc)
    have step: "align_scan stop m a = align_scan stop m (a + 1)" using False b by (subst align_scan.simps) simp
    have e: "a + 1 + of_nat k = a + of_nat (Suc k)" for k by (simp add: algebra_simps)
    show ?thesis using Suc.IH [OF n] unfolding step e by (metis Suc_le_mono)
  qed
qed

text \<open>Memory is mapped in whole words, as pages are: a word read may go beyond the end of a string.\<close>

definition whole_words :: "mem \<Rightarrow> bool" where
  "whole_words m \<longleftrightarrow> (\<forall>a i. a AND 7 = 0 \<longrightarrow> i < 8 \<longrightarrow> m (a + of_nat i) \<noteq> None \<longrightarrow> mapped m a 8)"

lemma aligned_iff: "a AND 7 = (0 :: u64) \<longleftrightarrow> unat a mod 8 = 0"
proof -
  have "a AND 7 = a mod 8" by (simp add: take_bit_eq_mask mask_eq_exp_minus_1 flip: take_bit_eq_mod [of 3 a, simplified])
  then have "unat (a AND 7) = unat a mod 8" by (simp add: unat_mod)
  then show ?thesis by (metis unat_eq_0)
qed

lemma aligned_add_8: "a AND 7 = 0 \<Longrightarrow> (a + 8) AND 7 = (0 :: u64)"
proof -
  have "(unat a + 8) mod 2 ^ 64 mod 8 = (unat a + 8) mod 8" by (rule mod_mod_cancel) simp
  then show "a AND 7 = 0 \<Longrightarrow> (a + 8) AND 7 = 0" unfolding aligned_iff by (simp add: unat_word_ariths)
qed

lemma word_scan_first:
  assumes "whole_words m" "a AND 7 = 0" "first_at stop m a n"
    and stopw: "\<And>bs. length bs = 8 \<Longrightarrow> stopw (word_of_bytes bs) \<longleftrightarrow> (\<exists>b \<in> set bs. stop b)"
  shows "\<exists>k\<le>n. word_scan stopw m a = Some (a + of_nat k)"
  using assms(2,3)
proof (induction n arbitrary: a rule: less_induct)
  case (less n)
  have "m (a + of_nat 0) \<noteq> None" using less.prems(2) by (cases n) (auto simp: first_at_0 first_at_Suc)
  then have "mapped m a 8" using assms(1) less.prems(1) zero_less_numeral unfolding whole_words_def by blast
  then obtain bs where bs: "load_bytes m a 8 = Some bs" by (auto simp: load_bytes_mapped)
  then have len: "length bs = 8" and nth: "\<And>i. i < 8 \<Longrightarrow> m (a + of_nat i) = Some (bs ! i)" by (auto simp: load_bytes_Some)
  have ld: "ld64 m a = Some (word_of_bytes bs)" using bs by (simp add: ld64_def)
  show ?case
  proof (cases "n < 8")
    case True
    then have "stop (bs ! n)" using less.prems(2) nth [of n] by (auto simp: first_at_def)
    then have "stopw (word_of_bytes bs)" using stopw [OF len] True len by force
    then show ?thesis using ld by (subst word_scan.simps) (auto intro: exI [of _ 0])
  next
    case False
    then have "\<not> stop (bs ! i)" if "i < 8" for i using less.prems(2) nth [OF that] that by (auto simp: first_at_def dest: spec [of _ i])
    then have "\<not> stopw (word_of_bytes bs)" using stopw [OF len] len by (auto simp: in_set_conv_nth)
    then have step: "word_scan stopw m a = word_scan stopw m (a + 8)" using ld by (subst word_scan.simps) simp
    have "first_at stop m (a + of_nat 8) (n - 8)" using less.prems(2) False by (intro first_at_add) simp
    then have "\<exists>k\<le>n - 8. word_scan stopw m (a + 8) = Some (a + 8 + of_nat k)"
      using less.IH [of "n - 8" "a + 8"] aligned_add_8 [OF less.prems(1)] False by simp
    then obtain k where "k \<le> n - 8" "word_scan stopw m a = Some (a + of_nat (8 + k))" unfolding step by (auto simp: algebra_simps)
    then show ?thesis using False by (intro exI [of _ "8 + k"]) auto
  qed
qed

section \<open>C strings\<close>

definition cstr :: "mem \<Rightarrow> addr \<Rightarrow> u8 list \<Rightarrow> bool" where
  "cstr m a s \<longleftrightarrow> (\<forall>i < length s. m (a + of_nat i) = Some (s ! i)) \<and> m (a + of_nat (length s)) = Some 0 \<and> 0 \<notin> set s"

end
