(* ===== verification/Strings.thy ===== *)
theory Strings
  imports Memory
begin

text \<open>
  The string library: \<^verbatim>\<open>lib/string.c\<close> and \<^verbatim>\<open>lib/ctype.c\<close>.  Functions read and write the memory of \<open>Memory\<close>; a function that changes memory returns the new memory with its result.  A
  \<^verbatim>\<open>char\<close> is a byte that is signed where it is converted to \<^verbatim>\<open>int\<close>.  The addresses that \<^verbatim>\<open>kmalloc\<close> returns are arguments.
\<close>

section \<open>Characters\<close>

definition islower :: "int \<Rightarrow> bool" where "islower c \<longleftrightarrow> 97 \<le> c \<and> c \<le> 122"

definition isupper :: "int \<Rightarrow> bool" where "isupper c \<longleftrightarrow> 65 \<le> c \<and> c \<le> 90"

definition isalpha :: "int \<Rightarrow> bool" where "isalpha c \<longleftrightarrow> islower c \<or> isupper c"

definition isdigit :: "int \<Rightarrow> bool" where "isdigit c \<longleftrightarrow> 48 \<le> c \<and> c \<le> 57"

definition tolower :: "int \<Rightarrow> int" where "tolower c = (if \<not> isalpha c then c else c OR 32)"

definition toupper :: "int \<Rightarrow> int" where "toupper c = (if \<not> isalpha c then c else NOT 32 AND c)"

definition isspace :: "int \<Rightarrow> bool" where "isspace c \<longleftrightarrow> c \<in> {32, 11, 8, 12, 9, 13, 10}"

definition isxdigit :: "int \<Rightarrow> bool" where "isxdigit c \<longleftrightarrow> isdigit c \<or> (97 \<le> c \<and> c \<le> 102) \<or> (65 \<le> c \<and> c \<le> 70)"

definition isalphanum :: "int \<Rightarrow> bool" where "isalphanum c \<longleftrightarrow> isalpha c \<or> isdigit c"

definition chr :: "u8 \<Rightarrow> int" where "chr b = sint b"

text \<open>\<^verbatim>\<open>atoi\<close> builds the negative of the number in an \<^verbatim>\<open>int\<close>; \<^verbatim>\<open>atol\<close> has the same text and also an \<^verbatim>\<open>int\<close>.\<close>

partial_function (option) atoi_digits :: "mem \<Rightarrow> addr \<Rightarrow> u32 \<Rightarrow> u32 option" where
  "atoi_digits m s n = Option.bind (m s) (\<lambda>b. if isdigit (chr b) then atoi_digits m (s + 1) (10 * n - word_of_int (chr b - 48)) else Some n)"

definition atoi_word :: "mem \<Rightarrow> addr \<Rightarrow> u32 option" where
  "atoi_word m s0 = do {
     s \<leftarrow> byte_scan (\<lambda>b. \<not> isspace (chr b)) m s0;
     b \<leftarrow> m s;
     let neg = (b = 45);
     let s = (if b = 45 \<or> b = 43 then s + 1 else s);
     n \<leftarrow> atoi_digits m s 0;
     Some (if neg then n else - n) }"

definition atoi :: "mem \<Rightarrow> addr \<Rightarrow> int option" where
  "atoi m s = map_option sint (atoi_word m s)"

definition atol :: "mem \<Rightarrow> addr \<Rightarrow> int option" where
  "atol m s = map_option sint (atoi_word m s)"

section \<open>Blocks of memory\<close>

partial_function (option) memcmp :: "mem \<Rightarrow> addr \<Rightarrow> addr \<Rightarrow> u64 \<Rightarrow> int option" where
  "memcmp m l r n =
    (if n = 0 then Some 0
     else Option.bind (m l) (\<lambda>a. Option.bind (m r) (\<lambda>b.
       if a = b then memcmp m (l + 1) (r + 1) (n - 1) else Some (uint a - uint b))))"

text \<open>The loops of \<^verbatim>\<open>memchr\<close>; each returns where it stopped and how many bytes are left.\<close>

partial_function (option) align_upto :: "u8 \<Rightarrow> mem \<Rightarrow> addr \<Rightarrow> u64 \<Rightarrow> (addr \<times> u64) option" where
  "align_upto c m s n =
    (if s AND 7 \<noteq> 0 \<and> n \<noteq> 0
     then Option.bind (m s) (\<lambda>b. if b \<noteq> c then align_upto c m (s + 1) (n - 1) else Some (s, n))
     else Some (s, n))"

partial_function (option) words_upto :: "u8 \<Rightarrow> mem \<Rightarrow> addr \<Rightarrow> u64 \<Rightarrow> (addr \<times> u64) option" where
  "words_upto c m w n =
    (if n \<ge> 8
     then Option.bind (ld64 m w) (\<lambda>x. if \<not> HASZERO (x XOR ONES * ucast c) then words_upto c m (w + 8) (n - 8) else Some (w, n))
     else Some (w, n))"

partial_function (option) bytes_upto :: "u8 \<Rightarrow> mem \<Rightarrow> addr \<Rightarrow> u64 \<Rightarrow> (addr \<times> u64) option" where
  "bytes_upto c m s n =
    (if n \<noteq> 0
     then Option.bind (m s) (\<lambda>b. if b \<noteq> c then bytes_upto c m (s + 1) (n - 1) else Some (s, n))
     else Some (s, n))"

definition memchr :: "mem \<Rightarrow> addr \<Rightarrow> u8 \<Rightarrow> u64 \<Rightarrow> addr option" where
  "memchr m src c n = do {
     (s, n) \<leftarrow> align_upto c m src n;
     hit \<leftarrow> (if n \<noteq> 0 then map_option (\<lambda>b. b = c) (m s) else Some False);
     (s, n) \<leftarrow> (if n \<noteq> 0 \<and> \<not> hit then do { (w, n) \<leftarrow> words_upto c m s n; bytes_upto c m w n } else Some (s, n));
     Some (if n \<noteq> 0 then s else NULL) }"

partial_function (option) memrchr :: "mem \<Rightarrow> addr \<Rightarrow> u8 \<Rightarrow> u64 \<Rightarrow> addr option" where
  "memrchr m s c n =
    (if n = 0 then Some NULL
     else Option.bind (m (s + (n - 1))) (\<lambda>b. if b = c then Some (s + (n - 1)) else memrchr m s c (n - 1)))"

partial_function (option) copy_loop :: "mem \<Rightarrow> addr \<Rightarrow> addr \<Rightarrow> u64 \<Rightarrow> u64 \<Rightarrow> mem option" where
  "copy_loop m d s i n =
    (if i < n
     then Option.bind (m (s + i)) (\<lambda>b. Option.bind (st8 m (d + i) b) (\<lambda>m. copy_loop m d s (i + 1) n))
     else Some m)"

definition memcpy :: "mem \<Rightarrow> addr \<Rightarrow> addr \<Rightarrow> u64 \<Rightarrow> (addr \<times> mem) option" where
  "memcpy m d s n = map_option (\<lambda>m. (d, m)) (copy_loop m d s 0 n)"

partial_function (option) copy32_loop :: "mem \<Rightarrow> addr \<Rightarrow> addr \<Rightarrow> u64 \<Rightarrow> u64 \<Rightarrow> mem option" where
  "copy32_loop m d s i n =
    (if i < n
     then Option.bind (load_bytes m (s + 4 * i) 4) (\<lambda>bs. Option.bind (store_bytes m (d + 4 * i) bs) (\<lambda>m. copy32_loop m d s (i + 1) n))
     else Some m)"

definition memcpy32 :: "mem \<Rightarrow> addr \<Rightarrow> addr \<Rightarrow> u64 \<Rightarrow> (addr \<times> mem) option" where
  "memcpy32 m d s n = map_option (\<lambda>m. (d, m)) (copy32_loop m d s 0 n)"

text \<open>\<^verbatim>\<open>memset\<close> and \<^verbatim>\<open>memsetw\<close> store the bytes \<open>bs\<close> of one element \<open>n\<close> times.\<close>

partial_function (option) fill_loop :: "u8 list \<Rightarrow> mem \<Rightarrow> addr \<Rightarrow> u64 \<Rightarrow> u64 \<Rightarrow> mem option" where
  "fill_loop bs m a i n =
    (if i < n
     then Option.bind (store_bytes m (a + of_nat (length bs) * i) bs) (\<lambda>m. fill_loop bs m a (i + 1) n)
     else Some m)"

definition memset :: "mem \<Rightarrow> addr \<Rightarrow> int \<Rightarrow> u64 \<Rightarrow> (addr \<times> mem) option" where
  "memset m a val n = map_option (\<lambda>m. (a, m)) (fill_loop [word_of_int val] m a 0 n)"

definition memsetw :: "mem \<Rightarrow> addr \<Rightarrow> int \<Rightarrow> u64 \<Rightarrow> (addr \<times> mem) option" where
  "memsetw m a val n = map_option (\<lambda>m. (a, m)) (fill_loop (bytes_of_word 2 (word_of_int val)) m a 0 n)"

text \<open>The loops of \<^verbatim>\<open>memmove\<close>: forwards and backwards, by bytes up to an aligned address, by words, and by bytes.\<close>

partial_function (option) fwd_align :: "mem \<Rightarrow> addr \<Rightarrow> addr \<Rightarrow> u64 \<Rightarrow> (mem \<times> addr \<times> addr \<times> u64 option) option" where
  "fwd_align m d s n =
    (if d AND 7 \<noteq> 0
     then if n = 0 then Some (m, d, s, None)
       else Option.bind (m s) (\<lambda>b. Option.bind (st8 m d b) (\<lambda>m. fwd_align m (d + 1) (s + 1) (n - 1)))
     else Some (m, d, s, Some n))"

partial_function (option) fwd_words :: "mem \<Rightarrow> addr \<Rightarrow> addr \<Rightarrow> u64 \<Rightarrow> (mem \<times> addr \<times> addr \<times> u64) option" where
  "fwd_words m d s n =
    (if n \<ge> 8 then Option.bind (ld64 m s) (\<lambda>x. Option.bind (st64 m d x) (\<lambda>m. fwd_words m (d + 8) (s + 8) (n - 8)))
     else Some (m, d, s, n))"

partial_function (option) fwd_bytes :: "mem \<Rightarrow> addr \<Rightarrow> addr \<Rightarrow> u64 \<Rightarrow> mem option" where
  "fwd_bytes m d s n =
    (if n \<noteq> 0 then Option.bind (m s) (\<lambda>b. Option.bind (st8 m d b) (\<lambda>m. fwd_bytes m (d + 1) (s + 1) (n - 1))) else Some m)"

partial_function (option) bwd_align :: "mem \<Rightarrow> addr \<Rightarrow> addr \<Rightarrow> u64 \<Rightarrow> (mem \<times> u64 option) option" where
  "bwd_align m d s n =
    (if (d + n) AND 7 \<noteq> 0
     then if n = 0 then Some (m, None)
       else Option.bind (m (s + (n - 1))) (\<lambda>b. Option.bind (st8 m (d + (n - 1)) b) (\<lambda>m. bwd_align m d s (n - 1)))
     else Some (m, Some n))"

partial_function (option) bwd_words :: "mem \<Rightarrow> addr \<Rightarrow> addr \<Rightarrow> u64 \<Rightarrow> (mem \<times> u64) option" where
  "bwd_words m d s n =
    (if n \<ge> 8 then Option.bind (ld64 m (s + (n - 8))) (\<lambda>x. Option.bind (st64 m (d + (n - 8)) x) (\<lambda>m. bwd_words m d s (n - 8)))
     else Some (m, n))"

partial_function (option) bwd_bytes :: "mem \<Rightarrow> addr \<Rightarrow> addr \<Rightarrow> u64 \<Rightarrow> mem option" where
  "bwd_bytes m d s n =
    (if n \<noteq> 0
     then Option.bind (m (s + (n - 1))) (\<lambda>b. Option.bind (st8 m (d + (n - 1)) b) (\<lambda>m. bwd_bytes m d s (n - 1)))
     else Some m)"

definition move_fwd :: "mem \<Rightarrow> addr \<Rightarrow> addr \<Rightarrow> u64 \<Rightarrow> mem option" where
  "move_fwd m d s n =
    (if s AND 7 = d AND 7
     then do {
       (m, d, s, left) \<leftarrow> fwd_align m d s n;
       case left of
         None \<Rightarrow> Some m
       | Some n \<Rightarrow> do { (m, d, s, n) \<leftarrow> fwd_words m d s n; fwd_bytes m d s n } }
     else fwd_bytes m d s n)"

definition move_bwd :: "mem \<Rightarrow> addr \<Rightarrow> addr \<Rightarrow> u64 \<Rightarrow> mem option" where
  "move_bwd m d s n =
    (if s AND 7 = d AND 7
     then do {
       (m, left) \<leftarrow> bwd_align m d s n;
       case left of
         None \<Rightarrow> Some m
       | Some n \<Rightarrow> do { (m, n) \<leftarrow> bwd_words m d s n; bwd_bytes m d s n } }
     else bwd_bytes m d s n)"

definition memmove :: "mem \<Rightarrow> addr \<Rightarrow> addr \<Rightarrow> u64 \<Rightarrow> (addr \<times> mem) option" where
  "memmove m d s n =
    (if d = s then Some (d, m)
     else if s + n \<le> d \<or> d + n \<le> s then memcpy m d s n
     else if d < s then map_option (\<lambda>m. (d, m)) (move_fwd m d s n)
     else map_option (\<lambda>m. (d, m)) (move_bwd m d s n))"

declare memcmp.simps [code] align_upto.simps [code] words_upto.simps [code] bytes_upto.simps [code] memrchr.simps [code] copy_loop.simps [code]
  copy32_loop.simps [code] fill_loop.simps [code] fwd_align.simps [code] fwd_words.simps [code] fwd_bytes.simps [code] bwd_align.simps [code]
  bwd_words.simps [code] bwd_bytes.simps [code] atoi_digits.simps [code]

section \<open>Length, comparison and search\<close>

partial_function (option) strcmp :: "mem \<Rightarrow> addr \<Rightarrow> addr \<Rightarrow> int option" where
  "strcmp m l r =
    Option.bind (m l) (\<lambda>a. Option.bind (m r) (\<lambda>b. if a = b \<and> a \<noteq> 0 then strcmp m (l + 1) (r + 1) else Some (uint a - uint b)))"

definition strcoll :: "mem \<Rightarrow> addr \<Rightarrow> addr \<Rightarrow> int option" where
  "strcoll m s1 s2 = strcmp m s1 s2"

definition strlen :: "mem \<Rightarrow> addr \<Rightarrow> u64 option" where
  "strlen m a = do {
     r \<leftarrow> align_scan (\<lambda>b. b = 0) m a;
     case r of
       Inl s \<Rightarrow> Some (s - a)
     | Inr s \<Rightarrow> do { w \<leftarrow> word_scan HASZERO m s; s \<leftarrow> byte_scan (\<lambda>b. b = 0) m w; Some (s - a) } }"

definition strchrnul :: "mem \<Rightarrow> addr \<Rightarrow> u8 \<Rightarrow> addr option" where
  "strchrnul m s c =
    (if c = 0 then map_option (\<lambda>n. s + n) (strlen m s)
     else do {
       r \<leftarrow> align_scan (\<lambda>b. b = 0 \<or> b = c) m s;
       case r of
         Inl s \<Rightarrow> Some s
       | Inr s \<Rightarrow> do {
           w \<leftarrow> word_scan (\<lambda>x. HASZERO x \<or> HASZERO (x XOR ONES * ucast c)) m s;
           byte_scan (\<lambda>b. b = 0 \<or> b = c) m w } })"

definition strchr :: "mem \<Rightarrow> addr \<Rightarrow> u8 \<Rightarrow> addr option" where
  "strchr m s c = do { r \<leftarrow> strchrnul m s c; b \<leftarrow> m r; Some (if b = c then r else NULL) }"

definition strrchr :: "mem \<Rightarrow> addr \<Rightarrow> u8 \<Rightarrow> addr option" where
  "strrchr m s c = do { n \<leftarrow> strlen m s; memrchr m s c (n + 1) }"

definition lfind :: "mem \<Rightarrow> addr \<Rightarrow> u8 \<Rightarrow> u64 option" where "lfind m s c = strchr m s c"

definition rfind :: "mem \<Rightarrow> addr \<Rightarrow> u8 \<Rightarrow> u64 option" where "rfind m s c = strrchr m s c"

text \<open>\<^verbatim>\<open>BITOP\<close> on a set of 256 bits in four words.\<close>

definition bitop_set :: "u64 list \<Rightarrow> u8 \<Rightarrow> u64 list" where
  "bitop_set A b = A[unat b div 64 := A ! (unat b div 64) OR push_bit (unat b mod 64) 1]"

definition bitop_test :: "u64 list \<Rightarrow> u8 \<Rightarrow> bool" where
  "bitop_test A b \<longleftrightarrow> A ! (unat b div 64) AND push_bit (unat b mod 64) 1 \<noteq> 0"

partial_function (option) byteset :: "mem \<Rightarrow> addr \<Rightarrow> u64 list \<Rightarrow> u64 list option" where
  "byteset m c A = Option.bind (m c) (\<lambda>b. if b \<noteq> 0 then byteset m (c + 1) (bitop_set A b) else Some A)"

definition strspn :: "mem \<Rightarrow> addr \<Rightarrow> addr \<Rightarrow> u64 option" where
  "strspn m a c = do {
     c0 \<leftarrow> m c;
     if c0 = 0 then Some 0
     else do {
       c1 \<leftarrow> m (c + 1);
       if c1 = 0 then map_option (\<lambda>s. s - a) (byte_scan (\<lambda>b. b \<noteq> c0) m a)
       else do {
         A \<leftarrow> byteset m c [0, 0, 0, 0];
         s \<leftarrow> byte_scan (\<lambda>b. \<not> (b \<noteq> 0 \<and> bitop_test A b)) m a;
         Some (s - a) } } }"

definition strcspn :: "mem \<Rightarrow> addr \<Rightarrow> addr \<Rightarrow> u64 option" where
  "strcspn m a c = do {
     c0 \<leftarrow> m c;
     c1 \<leftarrow> (if c0 \<noteq> 0 then m (c + 1) else Some 0);
     if c0 \<noteq> 0 \<and> c1 \<noteq> 0
     then do {
       A \<leftarrow> byteset m c [0, 0, 0, 0];
       s \<leftarrow> byte_scan (\<lambda>b. \<not> (b \<noteq> 0 \<and> \<not> bitop_test A b)) m a;
       Some (s - a) }
     else map_option (\<lambda>s. s - a) (strchrnul m a c0) }"

definition strpbrk :: "mem \<Rightarrow> addr \<Rightarrow> addr \<Rightarrow> addr option" where
  "strpbrk m s b = do { n \<leftarrow> strcspn m s b; x \<leftarrow> m (s + n); Some (if x \<noteq> 0 then s + n else NULL) }"

definition string_eq :: "mem \<Rightarrow> addr \<Rightarrow> addr \<Rightarrow> bool option" where
  "string_eq m s0 s1 = do {
     n0 \<leftarrow> strlen m s0;
     n1 \<leftarrow> strlen m s1;
     if n0 \<noteq> n1 then Some False else map_option (\<lambda>d. d = 0) (strcmp m s0 s1) }"

partial_function (option) strncmp_loop :: "(u8 \<Rightarrow> int) \<Rightarrow> mem \<Rightarrow> addr \<Rightarrow> addr \<Rightarrow> u64 \<Rightarrow> (u8 \<times> u8) option" where
  "strncmp_loop f m s1 s2 n =
    Option.bind (m s1) (\<lambda>a. Option.bind (m s2) (\<lambda>b.
      if n \<noteq> 0 \<and> f a = f b
      then if n - 1 = 0 \<or> a = 0 then Some (a, b) else strncmp_loop f m (s1 + 1) (s2 + 1) (n - 1)
      else Some (a, b)))"

definition strncmp :: "mem \<Rightarrow> addr \<Rightarrow> addr \<Rightarrow> u64 \<Rightarrow> int option" where
  "strncmp m s1 s2 n = (if n = 0 then Some 0 else map_option (\<lambda>(a, b). uint a - uint b) (strncmp_loop chr m s1 s2 n))"

partial_function (option) strcasecmp :: "mem \<Rightarrow> addr \<Rightarrow> addr \<Rightarrow> int option" where
  "strcasecmp m l r =
    Option.bind (m l) (\<lambda>a. Option.bind (m r) (\<lambda>b.
      if tolower (chr a) = tolower (chr b) \<and> a \<noteq> 0 then strcasecmp m (l + 1) (r + 1) else Some (uint a - uint b)))"

text \<open>The unsigned difference is converted to \<^verbatim>\<open>int\<close> on return.\<close>

definition strncasecmp :: "mem \<Rightarrow> addr \<Rightarrow> addr \<Rightarrow> u64 \<Rightarrow> int option" where
  "strncasecmp m s1 s2 n =
    (if n = 0 then Some 0
     else map_option (\<lambda>(a, b). sint (word_of_int (tolower (chr a)) - word_of_int (tolower (chr b)) :: u32)) (strncmp_loop (\<lambda>b. tolower (chr b)) m s1 s2 n))"

text \<open>
  \<^verbatim>\<open>strstr\<close> for needles of two to four bytes keeps the last bytes of the haystack in a word and compares it with the needle.  \<open>step\<close> shifts the next byte in.
\<close>

partial_function (option) needle_loop :: "('w::len word \<Rightarrow> u8 \<Rightarrow> 'w word) \<Rightarrow> mem \<Rightarrow> 'w word \<Rightarrow> addr \<Rightarrow> 'w word \<Rightarrow> (addr \<times> u8) option" where
  "needle_loop step m nw h hw =
    Option.bind (m h) (\<lambda>x.
      if x \<noteq> 0 \<and> hw \<noteq> nw then Option.bind (m (h + 1)) (\<lambda>y. needle_loop step m nw (h + 1) (step hw y)) else Some (h, x))"

definition be_word :: "u8 list \<Rightarrow> 'w::len word" where
  "be_word bs = foldl (\<lambda>w b. push_bit 8 w OR ucast b) 0 bs"

definition strstr_2b :: "mem \<Rightarrow> addr \<Rightarrow> addr \<Rightarrow> addr option" where
  "strstr_2b m h n = do {
     nb \<leftarrow> load_bytes m n 2; hb \<leftarrow> load_bytes m h 2;
     (h, x) \<leftarrow> needle_loop (\<lambda>hw y. push_bit 8 hw OR ucast y) m (be_word nb :: 16 word) (h + 1) (be_word hb);
     Some (if x \<noteq> 0 then h - 1 else NULL) }"

definition strstr_3b :: "mem \<Rightarrow> addr \<Rightarrow> addr \<Rightarrow> addr option" where
  "strstr_3b m h n = do {
     nb \<leftarrow> load_bytes m n 3; hb \<leftarrow> load_bytes m h 3;
     (h, x) \<leftarrow> needle_loop (\<lambda>hw y. push_bit 8 (hw OR ucast y)) m (push_bit 8 (be_word nb) :: u32) (h + 2) (push_bit 8 (be_word hb));
     Some (if x \<noteq> 0 then h - 2 else NULL) }"

definition strstr_4b :: "mem \<Rightarrow> addr \<Rightarrow> addr \<Rightarrow> addr option" where
  "strstr_4b m h n = do {
     nb \<leftarrow> load_bytes m n 4; hb \<leftarrow> load_bytes m h 4;
     (h, x) \<leftarrow> needle_loop (\<lambda>hw y. push_bit 8 hw OR ucast y) m (be_word nb :: u32) (h + 3) (be_word hb);
     Some (if x \<noteq> 0 then h - 3 else NULL) }"

section \<open>Copying and joining strings\<close>

partial_function (option) strcpy_loop :: "mem \<Rightarrow> addr \<Rightarrow> addr \<Rightarrow> (addr \<times> mem) option" where
  "strcpy_loop m d s =
    Option.bind (m s) (\<lambda>b. Option.bind (st8 m d b) (\<lambda>m. if b \<noteq> 0 then strcpy_loop m (d + 1) (s + 1) else Some (d, m)))"

definition strcpy :: "mem \<Rightarrow> addr \<Rightarrow> addr \<Rightarrow> (addr \<times> mem) option" where
  "strcpy m d s = map_option (\<lambda>(e, m). (d, m)) (strcpy_loop m d s)"

partial_function (option) stp_align :: "mem \<Rightarrow> addr \<Rightarrow> addr \<Rightarrow> (bool \<times> addr \<times> addr \<times> mem) option" where
  "stp_align m d s =
    (if s AND 7 \<noteq> 0
     then Option.bind (m s) (\<lambda>b. Option.bind (st8 m d b) (\<lambda>m. if b = 0 then Some (True, d, s, m) else stp_align m (d + 1) (s + 1)))
     else Some (False, d, s, m))"

partial_function (option) stp_words :: "mem \<Rightarrow> addr \<Rightarrow> addr \<Rightarrow> (addr \<times> addr \<times> mem) option" where
  "stp_words m wd ws =
    Option.bind (ld64 m ws) (\<lambda>x. if HASZERO x then Some (wd, ws, m) else Option.bind (st64 m wd x) (\<lambda>m. stp_words m (wd + 8) (ws + 8)))"

definition stpcpy :: "mem \<Rightarrow> addr \<Rightarrow> addr \<Rightarrow> (addr \<times> mem) option" where
  "stpcpy m d s =
    (if s AND 7 = d AND 7
     then do {
       (done, d, s, m) \<leftarrow> stp_align m d s;
       if done then Some (d, m)
       else do { (d, s, m) \<leftarrow> stp_words m d s; strcpy_loop m d s } }
     else strcpy_loop m d s)"

partial_function (option) append_loop :: "mem \<Rightarrow> addr \<Rightarrow> addr \<Rightarrow> (addr \<times> mem) option" where
  "append_loop m e s =
    Option.bind (m s) (\<lambda>b. if b \<noteq> 0 then Option.bind (st8 m e b) (\<lambda>m. append_loop m (e + 1) (s + 1)) else Some (e, m))"

definition strcat :: "mem \<Rightarrow> addr \<Rightarrow> addr \<Rightarrow> (addr \<times> mem) option" where
  "strcat m d s = do {
     e \<leftarrow> byte_scan (\<lambda>b. b = 0) m d;
     (e, m) \<leftarrow> append_loop m e s;
     m \<leftarrow> st8 m e 0;
     Some (d, m) }"

partial_function (option) append_upto :: "mem \<Rightarrow> addr \<Rightarrow> addr \<Rightarrow> u64 \<Rightarrow> u64 \<Rightarrow> (addr \<times> mem) option" where
  "append_upto m e s i n =
    Option.bind (m s) (\<lambda>b. if b \<noteq> 0 \<and> i < n then Option.bind (st8 m e b) (\<lambda>m. append_upto m (e + 1) (s + 1) (i + 1) n) else Some (e, m))"

definition strncat :: "mem \<Rightarrow> addr \<Rightarrow> addr \<Rightarrow> u64 \<Rightarrow> (addr \<times> mem) option" where
  "strncat m d s n = do {
     e \<leftarrow> byte_scan (\<lambda>b. b = 0) m d;
     (e, m) \<leftarrow> append_upto m e s 0 n;
     m \<leftarrow> st8 m e 0;
     Some (d, m) }"

text \<open>\<^verbatim>\<open>strncpy\<close> returns the end of what it has written, and counts the padding in an \<^verbatim>\<open>int\<close>.\<close>

partial_function (option) strncpy_loop :: "mem \<Rightarrow> addr \<Rightarrow> addr \<Rightarrow> u64 \<Rightarrow> (addr \<times> u64 \<times> mem) option" where
  "strncpy_loop m d s n =
    (if n = 0 then Some (d, n, m)
     else Option.bind (m s) (\<lambda>b. if b = 0 then Some (d, n, m) else Option.bind (st8 m d b) (\<lambda>m. strncpy_loop m (d + 1) (s + 1) (n - 1))))"

partial_function (option) pad_loop :: "mem \<Rightarrow> addr \<Rightarrow> u32 \<Rightarrow> u32 \<Rightarrow> (addr \<times> mem) option" where
  "pad_loop m d i n = (if sint i < sint n then Option.bind (st8 m d 0) (\<lambda>m. pad_loop m (d + 1) (i + 1) n) else Some (d, m))"

definition strncpy :: "mem \<Rightarrow> addr \<Rightarrow> addr \<Rightarrow> u64 \<Rightarrow> (addr \<times> mem) option" where
  "strncpy m d s n = do { (d, n, m) \<leftarrow> strncpy_loop m d s n; pad_loop m d 0 (ucast n) }"

partial_function (option) safe_loop :: "mem \<Rightarrow> addr \<Rightarrow> addr \<Rightarrow> u64 \<Rightarrow> (addr \<times> mem) option" where
  "safe_loop m s t n =
    (if n - 1 = 0 then Some (s, m)
     else Option.bind (m t) (\<lambda>b. Option.bind (st8 m s b) (\<lambda>m. if b \<noteq> 0 then safe_loop m (s + 1) (t + 1) (n - 1) else Some (s + 1, m))))"

definition safestrncpy :: "mem \<Rightarrow> addr \<Rightarrow> addr \<Rightarrow> u64 \<Rightarrow> (addr \<times> mem) option" where
  "safestrncpy m d t n =
    (if n = 0 then Some (d, m) else do { (s, m) \<leftarrow> safe_loop m d t n; m \<leftarrow> st8 m s 0; Some (d, m) })"

text \<open>\<^verbatim>\<open>strdup\<close>, with the address \<open>str\<close> that \<^verbatim>\<open>kmalloc\<close> returns; the length is kept in an \<^verbatim>\<open>int\<close>.\<close>

definition strdup :: "mem \<Rightarrow> addr \<Rightarrow> addr \<Rightarrow> (addr \<times> mem) option" where
  "strdup m s str = do {
     n \<leftarrow> strlen m s;
     let len = (ucast (n + 1) :: u32);
     if str = NULL then Some (NULL, m)
     else do {
       (e, m) \<leftarrow> strcpy m str s;
       m \<leftarrow> st8 m (str + word_of_int (sint len - 1)) 0;
       Some (str, m) } }"

definition combine_strings :: "mem \<Rightarrow> addr \<Rightarrow> addr \<Rightarrow> addr \<Rightarrow> (addr \<times> mem) option" where
  "combine_strings m s0 s1 res =
    (if s0 = NULL \<or> s1 = NULL then Some (NULL, m)
     else do {
       len0 \<leftarrow> strlen m s0;
       len1 \<leftarrow> strlen m s1;
       if res = NULL then Some (NULL, m)
       else do {
         (e, m) \<leftarrow> memcpy m res s0 len0;
         (e, m) \<leftarrow> memcpy m (res + len0) s1 (len1 + 1);
         Some (res, m) } })"

text \<open>\<^verbatim>\<open>strtok_r\<close> returns the token, the new value of \<^verbatim>\<open>saveptr\<close> and the memory.  \<^verbatim>\<open>strtok\<close> keeps the pointer in a static variable.\<close>

definition strtok_r :: "mem \<Rightarrow> addr \<Rightarrow> addr \<Rightarrow> addr \<Rightarrow> (addr \<times> addr \<times> mem) option" where
  "strtok_r m str delim saveptr = do {
     let str = (if str = NULL then saveptr else str);
     k \<leftarrow> strspn m str delim;
     let str = str + k;
     b \<leftarrow> m str;
     if b = 0 then Some (NULL, str, m)
     else do {
       let token = str;
       e \<leftarrow> strpbrk m token delim;
       if e = NULL then do { p \<leftarrow> lfind m token 0; Some (token, p, m) }
       else do { m \<leftarrow> st8 m e 0; Some (token, e + 1, m) } } }"

definition strtok :: "mem \<Rightarrow> addr \<Rightarrow> addr \<Rightarrow> addr \<Rightarrow> (addr \<times> addr \<times> mem) option" where
  "strtok m str delim static_saveptr = strtok_r m str delim (if str \<noteq> NULL then NULL else static_saveptr)"

declare strcmp.simps [code] byteset.simps [code] strncmp_loop.simps [code] strcasecmp.simps [code] needle_loop.simps [code] strcpy_loop.simps [code]
  stp_align.simps [code] stp_words.simps [code] append_loop.simps [code] append_upto.simps [code] strncpy_loop.simps [code] pad_loop.simps [code] safe_loop.simps [code]

end
