(* ===== verification/Strings_Proofs.thy ===== *)
theory Strings_Proofs
  imports Strings
begin

text \<open>
  What the functions of the string library compute, in terms of lists of bytes: the searches that read a word at a time find the first byte, copies leave the memory a reader expects, and the
  comparisons order strings lexicographically.
\<close>

section \<open>Searching\<close>

lemma cstr_first_at: "cstr m a s \<Longrightarrow> first_at (\<lambda>b. b = 0) m a (length s)"
  by (auto simp: cstr_def first_at_def dest: nth_mem)

lemma cstr_Nil: "cstr m a [] \<longleftrightarrow> m a = Some 0"
  by (simp add: cstr_def)

lemma cstr_Cons: "cstr m a (b # s) \<longleftrightarrow> b \<noteq> 0 \<and> m a = Some b \<and> cstr m (a + 1) s"
  by (auto simp: cstr_def less_Suc_eq_0_disj algebra_simps)

lemma scan_from:
  assumes "first_at stop m a n" "k \<le> n"
  shows "byte_scan stop m (a + of_nat k) = Some (a + of_nat n)"
proof -
  have "first_at stop m (a + of_nat k) (n - k)" using assms by (intro first_at_add) simp
  from byte_scan_first [OF this] show ?thesis using assms(2) by (simp add: of_nat_diff)
qed

text \<open>The scheme the searches share: bytes up to an aligned address, then words, then the bytes of the last word.\<close>

lemma aligned_scan:
  assumes m: "whole_words m" and first: "first_at stop m a n"
    and stopw: "\<And>bs. length bs = 8 \<Longrightarrow> stopw (word_of_bytes bs) \<longleftrightarrow> (\<exists>b \<in> set bs. stop b)"
  shows "Option.bind (align_scan stop m a) (\<lambda>r. case r of Inl s \<Rightarrow> Some (f s)
      | Inr s \<Rightarrow> Option.bind (word_scan stopw m s) (\<lambda>w. Option.bind (byte_scan stop m w) (\<lambda>s. Some (f s)))) = Some (f (a + of_nat n))"
  using align_scan_first [OF first]
proof
  assume "\<exists>k\<le>n. align_scan stop m a = Some (Inr (a + of_nat k)) \<and> (a + of_nat k) AND 7 = 0"
  then obtain k where k: "k \<le> n" "align_scan stop m a = Some (Inr (a + of_nat k))" "(a + of_nat k) AND 7 = 0" by blast
  have "first_at stop m (a + of_nat k) (n - k)" using first k(1) by (intro first_at_add) simp
  from word_scan_first [OF m k(3) this stopw] obtain j where "j \<le> n - k" "word_scan stopw m (a + of_nat k) = Some (a + of_nat (k + j))"
    by (auto simp: algebra_simps)
  moreover have "k + j \<le> n" using \<open>j \<le> n - k\<close> k(1) by simp
  ultimately show ?thesis using k(2) scan_from [OF first, of "k + j"] by simp
qed simp

lemma strlen_cstr:
  assumes "whole_words m" "cstr m a s"
  shows "strlen m a = Some (of_nat (length s))"
proof -
  have "HASZERO (word_of_bytes bs) \<longleftrightarrow> (\<exists>b \<in> set bs. b = 0)" if "length bs = 8" for bs using HASZERO_bytes [OF that] by blast
  from aligned_scan [OF assms(1) cstr_first_at [OF assms(2)] this, where f = "\<lambda>s. s - a"] show ?thesis by (simp add: strlen_def)
qed

text \<open>A block of mapped memory, and one with two strings in it.\<close>

definition block :: "addr \<Rightarrow> u8 list \<Rightarrow> mem" where
  "block a bs = written (\<lambda>_. None) a bs"

lemma block_nth: "i < 2 ^ 64 \<Longrightarrow> block a bs (a + of_nat i) = (if i < length bs then Some (bs ! i) else None)"
  by (simp add: block_def written_def dist_of_nat)

lemma whole_words_block:
  assumes "base AND 7 = 0" "length bs mod 8 = 0"
  shows "whole_words (block base bs)"
  unfolding whole_words_def
proof (intro allI impI)
  fix a i assume a: "a AND 7 = 0" and i: "i < (8 :: nat)" and "block base bs (a + of_nat i) \<noteq> None"
  let ?u = "unat (a - base)"
  have mod: "?u mod 8 = 0" using a assms(1) unfolding aligned_iff unat_diff [of a] by simp presburger
  then have small: "?u + j < 2 ^ 64" if "j < 8" for j using that unat_lt64 [of "a - base"] by simp presburger
  have add: "unat (a + of_nat j - base) = ?u + j" if "j < 8" for j
  proof -
    have e: "a + of_nat j - base = (a - base) + of_nat j" by simp
    show ?thesis unfolding e using small [OF that] that by (simp add: unat_add_bounded)
  qed
  have "?u + i < length bs" using \<open>block base bs (a + of_nat i) \<noteq> None\<close> add [OF i] by (auto simp: block_def written_def split: if_splits)
  then have "?u + 8 \<le> length bs" using mod assms(2) by presburger
  then show "mapped (block base bs) a 8" using add by (auto simp: mapped_def block_def written_def)
qed

definition sample_bytes :: "u8 list" where
  "sample_bytes = [1, 2, 3, 104, 101, 108, 108, 111, 44, 104, 105, 0, 104, 101, 108, 112, 0, 7, 7, 7, 7, 7, 7, 7]"

lemma sample_whole: "whole_words (block 0x1000 sample_bytes)"
  by (rule whole_words_block) code_simp+

lemma sample_cstr: "cstr (block 0x1000 sample_bytes) 0x1003 [104, 101, 108, 108, 111, 44, 104, 105]" "cstr (block 0x1000 sample_bytes) 0x100c [104, 101, 108, 112]"
  by code_simp+

text \<open>C29: \<^verbatim>\<open>strlen\<close>, which looks for the terminator a word at a time with the \<^verbatim>\<open>HASZERO\<close> trick, returns the length of the string, wherever the string starts.\<close>

theorem strlen_correct:
  assumes "whole_words m" "cstr m a s"
  shows "strlen m a = Some (of_nat (length s))"
  by (rule strlen_cstr [OF assms])

theorem strlen_correct_witness: "strlen (block 0x1000 sample_bytes) 0x1003 = Some 8"
  using strlen_correct [OF sample_whole sample_cstr(1)] by simp

lemma takeWhile_first:
  assumes "cstr m a s"
  shows "first_at (\<lambda>b. b = 0 \<or> b = c) m a (length (takeWhile (\<lambda>b. b \<noteq> c) s))"
  using assms
proof (induction s arbitrary: a)
  case (Cons b s)
  then show ?case by (auto simp: cstr_Cons first_at_0 first_at_Suc)
qed (simp add: cstr_Nil first_at_0)

lemma strchrnul_first:
  assumes "whole_words m" "cstr m a s"
  shows "strchrnul m a c = Some (a + of_nat (length (takeWhile (\<lambda>b. b \<noteq> c) s)))"
proof (cases "c = 0")
  case True
  have "takeWhile (\<lambda>b. b \<noteq> 0) s = s" using assms(2) by (auto simp: cstr_def takeWhile_eq_all_conv)
  then show ?thesis using True assms by (simp add: strchrnul_def strlen_cstr del: takeWhile_eq_all_conv)
next
  case False
  have "HASZERO (word_of_bytes bs) \<or> HASZERO (word_of_bytes bs XOR ONES * ucast c) \<longleftrightarrow> (\<exists>b \<in> set bs. b = 0 \<or> b = c)"
    if "length bs = 8" for bs using HASZERO_bytes [OF that] HASZERO_xor [OF that] by blast
  from aligned_scan [OF assms(1) takeWhile_first [OF assms(2)] this, where f = "\<lambda>s. s"] False show ?thesis by (simp add: strchrnul_def)
qed

lemma cstr_nth_upto: "cstr m a s \<Longrightarrow> i \<le> length s \<Longrightarrow> m (a + of_nat i) = Some ((s @ [0]) ! i)"
  by (auto simp: cstr_def nth_append)

text \<open>\<^verbatim>\<open>strchr\<close> returns the address of the first occurrence of a character, counting the terminator as part of the string, and \<^verbatim>\<open>NULL\<close> when there is none.\<close>

theorem strchr_correct:
  assumes "whole_words m" "cstr m a s"
  shows "strchr m a c = Some (if c \<in> set s \<or> c = 0 then a + of_nat (length (takeWhile (\<lambda>b. b \<noteq> c) s)) else NULL)"
proof -
  let ?n = "length (takeWhile (\<lambda>b. b \<noteq> c) s)"
  have "(s @ [0]) ! ?n = c \<longleftrightarrow> c \<in> set s \<or> c = 0"
  proof (cases "c \<in> set s")
    case True
    then have "?n < length s" using length_takeWhile_le [of "\<lambda>b. b \<noteq> c" s] takeWhile_eq_all_conv [of "\<lambda>b. b \<noteq> c" s] takeWhile_eq_take [of "\<lambda>b. b \<noteq> c" s]
      by (auto simp: order_less_le)
    then show ?thesis using True nth_length_takeWhile [of "\<lambda>b. b \<noteq> c" s] by (simp add: nth_append)
  next
    case False
    then have "takeWhile (\<lambda>b. b \<noteq> c) s = s" by (auto simp: takeWhile_eq_all_conv)
    then show ?thesis using False by (simp del: takeWhile_eq_all_conv)
  qed
  then show ?thesis using strchrnul_first [OF assms] cstr_nth_upto [OF assms(2), of ?n] by (simp add: strchr_def length_takeWhile_le)
qed

theorem strchr_correct_witness: "strchr (block 0x1000 sample_bytes) 0x1003 44 = Some 0x1008"
  using strchr_correct [OF sample_whole sample_cstr(1), of 44] by simp

section \<open>Blocks\<close>

lemma mapped_0 [simp]: "mapped m a 0"
  by (simp add: mapped_def)

lemma mapped_Suc: "mapped m a (Suc n) \<longleftrightarrow> m a \<noteq> None \<and> mapped m (a + 1) n"
  by (auto simp: mapped_def less_Suc_eq_0_disj algebra_simps)

lemma mapped_upd: "mapped m a n \<Longrightarrow> mapped (m(d \<mapsto> b)) a n"
  by (simp add: mapped_def)

lemma mapped_add: "mapped m a (k + n) \<longleftrightarrow> mapped m a k \<and> mapped m (a + of_nat k) n"
proof (induction k arbitrary: a)
  case (Suc k)
  then show ?case by (simp add: mapped_Suc algebra_simps)
qed simp

lemma copied_1: "m s = Some b \<Longrightarrow> copied m d s (Suc 0) = m(d \<mapsto> b)"
  by (auto simp: copied_def fun_eq_iff unat_eq_0)

text \<open>Copying one byte or one word is a step of copying a block, at the front and at the back.\<close>

lemma copy_one:
  assumes "mapped m s 1" "mapped m d 1"
  shows "Option.bind (m s) (\<lambda>b. Option.bind (st8 m d b) f) = f (copied m d s 1)"
  using assms by (auto simp: mapped_def st8_def copied_1)

lemma copy_word:
  assumes "mapped m s 8" "mapped m d 8"
  shows "Option.bind (ld64 m s) (\<lambda>x. Option.bind (st64 m d x) f) = f (copied m d s 8)"
proof -
  obtain bs where bs: "load_bytes m s 8 = Some bs" using assms(1) by (auto simp: load_bytes_mapped)
  then have "length bs = 8" by (simp add: load_bytes_Some)
  then show ?thesis using copy_bytes [OF bs assms(2)] bs by (simp add: ld64_def st64_def bytes_of_word_of_bytes)
qed

lemma unat_minus_of_nat: "k \<le> unat n \<Longrightarrow> unat (n - of_nat k :: u64) = unat n - k"
  using unat_lt64 [of n] by (simp add: unat_diff)

text \<open>The state of a forward copy: what is left to copy is mapped, and writing it does not touch what is still to be read.\<close>

definition fwd_ok :: "mem \<Rightarrow> addr \<Rightarrow> addr \<Rightarrow> nat \<Rightarrow> bool" where
  "fwd_ok m d s n \<longleftrightarrow> mapped m s n \<and> mapped m d n \<and> unat (s - d) + n \<le> 2 ^ 64"

lemma fwd_ok_step:
  assumes "fwd_ok m d s (k + j)"
  shows "mapped m s k" "mapped m d k" "fwd_ok (copied m d s k) (d + of_nat k) (s + of_nat k) j"
    "copied (copied m d s k) (d + of_nat k) (s + of_nat k) j = copied m d s (k + j)"
proof -
  show k: "mapped m s k" "mapped m d k" using assms by (simp_all add: fwd_ok_def mapped_add)
  have e: "(s + of_nat k) - (d + of_nat k) = s - d" by simp
  show "fwd_ok (copied m d s k) (d + of_nat k) (s + of_nat k) j"
    using assms copied_mapped [OF k(1)] unfolding fwd_ok_def e by (auto simp: mapped_add)
  show "copied (copied m d s k) (d + of_nat k) (s + of_nat k) j = copied m d s (k + j)"
    using assms by (intro copied_fwd) (simp_all add: fwd_ok_def)
qed

lemma fwd_ok_le: "fwd_ok m d s n \<Longrightarrow> k \<le> n \<Longrightarrow> fwd_ok m d s k"
  by (auto simp: fwd_ok_def mapped_def)

lemma fwd_bytes_copied:
  "fwd_ok m d s (unat n) \<Longrightarrow> fwd_bytes m d s n = Some (copied m d s (unat n))"
proof (induction "unat n" arbitrary: m d s n)
  case 0
  then show ?case by (subst fwd_bytes.simps) (simp add: unat_eq_0)
next
  case (Suc k)
  have n: "n \<noteq> 0" "unat (n - 1) = k" using Suc.hyps(2) unat_minus_of_nat [of 1 n] by auto
  have ok: "fwd_ok m d s (1 + k)" using Suc.prems Suc.hyps(2) by simp
  have "fwd_bytes m d s n = fwd_bytes (copied m d s 1) (d + 1) (s + 1) (n - 1)"
    using n(1) copy_one [OF fwd_ok_step(1,2) [OF ok]] by (subst fwd_bytes.simps) simp
  also have "\<dots> = Some (copied (copied m d s 1) (d + 1) (s + 1) k)"
    using Suc.hyps(1) [of "n - 1"] n(2) fwd_ok_step(3) [OF ok] by simp
  finally show ?case using fwd_ok_step(4) [OF ok] Suc.hyps(2) by simp
qed

lemma fwd_align_copied:
  "fwd_ok m d s (unat n) \<Longrightarrow> \<exists>k\<le>unat n. \<exists>rest. fwd_align m d s n = Some (copied m d s k, d + of_nat k, s + of_nat k, rest) \<and>
     (rest = None \<and> k = unat n \<or> rest = Some (n - of_nat k))"
proof (induction "unat n" arbitrary: m d s n)
  case 0
  then show ?case by (subst fwd_align.simps) (auto simp: unat_eq_0)
next
  case (Suc k)
  show ?case
  proof (cases "d AND 7 = 0")
    case True
    then show ?thesis by (subst fwd_align.simps) (auto intro!: exI [of _ 0])
  next
    case False
    have n: "n \<noteq> 0" "unat (n - 1) = k" using Suc.hyps(2) unat_minus_of_nat [of 1 n] by auto
    have ok: "fwd_ok m d s (1 + k)" using Suc.prems Suc.hyps(2) by simp
    have step: "fwd_align m d s n = fwd_align (copied m d s 1) (d + 1) (s + 1) (n - 1)"
      using False n(1) copy_one [OF fwd_ok_step(1,2) [OF ok]] by (subst fwd_align.simps) simp
    obtain j rest where j: "j \<le> k" "fwd_align m d s n = Some (copied (copied m d s 1) (d + 1) (s + 1) j, d + 1 + of_nat j, s + 1 + of_nat j, rest)"
      "rest = None \<and> j = k \<or> rest = Some (n - 1 - of_nat j)"
      using Suc.hyps(1) [of "n - 1" "copied m d s 1" "d + 1" "s + 1"] n(2) fwd_ok_step(3) [OF ok] unfolding step by auto
    have "fwd_ok m d s (1 + j)" using fwd_ok_le [OF ok] j(1) by simp
    from fwd_ok_step(4) [OF this] j show ?thesis using Suc.hyps(2) by (intro exI [of _ "Suc j"] exI [of _ rest]) (auto simp: algebra_simps)
  qed
qed

lemma fwd_words_copied:
  "fwd_ok m d s (unat n) \<Longrightarrow> \<exists>k\<le>unat n. fwd_words m d s n = Some (copied m d s k, d + of_nat k, s + of_nat k, n - of_nat k)"
proof (induction "unat n" arbitrary: m d s n rule: less_induct)
  case less
  show ?case
  proof (cases "8 \<le> n")
    case False
    then show ?thesis by (subst fwd_words.simps) (auto intro!: exI [of _ 0])
  next
    case True
    then have n: "8 \<le> unat n" "unat (n - 8) = unat n - 8" using unat_minus_of_nat [of 8 n] by (simp_all add: word_le_nat_alt)
    then have ok: "fwd_ok m d s (8 + (unat n - 8))" using less.prems by simp
    have step: "fwd_words m d s n = fwd_words (copied m d s 8) (d + 8) (s + 8) (n - 8)"
      using True copy_word [OF fwd_ok_step(1,2) [OF ok]] by (subst fwd_words.simps) simp
    obtain j where j: "j \<le> unat n - 8" "fwd_words m d s n = Some (copied (copied m d s 8) (d + 8) (s + 8) j, d + 8 + of_nat j, s + 8 + of_nat j, n - 8 - of_nat j)"
      using less.hyps [of "n - 8" "copied m d s 8" "d + 8" "s + 8"] n fwd_ok_step(3) [OF ok] unfolding step by auto
    have "fwd_ok m d s (8 + j)" using fwd_ok_le [OF ok] j(1) by simp
    from fwd_ok_step(4) [OF this] j show ?thesis using n by (intro exI [of _ "8 + j"]) (auto simp: algebra_simps)
  qed
qed

lemma move_fwd_copied:
  assumes "fwd_ok m d s (unat n)"
  shows "move_fwd m d s n = Some (copied m d s (unat n))"
proof -
  obtain k rest where k: "k \<le> unat n" "fwd_align m d s n = Some (copied m d s k, d + of_nat k, s + of_nat k, rest)"
    "rest = None \<and> k = unat n \<or> rest = Some (n - of_nat k)" using fwd_align_copied [OF assms] by auto
  have "fwd_ok m d s (k + (unat n - k))" using assms k(1) by simp
  note a = fwd_ok_step(3,4) [OF this]
  let ?n = "n - of_nat k" and ?m = "copied m d s k" and ?d = "d + of_nat k" and ?s = "s + of_nat k"
  have un: "unat ?n = unat n - k" by (rule unat_minus_of_nat [OF k(1)])
  obtain j where j: "j \<le> unat n - k" "fwd_words ?m ?d ?s ?n = Some (copied ?m ?d ?s j, ?d + of_nat j, ?s + of_nat j, ?n - of_nat j)"
    using fwd_words_copied [of ?m ?d ?s ?n] a(1) un by auto
  have "fwd_ok ?m ?d ?s (j + (unat n - k - j))" using a(1) le_add_diff_inverse [OF j(1)] by simp
  note b = fwd_ok_step(3,4) [OF this]
  have "unat (?n - of_nat j) = unat n - k - j" using unat_minus_of_nat [of j ?n] j(1) un by simp
  then have "fwd_bytes (copied ?m ?d ?s j) (?d + of_nat j) (?s + of_nat j) (?n - of_nat j) = Some (copied m d s (unat n))"
    using fwd_bytes_copied [of "copied ?m ?d ?s j"] a(2) b j(1) k(1) by simp
  then show ?thesis using k(2,3) j(2) fwd_bytes_copied [OF assms] by (auto simp: move_fwd_def)
qed

text \<open>The same for a backward copy, of \<open>n\<close> bytes of which the last ones are copied first.\<close>

definition bwd_ok :: "mem \<Rightarrow> addr \<Rightarrow> addr \<Rightarrow> nat \<Rightarrow> bool" where
  "bwd_ok m d s n \<longleftrightarrow> mapped m s n \<and> mapped m d n \<and> unat (d - s) + n \<le> 2 ^ 64"

lemma bwd_ok_step:
  assumes "bwd_ok m d s (j + k)"
  shows "mapped m (s + of_nat j) k" "mapped m (d + of_nat j) k" "bwd_ok (copied m (d + of_nat j) (s + of_nat j) k) d s j"
    "copied (copied m (d + of_nat j) (s + of_nat j) k) d s j = copied m d s (j + k)"
proof -
  show k: "mapped m (s + of_nat j) k" "mapped m (d + of_nat j) k" using assms by (simp_all add: bwd_ok_def mapped_add)
  show "bwd_ok (copied m (d + of_nat j) (s + of_nat j) k) d s j"
    using assms copied_mapped [OF k(1)] unfolding bwd_ok_def by (auto simp: mapped_add)
  show "copied (copied m (d + of_nat j) (s + of_nat j) k) d s j = copied m d s (j + k)"
    using assms by (intro copied_bwd) (simp_all add: bwd_ok_def)
qed

lemma bwd_ok_from: "bwd_ok m d s (i + n) \<Longrightarrow> bwd_ok m (d + of_nat i) (s + of_nat i) n"
  by (auto simp: bwd_ok_def mapped_add)

lemma count_down:
  assumes "unat n = k + j"
  shows "n - of_nat j = (of_nat k :: u64)" "unat (n - of_nat j) = k"
proof -
  have "n = of_nat (unat n)" by simp
  then show "n - of_nat j = of_nat k" unfolding assms by simp
  show "unat (n - of_nat j) = k" using unat_minus_of_nat [of j n] assms by simp
qed

lemma bwd_bytes_copied:
  "bwd_ok m d s (unat n) \<Longrightarrow> bwd_bytes m d s n = Some (copied m d s (unat n))"
proof (induction "unat n" arbitrary: m n)
  case 0
  then show ?case by (subst bwd_bytes.simps) (simp add: unat_eq_0)
next
  case (Suc k)
  have n: "n \<noteq> 0" "unat (n - 1) = k" "n - 1 = of_nat k" using Suc.hyps(2) count_down [of n k 1] by auto
  have ok: "bwd_ok m d s (k + 1)" using Suc.prems Suc.hyps(2) by simp
  have "bwd_bytes m d s n = bwd_bytes (copied m (d + of_nat k) (s + of_nat k) 1) d s (n - 1)"
    using n(1) copy_one [OF bwd_ok_step(1,2) [OF ok]] unfolding n(3) [symmetric] by (subst bwd_bytes.simps) simp
  also have "\<dots> = Some (copied (copied m (d + of_nat k) (s + of_nat k) 1) d s k)"
    using Suc.hyps(1) [of "n - 1"] n(2) bwd_ok_step(3) [OF ok] by simp
  finally show ?case using bwd_ok_step(4) [OF ok] Suc.hyps(2) by simp
qed

text \<open>A step at the back of the block followed by a copy of the bytes from \<open>i\<close> on.\<close>

lemma bwd_extend:
  assumes "bwd_ok m d s (j + k)" "i \<le> j"
  shows "copied (copied m (d + of_nat j) (s + of_nat j) k) (d + of_nat i) (s + of_nat i) (j - i) = copied m (d + of_nat i) (s + of_nat i) (j + k - i)"
proof -
  have e: "a + of_nat j = a + of_nat i + of_nat (j - i)" for a :: addr using assms(2) by (simp add: of_nat_diff)
  have "bwd_ok m (d + of_nat i) (s + of_nat i) (j - i + k)" using assms by (intro bwd_ok_from) simp
  from bwd_ok_step(4) [OF this] show ?thesis using assms(2) unfolding e [of d] e [of s] by simp
qed

lemma bwd_align_copied:
  "bwd_ok m d s (unat n) \<Longrightarrow> \<exists>i\<le>unat n. \<exists>rest. bwd_align m d s n = Some (copied m (d + of_nat i) (s + of_nat i) (unat n - i), rest) \<and>
     (rest = None \<and> i = 0 \<or> rest = Some (of_nat i))"
proof (induction "unat n" arbitrary: m n)
  case 0
  then show ?case by (subst bwd_align.simps) (auto simp: unat_eq_0)
next
  case (Suc k)
  show ?case
  proof (cases "(d + n) AND 7 = 0")
    case True
    then show ?thesis by (subst bwd_align.simps) (auto intro!: exI [of _ "unat n"])
  next
    case False
    have n: "n \<noteq> 0" "unat (n - 1) = k" "n - 1 = of_nat k" using Suc.hyps(2) count_down [of n k 1] by auto
    have ok: "bwd_ok m d s (k + 1)" using Suc.prems Suc.hyps(2) by simp
    have step: "bwd_align m d s n = bwd_align (copied m (d + of_nat k) (s + of_nat k) 1) d s (n - 1)"
      using False n(1) copy_one [OF bwd_ok_step(1,2) [OF ok]] unfolding n(3) [symmetric] by (subst bwd_align.simps) simp
    obtain i rest where i: "i \<le> k" "rest = None \<and> i = 0 \<or> rest = Some (of_nat i)"
      "bwd_align m d s n = Some (copied (copied m (d + of_nat k) (s + of_nat k) 1) (d + of_nat i) (s + of_nat i) (k - i), rest)"
      using Suc.hyps(1) [of "n - 1" "copied m (d + of_nat k) (s + of_nat k) 1"] n(2) bwd_ok_step(3) [OF ok] unfolding step by auto
    from bwd_extend [OF ok i(1)] i Suc.hyps(2) show ?thesis by (intro exI [of _ i] conjI exI [of _ rest]) simp_all
  qed
qed

lemma bwd_words_copied:
  "bwd_ok m d s (unat n) \<Longrightarrow> \<exists>i\<le>unat n. bwd_words m d s n = Some (copied m (d + of_nat i) (s + of_nat i) (unat n - i), of_nat i)"
proof (induction "unat n" arbitrary: m n rule: less_induct)
  case less
  show ?case
  proof (cases "8 \<le> n")
    case False
    then show ?thesis by (subst bwd_words.simps) (auto intro!: exI [of _ "unat n"])
  next
    case True
    then have "8 \<le> unat n" by (simp add: word_le_nat_alt)
    then obtain k where k: "unat n = k + 8" by (metis add.commute le_add_diff_inverse)
    have n: "unat (n - 8) = k" "n - 8 = of_nat k" using count_down [OF k] by simp_all
    have ok: "bwd_ok m d s (k + 8)" using less.prems k by simp
    have step: "bwd_words m d s n = bwd_words (copied m (d + of_nat k) (s + of_nat k) 8) d s (n - 8)"
      using True copy_word [OF bwd_ok_step(1,2) [OF ok]] unfolding n(2) [symmetric] by (subst bwd_words.simps) simp
    obtain i where i: "i \<le> k" "bwd_words m d s n = Some (copied (copied m (d + of_nat k) (s + of_nat k) 8) (d + of_nat i) (s + of_nat i) (k - i), of_nat i)"
      using less.hyps [of "n - 8" "copied m (d + of_nat k) (s + of_nat k) 8"] n(1) k bwd_ok_step(3) [OF ok] unfolding step by auto
    from bwd_extend [OF ok i(1)] i k show ?thesis by (intro exI [of _ i]) simp
  qed
qed

lemma move_bwd_copied:
  assumes "bwd_ok m d s (unat n)"
  shows "move_bwd m d s n = Some (copied m d s (unat n))"
proof -
  obtain k rest where k: "k \<le> unat n" "bwd_align m d s n = Some (copied m (d + of_nat k) (s + of_nat k) (unat n - k), rest)"
    "rest = None \<and> k = 0 \<or> rest = Some (of_nat k)" using bwd_align_copied [OF assms] by auto
  let ?m = "copied m (d + of_nat k) (s + of_nat k) (unat n - k)"
  have "bwd_ok m d s (k + (unat n - k))" using assms k(1) by simp
  note a = bwd_ok_step(3,4) [OF this]
  have uk: "unat (of_nat k :: u64) = k" using k(1) unat_lt64 [of n] by simp
  obtain i where i: "i \<le> k" "bwd_words ?m d s (of_nat k) = Some (copied ?m (d + of_nat i) (s + of_nat i) (k - i), of_nat i)"
    using bwd_words_copied [of ?m d s "of_nat k"] a(1) uk by auto
  have "bwd_ok ?m d s (i + (k - i))" using a(1) i(1) by simp
  note b = bwd_ok_step(3,4) [OF this]
  have ui: "unat (of_nat i :: u64) = i" using i(1) k(1) unat_lt64 [of n] by simp
  then have "bwd_bytes (copied ?m (d + of_nat i) (s + of_nat i) (k - i)) d s (of_nat i) = Some (copied m d s (unat n))"
    using bwd_bytes_copied [of "copied ?m (d + of_nat i) (s + of_nat i) (k - i)"] a(2) b i(1) k(1) by simp
  then show ?thesis using k(2,3) i(2) bwd_bytes_copied [OF assms] by (auto simp: move_bwd_def)
qed

lemma copy_loop_copied:
  "i \<le> n \<Longrightarrow> fwd_ok m (d + i) (s + i) (unat (n - i)) \<Longrightarrow> copy_loop m d s i n = Some (copied m (d + i) (s + i) (unat (n - i)))"
proof (induction "unat (n - i)" arbitrary: m i)
  case 0
  then have "n - i = 0" by (simp add: unat_eq_0)
  then show ?case using 0 by (subst copy_loop.simps) simp
next
  case (Suc k)
  have e: "n - (i + 1) = n - i - 1" by simp
  have n: "unat (n - (i + 1)) = k" unfolding e using count_down [of "n - i" k 1] Suc.hyps(2) by simp
  have "n \<noteq> i" using Suc.hyps(2) by auto
  then have lt: "i < n" "i + 1 \<le> n" using Suc.prems(1) by (simp_all add: inc_le)
  have ok: "fwd_ok m (d + i) (s + i) (1 + k)" using Suc.prems(2) Suc.hyps(2) by simp
  have "copy_loop m d s i n = copy_loop (copied m (d + i) (s + i) 1) d s (i + 1) n"
    using lt copy_one [OF fwd_ok_step(1,2) [OF ok]] by (subst copy_loop.simps) simp
  also have "\<dots> = Some (copied (copied m (d + i) (s + i) 1) (d + (i + 1)) (s + (i + 1)) k)"
    using Suc.hyps(1) [of "i + 1"] n lt fwd_ok_step(3) [OF ok] by (simp add: add.assoc)
  finally show ?case using fwd_ok_step(4) [OF ok] Suc.hyps(2) by (simp add: add.assoc)
qed

lemma memcpy_copied: "fwd_ok m d s (unat n) \<Longrightarrow> memcpy m d s n = Some (d, copied m d s (unat n))"
  using copy_loop_copied [of 0 n m d s] by (simp add: memcpy_def)

lemma memmove_copied:
  assumes "mapped m s (unat n)" "mapped m d (unat n)" "unat s + unat n < 2 ^ 64" "unat d + unat n < 2 ^ 64"
  shows "memmove m d s n = Some (d, copied m d s (unat n))"
proof -
  have sum: "unat (s + n) = unat s + unat n" "unat (d + n) = unat d + unat n" using assms(3,4) by (simp_all add: unat_add_bounded)
  consider "d = s" | "d \<noteq> s" "s + n \<le> d \<or> d + n \<le> s" | "\<not> (s + n \<le> d \<or> d + n \<le> s)" "d < s" | "\<not> (s + n \<le> d \<or> d + n \<le> s)" "s < d"
    by (metis linorder_neqE)
  then show ?thesis
  proof cases
    case 1
    have "copied m s s (unat n) = m" by (auto simp: copied_def)
    then show ?thesis using 1 by (simp add: memmove_def)
  next
    case 2
    have "unat (s - d) + unat n \<le> 2 ^ 64" using 2(2) assms(3) sum unat_lt64 [of d] by (auto simp: unat_diff word_le_nat_alt)
    then have "fwd_ok m d s (unat n)" using assms by (simp add: fwd_ok_def)
    then show ?thesis using 2 by (simp add: memmove_def memcpy_copied)
  next
    case 3
    then have "fwd_ok m d s (unat n)" using assms unat_diff [of s d] by (simp add: fwd_ok_def word_less_nat_alt)
    then show ?thesis using 3 by (auto simp: memmove_def move_fwd_copied)
  next
    case 4
    then have "bwd_ok m d s (unat n)" using assms unat_diff [of d s] by (simp add: bwd_ok_def word_less_nat_alt)
    then show ?thesis using 4 by (auto simp: memmove_def move_bwd_copied)
  qed
qed

text \<open>C28: \<^verbatim>\<open>memmove\<close> on two mapped regions that do not run to the end of the address space leaves memory as if all of the source had been read before anything was written, whether the regions overlap or
  not; it chooses the direction, and between bytes and words, for that.
\<close>

theorem memmove_correct:
  assumes "mapped m s (unat n)" "mapped m d (unat n)" "unat s + unat n < 2 ^ 64" "unat d + unat n < 2 ^ 64"
  shows "memmove m d s n = Some (d, copied m d s (unat n))"
  by (rule memmove_copied [OF assms])

theorem memmove_correct_witness:
  "memmove (block 0x1000 sample_bytes) 0x1004 0x1003 13 = Some (0x1004, copied (block 0x1000 sample_bytes) 0x1004 0x1003 13)"
proof -
  have "mapped (block 0x1000 sample_bytes) 0x1003 (unat (13 :: u64))" "mapped (block 0x1000 sample_bytes) 0x1004 (unat (13 :: u64))" by code_simp+
  from memmove_correct [OF this] show ?thesis by simp
qed

lemma load_bytes_Suc: "load_bytes m a (Suc n) = Some bs \<longleftrightarrow> (\<exists>b cs. bs = b # cs \<and> m a = Some b \<and> load_bytes m (a + 1) n = Some cs)"
  by (auto simp: bind_eq_Some_conv)

lemma load_bytes_add:
  "load_bytes m a (k + n) = Some bs \<longleftrightarrow> length bs = k + n \<and> load_bytes m a k = Some (take k bs) \<and> load_bytes m (a + of_nat k) n = Some (drop k bs)"
proof -
  have "(\<forall>i<k + n. m (a + of_nat i) = Some (bs ! i)) \<longleftrightarrow> (\<forall>i<k. m (a + of_nat i) = Some (bs ! i)) \<and> (\<forall>i<n. m (a + of_nat k + of_nat i) = Some (bs ! (k + i)))"
    (is "?l \<longleftrightarrow> ?a \<and> ?b")
  proof safe
    fix i assume ?a ?b "i < k + n"
    then show "m (a + of_nat i) = Some (bs ! i)"
      by (cases "i < k") (auto simp: of_nat_diff dest: spec [of _ "i - k"])
  qed (auto simp: add.assoc dest: spec [of _ "k + i" for i])
  then show ?thesis by (auto simp: load_bytes_Some)
qed

text \<open>The loops of \<^verbatim>\<open>memchr\<close> stop at the first hit, or after the whole block; \<open>found\<close> is the number of bytes before it.\<close>

definition before :: "u8 \<Rightarrow> u8 list \<Rightarrow> nat" where
  "before c bs = length (takeWhile (\<lambda>b. b \<noteq> c) bs)"

lemma before_simps [simp]: "before c [] = 0" "before c (b # bs) = (if b = c then 0 else Suc (before c bs))"
  by (simp_all add: before_def)

lemma before_le: "before c bs \<le> length bs"
  by (simp add: before_def length_takeWhile_le)

lemma before_append: "before c (as @ bs) = (if c \<in> set as then before c as else length as + before c bs)"
  by (induction as) auto

lemma before_in: "before c bs < length bs \<longleftrightarrow> c \<in> set bs"
  by (induction bs) auto

lemma bytes_upto_first:
  "load_bytes m a (unat n) = Some bs \<Longrightarrow> bytes_upto c m a n = Some (a + of_nat (before c bs), n - of_nat (before c bs))"
proof (induction bs arbitrary: a n)
  case Nil
  then have "n = 0" by (simp add: load_bytes_Some unat_eq_0)
  then show ?case by (subst bytes_upto.simps) simp
next
  case (Cons b bs)
  then have n: "unat n = length bs + 1" by (simp add: load_bytes_Some)
  then have "n \<noteq> 0" by auto
  moreover have "m a = Some b" "load_bytes m (a + 1) (unat (n - 1)) = Some bs"
    using Cons.prems load_bytes_Suc [of m a "length bs"] count_down [OF n] n by auto
  ultimately show ?case using Cons.IH by (subst bytes_upto.simps) (auto simp: algebra_simps)
qed

lemma align_upto_first:
  "load_bytes m a (unat n) = Some bs \<Longrightarrow> \<exists>k\<le>before c bs. align_upto c m a n = Some (a + of_nat k, n - of_nat k)"
proof (induction bs arbitrary: a n)
  case Nil
  then have "n = 0" by (simp add: load_bytes_Some unat_eq_0)
  then show ?case by (subst align_upto.simps) simp
next
  case (Cons b bs)
  then have n: "unat n = length bs + 1" by (simp add: load_bytes_Some)
  then have "n \<noteq> 0" by auto
  moreover have b: "m a = Some b" "load_bytes m (a + 1) (unat (n - 1)) = Some bs"
    using Cons.prems load_bytes_Suc [of m a "length bs"] count_down [OF n] n by auto
  show ?case
  proof (cases "a AND 7 = 0 \<or> b = c")
    case True
    then show ?thesis using b by (subst align_upto.simps) (auto intro!: exI [of _ 0])
  next
    case False
    obtain k where "k \<le> before c bs" "align_upto c m (a + 1) (n - 1) = Some (a + 1 + of_nat k, n - 1 - of_nat k)" using Cons.IH [OF b(2)] by blast
    then show ?thesis using False b \<open>n \<noteq> 0\<close> by (subst align_upto.simps) (auto simp: algebra_simps intro!: exI [of _ "Suc k"])
  qed
qed

lemma words_upto_first:
  "load_bytes m a (unat n) = Some bs \<Longrightarrow> \<exists>k\<le>before c bs. words_upto c m a n = Some (a + of_nat k, n - of_nat k)"
proof (induction "unat n" arbitrary: a n bs rule: less_induct)
  case less
  show ?case
  proof (cases "8 \<le> n")
    case False
    then show ?thesis by (subst words_upto.simps) (auto intro!: exI [of _ 0])
  next
    case True
    then have n: "8 \<le> unat n" "unat (n - 8) = unat n - 8" using unat_minus_of_nat [of 8 n] by (simp_all add: word_le_nat_alt)
    then have ld: "load_bytes m a 8 = Some (take 8 bs)" "load_bytes m (a + 8) (unat (n - 8)) = Some (drop 8 bs)" and len: "length bs = unat n"
      using less.prems load_bytes_add [of m a 8 "unat n - 8" bs] by auto
    have eight: "length (take 8 bs) = 8" using len n(1) by simp
    note hit = HASZERO_xor [OF eight, of c]
    show ?thesis
    proof (cases "c \<in> set (take 8 bs)")
      case True
      then show ?thesis using ld hit by (subst words_upto.simps) (auto simp: ld64_def intro!: exI [of _ 0])
    next
      case False
      have "before c bs = 8 + before c (drop 8 bs)" using before_append [of c "take 8 bs" "drop 8 bs"] False eight by simp
      moreover obtain k where "k \<le> before c (drop 8 bs)" "words_upto c m (a + 8) (n - 8) = Some (a + 8 + of_nat k, n - 8 - of_nat k)"
        using less.hyps [of "n - 8", OF _ ld(2)] n by auto
      ultimately show ?thesis using \<open>8 \<le> n\<close> ld(1) hit False by (subst words_upto.simps) (auto simp: ld64_def algebra_simps intro!: exI [of _ "8 + k"])
    qed
  qed
qed

lemma before_drop: "k \<le> before c bs \<Longrightarrow> before c (drop k bs) = before c bs - k"
  by (induction bs arbitrary: k) (auto simp: drop_Cons' split: if_splits)

lemma load_bytes_drop:
  assumes "load_bytes m a (unat (n :: u64)) = Some bs" "k \<le> length bs"
  shows "load_bytes m (a + of_nat k) (unat (n - of_nat k)) = Some (drop k bs)"
proof -
  have "length bs = unat n" using assms(1) by (simp add: load_bytes_Some)
  then show ?thesis using assms load_bytes_add [of m a k "unat n - k" bs] unat_minus_of_nat [of k n] by simp
qed

lemma all_before:
  assumes "length bs = unat (n :: u64)"
  shows "n - of_nat (before c bs) = 0 \<longleftrightarrow> c \<notin> set bs"
proof -
  have "unat (n - of_nat (before c bs)) = unat n - before c bs" using before_le [of c bs] assms by (simp add: unat_minus_of_nat)
  then show ?thesis using before_in [of c bs] before_le [of c bs] assms by (metis diff_is_0_eq linorder_not_less order_antisym_conv unat_eq_0)
qed

lemma memchr_first:
  assumes "load_bytes m a (unat n) = Some bs"
  shows "memchr m a c n = Some (if c \<in> set bs then a + of_nat (before c bs) else NULL)"
proof -
  have len: "length bs = unat n" using assms by (simp add: load_bytes_Some)
  obtain k where k: "k \<le> before c bs" "align_upto c m a n = Some (a + of_nat k, n - of_nat k)" using align_upto_first [OF assms] by blast
  then have kl: "k \<le> length bs" using before_le [of c bs] by simp
  note ld = load_bytes_drop [OF assms kl]
  obtain j where j: "j \<le> before c (drop k bs)" "words_upto c m (a + of_nat k) (n - of_nat k) = Some (a + of_nat k + of_nat j, n - of_nat k - of_nat j)"
    using words_upto_first [OF ld] by blast
  have jl: "j \<le> length (drop k bs)" using j(1) before_le [of c "drop k bs"] by simp
  have "bytes_upto c m (a + of_nat k + of_nat j) (n - of_nat k - of_nat j) = Some (a + of_nat (before c bs), n - of_nat (before c bs))"
    using bytes_upto_first [OF load_bytes_drop [OF ld jl], of c] before_drop [OF j(1)] before_drop [OF k(1)] j(1) k(1)
    by (simp add: of_nat_diff)
  moreover have "k = before c bs" if "n - of_nat k = 0"
    using that unat_minus_of_nat [of k n] kl len k(1) before_le [of c bs] by simp
  moreover have "m (a + of_nat k) = Some (bs ! k) \<and> (bs ! k = c \<longrightarrow> k = before c bs)" if "n - of_nat k \<noteq> 0"
  proof -
    have "k < length bs" using that kl len by (cases "k = length bs") auto
    moreover from this have "hd (drop k bs) = bs ! k" "drop k bs \<noteq> []" by (simp_all add: hd_drop_conv_nth)
    ultimately show ?thesis using assms before_drop [OF k(1)] k(1) by (cases "drop k bs") (auto simp: load_bytes_Some)
  qed
  ultimately show ?thesis using k(2) j(2) all_before [OF len, of c] by (cases "n - of_nat k = 0") (auto simp: memchr_def)
qed

text \<open>\<^verbatim>\<open>memchr\<close> reads the \<open>n\<close> bytes of the block and nothing else, and returns the address of the first that is \<open>c\<close>, or \<^verbatim>\<open>NULL\<close>.\<close>

theorem memchr_correct:
  assumes "load_bytes m a (unat n) = Some bs"
  shows "memchr m a c n = Some (if c \<in> set bs then a + of_nat (before c bs) else NULL)"
  by (rule memchr_first [OF assms])

theorem memchr_correct_witness: "memchr (block 0x1000 sample_bytes) 0x1003 105 20 = Some 0x100a"
proof -
  have "load_bytes (block 0x1000 sample_bytes) 0x1003 (unat (20 :: u64)) =
    Some [104, 101, 108, 108, 111, 44, 104, 105, 0, 104, 101, 108, 112, 0, 7, 7, 7, 7, 7, 7]" by code_simp
  from memchr_correct [OF this] show ?thesis by simp
qed

section \<open>Comparison\<close>

text \<open>The reference: the difference of the first bytes that differ, a string ending with a zero byte.\<close>

fun cmp_bytes :: "u8 list \<Rightarrow> u8 list \<Rightarrow> int" where
  "cmp_bytes (a # s) (b # t) = (if a = b then cmp_bytes s t else uint a - uint b)"
| "cmp_bytes [] [] = 0"
| "cmp_bytes [] (b # t) = - uint b"
| "cmp_bytes (a # s) [] = uint a"

lemma uint_pos: "(b :: u8) \<noteq> 0 \<Longrightarrow> 0 < uint b"
  using byte_range [of b] by (simp add: uint_0_iff order_less_le)

lemma cmp_bytes_0: "0 \<notin> set s \<Longrightarrow> 0 \<notin> set t \<Longrightarrow> cmp_bytes s t = 0 \<longleftrightarrow> s = t"
  by (induction s t rule: cmp_bytes.induct) (auto dest: uint_pos simp: word_uint_eq_iff)

lemma cmp_bytes_lexord: "0 \<notin> set s \<Longrightarrow> 0 \<notin> set t \<Longrightarrow> cmp_bytes s t < 0 \<longleftrightarrow> (s, t) \<in> lexord {(a, b). a < b}"
  by (induction s t rule: cmp_bytes.induct) (auto simp: word_less_def dest: uint_pos)

lemma strcmp_cstr: "cstr m l s \<Longrightarrow> cstr m r t \<Longrightarrow> strcmp m l r = Some (cmp_bytes s t)"
  by (induction s t arbitrary: l r rule: cmp_bytes.induct; subst strcmp.simps) (auto simp: cstr_Cons cstr_Nil)

text \<open>\<^verbatim>\<open>strcmp\<close> returns zero exactly for equal strings, and a negative number exactly when the first string comes before the second in the lexicographic order of unsigned bytes.\<close>

theorem strcmp_orders:
  assumes "cstr m l s" "cstr m r t"
  shows "\<exists>d. strcmp m l r = Some d \<and> (d = 0 \<longleftrightarrow> s = t) \<and> (d < 0 \<longleftrightarrow> (s, t) \<in> lexord {(a, b). a < b})"
  using strcmp_cstr [OF assms] assms cmp_bytes_0 [of s t] cmp_bytes_lexord [of s t] by (simp add: cstr_def)

theorem strcmp_orders_witness:
  "\<exists>d. strcmp (block 0x1000 sample_bytes) 0x1003 0x100c = Some d \<and> d \<noteq> 0 \<and> d < 0"
  using strcmp_orders [OF sample_cstr] by simp

section \<open>Sets of bytes\<close>

definition in_set_bits :: "u64 list \<Rightarrow> u8 set \<Rightarrow> bool" where
  "in_set_bits A B \<longleftrightarrow> length A = 4 \<and> (\<forall>b. bitop_test A b \<longleftrightarrow> b \<in> B)"

lemma byte_index: "unat (b :: u8) div 64 < 4"
proof -
  have "unat b < 2 ^ LENGTH(8)" by (rule unsigned_less)
  then show ?thesis by simp
qed

lemma bitop_test_bit: "bitop_test A b \<longleftrightarrow> bit (A ! (unat b div 64)) (unat b mod 64)"
proof -
  have "bitop_test A b \<longleftrightarrow> (\<exists>n. bit (A ! (unat b div 64) AND push_bit (unat b mod 64) 1) n)"
    unfolding bitop_test_def by (metis bit_0_eq bit_word_eqI bot_apply bot_bool_def)
  then show ?thesis by (auto simp: bit_and_iff bit_exp_iff)
qed

lemma bitop_set_correct:
  assumes "in_set_bits A B"
  shows "in_set_bits (bitop_set A b) (insert b B)"
proof -
  have len: "length A = 4" and bits: "\<And>c. bit (A ! (unat c div 64)) (unat c mod 64) \<longleftrightarrow> c \<in> B"
    using assms by (simp_all add: in_set_bits_def bitop_test_bit)
  have "c = b \<longleftrightarrow> unat c div 64 = unat b div 64 \<and> unat c mod 64 = unat b mod 64" for c :: u8
    by (metis div_mult_mod_eq unsigned_word_eqI)
  then show ?thesis using len bits byte_index [of b]
    by (auto simp: in_set_bits_def bitop_test_bit bitop_set_def nth_list_update bit_or_iff bit_exp_iff)
qed

lemma byteset_correct: "cstr m c s \<Longrightarrow> in_set_bits A B \<Longrightarrow> \<exists>A'. byteset m c A = Some A' \<and> in_set_bits A' (B \<union> set s)"
proof (induction s arbitrary: c A B)
  case Nil
  then show ?case by (subst byteset.simps) (auto simp: cstr_Nil)
next
  case (Cons b s)
  then obtain A' where "byteset m (c + 1) (bitop_set A b) = Some A'" "in_set_bits A' (insert b B \<union> set s)"
    using bitop_set_correct by (metis cstr_Cons)
  then show ?case using Cons.prems by (subst byteset.simps) (auto simp: cstr_Cons)
qed

lemma byteset_0: "in_set_bits [0, 0, 0, 0] {}"
proof -
  have "([0, 0, 0, 0] :: u64 list) ! i = 0" if "i < 4" for i using that by (auto simp: nth_Cons' numeral_eq_Suc)
  then show ?thesis using byte_index by (simp add: in_set_bits_def bitop_test_bit)
qed

lemma span_first:
  assumes "cstr m a s" "P 0"
  shows "byte_scan P m a = Some (a + of_nat (length (takeWhile (\<lambda>b. \<not> P b) s)))"
proof -
  have "first_at P m a (length (takeWhile (\<lambda>b. \<not> P b) s))" using assms(1)
  proof (induction s arbitrary: a)
    case (Cons b s)
    then show ?case by (auto simp: cstr_Cons first_at_0 first_at_Suc)
  qed (simp add: cstr_Nil first_at_0 assms(2))
  then show ?thesis by (rule byte_scan_first)
qed

text \<open>\<^verbatim>\<open>strspn\<close> and \<^verbatim>\<open>strcspn\<close>, which collect the second string as a set of 256 bits unless it has at most one character, return the length of the longest prefix whose characters are all in the second
  string, and of the longest in which none is.
\<close>

theorem strspn_correct:
  assumes "whole_words m" "cstr m a s" "cstr m c t"
  shows "strspn m a c = Some (of_nat (length (takeWhile (\<lambda>b. b \<in> set t) s))) \<and>
    strcspn m a c = Some (of_nat (length (takeWhile (\<lambda>b. b \<notin> set t) s)))"
proof -
  obtain A where A: "byteset m c [0, 0, 0, 0] = Some A" "\<And>b. bitop_test A b \<longleftrightarrow> b \<in> set t"
    using byteset_correct [OF assms(3) byteset_0] by (auto simp: in_set_bits_def)
  have s: "takeWhile (\<lambda>b. b \<noteq> 0 \<and> P b) s = takeWhile P s" for P using assms(2) by (auto simp: cstr_def intro: takeWhile_cong)
  consider "t = []" | b where "t = [b]" | b b' t' where "t = b # b' # t'" by (metis list.exhaust)
  then show ?thesis
  proof cases
    case 1
    then have "m c = Some 0" using assms(3) by (simp add: cstr_Nil)
    moreover have "takeWhile (\<lambda>b. b \<noteq> 0) s = s" "takeWhile (\<lambda>_. True) s = s" "takeWhile (\<lambda>_. False) s = []" using assms(2) by (auto simp: cstr_def takeWhile_eq_Nil_iff)
    ultimately show ?thesis using 1 strchrnul_first [OF assms(1,2), of 0] by (simp add: strspn_def strcspn_def del: takeWhile_eq_all_conv)
  next
    case 2
    then have "m c = Some b" "b \<noteq> 0" "m (c + 1) = Some 0" using assms(3) by (simp_all add: cstr_Nil cstr_Cons)
    then show ?thesis using 2 strchrnul_first [OF assms(1,2), of b] span_first [OF assms(2), of "\<lambda>x. x \<noteq> b"] by (simp add: strspn_def strcspn_def)
  next
    case 3
    then have "m c = Some b" "b \<noteq> 0" "m (c + 1) = Some b'" "b' \<noteq> 0" using assms(3) by (simp_all add: cstr_Cons)
    then show ?thesis using A s [of "\<lambda>b. b \<in> set t"] s [of "\<lambda>b. b \<notin> set t"]
        span_first [OF assms(2), of "\<lambda>b. \<not> (b \<noteq> 0 \<and> b \<in> set t)"] span_first [OF assms(2), of "\<lambda>b. \<not> (b \<noteq> 0 \<and> b \<notin> set t)"]
      by (simp add: strspn_def strcspn_def)
  qed
qed

theorem strspn_correct_witness: "strspn (block 0x1000 sample_bytes) 0x1003 0x100c = Some 4 \<and> strcspn (block 0x1000 sample_bytes) 0x1003 0x100c = Some 0"
  using strspn_correct [OF sample_whole sample_cstr] by simp

section \<open>Bounded copies\<close>

text \<open>No byte of the string at \<open>t\<close>, nor its terminator, lies in the \<open>n\<close> bytes at \<open>d\<close>.\<close>

definition apart :: "addr \<Rightarrow> nat \<Rightarrow> addr \<Rightarrow> nat \<Rightarrow> bool" where
  "apart d n t k \<longleftrightarrow> (\<forall>i<Suc k. n \<le> unat (t + of_nat i - d))"

lemma apart_step:
  assumes "apart d (Suc n) t (Suc k)"
  shows "apart (d + 1) n (t + 1) k"
proof -
  have "t + 1 + of_nat i - (d + 1) = t + of_nat i - d" for i :: nat by simp
  moreover have "n \<le> unat (t + of_nat i - d)" if "i \<le> k" for i using assms that by (auto simp: apart_def dest: spec [of _ i])
  ultimately show ?thesis by (simp only: apart_def less_Suc_eq_le) blast
qed

lemma apart_after:
  assumes "unat d + n \<le> unat t" "unat t + k < 2 ^ 64"
  shows "apart d n t k"
  unfolding apart_def
proof (intro allI impI)
  fix i assume "i < Suc k"
  have e: "t + of_nat i - d = (t - d) + of_nat i" by simp
  have "unat (t - d) = unat t - unat d" using assms(1) by (simp add: unat_diff)
  then have "unat (t + of_nat i - d) = unat t - unat d + i" unfolding e using assms \<open>i < Suc k\<close> by (simp add: unat_add_bounded)
  then show "n \<le> unat (t + of_nat i - d)" using assms(1) by simp
qed

lemma apart_neq: "apart d (Suc n) t k \<Longrightarrow> i \<le> k \<Longrightarrow> t + of_nat i \<noteq> d"
  by (auto simp: apart_def dest: spec [of _ i])

lemma cstr_update:
  assumes "cstr m t s" "\<forall>i \<le> length s. t + of_nat i \<noteq> d"
  shows "cstr (m(d \<mapsto> b)) t s"
  using assms by (auto simp: cstr_def dest: spec [of _ "length s"])

lemma safe_loop_copies:
  assumes "cstr m t s" "mapped m d (unat n)" "n \<noteq> 0" "apart d (unat n) t (length s)"
  shows "\<exists>e m'. safe_loop m d t n = Some (e, m') \<and> m' e \<noteq> None \<and> cstr (m'(e \<mapsto> 0)) d (take (unat n - 1) s) \<and>
    (\<forall>x. unat n \<le> unat (x - d) \<longrightarrow> (m'(e \<mapsto> 0)) x = m x)"
  using assms
proof (induction "unat n - 1" arbitrary: m d t s n)
  case 0
  then have n: "unat n = 1" using unat_eq_0 [of n] by simp
  then have "n = 1" by (metis unsigned_1 unsigned_word_eqI)
  moreover have "m d \<noteq> None" using 0(3) n by (simp add: mapped_def)
  ultimately show ?case using n by (subst safe_loop.simps) (auto simp: cstr_Nil)
next
  case (Suc k)
  have n: "unat n = Suc k + 1" using Suc.hyps(2) by simp
  then have n1: "n - 1 \<noteq> 0" "unat (n - 1) = Suc k" using count_down [OF n] by auto
  have far: "unat (d - (d + 1)) = 2 ^ 64 - 1" using unat_uminus [of "1 :: u64"] by simp
  have out: "unat (n - 1) \<le> unat (x - (d + 1)) \<and> x \<noteq> d \<and> x \<noteq> d + 1" if "unat n \<le> unat (x - d)" for x
  proof -
    have e: "x - (d + 1) = x - d - of_nat 1" by simp
    have "unat (x - (d + 1)) = unat (x - d) - 1" unfolding e using that n by (intro unat_minus_of_nat) simp
    then show ?thesis using that n n1(2) by auto
  qed
  show ?case
  proof (cases s)
    case Nil
    then have "m t = Some 0" using Suc.prems(1) by (simp add: cstr_Nil)
    moreover have "m d \<noteq> None" "m (d + 1) \<noteq> None" using Suc.prems(2) n by (auto simp: mapped_Suc)
    ultimately have "safe_loop m d t n = Some (d + 1, m(d \<mapsto> 0))" using n1 by (subst safe_loop.simps) (simp add: st8_def)
    then show ?thesis using Nil out \<open>m (d + 1) \<noteq> None\<close> by (auto simp: cstr_Nil)
  next
    case (Cons b s')
    then have b: "b \<noteq> 0" "m t = Some b" "cstr m (t + 1) s'" using Suc.prems(1) by (auto simp: cstr_Cons)
    have ap: "apart d (Suc (Suc k)) t (Suc (length s'))" using Suc.prems(4) n Cons by simp
    let ?m = "m(d \<mapsto> b)"
    have "cstr ?m (t + 1) s'" using b(3) apart_neq [OF ap] by (intro cstr_update) (force simp: algebra_simps dest: spec [of _ "Suc i" for i])+
    moreover have "m d \<noteq> None" "mapped ?m (d + 1) (unat (n - 1))"
      using Suc.prems(2) unfolding n n1(2) add_Suc_right Nat.add_0_right One_nat_def mapped_Suc [of _ _ "Suc k"] by (blast intro: mapped_upd)+
    moreover have "apart (d + 1) (unat (n - 1)) (t + 1) (length s')" using apart_step [OF ap] n1(2) by simp
    ultimately obtain e m' where IH: "safe_loop ?m (d + 1) (t + 1) (n - 1) = Some (e, m')" "m' e \<noteq> None" "cstr (m'(e \<mapsto> 0)) (d + 1) (take (unat (n - 1) - 1) s')"
      "\<forall>x. unat (n - 1) \<le> unat (x - (d + 1)) \<longrightarrow> (m'(e \<mapsto> 0)) x = ?m x"
      using Suc.hyps(1) [of "n - 1" ?m "t + 1" s' "d + 1"] n1 by (auto simp del: fun_upd_apply)
    have "safe_loop m d t n = Some (e, m')" using IH(1) n1(1) b \<open>m d \<noteq> None\<close> by (subst safe_loop.simps) (simp add: st8_def del: fun_upd_apply)
    moreover have "(m'(e \<mapsto> 0)) d = Some b" using IH(4) far n1(2) n unat_lt64 [of n] by (simp del: fun_upd_apply) simp
    moreover have "take (unat n - 1) s = b # take (unat (n - 1) - 1) s'" using Cons n n1(2) by simp
    ultimately show ?thesis using IH out b(1) by (auto simp: cstr_Cons simp del: fun_upd_apply) (auto simp: fun_upd_apply)
  qed
qed

text \<open>C30: \<^verbatim>\<open>safestrncpy\<close> copies at most \<open>n - 1\<close> bytes of a string that lies elsewhere, always leaves a terminated string in the destination and changes nothing outside its \<open>n\<close> bytes.
\<close>

theorem safestrncpy_bounded:
  assumes "cstr m t s" "mapped m d (unat n)" "n \<noteq> 0" "apart d (unat n) t (length s)"
  shows "\<exists>m'. safestrncpy m d t n = Some (d, m') \<and> cstr m' d (take (unat n - 1) s) \<and> (\<forall>x. unat n \<le> unat (x - d) \<longrightarrow> m' x = m x)"
  using safe_loop_copies [OF assms] assms(3) by (auto simp: safestrncpy_def st8_def simp del: fun_upd_apply)

theorem safestrncpy_bounded_witness:
  "\<exists>m'. safestrncpy (block 0x1000 sample_bytes) 0x1000 0x1003 3 = Some (0x1000, m') \<and> cstr m' 0x1000 [104, 101]"
proof -
  have "apart 0x1000 (unat (3 :: u64)) 0x1003 (length [104, 101, 108, 108, 111, 44, 104, 105 :: u8])" by (rule apart_after) simp_all
  moreover have "mapped (block 0x1000 sample_bytes) 0x1000 (unat (3 :: u64))" by code_simp
  ultimately obtain m' where "safestrncpy (block 0x1000 sample_bytes) 0x1000 0x1003 3 = Some (0x1000, m')" "cstr m' 0x1000 (take (unat (3 :: u64) - 1) [104, 101, 108, 108, 111, 44, 104, 105])"
    using safestrncpy_bounded [OF sample_cstr(1)] by fastforce
  then show ?thesis by (intro exI [of _ m']) simp
qed

text \<open>\<^verbatim>\<open>strcasecmp\<close> compares letters without case, but the number it returns has the sign of the bytes as they are: it puts \<^verbatim>\<open>a\<close> behind \<^verbatim>\<open>B\<close>, \<^verbatim>\<open>strncasecmp\<close> before it.\<close>

lemma strcasecmp_sign:
  "strcasecmp (block 0x1000 [97, 0, 66, 0]) 0x1000 0x1002 = Some 31 \<and> strncasecmp (block 0x1000 [97, 0, 66, 0]) 0x1000 0x1002 2 = Some (- 1)"
  by code_simp

end
