(* ===== verification/Tokens.thy ===== *)
theory Tokens
  imports Strings
begin

text \<open>
  Splitting a string into tokens: \<^verbatim>\<open>tokenize\<close> and \<^verbatim>\<open>canonicalize_path\<close> of \<^verbatim>\<open>lib/string.c\<close> and the functions of the same purpose in \<^verbatim>\<open>lib/xyther_strings.c\<close>.  The duplicated string is a
  buffer of its own, a list of bytes accessed by index; a token is the index at which it starts, and ends with the zero byte that replaces the delimiter.  The array of tokens has a capacity; a write
  beyond it, like an access beyond the buffer, is a fault.
\<close>

section \<open>The loops\<close>

text \<open>The test for a delimiter may itself read memory and fault.\<close>

definition at :: "u8 list \<Rightarrow> nat \<Rightarrow> u8 option" where
  "at buf i = (if i < length buf then Some (buf ! i) else None)"

partial_function (option) skip_while :: "(u8 \<Rightarrow> bool option) \<Rightarrow> u8 list \<Rightarrow> nat \<Rightarrow> nat option" where
  "skip_while P buf p = Option.bind (at buf p) (\<lambda>b. Option.bind (P b) (\<lambda>y. if y then skip_while P buf (p + 1) else Some p))"

text \<open>The leading delimiters go away by moving the rest of the string, with its terminator, to the front.\<close>

definition trim_front :: "(u8 \<Rightarrow> bool option) \<Rightarrow> u8 list \<Rightarrow> u8 list option" where
  "trim_front D buf = do {
     p \<leftarrow> skip_while D buf 0;
     if p \<noteq> 0
     then do { e \<leftarrow> skip_while (\<lambda>b. Some (b \<noteq> 0)) buf p; let n = e - p + 1; Some (take n (drop p buf) @ drop n buf) }
     else Some buf }"

text \<open>\<open>e\<close> is one more than the index \<^verbatim>\<open>end\<close>, which goes down to the one before the buffer.\<close>

fun trim_back :: "(u8 \<Rightarrow> bool option) \<Rightarrow> u8 list \<Rightarrow> nat \<Rightarrow> u8 list option" where
  "trim_back D buf 0 = Some buf"
| "trim_back D buf (Suc e) = Option.bind (at buf e) (\<lambda>b. Option.bind (D b) (\<lambda>y. if y then trim_back D (buf[e := 0]) e else Some buf))"

text \<open>The estimates of the number of tokens: delimiters with something else behind them, and beginnings of tokens.\<close>

partial_function (option) count_gaps :: "(u8 \<Rightarrow> bool) \<Rightarrow> u8 list \<Rightarrow> nat \<Rightarrow> nat \<Rightarrow> nat option" where
  "count_gaps D buf scan n =
    Option.bind (at buf scan) (\<lambda>b.
      if b = 0 then Some n
      else if \<not> D b then count_gaps D buf (scan + 1) n
      else Option.bind (at buf (scan + 1)) (\<lambda>c. count_gaps D buf (scan + 1) (if c \<noteq> 0 \<and> \<not> D c then n + 1 else n)))"

partial_function (option) count_starts :: "(u8 \<Rightarrow> bool option) \<Rightarrow> u8 list \<Rightarrow> nat \<Rightarrow> bool \<Rightarrow> nat \<Rightarrow> nat option" where
  "count_starts D buf scan in_token n =
    Option.bind (at buf scan) (\<lambda>b.
      if b = 0 then Some n
      else Option.bind (D b) (\<lambda>y.
        if y then count_starts D buf (scan + 1) False n
        else if \<not> in_token then count_starts D buf (scan + 1) True (n + 1)
        else count_starts D buf (scan + 1) in_token n))"

text \<open>The conditions \<^verbatim>\<open>*p && D(*p)\<close> and \<^verbatim>\<open>*p && !D(*p)\<close>.\<close>

definition and_delim :: "(u8 \<Rightarrow> bool option) \<Rightarrow> u8 \<Rightarrow> bool option" where
  "and_delim D b = (if b = 0 then Some False else D b)"

definition and_not_delim :: "(u8 \<Rightarrow> bool option) \<Rightarrow> u8 \<Rightarrow> bool option" where
  "and_not_delim D b = (if b = 0 then Some False else map_option Not (D b))"

partial_function (option) extract_tokens :: "(u8 \<Rightarrow> bool option) \<Rightarrow> nat \<Rightarrow> u8 list \<Rightarrow> nat \<Rightarrow> nat list \<Rightarrow> (nat list \<times> u8 list) option" where
  "extract_tokens D cap buf p tokens =
    Option.bind (at buf p) (\<lambda>b.
      if b = 0 then if length tokens < cap then Some (tokens, buf) else None
      else if \<not> length tokens < cap then None
      else Option.bind (skip_while (and_not_delim D) buf p) (\<lambda>q. Option.bind (at buf q) (\<lambda>b.
        if b \<noteq> 0
        then Option.bind (skip_while (and_delim D) (buf[q := 0]) (q + 1)) (\<lambda>r. extract_tokens D cap (buf[q := 0]) r (tokens @ [p]))
        else extract_tokens D cap buf q (tokens @ [p]))))"

declare skip_while.simps [code] count_gaps.simps [code] count_starts.simps [code] extract_tokens.simps [code]

section \<open>The functions\<close>

text \<open>What a successful call returns: the tokens, the buffer they point into, and the last token.\<close>

record tokenized =
  toks :: "nat list"
  tbuf :: "u8 list"
  last_tok :: "nat option"

definition tok_result :: "nat list \<times> u8 list \<Rightarrow> tokenized" where
  "tok_result r = (case r of (ts, buf) \<Rightarrow> \<lparr> toks = ts, tbuf = buf, last_tok = (if ts \<noteq> [] then Some (last ts) else None) \<rparr>)"

text \<open>The string as an argument of the functions: no string at all is a null pointer, and \<open>buf_ok\<close> and \<open>arr_ok\<close> say whether the two allocations succeed.\<close>

definition tokenize :: "u8 list option \<Rightarrow> int \<Rightarrow> bool \<Rightarrow> bool \<Rightarrow> bool \<Rightarrow> (int + tokenized) option" where
  "tokenize s delim ptokenized buf_ok arr_ok =
    (case s of
       None \<Rightarrow> Some (Inl (- EINVAL))
     | Some s \<Rightarrow>
         if delim = 0 \<or> \<not> ptokenized then Some (Inl (- EINVAL))
         else if \<not> buf_ok then Some (Inl (- ENOMEM))
         else do {
           let D = (\<lambda>b. chr b = delim);
           buf \<leftarrow> trim_front (\<lambda>b. Some (D b)) (s @ [0]);
           buf \<leftarrow> trim_back (\<lambda>b. Some (D b)) buf (length s);
           n \<leftarrow> count_gaps D buf 0 0;
           if \<not> arr_ok then Some (Inl (- ENOMEM))
           else map_option (\<lambda>r. Inr (tok_result r)) (extract_tokens (\<lambda>b. Some (D b)) (n + 2) buf 0 []) })"

definition canonicalize_path :: "u8 list option \<Rightarrow> bool \<Rightarrow> bool \<Rightarrow> bool \<Rightarrow> (int + tokenized) option" where
  "canonicalize_path path = tokenize path 47"

text \<open>The string a token points at.\<close>

definition string_at :: "u8 list \<Rightarrow> nat \<Rightarrow> u8 list" where
  "string_at buf p = takeWhile (\<lambda>b. b \<noteq> 0) (drop p buf)"

text \<open>The reference: the non-empty fields between delimiters.\<close>

function split_fields :: "(u8 \<Rightarrow> bool) \<Rightarrow> u8 list \<Rightarrow> u8 list list" where
  "split_fields D s = (case dropWhile D s of [] \<Rightarrow> [] | b # t \<Rightarrow> (b # takeWhile (\<lambda>b. \<not> D b) t) # split_fields D (dropWhile (\<lambda>b. \<not> D b) t))"
  by pat_completeness auto
termination
proof (relation "measure (\<lambda>(D, s). length s)")
  fix D s and b :: u8 and t assume "dropWhile D s = b # t"
  then show "((D, dropWhile (\<lambda>b. \<not> D b) t), (D, s)) \<in> measure (\<lambda>(D, s). length s)"
    using length_dropWhile_le [of D s] length_dropWhile_le [of "\<lambda>b. \<not> D b" t] by simp
qed simp

declare split_fields.simps [simp del]

end
