(* ===== verification/Tokens_Proofs.thy ===== *)
theory Tokens_Proofs
  imports Tokens
begin

text \<open>The tokens are the non-empty fields of the string, and the array allocated for them is large enough.\<close>

section \<open>Fields\<close>

lemma split_fields_Nil [simp]: "split_fields D [] = []"
  by (simp add: split_fields.simps)

lemma split_fields_skip [simp]: "split_fields D (dropWhile D s) = split_fields D s"
  by (simp add: split_fields.simps [of D s] split_fields.simps [of D "dropWhile D s"])

lemma split_fields_delim: "D b \<Longrightarrow> split_fields D (b # s) = split_fields D s"
  using split_fields_skip [of D "b # s"] by simp

lemma split_fields_token: "\<not> D b \<Longrightarrow> split_fields D (b # s) = (b # takeWhile (\<lambda>b. \<not> D b) s) # split_fields D (dropWhile (\<lambda>b. \<not> D b) s)"
  by (subst split_fields.simps) simp

lemma split_fields_Cons_length: "length (split_fields D (b # s)) = length (split_fields D s) + (if \<not> D b \<and> (s = [] \<or> D (hd s)) then 1 else 0)"
proof (cases "D b")
  case False
  then show ?thesis by (cases s) (auto simp: split_fields_token split_fields_delim)
qed (simp add: split_fields_delim)

lemma split_fields_delims: "\<forall>b \<in> set ds. D b \<Longrightarrow> split_fields D ds = []"
  by (induction ds) (auto simp: split_fields_delim)

lemma split_fields_append_delims: "\<forall>b \<in> set ds. D b \<Longrightarrow> split_fields D (s @ ds) = split_fields D s"
proof (induction s rule: length_induct)
  case (1 s)
  show ?case
  proof (cases s)
    case (Cons b t)
    show ?thesis
    proof (cases "D b")
      case False
      let ?r = "dropWhile (\<lambda>b. \<not> D b) t"
      have "split_fields D (?r @ ds) = split_fields D ?r" using 1 Cons length_dropWhile_le [of "\<lambda>b. \<not> D b" t] by (simp add: less_Suc_eq_le)
      moreover have "takeWhile (\<lambda>b. \<not> D b) (t @ ds) = takeWhile (\<lambda>b. \<not> D b) t" using 1(2) by (cases ds) (auto simp: takeWhile_append intro: takeWhile_eq_all_conv [THEN iffD2, symmetric])
      moreover have "dropWhile (\<lambda>b. \<not> D b) (t @ ds) = ?r @ ds" using 1(2) by (cases ds) (auto simp: dropWhile_append)
      ultimately show ?thesis using False Cons by (simp add: split_fields_token)
    qed (use 1 Cons in \<open>simp add: split_fields_delim\<close>)
  qed (simp add: split_fields_delims 1(2))
qed

lemma split_fields_cong: "(\<And>b. b \<in> set s \<Longrightarrow> D b = E b) \<Longrightarrow> split_fields D s = split_fields E s"
proof (induction s rule: length_induct)
  case (1 s)
  show ?case
  proof (cases s)
    case (Cons b t)
    let ?r = "dropWhile (\<lambda>b. \<not> D b) t"
    have "takeWhile (\<lambda>b. \<not> D b) t = takeWhile (\<lambda>b. \<not> E b) t" "?r = dropWhile (\<lambda>b. \<not> E b) t"
      using 1(2) Cons by (auto intro: takeWhile_cong dropWhile_cong)
    moreover have "split_fields D ?r = split_fields E ?r" "split_fields D t = split_fields E t"
      using 1 Cons length_dropWhile_le [of "\<lambda>b. \<not> D b" t] by (auto simp: less_Suc_eq_le dest: set_dropWhileD)
    ultimately show ?thesis using 1(2) [of b] Cons by (cases "D b") (simp_all add: split_fields_delim split_fields_token)
  qed simp
qed

section \<open>The loops\<close>

lemma at_append [simp]: "at (pre @ b # post) (length pre) = Some b"
  by (simp add: at_def)

lemma and_delim_Some [simp]: "and_delim (\<lambda>b. Some (D b)) = (\<lambda>b. Some (b \<noteq> 0 \<and> D b))" "and_not_delim (\<lambda>b. Some (D b)) = (\<lambda>b. Some (b \<noteq> 0 \<and> \<not> D b))"
  by (auto simp: and_delim_def and_not_delim_def fun_eq_iff)

lemma skip_while_over: "\<forall>b \<in> set s. P b \<Longrightarrow> \<not> P c \<Longrightarrow> skip_while (\<lambda>b. Some (P b)) (pre @ s @ c # post) (length pre) = Some (length pre + length s)"
proof (induction s arbitrary: pre)
  case Nil
  then show ?case by (subst skip_while.simps) simp
next
  case (Cons b s)
  then have "skip_while (\<lambda>b. Some (P b)) ((pre @ [b]) @ s @ c # post) (length (pre @ [b])) = Some (length (pre @ [b]) + length s)" by (intro Cons.IH) simp_all
  then show ?case using Cons.prems at_append [of pre b] by (subst skip_while.simps) simp
qed

lemma trim_front_correct:
  assumes "0 \<notin> set s" "\<not> D 0"
  shows "\<exists>post. trim_front (\<lambda>b. Some (D b)) (s @ [0]) = Some (dropWhile D s @ 0 # post) \<and> length (dropWhile D s) + length post = length s"
proof -
  let ?t = "takeWhile D s" and ?d = "dropWhile D s"
  have s: "s = ?t @ ?d" and len: "length s = length ?t + length ?d" by (simp, metis length_append takeWhile_dropWhile_id)
  obtain c post where c: "?d @ [0] = c # post" "\<not> D c" using assms(2) by (cases ?d) (auto dest: hd_dropWhile [of D s] simp: dropWhile_eq_Cons_conv)
  then have "skip_while (\<lambda>b. Some (D b)) (s @ [0]) 0 = Some (length ?t)"
    using skip_while_over [of ?t D c "[]" post] s by (metis (no_types) append_Nil append_assoc list.size(3) plus_nat.add_0 set_takeWhileD)
  moreover have "skip_while (\<lambda>b. Some (b \<noteq> 0)) (s @ [0]) (length ?t) = Some (length s)"
    using skip_while_over [of ?d "\<lambda>b. b \<noteq> 0" 0 ?t "[]"] assms(1) len s by (metis (no_types, lifting) append_assoc set_dropWhileD)
  moreover have "take (length s - length ?t + 1) (drop (length ?t) (s @ [0])) = ?d @ [0]"
    using s len by (metis add_diff_cancel_left' append_eq_conv_conj append_assoc length_append_singleton Suc_eq_plus1 take_all_iff order_refl)
  ultimately show ?thesis using len s by (auto simp: trim_front_def Let_def)
qed

lemma trim_back_strip:
  "\<exists>s' ds post'. trim_back (\<lambda>b. Some (D b)) (s @ 0 # post) (length s) = Some (s' @ 0 # post') \<and> s = s' @ ds \<and> (\<forall>b \<in> set ds. D b)"
proof (induction s arbitrary: post rule: rev_induct)
  case (snoc x s)
  show ?case
  proof (cases "D x")
    case True
    from snoc.IH [of "0 # post"] obtain s' ds post' where
      "trim_back (\<lambda>b. Some (D b)) (s @ 0 # 0 # post) (length s) = Some (s' @ 0 # post')" "s = s' @ ds" "\<forall>b \<in> set ds. D b" by blast
    moreover have "trim_back (\<lambda>b. Some (D b)) ((s @ [x]) @ 0 # post) (length (s @ [x])) = trim_back (\<lambda>b. Some (D b)) (s @ 0 # 0 # post) (length s)" using True by simp
    moreover have "s @ [x] = s' @ (ds @ [x])" "\<forall>b \<in> set (ds @ [x]). D b" using True \<open>s = s' @ ds\<close> \<open>\<forall>b \<in> set ds. D b\<close> by auto
    ultimately show ?thesis by metis
  next
    case False
    then have "trim_back (\<lambda>b. Some (D b)) ((s @ [x]) @ 0 # post) (length (s @ [x])) = Some ((s @ [x]) @ 0 # post)" by simp
    then show ?thesis by (metis append_Nil2 empty_iff empty_set)
  qed
qed simp

lemma trim_back_stops:
  "\<not> D 0 \<Longrightarrow> k \<le> length post \<Longrightarrow> \<exists>post'. trim_back (\<lambda>b. Some (D b)) (s @ 0 # post) (length s + Suc k) = Some (s @ 0 # post')"
proof (induction k arbitrary: post)
  case (Suc k)
  then obtain post1 where "trim_back (\<lambda>b. Some (D b)) (s @ 0 # post[k := 0]) (length s + Suc k) = Some (s @ 0 # post1)" by force
  moreover have "trim_back (\<lambda>b. Some (D b)) (s @ 0 # post) (length s + Suc (Suc k)) = (if D (post ! k) then trim_back (\<lambda>b. Some (D b)) (s @ 0 # post[k := 0]) (length s + Suc k) else Some (s @ 0 # post))"
    using Suc.prems(2) by (simp add: at_def nth_append list_update_append)
  ultimately show ?case by (simp del: trim_back.simps add_Suc_right)
qed auto


fun gaps :: "(u8 \<Rightarrow> bool) \<Rightarrow> u8 list \<Rightarrow> nat" where
  "gaps D [] = 0"
| "gaps D (b # s) = (if D b \<and> s \<noteq> [] \<and> \<not> D (hd s) then 1 else 0) + gaps D s"

lemma count_gaps_correct: "0 \<notin> set s \<Longrightarrow> count_gaps D (pre @ s @ 0 # post) (length pre) n = Some (n + gaps D s)"
proof (induction s arbitrary: pre n)
  case Nil
  then show ?case by (subst count_gaps.simps) simp
next
  case (Cons b s)
  have IH: "count_gaps D (pre @ b # s @ 0 # post) (Suc (length pre)) n = Some (n + gaps D s)" for n using Cons.IH [of "pre @ [b]" n] Cons.prems by simp
  obtain c post' where c: "s @ 0 # post = c # post'" "c = (if s = [] then 0 else hd s)" by (cases s) auto
  have c0: "c = 0 \<longleftrightarrow> s = []" using c(2) Cons.prems by (cases s) auto
  have "at (pre @ b # s @ 0 # post) (Suc (length pre)) = Some c" using at_append [of "pre @ [b]" c post'] c(1) by simp
  then show ?case using Cons.prems IH c(2) c0 at_append [of pre b] by (subst count_gaps.simps) (auto split: if_splits)
qed

lemma split_fields_gaps: "length (split_fields D s) = gaps D s + (if s \<noteq> [] \<and> \<not> D (hd s) then 1 else 0)"
  by (induction s) (auto simp: split_fields_Cons_length)

lemma count_starts_correct:
  "0 \<notin> set s \<Longrightarrow> \<exists>k. count_starts (\<lambda>b. Some (D b)) (pre @ s @ 0 # post) (length pre) i n = Some (n + k) \<and> length (split_fields D s) = k + (if i \<and> s \<noteq> [] \<and> \<not> D (hd s) then 1 else 0)"
proof (induction s arbitrary: pre i n)
  case Nil
  then show ?case by (subst count_starts.simps) simp
next
  case (Cons b s)
  have IH: "\<exists>k. count_starts (\<lambda>b. Some (D b)) (pre @ b # s @ 0 # post) (Suc (length pre)) i n = Some (n + k) \<and> length (split_fields D s) = k + (if i \<and> s \<noteq> [] \<and> \<not> D (hd s) then 1 else 0)" for i n
    using Cons.IH [of "pre @ [b]" i n] Cons.prems by simp
  show ?case
  proof (cases "D b")
    case True
    then show ?thesis using IH [of False n] Cons.prems at_append [of pre b] by (subst count_starts.simps) (simp add: split_fields_Cons_length)
  next
    case False
    then show ?thesis using IH [of True "if i then n else n + 1"] Cons.prems at_append [of pre b]
      by (subst count_starts.simps) (auto simp: split_fields_Cons_length split: if_splits)
  qed
qed

section \<open>Extracting the tokens\<close>

lemma take_prefix: "take (length (p @ q)) xs = p @ q \<Longrightarrow> take (length p) xs = p"
proof -
  assume a: "take (length (p @ q)) xs = p @ q"
  have "take (length p) (take (length (p @ q)) xs) = take (length p) xs" by simp
  then show "take (length p) xs = p" unfolding a by simp
qed

lemma string_at_prefix:
  assumes "take (length (pre @ w @ [0])) buf = pre @ w @ [0]" "0 \<notin> set w"
  shows "string_at buf (length pre) = w"
proof -
  obtain post where "buf = pre @ w @ [0] @ post" using assms(1) by (metis append_take_drop_id append_assoc)
  then show ?thesis using assms(2) by (auto simp: string_at_def takeWhile_append)
qed

lemma extract_step:
  assumes "at buf p = Some b" "b \<noteq> 0" "length tokens < cap" "skip_while (\<lambda>b. Some (b \<noteq> 0 \<and> \<not> D b)) buf p = Some q" "at buf q = Some c" "c \<noteq> 0"
    "skip_while (\<lambda>b. Some (b \<noteq> 0 \<and> D b)) (buf[q := 0]) (q + 1) = Some r"
  shows "extract_tokens (\<lambda>b. Some (D b)) cap buf p tokens = extract_tokens (\<lambda>b. Some (D b)) cap (buf[q := 0]) r (tokens @ [p])"
  using assms by (subst extract_tokens.simps) simp

lemma extract_fields:
  assumes "0 \<notin> set s" "s = [] \<or> \<not> D (hd s)" "length tokens + length (split_fields D s) < cap"
  shows "\<exists>offs buf'. extract_tokens (\<lambda>b. Some (D b)) cap (pre @ s @ 0 # post) (length pre) tokens = Some (tokens @ offs, buf') \<and> take (length pre) buf' = pre \<and>
    map (string_at buf') offs = split_fields D s \<and> (\<forall>p \<in> set offs. length pre \<le> p) \<and> distinct offs"
  using assms
proof (induction "length s" arbitrary: s pre tokens rule: less_induct)
  case less
  show ?case
  proof (cases s)
    case Nil
    then show ?thesis using less.prems at_append [of pre 0 post] by (subst extract_tokens.simps) auto
  next
    case st: (Cons b t)
    then have b: "\<not> D b" "b \<noteq> 0" using less.prems by auto
    let ?w = "b # takeWhile (\<lambda>b. \<not> D b) t" and ?r = "dropWhile (\<lambda>b. \<not> D b) t"
    have s: "s = ?w @ ?r" and w0: "0 \<notin> set ?w" and r0: "0 \<notin> set ?r"
      using st less.prems(1) by (auto dest: set_takeWhileD set_dropWhileD)
    have f: "split_fields D s = ?w # split_fields D ?r" using st b by (simp add: split_fields_token)
    have w: "\<forall>x \<in> set ?w. x \<noteq> 0 \<and> \<not> D x" using w0 b by (auto dest: set_takeWhileD)
    show ?thesis
    proof (cases ?r)
      case Nil
      have "skip_while (\<lambda>b. Some (b \<noteq> 0 \<and> \<not> D b)) (pre @ s @ 0 # post) (length pre) = Some (length (pre @ s))"
        using skip_while_over [OF w, of 0 pre post] s Nil by simp
      moreover have "extract_tokens (\<lambda>b. Some (D b)) cap (pre @ s @ 0 # post) (length (pre @ s)) (tokens @ [length pre]) = Some (tokens @ [length pre], pre @ s @ 0 # post)"
        using at_append [of "pre @ s" 0 post] less.prems(3) f Nil by (subst extract_tokens.simps) simp
      ultimately have "extract_tokens (\<lambda>b. Some (D b)) cap (pre @ s @ 0 # post) (length pre) tokens = Some (tokens @ [length pre], pre @ s @ 0 # post)"
        using at_append [of pre b "t @ 0 # post"] at_append [of "pre @ s" 0 post] st b less.prems(3) by (subst extract_tokens.simps) simp
      then show ?thesis using string_at_prefix [of pre s "pre @ s @ 0 # post"] f s Nil less.prems(1) by simp
    next
      case r: (Cons c r)
      then have c: "D c" "c \<noteq> 0" using r0 hd_dropWhile [of "\<lambda>b. \<not> D b" t] by auto
      let ?ds = "takeWhile D r" and ?s = "dropWhile D r" and ?pre = "pre @ ?w @ [0] @ takeWhile D r"
      have rs: "r = ?ds @ ?s" and s0: "0 \<notin> set ?s" and d0: "\<forall>x \<in> set ?ds. x \<noteq> 0 \<and> D x"
        using r0 r by (auto dest: set_takeWhileD set_dropWhileD)
      let ?buf = "pre @ s @ 0 # post" and ?buf' = "?pre @ ?s @ 0 # post"
      have buf: "?buf = (pre @ ?w) @ c # r @ 0 # post" using s r by simp
      have upd: "?buf[length (pre @ ?w) := 0] = ?buf'" unfolding buf list_update_length using rs by simp
      have skip1: "skip_while (\<lambda>b. Some (b \<noteq> 0 \<and> \<not> D b)) ?buf (length pre) = Some (length (pre @ ?w))"
        using skip_while_over [OF w, of c pre "r @ 0 # post"] c(1) buf by simp
      obtain x post' where x: "?s @ 0 # post = x # post'" "\<not> (x \<noteq> 0 \<and> D x)" using hd_dropWhile [of D r] by (cases ?s) auto
      have skip2: "skip_while (\<lambda>b. Some (b \<noteq> 0 \<and> D b)) ?buf' (length (pre @ ?w) + 1) = Some (length ?pre)"
        using skip_while_over [of ?ds "\<lambda>b. b \<noteq> 0 \<and> D b" x "pre @ ?w @ [0]" post'] d0 x by simp
      have "length ?s < length s" using st r length_dropWhile_le [of D r] length_dropWhile_le [of "\<lambda>b. \<not> D b" t] by simp
      moreover have "?s = [] \<or> \<not> D (hd ?s)" using hd_dropWhile [of D r] by blast
      moreover have fs: "split_fields D s = ?w # split_fields D ?s" using f r c(1) by (simp add: split_fields_delim)
      ultimately obtain offs buf' where IH: "extract_tokens (\<lambda>b. Some (D b)) cap ?buf' (length ?pre) (tokens @ [length pre]) = Some ((tokens @ [length pre]) @ offs, buf')"
        "take (length ?pre) buf' = ?pre" "map (string_at buf') offs = split_fields D ?s" "\<forall>p \<in> set offs. length ?pre \<le> p" "distinct offs"
        using less.hyps [of ?s "tokens @ [length pre]" ?pre] s0 less.prems(3) by auto
      have "extract_tokens (\<lambda>b. Some (D b)) cap ?buf (length pre) tokens = extract_tokens (\<lambda>b. Some (D b)) cap ?buf' (length ?pre) (tokens @ [length pre])"
        unfolding upd [symmetric]
      proof (rule extract_step [OF _ b(2) _ skip1 _ c(2)])
        show "at ?buf (length pre) = Some b" using at_append [of pre b "t @ 0 # post"] st by simp
        show "at ?buf (length (pre @ ?w)) = Some c" unfolding buf by (rule at_append)
        show "skip_while (\<lambda>b. Some (b \<noteq> 0 \<and> D b)) (?buf[length (pre @ ?w) := 0]) (length (pre @ ?w) + 1) = Some (length ?pre)" unfolding upd by (rule skip2)
      qed (use less.prems(3) in simp)
      moreover have "take (length (pre @ ?w @ [0])) buf' = pre @ ?w @ [0]"
        using take_prefix [of "pre @ ?w @ [0]" ?ds buf'] IH(2) by simp
      moreover have "take (length pre) buf' = pre" using IH(2) by (rule take_prefix)
      ultimately show ?thesis using IH fs string_at_prefix [of pre ?w buf'] w0
        by (intro exI [of _ "length pre # offs"] exI [of _ buf']) (auto simp: append_eq_conv_conj)
    qed
  qed
qed

section \<open>The functions\<close>

lemma fields_of_stripped:
  assumes "dropWhile D s = s' @ ds" "\<forall>b \<in> set ds. D b" "0 \<notin> set s"
  shows "split_fields D s' = split_fields D s" "s' = [] \<or> \<not> D (hd s')" "0 \<notin> set s'"
proof -
  show "split_fields D s' = split_fields D s" using split_fields_append_delims [of ds D s'] assms(1,2) split_fields_skip [of D s] by simp
  show "s' = [] \<or> \<not> D (hd s')" using hd_dropWhile [of D s] assms(1) by (cases s') auto
  show "0 \<notin> set s'" using assms(1,3) by (metis Un_iff set_append set_dropWhileD)
qed

lemma tokenize_split:
  assumes "0 \<notin> set s" "delim \<noteq> 0"
  shows "\<exists>ts buf. tokenize (Some s) delim True True True = Some (Inr (tok_result (ts, buf))) \<and> map (string_at buf) ts = split_fields (\<lambda>b. chr b = delim) s \<and> distinct ts"
proof -
  let ?D = "\<lambda>b. chr b = delim"
  have D0: "\<not> ?D 0" using assms(2) by (simp add: chr_def)
  obtain post where front: "trim_front (\<lambda>b. Some (?D b)) (s @ [0]) = Some (dropWhile ?D s @ 0 # post)" "length (dropWhile ?D s) + length post = length s"
    using trim_front_correct [OF assms(1), of ?D] D0 by blast
  have "\<exists>s' ds post'. trim_back (\<lambda>b. Some (?D b)) (dropWhile ?D s @ 0 # post) (length s) = Some (s' @ 0 # post') \<and> dropWhile ?D s = s' @ ds \<and> (\<forall>b \<in> set ds. ?D b)"
  proof (cases post)
    case Nil
    then show ?thesis using trim_back_strip [of ?D "dropWhile ?D s" post] front(2) by simp
  next
    case (Cons x xs)
    then show ?thesis using trim_back_stops [of ?D "length xs" post "dropWhile ?D s"] D0 front(2)
      by (metis add_Suc_right append_Nil2 empty_iff empty_set le_add2 length_Cons plus_1_eq_Suc)
  qed
  then obtain s' ds post' where bk: "trim_back (\<lambda>b. Some (?D b)) (dropWhile ?D s @ 0 # post) (length s) = Some (s' @ 0 # post')" "dropWhile ?D s = s' @ ds" "\<forall>b \<in> set ds. ?D b" by blast
  note s' = fields_of_stripped [OF bk(2,3) assms(1)]
  have "count_gaps ?D (s' @ 0 # post') 0 0 = Some (gaps ?D s')" using count_gaps_correct [OF s'(3), of ?D "[]" post' 0] by simp
  moreover obtain offs buf where "extract_tokens (\<lambda>b. Some (?D b)) (gaps ?D s' + 2) (s' @ 0 # post') 0 [] = Some (offs, buf)" "map (string_at buf) offs = split_fields ?D s" "distinct offs"
    using extract_fields [of s' ?D "[]" "gaps ?D s' + 2" "[]" post'] split_fields_gaps [of ?D s'] s' by (auto split: if_splits)
  ultimately show ?thesis using assms(2) front(1) bk(1) by (auto simp: tokenize_def Let_def)
qed

text \<open>C31: \<^verbatim>\<open>tokenize\<close> splits a string at a delimiter: the tokens it returns point, in order, at the non-empty fields of the string, whatever delimiters lead, trail or repeat.  The estimate of the number of
  tokens leaves room for all of them and for the null pointer that ends the array, and the last token is the one reported.
\<close>

theorem tokenize_fields:
  assumes "0 \<notin> set s" "delim \<noteq> 0"
  shows "\<exists>r. tokenize (Some s) delim True True True = Some (Inr r) \<and> map (string_at (tbuf r)) (toks r) = split_fields (\<lambda>b. chr b = delim) s \<and>
    last_tok r = (if split_fields (\<lambda>b. chr b = delim) s = [] then None else Some (last (toks r)))"
proof -
  obtain ts buf where r: "tokenize (Some s) delim True True True = Some (Inr (tok_result (ts, buf)))" "map (string_at buf) ts = split_fields (\<lambda>b. chr b = delim) s"
    using tokenize_split [OF assms] by blast
  then have "split_fields (\<lambda>b. chr b = delim) s = [] \<longleftrightarrow> ts = []" by (metis map_is_Nil_conv)
  then show ?thesis using r by (intro exI [of _ "tok_result (ts, buf)"]) (simp add: tok_result_def)
qed

definition sample_path :: "u8 list" where "sample_path = [47, 117, 115, 114, 47, 47, 98, 105, 110, 47]"

theorem tokenize_fields_witness: "\<exists>r. tokenize (Some sample_path) 47 True True True = Some (Inr r) \<and> map (string_at (tbuf r)) (toks r) = [[117, 115, 114], [98, 105, 110]]"
proof -
  have "0 \<notin> set sample_path" "split_fields (\<lambda>b. chr b = 47) sample_path = [[117, 115, 114], [98, 105, 110]]" by code_simp+
  then show ?thesis using tokenize_fields [of sample_path 47] by auto
qed

end
