(* ===== verification/Sigset.thy ===== *)
theory Sigset
  imports Prelude
begin

text \<open>
  Sets of signals: \<^verbatim>\<open>include/sys/sigset.h\<close> and the masks of \<^verbatim>\<open>sys/signal/sigmask.c\<close>.  There are 32 signals and an unsigned
  integer has 32 bits, so the array inside \<^verbatim>\<open>sigset_t\<close> has one element (\<^verbatim>\<open>__NR_INT\<close> is 1) and a set is one word.
\<close>

section \<open>Sets of signals\<close>

type_synonym sigset = u32

abbreviation (input) NSIG :: int where "NSIG \<equiv> 32"
abbreviation (input) SIGKILL :: int where "SIGKILL \<equiv> 14"
abbreviation (input) SIGSTOP :: int where "SIGSTOP \<equiv> 19"

definition SIGBAD :: "int \<Rightarrow> bool" where
  "SIGBAD signo \<longleftrightarrow> signo < 1 \<or> signo > NSIG"

definition SIG_BIT :: "int \<Rightarrow> u32" where
  "SIG_BIT signo = push_bit (nat ((signo - 1) mod 32)) 1"

definition SIGMASK :: "int \<Rightarrow> u32" where
  "SIGMASK signo = push_bit (nat (signo - 1)) 1"

definition sigsetadd :: "sigset \<Rightarrow> int \<Rightarrow> int \<times> sigset" where
  "sigsetadd s signo = (if SIGBAD signo then (- EINVAL, s) else (0, s OR SIG_BIT signo))"

definition sigsetdel :: "sigset \<Rightarrow> int \<Rightarrow> int \<times> sigset" where
  "sigsetdel s signo = (if SIGBAD signo then (- EINVAL, s) else (0, s AND NOT (SIG_BIT signo)))"

definition sigismember :: "sigset \<Rightarrow> int \<Rightarrow> int" where
  "sigismember s signo = (if SIGBAD signo then - EINVAL else if s AND SIG_BIT signo \<noteq> 0 then 1 else 0)"

text \<open>\<^verbatim>\<open>__builtin_ctz\<close> is the number of the lowest bit that is set.\<close>

definition builtin_ctz :: "u32 \<Rightarrow> nat" where
  "builtin_ctz w = the (List.find (bit w) [0..<32])"

definition sigset_first :: "sigset \<Rightarrow> int" where
  "sigset_first s = (if s \<noteq> 0 then int (builtin_ctz s) + 1 else 0)"

definition sigsetempty :: sigset where "sigsetempty = 0"

definition sigsetfill :: sigset where "sigsetfill = NOT 0"

definition sigsetaddmask :: "sigset \<Rightarrow> u32 \<Rightarrow> sigset" where "sigsetaddmask s m = s OR m"

definition sigsetdelmask :: "sigset \<Rightarrow> u32 \<Rightarrow> sigset" where "sigsetdelmask s m = s AND NOT m"

definition sigsetor :: "sigset \<Rightarrow> sigset \<Rightarrow> sigset" where "sigsetor s s1 = s OR s1"

definition sigsetand :: "sigset \<Rightarrow> sigset \<Rightarrow> sigset" where "sigsetand s s1 = s AND s1"

definition sigsettest :: "sigset \<Rightarrow> sigset \<Rightarrow> sigset" where "sigsettest s s1 = s AND s1"

section \<open>Masks\<close>

abbreviation (input) SIG_BLOCK :: int where "SIG_BLOCK \<equiv> 1"
abbreviation (input) SIG_UNBLOCK :: int where "SIG_UNBLOCK \<equiv> 2"
abbreviation (input) SIG_SETMASK :: int where "SIG_SETMASK \<equiv> 3"

definition do_sigmask :: "sigset \<Rightarrow> int \<Rightarrow> sigset \<Rightarrow> int \<times> sigset" where
  "do_sigmask sigset how m =
    (if how = SIG_SETMASK then (0, m)
     else if how = SIG_BLOCK then (0, sigset OR m)
     else if how = SIG_UNBLOCK then (0, sigset AND NOT m)
     else (- EINVAL, sigset))"

definition copy_sigmask :: "sigset \<Rightarrow> sigset \<Rightarrow> sigset" where
  "copy_sigmask dst src = snd (do_sigmask dst SIG_SETMASK src)"

text \<open>
  \<^verbatim>\<open>sigmask(sigset, how, set, oset)\<close> for a non-null \<^verbatim>\<open>sigset\<close>; \<^term>\<open>None\<close> is a null \<^verbatim>\<open>set\<close>.  The third result is
  what it stores through \<^verbatim>\<open>oset\<close> when that is not null.
\<close>

definition sigmask :: "sigset \<Rightarrow> int \<Rightarrow> sigset option \<Rightarrow> int \<times> sigset \<times> sigset" where
  "sigmask sigset how p =
    (case p of
      None \<Rightarrow> (0, sigset, sigset)
    | Some m \<Rightarrow>
        if sigismember m SIGKILL \<noteq> 0 \<or> sigismember m SIGSTOP \<noteq> 0 then (- EINVAL, sigset, sigset)
        else (case do_sigmask sigset how m of (err, sigset') \<Rightarrow> (err, sigset', sigset)))"

section \<open>The signals a word stands for\<close>

definition members :: "sigset \<Rightarrow> int set" where
  "members s = {n. 1 \<le> n \<and> n \<le> NSIG \<and> bit s (nat (n - 1))}"

lemma SIG_BIT_good: "\<not> SIGBAD n \<Longrightarrow> SIG_BIT n = push_bit (nat (n - 1)) 1"
  by (simp add: SIG_BIT_def SIGBAD_def)

lemma members_SIG_BIT [simp]: "\<not> SIGBAD n \<Longrightarrow> members (SIG_BIT n) = {n}"
  by (auto simp: members_def SIG_BIT_good SIGBAD_def bit_simps)

lemma members_SIGMASK [simp]: "\<not> SIGBAD n \<Longrightarrow> members (SIGMASK n) = {n}"
  by (auto simp: members_def SIGMASK_def SIGBAD_def bit_simps)

lemma members_empty [simp]: "members sigsetempty = {}" "members 0 = {}"
  by (simp_all add: sigsetempty_def members_def)

lemma members_or [simp]: "members (s OR t) = members s \<union> members t"
  by (auto simp: members_def bit_simps)

lemma members_and: "members (s AND t) = members s \<inter> members t"
  by (auto simp: members_def bit_simps)

lemma members_minus [simp]: "members (s AND NOT t) = members s - members t"
  by (auto simp: members_def bit_simps)

lemma members_fill: "members sigsetfill = {1..32}"
  by (auto simp: sigsetfill_def members_def bit_simps)

lemma members_add: "\<not> SIGBAD n \<Longrightarrow> members (snd (sigsetadd s n)) = insert n (members s)"
  by (simp add: sigsetadd_def)

lemma members_del: "\<not> SIGBAD n \<Longrightarrow> members (snd (sigsetdel s n)) = members s - {n}"
  by (simp add: sigsetdel_def)

lemma word_bit_index: "bit (w :: u32) n \<Longrightarrow> n < 32"
  using bit_imp_le_length [of w n] by simp

lemma members_eq_empty [simp]: "members s = {} \<longleftrightarrow> s = 0"
proof
  assume e: "members s = {}"
  have "\<not> bit s n" for n
  proof
    assume b: "bit s n"
    then have "n < 32" by (rule word_bit_index)
    then have "int n + 1 \<in> members s" using b by (simp add: members_def)
    with e show False by simp
  qed
  then show "s = 0" by (simp add: bit_eq_iff)
qed simp

lemma member_and_bit: "\<not> SIGBAD n \<Longrightarrow> s AND SIG_BIT n \<noteq> 0 \<longleftrightarrow> n \<in> members s"
  unfolding members_eq_empty [symmetric] members_and by simp

lemma sigismember_iff [simp]: "\<not> SIGBAD n \<Longrightarrow> sigismember s n = (if n \<in> members s then 1 else 0)"
  by (simp add: sigismember_def member_and_bit)

lemma kill_stop_good [simp]: "\<not> SIGBAD SIGKILL" "\<not> SIGBAD SIGSTOP"
  by (simp_all add: SIGBAD_def)

lemma members_bounds: "n \<in> members s \<Longrightarrow> \<not> SIGBAD n"
  by (simp add: members_def SIGBAD_def)

lemma ctz_least:
  assumes "w \<noteq> (0 :: u32)"
  shows "bit w (builtin_ctz w) \<and> (\<forall>i < builtin_ctz w. \<not> bit w i)"
proof -
  obtain n where "bit w n" using assms by (auto simp: bit_eq_iff)
  moreover from this have "n < 32" by (rule word_bit_index)
  ultimately have "List.find (bit w) [0..<32] \<noteq> None" by (auto simp: find_None_iff)
  then obtain i where i: "List.find (bit w) [0..<32] = Some i" by blast
  then obtain k where k: "k < 32" "bit w ([0..<32] ! k)" "i = [0..<32] ! k" "\<forall>j<k. \<not> bit w ([0..<32] ! j)"
    unfolding find_Some_iff by auto
  then show ?thesis using i by (simp add: builtin_ctz_def)
qed

lemma sigset_first_least:
  "if s = 0 then sigset_first s = 0
   else sigset_first s \<in> members s \<and> (\<forall>n \<in> members s. sigset_first s \<le> n)"
proof (cases "s = 0")
  case False
  note c = ctz_least [OF this]
  then have "builtin_ctz s < 32" using word_bit_index by blast
  moreover have "builtin_ctz s \<le> nat (n - 1)" if "bit s (nat (n - 1))" for n
    using c that by (meson not_less)
  ultimately show ?thesis using c False by (auto simp: sigset_first_def members_def) force
qed (simp add: sigset_first_def)

lemma sigmask_spec:
  assumes "sigmask s how (Some m) = (err, s', old)"
  shows "old = s \<and> (if SIGKILL \<in> members m \<or> SIGSTOP \<in> members m \<or> how \<notin> {SIG_BLOCK, SIG_UNBLOCK, SIG_SETMASK} then err = - EINVAL \<and> s' = s
    else err = 0 \<and> members s' = (if how = SIG_BLOCK then members s \<union> members m else if how = SIG_UNBLOCK then members s - members m else members m))"
  using assms by (auto simp: sigmask_def do_sigmask_def split: if_splits prod.splits)

end
