(* ===== verification/Sse_Strings.thy ===== *)
theory Sse_Strings
  imports Strings Sigset
begin

text \<open>
  The string functions with vector instructions: \<^verbatim>\<open>lib/xyther_strings.c\<close>.  A vector is a list of sixteen bytes.  An aligned store to an address that is not a multiple of sixteen faults, like an access
  to memory that is not mapped.
\<close>

section \<open>Vectors\<close>

definition loadu :: "mem \<Rightarrow> addr \<Rightarrow> u8 list option" where "loadu m p = load_bytes m p 16"

definition storeu :: "mem \<Rightarrow> addr \<Rightarrow> u8 list \<Rightarrow> mem option" where "storeu m p v = store_bytes m p v"

definition store_aligned :: "mem \<Rightarrow> addr \<Rightarrow> u8 list \<Rightarrow> mem option" where
  "store_aligned m p v = (if p AND 15 = 0 then store_bytes m p v else None)"

text \<open>\<^verbatim>\<open>_mm_movemask_epi8\<close> collects the highest bits of the bytes, here of the bytes of a comparison.\<close>

definition movemask :: "bool list \<Rightarrow> u32" where
  "movemask bs = foldr (\<lambda>b w. of_bool b OR push_bit 1 w) bs 0"

definition eq_mask :: "u8 list \<Rightarrow> u8 list \<Rightarrow> u32" where "eq_mask v w = movemask (map2 (=) v w)"

definition byte_mask :: "u8 \<Rightarrow> u8 list \<Rightarrow> u32" where "byte_mask c v = movemask (map (\<lambda>b. b = c) v)"

text \<open>\<^verbatim>\<open>sse_load\<close> and \<^verbatim>\<open>sse_store\<close> use the aligned instruction when the address is aligned.\<close>

definition sse_load :: "mem \<Rightarrow> addr \<Rightarrow> u8 list option" where "sse_load m p = loadu m p"

definition sse_store :: "mem \<Rightarrow> addr \<Rightarrow> u8 list \<Rightarrow> mem option" where
  "sse_store m p v = (if p AND 15 = 0 then store_aligned m p v else storeu m p v)"

section \<open>Blocks of memory\<close>

text \<open>\<^verbatim>\<open>xytherOs_memset\<close> and \<^verbatim>\<open>xytherOs_memsetw\<close>: elements up to an aligned address, vectors, and the remaining elements.\<close>

partial_function (option) set_align :: "u8 list \<Rightarrow> mem \<Rightarrow> addr \<Rightarrow> u64 \<Rightarrow> (mem \<times> addr \<times> u64) option" where
  "set_align e m p n =
    (if p AND 15 \<noteq> 0 \<and> n \<noteq> 0 then Option.bind (store_bytes m p e) (\<lambda>m. set_align e m (p + of_nat (length e)) (n - 1)) else Some (m, p, n))"

partial_function (option) set_vectors :: "u8 list \<Rightarrow> mem \<Rightarrow> addr \<Rightarrow> u64 \<Rightarrow> (mem \<times> addr \<times> u64) option" where
  "set_vectors e m p n =
    (let k = 16 div length e in
     if n \<ge> of_nat k then Option.bind (store_aligned m p (concat (replicate k e))) (\<lambda>m. set_vectors e m (p + 16) (n - of_nat k)) else Some (m, p, n))"

partial_function (option) set_rest :: "u8 list \<Rightarrow> mem \<Rightarrow> addr \<Rightarrow> u64 \<Rightarrow> mem option" where
  "set_rest e m p n = (if n \<noteq> 0 then Option.bind (store_bytes m p e) (\<lambda>m. set_rest e m (p + of_nat (length e)) (n - 1)) else Some m)"

definition set_elements :: "u8 list \<Rightarrow> mem \<Rightarrow> addr \<Rightarrow> u64 \<Rightarrow> mem option" where
  "set_elements e m p n = do { (m, p, n) \<leftarrow> set_align e m p n; (m, p, n) \<leftarrow> set_vectors e m p n; set_rest e m p n }"

definition xytherOs_memset :: "mem \<Rightarrow> addr \<Rightarrow> int \<Rightarrow> u64 \<Rightarrow> (addr \<times> mem) option" where
  "xytherOs_memset m dest val n = map_option (\<lambda>m. (dest, m)) (set_elements [word_of_int val] m dest n)"

definition xytherOs_memsetw :: "mem \<Rightarrow> addr \<Rightarrow> 16 word \<Rightarrow> u64 \<Rightarrow> (addr \<times> mem) option" where
  "xytherOs_memsetw m dest val n = map_option (\<lambda>m. (dest, m)) (set_elements (bytes_of_word 2 (ucast val)) m dest n)"

partial_function (option) copy_align :: "mem \<Rightarrow> addr \<Rightarrow> addr \<Rightarrow> u64 \<Rightarrow> (mem \<times> addr \<times> addr \<times> u64) option" where
  "copy_align m d s n =
    (if d AND 15 \<noteq> 0 \<and> n \<noteq> 0
     then Option.bind (m s) (\<lambda>b. Option.bind (st8 m d b) (\<lambda>m. copy_align m (d + 1) (s + 1) (n - 1)))
     else Some (m, d, s, n))"

partial_function (option) copy_vectors :: "mem \<Rightarrow> addr \<Rightarrow> addr \<Rightarrow> u64 \<Rightarrow> (mem \<times> addr \<times> addr \<times> u64) option" where
  "copy_vectors m d s n =
    (if n \<ge> 16
     then Option.bind (loadu m s) (\<lambda>v. Option.bind (store_aligned m d v) (\<lambda>m. copy_vectors m (d + 16) (s + 16) (n - 16)))
     else Some (m, d, s, n))"

definition xytherOs_memcpy :: "mem \<Rightarrow> addr \<Rightarrow> addr \<Rightarrow> u64 \<Rightarrow> (addr \<times> mem) option" where
  "xytherOs_memcpy m dest src n = do {
     (m, d, s, n) \<leftarrow> copy_align m dest src n;
     (m, d, s, n) \<leftarrow> copy_vectors m d s n;
     m \<leftarrow> fwd_bytes m d s n;
     Some (dest, m) }"

text \<open>The backward loops; the code's pointers are \<open>d + n\<close> and \<open>s + n\<close>.\<close>

partial_function (option) back_align :: "mem \<Rightarrow> addr \<Rightarrow> addr \<Rightarrow> u64 \<Rightarrow> (mem \<times> u64) option" where
  "back_align m d s n =
    (if (d + n) AND 15 \<noteq> 0 \<and> n \<noteq> 0
     then Option.bind (m (s + (n - 1))) (\<lambda>b. Option.bind (st8 m (d + (n - 1)) b) (\<lambda>m. back_align m d s (n - 1)))
     else Some (m, n))"

partial_function (option) back_vectors :: "mem \<Rightarrow> addr \<Rightarrow> addr \<Rightarrow> u64 \<Rightarrow> (mem \<times> u64) option" where
  "back_vectors m d s n =
    (if n \<ge> 16
     then Option.bind (loadu m (s + (n - 16))) (\<lambda>v. Option.bind (store_aligned m (d + (n - 16)) v) (\<lambda>m. back_vectors m d s (n - 16)))
     else Some (m, n))"

definition xytherOs_memmove :: "mem \<Rightarrow> addr \<Rightarrow> addr \<Rightarrow> u64 \<Rightarrow> (addr \<times> mem) option" where
  "xytherOs_memmove m d s n =
    (if d < s then xytherOs_memcpy m d s n
     else if d > s
     then do { (m, n) \<leftarrow> back_align m d s n; (m, n) \<leftarrow> back_vectors m d s n; m \<leftarrow> bwd_bytes m d s n; Some (d, m) }
     else Some (d, m))"

fun first_diff :: "u8 list \<Rightarrow> u8 list \<Rightarrow> (u8 \<times> u8) option" where
  "first_diff (a # v) (b # w) = (if a \<noteq> b then Some (a, b) else first_diff v w)"
| "first_diff _ _ = None"

definition sign_of :: "u8 \<times> u8 \<Rightarrow> int" where "sign_of d = (if fst d < snd d then - 1 else 1)"

partial_function (option) cmp_rest :: "mem \<Rightarrow> addr \<Rightarrow> addr \<Rightarrow> u64 \<Rightarrow> int option" where
  "cmp_rest m p q n =
    (if n = 0 then Some 0
     else Option.bind (m p) (\<lambda>a. Option.bind (m q) (\<lambda>b. if a \<noteq> b then Some (sign_of (a, b)) else cmp_rest m (p + 1) (q + 1) (n - 1))))"

partial_function (option) xytherOs_memcmp :: "mem \<Rightarrow> addr \<Rightarrow> addr \<Rightarrow> u64 \<Rightarrow> int option" where
  "xytherOs_memcmp m p q n =
    (if n \<ge> 16
     then Option.bind (loadu m p) (\<lambda>v. Option.bind (loadu m q) (\<lambda>w.
       case (if eq_mask v w \<noteq> 0xFFFF then first_diff v w else None) of
         Some d \<Rightarrow> Some (sign_of d)
       | None \<Rightarrow> xytherOs_memcmp m (p + 16) (q + 16) (n - 16)))
     else cmp_rest m p q n)"

fun index_of :: "u8 \<Rightarrow> u8 list \<Rightarrow> nat option" where
  "index_of c [] = None"
| "index_of c (b # v) = (if b = c then Some 0 else map_option Suc (index_of c v))"

partial_function (option) chr_rest :: "u8 \<Rightarrow> mem \<Rightarrow> addr \<Rightarrow> u64 \<Rightarrow> addr option" where
  "chr_rest c m p n = (if n = 0 then Some NULL else Option.bind (m p) (\<lambda>b. if b = c then Some p else chr_rest c m (p + 1) (n - 1)))"

partial_function (option) xytherOs_memchr :: "mem \<Rightarrow> addr \<Rightarrow> u8 \<Rightarrow> u64 \<Rightarrow> addr option" where
  "xytherOs_memchr m p c n =
    (if n \<ge> 16
     then Option.bind (loadu m p) (\<lambda>v.
       case (if byte_mask c v \<noteq> 0 then index_of c v else None) of
         Some i \<Rightarrow> Some (p + of_nat i)
       | None \<Rightarrow> xytherOs_memchr m (p + 16) c (n - 16))
     else chr_rest c m p n)"

declare set_align.simps [code] set_vectors.simps [code] set_rest.simps [code] copy_align.simps [code] copy_vectors.simps [code] back_align.simps [code]
  back_vectors.simps [code] cmp_rest.simps [code] xytherOs_memcmp.simps [code] chr_rest.simps [code] xytherOs_memchr.simps [code]

section \<open>Length, comparison and search\<close>

text \<open>Bytes up to an address that is a multiple of sixteen, then vectors until one has a byte that counts.\<close>

partial_function (option) align16_scan :: "(u8 \<Rightarrow> bool) \<Rightarrow> mem \<Rightarrow> addr \<Rightarrow> (addr + addr) option" where
  "align16_scan stop m s =
    (if s AND 15 = 0 then Some (Inr s) else Option.bind (m s) (\<lambda>b. if stop b then Some (Inl s) else align16_scan stop m (s + 1)))"

partial_function (option) vector_scan :: "(u8 list \<Rightarrow> bool) \<Rightarrow> mem \<Rightarrow> addr \<Rightarrow> (addr \<times> u8 list) option" where
  "vector_scan stop m s = Option.bind (sse_load m s) (\<lambda>v. if stop v then Some (s, v) else vector_scan stop m (s + 16))"

definition xytherOs_strlen :: "mem \<Rightarrow> addr \<Rightarrow> u64 option" where
  "xytherOs_strlen m str = do {
     r \<leftarrow> align16_scan (\<lambda>b. b = 0) m str;
     case r of
       Inl s \<Rightarrow> Some (s - str)
     | Inr s \<Rightarrow> do { (s, v) \<leftarrow> vector_scan (\<lambda>v. byte_mask 0 v \<noteq> 0) m s; Some (s - str + of_nat (builtin_ctz (byte_mask 0 v))) } }"

definition xytherOs_strchr :: "mem \<Rightarrow> addr \<Rightarrow> u8 \<Rightarrow> addr option" where
  "xytherOs_strchr m str c = do {
     r \<leftarrow> align16_scan (\<lambda>b. b = c \<or> b = 0) m str;
     case r of
       Inl s \<Rightarrow> map_option (\<lambda>b. if b = c then s else NULL) (m s)
     | Inr s \<Rightarrow> do {
         (s, v) \<leftarrow> vector_scan (\<lambda>v. byte_mask c v \<noteq> 0 \<or> byte_mask 0 v \<noteq> 0) m s;
         Some (if byte_mask c v \<noteq> 0 then s + of_nat (builtin_ctz (byte_mask c v)) else NULL) } }"

definition xytherOs_lfind :: "mem \<Rightarrow> addr \<Rightarrow> u8 \<Rightarrow> addr option" where
  "xytherOs_lfind m str c = do {
     (s, v) \<leftarrow> vector_scan (\<lambda>v. byte_mask c v \<noteq> 0 \<or> byte_mask 0 v \<noteq> 0) m str;
     Some (if byte_mask c v \<noteq> 0 then s + of_nat (builtin_ctz (byte_mask c v)) else NULL) }"

partial_function (option) xytherOs_strrchr_loop :: "mem \<Rightarrow> addr \<Rightarrow> u8 \<Rightarrow> addr \<Rightarrow> addr option" where
  "xytherOs_strrchr_loop m str c lst =
    Option.bind (m str) (\<lambda>b. if b \<noteq> 0 then xytherOs_strrchr_loop m (str + 1) c (if b = c then str else lst) else Some lst)"

definition xytherOs_strrchr :: "mem \<Rightarrow> addr \<Rightarrow> u8 \<Rightarrow> addr option" where
  "xytherOs_strrchr m str c = xytherOs_strrchr_loop m str c NULL"

partial_function (option) rfind_loop :: "mem \<Rightarrow> addr \<Rightarrow> u8 \<Rightarrow> u64 \<Rightarrow> u64 \<Rightarrow> addr \<Rightarrow> addr option" where
  "rfind_loop m str c i n lst =
    (if i < n then Option.bind (m (str + i)) (\<lambda>b. rfind_loop m str c (i + 1) n (if b = c then str + i else lst)) else Some lst)"

definition xytherOs_rfind :: "mem \<Rightarrow> addr \<Rightarrow> int \<Rightarrow> addr option" where
  "xytherOs_rfind m str c = do {
     n \<leftarrow> xytherOs_strlen m str;
     if c = 0 then Some (str + n) else rfind_loop m str (word_of_int c) 0 n NULL }"

text \<open>The first bytes at which two vectors differ, or nothing when both end before; the loop over the sixteen bytes of \<^verbatim>\<open>xytherOs_strcmp\<close>.\<close>

fun cmp_in_vector :: "u8 list \<Rightarrow> u8 list \<Rightarrow> int option" where
  "cmp_in_vector (a # v) (b # w) = (if a \<noteq> b then Some (uint a - uint b) else if a = 0 then Some 0 else cmp_in_vector v w)"
| "cmp_in_vector _ _ = None"

partial_function (option) strcmp_vectors :: "mem \<Rightarrow> addr \<Rightarrow> addr \<Rightarrow> int option" where
  "strcmp_vectors m s1 s2 =
    Option.bind (loadu m s1) (\<lambda>v. Option.bind (loadu m s2) (\<lambda>w.
      case (if eq_mask v w \<noteq> 0xFFFF then cmp_in_vector v w else None) of Some d \<Rightarrow> Some d | None \<Rightarrow> strcmp_vectors m (s1 + 16) (s2 + 16)))"

partial_function (option) xytherOs_strcmp :: "mem \<Rightarrow> addr \<Rightarrow> addr \<Rightarrow> int option" where
  "xytherOs_strcmp m s1 s2 =
    (if s1 AND 15 \<noteq> 0 \<and> s2 AND 15 \<noteq> 0
     then Option.bind (m s1) (\<lambda>a. Option.bind (m s2) (\<lambda>b. if a \<noteq> b \<or> a = 0 then Some (uint a - uint b) else xytherOs_strcmp m (s1 + 1) (s2 + 1)))
     else strcmp_vectors m s1 s2)"

definition xytherOs_string_eq :: "mem \<Rightarrow> addr \<Rightarrow> addr \<Rightarrow> bool option" where
  "xytherOs_string_eq m s0 s1 = do {
     n0 \<leftarrow> xytherOs_strlen m s0;
     n1 \<leftarrow> xytherOs_strlen m s1;
     if n0 \<noteq> n1 then Some False else map_option (\<lambda>d. d = 0) (xytherOs_strcmp m s0 s1) }"

partial_function (option) strstr_loop :: "mem \<Rightarrow> addr \<Rightarrow> addr \<Rightarrow> u64 \<Rightarrow> addr option" where
  "strstr_loop m h n k =
    Option.bind (m h) (\<lambda>b. if b = 0 then Some NULL
      else Option.bind (xytherOs_memcmp m h n k) (\<lambda>d. if d = 0 then Some h else strstr_loop m (h + 1) n k))"

definition xytherOs_strstr :: "mem \<Rightarrow> addr \<Rightarrow> addr \<Rightarrow> addr option" where
  "xytherOs_strstr m h n = do { k \<leftarrow> xytherOs_strlen m n; if k = 0 then Some h else strstr_loop m h n k }"

text \<open>The bounded comparisons; \<open>f\<close> is the identity or the conversion of capital letters.\<close>

definition lower :: "u8 \<Rightarrow> u8" where "lower b = (if 65 \<le> b \<and> b \<le> 90 then b OR 0x20 else b)"

text \<open>The vector form compares signed bytes.\<close>

definition lower_vec :: "u8 list \<Rightarrow> u8 list" where
  "lower_vec v = map (\<lambda>b. if sint b > 64 \<and> sint b < 91 then b OR 0x20 else b) v"

fun cmp_upto :: "(u8 \<Rightarrow> u8) \<Rightarrow> u8 list \<Rightarrow> u8 list \<Rightarrow> int" where
  "cmp_upto f (a # v) (b # w) = (if f a \<noteq> f b then uint (f a) - uint (f b) else if f a = 0 then 0 else cmp_upto f v w)"
| "cmp_upto f _ _ = 0"

partial_function (option) ncmp_rest :: "(u8 \<Rightarrow> u8) \<Rightarrow> mem \<Rightarrow> addr \<Rightarrow> addr \<Rightarrow> u64 \<Rightarrow> int option" where
  "ncmp_rest f m s1 s2 n =
    (if n = 0 then Some 0
     else Option.bind (m s1) (\<lambda>a. Option.bind (m s2) (\<lambda>b.
       if f a \<noteq> f b then Some (uint (f a) - uint (f b)) else if f a = 0 then Some 0 else ncmp_rest f m (s1 + 1) (s2 + 1) (n - 1))))"

definition diff_at :: "u8 list \<Rightarrow> u8 list \<Rightarrow> int" where
  "diff_at v w = (let i = builtin_ctz (NOT (eq_mask v w)) in uint (v ! i) - uint (w ! i))"

partial_function (option) ncmp_vectors :: "(u8 list \<Rightarrow> u8 list) \<Rightarrow> (u8 \<Rightarrow> u8) \<Rightarrow> mem \<Rightarrow> addr \<Rightarrow> addr \<Rightarrow> u64 \<Rightarrow> int option" where
  "ncmp_vectors g f m s1 s2 n =
    (if n \<ge> 16
     then Option.bind (sse_load m s1) (\<lambda>v. Option.bind (sse_load m s2) (\<lambda>w.
       if eq_mask (g v) (g w) \<noteq> 0xFFFF then Some (diff_at (g v) (g w))
       else if byte_mask 0 (g v) \<noteq> 0 then Some (cmp_upto f v w)
       else ncmp_vectors g f m (s1 + 16) (s2 + 16) (n - 16)))
     else ncmp_rest f m s1 s2 n)"

definition xytherOs_strncmp :: "mem \<Rightarrow> addr \<Rightarrow> addr \<Rightarrow> u64 \<Rightarrow> int option" where
  "xytherOs_strncmp m s1 s2 n = ncmp_vectors (\<lambda>v. v) (\<lambda>b. b) m s1 s2 n"

definition xytherOs_strncasecmp :: "mem \<Rightarrow> addr \<Rightarrow> addr \<Rightarrow> u64 \<Rightarrow> int option" where
  "xytherOs_strncasecmp m s1 s2 n = (if n = 0 then Some 0 else ncmp_vectors lower_vec lower m s1 s2 n)"

fun casecmp_in_vector :: "u8 list \<Rightarrow> u8 list \<Rightarrow> int option" where
  "casecmp_in_vector (a # v) (b # w) =
    (if lower a \<noteq> lower b then Some (uint (lower a) - uint (lower b)) else if lower a = 0 then Some 0 else casecmp_in_vector v w)"
| "casecmp_in_vector _ _ = None"

partial_function (option) xytherOs_strcasecmp :: "mem \<Rightarrow> addr \<Rightarrow> addr \<Rightarrow> int option" where
  "xytherOs_strcasecmp m s1 s2 =
    Option.bind (sse_load m s1) (\<lambda>v. Option.bind (sse_load m s2) (\<lambda>w.
      if eq_mask (lower_vec v) (lower_vec w) \<noteq> 0xFFFF then Some (diff_at (lower_vec v) (lower_vec w))
      else case (if byte_mask 0 (lower_vec v) \<noteq> 0 then casecmp_in_vector v w else None) of
        Some d \<Rightarrow> Some d | None \<Rightarrow> xytherOs_strcasecmp m (s1 + 16) (s2 + 16)))"

declare align16_scan.simps [code] vector_scan.simps [code] xytherOs_strrchr_loop.simps [code] rfind_loop.simps [code] strcmp_vectors.simps [code] xytherOs_strcmp.simps [code]
  strstr_loop.simps [code] ncmp_rest.simps [code] ncmp_vectors.simps [code] xytherOs_strcasecmp.simps [code]

section \<open>Copying and joining strings\<close>

text \<open>\<^verbatim>\<open>zero_more\<close> is \<^verbatim>\<open>while (--n) *d++ = 0\<close>, \<^verbatim>\<open>zero_rest\<close> is \<^verbatim>\<open>while (n--) *d++ = 0\<close>.\<close>

partial_function (option) zero_rest :: "mem \<Rightarrow> addr \<Rightarrow> u64 \<Rightarrow> mem option" where
  "zero_rest m d n = (if n = 0 then Some m else Option.bind (st8 m d 0) (\<lambda>m. zero_rest m (d + 1) (n - 1)))"

definition zero_more :: "mem \<Rightarrow> addr \<Rightarrow> u64 \<Rightarrow> mem option" where "zero_more m d n = zero_rest m d (n - 1)"

text \<open>The loops of \<^verbatim>\<open>xytherOs_strncpy\<close> return the memory, and where they stopped unless the function returns there.\<close>

partial_function (option) ncpy_align :: "mem \<Rightarrow> addr \<Rightarrow> addr \<Rightarrow> u64 \<Rightarrow> (mem \<times> (addr \<times> addr \<times> u64) option) option" where
  "ncpy_align m d s n =
    (if n \<noteq> 0 \<and> s AND 15 \<noteq> 0
     then Option.bind (m s) (\<lambda>b. Option.bind (st8 m d b) (\<lambda>m.
       if b = 0 then map_option (\<lambda>m. (m, None)) (zero_more m (d + 1) n) else ncpy_align m (d + 1) (s + 1) (n - 1)))
     else Some (m, Some (d, s, n)))"

text \<open>Zeroes go to the positions from \<open>i\<close> on in the last vector only.\<close>

partial_function (option) zero_vector :: "mem \<Rightarrow> addr \<Rightarrow> u64 \<Rightarrow> u64 \<Rightarrow> mem option" where
  "zero_vector m d i n = (if i < 16 \<and> n \<noteq> 0 then Option.bind (st8 m (d + i) 0) (\<lambda>m. zero_vector m d (i + 1) (n - 1)) else Some m)"

partial_function (option) ncpy_vectors :: "mem \<Rightarrow> addr \<Rightarrow> addr \<Rightarrow> u64 \<Rightarrow> (mem \<times> (addr \<times> addr \<times> u64) option) option" where
  "ncpy_vectors m d s n =
    (if n \<ge> 16
     then Option.bind (loadu m s) (\<lambda>v. Option.bind (storeu m d v) (\<lambda>m.
       if byte_mask 0 v \<noteq> 0 then map_option (\<lambda>m. (m, None)) (zero_vector m d (of_nat (builtin_ctz (byte_mask 0 v))) n)
       else ncpy_vectors m (d + 16) (s + 16) (n - 16)))
     else Some (m, Some (d, s, n)))"

partial_function (option) ncpy_rest :: "mem \<Rightarrow> addr \<Rightarrow> addr \<Rightarrow> u64 \<Rightarrow> mem option" where
  "ncpy_rest m d s n =
    (if n = 0 then Some m
     else Option.bind (m s) (\<lambda>b. Option.bind (st8 m d b) (\<lambda>m. if b = 0 then zero_rest m (d + 1) (n - 1) else ncpy_rest m (d + 1) (s + 1) (n - 1))))"

definition xytherOs_strncpy :: "mem \<Rightarrow> addr \<Rightarrow> addr \<Rightarrow> u64 \<Rightarrow> (addr \<times> mem) option" where
  "xytherOs_strncpy m dest src n = do {
     (m, r) \<leftarrow> ncpy_align m dest src n;
     case r of
       None \<Rightarrow> Some (dest, m)
     | Some (d, s, n) \<Rightarrow> do {
         (m, r) \<leftarrow> ncpy_vectors m d s n;
         case r of None \<Rightarrow> Some (dest, m) | Some (d, s, n) \<Rightarrow> map_option (\<lambda>m. (dest, m)) (ncpy_rest m d s n) } }"

partial_function (option) cpy_align :: "mem \<Rightarrow> addr \<Rightarrow> addr \<Rightarrow> (mem \<times> (addr \<times> addr) option) option" where
  "cpy_align m d s =
    (if s AND 15 \<noteq> 0
     then Option.bind (m s) (\<lambda>b. Option.bind (st8 m d b) (\<lambda>m. if b = 0 then Some (m, None) else cpy_align m (d + 1) (s + 1)))
     else Some (m, Some (d, s)))"

partial_function (option) cpy_vectors :: "mem \<Rightarrow> addr \<Rightarrow> addr \<Rightarrow> mem option" where
  "cpy_vectors m d s =
    Option.bind (loadu m s) (\<lambda>v. Option.bind (storeu m d v) (\<lambda>m. if byte_mask 0 v \<noteq> 0 then Some m else cpy_vectors m (d + 16) (s + 16)))"

definition xytherOs_strcpy :: "mem \<Rightarrow> addr \<Rightarrow> addr \<Rightarrow> (addr \<times> mem) option" where
  "xytherOs_strcpy m dest src = do {
     (m, r) \<leftarrow> cpy_align m dest src;
     case r of None \<Rightarrow> Some (dest, m) | Some (d, s) \<Rightarrow> map_option (\<lambda>m. (dest, m)) (cpy_vectors m d s) }"

partial_function (option) safe_bytes :: "mem \<Rightarrow> addr \<Rightarrow> addr \<Rightarrow> u64 \<Rightarrow> u64 \<Rightarrow> mem option" where
  "safe_bytes m d s i n =
    (if i < n - 1
     then Option.bind (m (s + i)) (\<lambda>b. Option.bind (st8 m (d + i) b) (\<lambda>m. if b = 0 then Some m else safe_bytes m d s (i + 1) n))
     else st8 m (d + (n - 1)) 0)"

partial_function (option) safe_vectors :: "mem \<Rightarrow> addr \<Rightarrow> addr \<Rightarrow> u64 \<Rightarrow> u64 \<Rightarrow> mem option" where
  "safe_vectors m d s i n =
    (if n - i \<ge> 16
     then Option.bind (sse_load m (s + i)) (\<lambda>v.
       if byte_mask 0 v \<noteq> 0
       then Option.bind (memcpy m (d + i) (s + i) (of_nat (builtin_ctz (byte_mask 0 v)))) (\<lambda>(_, m). st8 m (d + (n - 1)) 0)
       else Option.bind (sse_store m (d + i) v) (\<lambda>m. safe_vectors m d s (i + 16) n))
     else safe_bytes m d s i n)"

definition xytherOs_safestrncpy :: "mem \<Rightarrow> addr \<Rightarrow> addr \<Rightarrow> u64 \<Rightarrow> (addr \<times> mem) option" where
  "xytherOs_safestrncpy m dest src n = (if n = 0 then Some (dest, m) else map_option (\<lambda>m. (dest, m)) (safe_vectors m dest src 0 n))"

text \<open>The end of a string by vectors, and the loop that copies a string by vectors; \<^verbatim>\<open>xytherOs_strcat\<close> and \<^verbatim>\<open>xytherOs_strdup\<close> share it.\<close>

definition vector_end :: "mem \<Rightarrow> addr \<Rightarrow> addr option" where
  "vector_end m d = map_option (\<lambda>(s, v). s + of_nat (builtin_ctz (byte_mask 0 v))) (vector_scan (\<lambda>v. byte_mask 0 v \<noteq> 0) m d)"

partial_function (option) cat_vectors :: "mem \<Rightarrow> addr \<Rightarrow> addr \<Rightarrow> mem option" where
  "cat_vectors m d s =
    Option.bind (sse_load m s) (\<lambda>v.
      if byte_mask 0 v \<noteq> 0
      then let k = of_nat (builtin_ctz (byte_mask 0 v)) in Option.bind (memcpy m d s k) (\<lambda>(_, m). st8 m (d + k) 0)
      else Option.bind (sse_store m d v) (\<lambda>m. cat_vectors m (d + 16) (s + 16)))"

definition xytherOs_strcat :: "mem \<Rightarrow> addr \<Rightarrow> addr \<Rightarrow> (addr \<times> mem) option" where
  "xytherOs_strcat m dest src = do { d \<leftarrow> vector_end m dest; m \<leftarrow> cat_vectors m d src; Some (dest, m) }"

text \<open>The search for a zero byte before the last copy of \<^verbatim>\<open>xytherOs_strncat\<close> finds none: the mask of the whole vector is zero there.\<close>

partial_function (option) ncat_vectors :: "mem \<Rightarrow> addr \<Rightarrow> addr \<Rightarrow> u64 \<Rightarrow> u64 \<Rightarrow> (addr \<times> mem) option" where
  "ncat_vectors m d s cnt n =
    (if cnt < n
     then Option.bind (sse_load m s) (\<lambda>v.
       if byte_mask 0 v \<noteq> 0
       then let pos = of_nat (builtin_ctz (byte_mask 0 v)); k = (if n - cnt < pos then n - cnt else pos) in
         map_option (\<lambda>(_, m). (d + k, m)) (memcpy m d s k)
       else if n - cnt \<ge> 16 then Option.bind (sse_store m d v) (\<lambda>m. ncat_vectors m (d + 16) (s + 16) (cnt + 16) n)
       else map_option (\<lambda>(_, m). (d + (n - cnt), m)) (memcpy m d s (n - cnt)))
     else Some (d, m))"

definition xytherOs_strncat :: "mem \<Rightarrow> addr \<Rightarrow> addr \<Rightarrow> u64 \<Rightarrow> (addr \<times> mem) option" where
  "xytherOs_strncat m dest src n = do { d \<leftarrow> vector_end m dest; (d, m) \<leftarrow> ncat_vectors m d src 0 n; m \<leftarrow> st8 m d 0; Some (dest, m) }"

definition xytherOs_strdup :: "mem \<Rightarrow> addr \<Rightarrow> addr \<Rightarrow> (addr \<times> mem) option" where
  "xytherOs_strdup m s dup = do {
     len \<leftarrow> xytherOs_strlen m s;
     if dup = NULL then Some (NULL, m) else map_option (\<lambda>m. (dup, m)) (cat_vectors m dup s) }"

definition xytherOs_combine_strings :: "mem \<Rightarrow> addr \<Rightarrow> addr \<Rightarrow> addr \<Rightarrow> (addr \<times> mem) option" where
  "xytherOs_combine_strings m s0 s1 res = combine_strings m s0 s1 res"

section \<open>Tokens\<close>

definition delim_mask :: "u8 list \<Rightarrow> u8 list \<Rightarrow> u32" where
  "delim_mask ds v = foldl (\<lambda>w d. w OR byte_mask d v) 0 ds"

definition low_mask :: "nat \<Rightarrow> u32" where "low_mask k = push_bit k 1 - 1"

partial_function (option) sse_skip_delim :: "mem \<Rightarrow> u8 list \<Rightarrow> addr \<Rightarrow> addr option" where
  "sse_skip_delim m ds s =
    Option.bind (sse_load m s) (\<lambda>v.
      let nul = byte_mask 0 v; dmask = delim_mask ds v in
      if nul \<noteq> 0
      then let valid = builtin_ctz nul in
        if dmask AND low_mask valid = low_mask valid then Some (s + of_nat valid)
        else Some (s + of_nat (builtin_ctz (NOT (dmask AND low_mask valid))))
      else if dmask = 0xFFFF then sse_skip_delim m ds (s + 16)
      else Some (s + of_nat (builtin_ctz (NOT dmask))))"

partial_function (option) sse_find_delim :: "mem \<Rightarrow> u8 list \<Rightarrow> addr \<Rightarrow> addr option" where
  "sse_find_delim m ds s =
    Option.bind (sse_load m s) (\<lambda>v.
      let nul = byte_mask 0 v; dmask = delim_mask ds v in
      if nul \<noteq> 0
      then let valid = builtin_ctz nul; w = dmask AND low_mask valid in
        Some (s + of_nat (if w \<noteq> 0 then builtin_ctz w else valid))
      else if dmask \<noteq> 0 then Some (s + of_nat (builtin_ctz dmask))
      else sse_find_delim m ds (s + 16))"

partial_function (option) scan_delim :: "bool \<Rightarrow> mem \<Rightarrow> addr \<Rightarrow> addr \<Rightarrow> addr option" where
  "scan_delim skip m delim s =
    Option.bind (m s) (\<lambda>b.
      if b = 0 then Some s
      else Option.bind (xytherOs_strchr m delim b) (\<lambda>r. if (r \<noteq> NULL) = skip then scan_delim skip m delim (s + 1) else Some s))"

text \<open>Both branches of \<^verbatim>\<open>xytherOs_strtok_r\<close> end the same way: the token is terminated unless it ends the string.\<close>

definition cut_token :: "mem \<Rightarrow> addr \<Rightarrow> addr \<Rightarrow> (addr \<times> addr \<times> mem) option" where
  "cut_token m token e = do {
     b \<leftarrow> m e;
     if b \<noteq> 0 then do { m \<leftarrow> st8 m e 0; Some (token, e + 1, m) } else Some (token, e, m) }"

definition xytherOs_strtok_r :: "mem \<Rightarrow> addr \<Rightarrow> addr \<Rightarrow> addr \<Rightarrow> (addr \<times> addr \<times> mem) option" where
  "xytherOs_strtok_r m s delim saveptr = do {
     c0 \<leftarrow> (if delim = NULL then Some 0 else m delim);
     if c0 = 0
     then if s = NULL then Some (NULL, NULL, m) else map_option (\<lambda>n. (s, s + n, m)) (strlen m s)
     else do {
       let s = (if s = NULL then saveptr else s);
       n \<leftarrow> strlen m delim;
       let dlen = sint (ucast n :: u32);
       if dlen > 0 \<and> dlen \<le> 16
       then do {
         ds \<leftarrow> load_bytes m delim (nat dlen);
         s \<leftarrow> sse_skip_delim m ds s;
         b \<leftarrow> m s;
         if b = 0 then Some (NULL, s, m) else do { e \<leftarrow> sse_find_delim m ds s; cut_token m s e } }
       else do {
         s \<leftarrow> scan_delim True m delim s;
         b \<leftarrow> m s;
         if b = 0 then Some (NULL, s, m) else do { e \<leftarrow> scan_delim False m delim s; cut_token m s e } } } }"

definition xytherOs_strtok :: "mem \<Rightarrow> addr \<Rightarrow> addr \<Rightarrow> addr \<Rightarrow> (addr \<times> addr \<times> mem) option" where
  "xytherOs_strtok m s delim static_last = xytherOs_strtok_r m s delim static_last"

declare zero_rest.simps [code] ncpy_align.simps [code] zero_vector.simps [code] ncpy_vectors.simps [code] ncpy_rest.simps [code] cpy_align.simps [code] cpy_vectors.simps [code]
  safe_bytes.simps [code] safe_vectors.simps [code] cat_vectors.simps [code] ncat_vectors.simps [code] sse_skip_delim.simps [code] sse_find_delim.simps [code] scan_delim.simps [code]

end
