(* ===== verification/Sse_Proofs.thy ===== *)
theory Sse_Proofs
  imports Sse_Strings Strings_Proofs
begin

text \<open>The vector functions compute what the functions of \<^verbatim>\<open>lib/string.c\<close> compute, with two exceptions.\<close>

section \<open>Masks\<close>

lemma movemask_Cons: "movemask (b # bs) = of_bool b OR push_bit 1 (movemask bs)"
  by (simp add: movemask_def)

lemma bit_movemask: "length bs \<le> 32 \<Longrightarrow> bit (movemask bs) n \<longleftrightarrow> n < length bs \<and> bs ! n"
proof (induction bs arbitrary: n)
  case (Cons b bs)
  have "bit (movemask (b # bs)) n \<longleftrightarrow> b \<and> n = 0 \<or> n \<ge> 1 \<and> n < 32 \<and> bit (movemask bs) (n - 1)"
    unfolding movemask_Cons bit_or_iff bit_push_bit_iff bit_of_bool_iff by auto
  moreover have "bit (movemask bs) (n - 1) \<longleftrightarrow> n - 1 < length bs \<and> bs ! (n - 1)" using Cons.IH Cons.prems by simp
  moreover have "n < 32" if "n - 1 < length bs" using that Cons.prems by simp
  ultimately show ?case by (cases n) (simp_all, blast)
qed (simp add: movemask_def)

lemma movemask_0: "length bs \<le> 32 \<Longrightarrow> movemask bs = 0 \<longleftrightarrow> True \<notin> set bs"
proof -
  assume l: "length bs \<le> 32"
  have "movemask bs = 0 \<longleftrightarrow> (\<forall>n. \<not> bit (movemask bs) n)" by (auto intro: bit_word_eqI)
  then show ?thesis unfolding bit_movemask [OF l] by (auto simp: in_set_conv_nth)
qed

lemma ctz_movemask:
  assumes "length bs \<le> 32" "True \<in> set bs"
  shows "builtin_ctz (movemask bs) = length (takeWhile Not bs)"
proof -
  let ?n = "length (takeWhile Not bs)"
  have "?n < length bs" using assms(2) by (induction bs) auto
  then have "bit (movemask bs) ?n" "\<And>i. i < ?n \<Longrightarrow> \<not> bit (movemask bs) i"
    unfolding bit_movemask [OF assms(1)] using nth_length_takeWhile [of Not bs] by (simp, metis nth_mem set_takeWhileD takeWhile_nth)
  moreover have "movemask bs \<noteq> 0" using movemask_0 [OF assms(1)] assms(2) by simp
  ultimately show ?thesis using ctz_least [of "movemask bs"] by (meson linorder_neqE_nat)
qed

lemma byte_mask_0: "length v = 16 \<Longrightarrow> byte_mask c v \<noteq> 0 \<longleftrightarrow> c \<in> set v"
  using movemask_0 [of "map (\<lambda>b. b = c) v"] by (auto simp: byte_mask_def)

lemma ctz_byte_mask: "length v = 16 \<Longrightarrow> c \<in> set v \<Longrightarrow> builtin_ctz (byte_mask c v) = before c v"
  using ctz_movemask [of "map (\<lambda>b. b = c) v"] by (auto simp: byte_mask_def before_def takeWhile_map comp_def)

lemma eq_mask_all:
  assumes "length v = 16" "length w = 16"
  shows "eq_mask v w = 0xFFFF \<longleftrightarrow> v = w"
proof -
  let ?bs = "map2 (=) v w"
  have l: "length ?bs \<le> 32" "length ?bs = 16" using assms by simp_all
  have nth: "?bs ! n = (v ! n = w ! n)" if "n < 16" for n using that assms by simp
  have m: "bit (0xFFFF :: u32) n \<longleftrightarrow> n < 16" for n
  proof -
    have "(0xFFFF :: u32) = mask 16" by code_simp
    then show ?thesis unfolding \<open>0xFFFF = mask 16\<close> bit_mask_iff by auto
  qed
  have "eq_mask v w = 0xFFFF \<longleftrightarrow> (\<forall>n. bit (movemask ?bs) n \<longleftrightarrow> n < 16)"
  proof
    assume "eq_mask v w = 0xFFFF"
    then show "\<forall>n. bit (movemask ?bs) n \<longleftrightarrow> n < 16" unfolding eq_mask_def by (simp only: m simp_thms)
  next
    assume "\<forall>n. bit (movemask ?bs) n \<longleftrightarrow> n < 16"
    then show "eq_mask v w = 0xFFFF" unfolding eq_mask_def by (intro bit_word_eqI) (simp only: m)
  qed
  also have "\<dots> \<longleftrightarrow> (\<forall>n < 16. v ! n = w ! n)" unfolding bit_movemask [OF l(1)] l(2) using nth by blast
  finally show ?thesis using assms by (simp add: list_eq_iff_nth_eq)
qed

section \<open>Copying\<close>

lemma copy_vector:
  assumes "mapped m s 16" "mapped m d 16" "d AND 15 = 0"
  shows "Option.bind (loadu m s) (\<lambda>v. Option.bind (store_aligned m d v) f) = f (copied m d s 16)"
proof -
  obtain bs where bs: "load_bytes m s 16 = Some bs" using assms(1) by (auto simp: load_bytes_mapped)
  then show ?thesis using copy_bytes [OF bs assms(2)] assms(3) by (simp add: loadu_def store_aligned_def)
qed

lemma aligned16_iff: "a AND 15 = (0 :: u64) \<longleftrightarrow> unat a mod 16 = 0"
proof -
  have "a AND 15 = a mod 16" by (simp add: take_bit_eq_mask mask_eq_exp_minus_1 flip: take_bit_eq_mod [of 4 a, simplified])
  then have "unat (a AND 15) = unat a mod 16" by (simp add: unat_mod)
  then show ?thesis by (metis unat_eq_0)
qed

lemma aligned16_add: "a AND 15 = 0 \<Longrightarrow> (a + 16) AND 15 = (0 :: u64)"
proof -
  have "(unat a + 16) mod 2 ^ 64 mod 16 = (unat a + 16) mod 16" by (rule mod_mod_cancel) simp
  then show "a AND 15 = 0 \<Longrightarrow> (a + 16) AND 15 = 0" unfolding aligned16_iff by (simp add: unat_word_ariths)
qed

lemma aligned16_sub: "a AND 15 = 0 \<Longrightarrow> (a - 16) AND 15 = (0 :: u64)"
  unfolding aligned16_iff unat_diff [of a] by simp presburger

lemma copy_align_copied:
  "fwd_ok m d s (unat n) \<Longrightarrow> \<exists>k\<le>unat n. copy_align m d s n = Some (copied m d s k, d + of_nat k, s + of_nat k, n - of_nat k) \<and>
     ((d + of_nat k) AND 15 = 0 \<or> k = unat n)"
proof (induction "unat n" arbitrary: m d s n)
  case 0
  then show ?case by (subst copy_align.simps) (auto simp: unat_eq_0)
next
  case (Suc k)
  show ?case
  proof (cases "d AND 15 = 0")
    case True
    then show ?thesis by (subst copy_align.simps) (auto intro!: exI [of _ 0])
  next
    case False
    have n: "n \<noteq> 0" "unat (n - 1) = k" using Suc.hyps(2) unat_minus_of_nat [of 1 n] by auto
    have ok: "fwd_ok m d s (1 + k)" using Suc.prems Suc.hyps(2) by simp
    have step: "copy_align m d s n = copy_align (copied m d s 1) (d + 1) (s + 1) (n - 1)"
      using False n(1) copy_one [OF fwd_ok_step(1,2) [OF ok]] by (subst copy_align.simps) simp
    obtain j where j: "j \<le> k" "copy_align m d s n = Some (copied (copied m d s 1) (d + 1) (s + 1) j, d + 1 + of_nat j, s + 1 + of_nat j, n - 1 - of_nat j)"
      "(d + 1 + of_nat j) AND 15 = 0 \<or> j = k"
      using Suc.hyps(1) [of "n - 1" "copied m d s 1" "d + 1" "s + 1"] n(2) fwd_ok_step(3) [OF ok] unfolding step by auto
    have "fwd_ok m d s (1 + j)" using fwd_ok_le [OF ok] j(1) by simp
    from fwd_ok_step(4) [OF this] j show ?thesis using Suc.hyps(2) by (intro exI [of _ "Suc j"]) (auto simp: algebra_simps)
  qed
qed

lemma copy_vectors_copied:
  "fwd_ok m d s (unat n) \<Longrightarrow> d AND 15 = 0 \<or> n < 16 \<Longrightarrow>
    \<exists>k\<le>unat n. copy_vectors m d s n = Some (copied m d s k, d + of_nat k, s + of_nat k, n - of_nat k)"
proof (induction "unat n" arbitrary: m d s n rule: less_induct)
  case less
  show ?case
  proof (cases "16 \<le> n")
    case False
    then show ?thesis by (subst copy_vectors.simps) (auto intro!: exI [of _ 0])
  next
    case True
    then have n: "16 \<le> unat n" "unat (n - 16) = unat n - 16" using unat_minus_of_nat [of 16 n] by (simp_all add: word_le_nat_alt)
    then have ok: "fwd_ok m d s (16 + (unat n - 16))" using less.prems by simp
    have d: "d AND 15 = 0" using less.prems(2) True by (auto simp: not_le)
    have step: "copy_vectors m d s n = copy_vectors (copied m d s 16) (d + 16) (s + 16) (n - 16)"
      using True copy_vector [OF fwd_ok_step(1,2) [OF ok] d] by (subst copy_vectors.simps) simp
    obtain j where j: "j \<le> unat n - 16" "copy_vectors m d s n = Some (copied (copied m d s 16) (d + 16) (s + 16) j, d + 16 + of_nat j, s + 16 + of_nat j, n - 16 - of_nat j)"
      using less.hyps [of "n - 16" "copied m d s 16" "d + 16" "s + 16"] n aligned16_add [OF d] fwd_ok_step(3) [OF ok] unfolding step by auto
    have "fwd_ok m d s (16 + j)" using fwd_ok_le [OF ok] j(1) by simp
    from fwd_ok_step(4) [OF this] j show ?thesis using n by (intro exI [of _ "16 + j"]) (auto simp: algebra_simps)
  qed
qed

lemma xytherOs_memcpy_copied:
  assumes "fwd_ok m d s (unat n)"
  shows "xytherOs_memcpy m d s n = Some (d, copied m d s (unat n))"
proof -
  obtain k where k: "k \<le> unat n" "copy_align m d s n = Some (copied m d s k, d + of_nat k, s + of_nat k, n - of_nat k)" "(d + of_nat k) AND 15 = 0 \<or> k = unat n"
    using copy_align_copied [OF assms] by blast
  have "fwd_ok m d s (k + (unat n - k))" using assms k(1) by simp
  note a = fwd_ok_step(3,4) [OF this]
  let ?n = "n - of_nat k" and ?m = "copied m d s k" and ?d = "d + of_nat k" and ?s = "s + of_nat k"
  have un: "unat ?n = unat n - k" by (rule unat_minus_of_nat [OF k(1)])
  have "?d AND 15 = 0 \<or> ?n < 16" using k(3) un by (auto simp: word_less_nat_alt)
  then obtain j where j: "j \<le> unat n - k" "copy_vectors ?m ?d ?s ?n = Some (copied ?m ?d ?s j, ?d + of_nat j, ?s + of_nat j, ?n - of_nat j)"
    using copy_vectors_copied [of ?m ?d ?s ?n] a(1) un by auto
  have "fwd_ok ?m ?d ?s (j + (unat n - k - j))" using a(1) le_add_diff_inverse [OF j(1)] by simp
  note b = fwd_ok_step(3,4) [OF this]
  have "unat (?n - of_nat j) = unat n - k - j" using unat_minus_of_nat [of j ?n] j(1) un by simp
  then have "fwd_bytes (copied ?m ?d ?s j) (?d + of_nat j) (?s + of_nat j) (?n - of_nat j) = Some (copied m d s (unat n))"
    using fwd_bytes_copied [of "copied ?m ?d ?s j"] a(2) b j(1) k(1) by simp
  then show ?thesis using k(2) j(2) by (simp add: xytherOs_memcpy_def)
qed

lemma back_align_copied:
  "bwd_ok m d s (unat n) \<Longrightarrow> \<exists>i\<le>unat n. back_align m d s n = Some (copied m (d + of_nat i) (s + of_nat i) (unat n - i), of_nat i) \<and>
     ((d + of_nat i) AND 15 = 0 \<or> i = 0)"
proof (induction "unat n" arbitrary: m n)
  case 0
  then show ?case by (subst back_align.simps) (auto simp: unat_eq_0)
next
  case (Suc k)
  show ?case
  proof (cases "(d + n) AND 15 = 0")
    case True
    then show ?thesis by (subst back_align.simps) (auto intro!: exI [of _ "unat n"])
  next
    case False
    have n: "n \<noteq> 0" "unat (n - 1) = k" "n - 1 = of_nat k" using Suc.hyps(2) count_down [of n k 1] by auto
    have ok: "bwd_ok m d s (k + 1)" using Suc.prems Suc.hyps(2) by simp
    have step: "back_align m d s n = back_align (copied m (d + of_nat k) (s + of_nat k) 1) d s (n - 1)"
      using False n(1) copy_one [OF bwd_ok_step(1,2) [OF ok]] unfolding n(3) [symmetric] by (subst back_align.simps) simp
    obtain i where i: "i \<le> k" "(d + of_nat i) AND 15 = 0 \<or> i = 0"
      "back_align m d s n = Some (copied (copied m (d + of_nat k) (s + of_nat k) 1) (d + of_nat i) (s + of_nat i) (k - i), of_nat i)"
      using Suc.hyps(1) [of "n - 1" "copied m (d + of_nat k) (s + of_nat k) 1"] n(2) bwd_ok_step(3) [OF ok] unfolding step by auto
    from bwd_extend [OF ok i(1)] i Suc.hyps(2) show ?thesis by (intro exI [of _ i]) simp
  qed
qed

lemma back_vectors_copied:
  "bwd_ok m d s (unat n) \<Longrightarrow> (d + n) AND 15 = 0 \<or> n < 16 \<Longrightarrow>
    \<exists>i\<le>unat n. back_vectors m d s n = Some (copied m (d + of_nat i) (s + of_nat i) (unat n - i), of_nat i)"
proof (induction "unat n" arbitrary: m n rule: less_induct)
  case less
  show ?case
  proof (cases "16 \<le> n")
    case False
    then show ?thesis by (subst back_vectors.simps) (auto intro!: exI [of _ "unat n"])
  next
    case True
    then have "16 \<le> unat n" by (simp add: word_le_nat_alt)
    then obtain k where k: "unat n = k + 16" by (metis add.commute le_add_diff_inverse)
    have n: "unat (n - 16) = k" "n - 16 = of_nat k" using count_down [OF k] by simp_all
    have ok: "bwd_ok m d s (k + 16)" using less.prems k by simp
    have "(d + n) AND 15 = 0" using less.prems(2) True by (auto simp: not_le)
    from aligned16_sub [OF this] have d: "(d + of_nat k) AND 15 = 0" unfolding n(2) [symmetric] by (simp add: algebra_simps)
    have step: "back_vectors m d s n = back_vectors (copied m (d + of_nat k) (s + of_nat k) 16) d s (n - 16)"
      using True copy_vector [OF bwd_ok_step(1,2) [OF ok] d] unfolding n(2) [symmetric] by (subst back_vectors.simps) simp
    obtain i where i: "i \<le> k" "back_vectors m d s n = Some (copied (copied m (d + of_nat k) (s + of_nat k) 16) (d + of_nat i) (s + of_nat i) (k - i), of_nat i)"
      using less.hyps [of "n - 16" "copied m (d + of_nat k) (s + of_nat k) 16"] n d k bwd_ok_step(3) [OF ok] unfolding step by auto
    from bwd_extend [OF ok i(1)] i k show ?thesis by (intro exI [of _ i]) simp
  qed
qed

lemma back_copied:
  assumes "bwd_ok m d s (unat n)"
  shows "Option.bind (back_align m d s n) (\<lambda>(m, n). Option.bind (back_vectors m d s n) (\<lambda>(m, n). bwd_bytes m d s n)) = Some (copied m d s (unat n))"
proof -
  obtain k where k: "k \<le> unat n" "back_align m d s n = Some (copied m (d + of_nat k) (s + of_nat k) (unat n - k), of_nat k)" "(d + of_nat k) AND 15 = 0 \<or> k = 0"
    using back_align_copied [OF assms] by auto
  let ?m = "copied m (d + of_nat k) (s + of_nat k) (unat n - k)"
  have "bwd_ok m d s (k + (unat n - k))" using assms k(1) by simp
  note a = bwd_ok_step(3,4) [OF this]
  have uk: "unat (of_nat k :: u64) = k" using k(1) unat_lt64 [of n] by simp
  obtain i where i: "i \<le> k" "back_vectors ?m d s (of_nat k) = Some (copied ?m (d + of_nat i) (s + of_nat i) (k - i), of_nat i)"
    using back_vectors_copied [of ?m d s "of_nat k"] a(1) uk k(3) by auto
  have "bwd_ok ?m d s (i + (k - i))" using a(1) i(1) by simp
  note b = bwd_ok_step(3,4) [OF this]
  have "unat (of_nat i :: u64) = i" using i(1) k(1) unat_lt64 [of n] by simp
  then show ?thesis using k(1,2) i bwd_bytes_copied [of "copied ?m (d + of_nat i) (s + of_nat i) (k - i)" d s "of_nat i"] a(2) b by simp
qed

text \<open>C32: On mapped regions that do not reach the end of the address space \<^verbatim>\<open>xytherOs_memmove\<close>, which copies sixteen bytes at a time in one of two directions, does what \<^verbatim>\<open>memmove\<close> does, and its aligned
  stores never fault.
\<close>

theorem xytherOs_memmove_same:
  assumes "mapped m s (unat n)" "mapped m d (unat n)" "unat s + unat n < 2 ^ 64" "unat d + unat n < 2 ^ 64"
  shows "xytherOs_memmove m d s n = memmove m d s n"
proof -
  consider "d = s" | "d < s" | "s < d" by (metis linorder_neqE)
  then have "xytherOs_memmove m d s n = Some (d, copied m d s (unat n))"
  proof cases
    case 1
    have "copied m s s (unat n) = m" by (auto simp: copied_def)
    then show ?thesis using 1 by (simp add: xytherOs_memmove_def)
  next
    case 2
    then have "fwd_ok m d s (unat n)" using assms unat_diff [of s d] by (simp add: fwd_ok_def word_less_nat_alt)
    then show ?thesis using 2 by (simp add: xytherOs_memmove_def xytherOs_memcpy_copied)
  next
    case 3
    then have "bwd_ok m d s (unat n)" using assms unat_diff [of d s] by (simp add: bwd_ok_def word_less_nat_alt)
    from back_copied [OF this] 3 show ?thesis by (auto simp: xytherOs_memmove_def bind_eq_Some_conv split: prod.splits)
  qed
  then show ?thesis using memmove_copied [OF assms] by simp
qed

theorem xytherOs_memmove_same_witness:
  "xytherOs_memmove (block 0x1000 sample_bytes) 0x1004 0x1003 13 = memmove (block 0x1000 sample_bytes) 0x1004 0x1003 13"
proof -
  have "mapped (block 0x1000 sample_bytes) 0x1003 (unat (13 :: u64))" "mapped (block 0x1000 sample_bytes) 0x1004 (unat (13 :: u64))" by code_simp+
  from xytherOs_memmove_same [OF this] show ?thesis by simp
qed

section \<open>Searching and comparing blocks\<close>

lemma index_of_before: "index_of c v = (if c \<in> set v then Some (before c v) else None)"
  by (induction v) auto

lemma chr_rest_first: "load_bytes m a (unat n) = Some bs \<Longrightarrow> chr_rest c m a n = Some (if c \<in> set bs then a + of_nat (before c bs) else NULL)"
proof (induction bs arbitrary: a n)
  case Nil
  then have "n = 0" by (simp add: load_bytes_Some unat_eq_0)
  then show ?case by (subst chr_rest.simps) simp
next
  case (Cons b bs)
  then have n: "unat n = length bs + 1" by (simp add: load_bytes_Some)
  then have "n \<noteq> 0" by auto
  moreover have "m a = Some b" "load_bytes m (a + 1) (unat (n - 1)) = Some bs"
    using Cons.prems load_bytes_Suc [of m a "length bs"] count_down [OF n] n by auto
  ultimately show ?case using Cons.IH by (subst chr_rest.simps) (auto simp: algebra_simps)
qed

text \<open>A block of at least sixteen bytes is a vector and a shorter block.\<close>

lemma load_vector:
  assumes "load_bytes m a (unat (n :: u64)) = Some bs" "16 \<le> n"
  shows "loadu m a = Some (take 16 bs)" "load_bytes m (a + 16) (unat (n - 16)) = Some (drop 16 bs)" "length (take 16 bs) = 16" "unat (n - 16) < unat n"
proof -
  have n: "16 \<le> unat n" using assms(2) by (simp add: word_le_nat_alt)
  have len: "length bs = unat n" using assms(1) by (simp add: load_bytes_Some)
  show "length (take 16 bs) = 16" using n len by simp
  show "unat (n - 16) < unat n" using n unat_minus_of_nat [of 16 n] by simp
  show "load_bytes m (a + 16) (unat (n - 16)) = Some (drop 16 bs)" using load_bytes_drop [OF assms(1), of 16] n len by simp
  show "loadu m a = Some (take 16 bs)" using assms(1) load_bytes_add [of m a 16 "unat n - 16" bs] n by (simp add: loadu_def)
qed

text \<open>\<^verbatim>\<open>xytherOs_memchr\<close>, which compares sixteen bytes at a time, returns what \<^verbatim>\<open>memchr\<close> returns.\<close>

theorem xytherOs_memchr_same:
  assumes "load_bytes m a (unat n) = Some bs"
  shows "xytherOs_memchr m a c n = memchr m a c n"
proof -
  have "xytherOs_memchr m a c n = Some (if c \<in> set bs then a + of_nat (before c bs) else NULL)" using assms
  proof (induction "unat n" arbitrary: a n bs rule: less_induct)
    case less
    show ?case
    proof (cases "16 \<le> n")
      case False
      then show ?thesis using chr_rest_first [OF less.prems] by (subst xytherOs_memchr.simps) simp
    next
      case True
      note v = load_vector [OF less.prems True]
      have app: "bs = take 16 bs @ drop 16 bs" by simp
      have b: "before c bs = (if c \<in> set (take 16 bs) then before c (take 16 bs) else 16 + before c (drop 16 bs))"
        using before_append [of c "take 16 bs" "drop 16 bs"] v(3) by simp
      have s: "c \<in> set bs \<longleftrightarrow> c \<in> set (take 16 bs) \<or> c \<in> set (drop 16 bs)" by (subst app) (simp only: set_append Un_iff)
      show ?thesis
      proof (cases "c \<in> set (take 16 bs)")
        case in16: True
        then show ?thesis using True v(1) byte_mask_0 [OF v(3)] b s by (subst xytherOs_memchr.simps) (simp add: index_of_before)
      next
        case False
        then have "xytherOs_memchr m a c n = xytherOs_memchr m (a + 16) c (n - 16)"
          using True v(1) byte_mask_0 [OF v(3)] by (subst xytherOs_memchr.simps) simp
        then show ?thesis using less.hyps [OF v(4) v(2)] False b s by (simp add: algebra_simps)
      qed
    qed
  qed
  then show ?thesis using memchr_first [OF assms] by simp
qed

theorem xytherOs_memchr_same_witness: "xytherOs_memchr (block 0x1000 sample_bytes) 0x1003 105 20 = memchr (block 0x1000 sample_bytes) 0x1003 105 20"
proof -
  have "load_bytes (block 0x1000 sample_bytes) 0x1003 (unat (20 :: u64)) =
    Some [104, 101, 108, 108, 111, 44, 104, 105, 0, 104, 101, 108, 112, 0, 7, 7, 7, 7, 7, 7]" by code_simp
  from xytherOs_memchr_same [OF this] show ?thesis by simp
qed

lemma first_diff_None: "length v = length w \<Longrightarrow> first_diff v w = None \<longleftrightarrow> v = w"
  by (induction v w rule: first_diff.induct) auto

lemma first_diff_append: "length v = length w \<Longrightarrow> first_diff (v @ x) (w @ y) = (case first_diff v w of None \<Rightarrow> first_diff x y | Some d \<Rightarrow> Some d)"
  by (induction v w rule: list_induct2) auto

lemma first_diff_neq: "first_diff v w = Some (a, b) \<Longrightarrow> a \<noteq> b"
  by (induction v w rule: first_diff.induct) (auto split: if_splits)

definition diff_val :: "(u8 \<times> u8) option \<Rightarrow> int" where
  "diff_val d = (case d of None \<Rightarrow> 0 | Some (a, b) \<Rightarrow> uint a - uint b)"

lemma sign_of_diff: "first_diff v w = Some d \<Longrightarrow> sign_of d = sgn (diff_val (first_diff v w))"
proof -
  assume "first_diff v w = Some d"
  moreover obtain a b where "d = (a, b)" by (cases d)
  moreover have "uint a \<noteq> uint b" if "a \<noteq> b" using that by (simp add: word_uint_eq_iff)
  ultimately show ?thesis using first_diff_neq [of v w a b] by (auto simp: sign_of_def diff_val_def word_less_def sgn_if)
qed

text \<open>The byte loops of both functions.\<close>

lemma load_both:
  assumes "load_bytes m p (unat n) = Some (a # as)"
  shows "n \<noteq> 0" "m p = Some a" "load_bytes m (p + 1) (unat (n - 1 :: u64)) = Some as"
proof -
  have n: "unat n = length as + 1" using assms by (simp add: load_bytes_Some)
  then show "n \<noteq> 0" by auto
  show "m p = Some a" "load_bytes m (p + 1) (unat (n - 1)) = Some as" using assms load_bytes_Suc [of m p "length as"] count_down [OF n] n by auto
qed

lemma memcmp_first: "load_bytes m p (unat n) = Some v \<Longrightarrow> load_bytes m q (unat n) = Some w \<Longrightarrow> memcmp m p q n = Some (diff_val (first_diff v w))"
proof (induction v w arbitrary: p q n rule: first_diff.induct)
  case (1 a v b w)
  note p = load_both [OF 1(2)] and q = load_both [OF 1(3)]
  have "memcmp m (p + 1) (q + 1) (n - 1) = Some (diff_val (first_diff v w))" if "a = b" using 1(1) [of "p + 1" "n - 1" "q + 1"] p(3) q(3) that by simp
  then show ?case using p(1,2) q(2) by (subst memcmp.simps) (auto simp: diff_val_def)
qed (subst memcmp.simps, auto simp: load_bytes_Some unat_eq_0 diff_val_def)+

lemma cmp_rest_first: "load_bytes m p (unat n) = Some v \<Longrightarrow> load_bytes m q (unat n) = Some w \<Longrightarrow> cmp_rest m p q n = Some (sgn (diff_val (first_diff v w)))"
proof (induction v w arbitrary: p q n rule: first_diff.induct)
  case (1 a v b w)
  note p = load_both [OF 1(2)] and q = load_both [OF 1(3)]
  show ?case
  proof (cases "a = b")
    case True
    then have "cmp_rest m (p + 1) (q + 1) (n - 1) = Some (sgn (diff_val (first_diff v w)))" using 1(1) [of "p + 1" "n - 1" "q + 1"] p(3) q(3) by simp
    then show ?thesis using p(1,2) q(2) True by (subst cmp_rest.simps) simp
  next
    case False
    then show ?thesis using p(1,2) q(2) sign_of_diff [of "a # v" "b # w" "(a, b)"] by (subst cmp_rest.simps) simp
  qed
qed (subst cmp_rest.simps, auto simp: load_bytes_Some unat_eq_0 diff_val_def)+

text \<open>C33: \<^verbatim>\<open>xytherOs_memcmp\<close> returns the sign of what \<^verbatim>\<open>memcmp\<close> returns.\<close>

theorem xytherOs_memcmp_sign:
  assumes "mapped m p (unat n)" "mapped m q (unat n)"
  shows "xytherOs_memcmp m p q n = map_option sgn (memcmp m p q n)"
proof -
  obtain v w where vw: "load_bytes m p (unat n) = Some v" "load_bytes m q (unat n) = Some w" using assms by (auto simp: load_bytes_mapped)
  then have "xytherOs_memcmp m p q n = Some (sgn (diff_val (first_diff v w)))"
  proof (induction "unat n" arbitrary: p q n v w rule: less_induct)
    case less
    show ?case
    proof (cases "16 \<le> n")
      case False
      then show ?thesis using cmp_rest_first [OF less.prems] by (subst xytherOs_memcmp.simps) simp
    next
      case True
      note v = load_vector [OF less.prems(1) True] and w = load_vector [OF less.prems(2) True]
      have fd: "first_diff v w = (case first_diff (take 16 v) (take 16 w) of None \<Rightarrow> first_diff (drop 16 v) (drop 16 w) | Some d \<Rightarrow> Some d)"
        using first_diff_append [of "take 16 v" "take 16 w" "drop 16 v" "drop 16 w"] v(3) w(3) by simp
      show ?thesis
      proof (cases "first_diff (take 16 v) (take 16 w)")
        case None
        then have "xytherOs_memcmp m p q n = xytherOs_memcmp m (p + 16) (q + 16) (n - 16)"
          using True v(1) w(1) by (subst xytherOs_memcmp.simps) simp
        then show ?thesis using less.hyps [OF v(4) v(2) w(2)] None fd by simp
      next
        case (Some d)
        then have "take 16 v \<noteq> take 16 w" using first_diff_None [of "take 16 v" "take 16 w"] v(3) w(3) by auto
        then have "eq_mask (take 16 v) (take 16 w) \<noteq> 0xFFFF" using eq_mask_all [OF v(3) w(3)] by simp
        then show ?thesis using True v(1) w(1) Some fd sign_of_diff [of v w d] by (subst xytherOs_memcmp.simps) simp
      qed
    qed
  qed
  then show ?thesis using memcmp_first [OF vw] by simp
qed

theorem xytherOs_memcmp_sign_witness: "xytherOs_memcmp (block 0x1000 sample_bytes) 0x1003 0x1004 18 = map_option sgn (memcmp (block 0x1000 sample_bytes) 0x1003 0x1004 18)"
proof -
  have "mapped (block 0x1000 sample_bytes) 0x1003 (unat (18 :: u64))" "mapped (block 0x1000 sample_bytes) 0x1004 (unat (18 :: u64))" by code_simp+
  from xytherOs_memcmp_sign [OF this] show ?thesis by simp
qed

section \<open>Searching strings\<close>

definition whole_vectors :: "mem \<Rightarrow> bool" where
  "whole_vectors m \<longleftrightarrow> (\<forall>a i. a AND 15 = 0 \<longrightarrow> i < 16 \<longrightarrow> m (a + of_nat i) \<noteq> None \<longrightarrow> mapped m a 16)"

lemma align16_scan_first:
  "first_at stop m a n \<Longrightarrow> align16_scan stop m a = Some (Inl (a + of_nat n)) \<or>
    (\<exists>k\<le>n. align16_scan stop m a = Some (Inr (a + of_nat k)) \<and> (a + of_nat k) AND 15 = 0)"
proof (induction n arbitrary: a)
  case 0
  then show ?case by (subst align16_scan.simps) (subst align16_scan.simps, auto simp: first_at_0)
next
  case (Suc n)
  show ?case
  proof (cases "a AND 15 = 0")
    case True
    then show ?thesis by (subst (2) align16_scan.simps) (auto intro: exI [of _ 0])
  next
    case False
    obtain b where b: "m a = Some b" "\<not> stop b" and n: "first_at stop m (a + 1) n" using Suc.prems by (auto simp: first_at_Suc)
    have step: "align16_scan stop m a = align16_scan stop m (a + 1)" using False b by (subst align16_scan.simps) simp
    have e: "a + 1 + of_nat k = a + of_nat (Suc k)" for k by (simp add: algebra_simps)
    show ?thesis using Suc.IH [OF n] unfolding step e by (metis Suc_le_mono)
  qed
qed

lemma vector_scan_first:
  assumes "whole_vectors m" "a AND 15 = 0" "first_at stop m a n"
    and stopv: "\<And>v. length v = 16 \<Longrightarrow> stopv v \<longleftrightarrow> (\<exists>b \<in> set v. stop b)"
  shows "\<exists>k v. k \<le> n \<and> n < k + 16 \<and> vector_scan stopv m a = Some (a + of_nat k, v) \<and> load_bytes m (a + of_nat k) 16 = Some v"
  using assms(2,3)
proof (induction n arbitrary: a rule: less_induct)
  case (less n)
  have "m (a + of_nat 0) \<noteq> None" using less.prems(2) by (cases n) (auto simp: first_at_0 first_at_Suc)
  then have "mapped m a 16" using assms(1) less.prems(1) zero_less_numeral unfolding whole_vectors_def by blast
  then obtain v where v: "load_bytes m a 16 = Some v" by (auto simp: load_bytes_mapped)
  then have len: "length v = 16" and nth: "\<And>i. i < 16 \<Longrightarrow> m (a + of_nat i) = Some (v ! i)" by (auto simp: load_bytes_Some)
  have ld: "sse_load m a = Some v" using v by (simp add: sse_load_def loadu_def)
  show ?case
  proof (cases "n < 16")
    case True
    then have "stop (v ! n)" using less.prems(2) nth [of n] by (auto simp: first_at_def)
    then have "stopv v" using stopv [OF len] True len by force
    then show ?thesis using ld v True by (subst vector_scan.simps) (auto intro!: exI [of _ 0])
  next
    case False
    then have "\<not> stop (v ! i)" if "i < 16" for i using less.prems(2) nth [OF that] that by (auto simp: first_at_def dest: spec [of _ i])
    then have "\<not> stopv v" using stopv [OF len] len by (auto simp: in_set_conv_nth)
    then have step: "vector_scan stopv m a = vector_scan stopv m (a + 16)" using ld by (subst vector_scan.simps) simp
    have "first_at stop m (a + of_nat 16) (n - 16)" using less.prems(2) False by (intro first_at_add) simp
    then have "\<exists>k w. k \<le> n - 16 \<and> n - 16 < k + 16 \<and> vector_scan stopv m (a + 16) = Some (a + 16 + of_nat k, w) \<and> load_bytes m (a + 16 + of_nat k) 16 = Some w"
      using less.IH [of "n - 16" "a + 16"] aligned16_add [OF less.prems(1)] False by simp
    then obtain k w where "k \<le> n - 16" "n - 16 < k + 16" "vector_scan stopv m a = Some (a + of_nat (16 + k), w)" "load_bytes m (a + of_nat (16 + k)) 16 = Some w"
      unfolding step by (auto simp: algebra_simps)
    then show ?thesis using False by (intro exI [of _ "16 + k"] exI [of _ w]) auto
  qed
qed

lemma before_eqI: "j < length v \<Longrightarrow> (\<And>i. i < j \<Longrightarrow> v ! i \<noteq> c) \<Longrightarrow> v ! j = c \<Longrightarrow> before c v = j"
proof (induction v arbitrary: j)
  case (Cons b v)
  show ?case
  proof (cases j)
    case (Suc i)
    then have "before c v = i" using Cons.prems by (intro Cons.IH) fastforce+
    then show ?thesis using Suc Cons.prems(2) [of 0] by simp
  qed (use Cons.prems in simp)
qed simp

text \<open>A search for a byte by both loops: it stops before an aligned address, or in the vector that holds the byte.\<close>

lemma scan16:
  assumes "whole_vectors m" "first_at stop m a n" and stopv: "\<And>v. length v = 16 \<Longrightarrow> stopv v \<longleftrightarrow> (\<exists>b \<in> set v. stop b)"
  shows "align16_scan stop m a = Some (Inl (a + of_nat n)) \<or>
    (\<exists>s j v. align16_scan stop m a = Some (Inr s) \<and> vector_scan stopv m s = Some (a + of_nat j, v) \<and> j \<le> n \<and> n - j < 16 \<and> length v = 16 \<and>
      (\<forall>i < 16. m (a + of_nat j + of_nat i) = Some (v ! i)) \<and> stop (v ! (n - j)) \<and> (\<forall>i < n - j. \<not> stop (v ! i)))"
  using align16_scan_first [OF assms(2)]
proof (rule disj_forward)
  assume "\<exists>k\<le>n. align16_scan stop m a = Some (Inr (a + of_nat k)) \<and> (a + of_nat k) AND 15 = 0"
  then obtain k where k: "k \<le> n" "align16_scan stop m a = Some (Inr (a + of_nat k))" "(a + of_nat k) AND 15 = 0" by blast
  have "first_at stop m (a + of_nat k) (n - k)" using assms(2) k(1) by (intro first_at_add) simp
  from vector_scan_first [OF assms(1) k(3) this stopv] obtain i v where i: "i \<le> n - k" "n - k < i + 16"
    "vector_scan stopv m (a + of_nat k) = Some (a + of_nat k + of_nat i, v)" "load_bytes m (a + of_nat k + of_nat i) 16 = Some v" by blast
  define j where "j = k + i"
  have e: "a + of_nat k + of_nat i = a + of_nat j" by (simp add: j_def)
  have j: "j \<le> n" "n - j < 16" using i(1,2) k(1) by (auto simp: j_def)
  have v: "length v = 16" and nth: "\<And>i. i < 16 \<Longrightarrow> m (a + of_nat j + of_nat i) = Some (v ! i)" using i(4) unfolding e by (auto simp: load_bytes_Some)
  have "first_at stop m (a + of_nat j) (n - j)" using assms(2) j(1) by (intro first_at_add) simp
  then have "stop (v ! (n - j))" "\<forall>i < n - j. \<not> stop (v ! i)" using nth j(2) by (auto simp: first_at_def)
  then show "\<exists>s j v. align16_scan stop m a = Some (Inr s) \<and> vector_scan stopv m s = Some (a + of_nat j, v) \<and> j \<le> n \<and> n - j < 16 \<and> length v = 16 \<and>
      (\<forall>i < 16. m (a + of_nat j + of_nat i) = Some (v ! i)) \<and> stop (v ! (n - j)) \<and> (\<forall>i < n - j. \<not> stop (v ! i))"
    using k(2) i(3) j v nth unfolding e by blast
qed

text \<open>\<^verbatim>\<open>xytherOs_strlen\<close> returns what \<^verbatim>\<open>strlen\<close> returns, for strings in memory that is mapped in pieces of sixteen bytes.
\<close>

theorem xytherOs_strlen_same:
  assumes "whole_words m" "whole_vectors m" "cstr m a s"
  shows "xytherOs_strlen m a = strlen m a"
proof -
  have "byte_mask 0 v \<noteq> 0 \<longleftrightarrow> (\<exists>b \<in> set v. b = 0)" if "length v = 16" for v using byte_mask_0 [OF that] by auto
  from scan16 [OF assms(2) cstr_first_at [OF assms(3)] this]
  have "xytherOs_strlen m a = Some (of_nat (length s))"
  proof
    assume "\<exists>t j v. align16_scan (\<lambda>b. b = 0) m a = Some (Inr t) \<and> vector_scan (\<lambda>v. byte_mask 0 v \<noteq> 0) m t = Some (a + of_nat j, v) \<and> j \<le> length s \<and> length s - j < 16 \<and>
      length v = 16 \<and> (\<forall>i < 16. m (a + of_nat j + of_nat i) = Some (v ! i)) \<and> v ! (length s - j) = 0 \<and> (\<forall>i < length s - j. v ! i \<noteq> 0)"
    then obtain t j v where j: "align16_scan (\<lambda>b. b = 0) m a = Some (Inr t)" "vector_scan (\<lambda>v. byte_mask 0 v \<noteq> 0) m t = Some (a + of_nat j, v)" "j \<le> length s"
      "length s - j < 16" "length v = 16" "v ! (length s - j) = 0" "\<forall>i < length s - j. v ! i \<noteq> 0" by blast
    then have "before 0 v = length s - j" by (intro before_eqI) auto
    moreover have "0 \<in> set v" using j(4-6) by (metis nth_mem)
    ultimately show ?thesis using j(1-3) ctz_byte_mask [OF j(5), of 0] by (simp add: xytherOs_strlen_def of_nat_diff)
  next
    assume "align16_scan (\<lambda>b. b = 0) m a = Some (Inl (a + of_nat (length s)))"
    then show ?thesis unfolding xytherOs_strlen_def by simp
  qed
  then show ?thesis using strlen_cstr [OF assms(1,3)] by simp
qed

lemma whole_vectors_block:
  assumes "base AND 15 = 0" "length bs mod 16 = 0"
  shows "whole_vectors (block base bs)"
  unfolding whole_vectors_def
proof (intro allI impI)
  fix a i assume a: "a AND 15 = 0" and i: "i < (16 :: nat)" and "block base bs (a + of_nat i) \<noteq> None"
  let ?u = "unat (a - base)"
  have mod: "?u mod 16 = 0" using a assms(1) unfolding aligned16_iff unat_diff [of a] by simp presburger
  then have small: "?u + j < 2 ^ 64" if "j < 16" for j using that unat_lt64 [of "a - base"] by simp presburger
  have add: "unat (a + of_nat j - base) = ?u + j" if "j < 16" for j
  proof -
    have e: "a + of_nat j - base = (a - base) + of_nat j" by simp
    show ?thesis unfolding e using small [OF that] that by (simp add: unat_add_bounded)
  qed
  have "?u + i < length bs" using \<open>block base bs (a + of_nat i) \<noteq> None\<close> add [OF i] by (auto simp: block_def written_def split: if_splits)
  then have "?u + 16 \<le> length bs" using mod assms(2) by presburger
  then show "mapped (block base bs) a 16" using add by (auto simp: mapped_def block_def written_def)
qed

definition sample_vectors :: "u8 list" where "sample_vectors = sample_bytes @ replicate 8 0"

theorem xytherOs_strlen_same_witness: "xytherOs_strlen (block 0x1000 sample_vectors) 0x1003 = strlen (block 0x1000 sample_vectors) 0x1003"
proof -
  have "cstr (block 0x1000 sample_vectors) 0x1003 [104, 101, 108, 108, 111, 44, 104, 105]" by code_simp
  moreover have "whole_words (block 0x1000 sample_vectors)" by (rule whole_words_block) code_simp+
  moreover have "whole_vectors (block 0x1000 sample_vectors)" by (rule whole_vectors_block) code_simp+
  ultimately show ?thesis by (intro xytherOs_strlen_same)
qed

text \<open>\<^verbatim>\<open>xytherOs_strchr\<close> is right when the bytes behind the terminator are zero or not mapped.\<close>

lemma xytherOs_strchr_padded:
  assumes "whole_vectors m" "cstr m a s" "\<And>i. i < 16 \<Longrightarrow> m (a + of_nat (length s + i)) \<in> {None, Some 0}"
  shows "xytherOs_strchr m a c = Some (if c \<in> set s \<or> c = 0 then a + of_nat (before c s) else NULL)"
proof -
  let ?n = "before c s"
  have first: "first_at (\<lambda>b. b = c \<or> b = 0) m a ?n" using takeWhile_first [OF assms(2), of c] by (simp add: before_def disj_commute)
  have le: "?n \<le> length s" by (rule before_le)
  have at: "m (a + of_nat ?n) = Some ((s @ [0]) ! ?n)" using cstr_nth_upto [OF assms(2) le] .
  have hit: "(s @ [0]) ! ?n = c \<longleftrightarrow> c \<in> set s \<or> c = 0" using before_in [of c s] le nth_length_takeWhile [of "\<lambda>b. b \<noteq> c" s]
    by (cases "c \<in> set s") (auto simp: nth_append before_def)
  have "byte_mask c v \<noteq> 0 \<or> byte_mask 0 v \<noteq> 0 \<longleftrightarrow> (\<exists>b \<in> set v. b = c \<or> b = 0)" if "length v = 16" for v using byte_mask_0 [OF that] by auto
  from scan16 [OF assms(1) first this] show ?thesis
  proof
    assume "align16_scan (\<lambda>b. b = c \<or> b = 0) m a = Some (Inl (a + of_nat ?n))"
    then show ?thesis using at hit unfolding xytherOs_strchr_def by simp
  next
    assume "\<exists>t j v. align16_scan (\<lambda>b. b = c \<or> b = 0) m a = Some (Inr t) \<and> vector_scan (\<lambda>v. byte_mask c v \<noteq> 0 \<or> byte_mask 0 v \<noteq> 0) m t = Some (a + of_nat j, v) \<and> j \<le> ?n \<and> ?n - j < 16 \<and>
      length v = 16 \<and> (\<forall>i < 16. m (a + of_nat j + of_nat i) = Some (v ! i)) \<and> (v ! (?n - j) = c \<or> v ! (?n - j) = 0) \<and> (\<forall>i < ?n - j. \<not> (v ! i = c \<or> v ! i = 0))"
    then obtain t j v where j: "align16_scan (\<lambda>b. b = c \<or> b = 0) m a = Some (Inr t)" "vector_scan (\<lambda>v. byte_mask c v \<noteq> 0 \<or> byte_mask 0 v \<noteq> 0) m t = Some (a + of_nat j, v)"
      "j \<le> ?n" "?n - j < 16" "length v = 16" "\<forall>i < 16. m (a + of_nat j + of_nat i) = Some (v ! i)" "\<forall>i < ?n - j. v ! i \<noteq> c" by blast
    have vn: "v ! (?n - j) = (s @ [0]) ! ?n" using j(3,4,6) at by (auto simp: of_nat_diff dest: spec [of _ "?n - j"])
    show ?thesis
    proof (cases "c \<in> set s \<or> c = 0")
      case True
      then have "v ! (?n - j) = c" using vn hit by simp
      then have "before c v = ?n - j" "c \<in> set v" using j(4,5,7) by (auto intro!: before_eqI) (metis nth_mem)
      then show ?thesis using True j(1-3) ctz_byte_mask [OF j(5)] byte_mask_0 [OF j(5), of c] unfolding xytherOs_strchr_def by (simp add: of_nat_diff)
    next
      case False
      then have n: "?n = length s" using before_in [of c s] le by simp
      have "v ! i \<noteq> c" if "i < 16" for i
      proof (cases "i < ?n - j")
        case False
        then have e: "a + of_nat (length s + (i - (?n - j))) = a + of_nat j + of_nat i" using j(3) n by (simp add: of_nat_diff)
        have "m (a + of_nat j + of_nat i) \<in> {None, Some 0}" using assms(3) [of "i - (?n - j)"] that unfolding e by simp
        then have "v ! i = 0" using that j(6) by simp
        then show ?thesis using \<open>\<not> (c \<in> set s \<or> c = 0)\<close> by simp
      qed (use j(7) in blast)
      then have "c \<notin> set v" using j(5) by (auto simp: in_set_conv_nth)
      then show ?thesis using False j(1,2) byte_mask_0 [OF j(5), of c] unfolding xytherOs_strchr_def by simp
    qed
  qed
qed

section \<open>Where the vector functions go wrong\<close>

text \<open>Three string functions with vectors do not stop at the terminator.  \<^verbatim>\<open>xytherOs_strchr\<close> finds a character behind it in the same vector; \<^verbatim>\<open>xytherOs_strcmp\<close> passes over two equal vectors with a terminator
  in them, and compares what lies behind two equal strings; \<^verbatim>\<open>xytherOs_safestrncpy\<close> leaves out the terminator of a short string, and the bytes that were in the destination before follow it.
\<close>

theorem vectors_miss_terminator:
  "strchr (block 0x1000 ([104, 105, 0, 120] @ replicate 12 0)) 0x1000 120 = Some NULL \<and>
   xytherOs_strchr (block 0x1000 ([104, 105, 0, 120] @ replicate 12 0)) 0x1000 120 = Some 0x1003 \<and>
   strcmp (block 0x1000 (replicate 16 0 @ replicate 16 1 @ replicate 16 0 @ replicate 16 2)) 0x1000 0x1020 = Some 0 \<and>
   xytherOs_strcmp (block 0x1000 (replicate 16 0 @ replicate 16 1 @ replicate 16 0 @ replicate 16 2)) 0x1000 0x1020 = Some (- 1) \<and>
   map_option (\<lambda>(_, m). load_bytes m 0x1010 16) (safestrncpy (block 0x1000 ([104, 105] @ replicate 14 0 @ replicate 16 7)) 0x1010 0x1000 16) =
     Some (Some ([104, 105, 0, 0] @ replicate 12 7)) \<and>
   map_option (\<lambda>(_, m). load_bytes m 0x1010 16) (xytherOs_safestrncpy (block 0x1000 ([104, 105] @ replicate 14 0 @ replicate 16 7)) 0x1010 0x1000 16) =
     Some (Some ([104, 105] @ replicate 13 7 @ [0]))"
  by code_simp

end
