(* ===== verification/Sse_Tokens.thy ===== *)
theory Sse_Tokens
  imports Tokens_Proofs Sse_Proofs
begin

text \<open>
  \<^verbatim>\<open>xytherOs_tokenize\<close>, \<^verbatim>\<open>xytherOs_tokenize_r\<close> and \<^verbatim>\<open>xytherOs_canonicalize_path\<close> of \<^verbatim>\<open>lib/xyther_strings.c\<close>.  The first has the text of \<^verbatim>\<open>tokenize\<close>; the second takes a string of delimiters and looks each
  character up in it with \<^verbatim>\<open>xytherOs_strchr\<close>.
\<close>

definition xytherOs_tokenize :: "u8 list option \<Rightarrow> int \<Rightarrow> bool \<Rightarrow> bool \<Rightarrow> bool \<Rightarrow> (int + tokenized) option" where
  "xytherOs_tokenize s delim ptokenized buf_ok arr_ok = tokenize s delim ptokenized buf_ok arr_ok"

definition xytherOs_canonicalize_path :: "u8 list option \<Rightarrow> bool \<Rightarrow> bool \<Rightarrow> bool \<Rightarrow> (int + tokenized) option" where
  "xytherOs_canonicalize_path path = tokenize path 47"

definition is_delim :: "mem \<Rightarrow> addr \<Rightarrow> u8 \<Rightarrow> bool option" where
  "is_delim m delim b = map_option (\<lambda>r. r \<noteq> NULL) (xytherOs_strchr m delim b)"

definition xytherOs_tokenize_r :: "mem \<Rightarrow> u8 list option \<Rightarrow> addr \<Rightarrow> bool \<Rightarrow> bool \<Rightarrow> bool \<Rightarrow> (int + tokenized) option" where
  "xytherOs_tokenize_r m s delim ptokenized buf_ok arr_ok =
    (case s of
       None \<Rightarrow> Some (Inl (- EINVAL))
     | Some s \<Rightarrow>
         if delim = NULL \<or> \<not> ptokenized then Some (Inl (- EINVAL))
         else if \<not> buf_ok then Some (Inl (- ENOMEM))
         else do {
           let D = is_delim m delim;
           buf \<leftarrow> trim_front (and_delim D) (s @ [0]);
           len \<leftarrow> skip_while (\<lambda>b. Some (b \<noteq> 0)) buf 0;
           buf \<leftarrow> trim_back D buf len;
           n \<leftarrow> count_starts D buf 0 False 0;
           if \<not> arr_ok then Some (Inl (- ENOMEM))
           else map_option (\<lambda>r. Inr (tok_result r)) (extract_tokens D (n + 1) buf 0 []) })"

lemma tokenize_r_split:
  assumes "0 \<notin> set s" "delim \<noteq> NULL" "\<And>b. is_delim m delim b = Some (b \<in> set ds \<or> b = 0)"
  shows "\<exists>r. xytherOs_tokenize_r m (Some s) delim True True True = Some (Inr r) \<and> map (string_at (tbuf r)) (toks r) = split_fields (\<lambda>b. b \<in> set ds) s"
proof -
  let ?D = "\<lambda>b. b \<in> set ds \<or> b = 0" and ?P = "\<lambda>b. b \<noteq> 0 \<and> (b \<in> set ds \<or> b = 0)"
  have D: "is_delim m delim = (\<lambda>b. Some (?D b))" using assms(3) by (rule ext)
  obtain post where front: "trim_front (\<lambda>b. Some (?P b)) (s @ [0]) = Some (dropWhile ?P s @ 0 # post)" using trim_front_correct [OF assms(1), of ?P] by blast
  have eq: "dropWhile ?P s = dropWhile ?D s" using assms(1) by (auto intro!: dropWhile_cong)
  obtain s' rest post' where bk: "trim_back (\<lambda>b. Some (?D b)) (dropWhile ?D s @ 0 # post) (length (dropWhile ?D s)) = Some (s' @ 0 # post')"
    "dropWhile ?D s = s' @ rest" "\<forall>b \<in> set rest. ?D b" using trim_back_strip [of ?D "dropWhile ?D s" post] by blast
  note s' = fields_of_stripped [OF bk(2,3) assms(1)]
  have len: "skip_while (\<lambda>b. Some (b \<noteq> 0)) (dropWhile ?D s @ 0 # post) 0 = Some (length (dropWhile ?D s))"
  proof -
    have "\<forall>b \<in> set (dropWhile ?D s). b \<noteq> 0" using assms(1) set_dropWhileD [of 0 ?D s] by metis
    from skip_while_over [OF this, of 0 "[]" post] show ?thesis by simp
  qed
  obtain k where k: "count_starts (\<lambda>b. Some (?D b)) (s' @ 0 # post') 0 False 0 = Some k" "length (split_fields ?D s') = k"
    using count_starts_correct [OF s'(3), of ?D "[]" post' False 0] by auto
  have fs: "split_fields ?D s = split_fields (\<lambda>b. b \<in> set ds) s" using assms(1) by (intro split_fields_cong) auto
  obtain offs buf where "extract_tokens (\<lambda>b. Some (?D b)) (k + 1) (s' @ 0 # post') 0 [] = Some (offs, buf)" "map (string_at buf) offs = split_fields ?D s"
    using extract_fields [of s' ?D "[]" "k + 1" "[]" post'] k(2) s' by auto
  then show ?thesis using assms(2) front len bk(1) k(1) fs unfolding eq xytherOs_tokenize_r_def D by (simp add: tok_result_def Let_def)
qed

text \<open>\<^verbatim>\<open>xytherOs_tokenize_r\<close> splits a string at a set of delimiters into its non-empty fields, with an array that has exactly one more place than there are tokens, provided the bytes behind the string
  of delimiters are zero or not mapped.
\<close>

theorem tokenize_r_fields:
  assumes "0 \<notin> set s" "whole_vectors m" "cstr m delim ds" "delim \<noteq> NULL" "unat delim + length ds < 2 ^ 64" "\<forall>i < 16. m (delim + of_nat (length ds + i)) = None \<or> m (delim + of_nat (length ds + i)) = Some 0"
  shows "\<exists>r. xytherOs_tokenize_r m (Some s) delim True True True = Some (Inr r) \<and> map (string_at (tbuf r)) (toks r) = split_fields (\<lambda>b. b \<in> set ds) s"
proof (rule tokenize_r_split [OF assms(1,4)])
  fix b
  have "unat (delim + of_nat (before b ds)) = unat delim + before b ds" using assms(5) before_le [of b ds] by (simp add: unat_add_bounded)
  moreover have "0 < unat delim" using assms(4) by (simp add: unat_gt_0)
  ultimately have "delim + of_nat (before b ds) \<noteq> NULL" by (metis add_is_0 less_numeral_extra(3) unsigned_0)
  then show "is_delim m delim b = Some (b \<in> set ds \<or> b = 0)"
    using xytherOs_strchr_padded [OF assms(2,3), of b] assms(6) by (simp add: is_delim_def)
qed

theorem tokenize_r_fields_witness:
  "\<exists>r. xytherOs_tokenize_r (block 0x1000 ([47, 115] @ replicate 14 0)) (Some sample_path) 0x1000 True True True = Some (Inr r) \<and>
    map (string_at (tbuf r)) (toks r) = [[117], [114], [98, 105, 110]]"
proof -
  let ?m = "block 0x1000 ([47, 115] @ replicate 14 0)"
  have f: "0 \<notin> set sample_path" "split_fields (\<lambda>b. b \<in> set [47, 115]) sample_path = [[117], [114], [98, 105, 110]]" "cstr ?m 0x1000 [47, 115]" by code_simp+
  have "whole_vectors ?m" by (rule whole_vectors_block) code_simp+
  moreover have "\<forall>i < 16. ?m (0x1000 + of_nat (length [47, 115 :: u8] + i)) = None \<or> ?m (0x1000 + of_nat (length [47, 115 :: u8] + i)) = Some 0"
  proof (intro allI impI)
    fix i assume "i < (16 :: nat)"
    then show "?m (0x1000 + of_nat (length [47, 115 :: u8] + i)) = None \<or> ?m (0x1000 + of_nat (length [47, 115 :: u8] + i)) = Some 0"
      using block_nth [of "length [47, 115 :: u8] + i" "0x1000" "[47, 115] @ replicate 14 0"] by (simp add: nth_append split: if_splits)
  qed
  ultimately show ?thesis using tokenize_r_fields [OF f(1) _ f(3)] f(2) by simp
qed

text \<open>
  Other bytes behind the delimiters count as delimiters: with the delimiter \<^verbatim>\<open>/\<close> and a letter \<^verbatim>\<open>b\<close> behind its terminator, the path \<^verbatim>\<open>/usr//bin/\<close> loses the letter.
\<close>

lemma tokenize_r_beyond_terminator:
  "map_option (map_sum id (\<lambda>r. map (string_at (tbuf r)) (toks r)))
    (xytherOs_tokenize_r (block 0x1000 ([47, 0, 98] @ replicate 13 0)) (Some sample_path) 0x1000 True True True) = Some (Inr [[117, 115, 114], [105, 110]])"
  by code_simp

end
