(* ===== verification/Paths.thy ===== *)
theory Paths
  imports Tokens
begin

text \<open>
  Path names: \<^verbatim>\<open>fs/vfs_path.c\<close>.  A path is checked, split at slashes, reduced by the components \<^verbatim>\<open>.\<close> and \<^verbatim>\<open>..\<close>, and joined again.  A token is the index of its first byte in the buffer that
  \<^verbatim>\<open>canonicalize_path\<close> allocates, an array of tokens is a list of indices or null pointers, and \<open>ok n\<close> says whether the allocation with number \<open>n\<close> of a call succeeds.  A write beyond the end of an
  allocated block is a fault.
\<close>

section \<open>Checking a path\<close>

abbreviation (input) ENAMETOOLONG :: int where "ENAMETOOLONG \<equiv> 36"

abbreviation (input) ENOTNAM :: int where "ENOTNAM \<equiv> 118"

definition NAME_MAX :: nat where "NAME_MAX = 255"

definition PATH_MAX :: nat where "PATH_MAX = 4096"

definition MAXFNAME :: nat where "MAXFNAME = 255"

fun verify_loop :: "u8 list \<Rightarrow> nat \<Rightarrow> nat \<Rightarrow> int" where
  "verify_loop [] len component_length = (if len > PATH_MAX then - ENAMETOOLONG else 0)"
| "verify_loop (b # s) len component_length =
    (if b = 47 then verify_loop s (len + 1) 0
     else if component_length + 1 > NAME_MAX then - ENAMETOOLONG
     else verify_loop s (len + 1) (component_length + 1))"

definition verify_path :: "u8 list option \<Rightarrow> int" where
  "verify_path path = (case path of None \<Rightarrow> - EINVAL | Some s \<Rightarrow> if s = [] then - EINVAL else verify_loop s 0 0)"

section \<open>Parsing a path\<close>

definition PATH_NOABS :: u32 where "PATH_NOABS = 1"

definition PATH_NOTOKENIZED :: u32 where "PATH_NOTOKENIZED = 2"

definition PATH_VERIFY_ONLY :: u32 where "PATH_VERIFY_ONLY = 4"

definition PATH_ISDIR :: u32 where "PATH_ISDIR = 16"

definition PATH_ABSOLUTE :: u32 where "PATH_ABSOLUTE = 64"

record vfspath =
  vp_flags :: u32
  absolute :: "u8 list option"
  lasttoken :: "nat option"
  tokencount :: nat
  tokenized_at :: "nat option list"

text \<open>The loop over the canonical tokens: \<^verbatim>\<open>.\<close> is dropped, \<^verbatim>\<open>..\<close> steps back one place in the new array, any other token is stored.\<close>

fun reduce_loop :: "(nat \<Rightarrow> u8 list) \<Rightarrow> nat list \<Rightarrow> nat option list \<Rightarrow> nat \<Rightarrow> nat option \<Rightarrow> nat option list \<times> nat \<times> nat option" where
  "reduce_loop str [] arr index lst = (arr, index, lst)"
| "reduce_loop str (t # ts) arr index lst =
    (if str t = [46] then reduce_loop str ts arr index lst
     else if str t = [46, 46] then reduce_loop str ts arr (if index > 0 then index - 1 else index) lst
     else reduce_loop str ts (arr[index := Some t]) (index + 1) (Some t))"

text \<open>The macro \<^verbatim>\<open>foreach\<close> visits an array up to the first null pointer.\<close>

fun foreach :: "'a option list \<Rightarrow> 'a list" where
  "foreach (Some t # ts) = t # foreach ts"
| "foreach _ = []"

text \<open>
  The absolute path is put together in a block of \<open>pathlen\<close> bytes that grows with every token.  \<open>index\<close> is where the next token goes; \<^verbatim>\<open>snprintf\<close> writes the token, the separator unless it is a zero
  byte, and a terminator.
\<close>

definition write_token :: "nat \<Rightarrow> u8 list \<Rightarrow> nat \<Rightarrow> u8 list \<Rightarrow> bool \<Rightarrow> (u8 list \<times> nat) option" where
  "write_token pathlen text index token sep =
    (let new = token @ (if sep then [47] else []) in
     if index + length new + 1 \<le> pathlen then Some (take index text @ new, index + length new) else None)"

fun absolute_loop :: "(nat \<Rightarrow> u8 list) \<Rightarrow> (nat \<Rightarrow> bool) \<Rightarrow> nat option \<Rightarrow> bool \<Rightarrow> nat list \<Rightarrow> nat \<Rightarrow> nat \<Rightarrow> u8 list option \<Rightarrow> (int + u8 list option) option" where
  "absolute_loop str ok lst isdir [] pathlen index text = Some (Inr text)"
| "absolute_loop str ok lst isdir (t # ts) pathlen index text =
    (let tokenlen = length (str t) in
     if tokenlen > MAXFNAME then Some (Inl (- ENAMETOOLONG))
     else
       let pathlen = pathlen + tokenlen + 1;
           (pathlen, sep) = (if Some t = lst then if \<not> isdir then (pathlen - 1, False) else (pathlen, True) else (pathlen + 1, True))
       in if \<not> ok (length ts) then Some (Inl (- ENOMEM))
          else Option.bind (write_token pathlen (case text of None \<Rightarrow> [] | Some s \<Rightarrow> s) index (str t) sep) (\<lambda>(s, index).
            absolute_loop str ok lst isdir ts pathlen index (Some s)))"

text \<open>
  \<^verbatim>\<open>vfspath_parse\<close>.  Allocations: the copy of the path (0), the buffer and the array of \<^verbatim>\<open>canonicalize_path\<close> (1, 2), the new array (3), the structure (4), the root path (5) and the block of the
  absolute path when \<open>n\<close> tokens are still to come (\<open>6 + n\<close>).  The result is an error, or the parsed path with the buffer the tokens point into; no path when only the check was asked for.
\<close>

definition vfspath_parse :: "(nat \<Rightarrow> bool) \<Rightarrow> u8 list option \<Rightarrow> u32 \<Rightarrow> bool \<Rightarrow> (int + (vfspath \<times> u8 list) option) option" where
  "vfspath_parse ok pathname flags rp =
    (case pathname of
       None \<Rightarrow> Some (Inl (- ENOTNAM))
     | Some path \<Rightarrow>
         if path = [] then Some (Inl (- ENOTNAM))
         else if verify_path pathname \<noteq> 0 then Some (Inl (verify_path pathname))
         else
           let flags = (if hd path = 47 then flags OR PATH_ABSOLUTE else flags) in
           if flags AND PATH_VERIFY_ONLY \<noteq> 0 then Some (Inr None)
           else if \<not> rp then Some (Inl (- EINVAL))
           else if \<not> ok 0 then Some (Inl (- ENOMEM))
           else do {
             let isdir = (last path = 47);
             r \<leftarrow> canonicalize_path (Some path) True (ok 1) (ok 2);
             case r of
               Inl err \<Rightarrow> Some (Inl err)
             | Inr r \<Rightarrow>
                 if \<not> ok 3 then Some (Inl (- ENOMEM))
                 else do {
                   let str = string_at (tbuf r);
                   let (arr, nt, lst) = reduce_loop str (toks r) (replicate (length (toks r) + 1) None) 0 (last_tok r);
                   abs \<leftarrow> (if flags AND PATH_NOABS = 0
                     then do {
                       a \<leftarrow> absolute_loop str (\<lambda>n. ok (6 + n)) lst isdir (foreach arr) 0 0 None;
                       Some (case a of
                         Inl err \<Rightarrow> Inl err
                       | Inr (Some s) \<Rightarrow> Inr (Some s)
                       | Inr None \<Rightarrow> if ok 5 then Inr (Some [47]) else Inl (- ENOMEM)) }
                     else Some (Inr None));
                   Some (case abs of
                     Inl err \<Rightarrow> Inl err
                   | Inr s \<Rightarrow>
                       if \<not> ok 4 then Inl (- ENOMEM)
                       else Inr (Some (\<lparr> vp_flags = flags OR (if isdir then PATH_ISDIR else 0), absolute = s, lasttoken = lst,
                         tokencount = (if flags AND PATH_NOTOKENIZED \<noteq> 0 then 0 else nt),
                         tokenized_at = (if flags AND PATH_NOTOKENIZED \<noteq> 0 then [] else arr) \<rparr>, tbuf r))) } })"

text \<open>\<^verbatim>\<open>path_get_lasttoken\<close>: the last token of the path as written.\<close>

definition path_get_lasttoken :: "(nat \<Rightarrow> bool) \<Rightarrow> u8 list option \<Rightarrow> bool \<Rightarrow> (int + u8 list) option" where
  "path_get_lasttoken ok pathname ltok =
    (if \<not> ltok then Some (Inl (- EINVAL))
     else if verify_path pathname \<noteq> 0 then Some (Inl (verify_path pathname))
     else do {
       r \<leftarrow> canonicalize_path pathname True (ok 1) (ok 2);
       case r of
         Inl err \<Rightarrow> Some (Inl err)
       | Inr r \<Rightarrow>
           if \<not> ok 3 then Some (Inl (- ENOMEM))
           else Some (case last_tok r of
             Some t \<Rightarrow> if ok 0 then Inr (string_at (tbuf r) t) else Inl (- ENOMEM)
           | None \<Rightarrow> if pathname = Some [47] then if ok 0 then Inr [47] else Inl (- ENOMEM) else Inl (- EINVAL)) })"

end
