(* ===== verification/Paths_Proofs.thy ===== *)
theory Paths_Proofs
  imports Paths Tokens_Proofs
begin

text \<open>Which paths are accepted, what parsing returns for paths without dots, and where it goes wrong.\<close>

section \<open>Checking\<close>

abbreviation slash :: "u8 \<Rightarrow> bool" where "slash b \<equiv> b = 47"

lemma verify_loop_component:
  assumes "\<forall>b \<in> set s. \<not> slash b"
  shows "verify_loop (s @ t) n k = (if k + length s > NAME_MAX \<and> s \<noteq> [] then - ENAMETOOLONG else verify_loop t (n + length s) (k + length s))"
  using assms by (induction s arbitrary: n k) auto

lemma verify_loop_delims: "\<forall>b \<in> set s. slash b \<Longrightarrow> verify_loop (s @ t) n k = verify_loop t (n + length s) (if s = [] then k else 0)"
  by (induction s arbitrary: n k) auto

lemma verify_loop_fields: "verify_loop s n 0 = 0 \<longleftrightarrow> n + length s \<le> PATH_MAX \<and> (\<forall>f \<in> set (split_fields slash s). length f \<le> NAME_MAX)"
proof (induction s arbitrary: n rule: length_induct)
  case (1 s)
  show ?case
  proof (cases s)
    case (Cons b t)
    show ?thesis
    proof (cases "slash b")
      case True
      then show ?thesis using 1 Cons by (simp add: split_fields_delim)
    next
      case False
      let ?w = "takeWhile (\<lambda>b. \<not> slash b) t" and ?r = "dropWhile (\<lambda>b. \<not> slash b) t"
      have reset: "verify_loop ?r m k = verify_loop ?r m 0" for m k
      proof (cases ?r)
        case (Cons c r)
        then have "slash c" using hd_dropWhile [of "\<lambda>b. \<not> slash b" t] by auto
        then show ?thesis using Cons by simp
      qed (simp del: dropWhile_eq_Nil_conv)
      have len: "length s = length (b # ?w) + length ?r" using Cons by (metis append_Cons length_append takeWhile_dropWhile_id)
      have "verify_loop s n 0 = verify_loop ((b # ?w) @ ?r) n 0" using Cons by simp
      also have "\<dots> = (if length (b # ?w) > NAME_MAX then - ENAMETOOLONG else verify_loop ?r (n + length (b # ?w)) 0)"
      proof -
        have "\<forall>c \<in> set (b # ?w). \<not> slash c" using False by (auto dest: set_takeWhileD)
        from verify_loop_component [OF this, of ?r n 0] show ?thesis unfolding reset [of _ "0 + length (b # ?w)"] by simp
      qed
      finally show ?thesis using 1 [rule_format, of ?r "n + length (b # ?w)"] len False Cons by (auto simp: split_fields_token)
    qed
  qed simp
qed

lemma verify_loop_err: "verify_loop s n k \<in> {0, - ENAMETOOLONG}"
  by (induction s n k rule: verify_loop.induct) auto

text \<open>\<^verbatim>\<open>verify_path\<close> accepts exactly the non-empty paths of at most \<^verbatim>\<open>PATH_MAX\<close> bytes whose components all have at most \<^verbatim>\<open>NAME_MAX\<close>; every other path is rejected with \<^verbatim>\<open>EINVAL\<close> if it is empty and
  with \<^verbatim>\<open>ENAMETOOLONG\<close> otherwise.
\<close>

theorem verify_path_correct:
  "verify_path (Some s) =
    (if s = [] then - EINVAL
     else if length s \<le> PATH_MAX \<and> (\<forall>f \<in> set (split_fields slash s). length f \<le> NAME_MAX) then 0
     else - ENAMETOOLONG)"
  using verify_loop_fields [of s 0] verify_loop_err [of s 0 0] by (auto simp: verify_path_def)

theorem verify_path_correct_witness: "verify_path (Some sample_path) = 0"
  unfolding verify_path_correct by code_simp

section \<open>Parsing\<close>

lemma foreach_Some [simp]: "foreach (map Some ts @ None # xs) = ts"
  by (induction ts) auto

lemma reduce_plain:
  assumes "\<forall>t \<in> set ts. str t \<notin> {[46], [46, 46]}"
  shows "reduce_loop str ts (map Some us @ replicate (length ts + 1) None) (length us) lst = (map Some (us @ ts) @ [None], length us + length ts, if ts = [] then lst else Some (last ts))"
  using assms
proof (induction ts arbitrary: us lst)
  case (Cons t ts)
  have "(map Some us @ replicate (length (t # ts) + 1) None)[length us := Some t] = map Some (us @ [t]) @ replicate (length ts + 1) None"
    by (simp add: list_update_append)
  then show ?case using Cons.IH [of "us @ [t]" "Some t"] Cons.prems by simp
qed simp

text \<open>Joining: every token but the last is followed by a slash, the last one if the path names a directory.\<close>

fun join :: "bool \<Rightarrow> u8 list list \<Rightarrow> u8 list" where
  "join isdir [] = []"
| "join isdir [f] = f @ (if isdir then [47] else [])"
| "join isdir (f # fs) = f @ [47] @ join isdir fs"

lemma absolute_joins:
  assumes "distinct ts" "ts \<noteq> []" "\<forall>t \<in> set ts. length (str t) \<le> MAXFNAME" "length acc < pathlen"
  shows "absolute_loop str (\<lambda>_. True) (Some (last ts)) isdir ts pathlen (length acc) (Some acc) = Some (Inr (Some (acc @ join isdir (map str ts))))"
  using assms
proof (induction ts arbitrary: acc pathlen)
  case (Cons t ts)
  show ?case
  proof (cases ts)
    case Nil
    then show ?thesis using Cons.prems by (simp add: Let_def write_token_def)
  next
    case us: (Cons u us)
    have "absolute_loop str (\<lambda>_. True) (Some (last ts)) isdir ts (pathlen + length (str t) + 2) (length (acc @ str t @ [47])) (Some (acc @ str t @ [47])) =
      Some (Inr (Some ((acc @ str t @ [47]) @ join isdir (map str ts))))"
      using Cons.prems us by (intro Cons.IH) auto
    moreover have "t \<noteq> last ts" using Cons.prems(1) us by (metis distinct.simps(2) last_in_set list.distinct(1))
    moreover have "last (t # ts) = last ts" "join isdir (map str (t # ts)) = str t @ [47] @ join isdir (map str ts)" using us by simp_all
    ultimately show ?thesis using Cons.prems by (simp add: Let_def write_token_def)
  qed
qed simp


lemma chr_slash: "(\<lambda>b. chr b = 47) = slash"
proof
  fix b :: u8
  have "sint b = sint (47 :: u8) \<longleftrightarrow> b = 47" by (metis signed_word_eqI)
  then show "(chr b = 47) = slash b" by (simp add: chr_def)
qed

lemma split_join:
  assumes "\<forall>f \<in> set fs. f \<noteq> [] \<and> 47 \<notin> set f"
  shows "split_fields slash (join d fs) = fs"
proof -
  have token: "split_fields slash (f @ 47 # t) = f # split_fields slash t" "split_fields slash f = [f]" if w: "f \<noteq> []" "47 \<notin> set f" for f t
  proof -
    obtain b g where f: "f = b # g" "b \<noteq> 47" using w by (cases f) auto
    have g: "takeWhile (\<lambda>b. b \<noteq> 47) g = g" "dropWhile (\<lambda>b. b \<noteq> 47) g = []" using w f by (auto simp: takeWhile_eq_all_conv)
    then show "split_fields slash (f @ 47 # t) = f # split_fields slash t" "split_fields slash f = [f]"
      using w f by (auto simp: split_fields_token split_fields_delim takeWhile_append dropWhile_append simp del: dropWhile_eq_Nil_conv takeWhile_eq_all_conv)
  qed
  show ?thesis using assms by (induction d fs rule: join.induct) (auto simp: token)
qed

lemma split_fields_plain: "f \<in> set (split_fields slash s) \<Longrightarrow> f \<noteq> [] \<and> 47 \<notin> set f"
proof (induction s rule: length_induct)
  case (1 s)
  show ?case
  proof (cases s)
    case (Cons b t)
    have "f \<noteq> [] \<and> 47 \<notin> set f" if "f \<in> set (split_fields slash (dropWhile (\<lambda>b. \<not> slash b) t))"
      using 1(1) that Cons length_dropWhile_le [of "\<lambda>b. \<not> slash b" t] by (simp add: less_Suc_eq_le)
    then show ?thesis using 1 Cons by (cases "slash b") (auto simp: split_fields_delim split_fields_token dest: set_takeWhileD)
  qed (use 1 in simp)
qed

lemma parse_tokens:
  assumes "0 \<notin> set s" "verify_path (Some s) = 0"
  shows "\<exists>ts buf. canonicalize_path (Some s) True True True = Some (Inr (tok_result (ts, buf))) \<and> map (string_at buf) ts = split_fields slash s \<and> distinct ts \<and>
    (\<forall>t \<in> set ts. length (string_at buf t) \<le> MAXFNAME)"
proof -
  obtain ts buf where ts: "tokenize (Some s) 47 True True True = Some (Inr (tok_result (ts, buf)))" "map (string_at buf) ts = split_fields slash s" "distinct ts"
    using tokenize_split [OF assms(1), of 47] unfolding chr_slash by auto
  have "length f \<le> MAXFNAME" if "f \<in> set (split_fields slash s)" for f
    using assms(2) that verify_loop_fields [of s 0] by (auto simp: verify_path_def NAME_MAX_def MAXFNAME_def split: if_splits)
  then have "\<forall>t \<in> set ts. length (string_at buf t) \<le> MAXFNAME" unfolding ts(2) [symmetric] by simp
  then show ?thesis using ts unfolding canonicalize_path_def by blast
qed

lemma absolute_first:
  assumes "distinct ts" "\<forall>t \<in> set ts. length (str t) \<le> MAXFNAME" "ts \<noteq> []"
  shows "absolute_loop str (\<lambda>_. True) (Some (last ts)) isdir ts 0 0 None = (if length ts = 1 then None else Some (Inr (Some (join isdir (map str ts)))))"
proof -
  obtain t us where ts: "ts = t # us" using assms(3) by (cases ts) auto
  show ?thesis
  proof (cases us)
    case Nil
    then show ?thesis using assms(2) ts by (simp add: Let_def write_token_def)
  next
    case (Cons u vs)
    have "absolute_loop str (\<lambda>_. True) (Some (last us)) isdir us (length (str t) + 2) (length (str t @ [47])) (Some (str t @ [47])) =
      Some (Inr (Some ((str t @ [47]) @ join isdir (map str us))))" using assms ts Cons by (intro absolute_joins) auto
    moreover have "t \<noteq> last us" "last ts = last us" "length us \<noteq> 0" using assms(1) ts Cons by auto
    moreover have "join isdir (map str ts) = str t @ [47] @ join isdir (map str us)" using ts Cons by simp
    ultimately show ?thesis using assms(2) ts by (simp add: Let_def write_token_def)
  qed
qed

lemma parse_plain:
  assumes "0 \<notin> set s" "verify_path (Some s) = 0" "2 \<le> length (split_fields slash s)" "\<forall>f \<in> set (split_fields slash s). f \<notin> {[46], [46, 46]}"
  shows "\<exists>vp buf. vfspath_parse (\<lambda>_. True) (Some s) 0 True = Some (Inr (Some (vp, buf))) \<and> map (string_at buf) (foreach (tokenized_at vp)) = split_fields slash s \<and>
    tokencount vp = length (split_fields slash s) \<and> (vp_flags vp AND PATH_ISDIR \<noteq> 0 \<longleftrightarrow> slash (last s)) \<and>
    absolute vp = Some (join (slash (last s)) (split_fields slash s))"
proof -
  obtain ts buf where ts: "canonicalize_path (Some s) True True True = Some (Inr (tok_result (ts, buf)))" "map (string_at buf) ts = split_fields slash s" "distinct ts"
    "\<forall>t \<in> set ts. length (string_at buf t) \<le> MAXFNAME" using parse_tokens [OF assms(1,2)] by blast
  have "length ts = length (split_fields slash s)" using ts(2) by (metis length_map)
  then have ne: "ts \<noteq> []" "length ts \<noteq> 1" "length ts = length (split_fields slash s)" using assms(3) by auto
  have "\<forall>t \<in> set ts. string_at buf t \<notin> {[46], [46, 46]}" using assms(4) unfolding ts(2) [symmetric] by simp
  from reduce_plain [OF this, of "[]" "Some (last ts)"] ne(1)
  have red: "reduce_loop (string_at buf) ts (replicate (length ts + 1) None) 0 (Some (last ts)) = (map Some ts @ [None], length ts, Some (last ts))" by simp
  note abs = absolute_first [OF ts(3,4) ne(1), of "slash (last s)"]
  have "s \<noteq> []" using assms(2) by (auto simp: verify_path_def)
  then show ?thesis using assms(2) ts(1,2) ne red abs
    by (simp add: vfspath_parse_def Let_def tok_result_def PATH_VERIFY_ONLY_def PATH_ABSOLUTE_def PATH_NOABS_def PATH_NOTOKENIZED_def PATH_ISDIR_def)
qed

text \<open>C34: Parsing a valid path of at least two components, none of them \<^verbatim>\<open>.\<close> or \<^verbatim>\<open>..\<close>: the call succeeds and gives the components of the path as tokens, in order, up to the null pointer that ends the array; their
  number; and the flag for a directory exactly when the path ends in a slash.
\<close>

theorem vfspath_parse_components:
  assumes "0 \<notin> set s" "verify_path (Some s) = 0" "2 \<le> length (split_fields slash s)" "\<forall>f \<in> set (split_fields slash s). f \<notin> {[46], [46, 46]}"
  shows "\<exists>vp buf. vfspath_parse (\<lambda>_. True) (Some s) 0 True = Some (Inr (Some (vp, buf))) \<and> map (string_at buf) (foreach (tokenized_at vp)) = split_fields slash s \<and>
    tokencount vp = length (split_fields slash s) \<and> (vp_flags vp AND PATH_ISDIR \<noteq> 0 \<longleftrightarrow> slash (last s))"
  using parse_plain [OF assms] by blast

text \<open>The member \<^verbatim>\<open>absolute\<close>, which \<^verbatim>\<open>path.h\<close> calls a path from the root directory, does not start with a slash even when the path does: it is the components joined by slashes.  It splits into the same components again.
\<close>

theorem vfspath_absolute_joined:
  assumes "0 \<notin> set s" "verify_path (Some s) = 0" "2 \<le> length (split_fields slash s)" "\<forall>f \<in> set (split_fields slash s). f \<notin> {[46], [46, 46]}"
  shows "\<exists>vp buf p. vfspath_parse (\<lambda>_. True) (Some s) 0 True = Some (Inr (Some (vp, buf))) \<and> absolute vp = Some p \<and>
    p = join (slash (last s)) (split_fields slash s) \<and> split_fields slash p = split_fields slash s"
  using parse_plain [OF assms] split_join [of "split_fields slash s"] split_fields_plain [of _ s] assms(3) by force

text \<open>A valid path with a single component that is neither \<^verbatim>\<open>.\<close> nor \<^verbatim>\<open>..\<close> makes \<^verbatim>\<open>vfspath_parse\<close> write one byte beyond the block it allocates for the absolute path: the length it computes has no room for
  the terminator.
\<close>

theorem vfspath_parse_single_overruns:
  assumes "0 \<notin> set s" "verify_path (Some s) = 0" "split_fields slash s = [f]" "f \<notin> {[46], [46, 46]}"
  shows "vfspath_parse (\<lambda>_. True) (Some s) 0 True = None"
proof -
  obtain ts buf where ts: "canonicalize_path (Some s) True True True = Some (Inr (tok_result (ts, buf)))" "map (string_at buf) ts = split_fields slash s" "distinct ts"
    "\<forall>t \<in> set ts. length (string_at buf t) \<le> MAXFNAME" using parse_tokens [OF assms(1,2)] by blast
  obtain t where t: "ts = [t]" "string_at buf t = f" using ts(2) assms(3) by auto
  have "s \<noteq> []" using assms(2) by (auto simp: verify_path_def)
  then show ?thesis using assms(2,4) ts(1,4) t absolute_first [of "[t]" "string_at buf" "slash (last s)"]
    by (simp add: vfspath_parse_def Let_def tok_result_def PATH_VERIFY_ONLY_def PATH_ABSOLUTE_def PATH_NOABS_def)
qed

text \<open>The hypotheses of the theorems on parsing hold for ordinary paths.\<close>

theorem vfspath_parse_components_witness:
  "\<exists>vp buf. vfspath_parse (\<lambda>_. True) (Some sample_path) 0 True = Some (Inr (Some (vp, buf))) \<and> map (string_at buf) (foreach (tokenized_at vp)) = [[117, 115, 114], [98, 105, 110]] \<and>
    tokencount vp = 2 \<and> vp_flags vp AND PATH_ISDIR \<noteq> 0"
proof -
  have f: "split_fields slash sample_path = [[117, 115, 114], [98, 105, 110]]" "verify_path (Some sample_path) = 0" "0 \<notin> set sample_path" "last sample_path = 47" by code_simp+
  then show ?thesis using vfspath_parse_components [of sample_path] by fastforce
qed

theorem vfspath_parse_single_overruns_witness: "vfspath_parse (\<lambda>_. True) (Some [47, 98, 105, 110]) 0 True = None"
proof -
  have "split_fields slash [47, 98, 105, 110] = [[98, 105, 110]]" "verify_path (Some [47, 98, 105, 110]) = 0" by code_simp+
  from vfspath_parse_single_overruns [OF _ this(2,1)] show ?thesis by simp
qed

text \<open>A component \<^verbatim>\<open>..\<close> steps back in the array of tokens but leaves the token it removes there, so the path is not reduced: \<^verbatim>\<open>a/b/..\<close> is parsed as \<^verbatim>\<open>a/b\<close>, and \<^verbatim>\<open>a/b/c/../../d\<close> as \<^verbatim>\<open>a/dc/\<close> with the tokens
  \<^verbatim>\<open>a\<close>, \<^verbatim>\<open>d\<close> and \<^verbatim>\<open>c\<close>, although the number of tokens is right.
\<close>

theorem vfspath_parse_dotdot_stale:
  "map_option (map_sum id (map_option (\<lambda>(vp, buf). (tokencount vp, map (string_at buf) (foreach (tokenized_at vp)), absolute vp))))
     (vfspath_parse (\<lambda>_. True) (Some [97, 47, 98, 47, 46, 46]) 0 True) = Some (Inr (Some (1, [[97], [98]], Some [97, 47, 98]))) \<and>
   map_option (map_sum id (map_option (\<lambda>(vp, buf). (tokencount vp, map (string_at buf) (foreach (tokenized_at vp)), absolute vp))))
     (vfspath_parse (\<lambda>_. True) (Some [97, 47, 98, 47, 99, 47, 46, 46, 47, 46, 46, 47, 100]) 0 True) = Some (Inr (Some (2, [[97], [100], [99]], Some [97, 47, 100, 99, 47])))"
  by code_simp

end
