(* ===== verification/Klist.thy ===== *)
theory Klist
  imports Prelude
begin

text \<open>
  Circular lists with a sentinel: \<^verbatim>\<open>ds/list.c\<close> and the inline functions of \<^verbatim>\<open>include/ds/list.h\<close>.  The heap maps addresses to nodes; a null or unmapped pointer faults.  \<open>ring h head ns\<close> says that
  the nodes \<open>ns\<close> form the list with the sentinel \<open>head\<close>.
\<close>

section \<open>Nodes\<close>

record list_head =
  lh_prev :: addr
  lh_data :: addr
  lh_next :: addr

type_synonym list_heap = "addr \<Rightarrow> list_head option"

definition nxt :: "list_heap \<Rightarrow> addr \<Rightarrow> addr option" where
  "nxt h p = (if p = NULL then None else map_option lh_next (h p))"

definition prv :: "list_heap \<Rightarrow> addr \<Rightarrow> addr option" where
  "prv h p = (if p = NULL then None else map_option lh_prev (h p))"

definition set_nxt :: "list_heap \<Rightarrow> addr \<Rightarrow> addr \<Rightarrow> list_heap option" where
  "set_nxt h p v = (if p = NULL then None else map_option (\<lambda>n. h(p \<mapsto> n\<lparr>lh_next := v\<rparr>)) (h p))"

definition set_prv :: "list_heap \<Rightarrow> addr \<Rightarrow> addr \<Rightarrow> list_heap option" where
  "set_prv h p v = (if p = NULL then None else map_option (\<lambda>n. h(p \<mapsto> n\<lparr>lh_prev := v\<rparr>)) (h p))"

definition INIT_LIST_HEAD :: "list_heap \<Rightarrow> addr \<Rightarrow> list_heap option" where
  "INIT_LIST_HEAD h p = (if p = NULL then None else map_option (\<lambda>n. h(p \<mapsto> \<lparr>lh_prev = p, lh_data = NULL, lh_next = p\<rparr>)) (h p))"

section \<open>Operations\<close>

definition list_empty :: "list_heap \<Rightarrow> addr \<Rightarrow> bool option" where
  "list_empty h head = map_option (\<lambda>n. n = head) (nxt h head)"

definition list_add_between :: "list_heap \<Rightarrow> addr \<Rightarrow> addr \<Rightarrow> addr \<Rightarrow> list_heap option" where
  "list_add_between h node prev next = do {
     h \<leftarrow> set_prv h node prev; h \<leftarrow> set_nxt h prev node; h \<leftarrow> set_nxt h node next; set_prv h next node }"

definition list_add :: "list_heap \<Rightarrow> addr \<Rightarrow> addr \<Rightarrow> list_heap option" where
  "list_add h node head = do { n \<leftarrow> nxt h head; list_add_between h node head n }"

definition list_add_tail :: "list_heap \<Rightarrow> addr \<Rightarrow> addr \<Rightarrow> list_heap option" where
  "list_add_tail h node head = do { p \<leftarrow> prv h head; list_add_between h node p head }"

definition list_remove_between :: "list_heap \<Rightarrow> addr \<Rightarrow> addr \<Rightarrow> list_heap option" where
  "list_remove_between h prev next = do { h \<leftarrow> set_prv h next prev; set_nxt h prev next }"

definition list_remove :: "list_heap \<Rightarrow> addr \<Rightarrow> list_heap option" where
  "list_remove h node = do { p \<leftarrow> prv h node; n \<leftarrow> nxt h node; list_remove_between h p n }"

definition list_remove_tail :: "list_heap \<Rightarrow> addr \<Rightarrow> list_heap option" where
  "list_remove_tail h head = do {
     e \<leftarrow> list_empty h head;
     if e then Some h else do { t \<leftarrow> prv h head; p \<leftarrow> prv h t; list_remove_between h p head } }"

definition list_replace :: "list_heap \<Rightarrow> addr \<Rightarrow> addr \<Rightarrow> list_heap option" where
  "list_replace h old new = do {
     n \<leftarrow> nxt h old; h \<leftarrow> set_nxt h new n;
     n \<leftarrow> nxt h new; h \<leftarrow> set_prv h n new;
     p \<leftarrow> prv h old; h \<leftarrow> set_prv h new p;
     p \<leftarrow> prv h new; h \<leftarrow> set_nxt h p new;
     INIT_LIST_HEAD h old }"

definition list_rellocate_between :: "list_heap \<Rightarrow> addr \<Rightarrow> addr \<Rightarrow> addr \<Rightarrow> list_heap option" where
  "list_rellocate_between h node prev next = do {
     p \<leftarrow> prv h node; n \<leftarrow> nxt h node; h \<leftarrow> list_remove_between h p n; list_add_between h node prev next }"

definition list_rellocate_node :: "list_heap \<Rightarrow> addr \<Rightarrow> addr \<Rightarrow> list_heap option" where
  "list_rellocate_node h node head = do { n \<leftarrow> nxt h head; list_rellocate_between h node head n }"

text \<open>\<^verbatim>\<open>list_slice\<close> returns the address of its static sentinel, here the argument \<open>sl\<close>.\<close>

definition list_slice :: "list_heap \<Rightarrow> addr \<Rightarrow> addr \<Rightarrow> addr \<Rightarrow> addr \<Rightarrow> list_heap option" where
  "list_slice h sl head start fin = do {
     h \<leftarrow> INIT_LIST_HEAD h sl;
     e \<leftarrow> (if start = fin then Some True else list_empty h head);
     if e then Some h
     else do {
       p \<leftarrow> prv h start; h \<leftarrow> set_nxt h p fin;
       p \<leftarrow> prv h start; h \<leftarrow> set_prv h fin p;
       h \<leftarrow> set_nxt h sl start;
       p \<leftarrow> prv h fin; h \<leftarrow> set_prv h sl p;
       h \<leftarrow> set_prv h start sl;
       p \<leftarrow> prv h fin; set_nxt h p sl } }"

definition list_merge :: "list_heap \<Rightarrow> addr \<Rightarrow> addr \<Rightarrow> list_heap option" where
  "list_merge h list1 list2 = do {
     e \<leftarrow> list_empty h list2;
     if e then Some h
     else do {
       p \<leftarrow> prv h list1; n \<leftarrow> nxt h list2; h \<leftarrow> set_nxt h p n;
       n \<leftarrow> nxt h list2; p \<leftarrow> prv h list1; h \<leftarrow> set_prv h n p;
       p \<leftarrow> prv h list2; h \<leftarrow> set_nxt h p list1;
       p \<leftarrow> prv h list2; h \<leftarrow> set_prv h list1 p;
       INIT_LIST_HEAD h list2 } }"

definition list_slice_and_merge :: "list_heap \<Rightarrow> addr \<Rightarrow> addr \<Rightarrow> addr \<Rightarrow> addr \<Rightarrow> addr \<Rightarrow> list_heap option" where
  "list_slice_and_merge h sl src dest start fin = do { h \<leftarrow> list_slice h sl src start fin; list_merge h dest sl }"

partial_function (option) length_loop :: "list_heap \<Rightarrow> addr \<Rightarrow> addr \<Rightarrow> u64 \<Rightarrow> u64 option" where
  "length_loop h head node len = (if node \<noteq> head then Option.bind (nxt h node) (\<lambda>n. length_loop h head n (len + 1)) else Some len)"

definition list_length :: "list_heap \<Rightarrow> addr \<Rightarrow> u64 option" where
  "list_length h head = do { n \<leftarrow> nxt h head; length_loop h head n 0 }"

partial_function (option) nth_loop :: "list_heap \<Rightarrow> addr \<Rightarrow> addr \<Rightarrow> u64 \<Rightarrow> addr option" where
  "nth_loop h head node n = (if node \<noteq> head \<and> n \<noteq> 0 then Option.bind (nxt h node) (\<lambda>x. nth_loop h head x (n - 1)) else Some node)"

definition list_nth :: "list_heap \<Rightarrow> addr \<Rightarrow> u64 \<Rightarrow> addr option" where
  "list_nth h head n = do { x \<leftarrow> nxt h head; x \<leftarrow> nth_loop h head x n; Some (if x = head then NULL else x) }"

text \<open>The two searches of \<^verbatim>\<open>list_migrate_range\<close>: with the links \<open>step\<close>, one node ahead, and counting \<open>pos\<close> up or down.\<close>

partial_function (option) start_loop :: "(addr \<Rightarrow> addr option) \<Rightarrow> u64 \<Rightarrow> addr \<Rightarrow> u64 \<Rightarrow> addr \<Rightarrow> addr \<Rightarrow> u64 \<Rightarrow> addr option" where
  "start_loop step inc src start_pos node next pos =
    (if node \<noteq> src
     then if pos = start_pos then Some node else Option.bind (step next) (\<lambda>n. start_loop step inc src start_pos next n (pos + inc))
     else Some NULL)"

partial_function (option) end_loop :: "list_heap \<Rightarrow> addr \<Rightarrow> u64 \<Rightarrow> u64 \<Rightarrow> addr \<Rightarrow> addr option" where
  "end_loop h src i k node =
    (if i < k then Option.bind (nxt h node) (\<lambda>n. if n = src then Some node else end_loop h src (i + 1) k n) else Some node)"

datatype whence = LIST_RELLOC_HEAD | LIST_RELLOC_TAIL | RELLOC_OTHER

definition find_start :: "list_heap \<Rightarrow> addr \<Rightarrow> u64 \<Rightarrow> whence \<Rightarrow> addr option option" where
  "find_start h src start_pos w =
    (case w of
       LIST_RELLOC_HEAD \<Rightarrow> do {
         n \<leftarrow> nxt h src; n2 \<leftarrow> nxt h n;
         s \<leftarrow> start_loop (nxt h) 1 src start_pos n n2 0;
         Some (if s = NULL then None else Some s) }
     | LIST_RELLOC_TAIL \<Rightarrow> do {
         len \<leftarrow> list_length h src;
         if start_pos \<ge> len then Some None
         else do {
           p \<leftarrow> prv h src; p2 \<leftarrow> prv h p;
           s \<leftarrow> start_loop (prv h) (- 1) src start_pos p p2 (len - 1 - start_pos);
           Some (if s = NULL then None else Some s) } }
     | RELLOC_OTHER \<Rightarrow> Some None)"

text \<open>Taking the nodes from \<open>s\<close> to \<open>e\<close> out of their list and putting them at the end of another.\<close>

definition splice_range :: "list_heap \<Rightarrow> addr \<Rightarrow> addr \<Rightarrow> addr \<Rightarrow> list_heap option" where
  "splice_range h dst s e = do {
     p \<leftarrow> prv h s; n \<leftarrow> nxt h e; h \<leftarrow> set_nxt h p n;
     n \<leftarrow> nxt h e; p \<leftarrow> prv h s; h \<leftarrow> set_prv h n p;
     d \<leftarrow> prv h dst; h \<leftarrow> set_prv h s d;
     h \<leftarrow> set_nxt h e dst;
     d \<leftarrow> prv h dst; h \<leftarrow> set_nxt h d s;
     set_prv h dst e }"

definition list_migrate_range :: "list_heap \<Rightarrow> addr \<Rightarrow> addr \<Rightarrow> u64 \<Rightarrow> u64 \<Rightarrow> whence \<Rightarrow> (int \<times> list_heap) option" where
  "list_migrate_range h dst src start_pos num_nodes w = do {
     e \<leftarrow> list_empty h src;
     if e \<or> num_nodes = 0 then Some (0, h)
     else do {
       r \<leftarrow> find_start h src start_pos w;
       case r of
         None \<Rightarrow> Some (- EINVAL, h)
       | Some s \<Rightarrow> do { e \<leftarrow> end_loop h src 0 (num_nodes - 1) s; h \<leftarrow> splice_range h dst s e; Some (0, h) } } }"

declare length_loop.simps [code] nth_loop.simps [code] start_loop.simps [code] end_loop.simps [code]

section \<open>Lists as paths\<close>

fun path :: "(addr \<Rightarrow> addr option) \<Rightarrow> (addr \<Rightarrow> addr option) \<Rightarrow> addr list \<Rightarrow> bool" where
  "path N P (x # y # zs) \<longleftrightarrow> N x = Some y \<and> P y = Some x \<and> path N P (y # zs)"
| "path N P _ \<longleftrightarrow> True"

definition ring :: "list_heap \<Rightarrow> addr \<Rightarrow> addr list \<Rightarrow> bool" where
  "ring h head ns \<longleftrightarrow> distinct (head # ns) \<and> path (nxt h) (prv h) (head # ns @ [head])"

lemma path_append: "path N P (xs @ y # ys) \<longleftrightarrow> path N P (xs @ [y]) \<and> path N P (y # ys)"
  by (induction N P xs rule: path.induct; cases ys) auto

lemma path_frame:
  assumes "\<And>x. x \<in> set (butlast xs) \<Longrightarrow> N' x = N x" "\<And>y. y \<in> set (tl xs) \<Longrightarrow> P' y = P y"
  shows "path N' P' xs \<longleftrightarrow> path N P xs"
  using assms by (induction N P xs rule: path.induct) auto

section \<open>Elementary updates\<close>

definition node :: "list_heap \<Rightarrow> addr \<Rightarrow> bool" where "node h p \<longleftrightarrow> p \<noteq> NULL \<and> h p \<noteq> None"

lemma nxt_node [simp]: "nxt h p = None \<longleftrightarrow> \<not> node h p" and prv_node [simp]: "prv h p = None \<longleftrightarrow> \<not> node h p"
  by (auto simp: nxt_def prv_def node_def)

lemma nxt_Some: "nxt h p = Some q \<Longrightarrow> node h p" and prv_Some: "prv h p = Some q \<Longrightarrow> node h p"
  by (auto simp: nxt_def prv_def node_def split: if_splits)

text \<open>What an update leaves: the links, and which addresses hold nodes.\<close>

definition links :: "list_heap option \<Rightarrow> list_heap \<Rightarrow> (addr \<Rightarrow> addr option) \<Rightarrow> (addr \<Rightarrow> addr option) \<Rightarrow> bool" where
  "links r h N P \<longleftrightarrow> (\<exists>h'. r = Some h' \<and> node h' = node h \<and> nxt h' = N \<and> prv h' = P)"

lemma links_set_nxt: "node h p \<Longrightarrow> links (set_nxt h p v) h ((nxt h)(p \<mapsto> v)) (prv h)"
  by (auto simp: links_def set_nxt_def node_def nxt_def prv_def fun_eq_iff split: if_splits intro!: exI [of _ "h(p \<mapsto> the (h p)\<lparr>lh_next := v\<rparr>)"])

lemma links_set_prv: "node h p \<Longrightarrow> links (set_prv h p v) h (nxt h) ((prv h)(p \<mapsto> v))"
  by (auto simp: links_def set_prv_def node_def nxt_def prv_def fun_eq_iff split: if_splits intro!: exI [of _ "h(p \<mapsto> the (h p)\<lparr>lh_prev := v\<rparr>)"])

lemma links_INIT: "node h p \<Longrightarrow> links (INIT_LIST_HEAD h p) h ((nxt h)(p \<mapsto> p)) ((prv h)(p \<mapsto> p))"
  by (auto simp: links_def INIT_LIST_HEAD_def node_def nxt_def prv_def fun_eq_iff split: if_splits intro!: exI [of _ "h(p \<mapsto> \<lparr>lh_prev = p, lh_data = NULL, lh_next = p\<rparr>)"])

lemma links_bind:
  assumes "links r h N P" "\<And>h'. node h' = node h \<Longrightarrow> nxt h' = N \<Longrightarrow> prv h' = P \<Longrightarrow> links (f h') h' N' P'"
  shows "links (Option.bind r f) h N' P'"
  using assms by (fastforce simp: links_def)

text \<open>Rules that step through a sequence of reads and writes.\<close>

lemma links_read_nxt: "node h p \<Longrightarrow> links (f (the (nxt h p))) h N P \<Longrightarrow> links (Option.bind (nxt h p) f) h N P"
  by (cases "nxt h p") auto

lemma links_read_prv: "node h p \<Longrightarrow> links (f (the (prv h p))) h N P \<Longrightarrow> links (Option.bind (prv h p) f) h N P"
  by (cases "prv h p") auto

lemma links_last:
  "node h p \<Longrightarrow> N = (nxt h)(p \<mapsto> v) \<Longrightarrow> P = prv h \<Longrightarrow> links (set_nxt h p v) h N P"
  "node h p \<Longrightarrow> N = nxt h \<Longrightarrow> P = (prv h)(p \<mapsto> v) \<Longrightarrow> links (set_prv h p v) h N P"
  "node h p \<Longrightarrow> N = (nxt h)(p \<mapsto> p) \<Longrightarrow> P = (prv h)(p \<mapsto> p) \<Longrightarrow> links (INIT_LIST_HEAD h p) h N P"
  using links_set_nxt links_set_prv links_INIT by auto

lemmas links_steps = links_read_nxt links_read_prv links_bind [OF links_set_nxt] links_bind [OF links_set_prv] links_bind [OF links_INIT] links_last

lemma links_add_between:
  assumes "node h x" "node h p" "node h n"
  shows "links (list_add_between h x p n) h ((nxt h)(p \<mapsto> x, x \<mapsto> n)) ((prv h)(x \<mapsto> p, n \<mapsto> x))"
  unfolding list_add_between_def by (intro links_steps) (simp_all add: assms)

lemma links_remove_between: "node h p \<Longrightarrow> node h n \<Longrightarrow> links (list_remove_between h p n) h ((nxt h)(p \<mapsto> n)) ((prv h)(n \<mapsto> p))"
  unfolding list_remove_between_def by (intro links_steps) simp_all

lemma links_replace:
  assumes "node h old" "node h new" "nxt h old = Some n" "prv h old = Some p" "node h n" "node h p" "old \<noteq> new" "n \<noteq> old" "p \<noteq> old" "n \<noteq> new" "p \<noteq> new"
  shows "links (list_replace h old new) h ((nxt h)(new \<mapsto> n, p \<mapsto> new, old \<mapsto> old)) ((prv h)(n \<mapsto> new, new \<mapsto> p, old \<mapsto> old))"
  unfolding list_replace_def by (intro links_steps) (simp_all add: assms assms(7,8) [symmetric])

section \<open>Rings\<close>

lemma path_join: "path N P (xs @ [a]) \<Longrightarrow> path N P (b # ys) \<Longrightarrow> N a = Some b \<Longrightarrow> P b = Some a \<Longrightarrow> path N P (xs @ a # b # ys)"
  using path_append [of N P xs a "b # ys"] by simp

lemma path_edge: "path N P (xs @ a # b # ys) \<Longrightarrow> N a = Some b \<and> P b = Some a \<and> path N P (xs @ [a]) \<and> path N P (b # ys)"
  using path_append [of N P xs a "b # ys"] by simp

lemma path_glue: "path N P xs \<Longrightarrow> path N P ys \<Longrightarrow> xs \<noteq> [] \<Longrightarrow> ys \<noteq> [] \<Longrightarrow> N (last xs) = Some (hd ys) \<Longrightarrow> P (hd ys) = Some (last xs) \<Longrightarrow> path N P (xs @ ys)"
  by (induction N P xs rule: path.induct) (cases ys, auto)+

lemma ring_nodes: "ring h head ns \<Longrightarrow> x \<in> set (head # ns) \<Longrightarrow> node h x"
proof -
  assume r: "ring h head ns" and "x \<in> set (head # ns)"
  then obtain as bs where "head # ns = as @ x # bs" by (meson split_list)
  then have "head # ns @ [head] = as @ x # bs @ [head]" by simp
  then obtain y ys where "head # ns @ [head] = as @ x # y # ys" by (cases bs) auto
  then show "node h x" using r path_edge [of "nxt h" "prv h" as x y ys] nxt_Some by (auto simp: ring_def)
qed

text \<open>The ring around one of its nodes, and its ends.\<close>

lemma ring_split:
  assumes "ring h head (as @ x # bs)"
  shows "prv h x = Some (last (head # as))" "nxt h x = Some (hd (bs @ [head]))" "path (nxt h) (prv h) (head # as)" "path (nxt h) (prv h) (bs @ [head])"
proof -
  let ?N = "nxt h" and ?P = "prv h"
  obtain y ys where y: "bs @ [head] = y # ys" by (cases bs) auto
  obtain zs z where z: "head # as = zs @ [z]" by (cases "head # as" rule: rev_cases) auto
  have "head # as @ x # bs @ [head] = (head # as) @ x # bs @ [head]" by simp
  also have "\<dots> = zs @ z # x # y # ys" unfolding z y by simp
  finally have p: "path ?N ?P (zs @ z # x # y # ys)" using assms by (simp add: ring_def)
  have "path ?N ?P ((zs @ [z]) @ x # y # ys)" using p by simp
  from path_edge [OF p] path_edge [OF this]
  show "prv h x = Some (last (head # as))" "nxt h x = Some (hd (bs @ [head]))" "path (nxt h) (prv h) (head # as)" "path (nxt h) (prv h) (bs @ [head])"
    unfolding y z by simp_all
qed

lemma ring_ends:
  assumes "ring h head ns"
  shows "nxt h head = Some (hd (ns @ [head]))" "prv h head = Some (last (head # ns))" "path (nxt h) (prv h) (head # ns)" "path (nxt h) (prv h) (ns @ [head])"
proof -
  let ?N = "nxt h" and ?P = "prv h"
  obtain y ys where y: "ns @ [head] = y # ys" by (cases ns) auto
  obtain zs z where z: "head # ns = zs @ [z]" by (cases "head # ns" rule: rev_cases) auto
  have p: "path ?N ?P (head # ns @ [head])" using assms by (simp add: ring_def)
  moreover have "head # ns @ [head] = zs @ z # head # []" using z by (metis append_Cons append_assoc append_Nil)
  ultimately have q: "path ?N ?P (zs @ z # head # [])" "path ?N ?P ([] @ head # y # ys)" using y by (metis, metis append_Nil)
  from path_edge [OF q(1)] path_edge [OF q(2)]
  show "nxt h head = Some (hd (ns @ [head]))" "prv h head = Some (last (head # ns))" "path (nxt h) (prv h) (head # ns)" "path (nxt h) (prv h) (ns @ [head])"
    unfolding y z by simp_all
qed

text \<open>A ring with none of its links changed is still a ring.\<close>

lemma ring_frame:
  assumes "ring h head ns" "\<And>x. x \<in> set (head # ns) \<Longrightarrow> nxt h' x = nxt h x \<and> prv h' x = prv h x"
  shows "ring h' head ns"
proof -
  have "path (nxt h') (prv h') (head # ns @ [head]) \<longleftrightarrow> path (nxt h) (prv h) (head # ns @ [head])"
    using assms(2) by (intro path_frame) (auto simp: butlast_append split: if_splits dest: in_set_butlastD)
  then show ?thesis using assms(1) by (simp add: ring_def)
qed

text \<open>A path whose non-last nodes keep their forward link and whose non-first nodes keep their backward link.\<close>

lemma path_keep: "path N P xs \<Longrightarrow> (\<And>x. x \<in> set (butlast xs) \<Longrightarrow> N' x = N x) \<Longrightarrow> (\<And>y. y \<in> set (tl xs) \<Longrightarrow> P' y = P y) \<Longrightarrow> path N' P' xs"
  using path_frame [of xs N' N P' P] by blast

lemma list_add_ring:
  assumes "ring h head ns" "node h x" "x \<notin> set (head # ns)"
  shows "\<exists>h'. list_add h x head = Some h' \<and> ring h' head (x # ns) \<and> node h' = node h \<and> (\<forall>y. y \<notin> set (head # x # ns) \<longrightarrow> nxt h' y = nxt h y \<and> prv h' y = prv h y)"
proof -
  let ?n = "hd (ns @ [head])" and ?N = "nxt h" and ?P = "prv h"
  let ?N' = "?N(head \<mapsto> x, x \<mapsto> ?n)" and ?P' = "?P(x \<mapsto> head, ?n \<mapsto> x)"
  note e = ring_ends [OF assms(1)]
  have nin: "?n \<in> set (head # ns)" by (cases ns) auto
  have "links (list_add_between h x head ?n) h ?N' ?P'" using assms(2) nin ring_nodes [OF assms(1)] by (intro links_add_between) auto
  then obtain h' where h': "list_add_between h x head ?n = Some h'" "node h' = node h" "nxt h' = ?N'" "prv h' = ?P'" by (auto simp: links_def)
  obtain ys where y: "ns @ [head] = ?n # ys" by (cases ns) auto
  have d: "distinct (ns @ [head])" using assms(1) by (simp add: ring_def)
  have "path ?N' ?P' (ns @ [head])"
  proof (rule path_keep [OF e(4)])
    show "?N' z = ?N z" if "z \<in> set (butlast (ns @ [head]))" for z using that d assms(3) by auto
    show "?P' z = ?P z" if "z \<in> set (tl (ns @ [head]))" for z
    proof -
      have "z \<in> set ys" "?n \<notin> set ys" "z \<in> set (ns @ [head])" using that d y by (metis list.sel(3), metis distinct.simps(2), metis list.set_sel(2) append_is_Nil_conv not_Cons_self2)
      then show ?thesis using assms(3) by auto
    qed
  qed
  then have "path ?N' ?P' ([x] @ ns @ [head])" using assms(3) nin by (intro path_glue [of _ _ "[x]"]) auto
  then have "path ?N' ?P' ([head] @ [x] @ ns @ [head])" using assms(3) nin by (intro path_glue [of _ _ "[head]"]) auto
  then have "ring h' head (x # ns)" using assms(1,3) h' by (auto simp: ring_def)
  then show ?thesis using e(1) h' nin by (auto simp: list_add_def)
qed

lemma last_notin: "distinct xs \<Longrightarrow> xs \<noteq> [] \<Longrightarrow> last xs \<notin> set (butlast xs)"
  by (metis append_butlast_last_id distinct_append disjoint_insert(1) list.simps(15))

lemma hd_notin: "distinct xs \<Longrightarrow> xs \<noteq> [] \<Longrightarrow> hd xs \<notin> set (tl xs)"
  by (cases xs) auto

lemma list_add_tail_ring:
  assumes "ring h head ns" "node h x" "x \<notin> set (head # ns)"
  shows "\<exists>h'. list_add_tail h x head = Some h' \<and> ring h' head (ns @ [x]) \<and> node h' = node h \<and> (\<forall>y. y \<notin> set (head # x # ns) \<longrightarrow> nxt h' y = nxt h y \<and> prv h' y = prv h y)"
proof -
  let ?p = "last (head # ns)" and ?N = "nxt h" and ?P = "prv h"
  let ?N' = "?N(?p \<mapsto> x, x \<mapsto> head)" and ?P' = "?P(x \<mapsto> ?p, head \<mapsto> x)"
  note e = ring_ends [OF assms(1)]
  have pin: "?p \<in> set (head # ns)" by (rule last_in_set) simp
  have "links (list_add_between h x ?p head) h ?N' ?P'" using assms(2) pin ring_nodes [OF assms(1)] by (intro links_add_between) auto
  then obtain h' where h': "list_add_between h x ?p head = Some h'" "node h' = node h" "nxt h' = ?N'" "prv h' = ?P'" by (auto simp: links_def)
  have d: "distinct (head # ns)" using assms(1) by (simp add: ring_def)
  have "path ?N' ?P' (head # ns)"
  proof (rule path_keep [OF e(3)])
    show "?N' z = ?N z" if "z \<in> set (butlast (head # ns))" for z using that last_notin [OF d] assms(3) in_set_butlastD [OF that] by (auto simp del: last.simps butlast.simps)
    show "?P' z = ?P z" if "z \<in> set (tl (head # ns))" for z using that d assms(3) by auto
  qed
  then have "path ?N' ?P' ((head # ns) @ [x])" using assms(3) pin by (intro path_glue [of _ _ "head # ns"]) (auto simp del: last.simps)
  then have "path ?N' ?P' (((head # ns) @ [x]) @ [head])" using assms(3) by (intro path_glue [of _ _ "(head # ns) @ [x]"]) auto
  then have "ring h' head (ns @ [x])" using assms(1,3) h' by (auto simp: ring_def)
  then show ?thesis using e(2) h' pin by (auto simp: list_add_tail_def)
qed

lemma list_remove_ring:
  assumes "ring h head (as @ x # bs)"
  shows "\<exists>h'. list_remove h x = Some h' \<and> ring h' head (as @ bs) \<and> node h' = node h \<and> (\<forall>y. y \<notin> set (head # as @ bs) \<longrightarrow> nxt h' y = nxt h y \<and> prv h' y = prv h y)"
proof -
  let ?p = "last (head # as)" and ?n = "hd (bs @ [head])" and ?N = "nxt h" and ?P = "prv h"
  let ?N' = "?N(?p \<mapsto> ?n)" and ?P' = "?P(?n \<mapsto> ?p)"
  note e = ring_split [OF assms]
  have pin: "?p \<in> set (head # as)" by (rule last_in_set) simp
  have nin: "?n \<in> set (bs @ [head])" by (rule hd_in_set) simp
  have "links (list_remove_between h ?p ?n) h ?N' ?P'" using pin nin ring_nodes [OF assms] by (intro links_remove_between) auto
  then obtain h' where h': "list_remove_between h ?p ?n = Some h'" "node h' = node h" "nxt h' = ?N'" "prv h' = ?P'" by (auto simp: links_def)
  have d: "distinct (head # as @ x # bs)" using assms by (simp add: ring_def)
  then have d1: "distinct (head # as)" "distinct (bs @ [head])" by auto
  have "path ?N' ?P' (head # as)"
  proof (rule path_keep [OF e(3)])
    show "?N' z = ?N z" if "z \<in> set (butlast (head # as))" for z using that last_notin [OF d1(1)] by (auto simp del: last.simps butlast.simps)
    show "?P' z = ?P z" if "z \<in> set (tl (head # as))" for z using that d nin by auto
  qed
  moreover have "path ?N' ?P' (bs @ [head])"
  proof (rule path_keep [OF e(4)])
    show "?N' z = ?N z" if "z \<in> set (butlast (bs @ [head]))" for z using that d pin by (auto simp del: last.simps)
    show "?P' z = ?P z" if "z \<in> set (tl (bs @ [head]))" for z using that hd_notin [OF d1(2)] by auto
  qed
  ultimately have "path ?N' ?P' ((head # as) @ bs @ [head])" by (intro path_glue [of _ _ "head # as" "bs @ [head]"]) (auto simp del: last.simps)
  then have "ring h' head (as @ bs)" using d h' by (auto simp: ring_def)
  moreover have "node h x" using ring_nodes [OF assms, of x] by simp
  ultimately show ?thesis using e(1,2) h' pin nin by (auto simp: list_remove_def simp del: last.simps)
qed

section \<open>Moving a range\<close>

lemma path_parts: "path N P (xs @ ys) \<Longrightarrow> path N P xs \<and> path N P ys"
  by (induction N P xs rule: path.induct; cases ys) auto

lemma links_splice:
  assumes "node h s" "node h e" "node h dst" "prv h s = Some p" "nxt h e = Some n" "prv h dst = Some d" "node h p" "node h n" "node h d"
    "p \<noteq> e" "n \<noteq> s" "n \<noteq> dst" "s \<noteq> dst" "d \<noteq> s"
  shows "links (splice_range h dst s e) h ((nxt h)(p \<mapsto> n, e \<mapsto> dst, d \<mapsto> s)) ((prv h)(n \<mapsto> p, s \<mapsto> d, dst \<mapsto> e))"
  unfolding splice_range_def by (intro links_steps) (simp_all add: assms assms(10-14) [symmetric])

lemma splice_rings:
  assumes "ring h src (as @ bs @ cs)" "ring h dst ms" "bs \<noteq> []" "set (src # as @ bs @ cs) \<inter> set (dst # ms) = {}"
  shows "\<exists>h'. splice_range h dst (hd bs) (last bs) = Some h' \<and> ring h' src (as @ cs) \<and> ring h' dst (ms @ bs) \<and> node h' = node h \<and>
    (\<forall>y. y \<notin> set (src # as @ bs @ cs @ dst # ms) \<longrightarrow> nxt h' y = nxt h y \<and> prv h' y = prv h y)"
proof -
  let ?s = "hd bs" and ?e = "last bs" and ?p = "last (src # as)" and ?n = "hd (cs @ [src])" and ?d = "last (dst # ms)" and ?N = "nxt h" and ?P = "prv h"
  let ?N' = "?N(?p \<mapsto> ?n, ?e \<mapsto> dst, ?d \<mapsto> ?s)" and ?P' = "?P(?n \<mapsto> ?p, ?s \<mapsto> ?d, dst \<mapsto> ?e)"
  have r1: "ring h src (as @ ?s # (tl bs @ cs))" "ring h src ((as @ butlast bs) @ ?e # cs)"
  proof -
    have "bs @ cs = ?s # tl bs @ cs" using assms(3) by (cases bs) auto
    then show "ring h src (as @ ?s # (tl bs @ cs))" using assms(1) by metis
    have "butlast bs @ ?e # cs = bs @ cs" using assms(3) by (cases bs rule: rev_cases) auto
    then show "ring h src ((as @ butlast bs) @ ?e # cs)" using assms(1) by (metis append_assoc)
  qed
  note s = ring_split [OF r1(1)] and e = ring_split [OF r1(2)] and q = ring_ends [OF assms(2)]
  have pin: "?p \<in> set (src # as)" "?d \<in> set (dst # ms)" "?e \<in> set bs" by (rule last_in_set, simp add: assms(3))+
  have nin: "?n \<in> set (cs @ [src])" "?s \<in> set bs" by (rule hd_in_set, simp add: assms(3))+
  have dis: "distinct (src # as @ bs @ cs)" "distinct (dst # ms)" using assms(1,2) by (simp_all add: ring_def)
  have "links (splice_range h dst ?s ?e) h ?N' ?P'"
  proof (rule links_splice)
    show "node h ?s" "node h ?e" "node h ?p" "node h ?n" using ring_nodes [OF assms(1)] pin nin by auto
    show "node h dst" "node h ?d" using ring_nodes [OF assms(2)] pin by auto
    show "?p \<noteq> ?e" "?n \<noteq> ?s" "?n \<noteq> dst" "?s \<noteq> dst" "?d \<noteq> ?s" using pin nin dis assms(4) by auto
  qed (use s(1) e(2) q(2) in simp_all)
  then obtain h' where h': "splice_range h dst ?s ?e = Some h'" "node h' = node h" "nxt h' = ?N'" "prv h' = ?P'" by (auto simp: links_def)
  have N: "?N' z = ?N z" if "z \<noteq> ?p" "z \<noteq> ?e" "z \<noteq> ?d" for z using that by (simp del: last.simps)
  have P: "?P' z = ?P z" if "z \<noteq> ?n" "z \<noteq> ?s" "z \<noteq> dst" for z using that by simp
  have dd: "distinct (src # as)" "distinct (cs @ [src])" "distinct bs" using dis by auto
  have ne: "?p \<noteq> ?e" "?p \<noteq> ?d" "?n \<noteq> ?s" "?n \<noteq> dst" "?e \<noteq> ?d" "?s \<noteq> dst" 
  proof -
    have "set (src # as) \<inter> set bs = {}" "set bs \<inter> set (cs @ [src]) = {}" using dis(1) by auto
    moreover have "set (src # as) \<inter> set (dst # ms) = {}" "set bs \<inter> set (dst # ms) = {}" "set (cs @ [src]) \<inter> set (dst # ms) = {}" "dst \<in> set (dst # ms)" using assms(4) by auto
    ultimately show "?p \<noteq> ?e" "?p \<noteq> ?d" "?n \<noteq> ?s" "?n \<noteq> dst" "?e \<noteq> ?d" "?s \<noteq> dst" using pin nin by (metis IntI empty_iff)+
  qed
  have ends: "?N' ?p = Some ?n" "?P' ?n = Some ?p" "?N' ?d = Some ?s" "?P' ?s = Some ?d" "?N' ?e = Some dst" "?P' dst = Some ?e"
    using ne by (simp_all del: last.simps)
  have "path ?N' ?P' (src # as)"
  proof (rule path_keep [OF s(3)])
    show "?N' z = ?N z" if "z \<in> set (butlast (src # as))" for z
      using last_notin [OF dd(1)] that in_set_butlastD [OF that] pin dis(1) assms(4) by (intro N) (auto simp del: last.simps butlast.simps)
    show "?P' z = ?P z" if "z \<in> set (tl (src # as))" for z using that nin dis(1) assms(4) by (intro P) auto
  qed
  moreover have "path ?N' ?P' (cs @ [src])"
  proof (rule path_keep [OF e(4)])
    show "?N' z = ?N z" if "z \<in> set (butlast (cs @ [src]))" for z using that pin dis(1) assms(4) by (intro N) (auto simp del: last.simps)
    show "?P' z = ?P z" if "z \<in> set (tl (cs @ [src]))" for z
      using hd_notin [OF dd(2)] that list.set_sel(2) [OF _ that] nin dis(1) assms(4) by (intro P) auto
  qed
  ultimately have 1: "path ?N' ?P' ((src # as) @ cs @ [src])" using path_glue [of ?N' ?P' "src # as" "cs @ [src]"] ends(1,2) by blast
  have "path ?N ?P ((src # as) @ bs @ (cs @ [src]))" using assms(1) by (simp add: ring_def)
  then have "path ?N ?P bs" using path_parts by blast
  then have "path ?N' ?P' bs"
  proof (rule path_keep)
    show "?N' z = ?N z" if "z \<in> set (butlast bs)" for z
      using last_notin [OF dd(3) assms(3)] that in_set_butlastD [OF that] pin dis(1) assms(4) by (intro N) (auto simp del: last.simps)
    show "?P' z = ?P z" if "z \<in> set (tl bs)" for z
      using hd_notin [OF dd(3) assms(3)] that list.set_sel(2) [OF assms(3) that] nin dis(1) assms(4) by (intro P) auto
  qed
  moreover have "path ?N' ?P' (dst # ms)"
  proof (rule path_keep [OF q(3)])
    show "?N' z = ?N z" if "z \<in> set (butlast (dst # ms))" for z
      using last_notin [OF dis(2)] that in_set_butlastD [OF that] pin assms(4) by (intro N) (auto simp del: last.simps butlast.simps)
    show "?P' z = ?P z" if "z \<in> set (tl (dst # ms))" for z using that nin dis(2) assms(4) by (intro P) auto
  qed
  ultimately have "path ?N' ?P' ((dst # ms) @ bs)" using path_glue [of ?N' ?P' "dst # ms" bs] ends(3,4) assms(3) by blast
  moreover have "last ((dst # ms) @ bs) = ?e" using assms(3) by simp
  ultimately have 2: "path ?N' ?P' (((dst # ms) @ bs) @ [dst])" using path_glue [of ?N' ?P' "(dst # ms) @ bs" "[dst]"] ends(5,6) by simp
  have "ring h' src (as @ cs)" "ring h' dst (ms @ bs)" using 1 2 h' dis assms(4) by (auto simp: ring_def simp del: last.simps)
  then show ?thesis using h' N P pin nin by (intro exI [of _ h']) (auto simp del: last.simps)
qed

lemma ring_length: "ring h head ns \<Longrightarrow> length ns < 2 ^ 64"
proof -
  assume "ring h head ns"
  then have "distinct (head # ns)" by (simp add: ring_def)
  then have "length (head # ns) = card (set (head # ns))" by (metis distinct_card)
  also have "\<dots> \<le> card (UNIV :: addr set)" by (rule card_mono) simp_all
  finally show ?thesis by (simp add: card_word)
qed

lemma ring_next: "ring h head (as @ x # bs) \<Longrightarrow> nxt h x = Some (hd (bs @ [head]))"
  by (rule ring_split(2))

lemma length_loop_ring: "ring h head (as @ bs) \<Longrightarrow> length_loop h head (hd (bs @ [head])) n = Some (n + of_nat (length bs))"
proof (induction bs arbitrary: as n)
  case Nil
  then show ?case by (subst length_loop.simps) simp
next
  case (Cons x bs)
  have "length_loop h head (hd (bs @ [head])) (n + 1) = Some (n + 1 + of_nat (length bs))" using Cons.IH [of "as @ [x]"] Cons.prems by simp
  moreover have "x \<noteq> head" using Cons.prems by (auto simp: ring_def)
  ultimately show ?case using ring_next [OF Cons.prems] by (subst length_loop.simps) (simp add: algebra_simps)
qed

text \<open>\<^verbatim>\<open>list_length\<close> returns the number of nodes of a list.\<close>

theorem list_length_correct: "ring h head ns \<Longrightarrow> list_length h head = Some (of_nat (length ns))"
  using length_loop_ring [of h head "[]" ns 0] ring_ends(1) [of h head ns] by (simp add: list_length_def)

lemma start_loop_ring:
  assumes "ring h src (as @ bs)" "nxt h (hd (bs @ [src])) = Some y" "length as \<le> unat k"
  shows "start_loop (nxt h) 1 src k (hd (bs @ [src])) y (of_nat (length as)) = Some (if unat k < length (as @ bs) then (as @ bs) ! unat k else NULL)"
  using assms
proof (induction bs arbitrary: as y)
  case Nil
  then show ?case by (subst start_loop.simps) simp
next
  case (Cons x bs)
  have x: "x \<noteq> src" using Cons.prems by (auto simp: ring_def)
  have len: "length as < 2 ^ 64" using ring_length [OF Cons.prems(1)] by simp
  show ?case
  proof (cases "of_nat (length as) = k")
    case True
    then have "unat k = length as" using len by (auto simp: unat_of_nat)
    then show ?thesis using x True by (subst start_loop.simps) (simp add: nth_append)
  next
    case False
    then have k: "length (as @ [x]) \<le> unat k" 
    proof -
      have "k = of_nat (unat k)" by simp
      then have "unat k \<noteq> length as" using False by metis
      then show ?thesis using Cons.prems(3) by simp
    qed
    have y: "y = hd (bs @ [src])" using Cons.prems(2) ring_next [OF Cons.prems(1)] by simp
    have r: "ring h src ((as @ [x]) @ bs)" using Cons.prems(1) by simp
    have "y \<in> set (src # as @ x # bs)" unfolding y by (cases bs) auto
    then have "nxt h y \<noteq> None" using ring_nodes [OF Cons.prems(1), of y] by simp
    then obtain z where z: "nxt h y = Some z" by blast
    have "start_loop (nxt h) 1 src k (hd (bs @ [src])) z (of_nat (length (as @ [x]))) = Some (if unat k < length ((as @ [x]) @ bs) then ((as @ [x]) @ bs) ! unat k else NULL)"
      using z y by (intro Cons.IH [OF r _ k]) simp
    then show ?thesis using x False z y by (subst start_loop.simps) (simp add: add.commute)
  qed
qed

text \<open>The end of the range: at most \<open>k\<close> nodes further, and not beyond the list.\<close>

lemma end_loop_ring:
  assumes "ring h src (as @ x # bs)" "i \<le> k"
  shows "end_loop h src i k x = Some (last (x # take (unat (k - i)) bs))"
  using assms
proof (induction bs arbitrary: as x i)
  case Nil
  then show ?case using ring_next [OF Nil(1)] by (subst end_loop.simps) auto
next
  case (Cons y bs)
  show ?case
  proof (cases "i < k")
    case True
    have r: "ring h src ((as @ [x]) @ y # bs)" using Cons.prems(1) by simp
    have e: "k - (i + 1) = k - i - of_nat 1" by simp
    have "k - i \<noteq> 0" using True by auto
    then have "unat (k - i) \<noteq> 0" by (simp add: unat_eq_0)
    then have u: "unat (k - i) = Suc (unat (k - (i + 1)))" unfolding e using unat_sub_if_size [of "k - i" "1 :: u64"] by (simp add: word_size split: if_splits)
    have "i + 1 \<le> k" using True by (simp add: inc_le)
    then have "end_loop h src (i + 1) k y = Some (last (y # take (unat (k - (i + 1))) bs))" using Cons.IH [OF r] by blast
    moreover have "y \<noteq> src" using Cons.prems(1) by (auto simp: ring_def)
    ultimately show ?thesis using True ring_next [OF Cons.prems(1)] u by (subst end_loop.simps) simp
  next
    case False
    then have "k = i" using Cons.prems(2) by simp
    then show ?thesis by (subst end_loop.simps) simp
  qed
qed

lemma find_start_head:
  assumes "ring h src ns" "ns \<noteq> []"
  shows "find_start h src start LIST_RELLOC_HEAD = Some (if unat start < length ns then Some (ns ! unat start) else None)"
proof -
  let ?x = "hd (ns @ [src])"
  have "?x \<in> set (src # ns)" using assms(2) by (cases ns) auto
  then have "nxt h ?x \<noteq> None" using ring_nodes [OF assms(1), of ?x] by simp
  then obtain y where y: "nxt h ?x = Some y" by blast
  have "start_loop (nxt h) 1 src start ?x y 0 = Some (if unat start < length ns then ns ! unat start else NULL)"
    using start_loop_ring [of h src "[]" ns y start] assms(1) y by simp
  moreover have "ns ! unat start \<noteq> NULL" if "unat start < length ns" using ring_nodes [OF assms(1), of "ns ! unat start"] that by (auto simp: node_def)
  ultimately show ?thesis using ring_ends(1) [OF assms(1)] y by (simp add: find_start_def)
qed

text \<open>C35: \<^verbatim>\<open>list_migrate_range\<close> from the head of a list moves the nodes from the given position on, at most the given number of them, to the end of the other list, in order; the two lists keep everything
  else, and no other node is touched.  A position behind the end is refused.
\<close>

theorem list_migrate_range_head:
  assumes "ring h src ns" "ring h dst ms" "set (src # ns) \<inter> set (dst # ms) = {}" "ns \<noteq> []" "num \<noteq> 0"
  shows "if unat start < length ns
    then \<exists>h'. list_migrate_range h dst src start num LIST_RELLOC_HEAD = Some (0, h') \<and> ring h' src (take (unat start) ns @ drop (unat num) (drop (unat start) ns)) \<and>
      ring h' dst (ms @ take (unat num) (drop (unat start) ns)) \<and> (\<forall>y. y \<notin> set (src # ns @ dst # ms) \<longrightarrow> nxt h' y = nxt h y \<and> prv h' y = prv h y)
    else list_migrate_range h dst src start num LIST_RELLOC_HEAD = Some (- EINVAL, h)"
proof -
  have "nxt h src = Some (hd ns)" "hd ns \<noteq> src" using ring_ends(1) [OF assms(1)] assms(1,4) by (auto simp: ring_def hd_append)
  then have ne: "list_empty h src = Some False" by (simp add: list_empty_def)
  show ?thesis
  proof (cases "unat start < length ns")
    case False
    then show ?thesis using ne assms(5) find_start_head [OF assms(1,4), of start] by (simp add: list_migrate_range_def)
  next
    case True
    let ?as = "take (unat start) ns" and ?s = "ns ! unat start" and ?rest = "drop (Suc (unat start)) ns"
    have split: "ns = ?as @ ?s # ?rest" using True by (simp add: id_take_nth_drop)
    have "unat num \<noteq> 0" using assms(5) by (simp add: unat_eq_0)
    then have n: "unat num = Suc (unat (num - 1))" using unat_sub_if_size [of num "1 :: u64"] by (simp add: word_size)
    have bs: "take (unat num) (drop (unat start) ns) = ?s # take (unat (num - 1)) ?rest" "drop (unat num) (drop (unat start) ns) = drop (unat (num - 1)) ?rest"
      using Cons_nth_drop_Suc [OF True, symmetric] n by simp_all
    have r: "ring h src (?as @ ?s # ?rest)" using assms(1) split by simp
    from end_loop_ring [OF r, of 0 "num - 1"] have e: "end_loop h src 0 (num - 1) ?s = Some (last (?s # take (unat (num - 1)) ?rest))" by simp
    have r2: "ring h src (?as @ (?s # take (unat (num - 1)) ?rest) @ drop (unat (num - 1)) ?rest)" using r by (metis append_Cons append_take_drop_id)
    have "set (?as @ (?s # take (unat (num - 1)) ?rest) @ drop (unat (num - 1)) ?rest) = set ns" using split
      by (metis append_Cons append_take_drop_id)
    then have "\<exists>h'. splice_range h dst ?s (last (?s # take (unat (num - 1)) ?rest)) = Some h' \<and> ring h' src (?as @ drop (unat (num - 1)) ?rest) \<and>
        ring h' dst (ms @ ?s # take (unat (num - 1)) ?rest) \<and> (\<forall>y. y \<notin> set (src # ns @ dst # ms) \<longrightarrow> nxt h' y = nxt h y \<and> prv h' y = prv h y)"
      using splice_rings [OF r2 assms(2)] assms(3) by (auto simp del: last.simps)
    then show ?thesis using True ne assms(5) find_start_head [OF assms(1,4), of start] e unfolding bs by (auto simp: list_migrate_range_def)
  qed
qed

section \<open>The interface of a list\<close>

text \<open>What users of a list rely on: a node can be put at the end, and any node of the list can be taken out.  Filling a list and taking its nodes out in order follows from that.\<close>

locale node_list =
  fixes rep :: "'h \<Rightarrow> 'a \<Rightarrow> 'a list \<Rightarrow> bool" and exists :: "'h \<Rightarrow> 'a \<Rightarrow> bool" and add_tail :: "'h \<Rightarrow> 'a \<Rightarrow> 'a \<Rightarrow> 'h option" and remove :: "'h \<Rightarrow> 'a \<Rightarrow> 'h option"
  assumes add_tail: "rep h l ns \<Longrightarrow> exists h x \<Longrightarrow> x \<notin> set (l # ns) \<Longrightarrow> \<exists>h'. add_tail h x l = Some h' \<and> rep h' l (ns @ [x]) \<and> exists h' = exists h"
    and remove: "rep h l (as @ x # bs) \<Longrightarrow> \<exists>h'. remove h x = Some h' \<and> rep h' l (as @ bs) \<and> exists h' = exists h"
begin

lemma fill:
  "rep h l ns \<Longrightarrow> distinct (ns @ xs) \<Longrightarrow> l \<notin> set xs \<Longrightarrow> (\<And>x. x \<in> set xs \<Longrightarrow> exists h x) \<Longrightarrow>
    \<exists>h'. foldl (\<lambda>r x. Option.bind r (\<lambda>h. add_tail h x l)) (Some h) xs = Some h' \<and> rep h' l (ns @ xs) \<and> exists h' = exists h"
proof (induction xs arbitrary: h ns)
  case (Cons x xs)
  then obtain h1 where h1: "add_tail h x l = Some h1" "rep h1 l (ns @ [x])" "exists h1 = exists h" using add_tail [OF Cons.prems(1), of x] Cons.prems by (cases "x = l") auto
  then show ?case using Cons.IH [of h1 "ns @ [x]"] Cons.prems by simp
qed auto

lemma drain: "rep h l ns \<Longrightarrow> \<exists>h'. foldl (\<lambda>r x. Option.bind r (\<lambda>h. remove h x)) (Some h) ns = Some h' \<and> rep h' l []"
proof (induction ns arbitrary: h)
  case (Cons x ns)
  then obtain h1 where "remove h x = Some h1" "rep h1 l ns" using remove [of h l "[]" x ns] by auto
  then show ?case using Cons.IH by simp
qed auto

end

interpretation kl: node_list ring node list_add_tail list_remove
proof
  show "\<exists>h'. list_add_tail h x l = Some h' \<and> ring h' l (ns @ [x]) \<and> node h' = node h" if "ring h l ns" "node h x" "x \<notin> set (l # ns)" for h l ns x
    using list_add_tail_ring [OF that] by blast
  show "\<exists>h'. list_remove h x = Some h' \<and> ring h' l (as @ bs) \<and> node h' = node h" if "ring h l (as @ x # bs)" for h l as x bs
    using list_remove_ring [OF that] by blast
qed

text \<open>Nodes put at the end of an empty list one after the other form the list in that order, and taking them out in order empties it again.\<close>

theorem list_fill_drain:
  assumes "ring h head []" "distinct xs" "head \<notin> set xs" "\<forall>x \<in> set xs. node h x"
  shows "\<exists>h1 h2. foldl (\<lambda>r x. Option.bind r (\<lambda>h. list_add_tail h x head)) (Some h) xs = Some h1 \<and> ring h1 head xs \<and>
    foldl (\<lambda>r x. Option.bind r (\<lambda>h. list_remove h x)) (Some h1) xs = Some h2 \<and> ring h2 head []"
proof -
  obtain h1 where h1: "foldl (\<lambda>r x. Option.bind r (\<lambda>h. list_add_tail h x head)) (Some h) xs = Some h1" "ring h1 head xs"
    using kl.fill [OF assms(1), of xs] assms(2-4) by auto
  then show ?thesis using kl.drain [OF h1(2)] by blast
qed

text \<open>Six nodes, each a list of its own, and a list of three of them.\<close>

definition sample_heap :: list_heap where
  "sample_heap p = (if p \<in> {8, 16, 24, 32, 40, 48} then Some \<lparr>lh_prev = p, lh_data = NULL, lh_next = p\<rparr> else None)"

definition sample_list :: "list_heap option" where
  "sample_list = foldl (\<lambda>r x. Option.bind r (\<lambda>h. list_add_tail h x 8)) (Some sample_heap) [16, 24, 32]"

lemma sample_rings: "ring sample_heap 8 []" "ring sample_heap 40 []"
  by (simp_all add: ring_def nxt_def prv_def sample_heap_def)

theorem list_fill_drain_witness:
  "\<exists>h1 h2. sample_list = Some h1 \<and> ring h1 8 [16, 24, 32] \<and> foldl (\<lambda>r x. Option.bind r (\<lambda>h. list_remove h x)) (Some h1) [16, 24, 32] = Some h2 \<and> ring h2 8 []"
  unfolding sample_list_def by (rule list_fill_drain [OF sample_rings(1)]) (simp_all add: node_def sample_heap_def)

theorem list_length_correct_witness: "list_length sample_heap 8 = Some 0"
  using list_length_correct [OF sample_rings(1)] by simp

lemma sample_list_rings: "map_option (\<lambda>h. ring h 8 [16, 24, 32] \<and> ring h 40 []) sample_list = Some True"
  by code_simp

theorem list_migrate_range_head_witness:
  "\<exists>h h'. sample_list = Some h \<and> list_migrate_range h 40 8 1 2 LIST_RELLOC_HEAD = Some (0, h') \<and> ring h' 8 [16] \<and> ring h' 40 [24, 32]"
proof -
  obtain h where h: "sample_list = Some h" "ring h 8 [16, 24, 32]" "ring h 40 []" using sample_list_rings by auto
  have "set [8, 16, 24, 32] \<inter> set [40 :: addr] = {}" by simp
  from list_migrate_range_head [OF h(2,3) this, where num = 2 and start = 1] h(1) show ?thesis by auto
qed

text \<open>Three operations do not do what they are for.  \<^verbatim>\<open>list_slice\<close> overwrites the links it still needs, so that list and slice end up as one cycle of all nodes; \<^verbatim>\<open>list_rellocate_node\<close> of the first
  node links the node to itself; \<^verbatim>\<open>list_migrate_range\<close> from the tail takes the first node where the last is asked for.
\<close>

theorem list_operations_broken:
  "map_option (\<lambda>h. (list_length h 8, list_length h 48)) (Option.bind sample_list (\<lambda>h. list_slice h 48 8 16 32)) = Some (Some 4, Some 4) \<and>
   map_option (\<lambda>h. (nxt h 8, nxt h 16, prv h 16)) (Option.bind sample_list (\<lambda>h. list_rellocate_node h 16 8)) = Some (Some 16, Some 16, Some 16) \<and>
   map_option (\<lambda>(r, h). (r, nxt h 40, nxt h 8)) (Option.bind sample_list (\<lambda>h. list_migrate_range h 40 8 0 1 LIST_RELLOC_TAIL)) = Some (0, Some 16, Some 24)"
  by code_simp

end
