(* ===== verification/Hashmap.thy ===== *)
theory Hashmap
  imports Btree Strings
begin

text \<open>
  The hash map of \<^verbatim>\<open>src/src/kernel/ds/hashMap.c\<close>.  Entries with the same hash form a singly linked chain, and a search tree maps hashes to chains.  Keys are opaque: a context of callbacks
  copies, compares, hashes and destroys them in the memory of \<open>Memory\<close>; the default callbacks treat them as strings.  Heaps map addresses to entries and to map objects; the tree of a map is embedded in it.
  The addresses that \<^verbatim>\<open>kmalloc\<close> returns in turn are a part of the state.
\<close>

section \<open>State\<close>

record hashEntry =
  he_key :: addr
  he_next :: addr
  he_value :: addr

text \<open>The callbacks take the memory; \<open>copy\<close> also takes what the allocator will return and gives back what is left.  The callback that prints an entry is left out.\<close>

record hashMapContext =
  ctx_destroy :: "(mem \<Rightarrow> addr \<Rightarrow> mem option) option"
  ctx_copy :: "(addr list \<Rightarrow> mem \<Rightarrow> addr \<Rightarrow> (int \<times> addr option \<times> addr list \<times> mem) option) option"
  ctx_hash :: "(mem \<Rightarrow> u64 \<Rightarrow> addr \<Rightarrow> u64 option) option"
  ctx_compare :: "(mem \<Rightarrow> addr \<Rightarrow> addr \<Rightarrow> bool option) option"

definition HASHMAPCTX_INIT :: hashMapContext where
  "HASHMAPCTX_INIT = \<lparr>ctx_destroy = None, ctx_copy = None, ctx_hash = None, ctx_compare = None\<rparr>"

record hashMap =
  hm_size :: u64
  hm_capacity :: u64
  hm_context :: hashMapContext
  hm_lock :: bool

record hstate =
  hs_mem :: mem
  hs_entries :: "addr \<Rightarrow> hashEntry option"
  hs_maps :: "addr \<Rightarrow> hashMap option"
  hs_trees :: bstate
  hs_alloc :: "addr list"

text \<open>\<^verbatim>\<open>&map->bucket_tree\<close>: the tree follows two words in the object.\<close>

definition bucket_tree :: "addr \<Rightarrow> addr" where
  "bucket_tree mp = mp + 16"

definition eload :: "(addr \<Rightarrow> hashEntry option) \<Rightarrow> addr \<Rightarrow> hashEntry option" where
  "eload E e = (if e = NULL then None else E e)"

definition get_map :: "hstate \<Rightarrow> addr \<Rightarrow> hashMap option" where
  "get_map h mp = (if mp = NULL then None else hs_maps h mp)"

definition put_map :: "hstate \<Rightarrow> addr \<Rightarrow> hashMap \<Rightarrow> hstate" where
  "put_map h mp hm = h\<lparr>hs_maps := (hs_maps h)(mp \<mapsto> hm)\<rparr>"

definition put_entry :: "hstate \<Rightarrow> addr \<Rightarrow> hashEntry \<Rightarrow> hstate" where
  "put_entry h e n = h\<lparr>hs_entries := (hs_entries h)(e \<mapsto> n)\<rparr>"

definition free_entry :: "hstate \<Rightarrow> addr \<Rightarrow> hstate" where
  "free_entry h e = h\<lparr>hs_entries := (hs_entries h)(e := None)\<rparr>"

definition kzalloc :: "hstate \<Rightarrow> addr \<times> hstate" where
  "kzalloc h = (head_or_null (hs_alloc h), h\<lparr>hs_alloc := tl (hs_alloc h)\<rparr>)"

section \<open>Locks\<close>

definition hashMap_assert_locked :: "hstate \<Rightarrow> addr \<Rightarrow> hashMap option" where
  "hashMap_assert_locked h mp = do { hm \<leftarrow> get_map h mp; assert_that (hm_lock hm); Some hm }"

definition hashMap_lock :: "hstate \<Rightarrow> addr \<Rightarrow> hstate option" where
  "hashMap_lock h mp = do { hm \<leftarrow> get_map h mp; assert_that (\<not> hm_lock hm); Some (put_map h mp (hm\<lparr>hm_lock := True\<rparr>)) }"

definition hashMap_unlock :: "hstate \<Rightarrow> addr \<Rightarrow> hstate option" where
  "hashMap_unlock h mp = do { hm \<leftarrow> get_map h mp; assert_that (hm_lock hm); Some (put_map h mp (hm\<lparr>hm_lock := False\<rparr>)) }"

definition hashMap_recursive_lock :: "hstate \<Rightarrow> addr \<Rightarrow> hstate option" where
  "hashMap_recursive_lock h mp = do { hm \<leftarrow> get_map h mp; if hm_lock hm then Some h else hashMap_lock h mp }"

definition btree_lock :: "bstate \<Rightarrow> addr \<Rightarrow> bstate option" where
  "btree_lock st b = do { bt \<leftarrow> get_btree st b; assert_that (\<not> bt_lock bt); Some (put_btree st b (bt\<lparr>bt_lock := True\<rparr>)) }"

definition btree_unlock :: "bstate \<Rightarrow> addr \<Rightarrow> bstate option" where
  "btree_unlock st b = do { bt \<leftarrow> get_btree st b; assert_that (bt_lock bt); Some (put_btree st b (bt\<lparr>bt_lock := False\<rparr>)) }"

definition btree_recursive_lock :: "bstate \<Rightarrow> addr \<Rightarrow> (bool \<times> bstate) option" where
  "btree_recursive_lock st b = do {
     bt \<leftarrow> get_btree st b;
     if bt_lock bt then Some (False, st) else do { st \<leftarrow> btree_lock st b; Some (True, st) } }"

section \<open>Contexts\<close>

text \<open>\<^verbatim>\<open>sha256\<close> comes from a separate repository: a function from bytes to a digest.\<close>

type_synonym digest = "u8 list \<Rightarrow> u8 list"

definition sha256_index :: "digest \<Rightarrow> mem \<Rightarrow> addr \<Rightarrow> u64 \<Rightarrow> u64 option" where
  "sha256_index sha256 m key limit = do {
     n \<leftarrow> strlen m key;
     bs \<leftarrow> load_bytes m key (unat n);
     let hash = sha256 bs;
     let idx = foldl (\<lambda>idx i. push_bit 8 idx OR ucast (hash ! i)) 0 [0..<8];
     if limit = 0 then None else Some (idx mod limit) }"

definition default_hash :: "digest \<Rightarrow> mem \<Rightarrow> u64 \<Rightarrow> addr \<Rightarrow> u64 option" where
  "default_hash sha256 m capacity key = sha256_index sha256 m key capacity"

definition default_match_keys :: "mem \<Rightarrow> addr \<Rightarrow> addr \<Rightarrow> bool option" where
  "default_match_keys m key0 key1 = string_eq m key0 key1"

definition default_copy_key :: "addr list \<Rightarrow> mem \<Rightarrow> addr \<Rightarrow> (int \<times> addr option \<times> addr list \<times> mem) option" where
  "default_copy_key al m key =
     (if key = NULL then Some (- EINVAL, None, al, m)
      else do {
        (copy, m) \<leftarrow> strdup m key (head_or_null al);
        if copy = NULL then Some (- ENOMEM, None, tl al, m) else Some (0, Some copy, tl al, m) })"

text \<open>\<^verbatim>\<open>kfree\<close> of a block of bytes: its bytes stay mapped.\<close>

definition default_destroy_key :: "mem \<Rightarrow> addr \<Rightarrow> mem option" where
  "default_destroy_key m key = Some m"

definition HASHCTX_GET_FUNC :: "hashMapContext option \<Rightarrow> (hashMapContext \<Rightarrow> 'f option) \<Rightarrow> 'f \<Rightarrow> 'f" where
  "HASHCTX_GET_FUNC ctx func fallback = (case Option.bind ctx func of None \<Rightarrow> fallback | Some f \<Rightarrow> f)"

text \<open>The hash of a key for a map, as all operations compute it.\<close>

definition hash_of :: "digest \<Rightarrow> hstate \<Rightarrow> hashMap \<Rightarrow> addr \<Rightarrow> u64 option" where
  "hash_of sha256 h hm key = HASHCTX_GET_FUNC (Some (hm_context hm)) ctx_hash (default_hash sha256) (hs_mem h) (hm_capacity hm) key"

definition keys_match :: "hstate \<Rightarrow> hashMap \<Rightarrow> addr \<Rightarrow> addr \<Rightarrow> bool option" where
  "keys_match h hm k0 k1 = HASHCTX_GET_FUNC (Some (hm_context hm)) ctx_compare default_match_keys (hs_mem h) k0 k1"

section \<open>Entries and maps\<close>

definition hashMap_init :: "hstate \<Rightarrow> addr \<Rightarrow> hashMapContext option \<Rightarrow> (int \<times> hstate) option" where
  "hashMap_init h mp ctx =
     (if mp = NULL then Some (- EINVAL, h)
      else do {
        _ \<leftarrow> get_map h mp;
        let h = put_map h mp \<lparr>hm_size = 0, hm_capacity = 1024, hm_context = (case ctx of Some c \<Rightarrow> c | None \<Rightarrow> HASHMAPCTX_INIT), hm_lock = False\<rparr>;
        (err, st) \<leftarrow> btree_init (hs_trees h) (bucket_tree mp);
        Some (err, h\<lparr>hs_trees := st\<rparr>) })"

text \<open>The object of a map and its tree are one block.\<close>

definition new_map :: "hstate \<Rightarrow> addr \<Rightarrow> hstate" where
  "new_map h mp = (put_map h mp \<lparr>hm_size = 0, hm_capacity = 0, hm_context = HASHMAPCTX_INIT, hm_lock = False\<rparr>)
     \<lparr>hs_trees := put_btree (hs_trees h) (bucket_tree mp) \<lparr>bt_nr_nodes = 0, bt_root = NULL, bt_lock = False\<rparr>\<rparr>"

definition free_map :: "hstate \<Rightarrow> addr \<Rightarrow> hstate" where
  "free_map h mp = h\<lparr>hs_maps := (hs_maps h)(mp := None),
     hs_trees := (hs_trees h)\<lparr>bs_trees := (bs_trees (hs_trees h))(bucket_tree mp := None)\<rparr>\<rparr>"

definition hashMap_alloc :: "hstate \<Rightarrow> hashMapContext option \<Rightarrow> bool \<Rightarrow> (int \<times> addr option \<times> hstate) option" where
  "hashMap_alloc h ctx ref =
     (if \<not> ref then Some (- EINVAL, None, h)
      else do {
        let (mp, h) = kzalloc h;
        if mp = NULL then Some (- ENOMEM, None, h)
        else do {
          (err, h) \<leftarrow> hashMap_init (new_map h mp) mp ctx;
          if err \<noteq> 0 then Some (err, None, free_map h mp) else Some (0, Some mp, h) } })"

definition hashEntry_destroy :: "hashMapContext option \<Rightarrow> hstate \<Rightarrow> addr \<Rightarrow> hstate option" where
  "hashEntry_destroy ctx h entry =
     (if entry = NULL then Some h
      else do {
        n \<leftarrow> eload (hs_entries h) entry;
        h \<leftarrow> (if he_key n \<noteq> NULL
             then do {
               c \<leftarrow> ctx;
               m \<leftarrow> (case ctx_destroy c of Some f \<Rightarrow> f | None \<Rightarrow> default_destroy_key) (hs_mem h) (he_key n);
               Some (h\<lparr>hs_mem := m\<rparr>) }
             else Some h);
        Some (free_entry h entry) })"

definition hashEntry_alloc :: "hashMapContext option \<Rightarrow> hstate \<Rightarrow> addr \<Rightarrow> addr \<Rightarrow> bool \<Rightarrow> (int \<times> addr option \<times> hstate) option" where
  "hashEntry_alloc ctx h key val ref =
     (if key = NULL \<or> \<not> ref then Some (- EINVAL, None, h)
      else do {
        let (entry, h) = kzalloc h;
        if entry = NULL then Some (- ENOMEM, None, h)
        else do {
          (err, k, al, m) \<leftarrow> HASHCTX_GET_FUNC ctx ctx_copy default_copy_key (hs_alloc h) (hs_mem h) key;
          let h = h\<lparr>hs_alloc := al, hs_mem := m\<rparr>;
          if err \<noteq> 0 then Some (err, None, h)
          else Some (0, Some entry, put_entry h entry \<lparr>he_key = (case k of Some k \<Rightarrow> k | None \<Rightarrow> NULL), he_next = NULL, he_value = val\<rparr>) } })"

definition hashMap_duplicate_entry :: "hashMapContext option \<Rightarrow> hstate \<Rightarrow> addr \<Rightarrow> bool \<Rightarrow> (int \<times> addr option \<times> hstate) option" where
  "hashMap_duplicate_entry ctx h entry ref =
     (if entry = NULL \<or> \<not> ref then Some (- EINVAL, None, h)
      else do {
        let (new, h) = kzalloc h;
        if new = NULL then Some (- ENOMEM, None, h)
        else do {
          n \<leftarrow> eload (hs_entries h) entry;
          (err, k, al, m) \<leftarrow> HASHCTX_GET_FUNC ctx ctx_copy default_copy_key (hs_alloc h) (hs_mem h) (he_key n);
          let h = h\<lparr>hs_alloc := al, hs_mem := m\<rparr>;
          if err \<noteq> 0 then Some (err, None, h)
          else Some (0, Some new, put_entry h new \<lparr>he_key = (case k of Some k \<Rightarrow> k | None \<Rightarrow> NULL), he_next = NULL, he_value = he_value n\<rparr>) } })"

text \<open>The loops over a chain: its last entry, and the first one that a test accepts.\<close>

partial_function (option) last_entry :: "(addr \<Rightarrow> hashEntry option) \<Rightarrow> addr \<Rightarrow> addr \<Rightarrow> addr option" where
  "last_entry E node tail = (if node = NULL then Some tail else Option.bind (eload E node) (\<lambda>n. last_entry E (he_next n) node))"

partial_function (option) find_entry :: "(addr \<Rightarrow> bool option) \<Rightarrow> (addr \<Rightarrow> hashEntry option) \<Rightarrow> addr \<Rightarrow> addr option" where
  "find_entry test E node =
     (if node = NULL then Some NULL
      else Option.bind (eload E node) (\<lambda>n. Option.bind (test (he_key n)) (\<lambda>c. if c then Some node else find_entry test E (he_next n))))"

text \<open>The address of a node of the tree comes from the allocator; no node is asked for when the key is found.\<close>

definition tree_insert :: "hstate \<Rightarrow> addr \<Rightarrow> u64 \<Rightarrow> addr \<Rightarrow> (int \<times> hstate) option" where
  "tree_insert h b k d = do {
     (err, st) \<leftarrow> btree_insert (head_or_null (hs_alloc h)) (hs_trees h) b k d;
     Some (err, h\<lparr>hs_trees := st, hs_alloc := tl (hs_alloc h)\<rparr>) }"

definition hashMap_insert_entry :: "digest \<Rightarrow> hstate \<Rightarrow> addr \<Rightarrow> addr \<Rightarrow> (int \<times> hstate) option" where
  "hashMap_insert_entry sha256 h mp entry = do {
     hm \<leftarrow> hashMap_assert_locked h mp;
     st \<leftarrow> btree_lock (hs_trees h) (bucket_tree mp);
     let h = h\<lparr>hs_trees := st\<rparr>;
     n \<leftarrow> eload (hs_entries h) entry;
     hash_key \<leftarrow> hash_of sha256 h hm (he_key n);
     (err, head) \<leftarrow> btree_search st (bucket_tree mp) hash_key True;
     (err, h) \<leftarrow>
       (case head of
          Some head \<Rightarrow> do {
            tail \<leftarrow> last_entry (hs_entries h) head NULL;
            t \<leftarrow> eload (hs_entries h) tail;
            Some (err, put_entry h tail (t\<lparr>he_next := entry\<rparr>)) }
        | None \<Rightarrow> if err = - ENOENT then tree_insert h (bucket_tree mp) hash_key entry else Some (err, h));
     st \<leftarrow> btree_unlock (hs_trees h) (bucket_tree mp);
     let h = h\<lparr>hs_trees := st\<rparr>;
     hm \<leftarrow> get_map h mp;
     Some (err, if err = 0 then put_map h mp (hm\<lparr>hm_size := hm_size hm + 1\<rparr>) else h) }"

definition hashMap_insert :: "digest \<Rightarrow> hstate \<Rightarrow> addr \<Rightarrow> addr \<Rightarrow> addr \<Rightarrow> (int \<times> hstate) option" where
  "hashMap_insert sha256 h mp key val =
     (if mp = NULL \<or> key = NULL then Some (- EINVAL, h)
      else do {
        hm \<leftarrow> hashMap_assert_locked h mp;
        (err, e, h) \<leftarrow> hashEntry_alloc (Some (hm_context hm)) h key val True;
        case e of None \<Rightarrow> Some (err, h)
        | Some entry \<Rightarrow> do {
            (err, h) \<leftarrow> hashMap_insert_entry sha256 h mp entry;
            if err \<noteq> 0 then do { h \<leftarrow> hashEntry_destroy (Some (hm_context hm)) h entry; Some (err, h) } else Some (0, h) } })"

text \<open>The searches take the lock of the tree and release it again: the state is what it was.\<close>

definition hashMap_lookup_entry :: "digest \<Rightarrow> hstate \<Rightarrow> addr \<Rightarrow> addr \<Rightarrow> (int \<times> addr option) option" where
  "hashMap_lookup_entry sha256 h mp key =
     (if mp = NULL \<or> key = NULL then Some (- EINVAL, None)
      else do {
        hm \<leftarrow> hashMap_assert_locked h mp;
        st \<leftarrow> btree_lock (hs_trees h) (bucket_tree mp);
        hash_key \<leftarrow> hash_of sha256 h hm key;
        (err, head) \<leftarrow> btree_search st (bucket_tree mp) hash_key True;
        case head of None \<Rightarrow> Some (- ENOENT, None)
        | Some head \<Rightarrow> do {
            e \<leftarrow> find_entry (\<lambda>k. keys_match h hm k key) (hs_entries h) head;
            Some (if e \<noteq> NULL then (0, Some e) else (- ENOENT, None)) } })"

definition hashMap_lookup :: "digest \<Rightarrow> hstate \<Rightarrow> addr \<Rightarrow> addr \<Rightarrow> bool \<Rightarrow> (int \<times> addr option) option" where
  "hashMap_lookup sha256 h mp key ref =
     (if mp = NULL \<or> key = NULL then Some (- EINVAL, None)
      else do {
        _ \<leftarrow> hashMap_assert_locked h mp;
        (err, e) \<leftarrow> hashMap_lookup_entry sha256 h mp key;
        case e of None \<Rightarrow> Some (- ENOENT, None)
        | Some e \<Rightarrow> if ref then do { n \<leftarrow> eload (hs_entries h) e; Some (0, Some (he_value n)) } else Some (0, None) })"

definition hashMap_update :: "digest \<Rightarrow> hstate \<Rightarrow> addr \<Rightarrow> addr \<Rightarrow> addr \<Rightarrow> (int \<times> hstate) option" where
  "hashMap_update sha256 h mp key new_value =
     (if mp = NULL \<or> key = NULL \<or> new_value = NULL then Some (- EINVAL, h)
      else do {
        _ \<leftarrow> hashMap_assert_locked h mp;
        (err, e) \<leftarrow> hashMap_lookup_entry sha256 h mp key;
        case e of None \<Rightarrow> Some (err, h)
        | Some e \<Rightarrow> do { n \<leftarrow> eload (hs_entries h) e; Some (0, put_entry h e (n\<lparr>he_value := new_value\<rparr>)) } })"

section \<open>Removal\<close>

definition hashMap_match_by_ptr :: "hstate \<Rightarrow> hashMap \<Rightarrow> addr \<Rightarrow> addr \<Rightarrow> bool option" where
  "hashMap_match_by_ptr h hm entry arg = Some (entry = arg)"

definition hashMap_match_by_key :: "hstate \<Rightarrow> hashMap \<Rightarrow> addr \<Rightarrow> addr \<Rightarrow> bool option" where
  "hashMap_match_by_key h hm entry arg = do { n \<leftarrow> eload (hs_entries h) entry; keys_match h hm (he_key n) arg }"

text \<open>The search behind the head of a chain, which takes the entry out; the result is null when there is none.\<close>

partial_function (option) unlink_loop :: "(addr \<Rightarrow> bool option) \<Rightarrow> (addr \<Rightarrow> hashEntry option) \<Rightarrow> addr \<Rightarrow> addr \<Rightarrow> (addr \<times> (addr \<Rightarrow> hashEntry option)) option" where
  "unlink_loop test E prev node =
     (if node = NULL then Some (NULL, E)
      else Option.bind (test node) (\<lambda>c. Option.bind (eload E node) (\<lambda>n.
        if c then Option.bind (eload E prev) (\<lambda>p. Some (node, E(prev \<mapsto> p\<lparr>he_next := he_next n\<rparr>)))
        else unlink_loop test E node (he_next n))))"

definition set_node_data :: "bstate \<Rightarrow> addr \<Rightarrow> addr \<Rightarrow> bstate option" where
  "set_node_data st p d = do { n \<leftarrow> bload (bs_nodes st) p; Some (st\<lparr>bs_nodes := (bs_nodes st)(p \<mapsto> n\<lparr>bn_data := d\<rparr>)\<rparr>) }"

text \<open>Taking an entry out of the chain of the tree node \<open>btnode\<close>.\<close>

definition unlink_entry :: "hstate \<Rightarrow> addr \<Rightarrow> addr \<Rightarrow> (addr \<Rightarrow> bool option) \<Rightarrow> (addr \<times> hstate) option" where
  "unlink_entry h b btnode test = do {
     bn \<leftarrow> bload (bs_nodes (hs_trees h)) btnode;
     let head = bn_data bn;
     c \<leftarrow> test head;
     hn \<leftarrow> eload (hs_entries h) head;
     if c
     then do {
       st \<leftarrow> (if he_next hn = NULL then btree_delete_node (hs_trees h) b btnode else set_node_data (hs_trees h) btnode (he_next hn));
       Some (head, h\<lparr>hs_trees := st\<rparr>) }
     else do {
       (entry, E) \<leftarrow> unlink_loop test (hs_entries h) head (he_next hn);
       Some (entry, h\<lparr>hs_entries := E\<rparr>) } }"

definition hashMap_remove_internal_entry ::
    "hstate \<Rightarrow> addr \<Rightarrow> u64 \<Rightarrow> (hstate \<Rightarrow> hashMap \<Rightarrow> addr \<Rightarrow> addr \<Rightarrow> bool option) \<Rightarrow> addr \<Rightarrow> bool \<Rightarrow> (int \<times> hstate) option" where
  "hashMap_remove_internal_entry h mp btkey match arg destroy_entry =
     (if mp = NULL then Some (- EINVAL, h)
      else do {
        hm \<leftarrow> hashMap_assert_locked h mp;
        (locked, st) \<leftarrow> btree_recursive_lock (hs_trees h) (bucket_tree mp);
        btnode \<leftarrow> btree_lookup st (bucket_tree mp) btkey;
        (entry, h) \<leftarrow> (if btnode = NULL then Some (NULL, h\<lparr>hs_trees := st\<rparr>) else unlink_entry (h\<lparr>hs_trees := st\<rparr>) (bucket_tree mp) btnode (\<lambda>e. match h hm e arg));
        st \<leftarrow> (if locked then btree_unlock (hs_trees h) (bucket_tree mp) else Some (hs_trees h));
        let h = h\<lparr>hs_trees := st\<rparr>;
        if entry = NULL then Some (- ENOENT, h)
        else do {
          hm \<leftarrow> get_map h mp;
          let h = put_map h mp (hm\<lparr>hm_size := hm_size hm - 1\<rparr>);
          h \<leftarrow> (if destroy_entry then hashEntry_destroy (Some (hm_context hm)) h entry else Some h);
          Some (0, h) } })"

definition hashMap_detach_entry :: "digest \<Rightarrow> hstate \<Rightarrow> addr \<Rightarrow> addr \<Rightarrow> (int \<times> hstate) option" where
  "hashMap_detach_entry sha256 h mp target =
     (if mp = NULL \<or> target = NULL then Some (- EINVAL, h)
      else do {
        hm \<leftarrow> get_map h mp;
        n \<leftarrow> eload (hs_entries h) target;
        hash_key \<leftarrow> hash_of sha256 h hm (he_key n);
        hashMap_remove_internal_entry h mp hash_key hashMap_match_by_ptr target False })"

definition hashMap_remove_entry :: "digest \<Rightarrow> hstate \<Rightarrow> addr \<Rightarrow> addr \<Rightarrow> (int \<times> hstate) option" where
  "hashMap_remove_entry sha256 h mp entry =
     (if mp = NULL \<or> entry = NULL then Some (- EINVAL, h)
      else do {
        hm \<leftarrow> get_map h mp;
        n \<leftarrow> eload (hs_entries h) entry;
        hash_key \<leftarrow> hash_of sha256 h hm (he_key n);
        hashMap_remove_internal_entry h mp hash_key hashMap_match_by_ptr entry True })"

definition hashMap_remove :: "digest \<Rightarrow> hstate \<Rightarrow> addr \<Rightarrow> addr \<Rightarrow> (int \<times> hstate) option" where
  "hashMap_remove sha256 h mp key =
     (if mp = NULL \<or> key = NULL then Some (- EINVAL, h)
      else do {
        hm \<leftarrow> get_map h mp;
        hash_key \<leftarrow> hash_of sha256 h hm key;
        hashMap_remove_internal_entry h mp hash_key hashMap_match_by_key key True })"

definition hashMap_migrate_entry :: "digest \<Rightarrow> hstate \<Rightarrow> addr \<Rightarrow> addr \<Rightarrow> addr \<Rightarrow> (int \<times> hstate) option" where
  "hashMap_migrate_entry sha256 h dst src key =
     (if dst = NULL \<or> src = NULL \<or> key = NULL then Some (- EINVAL, h)
      else do {
        _ \<leftarrow> hashMap_assert_locked h dst;
        _ \<leftarrow> hashMap_assert_locked h src;
        (err, e) \<leftarrow> hashMap_lookup_entry sha256 h src key;
        case e of None \<Rightarrow> Some (err, h)
        | Some entry \<Rightarrow> do {
            (err, h) \<leftarrow> hashMap_detach_entry sha256 h src entry;
            if err \<noteq> 0 then Some (err, h)
            else do {
              (err, h) \<leftarrow> hashMap_insert_entry sha256 h dst entry;
              if err \<noteq> 0 then do { (_, h) \<leftarrow> hashMap_insert_entry sha256 h src entry; Some (err, h) } else Some (0, h) } } })"

definition hashMap_size :: "hstate \<Rightarrow> addr \<Rightarrow> u64 option" where
  "hashMap_size h mp = do { hm \<leftarrow> hashMap_assert_locked h mp; Some (hm_size hm) }"

definition hashMap_capacity :: "hstate \<Rightarrow> addr \<Rightarrow> u64 option" where
  "hashMap_capacity h mp = do { hm \<leftarrow> hashMap_assert_locked h mp; Some (hm_capacity hm) }"

section \<open>Iteration\<close>

text \<open>The callback of \<^verbatim>\<open>hashMap_into_iter\<close> may change the state; the errors of the two recursive calls are dropped.\<close>

type_synonym iter_cb = "hstate \<Rightarrow> addr \<Rightarrow> addr \<Rightarrow> (int \<times> hstate) option"

partial_function (option) each_entry :: "iter_cb \<Rightarrow> hstate \<Rightarrow> addr \<Rightarrow> addr \<Rightarrow> (int \<times> hstate) option" where
  "each_entry cb h mp entry =
     (if entry = NULL then Some (0, h)
      else Option.bind (eload (hs_entries h) entry) (\<lambda>n. Option.bind (cb h mp entry) (\<lambda>(err, h).
        if err \<noteq> 0 then Some (err, h) else each_entry cb h mp (he_next n))))"

partial_function (option) hashMap_into_iter_internal :: "iter_cb \<Rightarrow> hstate \<Rightarrow> addr \<Rightarrow> addr \<Rightarrow> (int \<times> hstate) option" where
  "hashMap_into_iter_internal cb h mp node =
     (if node = NULL then Some (0, h)
      else do {
        n \<leftarrow> bload (bs_nodes (hs_trees h)) node;
        _ \<leftarrow> btree_assert_locked (hs_trees h) (bn_btree n);
        (_, h) \<leftarrow> hashMap_into_iter_internal cb h mp (bn_left n);
        n \<leftarrow> bload (bs_nodes (hs_trees h)) node;
        (err, h) \<leftarrow> each_entry cb h mp (bn_data n);
        if err \<noteq> 0 then Some (err, h)
        else do { (_, h) \<leftarrow> hashMap_into_iter_internal cb h mp (bn_right n); Some (0, h) } })"

definition hashMap_into_iter :: "hstate \<Rightarrow> addr \<Rightarrow> iter_cb option \<Rightarrow> (int \<times> hstate) option" where
  "hashMap_into_iter h mp cb =
     (case cb of None \<Rightarrow> Some (- EINVAL, h)
      | Some cb \<Rightarrow>
        if mp = NULL then Some (- EINVAL, h)
        else do {
          _ \<leftarrow> hashMap_assert_locked h mp;
          st \<leftarrow> btree_lock (hs_trees h) (bucket_tree mp);
          bt \<leftarrow> get_btree st (bucket_tree mp);
          (err, h) \<leftarrow> hashMap_into_iter_internal cb (h\<lparr>hs_trees := st\<rparr>) mp (bt_root bt);
          st \<leftarrow> btree_unlock (hs_trees h) (bucket_tree mp);
          Some (err, h\<lparr>hs_trees := st\<rparr>) })"

definition hashEntry_detach_and_destroy_entry :: "digest \<Rightarrow> iter_cb" where
  "hashEntry_detach_and_destroy_entry sha256 h mp entry = hashMap_remove_entry sha256 h mp entry"

definition hashMap_flush :: "digest \<Rightarrow> hstate \<Rightarrow> addr \<Rightarrow> hstate option" where
  "hashMap_flush sha256 h mp =
     (if mp = NULL then Some h
      else do {
        _ \<leftarrow> hashMap_assert_locked h mp;
        (_, h) \<leftarrow> hashMap_into_iter h mp (Some (hashEntry_detach_and_destroy_entry sha256));
        Some h })"

definition hashMap_free :: "digest \<Rightarrow> hstate \<Rightarrow> addr \<Rightarrow> hstate option" where
  "hashMap_free sha256 h mp =
     (if mp = NULL then Some h
      else do {
        h \<leftarrow> hashMap_recursive_lock h mp;
        h \<leftarrow> hashMap_flush sha256 h mp;
        h \<leftarrow> hashMap_unlock h mp;
        Some (free_map h mp) })"

definition hashMap_clone_iter :: "digest \<Rightarrow> addr \<Rightarrow> iter_cb" where
  "hashMap_clone_iter sha256 dst_map h src_map entry =
     (if src_map = NULL \<or> entry = NULL \<or> dst_map = NULL then Some (- EINVAL, h)
      else do {
        sm \<leftarrow> get_map h src_map;
        (err, e, h) \<leftarrow> hashMap_duplicate_entry (Some (hm_context sm)) h entry True;
        case e of None \<Rightarrow> Some (err, h)
        | Some new_entry \<Rightarrow> do {
            (err, h) \<leftarrow> hashMap_insert_entry sha256 h dst_map new_entry;
            if err \<noteq> 0
            then do { dm \<leftarrow> get_map h dst_map; h \<leftarrow> hashEntry_destroy (Some (hm_context dm)) h new_entry; Some (err, h) }
            else Some (0, h) } })"

definition hashMap_clone :: "digest \<Rightarrow> hstate \<Rightarrow> addr \<Rightarrow> bool \<Rightarrow> (int \<times> addr option \<times> hstate) option" where
  "hashMap_clone sha256 h src_map ref =
     (if src_map = NULL \<or> \<not> ref then Some (- EINVAL, None, h)
      else do {
        sm \<leftarrow> hashMap_assert_locked h src_map;
        (err, d, h) \<leftarrow> hashMap_alloc h (Some (hm_context sm)) True;
        case d of None \<Rightarrow> Some (err, None, h)
        | Some dst_map \<Rightarrow> do {
            h \<leftarrow> hashMap_lock h dst_map;
            dm \<leftarrow> get_map h dst_map;
            let h = put_map h dst_map (dm\<lparr>hm_capacity := hm_capacity sm\<rparr>);
            (err, h) \<leftarrow> hashMap_into_iter h src_map (Some (hashMap_clone_iter sha256 dst_map));
            if err \<noteq> 0 then do { h \<leftarrow> hashMap_free sha256 h dst_map; Some (err, None, h) }
            else do { h \<leftarrow> hashMap_unlock h dst_map; Some (0, Some dst_map, h) } } })"

text \<open>
  Filling an iterator, which is a queue.  \<open>al\<close> are the addresses for its nodes; the callback of the traversal works on \<^term>\<open>None\<close> once a call has faulted.
\<close>

partial_function (option) iter_fill :: "(addr \<Rightarrow> hashEntry option) \<Rightarrow> bool \<Rightarrow> addr \<Rightarrow> addr list \<Rightarrow> qstate \<Rightarrow> addr \<Rightarrow> (int \<times> addr list \<times> qstate) option" where
  "iter_fill E use_values entry al qs queue =
     (if entry = NULL then Some (0, al, qs)
      else do {
        n \<leftarrow> eload E entry;
        (err, _, qs) \<leftarrow> enqueue (head_or_null al) qs queue (if use_values then he_value n else entry) QUEUE_UNIQUE;
        let al = (if err = - EEXIST then al else tl al);
        if err \<noteq> 0 then do { qs \<leftarrow> queue_flush qs queue; Some (err, al, qs) }
        else iter_fill E use_values (he_next n) al qs queue })"

definition hashMap_iter_common_internal ::
    "(addr \<Rightarrow> hashEntry option) \<Rightarrow> bool \<Rightarrow> addr \<Rightarrow> addr \<Rightarrow> (addr list \<times> qstate) option \<Rightarrow> int \<times> (addr list \<times> qstate) option" where
  "hashMap_iter_common_internal E use_values queue head s =
     (if head = NULL \<or> queue = NULL then (- EINVAL, s)
      else case Option.bind s (\<lambda>(al, qs). iter_fill E use_values head al qs queue) of
        None \<Rightarrow> (- EFAULT, None)
      | Some (err, al, qs) \<Rightarrow> (err, Some (al, qs)))"

definition hashMap_iter_init_impl :: "hstate \<Rightarrow> addr \<Rightarrow> addr list \<Rightarrow> qstate \<Rightarrow> addr \<Rightarrow> bool \<Rightarrow> (int \<times> qstate) option" where
  "hashMap_iter_init_impl h mp al qs iter use_values =
     (if mp = NULL \<or> iter = NULL then Some (- EINVAL, qs)
      else do {
        _ \<leftarrow> hashMap_assert_locked h mp;
        st \<leftarrow> btree_lock (hs_trees h) (bucket_tree mp);
        bt \<leftarrow> get_btree st (bucket_tree mp);
        (err, s) \<leftarrow> btree_traverse_inorder st (bt_root bt) (hashMap_iter_common_internal (hs_entries h) use_values iter) (Some (al, qs));
        (al, qs) \<leftarrow> s;
        Some (err, qs) })"

definition hashMap_iter_init :: "hstate \<Rightarrow> addr \<Rightarrow> addr list \<Rightarrow> qstate \<Rightarrow> addr \<Rightarrow> (int \<times> qstate) option" where
  "hashMap_iter_init h mp al qs iter = hashMap_iter_init_impl h mp al qs iter False"

definition hashMap_iter_value_init :: "hstate \<Rightarrow> addr \<Rightarrow> addr list \<Rightarrow> qstate \<Rightarrow> addr \<Rightarrow> (int \<times> qstate) option" where
  "hashMap_iter_value_init h mp al qs iter = hashMap_iter_init_impl h mp al qs iter True"

declare insert_walk.simps [code] lookup_walk.simps [code] btree_traverse_inorder.simps [code] last_entry.simps [code] find_entry.simps [code] unlink_loop.simps [code] each_entry.simps [code] hashMap_into_iter_internal.simps [code] iter_fill.simps [code]

end
