(* ===== verification/Hashmap_Proofs.thy ===== *)
theory Hashmap_Proofs
  imports Hashmap Btree_Order Strings_Proofs
begin

text \<open>
  The hash map against a function from keys to the list of their values, oldest first: insertion appends, a search finds the oldest value, removal takes it away.  What the map needs of its keys is the
  locale \<open>key_context\<close>; the default callbacks interpret it on strings.
\<close>

section \<open>The tree of chains\<close>

lemma btree_unlock_lock:
  assumes "btree_map st b m"
  shows "\<exists>st'. btree_unlock st b = Some st' \<and> btree_lock st' b = Some st"
proof -
  obtain t where "btree_shape st b t (of_nat (size t))" using assms by (auto simp: btree_map_def btree_rep_def)
  then obtain B where B: "b \<noteq> NULL" "bs_trees st b = Some B" "bt_lock B" using btree_shapeE by metis
  then have "B\<lparr>bt_lock := True\<rparr> = B" by (cases B) simp
  then show ?thesis using B by (simp add: btree_unlock_def btree_lock_def get_btree_def put_btree_def fun_upd_idem)
qed

lemma btree_rep_set_data:
  fixes d :: addr
  assumes "btree_rep st b t" "x \<in> set_tree t" "bs_nodes st x = Some n"
  defines "st' \<equiv> st\<lparr>bs_nodes := (bs_nodes st)(x \<mapsto> n\<lparr>bn_data := d\<rparr>)\<rparr>"
  shows "btree_rep st' b t" "content (bs_nodes st') t = (content (bs_nodes st) t)(bn_key n \<mapsto> d)"
proof -
  have sh: "btree_shape st b t (of_nat (size t))" using assms(1) by (simp add: btree_rep_def)
  have key: "key_of (bs_nodes st') = key_of (bs_nodes st)" using assms(3) by (auto simp: st'_def key_of_def fun_eq_iff)
  have own: "owner (bs_nodes st') = owner (bs_nodes st)" using assms(3) by (auto simp: st'_def owner_def fun_eq_iff)
  show "btree_rep st' b t" using sh key own bt_retag [of "bs_nodes st" _ t _ x n "n\<lparr>bn_data := d\<rparr>"] assms(3)
    by (auto simp: btree_rep_def btree_shape_def st'_def)
  have bst: "bst_by (key_of (bs_nodes st)) t" using btree_shapeD(2) [OF sh] .
  have kx: "key_of (bs_nodes st) x = bn_key n" using assms(3) by (simp add: key_of_def)
  show "content (bs_nodes st') t = (content (bs_nodes st) t)(bn_key n \<mapsto> d)"
  proof
    fix k
    consider "k = bn_key n" | p where "k \<noteq> bn_key n" "p \<in> set_tree t" "key_of (bs_nodes st) p = k" | "k \<noteq> bn_key n" "\<forall>p \<in> set_tree t. key_of (bs_nodes st) p \<noteq> k" by blast
    then show "content (bs_nodes st') t k = ((content (bs_nodes st) t)(bn_key n \<mapsto> d)) k"
    proof cases
      case 1
      then show ?thesis using content_at [of "bs_nodes st'" t x] bst assms(2) by (simp add: key kx) (simp add: st'_def data_of_def)
    next
      case 2
      then have "p \<noteq> x" using kx by auto
      then show ?thesis using 2 content_at [of "bs_nodes st'" t p] content_at [OF bst 2(2)] bst by (simp add: key) (simp add: st'_def data_of_def)
    qed (use content_None [of "bs_nodes st'" t k] content_None [of "bs_nodes st" t k] in \<open>simp add: key\<close>)
  qed
qed

lemma btree_lookup_map:
  assumes "btree_map st b m"
  obtains p where "btree_lookup st b k = Some p" "m k = None \<Longrightarrow> p = NULL"
    "\<And>d. m k = Some d \<Longrightarrow> p \<noteq> NULL \<and> (\<exists>n. bs_nodes st p = Some n \<and> bn_data n = d)"
    "\<And>d. m k = Some d \<Longrightarrow> \<exists>st'. btree_delete_node st b p = Some st' \<and> btree_map st' b (m(k := None))"
    "\<And>d d'. m k = Some d \<Longrightarrow> \<exists>st'. set_node_data st p d' = Some st' \<and> btree_map st' b (m(k \<mapsto> d'))"
proof -
  obtain t where t: "btree_rep st b t" "content (bs_nodes st) t = m" using assms by (auto simp: btree_map_def)
  let ?h = "bs_nodes st"
  obtain B where B: "b \<noteq> NULL" "bt ?h NULL t (bt_root B)" "bst_by (key_of ?h) t" "btree_assert_locked st b = Some B"
    using btree_shapeE [OF t(1) [unfolded btree_rep_def]] by metis
  let ?p = "find_node (key_of ?h) t k"
  have look: "btree_lookup st b k = Some ?p" using lookup_walk_spec [OF B(2), of k] B(1,4) by (simp add: btree_lookup_def)
  have del: "\<exists>st'. btree_delete_node st b ?p = Some st' \<and> btree_map st' b (m(k := None))"
    using btree_delete_spec [OF assms, of k] look B(4) by (simp add: btree_delete_def)
  have none: "?p = NULL" if "m k = None" using that content_None [of ?h t k] t(2) find_node_none [of t "key_of ?h" k] by auto
  have hit: "?p \<in> set_tree t \<and> ?p \<noteq> NULL \<and> (\<exists>n. ?h ?p = Some n \<and> bn_data n = d \<and> bn_key n = k)" if d: "m k = Some d" for d
  proof -
    obtain q where q: "q \<in> set_tree t" "key_of ?h q = k" "data_of ?h q = d" using d t(2) content_iff [OF B(3), of k d] by auto
    then have "?p = q" using find_node_at [OF B(3) q(1)] by simp
    then show ?thesis using q bt_loaded [OF B(2) q(1)] by (auto simp: data_of_def key_of_def)
  qed
  show thesis
  proof (rule that [OF look none])
    fix d d' assume "m k = Some d"
    then obtain n where n: "?p \<in> set_tree t" "?p \<noteq> NULL" "?h ?p = Some n" "bn_key n = k" using hit by blast
    then show "\<exists>st'. set_node_data st ?p d' = Some st' \<and> btree_map st' b (m(k \<mapsto> d'))"
      using btree_rep_set_data [OF t(1) n(1,3), of d'] t(2) by (auto simp: set_node_data_def btree_map_def)
  qed (use hit del in blast)+
qed

lemma btree_lookup_data:
  assumes "btree_map st b m"
  shows "\<exists>p. btree_lookup st b k = Some p \<and> (case m k of None \<Rightarrow> p = NULL | Some d \<Rightarrow> p \<noteq> NULL \<and> (\<exists>n. bs_nodes st p = Some n \<and> bn_data n = d))"
  by (rule btree_lookup_map [OF assms, of k]) (auto split: option.split)

section \<open>Chains\<close>

fun chain :: "(addr \<Rightarrow> hashEntry option) \<Rightarrow> addr \<Rightarrow> addr list \<Rightarrow> bool" where
  "chain E p [] \<longleftrightarrow> p = NULL"
| "chain E p (e # es) \<longleftrightarrow> p = e \<and> p \<noteq> NULL \<and> (\<exists>n. E p = Some n \<and> chain E (he_next n) es)"

definition head_of :: "addr list \<Rightarrow> addr" where
  "head_of es = (case es of [] \<Rightarrow> NULL | e # _ \<Rightarrow> e)"

lemma head_of_simps [simp]: "head_of [] = NULL" "head_of (e # es) = e"
  by (simp_all add: head_of_def)

lemma chain_head: "chain E p es \<Longrightarrow> p = head_of es"
  by (cases es) auto

lemma chain_frame: "chain E p es \<Longrightarrow> (\<And>e. e \<in> set es \<Longrightarrow> E' e = E e) \<Longrightarrow> chain E' p es"
  by (induction es arbitrary: p) auto

lemma bucket_loaded: "chain E p es \<Longrightarrow> e \<in> set es \<Longrightarrow> e \<noteq> NULL \<and> E e \<noteq> None"
  by (induction es arbitrary: p) auto

lemma chain_unique: "chain E p es \<Longrightarrow> chain E p fs \<Longrightarrow> es = fs"
proof (induction es arbitrary: p fs)
  case Nil
  then show ?case by (cases fs) auto
next
  case (Cons e es)
  then show ?case by (cases fs) auto
qed

lemma chain_suffix: "chain E p (as @ e # bs) \<Longrightarrow> chain E e (e # bs)"
  by (induction as arbitrary: p) auto

lemma chain_distinct: "chain E p es \<Longrightarrow> distinct es"
proof (induction es arbitrary: p)
  case (Cons e es)
  then have d: "distinct es" by auto
  have "e \<notin> set es"
  proof
    assume "e \<in> set es"
    then obtain as bs where es: "es = as @ e # bs" by (auto simp: in_set_conv_decomp)
    then have "chain E e (e # bs)" "chain E e (e # es)" using Cons.prems chain_suffix [of E p "e # as" e bs] by auto
    then show False using chain_unique [of E e "e # bs" "e # es"] es by simp
  qed
  then show ?case using d by simp
qed simp

lemma eload_simps [simp]: "e \<noteq> NULL \<Longrightarrow> eload E e = E e" "eload E NULL = None"
  by (simp_all add: eload_def)

lemma last_entry_chain: "chain E p es \<Longrightarrow> last_entry E p t = Some (last (t # es))"
  by (induction es arbitrary: p t; subst last_entry.simps) auto

lemma find_entry_chain:
  "chain E p es \<Longrightarrow> (\<And>e. e \<in> set es \<Longrightarrow> test (he_key (the (E e))) = Some (P e)) \<Longrightarrow> find_entry test E p = Some (head_of (filter P es))"
proof (induction es arbitrary: p)
  case (Cons a es)
  then obtain n where n: "p = a" "a \<noteq> NULL" "E a = Some n" "chain E (he_next n) es" by auto
  then have "test (he_key n) = Some (P a)" using Cons.prems(2) [of a] by simp
  then show ?case using n Cons.IH [OF n(4)] Cons.prems(2) by (subst find_entry.simps) simp
qed (simp add: find_entry.simps)

lemma chain_append:
  assumes "chain E p es" "es \<noteq> []" "e \<noteq> NULL" "E e = Some n" "he_next n = NULL" "e \<notin> set es" "E (last es) = Some t"
  shows "chain (E(last es \<mapsto> t\<lparr>he_next := e\<rparr>)) p (es @ [e])"
  using assms
proof (induction es arbitrary: p)
  case (Cons a es)
  show ?case
  proof (cases "es = []")
    case False
    then have "a \<noteq> last es" using chain_distinct [OF Cons.prems(1)] by (auto dest: last_in_set)
    then show ?thesis using Cons False by auto
  qed (use Cons.prems in auto)
qed simp

text \<open>Two heaps of entries with the same keys and values.\<close>

definition entry_data :: "(addr \<Rightarrow> hashEntry option) \<Rightarrow> addr \<Rightarrow> (addr \<times> addr) option" where
  "entry_data E e = map_option (\<lambda>n. (he_key n, he_value n)) (E e)"

definition unlinked :: "(addr \<Rightarrow> bool option) \<Rightarrow> (addr \<Rightarrow> bool) \<Rightarrow> (addr \<Rightarrow> hashEntry option) \<Rightarrow> addr \<Rightarrow> addr list \<Rightarrow> bool" where
  "unlinked test P E prev es \<longleftrightarrow> (\<exists>as x bs E'. es = as @ x # bs \<and> P x \<and> filter P as = [] \<and> unlink_loop test E prev (head_of es) = Some (x, E') \<and>
     chain E' prev (prev # as @ bs) \<and> entry_data E' = entry_data E \<and> (\<forall>y. y \<notin> set (prev # as) \<longrightarrow> E' y = E y))"

lemma unlinkedI:
  "es = as @ x # bs \<Longrightarrow> P x \<Longrightarrow> filter P as = [] \<Longrightarrow> unlink_loop test E prev (head_of es) = Some (x, E') \<Longrightarrow> chain E' prev (prev # as @ bs) \<Longrightarrow>
    entry_data E' = entry_data E \<Longrightarrow> (\<And>y. y \<notin> set (prev # as) \<Longrightarrow> E' y = E y) \<Longrightarrow> unlinked test P E prev es"
  unfolding unlinked_def by blast

lemma unlink_chain:
  assumes "chain E prev (prev # es)" "\<And>e. e \<in> set es \<Longrightarrow> test e = Some (P e)"
  shows "if filter P es = [] then unlink_loop test E prev (head_of es) = Some (NULL, E) else unlinked test P E prev es"
  using assms
proof (induction es arbitrary: prev)
  case Nil
  then show ?case by (simp add: unlink_loop.simps)
next
  case (Cons e es)
  obtain pn n where h: "prev \<noteq> NULL" "E prev = Some pn" "e \<noteq> NULL" "E e = Some n" "he_next pn = e" "chain E (he_next n) es" using Cons.prems(1) by auto
  then have hd: "he_next n = head_of es" using chain_head by blast
  have d: "prev \<noteq> e" "prev \<notin> set es" "e \<notin> set es" using chain_distinct [OF Cons.prems(1)] by auto
  show ?case
  proof (cases "P e")
    case True
    let ?E = "E(prev \<mapsto> pn\<lparr>he_next := he_next n\<rparr>)"
    have "unlink_loop test E prev e = Some (e, ?E)" using h Cons.prems(2) True by (subst unlink_loop.simps) simp
    moreover have "chain ?E (he_next n) es" by (rule chain_frame [OF h(6)]) (use d in auto)
    then have "chain ?E prev (prev # es)" using h by simp
    moreover have "entry_data ?E = entry_data E" using h(2) by (auto simp: entry_data_def fun_eq_iff)
    ultimately have "unlinked test P E prev (e # es)" using True by (intro unlinkedI [where as = "[]" and x = e and bs = es and E' = ?E]) simp_all
    then show ?thesis using True by simp
  next
    case False
    have step: "unlink_loop test E prev e = unlink_loop test E e (head_of es)" using h hd Cons.prems(2) False by (subst unlink_loop.simps) simp
    have ce: "chain E e (e # es)" using h by simp
    note IH = Cons.IH [OF ce Cons.prems(2)]
    show ?thesis
    proof (cases "filter P es = []")
      case True
      then show ?thesis using IH False step by simp
    next
      case False
      then obtain as x bs E' where r: "es = as @ x # bs" "P x" "filter P as = []" "unlink_loop test E e (head_of es) = Some (x, E')" "chain E' e (e # as @ bs)"
          "entry_data E' = entry_data E" "\<forall>y. y \<notin> set (e # as) \<longrightarrow> E' y = E y"
        using IH by (auto simp: unlinked_def)
      then have "E' prev = E prev" using d by auto
      then have "chain E' prev (prev # (e # as) @ bs)" using r(5) h by auto
      then have "unlinked test P E prev (e # es)" using r step \<open>\<not> P e\<close> by (intro unlinkedI [where as = "e # as" and x = x and bs = bs and E' = E']) simp_all
      then show ?thesis using False by simp
    qed
  qed
qed

section \<open>Maps\<close>

text \<open>\<open>tag is_key h e k\<close>: the entry \<open>e\<close> has the key \<open>k\<close>, where \<open>is_key m p k\<close> says that the memory holds the key \<open>k\<close> at \<open>p\<close>.\<close>

definition tag :: "(mem \<Rightarrow> addr \<Rightarrow> 'k \<Rightarrow> bool) \<Rightarrow> hstate \<Rightarrow> addr \<Rightarrow> 'k \<Rightarrow> bool" where
  "tag is_key h e k \<longleftrightarrow> is_key (hs_mem h) (he_key (the (hs_entries h e))) k"

definition vals :: "(mem \<Rightarrow> addr \<Rightarrow> 'k \<Rightarrow> bool) \<Rightarrow> hstate \<Rightarrow> addr list \<Rightarrow> 'k \<Rightarrow> addr list" where
  "vals is_key h es k = map (\<lambda>e. he_value (the (hs_entries h e))) (filter (\<lambda>e. tag is_key h e k) es)"

text \<open>The map object \<open>mp\<close> keeps the entries with hash \<open>x\<close> in the chain \<open>bk x\<close>; \<open>H\<close> is the hash of a key in a map with \<^verbatim>\<open>HASHMAP_SIZE\<close> buckets.\<close>

definition tree_part :: "hstate \<Rightarrow> addr \<Rightarrow> (u64 \<Rightarrow> addr list) \<Rightarrow> bstate \<Rightarrow> bool" where
  "tree_part h mp bk st \<longleftrightarrow> btree_lock (hs_trees h) (bucket_tree mp) = Some st \<and>
     btree_map st (bucket_tree mp) (\<lambda>x. if bk x = [] then None else Some (head_of (bk x)))"

definition object_part :: "hashMapContext \<Rightarrow> hstate \<Rightarrow> addr \<Rightarrow> (u64 \<Rightarrow> addr list) \<Rightarrow> bool" where
  "object_part ctx h mp bk \<longleftrightarrow> mp \<noteq> NULL \<and>
     hs_maps h mp = Some \<lparr>hm_size = of_nat (\<Sum>x \<in> UNIV. length (bk x)), hm_capacity = 1024, hm_context = ctx, hm_lock = True\<rparr>"

definition chain_part :: "(mem \<Rightarrow> addr \<Rightarrow> 'k \<Rightarrow> bool) \<Rightarrow> ('k \<Rightarrow> u64) \<Rightarrow> hstate \<Rightarrow> (u64 \<Rightarrow> addr list) \<Rightarrow> bool" where
  "chain_part is_key H h bk \<longleftrightarrow> (\<forall>x. chain (hs_entries h) (head_of (bk x)) (bk x) \<and> (\<forall>e \<in> set (bk x). \<exists>k. tag is_key h e k \<and> H k = x))"

definition map_holds :: "(mem \<Rightarrow> addr \<Rightarrow> 'k \<Rightarrow> bool) \<Rightarrow> ('k \<Rightarrow> u64) \<Rightarrow> hashMapContext \<Rightarrow> hstate \<Rightarrow> addr \<Rightarrow> ('k \<Rightarrow> addr list) \<Rightarrow> bool" where
  "map_holds is_key H ctx h mp M \<longleftrightarrow> (\<exists>bk st. object_part ctx h mp bk \<and> tree_part h mp bk st \<and> chain_part is_key H h bk \<and> (\<forall>k. M k = vals is_key h (bk (H k)) k))"

lemma chain_partD: "chain_part is_key H h bk \<Longrightarrow> y \<in> set (bk x) \<Longrightarrow> y \<noteq> NULL \<and> (\<exists>n. hs_entries h y = Some n)"
  using bucket_loaded [of "hs_entries h" "head_of (bk x)" "bk x" y] by (auto simp: chain_part_def)

lemma bucket_sum:
  fixes bk :: "u64 \<Rightarrow> addr list"
  shows "(\<Sum>y \<in> (UNIV :: u64 set). length ((bk(x := es)) y)) + length (bk x) = (\<Sum>y \<in> UNIV. length (bk y)) + length es"
proof -
  have r: "(\<Sum>y \<in> (UNIV :: u64 set). length (f y)) = length (f x) + (\<Sum>y \<in> UNIV - {x}. length (f y))" for f :: "u64 \<Rightarrow> addr list"
    by (rule sum.remove) simp_all
  show ?thesis unfolding r [of "bk(x := es)"] r [of bk] by simp
qed

lemma object_part_upd:
  assumes "object_part ctx h mp bk" "of_nat (length es) = of_nat (length (bk x)) + (d :: u64)" "hs_maps h' = hs_maps h"
  shows "\<exists>hm. get_map h' mp = Some hm \<and> hm_context hm = ctx \<and> object_part ctx (put_map h' mp (hm\<lparr>hm_size := hm_size hm + d\<rparr>)) mp (bk(x := es))"
proof -
  have "of_nat (\<Sum>y \<in> (UNIV :: u64 set). length ((bk(x := es)) y)) + (of_nat (length (bk x)) :: u64) = of_nat (\<Sum>y \<in> UNIV. length (bk y)) + of_nat (length es)"
    unfolding of_nat_add [symmetric] bucket_sum ..
  then have "of_nat (\<Sum>y \<in> (UNIV :: u64 set). length ((bk(x := es)) y)) = of_nat (\<Sum>y \<in> UNIV. length (bk y)) + d"
    unfolding assms(2) by (simp add: algebra_simps)
  then show ?thesis using assms(1,3) by (simp add: object_part_def get_map_def put_map_def del: fun_upd_apply) simp
qed

lemma object_locked: "object_part ctx h mp bk \<Longrightarrow> mp \<noteq> NULL \<and> (\<exists>hm. hashMap_assert_locked h mp = Some hm \<and> get_map h mp = Some hm \<and> hm_context hm = ctx \<and> hm_capacity hm = 1024)"
  by (simp add: object_part_def hashMap_assert_locked_def get_map_def)

lemma tree_part_relock:
  assumes "btree_map st (bucket_tree mp) (\<lambda>x. if bk x = [] then None else Some (head_of (bk x)))"
  obtains st' where "btree_unlock st (bucket_tree mp) = Some st'" "\<And>h. hs_trees h = st' \<Longrightarrow> tree_part h mp bk st"
  using btree_unlock_lock [OF assms] assms by (auto simp: tree_part_def)

lemma tree_recursive: "btree_lock st b = Some st' \<Longrightarrow> btree_recursive_lock st b = Some (True, st')"
  by (auto simp: btree_recursive_lock_def btree_lock_def bind_eq_Some_conv)

lemma bucket_map_upd:
  "(\<lambda>y. if (bk(x := es)) y = [] then None else Some (head_of ((bk(x := es)) y))) =
    (\<lambda>y. if bk y = [] then None else Some (head_of (bk y)))(x := if es = [] then None else Some (head_of es))"
  by auto

text \<open>Room for one more entry: addresses for the entry, for the copy of its key and for a node of the tree.  The keys at \<open>X\<close> are not overwritten, nor those in the map.\<close>

definition map_room :: "(mem \<Rightarrow> addr list \<Rightarrow> addr \<Rightarrow> addr set \<Rightarrow> bool) \<Rightarrow> nat \<Rightarrow> hstate \<Rightarrow> addr \<Rightarrow> addr set \<Rightarrow> bool" where
  "map_room room cost h p X \<longleftrightarrow> (\<exists>e al q al'. hs_alloc h = e # al \<and> e \<noteq> NULL \<and> hs_entries h e = None \<and> room (hs_mem h) al p (he_key ` ran (hs_entries h) \<union> X) \<and>
     drop cost al = q # al' \<and> q \<noteq> NULL \<and> bs_nodes (hs_trees h) q = None)"

lemma value_same: "entry_data E' e = entry_data E e \<Longrightarrow> he_value (the (E' e)) = he_value (the (E e))"
  by (cases "E e"; cases "E' e") (auto simp: entry_data_def)

lemma vals_cong:
  "(\<And>e. e \<in> set es \<Longrightarrow> tag is_key h' e k = tag is_key h e k \<and> he_value (the (hs_entries h' e)) = he_value (the (hs_entries h e))) \<Longrightarrow> vals is_key h' es k = vals is_key h es k"
  unfolding vals_def by (rule map_cong) (auto cong: filter_cong)

text \<open>What the map relies on: hashing and comparing agree with the contents of keys, copying gives an equal key and leaves the others alone, destroying a key does too.\<close>

locale key_context =
  fixes sha256 :: digest and ctx :: hashMapContext and is_key :: "mem \<Rightarrow> addr \<Rightarrow> 'k \<Rightarrow> bool" and H :: "'k \<Rightarrow> u64"
    and room :: "mem \<Rightarrow> addr list \<Rightarrow> addr \<Rightarrow> addr set \<Rightarrow> bool" and cost :: nat
  assumes key_unique: "is_key m p k \<Longrightarrow> is_key m p k' \<Longrightarrow> k = k'"
    and key_nonnull: "is_key m p k \<Longrightarrow> p \<noteq> NULL"
    and hash_law: "is_key m p k \<Longrightarrow> HASHCTX_GET_FUNC (Some ctx) ctx_hash (default_hash sha256) m 1024 p = Some (H k)"
    and compare_law: "is_key m p k \<Longrightarrow> is_key m q k' \<Longrightarrow> HASHCTX_GET_FUNC (Some ctx) ctx_compare default_match_keys m p q = Some (k = k')"
    and copy_law: "is_key m p k \<Longrightarrow> room m al p S \<Longrightarrow> \<exists>p' m'. HASHCTX_GET_FUNC (Some ctx) ctx_copy default_copy_key al m p = Some (0, Some p', drop cost al, m') \<and>
      is_key m' p' k \<and> (\<forall>q \<in> S. \<forall>k. is_key m q k \<longrightarrow> is_key m' q k)"
    and destroy_law: "is_key m p k \<Longrightarrow> \<exists>m'. (case ctx_destroy ctx of Some f \<Rightarrow> f | None \<Rightarrow> default_destroy_key) m p = Some m' \<and> (\<forall>q k. is_key m q k \<longrightarrow> is_key m' q k)"
begin

lemma hash_of_key: "hm_context hm = ctx \<Longrightarrow> hm_capacity hm = 1024 \<Longrightarrow> is_key (hs_mem h) p k \<Longrightarrow> hash_of sha256 h hm p = Some (H k)"
  by (simp add: hash_of_def hash_law)

lemma keys_match_tag: "hm_context hm = ctx \<Longrightarrow> tag is_key h e k' \<Longrightarrow> is_key (hs_mem h) p k \<Longrightarrow> keys_match h hm (he_key (the (hs_entries h e))) p = Some (tag is_key h e k)"
  using compare_law key_unique by (fastforce simp: keys_match_def tag_def)

lemma lookup_entry_spec:
  assumes "object_part ctx h mp bk" "tree_part h mp bk st" "chain_part is_key H h bk" "is_key (hs_mem h) p k"
  shows "hashMap_lookup_entry sha256 h mp p = Some (case filter (\<lambda>e. tag is_key h e k) (bk (H k)) of [] \<Rightarrow> (- ENOENT, None) | e # _ \<Rightarrow> (0, Some e))"
proof -
  obtain hm where hm: "mp \<noteq> NULL" "hashMap_assert_locked h mp = Some hm" "hm_context hm = ctx" "hm_capacity hm = 1024" using object_locked [OF assms(1)] by blast
  note hash = hash_of_key [OF hm(3,4) assms(4)]
  note search = btree_search_spec [of st "bucket_tree mp", OF assms(2) [unfolded tree_part_def, THEN conjunct2], of "H k"]
  have lock: "btree_lock (hs_trees h) (bucket_tree mp) = Some st" using assms(2) by (simp add: tree_part_def)
  have ch: "chain (hs_entries h) (head_of (bk (H k))) (bk (H k))" using assms(3) by (simp add: chain_part_def)
  have "keys_match h hm (he_key (the (hs_entries h e))) p = Some (tag is_key h e k)" if "e \<in> set (bk (H k))" for e
    using keys_match_tag [OF hm(3) _ assms(4)] assms(3) that unfolding chain_part_def by blast
  then have f: "find_entry (\<lambda>q. keys_match h hm q p) (hs_entries h) (head_of (bk (H k))) = Some (head_of (filter (\<lambda>e. tag is_key h e k) (bk (H k))))"
    by (intro find_entry_chain [OF ch]) simp
  have nn: "head_of (filter (\<lambda>e. tag is_key h e k) (bk (H k))) \<noteq> NULL" if "filter (\<lambda>e. tag is_key h e k) (bk (H k)) \<noteq> []"
  proof -
    have "head_of (filter (\<lambda>e. tag is_key h e k) (bk (H k))) \<in> set (bk (H k))" using that by (metis filter_is_subset head_of_simps(2) list.set_intros(1) neq_Nil_conv subsetD)
    then show ?thesis using bucket_loaded [OF ch] by blast
  qed
  show ?thesis
    using hm(1,2) lock hash search f key_nonnull [OF assms(4)] nn
    by (auto simp: hashMap_lookup_entry_def split: list.splits)
qed

text \<open>Chains after a change that keeps keys and values.\<close>

lemma tag_same: "hs_mem h' = hs_mem h \<Longrightarrow> entry_data (hs_entries h') e = entry_data (hs_entries h) e \<Longrightarrow> tag is_key h' e k = tag is_key h e k"
  by (cases "hs_entries h e"; cases "hs_entries h' e") (auto simp: tag_def entry_data_def)

lemma insert_entry_spec:
  assumes "object_part ctx h mp bk" "tree_part h mp bk st" "chain_part is_key H h bk"
    and e: "e \<noteq> NULL" "hs_entries h e = Some n" "he_next n = NULL" "\<And>x. e \<notin> set (bk x)" "is_key (hs_mem h) (he_key n) k"
    and al: "hs_alloc h = q # al" "q \<noteq> NULL" "bs_nodes (hs_trees h) q = None"
  shows "\<exists>h' st'. hashMap_insert_entry sha256 h mp e = Some (0, h') \<and> object_part ctx h' mp (bk(H k := bk (H k) @ [e])) \<and>
    tree_part h' mp (bk(H k := bk (H k) @ [e])) st' \<and> chain_part is_key H h' (bk(H k := bk (H k) @ [e])) \<and>
    entry_data (hs_entries h') = entry_data (hs_entries h) \<and> hs_mem h' = hs_mem h"
proof -
  let ?b = "bucket_tree mp" and ?bk = "bk(H k := bk (H k) @ [e])"
  obtain hm where hm: "mp \<noteq> NULL" "hashMap_assert_locked h mp = Some hm" "hm_context hm = ctx" "hm_capacity hm = 1024" using object_locked [OF assms(1)] by blast
  have lock: "btree_lock (hs_trees h) ?b = Some st" and tm: "btree_map st ?b (\<lambda>x. if bk x = [] then None else Some (head_of (bk x)))" using assms(2) by (simp_all add: tree_part_def)
  have hash: "hash_of sha256 (h\<lparr>hs_trees := st\<rparr>) hm (he_key n) = Some (H k)" using hash_of_key [OF hm(3,4)] e(5) by simp
  have ch: "chain (hs_entries h) (head_of (bk x)) (bk x)" for x using assms(3) by (simp add: chain_part_def)
  have tags: "\<exists>k'. tag is_key h y k' \<and> H k' = x" if "y \<in> set (?bk x)" for x y
    using that assms(3) e(2,5) by (auto simp: chain_part_def tag_def split: if_splits)
  obtain h1 st1 where h1: "entry_data (hs_entries h1) = entry_data (hs_entries h)" "hs_mem h1 = hs_mem h" "hs_maps h1 = hs_maps h" "hs_trees h1 = st1"
      "btree_map st1 ?b (\<lambda>x. if ?bk x = [] then None else Some (head_of (?bk x)))" "\<And>x. chain (hs_entries h1) (head_of (?bk x)) (?bk x)"
      "hashMap_insert_entry sha256 h mp e = do { st \<leftarrow> btree_unlock (hs_trees h1) ?b; let h = h1\<lparr>hs_trees := st\<rparr>; hm \<leftarrow> get_map h mp; Some (0, put_map h mp (hm\<lparr>hm_size := hm_size hm + 1\<rparr>)) }"
  proof (cases "bk (H k) = []")
    case True
    have nq: "bs_nodes st q = None" using lock al(3) by (auto simp: btree_lock_def put_btree_def bind_eq_Some_conv)
    obtain st1 where st1: "btree_insert q st ?b (H k) e = Some (0, st1)" "btree_map st1 ?b ((\<lambda>x. if bk x = [] then None else Some (head_of (bk x)))(H k \<mapsto> e))"
      using btree_insert_spec [OF tm al(2) nq, of "H k" e] True by (auto simp: domIff simp del: fun_upd_apply)
    have "btree_search st ?b (H k) True = Some (- ENOENT, None)" using btree_search_spec [OF tm, of "H k"] True by simp
    then have "hashMap_insert_entry sha256 h mp e = do { st \<leftarrow> btree_unlock st1 ?b; let h = h\<lparr>hs_alloc := al, hs_trees := st\<rparr>; hm \<leftarrow> get_map h mp; Some (0, put_map h mp (hm\<lparr>hm_size := hm_size hm + 1\<rparr>)) }"
      using hm(2) lock e(1,2) hash st1(1) al(1) by (simp add: hashMap_insert_entry_def tree_insert_def head_or_null_def)
    moreover have "chain (hs_entries h) (head_of (?bk x)) (?bk x)" for x using ch e True by auto
    moreover have "btree_map st1 ?b (\<lambda>x. if ?bk x = [] then None else Some (head_of (?bk x)))" unfolding bucket_map_upd using st1(2) True by simp
    ultimately show thesis by (intro that [of "h\<lparr>hs_alloc := al, hs_trees := st1\<rparr>" st1]) (simp_all del: fun_upd_apply)
  next
    case False
    let ?l = "last (bk (H k))"
    obtain t where t: "hs_entries h ?l = Some t" "?l \<noteq> NULL" using bucket_loaded [OF ch, of ?l "H k"] False by auto
    let ?E = "(hs_entries h)(?l \<mapsto> t\<lparr>he_next := e\<rparr>)"
    have le: "last_entry (hs_entries h) (head_of (bk (H k))) NULL = Some ?l" using last_entry_chain [OF ch] False by simp
    have "btree_search st ?b (H k) True = Some (0, Some (head_of (bk (H k))))" using btree_search_spec [OF tm, of "H k"] False by simp
    then have "hashMap_insert_entry sha256 h mp e = do { st \<leftarrow> btree_unlock st ?b; let h = h\<lparr>hs_entries := ?E, hs_trees := st\<rparr>; hm \<leftarrow> get_map h mp; Some (0, put_map h mp (hm\<lparr>hm_size := hm_size hm + 1\<rparr>)) }"
      using hm(2) lock e(1,2) hash le t by (simp add: hashMap_insert_entry_def put_entry_def)
    moreover have "chain ?E (head_of (?bk x)) (?bk x)" for x
    proof (cases "x = H k")
      case True
      have "head_of (bk (H k) @ [e]) = head_of (bk (H k))" using False by (cases "bk (H k)") auto
      then show ?thesis using True chain_append [OF ch [of "H k"] False e(1,2,3) e(4) t(1)] by simp
    next
      case other: False
      have "?l \<notin> set (bk x)"
      proof
        assume "?l \<in> set (bk x)"
        then obtain k1 k2 where "tag is_key h ?l k1" "H k1 = x" "tag is_key h ?l k2" "H k2 = H k" using assms(3) False last_in_set unfolding chain_part_def by metis
        then show False using other key_unique unfolding tag_def by metis
      qed
      then have "chain ?E (head_of (bk x)) (bk x)" by (intro chain_frame [OF ch]) auto
      then show ?thesis using other by simp
    qed
    moreover have "entry_data ?E = entry_data (hs_entries h)" using t(1) by (auto simp: entry_data_def fun_eq_iff)
    moreover have "btree_map st ?b (\<lambda>x. if ?bk x = [] then None else Some (head_of (?bk x)))"
    proof -
      have "head_of (bk (H k) @ [e]) = head_of (bk (H k))" using False by (cases "bk (H k)") auto
      then show ?thesis unfolding bucket_map_upd using tm False by (simp add: fun_upd_idem)
    qed
    ultimately show thesis by (intro that [of "h\<lparr>hs_entries := ?E, hs_trees := st\<rparr>" st]) (simp_all del: fun_upd_apply)
  qed
  obtain st2 where st2: "btree_unlock st1 ?b = Some st2" "\<And>h. hs_trees h = st2 \<Longrightarrow> tree_part h mp ?bk st1" using tree_part_relock [OF h1(5)] by blast
  obtain hm1 where hm1: "get_map (h1\<lparr>hs_trees := st2\<rparr>) mp = Some hm1"
      "object_part ctx (put_map (h1\<lparr>hs_trees := st2\<rparr>) mp (hm1\<lparr>hm_size := hm_size hm1 + 1\<rparr>)) mp ?bk"
    using object_part_upd [OF assms(1), of "bk (H k) @ [e]" "H k" 1 "h1\<lparr>hs_trees := st2\<rparr>"] h1(3) by auto
  let ?h = "put_map (h1\<lparr>hs_trees := st2\<rparr>) mp (hm1\<lparr>hm_size := hm_size hm1 + 1\<rparr>)"
  have "hashMap_insert_entry sha256 h mp e = Some (0, ?h)" using h1(4,7) st2(1) hm1(1) by simp
  moreover have "tree_part ?h mp ?bk st1" using st2(2) by (simp add: put_map_def)
  moreover have "hs_mem ?h = hs_mem h" "hs_entries ?h = hs_entries h1" using h1(2) by (simp_all add: put_map_def)
  moreover have "chain_part is_key H ?h ?bk"
  proof -
    have "tag is_key ?h y k' = tag is_key h y k'" for y k' using h1(1,2) by (intro tag_same) (simp_all add: put_map_def)
    then show ?thesis using h1(6) tags by (simp add: chain_part_def put_map_def)
  qed
  ultimately show ?thesis using hm1(2) h1(1) by metis
qed

lemma insert_spec:
  assumes "map_holds is_key H ctx h mp M" "is_key (hs_mem h) p k" "map_room room cost h p X"
  shows "\<exists>h'. hashMap_insert sha256 h mp p v = Some (0, h') \<and> map_holds is_key H ctx h' mp (M(k := M k @ [v])) \<and> (\<forall>q \<in> X. \<forall>k. is_key (hs_mem h) q k \<longrightarrow> is_key (hs_mem h') q k)"
proof -
  obtain bk st where r: "object_part ctx h mp bk" "tree_part h mp bk st" "chain_part is_key H h bk" "\<And>k. M k = vals is_key h (bk (H k)) k" using assms(1) by (auto simp: map_holds_def)
  obtain e al q al' where al: "hs_alloc h = e # al" "e \<noteq> NULL" "hs_entries h e = None" "room (hs_mem h) al p (he_key ` ran (hs_entries h) \<union> X)"
      "drop cost al = q # al'" "q \<noteq> NULL" "bs_nodes (hs_trees h) q = None" using assms(3) by (auto simp: map_room_def)
  obtain p' m' where c: "HASHCTX_GET_FUNC (Some ctx) ctx_copy default_copy_key al (hs_mem h) p = Some (0, Some p', drop cost al, m')" "is_key m' p' k"
      "\<forall>q \<in> he_key ` ran (hs_entries h) \<union> X. \<forall>k. is_key (hs_mem h) q k \<longrightarrow> is_key m' q k" using copy_law [OF assms(2) al(4)] by blast
  obtain hm where hm: "mp \<noteq> NULL" "hashMap_assert_locked h mp = Some hm" "hm_context hm = ctx" using object_locked [OF r(1)] by blast
  let ?n = "\<lparr>he_key = p', he_next = NULL, he_value = v\<rparr>"
  define h1 where "h1 = h\<lparr>hs_alloc := q # al', hs_mem := m', hs_entries := (hs_entries h)(e \<mapsto> ?n)\<rparr>"
  have ins: "hashMap_insert sha256 h mp p v = do { (err, h) \<leftarrow> hashMap_insert_entry sha256 h1 mp e;
      if err \<noteq> 0 then do { h \<leftarrow> hashEntry_destroy (Some ctx) h e; Some (err, h) } else Some (0, h) }"
    using hm al key_nonnull [OF assms(2)] c(1) by (simp add: hashMap_insert_def hashEntry_alloc_def kzalloc_def head_or_null_def put_entry_def h1_def cong: if_cong)
  have out: "e \<notin> set (bk x)" for x using chain_partD [OF r(3), of e x] al(3) by auto
  have tag1: "tag is_key h1 y j = tag is_key h y j" if y: "y \<in> set (bk x)" for x y j
  proof -
    obtain n where n: "hs_entries h y = Some n" "y \<noteq> e" using chain_partD [OF r(3) y] y out [of x] by auto
    then have "he_key n \<in> he_key ` ran (hs_entries h)" by (auto simp: ran_def)
    then have keep: "tag is_key h y j \<Longrightarrow> tag is_key h1 y j" for j using n c(3) by (simp add: tag_def h1_def)
    obtain i where i: "tag is_key h y i" using r(3) y unfolding chain_part_def by blast
    have "j = i" if "tag is_key h1 y j" using that keep [OF i] unfolding tag_def by (rule key_unique)
    then show ?thesis using keep i by blast
  qed
  have parts: "object_part ctx h1 mp bk" "tree_part h1 mp bk st" using r(1,2) by (simp_all add: object_part_def tree_part_def h1_def)
  have ch1: "chain_part is_key H h1 bk" unfolding chain_part_def
  proof (intro allI conjI ballI)
    fix x
    show "chain (hs_entries h1) (head_of (bk x)) (bk x)" by (rule chain_frame [of "hs_entries h"]) (use r(3) out [of x] in \<open>auto simp: chain_part_def h1_def\<close>)
    fix y assume "y \<in> set (bk x)"
    then show "\<exists>k. tag is_key h1 y k \<and> H k = x" using tag1 r(3) unfolding chain_part_def by blast
  qed
  have en: "hs_entries h1 e = Some ?n" "he_next ?n = NULL" "is_key (hs_mem h1) (he_key ?n) k" "hs_alloc h1 = q # al'" "bs_nodes (hs_trees h1) q = None"
    using c(2) al(7) by (simp_all add: h1_def)
  obtain h2 st2 where h2: "hashMap_insert_entry sha256 h1 mp e = Some (0, h2)" "object_part ctx h2 mp (bk(H k := bk (H k) @ [e]))"
      "tree_part h2 mp (bk(H k := bk (H k) @ [e])) st2" "chain_part is_key H h2 (bk(H k := bk (H k) @ [e]))" "entry_data (hs_entries h2) = entry_data (hs_entries h1)" "hs_mem h2 = hs_mem h1"
    using insert_entry_spec [OF parts ch1 al(2) en(1,2) out en(3,4) al(6) en(5)] by blast
  have tag2: "tag is_key h2 y j = tag is_key h1 y j" "he_value (the (hs_entries h2 y)) = he_value (the (hs_entries h1 y))" for y j
    using tag_same [OF h2(6)] value_same [of "hs_entries h2" y "hs_entries h1"] h2(5) by simp_all
  have old: "vals is_key h2 (bk x) j = vals is_key h (bk x) j" for x j
  proof (rule vals_cong)
    fix y assume "y \<in> set (bk x)"
    then show "tag is_key h2 y j = tag is_key h y j \<and> he_value (the (hs_entries h2 y)) = he_value (the (hs_entries h y))"
      using tag1 [of y x j] tag2(1) [of y j] tag2(2) [of y] out [of x] by (auto simp: h1_def)
  qed
  have "tag is_key h2 e j \<longleftrightarrow> j = k" for j using tag2(1) [of e j] en(1,3) key_unique [of "hs_mem h1" p' j k] by (auto simp: tag_def)
  moreover have "he_value (the (hs_entries h2 e)) = v" using tag2(2) [of e] en(1) by simp
  ultimately have new: "vals is_key h2 [e] j = (if j = k then [v] else [])" for j by (simp add: vals_def)
  have app: "vals is_key h2 (xs @ ys) j = vals is_key h2 xs j @ vals is_key h2 ys j" for xs ys j by (simp add: vals_def)
  have "(M(k := M k @ [v])) j = vals is_key h2 ((bk(H k := bk (H k) @ [e])) (H j)) j" for j
    using r(4) [of j] old [of "H j" j] old [of "H k" j] new [of j] app [of "bk (H k)" "[e]" j] by (cases "j = k"; cases "H j = H k") simp_all
  then have "map_holds is_key H ctx h2 mp (M(k := M k @ [v]))" using h2(2-4) unfolding map_holds_def by blast
  moreover have "\<forall>q \<in> X. \<forall>k. is_key (hs_mem h) q k \<longrightarrow> is_key (hs_mem h2) q k" using c(3) h2(6) by (simp add: h1_def)
  ultimately show ?thesis using ins h2(1) by simp
qed

text \<open>Taking the first entry that a test accepts out of its chain.\<close>

lemma unlink_spec:
  assumes "tree_part h mp bk st" "chain_part is_key H h bk" "\<And>e. e \<in> set (bk x) \<Longrightarrow> test e = Some (P e)" "filter P (bk x) \<noteq> []"
  obtains p as y bs h' where "btree_lookup st (bucket_tree mp) x = Some p" "p \<noteq> NULL" "unlink_entry (h\<lparr>hs_trees := st\<rparr>) (bucket_tree mp) p test = Some (y, h')"
    "bk x = as @ y # bs" "P y" "filter P as = []" "hs_maps h' = hs_maps h" "hs_mem h' = hs_mem h" "entry_data (hs_entries h') = entry_data (hs_entries h)"
    "btree_map (hs_trees h') (bucket_tree mp) (\<lambda>z. if (bk(x := as @ bs)) z = [] then None else Some (head_of ((bk(x := as @ bs)) z)))"
    "\<And>z. chain (hs_entries h') (head_of ((bk(x := as @ bs)) z)) ((bk(x := as @ bs)) z)"
proof -
  let ?b = "bucket_tree mp" and ?m = "\<lambda>x. if bk x = [] then None else Some (head_of (bk x))"
  have tm: "btree_map st ?b ?m" using assms(1) by (simp add: tree_part_def)
  obtain e es where es: "bk x = e # es" using assms(4) by (cases "bk x") auto
  have mx: "?m x = Some e" using es by simp
  obtain p where p: "btree_lookup st ?b x = Some p" "p \<noteq> NULL" "\<exists>n. bs_nodes st p = Some n \<and> bn_data n = e"
      "\<exists>st'. btree_delete_node st ?b p = Some st' \<and> btree_map st' ?b (?m(x := None))" "\<And>d'. \<exists>st'. set_node_data st p d' = Some st' \<and> btree_map st' ?b (?m(x \<mapsto> d'))"
    by (rule btree_lookup_map [OF tm, of x]) (use mx in blast)
  then obtain bn where bn: "bs_nodes st p = Some bn" "bn_data bn = e" by blast
  have ch: "chain (hs_entries h) (head_of (bk z)) (bk z)" for z using assms(2) by (simp add: chain_part_def)
  obtain n where n: "e \<noteq> NULL" "hs_entries h e = Some n" "chain (hs_entries h) (he_next n) es" using ch [of x] es by auto
  then have nx: "he_next n = head_of es" using chain_head by blast
  have te: "test e = Some (P e)" using assms(3) es by simp
  have head: "es \<noteq> [] \<Longrightarrow> head_of es \<noteq> NULL" using bucket_loaded [OF n(3)] by (cases es) auto
  show thesis
  proof (cases "P e")
    case True
    obtain st' where st': "(if es = [] then btree_delete_node st ?b p else set_node_data st p (head_of es)) = Some st'"
        "btree_map st' ?b (?m(x := if es = [] then None else Some (head_of es)))"
    proof (cases "es = []")
      case True
      then show thesis using p(4) that by (auto simp del: fun_upd_apply)
    next
      case False
      then show thesis using p(5) [of "head_of es"] that by (auto simp del: fun_upd_apply)
    qed
    have "unlink_entry (h\<lparr>hs_trees := st\<rparr>) ?b p test = Some (e, h\<lparr>hs_trees := st'\<rparr>)"
      using p(2) bn te n True nx head st'(1) by (cases "es = []") (simp_all add: unlink_entry_def)
    moreover have "chain (hs_entries h) (head_of ((bk(x := [] @ es)) z)) ((bk(x := [] @ es)) z)" for z using ch [of z] n(3) nx by auto
    moreover have "btree_map st' ?b (\<lambda>z. if (bk(x := [] @ es)) z = [] then None else Some (head_of ((bk(x := [] @ es)) z)))"
      unfolding bucket_map_upd append_Nil using st'(2) .
    ultimately show thesis using es True p(1,2) by (intro that [of p e "h\<lparr>hs_trees := st'\<rparr>" "[]" es]) (simp_all del: fun_upd_apply)
  next
    case False
    then have "filter P es \<noteq> []" using assms(4) es by simp
    moreover have "chain (hs_entries h) e (e # es)" using n by simp
    moreover have "\<And>a. a \<in> set es \<Longrightarrow> test a = Some (P a)" using assms(3) es by simp
    ultimately have "unlinked test P (hs_entries h) e es" using unlink_chain [of "hs_entries h" e es test P] by simp
    then obtain as y bs E' where u: "es = as @ y # bs" "P y" "filter P as = []" "unlink_loop test (hs_entries h) e (head_of es) = Some (y, E')" "chain E' e (e # as @ bs)"
        "entry_data E' = entry_data (hs_entries h)" "\<And>z. z \<notin> set (e # as) \<Longrightarrow> E' z = hs_entries h z" unfolding unlinked_def by blast
    have "unlink_entry (h\<lparr>hs_trees := st\<rparr>) ?b p test = Some (y, h\<lparr>hs_entries := E', hs_trees := st\<rparr>)"
      using p(2) bn te n False nx u(4) by (simp add: unlink_entry_def)
    moreover have "chain E' (head_of ((bk(x := (e # as) @ bs)) z)) ((bk(x := (e # as) @ bs)) z)" for z
    proof (cases "z = x")
      case False
      have "E' a = hs_entries h a" if a: "a \<in> set (bk z)" for a
      proof (rule u(7))
        show "a \<notin> set (e # as)"
        proof
          assume "a \<in> set (e # as)"
          then have "a \<in> set (bk x)" using es u(1) by auto
          then obtain k1 k2 where "tag is_key h a k1" "H k1 = x" "tag is_key h a k2" "H k2 = z" using assms(2) a unfolding chain_part_def by meson
          then show False using False key_unique unfolding tag_def by metis
        qed
      qed
      then have "chain E' (head_of (bk z)) (bk z)" by (intro chain_frame [OF ch]) auto
      then show ?thesis using False by simp
    qed (use u(5) in simp)
    moreover have "btree_map st ?b (\<lambda>z. if (bk(x := (e # as) @ bs)) z = [] then None else Some (head_of ((bk(x := (e # as) @ bs)) z)))"
    proof -
      have "?m(x := Some e) = ?m" using mx by (rule fun_upd_idem)
      then show ?thesis unfolding bucket_map_upd using tm by simp
    qed
    ultimately show thesis using es u False p(1,2) by (intro that [of p y "h\<lparr>hs_entries := E', hs_trees := st\<rparr>" "e # as" bs]) (simp_all del: fun_upd_apply)
  qed
qed

lemma unlink_none:
  assumes "tree_part h mp bk st" "chain_part is_key H h bk" "\<And>e. e \<in> set (bk x) \<Longrightarrow> test e = Some (P e)" "filter P (bk x) = []"
  shows "\<exists>p. btree_lookup st (bucket_tree mp) x = Some p \<and>
    (if p = NULL then Some (NULL, h\<lparr>hs_trees := st\<rparr>) else unlink_entry (h\<lparr>hs_trees := st\<rparr>) (bucket_tree mp) p test) = Some (NULL, h\<lparr>hs_trees := st\<rparr>)"
proof -
  let ?b = "bucket_tree mp" and ?m = "\<lambda>x. if bk x = [] then None else Some (head_of (bk x))"
  have tm: "btree_map st ?b ?m" using assms(1) by (simp add: tree_part_def)
  obtain p where p: "btree_lookup st ?b x = Some p" "case ?m x of None \<Rightarrow> p = NULL | Some d \<Rightarrow> p \<noteq> NULL \<and> (\<exists>n. bs_nodes st p = Some n \<and> bn_data n = d)"
    using btree_lookup_data [OF tm, of x] by blast
  show ?thesis
  proof (cases "bk x")
    case Nil
    then show ?thesis using p by simp
  next
    case (Cons e es)
    then obtain bn where bn: "p \<noteq> NULL" "bs_nodes st p = Some bn" "bn_data bn = e" using p(2) by auto
    have "chain (hs_entries h) (head_of (bk x)) (bk x)" using assms(2) by (simp add: chain_part_def)
    then have ce: "chain (hs_entries h) e (e # es)" using Cons by simp
    then obtain n where n: "e \<noteq> NULL" "hs_entries h e = Some n" "chain (hs_entries h) (he_next n) es" by auto
    note nx = chain_head [OF n(3)]
    have t: "\<not> P e" "test e = Some (P e)" "filter P es = []" "\<And>a. a \<in> set es \<Longrightarrow> test a = Some (P a)" using assms(3,4) Cons by (auto split: if_splits)
    have "unlink_loop test (hs_entries h) e (head_of es) = Some (NULL, hs_entries h)" using unlink_chain [OF ce t(4)] t(3) by simp
    then show ?thesis using p(1) bn n(1,2) nx t(1,2) by (simp add: unlink_entry_def)
  qed
qed

lemma remove_internal_none:
  assumes "object_part ctx h mp bk" "tree_part h mp bk st" "chain_part is_key H h bk" "get_map h mp = Some hm" "\<And>e. e \<in> set (bk x) \<Longrightarrow> match h hm e arg = Some (P e)" "filter P (bk x) = []"
  shows "\<exists>st'. hashMap_remove_internal_entry h mp x match arg d = Some (- ENOENT, h\<lparr>hs_trees := st'\<rparr>) \<and> tree_part (h\<lparr>hs_trees := st'\<rparr>) mp bk st"
proof -
  have lk: "mp \<noteq> NULL" "hashMap_assert_locked h mp = Some hm" using object_locked [OF assms(1)] assms(4) by auto
  have lock: "btree_lock (hs_trees h) (bucket_tree mp) = Some st" using assms(2) by (simp add: tree_part_def)
  obtain p where p: "btree_lookup st (bucket_tree mp) x = Some p"
    "(if p = NULL then Some (NULL, h\<lparr>hs_trees := st\<rparr>) else unlink_entry (h\<lparr>hs_trees := st\<rparr>) (bucket_tree mp) p (\<lambda>e. match h hm e arg)) = Some (NULL, h\<lparr>hs_trees := st\<rparr>)"
    using unlink_none [OF assms(2,3), of x "\<lambda>e. match h hm e arg" P] assms(5,6) by blast
  obtain st' where st': "btree_unlock st (bucket_tree mp) = Some st'" "\<And>h. hs_trees h = st' \<Longrightarrow> tree_part h mp bk st"
    using tree_part_relock [of st mp bk] assms(2) by (auto simp: tree_part_def)
  have "hashMap_remove_internal_entry h mp x match arg d = Some (- ENOENT, h\<lparr>hs_trees := st'\<rparr>)"
    using lk tree_recursive [OF lock] p st'(1) by (simp add: hashMap_remove_internal_entry_def)
  moreover have "tree_part (h\<lparr>hs_trees := st'\<rparr>) mp bk st" using st'(2) by simp
  ultimately show ?thesis by blast
qed

lemma remove_internal_found:
  assumes "object_part ctx h mp bk" "tree_part h mp bk st" "chain_part is_key H h bk" "get_map h mp = Some hm" "\<And>e. e \<in> set (bk x) \<Longrightarrow> match h hm e arg = Some (P e)" "filter P (bk x) \<noteq> []"
  obtains as y bs h' st' where "bk x = as @ y # bs" "P y" "filter P as = []" "object_part ctx h' mp (bk(x := as @ bs))" "tree_part h' mp (bk(x := as @ bs)) st'" "chain_part is_key H h' (bk(x := as @ bs))"
    "entry_data (hs_entries h') = entry_data (hs_entries h)" "hs_mem h' = hs_mem h"
    "hashMap_remove_internal_entry h mp x match arg d = do { h \<leftarrow> (if d then hashEntry_destroy (Some ctx) h' y else Some h'); Some (0, h) }"
proof -
  let ?b = "bucket_tree mp"
  have lk: "mp \<noteq> NULL" "hashMap_assert_locked h mp = Some hm" using object_locked [OF assms(1)] assms(4) by auto
  have lock: "btree_lock (hs_trees h) ?b = Some st" using assms(2) by (simp add: tree_part_def)
  obtain p as y bs h1 where u: "btree_lookup st ?b x = Some p" "p \<noteq> NULL" "unlink_entry (h\<lparr>hs_trees := st\<rparr>) ?b p (\<lambda>e. match h hm e arg) = Some (y, h1)"
      "bk x = as @ y # bs" "P y" "filter P as = []" "hs_maps h1 = hs_maps h" "hs_mem h1 = hs_mem h" "entry_data (hs_entries h1) = entry_data (hs_entries h)"
      "btree_map (hs_trees h1) ?b (\<lambda>z. if (bk(x := as @ bs)) z = [] then None else Some (head_of ((bk(x := as @ bs)) z)))"
      "\<And>z. chain (hs_entries h1) (head_of ((bk(x := as @ bs)) z)) ((bk(x := as @ bs)) z)"
    by (rule unlink_spec [OF assms(2,3), of x "\<lambda>e. match h hm e arg" P]) (use assms(5,6) in \<open>blast+\<close>)
  have y: "y \<noteq> NULL" using chain_partD [OF assms(3), of y x] u(4) by auto
  obtain st2 where st2: "btree_unlock (hs_trees h1) ?b = Some st2" "\<And>h. hs_trees h = st2 \<Longrightarrow> tree_part h mp (bk(x := as @ bs)) (hs_trees h1)"
    using tree_part_relock [OF u(10)] by blast
  have "of_nat (length (as @ bs)) = of_nat (length (bk x)) + (- 1 :: u64)" using u(4) by simp
  then obtain hm2 where hm2: "get_map (h1\<lparr>hs_trees := st2\<rparr>) mp = Some hm2" "hm_context hm2 = ctx"
      "object_part ctx (put_map (h1\<lparr>hs_trees := st2\<rparr>) mp (hm2\<lparr>hm_size := hm_size hm2 + - 1\<rparr>)) mp (bk(x := as @ bs))"
    using object_part_upd [OF assms(1), of "as @ bs" x "- 1" "h1\<lparr>hs_trees := st2\<rparr>"] u(7) by auto
  define h' where "h' = put_map (h1\<lparr>hs_trees := st2\<rparr>) mp (hm2\<lparr>hm_size := hm_size hm2 + - 1\<rparr>)"
  have "hashMap_remove_internal_entry h mp x match arg d = do { h \<leftarrow> (if d then hashEntry_destroy (Some ctx) h' y else Some h'); Some (0, h) }"
    using lk tree_recursive [OF lock] u(1-3) y st2(1) hm2(1,2) by (simp add: hashMap_remove_internal_entry_def h'_def)
  moreover have same: "hs_entries h' = hs_entries h1" "hs_mem h' = hs_mem h" "tree_part h' mp (bk(x := as @ bs)) (hs_trees h1)" using u(8) st2(2) by (simp_all add: h'_def put_map_def)
  moreover have "chain_part is_key H h' (bk(x := as @ bs))"
  proof -
    have "tag is_key h' e k = tag is_key h e k" for e k using tag_same [of h' h e k] same u(9) by simp
    moreover have "\<exists>k. tag is_key h e k \<and> H k = z" if "e \<in> set ((bk(x := as @ bs)) z)" for e z
      using that assms(3) u(4) by (auto simp: chain_part_def split: if_splits)
    ultimately show ?thesis using u(11) same(1) by (simp add: chain_part_def)
  qed
  ultimately show thesis using that [of as y bs h' "hs_trees h1"] u(4-6,9) hm2(3) by (simp add: h'_def)
qed

lemma destroy_spec:
  assumes "object_part ctx h mp bk" "tree_part h mp bk st" "chain_part is_key H h bk" "y \<noteq> NULL" "hs_entries h y \<noteq> None" "tag is_key h y k" "\<And>x. y \<notin> set (bk x)"
  obtains h' where "hashEntry_destroy (Some ctx) h y = Some h'" "object_part ctx h' mp bk" "tree_part h' mp bk st" "chain_part is_key H h' bk"
    "\<And>q k. is_key (hs_mem h) q k \<Longrightarrow> is_key (hs_mem h') q k" "\<And>x j. vals is_key h' (bk x) j = vals is_key h (bk x) j" "hs_entries h' = (hs_entries h)(y := None)"
proof -
  obtain n where n: "hs_entries h y = Some n" using assms(5) by blast
  then have key: "is_key (hs_mem h) (he_key n) k" "he_key n \<noteq> NULL" using assms(6) key_nonnull [of "hs_mem h" "he_key n" k] by (simp_all add: tag_def)
  obtain m' where m': "(case ctx_destroy ctx of Some f \<Rightarrow> f | None \<Rightarrow> default_destroy_key) (hs_mem h) (he_key n) = Some m'" "\<And>q k. is_key (hs_mem h) q k \<Longrightarrow> is_key m' q k"
    using destroy_law [OF key(1)] by blast
  define h' where "h' = h\<lparr>hs_mem := m', hs_entries := (hs_entries h)(y := None)\<rparr>"
  have d: "hashEntry_destroy (Some ctx) h y = Some h'" using n key(2) m'(1) assms(4) by (simp add: hashEntry_destroy_def free_entry_def h'_def)
  have tag': "tag is_key h' e j = tag is_key h e j" if e: "e \<in> set (bk x)" for e x j
  proof -
    obtain i where i: "tag is_key h e i" using assms(3) e unfolding chain_part_def by blast
    have ne: "e \<noteq> y" using e assms(7) by blast
    then have keep: "tag is_key h' e j" if "tag is_key h e j" for j using that m'(2) by (simp add: tag_def h'_def)
    have "j = i" if "tag is_key h' e j" using that keep [OF i] unfolding tag_def by (rule key_unique)
    then show ?thesis using keep i by blast
  qed
  show thesis
  proof (rule that [OF d])
    show "object_part ctx h' mp bk" "tree_part h' mp bk st" using assms(1,2) by (simp_all add: object_part_def tree_part_def h'_def)
    show "chain_part is_key H h' bk" unfolding chain_part_def
    proof (intro allI conjI ballI)
      fix x
      show "chain (hs_entries h') (head_of (bk x)) (bk x)"
        by (rule chain_frame [of "hs_entries h"]) (use assms(3,7) in \<open>auto simp: chain_part_def h'_def\<close>)
      fix e assume "e \<in> set (bk x)"
      then show "\<exists>k. tag is_key h' e k \<and> H k = x" using tag' assms(3) unfolding chain_part_def by blast
    qed
    show "\<And>q k. is_key (hs_mem h) q k \<Longrightarrow> is_key (hs_mem h') q k" using m'(2) by (simp add: h'_def)
    show "vals is_key h' (bk x) j = vals is_key h (bk x) j" for x j
    proof (rule vals_cong)
      fix e assume e: "e \<in> set (bk x)"
      then have "e \<noteq> y" using assms(7) by blast
      then show "tag is_key h' e j = tag is_key h e j \<and> he_value (the (hs_entries h' e)) = he_value (the (hs_entries h e))" using tag' [OF e] by (simp add: h'_def)
    qed
  qed (simp add: h'_def)
qed

lemma bucket_once:
  assumes "chain_part is_key H h bk" "bk x = as @ y # bs"
  shows "y \<notin> set ((bk(x := as @ bs)) z)"
proof (cases "z = x")
  case True
  have "distinct (bk x)" using assms(1) by (auto simp: chain_part_def intro: chain_distinct)
  then show ?thesis using True assms(2) by auto
next
  case False
  show ?thesis
  proof
    assume "y \<in> set ((bk(x := as @ bs)) z)"
    then have "y \<in> set (bk z)" "y \<in> set (bk x)" using False assms(2) by auto
    then obtain k1 k2 where "tag is_key h y k1" "H k1 = z" "tag is_key h y k2" "H k2 = x" using assms(1) unfolding chain_part_def by meson
    then show False using False key_unique [of "hs_mem h" _ k1 k2] by (auto simp: tag_def)
  qed
qed

lemma remove_key_spec:
  assumes "map_holds is_key H ctx h mp M" "is_key (hs_mem h) p k"
  shows "\<exists>h'. hashMap_remove sha256 h mp p = Some (if M k = [] then - ENOENT else 0, h') \<and> map_holds is_key H ctx h' mp (M(k := tl (M k))) \<and>
    (\<forall>q k. is_key (hs_mem h) q k \<longrightarrow> is_key (hs_mem h') q k)"
proof -
  obtain bk st where r: "object_part ctx h mp bk" "tree_part h mp bk st" "chain_part is_key H h bk" "\<And>k. M k = vals is_key h (bk (H k)) k" using assms(1) by (auto simp: map_holds_def)
  obtain hm where hm: "mp \<noteq> NULL" "get_map h mp = Some hm" "hm_context hm = ctx" "hm_capacity hm = 1024" using object_locked [OF r(1)] by blast
  have rm: "hashMap_remove sha256 h mp p = hashMap_remove_internal_entry h mp (H k) hashMap_match_by_key p True"
    using hm(1,2) hash_of_key [OF hm(3,4) assms(2)] key_nonnull [OF assms(2)] by (simp add: hashMap_remove_def)
  have mt: "hashMap_match_by_key h hm e p = Some (tag is_key h e k)" if e: "e \<in> set (bk (H k))" for e
  proof -
    obtain i where i: "tag is_key h e i" using r(3) e unfolding chain_part_def by blast
    then show ?thesis using keys_match_tag [OF hm(3) i assms(2)] chain_partD [OF r(3) e] by (auto simp: hashMap_match_by_key_def)
  qed
  show ?thesis
  proof (cases "filter (\<lambda>e. tag is_key h e k) (bk (H k)) = []")
    case True
    then have Mk: "M k = []" using r(4) [of k] by (simp add: vals_def)
    obtain st' where st': "hashMap_remove_internal_entry h mp (H k) hashMap_match_by_key p True = Some (- ENOENT, h\<lparr>hs_trees := st'\<rparr>)" "tree_part (h\<lparr>hs_trees := st'\<rparr>) mp bk st"
      using remove_internal_none [where x = "H k" and match = hashMap_match_by_key and arg = p and P = "\<lambda>e. tag is_key h e k" and d = True, OF r(1-3) hm(2) mt True] by blast
    have "map_holds is_key H ctx (h\<lparr>hs_trees := st'\<rparr>) mp M"
      unfolding map_holds_def by (rule exI [of _ bk], rule exI [of _ st]) (use r st'(2) in \<open>simp add: object_part_def chain_part_def tag_def vals_def\<close>)
    then show ?thesis using rm st'(1) Mk by (simp add: fun_upd_idem)
  next
    case False
    obtain as y bs h1 st1 where u: "bk (H k) = as @ y # bs" "tag is_key h y k" "filter (\<lambda>e. tag is_key h e k) as = []" "object_part ctx h1 mp (bk(H k := as @ bs))"
        "tree_part h1 mp (bk(H k := as @ bs)) st1" "chain_part is_key H h1 (bk(H k := as @ bs))" "entry_data (hs_entries h1) = entry_data (hs_entries h)" "hs_mem h1 = hs_mem h"
        "hashMap_remove_internal_entry h mp (H k) hashMap_match_by_key p True = do { h \<leftarrow> (if True then hashEntry_destroy (Some ctx) h1 y else Some h1); Some (0, h) }"
      by (rule remove_internal_found [where x = "H k" and match = hashMap_match_by_key and arg = p and P = "\<lambda>e. tag is_key h e k" and d = True, OF r(1-3) hm(2) mt False]) (assumption, blast)
    have same: "tag is_key h1 e j = tag is_key h e j" "he_value (the (hs_entries h1 e)) = he_value (the (hs_entries h e))" for e j
      using tag_same [OF u(8), of e j] value_same [of "hs_entries h1" e "hs_entries h"] u(7) by simp_all
    have "y \<noteq> NULL" "hs_entries h y \<noteq> None" using chain_partD [OF r(3), of y "H k"] u(1) by auto
    moreover have "hs_entries h1 y \<noteq> None"
      using fun_cong [OF u(7), of y] \<open>hs_entries h y \<noteq> None\<close> by (auto simp: entry_data_def)
    ultimately obtain h2 where h2: "hashEntry_destroy (Some ctx) h1 y = Some h2" "object_part ctx h2 mp (bk(H k := as @ bs))" "tree_part h2 mp (bk(H k := as @ bs)) st1"
        "chain_part is_key H h2 (bk(H k := as @ bs))" "\<And>q k. is_key (hs_mem h1) q k \<Longrightarrow> is_key (hs_mem h2) q k" "\<And>x j. vals is_key h2 ((bk(H k := as @ bs)) x) j = vals is_key h1 ((bk(H k := as @ bs)) x) j"
      using destroy_spec [OF u(4-6), of y k] same(1) [of y k] u(2) bucket_once [OF r(3) u(1)] by metis
    have v1: "vals is_key h1 es j = vals is_key h es j" for es j by (rule vals_cong) (simp add: same)
    have "vals is_key h (as @ bs) j = (if j = k then tl (vals is_key h (bk (H k)) k) else vals is_key h (bk (H k)) j)" for j
    proof (cases "j = k")
      case True
      then show ?thesis using u(1-3) by (simp add: vals_def)
    next
      case False
      then have "\<not> tag is_key h y j" using u(2) key_unique [of "hs_mem h" _ j k] by (auto simp: tag_def)
      then show ?thesis using False u(1) by (simp add: vals_def)
    qed
    then have "(M(k := tl (M k))) j = vals is_key h2 ((bk(H k := as @ bs)) (H j)) j" for j
      using r(4) [of j] r(4) [of k] h2(6) [of "H j" j] v1 [of _ j] by auto
    then have "map_holds is_key H ctx h2 mp (M(k := tl (M k)))" using h2(2-4) unfolding map_holds_def by blast
    moreover have "M k \<noteq> []" using False r(4) [of k] by (simp add: vals_def)
    ultimately show ?thesis using rm u(8,9) h2(1,5) by simp
  qed
qed

lemma lookup_spec:
  assumes "map_holds is_key H ctx h mp M" "is_key (hs_mem h) p k"
  shows "hashMap_lookup sha256 h mp p True = Some (case M k of [] \<Rightarrow> (- ENOENT, None) | v # _ \<Rightarrow> (0, Some v))"
proof -
  obtain bk st where r: "object_part ctx h mp bk" "tree_part h mp bk st" "chain_part is_key H h bk" "M k = vals is_key h (bk (H k)) k" using assms(1) by (auto simp: map_holds_def)
  have lk: "mp \<noteq> NULL" "\<exists>hm. hashMap_assert_locked h mp = Some hm" using object_locked [OF r(1)] by auto
  show ?thesis
  proof (cases "filter (\<lambda>e. tag is_key h e k) (bk (H k))")
    case Nil
    then show ?thesis using r(4) lk key_nonnull [OF assms(2)] lookup_entry_spec [OF r(1-3) assms(2)] by (auto simp: hashMap_lookup_def vals_def)
  next
    case (Cons e es)
    then have "e \<in> set (filter (\<lambda>e. tag is_key h e k) (bk (H k)))" by simp
    then have "e \<in> set (bk (H k))" by simp
    then obtain n where "e \<noteq> NULL" "hs_entries h e = Some n" using chain_partD [OF r(3)] by blast
    then show ?thesis using Cons r(4) lk key_nonnull [OF assms(2)] lookup_entry_spec [OF r(1-3) assms(2)] by (auto simp: hashMap_lookup_def vals_def)
  qed
qed

end

section \<open>The interface of a map with lists of values\<close>

text \<open>\<open>at s p k\<close>: the pointer \<open>p\<close> points to the key \<open>k\<close>.  Additions keep the keys at the pointers \<open>X\<close>.\<close>

locale multimap =
  fixes abs :: "'s \<Rightarrow> ('k \<Rightarrow> 'v list) \<Rightarrow> bool" and at :: "'s \<Rightarrow> 'p \<Rightarrow> 'k \<Rightarrow> bool" and free :: "'s \<Rightarrow> 'p \<Rightarrow> 'p set \<Rightarrow> bool"
    and find :: "'s \<Rightarrow> 'p \<Rightarrow> 'v option option" and add :: "'s \<Rightarrow> 'p \<Rightarrow> 'v \<Rightarrow> 's option" and del :: "'s \<Rightarrow> 'p \<Rightarrow> (bool \<times> 's) option"
  assumes find_law: "abs s M \<Longrightarrow> at s p k \<Longrightarrow> find s p = Some (case M k of [] \<Rightarrow> None | v # _ \<Rightarrow> Some v)"
    and add_law: "abs s M \<Longrightarrow> at s p k \<Longrightarrow> free s p X \<Longrightarrow> \<exists>s'. add s p v = Some s' \<and> abs s' (M(k := M k @ [v])) \<and> (\<forall>q \<in> X. \<forall>j. at s q j \<longrightarrow> at s' q j)"
    and del_law: "abs s M \<Longrightarrow> at s p k \<Longrightarrow> \<exists>s'. del s p = Some (M k \<noteq> [], s') \<and> abs s' (M(k := tl (M k))) \<and> (\<forall>q j. at s q j \<longrightarrow> at s' q j)"
begin

lemma add_find:
  assumes "abs s M" "at s p k" "at s q j" "free s p X" "q \<in> X"
  shows "\<exists>s'. add s p v = Some s' \<and> find s' q = (if j = k \<and> M k = [] then Some (Some v) else find s q)"
proof -
  obtain s' where s': "add s p v = Some s'" "abs s' (M(k := M k @ [v]))" "at s' q j" using add_law [OF assms(1,2,4), of v] assms(3,5) by blast
  then show ?thesis using find_law [OF s'(2,3)] find_law [OF assms(1,3)] by (auto split: list.splits)
qed

text \<open>A value added to a new key is taken away again; among several values of a key the oldest goes first.\<close>

lemma add_del:
  assumes "abs s M" "at s p k" "free s p X" "p \<in> X"
  shows "\<exists>s1 s2. add s p v = Some s1 \<and> del s1 p = Some (True, s2) \<and> abs s2 (if M k = [] then M else M(k := tl (M k) @ [v]))"
proof -
  obtain s1 where s1: "add s p v = Some s1" "abs s1 (M(k := M k @ [v]))" "at s1 p k" using add_law [OF assms(1-3), of v] assms(2,4) by blast
  obtain s2 where "del s1 p = Some (True, s2)" "abs s2 ((M(k := M k @ [v]))(k := tl (M k @ [v])))" using del_law [OF s1(2,3)] by auto
  moreover have "(M(k := M k @ [v]))(k := tl (M k @ [v])) = (if M k = [] then M else M(k := tl (M k) @ [v]))" by (auto simp: tl_append2)
  ultimately show ?thesis using s1(1) by auto
qed

end

sublocale key_context \<subseteq> mm: multimap "\<lambda>h. map_holds is_key H ctx h mp" "\<lambda>h. is_key (hs_mem h)" "map_room room cost"
    "\<lambda>h p. map_option snd (hashMap_lookup sha256 h mp p True)" "\<lambda>h p v. Option.bind (hashMap_insert sha256 h mp p v) (\<lambda>(err, h). if err = 0 then Some h else None)"
    "\<lambda>h p. map_option (\<lambda>(err, h). (err = 0, h)) (hashMap_remove sha256 h mp p)" for mp
proof
  fix h M p k assume a: "map_holds is_key H ctx h mp M" "is_key (hs_mem h) p k"
  show "map_option snd (hashMap_lookup sha256 h mp p True) = Some (case M k of [] \<Rightarrow> None | v # _ \<Rightarrow> Some v)"
    unfolding lookup_spec [OF a] by (simp split: list.split)
  show "\<exists>h'. map_option (\<lambda>(err, h). (err = 0, h)) (hashMap_remove sha256 h mp p) = Some (M k \<noteq> [], h') \<and> map_holds is_key H ctx h' mp (M(k := tl (M k))) \<and>
      (\<forall>q j. is_key (hs_mem h) q j \<longrightarrow> is_key (hs_mem h') q j)"
    using remove_key_spec [OF a] by auto
  fix X v assume r: "map_room room cost h p X"
  show "\<exists>h'. Option.bind (hashMap_insert sha256 h mp p v) (\<lambda>(err, h). if err = 0 then Some h else None) = Some h' \<and> map_holds is_key H ctx h' mp (M(k := M k @ [v])) \<and>
      (\<forall>q \<in> X. \<forall>j. is_key (hs_mem h) q j \<longrightarrow> is_key (hs_mem h') q j)"
    using insert_spec [OF a r, of v] by (elim exE conjE) simp
qed

end
