(* ===== verification/Pci.thy ===== *)
theory Pci
  imports Hashmap
begin

text \<open>
  The registry of PCI devices and drivers: \<^verbatim>\<open>src/src/kernel/dev/bus/pci/pci.c\<close> and \<^verbatim>\<open>helpers.c\<close>.  Devices are kept in a hash map whose keys are their identifiers, drivers in one whose keys are their names.
  Configuration space is read through a parameter.  The layout of the structures is that of the C compiler: an identifier has its device number at offset 0, the vendor at 2, the classes at 4 and 5,
  interface and revision at 6 and 7; a device has bus, slot and function at 0, 1 and 2, its flags at 4 and its identifier at 8.
\<close>

section \<open>Identifiers\<close>

type_synonym u16 = "16 word"

record pci_devid =
  pd_device :: u16
  pd_vendor :: u16
  pd_baseclass :: u8
  pd_subclass :: u8

definition ld16 :: "mem \<Rightarrow> addr \<Rightarrow> u16 option" where
  "ld16 m a = map_option (\<lambda>bs. ucast (word_of_bytes bs)) (load_bytes m a 2)"

text \<open>The members of an identifier that the code compares.\<close>

definition ld_devid :: "mem \<Rightarrow> addr \<Rightarrow> pci_devid option" where
  "ld_devid m p = do {
     d \<leftarrow> ld16 m p; v \<leftarrow> ld16 m (p + 2); b \<leftarrow> m (p + 4); s \<leftarrow> m (p + 5);
     Some \<lparr>pd_device = d, pd_vendor = v, pd_baseclass = b, pd_subclass = s\<rparr> }"

definition pci_devid_compare :: "mem \<Rightarrow> addr \<Rightarrow> addr \<Rightarrow> bool option" where
  "pci_devid_compare m devid0 devid1 = do {
     assert_that (devid0 \<noteq> NULL); assert_that (devid1 \<noteq> NULL);
     i0 \<leftarrow> ld_devid m devid0; i1 \<leftarrow> ld_devid m devid1;
     Some (pd_device i0 = pd_device i1 \<and> pd_vendor i0 = pd_vendor i1 \<and> pd_baseclass i0 = pd_baseclass i1 \<and> pd_subclass i0 = pd_subclass i1) }"

datatype pci_match = PCI_MATCH_ALL | PCI_MATCH_ANY | PCI_MATCH_CLASS | PCI_MATCH_DEVICEID | PCI_MATCH_OTHER

definition pci_match_device :: "mem \<Rightarrow> addr \<Rightarrow> addr \<Rightarrow> pci_match \<Rightarrow> bool option" where
  "pci_match_device m device devid how = do {
     assert_that (devid \<noteq> NULL); assert_that (device \<noteq> NULL);
     case how of
       PCI_MATCH_ALL \<Rightarrow> pci_devid_compare m (device + 8) devid
     | PCI_MATCH_OTHER \<Rightarrow> Some False
     | _ \<Rightarrow> do {
         i0 \<leftarrow> ld_devid m (device + 8); i1 \<leftarrow> ld_devid m devid;
         Some (case how of
           PCI_MATCH_DEVICEID \<Rightarrow> pd_vendor i0 = pd_vendor i1 \<and> pd_device i0 = pd_device i1
         | PCI_MATCH_CLASS \<Rightarrow> pd_baseclass i0 = pd_baseclass i1 \<and> pd_subclass i0 = pd_subclass i1
         | _ \<Rightarrow> pd_vendor i0 = pd_vendor i1 \<or> pd_device i0 = pd_device i1 \<or> pd_baseclass i0 = pd_baseclass i1 \<or> pd_subclass i0 = pd_subclass i1) } }"

section \<open>Callbacks\<close>

text \<open>The device number is shifted as an \<^verbatim>\<open>int\<close>, so that the hash is sign-extended.\<close>

definition pci_hashMap_hash :: "mem \<Rightarrow> u64 \<Rightarrow> addr \<Rightarrow> u64 option" where
  "pci_hashMap_hash m capacity key = do {
     assert_that (key \<noteq> NULL);
     device \<leftarrow> ld16 m key; vendor \<leftarrow> ld16 m (key + 2);
     Some (scast (push_bit 16 (ucast device) OR ucast vendor :: u32)) }"

definition pci_hashMap_copy :: "addr list \<Rightarrow> mem \<Rightarrow> addr \<Rightarrow> (int \<times> addr option \<times> addr list \<times> mem) option" where
  "pci_hashMap_copy al m key = Some (if key = NULL then (- EINVAL, None, al, m) else (0, Some key, al, m))"

definition pci_hashMap_destroy :: "mem \<Rightarrow> addr \<Rightarrow> mem option" where
  "pci_hashMap_destroy m key = Some m"

definition pci_hashMap_compare :: "mem \<Rightarrow> addr \<Rightarrow> addr \<Rightarrow> bool option" where
  "pci_hashMap_compare m key1 key2 = do { assert_that (key1 \<noteq> NULL); assert_that (key2 \<noteq> NULL); pci_devid_compare m key1 key2 }"

definition pci_device_hashMap_ctx :: hashMapContext where
  "pci_device_hashMap_ctx = \<lparr>ctx_destroy = Some pci_hashMap_destroy, ctx_copy = Some pci_hashMap_copy, ctx_hash = Some pci_hashMap_hash, ctx_compare = Some pci_hashMap_compare\<rparr>"

section \<open>Operations under the lock\<close>

definition pci_hashMap_insert :: "digest \<Rightarrow> hstate \<Rightarrow> addr \<Rightarrow> addr \<Rightarrow> addr \<Rightarrow> (int \<times> hstate) option" where
  "pci_hashMap_insert sha256 h mp key data =
     (if mp = NULL \<or> key = NULL \<or> data = NULL then Some (- EINVAL, h)
      else do { h \<leftarrow> hashMap_lock h mp; (err, h) \<leftarrow> hashMap_insert sha256 h mp key data; h \<leftarrow> hashMap_unlock h mp; Some (err, h) })"

definition pci_hashMap_lookup :: "digest \<Rightarrow> hstate \<Rightarrow> addr \<Rightarrow> addr \<Rightarrow> bool \<Rightarrow> (int \<times> addr option \<times> hstate) option" where
  "pci_hashMap_lookup sha256 h mp key rdata =
     (if mp = NULL \<or> key = NULL then Some (- EINVAL, None, h)
      else do { h \<leftarrow> hashMap_lock h mp; (err, d) \<leftarrow> hashMap_lookup sha256 h mp key rdata; h \<leftarrow> hashMap_unlock h mp; Some (err, d, h) })"

definition pci_hashMap_remove :: "digest \<Rightarrow> hstate \<Rightarrow> addr \<Rightarrow> addr \<Rightarrow> (int \<times> hstate) option" where
  "pci_hashMap_remove sha256 h mp key =
     (if mp = NULL \<or> key = NULL then Some (- EINVAL, h)
      else do { h \<leftarrow> hashMap_lock h mp; (err, h) \<leftarrow> hashMap_remove sha256 h mp key; h \<leftarrow> hashMap_unlock h mp; Some (err, h) })"

definition pci_hashMap_size :: "hstate \<Rightarrow> addr \<Rightarrow> (u64 \<times> hstate) option" where
  "pci_hashMap_size h mp = do { h \<leftarrow> hashMap_lock h mp; n \<leftarrow> hashMap_size h mp; h \<leftarrow> hashMap_unlock h mp; Some (n, h) }"

definition pci_hashMap_capacity :: "hstate \<Rightarrow> addr \<Rightarrow> (u64 \<times> hstate) option" where
  "pci_hashMap_capacity h mp = do { h \<leftarrow> hashMap_lock h mp; n \<leftarrow> hashMap_capacity h mp; h \<leftarrow> hashMap_unlock h mp; Some (n, h) }"

text \<open>The two maps are static objects: \<open>dm\<close> and \<open>vm\<close> are their addresses.  The name of a driver is its first member.\<close>

definition device_hashMap_insert :: "digest \<Rightarrow> addr \<Rightarrow> hstate \<Rightarrow> addr \<Rightarrow> (int \<times> hstate) option" where
  "device_hashMap_insert sha256 dm h device = pci_hashMap_insert sha256 h dm (device + 8) device"

definition device_hashMap_lookup :: "digest \<Rightarrow> addr \<Rightarrow> hstate \<Rightarrow> addr \<Rightarrow> bool \<Rightarrow> (int \<times> addr option \<times> hstate) option" where
  "device_hashMap_lookup sha256 dm h devid rdevice = pci_hashMap_lookup sha256 h dm devid rdevice"

definition device_hashMap_remove :: "digest \<Rightarrow> addr \<Rightarrow> hstate \<Rightarrow> addr \<Rightarrow> (int \<times> hstate) option" where
  "device_hashMap_remove sha256 dm h devid = pci_hashMap_remove sha256 h dm devid"

definition driver_hashMap_insert :: "digest \<Rightarrow> addr \<Rightarrow> hstate \<Rightarrow> addr \<Rightarrow> (int \<times> hstate) option" where
  "driver_hashMap_insert sha256 vm h driver = pci_hashMap_insert sha256 h vm driver driver"

definition driver_hashMap_lookup :: "digest \<Rightarrow> addr \<Rightarrow> hstate \<Rightarrow> addr \<Rightarrow> bool \<Rightarrow> (int \<times> addr option \<times> hstate) option" where
  "driver_hashMap_lookup sha256 vm h name rdriver = pci_hashMap_lookup sha256 h vm name rdriver"

definition driver_hashMap_remove :: "digest \<Rightarrow> addr \<Rightarrow> hstate \<Rightarrow> addr \<Rightarrow> (int \<times> hstate) option" where
  "driver_hashMap_remove sha256 vm h name = pci_hashMap_remove sha256 h vm name"

definition driver_hashMap_empty :: "addr \<Rightarrow> hstate \<Rightarrow> (bool \<times> hstate) option" where
  "driver_hashMap_empty vm h = do { (n, h) \<leftarrow> pci_hashMap_size h vm; Some (n = 0, h) }"

section \<open>Scanning\<close>

text \<open>\<open>pci_read\<close> is the register at an address of configuration space.\<close>

definition pci_scan_device :: "(u32 \<Rightarrow> u32) \<Rightarrow> u8 \<Rightarrow> u8 \<Rightarrow> u8 \<Rightarrow> u8 \<Rightarrow> u32" where
  "pci_scan_device pci_read bus slot func off =
     pci_read (push_bit 31 1 OR push_bit 16 (ucast bus) OR push_bit 11 (ucast slot) OR push_bit 8 (ucast func) OR (ucast off AND 0xfc))"

definition pci_alloc_device :: "(u32 \<Rightarrow> u32) \<Rightarrow> hstate \<Rightarrow> u16 \<Rightarrow> u16 \<Rightarrow> u8 \<Rightarrow> u8 \<Rightarrow> u8 \<Rightarrow> bool \<Rightarrow> (int \<times> addr option \<times> hstate) option" where
  "pci_alloc_device pci_read h deviceID vendorID bus slot func ret =
     (if \<not> ret \<or> vendorID = 0xFFFF then Some (- EINVAL, None, h)
      else do {
        let (device, h) = kzalloc h;
        if device = NULL then Some (- ENOMEM, None, h)
        else do {
          let retval = pci_scan_device pci_read bus slot func 8;
          let byte = (\<lambda>k. ucast (drop_bit k retval) :: u8);
          m \<leftarrow> store_bytes (hs_mem h) device
            ([bus, slot, func, 0, 0, 0, 0, 0] @ bytes_of_word 2 (ucast deviceID) @ bytes_of_word 2 (ucast vendorID) @ [byte 24, byte 16, byte 8, byte 0]);
          Some (0, Some device, h\<lparr>hs_mem := m\<rparr>) } })"

text \<open>One function of a slot, and the three loops over all of them.  A device that cannot be inserted is freed, which leaves its bytes mapped.\<close>

definition scan_function :: "digest \<Rightarrow> (u32 \<Rightarrow> u32) \<Rightarrow> addr \<Rightarrow> hstate \<Rightarrow> u8 \<times> u8 \<times> u8 \<Rightarrow> (int \<times> hstate) option" where
  "scan_function sha256 pci_read dm h = (\<lambda>(bus, slot, func). do {
     let retval = pci_scan_device pci_read bus slot func 0;
     if retval AND 0xffff = 0xffff then Some (0, h)
     else do {
       (err, d, h) \<leftarrow> pci_alloc_device pci_read h (ucast (drop_bit 16 retval)) (ucast retval) bus slot func True;
       case d of None \<Rightarrow> Some (err, h)
       | Some device \<Rightarrow> device_hashMap_insert sha256 dm h device } })"

fun scan_functions :: "digest \<Rightarrow> (u32 \<Rightarrow> u32) \<Rightarrow> addr \<Rightarrow> hstate \<Rightarrow> (u8 \<times> u8 \<times> u8) list \<Rightarrow> (int \<times> hstate) option" where
  "scan_functions sha256 pci_read dm h [] = Some (0, h)"
| "scan_functions sha256 pci_read dm h (f # fs) = do {
     (err, h) \<leftarrow> scan_function sha256 pci_read dm h f;
     if err \<noteq> 0 then Some (err, h) else scan_functions sha256 pci_read dm h fs }"

definition pci_scan_bus :: "digest \<Rightarrow> (u32 \<Rightarrow> u32) \<Rightarrow> addr \<Rightarrow> hstate \<Rightarrow> (int \<times> hstate) option" where
  "pci_scan_bus sha256 pci_read dm h =
     scan_functions sha256 pci_read dm h [(of_nat bus, of_nat slot, of_nat func). bus \<leftarrow> [0..<256], slot \<leftarrow> [0..<32], func \<leftarrow> [0..<8]]"

end
