(* ===== verification/Hashmap_Keys.thy ===== *)
theory Hashmap_Keys
  imports Hashmap_Proofs Pci
begin

text \<open>
  The two kinds of keys in the kernel: strings, with the default callbacks of the hash map, and the identifiers of PCI devices (\<^verbatim>\<open>dev/bus/pci/pci.c\<close>, \<^verbatim>\<open>helpers.c\<close>).  Both satisfy what the map relies on,
  and the properties of the map follow for them.
\<close>

section \<open>Strings\<close>

definition string_key :: "mem \<Rightarrow> addr \<Rightarrow> u8 list \<Rightarrow> bool" where
  "string_key m p s \<longleftrightarrow> p \<noteq> NULL \<and> whole_words m \<and> cstr m p s \<and> length s < 2 ^ 31 - 1"

definition string_hash :: "digest \<Rightarrow> u8 list \<Rightarrow> u64" where
  "string_hash sha256 s = foldl (\<lambda>idx i. push_bit 8 idx OR ucast (sha256 s ! i)) 0 [0..<8] mod 1024"

text \<open>Room for the copy of a string: the block that the allocator returns is mapped and overlaps neither the string nor those at \<open>S\<close>.\<close>

definition string_room :: "mem \<Rightarrow> addr list \<Rightarrow> addr \<Rightarrow> addr set \<Rightarrow> bool" where
  "string_room m al p S \<longleftrightarrow> (\<exists>d al'. al = d # al' \<and> d \<noteq> NULL \<and> (\<forall>s. cstr m p s \<longrightarrow> mapped m d (Suc (length s)) \<and>
     (\<forall>q \<in> insert p S. \<forall>t. cstr m q t \<longrightarrow> Strings_Proofs.apart d (Suc (length s)) q (length t))))"

lemma cstr_unique: "cstr m p s \<Longrightarrow> cstr m p t \<Longrightarrow> s = t"
proof (induction s arbitrary: p t)
  case Nil
  then show ?case by (cases t) (auto simp: cstr_Nil cstr_Cons)
next
  case (Cons b s)
  then show ?case by (cases t) (auto simp: cstr_Nil cstr_Cons)
qed

lemma cstr_load: "cstr m p s \<Longrightarrow> load_bytes m p (length s) = Some s"
  by (simp add: cstr_def load_bytes_Some)

lemma strcpy_loop_copies:
  assumes "cstr m t s" "mapped m d (Suc (length s))" "Strings_Proofs.apart d (Suc (length s)) t (length s)" "length s < 2 ^ 63"
  shows "\<exists>m'. strcpy_loop m d t = Some (d + of_nat (length s), m') \<and> cstr m' d s \<and> (\<forall>x. length s < unat (x - d) \<longrightarrow> m' x = m x) \<and> (\<forall>x. m' x = None \<longleftrightarrow> m x = None)"
  using assms
proof (induction s arbitrary: m d t)
  case Nil
  then have "m t = Some 0" "m d \<noteq> None" by (simp_all add: cstr_Nil mapped_Suc)
  then have "strcpy_loop m d t = Some (d, m(d \<mapsto> 0))" by (subst strcpy_loop.simps) (simp add: st8_def)
  moreover have "x \<noteq> d" if "0 < unat (x - d)" for x using that by auto
  ultimately show ?case using \<open>m d \<noteq> None\<close> by (auto simp: cstr_Nil)
next
  case (Cons b s)
  have b: "b \<noteq> 0" "m t = Some b" "cstr m (t + 1) s" using Cons.prems(1) by (auto simp: cstr_Cons)
  let ?m = "m(d \<mapsto> b)"
  have ap: "Strings_Proofs.apart d (Suc (Suc (length s))) t (Suc (length s))" using Cons.prems(3) by simp
  have d: "m d \<noteq> None" "mapped ?m (d + 1) (Suc (length s))" using Cons.prems(2) mapped_Suc [of m d "Suc (length s)"] by (auto intro: mapped_upd)
  have cs: "cstr ?m (t + 1) s" using b(3) apart_neq [OF ap] by (intro cstr_update) (force simp: algebra_simps dest: spec [of _ "Suc i" for i])+
  have l: "length s < 2 ^ 63" using Cons.prems(4) by simp
  obtain m' where IH: "strcpy_loop ?m (d + 1) (t + 1) = Some (d + 1 + of_nat (length s), m')" "cstr m' (d + 1) s"
      "\<And>x. length s < unat (x - (d + 1)) \<Longrightarrow> m' x = ?m x" "\<And>x. m' x = None \<longleftrightarrow> ?m x = None"
    using Cons.IH [OF cs d(2) apart_step [OF ap] l] by blast
  have step: "strcpy_loop m d t = strcpy_loop ?m (d + 1) (t + 1)" using b d(1) by (subst strcpy_loop.simps) (auto simp: st8_def)
  have "unat (d - (d + 1)) = 2 ^ 64 - 1" using unat_uminus [of "1 :: u64"] by simp
  then have "m' d = Some b" using IH(3) [of d] Cons.prems(4) by simp
  moreover have "m' x = m x" if "Suc (length s) < unat (x - d)" for x
  proof -
    have e: "x - (d + 1) = x - d - of_nat 1" by simp
    have "unat (x - (d + 1)) = unat (x - d) - 1" unfolding e using that by (intro unat_minus_of_nat) simp
    moreover have "x \<noteq> d" using that by auto
    ultimately show ?thesis using IH(3) [of x] that by simp
  qed
  moreover have "m' x = None \<longleftrightarrow> m x = None" for x using IH(4) [of x] d(1) by auto
  ultimately show ?case using step IH(1,2) b(1) by (auto simp: cstr_Cons algebra_simps)
qed

lemma cstr_outside:
  assumes "cstr m q t" "Strings_Proofs.apart d (Suc n) q (length t)" "\<And>x. n < unat (x - d) \<Longrightarrow> m' x = m x"
  shows "cstr m' q t"
proof -
  have "m' (q + of_nat i) = m (q + of_nat i)" if "i \<le> length t" for i
    using assms(2,3) that by (auto simp: Strings_Proofs.apart_def Suc_le_eq less_Suc_eq_le)
  then show ?thesis using assms(1) by (simp add: cstr_def)
qed

lemma whole_words_same: "whole_words m \<Longrightarrow> (\<And>x. m' x = None \<longleftrightarrow> m x = None) \<Longrightarrow> whole_words m'"
  by (simp add: whole_words_def mapped_def)

lemma ucast_of_nat32: "ucast (of_nat n :: u64) = (of_nat n :: u32)"
  by transfer simp

lemma sint_of_nat32: "n < 2 ^ 31 \<Longrightarrow> sint (of_nat n :: u32) = int n"
  by (simp add: signed_of_nat signed_take_bit_int_eq_self)

lemma strdup_copies:
  assumes "string_key m p s" "d \<noteq> NULL" "mapped m d (Suc (length s))" "Strings_Proofs.apart d (Suc (length s)) p (length s)"
  shows "\<exists>m'. strdup m p d = Some (d, m') \<and> string_key m' d s \<and> (\<forall>x. length s < unat (x - d) \<longrightarrow> m' x = m x) \<and> (\<forall>x. m' x = None \<longleftrightarrow> m x = None)"
proof -
  have k: "whole_words m" "cstr m p s" "length s < 2 ^ 31 - 1" using assms(1) by (simp_all add: string_key_def)
  obtain m' where m': "strcpy_loop m d p = Some (d + of_nat (length s), m')" "cstr m' d s" "\<forall>x. length s < unat (x - d) \<longrightarrow> m' x = m x" "\<And>x. m' x = None \<longleftrightarrow> m x = None"
    using strcpy_loop_copies [OF k(2) assms(3,4)] k(3) by auto
  have len: "strlen m p = Some (of_nat (length s))" using strlen_cstr [OF k(1,2)] .
  have "(ucast (of_nat (length s) + 1 :: u64) :: u32) = of_nat (Suc (length s))" using ucast_of_nat32 [of "Suc (length s)"] by (simp add: add.commute)
  moreover have "sint (of_nat (Suc (length s)) :: u32) = int (Suc (length s))" using k(3) by (intro sint_of_nat32) simp
  ultimately have "word_of_int (sint (ucast (of_nat (length s) + 1 :: u64) :: u32) - 1) = (of_nat (length s) :: u64)" by simp
  moreover have "m' (d + of_nat (length s)) = Some 0" using m'(2) by (simp add: cstr_def)
  then have "m'(d + of_nat (length s) \<mapsto> 0) = m'" by (simp add: fun_upd_idem)
  ultimately have "strdup m p d = Some (d, m')" using len m'(1) assms(2) \<open>m' (d + of_nat (length s)) = Some 0\<close> by (simp add: strdup_def strcpy_def st8_def)
  then show ?thesis using m' k(3) assms(2) whole_words_same [OF k(1) m'(4)] by (auto simp: string_key_def)
qed

interpretation str: key_context sha256 HASHMAPCTX_INIT string_key "string_hash sha256" string_room 1 for sha256
proof
  show "k = k'" if "string_key m p k" "string_key m p k'" for m p k k' using that cstr_unique by (auto simp: string_key_def)
  show "p \<noteq> NULL" if "string_key m p k" for m p k using that by (simp add: string_key_def)
  show "HASHCTX_GET_FUNC (Some HASHMAPCTX_INIT) ctx_hash (default_hash sha256) m 1024 p = Some (string_hash sha256 k)" if "string_key m p k" for m p k
  proof -
    have "strlen m p = Some (of_nat (length k))" "load_bytes m p (length k) = Some k" "length k < 2 ^ 64"
      using that strlen_cstr cstr_load by (auto simp: string_key_def)
    then show ?thesis by (simp add: HASHCTX_GET_FUNC_def HASHMAPCTX_INIT_def default_hash_def sha256_index_def string_hash_def)
  qed
  show "HASHCTX_GET_FUNC (Some HASHMAPCTX_INIT) ctx_compare default_match_keys m p q = Some (k = k')" if "string_key m p k" "string_key m q k'" for m p k q k'
  proof -
    have "strlen m p = Some (of_nat (length k))" "strlen m q = Some (of_nat (length k'))" "strcmp m p q = Some (cmp_bytes k k')" "length k < 2 ^ 64" "length k' < 2 ^ 64" "0 \<notin> set k" "0 \<notin> set k'"
      using that strlen_cstr strcmp_cstr by (auto simp: string_key_def cstr_def)
    moreover from this have "(of_nat (length k) :: u64) = of_nat (length k') \<longleftrightarrow> length k = length k'" using unat_small by metis
    ultimately show ?thesis by (auto simp: HASHCTX_GET_FUNC_def HASHMAPCTX_INIT_def default_match_keys_def string_eq_def cmp_bytes_0)
  qed
  show "\<exists>p' m'. HASHCTX_GET_FUNC (Some HASHMAPCTX_INIT) ctx_copy default_copy_key al m p = Some (0, Some p', drop 1 al, m') \<and> string_key m' p' k \<and> (\<forall>q \<in> S. \<forall>k. string_key m q k \<longrightarrow> string_key m' q k)"
    if key: "string_key m p k" and room: "string_room m al p S" for m p k al S
  proof -
    have c: "cstr m p k" "p \<noteq> NULL" "whole_words m" using key by (simp_all add: string_key_def)
    obtain d al' where r: "al = d # al'" "d \<noteq> NULL" "mapped m d (Suc (length k))" "Strings_Proofs.apart d (Suc (length k)) p (length k)"
        "\<And>q t. q \<in> S \<Longrightarrow> cstr m q t \<Longrightarrow> Strings_Proofs.apart d (Suc (length k)) q (length t)"
      using room c(1) by (auto simp: string_room_def)
    obtain m' where m': "strdup m p d = Some (d, m')" "string_key m' d k" "\<And>x. length k < unat (x - d) \<Longrightarrow> m' x = m x" "\<And>x. m' x = None \<longleftrightarrow> m x = None"
      using strdup_copies [OF key r(2-4)] by blast
    have "string_key m' q t" if "q \<in> S" "string_key m q t" for q t
      using that cstr_outside [OF _ r(5) m'(3)] whole_words_same [OF c(3) m'(4)] by (auto simp: string_key_def)
    then show ?thesis using r(1,2) c(2) m'(1,2) by (auto simp: HASHCTX_GET_FUNC_def HASHMAPCTX_INIT_def default_copy_key_def head_or_null_def)
  qed
  show "\<exists>m'. (case ctx_destroy HASHMAPCTX_INIT of Some f \<Rightarrow> f | None \<Rightarrow> default_destroy_key) m p = Some m' \<and> (\<forall>q k. string_key m q k \<longrightarrow> string_key m' q k)" for m p
    by (simp add: HASHMAPCTX_INIT_def default_destroy_key_def)
qed

section \<open>Device identifiers\<close>

definition devid_key :: "mem \<Rightarrow> addr \<Rightarrow> pci_devid \<Rightarrow> bool" where
  "devid_key m p i \<longleftrightarrow> p \<noteq> NULL \<and> ld_devid m p = Some i"

definition devid_hash :: "pci_devid \<Rightarrow> u64" where
  "devid_hash i = scast (push_bit 16 (ucast (pd_device i)) OR ucast (pd_vendor i) :: u32)"

interpretation dev: key_context sha256 pci_device_hashMap_ctx devid_key devid_hash "\<lambda>_ _ _ _. True" 0 for sha256
proof
  show "HASHCTX_GET_FUNC (Some pci_device_hashMap_ctx) ctx_hash (default_hash sha256) m 1024 p = Some (devid_hash k)" if "devid_key m p k" for m p k
    using that by (auto simp: HASHCTX_GET_FUNC_def pci_device_hashMap_ctx_def pci_hashMap_hash_def devid_key_def devid_hash_def ld_devid_def bind_eq_Some_conv)
  show "HASHCTX_GET_FUNC (Some pci_device_hashMap_ctx) ctx_compare default_match_keys m p q = Some (k = k')" if "devid_key m p k" "devid_key m q k'" for m p k q k'
    using that by (cases k; cases k') (simp add: HASHCTX_GET_FUNC_def pci_device_hashMap_ctx_def pci_hashMap_compare_def pci_devid_compare_def devid_key_def)
qed (auto simp: devid_key_def HASHCTX_GET_FUNC_def pci_device_hashMap_ctx_def pci_hashMap_copy_def pci_hashMap_destroy_def)

section \<open>Properties\<close>

text \<open>C36: \<^verbatim>\<open>hashMap_insert\<close> with the default callbacks of a string that is not yet a key: the call succeeds, the map holds the value under this string and everything else as before (\<open>map_holds string_key \<dots> h mp M\<close> says that the
  map object \<open>mp\<close> holds the values \<open>M\<close>, with the chains, the search tree and the count right), the strings it is told to keep are not touched, and \<^verbatim>\<open>hashMap_lookup\<close> finds the value through every pointer to an equal string.
\<close>

theorem hashMap_insert_correct:
  assumes "map_holds string_key (string_hash sha256) HASHMAPCTX_INIT h mp M" "string_key (hs_mem h) p k" "map_room string_room 1 h p X" "M k = []"
  shows "\<exists>h'. hashMap_insert sha256 h mp p v = Some (0, h') \<and> map_holds string_key (string_hash sha256) HASHMAPCTX_INIT h' mp (M(k := [v])) \<and>
    (\<forall>q \<in> X. \<forall>s. string_key (hs_mem h) q s \<longrightarrow> string_key (hs_mem h') q s) \<and>
    (\<forall>q \<in> X. string_key (hs_mem h) q k \<longrightarrow> hashMap_lookup sha256 h' mp q True = Some (0, Some v))"
proof -
  obtain h' where h': "hashMap_insert sha256 h mp p v = Some (0, h')" "map_holds string_key (string_hash sha256) HASHMAPCTX_INIT h' mp (M(k := [v]))"
      "\<forall>q \<in> X. \<forall>s. string_key (hs_mem h) q s \<longrightarrow> string_key (hs_mem h') q s"
    using str.insert_spec [OF assms(1-3), of v] assms(4) by auto
  then show ?thesis using str.lookup_spec [OF h'(2), of _ k] by fastforce
qed

text \<open>For a string that is a key already the code does not update the value, as \<^verbatim>\<open>hashMap.h\<close> says: the new value is appended behind the old ones, and a lookup still finds the oldest.
\<close>

theorem hashMap_insert_keeps_old:
  assumes "map_holds string_key (string_hash sha256) HASHMAPCTX_INIT h mp M" "string_key (hs_mem h) p k" "map_room string_room 1 h p X" "p \<in> X" "M k = u # us"
  shows "\<exists>h'. hashMap_insert sha256 h mp p v = Some (0, h') \<and> map_holds string_key (string_hash sha256) HASHMAPCTX_INIT h' mp (M(k := u # us @ [v])) \<and>
    hashMap_lookup sha256 h' mp p True = Some (0, Some u)"
proof -
  obtain h' where h': "hashMap_insert sha256 h mp p v = Some (0, h')" "map_holds string_key (string_hash sha256) HASHMAPCTX_INIT h' mp (M(k := u # us @ [v]))" "string_key (hs_mem h') p k"
    using str.insert_spec [OF assms(1-3), of v] assms(2,4,5) by auto
  then show ?thesis using str.lookup_spec [OF h'(2,3)] by auto
qed

text \<open>C37: \<^verbatim>\<open>hashMap_remove\<close> takes away the oldest value of the key and nothing else, frees its entry, and returns \<^verbatim>\<open>-ENOENT\<close> exactly when the key has no value.\<close>

theorem hashMap_remove_correct:
  assumes "map_holds string_key (string_hash sha256) HASHMAPCTX_INIT h mp M" "string_key (hs_mem h) p k"
  shows "\<exists>h'. hashMap_remove sha256 h mp p = Some (if M k = [] then - ENOENT else 0, h') \<and>
    map_holds string_key (string_hash sha256) HASHMAPCTX_INIT h' mp (M(k := tl (M k)))"
  using str.remove_key_spec [OF assms] by blast

text \<open>\<^verbatim>\<open>hashMap_lookup\<close> returns the oldest value of the key, or \<^verbatim>\<open>-ENOENT\<close> when it has none, for identifiers of devices as for strings.\<close>

theorem hashMap_lookup_correct:
  assumes "map_holds devid_key devid_hash pci_device_hashMap_ctx h mp M" "devid_key (hs_mem h) p k"
  shows "hashMap_lookup sha256 h mp p True = Some (case M k of [] \<Rightarrow> (- ENOENT, None) | v # _ \<Rightarrow> (0, Some v))"
  using assms by (rule dev.lookup_spec)

text \<open>C38: Inserting a device under an identifier that has none and removing it again: both calls succeed, in between a lookup finds the device, and afterwards the map holds what it held before.
\<close>

theorem hashMap_insert_remove:
  assumes "map_holds devid_key devid_hash pci_device_hashMap_ctx h mp M" "devid_key (hs_mem h) p k" "map_room (\<lambda>_ _ _ _. True) 0 h p {p}" "M k = []"
  shows "\<exists>h1 h2. hashMap_insert sha256 h mp p v = Some (0, h1) \<and> hashMap_lookup sha256 h1 mp p True = Some (0, Some v) \<and>
    hashMap_remove sha256 h1 mp p = Some (0, h2) \<and> map_holds devid_key devid_hash pci_device_hashMap_ctx h2 mp M"
proof -
  obtain h1 where h1: "hashMap_insert sha256 h mp p v = Some (0, h1)" "map_holds devid_key devid_hash pci_device_hashMap_ctx h1 mp (M(k := [v]))" "devid_key (hs_mem h1) p k"
    using dev.insert_spec [OF assms(1-3), of sha256 v] assms(2,4) by auto
  obtain h2 where "hashMap_remove sha256 h1 mp p = Some (0, h2)" "map_holds devid_key devid_hash pci_device_hashMap_ctx h2 mp ((M(k := [v]))(k := tl [v]))"
    using dev.remove_key_spec [OF h1(2,3), of sha256] by auto
  moreover have "(M(k := [v]))(k := tl [v]) = M" using assms(4) by auto
  ultimately show ?thesis using h1(1) dev.lookup_spec [OF h1(2,3)] by auto
qed

text \<open>Two identifiers of the same device and vendor but of different classes, hence with the same hash, a third one, two empty maps for devices, and addresses for the allocator.\<close>

definition ids_mem :: mem where
  "ids_mem = block 0x100 [0x34, 0x12, 0x86, 0x80, 2, 0, 0, 0, 0x34, 0x12, 0x86, 0x80, 3, 0, 0, 0, 0x11, 0x11, 0x86, 0x80, 2, 0, 0, 0]"

definition empty_tree :: btree where
  "empty_tree = \<lparr>bt_nr_nodes = 0, bt_root = NULL, bt_lock = False\<rparr>"

definition maps0 :: hstate where
  "maps0 = \<lparr>hs_mem = ids_mem, hs_entries = Map.empty,
     hs_maps = (\<lambda>p. if p \<in> {0x1000, 0x2000} then Some \<lparr>hm_size = 0, hm_capacity = 1024, hm_context = pci_device_hashMap_ctx, hm_lock = True\<rparr> else None),
     hs_trees = \<lparr>bs_nodes = Map.empty, bs_trees = (\<lambda>p. if p \<in> {0x1010, 0x2010} then Some empty_tree else None)\<rparr>,
     hs_alloc = [0x300, 0x400, 0x310, 0x320, 0x410, 0x330, 0x420]\<rparr>"

text \<open>The map at \<^term>\<open>0x1000 :: addr\<close> after the given identifiers have been inserted, each with a value.\<close>

definition fill_map :: "(addr \<times> addr) list \<Rightarrow> hstate option" where
  "fill_map kvs = foldl (\<lambda>r (k, v). do { h \<leftarrow> r; (_, h) \<leftarrow> hashMap_insert (\<lambda>s. s) h 0x1000 k v; Some h }) (Some maps0) kvs"

text \<open>Three defects of the map, on two identifiers with the same hash.  \<^verbatim>\<open>hashMap_migrate_entry\<close> keeps the link of the entry it moves: the other map then finds the entries behind it as well, and when it
  removes one, a search in the first map faults.  \<^verbatim>\<open>hashMap_clone\<close> reports success although the copy of an entry failed.  Iterating over an empty map is an error.
\<close>

theorem hashMap_shares_chains:
  "map_option (\<lambda>h. (hashMap_lookup (\<lambda>s. s) h 0x1000 0x108 True, hashMap_lookup (\<lambda>s. s) h 0x2000 0x108 True, hashMap_size h 0x2000))
     (do { h \<leftarrow> fill_map [(0x100, 1), (0x108, 2)]; (_, h) \<leftarrow> hashMap_migrate_entry (\<lambda>s. s) h 0x2000 0x1000 0x100; Some h })
     = Some (Some (0, Some 2), Some (0, Some 2), Some 1) \<and>
   map_option (\<lambda>h. hashMap_lookup (\<lambda>s. s) h 0x1000 0x108 True)
     (do { h \<leftarrow> fill_map [(0x100, 1), (0x108, 2)]; (_, h) \<leftarrow> hashMap_migrate_entry (\<lambda>s. s) h 0x2000 0x1000 0x100;
           (_, h) \<leftarrow> hashMap_remove (\<lambda>s. s) h 0x2000 0x108; Some h }) = Some None \<and>
   map_option (\<lambda>(err, d, h). (err, d, map_option hm_size (hs_maps h 0x3000)))
     (do { h \<leftarrow> fill_map [(0x100, 1), (0x110, 2)]; hashMap_clone (\<lambda>s. s) (h\<lparr>hs_alloc := [0x3000, NULL, 0x340, 0x430]\<rparr>) 0x1000 True })
     = Some (0, Some 0x3000, Some 1) \<and>
   map_option fst (hashMap_iter_value_init maps0 0x1000 [] queues0 8) = Some (- EINVAL)"
  by code_simp

section \<open>Samples\<close>

lemma empty_map_holds:
  assumes "mp \<noteq> NULL" "hs_maps h mp = Some \<lparr>hm_size = 0, hm_capacity = 1024, hm_context = ctx, hm_lock = True\<rparr>" "bucket_tree mp \<noteq> NULL" "bs_trees (hs_trees h) (bucket_tree mp) = Some empty_tree"
  shows "map_holds is_key H ctx h mp (\<lambda>_. [])"
proof -
  let ?st = "put_btree (hs_trees h) (bucket_tree mp) (empty_tree\<lparr>bt_lock := True\<rparr>)"
  have "btree_rep ?st (bucket_tree mp) Leaf" "content (bs_nodes ?st) Leaf = Map.empty"
    using assms(3) by (auto simp: btree_rep_def btree_shape_def put_btree_def empty_tree_def content_def fun_eq_iff)
  then have "btree_map ?st (bucket_tree mp) Map.empty" unfolding btree_map_def by metis
  moreover have "btree_lock (hs_trees h) (bucket_tree mp) = Some ?st" using assms(3,4) by (simp add: btree_lock_def get_btree_def empty_tree_def)
  ultimately have "tree_part h mp (\<lambda>_. []) ?st" by (simp add: tree_part_def)
  moreover have "object_part ctx h mp (\<lambda>_. [])" using assms(1,2) by (simp add: object_part_def)
  moreover have "chain_part is_key H h (\<lambda>_. [])" by (simp add: chain_part_def)
  ultimately show ?thesis unfolding map_holds_def by (intro exI [of _ "\<lambda>_. []"] exI [of _ ?st]) (simp add: vals_def)
qed

lemma maps0_holds: "map_holds devid_key devid_hash pci_device_hashMap_ctx maps0 0x1000 (\<lambda>_. [])"
  by (rule empty_map_holds) (simp_all add: maps0_def bucket_tree_def)

definition id0 :: pci_devid where
  "id0 = \<lparr>pd_device = 0x1234, pd_vendor = 0x8086, pd_baseclass = 2, pd_subclass = 0\<rparr>"

lemma id0_key: "devid_key (hs_mem maps0) 0x100 id0"
  by code_simp

theorem hashMap_lookup_correct_witness: "hashMap_lookup (\<lambda>s. s) maps0 0x1000 0x100 True = Some (- ENOENT, None)"
  using hashMap_lookup_correct [OF maps0_holds id0_key, of "\<lambda>s. s"] by simp

lemma maps0_room: "map_room (\<lambda>_ _ _ _. True) 0 maps0 0x100 {0x100}"
  by (simp add: map_room_def maps0_def)

theorem hashMap_insert_remove_witness:
  "\<exists>h1 h2. hashMap_insert (\<lambda>s. s) maps0 0x1000 0x100 7 = Some (0, h1) \<and> hashMap_remove (\<lambda>s. s) h1 0x1000 0x100 = Some (0, h2) \<and>
    map_holds devid_key devid_hash pci_device_hashMap_ctx h2 0x1000 (\<lambda>_. [])"
  using hashMap_insert_remove [OF maps0_holds id0_key maps0_room refl, of "\<lambda>s. s" 7] by blast

definition strs0 :: hstate where
  "strs0 = maps0\<lparr>hs_mem := block 0x1000 sample_bytes, hs_maps := [0x2000 \<mapsto> \<lparr>hm_size = 0, hm_capacity = 1024, hm_context = HASHMAPCTX_INIT, hm_lock = True\<rparr>], hs_alloc := [0x300, 0x1000, 0x400]\<rparr>"

lemma strs0_holds: "map_holds string_key H HASHMAPCTX_INIT strs0 0x2000 (\<lambda>_. [])"
  by (rule empty_map_holds) (simp_all add: strs0_def maps0_def bucket_tree_def)

lemma strs0_key: "string_key (hs_mem strs0) 0x100c [104, 101, 108, 112]"
  using sample_whole sample_cstr(2) by (simp add: string_key_def strs0_def)

lemma strs0_room: "map_room string_room 1 strs0 0x100c {0x100c}"
proof -
  have c: "cstr (block 0x1000 sample_bytes) 0x100c s \<longleftrightarrow> s = [104, 101, 108, 112]" for s using sample_cstr(2) cstr_unique by blast
  let ?n = "length [104, 101, 108, 112 :: u8]"
  have "Strings_Proofs.apart 0x1000 (Suc ?n) 0x100c ?n" by (rule apart_after) simp_all
  moreover have "mapped (block 0x1000 sample_bytes) 0x1000 (Suc ?n)" by code_simp
  ultimately have "string_room (block 0x1000 sample_bytes) [0x1000, 0x400] 0x100c {0x100c}" using c by (simp add: string_room_def)
  then show ?thesis by (simp add: map_room_def strs0_def maps0_def ran_def)
qed

theorem hashMap_insert_correct_witness:
  "\<exists>h'. hashMap_insert (\<lambda>s. s) strs0 0x2000 0x100c 55 = Some (0, h') \<and>
    map_holds string_key (string_hash (\<lambda>s. s)) HASHMAPCTX_INIT h' 0x2000 ((\<lambda>_. [])([104, 101, 108, 112] := [55]))"
  using hashMap_insert_correct [OF strs0_holds strs0_key strs0_room refl, of "\<lambda>s. s" 55] by blast

theorem hashMap_remove_correct_witness:
  "\<exists>h1 h2. hashMap_insert (\<lambda>s. s) strs0 0x2000 0x100c 55 = Some (0, h1) \<and> hashMap_remove (\<lambda>s. s) h1 0x2000 0x100c = Some (0, h2) \<and>
    map_holds string_key (string_hash (\<lambda>s. s)) HASHMAPCTX_INIT h2 0x2000 (\<lambda>_. [])"
proof -
  obtain h1 where h1: "hashMap_insert (\<lambda>s. s) strs0 0x2000 0x100c 55 = Some (0, h1)"
      "map_holds string_key (string_hash (\<lambda>s. s)) HASHMAPCTX_INIT h1 0x2000 ((\<lambda>_. [])([104, 101, 108, 112] := [55]))" "string_key (hs_mem h1) 0x100c [104, 101, 108, 112]"
    using str.insert_spec [OF strs0_holds strs0_key strs0_room, of "\<lambda>s. s" 55] strs0_key by auto
  then show ?thesis using hashMap_remove_correct [OF h1(2,3)] by (auto simp: fun_upd_idem)
qed

end
