(* ===== verification/Transition.thy ===== *)
theory Transition
  imports Prelude
begin

text \<open>
  Interleaved execution, shared by the synchronisation theories.  A concurrent component is a function that
  performs one event in a state, or returns \<^term>\<open>None\<close> where the event is not possible.  Each event is one
  atomic action of one core or thread; a run is any sequence of events, so every interleaving is covered.
\<close>

section \<open>Runs and reachable states\<close>

fun run :: "('e \<Rightarrow> 's \<Rightarrow> 's option) \<Rightarrow> 'e list \<Rightarrow> 's \<Rightarrow> 's option" where
  "run fire [] s = Some s"
| "run fire (e # es) s = (case fire e s of None \<Rightarrow> None | Some t \<Rightarrow> run fire es t)"

inductive reachable :: "('e \<Rightarrow> 's \<Rightarrow> 's option) \<Rightarrow> ('s \<Rightarrow> bool) \<Rightarrow> 's \<Rightarrow> bool"
  for fire :: "'e \<Rightarrow> 's \<Rightarrow> 's option" and init :: "'s \<Rightarrow> bool" where
  start: "init s \<Longrightarrow> reachable fire init s"
| step: "reachable fire init s \<Longrightarrow> fire e s = Some t \<Longrightarrow> reachable fire init t"

lemma run_append: "run fire (es @ es') s = Option.bind (run fire es s) (run fire es')"
  by (induction es arbitrary: s) (auto split: option.splits)

lemma run_Cons_Some: "fire e s = Some t \<Longrightarrow> run fire (e # es) s = run fire es t"
  by simp

lemma run_trans: "run fire es s = Some t \<Longrightarrow> run fire es' t = Some u \<Longrightarrow> run fire (es @ es') s = Some u"
  by (simp add: run_append)

lemma reachable_run: "run fire es s = Some t \<Longrightarrow> reachable fire init s \<Longrightarrow> reachable fire init t"
proof (induction es arbitrary: s)
  case (Cons e es)
  then obtain u where u: "fire e s = Some u" "run fire es u = Some t" by (auto split: option.splits)
  from Cons.prems(2) u(1) have "reachable fire init u" by (rule reachable.step)
  with u(2) show ?case by (rule Cons.IH)
qed simp

text \<open>Where an event changes what it changes, a fact that every event keeps is kept by every run.\<close>

lemma run_keeps:
  assumes "\<And>e s t. fire e s = Some t \<Longrightarrow> P s \<Longrightarrow> P t"
  shows "run fire es s = Some t \<Longrightarrow> P s \<Longrightarrow> P t"
  by (induction es arbitrary: s) (auto split: option.splits dest: assms)

section \<open>Invariants\<close>

text \<open>
  The argument every safety theorem of the concurrent components uses: what holds initially and is kept by
  every event holds in every reachable state.
\<close>

locale invariant_system =
  fixes fire :: "'e \<Rightarrow> 's \<Rightarrow> 's option" and init :: "'s \<Rightarrow> bool" and inv :: "'s \<Rightarrow> bool"
  assumes init_inv: "init s \<Longrightarrow> inv s"
    and fire_inv: "inv s \<Longrightarrow> fire e s = Some t \<Longrightarrow> inv t"
begin

lemma reachable_inv: "reachable fire init s \<Longrightarrow> inv s"
  by (induction rule: reachable.induct) (auto intro: init_inv fire_inv)

lemma run_inv: "inv s \<Longrightarrow> run fire es s = Some t \<Longrightarrow> inv t"
  by (rule run_keeps) (auto intro: fire_inv)

end

end
