(* ===== verification/Embedded.thy ===== *)
theory Embedded
  imports Queue_Moves
begin

text \<open>
  The queue operations of \<^verbatim>\<open>src/src/kernel/ds/queue/embedded.c\<close>, where the node is a member of
  the caller's object: nothing is allocated or freed, a node that leaves a queue gets null links.
  The scheduler's run queues, wait queues and the signal queues are such queues.  The comparison
  callback of \<^verbatim>\<open>embedded_enqueue_sorted\<close> is a parameter.
\<close>

section \<open>Operations\<close>

definition validate_whence :: "queue_relloc_t \<Rightarrow> int" where
  "validate_whence whence = (if whence \<noteq> QUEUE_HEAD \<and> whence \<noteq> QUEUE_TAIL then - EINVAL else 0)"

definition validate_uniqueness :: "queue_uniqueness_t \<Rightarrow> int" where
  "validate_uniqueness uniqueness =
     (if uniqueness \<noteq> QUEUE_UNIQUE \<and> uniqueness \<noteq> QUEUE_DUPLICATES then - EINVAL else 0)"

definition validate_uniqueness_and_whence :: "queue_uniqueness_t \<Rightarrow> queue_relloc_t \<Rightarrow> int" where
  "validate_uniqueness_and_whence uniqueness whence =
     (let err = validate_uniqueness uniqueness in if err \<noteq> 0 then err else validate_whence whence)"

definition embedded_queue_empty :: "qstate \<Rightarrow> addr \<Rightarrow> bool option" where
  "embedded_queue_empty st q = do {
     _ \<leftarrow> queue_assert_locked st q; n \<leftarrow> queue_length st q; Some (n = 0) }"

text \<open>Unlinking a node, counting down and clearing its links, as every removal does.\<close>

definition release :: "qstate \<Rightarrow> addr \<Rightarrow> addr \<Rightarrow> qstate option" where
  "release st q node = do {
     st \<leftarrow> unlink st q node;
     st \<leftarrow> count_add st q (- 1);
     clear_links st node }"

partial_function (option) embedded_flush_loop :: "qstate \<Rightarrow> addr \<Rightarrow> addr \<Rightarrow> qstate option" where
  "embedded_flush_loop st q node =
     (if node = NULL then Some st
      else do {
        n \<leftarrow> load (qs_nodes st) node;
        st \<leftarrow> release st q node;
        embedded_flush_loop st q (qn_next n) })"

definition embedded_queue_flush :: "qstate \<Rightarrow> addr \<Rightarrow> qstate option" where
  "embedded_queue_flush st q = do {
     qr \<leftarrow> queue_assert_locked st q;
     st \<leftarrow> embedded_flush_loop st q (q_head qr);
     qr \<leftarrow> get_queue st q;
     Some (put_queue st q (qr\<lparr>q_head := NULL, q_tail := NULL\<rparr>)) }"

definition embedded_queue_peek :: "qstate \<Rightarrow> addr \<Rightarrow> queue_relloc_t \<Rightarrow> bool \<Rightarrow> (int \<times> addr option) option" where
  "embedded_queue_peek st q whence pnp =
     (if q = NULL \<or> \<not> pnp then Some (- EINVAL, None)
      else if whence \<noteq> QUEUE_HEAD \<and> whence \<noteq> QUEUE_TAIL then Some (- EINVAL, None)
      else do {
        qr \<leftarrow> queue_assert_locked st q;
        len \<leftarrow> queue_length st q;
        if len = 0 then Some (- ENOENT, None)
        else Some (0, Some (if whence = QUEUE_TAIL then q_tail qr else q_head qr)) })"

definition embedded_queue_contains :: "qstate \<Rightarrow> addr \<Rightarrow> addr \<Rightarrow> int option" where
  "embedded_queue_contains st q qnode =
     (if q = NULL \<or> qnode = NULL then Some (- EINVAL)
      else do {
        qr \<leftarrow> queue_assert_locked st q;
        r \<leftarrow> find_loop (\<lambda>p _. qnode = p) (qs_nodes st) (q_head qr);
        Some (case r of Some _ \<Rightarrow> 0 | None \<Rightarrow> - ENOENT) })"

text \<open>The uniqueness test shared by the insertions: is the node on the queue already?\<close>

definition is_duplicate :: "qstate \<Rightarrow> addr \<Rightarrow> addr \<Rightarrow> queue_uniqueness_t \<Rightarrow> bool option" where
  "is_duplicate st q qnode uniqueness =
     (if uniqueness = QUEUE_UNIQUE
      then do { err \<leftarrow> embedded_queue_contains st q qnode; Some (err = 0) }
      else Some False)"

definition embedded_enqueue_after :: "qstate \<Rightarrow> addr \<Rightarrow> addr \<Rightarrow> addr \<Rightarrow> queue_uniqueness_t \<Rightarrow>
    (int \<times> qstate) option" where
  "embedded_enqueue_after st q node pv uniqueness =
     (if q = NULL \<or> node = NULL \<or> pv = NULL then Some (- EINVAL, st)
      else do {
        qr \<leftarrow> queue_assert_locked st q;
        dup \<leftarrow> is_duplicate st q node uniqueness;
        if dup then Some (- EEXIST, st)
        else do {
          h \<leftarrow> set_prev (qs_nodes st) node pv;
          p \<leftarrow> load h pv;
          h \<leftarrow> set_next h node (qn_next p);
          h \<leftarrow> set_next h pv node;
          st \<leftarrow> count_add (put_queue (st\<lparr>qs_nodes := h\<rparr>) q
                  (if q_tail qr = pv then qr\<lparr>q_tail := node\<rparr> else qr)) q 1;
          Some (0, st) } })"

definition embedded_enqueue_before :: "qstate \<Rightarrow> addr \<Rightarrow> addr \<Rightarrow> addr \<Rightarrow> queue_uniqueness_t \<Rightarrow>
    (int \<times> qstate) option" where
  "embedded_enqueue_before st q node nx uniqueness =
     (if q = NULL \<or> node = NULL \<or> nx = NULL then Some (- EINVAL, st)
      else do {
        qr \<leftarrow> queue_assert_locked st q;
        dup \<leftarrow> is_duplicate st q node uniqueness;
        if dup then Some (- EEXIST, st)
        else do {
          h \<leftarrow> set_next (qs_nodes st) node nx;
          n \<leftarrow> load h nx;
          h \<leftarrow> set_prev h node (qn_prev n);
          h \<leftarrow> set_prev h nx node;
          st \<leftarrow> count_add (put_queue (st\<lparr>qs_nodes := h\<rparr>) q
                  (if q_head qr = nx then qr\<lparr>q_head := node\<rparr> else qr)) q 1;
          Some (0, st) } })"

definition embedded_queue_insert :: "qstate \<Rightarrow> addr \<Rightarrow> addr \<Rightarrow> (int \<times> qstate) option" where
  "embedded_queue_insert st q qnode = do {
     st \<leftarrow> clear_links st qnode;
     st \<leftarrow> attach_tail st q qnode;
     st \<leftarrow> count_add st q 1;
     Some (0, st) }"

definition embedded_enqueue :: "qstate \<Rightarrow> addr \<Rightarrow> addr \<Rightarrow> queue_uniqueness_t \<Rightarrow> (int \<times> qstate) option" where
  "embedded_enqueue st q qnode uniqueness =
     (if q = NULL \<or> qnode = NULL then Some (- EINVAL, st)
      else do {
        _ \<leftarrow> queue_assert_locked st q;
        dup \<leftarrow> is_duplicate st q qnode uniqueness;
        if dup then Some (- EEXIST, st) else embedded_queue_insert st q qnode })"

definition embedded_enqueue_head :: "qstate \<Rightarrow> addr \<Rightarrow> addr \<Rightarrow> queue_uniqueness_t \<Rightarrow> (int \<times> qstate) option" where
  "embedded_enqueue_head st q qnode uniqueness =
     (if q = NULL \<or> qnode = NULL then Some (- EINVAL, st)
      else do {
        _ \<leftarrow> queue_assert_locked st q;
        dup \<leftarrow> is_duplicate st q qnode uniqueness;
        if dup then Some (- EEXIST, st)
        else do {
          st \<leftarrow> clear_links st qnode;
          st \<leftarrow> attach_head st q qnode;
          st \<leftarrow> count_add st q 1;
          Some (0, st) } })"

definition embedded_enqueue_whence :: "qstate \<Rightarrow> addr \<Rightarrow> addr \<Rightarrow> queue_uniqueness_t \<Rightarrow> queue_relloc_t \<Rightarrow>
    (int \<times> qstate) option" where
  "embedded_enqueue_whence st q qnode uniqueness whence = do {
     _ \<leftarrow> queue_assert_locked st q;
     if whence = QUEUE_HEAD then embedded_enqueue_head st q qnode uniqueness
     else if whence = QUEUE_TAIL then embedded_enqueue st q qnode uniqueness
     else Some (- EINVAL, st) }"

definition embedded_dequeue_at :: "(queue \<Rightarrow> addr) \<Rightarrow> qstate \<Rightarrow> addr \<Rightarrow> bool \<Rightarrow>
    (int \<times> addr option \<times> qstate) option" where
  "embedded_dequeue_at which st q pnp =
     (if q = NULL \<or> \<not> pnp then Some (- EINVAL, None, st)
      else do {
        qr \<leftarrow> queue_assert_locked st q;
        if which qr \<noteq> NULL
        then do { st \<leftarrow> release st q (which qr); Some (0, Some (which qr), st) }
        else Some (- ENOENT, None, st) })"

definition embedded_dequeue :: "qstate \<Rightarrow> addr \<Rightarrow> bool \<Rightarrow> (int \<times> addr option \<times> qstate) option" where
  "embedded_dequeue = embedded_dequeue_at q_head"

definition embedded_dequeue_tail :: "qstate \<Rightarrow> addr \<Rightarrow> bool \<Rightarrow> (int \<times> addr option \<times> qstate) option" where
  "embedded_dequeue_tail = embedded_dequeue_at q_tail"

definition embedded_dequeue_whence :: "qstate \<Rightarrow> addr \<Rightarrow> queue_relloc_t \<Rightarrow> bool \<Rightarrow>
    (int \<times> addr option \<times> qstate) option" where
  "embedded_dequeue_whence st q whence pnp = do {
     _ \<leftarrow> queue_assert_locked st q;
     if whence = QUEUE_HEAD then embedded_dequeue st q pnp
     else if whence = QUEUE_TAIL then embedded_dequeue_tail st q pnp
     else Some (- EINVAL, None, st) }"

definition embedded_queue_detach :: "qstate \<Rightarrow> addr \<Rightarrow> addr \<Rightarrow> (int \<times> qstate) option" where
  "embedded_queue_detach st q qnode =
     (if q = NULL \<or> qnode = NULL then Some (- EINVAL, st)
      else do {
        _ \<leftarrow> queue_assert_locked st q;
        st \<leftarrow> release st q qnode;
        Some (0, st) })"

definition embedded_queue_remove :: "qstate \<Rightarrow> addr \<Rightarrow> addr \<Rightarrow> (int \<times> qstate) option" where
  "embedded_queue_remove st q qnode =
     (if q = NULL \<or> qnode = NULL then Some (- EINVAL, st)
      else do {
        _ \<leftarrow> queue_assert_locked st q;
        err \<leftarrow> embedded_queue_contains st q qnode;
        if err \<noteq> 0 then Some (err, st) else embedded_queue_detach st q qnode })"

definition replace_ends :: "queue \<Rightarrow> addr \<Rightarrow> addr \<Rightarrow> queue" where
  "replace_ends qr node qnode1 =
     (let qr = (if q_head qr = node then qr\<lparr>q_head := qnode1\<rparr> else qr)
      in if q_tail qr = node then qr\<lparr>q_tail := qnode1\<rparr> else qr)"

definition embedded_queue_replace :: "qstate \<Rightarrow> addr \<Rightarrow> addr \<Rightarrow> addr \<Rightarrow> (int \<times> qstate) option" where
  "embedded_queue_replace st q qnode0 qnode1 =
     (if q = NULL \<or> qnode0 = NULL \<or> qnode1 = NULL then Some (- EINVAL, st)
      else do {
        qr \<leftarrow> queue_assert_locked st q;
        if qnode0 = qnode1 then Some (0, st)
        else do {
          r \<leftarrow> find_loop (\<lambda>p _. qnode0 = p) (qs_nodes st) (q_head qr);
          case r of
            None \<Rightarrow> Some (- ENOENT, st)
          | Some node \<Rightarrow> do {
              n \<leftarrow> load (qs_nodes st) node;
              h \<leftarrow> set_next (qs_nodes st) qnode1 (qn_next n);
              h \<leftarrow> set_prev h qnode1 (qn_prev n);
              n1 \<leftarrow> load h qnode1;
              h \<leftarrow> link_prev h (qn_next n1) qnode1;
              n1 \<leftarrow> load h qnode1;
              h \<leftarrow> link_next h (qn_prev n1) qnode1;
              st \<leftarrow> clear_links (put_queue (st\<lparr>qs_nodes := h\<rparr>) q (replace_ends qr node qnode1)) node;
              Some (0, st) } } })"

definition embedded_queue_migrate :: "qstate \<Rightarrow> addr \<Rightarrow> addr \<Rightarrow> u64 \<Rightarrow> u64 \<Rightarrow> queue_relloc_t \<Rightarrow>
    (int \<times> qstate) option" where
  "embedded_queue_migrate st dst src pos n whence =
     (if dst = NULL \<or> src = NULL then Some (- EINVAL, st)
      else do {
        _ \<leftarrow> queue_assert_locked st dst;
        sq \<leftarrow> queue_assert_locked st src;
        if pos \<ge> q_count sq \<or> n = 0 \<or> pos + n > q_count sq then Some (- EINVAL, st)
        else if whence \<noteq> QUEUE_HEAD \<and> whence \<noteq> QUEUE_TAIL then Some (- EINVAL, st)
        else do {
          node \<leftarrow> walk (qs_nodes st) (q_head sq) 0 pos;
          if node = NULL then Some (- ENOENT, st)
          else do {
            last_node \<leftarrow> walk_last (qs_nodes st) node 1 n;
            st \<leftarrow> detach_segment st src node last_node n;
            st \<leftarrow> attach_segment st dst node last_node whence;
            st \<leftarrow> count_add st dst n;
            Some (0, st) } } })"

abbreviation (input) QUEUE_EQUAL :: int where "QUEUE_EQUAL \<equiv> 0"
abbreviation (input) QUEUE_LESSER :: int where "QUEUE_LESSER \<equiv> 1"
abbreviation (input) QUEUE_GREATER :: int where "QUEUE_GREATER \<equiv> 2"
abbreviation (input) QUEUE_ASCENDING :: u32 where "QUEUE_ASCENDING \<equiv> 0"
abbreviation (input) QUEUE_DESCENDING :: u32 where "QUEUE_DESCENDING \<equiv> 1"

definition queue_cmp_nodes :: "(addr \<Rightarrow> addr \<Rightarrow> int) option \<Rightarrow> u32 \<Rightarrow> addr \<Rightarrow> addr \<Rightarrow> int" where
  "queue_cmp_nodes compare order node0 node1 =
     (if node0 = NULL \<or> node1 = NULL then - EINVAL
      else case compare of
        Some cmp \<Rightarrow> if order = QUEUE_DESCENDING then cmp node1 node0 else cmp node0 node1
      | None \<Rightarrow> if node0 = node1 then QUEUE_EQUAL
                else if node0 < node1 then QUEUE_LESSER else QUEUE_GREATER)"

text \<open>The two ways in which the sorted insertion links a node next to \<open>node\<close>.\<close>

definition splice_after :: "qstate \<Rightarrow> addr \<Rightarrow> addr \<Rightarrow> addr \<Rightarrow> qstate option" where
  "splice_after st q qnode node = do {
     h \<leftarrow> set_prev (qs_nodes st) qnode node;
     n \<leftarrow> load h node;
     h \<leftarrow> set_next h qnode (qn_next n);
     h \<leftarrow> set_next h node qnode;
     qn \<leftarrow> load h qnode;
     if qn_next qn \<noteq> NULL
     then do { h \<leftarrow> set_prev h (qn_next qn) qnode; Some (st\<lparr>qs_nodes := h\<rparr>) }
     else do { qr \<leftarrow> get_queue st q; Some (put_queue (st\<lparr>qs_nodes := h\<rparr>) q (qr\<lparr>q_tail := qnode\<rparr>)) } }"

definition splice_before :: "qstate \<Rightarrow> addr \<Rightarrow> addr \<Rightarrow> addr \<Rightarrow> qstate option" where
  "splice_before st q qnode node = do {
     h \<leftarrow> set_next (qs_nodes st) qnode node;
     n \<leftarrow> load h node;
     h \<leftarrow> set_prev h qnode (qn_prev n);
     h \<leftarrow> set_prev h node qnode;
     qn \<leftarrow> load h qnode;
     if qn_prev qn \<noteq> NULL
     then do { h \<leftarrow> set_next h (qn_prev qn) qnode; Some (st\<lparr>qs_nodes := h\<rparr>) }
     else do { qr \<leftarrow> get_queue st q; Some (put_queue (st\<lparr>qs_nodes := h\<rparr>) q (qr\<lparr>q_head := qnode\<rparr>)) } }"

definition splice_last :: "qstate \<Rightarrow> addr \<Rightarrow> addr \<Rightarrow> addr \<Rightarrow> qstate option" where
  "splice_last st q qnode node = do {
     h \<leftarrow> set_next (qs_nodes st) qnode NULL;
     qr \<leftarrow> get_queue st q;
     let st = put_queue st q (qr\<lparr>q_tail := qnode\<rparr>);
     h \<leftarrow> set_prev h qnode node;
     h \<leftarrow> set_next h node qnode;
     Some (st\<lparr>qs_nodes := h\<rparr>) }"

text \<open>
  The loop of \<^verbatim>\<open>embedded_enqueue_sorted\<close>: \<open>Inl\<close> is a return from inside the loop, \<open>Inr\<close> the
  state with which the label \<^verbatim>\<open>done\<close> is reached.
\<close>

partial_function (option) sorted_loop :: "(addr \<Rightarrow> addr \<Rightarrow> int) option \<Rightarrow> u32 \<Rightarrow> qstate \<Rightarrow> addr \<Rightarrow> addr \<Rightarrow>
    queue_uniqueness_t \<Rightarrow> addr \<Rightarrow> (int + qstate) option" where
  "sorted_loop compare order st q qnode uniqueness node =
     (if node = NULL then Some (Inr st)
      else do {
        n \<leftarrow> load (qs_nodes st) node;
        let retval = queue_cmp_nodes compare order qnode node;
        if retval = QUEUE_EQUAL
        then (if uniqueness = QUEUE_UNIQUE then Some (Inl (- EEXIST))
              else do { st \<leftarrow> splice_after st q qnode node; Some (Inr st) })
        else if retval = QUEUE_LESSER
        then do { st \<leftarrow> splice_before st q qnode node; Some (Inr st) }
        else if retval = QUEUE_GREATER \<and> qn_next n = NULL
        then do { st \<leftarrow> splice_last st q qnode node; Some (Inr st) }
        else if retval < 0 then Some (Inl retval)
        else sorted_loop compare order st q qnode uniqueness (qn_next n) })"

definition embedded_enqueue_sorted :: "(addr \<Rightarrow> addr \<Rightarrow> int) option \<Rightarrow> qstate \<Rightarrow> addr \<Rightarrow> addr \<Rightarrow>
    queue_uniqueness_t \<Rightarrow> u32 \<Rightarrow> (int \<times> qstate) option" where
  "embedded_enqueue_sorted compare st q qnode uniqueness order =
     (if q = NULL \<or> qnode = NULL then Some (- EINVAL, st)
      else do {
        qr \<leftarrow> queue_assert_locked st q;
        st \<leftarrow> clear_links st qnode;
        if q_head qr = NULL
        then do {
          st \<leftarrow> count_add (put_queue st q (qr\<lparr>q_head := qnode, q_tail := qnode\<rparr>)) q 1;
          Some (0, st) }
        else do {
          dup \<leftarrow> is_duplicate st q qnode uniqueness;
          if dup then Some (- EEXIST, st)
          else do {
            r \<leftarrow> sorted_loop compare order st q qnode uniqueness (q_head qr);
            case r of
              Inl err \<Rightarrow> Some (err, st)
            | Inr st \<Rightarrow> do { st \<leftarrow> count_add st q 1; Some (0, st) } } } })"

definition embedded_queue_check_relloc_input :: "addr \<Rightarrow> addr \<Rightarrow> addr \<Rightarrow> queue_uniqueness_t \<Rightarrow>
    queue_relloc_t \<Rightarrow> int" where
  "embedded_queue_check_relloc_input dst src node uniqueness whence =
     (let err = validate_uniqueness_and_whence uniqueness whence in
      if err \<noteq> 0 then err
      else if dst = NULL \<or> src = NULL then - EINVAL
      else if node = NULL then - EINVAL else 0)"

definition embedded_queue_relloc :: "qstate \<Rightarrow> addr \<Rightarrow> addr \<Rightarrow> addr \<Rightarrow> queue_uniqueness_t \<Rightarrow>
    queue_relloc_t \<Rightarrow> (int \<times> qstate) option" where
  "embedded_queue_relloc st dst src node uniqueness whence =
     (let err = embedded_queue_check_relloc_input dst src node uniqueness whence in
      if err \<noteq> 0 then Some (err, st)
      else do {
        _ \<leftarrow> queue_assert_locked st src;
        _ \<leftarrow> queue_assert_locked st dst;
        (err, st) \<leftarrow> embedded_queue_remove st src node;
        if err \<noteq> 0 then Some (err, st)
        else do {
          (err, st) \<leftarrow> embedded_enqueue_whence st dst node uniqueness whence;
          if err \<noteq> 0
          then do { (_, st) \<leftarrow> embedded_queue_insert st src node; Some (err, st) }
          else Some (0, st) } })"


section \<open>Insertion and removal at the ends\<close>

lemma contains_spec:
  assumes "shape st q ps c" "x \<noteq> NULL"
  shows "embedded_queue_contains st q x = Some (if x \<in> set ps then 0 else - ENOENT)"
proof -
  have "dll (qs_nodes st) NULL ps NULL" "q \<noteq> NULL" using assms(1) by (simp_all add: shape_def)
  then show ?thesis
    using assms(2) by (simp add: embedded_queue_contains_def shape_locked [OF assms(1)] find_node_dll)
qed

lemma is_duplicate_spec:
  "shape st q ps c \<Longrightarrow> x \<noteq> NULL \<Longrightarrow>
     is_duplicate st q x uniqueness = Some (uniqueness = QUEUE_UNIQUE \<and> x \<in> set ps)"
  by (simp add: is_duplicate_def contains_spec)

text \<open>A node that exists and is on no queue can be given clear links.\<close>

lemma clear_unowned:
  assumes "represents st A" "qs_nodes st p = Some n" "p \<noteq> NULL" "unowned A p"
  shows "\<exists>st'. clear_links st p = Some st' \<and> represents st' A \<and> loose st' p \<and>
    node_data (qs_nodes st') = node_data (qs_nodes st) \<and> qs_queues st' = qs_queues st \<and>
    (\<forall>x. x \<noteq> p \<longrightarrow> qs_nodes st' x = qs_nodes st x)"
proof -
  obtain st' where st': "clear_links st p = Some st'" "touches NULL {p} st st'" "qs_queues st' = qs_queues st"
    "qs_nodes st' p = Some (n\<lparr>qn_prev := NULL, qn_next := NULL\<rparr>)"
    using clear_links_node [OF assms(3,2)] by blast
  have "queue_rep st' q ps" if "A q = Some ps" for q ps
  proof -
    have "q \<noteq> NULL" "p \<notin> set ps" "queue_rep st q ps"
      using assms(1,4) that representsD_shape [OF assms(1) that]
      by (auto simp: unowned_def represents_def shape_def)
    then show ?thesis using keeps_queue_rep [OF touches_keeps [OF st'(2)]] by simp
  qed
  then have "represents st' A" using assms(1) by (simp add: represents_def)
  moreover have "loose st' p" using st'(4) assms(3) by (simp add: loose_def)
  ultimately show ?thesis
    using st' touches_data [OF st'(2)] touches_node [OF st'(2)] by auto
qed

context attach_end
begin

lemma insert_unowned:
  assumes "represents st A" "A q = Some ps" "qs_nodes st p = Some n" "p \<noteq> NULL" "unowned A p"
  shows "\<exists>st1 st2 st'. clear_links st p = Some st1 \<and> attach st1 q p = Some st2 \<and>
    count_add st2 q 1 = Some st' \<and> represents st' (A(q \<mapsto> place p ps)) \<and>
    node_data (qs_nodes st') = node_data (qs_nodes st)"
proof -
  obtain st1 where st1: "clear_links st p = Some st1" "represents st1 A" "loose st1 p"
    "node_data (qs_nodes st1) = node_data (qs_nodes st)"
    using clear_unowned [OF assms(1,3-5)] by blast
  then show ?thesis
    using attach_counted [OF st1(2) assms(2) st1(3) assms(5)] touches_data by metis
qed

end

lemma embedded_insert_spec:
  assumes "represents st A" "A q = Some ps" "qs_nodes st p = Some n" "p \<noteq> NULL" "unowned A p"
  shows "\<exists>st'. embedded_queue_insert st q p = Some (0, st') \<and> represents st' (A(q \<mapsto> ps @ [p])) \<and>
      node_data (qs_nodes st') = node_data (qs_nodes st)"
  using at_tail.insert_unowned [OF assms] by (auto simp: embedded_queue_insert_def)

lemma embedded_enqueue_whence_spec:
  assumes "represents st A" "A q = Some ps" "qs_nodes st p = Some n" "p \<noteq> NULL" "unowned A p"
    and whence: "whence = QUEUE_HEAD \<or> whence = QUEUE_TAIL"
  shows "\<exists>st'. embedded_enqueue_whence st q p uniqueness whence = Some (0, st') \<and>
      represents st' (A(q \<mapsto> if whence = QUEUE_HEAD then p # ps else ps @ [p])) \<and>
      node_data (qs_nodes st') = node_data (qs_nodes st)"
proof -
  note shp = representsD_shape [OF assms(1,2)]
  have q: "q \<noteq> NULL" and out: "p \<notin> set ps" using shp assms(2,5) by (auto simp: shape_def unowned_def)
  have "\<exists>st'. embedded_enqueue st q p uniqueness = Some (0, st') \<and> represents st' (A(q \<mapsto> ps @ [p])) \<and>
      node_data (qs_nodes st') = node_data (qs_nodes st)"
    using embedded_insert_spec [OF assms(1-5)] q out assms(4)
    by (simp add: embedded_enqueue_def shape_locked [OF shp] is_duplicate_spec [OF shp])
  moreover have "\<exists>st'. embedded_enqueue_head st q p uniqueness = Some (0, st') \<and>
      represents st' (A(q \<mapsto> p # ps)) \<and> node_data (qs_nodes st') = node_data (qs_nodes st)"
    using at_head.insert_unowned [OF assms(1-5)] q out assms(4)
    by (auto simp: embedded_enqueue_head_def shape_locked [OF shp] is_duplicate_spec [OF shp])
  ultimately show ?thesis
    using whence by (auto simp: embedded_enqueue_whence_def shape_locked [OF shp])
qed

text \<open>Embedded insertion.  \<^verbatim>\<open>embedded_enqueue_whence\<close> puts a node that is on no queue at the end
  it is asked for; all data and every other queue are unchanged.  A node that is on the queue
  already is refused with \<^verbatim>\<open>-EEXIST\<close> when uniqueness is asked for.\<close>

theorem embedded_enqueue_places:
  assumes "represents st A" "A q = Some ps" "qs_nodes st p = Some n" "p \<noteq> NULL"
    and "whence = QUEUE_HEAD \<or> whence = QUEUE_TAIL"
  shows "(unowned A p \<longrightarrow> (\<exists>st'. embedded_enqueue_whence st q p uniqueness whence = Some (0, st') \<and>
      represents st' (A(q \<mapsto> if whence = QUEUE_HEAD then p # ps else ps @ [p])) \<and>
      node_data (qs_nodes st') = node_data (qs_nodes st))) \<and>
    (p \<in> set ps \<longrightarrow> embedded_enqueue_whence st q p QUEUE_UNIQUE whence = Some (- EEXIST, st))"
proof -
  note shp = representsD_shape [OF assms(1,2)]
  have "q \<noteq> NULL" using shp by (simp add: shape_def)
  then have "embedded_enqueue_whence st q p QUEUE_UNIQUE whence = Some (- EEXIST, st)" if "p \<in> set ps"
    using that assms(4,5)
    by (auto simp: embedded_enqueue_whence_def embedded_enqueue_def embedded_enqueue_head_def
        shape_locked [OF shp] is_duplicate_spec [OF shp])
  then show ?thesis using embedded_enqueue_whence_spec [OF assms(1-4) _ assms(5)] by blast
qed

lemma release_shape:
  assumes "shape st q (as @ p # bs) c"
  shows "\<exists>st'. release st q p = Some st' \<and> shape st' q (as @ bs) (c + - 1) \<and> loose st' p \<and>
    touches q (set (as @ p # bs)) st st'"
proof -
  obtain st1 where st1: "unlink st q p = Some st1" "shape st1 q (as @ bs) c"
    "touches q (set as \<union> set bs) st st1"
    using unlink_shape(1) [OF assms] by blast
  obtain st2 where st2: "count_add st1 q (- 1) = Some st2" "shape st2 q (as @ bs) (c + - 1)"
    "touches q {} st1 st2"
    using count_add_shape [OF st1(2)] by blast
  have p: "p \<notin> set as \<union> set bs" using assms by (simp add: shape_def)
  obtain n where n: "qs_nodes st p = Some n" "p \<noteq> NULL" using unlink_shape(3) [OF assms] by blast
  have t: "touches q (set as \<union> set bs) st st2" using touches_trans [OF st1(3) st2(3)] by simp
  have n2: "qs_nodes st2 p = Some n" using touches_node [OF t p] n by simp
  obtain st3 where st3: "clear_links st2 p = Some st3" "touches q {p} st2 st3"
    "qs_queues st3 = qs_queues st2" "qs_nodes st3 p = Some (n\<lparr>qn_prev := NULL, qn_next := NULL\<rparr>)"
    using clear_links_node [OF n(2) n2] by blast
  have "shape st3 q (as @ bs) (c + - 1)"
    using st2(2) st3(2,3) p by (auto simp: shape_def touches_def intro: links_only_dll)
  moreover have "touches q (set (as @ p # bs)) st st3"
    by (rule touches_mono [OF touches_trans [OF t st3(2)]]) auto
  ultimately show ?thesis
    using st1(1) st2(1) st3 n(2) by (auto simp: release_def loose_def)
qed

lemma release_represents:
  assumes "represents st A" "A q = Some (as @ p # bs)"
  shows "\<exists>st'. release st q p = Some st' \<and> represents st' (A(q \<mapsto> as @ bs)) \<and> loose st' p \<and>
    unowned (A(q \<mapsto> as @ bs)) p \<and> node_data (qs_nodes st') = node_data (qs_nodes st)"
proof -
  note shp = representsD_shape [OF assms]
  obtain st' where st': "release st q p = Some st'"
    "shape st' q (as @ bs) (of_nat (length (as @ p # bs)) + - 1)" "loose st' p"
    "touches q (set (as @ p # bs)) st st'"
    using release_shape [OF shp] by blast
  then have "queue_rep st' q (as @ bs)" unfolding queue_rep_def count_remove by simp
  then have rep: "represents st' (A(q \<mapsto> as @ bs))"
    by (rule represents_touches [OF assms _ st'(4)]) auto
  have "p \<notin> set ps" if "(A(q \<mapsto> as @ bs)) r = Some ps" for r ps
    using that assms shp unfolding represents_def shape_def
    by (cases "r = q") (auto, fastforce)
  then show ?thesis using st' rep touches_data [OF st'(4)] by (auto simp: unowned_def)
qed

text \<open>Embedded removal at the ends.  \<^verbatim>\<open>embedded_dequeue\<close> and \<^verbatim>\<open>embedded_dequeue_tail\<close> return the
  first or last node of a nonempty queue; the node leaves with null links and is on no queue
  any more, the others keep their order, and no data change.  Empty queues give
  \<^verbatim>\<open>-ENOENT\<close>.\<close>

theorem embedded_dequeue_ends:
  assumes "represents st A" "A q = Some ps"
  shows "(\<forall>p bs. ps = p # bs \<longrightarrow> (\<exists>st'. embedded_dequeue st q True = Some (0, Some p, st') \<and>
      represents st' (A(q \<mapsto> bs)) \<and> loose st' p \<and> unowned (A(q \<mapsto> bs)) p \<and>
      node_data (qs_nodes st') = node_data (qs_nodes st))) \<and>
    (\<forall>as p. ps = as @ [p] \<longrightarrow> (\<exists>st'. embedded_dequeue_tail st q True = Some (0, Some p, st') \<and>
      represents st' (A(q \<mapsto> as)) \<and> loose st' p \<and> unowned (A(q \<mapsto> as)) p \<and>
      node_data (qs_nodes st') = node_data (qs_nodes st))) \<and>
    (ps = [] \<longrightarrow> embedded_dequeue st q True = Some (- ENOENT, None, st) \<and>
      embedded_dequeue_tail st q True = Some (- ENOENT, None, st))"
proof (intro conjI allI impI)
  note shp = representsD_shape [OF assms]
  have q: "q \<noteq> NULL" using shp by (simp add: shape_def)
  fix p bs assume ps: "ps = p # bs"
  then have "p \<noteq> NULL" using shp by (simp add: shape_def)
  then show "\<exists>st'. embedded_dequeue st q True = Some (0, Some p, st') \<and>
      represents st' (A(q \<mapsto> bs)) \<and> loose st' p \<and> unowned (A(q \<mapsto> bs)) p \<and>
      node_data (qs_nodes st') = node_data (qs_nodes st)"
    using release_represents [OF assms(1), of q "[]" p bs] assms(2) ps q
    by (auto simp: embedded_dequeue_def embedded_dequeue_at_def shape_locked [OF shp])
next
  note shp = representsD_shape [OF assms]
  have q: "q \<noteq> NULL" using shp by (simp add: shape_def)
  fix as p assume ps: "ps = as @ [p]"
  then have "p \<noteq> NULL" using shp by (simp add: shape_def)
  then show "\<exists>st'. embedded_dequeue_tail st q True = Some (0, Some p, st') \<and>
      represents st' (A(q \<mapsto> as)) \<and> loose st' p \<and> unowned (A(q \<mapsto> as)) p \<and>
      node_data (qs_nodes st') = node_data (qs_nodes st)"
    using release_represents [OF assms(1), of q as p "[]"] assms(2) ps q
    by (auto simp: embedded_dequeue_tail_def embedded_dequeue_at_def shape_locked [OF shp])
next
  note shp = representsD_shape [OF assms]
  assume "ps = []"
  then show "embedded_dequeue st q True = Some (- ENOENT, None, st)"
    "embedded_dequeue_tail st q True = Some (- ENOENT, None, st)"
    using shp shape_locked [OF shp]
    by (auto simp: embedded_dequeue_def embedded_dequeue_tail_def embedded_dequeue_at_def shape_def)
qed

lemma embedded_remove_spec:
  assumes "represents st A" "A q = Some (as @ p # bs)"
  shows "\<exists>st'. embedded_queue_remove st q p = Some (0, st') \<and> embedded_queue_detach st q p = Some (0, st') \<and>
    represents st' (A(q \<mapsto> as @ bs)) \<and> loose st' p \<and> unowned (A(q \<mapsto> as @ bs)) p \<and>
    node_data (qs_nodes st') = node_data (qs_nodes st)"
proof -
  note shp = representsD_shape [OF assms]
  have "q \<noteq> NULL" "p \<noteq> NULL" using shp unlink_shape(3) [OF shp] by (auto simp: shape_def)
  then show ?thesis
    using release_represents [OF assms]
    by (auto simp: embedded_queue_remove_def embedded_queue_detach_def shape_locked [OF shp]
        contains_spec [OF shp])
qed

text \<open>\<^verbatim>\<open>embedded_queue_relloc\<close> moves one node between two queues: it leaves the source, joins
  the destination at the chosen end, and nothing else changes.\<close>

theorem embedded_queue_relloc_moves:
  assumes "represents st A" "A src = Some (as @ p # bs)" "A dst = Some ds" "src \<noteq> dst"
    and "whence = QUEUE_HEAD \<or> whence = QUEUE_TAIL"
    and "uniqueness = QUEUE_UNIQUE \<or> uniqueness = QUEUE_DUPLICATES"
  shows "\<exists>st'. embedded_queue_relloc st dst src p uniqueness whence = Some (0, st') \<and>
    represents st' (A(src \<mapsto> as @ bs, dst \<mapsto> if whence = QUEUE_HEAD then p # ds else ds @ [p])) \<and>
    node_data (qs_nodes st') = node_data (qs_nodes st)"
proof -
  note shp = representsD_shape [OF assms(1,2)] representsD_shape [OF assms(1,3)]
  have nn: "src \<noteq> NULL" "dst \<noteq> NULL" "p \<noteq> NULL"
    using shp unlink_shape(3) [OF shp(1)] by (auto simp: shape_def)
  obtain st1 where st1: "embedded_queue_remove st src p = Some (0, st1)"
    "represents st1 (A(src \<mapsto> as @ bs))" "loose st1 p" "unowned (A(src \<mapsto> as @ bs)) p"
    "node_data (qs_nodes st1) = node_data (qs_nodes st)"
    using embedded_remove_spec [OF assms(1,2)] by blast
  obtain n where n: "qs_nodes st1 p = Some n" using st1(3) by (auto simp: loose_def)
  have dst: "(A(src \<mapsto> as @ bs)) dst = Some ds" using assms(3,4) by simp
  obtain st2 where "embedded_enqueue_whence st1 dst p uniqueness whence = Some (0, st2)"
    "represents st2 (A(src \<mapsto> as @ bs, dst \<mapsto> if whence = QUEUE_HEAD then p # ds else ds @ [p]))"
    "node_data (qs_nodes st2) = node_data (qs_nodes st1)"
    using embedded_enqueue_whence_spec [OF st1(2) dst n nn(3) st1(4) assms(5)] by blast
  moreover have "embedded_queue_check_relloc_input dst src p uniqueness whence = 0"
    using nn assms(5,6) by (auto simp: embedded_queue_check_relloc_input_def Let_def
        validate_uniqueness_and_whence_def validate_uniqueness_def validate_whence_def)
  ultimately show ?thesis
    using st1 by (simp add: embedded_queue_relloc_def Let_def shape_locked [OF shp(1)] shape_locked [OF shp(2)])
qed


section \<open>Flushing, migrating, replacing\<close>

lemma embedded_flush_loop_spec:
  assumes "shape st q ps c"
  shows "\<exists>st'. embedded_flush_loop st q (hdp ps NULL) = Some st' \<and> shape st' q [] (c - of_nat (length ps)) \<and>
    touches q (set ps) st st' \<and> (\<forall>p \<in> set ps. loose st' p)"
  using assms
proof (induction ps arbitrary: st c)
  case Nil
  then show ?case by (auto simp: embedded_flush_loop.simps)
next
  case (Cons p ps)
  obtain n where n: "qs_nodes st p = Some n" "p \<noteq> NULL" "qn_next n = hdp ps NULL"
    using unlink_shape(3) [of st q "[]" p ps c] Cons.prems by auto
  obtain st1 where st1: "release st q p = Some st1" "shape st1 q ps (c + - 1)" "loose st1 p"
    "touches q (insert p (set ps)) st st1"
    using release_shape [of st q "[]" p ps c] Cons.prems by auto
  obtain st2 where st2: "embedded_flush_loop st1 q (hdp ps NULL) = Some st2"
    "shape st2 q [] (c + - 1 - of_nat (length ps))" "touches q (set ps) st1 st2" "\<forall>p \<in> set ps. loose st2 p"
    using Cons.IH [OF st1(2)] by blast
  have "p \<notin> set ps" using Cons.prems by (simp add: shape_def)
  then have "loose st2 p" using touches_node [OF st2(3)] st1(3) by (simp add: loose_def)
  moreover have "touches q (set (p # ps)) st st2"
    using touches_trans [OF st1(4) st2(3)] by (rule touches_mono) auto
  moreover have "shape st2 q [] (c - of_nat (length (p # ps)))"
    using st2(2) by (simp add: algebra_simps)
  moreover have "embedded_flush_loop st q (hdp (p # ps) NULL) = Some st2"
    using n st1(1) st2(1) by (subst embedded_flush_loop.simps) simp
  ultimately show ?case using st2(4) by auto
qed

text \<open>\<^verbatim>\<open>embedded_queue_flush\<close> terminates and empties the queue: every node that was on it has
  null links afterwards, no data change and no other queue is affected.\<close>

theorem embedded_queue_flush_empties:
  assumes "represents st A" "A q = Some ps"
  shows "\<exists>st'. embedded_queue_flush st q = Some st' \<and> represents st' (A(q \<mapsto> [])) \<and>
    (\<forall>p \<in> set ps. loose st' p) \<and> node_data (qs_nodes st') = node_data (qs_nodes st)"
proof -
  note shp = representsD_shape [OF assms]
  obtain st1 where st1: "embedded_flush_loop st q (hdp ps NULL) = Some st1"
    "shape st1 q [] (of_nat (length ps) - of_nat (length ps))" "touches q (set ps) st st1"
    "\<forall>p \<in> set ps. loose st1 p"
    using embedded_flush_loop_spec [OF shp] by blast
  then have r: "queue_rep st1 q []" by (simp add: queue_rep_def)
  have "embedded_queue_flush st q = Some st1"
    using st1(1,2) unfolding embedded_queue_flush_def shape_locked [OF shp]
    by (auto simp: shape_def put_queue_def fun_upd_idem)
  with represents_touches [OF assms r st1(3)] st1(4) touches_data [OF st1(3)] show ?thesis by auto
qed

text \<open>\<^verbatim>\<open>embedded_queue_migrate\<close> computes the same result as \<^verbatim>\<open>queue_node_migrate\<close> on every
  valid range of two different queues.\<close>

theorem embedded_queue_migrate_same:
  assumes "represents st A" "A src = Some ps" "A dst = Some ds" "src \<noteq> dst"
    and "unat start + unat num \<le> length ps" "num \<noteq> 0" "whence = QUEUE_HEAD \<or> whence = QUEUE_TAIL"
  shows "embedded_queue_migrate st dst src start num whence = queue_node_migrate st dst src start num whence"
proof -
  let ?ms = "take (unat num) (drop (unat start) ps)"
  note shp = representsD_shape [OF assms(1,2)] representsD_shape [OF assms(1,3)]
  note split = segment_split [OF assms(5,6)]
  have chain: "dll (qs_nodes st) NULL ps NULL" and nn: "src \<noteq> NULL" "dst \<noteq> NULL"
    using shp by (simp_all add: shape_def)
  have k: "num = of_nat (length ?ms)" using split(3) by simp
  obtain st1 where "detach_segment st src (hd ?ms) (last ?ms) num = Some st1" "dll (qs_nodes st1) NULL ?ms NULL"
    using migrate_represents [OF assms(1) _ assms(3,4) split(2) k assms(7)] assms(2) split(1) by metis
  moreover from this(2) have "find_loop (\<lambda>_ _. False) (qs_nodes st1) (hd ?ms) = Some None"
    using no_search dll_hd(2) [OF _ split(2)] by metis
  ultimately show ?thesis
    unfolding embedded_queue_migrate_def queue_node_migrate_def shape_locked [OF shp(1)] shape_locked [OF shp(2)]
    using nn walk_segment [OF chain assms(5,6)] by simp
qed

text \<open>Replacing \<open>p\<close> by \<open>r\<close> in the chain.\<close>

lemma replace_links:
  assumes chain: "dll h NULL (as @ p # bs) NULL" "distinct (as @ p # bs)"
    and r: "h r = Some rn" "r \<noteq> NULL" "r \<notin> set (as @ p # bs)"
    and n: "h p = Some n"
  shows "\<exists>h1 h2 h3 h4. set_next h r (qn_next n) = Some h1 \<and> set_prev h1 r (qn_prev n) = Some h2 \<and>
    h2 r = Some (rn\<lparr>qn_next := qn_next n, qn_prev := qn_prev n\<rparr>) \<and>
    link_prev h2 (qn_next n) r = Some h3 \<and> h3 r = h2 r \<and> link_next h3 (qn_prev n) r = Some h4 \<and>
    dll h4 NULL (as @ r # bs) NULL \<and> h4 p = Some n \<and> links_only (insert r (set (as @ bs))) h h4"
proof -
  let ?h2 = "h(r \<mapsto> rn\<lparr>qn_next := qn_next n, qn_prev := qn_prev n\<rparr>)"
  have n': "qn_prev n = lastp NULL as" "qn_next n = hdp bs NULL" "p \<noteq> NULL" using chain(1) n by auto
  have l2: "links_only {r} h ?h2" using r(1) by (auto simp: links_only_def node_data_def)
  have c2: "dll ?h2 NULL as p" "dll ?h2 p bs NULL" "distinct (as @ bs)" "p \<notin> set (as @ bs)"
    using chain links_only_dll [OF l2] r(3) by auto
  obtain h3 where h3: "link_prev ?h2 (hdp bs NULL) r = Some h3" "dll h3 r bs NULL" "links_only (set bs) ?h2 h3"
    using link_prev_dll [OF c2(2), of r] c2(3) by auto
  have "dll h3 NULL as p" using links_only_dll [OF h3(3) c2(1)] c2(3) by auto
  then obtain h4 where h4: "link_next h3 (lastp NULL as) r = Some h4" "dll h4 NULL as r" "links_only (set as) h3 h4"
    using link_next_dll [of h3 NULL as p r] c2(3) by auto
  have "dll h4 r bs NULL" using links_only_dll [OF h4(3) h3(2)] c2(3) by auto
  moreover have r4: "h4 r = ?h2 r" "h3 r = ?h2 r" "h4 p = Some n"
    using h3(3) h4(3) r(3) c2(4) n by (auto simp: links_only_def)
  ultimately have "dll h4 NULL (as @ r # bs) NULL" using h4(2) n' r(2) by simp
  moreover have "links_only (insert r (set (as @ bs))) h h4"
    by (rule links_only_mono [OF links_only_trans [OF links_only_trans [OF l2 h3(3)] h4(3)]]) auto
  ultimately show ?thesis
    using r n' h3(1) h4(1) r4 by (simp add: set_next_def set_prev_def)
qed

text \<open>\<^verbatim>\<open>embedded_queue_replace\<close> puts the new node exactly where the old one stood, and the old
  one leaves with null links; the counter, the other nodes and all data are unchanged.\<close>

theorem embedded_queue_replace_exact:
  assumes rep: "represents st A" "A q = Some (as @ p # bs)"
    and r: "qs_nodes st r = Some rn" "r \<noteq> NULL" "unowned A r"
  shows "\<exists>st'. embedded_queue_replace st q p r = Some (0, st') \<and> represents st' (A(q \<mapsto> as @ r # bs)) \<and>
    loose st' p \<and> node_data (qs_nodes st') = node_data (qs_nodes st)"
proof -
  note shp = representsD_shape [OF rep]
  have out: "r \<notin> set (as @ p # bs)" using r(3) rep(2) unfolding unowned_def by blast
  obtain n where n: "qs_nodes st p = Some n" "p \<noteq> NULL" "qn_prev n = lastp NULL as" "qn_next n = hdp bs NULL"
    using unlink_shape(3) [OF shp] by blast
  have chain: "dll (qs_nodes st) NULL (as @ p # bs) NULL" "distinct (as @ p # bs)" and q: "q \<noteq> NULL"
    and qr: "qs_queues st q = Some \<lparr>q_head = hdp as p, q_tail = lastp p bs,
        q_count = of_nat (length (as @ p # bs)), q_lock = True\<rparr>"
    using shp by (simp_all add: shape_def)
  obtain h1 h2 h3 h4 where h: "set_next (qs_nodes st) r (qn_next n) = Some h1" "set_prev h1 r (qn_prev n) = Some h2"
    "h2 r = Some (rn\<lparr>qn_next := qn_next n, qn_prev := qn_prev n\<rparr>)"
    "link_prev h2 (qn_next n) r = Some h3" "h3 r = h2 r" "link_next h3 (qn_prev n) r = Some h4"
    "dll h4 NULL (as @ r # bs) NULL" "h4 p = Some n" "links_only (insert r (set (as @ bs))) (qs_nodes st) h4"
    using replace_links [OF chain r(1,2) out n(1)] by blast
  let ?q = "\<lparr>q_head = hdp as r, q_tail = lastp r bs, q_count = of_nat (length (as @ r # bs)), q_lock = True\<rparr>"
  let ?st = "put_queue (st\<lparr>qs_nodes := h4\<rparr>) q ?q"
  obtain st' where st': "clear_links ?st p = Some st'" "touches q {p} ?st st'" "qs_queues st' = qs_queues ?st"
    "qs_nodes st' p = Some (n\<lparr>qn_prev := NULL, qn_next := NULL\<rparr>)"
    using clear_links_node [of p ?st n q] n(2) h(8) by auto
  have "dll (qs_nodes st') NULL (as @ r # bs) NULL"
    using links_only_dll [of "{p}" h4 "qs_nodes st'" NULL "as @ r # bs" NULL] st'(2) h(7) chain(2) out
    by (auto simp: touches_def)
  then have rep': "queue_rep st' q (as @ r # bs)"
    using st'(3) q chain(2) out by (auto simp: queue_rep_def shape_def)
  have "touches q (insert r (set (as @ bs))) st ?st" using h(9) by (simp add: touches_def)
  from touches_trans [OF this st'(2)] have t: "touches q (insert r (set (as @ p # bs))) st st'"
    by (rule touches_mono) auto
  have "represents st' (A(q \<mapsto> as @ r # bs))"
    using represents_update [OF rep rep' touches_keeps [OF t]] r(3) by auto
  moreover have "embedded_queue_replace st q p r = Some (0, st')"
  proof -
    have ends: "replace_ends \<lparr>q_head = hdp as p, q_tail = lastp p bs, q_count = c, q_lock = True\<rparr> p r =
        \<lparr>q_head = hdp as r, q_tail = lastp r bs, q_count = c, q_lock = True\<rparr>" for c
      using chain(2) by (cases as; cases bs rule: rev_cases) (auto simp: lastp_def replace_ends_def)
    have find: "find_loop (\<lambda>x _. p = x) (qs_nodes st) (hdp as p) = Some (Some p)"
      using find_node_dll [OF chain(1), of p] by simp
    show ?thesis
      using q n(1,2) r(2) out h(1-6) st'(1)
      by (auto simp: embedded_queue_replace_def shape_locked [OF shp] find ends)
  qed
  moreover have "loose st' p" using st'(4) n(2) by (simp add: loose_def)
  ultimately show ?thesis using touches_data [OF t] by blast
qed

end
