(* ===== verification/Embedded_Sorted.thy ===== *)
theory Embedded_Sorted
  imports Embedded "HOL-Library.Multiset"
begin

text \<open>
  Insertion inside an embedded queue: the sorted insertion of
  \<^verbatim>\<open>src/src/kernel/ds/queue/embedded.c\<close>, used by the timers, keeps the queue ordered by the
  key that the comparison callback computes; \<^verbatim>\<open>embedded_enqueue_after\<close> and
  \<^verbatim>\<open>embedded_enqueue_before\<close> are right at the ends only.
\<close>

section \<open>Linking a node between two chains\<close>

lemma insert_links:
  assumes chain: "dll h NULL as e" "dll h c bs NULL" "distinct (as @ bs)"
    and r: "h r = Some rn" "r \<noteq> NULL" "r \<notin> set (as @ bs)"
  defines "h2 \<equiv> h(r \<mapsto> rn\<lparr>qn_next := hdp bs NULL, qn_prev := lastp NULL as\<rparr>)"
  shows "\<exists>h3 h4. link_prev h2 (hdp bs NULL) r = Some h3 \<and> h3 r = h2 r \<and>
      link_next h3 (lastp NULL as) r = Some h4 \<and> dll h4 NULL (as @ r # bs) NULL \<and>
      links_only (insert r (set (as @ bs))) h h4"
    and "\<exists>h3 h4. link_next h2 (lastp NULL as) r = Some h3 \<and> h3 r = h2 r \<and>
      link_prev h3 (hdp bs NULL) r = Some h4 \<and> dll h4 NULL (as @ r # bs) NULL \<and>
      links_only (insert r (set (as @ bs))) h h4"
proof -
  have l2: "links_only {r} h h2" using r(1) by (auto simp: h2_def links_only_def node_data_def)
  have c2: "dll h2 NULL as e" "dll h2 c bs NULL" using chain links_only_dll [OF l2] r(3) by auto
  have h2: "h2 r = Some (rn\<lparr>qn_next := hdp bs NULL, qn_prev := lastp NULL as\<rparr>)" by (simp add: h2_def)
  have fin: "dll h4 NULL (as @ r # bs) NULL \<and> links_only (insert r (set (as @ bs))) h h4"
    if "dll h4 NULL as r" "dll h4 r bs NULL" "h4 r = h2 r" "links_only S h2 h3" "links_only T h3 h4"
      "S \<union> T \<subseteq> set (as @ bs)" for h3 h4 S T
  proof -
    have "links_only (insert r (set (as @ bs))) h h4"
      by (rule links_only_mono [OF links_only_trans [OF links_only_trans [OF l2 that(4)] that(5)]])
         (use that(6) in auto)
    then show ?thesis using that h2 r(2) by simp
  qed
  obtain h3 where h3: "link_prev h2 (hdp bs NULL) r = Some h3" "dll h3 r bs NULL" "links_only (set bs) h2 h3"
    using link_prev_dll [OF c2(2), of r] chain(3) by auto
  have "dll h3 NULL as e" using links_only_dll [OF h3(3) c2(1)] chain(3) by auto
  then obtain h4 where h4: "link_next h3 (lastp NULL as) r = Some h4" "dll h4 NULL as r" "links_only (set as) h3 h4"
    using link_next_dll [of h3 NULL as e r] chain(3) by auto
  have "dll h4 r bs NULL" using links_only_dll [OF h4(3) h3(2)] chain(3) by auto
  moreover have "h3 r = h2 r" "h4 r = h2 r" using h3(3) h4(3) r(3) by (auto simp: links_only_def)
  ultimately show "\<exists>h3 h4. link_prev h2 (hdp bs NULL) r = Some h3 \<and> h3 r = h2 r \<and>
      link_next h3 (lastp NULL as) r = Some h4 \<and> dll h4 NULL (as @ r # bs) NULL \<and>
      links_only (insert r (set (as @ bs))) h h4"
    using fin [OF h4(2) _ _ h3(3) h4(3)] h3(1) h4(1) by auto
  obtain k3 where k3: "link_next h2 (lastp NULL as) r = Some k3" "dll k3 NULL as r" "links_only (set as) h2 k3"
    using link_next_dll [OF c2(1), of r] chain(3) by auto
  have "dll k3 c bs NULL" using links_only_dll [OF k3(3) c2(2)] chain(3) by auto
  then obtain k4 where k4: "link_prev k3 (hdp bs NULL) r = Some k4" "dll k4 r bs NULL" "links_only (set bs) k3 k4"
    using link_prev_dll [of k3 c bs NULL r] chain(3) by auto
  have "dll k4 NULL as r" using links_only_dll [OF k4(3) k3(2)] chain(3) by auto
  moreover have "k3 r = h2 r" "k4 r = h2 r" using k3(3) k4(3) r(3) by (auto simp: links_only_def)
  ultimately show "\<exists>h3 h4. link_next h2 (lastp NULL as) r = Some h3 \<and> h3 r = h2 r \<and>
      link_prev h3 (hdp bs NULL) r = Some h4 \<and> dll h4 NULL (as @ r # bs) NULL \<and>
      links_only (insert r (set (as @ bs))) h h4"
    using fin [OF _ k4(2) _ k3(3) k4(3)] k3(1) k4(1) by auto
qed

lemma loose_node: "loose st p \<Longrightarrow> \<exists>n. qs_nodes st p = Some n \<and> p \<noteq> NULL"
  by (auto simp: loose_def)

lemma splice_before_shape:
  assumes "shape st q (as @ b # bs) c" "loose st p" "p \<notin> set (as @ b # bs)"
  shows "\<exists>st'. splice_before st q p b = Some st' \<and> shape st' q (as @ p # b # bs) c \<and>
    touches q (insert p (set (as @ b # bs))) st st'"
proof -
  let ?h = "qs_nodes st"
  obtain n where n: "?h p = Some n" "p \<noteq> NULL" using loose_node [OF assms(2)] by blast
  have q: "q \<noteq> NULL" and d: "distinct (as @ b # bs)" and c: "dll ?h NULL as b" "dll ?h (lastp NULL as) (b # bs) NULL"
    and qr: "qs_queues st q = Some \<lparr>q_head = hdp as b, q_tail = lastp b bs, q_count = c, q_lock = True\<rparr>"
    using assms(1) by (auto simp: shape_def)
  obtain bn where bn: "?h b = Some bn" "b \<noteq> NULL" "qn_prev bn = lastp NULL as" using c(2) by auto
  let ?h2 = "?h(p \<mapsto> n\<lparr>qn_next := b, qn_prev := lastp NULL as\<rparr>)"
  obtain h3 h4 where h: "link_prev ?h2 b p = Some h3" "h3 p = ?h2 p" "link_next h3 (lastp NULL as) p = Some h4"
    "dll h4 NULL (as @ p # b # bs) NULL" "links_only (insert p (set (as @ b # bs))) ?h h4"
    using insert_links(1) [OF c d n assms(3)] by auto
  have as: "lastp NULL as = NULL \<longleftrightarrow> as = []" using lastp_eq_iff [OF c(1)] .
  have bp: "b \<noteq> p" using assms(3) by auto
  have s: "set_next ?h p b = Some (?h(p \<mapsto> n\<lparr>qn_next := b\<rparr>))"
    "set_prev (?h(p \<mapsto> n\<lparr>qn_next := b\<rparr>)) p (lastp NULL as) = Some ?h2" "set_prev ?h2 b p = Some h3"
    using n bn h(1) by (simp_all add: set_next_def set_prev_def link_prev_def)
  have "as \<noteq> [] \<Longrightarrow> hdp as b = hdp as p" by (cases as) auto
  then have "\<exists>st'. splice_before st q p b = Some st' \<and> qs_nodes st' = h4 \<and>
      qs_queues st' q = Some \<lparr>q_head = hdp as p, q_tail = lastp b bs, q_count = c, q_lock = True\<rparr> \<and>
      (\<forall>r. r \<noteq> q \<longrightarrow> qs_queues st' r = qs_queues st r)"
    using s n bn bp q qr h(2,3) as
    by (cases "as = []") (simp_all add: splice_before_def link_next_def)
  then show ?thesis using h(4,5) q d assms(3) by (auto simp: shape_def touches_def)
qed

lemma splice_after_shape:
  assumes "shape st q (as @ a # bs) c" "loose st p" "p \<notin> set (as @ a # bs)"
  shows "\<exists>st'. splice_after st q p a = Some st' \<and> shape st' q (as @ a # p # bs) c \<and>
    touches q (insert p (set (as @ a # bs))) st st'"
proof -
  let ?h = "qs_nodes st"
  obtain n where n: "?h p = Some n" "p \<noteq> NULL" using loose_node [OF assms(2)] by blast
  have q: "q \<noteq> NULL" and d: "distinct ((as @ [a]) @ bs)"
    and c: "dll ?h NULL (as @ [a]) (hdp bs NULL)" "dll ?h a bs NULL"
    and qr: "qs_queues st q = Some \<lparr>q_head = hdp as a, q_tail = lastp a bs, q_count = c, q_lock = True\<rparr>"
    using assms(1) by (auto simp: shape_def)
  obtain an where an: "?h a = Some an" "a \<noteq> NULL" "qn_next an = hdp bs NULL" using c(1) by auto
  let ?h2 = "?h(p \<mapsto> n\<lparr>qn_next := hdp bs NULL, qn_prev := a\<rparr>)"
  obtain h3 h4 where h: "link_next ?h2 a p = Some h3" "h3 p = ?h2 p" "link_prev h3 (hdp bs NULL) p = Some h4"
    "dll h4 NULL (as @ a # p # bs) NULL" "links_only (insert p (set (as @ a # bs))) ?h h4"
    using insert_links(2) [OF c d n] assms(3) by auto
  have bs: "hdp bs NULL = NULL \<longleftrightarrow> bs = []" using hdp_eq_iff [OF c(2)] .
  have "bs \<noteq> [] \<Longrightarrow> lastp a bs = lastp p bs" by (cases bs) auto
  moreover have ap: "a \<noteq> p" using assms(3) by auto
  moreover have s: "set_prev ?h p a = Some (?h(p \<mapsto> n\<lparr>qn_prev := a\<rparr>))"
    "set_next (?h(p \<mapsto> n\<lparr>qn_prev := a\<rparr>)) p (hdp bs NULL) = Some ?h2" "set_next ?h2 a p = Some h3"
    using n an h(1) by (cases n; simp add: set_next_def set_prev_def link_next_def)+
  ultimately have "\<exists>st'. splice_after st q p a = Some st' \<and> qs_nodes st' = h4 \<and>
      qs_queues st' q = Some \<lparr>q_head = hdp as a, q_tail = lastp p bs, q_count = c, q_lock = True\<rparr> \<and>
      (\<forall>r. r \<noteq> q \<longrightarrow> qs_queues st' r = qs_queues st r)"
    using n an q qr h(2,3) bs
    by (cases "bs = []") (simp_all add: splice_after_def s link_prev_def)
  then show ?thesis using h(4,5) q d assms(3) by (auto simp: shape_def touches_def)
qed

lemma splice_last_shape:
  assumes "shape st q (as @ [a]) c" "loose st p" "p \<notin> set (as @ [a])"
  shows "\<exists>st'. splice_last st q p a = Some st' \<and> shape st' q (as @ [a, p]) c \<and>
    touches q (insert p (set (as @ [a]))) st st'"
proof -
  let ?h = "qs_nodes st"
  obtain n where n: "?h p = Some n" "p \<noteq> NULL" using loose_node [OF assms(2)] by blast
  have q: "q \<noteq> NULL" and d: "distinct ((as @ [a]) @ [])" and c: "dll ?h NULL (as @ [a]) NULL"
    and qr: "qs_queues st q = Some \<lparr>q_head = hdp as a, q_tail = a, q_count = c, q_lock = True\<rparr>"
    using assms(1) by (auto simp: shape_def)
  obtain an where an: "?h a = Some an" "a \<noteq> NULL" using c by auto
  let ?h2 = "?h(p \<mapsto> n\<lparr>qn_next := NULL, qn_prev := a\<rparr>)"
  obtain h4 where h: "link_next ?h2 a p = Some h4"
    "dll h4 NULL (as @ [a, p]) NULL" "links_only (insert p (set (as @ [a]))) ?h h4"
    using insert_links(2) [OF c _ d n, of NULL] assms(3) by (auto simp: link_prev_def)
  have s: "set_next ?h p NULL = Some (?h(p \<mapsto> n\<lparr>qn_next := NULL\<rparr>))"
    "set_prev (?h(p \<mapsto> n\<lparr>qn_next := NULL\<rparr>)) p a = Some ?h2" "set_next ?h2 a p = Some h4"
    using n an h(1) by (simp_all add: set_next_def set_prev_def link_next_def)
  have "\<exists>st'. splice_last st q p a = Some st' \<and> qs_nodes st' = h4 \<and>
      qs_queues st' = (qs_queues st)(q \<mapsto> \<lparr>q_head = hdp as a, q_tail = p, q_count = c, q_lock = True\<rparr>)"
    using q qr by (simp add: splice_last_def s)
  then show ?thesis using h(2,3) q d assms(3) by (auto simp: shape_def touches_def)
qed


section \<open>Where the sorted insertion puts a node\<close>

text \<open>
  The place in a list, given the results of the comparisons of the new node with the others:
  after the first equal one, before the first larger one, or at the end.
\<close>

fun sorted_place :: "(addr \<Rightarrow> int) \<Rightarrow> bool \<Rightarrow> addr \<Rightarrow> addr list \<Rightarrow> int + addr list" where
  "sorted_place cmp uniq p [] = Inr [p]"
| "sorted_place cmp uniq p (x # xs) =
     (if cmp x = QUEUE_EQUAL then (if uniq then Inl (- EEXIST) else Inr (x # p # xs))
      else if cmp x = QUEUE_LESSER then Inr (p # x # xs)
      else map_sum id ((#) x) (sorted_place cmp uniq p xs))"

lemma sorted_loop_spec:
  assumes "shape st q (pre @ ps) c" "loose st p" "p \<notin> set (pre @ ps)" "ps \<noteq> []"
    and "\<forall>x \<in> set ps. queue_cmp_nodes compare order p x \<in> {QUEUE_EQUAL, QUEUE_LESSER, QUEUE_GREATER}"
  shows "case sorted_place (queue_cmp_nodes compare order p) (uniqueness = QUEUE_UNIQUE) p ps of
      Inl err \<Rightarrow> sorted_loop compare order st q p uniqueness (hdp ps NULL) = Some (Inl err)
    | Inr ps' \<Rightarrow> \<exists>st'. sorted_loop compare order st q p uniqueness (hdp ps NULL) = Some (Inr st') \<and>
        shape st' q (pre @ ps') c \<and> touches q (insert p (set (pre @ ps))) st st'"
  using assms
proof (induction ps arbitrary: pre)
  case (Cons x xs)
  let ?cmp = "queue_cmp_nodes compare order p"
  have dx: "dll (qs_nodes st) (lastp NULL pre) (x # xs) NULL" using Cons.prems(1) by (simp add: shape_def)
  then obtain n where n: "qs_nodes st x = Some n" "x \<noteq> NULL" "qn_next n = hdp xs NULL" and xs: "dll (qs_nodes st) x xs NULL"
    by auto
  consider "?cmp x = QUEUE_EQUAL" | "?cmp x = QUEUE_LESSER" | "?cmp x = QUEUE_GREATER"
    using Cons.prems(5) by auto
  then show ?case
  proof cases
    case 1
    then show ?thesis
      using n splice_after_shape [OF Cons.prems(1-3)] by (subst (1 2) sorted_loop.simps) (auto simp: Let_def)
  next
    case 2
    then show ?thesis
      using n splice_before_shape [OF Cons.prems(1-3)] by (subst (1 2) sorted_loop.simps) (auto simp: Let_def)
  next
    case 3
    show ?thesis
    proof (cases "xs = []")
      case True
      then show ?thesis
        using 3 n splice_last_shape [of st q pre x c p] Cons.prems
        by (subst (1 2) sorted_loop.simps) (auto simp: Let_def)
    next
      case False
      have loop: "sorted_loop compare order st q p uniqueness (hdp (x # xs) NULL) =
          sorted_loop compare order st q p uniqueness (hdp xs NULL)"
        using 3 n False hdp_eq_iff [OF xs] by (subst sorted_loop.simps) (simp add: Let_def)
      have "case sorted_place ?cmp (uniqueness = QUEUE_UNIQUE) p xs of
          Inl err \<Rightarrow> sorted_loop compare order st q p uniqueness (hdp xs NULL) = Some (Inl err)
        | Inr ps' \<Rightarrow> \<exists>st'. sorted_loop compare order st q p uniqueness (hdp xs NULL) = Some (Inr st') \<and>
            shape st' q ((pre @ [x]) @ ps') c \<and> touches q (insert p (set ((pre @ [x]) @ xs))) st st'"
        using Cons.IH [of "pre @ [x]"] Cons.prems False by simp
      then show ?thesis
        unfolding loop using 3
        by (cases "sorted_place ?cmp (uniqueness = QUEUE_UNIQUE) p xs") (auto simp: insert_commute)
    qed
  qed
qed simp

lemma sorted_place_mset: "sorted_place cmp uniq p ps = Inr ps' \<Longrightarrow> mset ps' = add_mset p (mset ps)"
  by (induction ps arbitrary: ps') (auto split: if_splits simp: map_sum_def split: sum.splits)

text \<open>A comparison callback that compares keys, and the places it leads to.\<close>

definition key_compare :: "(addr \<Rightarrow> 'k::linorder) \<Rightarrow> addr \<Rightarrow> addr \<Rightarrow> int" where
  "key_compare k a b =
     (if k a = k b then QUEUE_EQUAL else if k a < k b then QUEUE_LESSER else QUEUE_GREATER)"

text \<open>
  The order of a queue: by default the keys ascend, with \<^verbatim>\<open>QUEUE_DESCENDING\<close> they descend.
\<close>

definition precedes :: "u32 \<Rightarrow> (addr \<Rightarrow> 'k::linorder) \<Rightarrow> addr \<Rightarrow> addr \<Rightarrow> bool" where
  "precedes order k a b \<longleftrightarrow> (if order = QUEUE_DESCENDING then k b \<le> k a else k a \<le> k b)"

definition placed :: "u32 \<Rightarrow> (addr \<Rightarrow> 'k::linorder) \<Rightarrow> addr \<Rightarrow> addr \<Rightarrow> int" where
  "placed order k p x = (if k p = k x then QUEUE_EQUAL else if precedes order k p x then QUEUE_LESSER else QUEUE_GREATER)"

lemma precedes_trans: "precedes order k a b \<Longrightarrow> precedes order k b c \<Longrightarrow> precedes order k a c"
  by (auto simp: precedes_def split: if_splits)

lemma precedes_total: "\<not> precedes order k a b \<Longrightarrow> precedes order k b a"
  by (auto simp: precedes_def split: if_splits)

lemma queue_cmp_key: "p \<noteq> NULL \<Longrightarrow> x \<noteq> NULL \<Longrightarrow> queue_cmp_nodes (Some (key_compare k)) order p x = placed order k p x"
  by (auto simp: queue_cmp_nodes_def key_compare_def placed_def precedes_def)

lemma sorted_place_sorted:
  assumes "sorted_wrt (precedes order k) ps" "sorted_place (placed order k p) uniq p ps = Inr ps'"
  shows "sorted_wrt (precedes order k) ps'"
  using assms
proof (induction ps arbitrary: ps')
  case (Cons x xs)
  show ?case
  proof (cases "precedes order k p x")
    case True
    then have "\<forall>y \<in> set xs. precedes order k p y" using Cons.prems(1) by (auto intro: precedes_trans)
    moreover have "k p = k x \<Longrightarrow> precedes order k x p" by (simp add: precedes_def)
    ultimately show ?thesis using True Cons.prems by (auto simp: placed_def split: if_splits)
  next
    case False
    then have "placed order k p x = QUEUE_GREATER" by (auto simp: placed_def precedes_def split: if_splits)
    then obtain ys where ys: "sorted_place (placed order k p) uniq p xs = Inr ys" "ps' = x # ys"
      using Cons.prems(2) by (cases "sorted_place (placed order k p) uniq p xs") auto
    have "set ys = insert p (set xs)"
      using sorted_place_mset [OF ys(1)] by (metis set_mset_add_mset_insert set_mset_mset)
    then show ?thesis using Cons ys precedes_total [OF False] by auto
  qed
qed simp

text \<open>In an ordered queue the search finds an equal key when there is one.\<close>

lemma sorted_place_refused:
  assumes "sorted_wrt (precedes order k) ps"
  shows "if uniq \<and> k p \<in> k ` set ps then sorted_place (placed order k p) uniq p ps = Inl (- EEXIST)
    else \<exists>ps'. sorted_place (placed order k p) uniq p ps = Inr ps'"
  using assms
proof (induction ps)
  case (Cons x xs)
  have "k p \<notin> k ` set xs" if "precedes order k p x" "k p \<noteq> k x"
  proof
    assume "k p \<in> k ` set xs"
    then obtain y where "y \<in> set xs" "k y = k p" by auto
    then have "precedes order k x p" using Cons.prems by (auto simp: precedes_def)
    then show False using that by (auto simp: precedes_def split: if_splits)
  qed
  moreover have "placed order k p x = (if k p = k x then QUEUE_EQUAL else if precedes order k p x then QUEUE_LESSER else QUEUE_GREATER)" by (simp add: placed_def)
  ultimately show ?case using Cons by (auto simp: image_iff split: if_splits)
qed simp

lemma sorted_insert_represents:
  assumes rep: "represents st A" "A q = Some ps" and p: "qs_nodes st p = Some n" "p \<noteq> NULL" "unowned A p"
    and cmp: "\<forall>x \<in> set ps. queue_cmp_nodes compare order p x \<in> {QUEUE_EQUAL, QUEUE_LESSER, QUEUE_GREATER}"
    and place: "sorted_place (queue_cmp_nodes compare order p) (uniqueness = QUEUE_UNIQUE) p ps = Inr ps'"
  shows "\<exists>st'. embedded_enqueue_sorted compare st q p uniqueness order = Some (0, st') \<and>
    represents st' (A(q \<mapsto> ps')) \<and> node_data (qs_nodes st') = node_data (qs_nodes st)"
proof -
  note shp = representsD_shape [OF rep]
  have q: "q \<noteq> NULL" and out: "p \<notin> set ps" using shp p(3) rep(2) by (auto simp: shape_def unowned_def)
  obtain st1 where st1: "clear_links st p = Some st1" "represents st1 A" "loose st1 p"
    "node_data (qs_nodes st1) = node_data (qs_nodes st)"
    using clear_unowned [OF rep(1) p] by blast
  note shp1 = representsD_shape [OF st1(2) rep(2)]
  have len: "length ps' = Suc (length ps)" "set ps' = insert p (set ps)"
    using sorted_place_mset [OF place] by (metis size_add_mset size_mset, metis set_mset_add_mset_insert set_mset_mset)
  have "\<exists>st2. shape st2 q ps' (of_nat (length ps)) \<and> touches q (insert p (set ps)) st1 st2 \<and>
      (embedded_enqueue_sorted compare st q p uniqueness order =
         count_add st2 q 1 \<bind> (\<lambda>st. Some (0, st)))"
  proof (cases "ps = []")
    case True
    have d: "dll (qs_nodes st1) NULL [p] NULL" using st1(3) by (simp add: loose_dll)
    have ps': "ps' = [p]" using place True by simp
    let ?q = "\<lparr>q_head = p, q_tail = p, q_count = 0, q_lock = True\<rparr>"
    have "embedded_enqueue_sorted compare st q p uniqueness order =
        count_add (put_queue st1 q ?q) q 1 \<bind> (\<lambda>st. Some (0, st))"
      using True q p(2) st1(1) by (simp add: embedded_enqueue_sorted_def shape_locked [OF shp])
    moreover have "shape (put_queue st1 q ?q) q ps' (of_nat (length ps))"
      using True ps' d q p(2) by (simp add: shape_def)
    moreover have "touches q (insert p (set ps)) st1 (put_queue st1 q ?q)" by (simp add: touches_def)
    ultimately show ?thesis by blast
  next
    case False
    obtain st2 where st2: "sorted_loop compare order st1 q p uniqueness (hdp ps NULL) = Some (Inr st2)"
      "shape st2 q ps' (of_nat (length ps))" "touches q (insert p (set ps)) st1 st2"
      using sorted_loop_spec [of st1 q "[]" ps _ p compare order uniqueness] shp1 st1(3) out False cmp place by auto
    have "hdp ps NULL \<noteq> NULL" using False hdp_eq_iff [of "qs_nodes st" NULL ps NULL] shp by (simp add: shape_def)
    then have "embedded_enqueue_sorted compare st q p uniqueness order =
         count_add st2 q 1 \<bind> (\<lambda>st. Some (0, st))"
      using q p(2) st1(1) st2(1) out
      by (simp add: embedded_enqueue_sorted_def shape_locked [OF shp] is_duplicate_spec [OF shp1])
    then show ?thesis using st2 by blast
  qed
  then obtain st2 where st2: "shape st2 q ps' (of_nat (length ps))" "touches q (insert p (set ps)) st1 st2"
    "embedded_enqueue_sorted compare st q p uniqueness order = count_add st2 q 1 \<bind> (\<lambda>st. Some (0, st))"
    by blast
  obtain st3 where st3: "count_add st2 q 1 = Some st3" "shape st3 q ps' (of_nat (length ps) + 1)" "touches q {} st2 st3"
    using count_add_shape [OF st2(1)] by blast
  have t: "touches q (insert p (set ps)) st1 st3" using touches_trans [OF st2(2) st3(3)] by simp
  have "queue_rep st3 q ps'" using st3(2) len(1) by (simp add: queue_rep_def add.commute)
  then have "represents st3 (A(q \<mapsto> ps'))"
    using represents_update [OF st1(2) rep(2) _ touches_keeps [OF t]] p(3) len(2) by auto
  then show ?thesis using st2(3) st3(1) touches_data [OF t] st1(4) by simp
qed

lemma sorted_insert_refused:
  assumes rep: "represents st A" "A q = Some ps" and p: "qs_nodes st p = Some n" "p \<noteq> NULL" "unowned A p"
    and cmp: "\<forall>x \<in> set ps. queue_cmp_nodes compare order p x \<in> {QUEUE_EQUAL, QUEUE_LESSER, QUEUE_GREATER}"
    and place: "sorted_place (queue_cmp_nodes compare order p) (uniqueness = QUEUE_UNIQUE) p ps = Inl err"
  shows "\<exists>st'. embedded_enqueue_sorted compare st q p uniqueness order = Some (err, st') \<and>
    represents st' A \<and> node_data (qs_nodes st') = node_data (qs_nodes st)"
proof -
  note shp = representsD_shape [OF rep]
  have q: "q \<noteq> NULL" and out: "p \<notin> set ps" and ne: "ps \<noteq> []" using shp p(3) rep(2) place by (auto simp: shape_def unowned_def)
  obtain st1 where st1: "clear_links st p = Some st1" "represents st1 A" "loose st1 p"
    "node_data (qs_nodes st1) = node_data (qs_nodes st)"
    using clear_unowned [OF rep(1) p] by blast
  note shp1 = representsD_shape [OF st1(2) rep(2)]
  have "sorted_loop compare order st1 q p uniqueness (hdp ps NULL) = Some (Inl err)"
    using sorted_loop_spec [of st1 q "[]" ps _ p compare order uniqueness] shp1 st1(3) out ne cmp place by auto
  moreover have "hdp ps NULL \<noteq> NULL" using ne hdp_eq_iff [of "qs_nodes st" NULL ps NULL] shp by (simp add: shape_def)
  ultimately have "embedded_enqueue_sorted compare st q p uniqueness order = Some (err, st1)"
    using q p(2) st1(1) out
    by (simp add: embedded_enqueue_sorted_def shape_locked [OF shp] is_duplicate_spec [OF shp1])
  then show ?thesis using st1 by blast
qed

text \<open>C11: The sorted insertion keeps the queue sorted, in either order and with or without duplicates.  With a callback that compares keys, a node that is on no queue and is inserted into an
  ordered queue is refused with \<^verbatim>\<open>-EEXIST\<close> exactly when \<^verbatim>\<open>QUEUE_UNIQUE\<close> is asked for and its key is there, and then all queues are as before; otherwise the call succeeds and the queue is ordered and has
  exactly this node more.  No data and no other queue changes.\<close>

theorem embedded_enqueue_sorted_keeps_order:
  assumes "represents st A" "A q = Some ps" "qs_nodes st p = Some n" "p \<noteq> NULL" "unowned A p"
    and "sorted_wrt (precedes order k) ps"
  shows "\<exists>st' ps'. embedded_enqueue_sorted (Some (key_compare k)) st q p uniqueness order =
      Some (if uniqueness = QUEUE_UNIQUE \<and> k p \<in> k ` set ps then - EEXIST else 0, st') \<and>
    represents st' (A(q \<mapsto> ps')) \<and> sorted_wrt (precedes order k) ps' \<and>
    mset ps' = (if uniqueness = QUEUE_UNIQUE \<and> k p \<in> k ` set ps then mset ps else add_mset p (mset ps)) \<and>
    node_data (qs_nodes st') = node_data (qs_nodes st)"
proof -
  let ?u = "uniqueness = QUEUE_UNIQUE" and ?cmp = "queue_cmp_nodes (Some (key_compare k)) order p"
  have "x \<noteq> NULL" if "x \<in> set ps" for x
    using shape_loaded [OF representsD_shape [OF assms(1,2)]] that by blast
  then have cmp: "?cmp x = placed order k p x" if "x \<in> set ps" for x
    using that assms(4) by (simp add: queue_cmp_key)
  have same: "sorted_place f u p xs = sorted_place g u p xs" if "\<forall>x \<in> set xs. f x = g x" for f g u xs
    using that by (induction xs) auto
  have eq: "sorted_place ?cmp ?u p ps = sorted_place (placed order k p) ?u p ps" by (rule same) (simp add: cmp)
  have ok: "\<forall>x \<in> set ps. ?cmp x \<in> {QUEUE_EQUAL, QUEUE_LESSER, QUEUE_GREATER}" using cmp by (auto simp: placed_def)
  note ref = sorted_place_refused [OF assms(6), of ?u p, folded eq]
  show ?thesis
  proof (cases "?u \<and> k p \<in> k ` set ps")
    case True
    then have "sorted_place ?cmp ?u p ps = Inl (- EEXIST)" using ref by simp
    from sorted_insert_refused [OF assms(1-5) ok this] show ?thesis using True assms(2,6) by (auto intro!: exI [of _ ps] simp: fun_upd_idem)
  next
    case False
    then obtain ps' where ps': "sorted_place ?cmp ?u p ps = Inr ps'" using ref by auto
    from sorted_insert_represents [OF assms(1-5) ok this] show ?thesis
      using False sorted_place_sorted [OF assms(6) ps' [unfolded eq]] sorted_place_mset [OF ps'] by auto
  qed
qed

lemma find_loop_first:
  assumes "dll h b as p" "h p = Some n" "p \<noteq> NULL" "P p n"
    and "\<forall>x \<in> set as. \<not> P x (the (h x))"
  shows "find_loop P h (hdp as p) = Some (Some p)"
  using assms
proof (induction as arbitrary: b)
  case Nil
  then show ?case by (subst find_loop.simps) simp
next
  case (Cons x xs)
  then obtain m where m: "h x = Some m" "x \<noteq> NULL" "qn_next m = hdp xs p" "dll h x xs p" by auto
  have "find_loop P h (hdp xs p) = Some (Some p)" using Cons.IH [OF m(4)] Cons.prems by simp
  with m Cons.prems(5) show ?case by (subst find_loop.simps) simp
qed

text \<open>\<^verbatim>\<open>embedded_enqueue_sorted\<close> clears the links of its node before it looks whether the node is
  on the queue already.  Asked to insert uniquely a node that is on the queue, it answers
  \<^verbatim>\<open>-EEXIST\<close> and leaves a broken queue behind: the node's forward link is null, so every node
  after it is cut off.\<close>

theorem embedded_enqueue_sorted_cuts:
  assumes "represents st A" "A q = Some (as @ p # b # bs)"
  shows "\<exists>st' n. embedded_enqueue_sorted compare st q p QUEUE_UNIQUE order = Some (- EEXIST, st') \<and>
    qs_nodes st' p = Some n \<and> qn_next n = NULL \<and> \<not> queue_rep st' q (as @ p # b # bs)"
proof -
  note shp = representsD_shape [OF assms]
  have q: "q \<noteq> NULL" and d: "distinct (as @ p # b # bs)" and c: "dll (qs_nodes st) NULL as p"
    using shp by (auto simp: shape_def)
  obtain n where n: "qs_nodes st p = Some n" "p \<noteq> NULL" using unlink_shape(3) [OF shp] by blast
  obtain st1 where st1: "clear_links st p = Some st1" "touches q {p} st st1" "qs_queues st1 = qs_queues st"
    "qs_nodes st1 p = Some (n\<lparr>qn_prev := NULL, qn_next := NULL\<rparr>)"
    using clear_links_node [OF n(2,1)] by blast
  have c1: "dll (qs_nodes st1) NULL as p"
    using links_only_dll [of "{p}"] st1(2) c d by (auto simp: touches_def)
  have "find_loop (\<lambda>x _. p = x) (qs_nodes st1) (hdp as p) = Some (Some p)"
    using d by (intro find_loop_first [OF c1 st1(4) n(2)]) auto
  then have dup: "is_duplicate st1 q p QUEUE_UNIQUE = Some True"
    using q n(2) st1(3) shp
    by (simp add: is_duplicate_def embedded_queue_contains_def queue_assert_locked_def shape_def)
  have "hdp as p \<noteq> NULL" using c n(2) by (cases as) auto
  then have "embedded_enqueue_sorted compare st q p QUEUE_UNIQUE order = Some (- EEXIST, st1)"
    using q n(2) st1(1) dup by (simp add: embedded_enqueue_sorted_def shape_locked [OF shp])
  moreover have "\<not> queue_rep st1 q (as @ p # b # bs)"
    using st1(4) shp by (auto simp: queue_rep_def shape_def)
  ultimately show ?thesis using st1(4) by auto
qed

text \<open>\<^verbatim>\<open>embedded_enqueue_after\<close> does not redirect the back link of the node that follows the
  insertion point: inserting after an inner node succeeds but leaves a chain whose back links
  skip the new node.\<close>

theorem embedded_enqueue_after_breaks_back_link:
  assumes "represents st A" "A q = Some (as @ a # b # bs)"
    and "qs_nodes st p = Some n" "p \<noteq> NULL" "unowned A p"
  shows "\<exists>st' m. embedded_enqueue_after st q p a QUEUE_UNIQUE = Some (0, st') \<and>
    qs_nodes st' b = Some m \<and> qn_prev m = a \<and> \<not> queue_rep st' q (as @ a # p # b # bs)"
proof -
  note shp = representsD_shape [OF assms(1,2)]
  let ?h = "qs_nodes st"
  have q: "q \<noteq> NULL" and d: "distinct (as @ a # b # bs)" using shp by (auto simp: shape_def)
  have "p \<notin> set (as @ a # b # bs)" using assms(2,5) unfolding unowned_def by blast
  then have out: "p \<noteq> a" "p \<noteq> b" "p \<notin> set (as @ a # b # bs)" by auto
  obtain an bn where an: "?h a = Some an" "a \<noteq> NULL" "qn_next an = b" "?h b = Some bn" "qn_prev bn = a"
    using shp by (auto simp: shape_def)
  have ab: "a \<noteq> b" using d by auto
  obtain h where h: "set_prev ?h p a = Some (?h(p \<mapsto> n\<lparr>qn_prev := a\<rparr>))"
    "set_next (?h(p \<mapsto> n\<lparr>qn_prev := a\<rparr>)) p b = Some (?h(p \<mapsto> n\<lparr>qn_prev := a, qn_next := b\<rparr>))"
    "set_next (?h(p \<mapsto> n\<lparr>qn_prev := a, qn_next := b\<rparr>)) a p = Some h" "h b = Some bn"
    using assms(3,4) an out ab by (auto simp: set_prev_def set_next_def)
  have "\<exists>st'. embedded_enqueue_after st q p a QUEUE_UNIQUE = Some (0, st') \<and> qs_nodes st' = h"
    using q assms(4) out an h
    by (simp add: embedded_enqueue_after_def shape_locked [OF shp] is_duplicate_spec [OF shp] count_add_def)
  moreover have "\<not> queue_rep st' q (as @ a # p # b # bs)" if "qs_nodes st' = h" for st'
    using that h(4) an(5) out by (auto simp: queue_rep_def shape_def)
  ultimately show ?thesis using h(4) an(5) by blast
qed

text \<open>\<^verbatim>\<open>embedded_enqueue_before\<close> has the mirror-image defect: the forward link of the node
  before the insertion point is not redirected, so the inserted node is never reached from the
  head although it is counted.\<close>

theorem embedded_enqueue_before_loses_node:
  assumes "represents st A" "A q = Some (as @ a # b # bs)"
    and "qs_nodes st p = Some n" "p \<noteq> NULL" "unowned A p"
  shows "\<exists>st' m. embedded_enqueue_before st q p b QUEUE_UNIQUE = Some (0, st') \<and>
    qs_nodes st' a = Some m \<and> qn_next m = b \<and> \<not> queue_rep st' q (as @ a # p # b # bs)"
proof -
  note shp = representsD_shape [OF assms(1,2)]
  let ?h = "qs_nodes st"
  have q: "q \<noteq> NULL" and d: "distinct (as @ a # b # bs)" using shp by (auto simp: shape_def)
  have "p \<notin> set (as @ a # b # bs)" using assms(2,5) unfolding unowned_def by blast
  then have out: "p \<noteq> a" "p \<noteq> b" "p \<notin> set (as @ a # b # bs)" by auto
  obtain an bn where an: "?h a = Some an" "qn_next an = b" "?h b = Some bn" "b \<noteq> NULL" "qn_prev bn = a"
    using shp by (auto simp: shape_def)
  have ab: "a \<noteq> b" using d by auto
  obtain h where h: "set_next ?h p b = Some (?h(p \<mapsto> n\<lparr>qn_next := b\<rparr>))"
    "set_prev (?h(p \<mapsto> n\<lparr>qn_next := b\<rparr>)) p a = Some (?h(p \<mapsto> n\<lparr>qn_next := b, qn_prev := a\<rparr>))"
    "set_prev (?h(p \<mapsto> n\<lparr>qn_next := b, qn_prev := a\<rparr>)) b p = Some h" "h a = Some an"
    using assms(3,4) an out ab by (auto simp: set_prev_def set_next_def)
  have "\<exists>st'. embedded_enqueue_before st q p b QUEUE_UNIQUE = Some (0, st') \<and> qs_nodes st' = h"
    using q assms(4) out an h
    by (simp add: embedded_enqueue_before_def shape_locked [OF shp] is_duplicate_spec [OF shp] count_add_def)
  moreover have "\<not> queue_rep st' q (as @ a # p # b # bs)" if "qs_nodes st' = h" for st'
    using that h(4) an(2) out by (auto simp: queue_rep_def shape_def)
  ultimately show ?thesis using h(4) an(2) by blast
qed

section \<open>The theorems at a concrete state\<close>

text \<open>The sample queues of \<^verbatim>\<open>Queue\<close> with a further node, 64, that is on no queue.\<close>

definition sample_embedded :: qstate where
  "sample_embedded = sample_queues\<lparr>qs_nodes := (qs_nodes sample_queues)
     (64 \<mapsto> \<lparr>qn_prev = 5, qn_data = 1, qn_next = 6\<rparr>)\<rparr>"

lemma sample_embedded_represents [simp]: "represents sample_embedded sample_abs"
  by (auto simp: represents_def queue_rep_def shape_def sample_embedded_def sample_queues_def
      sample_abs_def split: if_splits)

lemma sample_embedded_free [simp]:
  "qs_nodes sample_embedded 64 = Some \<lparr>qn_prev = 5, qn_data = 1, qn_next = 6\<rparr>" "unowned sample_abs 64"
  by (auto simp: sample_embedded_def unowned_def sample_abs_def split: if_splits)

theorem embedded_enqueue_places_witness:
  "\<exists>st'. embedded_enqueue_whence sample_embedded 1 64 QUEUE_UNIQUE QUEUE_HEAD = Some (0, st') \<and>
     represents st' (sample_abs(1 \<mapsto> [64, 16, 32]))"
  using embedded_enqueue_places [of sample_embedded sample_abs 1 "[16, 32]" 64 _ QUEUE_HEAD QUEUE_UNIQUE]
  by auto

theorem embedded_dequeue_ends_witness:
  "\<exists>st'. embedded_dequeue sample_embedded 1 True = Some (0, Some 16, st') \<and>
     represents st' (sample_abs(1 \<mapsto> [32]))"
  using embedded_dequeue_ends [of sample_embedded sample_abs 1 "[16, 32]"] by auto

theorem embedded_queue_relloc_moves_witness:
  "\<exists>st'. embedded_queue_relloc sample_embedded 2 1 16 QUEUE_UNIQUE QUEUE_TAIL = Some (0, st') \<and>
     represents st' (sample_abs(1 \<mapsto> [32], 2 \<mapsto> [48, 16]))"
  using embedded_queue_relloc_moves [of sample_embedded sample_abs 1 "[]" 16 "[32]" 2 "[48]" QUEUE_TAIL QUEUE_UNIQUE]
  by auto

theorem embedded_queue_flush_empties_witness:
  "\<exists>st'. embedded_queue_flush sample_embedded 1 = Some st' \<and> represents st' (sample_abs(1 \<mapsto> [])) \<and> loose st' 32"
  using embedded_queue_flush_empties [of sample_embedded sample_abs 1 "[16, 32]"] by auto

theorem embedded_queue_migrate_same_witness:
  "embedded_queue_migrate sample_embedded 2 1 0 2 QUEUE_HEAD = queue_node_migrate sample_embedded 2 1 0 2 QUEUE_HEAD"
  using embedded_queue_migrate_same [of sample_embedded sample_abs 1 "[16, 32]" 2 "[48]" 0 2 QUEUE_HEAD] by auto

theorem embedded_queue_replace_exact_witness:
  "\<exists>st'. embedded_queue_replace sample_embedded 1 32 64 = Some (0, st') \<and>
     represents st' (sample_abs(1 \<mapsto> [16, 64]))"
  using embedded_queue_replace_exact [of sample_embedded sample_abs 1 "[16]" 32 "[]" 64] by auto

theorem embedded_enqueue_sorted_keeps_order_witness:
  "\<exists>st' ps'. embedded_enqueue_sorted (Some (key_compare id)) sample_embedded 1 64 QUEUE_UNIQUE QUEUE_ASCENDING = Some (0, st') \<and>
     represents st' (sample_abs(1 \<mapsto> ps')) \<and> mset ps' = {#64, 16, 32#}"
  using embedded_enqueue_sorted_keeps_order [of sample_embedded sample_abs 1 "[16, 32]" 64 _ QUEUE_ASCENDING id QUEUE_UNIQUE]
  by (auto simp: word_le_nat_alt precedes_def)

theorem embedded_enqueue_sorted_cuts_witness:
  "\<exists>st'. embedded_enqueue_sorted None sample_embedded 1 16 QUEUE_UNIQUE QUEUE_ASCENDING = Some (- EEXIST, st') \<and>
     \<not> queue_rep st' 1 [16, 32]"
  using embedded_enqueue_sorted_cuts [of sample_embedded sample_abs 1 "[]" 16 32 "[]"] by auto

theorem embedded_enqueue_after_breaks_back_link_witness:
  "\<exists>st'. embedded_enqueue_after sample_embedded 1 64 16 QUEUE_UNIQUE = Some (0, st') \<and>
     \<not> queue_rep st' 1 [16, 64, 32]"
  using embedded_enqueue_after_breaks_back_link [of sample_embedded sample_abs 1 "[]" 16 32 "[]" 64] by auto

theorem embedded_enqueue_before_loses_node_witness:
  "\<exists>st'. embedded_enqueue_before sample_embedded 1 64 32 QUEUE_UNIQUE = Some (0, st') \<and>
     \<not> queue_rep st' 1 [16, 64, 32]"
  using embedded_enqueue_before_loses_node [of sample_embedded sample_abs 1 "[]" 16 32 "[]" 64] by auto

end
