(* ===== verification/Thread.thy ===== *)
theory Thread
  imports Embedded_Sorted Sigset
begin

text \<open>
  The state that threads, the scheduler and signals share: \<^verbatim>\<open>thread_t\<close> of \<^verbatim>\<open>include/sys/thread.h\<close>, the run queues of
  \<^verbatim>\<open>include/sys/schedule.h\<close> and the wait queues, with the small operations of \<^verbatim>\<open>sys/thread/thread.c\<close>.

  Threads are named by their addresses.  Their queues are embedded queues; here a queue is the list of threads on it, and
  \<open>q_enqueue\<close> and \<open>q_detach\<close> are the two operations the scheduler uses.  That the pointer manipulations of
  \<^verbatim>\<open>ds/queue/embedded.c\<close> implement these lists is shown at the end of this theory.  Everything between the locking of
  a queue or a thread and its unlocking is one step, so the locks themselves do not appear.
\<close>

section \<open>Threads\<close>

datatype tstate = T_EMBRYO | T_READY | T_RUNNING | T_SLEEP | T_STOPPED | T_ZOMBIE | T_TERMINATED

datatype wakeup = WAKEUP_NONE | WAKEUP_NORMAL | WAKEUP_SIGNAL | WAKEUP_TIMEOUT | WAKEUP_ERROR

record thread_sched =
  ts_timeslice :: u64
  ts_age :: int
  ts_flags :: u32
  ts_short_holds :: u64
  ts_long_holds :: u64
  ts_priority :: int
  ts_proc :: nat
  ts_hard_affinity :: bool
  ts_cpu_set :: u32

record siginfo =
  si_signo :: int
  si_pid :: int
  si_value :: u64

record sigaction =
  sa_handler :: addr
  sa_flags :: u32
  sa_mask :: sigset

text \<open>The queues and actions of a signal descriptor and of a thread are indexed by the number of the signal, from 1 to 32.\<close>

record signal_desc =
  sig_mask :: sigset
  sigpending :: sigset
  sig_queue :: "int \<Rightarrow> addr list"
  sig_action :: "int \<Rightarrow> sigaction"

record thread =
  ti_tid :: int
  ti_ktid :: int
  ti_state :: tstate
  ti_sched :: thread_sched
  ti_flags :: u64
  t_wakeup :: wakeup
  t_wait_queue :: addr
  t_group :: addr
  t_signals :: addr
  t_sigmask :: sigset
  t_sigpending :: sigset
  t_sigqueue :: "int \<Rightarrow> addr list"
  t_nsig_nested :: int
  t_uc_sigmask :: "sigset option"
  t_event :: addr

abbreviation (input) OsThreadCanceled :: u64 where "OsThreadCanceled \<equiv> 4"

abbreviation (input) MLFQ_HIGH :: int where "MLFQ_HIGH \<equiv> 3"
abbreviation (input) MLFQ_LOW :: int where "MLFQ_LOW \<equiv> 0"
abbreviation (input) ESRCH :: int where "ESRCH \<equiv> 3"
abbreviation (input) EINTR :: int where "EINTR \<equiv> 4"
abbreviation (input) EDEADLK :: int where "EDEADLK \<equiv> 35"
abbreviation (input) ETIMEDOUT :: int where "ETIMEDOUT \<equiv> 110"

text \<open>
  \<open>run_qs c l\<close> is the run queue of core \<open>c\<close> at level \<open>l\<close>, \<open>wait_qs q\<close> the wait queue at address \<open>q\<close> and \<open>group_qs g\<close> the thread group at
  address \<open>g\<close>; \<open>quantum\<close> holds the time slice of each level and \<open>ncpu\<close> is the number of cores.  \<open>descs\<close> are the signal descriptors of processes,
  \<open>infos\<close> the allocated signal records and \<open>cond_count\<close> the counters of condition variables.
\<close>

record kstate =
  threads :: "addr \<Rightarrow> thread"
  run_qs :: "nat \<Rightarrow> int \<Rightarrow> addr list"
  wait_qs :: "addr \<Rightarrow> addr list"
  group_qs :: "addr \<Rightarrow> addr list"
  quantum :: "nat \<Rightarrow> int \<Rightarrow> u64"
  ncpu :: nat
  descs :: "addr \<Rightarrow> signal_desc"
  infos :: "addr \<Rightarrow> siginfo option"
  cond_count :: "addr \<Rightarrow> u64"

definition set_thread :: "addr \<Rightarrow> (thread \<Rightarrow> thread) \<Rightarrow> kstate \<Rightarrow> kstate" where
  "set_thread t f s = s\<lparr>threads := (threads s)(t := f (threads s t))\<rparr>"

definition thread_enter_state :: "addr \<Rightarrow> tstate \<Rightarrow> kstate \<Rightarrow> kstate" where
  "thread_enter_state t st s = set_thread t (\<lambda>r. r\<lparr>ti_state := st\<rparr>) s"

definition thread_get_state :: "kstate \<Rightarrow> addr \<Rightarrow> tstate" where
  "thread_get_state s t = ti_state (threads s t)"

definition thread_in_state :: "kstate \<Rightarrow> addr \<Rightarrow> tstate \<Rightarrow> bool" where
  "thread_in_state s t st \<longleftrightarrow> thread_get_state s t = st"

definition thread_isblocked :: "kstate \<Rightarrow> addr \<Rightarrow> bool" where
  "thread_isblocked s t \<longleftrightarrow> thread_in_state s t T_SLEEP \<or> thread_in_state s t T_STOPPED"

definition thread_set_flags :: "addr \<Rightarrow> u64 \<Rightarrow> kstate \<Rightarrow> kstate" where
  "thread_set_flags t f s = set_thread t (\<lambda>r. r\<lparr>ti_flags := ti_flags r OR f\<rparr>) s"

definition thread_unset_flags :: "addr \<Rightarrow> u64 \<Rightarrow> kstate \<Rightarrow> kstate" where
  "thread_unset_flags t f s = set_thread t (\<lambda>r. r\<lparr>ti_flags := ti_flags r AND NOT f\<rparr>) s"

definition thread_test_flags :: "kstate \<Rightarrow> addr \<Rightarrow> u64 \<Rightarrow> bool" where
  "thread_test_flags s t f \<longleftrightarrow> ti_flags (threads s t) AND f \<noteq> 0"

definition thread_is_canceled :: "kstate \<Rightarrow> addr \<Rightarrow> bool" where
  "thread_is_canceled s t = thread_test_flags s t OsThreadCanceled"

definition thread_gettid :: "kstate \<Rightarrow> addr \<Rightarrow> int" where
  "thread_gettid s t = (if t \<noteq> NULL then ti_tid (threads s t) else 0)"

definition set_sched :: "addr \<Rightarrow> (thread_sched \<Rightarrow> thread_sched) \<Rightarrow> kstate \<Rightarrow> kstate" where
  "set_sched t f s = set_thread t (\<lambda>r. r\<lparr>ti_sched := f (ti_sched r)\<rparr>) s"

definition thread_get_prio :: "kstate \<Rightarrow> addr \<Rightarrow> int" where
  "thread_get_prio s t = (if t = NULL then - EINVAL else ts_priority (ti_sched (threads s t)))"

definition thread_set_prio :: "addr \<Rightarrow> int \<Rightarrow> kstate \<Rightarrow> int \<times> kstate" where
  "thread_set_prio t prio s =
    (if t = NULL \<or> prio < MLFQ_LOW \<or> prio > MLFQ_HIGH then (- EINVAL, s)
     else (0, set_sched t (\<lambda>r. r\<lparr>ts_priority := prio\<rparr>) s))"

abbreviation (input) THREAD_PRIO_INC :: int where "THREAD_PRIO_INC \<equiv> 0"
abbreviation (input) THREAD_PRIO_DEC :: int where "THREAD_PRIO_DEC \<equiv> 1"

text \<open>The old and the new priority are returned beside the error.\<close>

definition thread_bump_priority :: "addr \<Rightarrow> int \<Rightarrow> int \<Rightarrow> kstate \<Rightarrow> int \<times> int \<times> int \<times> kstate" where
  "thread_bump_priority t how by s =
    (if t = NULL then (- EINVAL, 0, 0, s)
     else
       let old = ts_priority (ti_sched (threads s t)) in
       if how = THREAD_PRIO_INC
       then (0, old, old + by, set_sched t (\<lambda>r. r\<lparr>ts_priority := old + by\<rparr>) s)
       else if how = THREAD_PRIO_DEC
       then (let new = (if old - by < 0 then 0 else old - by) in (0, old, new, set_sched t (\<lambda>r. r\<lparr>ts_priority := new\<rparr>) s))
       else (- EINVAL, old, 0, s))"

fun thread_queue_find_by_tid :: "kstate \<Rightarrow> addr list \<Rightarrow> int \<Rightarrow> int \<times> addr option" where
  "thread_queue_find_by_tid s [] tid = (- ESRCH, None)"
| "thread_queue_find_by_tid s (t # ts) tid =
    (if thread_gettid s t = tid then (0, Some t) else thread_queue_find_by_tid s ts tid)"

definition thread_group_get_by_tid :: "kstate \<Rightarrow> addr \<Rightarrow> int \<Rightarrow> int \<times> addr option" where
  "thread_group_get_by_tid s current tid = thread_queue_find_by_tid s (group_qs s (t_group (threads s current))) tid"

section \<open>Queues of threads\<close>

text \<open>
  \<^verbatim>\<open>embedded_enqueue_whence\<close> with \<^verbatim>\<open>QUEUE_UNIQUE\<close>, and \<^verbatim>\<open>embedded_queue_detach\<close>.  Detaching a node that is not on the queue would
  corrupt the links of another queue: this has no result.
\<close>

definition q_enqueue :: "addr list \<Rightarrow> addr \<Rightarrow> queue_relloc_t \<Rightarrow> int \<times> addr list" where
  "q_enqueue ps t whence =
    (if whence \<noteq> QUEUE_HEAD \<and> whence \<noteq> QUEUE_TAIL then (- EINVAL, ps)
     else if t \<in> set ps then (- EEXIST, ps)
     else (0, if whence = QUEUE_HEAD then t # ps else ps @ [t]))"

definition q_detach :: "addr list \<Rightarrow> addr \<Rightarrow> addr list option" where
  "q_detach ps t = (if t \<in> set ps then Some (remove1 t ps) else None)"

text \<open>The list of threads is what the pointers implement.  When the embedded queue \<open>q\<close> holds the nodes \<open>ps\<close>,
  \<^verbatim>\<open>embedded_enqueue_whence\<close> with \<^verbatim>\<open>QUEUE_UNIQUE\<close> returns the error of \<open>q_enqueue\<close> and leaves its list, for a node on no other queue, and
  \<^verbatim>\<open>embedded_queue_detach\<close> of a node of the queue succeeds and leaves the list of \<open>q_detach\<close>; every other queue keeps its nodes.\<close>

theorem thread_queues_refine:
  assumes rep: "represents st A" "A q = Some ps" and p: "p \<noteq> NULL" "qs_nodes st p = Some n"
    and own: "p \<in> set ps \<or> unowned A p"
  shows "(\<exists>st'. embedded_enqueue_whence st q p QUEUE_UNIQUE whence = Some (fst (q_enqueue ps p whence), st') \<and>
      represents st' (A(q \<mapsto> snd (q_enqueue ps p whence)))) \<and>
    (\<forall>qs. q_detach ps p = Some qs \<longrightarrow>
      (\<exists>st'. embedded_queue_detach st q p = Some (0, st') \<and> represents st' (A(q \<mapsto> qs))))"
proof (intro conjI allI impI)
  note shp = representsD_shape [OF rep]
  have q: "q \<noteq> NULL" using shp by (simp add: shape_def)
  have A: "A(q \<mapsto> ps) = A" using rep(2) by auto
  show "\<exists>st'. embedded_enqueue_whence st q p QUEUE_UNIQUE whence = Some (fst (q_enqueue ps p whence), st') \<and>
      represents st' (A(q \<mapsto> snd (q_enqueue ps p whence)))"
  proof (cases "(whence = QUEUE_HEAD \<or> whence = QUEUE_TAIL) \<and> p \<notin> set ps")
    case True
    then have w: "whence = QUEUE_HEAD \<or> whence = QUEUE_TAIL" and "unowned A p" using own by auto
    then obtain st' where "embedded_enqueue_whence st q p QUEUE_UNIQUE whence = Some (0, st')"
      "represents st' (A(q \<mapsto> if whence = QUEUE_HEAD then p # ps else ps @ [p]))"
      using embedded_enqueue_whence_spec [OF rep p(2,1)] by blast
    then show ?thesis using True by (auto simp: q_enqueue_def)
  next
    case False
    then have "embedded_enqueue_whence st q p QUEUE_UNIQUE whence = Some (fst (q_enqueue ps p whence), st)
      \<and> snd (q_enqueue ps p whence) = ps"
      using q p(1) by (auto simp: embedded_enqueue_whence_def embedded_enqueue_def embedded_enqueue_head_def
          shape_locked [OF shp] is_duplicate_spec [OF shp] q_enqueue_def)
    then show ?thesis using rep(1) A by simp
  qed
next
  fix qs assume "q_detach ps p = Some qs"
  then have "p \<in> set ps" "qs = remove1 p ps" by (auto simp: q_detach_def split: if_splits)
  then obtain as bs where ps: "ps = as @ p # bs" "p \<notin> set as" by (auto dest: split_list_first)
  then have "qs = as @ bs" using \<open>qs = remove1 p ps\<close> by (simp add: remove1_append)
  then show "\<exists>st'. embedded_queue_detach st q p = Some (0, st') \<and> represents st' (A(q \<mapsto> qs))"
    using embedded_remove_spec [of st A q as p bs] rep ps(1) by blast
qed

theorem thread_queues_refine_witness:
  "\<exists>st'. embedded_enqueue_whence sample_embedded 1 64 QUEUE_UNIQUE QUEUE_TAIL = Some (0, st') \<and> represents st' (sample_abs(1 \<mapsto> [16, 32, 64]))"
  using thread_queues_refine [of sample_embedded sample_abs 1 "[16, 32]" 64 _ QUEUE_TAIL] by (auto simp: q_enqueue_def)

end
