(* ===== verification/Signal.thy ===== *)
theory Signal
  imports Thread
begin

text \<open>
  Signals: \<^verbatim>\<open>sys/signal/signal.c\<close>, \<^verbatim>\<open>dispatch.c\<close>, \<^verbatim>\<open>sigaction.c\<close>, \<^verbatim>\<open>sigpending.c\<close>, \<^verbatim>\<open>sigmask.c\<close> and the helpers of \<^verbatim>\<open>sigtimedwait.c\<close>.  Signal records are
  allocated objects; the queues of a thread and of a process hold their addresses.  Allocation success is an argument
  (\<open>mem\<close>, or the new address with null for failure).
\<close>

section \<open>Signal records and their queues\<close>

definition siginfo_free :: "addr \<Rightarrow> kstate \<Rightarrow> kstate option" where
  "siginfo_free p s = do { _ \<leftarrow> infos s p; Some (s\<lparr>infos := (infos s)(p := None)\<rparr>) }"

text \<open>\<^verbatim>\<open>siginfo_create\<close> allocates a record at \<open>p\<close> and initialises it; \<open>pid\<close> is the process of the caller.\<close>

definition siginfo_create :: "addr \<Rightarrow> int \<Rightarrow> int \<Rightarrow> u64 \<Rightarrow> kstate \<Rightarrow> int \<times> kstate" where
  "siginfo_create p pid signo val s =
    (if p = NULL then (- ENOMEM, s)
     else if SIGBAD signo then (- EINVAL, s)
     else (0, s\<lparr>infos := (infos s)(p \<mapsto> \<lparr>si_signo = signo, si_pid = pid, si_value = val\<rparr>)\<rparr>))"

text \<open>\<^verbatim>\<open>enqueue\<close> with \<^verbatim>\<open>QUEUE_UNIQUE\<close> and \<^verbatim>\<open>dequeue\<close> of \<^verbatim>\<open>ds/queue/queue.c\<close> on the list of data.\<close>

definition sigqueue_enqueue :: "bool \<Rightarrow> addr list \<Rightarrow> addr \<Rightarrow> int \<times> addr list" where
  "sigqueue_enqueue mem ps p =
    (if p = NULL then (- EINVAL, ps) else if p \<in> set ps then (- EEXIST, ps) else if \<not> mem then (- ENOMEM, ps) else (0, ps @ [p]))"

definition sigqueue_dequeue :: "addr list \<Rightarrow> int \<times> addr option \<times> addr list" where
  "sigqueue_dequeue ps = (case ps of [] \<Rightarrow> (- ENOENT, None, []) | p # qs \<Rightarrow> (0, Some p, qs))"

fun free_all :: "addr list \<Rightarrow> kstate \<Rightarrow> kstate option" where
  "free_all [] s = Some s"
| "free_all (p # ps) s = do { s \<leftarrow> siginfo_free p s; free_all ps s }"

definition set_desc :: "addr \<Rightarrow> (signal_desc \<Rightarrow> signal_desc) \<Rightarrow> kstate \<Rightarrow> kstate" where
  "set_desc a f s = s\<lparr>descs := (descs s)(a := f (descs s a))\<rparr>"

text \<open>\<^verbatim>\<open>sigqueue_flush\<close> of the queue of a process and of a thread: every record is removed and freed.\<close>

definition desc_flush :: "addr \<Rightarrow> int \<Rightarrow> kstate \<Rightarrow> kstate option" where
  "desc_flush a n s = do {
     s' \<leftarrow> free_all (sig_queue (descs s a) n) s;
     Some (set_desc a (\<lambda>d. d\<lparr>sig_queue := (sig_queue d)(n := [])\<rparr>) s') }"

definition thread_flush :: "addr \<Rightarrow> int \<Rightarrow> kstate \<Rightarrow> kstate option" where
  "thread_flush t n s = do {
     s' \<leftarrow> free_all (t_sigqueue (threads s t) n) s;
     Some (set_thread t (\<lambda>r. r\<lparr>t_sigqueue := (t_sigqueue r)(n := [])\<rparr>) s') }"

definition signal_enqueue :: "bool \<Rightarrow> addr \<Rightarrow> addr \<Rightarrow> kstate \<Rightarrow> (int \<times> kstate) option" where
  "signal_enqueue mem a p s =
    (if a = NULL \<or> p = NULL then Some (- EINVAL, s)
     else do {
       i \<leftarrow> infos s p;
       let n = si_signo i;
       if SIGBAD n then Some (- EINVAL, s)
       else do {
         let s = set_desc a (\<lambda>d. d\<lparr>sigpending := snd (sigsetadd (sigpending d) n)\<rparr>) s;
         case sigqueue_enqueue mem (sig_queue (descs s a) n) p of (err, ps) \<Rightarrow>
           if err \<noteq> 0
           then Some (err, if sig_queue (descs s a) n = [] then set_desc a (\<lambda>d. d\<lparr>sigpending := snd (sigsetdel (sigpending d) n)\<rparr>) s else s)
           else Some (0, set_desc a (\<lambda>d. d\<lparr>sig_queue := (sig_queue d)(n := ps)\<rparr>) s) } })"

definition signal_desc_send_signal :: "addr \<Rightarrow> int \<Rightarrow> bool \<Rightarrow> addr \<Rightarrow> int \<Rightarrow> u64 \<Rightarrow> kstate \<Rightarrow> (int \<times> kstate) option" where
  "signal_desc_send_signal p pid mem a signo val s =
    (if a = NULL \<or> SIGBAD signo then Some (- EINVAL, s)
     else case siginfo_create p pid signo val s of (err, s) \<Rightarrow>
       if err \<noteq> 0 then Some (err, s)
       else do {
         (err, s) \<leftarrow> signal_enqueue mem a p s;
         if err \<noteq> 0 then do { s \<leftarrow> siginfo_free p s; Some (err, s) } else Some (err, s) })"

section \<open>Taking a signal\<close>

text \<open>
  \<^verbatim>\<open>try_dequeue_signal\<close> looks at the pending set of the thread or of its process, takes the blocked signals out of a copy of it and
  dequeues a record of the lowest signal that remains.
\<close>

definition unblocked :: "sigset \<Rightarrow> sigset \<Rightarrow> sigset" where
  "unblocked pending blocked = fst (snd (sigmask (copy_sigmask sigsetempty pending) SIG_UNBLOCK (Some blocked)))"

definition try_dequeue_thread :: "addr \<Rightarrow> kstate \<Rightarrow> int \<times> (addr \<times> sigaction) option \<times> kstate" where
  "try_dequeue_thread t s =
    (let r = threads s t; n = sigset_first (unblocked (t_sigpending r) (t_sigmask r)) in
     if n = 0 then (- ENOENT, None, s)
     else case sigqueue_dequeue (t_sigqueue r n) of
       (err, None, qs) \<Rightarrow> (err, None, s)
     | (err, Some p, qs) \<Rightarrow>
         (0, Some (p, sig_action (descs s (t_signals r)) n),
          set_thread t (\<lambda>r. r\<lparr>t_sigqueue := (t_sigqueue r)(n := qs),
            t_sigpending := if qs = [] then snd (sigsetdel (t_sigpending r) n) else t_sigpending r\<rparr>) s))"

definition try_dequeue_proc :: "addr \<Rightarrow> kstate \<Rightarrow> int \<times> (addr \<times> sigaction) option \<times> kstate" where
  "try_dequeue_proc t s =
    (let r = threads s t; a = t_signals r; d = descs s a; n = sigset_first (unblocked (sigpending d) (t_sigmask r)) in
     if n = 0 then (- ENOENT, None, s)
     else case sigqueue_dequeue (sig_queue d n) of
       (err, None, qs) \<Rightarrow> (err, None, s)
     | (err, Some p, qs) \<Rightarrow>
         (0, Some (p, sig_action d n),
          set_desc a (\<lambda>d. d\<lparr>sig_queue := (sig_queue d)(n := qs),
            sigpending := if qs = [] then snd (sigsetdel (sigpending d) n) else sigpending d\<rparr>) s))"

datatype signal_target = signalTargetThread | signalTargetProcess

definition signal_dequeue :: "addr \<Rightarrow> kstate \<Rightarrow> int \<times> (addr \<times> sigaction \<times> signal_target) option \<times> kstate" where
  "signal_dequeue t s =
    (if t = NULL then (- EINVAL, None, s)
     else case try_dequeue_thread t s of
       (err, r, s1) \<Rightarrow>
         if err \<noteq> - ENOENT then (err, map_option (\<lambda>(p, act). (p, act, signalTargetThread)) r, s1)
         else case try_dequeue_proc t s1 of
           (err, r, s2) \<Rightarrow> (err, map_option (\<lambda>(p, act). (p, act, signalTargetProcess)) r, s2))"

section \<open>Actions and masks\<close>

abbreviation (input) SIG_DFL :: addr where "SIG_DFL \<equiv> 0"
abbreviation (input) SIG_IGN :: addr where "SIG_IGN \<equiv> 1"
abbreviation (input) SIG_IGNORE :: int where "SIG_IGNORE \<equiv> 1"
abbreviation (input) SIG_ABRT :: int where "SIG_ABRT \<equiv> 2"
abbreviation (input) SIG_TERM :: int where "SIG_TERM \<equiv> 3"
abbreviation (input) SIG_TERM_CORE :: int where "SIG_TERM_CORE \<equiv> 4"
abbreviation (input) SIG_STOP :: int where "SIG_STOP \<equiv> 5"
abbreviation (input) SIG_CONT :: int where "SIG_CONT \<equiv> 6"

definition sig_defaults :: "int list" where
  "sig_defaults =
    [SIG_TERM_CORE, SIG_TERM, SIG_TERM_CORE, SIG_IGNORE, SIG_IGNORE, SIG_CONT, SIG_TERM_CORE, SIG_TERM_CORE,
     SIG_TERM, SIG_TERM_CORE, SIG_TERM, SIG_TERM, SIG_TERM_CORE, SIG_TERM, SIG_TERM, SIG_TERM,
     SIG_TERM_CORE, SIG_TERM_CORE, SIG_STOP, SIG_TERM_CORE, SIG_TERM, SIG_TERM_CORE, SIG_STOP, SIG_STOP,
     SIG_STOP, SIG_IGNORE, SIG_TERM, SIG_TERM, SIG_TERM, SIG_IGNORE, SIG_TERM, SIG_TERM]"

definition sig_default_action :: "int \<Rightarrow> int" where
  "sig_default_action signo = sig_defaults ! nat (signo - 1)"

definition sig_handler_ignored :: "addr \<Rightarrow> int \<Rightarrow> bool" where
  "sig_handler_ignored handler signo \<longleftrightarrow> handler = SIG_IGN \<or> (handler = SIG_DFL \<and> sig_default_action signo = SIG_IGNORE)"

text \<open>The loop of \<^verbatim>\<open>do_sigaction\<close> over the threads of the group.\<close>

fun flush_group :: "int \<Rightarrow> addr list \<Rightarrow> kstate \<Rightarrow> kstate option" where
  "flush_group n [] s = Some s"
| "flush_group n (t # ts) s =
    (if sigismember (t_sigpending (threads s t)) n \<noteq> 0
     then do {
       s \<leftarrow> thread_flush t n s;
       flush_group n ts (set_thread t (\<lambda>r. r\<lparr>t_sigpending := snd (sigsetdel (t_sigpending r) n)\<rparr>) s) }
     else flush_group n ts s)"

definition do_sigaction :: "addr \<Rightarrow> int \<Rightarrow> sigaction option \<Rightarrow> kstate \<Rightarrow> (int \<times> sigaction option \<times> kstate) option" where
  "do_sigaction current signo act s =
    (if SIGBAD signo then Some (- EINVAL, None, s)
     else
       let a = t_signals (threads s current); old = sig_action (descs s a) signo in
       case act of
         None \<Rightarrow> Some (0, Some old, s)
       | Some new \<Rightarrow> do {
           let new = new\<lparr>sa_mask := sigsetdelmask (sa_mask new) (SIGMASK SIGKILL OR SIGMASK SIGSTOP)\<rparr>;
           let s = set_desc a (\<lambda>d. d\<lparr>sig_action := (sig_action d)(signo := new)\<rparr>) s;
           if sig_handler_ignored (sa_handler new) signo
           then do {
             s \<leftarrow> desc_flush a signo s;
             s \<leftarrow> flush_group signo (group_qs s (t_group (threads s current))) s;
             Some (0, Some old, s) }
           else Some (0, Some old, s) })"

definition sigaction :: "addr \<Rightarrow> int \<Rightarrow> sigaction option \<Rightarrow> kstate \<Rightarrow> (int \<times> sigaction option \<times> kstate) option" where
  "sigaction current signo act s = (if SIGBAD signo then Some (- EINVAL, None, s) else do_sigaction current signo act s)"

definition thread_sigmask :: "addr \<Rightarrow> int \<Rightarrow> sigset option \<Rightarrow> kstate \<Rightarrow> int \<times> sigset \<times> kstate" where
  "thread_sigmask t how m s =
    (if t = NULL then (- EINVAL, 0, s)
     else case sigmask (t_sigmask (threads s t)) how m of
       (err, new, old) \<Rightarrow> (err, old, set_thread t (\<lambda>r. r\<lparr>t_sigmask := new\<rparr>) s))"

definition sigprocmask :: "addr \<Rightarrow> int \<Rightarrow> sigset option \<Rightarrow> kstate \<Rightarrow> int \<times> sigset \<times> kstate" where
  "sigprocmask current how m s =
    (if current = NULL then (- EINVAL, 0, s)
     else case sigmask (sig_mask (descs s (t_signals (threads s current)))) how m of
       (err, new, old) \<Rightarrow> (err, old, set_desc (t_signals (threads s current)) (\<lambda>d. d\<lparr>sig_mask := new\<rparr>) s))"

definition thread_sigpending :: "addr \<Rightarrow> sigset \<Rightarrow> kstate \<Rightarrow> int \<times> sigset" where
  "thread_sigpending t set0 s =
    (let r = threads s t; d = descs s (t_signals r);
         found = filter (\<lambda>n. (sigismember (t_sigpending r) n \<noteq> 0 \<or> sigismember (sigpending d) n \<noteq> 0) \<and> sigismember (t_sigmask r) n \<noteq> 0) [1..32] in
     (if found \<noteq> [] then 0 else - 1, fold (\<lambda>n m. snd (sigsetadd m n)) found set0))"

section \<open>Delivery\<close>

text \<open>
  A handled signal either lets the interrupted code go on or ends the thread.  \<open>dispatch\<close> is the effect of running a handler
  (\<^verbatim>\<open>arch_signal_dispatch\<close>).
\<close>

datatype 'a outcome = Returns 'a | Exits u64

abbreviation (input) SA_NODEFER :: u32 where "SA_NODEFER \<equiv> 4"
abbreviation (input) ARCH_NSIG_NESTED :: int where "ARCH_NSIG_NESTED \<equiv> 8"

definition signal_mask_block :: "addr \<Rightarrow> int \<Rightarrow> sigaction \<Rightarrow> kstate \<Rightarrow> sigset \<times> kstate" where
  "signal_mask_block current signo act s =
    (let set1 = fst (snd (sigmask sigsetempty SIG_SETMASK (Some (sa_mask act))));
         set2 = (if sa_flags act AND SA_NODEFER = 0 then snd (sigsetadd set1 signo) else set1) in
     case sigmask (t_sigmask (threads s current)) SIG_BLOCK (Some set2) of
       (err, new, old) \<Rightarrow> (old, set_thread current (\<lambda>r. r\<lparr>t_sigmask := new\<rparr>) s))"

definition signal_mask_restore :: "addr \<Rightarrow> sigset \<Rightarrow> kstate \<Rightarrow> kstate" where
  "signal_mask_restore current oset s =
    (case sigmask (t_sigmask (threads s current)) SIG_SETMASK (Some oset) of
      (err, new, old) \<Rightarrow> set_thread current (\<lambda>r. r\<lparr>t_sigmask := new\<rparr>) s)"

definition do_terminate :: "addr \<Rightarrow> siginfo \<Rightarrow> signal_target \<Rightarrow> kstate \<Rightarrow> kstate outcome option" where
  "do_terminate p i target s = do {
     s \<leftarrow> siginfo_free p s;
     Some (if target = signalTargetThread then Exits (si_value i) else Returns s) }"

definition do_default_action :: "addr \<Rightarrow> siginfo \<Rightarrow> signal_target \<Rightarrow> kstate \<Rightarrow> kstate outcome option" where
  "do_default_action p i target s =
    (if sig_default_action (si_signo i) = SIG_ABRT then Some (Returns s)
     else if sig_default_action (si_signo i) = SIG_TERM then do_terminate p i target s
     else Some (Returns s))"

definition deliver :: "(sigaction \<Rightarrow> siginfo \<Rightarrow> kstate \<Rightarrow> kstate) \<Rightarrow> addr \<Rightarrow> addr \<Rightarrow> siginfo \<Rightarrow> sigaction \<Rightarrow> signal_target \<Rightarrow> kstate \<Rightarrow>
    kstate outcome option" where
  "deliver dispatch current p i act target s =
    (if sig_handler_ignored (sa_handler act) (si_signo i) then Some (Returns s)
     else if sa_handler act = SIG_DFL then do_default_action p i target s
     else Some (Returns
       (set_thread current (\<lambda>r. r\<lparr>t_nsig_nested := t_nsig_nested r - 1\<rparr>)
         (dispatch act i (set_thread current (\<lambda>r. r\<lparr>t_nsig_nested := t_nsig_nested r + 1\<rparr>) s)))))"

definition signal_check_pending :: "(sigaction \<Rightarrow> siginfo \<Rightarrow> kstate \<Rightarrow> kstate) \<Rightarrow> addr \<Rightarrow> kstate \<Rightarrow> (int \<times> kstate) outcome option" where
  "signal_check_pending dispatch current s =
    (if t_nsig_nested (threads s current) > ARCH_NSIG_NESTED then Some (Returns (- EINVAL, s))
     else case signal_dequeue current s of
       (err, None, s) \<Rightarrow> Some (Returns (- 1, s))
     | (err, Some (p, act, target), s) \<Rightarrow> do {
         i \<leftarrow> infos s p;
         case signal_mask_block current (si_signo i) act s of (oset, s) \<Rightarrow> do {
           let s = set_thread current (\<lambda>r. r\<lparr>t_uc_sigmask := map_option (\<lambda>m. fst (snd (sigmask m SIG_SETMASK (Some oset)))) (t_uc_sigmask r)\<rparr>) s;
           out \<leftarrow> deliver dispatch current p i act target s;
           case out of
             Exits v \<Rightarrow> Some (Exits v)
           | Returns s \<Rightarrow> do {
               s \<leftarrow> siginfo_free p (signal_mask_restore current oset s);
               Some (Returns (0, s)) } } })"

section \<open>Waiting for a signal without handling it\<close>

definition check_thread_signals :: "addr \<Rightarrow> sigset \<Rightarrow> kstate \<Rightarrow> int \<times> addr option \<times> kstate" where
  "check_thread_signals current pending s =
    (let r = threads s current; n = sigset_first (sigsettest pending (t_sigpending r)) in
     if n = 0 then (0, None, s)
     else case sigqueue_dequeue (t_sigqueue r n) of
       (err, None, qs) \<Rightarrow> (0, None, s)
     | (err, Some p, qs) \<Rightarrow>
         (n, Some p, set_thread current (\<lambda>r. r\<lparr>t_sigqueue := (t_sigqueue r)(n := qs),
            t_sigpending := if qs = [] then snd (sigsetdel (t_sigpending r) n) else t_sigpending r\<rparr>) s))"

definition check_process_signals :: "addr \<Rightarrow> sigset \<Rightarrow> kstate \<Rightarrow> int \<times> addr option \<times> kstate" where
  "check_process_signals current pending s =
    (let a = t_signals (threads s current); d = descs s a; n = sigset_first (sigsettest pending (sigpending d)) in
     if n = 0 then (0, None, s)
     else case sigqueue_dequeue (sig_queue d n) of
       (err, None, qs) \<Rightarrow> (0, None, s)
     | (err, Some p, qs) \<Rightarrow>
         (n, Some p, set_desc a (\<lambda>d. d\<lparr>sig_queue := (sig_queue d)(n := qs),
            sigpending := if qs = [] then snd (sigsetdel (sigpending d) n) else sigpending d\<rparr>) s))"

definition check_signals :: "addr \<Rightarrow> sigset \<Rightarrow> kstate \<Rightarrow> int \<times> addr option \<times> kstate" where
  "check_signals current pending s =
    (case check_thread_signals current pending s of
      (n, r, s) \<Rightarrow> if n \<noteq> 0 then (n, r, s) else check_process_signals current pending s)"

end
