(* ===== verification/Signal_Proofs.thy ===== *)
theory Signal_Proofs
  imports Signal
begin

text \<open>
  What signals guarantee: the lowest unblocked pending signal is taken, first from the thread and then from the process; and where the code loses signals or frees a record twice.
\<close>

section \<open>Masks\<close>

definition maskable :: "sigset \<Rightarrow> bool" where
  "maskable m \<longleftrightarrow> SIGKILL \<notin> members m \<and> SIGSTOP \<notin> members m"

lemma sigmask_maskable: "maskable m \<Longrightarrow> maskable (fst (snd (sigmask m how p)))"
  by (auto simp: sigmask_def do_sigmask_def maskable_def split: option.splits)

lemma sigmask_old: "snd (snd (sigmask m how p)) = m"
  by (auto simp: sigmask_def split: option.splits prod.splits)

lemma members_unblocked: "maskable b \<Longrightarrow> members (unblocked p b) = members p - members b"
  by (simp add: unblocked_def copy_sigmask_def sigmask_def do_sigmask_def maskable_def)

lemma free_all_frame: "free_all ps s = Some s' \<Longrightarrow> descs s' = descs s \<and> threads s' = threads s \<and> group_qs s' = group_qs s"
  by (induction ps arbitrary: s) (fastforce simp: siginfo_free_def bind_eq_Some_conv)+

lemma thread_flush_frame: "thread_flush t n s = Some s' \<Longrightarrow> descs s' = descs s"
  by (auto simp: thread_flush_def bind_eq_Some_conv set_thread_def dest: free_all_frame)

lemma flush_group_frame: "flush_group n ts s = Some s' \<Longrightarrow> descs s' = descs s"
proof (induction ts arbitrary: s)
  case (Cons t ts)
  then show ?case by (force simp: bind_eq_Some_conv set_thread_def dest!: thread_flush_frame split: if_splits)
qed simp

lemma desc_flush_desc:
  "desc_flush a n s = Some s' \<Longrightarrow> descs s' = (descs s)(a := (descs s a)\<lparr>sig_queue := (sig_queue (descs s a))(n := [])\<rparr>)"
  by (auto simp: desc_flush_def bind_eq_Some_conv set_desc_def dest!: free_all_frame)

lemma do_sigaction_action:
  assumes "do_sigaction t n (Some act) s = Some (0, old, s')"
  shows "sig_action (descs s' (t_signals (threads s t))) n =
    act\<lparr>sa_mask := sigsetdelmask (sa_mask act) (SIGMASK SIGKILL OR SIGMASK SIGSTOP)\<rparr>"
  using assms
  by (auto simp: do_sigaction_def Let_def bind_eq_Some_conv set_desc_def split: if_splits
      dest!: flush_group_frame desc_flush_desc)

section \<open>Taking signals\<close>

text \<open>A pending bit is set exactly when a record of that signal is queued.\<close>

definition pend_ok :: "sigset \<Rightarrow> (int \<Rightarrow> addr list) \<Rightarrow> bool" where
  "pend_ok pending qs \<longleftrightarrow> (\<forall>n. \<not> SIGBAD n \<longrightarrow> (n \<in> members pending \<longleftrightarrow> qs n \<noteq> []))"

abbreviation desc_of :: "kstate \<Rightarrow> addr \<Rightarrow> signal_desc" where
  "desc_of s t \<equiv> descs s (t_signals (threads s t))"

definition sig_ok :: "kstate \<Rightarrow> addr \<Rightarrow> bool" where
  "sig_ok s t \<longleftrightarrow> t \<noteq> NULL \<and> maskable (t_sigmask (threads s t)) \<and> pend_ok (t_sigpending (threads s t)) (t_sigqueue (threads s t))
    \<and> pend_ok (sigpending (desc_of s t)) (sig_queue (desc_of s t))"

text \<open>The signals of the thread, or of its process, that may be delivered.\<close>

definition own_signals :: "kstate \<Rightarrow> addr \<Rightarrow> int set" where
  "own_signals s t = members (t_sigpending (threads s t)) - members (t_sigmask (threads s t))"

definition proc_signals :: "kstate \<Rightarrow> addr \<Rightarrow> int set" where
  "proc_signals s t = members (sigpending (desc_of s t)) - members (t_sigmask (threads s t))"

lemma first_unblocked:
  assumes "maskable b"
  shows "if members p - members b = {} then sigset_first (unblocked p b) = 0
    else sigset_first (unblocked p b) \<in> members p - members b \<and> (\<forall>n \<in> members p - members b. sigset_first (unblocked p b) \<le> n)"
  using sigset_first_least [of "unblocked p b"] members_unblocked [OF assms, of p] by (auto split: if_splits)

lemma pend_ok_take:
  assumes "pend_ok p qs" "\<not> SIGBAD n" "n \<in> members p"
  shows "pend_ok (if rest = [] then snd (sigsetdel p n) else p) (qs(n := rest))"
  using assms by (auto simp: pend_ok_def sigsetdel_def)

lemma SIGBAD_0 [simp]: "SIGBAD 0"
  by (simp add: SIGBAD_def)

lemma try_dequeue_thread_spec:
  assumes "sig_ok s t"
  shows "if own_signals s t = {} then try_dequeue_thread t s = (- ENOENT, None, s)
    else \<exists>n p qs. n \<in> own_signals s t \<and> (\<forall>m \<in> own_signals s t. n \<le> m) \<and> t_sigqueue (threads s t) n = p # qs \<and>
      try_dequeue_thread t s = (0, Some (p, sig_action (desc_of s t) n),
        set_thread t (\<lambda>r. r\<lparr>t_sigqueue := (t_sigqueue r)(n := qs),
          t_sigpending := if qs = [] then snd (sigsetdel (t_sigpending r) n) else t_sigpending r\<rparr>) s)"
proof -
  let ?r = "threads s t"
  let ?n = "sigset_first (unblocked (t_sigpending ?r) (t_sigmask ?r))"
  have m: "maskable (t_sigmask ?r)" and pk: "pend_ok (t_sigpending ?r) (t_sigqueue ?r)" using assms by (simp_all add: sig_ok_def)
  note first = first_unblocked [OF m, of "t_sigpending ?r", folded own_signals_def]
  show ?thesis
  proof (cases "own_signals s t = {}")
    case True
    then show ?thesis using first by (simp add: try_dequeue_thread_def own_signals_def)
  next
    case False
    then have n: "?n \<in> own_signals s t" "\<forall>m \<in> own_signals s t. ?n \<le> m" using first by simp_all
    then have "?n \<in> members (t_sigpending ?r)" "\<not> SIGBAD ?n" by (auto simp: own_signals_def dest: members_bounds)
    then obtain p qs where q: "t_sigqueue ?r ?n = p # qs" "?n \<noteq> 0" using pk unfolding pend_ok_def by (metis SIGBAD_0 list.exhaust)
    have "try_dequeue_thread t s = (0, Some (p, sig_action (desc_of s t) ?n),
        set_thread t (\<lambda>r. r\<lparr>t_sigqueue := (t_sigqueue r)(?n := qs),
          t_sigpending := if qs = [] then snd (sigsetdel (t_sigpending r) ?n) else t_sigpending r\<rparr>) s)"
      using q by (simp add: try_dequeue_thread_def Let_def sigqueue_dequeue_def)
    then show ?thesis using False n q(1) by auto
  qed
qed

lemma try_dequeue_proc_spec:
  assumes "sig_ok s t"
  shows "if proc_signals s t = {} then try_dequeue_proc t s = (- ENOENT, None, s)
    else \<exists>n p qs. n \<in> proc_signals s t \<and> (\<forall>m \<in> proc_signals s t. n \<le> m) \<and> sig_queue (desc_of s t) n = p # qs \<and>
      try_dequeue_proc t s = (0, Some (p, sig_action (desc_of s t) n),
        set_desc (t_signals (threads s t)) (\<lambda>d. d\<lparr>sig_queue := (sig_queue d)(n := qs),
          sigpending := if qs = [] then snd (sigsetdel (sigpending d) n) else sigpending d\<rparr>) s)"
proof -
  let ?r = "threads s t" and ?d = "desc_of s t"
  let ?n = "sigset_first (unblocked (sigpending ?d) (t_sigmask ?r))"
  have m: "maskable (t_sigmask ?r)" and pk: "pend_ok (sigpending ?d) (sig_queue ?d)" using assms by (simp_all add: sig_ok_def)
  note first = first_unblocked [OF m, of "sigpending ?d", folded proc_signals_def]
  show ?thesis
  proof (cases "proc_signals s t = {}")
    case True
    then show ?thesis using first by (simp add: try_dequeue_proc_def proc_signals_def)
  next
    case False
    then have n: "?n \<in> proc_signals s t" "\<forall>m \<in> proc_signals s t. ?n \<le> m" using first by simp_all
    then have "?n \<in> members (sigpending ?d)" "\<not> SIGBAD ?n" by (auto simp: proc_signals_def dest: members_bounds)
    then obtain p qs where q: "sig_queue ?d ?n = p # qs" "?n \<noteq> 0" using pk unfolding pend_ok_def by (metis SIGBAD_0 list.exhaust)
    have "try_dequeue_proc t s = (0, Some (p, sig_action ?d ?n),
        set_desc (t_signals ?r) (\<lambda>d. d\<lparr>sig_queue := (sig_queue d)(?n := qs),
          sigpending := if qs = [] then snd (sigsetdel (sigpending d) ?n) else sigpending d\<rparr>) s)"
      using q by (simp add: try_dequeue_proc_def Let_def sigqueue_dequeue_def)
    then show ?thesis using False n q(1) by auto
  qed
qed

text \<open>The lowest deliverable signal is taken.  When pending bits and queues agree, \<^verbatim>\<open>signal_dequeue\<close> returns the oldest record of the lowest
  signal that is pending for the thread and not blocked, or, when the thread has none, of the lowest such signal of its process, with the action of that signal; it
  removes exactly this record, and bits and queues still agree.  It returns \<^verbatim>\<open>-ENOENT\<close> exactly when neither has a deliverable signal.\<close>

theorem signal_dequeue_lowest:
  assumes "sig_ok s t"
  shows "if own_signals s t \<noteq> {}
    then \<exists>n p qs s'. n \<in> own_signals s t \<and> (\<forall>m \<in> own_signals s t. n \<le> m) \<and> t_sigqueue (threads s t) n = p # qs \<and>
      signal_dequeue t s = (0, Some (p, sig_action (desc_of s t) n, signalTargetThread), s') \<and> sig_ok s' t \<and>
      t_sigqueue (threads s' t) = (t_sigqueue (threads s t))(n := qs) \<and> descs s' = descs s
    else if proc_signals s t \<noteq> {}
    then \<exists>n p qs s'. n \<in> proc_signals s t \<and> (\<forall>m \<in> proc_signals s t. n \<le> m) \<and> sig_queue (desc_of s t) n = p # qs \<and>
      signal_dequeue t s = (0, Some (p, sig_action (desc_of s t) n, signalTargetProcess), s') \<and> sig_ok s' t \<and>
      sig_queue (desc_of s' t) = (sig_queue (desc_of s t))(n := qs) \<and> threads s' = threads s
    else signal_dequeue t s = (- ENOENT, None, s)"
proof (cases "own_signals s t = {}")
  case False
  then obtain n p qs where n: "n \<in> own_signals s t" "\<forall>m \<in> own_signals s t. n \<le> m" "t_sigqueue (threads s t) n = p # qs"
    and d: "try_dequeue_thread t s = (0, Some (p, sig_action (desc_of s t) n),
        set_thread t (\<lambda>r. r\<lparr>t_sigqueue := (t_sigqueue r)(n := qs),
          t_sigpending := if qs = [] then snd (sigsetdel (t_sigpending r) n) else t_sigpending r\<rparr>) s)" (is "_ = (_, _, ?s)")
    using try_dequeue_thread_spec [OF assms] by auto
  have "n \<in> members (t_sigpending (threads s t))" "\<not> SIGBAD n" using n(1) by (auto simp: own_signals_def dest: members_bounds)
  then have "sig_ok ?s t" using assms pend_ok_take [of "t_sigpending (threads s t)" "t_sigqueue (threads s t)" n qs]
    by (auto simp: sig_ok_def set_thread_def)
  moreover have "signal_dequeue t s = (0, Some (p, sig_action (desc_of s t) n, signalTargetThread), ?s)"
    using assms d by (simp add: signal_dequeue_def sig_ok_def)
  moreover have "t_sigqueue (threads ?s t) = (t_sigqueue (threads s t))(n := qs) \<and> descs ?s = descs s" by (simp add: set_thread_def)
  ultimately show ?thesis using False n by auto
next
  case True
  then have none: "try_dequeue_thread t s = (- ENOENT, None, s)" using try_dequeue_thread_spec [OF assms] by simp
  show ?thesis
  proof (cases "proc_signals s t = {}")
    case False
    then obtain n p qs where n: "n \<in> proc_signals s t" "\<forall>m \<in> proc_signals s t. n \<le> m" "sig_queue (desc_of s t) n = p # qs"
      and d: "try_dequeue_proc t s = (0, Some (p, sig_action (desc_of s t) n),
        set_desc (t_signals (threads s t)) (\<lambda>d. d\<lparr>sig_queue := (sig_queue d)(n := qs),
          sigpending := if qs = [] then snd (sigsetdel (sigpending d) n) else sigpending d\<rparr>) s)" (is "_ = (_, _, ?s)")
      using try_dequeue_proc_spec [OF assms] by auto
    have "n \<in> members (sigpending (desc_of s t))" "\<not> SIGBAD n" using n(1) by (auto simp: proc_signals_def dest: members_bounds)
    then have "sig_ok ?s t" using assms pend_ok_take [of "sigpending (desc_of s t)" "sig_queue (desc_of s t)" n qs]
      by (auto simp: sig_ok_def set_desc_def)
    moreover have "signal_dequeue t s = (0, Some (p, sig_action (desc_of s t) n, signalTargetProcess), ?s)"
      using assms d none by (simp add: signal_dequeue_def sig_ok_def)
    moreover have "sig_queue (desc_of ?s t) = (sig_queue (desc_of s t))(n := qs) \<and> threads ?s = threads s" by (simp add: set_desc_def)
    ultimately show ?thesis using True False n by auto
  next
    case empty: True
    then have "try_dequeue_proc t s = (- ENOENT, None, s)" using try_dequeue_proc_spec [OF assms] by simp
    then show ?thesis using True empty none assms by (simp add: signal_dequeue_def sig_ok_def)
  qed
qed

section \<open>Sending\<close>

lemma signal_enqueue_fresh:
  assumes "infos s p = Some i" "\<not> SIGBAD (si_signo i)" "p \<noteq> NULL" "a \<noteq> NULL" "p \<notin> set (sig_queue (descs s a) (si_signo i))"
  shows "signal_enqueue True a p s = Some (0, set_desc a (\<lambda>d. d\<lparr>sigpending := snd (sigsetadd (sigpending d) (si_signo i)),
    sig_queue := (sig_queue d)(si_signo i := sig_queue d (si_signo i) @ [p])\<rparr>) s)"
  using assms by (simp add: signal_enqueue_def sigqueue_enqueue_def set_desc_def Let_def)

lemma send_spec:
  assumes "a \<noteq> NULL" "\<not> SIGBAD n" "p \<noteq> NULL" "p \<notin> set (sig_queue (descs s a) n)"
  obtains s' where "signal_desc_send_signal p pid True a n v s = Some (0, s')"
    "infos s' = (infos s)(p \<mapsto> \<lparr>si_signo = n, si_pid = pid, si_value = v\<rparr>)" "threads s' = threads s"
    "descs s' = (descs s)(a := (descs s a)\<lparr>sigpending := snd (sigsetadd (sigpending (descs s a)) n),
       sig_queue := (sig_queue (descs s a))(n := sig_queue (descs s a) n @ [p])\<rparr>)"
proof -
  let ?s = "s\<lparr>infos := (infos s)(p \<mapsto> \<lparr>si_signo = n, si_pid = pid, si_value = v\<rparr>)\<rparr>"
  have c: "siginfo_create p pid n v s = (0, ?s)" using assms by (simp add: siginfo_create_def)
  have "signal_enqueue True a p ?s = Some (0, set_desc a (\<lambda>d. d\<lparr>sigpending := snd (sigsetadd (sigpending d) n),
    sig_queue := (sig_queue d)(n := sig_queue d n @ [p])\<rparr>) ?s)"
    using assms signal_enqueue_fresh [of ?s p _ a] by simp
  then have "signal_desc_send_signal p pid True a n v s = Some (0, set_desc a (\<lambda>d. d\<lparr>sigpending := snd (sigsetadd (sigpending d) n),
    sig_queue := (sig_queue d)(n := sig_queue d n @ [p])\<rparr>) ?s)"
    using assms c by (simp add: signal_desc_send_signal_def)
  then show ?thesis using that by (simp add: set_desc_def)
qed

text \<open>C26: What is sent is received.  A signal sent to a process is taken by a thread of it that does not block it and has nothing else to take: the record has the
  number, the sender and the value of the sending call, and afterwards the process has no deliverable signal again.\<close>

theorem signal_send_receive:
  assumes "sig_ok s t" "own_signals s t = {}" "proc_signals s t = {}" "t_signals (threads s t) \<noteq> NULL"
    and "\<not> SIGBAD n" "n \<notin> members (t_sigmask (threads s t))" "p \<noteq> NULL"
  shows "\<exists>s1 s2 act. signal_desc_send_signal p pid True (t_signals (threads s t)) n v s = Some (0, s1) \<and>
    signal_dequeue t s1 = (0, Some (p, act, signalTargetProcess), s2) \<and>
    infos s2 p = Some \<lparr>si_signo = n, si_pid = pid, si_value = v\<rparr> \<and> proc_signals s2 t = {} \<and> act = sig_action (desc_of s t) n"
proof -
  let ?a = "t_signals (threads s t)"
  have "n \<notin> members (sigpending (desc_of s t))" using assms(3,6) by (auto simp: proc_signals_def)
  then have q: "sig_queue (desc_of s t) n = []" using assms(1,5) by (auto simp: sig_ok_def pend_ok_def)
  then obtain s1 where s1: "signal_desc_send_signal p pid True ?a n v s = Some (0, s1)"
    "infos s1 = (infos s)(p \<mapsto> \<lparr>si_signo = n, si_pid = pid, si_value = v\<rparr>)" "threads s1 = threads s"
    "descs s1 = (descs s)(?a := (descs s ?a)\<lparr>sigpending := snd (sigsetadd (sigpending (descs s ?a)) n),
       sig_queue := (sig_queue (descs s ?a))(n := [p])\<rparr>)"
    using send_spec [of ?a n p s pid v] assms(4,5,7) by auto
  have ok: "sig_ok s1 t"
    using assms(1,5) by (auto simp: sig_ok_def s1(3,4) pend_ok_def members_add)
  have own: "own_signals s1 t = {}" using assms(2) by (simp add: own_signals_def s1(3))
  have proc: "proc_signals s1 t = {n}" using assms(3,5,6) by (auto simp: proc_signals_def s1(3,4) members_add)
  have d: "try_dequeue_thread t s1 = (- ENOENT, None, s1)" using try_dequeue_thread_spec [OF ok] own by simp
  obtain qs where qs: "[p] = p # qs" "try_dequeue_proc t s1 = (0, Some (p, sig_action (desc_of s1 t) n),
        set_desc ?a (\<lambda>d. d\<lparr>sig_queue := (sig_queue d)(n := []), sigpending := snd (sigsetdel (sigpending d) n)\<rparr>) s1)" (is "_ = (_, _, ?s2)")
    using try_dequeue_proc_spec [OF ok] proc by (auto simp: s1(3,4))
  have "signal_dequeue t s1 = (0, Some (p, sig_action (desc_of s t) n, signalTargetProcess), ?s2)"
    using d qs(2) ok by (simp add: signal_dequeue_def sig_ok_def s1(3,4))
  moreover have "proc_signals ?s2 t = {}" using proc assms(5) by (auto simp: proc_signals_def set_desc_def members_del s1(3))
  ultimately show ?thesis using s1(1,2) by (auto simp: set_desc_def)
qed

section \<open>Where signals are lost\<close>

lemma do_sigaction_ignore:
  assumes "do_sigaction t n (Some act) s = Some (0, old, s')" "sig_handler_ignored (sa_handler act) n"
  shows "sigpending (descs s' (t_signals (threads s t))) = sigpending (desc_of s t) \<and> sig_queue (descs s' (t_signals (threads s t))) n = []"
  using assms
  by (auto simp: do_sigaction_def Let_def bind_eq_Some_conv set_desc_def split: if_splits
      dest!: flush_group_frame desc_flush_desc)

lemma stale_bit_blocks:
  assumes "t \<noteq> NULL" "maskable (t_sigmask (threads s t))" "own_signals s t = {}"
    and "n \<in> proc_signals s t" "\<forall>m \<in> proc_signals s t. n \<le> m" "sig_queue (desc_of s t) n = []"
  shows "signal_dequeue t s = (- ENOENT, None, s)"
proof -
  let ?r = "threads s t"
  have "sigset_first (unblocked (t_sigpending ?r) (t_sigmask ?r)) = 0"
    using first_unblocked [OF assms(2), of "t_sigpending ?r"] assms(3) by (simp add: own_signals_def)
  then have thr: "try_dequeue_thread t s = (- ENOENT, None, s)" by (simp add: try_dequeue_thread_def Let_def)
  have f: "sigset_first (unblocked (sigpending (desc_of s t)) (t_sigmask ?r)) \<in> proc_signals s t"
    "sigset_first (unblocked (sigpending (desc_of s t)) (t_sigmask ?r)) \<le> n"
    using first_unblocked [OF assms(2), of "sigpending (desc_of s t)"] assms(4) by (auto simp: proc_signals_def split: if_splits)
  then have "sigset_first (unblocked (sigpending (desc_of s t)) (t_sigmask ?r)) = n" using assms(5) by force
  then have "try_dequeue_proc t s = (- ENOENT, None, s)" using assms(6) by (simp add: try_dequeue_proc_def Let_def sigqueue_dequeue_def)
  then show ?thesis using thr assms(1) by (simp add: signal_dequeue_def)
qed

text \<open>Ignoring a pending signal blocks the later ones.  \<^verbatim>\<open>sigaction\<close> that makes a process ignore a signal flushes its queue but leaves its pending bit.  When
  that signal was the lowest deliverable one of the process and the thread has none of its own, then any higher signal \<open>m\<close> that is sent to the process afterwards is queued and
  never taken: \<^verbatim>\<open>signal_dequeue\<close> returns \<^verbatim>\<open>-ENOENT\<close>.\<close>

theorem ignored_signal_blocks_later:
  assumes "sig_ok s t" "own_signals s t = {}" "n \<in> proc_signals s t" "\<forall>k \<in> proc_signals s t. n \<le> k"
    and "t_signals (threads s t) \<noteq> NULL" "n < m" "\<not> SIGBAD m" "p \<noteq> NULL"
    and "do_sigaction t n (Some act) s = Some (0, old, s1)" "sig_handler_ignored (sa_handler act) n" "threads s1 = threads s"
    and "p \<notin> set (sig_queue (desc_of s1 t) m)"
  shows "\<exists>s2. signal_desc_send_signal p pid True (t_signals (threads s t)) m v s1 = Some (0, s2) \<and>
    p \<in> set (sig_queue (desc_of s2 t) m) \<and> signal_dequeue t s2 = (- ENOENT, None, s2)"
proof -
  let ?a = "t_signals (threads s t)"
  note stale = do_sigaction_ignore [OF assms(9,10)]
  obtain s2 where s2: "signal_desc_send_signal p pid True ?a m v s1 = Some (0, s2)" "threads s2 = threads s1"
    "descs s2 = (descs s1)(?a := (descs s1 ?a)\<lparr>sigpending := snd (sigsetadd (sigpending (descs s1 ?a)) m),
       sig_queue := (sig_queue (descs s1 ?a))(m := sig_queue (descs s1 ?a) m @ [p])\<rparr>)"
    using send_spec [of ?a m p s1 pid v] assms(5,7,8,11,12) by auto
  have thr: "threads s2 = threads s" using s2(2) assms(11) by simp
  have "signal_dequeue t s2 = (- ENOENT, None, s2)"
  proof (rule stale_bit_blocks [where n = n])
    show "t \<noteq> NULL" "maskable (t_sigmask (threads s2 t))" using assms(1) thr by (simp_all add: sig_ok_def)
    show "own_signals s2 t = {}" using assms(2) thr by (simp add: own_signals_def)
    show "n \<in> proc_signals s2 t" using assms(3,7) stale s2(3) thr by (simp add: proc_signals_def members_add)
    show "\<forall>k \<in> proc_signals s2 t. n \<le> k"
      using assms(4,6,7) stale s2(3) thr by (auto simp: proc_signals_def members_add)
    show "sig_queue (desc_of s2 t) n = []" using assms(6) stale s2(3) thr by simp
  qed
  then show ?thesis using s2(1,3) thr by auto
qed

text \<open>Terminating a process frees a record twice.  When the signal that \<^verbatim>\<open>signal_check_pending\<close> takes was sent to the process and its action is the default
  termination, \<^verbatim>\<open>do_terminate\<close> frees the record and returns, and the record is freed again: the call does not return.\<close>

theorem process_terminate_double_free:
  assumes "signal_dequeue t s = (0, Some (p, act, signalTargetProcess), s1)" "infos s1 p = Some i"
    and "t_nsig_nested (threads s t) \<le> ARCH_NSIG_NESTED"
    and "sa_handler act = SIG_DFL" "sig_default_action (si_signo i) = SIG_TERM"
  shows "signal_check_pending dispatch t s = None"
proof -
  have "infos (signal_mask_restore t oset u) = infos u" for oset u
    by (simp add: signal_mask_restore_def set_thread_def split: prod.splits)
  then show ?thesis using assms
    by (auto simp: signal_check_pending_def signal_mask_block_def deliver_def sig_handler_ignored_def do_default_action_def do_terminate_def
        siginfo_free_def bind_eq_None_conv Let_def set_thread_def split: prod.splits)
qed

section \<open>Samples\<close>

definition sig_thread :: thread where
  "sig_thread = \<lparr>ti_tid = 7, ti_ktid = 0, ti_state = T_RUNNING,
    ti_sched = \<lparr>ts_timeslice = 0, ts_age = 0, ts_flags = 0, ts_short_holds = 0, ts_long_holds = 0, ts_priority = 3, ts_proc = 0,
      ts_hard_affinity = False, ts_cpu_set = - 1\<rparr>,
    ti_flags = 0, t_wakeup = WAKEUP_NONE, t_wait_queue = NULL, t_group = NULL, t_signals = 16, t_sigmask = 0, t_sigpending = 0,
    t_sigqueue = (\<lambda>n. []), t_nsig_nested = 0, t_uc_sigmask = None, t_event = NULL\<rparr>"

definition default_action :: sigaction where
  "default_action = \<lparr>sa_handler = SIG_DFL, sa_flags = 0, sa_mask = 0\<rparr>"

text \<open>Thread 8 of the process with descriptor 16, without signals, and with a pending \<^verbatim>\<open>SIGTERM\<close> (21) of the process.\<close>

definition quiet :: kstate where
  "quiet = \<lparr>threads = (\<lambda>t. sig_thread), run_qs = (\<lambda>c l. []), wait_qs = (\<lambda>q. []), group_qs = (\<lambda>q. []), quantum = (\<lambda>c l. 10), ncpu = 4,
    descs = (\<lambda>a. \<lparr>sig_mask = 0, sigpending = 0, sig_queue = (\<lambda>n. []), sig_action = (\<lambda>n. default_action)\<rparr>),
    infos = (\<lambda>a. None), cond_count = (\<lambda>a. 0)\<rparr>"

definition pending_term :: kstate where
  "pending_term = quiet\<lparr>descs := (descs quiet)(16 := (descs quiet 16)\<lparr>sigpending := SIG_BIT 21, sig_queue := (\<lambda>n. [])(21 := [0x100])\<rparr>),
    infos := [0x100 \<mapsto> \<lparr>si_signo = 21, si_pid = 1, si_value = 5\<rparr>]\<rparr>"

lemma quiet_ok: "sig_ok quiet 8" "own_signals quiet 8 = {}" "proc_signals quiet 8 = {}"
  by (auto simp: quiet_def sig_thread_def sig_ok_def maskable_def pend_ok_def own_signals_def proc_signals_def)

lemma SIGBAD_21 [simp]: "\<not> SIGBAD 21" "\<not> SIGBAD 27"
  by (simp_all add: SIGBAD_def)

lemma pending_term_ok: "sig_ok pending_term 8" "own_signals pending_term 8 = {}" "proc_signals pending_term 8 = {21}"
  by (auto simp: pending_term_def quiet_def sig_thread_def sig_ok_def maskable_def pend_ok_def own_signals_def proc_signals_def)

theorem signal_dequeue_lowest_witness:
  "\<exists>s'. signal_dequeue 8 pending_term = (0, Some (0x100, default_action, signalTargetProcess), s') \<and> sig_ok s' 8"
  using signal_dequeue_lowest [OF pending_term_ok(1)] pending_term_ok(2,3)
  by (auto simp: pending_term_def quiet_def sig_thread_def)

theorem signal_send_receive_witness:
  "\<exists>s1 s2. signal_desc_send_signal 0x200 3 True 16 27 99 quiet = Some (0, s1) \<and>
    signal_dequeue 8 s1 = (0, Some (0x200, default_action, signalTargetProcess), s2) \<and>
    infos s2 0x200 = Some \<lparr>si_signo = 27, si_pid = 3, si_value = 99\<rparr>"
proof -
  have q: "t_signals (threads quiet 8) = 16" "t_sigmask (threads quiet 8) = 0" "sig_action (desc_of quiet 8) 27 = default_action"
    by (simp_all add: quiet_def sig_thread_def)
  show ?thesis using signal_send_receive [OF quiet_ok, of 27 "0x200" 3 99] q by auto
qed

theorem ignored_signal_blocks_later_witness:
  "\<exists>s1 s2. do_sigaction 8 21 (Some (default_action\<lparr>sa_handler := SIG_IGN\<rparr>)) pending_term = Some (0, Some default_action, s1) \<and>
    signal_desc_send_signal 0x200 3 True 16 27 99 s1 = Some (0, s2) \<and> signal_dequeue 8 s2 = (- ENOENT, None, s2)"
proof -
  let ?act = "default_action\<lparr>sa_handler := SIG_IGN\<rparr>"
  have q: "t_signals (threads pending_term 8) = 16" by (simp add: pending_term_def quiet_def sig_thread_def)
  have ign: "sig_handler_ignored (sa_handler ?act) 21" by (simp add: sig_handler_ignored_def)
  have "\<exists>s1. do_sigaction 8 21 (Some ?act) pending_term = Some (0, Some default_action, s1) \<and> threads s1 = threads pending_term
    \<and> sig_queue (descs s1 16) 27 = []"
    by (simp add: do_sigaction_def pending_term_def quiet_def sig_thread_def sig_handler_ignored_def desc_flush_def siginfo_free_def set_desc_def Let_def)
  then obtain s1 where s1: "do_sigaction 8 21 (Some ?act) pending_term = Some (0, Some default_action, s1)" "threads s1 = threads pending_term"
    "sig_queue (descs s1 16) 27 = []" by blast
  show ?thesis
    using ignored_signal_blocks_later [OF pending_term_ok(1,2), of 21 27 "0x200" ?act "Some default_action" s1 3 99] pending_term_ok(3) q ign s1
    by auto
qed

theorem process_terminate_double_free_witness: "signal_check_pending (\<lambda>act i s. s) 8 pending_term = None"
proof -
  obtain s' where d: "signal_dequeue 8 pending_term = (0, Some (0x100, default_action, signalTargetProcess), s')"
    "infos s' 0x100 = Some \<lparr>si_signo = 21, si_pid = 1, si_value = 5\<rparr>"
  proof -
    have "unblocked (SIG_BIT 21) 0 = SIG_BIT 21" "sigset_first (SIG_BIT 21) = 21" by code_simp+
    moreover have "unblocked 0 0 = 0" "sigset_first 0 = 0" by code_simp+
    ultimately show ?thesis using that
      by (simp add: signal_dequeue_def try_dequeue_thread_def try_dequeue_proc_def pending_term_def quiet_def sig_thread_def sigqueue_dequeue_def
          set_desc_def Let_def)
  qed
  show ?thesis
    by (rule process_terminate_double_free [OF d])
      (simp_all add: pending_term_def quiet_def sig_thread_def default_action_def sig_default_action_def sig_defaults_def)
qed

end
