(* ===== verification/Mlfq.thy ===== *)
theory Mlfq
  imports Thread "HOL-Library.Multiset"
begin

text \<open>
  The multi-level feedback queues: \<^verbatim>\<open>sys/sched/scheduler.c\<close>, \<^verbatim>\<open>sys/sched/load_balancer.c\<close> and the priority rules of
  \<^verbatim>\<open>sys/sched/sched.c\<close>.  Each core has four run queues; level 3 is the highest.  \<open>cpuid\<close> is the core that executes the
  function.  Where the balancer tries locks, whether it gets both locks of a level is an argument.
\<close>

section \<open>Run queues\<close>

definition set_rq :: "nat \<Rightarrow> int \<Rightarrow> addr list \<Rightarrow> kstate \<Rightarrow> kstate" where
  "set_rq c l ps s = s\<lparr>run_qs := (run_qs s)(c := (run_qs s c)(l := ps))\<rparr>"

text \<open>\<^verbatim>\<open>foreach_level\<close> goes from the highest level to the lowest, \<^verbatim>\<open>foreach_level_reverse\<close> back.\<close>

definition levels :: "int list" where "levels = [3, 2, 1, 0]"

definition levels_reverse :: "int list" where "levels_reverse = [0, 1, 2, 3]"

definition MLFQ_load :: "kstate \<Rightarrow> nat \<Rightarrow> nat" where
  "MLFQ_load s c = sum_list (map (\<lambda>l. length (run_qs s c l)) levels)"

definition MLFQ_get_level :: "int \<Rightarrow> int option" where
  "MLFQ_get_level i = (if i < MLFQ_LOW \<or> i > MLFQ_HIGH then None else Some i)"

fun least_loop :: "kstate \<Rightarrow> nat list \<Rightarrow> nat \<Rightarrow> nat \<Rightarrow> nat" where
  "least_loop s [] least best = best"
| "least_loop s (c # cs) least best =
    (if MLFQ_load s c \<le> least then least_loop s cs (MLFQ_load s c) c else least_loop s cs least best)"

definition MLFQ_least_loaded :: "kstate \<Rightarrow> nat \<Rightarrow> nat" where
  "MLFQ_least_loaded s cpuid = least_loop s [0..<ncpu s] (MLFQ_load s cpuid) cpuid"

fun most_loop :: "kstate \<Rightarrow> nat list \<Rightarrow> nat \<Rightarrow> nat \<Rightarrow> nat" where
  "most_loop s [] highest best = best"
| "most_loop s (c # cs) highest best =
    (if MLFQ_load s c \<ge> highest then most_loop s cs (MLFQ_load s c) c else most_loop s cs highest best)"

definition MLFQ_most_loaded :: "kstate \<Rightarrow> nat \<Rightarrow> nat" where
  "MLFQ_most_loaded s cpuid = most_loop s [0..<ncpu s] (MLFQ_load s cpuid) cpuid"

text \<open>For hard affinity only the cores of \<^verbatim>\<open>cpu_set\<close> are considered, starting from the load of the current core.\<close>

definition allowed :: "u32 \<Rightarrow> nat \<Rightarrow> bool" where
  "allowed cpu_set core \<longleftrightarrow> cpu_set AND push_bit core 1 \<noteq> 0"

definition MLFQ_target :: "kstate \<Rightarrow> nat \<Rightarrow> addr \<Rightarrow> nat" where
  "MLFQ_target s cpuid t =
    (let a = ti_sched (threads s t) in
     if ts_hard_affinity a
     then least_loop s (filter (allowed (ts_cpu_set a)) [0..<ncpu s]) (MLFQ_load s cpuid) cpuid
     else MLFQ_least_loaded s cpuid)"

definition MLFQ_enqueue :: "kstate \<Rightarrow> nat \<Rightarrow> addr \<Rightarrow> int \<times> kstate" where
  "MLFQ_enqueue s cpuid t =
    (if t = NULL then (- EINVAL, s)
     else let c = MLFQ_target s cpuid t in
       case MLFQ_get_level (thread_get_prio s t) of
         None \<Rightarrow> (- EINVAL, s)
       | Some l \<Rightarrow>
           (case q_enqueue (run_qs s c l) t QUEUE_TAIL of (err, ps) \<Rightarrow> (err, if err = 0 then set_rq c l ps s else s)))"

definition sched_enqueue :: "kstate \<Rightarrow> nat \<Rightarrow> addr \<Rightarrow> int \<times> kstate" where
  "sched_enqueue s cpuid t =
    (if t = NULL then (- EINVAL, s)
     else MLFQ_enqueue (thread_enter_state t T_READY (snd (thread_set_prio t MLFQ_HIGH s))) cpuid t)"

definition thread_schedule :: "kstate \<Rightarrow> nat \<Rightarrow> addr \<Rightarrow> int \<times> kstate" where
  "thread_schedule s cpuid t = (if t = NULL then (- EINVAL, s) else sched_enqueue s cpuid t)"

text \<open>The first thread of the highest level that has one is taken off its queue and runs.\<close>

definition pick :: "nat \<Rightarrow> int \<Rightarrow> addr \<Rightarrow> addr list \<Rightarrow> kstate \<Rightarrow> kstate" where
  "pick cpuid l t ps s =
    thread_enter_state t T_RUNNING
      (set_sched t (\<lambda>r. r\<lparr>ts_timeslice := quantum s cpuid l, ts_proc := cpuid\<rparr>) (set_rq cpuid l ps s))"

fun next_loop :: "kstate \<Rightarrow> nat \<Rightarrow> int list \<Rightarrow> addr option \<times> kstate" where
  "next_loop s cpuid [] = (None, s)"
| "next_loop s cpuid (l # ls) =
    (case run_qs s cpuid l of
      [] \<Rightarrow> next_loop s cpuid ls
    | t # ps \<Rightarrow> (Some t, pick cpuid l t ps s))"

definition MLFQ_get_next_thread :: "kstate \<Rightarrow> nat \<Rightarrow> addr option \<times> kstate" where
  "MLFQ_get_next_thread s cpuid = next_loop s cpuid levels"

text \<open>
  \<^verbatim>\<open>MLFQ_init\<close> clears the queues of the core that runs it and sets the quanta, with \<open>t\<close> the jiffies of ten milliseconds.
  The source multiplies 5 by the comparison \<^verbatim>\<open>1 < l++\<close>.
\<close>

fun quantum_loop :: "u64 \<Rightarrow> int \<Rightarrow> int list \<Rightarrow> (int \<Rightarrow> u64) \<Rightarrow> (int \<Rightarrow> u64)" where
  "quantum_loop t n [] f = f"
| "quantum_loop t n (l # ls) f = quantum_loop t (n + 1) ls (f(l := t + 5 * (if 1 < n then 1 else 0)))"

definition MLFQ_init :: "u64 \<Rightarrow> kstate \<Rightarrow> nat \<Rightarrow> kstate" where
  "MLFQ_init t s cpuid =
    s\<lparr>run_qs := (run_qs s)(cpuid := \<lambda>l. []), quantum := (quantum s)(cpuid := quantum_loop t 0 levels (\<lambda>l. 0))\<rparr>"

section \<open>Priorities\<close>

definition TH_SHORTHOLD_THRESHOLD :: "int \<Rightarrow> u64" where
  "TH_SHORTHOLD_THRESHOLD level = of_int (level + 4)"

definition sched_promote_thread :: "thread_sched \<Rightarrow> thread_sched" where
  "sched_promote_thread r =
    (if ts_priority r < MLFQ_HIGH \<and> ts_short_holds r \<ge> TH_SHORTHOLD_THRESHOLD (ts_priority r)
     then r\<lparr>ts_priority := ts_priority r + 1, ts_short_holds := 0, ts_long_holds := 0\<rparr>
     else r\<lparr>ts_short_holds := ts_short_holds r + 1\<rparr>)"

definition sched_demote_thread :: "thread_sched \<Rightarrow> thread_sched" where
  "sched_demote_thread r =
    (if ts_priority r > MLFQ_LOW \<and> ts_long_holds r \<ge> 8
     then r\<lparr>ts_priority := ts_priority r - 1, ts_short_holds := 0, ts_long_holds := 0\<rparr>
     else r\<lparr>ts_long_holds := ts_long_holds r + 1\<rparr>)"

definition sched_set_highest_prior :: "thread_sched \<Rightarrow> thread_sched" where
  "sched_set_highest_prior r = r\<lparr>ts_long_holds := 0, ts_short_holds := 0, ts_priority := MLFQ_HIGH\<rparr>"

text \<open>What \<^verbatim>\<open>sched\<close> does to the thread before it switches to the scheduler; \<^verbatim>\<open>TS_SCHEDULER\<close> is bit 2.\<close>

definition sched_adjust :: "thread_sched \<Rightarrow> thread_sched" where
  "sched_adjust r =
    (if ts_flags r AND 4 \<noteq> 0 then sched_set_highest_prior r
     else if ts_timeslice r = 0 then sched_demote_thread r
     else sched_promote_thread r)"

section \<open>Balancing\<close>

definition q_migrate :: "addr list \<Rightarrow> addr list \<Rightarrow> nat \<Rightarrow> nat \<Rightarrow> queue_relloc_t \<Rightarrow> int \<times> addr list \<times> addr list" where
  "q_migrate dst src pos n whence =
    (if pos \<ge> length src \<or> n = 0 \<or> pos + n > length src \<or> (whence \<noteq> QUEUE_HEAD \<and> whence \<noteq> QUEUE_TAIL) then (- EINVAL, dst, src)
     else let moved = take n (drop pos src) in
       (0, if whence = QUEUE_HEAD then moved @ dst else dst @ moved, take pos src @ drop (pos + n) src))"

definition migrate_level :: "nat \<Rightarrow> nat \<Rightarrow> int \<Rightarrow> nat \<Rightarrow> queue_relloc_t \<Rightarrow> kstate \<Rightarrow> int \<times> kstate" where
  "migrate_level dc sc l n whence s =
    (case q_migrate (run_qs s dc l) (run_qs s sc l) (length (run_qs s sc l) div 2) n whence of
      (err, d, r) \<Rightarrow> (err, if err = 0 then set_rq dc l d (set_rq sc l r s) else s))"

fun pull_target :: "kstate \<Rightarrow> nat \<Rightarrow> nat list \<Rightarrow> nat \<Rightarrow> nat option \<Rightarrow> nat \<times> nat option" where
  "pull_target s cpuid [] ld best = (ld, best)"
| "pull_target s cpuid (c # cs) ld best =
    (if c \<noteq> cpuid \<and> ld < MLFQ_load s c then pull_target s cpuid cs (MLFQ_load s c) (Some c)
     else pull_target s cpuid cs ld best)"

fun pull_loop :: "(int \<Rightarrow> bool) \<Rightarrow> nat \<Rightarrow> nat \<Rightarrow> nat \<Rightarrow> int list \<Rightarrow> nat \<Rightarrow> kstate \<Rightarrow> nat \<times> kstate" where
  "pull_loop avail cpuid target ld [] pulled s = (pulled, s)"
| "pull_loop avail cpuid target ld (l # ls) pulled s =
    (if pulled \<ge> ld div 2 then (pulled, s)
     else if \<not> avail l \<or> run_qs s target l = [] then pull_loop avail cpuid target ld ls pulled s
     else
       let n = (if length (run_qs s target l) = 1 then 1 else length (run_qs s target l) div 2) in
       case migrate_level cpuid target l n QUEUE_TAIL s of
         (err, s') \<Rightarrow>
           if err \<noteq> 0 then pull_loop avail cpuid target ld ls pulled s
           else pull_loop avail cpuid target ld ls (pulled + n) s')"

definition MLFQ_pull :: "(int \<Rightarrow> bool) \<Rightarrow> kstate \<Rightarrow> nat \<Rightarrow> kstate" where
  "MLFQ_pull avail s cpuid =
    (case pull_target s cpuid [0..<ncpu s] 0 None of
      (ld, Some target) \<Rightarrow> if ld < 2 then s else snd (pull_loop avail cpuid target ld levels_reverse 0 s)
    | (ld, None) \<Rightarrow> s)"

text \<open>\<^verbatim>\<open>MLFQ_push\<close> starts with a target load of 0 and never sets \<^verbatim>\<open>my_load\<close>, so queues with fewer than two threads are skipped.\<close>

fun push_target :: "kstate \<Rightarrow> nat \<Rightarrow> nat list \<Rightarrow> nat \<Rightarrow> nat option \<Rightarrow> nat \<times> nat option" where
  "push_target s cpuid [] ld best = (ld, best)"
| "push_target s cpuid (c # cs) ld best =
    (if c \<noteq> cpuid \<and> ld \<ge> MLFQ_load s c then push_target s cpuid cs (MLFQ_load s c) (Some c)
     else push_target s cpuid cs ld best)"

fun push_loop :: "(int \<Rightarrow> bool) \<Rightarrow> nat \<Rightarrow> nat \<Rightarrow> nat \<Rightarrow> int list \<Rightarrow> nat \<Rightarrow> kstate \<Rightarrow> kstate" where
  "push_loop avail cpuid target my_load [] pushed s = s"
| "push_loop avail cpuid target my_load (l # ls) pushed s =
    (let len = length (run_qs s cpuid l) in
     if \<not> avail l \<or> len < 2 \<and> (len = 0 \<or> pushed \<ge> my_load div 2) then push_loop avail cpuid target my_load ls pushed s
     else
       let n = (if len \<ge> 2 then len div 2 else len) in
       case migrate_level target cpuid l n QUEUE_HEAD s of
         (err, s') \<Rightarrow>
           if err \<noteq> 0 then push_loop avail cpuid target my_load ls pushed s
           else push_loop avail cpuid target my_load ls (pushed + n) s')"

definition MLFQ_push :: "(int \<Rightarrow> bool) \<Rightarrow> kstate \<Rightarrow> nat \<Rightarrow> kstate" where
  "MLFQ_push avail s cpuid =
    (case push_target s cpuid [0..<ncpu s] 0 None of
      (ld, Some target) \<Rightarrow> if ld \<ge> MLFQ_load s cpuid then s else push_loop avail cpuid target 0 levels 0 s
    | (ld, None) \<Rightarrow> s)"

text \<open>The loads are unsigned, so \<^verbatim>\<open>avg_load - 2\<close> wraps around for small averages.\<close>

definition MLFQ_balance :: "(int \<Rightarrow> bool) \<Rightarrow> kstate \<Rightarrow> nat \<Rightarrow> kstate" where
  "MLFQ_balance avail s cpuid =
    (let total = (\<Sum>c\<leftarrow>[0..<ncpu s]. of_nat (MLFQ_load s c)) :: u64;
         avg_load = total div of_nat (ncpu s);
         current_load = of_nat (MLFQ_load s cpuid) in
     if current_load > avg_load + 2 then MLFQ_push avail s cpuid
     else if current_load < avg_load - 2 then MLFQ_pull avail s cpuid
     else s)"

section \<open>Aging\<close>

text \<open>\<^verbatim>\<open>AGING_THRESHOLD\<close> is 5.  \<open>avail c l\<close> says whether the lock of the target queue is free.\<close>

definition age_thread :: "(nat \<Rightarrow> int \<Rightarrow> bool) \<Rightarrow> nat \<Rightarrow> int \<Rightarrow> addr \<Rightarrow> kstate \<Rightarrow> kstate" where
  "age_thread avail c l t s =
    (let s = set_sched t (\<lambda>r. r\<lparr>ts_age := ts_age r + 1\<rparr>) s in
     if ts_age (ti_sched (threads s t)) > 5
     then
       case thread_bump_priority t THREAD_PRIO_INC 1 s of (_, old, new, s1) \<Rightarrow>
         let new' = (if new > MLFQ_HIGH then MLFQ_HIGH else new);
             s2 = (if new > MLFQ_HIGH then snd (thread_set_prio t new' s1) else s1) in
         if \<not> avail c new' then snd (thread_set_prio t old s2)
         else
           (case q_detach (run_qs s2 c l) t of
             None \<Rightarrow> snd (thread_set_prio t old s2)
           | Some ps \<Rightarrow>
               let s3 = set_rq c l ps s2;
                   s4 = set_rq c new' (snd (q_enqueue (run_qs s3 c new') t QUEUE_TAIL)) s3 in
               set_sched t (\<lambda>r. r\<lparr>ts_age := 0\<rparr>) s4)
     else s)"

definition age_level :: "(nat \<Rightarrow> int \<Rightarrow> bool) \<Rightarrow> nat \<Rightarrow> int \<Rightarrow> kstate \<Rightarrow> kstate" where
  "age_level avail c l s = (if l = MLFQ_HIGH then s else fold (age_thread avail c l) (run_qs s c l) s)"

definition MLFQ_aging :: "(nat \<Rightarrow> int \<Rightarrow> bool) \<Rightarrow> kstate \<Rightarrow> kstate" where
  "MLFQ_aging avail s = fold (\<lambda>c. fold (age_level avail c) levels_reverse) [0..<ncpu s] s"

end
