(* ===== verification/Mlfq_Proofs.thy ===== *)
theory Mlfq_Proofs
  imports Mlfq
begin

text \<open>
  What the run queues guarantee: enqueueing goes to a least loaded core, the highest level runs first, balancing keeps every
  thread at its level, and aging brings every waiting thread to the highest level.
\<close>

section \<open>Enqueueing and picking\<close>

lemma least_loop_min:
  "m = MLFQ_load s b \<Longrightarrow> least_loop s cs m b \<in> insert b (set cs) \<and> MLFQ_load s (least_loop s cs m b) \<le> m
    \<and> (\<forall>c \<in> set cs. MLFQ_load s (least_loop s cs m b) \<le> MLFQ_load s c)"
proof (induction cs arbitrary: m b)
  case (Cons c cs)
  show ?case
  proof (cases "MLFQ_load s c \<le> m")
    case True
    then show ?thesis using Cons.IH [of "MLFQ_load s c" c] by auto
  next
    case False
    then show ?thesis using Cons.IH [of m b] Cons.prems by auto
  qed
qed simp

lemma most_loop_max:
  "m = MLFQ_load s b \<Longrightarrow> most_loop s cs m b \<in> insert b (set cs) \<and> MLFQ_load s (most_loop s cs m b) \<ge> m
    \<and> (\<forall>c \<in> set cs. MLFQ_load s (most_loop s cs m b) \<ge> MLFQ_load s c)"
proof (induction cs arbitrary: m b)
  case (Cons c cs)
  show ?case
  proof (cases "MLFQ_load s c \<ge> m")
    case True
    then show ?thesis using Cons.IH [of "MLFQ_load s c" c] by auto
  next
    case False
    then show ?thesis using Cons.IH [of m b] Cons.prems by auto
  qed
qed simp

definition queued :: "kstate \<Rightarrow> addr \<Rightarrow> bool" where
  "queued s t \<longleftrightarrow> (\<exists>c l. t \<in> set (run_qs s c l))"

definition has_prio :: "kstate \<Rightarrow> addr \<Rightarrow> bool" where
  "has_prio s t \<longleftrightarrow> MLFQ_LOW \<le> ts_priority (ti_sched (threads s t)) \<and> ts_priority (ti_sched (threads s t)) \<le> MLFQ_HIGH"

lemma MLFQ_enqueue_at:
  assumes "t \<noteq> NULL" "has_prio s t" "\<not> queued s t"
  shows "MLFQ_enqueue s cpuid t =
    (0, set_rq (MLFQ_target s cpuid t) (ts_priority (ti_sched (threads s t)))
      (run_qs s (MLFQ_target s cpuid t) (ts_priority (ti_sched (threads s t))) @ [t]) s)"
  using assms by (simp add: MLFQ_enqueue_def MLFQ_get_level_def thread_get_prio_def has_prio_def q_enqueue_def queued_def Let_def)

text \<open>A thread goes to the least loaded core.  \<^verbatim>\<open>MLFQ_enqueue\<close> appends a thread with soft affinity that is on no run queue to
  the queue of its priority on a core whose load is minimal, and changes nothing else.\<close>

theorem MLFQ_enqueue_least_loaded:
  assumes "t \<noteq> NULL" "has_prio s t" "\<not> queued s t" "\<not> ts_hard_affinity (ti_sched (threads s t))" "cpuid < ncpu s"
  shows "\<exists>c < ncpu s. (\<forall>d < ncpu s. MLFQ_load s c \<le> MLFQ_load s d) \<and>
    MLFQ_enqueue s cpuid t =
      (0, set_rq c (ts_priority (ti_sched (threads s t))) (run_qs s c (ts_priority (ti_sched (threads s t))) @ [t]) s)"
proof -
  let ?c = "MLFQ_target s cpuid t"
  have "?c \<in> insert cpuid (set [0..<ncpu s]) \<and> (\<forall>c \<in> set [0..<ncpu s]. MLFQ_load s ?c \<le> MLFQ_load s c)"
    using least_loop_min [of "MLFQ_load s cpuid" s cpuid "[0..<ncpu s]"] assms(4)
    by (simp add: MLFQ_target_def MLFQ_least_loaded_def)
  then have "?c < ncpu s" "\<forall>d < ncpu s. MLFQ_load s ?c \<le> MLFQ_load s d" using assms(5) by auto
  then show ?thesis using MLFQ_enqueue_at [OF assms(1-3)] by blast
qed

text \<open>Hard affinity is not strict.  The core \<^verbatim>\<open>MLFQ_enqueue\<close> chooses for a thread with hard affinity is an allowed core of
  minimal load among the allowed ones when one of them has no more load than the current core; otherwise it is the current core, whether the
  thread may run there or not.\<close>

theorem MLFQ_hard_affinity_choice:
  assumes "ts_hard_affinity (ti_sched (threads s t))" "set_of = ts_cpu_set (ti_sched (threads s t))"
  shows "(if \<exists>c < ncpu s. allowed set_of c \<and> MLFQ_load s c \<le> MLFQ_load s cpuid
     then MLFQ_target s cpuid t < ncpu s \<and> allowed set_of (MLFQ_target s cpuid t) \<and>
       (\<forall>c < ncpu s. allowed set_of c \<longrightarrow> MLFQ_load s (MLFQ_target s cpuid t) \<le> MLFQ_load s c)
     else MLFQ_target s cpuid t = cpuid)"
proof -
  let ?cs = "filter (allowed set_of) [0..<ncpu s]"
  have c: "MLFQ_target s cpuid t = least_loop s ?cs (MLFQ_load s cpuid) cpuid"
    using assms by (simp add: MLFQ_target_def)
  note min = least_loop_min [of "MLFQ_load s cpuid" s cpuid ?cs, folded c]
  have first: "least_loop s cs m b = b \<or> least_loop s cs m b \<in> set cs" for cs m b
    by (induction cs arbitrary: m b) auto
  have stay: "least_loop s cs m b = b" if "\<forall>c \<in> set cs. m < MLFQ_load s c" for cs m b
    using that by (induction cs arbitrary: m b) auto
  have move: "least_loop s cs m b \<in> set cs" if "\<exists>c \<in> set cs. MLFQ_load s c \<le> m" for cs m b
    using that
  proof (induction cs arbitrary: m b)
    case (Cons c cs)
    then show ?case using first [of cs "MLFQ_load s c" c] by auto
  qed simp
  show ?thesis
  proof (cases "\<exists>c < ncpu s. allowed set_of c \<and> MLFQ_load s c \<le> MLFQ_load s cpuid")
    case True
    then have "MLFQ_target s cpuid t \<in> set ?cs" unfolding c by (intro move) auto
    then show ?thesis using True min by auto
  next
    case False
    then show ?thesis unfolding c by (auto intro!: stay)
  qed
qed

lemma next_loop_None: "next_loop s cpuid ls = (None, s') \<Longrightarrow> s' = s \<and> (\<forall>l \<in> set ls. run_qs s cpuid l = [])"
  by (induction ls) (auto split: list.splits)

lemma next_loop_Some:
  "next_loop s cpuid ls = (Some t, s') \<Longrightarrow> \<exists>as l bs ps. ls = as @ l # bs \<and> (\<forall>m \<in> set as. run_qs s cpuid m = [])
    \<and> run_qs s cpuid l = t # ps \<and> s' = pick cpuid l t ps s"
proof (induction ls)
  case (Cons l ls)
  show ?case
  proof (cases "run_qs s cpuid l")
    case Nil
    then obtain as m bs ps where "ls = as @ m # bs" "\<forall>k \<in> set as. run_qs s cpuid k = []" "run_qs s cpuid m = t # ps"
      "s' = pick cpuid m t ps s"
      using Cons by auto
    then have "l # ls = (l # as) @ m # bs \<and> (\<forall>k \<in> set (l # as). run_qs s cpuid k = []) \<and> run_qs s cpuid m = t # ps \<and> s' = pick cpuid m t ps s"
      using Nil by simp
    then show ?thesis by blast
  next
    case (Cons u ps)
    then have "l # ls = [] @ l # ls \<and> (\<forall>m \<in> set []. run_qs s cpuid m = []) \<and> run_qs s cpuid l = t # ps \<and> s' = pick cpuid l t ps s"
      using \<open>next_loop s cpuid (l # ls) = (Some t, s')\<close> by auto
    then show ?thesis by blast
  qed
qed simp

lemma level_split:
  assumes "[3, 2, 1, 0] = as @ l # bs"
  shows "l \<in> {0..3} \<and> (\<forall>m. l < m \<and> m \<le> (3 :: int) \<longrightarrow> m \<in> set as)"
proof -
  have "length as + length bs = 3" using arg_cong [OF assms, of length] by simp
  then consider "length as = 0" | "length as = 1" | "length as = 2" | "length as = 3" by linarith
  moreover have "as = take (length as) [3, 2, 1, 0]" "l = [3, 2, 1, 0] ! length as" unfolding assms by simp_all
  ultimately show ?thesis by cases auto
qed

text \<open>C22: The highest level runs first.  \<^verbatim>\<open>MLFQ_get_next_thread\<close> takes the first thread of a non-empty queue above which all
  queues of the core are empty, gives it the quantum of that level and makes it running; it returns nothing exactly when all four queues of the core are
  empty.\<close>

theorem MLFQ_get_next_thread_highest:
  "case MLFQ_get_next_thread s cpuid of
     (None, s') \<Rightarrow> s' = s \<and> MLFQ_load s cpuid = 0
   | (Some t, s') \<Rightarrow> \<exists>l ps. run_qs s cpuid l = t # ps \<and> l \<in> {0..3} \<and> (\<forall>m. l < m \<and> m \<le> MLFQ_HIGH \<longrightarrow> run_qs s cpuid m = [])
      \<and> run_qs s' cpuid l = ps \<and> ti_state (threads s' t) = T_RUNNING
      \<and> ts_timeslice (ti_sched (threads s' t)) = quantum s cpuid l"
proof (cases "MLFQ_get_next_thread s cpuid")
  case (Pair r s')
  show ?thesis
  proof (cases r)
    case None
    then have "s' = s \<and> (\<forall>l \<in> set levels. run_qs s cpuid l = [])"
      using Pair by (intro next_loop_None) (simp add: MLFQ_get_next_thread_def)
    then show ?thesis using Pair None by (simp add: MLFQ_load_def levels_def)
  next
    case (Some t)
    then obtain as l bs ps where l: "[3, 2, 1, 0] = as @ l # bs" "\<forall>m \<in> set as. run_qs s cpuid m = []" "run_qs s cpuid l = t # ps"
      "s' = pick cpuid l t ps s"
      using next_loop_Some [of s cpuid levels t s'] Pair unfolding levels_def MLFQ_get_next_thread_def by blast
    note lv = conjunct1 [OF level_split [OF l(1)]] conjunct2 [OF level_split [OF l(1)]]
    have "run_qs s' cpuid l = ps" "ti_state (threads s' t) = T_RUNNING" "ts_timeslice (ti_sched (threads s' t)) = quantum s cpuid l"
      using l(4) by (simp_all add: pick_def set_rq_def thread_enter_state_def set_sched_def set_thread_def)
    then have "\<exists>l ps. run_qs s cpuid l = t # ps \<and> l \<in> {0..3} \<and> (\<forall>m. l < m \<and> m \<le> MLFQ_HIGH \<longrightarrow> run_qs s cpuid m = [])
      \<and> run_qs s' cpuid l = ps \<and> ti_state (threads s' t) = T_RUNNING
      \<and> ts_timeslice (ti_sched (threads s' t)) = quantum s cpuid l"
      using l(2,3) lv by blast
    then show ?thesis using Some Pair by simp
  qed
qed

section \<open>Balancing\<close>

text \<open>All threads queued at a level, over all cores, and the states that differ in the run queues only.\<close>

definition level_threads :: "kstate \<Rightarrow> int \<Rightarrow> addr multiset" where
  "level_threads s l = (\<Sum>c < ncpu s. mset (run_qs s c l))"

definition moved :: "kstate \<Rightarrow> kstate \<Rightarrow> bool" where
  "moved s s' \<longleftrightarrow> (\<forall>l. level_threads s' l = level_threads s l) \<and> s' = s\<lparr>run_qs := run_qs s'\<rparr>"

lemma moved_refl [simp]: "moved s s"
  by (simp add: moved_def)

lemma moved_ncpu: "moved s s' \<Longrightarrow> ncpu s' = ncpu s"
  unfolding moved_def by (metis kstate.select_convs(6) kstate.surjective kstate.update_convs(2))

lemma moved_trans: "moved s s' \<Longrightarrow> moved s' s'' \<Longrightarrow> moved s s''"
  unfolding moved_def by (metis kstate.surjective kstate.update_convs(2))

lemma q_migrate_mset:
  assumes "q_migrate dst src pos n whence = (err, d, r)"
  shows "mset d + mset r = mset dst + mset src"
proof -
  have "mset (take pos src) + (mset (take n (drop pos src)) + mset (drop (pos + n) src)) = mset src"
    by (metis append_take_drop_id drop_drop add.commute mset_append)
  then show ?thesis
    using assms by (auto simp: q_migrate_def Let_def ac_simps split: if_splits)
qed

lemma sum_two_changed:
  fixes f g :: "nat \<Rightarrow> 'a::comm_monoid_add"
  assumes "a < n" "b < n" "a \<noteq> b" "f a + f b = g a + g b" "\<And>c. c \<noteq> a \<Longrightarrow> c \<noteq> b \<Longrightarrow> f c = g c"
  shows "(\<Sum>c < n. f c) = (\<Sum>c < n. g c)"
proof -
  have split: "(\<Sum>c < n. h c) = h a + h b + (\<Sum>c \<in> {..<n} - {a, b}. h c)" for h :: "nat \<Rightarrow> 'a"
  proof -
    have "(\<Sum>c < n. h c) = h a + (\<Sum>c \<in> {..<n} - {a}. h c)" using assms(1) by (intro sum.remove) auto
    also have "(\<Sum>c \<in> {..<n} - {a}. h c) = h b + (\<Sum>c \<in> {..<n} - {a} - {b}. h c)" using assms(2,3) by (intro sum.remove) auto
    also have "{..<n} - {a} - {b} = {..<n} - {a, b}" by blast
    finally show ?thesis by (simp add: add.assoc)
  qed
  have "(\<Sum>c \<in> {..<n} - {a, b}. f c) = (\<Sum>c \<in> {..<n} - {a, b}. g c)" using assms(5) by (intro sum.cong) auto
  then show ?thesis unfolding split using assms(4) by simp
qed

lemma migrate_level_moved:
  assumes "dc < ncpu s" "sc < ncpu s" "dc \<noteq> sc" "migrate_level dc sc l n whence s = (err, s')"
  shows "moved s s'"
proof -
  obtain e d r where q: "q_migrate (run_qs s dc l) (run_qs s sc l) (length (run_qs s sc l) div 2) n whence = (e, d, r)"
    by (cases "q_migrate (run_qs s dc l) (run_qs s sc l) (length (run_qs s sc l) div 2) n whence")
  show ?thesis
  proof (cases "e = 0")
    case True
    then have s': "s' = set_rq dc l d (set_rq sc l r s)" using assms(4) q by (simp add: migrate_level_def)
    have "level_threads s' m = level_threads s m" for m
    proof (cases "m = l")
      case True
      have "(\<Sum>c < ncpu s. mset (run_qs s' c l)) = (\<Sum>c < ncpu s. mset (run_qs s c l))"
        using assms(1-3) q_migrate_mset [OF q] by (intro sum_two_changed [of dc _ sc]) (auto simp: s' set_rq_def)
      then show ?thesis using True by (simp add: level_threads_def s' set_rq_def)
    next
      case False
      then have "run_qs s' c m = run_qs s c m" for c by (simp add: s' set_rq_def)
      then show ?thesis by (simp add: level_threads_def s' set_rq_def)
    qed
    then show ?thesis by (simp add: moved_def s' set_rq_def)
  next
    case False
    then show ?thesis using assms(4) q by (simp add: migrate_level_def)
  qed
qed

lemma pull_loop_moved:
  "cpuid < ncpu s \<Longrightarrow> target < ncpu s \<Longrightarrow> cpuid \<noteq> target \<Longrightarrow> moved s (snd (pull_loop avail cpuid target ld ls pulled s))"
proof (induction ls arbitrary: pulled s)
  case (Cons l ls)
  let ?n = "if length (run_qs s target l) = 1 then 1 else length (run_qs s target l) div 2"
  obtain err s' where m: "migrate_level cpuid target l ?n QUEUE_TAIL s = (err, s')" by (cases "migrate_level cpuid target l ?n QUEUE_TAIL s")
  have mv: "moved s s'" using migrate_level_moved [OF Cons.prems m] .
  have "moved s' (snd (pull_loop avail cpuid target ld ls p s'))" for p
    using Cons moved_ncpu [OF mv] by simp
  then show ?case using Cons m moved_trans [OF mv] by (simp add: Let_def)
qed simp

lemma push_loop_moved:
  "cpuid < ncpu s \<Longrightarrow> target < ncpu s \<Longrightarrow> cpuid \<noteq> target \<Longrightarrow> moved s (push_loop avail cpuid target my ls pushed s)"
proof (induction ls arbitrary: pushed s)
  case (Cons l ls)
  let ?n = "if length (run_qs s cpuid l) \<ge> 2 then length (run_qs s cpuid l) div 2 else length (run_qs s cpuid l)"
  obtain err s' where m: "migrate_level target cpuid l ?n QUEUE_HEAD s = (err, s')" by (cases "migrate_level target cpuid l ?n QUEUE_HEAD s")
  have mv: "moved s s'" using migrate_level_moved [OF Cons.prems(2,1) _ m] Cons.prems(3) by auto
  have "moved s' (push_loop avail cpuid target my ls p s')" for p
    using Cons moved_ncpu [OF mv] by simp
  then show ?case using Cons m moved_trans [OF mv] by (simp add: Let_def)
qed simp

lemma pull_target_core:
  "pull_target s cpuid cs ld best = (ld', Some c) \<Longrightarrow> (best = Some c \<and> ld' = ld) \<or> (c \<in> set cs \<and> c \<noteq> cpuid \<and> ld' = MLFQ_load s c)"
  by (induction cs arbitrary: ld best) (auto split: if_splits)

lemma push_target_core:
  "push_target s cpuid cs ld best = (ld', Some c) \<Longrightarrow> (best = Some c \<and> ld' = ld) \<or> (c \<in> set cs \<and> c \<noteq> cpuid \<and> ld' = MLFQ_load s c \<and> ld' \<le> ld)"
  by (induction cs arbitrary: ld best) (fastforce split: if_splits)+

lemma MLFQ_pull_moved: "cpuid < ncpu s \<Longrightarrow> moved s (MLFQ_pull avail s cpuid)"
  unfolding MLFQ_pull_def by (auto split: prod.splits option.splits dest!: pull_target_core intro!: pull_loop_moved)

lemma MLFQ_push_moved: "cpuid < ncpu s \<Longrightarrow> moved s (MLFQ_push avail s cpuid)"
  unfolding MLFQ_push_def by (auto split: prod.splits option.splits dest!: push_target_core intro!: push_loop_moved)

text \<open>C23: Balancing loses no thread.  Whatever locks \<^verbatim>\<open>MLFQ_balance\<close> gets, pushing and pulling only move threads between cores: over all
  cores together every level holds the same threads as before, each as often as before, and nothing but the run queues changes.\<close>

theorem MLFQ_balance_keeps_threads:
  assumes "cpuid < ncpu s"
  shows "(\<forall>l. level_threads (MLFQ_balance avail s cpuid) l = level_threads s l) \<and>
    MLFQ_balance avail s cpuid = s\<lparr>run_qs := run_qs (MLFQ_balance avail s cpuid)\<rparr>"
proof -
  have "moved s (MLFQ_balance avail s cpuid)"
    using MLFQ_pull_moved [OF assms] MLFQ_push_moved [OF assms] by (simp add: MLFQ_balance_def Let_def)
  then show ?thesis unfolding moved_def .
qed

text \<open>Threads are pushed to idle cores only.  \<^verbatim>\<open>MLFQ_push\<close> changes nothing unless another core has no thread at all, although it is meant to
  relieve a core that has more threads than another.\<close>

theorem MLFQ_push_idle_only:
  assumes "MLFQ_push avail s cpuid \<noteq> s"
  shows "\<exists>c < ncpu s. c \<noteq> cpuid \<and> MLFQ_load s c = 0"
proof -
  obtain ld c where c: "push_target s cpuid [0..<ncpu s] 0 None = (ld, Some c)"
    using assms by (auto simp: MLFQ_push_def split: prod.splits option.splits)
  then show ?thesis using push_target_core [OF c] by auto
qed

section \<open>Aging\<close>

text \<open>A thread waits at one place: once in one queue, the queue of its priority.\<close>

definition waits_at :: "kstate \<Rightarrow> addr \<Rightarrow> nat \<Rightarrow> int \<Rightarrow> bool" where
  "waits_at s t c l \<longleftrightarrow> t \<noteq> NULL \<and> count_list (run_qs s c l) t = 1 \<and> (\<forall>c' l'. (c', l') \<noteq> (c, l) \<longrightarrow> t \<notin> set (run_qs s c' l'))
    \<and> ts_priority (ti_sched (threads s t)) = l"

abbreviation age :: "kstate \<Rightarrow> addr \<Rightarrow> int" where
  "age s t \<equiv> ts_age (ti_sched (threads s t))"

lemmas mlfq_upd = set_sched_def set_thread_def set_rq_def thread_set_prio_def

lemma count_remove1: "count_list (remove1 x xs) y = (if x = y then count_list xs y - 1 else count_list xs y)"
  by (induction xs) (auto simp: count_list_0_iff)

lemma sched_upd_simps:
  "set_sched t f (set_sched t g s) = set_sched t (\<lambda>r. f (g r)) s"
  "set_rq c l ps (set_sched t f s) = set_sched t f (set_rq c l ps s)"
  "run_qs (set_sched t f s) = run_qs s"
  by (simp_all add: mlfq_upd)

lemma set_prio_sched: "\<exists>f. snd (thread_set_prio t p s) = set_sched t f s"
proof (cases "t = NULL \<or> p < MLFQ_LOW \<or> p > MLFQ_HIGH")
  case True
  then have "snd (thread_set_prio t p s) = set_sched t (\<lambda>r. r) s" by (auto simp: mlfq_upd)
  then show ?thesis by blast
qed (auto simp: thread_set_prio_def)

lemma bump_sched: "thread_bump_priority t how n s = (e, old, new, s') \<Longrightarrow> \<exists>f. s' = set_sched t f s"
proof -
  have "s = set_sched t (\<lambda>r. r) s" by (simp add: mlfq_upd)
  then show "thread_bump_priority t how n s = (e, old, new, s') \<Longrightarrow> ?thesis"
    by (auto simp: thread_bump_priority_def Let_def split: if_splits)
qed

text \<open>Aging one thread changes its own scheduling data and perhaps moves it to another queue of the same core.\<close>

lemma age_thread_cases:
  obtains f where "age_thread avail c l u s = set_sched u f s"
  | f ps m where "q_detach (run_qs s c l) u = Some ps"
    "age_thread avail c l u s = set_sched u f (set_rq c m (snd (q_enqueue (run_qs (set_rq c l ps s) c m) u QUEUE_TAIL)) (set_rq c l ps s))"
proof -
  let ?s = "set_sched u (\<lambda>r. r\<lparr>ts_age := ts_age r + 1\<rparr>) s"
  obtain e old new s1 where b: "thread_bump_priority u THREAD_PRIO_INC 1 ?s = (e, old, new, s1)" by (rule prod_cases4)
  then obtain f1 where s1: "s1 = set_sched u f1 s" using bump_sched by (fastforce simp: sched_upd_simps)
  let ?new = "if new > MLFQ_HIGH then MLFQ_HIGH else new"
  let ?s2 = "if new > MLFQ_HIGH then snd (thread_set_prio u ?new s1) else s1"
  have "\<exists>f2. ?s2 = set_sched u f2 s" using s1 set_prio_sched [of u MLFQ_HIGH s1] by (auto simp: sched_upd_simps)
  then obtain f2 where s2: "?s2 = set_sched u f2 s" ..
  obtain f3 where s3: "snd (thread_set_prio u old ?s2) = set_sched u f3 s"
    using s2 set_prio_sched [of u old ?s2] by (auto simp: sched_upd_simps)
  show ?thesis
  proof (cases "ts_age (ti_sched (threads ?s u)) > 5 \<and> avail c ?new \<and> u \<in> set (run_qs s c l)")
    case True
    then have "q_detach (run_qs ?s2 c l) u = Some (remove1 u (run_qs s c l))" by (simp add: s2 q_detach_def sched_upd_simps)
    then have "age_thread avail c l u s = set_sched u (\<lambda>r. f2 r\<lparr>ts_age := 0\<rparr>) (set_rq c ?new
      (snd (q_enqueue (run_qs (set_rq c l (remove1 u (run_qs s c l)) s) c ?new) u QUEUE_TAIL)) (set_rq c l (remove1 u (run_qs s c l)) s))"
      using True b s2 by (simp add: age_thread_def Let_def sched_upd_simps del: if_split)
    then show ?thesis using that(2) True by (simp add: q_detach_def)
  next
    case False
    then have "age_thread avail c l u s = ?s \<or> age_thread avail c l u s = set_sched u f3 s"
      using b s2 s3 by (auto simp: age_thread_def Let_def q_detach_def sched_upd_simps simp del: if_split)
    then show ?thesis using that(1) by auto
  qed
qed

lemma age_thread_other_rec:
  assumes "u \<noteq> t"
  shows "ti_sched (threads (age_thread avail c l u s) t) = ti_sched (threads s t)"
  using assms by (rule_tac age_thread_cases [of avail c l u s]) (simp_all add: mlfq_upd)

lemma age_thread_other_count:
  assumes "u \<noteq> t"
  shows "count_list (run_qs (age_thread avail c l u s) c' l') t = count_list (run_qs s c' l') t"
  using assms
  by (rule_tac age_thread_cases [of avail c l u s]) (auto simp: mlfq_upd q_detach_def q_enqueue_def count_remove1 split: if_splits)

lemma waits_other:
  assumes "u \<noteq> t"
  shows "waits_at (age_thread avail c' l' u s) t c l \<longleftrightarrow> waits_at s t c l" "age (age_thread avail c' l' u s) t = age s t"
proof -
  have "t \<in> set (run_qs (age_thread avail c' l' u s) d m) \<longleftrightarrow> t \<in> set (run_qs s d m)" for d m
    using age_thread_other_count [OF assms, of avail c' l' s d m] by (metis count_list_0_iff)
  then show "waits_at (age_thread avail c' l' u s) t c l \<longleftrightarrow> waits_at s t c l"
    unfolding waits_at_def age_thread_other_rec [OF assms] age_thread_other_count [OF assms] by blast
  show "age (age_thread avail c' l' u s) t = age s t" using assms by (simp add: age_thread_other_rec)
qed

lemma waits_others:
  "t \<notin> set us \<Longrightarrow> (waits_at (fold (age_thread avail c' l') us s) t c l \<longleftrightarrow> waits_at s t c l) \<and>
    age (fold (age_thread avail c' l') us s) t = age s t"
proof (induction us arbitrary: s)
  case (Cons u us)
  then have "u \<noteq> t" "t \<notin> set us" by auto
  then show ?case using Cons.IH [OF \<open>t \<notin> set us\<close>, of "age_thread avail c' l' u s"] by (simp only: fold.simps comp_apply waits_other [OF \<open>u \<noteq> t\<close>])
qed simp

lemma age_thread_self:
  assumes "waits_at s t c l" "l < MLFQ_HIGH" "\<And>m. avail c m"
  shows "if age s t + 1 > 5 then waits_at (age_thread avail c l t s) t c (l + 1) \<and> age (age_thread avail c l t s) t = 0
    else waits_at (age_thread avail c l t s) t c l \<and> age (age_thread avail c l t s) t = age s t + 1"
proof -
  have c: "count_list (run_qs s c l) t = 1" and n: "t \<noteq> NULL" and p: "ts_priority (ti_sched (threads s t)) = l"
    and o: "\<forall>c' l'. (c', l') \<noteq> (c, l) \<longrightarrow> t \<notin> set (run_qs s c' l')"
    using assms(1) by (simp_all add: waits_at_def)
  have in_q: "t \<in> set (run_qs s c l)" using c by (metis count_list_0_iff zero_neq_one)
  have gone: "t \<notin> set (remove1 t (run_qs s c l))"
    using c count_remove1 [of t "run_qs s c l" t] by (metis count_list_0_iff diff_self_eq_0)
  have o': "t \<notin> set (run_qs s c (l + 1))" "count_list (run_qs s c (l + 1)) t = 0" using o by (simp_all add: count_list_0_iff)
  show ?thesis
  proof (cases "age s t + 1 > 5")
    case True
    have "age_thread avail c l t s = set_sched t (\<lambda>r. r\<lparr>ts_age := 0\<rparr>) (set_rq c (l + 1) (run_qs s c (l + 1) @ [t])
      (set_rq c l (remove1 t (run_qs s c l)) (set_sched t (\<lambda>r. r\<lparr>ts_priority := l + 1\<rparr>) (set_sched t (\<lambda>r. r\<lparr>ts_age := ts_age r + 1\<rparr>) s))))"
      using True n p in_q assms(2,3) o'(1)
      by (simp add: age_thread_def thread_bump_priority_def mlfq_upd q_detach_def q_enqueue_def Let_def)
    then show ?thesis using True n o o'(2) gone by (simp add: waits_at_def mlfq_upd)
  next
    case False
    then have "age_thread avail c l t s = set_sched t (\<lambda>r. r\<lparr>ts_age := ts_age r + 1\<rparr>) s"
      by (simp add: age_thread_def mlfq_upd Let_def)
    then show ?thesis using False assms(1) by (simp add: waits_at_def mlfq_upd)
  qed
qed

lemma age_level_elsewhere:
  assumes "waits_at s t c l" "(c', l') \<noteq> (c, l)"
  shows "waits_at (age_level avail c' l' s) t c l \<and> age (age_level avail c' l' s) t = age s t"
proof -
  have "t \<notin> set (run_qs s c' l')" using assms by (auto simp: waits_at_def)
  then show ?thesis using assms(1) waits_others by (simp add: age_level_def)
qed

lemma count_one_split:
  assumes "count_list xs x = 1"
  obtains as bs where "xs = as @ x # bs" "x \<notin> set as" "x \<notin> set bs"
proof -
  have "x \<in> set xs" using assms by (metis count_list_0_iff zero_neq_one)
  then obtain as bs where ab: "xs = as @ x # bs" "x \<notin> set as" by (auto dest: split_list_first)
  then have "count_list bs x = 0" using assms by (simp add: count_list_0_iff [symmetric])
  then show ?thesis using that ab by (simp add: count_list_0_iff)
qed

lemma age_level_here:
  assumes "waits_at s t c l" "l < MLFQ_HIGH" "\<And>m. avail c m"
  shows "if age s t + 1 > 5 then waits_at (age_level avail c l s) t c (l + 1) \<and> age (age_level avail c l s) t = 0
    else waits_at (age_level avail c l s) t c l \<and> age (age_level avail c l s) t = age s t + 1"
proof -
  have "count_list (run_qs s c l) t = 1" using assms(1) by (simp add: waits_at_def)
  then obtain as bs where ab: "run_qs s c l = as @ t # bs" "t \<notin> set as" "t \<notin> set bs"
    by (rule count_one_split)
  define u where "u = fold (age_thread avail c l) as s"
  have u: "waits_at u t c l" "age u t = age s t" using waits_others [OF ab(2)] assms(1) by (simp_all add: u_def)
  have "age_level avail c l s = fold (age_thread avail c l) bs (age_thread avail c l t u)"
    using assms(2) by (simp add: age_level_def ab(1) u_def)
  then show ?thesis using age_thread_self [of u t c l avail] u assms(2,3) waits_others [OF ab(3)] by simp
qed

lemma age_levels_elsewhere:
  assumes "waits_at s t c l" "d \<noteq> c \<or> l \<notin> set ls"
  shows "waits_at (fold (age_level avail d) ls s) t c l \<and> age (fold (age_level avail d) ls s) t = age s t"
  using assms
proof (induction ls arbitrary: s)
  case (Cons m ls)
  then have "waits_at (age_level avail d m s) t c l" "age (age_level avail d m s) t = age s t"
    using age_level_elsewhere [of s t c l d m avail] by auto
  then show ?case using Cons.IH [of "age_level avail d m s"] Cons.prems(2) by auto
qed simp

lemma age_levels_up:
  assumes "waits_at s t c l" "l < MLFQ_HIGH" "\<And>m. avail c m" "l + 1 \<notin> set ls" "l \<notin> set ls"
  shows "\<exists>l' a. waits_at (fold (age_level avail c) (l # (l + 1) # ls) s) t c l' \<and> age (fold (age_level avail c) (l # (l + 1) # ls) s) t = a
    \<and> (if age s t + 1 > 5 then l' = l + 1 \<and> 0 \<le> a else l' = l \<and> a = age s t + 1)"
proof -
  let ?u = "age_level avail c l s"
  note here = age_level_here [of s t c l avail, OF assms(1,2,3)]
  show ?thesis
  proof (cases "age s t + 1 > 5")
    case True
    then have u: "waits_at ?u t c (l + 1)" "age ?u t = 0" using here by simp_all
    have v: "waits_at (age_level avail c (l + 1) ?u) t c (l + 1) \<and> 0 \<le> age (age_level avail c (l + 1) ?u) t"
    proof (cases "l + 1 = MLFQ_HIGH")
      case True then show ?thesis using u by (simp add: age_level_def)
    next
      case False
      then show ?thesis using age_level_here [of ?u t c "l + 1" avail, OF u(1) _ assms(3)] u(2) assms(2) by simp
    qed
    then show ?thesis using True age_levels_elsewhere [of _ t c "l + 1" c ls avail, OF conjunct1 [OF v]] assms(4) by auto
  next
    case False
    then have u: "waits_at ?u t c l" "age ?u t = age s t + 1" using here by simp_all
    have "l \<notin> set ((l + 1) # ls)" using assms(5) by simp
    then show ?thesis using False u age_levels_elsewhere [OF u(1), of c "(l + 1) # ls" avail] by auto
  qed
qed

lemma age_core_here:
  assumes "waits_at s t c l" "0 \<le> l" "l < MLFQ_HIGH" "\<And>m. avail c m"
  shows "\<exists>l' a. waits_at (fold (age_level avail c) levels_reverse s) t c l' \<and> age (fold (age_level avail c) levels_reverse s) t = a
    \<and> (if age s t + 1 > 5 then l' = l + 1 \<and> 0 \<le> a else l' = l \<and> a = age s t + 1)"
proof -
  consider "l = 0" | "l = 1" | "l = 2" using assms(2,3) by linarith
  then obtain as bs where lv: "levels_reverse = as @ l # (l + 1) # bs" "l \<notin> set as" "l + 1 \<notin> set bs" "l \<notin> set bs"
  proof cases
    case 1 then show ?thesis using that [of "[]" "[2, 3]"] by (simp add: levels_reverse_def)
  next
    case 2 then show ?thesis using that [of "[0]" "[3]"] by (simp add: levels_reverse_def)
  next
    case 3 then show ?thesis using that [of "[0, 1]" "[]"] by (simp add: levels_reverse_def)
  qed
  let ?u = "fold (age_level avail c) as s"
  have u: "waits_at ?u t c l" "age ?u t = age s t" using age_levels_elsewhere [OF assms(1), of c as avail] lv(2) by auto
  have eq: "fold (age_level avail c) levels_reverse s = fold (age_level avail c) (l # (l + 1) # bs) ?u" by (simp add: lv(1))
  show ?thesis unfolding eq using age_levels_up [of ?u t c l avail bs, OF u(1) assms(3,4) lv(3,4)] unfolding u(2) .
qed

lemma age_cores_elsewhere:
  "waits_at s t c l \<Longrightarrow> c \<notin> set cs \<Longrightarrow>
    waits_at (fold (\<lambda>d. fold (age_level avail d) levels_reverse) cs s) t c l \<and>
    age (fold (\<lambda>d. fold (age_level avail d) levels_reverse) cs s) t = age s t"
proof (induction cs arbitrary: s)
  case (Cons d cs)
  then have "waits_at (fold (age_level avail d) levels_reverse s) t c l \<and> age (fold (age_level avail d) levels_reverse s) t = age s t"
    by (intro age_levels_elsewhere) auto
  then show ?case using Cons by simp
qed simp

lemma fold_cores_here:
  assumes "c < ncpu s" "waits_at s t c l"
  obtains u cs where "waits_at u t c l" "age u t = age s t" "c \<notin> set cs"
    "MLFQ_aging avail s = fold (\<lambda>d. fold (age_level avail d) levels_reverse) cs (fold (age_level avail c) levels_reverse u)"
proof -
  have cs: "[0..<ncpu s] = [0..<c] @ c # [Suc c..<ncpu s]"
    using assms(1) by (metis less_imp_add_positive upt_add_eq_append upt_conv_Cons zero_le)
  let ?u = "fold (\<lambda>d. fold (age_level avail d) levels_reverse) [0..<c] s"
  have "waits_at ?u t c l \<and> age ?u t = age s t" using assms(2) by (intro age_cores_elsewhere) simp_all
  moreover have "MLFQ_aging avail s = fold (\<lambda>d. fold (age_level avail d) levels_reverse) [Suc c..<ncpu s] (fold (age_level avail c) levels_reverse ?u)"
    unfolding MLFQ_aging_def cs by simp
  ultimately show ?thesis using that [of ?u "[Suc c..<ncpu s]"] by simp
qed

lemma aging_round:
  assumes "waits_at s t c l" "0 \<le> l" "l < MLFQ_HIGH" "c < ncpu s" "\<And>m. avail c m"
  shows "\<exists>l'. waits_at (MLFQ_aging avail s) t c l' \<and>
    (if age s t + 1 > 5 then l' = l + 1 \<and> 0 \<le> age (MLFQ_aging avail s) t else l' = l \<and> age (MLFQ_aging avail s) t = age s t + 1)"
proof -
  obtain u cs where u: "waits_at u t c l" "age u t = age s t" "c \<notin> set cs"
    "MLFQ_aging avail s = fold (\<lambda>d. fold (age_level avail d) levels_reverse) cs (fold (age_level avail c) levels_reverse u)"
    using fold_cores_here [OF assms(4,1), of avail] by blast
  then show ?thesis using age_core_here [OF u(1) assms(2,3), of avail] assms(5) age_cores_elsewhere [OF _ u(3)] by (metis (lifting))
qed

lemma aging_top:
  assumes "waits_at s t c MLFQ_HIGH" "c < ncpu s"
  shows "waits_at (MLFQ_aging avail s) t c MLFQ_HIGH"
proof -
  obtain u cs where u: "waits_at u t c MLFQ_HIGH" "age u t = age s t" "c \<notin> set cs"
    "MLFQ_aging avail s = fold (\<lambda>d. fold (age_level avail d) levels_reverse) cs (fold (age_level avail c) levels_reverse u)"
    using fold_cores_here [OF assms(2,1), of avail] by blast
  have "age_level avail c MLFQ_HIGH v = v" for v by (simp add: age_level_def)
  then have "fold (age_level avail c) levels_reverse u = fold (age_level avail c) [0, 1, 2] u" by (simp add: levels_reverse_def)
  then have "waits_at (fold (age_level avail c) levels_reverse u) t c MLFQ_HIGH"
    using age_levels_elsewhere [OF u(1), of c "[0, 1, 2]" avail] by (simp del: fold.simps)
  then show ?thesis using age_cores_elsewhere u by metis
qed

lemma fold_keeps_ncpu: "(\<And>x s. ncpu (f x s) = ncpu s) \<Longrightarrow> ncpu (fold f xs s) = ncpu s"
  by (induction xs arbitrary: s) auto

lemma aging_ncpu: "ncpu (MLFQ_aging avail s) = ncpu s"
proof -
  have "ncpu (age_thread avail c l u s) = ncpu s" for c l u s
    by (rule age_thread_cases [of avail c l u s]) (simp_all add: mlfq_upd)
  then have "ncpu (age_level avail c l s) = ncpu s" for c l s by (simp add: age_level_def fold_keeps_ncpu)
  then show ?thesis by (simp add: MLFQ_aging_def fold_keeps_ncpu)
qed

definition rounds_needed :: "kstate \<Rightarrow> addr \<Rightarrow> int \<Rightarrow> int" where
  "rounds_needed s t l = (if l = MLFQ_HIGH then 0 else 6 * (3 - l) - min (age s t) 5)"

lemma aging_reaches_top:
  assumes "waits_at s t c l" "0 \<le> l" "l \<le> MLFQ_HIGH" "c < ncpu s" "0 \<le> age s t" "\<And>m. avail c m" "rounds_needed s t l \<le> int n"
  shows "waits_at ((MLFQ_aging avail ^^ n) s) t c MLFQ_HIGH"
  using assms
proof (induction n arbitrary: s l)
  case 0
  then have "l = MLFQ_HIGH" by (auto simp: rounds_needed_def split: if_splits)
  then show ?case using 0 by simp
next
  case (Suc n)
  let ?s = "MLFQ_aging avail s"
  have nc: "c < ncpu ?s" using Suc.prems(4) by (simp add: aging_ncpu)
  have step: "(MLFQ_aging avail ^^ Suc n) s = (MLFQ_aging avail ^^ n) ?s" by (simp only: funpow_Suc_right comp_apply)
  show ?case
  proof (cases "l = MLFQ_HIGH")
    case True
    then have top: "waits_at ?s t c MLFQ_HIGH" using aging_top Suc.prems(1,4) by simp
    have "waits_at ((MLFQ_aging avail ^^ n) u) t c MLFQ_HIGH" if "waits_at u t c MLFQ_HIGH" "c < ncpu u" for u
      using that by (induction n arbitrary: u) (simp_all add: funpow_Suc_right aging_top aging_ncpu del: funpow.simps)
    then show ?thesis using top nc step by simp
  next
    case False
    then have l: "l < MLFQ_HIGH" using Suc.prems(3) by simp
    obtain l' where w: "waits_at ?s t c l'"
      and d: "if age s t + 1 > 5 then l' = l + 1 \<and> 0 \<le> age ?s t else l' = l \<and> age ?s t = age s t + 1"
      using aging_round [of s t c l avail] Suc.prems(1,2,4,6) l by blast
    have "0 \<le> l'" "l' \<le> MLFQ_HIGH" "0 \<le> age ?s t" using d Suc.prems(2,5) l by (auto split: if_splits)
    moreover have "rounds_needed ?s t l' \<le> int n"
      using d Suc.prems(5,7) False l by (auto simp: rounds_needed_def split: if_splits)
    ultimately show ?thesis unfolding step using Suc.IH w nc Suc.prems(6) by blast
  qed
qed

text \<open>C24: No thread starves.  When the locks of its core are free, a thread that waits in a run queue is in the highest queue of its core after at
  most eighteen rounds of \<^verbatim>\<open>MLFQ_aging\<close>, whatever level it starts from and whatever other threads are queued, unless it was picked to run before.\<close>

theorem MLFQ_aging_no_starvation:
  assumes "waits_at s t c l" "0 \<le> l" "l \<le> MLFQ_HIGH" "c < ncpu s" "0 \<le> age s t" "\<And>m. avail c m" "18 \<le> n"
  shows "waits_at ((MLFQ_aging avail ^^ n) s) t c MLFQ_HIGH"
  using assms by (intro aging_reaches_top) (auto simp: rounds_needed_def)

section \<open>Samples\<close>

definition idle_thread :: thread where
  "idle_thread = \<lparr>ti_tid = 1, ti_ktid = 0, ti_state = T_READY,
    ti_sched = \<lparr>ts_timeslice = 0, ts_age = 0, ts_flags = 0, ts_short_holds = 0, ts_long_holds = 0, ts_priority = 3, ts_proc = 0,
      ts_hard_affinity = False, ts_cpu_set = - 1\<rparr>,
    ti_flags = 0, t_wakeup = WAKEUP_NONE, t_wait_queue = NULL, t_group = NULL, t_signals = NULL, t_sigmask = 0, t_sigpending = 0,
    t_sigqueue = (\<lambda>n. []), t_nsig_nested = 0, t_uc_sigmask = None, t_event = NULL\<rparr>"

definition sample_mlfq :: kstate where
  "sample_mlfq = \<lparr>threads = (\<lambda>t. idle_thread), run_qs = (\<lambda>c l. if c = 0 \<and> l = 3 then [1, 2, 3] else if c = 1 \<and> l = 3 then [4, 5] else []),
    wait_qs = (\<lambda>q. []), group_qs = (\<lambda>q. []), quantum = (\<lambda>c l. 10), ncpu = 4,
    descs = (\<lambda>a. \<lparr>sig_mask = 0, sigpending = 0, sig_queue = (\<lambda>n. []), sig_action = (\<lambda>n. \<lparr>sa_handler = 0, sa_flags = 0, sa_mask = 0\<rparr>)\<rparr>),
    infos = (\<lambda>a. None), cond_count = (\<lambda>a. 0)\<rparr>"

definition low_mlfq :: kstate where
  "low_mlfq = sample_mlfq\<lparr>threads := (\<lambda>t. idle_thread\<lparr>ti_sched := (ti_sched idle_thread)\<lparr>ts_priority := 0\<rparr>\<rparr>),
    run_qs := (\<lambda>c l. if c = 1 \<and> l = 0 then [4, 5] else [])\<rparr>"

definition bound_mlfq :: kstate where
  "bound_mlfq = sample_mlfq\<lparr>threads := (\<lambda>t. idle_thread\<lparr>ti_sched := (ti_sched idle_thread)\<lparr>ts_hard_affinity := True, ts_cpu_set := 1\<rparr>\<rparr>)\<rparr>"

theorem MLFQ_aging_no_starvation_witness: "waits_at ((MLFQ_aging (\<lambda>c l. True) ^^ 18) low_mlfq) 5 1 MLFQ_HIGH"
  using MLFQ_aging_no_starvation [of low_mlfq 5 1 0 "\<lambda>c l. True" 18]
  by (simp add: low_mlfq_def sample_mlfq_def idle_thread_def waits_at_def)

theorem MLFQ_enqueue_least_loaded_witness:
  "\<exists>c < 4. MLFQ_load sample_mlfq c \<le> MLFQ_load sample_mlfq 2 \<and> MLFQ_enqueue sample_mlfq 0 9 = (0, set_rq c 3 (run_qs sample_mlfq c 3 @ [9]) sample_mlfq)"
proof -
  have s: "ncpu sample_mlfq = 4" "ti_sched (threads sample_mlfq 9) = ti_sched idle_thread" "ts_priority (ti_sched idle_thread) = 3"
    "\<not> ts_hard_affinity (ti_sched idle_thread)" "\<not> queued sample_mlfq 9"
    by (simp_all add: sample_mlfq_def idle_thread_def queued_def)
  then have "has_prio sample_mlfq 9" by (simp add: has_prio_def)
  then obtain c where "c < 4" "\<forall>d < 4. MLFQ_load sample_mlfq c \<le> MLFQ_load sample_mlfq d"
    "MLFQ_enqueue sample_mlfq 0 9 = (0, set_rq c 3 (run_qs sample_mlfq c 3 @ [9]) sample_mlfq)"
    using MLFQ_enqueue_least_loaded [of 9 sample_mlfq 0] s by auto
  then show ?thesis by (intro exI [of _ c]) simp
qed

theorem MLFQ_hard_affinity_choice_witness: "MLFQ_target bound_mlfq 1 9 = 1 \<and> \<not> allowed 1 1"
proof -
  have "list_all (\<lambda>c. \<not> (allowed 1 c \<and> MLFQ_load bound_mlfq c \<le> MLFQ_load bound_mlfq 1)) [0..<ncpu bound_mlfq]" "\<not> allowed 1 1"
    by code_simp+
  moreover have "ts_hard_affinity (ti_sched (threads bound_mlfq 9))" "ts_cpu_set (ti_sched (threads bound_mlfq 9)) = 1"
    by (simp_all add: bound_mlfq_def)
  ultimately show ?thesis using MLFQ_hard_affinity_choice [of bound_mlfq 9 1 1]
    by (auto simp: list_all_iff simp del: One_nat_def split: if_splits)
qed

theorem MLFQ_balance_keeps_threads_witness:
  "level_threads (MLFQ_balance (\<lambda>l. True) sample_mlfq 0) 3 = {#1, 2, 3, 4, 5#}"
  using MLFQ_balance_keeps_threads [of 0 sample_mlfq "\<lambda>l. True"]
  by (simp add: level_threads_def) (simp add: sample_mlfq_def numeral_eq_Suc lessThan_Suc)

theorem MLFQ_push_idle_only_witness: "\<exists>c < 4. c \<noteq> 0 \<and> MLFQ_load sample_mlfq c = 0"
proof -
  have "run_qs (MLFQ_push (\<lambda>l. True) sample_mlfq 0) 0 3 = [1, 3]" by code_simp
  then have "MLFQ_push (\<lambda>l. True) sample_mlfq 0 \<noteq> sample_mlfq" by (auto simp: sample_mlfq_def)
  from MLFQ_push_idle_only [OF this] show ?thesis by (simp add: sample_mlfq_def)
qed

text \<open>Balancing can make things worse.  On four cores of which two have three and two threads, the average load is 1, so that the
  subtraction \<^verbatim>\<open>avg_load - 2\<close> wraps around: the core with the most threads, called to balance, takes one more from the other.\<close>

theorem MLFQ_balance_underflow:
  "map (MLFQ_load sample_mlfq) [0, 1, 2, 3] = [3, 2, 0, 0] \<and>
   map (MLFQ_load (MLFQ_balance (\<lambda>l. True) sample_mlfq 0)) [0, 1, 2, 3] = [4, 1, 0, 0]"
  by code_simp

text \<open>
  The quanta of the four levels, from the highest to the lowest.  The comment in the source announces \<^verbatim>\<open>t + 5 * 2^n\<close>; the comparison
  \<^verbatim>\<open>1 < l++\<close> in place of a shift makes the two lower levels get the same five extra jiffies and the others none.
\<close>

theorem MLFQ_init_quanta: "map (quantum (MLFQ_init t s cpuid) cpuid) levels = [t, t, t + 5, t + 5]"
  by (simp add: MLFQ_init_def levels_def)

theorem MLFQ_get_next_thread_highest_witness: "\<exists>l ps. run_qs sample_mlfq 0 l = 1 # ps \<and> l \<in> {0..3}"
proof -
  have "fst (MLFQ_get_next_thread sample_mlfq 0) = Some 1" by code_simp
  then show ?thesis using MLFQ_get_next_thread_highest [of sample_mlfq 0] by (auto split: prod.splits option.splits)
qed

end
