(* ===== verification/Wait.thy ===== *)
theory Wait
  imports Signal_Proofs Mlfq_Proofs
begin

text \<open>
  Waiting and waking up: \<^verbatim>\<open>sys/sched/sched.c\<close>, \<^verbatim>\<open>sys/thread/thread_sleep.c\<close>, \<^verbatim>\<open>sync/cond.c\<close> and the treatment of a thread
  that returns to the scheduler (\<^verbatim>\<open>sys/sched/scheduler.c\<close>).  A function that blocks is cut where it calls \<^verbatim>\<open>sched\<close>: the part before leaves the
  thread blocked, the part after runs when the thread has been woken up and picked.  \<open>current\<close> is the thread that calls, \<open>cpuid\<close> its
  core, \<open>dispatch\<close> the effect of signal handlers.
\<close>

section \<open>Interruption\<close>

definition validate_wakeup_reason :: "wakeup \<Rightarrow> bool" where
  "validate_wakeup_reason reason \<longleftrightarrow> reason \<in> {WAKEUP_NORMAL, WAKEUP_SIGNAL, WAKEUP_TIMEOUT}"

definition wakeup_interrupt :: "wakeup \<Rightarrow> bool" where
  "wakeup_interrupt reason \<longleftrightarrow> reason = WAKEUP_SIGNAL \<or> reason = WAKEUP_TIMEOUT"

type_synonym dispatcher = "sigaction \<Rightarrow> siginfo \<Rightarrow> kstate \<Rightarrow> kstate"

definition interrupted_error :: "addr \<Rightarrow> wakeup \<Rightarrow> kstate \<Rightarrow> int" where
  "interrupted_error current reason s =
    (if thread_is_canceled s current \<or> wakeup_interrupt reason then (if reason = WAKEUP_TIMEOUT then - ETIMEDOUT else - EINTR) else 0)"

text \<open>The error and the reason that is stored through \<^verbatim>\<open>preason\<close>.\<close>

definition current_check_interrupted :: "dispatcher \<Rightarrow> addr \<Rightarrow> kstate \<Rightarrow> (int \<times> wakeup \<times> kstate) outcome option" where
  "current_check_interrupted dispatch current s =
    (let reason = t_wakeup (threads s current) in
     if reason = WAKEUP_NONE then Some (Returns (interrupted_error current WAKEUP_NONE s, WAKEUP_NONE, s))
     else
       let s = set_thread current (\<lambda>r. r\<lparr>t_wakeup := WAKEUP_NONE\<rparr>) s in
       if reason = WAKEUP_SIGNAL
       then do {
         out \<leftarrow> signal_check_pending dispatch current s;
         case out of
           Exits v \<Rightarrow> Some (Exits v)
         | Returns (_, s) \<Rightarrow> Some (Returns (interrupted_error current reason s, reason, s)) }
       else Some (Returns (interrupted_error current reason s, reason, s)))"

section \<open>Blocking\<close>

definition set_wq :: "addr \<Rightarrow> addr list \<Rightarrow> kstate \<Rightarrow> kstate" where
  "set_wq q ps s = s\<lparr>wait_qs := (wait_qs s)(q := ps)\<rparr>"

definition sched_wait_validate_input :: "addr \<Rightarrow> addr \<Rightarrow> tstate \<Rightarrow> int" where
  "sched_wait_validate_input q current st =
    (if q = NULL \<or> current = NULL then - EINVAL else if st \<noteq> T_SLEEP \<and> st \<noteq> T_STOPPED then - EINVAL else 0)"

datatype wait_entry = Refused int | Blocked

text \<open>
  \<^verbatim>\<open>sched_wait_whence\<close> up to the call of \<^verbatim>\<open>sched\<close>.  A null queue stands for the global sleep queue, whose address is \<open>sleepq\<close>.  When the wait
  is refused the caller goes on with the error, and its lock has not been released.
\<close>

definition sched_wait_whence :: "dispatcher \<Rightarrow> addr \<Rightarrow> addr \<Rightarrow> addr \<Rightarrow> tstate \<Rightarrow> queue_relloc_t \<Rightarrow> kstate \<Rightarrow> (wait_entry \<times> kstate) outcome option" where
  "sched_wait_whence dispatch sleepq current q0 st whence s =
    (let q = (if q0 = NULL then sleepq else q0); err = sched_wait_validate_input q current st in
     if err \<noteq> 0 then Some (Returns (Refused err, s))
     else do {
       out \<leftarrow> current_check_interrupted dispatch current s;
       case out of
         Exits v \<Rightarrow> Some (Exits v)
       | Returns (err, reason, s) \<Rightarrow>
           if err \<noteq> 0 then Some (Returns (Refused err, s))
           else case q_enqueue (wait_qs s q) current whence of
             (err, ps) \<Rightarrow>
               if err \<noteq> 0 then Some (Returns (Refused err, s))
               else Some (Returns (Blocked,
                 set_sched current sched_adjust
                   (thread_enter_state current st (set_thread current (\<lambda>r. r\<lparr>t_wait_queue := q\<rparr>) (set_wq q ps s))))) })"

text \<open>The rest of \<^verbatim>\<open>sched_wait_whence\<close>, after the thread has been switched to again.\<close>

definition sched_wait_resume :: "dispatcher \<Rightarrow> addr \<Rightarrow> kstate \<Rightarrow> (int \<times> kstate) outcome option" where
  "sched_wait_resume dispatch current s = do {
     out \<leftarrow> current_check_interrupted dispatch current s;
     Some (case out of Exits v \<Rightarrow> Exits v | Returns (err, reason, s) \<Rightarrow> Returns (err, s)) }"

definition thread_sleep :: "dispatcher \<Rightarrow> addr \<Rightarrow> kstate \<Rightarrow> (wait_entry \<times> kstate) outcome option" where
  "thread_sleep dispatch current s = do {
     out \<leftarrow> current_check_interrupted dispatch current s;
     Some (case out of
         Exits v \<Rightarrow> Exits v
       | Returns (err, reason, s) \<Rightarrow>
           if err \<noteq> 0 then Returns (Refused err, s)
           else Returns (Blocked, set_sched current sched_adjust (thread_enter_state current T_SLEEP s))) }"

definition sched_yield :: "addr \<Rightarrow> kstate \<Rightarrow> kstate" where
  "sched_yield current s = set_sched current sched_adjust (thread_enter_state current T_READY s)"

section \<open>Waking up\<close>

definition sched_wake_thread :: "nat \<Rightarrow> addr \<Rightarrow> wakeup \<Rightarrow> kstate \<Rightarrow> int \<times> kstate" where
  "sched_wake_thread cpuid t reason s =
    (if t = NULL \<or> \<not> validate_wakeup_reason reason then (- EINVAL, s)
     else if \<not> thread_in_state s t T_STOPPED \<and> \<not> thread_in_state s t T_SLEEP then (- EINVAL, s)
     else thread_schedule (set_thread t (\<lambda>r. r\<lparr>t_wakeup := reason\<rparr>) s) cpuid t)"

definition sched_detach_and_wakeup :: "nat \<Rightarrow> addr \<Rightarrow> addr \<Rightarrow> wakeup \<Rightarrow> kstate \<Rightarrow> (int \<times> kstate) option" where
  "sched_detach_and_wakeup cpuid q t reason s =
    (if q = NULL \<or> t = NULL then Some (- EINVAL, s)
     else do {
       ps \<leftarrow> q_detach (wait_qs s q) t;
       case sched_wake_thread cpuid t reason (set_wq q ps s) of
         (err, s) \<Rightarrow> if err \<noteq> 0 then Some (err, s) else Some (0, set_thread t (\<lambda>r. r\<lparr>t_wait_queue := NULL\<rparr>) s) })"

text \<open>
  The macro \<^verbatim>\<open>queue_foreach_entry_reverse\<close> starts at the head of the queue like the forward one, and the loops return from their first round: both cases take the first
  thread.
\<close>

definition sched_wakeup_whence :: "nat \<Rightarrow> addr \<Rightarrow> wakeup \<Rightarrow> queue_relloc_t \<Rightarrow> kstate \<Rightarrow> (int \<times> kstate) option" where
  "sched_wakeup_whence cpuid q reason whence s =
    (if q = NULL then Some (- EINVAL, s)
     else if whence = QUEUE_TAIL then (case wait_qs s q of t # _ \<Rightarrow> sched_detach_and_wakeup cpuid q t reason s | [] \<Rightarrow> Some (- ESRCH, s))
     else if whence = QUEUE_HEAD then (case wait_qs s q of t # _ \<Rightarrow> sched_detach_and_wakeup cpuid q t reason s | [] \<Rightarrow> Some (- ESRCH, s))
     else Some (- EINVAL, s))"

definition sched_wakeup :: "nat \<Rightarrow> addr \<Rightarrow> wakeup \<Rightarrow> kstate \<Rightarrow> (int \<times> kstate) option" where
  "sched_wakeup cpuid q reason s = sched_wakeup_whence cpuid q reason QUEUE_HEAD s"

fun specific_loop :: "nat \<Rightarrow> addr \<Rightarrow> wakeup \<Rightarrow> int \<Rightarrow> addr list \<Rightarrow> kstate \<Rightarrow> (int \<times> kstate) option" where
  "specific_loop cpuid q reason tid [] s = Some (- ESRCH, s)"
| "specific_loop cpuid q reason tid (t # ts) s =
    (if thread_gettid s t = tid then sched_detach_and_wakeup cpuid q t reason s else specific_loop cpuid q reason tid ts s)"

definition sched_wakeup_specific :: "nat \<Rightarrow> addr \<Rightarrow> wakeup \<Rightarrow> int \<Rightarrow> kstate \<Rightarrow> (int \<times> kstate) option" where
  "sched_wakeup_specific cpuid q reason tid s =
    (if q = NULL \<or> tid \<le> 0 then Some (- EINVAL, s) else specific_loop cpuid q reason tid (wait_qs s q) s)"

text \<open>The second result is the number of threads woken up.\<close>

fun wakeup_loop :: "nat \<Rightarrow> addr \<Rightarrow> wakeup \<Rightarrow> addr list \<Rightarrow> nat \<Rightarrow> kstate \<Rightarrow> (int \<times> nat \<times> kstate) option" where
  "wakeup_loop cpuid q reason [] n s = Some (if n > 0 then 0 else - ESRCH, n, s)"
| "wakeup_loop cpuid q reason (t # ts) n s = do {
     (err, s) \<leftarrow> sched_detach_and_wakeup cpuid q t reason s;
     if err \<noteq> 0 then Some (err, n, s) else wakeup_loop cpuid q reason ts (n + 1) s }"

definition sched_wakeup_all :: "nat \<Rightarrow> addr \<Rightarrow> wakeup \<Rightarrow> kstate \<Rightarrow> (int \<times> nat \<times> kstate) option" where
  "sched_wakeup_all cpuid q reason s =
    (if q = NULL then Some (- EINVAL, 0, s) else wakeup_loop cpuid q reason (wait_qs s q) 0 s)"

definition sched_wait_queue_length :: "addr \<Rightarrow> kstate \<Rightarrow> nat" where
  "sched_wait_queue_length q s = length (wait_qs s q)"

definition thread_wakeup :: "nat \<Rightarrow> addr \<Rightarrow> wakeup \<Rightarrow> kstate \<Rightarrow> (int \<times> kstate) option" where
  "thread_wakeup cpuid t reason s =
    (if t = NULL \<or> \<not> validate_wakeup_reason reason then Some (- EINVAL, s)
     else if thread_isblocked s t
     then
       if t_wait_queue (threads s t) \<noteq> NULL
       then sched_detach_and_wakeup cpuid (t_wait_queue (threads s t)) t reason s
       else Some (thread_schedule (set_thread t (\<lambda>r. r\<lparr>t_wakeup := reason\<rparr>) s) cpuid t)
     else Some (0, s))"

section \<open>Signals and cancellation\<close>

text \<open>\<^verbatim>\<open>sys/signal/kill.c\<close>.  A failed wake-up leaves the record on the queue of the thread.\<close>

definition thread_send_siginfo :: "nat \<Rightarrow> bool \<Rightarrow> addr \<Rightarrow> addr \<Rightarrow> kstate \<Rightarrow> (int \<times> kstate) option" where
  "thread_send_siginfo cpuid mem t p s =
    (if t = NULL \<or> p = NULL then Some (- EINVAL, s)
     else do {
       i \<leftarrow> infos s p;
       let n = si_signo i;
       assert_that (\<not> SIGBAD n);
       case sigqueue_enqueue mem (t_sigqueue (threads s t) n) p of
         (err, ps) \<Rightarrow>
           if err \<noteq> 0 then Some (err, s)
           else do {
             (err, s) \<leftarrow> thread_wakeup cpuid t WAKEUP_SIGNAL (set_thread t (\<lambda>r. r\<lparr>t_sigqueue := (t_sigqueue r)(n := ps)\<rparr>) s);
             if err \<noteq> 0 then Some (err, s)
             else case sigsetadd (t_sigpending (threads s t)) n of
               (err, m) \<Rightarrow> Some (err, set_thread t (\<lambda>r. r\<lparr>t_sigpending := m\<rparr>) s) } })"

definition thread_send_signal :: "nat \<Rightarrow> addr \<Rightarrow> int \<Rightarrow> bool \<Rightarrow> addr \<Rightarrow> int \<Rightarrow> u64 \<Rightarrow> kstate \<Rightarrow> (int \<times> kstate) option" where
  "thread_send_signal cpuid p pid mem t signo val s =
    (if t = NULL \<or> SIGBAD signo then Some (- EINVAL, s)
     else case siginfo_create p pid signo val s of
       (err, s) \<Rightarrow>
         if err \<noteq> 0 then Some (err, s)
         else do {
           (err, s) \<leftarrow> thread_send_siginfo cpuid mem t p s;
           if err \<noteq> 0 then do { s \<leftarrow> siginfo_free p s; Some (err, s) } else Some (0, s) })"

definition pthread_sigqueue :: "nat \<Rightarrow> addr \<Rightarrow> addr \<Rightarrow> int \<Rightarrow> bool \<Rightarrow> int \<Rightarrow> int \<Rightarrow> u64 \<Rightarrow> kstate \<Rightarrow> (int \<times> kstate) option" where
  "pthread_sigqueue cpuid current p pid mem tid signo val s =
    (if SIGBAD signo then Some (- EINVAL, s)
     else case thread_group_get_by_tid s current tid of
       (err, Some t) \<Rightarrow> thread_send_signal cpuid p pid mem t signo val s
     | (err, None) \<Rightarrow> Some (err, s))"

fun cancel_loop :: "nat \<Rightarrow> addr \<Rightarrow> int \<Rightarrow> addr list \<Rightarrow> kstate \<Rightarrow> (int \<times> kstate) option" where
  "cancel_loop cpuid current tid [] s = Some (- ESRCH, s)"
| "cancel_loop cpuid current tid (t # ts) s =
    (if thread_gettid s t = tid
     then do {
       (err, s) \<leftarrow> (if t_wait_queue (threads s t) \<noteq> NULL
         then sched_detach_and_wakeup cpuid (t_wait_queue (threads s t)) t WAKEUP_SIGNAL s else Some (0, s));
       if err \<noteq> 0 then Some (err, s)
       else Some (0, set_thread t (\<lambda>r. r\<lparr>ti_ktid := thread_gettid s current\<rparr>) (thread_set_flags t OsThreadCanceled s)) }
     else cancel_loop cpuid current tid ts s)"

text \<open>\<^verbatim>\<open>thread_cancel\<close>, for the run in which the lock of the wait queue is free; otherwise the search starts again.\<close>

definition thread_cancel :: "nat \<Rightarrow> addr \<Rightarrow> int \<Rightarrow> kstate \<Rightarrow> (int \<times> kstate) option" where
  "thread_cancel cpuid current tid s =
    (if tid \<le> 0 \<or> current = NULL then Some (- EINVAL, s)
     else if thread_gettid s current = tid then Some (- EDEADLK, s)
     else cancel_loop cpuid current tid (group_qs s (t_group (threads s current))) s)"

section \<open>Condition variables\<close>

text \<open>
  A condition variable is named by its address, which also names its queue of waiters.  The counter is a 64-bit word; \<^verbatim>\<open>cond_wait\<close> looks at the old value as a
  32-bit signed number.
\<close>

definition set_cond :: "addr \<Rightarrow> u64 \<Rightarrow> kstate \<Rightarrow> kstate" where
  "set_cond c n s = s\<lparr>cond_count := (cond_count s)(c := n)\<rparr>"

definition cond_init :: "addr \<Rightarrow> kstate \<Rightarrow> int \<times> kstate" where
  "cond_init c s = (if c = NULL then (- EINVAL, s) else (0, set_wq c [] (set_cond c 0 s)))"

text \<open>The part of \<^verbatim>\<open>cond_wait\<close> before the thread blocks; \<open>Refused 0\<close> is the return without waiting.\<close>

definition cond_wait :: "dispatcher \<Rightarrow> addr \<Rightarrow> addr \<Rightarrow> addr \<Rightarrow> kstate \<Rightarrow> (wait_entry \<times> kstate) outcome option" where
  "cond_wait dispatch sleepq current c s =
    (if c = NULL then Some (Returns (Refused (- EINVAL), s))
     else
       let old = cond_count s c; s = set_cond c (old + 1) s in
       if sint (ucast old :: u32) \<ge> 0 then sched_wait_whence dispatch sleepq current c T_SLEEP QUEUE_TAIL s
       else Some (Returns (Refused 0, s)))"

definition cond_signal :: "nat \<Rightarrow> addr \<Rightarrow> kstate \<Rightarrow> kstate option" where
  "cond_signal cpuid c s = do {
     assert_that (c \<noteq> NULL);
     (err, s) \<leftarrow> sched_wakeup_whence cpuid c WAKEUP_NORMAL QUEUE_HEAD s;
     Some (set_cond c (cond_count s c - 1) s) }"

definition cond_broadcast :: "nat \<Rightarrow> addr \<Rightarrow> kstate \<Rightarrow> kstate option" where
  "cond_broadcast cpuid c s = do {
     assert_that (c \<noteq> NULL);
     (err, waiters, s) \<leftarrow> sched_wakeup_all cpuid c WAKEUP_NORMAL s;
     Some (set_cond c (if waiters = 0 then - 1 else 0) s) }"

section \<open>Back in the scheduler\<close>

definition hanlde_thread_state :: "nat \<Rightarrow> addr \<Rightarrow> kstate \<Rightarrow> kstate option" where
  "hanlde_thread_state cpuid t s =
    (case thread_get_state s t of
      T_EMBRYO \<Rightarrow> None
    | T_RUNNING \<Rightarrow> None
    | T_READY \<Rightarrow> (case MLFQ_enqueue s cpuid t of (err, s) \<Rightarrow> do { assert_that (err = 0); Some s })
    | T_SLEEP \<Rightarrow> Some s
    | T_STOPPED \<Rightarrow> Some s
    | T_ZOMBIE \<Rightarrow> cond_broadcast cpuid (t_event (threads s t)) s
    | T_TERMINATED \<Rightarrow> None)"

end
