(* ===== verification/Wait_Proofs.thy ===== *)
theory Wait_Proofs
  imports Wait
begin

text \<open>
  What waiting guarantees: a thread is on a wait queue exactly while it is blocked there, on one run queue exactly while it is ready, and every wake-up
  moves it from the one to the other.
\<close>

text \<open>The three results of a function that may block, end its thread or fault.\<close>

lemma opt_outcome_cases [case_names stuck exits returns]:
  obtains "x = None" | v where "x = Some (Exits v)" | y where "x = Some (Returns y)"
  by (cases x) (auto intro: outcome.exhaust)

section \<open>The invariant\<close>

definition wait_ok :: "kstate \<Rightarrow> bool" where
  "wait_ok s \<longleftrightarrow>
    (\<forall>q t. t \<in> set (wait_qs s q) \<longrightarrow> q \<noteq> NULL \<and> t \<noteq> NULL \<and> thread_isblocked s t \<and> t_wait_queue (threads s t) = q) \<and>
    (\<forall>q. distinct (wait_qs s q)) \<and>
    (\<forall>t. t_wait_queue (threads s t) \<noteq> NULL \<longrightarrow> t \<in> set (wait_qs s (t_wait_queue (threads s t)))) \<and>
    (\<forall>c l t. t \<in> set (run_qs s c l) \<longrightarrow> waits_at s t c l \<and> ti_state (threads s t) = T_READY)"

lemma wait_okD:
  assumes "wait_ok s"
  shows "t \<in> set (wait_qs s q) \<Longrightarrow> q \<noteq> NULL \<and> t \<noteq> NULL \<and> thread_isblocked s t \<and> t_wait_queue (threads s t) = q"
    and "distinct (wait_qs s q)"
    and "t_wait_queue (threads s t) \<noteq> NULL \<Longrightarrow> t \<in> set (wait_qs s (t_wait_queue (threads s t)))"
    and "t \<in> set (run_qs s c l) \<Longrightarrow> waits_at s t c l \<and> ti_state (threads s t) = T_READY"
  using assms unfolding wait_ok_def by blast+

lemma blocked_not_queued: "wait_ok s \<Longrightarrow> thread_isblocked s t \<Longrightarrow> \<not> queued s t"
  using wait_okD(4) [of s t] by (auto simp: queued_def thread_isblocked_def thread_in_state_def thread_get_state_def)

section \<open>Waking one thread\<close>

definition woken :: "wakeup \<Rightarrow> thread \<Rightarrow> thread" where
  "woken reason r = r\<lparr>t_wakeup := reason, ti_sched := (ti_sched r)\<lparr>ts_priority := MLFQ_HIGH\<rparr>, ti_state := T_READY, t_wait_queue := NULL\<rparr>"

text \<open>The effect of a wake-up: the thread leaves the wait queue and is appended to the highest run queue of a core.\<close>

definition wake :: "nat \<Rightarrow> addr \<Rightarrow> addr \<Rightarrow> wakeup \<Rightarrow> kstate \<Rightarrow> kstate" where
  "wake c q t reason s = s\<lparr>threads := (threads s)(t := woken reason (threads s t)), wait_qs := (wait_qs s)(q := remove1 t (wait_qs s q)),
    run_qs := (run_qs s)(c := (run_qs s c)(MLFQ_HIGH := run_qs s c MLFQ_HIGH @ [t]))\<rparr>"

lemma thread_schedule_high:
  assumes "t \<noteq> NULL" "\<not> queued s t"
  shows "\<exists>c. thread_schedule s cpuid t = (0, s\<lparr>threads := (threads s)(t := (threads s t)\<lparr>ti_sched := (ti_sched (threads s t))\<lparr>ts_priority := MLFQ_HIGH\<rparr>,
      ti_state := T_READY\<rparr>),
    run_qs := (run_qs s)(c := (run_qs s c)(MLFQ_HIGH := run_qs s c MLFQ_HIGH @ [t]))\<rparr>)"
proof -
  let ?s = "thread_enter_state t T_READY (snd (thread_set_prio t MLFQ_HIGH s))"
  have s: "?s = s\<lparr>threads := (threads s)(t := (threads s t)\<lparr>ti_sched := (ti_sched (threads s t))\<lparr>ts_priority := MLFQ_HIGH\<rparr>, ti_state := T_READY\<rparr>)\<rparr>"
    using assms(1) by (simp add: thread_enter_state_def thread_set_prio_def set_sched_def set_thread_def)
  have "has_prio ?s t" "\<not> queued ?s t" using assms(2) by (simp_all add: s has_prio_def queued_def)
  from MLFQ_enqueue_at [OF assms(1) this, of cpuid] show ?thesis
    using assms(1) by (auto simp: thread_schedule_def sched_enqueue_def set_rq_def s)
qed

lemma detach_wakeup_spec:
  assumes ok: "wait_ok s" and t: "t \<in> set (wait_qs s q)" and r: "validate_wakeup_reason reason"
  shows "\<exists>c. sched_detach_and_wakeup cpuid q t reason s = Some (0, wake c q t reason s)"
proof -
  note b = wait_okD(1) [OF ok t]
  let ?s = "set_thread t (\<lambda>r. r\<lparr>t_wakeup := reason\<rparr>) (set_wq q (remove1 t (wait_qs s q)) s)"
  have "\<not> queued ?s t" using blocked_not_queued [OF ok] b by (simp add: queued_def set_thread_def set_wq_def)
  then obtain c where c: "thread_schedule ?s cpuid t = (0, ?s\<lparr>threads := (threads ?s)(t := (threads ?s t)\<lparr>ti_sched := (ti_sched (threads ?s t))\<lparr>ts_priority := MLFQ_HIGH\<rparr>,
      ti_state := T_READY\<rparr>),
    run_qs := (run_qs ?s)(c := (run_qs ?s c)(MLFQ_HIGH := run_qs ?s c MLFQ_HIGH @ [t]))\<rparr>)"
    using thread_schedule_high b by blast
  have "sched_wake_thread cpuid t reason (set_wq q (remove1 t (wait_qs s q)) s) = thread_schedule ?s cpuid t"
    using b r by (auto simp: sched_wake_thread_def thread_isblocked_def thread_in_state_def thread_get_state_def set_wq_def)
  then have "sched_detach_and_wakeup cpuid q t reason s = Some (0, wake c q t reason s)"
    using b t c by (simp add: sched_detach_and_wakeup_def q_detach_def wake_def woken_def set_thread_def set_wq_def)
  then show ?thesis by blast
qed

lemma wake_fields [simp]:
  "wait_qs (wake c q t reason s) = (wait_qs s)(q := remove1 t (wait_qs s q))"
  "threads (wake c q t reason s) = (threads s)(t := woken reason (threads s t))"
  "run_qs (wake c q t reason s) = (run_qs s)(c := (run_qs s c)(MLFQ_HIGH := run_qs s c MLFQ_HIGH @ [t]))"
  by (simp_all add: wake_def)

lemma woken_fields [simp]:
  "t_wakeup (woken reason r) = reason" "ti_state (woken reason r) = T_READY" "t_wait_queue (woken reason r) = NULL"
  "ts_priority (ti_sched (woken reason r)) = MLFQ_HIGH" "ti_flags (woken reason r) = ti_flags r"
  by (simp_all add: woken_def)

lemma wake_waits_at:
  assumes "t \<noteq> NULL" "\<not> queued s t"
  shows "waits_at (wake c q t reason s) t c MLFQ_HIGH"
proof -
  have "t \<notin> set (run_qs s d l)" for d l using assms(2) by (auto simp: queued_def)
  then show ?thesis using assms(1) by (auto simp: waits_at_def count_list_0_iff)
qed

lemma wake_ok:
  assumes ok: "wait_ok s" and t: "t \<in> set (wait_qs s q)"
  shows "wait_ok (wake c q t reason s)"
proof -
  let ?s = "wake c q t reason s"
  note b = wait_okD(1) [OF ok t]
  have nq: "\<not> queued s t" using blocked_not_queued [OF ok] b by simp
  have rem: "set (remove1 t (wait_qs s q)) = set (wait_qs s q) - {t}" using wait_okD(2) [OF ok] by (rule set_remove1_eq)
  have A: "p \<noteq> NULL \<and> u \<noteq> NULL \<and> thread_isblocked ?s u \<and> t_wait_queue (threads ?s u) = p" if "u \<in> set (wait_qs ?s p)" for p u
  proof -
    have u: "u \<in> set (wait_qs s p)" "u \<noteq> t"
      using that rem wait_okD(1) [OF ok, of t p] b by (auto split: if_splits)
    then show ?thesis using wait_okD(1) [OF ok u(1)] by (simp add: thread_isblocked_def thread_in_state_def thread_get_state_def)
  qed
  have B: "u \<in> set (wait_qs ?s (t_wait_queue (threads ?s u)))" if "t_wait_queue (threads ?s u) \<noteq> NULL" for u
    using that wait_okD(3) [OF ok, of u] rem by (auto split: if_splits)
  have C: "waits_at ?s u d l \<and> ti_state (threads ?s u) = T_READY" if u: "u \<in> set (run_qs ?s d l)" for u d l
  proof (cases "u = t")
    case True
    have "(d, l) = (c, MLFQ_HIGH)" using u True nq by (auto simp: queued_def split: if_splits)
    then show ?thesis using True wake_waits_at [OF _ nq] b by simp
  next
    case False
    then have "u \<in> set (run_qs s d l)" using u by (auto split: if_splits)
    then show ?thesis using wait_okD(4) [OF ok] False by (auto simp: waits_at_def)
  qed
  show ?thesis unfolding wait_ok_def using A B C wait_okD(2) [OF ok] by (auto simp: distinct_remove1)
qed

section \<open>Waking from a queue\<close>

lemma wakeup_whence_first:
  "q \<noteq> NULL \<Longrightarrow> whence = QUEUE_HEAD \<or> whence = QUEUE_TAIL \<Longrightarrow> sched_wakeup_whence cpuid q reason whence s =
    (case wait_qs s q of [] \<Rightarrow> Some (- ESRCH, s) | t # ps \<Rightarrow> sched_detach_and_wakeup cpuid q t reason s)"
  by (auto simp: sched_wakeup_whence_def split: list.splits)

lemma wakeup_first_spec:
  assumes ok: "wait_ok s" and q: "q \<noteq> NULL" and w: "whence = QUEUE_HEAD \<or> whence = QUEUE_TAIL" and r: "validate_wakeup_reason reason"
    and ts: "wait_qs s q = t # ps"
  obtains c where "sched_wakeup_whence cpuid q reason whence s = Some (0, wake c q t reason s)" "wait_ok (wake c q t reason s)"
    "waits_at (wake c q t reason s) t c MLFQ_HIGH" "wait_qs (wake c q t reason s) = (wait_qs s)(q := ps)"
proof -
  have t: "t \<in> set (wait_qs s q)" using ts by simp
  obtain c where "sched_detach_and_wakeup cpuid q t reason s = Some (0, wake c q t reason s)"
    using detach_wakeup_spec [OF ok t r] by blast
  moreover have "waits_at (wake c q t reason s) t c MLFQ_HIGH"
    using wait_okD(1) [OF ok t] blocked_not_queued [OF ok] by (intro wake_waits_at) auto
  ultimately show ?thesis using that wake_ok [OF ok t] wakeup_whence_first [OF q w] ts by simp
qed

text \<open>Waking up.  \<^verbatim>\<open>sched_wakeup_whence\<close> with a normal, signal or time-out reason takes the first thread of the wait queue, whichever end it is
  asked for: the thread becomes ready with that reason and waits at the highest level of some core, the rest of the queue keeps its order, and the invariant that ties states and queues together
  holds again.  On an empty queue it returns \<^verbatim>\<open>-ESRCH\<close> and changes nothing.\<close>

theorem sched_wakeup_first:
  assumes "wait_ok s" "q \<noteq> NULL" "validate_wakeup_reason reason" "whence = QUEUE_HEAD \<or> whence = QUEUE_TAIL"
  shows "case wait_qs s q of
      [] \<Rightarrow> sched_wakeup_whence cpuid q reason whence s = Some (- ESRCH, s)
    | t # ps \<Rightarrow> \<exists>c s'. sched_wakeup_whence cpuid q reason whence s = Some (0, s') \<and> wait_ok s' \<and> wait_qs s' = (wait_qs s)(q := ps) \<and>
        waits_at s' t c MLFQ_HIGH \<and> ti_state (threads s' t) = T_READY \<and> t_wakeup (threads s' t) = reason \<and>
        (\<forall>u. u \<noteq> t \<longrightarrow> threads s' u = threads s u)"
proof (cases "wait_qs s q")
  case Nil
  then show ?thesis using wakeup_whence_first [OF assms(2,4)] by simp
next
  case (Cons t ps)
  obtain c where c: "sched_wakeup_whence cpuid q reason whence s = Some (0, wake c q t reason s)" "wait_ok (wake c q t reason s)"
    "waits_at (wake c q t reason s) t c MLFQ_HIGH" "wait_qs (wake c q t reason s) = (wait_qs s)(q := ps)"
    using wakeup_first_spec [OF assms(1,2,4,3) Cons] by blast
  have "ti_state (threads (wake c q t reason s) t) = T_READY \<and> t_wakeup (threads (wake c q t reason s) t) = reason \<and>
        (\<forall>u. u \<noteq> t \<longrightarrow> threads (wake c q t reason s) u = threads s u)" by simp
  then have "\<exists>c s'. sched_wakeup_whence cpuid q reason whence s = Some (0, s') \<and> wait_ok s' \<and> wait_qs s' = (wait_qs s)(q := ps) \<and>
        waits_at s' t c MLFQ_HIGH \<and> ti_state (threads s' t) = T_READY \<and> t_wakeup (threads s' t) = reason \<and>
        (\<forall>u. u \<noteq> t \<longrightarrow> threads s' u = threads s u)" using c by blast
  then show ?thesis unfolding Cons by simp
qed

lemma queued_wake: "queued (wake c q t reason s) u \<longleftrightarrow> queued s u \<or> u = t"
proof
  assume "queued s u \<or> u = t"
  moreover have "set (run_qs s d l) \<subseteq> set (run_qs (wake c q t reason s) d l)" for d l by auto
  moreover have "t \<in> set (run_qs (wake c q t reason s) c MLFQ_HIGH)" by simp
  ultimately show "queued (wake c q t reason s) u" unfolding queued_def by blast
qed (auto simp: queued_def split: if_splits)

lemma wakeup_loop_spec:
  assumes "wait_ok s" "wait_qs s q = ts" "validate_wakeup_reason reason"
  shows "\<exists>s'. wakeup_loop cpuid q reason ts n s = Some (if n + length ts > 0 then 0 else - ESRCH, n + length ts, s') \<and> wait_ok s' \<and>
    wait_qs s' = (wait_qs s)(q := []) \<and> (\<forall>t \<in> set ts. ti_state (threads s' t) = T_READY \<and> t_wakeup (threads s' t) = reason \<and> queued s' t) \<and>
    (\<forall>u. u \<notin> set ts \<longrightarrow> threads s' u = threads s u) \<and> (\<forall>u. queued s u \<longrightarrow> queued s' u)"
  using assms
proof (induction ts arbitrary: s n)
  case (Cons t ts)
  have t: "t \<in> set (wait_qs s q)" and d: "t \<notin> set ts" using Cons.prems(2) wait_okD(2) [OF Cons.prems(1), of q] by auto
  obtain c where c: "sched_detach_and_wakeup cpuid q t reason s = Some (0, wake c q t reason s)"
    using detach_wakeup_spec [OF Cons.prems(1) t Cons.prems(3)] by blast
  let ?s = "wake c q t reason s"
  have ok: "wait_ok ?s" using wake_ok [OF Cons.prems(1) t] .
  have q: "wait_qs ?s q = ts" using Cons.prems(2) by simp
  obtain s' where s': "wakeup_loop cpuid q reason ts (n + 1) ?s = Some (if (n + 1) + length ts > 0 then 0 else - ESRCH, (n + 1) + length ts, s')"
    "wait_ok s'" "wait_qs s' = (wait_qs ?s)(q := [])" "\<forall>t \<in> set ts. ti_state (threads s' t) = T_READY \<and> t_wakeup (threads s' t) = reason \<and> queued s' t"
    "\<forall>u. u \<notin> set ts \<longrightarrow> threads s' u = threads ?s u" "\<forall>u. queued ?s u \<longrightarrow> queued s' u"
    using Cons.IH [OF ok q Cons.prems(3)] by blast
  show ?case using s' c d queued_wake [of c q t reason s] by (intro exI [of _ s']) auto
qed (auto intro!: exI [of _ s])

text \<open>Waking all.  \<^verbatim>\<open>sched_wakeup_all\<close> with a valid reason empties the wait queue, makes every thread of it ready with that reason, reports how many there
  were, touches no other thread and keeps the invariant; on an empty queue it returns \<^verbatim>\<open>-ESRCH\<close>.\<close>

theorem sched_wakeup_all_wakes:
  assumes "wait_ok s" "q \<noteq> NULL" "validate_wakeup_reason reason"
  shows "\<exists>s'. sched_wakeup_all cpuid q reason s = Some (if wait_qs s q = [] then - ESRCH else 0, length (wait_qs s q), s') \<and> wait_ok s' \<and>
    wait_qs s' = (wait_qs s)(q := []) \<and>
    (\<forall>t \<in> set (wait_qs s q). ti_state (threads s' t) = T_READY \<and> t_wakeup (threads s' t) = reason \<and> queued s' t) \<and>
    (\<forall>u. u \<notin> set (wait_qs s q) \<longrightarrow> threads s' u = threads s u)"
proof -
  have e: "(if 0 + length (wait_qs s q) > 0 then 0 else - ESRCH) = (if wait_qs s q = [] then - ESRCH else 0)" "0 + length (wait_qs s q) = length (wait_qs s q)"
    by simp_all
  show ?thesis
    using wakeup_loop_spec [OF assms(1) refl assms(3), where q = q and cpuid = cpuid and n = 0, unfolded e] assms(2) by (auto simp: sched_wakeup_all_def)
qed

section \<open>A reason that is never accepted\<close>

text \<open>\<^verbatim>\<open>await_event_destroy\<close> loses a thread.  \<^verbatim>\<open>sched_wakeup_all\<close> with the reason \<^verbatim>\<open>WAKEUP_ERROR\<close>, which only \<^verbatim>\<open>await_event_destroy\<close> uses, wakes nobody: it takes the first
  thread off the queue, fails with \<^verbatim>\<open>-EINVAL\<close> and leaves that thread asleep, on no run queue and still pointing to the wait queue it is no longer on.  A later
  \<^verbatim>\<open>thread_wakeup\<close> of it detaches a node that is on no queue.\<close>

theorem wakeup_error_loses_thread:
  assumes "wait_ok s" "wait_qs s q = t # ps" "validate_wakeup_reason reason"
  shows "\<exists>s'. sched_wakeup_all cpuid q WAKEUP_ERROR s = Some (- EINVAL, 0, s') \<and> wait_qs s' q = ps \<and>
    thread_isblocked s' t \<and> \<not> queued s' t \<and> (\<forall>p. t \<notin> set (wait_qs s' p)) \<and> thread_wakeup cpuid t reason s' = None"
proof -
  let ?s = "set_wq q ps s"
  have t: "t \<in> set (wait_qs s q)" using assms(2) by simp
  note b = wait_okD(1) [OF assms(1) t]
  have "sched_detach_and_wakeup cpuid q t WAKEUP_ERROR s = Some (- EINVAL, ?s)"
    using b assms(2) by (simp add: sched_detach_and_wakeup_def q_detach_def sched_wake_thread_def validate_wakeup_reason_def)
  then have all: "sched_wakeup_all cpuid q WAKEUP_ERROR s = Some (- EINVAL, 0, ?s)"
    using b assms(2) by (simp add: sched_wakeup_all_def)
  have blk: "thread_isblocked ?s t" using b by (simp add: thread_isblocked_def thread_in_state_def thread_get_state_def set_wq_def)
  have nq: "\<not> queued ?s t" using blocked_not_queued [OF assms(1)] b by (simp add: queued_def set_wq_def)
  have off: "t \<notin> set (wait_qs ?s p)" for p
    using wait_okD(1) [OF assms(1), of t p] wait_okD(2) [OF assms(1), of q] b assms(2) by (auto simp: set_wq_def)
  have "t_wait_queue (threads ?s t) = q" using b by (simp add: set_wq_def)
  then have "thread_wakeup cpuid t reason ?s = None"
    using blk off [of q] b assms(3) by (simp add: thread_wakeup_def sched_detach_and_wakeup_def q_detach_def)
  then show ?thesis using all blk nq off by (intro exI [of _ ?s]) (simp add: set_wq_def)
qed

section \<open>Blocking\<close>

definition blocked_on :: "addr \<Rightarrow> tstate \<Rightarrow> thread \<Rightarrow> thread" where
  "blocked_on q st r = r\<lparr>t_wait_queue := q, ti_state := st, ti_sched := sched_adjust (ti_sched r)\<rparr>"

lemma blocked_on_fields [simp]:
  "t_wait_queue (blocked_on q st r) = q" "ti_state (blocked_on q st r) = st" "t_wakeup (blocked_on q st r) = t_wakeup r"
  "ti_flags (blocked_on q st r) = ti_flags r"
  by (simp_all add: blocked_on_def)

definition can_wait :: "kstate \<Rightarrow> addr \<Rightarrow> bool" where
  "can_wait s t \<longleftrightarrow> t \<noteq> NULL \<and> ti_state (threads s t) = T_RUNNING \<and> t_wakeup (threads s t) = WAKEUP_NONE \<and> \<not> thread_is_canceled s t"

lemma running_off_queues: "wait_ok s \<Longrightarrow> ti_state (threads s t) = T_RUNNING \<Longrightarrow> t \<notin> set (wait_qs s q) \<and> \<not> queued s t"
  using wait_okD(1,4) [of s t] by (fastforce simp: queued_def thread_isblocked_def thread_in_state_def thread_get_state_def)

lemma wait_blocks_spec:
  assumes ok: "wait_ok s" and c: "can_wait s t" and q: "q \<noteq> NULL" and st: "st = T_SLEEP \<or> st = T_STOPPED"
    and w: "whence = QUEUE_HEAD \<or> whence = QUEUE_TAIL"
  shows "sched_wait_whence dispatch sleepq t q st whence s = Some (Returns (Blocked,
      s\<lparr>threads := (threads s)(t := blocked_on q st (threads s t)),
        wait_qs := (wait_qs s)(q := if whence = QUEUE_HEAD then t # wait_qs s q else wait_qs s q @ [t])\<rparr>))"
proof -
  have "t \<notin> set (wait_qs s q)" using running_off_queues [OF ok] c by (simp add: can_wait_def)
  then show ?thesis using c q st w
    by (auto simp: sched_wait_whence_def sched_wait_validate_input_def current_check_interrupted_def interrupted_error_def can_wait_def
        wakeup_interrupt_def q_enqueue_def set_wq_def set_thread_def set_sched_def thread_enter_state_def blocked_on_def Let_def)
qed

lemma block_ok:
  assumes ok: "wait_ok s" and c: "can_wait s t" and q: "q \<noteq> NULL" and st: "st = T_SLEEP \<or> st = T_STOPPED" and ps: "set ps = insert t (set (wait_qs s q))" "distinct ps"
  shows "wait_ok (s\<lparr>threads := (threads s)(t := blocked_on q st (threads s t)), wait_qs := (wait_qs s)(q := ps)\<rparr>)" (is "wait_ok ?s")
proof -
  have off: "t \<notin> set (wait_qs s p)" "\<not> queued s t" for p using running_off_queues [OF ok] c by (simp_all add: can_wait_def)
  have nw: "t_wait_queue (threads s t) = NULL" using wait_okD(3) [OF ok, of t] off by blast
  have A: "p \<noteq> NULL \<and> u \<noteq> NULL \<and> thread_isblocked ?s u \<and> t_wait_queue (threads ?s u) = p" if "u \<in> set (wait_qs ?s p)" for p u
  proof (cases "u = t")
    case True
    then have "p = q" using that off by (auto split: if_splits)
    then show ?thesis using True q st c by (auto simp: thread_isblocked_def thread_in_state_def thread_get_state_def can_wait_def)
  next
    case False
    then have "u \<in> set (wait_qs s p)" using that ps by (auto split: if_splits)
    then show ?thesis using wait_okD(1) [OF ok] False by (simp add: thread_isblocked_def thread_in_state_def thread_get_state_def)
  qed
  have B: "u \<in> set (wait_qs ?s (t_wait_queue (threads ?s u)))" if "t_wait_queue (threads ?s u) \<noteq> NULL" for u
    using that wait_okD(3) [OF ok, of u] ps by (auto split: if_splits)
  have C: "waits_at ?s u d l \<and> ti_state (threads ?s u) = T_READY" if u: "u \<in> set (run_qs ?s d l)" for u d l
  proof -
    have "u \<noteq> t" using u off(2) by (auto simp: queued_def)
    then show ?thesis using wait_okD(4) [OF ok] u by (auto simp: waits_at_def)
  qed
  show ?thesis unfolding wait_ok_def using A B C wait_okD(2) [OF ok] ps(2) by simp
qed

lemma place_props: "t \<notin> set ps \<Longrightarrow> distinct ps \<Longrightarrow>
  set (if b then t # ps else ps @ [t]) = insert t (set ps) \<and> distinct (if b then t # ps else ps @ [t])"
  by auto

text \<open>A number of wake-ups one after the other.\<close>

primrec wakeups :: "nat \<Rightarrow> addr \<Rightarrow> wakeup \<Rightarrow> nat \<Rightarrow> kstate \<Rightarrow> kstate option" where
  "wakeups cpuid q reason 0 s = Some s"
| "wakeups cpuid q reason (Suc n) s = do { (_, s) \<leftarrow> sched_wakeup cpuid q reason s; wakeups cpuid q reason n s }"

definition woken_first :: "addr \<Rightarrow> wakeup \<Rightarrow> nat \<Rightarrow> kstate \<Rightarrow> kstate \<Rightarrow> bool" where
  "woken_first q reason k s s' \<longleftrightarrow> wait_ok s' \<and> wait_qs s' = (wait_qs s)(q := drop k (wait_qs s q)) \<and>
     (\<forall>u. threads s' u = (if u \<in> set (take k (wait_qs s q)) then woken reason (threads s u) else threads s u))"

lemma wakeups_spec:
  assumes "wait_ok s" "q \<noteq> NULL" "validate_wakeup_reason reason" "k \<le> length (wait_qs s q)"
  shows "\<exists>s'. wakeups cpuid q reason k s = Some s' \<and> woken_first q reason k s s'"
  using assms(1,4)
proof (induction k arbitrary: s)
  case (Suc k)
  then obtain t ps where ts: "wait_qs s q = t # ps" by (cases "wait_qs s q") auto
  obtain c where c: "sched_wakeup_whence cpuid q reason QUEUE_HEAD s = Some (0, wake c q t reason s)" "wait_ok (wake c q t reason s)"
    using wakeup_first_spec [OF Suc.prems(1) assms(2) _ assms(3) ts, of QUEUE_HEAD cpuid] by blast
  have "t \<notin> set ps" using wait_okD(2) [OF Suc.prems(1), of q] ts by simp
  then have t: "t \<notin> set (take k ps)" by (meson in_set_takeD)
  obtain s' where s': "wakeups cpuid q reason k (wake c q t reason s) = Some s'" "woken_first q reason k (wake c q t reason s) s'"
    using Suc.IH [OF c(2)] Suc.prems(2) ts by auto
  have "woken_first q reason (Suc k) s s'" using s'(2) ts t by (auto simp: woken_first_def)
  then show ?case using c(1) s'(1) by (simp add: sched_wakeup_def)
qed (simp add: woken_first_def)

text \<open>The result of a wait that has been ended for a reason; a signal is delivered first, which may end the thread.\<close>

definition wait_result :: "wakeup \<Rightarrow> int" where
  "wait_result reason = (if reason = WAKEUP_TIMEOUT then - ETIMEDOUT else if reason = WAKEUP_SIGNAL then - EINTR else 0)"

definition resumes_with :: "dispatcher \<Rightarrow> addr \<Rightarrow> wakeup \<Rightarrow> kstate \<Rightarrow> bool" where
  "resumes_with dispatch t reason s \<longleftrightarrow>
     (reason \<noteq> WAKEUP_SIGNAL \<longrightarrow> (\<exists>s'. sched_wait_resume dispatch t s = Some (Returns (wait_result reason, s')))) \<and>
     (\<forall>err s'. sched_wait_resume dispatch t s = Some (Returns (err, s')) \<longrightarrow> err = wait_result reason)"

lemma resume_result:
  assumes "t_wakeup (threads s t) = reason" "validate_wakeup_reason reason" "\<not> thread_is_canceled s t"
  shows "sched_wait_resume dispatch t s = Some (Returns (err, s')) \<Longrightarrow> err = wait_result reason"
    and "reason \<noteq> WAKEUP_SIGNAL \<Longrightarrow> \<exists>s'. sched_wait_resume dispatch t s = Some (Returns (wait_result reason, s'))"
proof -
  let ?s = "set_thread t (\<lambda>r. r\<lparr>t_wakeup := WAKEUP_NONE\<rparr>) s"
  have nc: "\<not> thread_is_canceled ?s t" using assms(3) by (simp add: thread_is_canceled_def thread_test_flags_def set_thread_def)
  have r: "reason \<noteq> WAKEUP_NONE" "reason = WAKEUP_NORMAL \<or> reason = WAKEUP_SIGNAL \<or> reason = WAKEUP_TIMEOUT"
    using assms(2) by (auto simp: validate_wakeup_reason_def)
  show ex: "\<exists>s'. sched_wait_resume dispatch t s = Some (Returns (wait_result reason, s'))" if "reason \<noteq> WAKEUP_SIGNAL"
    using that r assms(1) nc by (auto simp: sched_wait_resume_def current_check_interrupted_def interrupted_error_def wakeup_interrupt_def wait_result_def Let_def)
  show "err = wait_result reason" if "sched_wait_resume dispatch t s = Some (Returns (err, s'))"
  proof (cases "reason = WAKEUP_SIGNAL")
    case True
    then show ?thesis using that assms(1)
      by (cases "signal_check_pending dispatch t ?s" rule: opt_outcome_cases)
        (auto simp: sched_wait_resume_def current_check_interrupted_def interrupted_error_def wakeup_interrupt_def wait_result_def Let_def split: prod.splits)
  qed (use that ex in auto)
qed

text \<open>C27: Waiting and being woken, on a queue with any number of waiters.  A running thread that is neither cancelled nor interrupted and calls \<^verbatim>\<open>sched_wait_whence\<close> is blocked at the end of the wait queue, and no other
  thread changes.  Then \<open>k\<close> calls of \<^verbatim>\<open>sched_wakeup\<close> make exactly the first \<open>k\<close> threads of the queue ready, with the reason of the wake-up, and take them off the queue; no other thread changes and the invariant holds.  When all the
  earlier waiters and then the thread itself have been woken up, its call returns 0 for a normal wake-up, and whenever it returns, \<^verbatim>\<open>-ETIMEDOUT\<close> for a time-out and \<^verbatim>\<open>-EINTR\<close> for a signal.\<close>

theorem wait_wake_roundtrip:
  assumes "wait_ok s" "can_wait s t" "q \<noteq> NULL" "st = T_SLEEP \<or> st = T_STOPPED" "validate_wakeup_reason reason"
  shows "\<exists>s1. sched_wait_whence dispatch sleepq t q st QUEUE_TAIL s = Some (Returns (Blocked, s1)) \<and> wait_ok s1 \<and>
    wait_qs s1 = (wait_qs s)(q := wait_qs s q @ [t]) \<and> ti_state (threads s1 t) = st \<and> (\<forall>u. u \<noteq> t \<longrightarrow> threads s1 u = threads s u) \<and>
    (\<forall>k \<le> length (wait_qs s1 q). \<exists>s2. wakeups cpuid q reason k s1 = Some s2 \<and> woken_first q reason k s1 s2 \<and> (k = length (wait_qs s1 q) \<longrightarrow> resumes_with dispatch t reason s2))"
proof -
  define s1 where "s1 = s\<lparr>threads := (threads s)(t := blocked_on q st (threads s t)), wait_qs := (wait_qs s)(q := wait_qs s q @ [t])\<rparr>"
  have off: "t \<notin> set (wait_qs s q)" using running_off_queues [OF assms(1)] assms(2) by (simp add: can_wait_def)
  have w: "sched_wait_whence dispatch sleepq t q st QUEUE_TAIL s = Some (Returns (Blocked, s1))"
    using wait_blocks_spec [OF assms(1-4), of QUEUE_TAIL dispatch sleepq] by (simp add: s1_def)
  have ok: "wait_ok s1" unfolding s1_def using off wait_okD(2) [OF assms(1)] by (intro block_ok [OF assms(1-4)]) auto
  have q1: "wait_qs s1 = (wait_qs s)(q := wait_qs s q @ [t])" "t \<in> set (wait_qs s1 q)" by (simp_all add: s1_def)
  have nc: "\<not> thread_is_canceled s2 t" if "threads s2 t = woken reason (threads s1 t)" for s2
    using that assms(2) by (simp add: s1_def can_wait_def thread_is_canceled_def thread_test_flags_def)
  have "\<exists>s2. wakeups cpuid q reason k s1 = Some s2 \<and> woken_first q reason k s1 s2 \<and> (k = length (wait_qs s1 q) \<longrightarrow> resumes_with dispatch t reason s2)"
    if k: "k \<le> length (wait_qs s1 q)" for k
  proof -
    obtain s2 where s2: "wakeups cpuid q reason k s1 = Some s2" "woken_first q reason k s1 s2" using wakeups_spec [OF ok assms(3,5) k] by blast
    have "threads s2 t = woken reason (threads s1 t)" if "k = length (wait_qs s1 q)" using s2(2) q1(2) that by (simp add: woken_first_def)
    then have "k = length (wait_qs s1 q) \<longrightarrow> t_wakeup (threads s2 t) = reason \<and> \<not> thread_is_canceled s2 t" using nc by simp
    then show ?thesis using s2 resume_result [OF _ assms(5), of s2 t dispatch] unfolding resumes_with_def by blast
  qed
  moreover have "ti_state (threads s1 t) = st" "\<forall>u. u \<noteq> t \<longrightarrow> threads s1 u = threads s u" by (simp_all add: s1_def)
  ultimately show ?thesis using w ok q1(1) by blast
qed

lemma canceled_refused:
  assumes "t \<noteq> NULL" "q \<noteq> NULL" "st = T_SLEEP \<or> st = T_STOPPED" "t_wakeup (threads s t) = WAKEUP_NONE" "thread_is_canceled s t"
  shows "sched_wait_whence dispatch sleepq t q st whence s = Some (Returns (Refused (- EINTR), s))"
  using assms by (auto simp: sched_wait_whence_def sched_wait_validate_input_def current_check_interrupted_def interrupted_error_def)

section \<open>Condition variables\<close>

text \<open>A condition variable remembers signals.  \<^verbatim>\<open>cond_signal\<close> on a condition variable that nobody waits on lowers the counter, and the next \<^verbatim>\<open>cond_wait\<close> then returns at once
  without blocking: the object behaves as a counting semaphore.\<close>

theorem cond_signal_remembered:
  assumes "c \<noteq> NULL" "wait_qs s c = []" "cond_count s c = 0"
  shows "\<exists>s1 s2. cond_signal cpuid c s = Some s1 \<and> cond_wait dispatch sleepq t c s1 = Some (Returns (Refused 0, s2)) \<and>
    cond_count s2 c = 0 \<and> threads s2 = threads s \<and> wait_qs s2 = wait_qs s"
proof -
  have "cond_signal cpuid c s = Some (set_cond c (- 1) s)"
    using assms by (simp add: cond_signal_def sched_wakeup_whence_def)
  moreover have "sint (ucast (- 1 :: u64) :: u32) < 0" by code_simp
  ultimately show ?thesis using assms by (auto simp: cond_wait_def set_cond_def Let_def)
qed

section \<open>Samples\<close>

lemma quiet_wait_ok: "wait_ok quiet"
  by (simp add: wait_ok_def quiet_def sig_thread_def)

lemma quiet_can_wait: "can_wait quiet 8"
  by (simp add: can_wait_def quiet_def sig_thread_def thread_is_canceled_def thread_test_flags_def)

definition one_waiter :: kstate where
  "one_waiter = quiet\<lparr>threads := (threads quiet)(8 := blocked_on 64 T_SLEEP (threads quiet 8)), wait_qs := (wait_qs quiet)(64 := [8])\<rparr>"

lemma one_waiter_ok: "wait_ok one_waiter" "wait_qs one_waiter 64 = [8]"
  unfolding one_waiter_def using block_ok [OF quiet_wait_ok quiet_can_wait, of 64 T_SLEEP "[8]"] by (simp_all add: quiet_def)

theorem sched_wakeup_first_witness:
  "\<exists>c s'. sched_wakeup_whence 0 64 WAKEUP_NORMAL QUEUE_TAIL one_waiter = Some (0, s') \<and> wait_ok s' \<and> waits_at s' 8 c 3"
  using sched_wakeup_first [OF one_waiter_ok(1), of 64 WAKEUP_NORMAL QUEUE_TAIL 0] by (auto simp: one_waiter_ok(2) validate_wakeup_reason_def)

theorem sched_wakeup_all_wakes_witness:
  "\<exists>s'. sched_wakeup_all 0 64 WAKEUP_SIGNAL one_waiter = Some (0, 1, s') \<and> wait_ok s' \<and> queued s' 8"
  using sched_wakeup_all_wakes [OF one_waiter_ok(1), of 64 WAKEUP_SIGNAL 0] by (auto simp: one_waiter_ok(2) validate_wakeup_reason_def)

theorem wakeup_error_loses_thread_witness:
  "\<exists>s'. sched_wakeup_all 0 64 WAKEUP_ERROR one_waiter = Some (- EINVAL, 0, s') \<and> thread_wakeup 0 8 WAKEUP_SIGNAL s' = None"
  using wakeup_error_loses_thread [OF one_waiter_ok, of WAKEUP_SIGNAL 0] by (auto simp: validate_wakeup_reason_def)

theorem wait_wake_roundtrip_witness:
  "\<exists>s1 s2. sched_wait_whence (\<lambda>a i s. s) 32 8 64 T_SLEEP QUEUE_TAIL quiet = Some (Returns (Blocked, s1)) \<and>
    wakeups 0 64 WAKEUP_TIMEOUT 1 s1 = Some s2 \<and> woken_first 64 WAKEUP_TIMEOUT 1 s1 s2 \<and> resumes_with (\<lambda>a i s. s) 8 WAKEUP_TIMEOUT s2"
proof -
  let ?d = "\<lambda>a i s. s :: kstate"
  have p: "(64 :: addr) \<noteq> NULL" "T_SLEEP = T_SLEEP \<or> T_SLEEP = T_STOPPED" "validate_wakeup_reason WAKEUP_TIMEOUT" by (simp_all add: validate_wakeup_reason_def)
  from wait_wake_roundtrip [OF quiet_wait_ok quiet_can_wait p, of ?d 32 0] obtain s1 where
    s1: "sched_wait_whence ?d 32 8 64 T_SLEEP QUEUE_TAIL quiet = Some (Returns (Blocked, s1))" "wait_qs s1 = (wait_qs quiet)(64 := wait_qs quiet 64 @ [8])"
      "\<forall>k \<le> length (wait_qs s1 64). \<exists>s2. wakeups 0 64 WAKEUP_TIMEOUT k s1 = Some s2 \<and> woken_first 64 WAKEUP_TIMEOUT k s1 s2 \<and>
        (k = length (wait_qs s1 64) \<longrightarrow> resumes_with ?d 8 WAKEUP_TIMEOUT s2)"
    by blast
  have n: "length (wait_qs s1 64) = 1" using s1(2) by (simp add: quiet_def)
  show ?thesis using s1(1) s1(3) [unfolded n, rule_format, OF order_refl] by blast
qed

theorem cond_signal_remembered_witness:
  "\<exists>s1 s2. cond_signal 0 64 quiet = Some s1 \<and> cond_wait (\<lambda>a i s. s) 32 8 64 s1 = Some (Returns (Refused 0, s2))"
  using cond_signal_remembered [of 64 quiet 0 "\<lambda>a i s. s" 32 8] by (auto simp: quiet_def)

end
