(* ===== verification/Pipe.thy ===== *)
theory Pipe
  imports Ringbuf Transition Wait_Proofs
begin

text \<open>
  Pipes: \<^verbatim>\<open>src/src/kernel/fs/pipefs/pipefs.c\<close>, built out of a ring buffer, two condition variables and a spin lock.  A part of a call that holds \<^verbatim>\<open>p_lock\<close> is one step; \<^verbatim>\<open>cond_wait\<close> gives the lock up before it
  takes that of the condition variable, so a call that waits is cut there and where its thread blocks.  The buffer of the caller is the list of bytes read so far or to be written.  The inodes of the two ends
  are opaque addresses.
\<close>

section \<open>The pipe\<close>

abbreviation (input) EPIPE :: int where "EPIPE \<equiv> 32"
abbreviation (input) ENOSYS :: int where "ENOSYS \<equiv> 38"
abbreviation (input) ENOTTY :: int where "ENOTTY \<equiv> 25"

definition PIPE_R :: u32 where "PIPE_R = 1"
definition PIPE_W :: u32 where "PIPE_W = 2"
definition PIPESZ :: u64 where "PIPESZ = 4096"

record pipe_t =
  p_flags :: u32
  p_readers :: addr
  p_writers :: addr
  p_iread :: addr
  p_iwrite :: addr
  p_ringbuf :: ringbuf

definition pipe_isreadable :: "pipe_t \<Rightarrow> bool" where
  "pipe_isreadable p \<longleftrightarrow> p_flags p AND PIPE_R \<noteq> 0"

definition pipe_iswritable :: "pipe_t \<Rightarrow> bool" where
  "pipe_iswritable p \<longleftrightarrow> p_flags p AND PIPE_W \<noteq> 0"

definition pipe_lockbuf :: "pipe_t \<Rightarrow> ringbuf" where
  "pipe_lockbuf p = (p_ringbuf p)\<lparr>rb_lock := True\<rparr>"

definition pipe_unlockbuf :: "pipe_t \<Rightarrow> ringbuf \<Rightarrow> pipe_t" where
  "pipe_unlockbuf p r = p\<lparr>p_ringbuf := r\<lparr>rb_lock := False\<rparr>\<rparr>"

definition pipe_wake_reader :: "nat \<Rightarrow> pipe_t \<Rightarrow> kstate \<Rightarrow> kstate option" where
  "pipe_wake_reader cpuid p s = cond_signal cpuid (p_readers p) s"

definition pipe_wake_writer :: "nat \<Rightarrow> pipe_t \<Rightarrow> kstate \<Rightarrow> kstate option" where
  "pipe_wake_writer cpuid p s = cond_signal cpuid (p_writers p) s"

text \<open>
  \<^verbatim>\<open>kill\<close> (\<^verbatim>\<open>sys/signal/kill.c\<close>) is not implemented and uses neither of its arguments.
\<close>

definition kill :: "kstate \<Rightarrow> int \<times> kstate" where
  "kill s = (- ENOSYS, s)"

text \<open>
  \<^verbatim>\<open>pipe_mkpipe\<close>.  \<open>kpipe\<close> is the address that \<^verbatim>\<open>kzalloc\<close> returns, \<open>kbuf\<close> the buffer of the ring, \<open>iread\<close> and \<open>iwrite\<close> are the results of \<^verbatim>\<open>ialloc\<close>; \<open>readers\<close> and \<open>writers\<close> name the condition variables,
  which are zeroed with the rest.  Without memory for the buffer \<^verbatim>\<open>ringbuf_init\<close> frees the ring, which is a part of the pipe and no allocation of its own: a fault.  After the other errors what has been allocated is
  freed again.  The caller gives up \<^verbatim>\<open>p_lock\<close>.
\<close>

definition pipe_mkpipe :: "addr \<Rightarrow> u8 list option \<Rightarrow> int \<times> addr \<Rightarrow> int \<times> addr \<Rightarrow> addr \<Rightarrow> addr \<Rightarrow> bool \<Rightarrow> (int \<times> pipe_t option) option" where
  "pipe_mkpipe kpipe kbuf iread iwrite readers writers pref =
     (if \<not> pref then Some (- EINVAL, None)
      else if kpipe = NULL then Some (- ENOMEM, None)
      else do {
        buf \<leftarrow> kbuf;
        if fst iread \<noteq> 0 then Some (fst iread, None)
        else if fst iwrite \<noteq> 0 then Some (fst iwrite, None)
        else Some (0, Some \<lparr>p_flags = PIPE_R OR PIPE_W, p_readers = readers, p_writers = writers, p_iread = snd iread, p_iwrite = snd iwrite,
          p_ringbuf = \<lparr>rb_buf = Some buf, rb_size = PIPESZ, rb_head = 0, rb_tail = 0, rb_count = 0, rb_lock = False\<rparr>\<rparr>) })"

definition pipefs_iclose :: "nat \<Rightarrow> pipe_t \<Rightarrow> kstate \<Rightarrow> addr \<Rightarrow> (int \<times> pipe_t \<times> kstate) option" where
  "pipefs_iclose cpuid p s ip =
     (if p_iwrite p = ip
      then do {
        let p = p\<lparr>p_flags := p_flags p AND NOT PIPE_W\<rparr>;
        s \<leftarrow> cond_broadcast cpuid (p_readers p) s; s \<leftarrow> cond_broadcast cpuid (p_writers p) s; Some (0, p, s) }
      else if p_iread p = ip
      then do {
        let p = p\<lparr>p_flags := p_flags p AND NOT PIPE_R\<rparr>;
        s \<leftarrow> cond_broadcast cpuid (p_writers p) s; s \<leftarrow> cond_broadcast cpuid (p_readers p) s; Some (0, p, s) }
      else None)"

text \<open>The operations that a pipe does not have.\<close>

datatype pipe_op = Op_sync | Op_unlink | Op_truncate | Op_getattr | Op_setattr | Op_fcntl | Op_ioctl | Op_mkdir | Op_create | Op_bind | Op_lookup | Op_symlink | Op_mknod | Op_readdir | Op_link | Op_rename

definition pipefs_unsupported :: "pipe_op \<Rightarrow> int" where
  "pipefs_unsupported op = (if op = Op_ioctl then - ENOTTY else - ENOSYS)"

section \<open>Reading\<close>

text \<open>What a part of a call ends with: a wait, or a result.\<close>

datatype pipe_call = Pipe_waits | Pipe_returns int

text \<open>One round of the loop behind the wait; \<open>rd\<close> counts the bytes in \<open>got\<close>.\<close>

definition iread_some :: "nat \<Rightarrow> u64 \<Rightarrow> pipe_t \<Rightarrow> kstate \<Rightarrow> u64 \<Rightarrow> u8 list \<Rightarrow> (pipe_t \<times> kstate \<times> u64 \<times> u8 list) option" where
  "iread_some cpuid nb p s rd got = do {
     (n, cs, r) \<leftarrow> ringbuf_read (pipe_lockbuf p) (nb - rd);
     s \<leftarrow> pipe_wake_writer cpuid p s;
     Some (pipe_unlockbuf p r, s, rd + n, got @ cs) }"

partial_function (option) iread_loop ::
    "nat \<Rightarrow> u64 \<Rightarrow> pipe_t \<Rightarrow> kstate \<Rightarrow> u64 \<Rightarrow> u8 list \<Rightarrow> (pipe_call \<times> pipe_t \<times> kstate \<times> u64 \<times> u8 list) option" where
  "iread_loop cpuid nb p s rd got =
     (if \<not> rd <s nb then Some (Pipe_returns (sint rd), p, s, rd, got)
      else if \<not> pipe_isreadable p
      then do { s \<leftarrow> pipe_wake_writer cpuid p s; let s = snd (kill s); Some (Pipe_returns (if rd \<noteq> 0 then sint rd else - EPIPE), p, s, rd, got) }
      else do {
        empty \<leftarrow> ringbuf_isempty (pipe_lockbuf p);
        if empty then do { s \<leftarrow> pipe_wake_writer cpuid p s; Some (Pipe_waits, p, s, rd, got) }
        else do { (p, s, rd, got) \<leftarrow> iread_some cpuid nb p s rd got; iread_loop cpuid nb p s rd got } })"

definition pipefs_iread :: "nat \<Rightarrow> u64 \<Rightarrow> pipe_t \<Rightarrow> kstate \<Rightarrow> (pipe_call \<times> pipe_t \<times> kstate \<times> u64 \<times> u8 list) option" where
  "pipefs_iread cpuid nb p s = iread_loop cpuid nb p s 0 []"

definition iread_resume :: "nat \<Rightarrow> u64 \<Rightarrow> int \<Rightarrow> pipe_t \<Rightarrow> kstate \<Rightarrow> u64 \<Rightarrow> u8 list \<Rightarrow> (pipe_call \<times> pipe_t \<times> kstate \<times> u64 \<times> u8 list) option" where
  "iread_resume cpuid nb err p s rd got =
     (if err \<noteq> 0 then Some (Pipe_returns err, p, s, rd, got)
      else do { (p, s, rd, got) \<leftarrow> iread_some cpuid nb p s rd got; iread_loop cpuid nb p s rd got })"

section \<open>Writing\<close>

definition iwrite_some :: "nat \<Rightarrow> u8 list \<Rightarrow> u64 \<Rightarrow> pipe_t \<Rightarrow> kstate \<Rightarrow> u64 \<Rightarrow> (pipe_t \<times> kstate \<times> u64) option" where
  "iwrite_some cpuid buf nb p s wr = do {
     (n, r) \<leftarrow> ringbuf_write (pipe_lockbuf p) (drop (unat wr) buf) (nb - wr);
     s \<leftarrow> pipe_wake_reader cpuid p s;
     Some (pipe_unlockbuf p r, s, wr + n) }"

partial_function (option) iwrite_loop ::
    "nat \<Rightarrow> u8 list \<Rightarrow> u64 \<Rightarrow> pipe_t \<Rightarrow> kstate \<Rightarrow> u64 \<Rightarrow> (pipe_call \<times> pipe_t \<times> kstate \<times> u64) option" where
  "iwrite_loop cpuid buf nb p s wr =
     (if \<not> wr <s nb then Some (Pipe_returns (sint wr), p, s, wr)
      else if \<not> pipe_iswritable p
      then do { s \<leftarrow> pipe_wake_reader cpuid p s; let s = snd (kill s); Some (Pipe_returns (if wr \<noteq> 0 then sint wr else - EPIPE), p, s, wr) }
      else do {
        full \<leftarrow> ringbuf_isfull (pipe_lockbuf p);
        if full then do { s \<leftarrow> pipe_wake_reader cpuid p s; Some (Pipe_waits, p, s, wr) }
        else do { (p, s, wr) \<leftarrow> iwrite_some cpuid buf nb p s wr; iwrite_loop cpuid buf nb p s wr } })"

definition pipefs_iwrite :: "nat \<Rightarrow> u8 list \<Rightarrow> u64 \<Rightarrow> pipe_t \<Rightarrow> kstate \<Rightarrow> (pipe_call \<times> pipe_t \<times> kstate \<times> u64) option" where
  "pipefs_iwrite cpuid buf nb p s = iwrite_loop cpuid buf nb p s 0"

definition iwrite_resume :: "nat \<Rightarrow> u8 list \<Rightarrow> u64 \<Rightarrow> int \<Rightarrow> pipe_t \<Rightarrow> kstate \<Rightarrow> u64 \<Rightarrow> (pipe_call \<times> pipe_t \<times> kstate \<times> u64) option" where
  "iwrite_resume cpuid buf nb err p s wr =
     (if err \<noteq> 0 then Some (Pipe_returns err, p, s, wr)
      else do { (p, s, wr) \<leftarrow> iwrite_some cpuid buf nb p s wr; iwrite_loop cpuid buf nb p s wr })"

declare iread_loop.simps [code] iwrite_loop.simps [code]

section \<open>Threads that use one pipe\<close>

text \<open>
  Where a thread is in a call, with the variables of the call: between the release of \<^verbatim>\<open>p_lock\<close> and the wait, or asleep.  \<open>accepted\<close> are all bytes that writers have put into the pipe, \<open>delivered\<close> all that readers
  have taken out of it; \<open>result\<close> is the result of a thread's last call, with the bytes read.
\<close>

datatype pipe_pc = P_out | R_gap u64 u64 "u8 list" | R_wait u64 u64 "u8 list" | W_gap u64 "u8 list" u64 | W_wait u64 "u8 list" u64

record pipe_sys =
  ppipe :: pipe_t
  pkern :: kstate
  ppc :: "addr \<Rightarrow> pipe_pc"
  accepted :: "u8 list"
  delivered :: "u8 list"
  result :: "addr \<Rightarrow> int \<times> u8 list"

datatype pipe_event = Read addr u64 | ReadSleep addr | ReadResume addr | Write addr "u8 list" | WriteSleep addr | WriteResume addr
  | CloseEnd addr addr | Interrupt addr addr | Schedule nat

definition pipe_running :: "pipe_sys \<Rightarrow> addr \<Rightarrow> bool" where
  "pipe_running g t \<longleftrightarrow> t \<noteq> NULL \<and> ti_state (threads (pkern g) t) = T_RUNNING"

text \<open>The effect of a part of a call: \<open>old\<close> is what the call had read or written before.\<close>

definition after_read :: "pipe_sys \<Rightarrow> addr \<Rightarrow> u64 \<Rightarrow> u8 list \<Rightarrow> (pipe_call \<times> pipe_t \<times> kstate \<times> u64 \<times> u8 list) option \<Rightarrow> pipe_sys option" where
  "after_read g t nb old r = map_option (\<lambda>(c, p, s, rd, got).
     g\<lparr>ppipe := p, pkern := s, delivered := delivered g @ drop (length old) got,
       ppc := (ppc g)(t := case c of Pipe_waits \<Rightarrow> R_gap nb rd got | Pipe_returns _ \<Rightarrow> P_out),
       result := (case c of Pipe_waits \<Rightarrow> result g | Pipe_returns v \<Rightarrow> (result g)(t := (v, got)))\<rparr>) r"

definition after_write :: "pipe_sys \<Rightarrow> addr \<Rightarrow> u64 \<Rightarrow> u8 list \<Rightarrow> u64 \<Rightarrow> (pipe_call \<times> pipe_t \<times> kstate \<times> u64) option \<Rightarrow> pipe_sys option" where
  "after_write g t nb buf old r = map_option (\<lambda>(c, p, s, wr).
     g\<lparr>ppipe := p, pkern := s, accepted := accepted g @ drop (unat old) (take (unat wr) buf),
       ppc := (ppc g)(t := case c of Pipe_waits \<Rightarrow> W_gap nb buf wr | Pipe_returns _ \<Rightarrow> P_out),
       result := (case c of Pipe_waits \<Rightarrow> result g | Pipe_returns v \<Rightarrow> (result g)(t := (v, [])))\<rparr>) r"

fun pipe_fire :: "dispatcher \<Rightarrow> pipe_event \<Rightarrow> pipe_sys \<Rightarrow> pipe_sys option" where
  "pipe_fire dispatch (Read t nb) g =
    (if pipe_running g t \<and> ppc g t = P_out then after_read g t nb [] (pipefs_iread 0 nb (ppipe g) (pkern g)) else None)"
| "pipe_fire dispatch (ReadSleep t) g =
    (case ppc g t of
       R_gap nb rd got \<Rightarrow>
         if pipe_running g t
         then case cond_wait dispatch NULL t (p_readers (ppipe g)) (pkern g) of
           Some (Returns (Blocked, s)) \<Rightarrow> Some (g\<lparr>pkern := s, ppc := (ppc g)(t := R_wait nb rd got)\<rparr>)
         | Some (Returns (Refused err, s)) \<Rightarrow> after_read g t nb got (iread_resume 0 nb err (ppipe g) s rd got)
         | _ \<Rightarrow> None
         else None
     | _ \<Rightarrow> None)"
| "pipe_fire dispatch (ReadResume t) g =
    (case ppc g t of
       R_wait nb rd got \<Rightarrow>
         if pipe_running g t
         then case sched_wait_resume dispatch t (pkern g) of
           Some (Returns (err, s)) \<Rightarrow> after_read g t nb got (iread_resume 0 nb err (ppipe g) s rd got)
         | _ \<Rightarrow> None
         else None
     | _ \<Rightarrow> None)"
| "pipe_fire dispatch (Write t buf) g =
    (if pipe_running g t \<and> ppc g t = P_out \<and> length buf < 2 ^ 63
     then after_write g t (of_nat (length buf)) buf 0 (pipefs_iwrite 0 buf (of_nat (length buf)) (ppipe g) (pkern g)) else None)"
| "pipe_fire dispatch (WriteSleep t) g =
    (case ppc g t of
       W_gap nb buf wr \<Rightarrow>
         if pipe_running g t
         then case cond_wait dispatch NULL t (p_writers (ppipe g)) (pkern g) of
           Some (Returns (Blocked, s)) \<Rightarrow> Some (g\<lparr>pkern := s, ppc := (ppc g)(t := W_wait nb buf wr)\<rparr>)
         | Some (Returns (Refused err, s)) \<Rightarrow> after_write g t nb buf wr (iwrite_resume 0 buf nb err (ppipe g) s wr)
         | _ \<Rightarrow> None
         else None
     | _ \<Rightarrow> None)"
| "pipe_fire dispatch (WriteResume t) g =
    (case ppc g t of
       W_wait nb buf wr \<Rightarrow>
         if pipe_running g t
         then case sched_wait_resume dispatch t (pkern g) of
           Some (Returns (err, s)) \<Rightarrow> after_write g t nb buf wr (iwrite_resume 0 buf nb err (ppipe g) s wr)
         | _ \<Rightarrow> None
         else None
     | _ \<Rightarrow> None)"
| "pipe_fire dispatch (CloseEnd t ip) g =
    (if pipe_running g t \<and> ppc g t = P_out then map_option (\<lambda>(_, p, s). g\<lparr>ppipe := p, pkern := s\<rparr>) (pipefs_iclose 0 (ppipe g) (pkern g) ip) else None)"
| "pipe_fire dispatch (Interrupt t u) g =
    (if pipe_running g t then map_option (\<lambda>(_, s). g\<lparr>pkern := s\<rparr>) (thread_wakeup 0 u WAKEUP_SIGNAL (pkern g)) else None)"
| "pipe_fire dispatch (Schedule c) g = Some (g\<lparr>pkern := snd (MLFQ_get_next_thread (pkern g) c)\<rparr>)"

definition pipe_start :: "pipe_sys \<Rightarrow> bool" where
  "pipe_start g \<longleftrightarrow> ring_inv (p_ringbuf (ppipe g)) \<and> rb_size (p_ringbuf (ppipe g)) = PIPESZ \<and> rb_tail (p_ringbuf (ppipe g)) = 0 \<and>
     accepted g = [] \<and> delivered g = [] \<and> (\<forall>t. ppc g t = P_out)"

section \<open>The stream of bytes\<close>

abbreviation pring :: "pipe_t \<Rightarrow> ringbuf" where "pring p \<equiv> p_ringbuf p"

lemma ring_lock_irrelevant [simp]: "ring_inv (r\<lparr>rb_lock := b\<rparr>) = ring_inv r" "ring_contents (r\<lparr>rb_lock := b\<rparr>) = ring_contents r"
  by (simp_all add: ring_inv_def ring_contents_def split: option.split)

text \<open>What a part of a call does to the buffer: bytes go from its front to the reader, or from the writer to its end.\<close>

definition took :: "pipe_t \<Rightarrow> u64 \<Rightarrow> u8 list \<Rightarrow> pipe_t \<Rightarrow> u64 \<Rightarrow> u8 list \<Rightarrow> bool" where
  "took p rd got p' rd' got' \<longleftrightarrow> (ring_inv (pring p) \<longrightarrow> rd = of_nat (length got) \<longrightarrow>
     (\<exists>cs. got' = got @ cs \<and> ring_contents (pring p) = cs @ ring_contents (pring p')) \<and> ring_inv (pring p') \<and>
     rb_size (pring p') = rb_size (pring p) \<and> rb_tail (pring p') = rb_tail (pring p) \<and> rd' = of_nat (length got'))"

definition gave :: "u8 list \<Rightarrow> pipe_t \<Rightarrow> u64 \<Rightarrow> pipe_t \<Rightarrow> u64 \<Rightarrow> bool" where
  "gave buf p wr p' wr' \<longleftrightarrow> (ring_inv (pring p) \<longrightarrow> unat wr \<le> length buf \<longrightarrow> unat (rb_tail (pring p)) + (length buf - unat wr) < 2 ^ 64 \<longrightarrow>
     unat wr \<le> unat wr' \<and> unat wr' \<le> length buf \<and> ring_contents (pring p') = ring_contents (pring p) @ drop (unat wr) (take (unat wr') buf) \<and> ring_inv (pring p') \<and>
     rb_size (pring p') = rb_size (pring p) \<and> unat (rb_tail (pring p')) = unat (rb_tail (pring p)) + (unat wr' - unat wr))"

lemma took_refl: "took p rd got p rd got"
  by (simp add: took_def)

lemma took_trans: "took p rd got p1 rd1 got1 \<Longrightarrow> took p1 rd1 got1 p2 rd2 got2 \<Longrightarrow> took p rd got p2 rd2 got2"
  unfolding took_def by auto

lemma gave_refl: "gave buf p wr p wr"
  by (simp add: gave_def)

lemma gave_trans:
  assumes "gave buf p wr p1 wr1" "gave buf p1 wr1 p2 wr2"
  shows "gave buf p wr p2 wr2"
  unfolding gave_def
proof (intro impI)
  assume h: "ring_inv (pring p)" "unat wr \<le> length buf" "unat (rb_tail (pring p)) + (length buf - unat wr) < 2 ^ 64"
  have 1: "unat wr \<le> unat wr1" "unat wr1 \<le> length buf" "ring_contents (pring p1) = ring_contents (pring p) @ drop (unat wr) (take (unat wr1) buf)" "ring_inv (pring p1)"
      "rb_size (pring p1) = rb_size (pring p)" "unat (rb_tail (pring p1)) = unat (rb_tail (pring p)) + (unat wr1 - unat wr)"
    using assms(1) h unfolding gave_def by blast+
  have "unat (rb_tail (pring p1)) + (length buf - unat wr1) < 2 ^ 64" using 1 h by linarith
  then have 2: "unat wr1 \<le> unat wr2" "unat wr2 \<le> length buf" "ring_contents (pring p2) = ring_contents (pring p1) @ drop (unat wr1) (take (unat wr2) buf)" "ring_inv (pring p2)"
      "rb_size (pring p2) = rb_size (pring p1)" "unat (rb_tail (pring p2)) = unat (rb_tail (pring p1)) + (unat wr2 - unat wr1)"
    using assms(2) 1 unfolding gave_def by blast+
  have "take (unat wr2) buf = take (unat wr1) buf @ drop (unat wr1) (take (unat wr2) buf)"
    using 2(1) append_take_drop_id [of "unat wr1" "take (unat wr2) buf"] by (simp add: min_def)
  then have "drop (unat wr) (take (unat wr2) buf) = drop (unat wr) (take (unat wr1) buf) @ drop (unat wr1) (take (unat wr2) buf)"
    using 1(1,2) by (metis drop_append length_take min.absorb2 diff_is_0_eq drop0)
  then show "unat wr \<le> unat wr2 \<and> unat wr2 \<le> length buf \<and> ring_contents (pring p2) = ring_contents (pring p) @ drop (unat wr) (take (unat wr2) buf) \<and> ring_inv (pring p2) \<and>
      rb_size (pring p2) = rb_size (pring p) \<and> unat (rb_tail (pring p2)) = unat (rb_tail (pring p)) + (unat wr2 - unat wr)"
    using 1 2 by simp
qed

lemma unat_eq_of_nat: "unat w = n \<Longrightarrow> w = (of_nat n :: u64)"
  by auto

lemma iread_some_took:
  assumes "iread_some cpuid nb p s rd got = Some (p', s', rd', got')"
  shows "took p rd got p' rd' got'"
  unfolding took_def
proof (intro impI)
  assume inv: "ring_inv (pring p)" and rd: "rd = of_nat (length got)"
  let ?r = "pipe_lockbuf p" and ?n = "nb - rd"
  have r: "ring_inv ?r" "rb_lock ?r" "ring_contents ?r = ring_contents (pring p)" "rb_count ?r = rb_count (pring p)" "rb_size ?r = rb_size (pring p)" "rb_tail ?r = rb_tail (pring p)"
    using inv by (simp_all add: pipe_lockbuf_def)
  obtain r' where r': "ringbuf_read ?r ?n = Some (min ?n (rb_count ?r), take (unat ?n) (ring_contents ?r), r')" "ring_inv r'" "rb_size r' = rb_size ?r"
      "ring_contents r' = drop (unat ?n) (ring_contents ?r)" "rb_tail r' = rb_tail ?r"
    using ringbuf_read_spec [OF r(1,2), of ?n] by blast
  have p': "p' = pipe_unlockbuf p r'" "rd' = rd + min ?n (rb_count ?r)" "got' = got @ take (unat ?n) (ring_contents ?r)"
    using assms unfolding iread_some_def r'(1) by (auto simp: bind_eq_Some_conv)
  have "unat (min ?n (rb_count ?r)) = length (take (unat ?n) (ring_contents ?r))" by (simp add: min_def word_le_nat_alt)
  then have "min ?n (rb_count ?r) = of_nat (length (take (unat ?n) (ring_contents ?r)))" by (rule unat_eq_of_nat)
  then have "rd' = of_nat (length got')" unfolding p'(2,3) rd length_append of_nat_add by (rule arg_cong)
  moreover have "ring_contents (pring p) = take (unat ?n) (ring_contents ?r) @ ring_contents (pring p')"
    unfolding p'(1) pipe_unlockbuf_def using r(3) r'(4) by simp
  moreover have "ring_inv (pring p')" "rb_size (pring p') = rb_size (pring p)" "rb_tail (pring p') = rb_tail (pring p)"
    unfolding p'(1) pipe_unlockbuf_def using r r' by simp_all
  ultimately show "(\<exists>cs. got' = got @ cs \<and> ring_contents (pring p) = cs @ ring_contents (pring p')) \<and> ring_inv (pring p') \<and>
      rb_size (pring p') = rb_size (pring p) \<and> rb_tail (pring p') = rb_tail (pring p) \<and> rd' = of_nat (length got')"
    using p'(3) by blast
qed

lemma iwrite_some_gave:
  assumes "iwrite_some cpuid buf nb p s wr = Some (p', s', wr')" "nb = of_nat (length buf)" "length buf < 2 ^ 63"
  shows "gave buf p wr p' wr'"
  unfolding gave_def
proof (intro impI)
  assume inv: "ring_inv (pring p)" and wr: "unat wr \<le> length buf" and tail: "unat (rb_tail (pring p)) + (length buf - unat wr) < 2 ^ 64"
  let ?r = "pipe_lockbuf p" and ?n = "nb - wr" and ?b = "drop (unat wr) buf"
  have nb: "unat nb = length buf" using assms(2,3) by (simp add: unat_of_nat)
  then have n: "unat ?n = length buf - unat wr" using wr by (simp add: unat_sub word_le_nat_alt)
  have r: "ring_inv ?r" "rb_lock ?r" "ring_contents ?r = ring_contents (pring p)" "rb_size ?r = rb_size (pring p)" "rb_head ?r = rb_head (pring p)" "rb_tail ?r = rb_tail (pring p)" "rb_count ?r = rb_count (pring p)"
    using inv by (simp_all add: pipe_lockbuf_def)
  let ?k = "min ?n (rb_size ?r - rb_count ?r)"
  have bl: "unat ?n \<le> length ?b" "unat (rb_tail ?r) + unat ?n < 2 ^ 64" using n tail r(6) by simp_all
  obtain r' where r': "ringbuf_write ?r ?b ?n = Some (?k, r')" "ring_inv r'" "rb_size r' = rb_size ?r" "ring_contents r' = ring_contents ?r @ take (unat ?k) ?b" "rb_head r' = rb_head ?r"
    using ringbuf_write_fifo [OF r(1,2) bl] by blast
  have p': "p' = pipe_unlockbuf p r'" "wr' = wr + ?k" using assms(1) r'(1) by (auto simp: iwrite_some_def bind_eq_Some_conv)
  have k: "unat ?k \<le> length buf - unat wr" using n by (simp add: min_def word_le_nat_alt)
  have "unat wr' = unat wr + unat ?k" unfolding p'(2) using k wr assms(3) by (intro unat_add_bounded) simp
  moreover have "unat (rb_tail r') = unat (rb_tail (pring p)) + unat ?k"
  proof -
    have "unat (rb_count r') = length (ring_contents r')" by simp
    also have "\<dots> = unat (rb_count (pring p)) + unat ?k" unfolding r'(4) r(3) using k by simp
    finally show ?thesis using r'(2,5) inv r(5) by (simp add: ring_inv_def)
  qed
  moreover have "take (unat ?k) ?b = drop (unat wr) (take (unat wr') buf)" using \<open>unat wr' = unat wr + unat ?k\<close> by (simp add: take_drop add.commute)
  ultimately show "unat wr \<le> unat wr' \<and> unat wr' \<le> length buf \<and> ring_contents (pring p') = ring_contents (pring p) @ drop (unat wr) (take (unat wr') buf) \<and> ring_inv (pring p') \<and>
      rb_size (pring p') = rb_size (pring p) \<and> unat (rb_tail (pring p')) = unat (rb_tail (pring p)) + (unat wr' - unat wr)"
    using r r' p' k wr by (simp add: pipe_unlockbuf_def)
qed

lemma iread_loop_took:
  assumes "iread_loop cpuid nb p s rd got = Some x"
  shows "case x of (c, p', s', rd', got') \<Rightarrow> took p rd got p' rd' got'"
proof (rule iread_loop.raw_induct [where P = "\<lambda>cpuid nb p s rd got x. case x of (c, p', s', rd', got') \<Rightarrow> took p rd got p' rd' got'", rotated, OF assms])
  fix loop cpuid nb p s rd got x
  assume IH: "\<And>cpuid nb p s rd got x. loop cpuid nb p s rd got = Some x \<Longrightarrow> case x of (c, p', s', rd', got') \<Rightarrow> took p rd got p' rd' got'"
    and body: "(if \<not> rd <s nb then Some (Pipe_returns (sint rd), p, s, rd, got)
      else if \<not> pipe_isreadable p
      then Option.bind (pipe_wake_writer cpuid p s) (\<lambda>s. let s = snd (kill s) in Some (Pipe_returns (if rd \<noteq> 0 then sint rd else - EPIPE), p, s, rd, got))
      else Option.bind (ringbuf_isempty (pipe_lockbuf p)) (\<lambda>empty.
        if empty then Option.bind (pipe_wake_writer cpuid p s) (\<lambda>s. Some (Pipe_waits, p, s, rd, got))
        else Option.bind (iread_some cpuid nb p s rd got) (\<lambda>(p, s, rd, got). loop cpuid nb p s rd got))) = Some x"
  consider "case x of (c, p', s', rd', got') \<Rightarrow> p' = p \<and> rd' = rd \<and> got' = got"
    | p1 s1 rd1 got1 where "iread_some cpuid nb p s rd got = Some (p1, s1, rd1, got1)" "loop cpuid nb p1 s1 rd1 got1 = Some x"
    using body by (auto simp: bind_eq_Some_conv Let_def split: if_splits)
  then show "case x of (c, p', s', rd', got') \<Rightarrow> took p rd got p' rd' got'"
  proof cases
    case 1
    then show ?thesis by (auto simp: took_refl split: prod.splits)
  next
    case 2
    then show ?thesis using IH [OF 2(2)] took_trans [OF iread_some_took [OF 2(1)]] by (cases x) simp
  qed
qed

lemma iwrite_loop_gave:
  assumes "iwrite_loop cpuid buf nb p s wr = Some x" "nb = of_nat (length buf)" "length buf < 2 ^ 63"
  shows "case x of (c, p', s', wr') \<Rightarrow> gave buf p wr p' wr'"
proof (rule iwrite_loop.raw_induct [where P = "\<lambda>cpuid buf nb p s wr x. nb = of_nat (length buf) \<longrightarrow> length buf < 2 ^ 63 \<longrightarrow>
    (case x of (c, p', s', wr') \<Rightarrow> gave buf p wr p' wr')", rotated, OF assms(1), rule_format, OF _ assms(2,3)])
  fix loop cpuid buf nb p s wr x
  assume IH: "\<And>cpuid buf nb p s wr x. loop cpuid buf nb p s wr = Some x \<Longrightarrow> nb = of_nat (length buf) \<Longrightarrow> length buf < 2 ^ 63 \<Longrightarrow>
      case x of (c, p', s', wr') \<Rightarrow> gave buf p wr p' wr'"
    and body: "(if \<not> wr <s nb then Some (Pipe_returns (sint wr), p, s, wr)
      else if \<not> pipe_iswritable p
      then Option.bind (pipe_wake_reader cpuid p s) (\<lambda>s. let s = snd (kill s) in Some (Pipe_returns (if wr \<noteq> 0 then sint wr else - EPIPE), p, s, wr))
      else Option.bind (ringbuf_isfull (pipe_lockbuf p)) (\<lambda>full.
        if full then Option.bind (pipe_wake_reader cpuid p s) (\<lambda>s. Some (Pipe_waits, p, s, wr))
        else Option.bind (iwrite_some cpuid buf nb p s wr) (\<lambda>(p, s, wr). loop cpuid buf nb p s wr))) = Some x"
    and nb: "nb = of_nat (length buf)" "length buf < 2 ^ 63"
  consider "case x of (c, p', s', wr') \<Rightarrow> p' = p \<and> wr' = wr"
    | p1 s1 wr1 where "iwrite_some cpuid buf nb p s wr = Some (p1, s1, wr1)" "loop cpuid buf nb p1 s1 wr1 = Some x"
    using body by (auto simp: bind_eq_Some_conv Let_def split: if_splits)
  then show "case x of (c, p', s', wr') \<Rightarrow> gave buf p wr p' wr'"
  proof cases
    case 1
    then show ?thesis by (auto simp: gave_refl split: prod.splits)
  next
    case 2
    then show ?thesis using IH [OF 2(2) nb] gave_trans [OF iwrite_some_gave [OF 2(1) nb]] by (cases x) simp
  qed
qed

lemma iread_parts_took:
  assumes "pipefs_iread cpuid nb p s = Some (c, p', s', rd', got')"
  shows "took p 0 [] p' rd' got'"
  using iread_loop_took [OF assms [unfolded pipefs_iread_def]] by simp

lemma iread_resume_took:
  assumes "iread_resume cpuid nb err p s rd got = Some (c, p', s', rd', got')"
  shows "took p rd got p' rd' got'"
  using assms by (auto simp: iread_resume_def bind_eq_Some_conv took_refl split: if_splits dest!: iread_loop_took iread_some_took intro: took_trans)

lemma iwrite_parts_gave:
  assumes "pipefs_iwrite cpuid buf nb p s = Some (c, p', s', wr')" "nb = of_nat (length buf)" "length buf < 2 ^ 63"
  shows "gave buf p 0 p' wr'"
  using iwrite_loop_gave [OF assms(1) [unfolded pipefs_iwrite_def] assms(2,3)] by simp

lemma iwrite_resume_gave:
  assumes "iwrite_resume cpuid buf nb err p s wr = Some (c, p', s', wr')" "nb = of_nat (length buf)" "length buf < 2 ^ 63"
  shows "gave buf p wr p' wr'"
  using assms(1) iwrite_loop_gave [OF _ assms(2,3)] iwrite_some_gave [OF _ assms(2,3)]
  by (fastforce simp: iwrite_resume_def bind_eq_Some_conv gave_refl split: if_splits intro: gave_trans)

section \<open>The invariant\<close>

primrec pc_ok :: "pipe_pc \<Rightarrow> bool" where
  "pc_ok P_out \<longleftrightarrow> True"
| "pc_ok (R_gap nb rd got) \<longleftrightarrow> rd = of_nat (length got)"
| "pc_ok (R_wait nb rd got) \<longleftrightarrow> rd = of_nat (length got)"
| "pc_ok (W_gap nb buf wr) \<longleftrightarrow> nb = of_nat (length buf) \<and> length buf < 2 ^ 63 \<and> unat wr \<le> length buf"
| "pc_ok (W_wait nb buf wr) \<longleftrightarrow> nb = of_nat (length buf) \<and> length buf < 2 ^ 63 \<and> unat wr \<le> length buf"

text \<open>The counters of the ring buffer are free-running, so the invariant speaks of pipes that have carried less than \<open>2\<^sup>6\<^sup>3\<close> bytes.\<close>

definition stream_ok :: "pipe_sys \<Rightarrow> bool" where
  "stream_ok g \<longleftrightarrow> ring_inv (pring (ppipe g)) \<and> rb_size (pring (ppipe g)) = PIPESZ \<and> accepted g = delivered g @ ring_contents (pring (ppipe g)) \<and>
     unat (rb_tail (pring (ppipe g))) = length (accepted g) \<and> (\<forall>t. pc_ok (ppc g t))"

definition pipe_ok :: "pipe_sys \<Rightarrow> bool" where
  "pipe_ok g \<longleftrightarrow> (length (accepted g) < 2 ^ 63 \<longrightarrow> stream_ok g)"

lemma pipe_ok_cong:
  assumes "pipe_ok g" "pring (ppipe g') = pring (ppipe g)" "accepted g' = accepted g" "delivered g' = delivered g" "stream_ok g \<Longrightarrow> \<forall>t. pc_ok (ppc g' t)"
  shows "pipe_ok g'"
  using assms by (simp add: pipe_ok_def stream_ok_def)

lemma after_read_ok:
  assumes "pipe_ok g" "after_read g t nb old r = Some g'"
    and took: "\<And>c p' s' rd' got'. r = Some (c, p', s', rd', got') \<Longrightarrow> took (ppipe g) rd old p' rd' got'" and rd: "stream_ok g \<Longrightarrow> rd = of_nat (length old)"
  shows "pipe_ok g'"
proof -
  obtain c p' s' rd' got' where r: "r = Some (c, p', s', rd', got')" using assms(2) by (auto simp: after_read_def)
  note g' = assms(2) [unfolded r after_read_def, simplified, symmetric]
  show ?thesis unfolding pipe_ok_def
  proof
    assume "length (accepted g') < 2 ^ 63"
    then have ok: "stream_ok g" using assms(1) g' by (simp add: pipe_ok_def)
    obtain cs where cs: "got' = old @ cs" "ring_contents (pring (ppipe g)) = cs @ ring_contents (pring p')" "ring_inv (pring p')"
        "rb_size (pring p') = rb_size (pring (ppipe g))" "rb_tail (pring p') = rb_tail (pring (ppipe g))" "rd' = of_nat (length got')"
      using took [OF r] ok rd by (auto simp: took_def stream_ok_def)
    show "stream_ok g'" using ok cs g' by (auto simp: stream_ok_def split: pipe_call.split)
  qed
qed

lemma after_write_ok:
  assumes "pipe_ok g" "after_write g t nb buf old r = Some g'"
    and gave: "\<And>c p' s' wr'. stream_ok g \<Longrightarrow> r = Some (c, p', s', wr') \<Longrightarrow> gave buf (ppipe g) old p' wr'"
    and buf: "stream_ok g \<Longrightarrow> nb = of_nat (length buf) \<and> length buf < 2 ^ 63 \<and> unat old \<le> length buf"
  shows "pipe_ok g'"
proof -
  obtain c p' s' wr' where r: "r = Some (c, p', s', wr')" using assms(2) by (auto simp: after_write_def)
  note g' = assms(2) [unfolded r after_write_def, simplified, symmetric]
  show ?thesis unfolding pipe_ok_def
  proof
    assume "length (accepted g') < 2 ^ 63"
    then have n: "length (accepted g) < 2 ^ 63" using g' by simp
    then have ok: "stream_ok g" using assms(1) by (simp add: pipe_ok_def)
    have "unat (rb_tail (pring (ppipe g))) = length (accepted g)" "length buf < 2 ^ 63" "(2 :: nat) ^ 64 = 2 ^ 63 + 2 ^ 63" using ok buf [OF ok] by (simp_all add: stream_ok_def)
    then have "unat (rb_tail (pring (ppipe g))) + (length buf - unat old) < 2 ^ 64" using n by linarith
    then have w: "unat old \<le> unat wr'" "unat wr' \<le> length buf" "ring_contents (pring p') = ring_contents (pring (ppipe g)) @ drop (unat old) (take (unat wr') buf)" "ring_inv (pring p')"
        "rb_size (pring p') = rb_size (pring (ppipe g))" "unat (rb_tail (pring p')) = unat (rb_tail (pring (ppipe g))) + (unat wr' - unat old)"
      using gave [OF ok r] ok buf [OF ok] by (auto simp: gave_def stream_ok_def)
    show "stream_ok g'" using ok w buf [OF ok] g' by (auto simp: stream_ok_def split: pipe_call.split)
  qed
qed

lemma stream_pc: "stream_ok g \<Longrightarrow> pc_ok (ppc g t)"
  by (simp add: stream_ok_def)

lemma iclose_ring: "pipefs_iclose cpuid p s ip = Some (v, p', s') \<Longrightarrow> pring p' = pring p"
  by (auto simp: pipefs_iclose_def Let_def bind_eq_Some_conv split: if_splits)

lemma pipe_ok_block: "pipe_ok g \<Longrightarrow> (stream_ok g \<Longrightarrow> pc_ok pc) \<Longrightarrow> pipe_ok (g\<lparr>pkern := s, ppc := (ppc g)(t := pc)\<rparr>)"
  by (erule pipe_ok_cong) (simp_all add: stream_pc)

lemma read_event_ok:
  assumes "pipe_ok g" "ppc g t = R_gap nb rd got \<or> ppc g t = R_wait nb rd got"
    "after_read g t nb got (iread_resume 0 nb err (ppipe g) s rd got) = Some g'"
  shows "pipe_ok g'"
  using assms stream_pc [of g t] by (intro after_read_ok [OF assms(1,3), of rd]) (auto intro: iread_resume_took)

lemma write_event_ok:
  assumes "pipe_ok g" "ppc g t = W_gap nb buf wr \<or> ppc g t = W_wait nb buf wr"
    "after_write g t nb buf wr (iwrite_resume 0 buf nb err (ppipe g) s wr) = Some g'"
  shows "pipe_ok g'"
  using assms stream_pc [of g t] by (intro after_write_ok [OF assms(1,3)]) (auto intro: iwrite_resume_gave)

lemma pipe_fire_ok: "pipe_ok g \<Longrightarrow> pipe_fire dispatch e g = Some g' \<Longrightarrow> pipe_ok g'"
proof (induction e)
  case (Read t nb)
  then show ?case by (auto split: if_splits intro!: after_read_ok [of g t nb "[]" _ g' 0] iread_parts_took)
next
  case (ReadSleep t)
  then obtain nb rd got where pc: "ppc g t = R_gap nb rd got" by (auto split: pipe_pc.splits)
  then have "stream_ok g \<Longrightarrow> pc_ok (R_wait nb rd got)" using stream_pc [of g t] by simp
  then show ?case using ReadSleep pc
    by (cases "cond_wait dispatch NULL t (p_readers (ppipe g)) (pkern g)" rule: opt_outcome_cases)
      (auto split: if_splits wait_entry.splits dest: read_event_ok [OF ReadSleep(1) disjI1 [OF pc]] simp: pipe_ok_block [OF ReadSleep(1)])
next
  case (ReadResume t)
  then obtain nb rd got where pc: "ppc g t = R_wait nb rd got" by (auto split: pipe_pc.splits)
  then show ?case using ReadResume
    by (cases "sched_wait_resume dispatch t (pkern g)" rule: opt_outcome_cases) (auto split: if_splits dest: read_event_ok [OF ReadResume(1) disjI2 [OF pc]])
next
  case (Write t buf)
  then show ?case by (auto split: if_splits intro!: after_write_ok [of g t "of_nat (length buf)" buf 0 _ g'] iwrite_parts_gave)
next
  case (WriteSleep t)
  then obtain nb buf wr where pc: "ppc g t = W_gap nb buf wr" by (auto split: pipe_pc.splits)
  then have "stream_ok g \<Longrightarrow> pc_ok (W_wait nb buf wr)" using stream_pc [of g t] by simp
  then show ?case using WriteSleep pc
    by (cases "cond_wait dispatch NULL t (p_writers (ppipe g)) (pkern g)" rule: opt_outcome_cases)
      (auto split: if_splits wait_entry.splits dest: write_event_ok [OF WriteSleep(1) disjI1 [OF pc]] simp: pipe_ok_block [OF WriteSleep(1)])
next
  case (WriteResume t)
  then obtain nb buf wr where pc: "ppc g t = W_wait nb buf wr" by (auto split: pipe_pc.splits)
  then show ?case using WriteResume
    by (cases "sched_wait_resume dispatch t (pkern g)" rule: opt_outcome_cases) (auto split: if_splits dest: write_event_ok [OF WriteResume(1) disjI2 [OF pc]])
next
  case (CloseEnd t ip)
  then show ?case by (auto split: if_splits intro!: pipe_ok_cong [OF CloseEnd(1)] simp: iclose_ring stream_pc)
next
  case (Interrupt t u)
  then show ?case by (auto split: if_splits intro!: pipe_ok_cong [OF Interrupt(1)] simp: stream_pc)
next
  case (Schedule c)
  then show ?case by (auto intro!: pipe_ok_cong [OF Schedule(1)] simp: stream_pc)
qed

interpretation pipes: invariant_system "pipe_fire dispatch" pipe_start pipe_ok
proof unfold_locales
  show "pipe_ok g" if "pipe_start g" for g
    using that by (auto simp: pipe_start_def pipe_ok_def stream_ok_def ring_inv_def ring_contents_def)
qed (rule pipe_fire_ok)

text \<open>C39: A pipe is a stream.  Under every interleaving of readers, writers, signals to sleeping threads and closes of either end, as long as it has carried fewer than \<^term>\<open>2 ^ 63 :: nat\<close> bytes, the bytes that readers have taken
  out, followed by those in the ring buffer, are the bytes that writers have put in, in order: none is lost in the pipe, duplicated or reordered; and at most \<^verbatim>\<open>PIPESZ\<close> bytes are stored.\<close>

theorem pipe_stream:
  assumes "reachable (pipe_fire dispatch) pipe_start g" "length (accepted g) < 2 ^ 63"
  shows "accepted g = delivered g @ ring_contents (p_ringbuf (ppipe g)) \<and> length (ring_contents (p_ringbuf (ppipe g))) \<le> unat PIPESZ \<and> ring_inv (p_ringbuf (ppipe g))"
  using pipes.reachable_inv [OF assms(1)] assms(2) by (auto simp: pipe_ok_def stream_ok_def ring_inv_def word_le_nat_alt)

section \<open>Calls that do not wait\<close>

lemma cond_signal_idle: "c \<noteq> NULL \<Longrightarrow> wait_qs s c = [] \<Longrightarrow> cond_signal cpuid c s = Some (set_cond c (cond_count s c - 1) s)"
  by (simp add: cond_signal_def sched_wakeup_whence_def)

lemma ring_update_lock: "rb_lock (pipe_lockbuf p)" "ring_inv (pipe_lockbuf p) = ring_inv (pring p)" "ring_contents (pipe_lockbuf p) = ring_contents (pring p)"
    "rb_size (pipe_lockbuf p) = rb_size (pring p)" "rb_count (pipe_lockbuf p) = rb_count (pring p)" "rb_tail (pipe_lockbuf p) = rb_tail (pring p)"
  by (simp_all add: pipe_lockbuf_def)

lemma sint_of_length: "n < 2 ^ 63 \<Longrightarrow> sint (of_nat n :: u64) = int n"
  using sint_small [of "of_nat n"] by (simp add: unat_of_nat)

lemma zero_sless: "0 < n \<Longrightarrow> n < 2 ^ 63 \<Longrightarrow> (0 :: u64) <s of_nat n"
  by (simp add: word_sless_alt sint_of_length)

lemma iwrite_fits:
  assumes p: "ring_inv (pring p)" "pipe_iswritable p" "p_readers p \<noteq> NULL" "wait_qs s (p_readers p) = []"
    and n: "buf \<noteq> []" "length (ring_contents (pring p)) + length buf \<le> unat (rb_size (pring p))" "length buf < 2 ^ 63" "unat (rb_tail (pring p)) + length buf < 2 ^ 64"
  shows "\<exists>r. pipefs_iwrite cpuid buf (of_nat (length buf)) p s =
      Some (Pipe_returns (int (length buf)), p\<lparr>p_ringbuf := r\<rparr>, set_cond (p_readers p) (cond_count s (p_readers p) - 1) s, of_nat (length buf)) \<and>
    ring_inv r \<and> rb_size r = rb_size (pring p) \<and> ring_contents r = ring_contents (pring p) @ buf"
proof -
  let ?n = "of_nat (length buf) :: u64" and ?r = "pipe_lockbuf p"
  have un: "unat ?n = length buf" using n(3) by (simp add: unat_of_nat)
  have c: "rb_count (pring p) \<le> rb_size (pring p)" using p(1) by (simp add: ring_inv_def)
  have "?n \<le> rb_size (pring p) - rb_count (pring p)" using n(2) un c by (simp add: word_le_nat_alt unat_sub)
  then have k: "min ?n (rb_size ?r - rb_count ?r) = ?n" by (simp add: ring_update_lock min_def)
  obtain r where r: "ringbuf_write ?r buf ?n = Some (?n, r)" "ring_inv r" "rb_size r = rb_size (pring p)" "ring_contents r = ring_contents (pring p) @ buf"
    using ringbuf_write_fifo [of ?r ?n buf] p(1) n(4) k un by (auto simp: ring_update_lock)
  have full: "ringbuf_isfull ?r = Some False"
    using ringbuf_available_count [of ?r] p(1) n(1,2) by (auto simp: ring_update_lock)
  have lt: "(0 :: u64) <s ?n" using n(1,3) by (intro zero_sless) simp_all
  have some: "iwrite_some cpuid buf ?n p s 0 = Some (pipe_unlockbuf p r, set_cond (p_readers p) (cond_count s (p_readers p) - 1) s, ?n)"
    using r(1) p by (simp add: iwrite_some_def pipe_wake_reader_def cond_signal_idle)
  have "pipefs_iwrite cpuid buf ?n p s =
      Some (Pipe_returns (int (length buf)), pipe_unlockbuf p r, set_cond (p_readers p) (cond_count s (p_readers p) - 1) s, ?n)"
    unfolding pipefs_iwrite_def
    by (subst iwrite_loop.simps, simp add: lt p(2) full some, subst iwrite_loop.simps, simp add: sint_of_length [OF n(3)] word_sless_alt)
  then show ?thesis using r by (intro exI [of _ "r\<lparr>rb_lock := False\<rparr>"]) (simp add: pipe_unlockbuf_def)
qed

lemma iread_stored:
  assumes p: "ring_inv (pring p)" "pipe_isreadable p" "p_writers p \<noteq> NULL" "wait_qs s (p_writers p) = []"
    and n: "0 < n" "n \<le> length (ring_contents (pring p))" "n < 2 ^ 63"
  shows "\<exists>r. pipefs_iread cpuid (of_nat n) p s =
      Some (Pipe_returns (int n), p\<lparr>p_ringbuf := r\<rparr>, set_cond (p_writers p) (cond_count s (p_writers p) - 1) s, of_nat n, take n (ring_contents (pring p))) \<and>
    ring_inv r \<and> rb_size r = rb_size (pring p) \<and> ring_contents r = drop n (ring_contents (pring p))"
proof -
  let ?n = "of_nat n :: u64" and ?r = "pipe_lockbuf p"
  have un: "unat ?n = n" using n(3) by (simp add: unat_of_nat)
  have k: "min ?n (rb_count ?r) = ?n" using n(2) un by (simp add: ring_update_lock min_def word_le_nat_alt)
  obtain r where r: "ringbuf_read ?r ?n = Some (?n, take n (ring_contents (pring p)), r)" "ring_inv r" "rb_size r = rb_size (pring p)" "ring_contents r = drop n (ring_contents (pring p))"
    using ringbuf_read_spec [of ?r ?n] p(1) k un by (auto simp: ring_update_lock)
  have empty: "ringbuf_isempty ?r = Some False"
    using ringbuf_available_count [of ?r] p(1) n(1,2) by (auto simp: ring_update_lock simp del: length_ring_contents)
  have lt: "(0 :: u64) <s ?n" using n(1,3) by (rule zero_sless)
  have some: "iread_some cpuid ?n p s 0 [] = Some (pipe_unlockbuf p r, set_cond (p_writers p) (cond_count s (p_writers p) - 1) s, ?n, take n (ring_contents (pring p)))"
    using r(1) p by (simp add: iread_some_def pipe_wake_writer_def cond_signal_idle)
  have "pipefs_iread cpuid ?n p s =
      Some (Pipe_returns (int n), pipe_unlockbuf p r, set_cond (p_writers p) (cond_count s (p_writers p) - 1) s, ?n, take n (ring_contents (pring p)))"
    unfolding pipefs_iread_def
    by (subst iread_loop.simps, simp add: lt p(2) empty some, subst iread_loop.simps, simp add: sint_of_length [OF n(3)] word_sless_alt)
  then show ?thesis using r by (intro exI [of _ "r\<lparr>rb_lock := False\<rparr>"]) (simp add: pipe_unlockbuf_def)
qed

text \<open>C40: Round trip through a pipe.  On a pipe whose ends are both open and which nobody waits for, a write that fits returns the number of its bytes at once, and a read of all that is stored then returns the old contents
  followed by the bytes written, and leaves the pipe empty.\<close>

theorem pipe_roundtrip:
  assumes "ring_inv (p_ringbuf p)" "pipe_iswritable p" "pipe_isreadable p" "p_readers p \<noteq> NULL" "p_writers p \<noteq> NULL" "wait_qs s (p_readers p) = []" "wait_qs s (p_writers p) = []"
    "buf \<noteq> []" "length (ring_contents (p_ringbuf p)) + length buf \<le> unat (rb_size (p_ringbuf p))" "unat (rb_size (p_ringbuf p)) < 2 ^ 63" "unat (rb_tail (p_ringbuf p)) + length buf < 2 ^ 64"
  shows "\<exists>p1 s1 p2 s2. pipefs_iwrite cpuid buf (of_nat (length buf)) p s = Some (Pipe_returns (int (length buf)), p1, s1, of_nat (length buf)) \<and>
    (let n = length (ring_contents (p_ringbuf p)) + length buf in
     pipefs_iread cpuid (of_nat n) p1 s1 = Some (Pipe_returns (int n), p2, s2, of_nat n, ring_contents (p_ringbuf p) @ buf)) \<and>
    ring_contents (p_ringbuf p2) = []"
proof -
  let ?n = "length (ring_contents (pring p)) + length buf"
  let ?s = "set_cond (p_readers p) (cond_count s (p_readers p) - 1) s"
  have n: "?n < 2 ^ 63" "length buf < 2 ^ 63" using assms(9,10) by linarith+
  obtain r where w: "pipefs_iwrite cpuid buf (of_nat (length buf)) p s = Some (Pipe_returns (int (length buf)), p\<lparr>p_ringbuf := r\<rparr>, ?s, of_nat (length buf))"
      "ring_inv r" "rb_size r = rb_size (pring p)" "ring_contents r = ring_contents (pring p) @ buf"
    using iwrite_fits [OF assms(1,2,4,6,8,9) n(2) assms(11)] by blast
  let ?p = "p\<lparr>p_ringbuf := r\<rparr>"
  have "ring_inv (pring ?p)" "pipe_isreadable ?p" "p_writers ?p \<noteq> NULL" "wait_qs ?s (p_writers ?p) = []" "0 < ?n" "?n \<le> length (ring_contents (pring ?p))"
    using w assms by (simp_all add: pipe_isreadable_def set_cond_def del: length_ring_contents)
  from iread_stored [OF this n(1), of cpuid] obtain r2 s2 where
    "pipefs_iread cpuid (of_nat ?n) ?p ?s = Some (Pipe_returns (int ?n), ?p\<lparr>p_ringbuf := r2\<rparr>, s2, of_nat ?n, take ?n (ring_contents (pring ?p)))" "ring_contents r2 = drop ?n (ring_contents (pring ?p))"
    by blast
  then show ?thesis using w unfolding Let_def by (intro exI [of _ ?p] exI [of _ ?s] exI [of _ "?p\<lparr>p_ringbuf := r2\<rparr>"] exI [of _ s2]) (simp del: length_ring_contents)
qed

section \<open>The ends\<close>

text \<open>A reader is not told of the end of the stream.  The reader only looks at the flag of its own end: on an empty pipe whose write end is closed, as on one that is open, a read of at least one byte waits, and when it is
  woken up without an error, for instance by the close of the write end, it waits again.  A read never returns zero.\<close>

theorem pipe_no_eof:
  assumes "ring_inv (p_ringbuf p)" "ring_contents (p_ringbuf p) = []" "pipe_isreadable p" "\<not> pipe_iswritable p" "p_writers p \<noteq> NULL" "wait_qs s (p_writers p) = []"
    "0 < n" "n < 2 ^ 63"
  shows "(\<exists>s'. pipefs_iread cpuid (of_nat n) p s = Some (Pipe_waits, p, s', 0, [])) \<and>
    (\<exists>p' s'. iread_resume cpuid (of_nat n) 0 p s 0 [] = Some (Pipe_waits, p', s', 0, []) \<and> ring_contents (p_ringbuf p') = [])"
proof -
  let ?n = "of_nat n :: u64"
  have lt: "(0 :: u64) <s ?n" using assms(7,8) by (rule zero_sless)
  have empty: "ringbuf_isempty (pipe_lockbuf q) = Some True" if "ring_inv (pring q)" "ring_contents (pring q) = []" for q
    using ringbuf_available_count [of "pipe_lockbuf q"] that by (simp add: ring_update_lock)
  have wait: "\<exists>s'. iread_loop cpuid ?n q s 0 [] = Some (Pipe_waits, q, s', 0, [])"
    if "ring_inv (pring q)" "ring_contents (pring q) = []" "pipe_isreadable q" "p_writers q = p_writers p" "wait_qs s (p_writers p) = []" for q s
    using that assms(5) by (subst iread_loop.simps) (simp add: lt empty pipe_wake_writer_def cond_signal_idle)
  have c: "rb_count (pring p) = 0" using assms(2) by (metis length_ring_contents list.size(3) unat_eq_zero)
  obtain r where r: "ringbuf_read (pipe_lockbuf p) ?n = Some (0, [], r)" "ring_inv r" "ring_contents r = []"
    using ringbuf_read_spec [of "pipe_lockbuf p" ?n] assms(1,2) c by (auto simp: ring_update_lock)
  let ?s = "set_cond (p_writers p) (cond_count s (p_writers p) - 1) s"
  have "iread_some cpuid ?n p s 0 [] = Some (pipe_unlockbuf p r, ?s, 0, [])"
    using r(1) assms(5,6) by (simp add: iread_some_def pipe_wake_writer_def cond_signal_idle)
  moreover have "\<exists>s'. iread_loop cpuid ?n (pipe_unlockbuf p r) ?s 0 [] = Some (Pipe_waits, pipe_unlockbuf p r, s', 0, [])"
    using r assms by (intro wait) (simp_all add: pipe_unlockbuf_def pipe_isreadable_def set_cond_def)
  ultimately show ?thesis using wait [OF assms(1,2,3) refl assms(6)] r by (auto simp: pipefs_iread_def iread_resume_def pipe_unlockbuf_def)
qed

text \<open>A pipe that \<^verbatim>\<open>pipe_mkpipe\<close> makes is empty, has room for \<^verbatim>\<open>PIPESZ\<close> bytes and is open at both ends, and closing one of two different ends closes that end and neither changes the contents nor closes the
  other.\<close>

theorem pipe_ends:
  assumes "length buf = unat PIPESZ" "kpipe \<noteq> NULL" "ir \<noteq> iw" "readers \<noteq> NULL" "writers \<noteq> NULL" "wait_qs s readers = []" "wait_qs s writers = []"
  shows "\<exists>p. pipe_mkpipe kpipe (Some buf) (0, ir) (0, iw) readers writers True = Some (0, Some p) \<and>
    ring_inv (p_ringbuf p) \<and> ring_contents (p_ringbuf p) = [] \<and> rb_size (p_ringbuf p) = PIPESZ \<and> pipe_isreadable p \<and> pipe_iswritable p \<and>
    (\<exists>p' s'. pipefs_iclose cpuid p s iw = Some (0, p', s') \<and> pipe_isreadable p' \<and> \<not> pipe_iswritable p' \<and> p_ringbuf p' = p_ringbuf p) \<and>
    (\<exists>p' s'. pipefs_iclose cpuid p s ir = Some (0, p', s') \<and> \<not> pipe_isreadable p' \<and> pipe_iswritable p' \<and> p_ringbuf p' = p_ringbuf p)"
proof -
  have flags: "(PIPE_R OR PIPE_W) AND PIPE_R \<noteq> 0" "(PIPE_R OR PIPE_W) AND PIPE_W \<noteq> 0" "((PIPE_R OR PIPE_W) AND NOT PIPE_W) AND PIPE_R \<noteq> 0" "((PIPE_R OR PIPE_W) AND NOT PIPE_W) AND PIPE_W = 0"
      "((PIPE_R OR PIPE_W) AND NOT PIPE_R) AND PIPE_R = 0" "((PIPE_R OR PIPE_W) AND NOT PIPE_R) AND PIPE_W \<noteq> 0"
    by (simp_all add: PIPE_R_def PIPE_W_def)
  have bc: "cond_broadcast cpuid c s = Some (set_cond c (- 1) s)" if "c \<noteq> NULL" "wait_qs s c = []" for c s
    using that by (simp add: cond_broadcast_def sched_wakeup_all_def)
  let ?p = "\<lparr>p_flags = PIPE_R OR PIPE_W, p_readers = readers, p_writers = writers, p_iread = ir, p_iwrite = iw,
      p_ringbuf = \<lparr>rb_buf = Some buf, rb_size = PIPESZ, rb_head = 0, rb_tail = 0, rb_count = 0, rb_lock = False\<rparr>\<rparr>"
  have "pipe_mkpipe kpipe (Some buf) (0, ir) (0, iw) readers writers True = Some (0, Some ?p)" using assms(2) by (simp add: pipe_mkpipe_def)
  moreover have "ring_inv (pring ?p)" "ring_contents (pring ?p) = []" using assms(1) by (simp_all add: ring_inv_def ring_contents_def PIPESZ_def)
  moreover have "\<exists>p' s'. pipefs_iclose cpuid ?p s iw = Some (0, p', s') \<and> pipe_isreadable p' \<and> \<not> pipe_iswritable p' \<and> pring p' = pring ?p"
    using assms(4-7) flags by (simp add: pipefs_iclose_def Let_def bc set_cond_def pipe_isreadable_def pipe_iswritable_def)
  moreover have "\<exists>p' s'. pipefs_iclose cpuid ?p s ir = Some (0, p', s') \<and> \<not> pipe_isreadable p' \<and> pipe_iswritable p' \<and> pring p' = pring ?p"
    using assms(3-7) flags by (simp add: pipefs_iclose_def Let_def bc set_cond_def pipe_isreadable_def pipe_iswritable_def)
  ultimately show ?thesis using flags by (intro exI [of _ ?p]) (simp add: pipe_isreadable_def pipe_iswritable_def)
qed

section \<open>Samples\<close>

definition pipe_sample :: pipe_t where
  "pipe_sample = \<lparr>p_flags = PIPE_R OR PIPE_W, p_readers = 64, p_writers = 128, p_iread = 256, p_iwrite = 512,
     p_ringbuf = \<lparr>rb_buf = Some (replicate 4096 0), rb_size = PIPESZ, rb_head = 0, rb_tail = 0, rb_count = 0, rb_lock = False\<rparr>\<rparr>"

lemma pipe_sample_ok: "ring_inv (p_ringbuf pipe_sample)" "ring_contents (p_ringbuf pipe_sample) = []" "pipe_iswritable pipe_sample" "pipe_isreadable pipe_sample"
    "p_readers pipe_sample = 64" "p_writers pipe_sample = 128" "rb_size (p_ringbuf pipe_sample) = PIPESZ" "rb_tail (p_ringbuf pipe_sample) = 0"
  by (simp_all add: pipe_sample_def ring_inv_def ring_contents_def PIPESZ_def pipe_iswritable_def pipe_isreadable_def PIPE_R_def PIPE_W_def)

lemma quiet_queues: "wait_qs quiet q = []"
  by (simp add: quiet_def)

theorem pipe_roundtrip_witness:
  "\<exists>p1 s1 p2 s2. pipefs_iwrite 0 [1, 2, 3] 3 pipe_sample quiet = Some (Pipe_returns 3, p1, s1, 3) \<and>
    pipefs_iread 0 3 p1 s1 = Some (Pipe_returns 3, p2, s2, 3, [1, 2, 3])"
  using pipe_roundtrip [of pipe_sample quiet "[1, 2, 3]" 0] by (auto simp: pipe_sample_ok quiet_queues PIPESZ_def simp flip: length_ring_contents)

theorem pipe_no_eof_witness:
  "\<exists>s'. pipefs_iread 0 1 (pipe_sample\<lparr>p_flags := PIPE_R\<rparr>) quiet = Some (Pipe_waits, pipe_sample\<lparr>p_flags := PIPE_R\<rparr>, s', 0, [])"
  using pipe_no_eof [of "pipe_sample\<lparr>p_flags := PIPE_R\<rparr>" quiet 1 0] by (simp add: pipe_sample_ok quiet_queues pipe_isreadable_def pipe_iswritable_def PIPE_R_def PIPE_W_def)

theorem pipe_ends_witness:
  "\<exists>p. pipe_mkpipe 1024 (Some (replicate 4096 7)) (0, 256) (0, 512) 64 128 True = Some (0, Some p) \<and> pipe_isreadable p"
  using pipe_ends [of "replicate 4096 7" 1024 256 512 64 128 quiet 0] by (auto simp: quiet_queues PIPESZ_def)

definition pipe_sys_sample :: pipe_sys where
  "pipe_sys_sample = \<lparr>ppipe = pipe_sample, pkern = quiet, ppc = (\<lambda>t. P_out), accepted = [], delivered = [], result = (\<lambda>t. (0, []))\<rparr>"

theorem pipe_stream_witness:
  "\<exists>g. reachable (pipe_fire (\<lambda>a i s. s)) pipe_start g \<and> accepted g = [1, 2, 3] \<and> accepted g = delivered g @ ring_contents (p_ringbuf (ppipe g))"
proof -
  have start: "reachable (pipe_fire (\<lambda>a i s. s)) pipe_start pipe_sys_sample"
    by (rule reachable.start) (simp add: pipe_start_def pipe_sys_sample_def pipe_sample_ok)
  obtain r where w: "pipefs_iwrite 0 [1, 2, 3] 3 pipe_sample quiet = Some (Pipe_returns 3, pipe_sample\<lparr>p_ringbuf := r\<rparr>, set_cond 64 (cond_count quiet 64 - 1) quiet, 3)"
    using iwrite_fits [of pipe_sample quiet "[1, 2, 3]" 0] by (auto simp: pipe_sample_ok quiet_queues PIPESZ_def simp flip: length_ring_contents)
  have "pipe_running pipe_sys_sample 8" by (simp add: pipe_running_def pipe_sys_sample_def quiet_def sig_thread_def)
  then obtain g where g: "pipe_fire (\<lambda>a i s. s) (Write 8 [1, 2, 3]) pipe_sys_sample = Some g" "accepted g = [1, 2, 3]"
    using w by (simp add: pipe_sys_sample_def after_write_def)
  have "reachable (pipe_fire (\<lambda>a i s. s)) pipe_start g" using start g(1) by (rule reachable.step)
  then show ?thesis using pipe_stream [of "\<lambda>a i s. s" g] g(2) by auto
qed

end
