(* ===== verification/Spinlock.thy ===== *)
theory Spinlock
  imports Transition
begin

text \<open>
  The spin lock: \<^verbatim>\<open>sync/spinlock.c\<close>, the macros of \<^verbatim>\<open>include/sync/spinlock.h\<close> that the kernel is built with, the raw
  lock \<^verbatim>\<open>arch/x86_64/raw_lock.asm\<close> and the nesting of disabled interrupts of \<^verbatim>\<open>include/sync/preempt.h\<close>.

  One lock is used by any number of processor cores.  Each event is one access of one core to the lock, so the
  model has every interleaving of the accesses; a core is described by the point of the macro it has
  reached, the thread it runs (\<^verbatim>\<open>current\<close>, null when it runs none), the address of its \<^verbatim>\<open>cpu_t\<close> and its interrupt
  state.  The members \<^verbatim>\<open>file\<close> and \<^verbatim>\<open>line\<close>, which only error messages show, are left out.
\<close>

section \<open>The lock and the cores\<close>

record spinlock =
  guard :: u32
  locked :: u32
  owner :: addr

datatype acq_pc = A_guard bool | A_check | A_test | A_retry | A_pop | A_push | A_lock | A_owner | A_release

datatype rel_pc = R_guard | R_check | R_owner | R_unlock | R_release | R_pop | R_pop2

datatype try_pc = T_guard | T_check | T_test | T_lock | T_owner | T_success | T_pop | T_fail

datatype isl_pc = I_guard | I_read | I_release | I_pop

datatype spin_pc = Out | In | Panic | Acq acq_pc | Rel rel_pc | Try try_pc | Isl bool bool isl_pc

record core =
  pc :: spin_pc
  current :: addr
  cpu :: addr
  intr :: bool
  intena :: bool
  ncli :: int
  result :: bool

text \<open>\<^verbatim>\<open>NCPU\<close> is 8, so cores have three-bit numbers.\<close>

type_synonym core_id = "3 word"

record spin_sys =
  lk :: spinlock
  cores :: "core_id \<Rightarrow> core"

definition spinlock_init :: "spinlock \<Rightarrow> spinlock" where
  "spinlock_init l = l\<lparr>owner := NULL, locked := 0, guard := 0\<rparr>"

definition holding :: "spinlock \<Rightarrow> core \<Rightarrow> bool" where
  "holding l k = (locked l \<noteq> 0 \<and> (owner l = current k \<or> owner l = cpu k))"

definition self :: "core \<Rightarrow> addr" where
  "self k = (if current k \<noteq> NULL then current k else cpu k)"

definition pushcli :: "core \<Rightarrow> core" where
  "pushcli k = k\<lparr>intr := False, intena := (intr k \<or> intena k), ncli := ncli k + 1\<rparr>"

definition popcli :: "core \<Rightarrow> core" where
  "popcli k =
    (if intr k \<or> ncli k - 1 < 0 then k\<lparr>pc := Panic\<rparr>
     else if ncli k - 1 = 0 \<and> intena k then k\<lparr>ncli := ncli k - 1, intena := False, intr := True\<rparr>
     else k\<lparr>ncli := ncli k - 1\<rparr>)"

text \<open>\<^verbatim>\<open>xchg\<close> writes one to the guard; the core goes on when the old value was zero and repeats otherwise.\<close>

definition raw_acquire :: "spin_pc \<Rightarrow> spinlock \<Rightarrow> core \<Rightarrow> spinlock \<times> core" where
  "raw_acquire p l k = (if guard l = 0 then (l\<lparr>guard := 1\<rparr>, k\<lparr>pc := p\<rparr>) else (l\<lparr>guard := 1\<rparr>, k))"

definition raw_release :: "spin_pc \<Rightarrow> spinlock \<Rightarrow> core \<Rightarrow> spinlock \<times> core" where
  "raw_release p l k = (l\<lparr>guard := 0\<rparr>, k\<lparr>pc := p\<rparr>)"

definition pop_to :: "spin_pc \<Rightarrow> core \<Rightarrow> core" where
  "pop_to p k = popcli (k\<lparr>pc := p\<rparr>)"

section \<open>One access of one core\<close>

text \<open>
  \<open>advance\<close> performs the next access of a core that is inside \<^verbatim>\<open>spin_acquire\<close>, \<^verbatim>\<open>spin_release\<close>, \<^verbatim>\<open>spin_trylock\<close>,
  \<^verbatim>\<open>spin_islocked\<close> or \<^verbatim>\<open>spin_recursive_lock\<close>.  The first argument of the \<open>Isl\<close> points says whether the core holds the
  lock, the second whether it is in \<^verbatim>\<open>spin_recursive_lock\<close>.
\<close>

fun acquire_at :: "acq_pc \<Rightarrow> spinlock \<Rightarrow> core \<Rightarrow> spinlock \<times> core" where
  "acquire_at (A_guard first) l k = raw_acquire (Acq (if first then A_check else A_test)) l k"
| "acquire_at A_check l k = (l, k\<lparr>pc := if holding l k then Panic else Acq A_test\<rparr>)"
| "acquire_at A_test l k = (l, k\<lparr>pc := Acq (if locked l = 0 then A_lock else A_retry)\<rparr>)"
| "acquire_at A_retry l k = raw_release (Acq A_pop) l k"
| "acquire_at A_pop l k = (l, pop_to (Acq A_push) k)"
| "acquire_at A_push l k = (l, (pushcli k)\<lparr>pc := Acq (A_guard False)\<rparr>)"
| "acquire_at A_lock l k = (l\<lparr>locked := 1\<rparr>, k\<lparr>pc := Acq A_owner\<rparr>)"
| "acquire_at A_owner l k = (l\<lparr>owner := self k\<rparr>, k\<lparr>pc := Acq A_release\<rparr>)"
| "acquire_at A_release l k = raw_release In l k"

fun release_at :: "rel_pc \<Rightarrow> spinlock \<Rightarrow> core \<Rightarrow> spinlock \<times> core" where
  "release_at R_guard l k = raw_acquire (Rel R_check) l k"
| "release_at R_check l k = (l, k\<lparr>pc := if holding l k then Rel R_owner else Panic\<rparr>)"
| "release_at R_owner l k = (l\<lparr>owner := NULL\<rparr>, k\<lparr>pc := Rel R_unlock\<rparr>)"
| "release_at R_unlock l k = (l\<lparr>locked := 0\<rparr>, k\<lparr>pc := Rel R_release\<rparr>)"
| "release_at R_release l k = raw_release (Rel R_pop) l k"
| "release_at R_pop l k = (l, pop_to (Rel R_pop2) k)"
| "release_at R_pop2 l k = (l, pop_to Out k)"

fun trylock_at :: "try_pc \<Rightarrow> spinlock \<Rightarrow> core \<Rightarrow> spinlock \<times> core" where
  "trylock_at T_guard l k = raw_acquire (Try T_check) l k"
| "trylock_at T_check l k = (l, k\<lparr>pc := if holding l k then Panic else Try T_test\<rparr>)"
| "trylock_at T_test l k = (l, k\<lparr>pc := Try (if locked l = 0 then T_lock else T_pop), result := (locked l = 0)\<rparr>)"
| "trylock_at T_lock l k = (l\<lparr>locked := 1\<rparr>, k\<lparr>pc := Try T_owner\<rparr>)"
| "trylock_at T_owner l k = (l\<lparr>owner := self k\<rparr>, k\<lparr>pc := Try T_success\<rparr>)"
| "trylock_at T_success l k = raw_release In l k"
| "trylock_at T_pop l k = (l, pop_to (Try T_fail) k)"
| "trylock_at T_fail l k = raw_release Out l k"

fun islocked_at :: "bool \<Rightarrow> bool \<Rightarrow> isl_pc \<Rightarrow> spinlock \<Rightarrow> core \<Rightarrow> spinlock \<times> core" where
  "islocked_at h r I_guard l k = raw_acquire (Isl h r I_read) l k"
| "islocked_at h r I_read l k = (l, k\<lparr>pc := Isl h r I_release, result := holding l k\<rparr>)"
| "islocked_at h r I_release l k = raw_release (Isl h r I_pop) l k"
| "islocked_at h r I_pop l k =
    (l, if r \<and> \<not> result k then pushcli (pop_to (Acq (A_guard True)) k) else pop_to (if h then In else Out) k)"

fun advance :: "spin_pc \<Rightarrow> spinlock \<Rightarrow> core \<Rightarrow> (spinlock \<times> core) option" where
  "advance (Acq p) l k = Some (acquire_at p l k)"
| "advance (Rel p) l k = Some (release_at p l k)"
| "advance (Try p) l k = Some (trylock_at p l k)"
| "advance (Isl h r p) l k = Some (islocked_at h r p l k)"
| "advance _ l k = None"

section \<open>The cores together\<close>

text \<open>
  A core outside the lock may call \<^verbatim>\<open>spin_acquire\<close>, \<^verbatim>\<open>spin_trylock\<close> or \<^verbatim>\<open>spin_recursive_lock\<close>, the holder \<^verbatim>\<open>spin_release\<close>, and both
  \<^verbatim>\<open>spin_islocked\<close>; \<open>Step\<close> is the next access of a call in progress.  \<open>Switch\<close> is a context switch of a core that is not
  using the lock; a thread runs on one core at a time.  \<open>Nest\<close> and \<open>Unnest\<close> stand for the use of other spin locks, whose
  \<^verbatim>\<open>pushcli\<close> and \<^verbatim>\<open>popcli\<close> are nested with this one.
\<close>

datatype spin_event = Acquire core_id | Release core_id | Trylock core_id | Islocked core_id | Recursive core_id
  | Step core_id | Switch core_id addr | Nest core_id | Unnest core_id

definition set_core :: "core_id \<Rightarrow> core \<Rightarrow> spin_sys \<Rightarrow> spin_sys" where
  "set_core c k s = s\<lparr>cores := (cores s)(c := k)\<rparr>"

definition begin_op :: "spin_pc \<Rightarrow> core \<Rightarrow> core" where
  "begin_op p k = (pushcli k)\<lparr>pc := p\<rparr>"

fun can_switch :: "core_id \<Rightarrow> addr \<Rightarrow> spin_sys \<Rightarrow> bool" where
  "can_switch c t s = (pc (cores s c) = Out \<and> (\<forall>d. cpu (cores s d) \<noteq> t \<and> (t \<noteq> NULL \<and> d \<noteq> c \<longrightarrow> current (cores s d) \<noteq> t)))"

fun spin_fire :: "spin_event \<Rightarrow> spin_sys \<Rightarrow> spin_sys option" where
  "spin_fire (Acquire c) s =
    (if pc (cores s c) = Out then Some (set_core c (begin_op (Acq (A_guard True)) (cores s c)) s) else None)"
| "spin_fire (Release c) s =
    (if pc (cores s c) = In then Some (set_core c (begin_op (Rel R_guard) (cores s c)) s) else None)"
| "spin_fire (Trylock c) s =
    (if pc (cores s c) = Out then Some (set_core c (begin_op (Try T_guard) (cores s c)) s) else None)"
| "spin_fire (Islocked c) s =
    (if pc (cores s c) \<in> {In, Out} then Some (set_core c (begin_op (Isl (pc (cores s c) = In) False I_guard) (cores s c)) s) else None)"
| "spin_fire (Recursive c) s =
    (if pc (cores s c) \<in> {In, Out} then Some (set_core c (begin_op (Isl (pc (cores s c) = In) True I_guard) (cores s c)) s) else None)"
| "spin_fire (Step c) s =
    (case advance (pc (cores s c)) (lk s) (cores s c) of
      None \<Rightarrow> None
    | Some (l, k) \<Rightarrow> Some ((set_core c k s)\<lparr>lk := l\<rparr>))"
| "spin_fire (Switch c t) s = (if can_switch c t s then Some (set_core c ((cores s c)\<lparr>current := t\<rparr>) s) else None)"
| "spin_fire (Nest c) s = (if pc (cores s c) \<in> {In, Out} then Some (set_core c (pushcli (cores s c)) s) else None)"
| "spin_fire (Unnest c) s =
    (if pc (cores s c) = Out \<and> 0 < ncli (cores s c) \<or> pc (cores s c) = In \<and> 1 < ncli (cores s c)
     then Some (set_core c (popcli (cores s c)) s) else None)"


section \<open>The invariant\<close>

text \<open>
  What a point of the code implies: whether the core has the raw guard, whether it has set \<^verbatim>\<open>locked\<close>, whether
  \<^verbatim>\<open>owner\<close> names it, and how many of the pending \<^verbatim>\<open>pushcli\<close> calls belong to this lock.
\<close>

fun has_guard :: "spin_pc \<Rightarrow> bool" where
  "has_guard (Acq p) = (p \<in> {A_check, A_test, A_retry, A_lock, A_owner, A_release})"
| "has_guard (Rel p) = (p \<in> {R_check, R_owner, R_unlock, R_release})"
| "has_guard (Try p) = (p \<noteq> T_guard)"
| "has_guard (Isl h r p) = (p \<in> {I_read, I_release})"
| "has_guard _ = False"

fun has_lock :: "spin_pc \<Rightarrow> bool" where
  "has_lock (Acq p) = (p \<in> {A_owner, A_release})"
| "has_lock (Rel p) = (p \<in> {R_guard, R_check, R_owner, R_unlock})"
| "has_lock (Try p) = (p \<in> {T_owner, T_success})"
| "has_lock (Isl h r p) = h"
| "has_lock p = (p = In)"

fun owned :: "spin_pc \<Rightarrow> bool" where
  "owned (Acq p) = (p = A_release)"
| "owned (Rel p) = (p \<in> {R_guard, R_check, R_owner})"
| "owned (Try p) = (p = T_success)"
| "owned (Isl h r p) = h"
| "owned p = (p = In)"

fun depth :: "spin_pc \<Rightarrow> int" where
  "depth (Acq p) = (if p = A_push then 0 else 1)"
| "depth (Rel p) = (if p = R_pop2 then 1 else 2)"
| "depth (Try p) = (if p = T_fail then 0 else 1)"
| "depth (Isl h r p) = (if h then 2 else 1)"
| "depth p = (if p = In then 1 else 0)"

text \<open>Between the reading of \<^verbatim>\<open>locked\<close> and its use the value cannot change, and \<^verbatim>\<open>spin_islocked\<close> reads the truth.\<close>

fun seen :: "spin_pc \<Rightarrow> spinlock \<Rightarrow> core \<Rightarrow> bool" where
  "seen (Acq p) l k = (p = A_lock \<longrightarrow> locked l = 0)"
| "seen (Try p) l k = (p = T_lock \<longrightarrow> locked l = 0)"
| "seen (Isl h r p) l k = (p \<in> {I_release, I_pop} \<longrightarrow> result k = h)"
| "seen _ l k = True"

definition cli_ok :: "core \<Rightarrow> bool" where
  "cli_ok k \<longleftrightarrow> depth (pc k) \<le> ncli k \<and> (0 < ncli k \<longrightarrow> \<not> intr k)"

definition core_ok :: "spinlock \<Rightarrow> core \<Rightarrow> bool" where
  "core_ok l k \<longleftrightarrow> pc k \<noteq> Panic \<and> cli_ok k \<and> (owned (pc k) \<longrightarrow> owner l = self k) \<and> seen (pc k) l k"

definition distinct_ids :: "spin_sys \<Rightarrow> bool" where
  "distinct_ids s \<longleftrightarrow> (\<forall>c. cpu (cores s c) \<noteq> NULL) \<and> (\<forall>c d. cpu (cores s c) = cpu (cores s d) \<longrightarrow> c = d)
    \<and> (\<forall>c d. cpu (cores s c) \<noteq> current (cores s d))
    \<and> (\<forall>c d. current (cores s c) \<noteq> NULL \<and> current (cores s c) = current (cores s d) \<longrightarrow> c = d)"

definition held_by :: "(spin_pc \<Rightarrow> bool) \<Rightarrow> u32 \<Rightarrow> core_id option \<Rightarrow> spin_sys \<Rightarrow> bool" where
  "held_by f w h s \<longleftrightarrow> (\<forall>c. f (pc (cores s c)) \<longleftrightarrow> h = Some c) \<and> (w \<noteq> 0 \<longleftrightarrow> h \<noteq> None)"

definition spin_inv :: "spin_sys \<Rightarrow> bool" where
  "spin_inv s \<longleftrightarrow> distinct_ids s \<and> (\<forall>c. core_ok (lk s) (cores s c))
    \<and> (\<exists>g. held_by has_guard (guard (lk s)) g s) \<and> (\<exists>h. held_by has_lock (locked (lk s)) h s)"

definition spin_start :: "spin_sys \<Rightarrow> bool" where
  "spin_start s \<longleftrightarrow> distinct_ids s \<and> guard (lk s) = 0 \<and> locked (lk s) = 0
    \<and> (\<forall>c. pc (cores s c) = Out \<and> cli_ok (cores s c))"

section \<open>Every access keeps the invariant\<close>

text \<open>What one access may do to one of the two words: keep it, set it when it was clear, or clear it when it is ours.\<close>

definition moves :: "(spin_pc \<Rightarrow> bool) \<Rightarrow> u32 \<Rightarrow> spin_pc \<Rightarrow> u32 \<Rightarrow> spin_pc \<Rightarrow> bool" where
  "moves f w p w' p' \<longleftrightarrow>
    (if f p = f p' then (w' \<noteq> 0 \<longleftrightarrow> w \<noteq> 0) else if f p' then w = 0 \<and> w' \<noteq> 0 else w' = 0)"

lemma held_by_moves:
  assumes "held_by f w h s" "moves f w (pc (cores s c)) w' (pc k)"
  shows "\<exists>h'. held_by f w' h' (set_core c k s)"
proof -
  let ?h = "if f (pc k) then Some c else if f (pc (cores s c)) then None else h"
  have "held_by f w' ?h (set_core c k s)"
    using assms unfolding held_by_def moves_def set_core_def by (auto split: if_splits)
  then show ?thesis by blast
qed

lemma holding_held:
  assumes ids: "distinct_ids s" and ok: "\<forall>c. core_ok (lk s) (cores s c)"
    and g: "held_by has_guard (guard (lk s)) g s" and h: "held_by has_lock (locked (lk s)) h s"
    and c: "has_guard (pc (cores s c))" "has_lock (pc (cores s c)) = owned (pc (cores s c))"
  shows "holding (lk s) (cores s c) \<longleftrightarrow> has_lock (pc (cores s c))"
proof
  assume hold: "holding (lk s) (cores s c)"
  then obtain d where d: "h = Some d" using h by (auto simp: held_by_def holding_def)
  then have hd: "has_lock (pc (cores s d))" using h by (simp add: held_by_def)
  have "owned (pc (cores s d)) \<or> has_guard (pc (cores s d))"
    using hd by (cases "pc (cores s d)") auto
  then show "has_lock (pc (cores s c))"
  proof
    assume "owned (pc (cores s d))"
    then have "owner (lk s) = self (cores s d)" using ok by (simp add: core_ok_def)
    then have "c = d" using hold ids unfolding holding_def self_def distinct_ids_def by (metis)
    with hd show ?thesis by simp
  next
    assume "has_guard (pc (cores s d))"
    then have "c = d" using g c(1) unfolding held_by_def by (metis option.inject)
    with hd show ?thesis by simp
  qed
next
  assume "has_lock (pc (cores s c))"
  then show "holding (lk s) (cores s c)"
    using c ok h unfolding holding_def core_ok_def self_def held_by_def by (metis option.distinct(1))
qed

text \<open>The accesses of one core, from what the invariant says about that core.\<close>

definition local_ok :: "spinlock \<Rightarrow> core \<Rightarrow> bool" where
  "local_ok l k \<longleftrightarrow> core_ok l k \<and> (has_guard (pc k) \<longrightarrow> guard l \<noteq> 0) \<and> (has_lock (pc k) \<longrightarrow> locked l \<noteq> 0)
    \<and> (has_guard (pc k) \<and> has_lock (pc k) = owned (pc k) \<longrightarrow> (holding l k \<longleftrightarrow> has_lock (pc k)))"

definition good_step :: "spinlock \<Rightarrow> core \<Rightarrow> spinlock \<Rightarrow> core \<Rightarrow> bool" where
  "good_step l k l' k' \<longleftrightarrow> core_ok l' k' \<and> moves has_guard (guard l) (pc k) (guard l') (pc k')
    \<and> moves has_lock (locked l) (pc k) (locked l') (pc k') \<and> cpu k' = cpu k \<and> current k' = current k
    \<and> (owner l' \<noteq> owner l \<longrightarrow> has_lock (pc k)) \<and> (locked l' \<noteq> locked l \<longrightarrow> has_guard (pc k))"

lemmas spin_defs = good_step_def local_ok_def core_ok_def cli_ok_def moves_def raw_acquire_def raw_release_def
  pop_to_def popcli_def pushcli_def begin_op_def

lemma self_fields [simp]:
  "self (k\<lparr>pc := p\<rparr>) = self k" "self (k\<lparr>result := b\<rparr>) = self k" "self (k\<lparr>intr := b\<rparr>) = self k"
  "self (k\<lparr>intena := b\<rparr>) = self k" "self (k\<lparr>ncli := n\<rparr>) = self k"
  by (simp_all add: self_def)

lemma acquire_good: "local_ok l k \<Longrightarrow> pc k = Acq p \<Longrightarrow> acquire_at p l k = (l', k') \<Longrightarrow> good_step l k l' k'"
  by (cases p) (auto simp: spin_defs split: if_splits)

lemma release_good: "local_ok l k \<Longrightarrow> pc k = Rel p \<Longrightarrow> release_at p l k = (l', k') \<Longrightarrow> good_step l k l' k'"
  by (cases p) (auto simp: spin_defs split: if_splits)

lemma trylock_good: "local_ok l k \<Longrightarrow> pc k = Try p \<Longrightarrow> trylock_at p l k = (l', k') \<Longrightarrow> good_step l k l' k'"
  by (cases p) (auto simp: spin_defs split: if_splits)

lemma islocked_good: "local_ok l k \<Longrightarrow> pc k = Isl h r p \<Longrightarrow> islocked_at h r p l k = (l', k') \<Longrightarrow> good_step l k l' k'"
  by (cases p) (auto simp: spin_defs split: if_splits)

lemma owned_has_lock: "owned p \<Longrightarrow> has_lock p"
  by (cases p) auto

lemma seen_other: "seen p l k \<Longrightarrow> locked l' = locked l \<or> \<not> has_guard p \<Longrightarrow> seen p l' k"
  by (cases p) auto

lemma core_ok_other:
  "core_ok l k \<Longrightarrow> owner l' = owner l \<or> \<not> has_lock (pc k) \<Longrightarrow> locked l' = locked l \<or> \<not> has_guard (pc k) \<Longrightarrow> core_ok l' k"
  by (auto simp: core_ok_def dest: owned_has_lock seen_other)

lemma held_by_unique: "held_by f w h s \<Longrightarrow> f (pc (cores s c)) \<Longrightarrow> d \<noteq> c \<Longrightarrow> \<not> f (pc (cores s d))"
  by (auto simp: held_by_def)

lemma held_by_lk [simp]: "held_by f w h (s\<lparr>lk := l\<rparr>) = held_by f w h s"
  by (simp add: held_by_def)

lemma distinct_ids_step:
  assumes "distinct_ids s" "cpu k = cpu (cores s c)" "current k = current (cores s c)"
  shows "distinct_ids ((set_core c k s)\<lparr>lk := l\<rparr>)"
proof -
  have ids: "cpu (cores ((set_core c k s)\<lparr>lk := l\<rparr>) d) = cpu (cores s d)"
    "current (cores ((set_core c k s)\<lparr>lk := l\<rparr>) d) = current (cores s d)" for d
    using assms(2,3) by (simp_all add: set_core_def)
  show ?thesis using assms(1) unfolding distinct_ids_def ids .
qed

lemma spin_inv_local: "spin_inv s \<Longrightarrow> local_ok (lk s) (cores s c)"
proof -
  assume inv: "spin_inv s"
  then obtain g h where g: "held_by has_guard (guard (lk s)) g s" and h: "held_by has_lock (locked (lk s)) h s"
    and ok: "distinct_ids s" "\<forall>c. core_ok (lk s) (cores s c)"
    by (auto simp: spin_inv_def)
  have "has_guard (pc (cores s c)) \<longrightarrow> guard (lk s) \<noteq> 0" "has_lock (pc (cores s c)) \<longrightarrow> locked (lk s) \<noteq> 0"
    using g h by (auto simp: held_by_def)
  then show ?thesis using holding_held [OF ok g h] ok(2) unfolding local_ok_def by blast
qed

lemma good_step_inv:
  assumes inv: "spin_inv s" and good: "good_step (lk s) (cores s c) l k"
  shows "spin_inv ((set_core c k s)\<lparr>lk := l\<rparr>)"
proof -
  obtain g h where g: "held_by has_guard (guard (lk s)) g s" and h: "held_by has_lock (locked (lk s)) h s"
    using inv by (auto simp: spin_inv_def)
  have other: "core_ok l (cores s d)" if "d \<noteq> c" for d
  proof (rule core_ok_other)
    show "core_ok (lk s) (cores s d)" using inv by (simp add: spin_inv_def)
    show "owner l = owner (lk s) \<or> \<not> has_lock (pc (cores s d))"
      using good held_by_unique [OF h _ that] by (auto simp: good_step_def)
    show "locked l = locked (lk s) \<or> \<not> has_guard (pc (cores s d))"
      using good held_by_unique [OF g _ that] by (auto simp: good_step_def)
  qed
  have "\<exists>g'. held_by has_guard (guard l) g' (set_core c k s)"
    using good by (intro held_by_moves [OF g]) (simp add: good_step_def)
  moreover have "\<exists>h'. held_by has_lock (locked l) h' (set_core c k s)"
    using good by (intro held_by_moves [OF h]) (simp add: good_step_def)
  moreover have "distinct_ids ((set_core c k s)\<lparr>lk := l\<rparr>)"
    using inv good by (intro distinct_ids_step) (auto simp: spin_inv_def good_step_def)
  moreover have "\<forall>d. core_ok l (cores (set_core c k s) d)"
    using other good by (simp add: set_core_def good_step_def)
  ultimately show ?thesis by (simp add: spin_inv_def)
qed

lemma good_call_inv:
  assumes "spin_inv s" "good_step (lk s) (cores s c) (lk s) k"
  shows "spin_inv (set_core c k s)"
  using good_step_inv [OF assms] by (simp add: set_core_def)

lemma advance_good:
  assumes "local_ok l k" "advance (pc k) l k = Some (l', k')"
  shows "good_step l k l' k'"
proof (cases "pc k")
  case (Acq p) then show ?thesis using assms acquire_good by simp
next
  case (Rel p) then show ?thesis using assms release_good by simp
next
  case (Try p) then show ?thesis using assms trylock_good by simp
next
  case (Isl h r p) then show ?thesis using assms islocked_good by simp
qed (use assms in simp_all)

lemma call_good:
  assumes "local_ok l k"
  shows "pc k = Out \<Longrightarrow> good_step l k l (begin_op (Acq (A_guard True)) k)"
    and "pc k = Out \<Longrightarrow> good_step l k l (begin_op (Try T_guard) k)"
    and "pc k = In \<Longrightarrow> good_step l k l (begin_op (Rel R_guard) k)"
    and "pc k = In \<Longrightarrow> good_step l k l (begin_op (Isl True r I_guard) k)"
    and "pc k = Out \<Longrightarrow> good_step l k l (begin_op (Isl False r I_guard) k)"
    and "pc k \<in> {In, Out} \<Longrightarrow> good_step l k l (pushcli k)"
    and "pc k = Out \<and> 0 < ncli k \<or> pc k = In \<and> 1 < ncli k \<Longrightarrow> good_step l k l (popcli k)"
  using assms by (auto simp: spin_defs)

lemma switch_inv:
  assumes inv: "spin_inv s" and can: "can_switch c t s"
  shows "spin_inv (set_core c ((cores s c)\<lparr>current := t\<rparr>) s)"
proof -
  have pc: "pc (cores (set_core c ((cores s c)\<lparr>current := t\<rparr>) s) d) = pc (cores s d)" for d
    by (simp add: set_core_def)
  have ids: "cpu (cores (set_core c ((cores s c)\<lparr>current := t\<rparr>) s) d) = cpu (cores s d)"
    "current (cores (set_core c ((cores s c)\<lparr>current := t\<rparr>) s) d) = (if d = c then t else current (cores s d))" for d
    by (simp_all add: set_core_def)
  have "distinct_ids (set_core c ((cores s c)\<lparr>current := t\<rparr>) s)"
    using inv can unfolding spin_inv_def distinct_ids_def ids can_switch.simps by (metis (full_types))
  moreover have "core_ok (lk s) (cores (set_core c ((cores s c)\<lparr>current := t\<rparr>) s) d)" for d
  proof -
    have "core_ok (lk s) (cores s d)" using inv by (simp add: spin_inv_def)
    then show ?thesis using can by (cases "d = c") (simp_all add: core_ok_def cli_ok_def set_core_def)
  qed
  ultimately show ?thesis using inv by (simp add: spin_inv_def held_by_def pc) (simp add: set_core_def)
qed

lemma spin_fire_inv:
  assumes inv: "spin_inv s" and fire: "spin_fire e s = Some t"
  shows "spin_inv t"
proof (cases e)
  case (Step c)
  then obtain l k where a: "advance (pc (cores s c)) (lk s) (cores s c) = Some (l, k)" "t = (set_core c k s)\<lparr>lk := l\<rparr>"
    using fire by (auto split: option.splits)
  then show ?thesis using good_step_inv [OF inv] advance_good [OF spin_inv_local [OF inv]] by simp
next
  case (Switch c u) then show ?thesis using fire switch_inv [OF inv] by (auto split: if_splits)
qed (use fire good_call_inv [OF inv] call_good [OF spin_inv_local [OF inv]] in \<open>auto split: if_splits\<close>)

lemma spin_start_inv: "spin_start s \<Longrightarrow> spin_inv s"
  by (auto simp: spin_start_def spin_inv_def core_ok_def held_by_def)

interpretation spin: invariant_system spin_fire spin_start spin_inv
  by unfold_locales (auto intro: spin_start_inv spin_fire_inv)

section \<open>Mutual exclusion\<close>

text \<open>C18: Spin locks exclude each other.  In every reachable state, whatever the interleaving of the accesses of all
  cores, at most one core is between \<^verbatim>\<open>spin_acquire\<close> (or a successful \<^verbatim>\<open>spin_trylock\<close>) and \<^verbatim>\<open>spin_release\<close>, it is the
  one the lock names as its owner, its interrupts are disabled, \<^verbatim>\<open>spin_islocked\<close> returns true exactly to the holder, and
  none of the assertions of the macros fails.
\<close>

theorem spin_mutual_exclusion:
  assumes "reachable spin_fire spin_start s"
  shows "(pc (cores s c) = In \<and> pc (cores s d) = In \<longrightarrow> c = d)
    \<and> (pc (cores s c) = In \<longrightarrow> holding (lk s) (cores s c) \<and> \<not> intr (cores s c))
    \<and> (pc (cores s c) = Isl held r I_pop \<longrightarrow> result (cores s c) = held)
    \<and> pc (cores s c) \<noteq> Panic"
proof (intro conjI impI)
  have inv: "spin_inv s" using assms by (rule spin.reachable_inv)
  then obtain h where h: "held_by has_lock (locked (lk s)) h s" by (auto simp: spin_inv_def)
  have ok: "core_ok (lk s) (cores s c)" using inv by (simp add: spin_inv_def)
  show "pc (cores s c) = In \<and> pc (cores s d) = In \<Longrightarrow> c = d" using held_by_unique [OF h, of c d] by auto
  show "pc (cores s c) = In \<Longrightarrow> holding (lk s) (cores s c)"
    using ok spin_inv_local [OF inv, of c] by (auto simp: core_ok_def holding_def self_def local_ok_def)
  show "pc (cores s c) = In \<Longrightarrow> \<not> intr (cores s c)" using ok by (auto simp: core_ok_def cli_ok_def)
  show "pc (cores s c) = Isl held r I_pop \<Longrightarrow> result (cores s c) = held" using ok by (simp add: core_ok_def)
  show "pc (cores s c) \<noteq> Panic" using ok by (simp add: core_ok_def)
qed

section \<open>Every waiting core can get the lock\<close>

fun guard_rank :: "spin_pc \<Rightarrow> nat" where
  "guard_rank (Acq A_check) = 5" | "guard_rank (Acq A_test) = 4" | "guard_rank (Acq A_lock) = 3"
| "guard_rank (Acq A_owner) = 2" | "guard_rank (Rel R_check) = 4" | "guard_rank (Rel R_owner) = 3"
| "guard_rank (Rel R_unlock) = 2" | "guard_rank (Try T_check) = 5" | "guard_rank (Try T_test) = 4"
| "guard_rank (Try T_lock) = 3" | "guard_rank (Try T_owner) = 2" | "guard_rank (Try T_pop) = 2"
| "guard_rank (Isl h r I_read) = 2" | "guard_rank _ = 1"

fun acquiring :: "spin_pc \<Rightarrow> bool" where
  "acquiring (Acq p) = True"
| "acquiring p = (p = In)"

lemma set_core_simps [simp]:
  "cores (set_core c k s) = (cores s)(c := k)" "lk (set_core c k s) = lk s"
  by (simp_all add: set_core_def)

text \<open>The core with the guard releases it within five accesses of its own.\<close>

lemma guard_step:
  assumes "local_ok l k" "has_guard (pc k)"
  shows "\<exists>l' k'. advance (pc k) l k = Some (l', k') \<and> (acquiring (pc k) \<longrightarrow> acquiring (pc k'))
    \<and> (guard l' = 0 \<or> has_guard (pc k') \<and> guard_rank (pc k') < guard_rank (pc k))"
proof (cases "pc k")
  case (Acq p) then show ?thesis using assms by (cases p) (auto simp: spin_defs)
next
  case (Rel p) then show ?thesis using assms by (cases p) (auto simp: spin_defs)
next
  case (Try p) then show ?thesis using assms by (cases p) (auto simp: spin_defs)
next
  case (Isl h r p) then show ?thesis using assms by (cases p) (auto simp: spin_defs)
qed (use assms in simp_all)

lemma guard_released:
  assumes "spin_inv s" "has_guard (pc (cores s g))"
  shows "\<exists>es t. run spin_fire es s = Some t \<and> guard (lk t) = 0 \<and> (\<forall>d. d \<noteq> g \<longrightarrow> cores t d = cores s d)
    \<and> (acquiring (pc (cores s g)) \<longrightarrow> acquiring (pc (cores t g)))"
  using assms
proof (induction "guard_rank (pc (cores s g))" arbitrary: s rule: less_induct)
  case less
  obtain l k where a: "advance (pc (cores s g)) (lk s) (cores s g) = Some (l, k)"
    "acquiring (pc (cores s g)) \<longrightarrow> acquiring (pc k)"
    "guard l = 0 \<or> has_guard (pc k) \<and> guard_rank (pc k) < guard_rank (pc (cores s g))"
    using guard_step [OF spin_inv_local [OF less.prems(1)] less.prems(2)] by blast
  define u where "u = (set_core g k s)\<lparr>lk := l\<rparr>"
  have u: "spin_fire (Step g) s = Some u" using a(1) by (simp add: u_def)
  have cu: "cores u = (cores s)(g := k)" "lk u = l" by (simp_all add: u_def)
  show ?case
  proof (cases "guard l = 0")
    case True
    then show ?thesis using u cu a(2) by (intro exI [of _ "[Step g]"] exI [of _ u]) simp
  next
    case False
    then have "has_guard (pc (cores u g))" "guard_rank (pc (cores u g)) < guard_rank (pc (cores s g))"
      using a(3) cu by simp_all
    then obtain es t where t: "run spin_fire es u = Some t" "guard (lk t) = 0" "\<forall>d. d \<noteq> g \<longrightarrow> cores t d = cores u d"
      "acquiring (pc (cores u g)) \<longrightarrow> acquiring (pc (cores t g))"
      using less.hyps [OF _ spin_fire_inv [OF less.prems(1) u]] by blast
    have "run spin_fire (Step g # es) s = Some t" using t(1) by (simp only: run_Cons_Some [of spin_fire, OF u])
    then show ?thesis using t a(2) cu by (intro exI [of _ "Step g # es"] exI [of _ t]) simp
  qed
qed

text \<open>The holder releases the lock within ten accesses.\<close>

lemma holder_releases_in:
  assumes "spin_inv s" "guard (lk s) = 0" "pc (cores s d) = In"
  shows "\<exists>es t. run spin_fire es s = Some t \<and> guard (lk t) = 0 \<and> locked (lk t) = 0 \<and> (\<forall>c. c \<noteq> d \<longrightarrow> cores t c = cores s c)"
proof -
  have "local_ok (lk s) (cores s d)" using assms(1) by (rule spin_inv_local)
  then have "owner (lk s) = self (cores s d)" "locked (lk s) \<noteq> 0"
    using assms(3) by (auto simp: local_ok_def core_ok_def)
  then have "\<exists>t. run spin_fire [Release d, Step d, Step d, Step d, Step d, Step d] s = Some t
    \<and> guard (lk t) = 0 \<and> locked (lk t) = 0 \<and> (\<forall>c. c \<noteq> d \<longrightarrow> cores t c = cores s c)"
    using assms(2,3) by (auto simp: begin_op_def pushcli_def raw_acquire_def raw_release_def holding_def self_def)
  then show ?thesis by blast
qed

lemma islocked_returns:
  assumes "spin_inv s" "guard (lk s) = 0" "pc (cores s d) = Isl True r p" "\<not> has_guard (Isl True r p)"
  shows "\<exists>es t. run spin_fire es s = Some t \<and> guard (lk t) = 0 \<and> pc (cores t d) = In \<and> (\<forall>c. c \<noteq> d \<longrightarrow> cores t c = cores s c)"
proof -
  have ok: "local_ok (lk s) (cores s d)" using assms(1) by (rule spin_inv_local)
  have cli: "\<not> intr (cores s d)" "2 \<le> ncli (cores s d)" and own: "owner (lk s) = self (cores s d)" "locked (lk s) \<noteq> 0"
    and seen: "p = I_pop \<longrightarrow> result (cores s d)"
    using ok assms(3) by (auto simp: local_ok_def core_ok_def cli_ok_def)
  from assms(4) consider "p = I_guard" | "p = I_pop" by (cases p) auto
  then show ?thesis
  proof cases
    case 1
    then have "\<exists>t. run spin_fire [Step d, Step d, Step d, Step d] s = Some t \<and> guard (lk t) = 0 \<and> pc (cores t d) = In
      \<and> (\<forall>c. c \<noteq> d \<longrightarrow> cores t c = cores s c)"
      using assms(2,3) cli own
      by (auto simp: raw_acquire_def raw_release_def pop_to_def popcli_def holding_def self_def)
    then show ?thesis by blast
  next
    case 2
    then have "\<exists>t. run spin_fire [Step d] s = Some t \<and> guard (lk t) = 0 \<and> pc (cores t d) = In
      \<and> (\<forall>c. c \<noteq> d \<longrightarrow> cores t c = cores s c)"
      using assms(2,3) cli seen by (auto simp: pop_to_def popcli_def)
    then show ?thesis by blast
  qed
qed

lemma holder_releases:
  assumes inv: "spin_inv s" and g: "guard (lk s) = 0" and d: "has_lock (pc (cores s d))"
  shows "\<exists>es t. run spin_fire es s = Some t \<and> guard (lk t) = 0 \<and> locked (lk t) = 0 \<and> (\<forall>c. c \<noteq> d \<longrightarrow> cores t c = cores s c)"
proof -
  have ng: "\<not> has_guard (pc (cores s d))" using spin_inv_local [OF inv, of d] g by (simp add: local_ok_def)
  then consider "pc (cores s d) = In" | "pc (cores s d) = Rel R_guard" | r p where "pc (cores s d) = Isl True r p"
    using d by (cases "pc (cores s d)") auto
  then show ?thesis
  proof cases
    case 1 then show ?thesis using holder_releases_in [OF inv g] by blast
  next
    case 2
    have "owner (lk s) = self (cores s d)" "locked (lk s) \<noteq> 0"
      using spin_inv_local [OF inv, of d] 2 by (auto simp: local_ok_def core_ok_def)
    then have "\<exists>t. run spin_fire [Step d, Step d, Step d, Step d, Step d] s = Some t
      \<and> guard (lk t) = 0 \<and> locked (lk t) = 0 \<and> (\<forall>c. c \<noteq> d \<longrightarrow> cores t c = cores s c)"
      using g 2 by (auto simp: raw_acquire_def raw_release_def holding_def self_def)
    then show ?thesis by blast
  next
    case 3
    obtain es t where t: "run spin_fire es s = Some t" "guard (lk t) = 0" "pc (cores t d) = In"
      "\<forall>c. c \<noteq> d \<longrightarrow> cores t c = cores s c"
      using islocked_returns [OF inv g 3] ng 3 by auto
    obtain es' u where u: "run spin_fire es' t = Some u" "guard (lk u) = 0" "locked (lk u) = 0" "\<forall>c. c \<noteq> d \<longrightarrow> cores u c = cores t c"
      using holder_releases_in [OF spin.run_inv [OF inv t(1)] t(2,3)] by blast
    show ?thesis using run_trans [OF t(1) u(1)] u(2,3,4) t(4) by (intro exI [of _ "es @ es'"] exI [of _ u]) simp
  qed
qed

lemma free_lock_acquired:
  assumes inv: "spin_inv s" and free: "guard (lk s) = 0" "locked (lk s) = 0" and c: "acquiring (pc (cores s c))"
  shows "\<exists>es t. run spin_fire es s = Some t \<and> pc (cores t c) = In"
proof -
  have ok: "local_ok (lk s) (cores s c)" using inv by (rule spin_inv_local)
  then have "\<not> has_guard (pc (cores s c))" "\<not> has_lock (pc (cores s c))" using free by (auto simp: local_ok_def)
  then consider first where "pc (cores s c) = Acq (A_guard first)" | "pc (cores s c) = Acq A_pop" | "pc (cores s c) = Acq A_push"
    using c by (cases "pc (cores s c)" rule: acquiring.cases) (auto, metis acq_pc.exhaust)
  then show ?thesis
  proof cases
    case 1
    then have "\<exists>t. run spin_fire (if first then replicate 6 (Step c) else replicate 5 (Step c)) s = Some t \<and> pc (cores t c) = In"
      using free by (cases first) (auto simp: raw_acquire_def raw_release_def holding_def numeral_eq_Suc)
    then show ?thesis by blast
  next
    case 2
    then have "\<exists>t. run spin_fire (replicate 7 (Step c)) s = Some t \<and> pc (cores t c) = In"
      using free ok by (auto simp: spin_defs numeral_eq_Suc)
    then show ?thesis by blast
  next
    case 3
    then have "\<exists>t. run spin_fire (replicate 6 (Step c)) s = Some t \<and> pc (cores t c) = In"
      using free by (auto simp: raw_acquire_def raw_release_def pushcli_def numeral_eq_Suc)
    then show ?thesis by blast
  qed
qed

lemma acquire_possible:
  assumes inv: "spin_inv s" and c: "pc (cores s c) = Acq p"
  shows "\<exists>es t. run spin_fire es s = Some t \<and> pc (cores t c) = In"
proof -
  obtain es t where t: "run spin_fire es s = Some t" "guard (lk t) = 0" "acquiring (pc (cores t c))"
  proof (cases "guard (lk s) = 0")
    case True
    then show ?thesis using c that [of "[]" s] by simp
  next
    case False
    then obtain g where "has_guard (pc (cores s g))" using inv by (auto simp: spin_inv_def held_by_def)
    then show ?thesis using guard_released [OF inv] c that by (metis acquiring.simps(1))
  qed
  have inv_t: "spin_inv t" using inv t(1) by (rule spin.run_inv)
  show ?thesis
  proof (cases "has_lock (pc (cores t c)) \<or> locked (lk t) = 0")
    case True
    then consider "locked (lk t) = 0" | "pc (cores t c) = In"
      using t(2,3) spin_inv_local [OF inv_t, of c] by (cases "pc (cores t c)") (auto simp: local_ok_def)
    then show ?thesis
    proof cases
      case 1
      from free_lock_acquired [OF inv_t t(2) 1 t(3)] show ?thesis using run_trans [OF t(1)] by blast
    qed (use t(1) in blast)
  next
    case False
    then obtain d where "has_lock (pc (cores t d))" "d \<noteq> c" using inv_t by (auto simp: spin_inv_def held_by_def)
    then obtain es' u where u: "run spin_fire es' t = Some u" "guard (lk u) = 0" "locked (lk u) = 0" "cores u c = cores t c"
      using holder_releases [OF inv_t t(2)] by metis
    have "acquiring (pc (cores u c))" using u(4) t(3) by simp
    from free_lock_acquired [OF spin.run_inv [OF inv_t u(1)] u(2,3) this]
    show ?thesis using run_trans [OF run_trans [OF t(1) u(1)]] by blast
  qed
qed

text \<open>The core that an event belongs to; the events of a core change no other core.\<close>

primrec core_of :: "spin_event \<Rightarrow> core_id" where
  "core_of (Acquire c) = c" | "core_of (Release c) = c" | "core_of (Trylock c) = c" | "core_of (Islocked c) = c" | "core_of (Recursive c) = c"
| "core_of (Step c) = c" | "core_of (Switch c t) = c" | "core_of (Nest c) = c" | "core_of (Unnest c) = c"

lemma other_core: "spin_fire e s = Some t \<Longrightarrow> core_of e \<noteq> d \<Longrightarrow> cores t d = cores s d"
  by (cases e) (auto simp: set_core_def split: if_splits option.splits)

lemma others_run: "run spin_fire es s = Some t \<Longrightarrow> \<forall>e \<in> set es. core_of e \<noteq> d \<Longrightarrow> cores t d = cores s d"
proof (induction es arbitrary: s)
  case (Cons e es)
  then show ?case using other_core [of e s _ d] by (auto split: option.splits)
qed simp

text \<open>C19: A spin lock is not lost, and where an interrupt handler can lose it.  From every reachable state, a core that is trying to get the lock, wherever in the
  macro it is, can still get it by the accesses of the macros: the core with the guard gives it up after at most five accesses, the holder can
  release the lock, and the waiting core then takes it.  A core that has the guard or the lock has its interrupts disabled, so that no handler can stop it, at every point but one: in a failed \<^verbatim>\<open>spin_trylock\<close>, between
  \<^verbatim>\<open>popcli\<close> and the release of the guard.  While a core is kept at that point, as it is by a handler on this core that waits for the same lock, the guard stays taken whatever the other cores do.
\<close>

theorem spin_acquire_possible:
  assumes "reachable spin_fire spin_start s"
  shows "(pc (cores s c) = Acq p \<longrightarrow> (\<exists>es t. run spin_fire es s = Some t \<and> pc (cores t c) = In)) \<and>
    (has_guard (pc (cores s d)) \<or> pc (cores s d) = In \<longrightarrow> pc (cores s d) \<noteq> Try T_fail \<longrightarrow> \<not> intr (cores s d)) \<and>
    (pc (cores s d) = Try T_fail \<longrightarrow> (\<forall>e \<in> set es'. core_of e \<noteq> d) \<longrightarrow> run spin_fire es' s = Some t' \<longrightarrow> guard (lk t') \<noteq> 0)"
proof (intro conjI impI)
  have inv: "spin_inv s" using assms by (rule spin.reachable_inv)
  show "\<exists>es t. run spin_fire es s = Some t \<and> pc (cores t c) = In" if "pc (cores s c) = Acq p" using acquire_possible [OF inv that] .
  have ok: "core_ok (lk s) (cores s d)" using inv by (simp add: spin_inv_def)
  show "\<not> intr (cores s d)" if "has_guard (pc (cores s d)) \<or> pc (cores s d) = In" "pc (cores s d) \<noteq> Try T_fail"
    using that ok by (cases "pc (cores s d)") (auto simp: core_ok_def cli_ok_def split: if_splits)
  show "guard (lk t') \<noteq> 0" if "pc (cores s d) = Try T_fail" "\<forall>e \<in> set es'. core_of e \<noteq> d" "run spin_fire es' s = Some t'"
  proof -
    have "has_guard (pc (cores t' d))" using others_run [OF that(3,2)] that(1) by simp
    moreover have "spin_inv t'" using inv that(3) by (rule spin.run_inv)
    ultimately show ?thesis by (auto simp: spin_inv_def held_by_def)
  qed
qed

section \<open>Where the guard is not protected\<close>

text \<open>Eight cores that run no thread, with interrupts enabled.\<close>

definition sample_cores :: spin_sys where
  "sample_cores = \<lparr>lk = spinlock_init \<lparr>guard = 7, locked = 7, owner = 7\<rparr>,
    cores = (\<lambda>c. \<lparr>pc = Out, current = NULL, cpu = 0x1000 + ucast c, intr = True, intena = False, ncli = 0, result = False\<rparr>)\<rparr>"

lemma unat_core: "unat (ucast (c :: core_id) :: addr) = unat c" "unat c < 8"
proof -
  show "unat c < 8" using unsigned_less [of c] by simp
  then show "unat (ucast c :: addr) = unat c" by (simp add: unsigned_ucast_eq take_bit_nat_eq_self)
qed

lemma ucast_core_inj: "(ucast (c :: core_id) :: addr) = ucast d \<Longrightarrow> c = d"
  by (metis unat_core(1) word_unat_eq_iff)

lemma ucast_core_less: "(ucast (c :: core_id) :: addr) < 8"
  using unat_core [of c] by (simp add: word_less_nat_alt)

lemma sample_start: "spin_start sample_cores"
proof -
  have "(0x1000 :: addr) + ucast (c :: core_id) \<noteq> 0" for c
    using ucast_core_less [of c] by (simp add: word_unat_eq_iff unat_word_ariths word_less_nat_alt)
  then show ?thesis
    by (auto simp: spin_start_def sample_cores_def distinct_ids_def cli_ok_def spinlock_init_def dest: ucast_core_inj)
qed

text \<open>A failed \<^verbatim>\<open>spin_trylock\<close> leaves the guard unprotected.  There is a reachable state in which a core has the raw
  guard of a lock with its interrupts enabled: \<^verbatim>\<open>spin_trylock\<close> calls \<^verbatim>\<open>popcli\<close> before it releases the guard.  An interrupt handler that uses the
  same lock on this core would wait for the guard forever.  Every other macro has interrupts disabled while it has the guard.
\<close>

theorem spin_trylock_exposes_guard:
  "(\<exists>s c. reachable spin_fire spin_start s \<and> has_guard (pc (cores s c)) \<and> intr (cores s c))
    \<and> (reachable spin_fire spin_start s \<and> has_guard (pc (cores s c)) \<and> pc (cores s c) \<noteq> Try T_fail \<longrightarrow> \<not> intr (cores s c))"
proof (intro conjI impI)
  let ?es = "[Acquire 0, Step 0, Step 0, Step 0, Step 0, Step 0, Step 0, Trylock 1, Step 1, Step 1, Step 1, Step 1]"
  have "\<exists>s. run spin_fire ?es sample_cores = Some s \<and> has_guard (pc (cores s 1)) \<and> intr (cores s 1)"
    by (simp add: sample_cores_def begin_op_def pushcli_def raw_acquire_def raw_release_def holding_def self_def spinlock_init_def
        pop_to_def popcli_def)
  then show "\<exists>s c. reachable spin_fire spin_start s \<and> has_guard (pc (cores s c)) \<and> intr (cores s c)"
    using reachable_run [OF _ reachable.start [of spin_start, OF sample_start]] by blast
next
  assume "reachable spin_fire spin_start s \<and> has_guard (pc (cores s c)) \<and> pc (cores s c) \<noteq> Try T_fail"
  moreover from this have "core_ok (lk s) (cores s c)" using spin.reachable_inv by (auto simp: spin_inv_def)
  ultimately show "\<not> intr (cores s c)"
    by (cases "pc (cores s c)") (auto simp: core_ok_def cli_ok_def split: if_splits)
qed

theorem spin_trylock_exposes_guard_witness:
  "\<not> intr (cores (the (run spin_fire [Acquire 0, Step 0] sample_cores)) 0)"
proof -
  let ?s = "the (run spin_fire [Acquire 0, Step 0] sample_cores)"
  have r: "run spin_fire [Acquire 0, Step 0] sample_cores = Some ?s" and g: "pc (cores ?s 0) = Acq A_check"
    by (simp_all add: sample_cores_def begin_op_def pushcli_def raw_acquire_def spinlock_init_def)
  show ?thesis
    using spin_trylock_exposes_guard [of ?s 0] reachable_run [OF r reachable.start [of spin_start, OF sample_start]] g by simp
qed

theorem spin_mutual_exclusion_witness:
  "holding (lk (the (run spin_fire [Acquire 0, Step 0, Step 0, Step 0, Step 0, Step 0, Step 0] sample_cores)))
    (cores (the (run spin_fire [Acquire 0, Step 0, Step 0, Step 0, Step 0, Step 0, Step 0] sample_cores)) 0)"
proof -
  let ?r = "run spin_fire [Acquire 0, Step 0, Step 0, Step 0, Step 0, Step 0, Step 0] sample_cores"
  have r: "?r = Some (the ?r)" and g: "pc (cores (the ?r) 0) = In"
    by (simp_all add: sample_cores_def begin_op_def pushcli_def raw_acquire_def raw_release_def holding_def self_def spinlock_init_def)
  show ?thesis
    using spin_mutual_exclusion [OF reachable_run [OF r reachable.start [of spin_start, OF sample_start]], of 0] g by blast
qed

theorem spin_acquire_possible_witness:
  "\<exists>es t. run spin_fire es (the (run spin_fire [Acquire 5] sample_cores)) = Some t \<and> pc (cores t 5) = In"
proof -
  let ?r = "run spin_fire [Acquire 5] sample_cores"
  have r: "?r = Some (the ?r)" and g: "pc (cores (the ?r) 5) = Acq (A_guard True)"
    by (simp_all add: sample_cores_def begin_op_def pushcli_def)
  show ?thesis
    using spin_acquire_possible [OF reachable_run [OF r reachable.start [of spin_start, OF sample_start]], of 5] g by blast
qed

end
