(* ===== verification/Mutex.thy ===== *)
theory Mutex
  imports Transition Wait_Proofs
begin

text \<open>
  Mutexes: \<^verbatim>\<open>sync/mutex.c\<close>.  Every function runs with the spin lock \<^verbatim>\<open>m_guard\<close> held, which only a blocking thread gives up, so each part of a function between two
  blocking points is one event.  The wait queue of the mutex is the wait queue at its address in the kernel state, and
  blocking and waking up are the functions of \<open>Wait\<close>.
\<close>

section \<open>The functions\<close>

record mtx =
  m_locked :: u8
  m_recurs :: u64
  m_owner :: addr
  m_waitQ :: addr

definition mtx_init :: "addr \<Rightarrow> addr \<Rightarrow> kstate \<Rightarrow> int \<times> (mtx \<times> kstate) option" where
  "mtx_init m q s = (if m = NULL then (- EINVAL, None) else (0, Some (\<lparr>m_locked = 0, m_recurs = 0, m_owner = NULL, m_waitQ = q\<rparr>, set_wq q [] s)))"

definition mtx_take :: "addr \<Rightarrow> mtx \<Rightarrow> mtx" where
  "mtx_take current m = m\<lparr>m_locked := 1, m_recurs := 1, m_owner := current\<rparr>"

text \<open>
  \<^verbatim>\<open>mtx_lock\<close> up to the point where it blocks or returns: \<^term>\<open>True\<close> means that it has returned.  The error of \<^verbatim>\<open>sched_wait_whence\<close> is not looked at.  The rest, when the thread
  runs again, is \<open>mtx_take\<close>.
\<close>

definition mtx_lock :: "dispatcher \<Rightarrow> addr \<Rightarrow> addr \<Rightarrow> mtx \<Rightarrow> kstate \<Rightarrow> (bool \<times> mtx \<times> kstate) outcome option" where
  "mtx_lock dispatch sleepq current m s = do {
     assert_that (\<not> (m_locked m \<noteq> 0 \<and> m_owner m = current));
     if m_locked m \<noteq> 0
     then do {
       out \<leftarrow> sched_wait_whence dispatch sleepq current (m_waitQ m) T_SLEEP QUEUE_TAIL s;
       Some (case out of
           Exits v \<Rightarrow> Exits v
         | Returns (Blocked, s) \<Rightarrow> Returns (False, m, s)
         | Returns (Refused err, s) \<Rightarrow> Returns (True, mtx_take current m, s)) }
     else Some (Returns (True, mtx_take current m, s)) }"

definition mtx_resume :: "dispatcher \<Rightarrow> addr \<Rightarrow> mtx \<Rightarrow> kstate \<Rightarrow> (mtx \<times> kstate) outcome option" where
  "mtx_resume dispatch current m s = do {
     out \<leftarrow> sched_wait_resume dispatch current s;
     Some (case out of Exits v \<Rightarrow> Exits v | Returns (err, s) \<Rightarrow> Returns (mtx_take current m, s)) }"

definition mtx_unlock :: "nat \<Rightarrow> addr \<Rightarrow> mtx \<Rightarrow> kstate \<Rightarrow> (mtx \<times> kstate) option" where
  "mtx_unlock cpuid current m s = do {
     assert_that (m_locked m \<noteq> 0 \<and> m_owner m = current);
     assert_that (m_recurs m > 0);
     let m = m\<lparr>m_recurs := m_recurs m - 1\<rparr>;
     if m_recurs m = 0
     then do {
       let m = m\<lparr>m_locked := 0, m_owner := NULL\<rparr>;
       (err, s) \<leftarrow> sched_wakeup_whence cpuid (m_waitQ m) WAKEUP_NORMAL QUEUE_HEAD s;
       Some (m, s) }
     else Some (m, s) }"

definition mtx_trylock :: "addr \<Rightarrow> mtx \<Rightarrow> (bool \<times> mtx) option" where
  "mtx_trylock current m = do {
     assert_that (\<not> (m_locked m \<noteq> 0 \<and> m_owner m = current));
     Some (if m_locked m = 0 then (True, mtx_take current m) else (False, m)) }"

definition mtx_islocked :: "addr \<Rightarrow> mtx \<Rightarrow> bool" where
  "mtx_islocked current m \<longleftrightarrow> m_locked m \<noteq> 0 \<and> m_owner m = current"

definition mtx_recursive_take :: "addr \<Rightarrow> mtx \<Rightarrow> mtx" where
  "mtx_recursive_take current m = m\<lparr>m_locked := 1, m_recurs := m_recurs m + 1, m_owner := current\<rparr>"

definition mtx_recursive_lock :: "dispatcher \<Rightarrow> addr \<Rightarrow> addr \<Rightarrow> mtx \<Rightarrow> kstate \<Rightarrow> (bool \<times> mtx \<times> kstate) outcome option" where
  "mtx_recursive_lock dispatch sleepq current m s =
    (if m_locked m \<noteq> 0 \<and> m_owner m \<noteq> current
     then do {
       out \<leftarrow> sched_wait_whence dispatch sleepq current (m_waitQ m) T_SLEEP QUEUE_TAIL s;
       Some (case out of
           Exits v \<Rightarrow> Exits v
         | Returns (Blocked, s) \<Rightarrow> Returns (False, m, s)
         | Returns (Refused err, s) \<Rightarrow> Returns (True, mtx_recursive_take current m, s)) }
     else Some (Returns (True, mtx_recursive_take current m, s)))"

section \<open>Threads that use one mutex\<close>

datatype mtx_pc = M_out | M_wait | M_in

record mtx_sys =
  mx :: mtx
  kern :: kstate
  mpc :: "addr \<Rightarrow> mtx_pc"

text \<open>\<open>Schedule c\<close> is the scheduler of core \<open>c\<close> picking its next thread.\<close>

datatype mtx_event = Lock addr | Resume addr | Unlock addr | Trylock addr | Schedule nat

definition running :: "mtx_sys \<Rightarrow> addr \<Rightarrow> bool" where
  "running g t \<longleftrightarrow> t \<noteq> NULL \<and> ti_state (threads (kern g) t) = T_RUNNING"

fun mtx_fire :: "dispatcher \<Rightarrow> mtx_event \<Rightarrow> mtx_sys \<Rightarrow> mtx_sys option" where
  "mtx_fire dispatch (Lock t) g =
    (if running g t \<and> mpc g t = M_out
     then case mtx_lock dispatch NULL t (mx g) (kern g) of
       Some (Returns (b, m, s)) \<Rightarrow> Some \<lparr>mx = m, kern = s, mpc = (mpc g)(t := if b then M_in else M_wait)\<rparr>
     | _ \<Rightarrow> None
     else None)"
| "mtx_fire dispatch (Resume t) g =
    (if running g t \<and> mpc g t = M_wait
     then case mtx_resume dispatch t (mx g) (kern g) of
       Some (Returns (m, s)) \<Rightarrow> Some \<lparr>mx = m, kern = s, mpc = (mpc g)(t := M_in)\<rparr>
     | _ \<Rightarrow> None
     else None)"
| "mtx_fire dispatch (Unlock t) g =
    (if running g t \<and> mpc g t = M_in
     then case mtx_unlock 0 t (mx g) (kern g) of
       Some (m, s) \<Rightarrow> Some \<lparr>mx = m, kern = s, mpc = (mpc g)(t := M_out)\<rparr>
     | None \<Rightarrow> None
     else None)"
| "mtx_fire dispatch (Trylock t) g =
    (if running g t \<and> mpc g t = M_out
     then case mtx_trylock t (mx g) of
       Some (b, m) \<Rightarrow> Some (g\<lparr>mx := m, mpc := (mpc g)(t := if b then M_in else M_out)\<rparr>)
     | None \<Rightarrow> None
     else None)"
| "mtx_fire dispatch (Schedule c) g = Some (g\<lparr>kern := snd (MLFQ_get_next_thread (kern g) c)\<rparr>)"

definition mtx_start :: "mtx_sys \<Rightarrow> bool" where
  "mtx_start g \<longleftrightarrow> m_locked (mx g) = 0 \<and> (\<forall>t. mpc g t = M_out) \<and> wait_qs (kern g) (m_waitQ (mx g)) = [] \<and> wait_ok (kern g) \<and> m_waitQ (mx g) \<noteq> NULL"

section \<open>Exclusion where nobody overtakes\<close>

text \<open>
  The events that leave the mutex exclusive: a thread that finds the mutex held does block, and a thread that has been woken up
  finds it free.  The code ensures neither.
\<close>

definition orderly :: "dispatcher \<Rightarrow> mtx_event \<Rightarrow> mtx_sys \<Rightarrow> bool" where
  "orderly dispatch e g \<longleftrightarrow>
    (case e of
       Lock t \<Rightarrow> m_locked (mx g) = 0 \<or> (\<exists>m s. mtx_lock dispatch NULL t (mx g) (kern g) = Some (Returns (False, m, s)))
     | Resume t \<Rightarrow> m_locked (mx g) = 0
     | _ \<Rightarrow> True)"

definition orderly_fire :: "dispatcher \<Rightarrow> mtx_event \<Rightarrow> mtx_sys \<Rightarrow> mtx_sys option" where
  "orderly_fire dispatch e g = (if orderly dispatch e g then mtx_fire dispatch e g else None)"

definition one_owner :: "mtx_sys \<Rightarrow> bool" where
  "one_owner g \<longleftrightarrow>
    (\<forall>t. mpc g t = M_in \<longleftrightarrow> m_locked (mx g) \<noteq> 0 \<and> m_owner (mx g) = t) \<and> (m_locked (mx g) \<noteq> 0 \<longrightarrow> m_recurs (mx g) = 1)"

lemma mtx_take_fields [simp]:
  "m_locked (mtx_take t m) = 1" "m_recurs (mtx_take t m) = 1" "m_owner (mtx_take t m) = t" "m_waitQ (mtx_take t m) = m_waitQ m"
  by (simp_all add: mtx_take_def)

lemma one_owner_take: "one_owner g \<Longrightarrow> m_locked (mx g) = 0 \<Longrightarrow> one_owner \<lparr>mx = mtx_take t (mx g), kern = s, mpc = (mpc g)(t := M_in)\<rparr>"
  by (auto simp: one_owner_def)

lemma one_owner_out: "one_owner g \<Longrightarrow> mpc g t = M_out \<Longrightarrow> pc \<noteq> M_in \<Longrightarrow> one_owner \<lparr>mx = mx g, kern = s, mpc = (mpc g)(t := pc)\<rparr>"
  unfolding one_owner_def by simp (metis mtx_pc.distinct(3))

lemma mtx_lock_waits: "mtx_lock dispatch q t m s = Some (Returns (False, m', s')) \<Longrightarrow> m' = m"
  by (cases "sched_wait_whence dispatch q t (m_waitQ m) T_SLEEP QUEUE_TAIL s" rule: opt_outcome_cases)
    (auto simp: mtx_lock_def assert_that_def split: if_splits wait_entry.splits)

lemma mtx_lock_free: "m_locked m = 0 \<Longrightarrow> mtx_lock dispatch q t m s = Some (Returns (True, mtx_take t m, s))"
  by (simp add: mtx_lock_def assert_that_def)

lemma orderly_lock:
  assumes g: "one_owner g" and f: "orderly_fire dispatch (Lock t) g = Some g'"
  shows "one_owner g'"
proof (cases "m_locked (mx g) = 0")
  case True
  then show ?thesis using f one_owner_take [OF g True]
    by (auto simp: orderly_fire_def mtx_lock_free split: if_splits)
next
  case False
  then obtain m s where l: "mtx_lock dispatch NULL t (mx g) (kern g) = Some (Returns (False, m, s))"
    using f by (auto simp: orderly_fire_def orderly_def split: if_splits)
  then show ?thesis using f mtx_lock_waits [OF l] one_owner_out [OF g, of t M_wait]
    by (auto simp: orderly_fire_def split: if_splits)
qed

lemma orderly_resume:
  assumes g: "one_owner g" and f: "orderly_fire dispatch (Resume t) g = Some g'"
  shows "one_owner g'"
proof -
  have "m_locked (mx g) = 0" using f by (auto simp: orderly_fire_def orderly_def split: if_splits)
  moreover obtain s where "g' = \<lparr>mx = mtx_take t (mx g), kern = s, mpc = (mpc g)(t := M_in)\<rparr>"
    using f by (cases "sched_wait_resume dispatch t (kern g)" rule: opt_outcome_cases)
      (auto simp: orderly_fire_def mtx_resume_def split: if_splits)
  ultimately show ?thesis using one_owner_take [OF g] by simp
qed

lemma orderly_unlock:
  assumes g: "one_owner g" and f: "orderly_fire dispatch (Unlock t) g = Some g'"
  shows "one_owner g'"
proof -
  obtain m s where u: "mtx_unlock 0 t (mx g) (kern g) = Some (m, s)" and g': "g' = \<lparr>mx = m, kern = s, mpc = (mpc g)(t := M_out)\<rparr>"
    using f by (auto simp: orderly_fire_def split: if_splits option.splits)
  have "m_owner (mx g) = t" "m_recurs (mx g) = 1" using u g
    by (auto simp: mtx_unlock_def assert_that_def bind_eq_Some_conv one_owner_def split: if_splits)
  then have "m_locked m = 0" using u by (auto simp: mtx_unlock_def assert_that_def bind_eq_Some_conv split: if_splits)
  then show ?thesis using g \<open>m_owner (mx g) = t\<close> by (auto simp: g' one_owner_def)
qed

lemma orderly_trylock:
  assumes g: "one_owner g" and f: "orderly_fire dispatch (Trylock t) g = Some g'"
  shows "one_owner g'"
proof (cases "m_locked (mx g) = 0")
  case True
  then show ?thesis using f one_owner_take [OF g True, of t "kern g"]
    by (auto simp: orderly_fire_def mtx_trylock_def assert_that_def one_owner_def split: if_splits)
next
  case False
  then have "mtx_trylock t (mx g) = Some (b, m) \<Longrightarrow> \<not> b \<and> m = mx g" for b m
    by (auto simp: mtx_trylock_def assert_that_def bind_eq_Some_conv)
  then have "\<exists>k. g' = \<lparr>mx = mx g, kern = k, mpc = (mpc g)(t := M_out)\<rparr> \<and> mpc g t = M_out" using f
    by (cases g) (fastforce simp: orderly_fire_def split: if_splits option.splits)
  then show ?thesis using one_owner_out [OF g, of t M_out] by auto
qed

lemma orderly_fire_keeps: "one_owner g \<Longrightarrow> orderly_fire dispatch e g = Some g' \<Longrightarrow> one_owner g'"
proof (induction e)
  case (Schedule c)
  then have "mx g' = mx g \<and> mpc g' = mpc g" by (auto simp: orderly_fire_def split: if_splits)
  then show ?case using Schedule.prems(1) by (simp add: one_owner_def)
qed (rule orderly_lock orderly_resume orderly_unlock orderly_trylock; assumption)+

interpretation mtx_orderly: invariant_system "orderly_fire dispatch" mtx_start one_owner
proof unfold_locales
  show "one_owner g" if "mtx_start g" for g using that by (simp add: mtx_start_def one_owner_def)
qed (rule orderly_fire_keeps)

text \<open>Mutual exclusion of the mutex in every run in which each thread that finds it held blocks and each woken thread finds it free: at most one thread is
  between \<^verbatim>\<open>mtx_lock\<close> and \<^verbatim>\<open>mtx_unlock\<close>, and it is the recorded owner.\<close>

theorem mtx_exclusion_in_order:
  assumes "reachable (orderly_fire dispatch) mtx_start g" "mpc g t = M_in" "mpc g u = M_in"
  shows "t = u \<and> m_owner (mx g) = t \<and> m_locked (mx g) \<noteq> 0"
  using mtx_orderly.reachable_inv [OF assms(1)] assms(2,3) by (simp add: one_owner_def)

section \<open>Two threads inside\<close>

definition mtx_sample :: mtx_sys where
  "mtx_sample = \<lparr>mx = \<lparr>m_locked = 0, m_recurs = 0, m_owner = NULL, m_waitQ = 64\<rparr>, kern = quiet, mpc = (\<lambda>t. M_out)\<rparr>"

text \<open>Mutexes do not exclude.  A state is reachable in which two threads have both returned from \<^verbatim>\<open>mtx_lock\<close> and neither has called \<^verbatim>\<open>mtx_unlock\<close>: a woken thread takes the
  mutex without looking whether another thread has taken it between the wake-up and its own turn.\<close>

theorem mtx_two_owners:
  "\<exists>g t u. reachable (mtx_fire (\<lambda>a i s. s)) mtx_start g \<and> t \<noteq> u \<and> mpc g t = M_in \<and> mpc g u = M_in"
proof -
  let ?es = "[Lock 8, Lock 16, Unlock 8, Lock 24, Schedule 3, Resume 16]"
  let ?g = "run (mtx_fire (\<lambda>a i s. s)) ?es mtx_sample"
  have start: "mtx_start mtx_sample" using quiet_wait_ok by (simp add: mtx_start_def mtx_sample_def) (simp add: quiet_def)
  have "map_option (\<lambda>g. (mpc g 16, mpc g 24)) ?g = Some (M_in, M_in)" by code_simp
  then obtain g where g: "?g = Some g" "mpc g 16 = M_in" "mpc g 24 = M_in" by auto
  have "reachable (mtx_fire (\<lambda>a i s. s)) mtx_start g"
    using g(1) reachable.start [of mtx_start, OF start] by (rule reachable_run)
  moreover have "(16 :: addr) \<noteq> 24" by simp
  ultimately show ?thesis using g(2,3) by blast
qed

section \<open>Witness\<close>

definition mtx_held :: mtx_sys where
  "mtx_held = \<lparr>mx = mtx_take 8 (mx mtx_sample), kern = quiet, mpc = (\<lambda>t. M_out)(8 := M_in)\<rparr>"

lemma mtx_held_run: "orderly_fire (\<lambda>a i s. s) (Lock 8) mtx_sample = Some mtx_held"
  by (simp add: orderly_fire_def orderly_def mtx_held_def mtx_sample_def running_def quiet_def sig_thread_def mtx_lock_free)

theorem mtx_exclusion_in_order_witness: "m_owner (mx mtx_held) = 8"
proof -
  have start: "mtx_start mtx_sample" using quiet_wait_ok by (simp add: mtx_start_def mtx_sample_def) (simp add: quiet_def)
  have "reachable (orderly_fire (\<lambda>a i s. s)) mtx_start mtx_held"
    using reachable.start [of mtx_start, OF start] mtx_held_run by (rule reachable.step)
  moreover have "mpc mtx_held 8 = M_in" by (simp add: mtx_held_def)
  ultimately show ?thesis using mtx_exclusion_in_order by blast
qed

end
