(* ===== verification/Rwlock.thy ===== *)
theory Rwlock
  imports Transition Wait_Proofs
begin

text \<open>
  Reader-writer locks: \<^verbatim>\<open>sync/rwlock.c\<close>.  As for the mutexes, every function runs with the spin lock \<^verbatim>\<open>guard\<close> held except while its thread is blocked, so the part of a function
  between two blocking points is one event.  The two wait queues are the queues at their addresses in the kernel state.
\<close>

section \<open>The functions\<close>

record rwlock =
  writer :: u64
  readers :: u64
  writersq :: addr
  readersq :: addr

definition rwlock_init :: "addr \<Rightarrow> addr \<Rightarrow> kstate \<Rightarrow> rwlock \<times> kstate" where
  "rwlock_init wq rq s = (\<lparr>writer = 0, readers = 0, writersq = wq, readersq = rq\<rparr>, set_wq rq [] (set_wq wq [] s))"

text \<open>
  The loops of the two acquire functions: while the condition holds the thread waits in the queue \<open>q\<close>, and a refused wait is tried again at once with the guard still held.
  The result is \<^term>\<open>True\<close> when the condition does not hold any more and \<^term>\<open>False\<close> when the thread has blocked; \<^term>\<open>None\<close> when the loop never ends.
\<close>

partial_function (option) wait_while :: "dispatcher \<Rightarrow> addr \<Rightarrow> addr \<Rightarrow> (kstate \<Rightarrow> bool) \<Rightarrow> addr \<Rightarrow> kstate \<Rightarrow> (bool \<times> kstate) outcome option" where
  "wait_while dispatch sleepq current cond q s =
    (if cond s
     then Option.bind (sched_wait_whence dispatch sleepq current q T_SLEEP QUEUE_TAIL s) (\<lambda>out.
       case out of
         Exits v \<Rightarrow> Some (Exits v)
       | Returns r \<Rightarrow>
           if fst r = Blocked then Some (Returns (False, snd r)) else wait_while dispatch sleepq current cond q (snd r))
     else Some (Returns (True, s)))"

declare wait_while.simps [code]

definition read_blocked :: "rwlock \<Rightarrow> kstate \<Rightarrow> bool" where
  "read_blocked rw s \<longleftrightarrow> writer rw \<noteq> 0 \<or> sched_wait_queue_length (writersq rw) s \<noteq> 0"

definition write_blocked :: "rwlock \<Rightarrow> kstate \<Rightarrow> bool" where
  "write_blocked rw s \<longleftrightarrow> readers rw \<noteq> 0 \<or> writer rw \<noteq> 0 \<or> sched_wait_queue_length (writersq rw) s \<noteq> 0"

definition rw_readlock_acquire :: "dispatcher \<Rightarrow> addr \<Rightarrow> addr \<Rightarrow> rwlock \<Rightarrow> kstate \<Rightarrow> (bool \<times> rwlock \<times> kstate) outcome option" where
  "rw_readlock_acquire dispatch sleepq current rw s = do {
     out \<leftarrow> wait_while dispatch sleepq current (read_blocked rw) (readersq rw) s;
     Some (case out of
         Exits v \<Rightarrow> Exits v
       | Returns (b, s) \<Rightarrow> Returns (b, if b then rw\<lparr>readers := readers rw + 1\<rparr> else rw, s)) }"

definition rw_writelock_acquire :: "dispatcher \<Rightarrow> addr \<Rightarrow> addr \<Rightarrow> rwlock \<Rightarrow> kstate \<Rightarrow> (bool \<times> rwlock \<times> kstate) outcome option" where
  "rw_writelock_acquire dispatch sleepq current rw s = do {
     out \<leftarrow> wait_while dispatch sleepq current (write_blocked rw) (writersq rw) s;
     Some (case out of
         Exits v \<Rightarrow> Exits v
       | Returns (b, s) \<Rightarrow> Returns (b, if b then rw\<lparr>writer := writer rw + 1\<rparr> else rw, s)) }"

text \<open>After the wait the thread looks at its wake-up reason, ignores the error and evaluates the condition again.\<close>

definition rw_readlock_resume :: "dispatcher \<Rightarrow> addr \<Rightarrow> addr \<Rightarrow> rwlock \<Rightarrow> kstate \<Rightarrow> (bool \<times> rwlock \<times> kstate) outcome option" where
  "rw_readlock_resume dispatch sleepq current rw s = do {
     out \<leftarrow> sched_wait_resume dispatch current s;
     case out of Exits v \<Rightarrow> Some (Exits v) | Returns (err, s) \<Rightarrow> rw_readlock_acquire dispatch sleepq current rw s }"

definition rw_writelock_resume :: "dispatcher \<Rightarrow> addr \<Rightarrow> addr \<Rightarrow> rwlock \<Rightarrow> kstate \<Rightarrow> (bool \<times> rwlock \<times> kstate) outcome option" where
  "rw_writelock_resume dispatch sleepq current rw s = do {
     out \<leftarrow> sched_wait_resume dispatch current s;
     case out of Exits v \<Rightarrow> Some (Exits v) | Returns (err, s) \<Rightarrow> rw_writelock_acquire dispatch sleepq current rw s }"

definition rw_readlock_try_acquire :: "rwlock \<Rightarrow> kstate \<Rightarrow> bool \<times> rwlock" where
  "rw_readlock_try_acquire rw s =
    (if writer rw = 0 \<and> sched_wait_queue_length (writersq rw) s = 0 then (True, rw\<lparr>readers := readers rw + 1\<rparr>) else (False, rw))"

definition rw_writelock_try_acquire :: "rwlock \<Rightarrow> kstate \<Rightarrow> bool \<times> rwlock" where
  "rw_writelock_try_acquire rw s =
    (if readers rw = 0 \<and> writer rw = 0 \<and> sched_wait_queue_length (writersq rw) s = 0 then (True, rw\<lparr>writer := writer rw + 1\<rparr>) else (False, rw))"

definition rw_readlock_release :: "nat \<Rightarrow> rwlock \<Rightarrow> kstate \<Rightarrow> (rwlock \<times> kstate) option" where
  "rw_readlock_release cpuid rw s =
    (let rw = rw\<lparr>readers := readers rw - 1\<rparr> in
     if readers rw = 0 \<and> sched_wait_queue_length (writersq rw) s \<ge> 1
     then do { (err, s) \<leftarrow> sched_wakeup_whence cpuid (writersq rw) WAKEUP_NORMAL QUEUE_HEAD s; Some (rw, s) }
     else Some (rw, s))"

definition rw_writelock_release :: "nat \<Rightarrow> rwlock \<Rightarrow> kstate \<Rightarrow> (rwlock \<times> kstate) option" where
  "rw_writelock_release cpuid rw s =
    (let rw = rw\<lparr>writer := writer rw - 1\<rparr> in
     if sched_wait_queue_length (writersq rw) s \<noteq> 0
     then do { (err, s) \<leftarrow> sched_wakeup_whence cpuid (writersq rw) WAKEUP_NORMAL QUEUE_HEAD s; Some (rw, s) }
     else do { (err, n, s) \<leftarrow> sched_wakeup_all cpuid (readersq rw) WAKEUP_NORMAL s; Some (rw, s) })"

section \<open>Threads that use one lock\<close>

datatype rw_pc = RW_out | R_wait | R_in | W_wait | W_in

record rw_sys =
  rwl :: rwlock
  rkern :: kstate
  rpc :: "addr \<Rightarrow> rw_pc"

datatype rw_event = ReadLock addr | ReadResume addr | ReadUnlock addr | WriteLock addr | WriteResume addr | WriteUnlock addr
  | TryRead addr | TryWrite addr | Schedule nat

definition runs :: "rw_sys \<Rightarrow> addr \<Rightarrow> rw_pc \<Rightarrow> bool" where
  "runs g t pc \<longleftrightarrow> t \<noteq> NULL \<and> ti_state (threads (rkern g) t) = T_RUNNING \<and> rpc g t = pc"

definition moved :: "rw_sys \<Rightarrow> addr \<Rightarrow> rw_pc \<Rightarrow> rwlock \<Rightarrow> kstate \<Rightarrow> rw_sys" where
  "moved g t pc rw s = \<lparr>rwl = rw, rkern = s, rpc = (rpc g)(t := pc)\<rparr>"

definition acquired :: "rw_sys \<Rightarrow> addr \<Rightarrow> rw_pc \<Rightarrow> rw_pc \<Rightarrow> (bool \<times> rwlock \<times> kstate) outcome option \<Rightarrow> rw_sys option" where
  "acquired g t pc_in pc_wait res =
    (case res of Some (Returns (b, rw, s)) \<Rightarrow> Some (moved g t (if b then pc_in else pc_wait) rw s) | _ \<Rightarrow> None)"

definition released :: "rw_sys \<Rightarrow> addr \<Rightarrow> (rwlock \<times> kstate) option \<Rightarrow> rw_sys option" where
  "released g t res = map_option (\<lambda>(rw, s). moved g t RW_out rw s) res"

definition tried :: "rw_sys \<Rightarrow> addr \<Rightarrow> rw_pc \<Rightarrow> bool \<times> rwlock \<Rightarrow> rw_sys option" where
  "tried g t pc res = Some (moved g t (if fst res then pc else RW_out) (snd res) (rkern g))"

fun rw_fire :: "dispatcher \<Rightarrow> rw_event \<Rightarrow> rw_sys \<Rightarrow> rw_sys option" where
  "rw_fire dispatch (ReadLock t) g =
    (if runs g t RW_out then acquired g t R_in R_wait (rw_readlock_acquire dispatch NULL t (rwl g) (rkern g)) else None)"
| "rw_fire dispatch (ReadResume t) g =
    (if runs g t R_wait then acquired g t R_in R_wait (rw_readlock_resume dispatch NULL t (rwl g) (rkern g)) else None)"
| "rw_fire dispatch (ReadUnlock t) g = (if runs g t R_in then released g t (rw_readlock_release 0 (rwl g) (rkern g)) else None)"
| "rw_fire dispatch (WriteLock t) g =
    (if runs g t RW_out then acquired g t W_in W_wait (rw_writelock_acquire dispatch NULL t (rwl g) (rkern g)) else None)"
| "rw_fire dispatch (WriteResume t) g =
    (if runs g t W_wait then acquired g t W_in W_wait (rw_writelock_resume dispatch NULL t (rwl g) (rkern g)) else None)"
| "rw_fire dispatch (WriteUnlock t) g = (if runs g t W_in then released g t (rw_writelock_release 0 (rwl g) (rkern g)) else None)"
| "rw_fire dispatch (TryRead t) g = (if runs g t RW_out then tried g t R_in (rw_readlock_try_acquire (rwl g) (rkern g)) else None)"
| "rw_fire dispatch (TryWrite t) g = (if runs g t RW_out then tried g t W_in (rw_writelock_try_acquire (rwl g) (rkern g)) else None)"
| "rw_fire dispatch (Schedule c) g = Some (g\<lparr>rkern := snd (MLFQ_get_next_thread (rkern g) c)\<rparr>)"

definition rw_start :: "rw_sys \<Rightarrow> bool" where
  "rw_start g \<longleftrightarrow> writer (rwl g) = 0 \<and> readers (rwl g) = 0 \<and> (\<forall>t. rpc g t = RW_out)"

section \<open>Exclusion\<close>

definition inside :: "rw_sys \<Rightarrow> rw_pc \<Rightarrow> addr set" where
  "inside g pc = {t. t \<noteq> NULL \<and> rpc g t = pc}"

definition rw_excl :: "rw_sys \<Rightarrow> bool" where
  "rw_excl g \<longleftrightarrow> unat (readers (rwl g)) = card (inside g R_in) \<and> unat (writer (rwl g)) = card (inside g W_in) \<and>
    card (inside g W_in) \<le> 1 \<and> (inside g W_in \<noteq> {} \<longrightarrow> inside g R_in = {})"

lemma inside_finite [simp]: "finite (inside g pc)"
  by (rule finite_subset [of _ UNIV]) auto

text \<open>A count of threads fits into the 64-bit counter: there are fewer than \<^term>\<open>2 ^ 64 :: nat\<close> non-null addresses.\<close>

lemma inside_bound: "card (inside g pc) < 2 ^ 64"
proof -
  have "card (inside g pc) \<le> card (UNIV - {NULL :: addr})" by (rule card_mono) (auto simp: inside_def)
  also have "\<dots> = card (UNIV :: addr set) - 1" by (simp add: card_Diff_singleton)
  finally show ?thesis by (simp add: card_word)
qed

lemma wait_while_done:
  assumes "wait_while dispatch sleepq current cond q s = Some (Returns (True, s'))"
  shows "\<not> cond s'"
proof -
  have "\<forall>s'. r = Returns (True, s') \<longrightarrow> \<not> cond s'" if "wait_while dispatch sleepq current cond q s = Some r" for r
    using that
  proof (rule wait_while.raw_induct [where P = "\<lambda>d sl c co q s r. \<forall>s'. r = Returns (True, s') \<longrightarrow> \<not> co s'", rotated])
    fix f d sl c co q s r
    assume IH: "\<And>d sl c co q s r. f d sl c co q s = Some r \<Longrightarrow> \<forall>s'. r = Returns (True, s') \<longrightarrow> \<not> co s'"
      and "(if co s then Option.bind (sched_wait_whence d sl c q T_SLEEP QUEUE_TAIL s) (\<lambda>out. case out of Exits v \<Rightarrow> Some (Exits v)
         | Returns r \<Rightarrow> if fst r = Blocked then Some (Returns (False, snd r)) else f d sl c co q (snd r)) else Some (Returns (True, s))) = Some r"
    then show "\<forall>s'. r = Returns (True, s') \<longrightarrow> \<not> co s'"
      by (cases "sched_wait_whence d sl c q T_SLEEP QUEUE_TAIL s" rule: opt_outcome_cases) (auto split: if_splits dest: IH)
  qed
  then show ?thesis using assms by blast
qed

lemma readlock_acquire_cases:
  assumes "rw_readlock_acquire dispatch sleepq t rw s = Some (Returns (b, rw', s'))"
  shows "if b then writer rw = 0 \<and> sched_wait_queue_length (writersq rw) s' = 0 \<and> rw' = rw\<lparr>readers := readers rw + 1\<rparr> else rw' = rw"
proof -
  obtain out where "wait_while dispatch sleepq t (read_blocked rw) (readersq rw) s = Some out"
    and "(case out of Exits v \<Rightarrow> Exits v | Returns (b, s) \<Rightarrow> Returns (b, if b then rw\<lparr>readers := readers rw + 1\<rparr> else rw, s)) = Returns (b, rw', s')"
    using assms by (auto simp: rw_readlock_acquire_def bind_eq_Some_conv)
  then show ?thesis using wait_while_done [of dispatch sleepq t "read_blocked rw" "readersq rw" s]
    by (cases out) (auto simp: read_blocked_def split: if_splits prod.splits)
qed

lemma writelock_acquire_cases:
  assumes "rw_writelock_acquire dispatch sleepq t rw s = Some (Returns (b, rw', s'))"
  shows "if b then readers rw = 0 \<and> writer rw = 0 \<and> sched_wait_queue_length (writersq rw) s' = 0 \<and> rw' = rw\<lparr>writer := writer rw + 1\<rparr> else rw' = rw"
proof -
  obtain out where "wait_while dispatch sleepq t (write_blocked rw) (writersq rw) s = Some out"
    and "(case out of Exits v \<Rightarrow> Exits v | Returns (b, s) \<Rightarrow> Returns (b, if b then rw\<lparr>writer := writer rw + 1\<rparr> else rw, s)) = Returns (b, rw', s')"
    using assms by (auto simp: rw_writelock_acquire_def bind_eq_Some_conv)
  then show ?thesis using wait_while_done [of dispatch sleepq t "write_blocked rw" "writersq rw" s]
    by (cases out) (auto simp: write_blocked_def split: if_splits prod.splits)
qed

lemma resume_acquire:
  "rw_readlock_resume dispatch sleepq t rw s = Some (Returns r) \<Longrightarrow> \<exists>s1. rw_readlock_acquire dispatch sleepq t rw s1 = Some (Returns r)"
  "rw_writelock_resume dispatch sleepq t rw s = Some (Returns r) \<Longrightarrow> \<exists>s1. rw_writelock_acquire dispatch sleepq t rw s1 = Some (Returns r)"
  by (cases "sched_wait_resume dispatch t s" rule: opt_outcome_cases; auto simp: rw_readlock_resume_def rw_writelock_resume_def)+

text \<open>How the sets of threads inside change when one thread moves.\<close>

lemma inside_moved: "inside (moved g t pc rw s) pc' = (if pc = pc' \<and> t \<noteq> NULL then insert t (inside g pc') else inside g pc' - {t})"
  by (auto simp: inside_def moved_def)

lemma moved_fields [simp]: "rwl (moved g t pc rw s) = rw" "rkern (moved g t pc rw s) = s" "rpc (moved g t pc rw s) = (rpc g)(t := pc)"
  by (simp_all add: moved_def)

lemma not_inside [simp]: "rpc g t \<noteq> pc \<Longrightarrow> t \<notin> inside g pc" and is_inside: "t \<noteq> NULL \<Longrightarrow> rpc g t = pc \<Longrightarrow> t \<in> inside g pc"
  by (simp_all add: inside_def)

lemma excl_wait:
  assumes "rw_excl g" "rpc g t \<noteq> R_in" "rpc g t \<noteq> W_in" "pc \<noteq> R_in" "pc \<noteq> W_in"
  shows "rw_excl (moved g t pc (rwl g) s)"
  using assms by (simp add: rw_excl_def inside_moved)

lemma unat_succ: "unat (x :: u64) < 2 ^ 64 - 1 \<Longrightarrow> unat (x + 1) = unat x + 1"
  by (rule unat_word_ariths(1) [of x 1, THEN trans]) simp

lemma unat_pred: "(x :: u64) \<noteq> 0 \<Longrightarrow> unat (x - 1) = unat x - 1"
  by (simp add: unat_minus_one)

lemma excl_read:
  assumes g: "rw_excl g" and pc: "rpc g t \<noteq> R_in" "rpc g t \<noteq> W_in" and t: "t \<noteq> NULL" and w: "writer (rwl g) = 0"
  shows "rw_excl (moved g t R_in ((rwl g)\<lparr>readers := readers (rwl g) + 1\<rparr>) s)"
proof -
  have "card (insert t (inside g R_in)) < 2 ^ 64" using inside_bound [of "moved g t R_in (rwl g) s" R_in] t by (simp add: inside_moved)
  then have "unat (readers (rwl g) + 1) = card (insert t (inside g R_in))" using g pc by (subst unat_succ) (auto simp: rw_excl_def)
  moreover have "inside g W_in = {}" using g w by (simp add: rw_excl_def)
  ultimately show ?thesis using g pc t by (simp add: rw_excl_def inside_moved)
qed

lemma excl_write:
  assumes g: "rw_excl g" and pc: "rpc g t \<noteq> R_in" "rpc g t \<noteq> W_in" and t: "t \<noteq> NULL" and w: "writer (rwl g) = 0" "readers (rwl g) = 0"
  shows "rw_excl (moved g t W_in ((rwl g)\<lparr>writer := writer (rwl g) + 1\<rparr>) s)"
proof -
  have "inside g W_in = {}" "inside g R_in = {}" using g w by (simp_all add: rw_excl_def)
  then show ?thesis using w t by (simp add: rw_excl_def inside_moved)
qed

lemma excl_read_out:
  assumes g: "rw_excl g" and pc: "rpc g t = R_in" and t: "t \<noteq> NULL"
  shows "rw_excl (moved g t RW_out ((rwl g)\<lparr>readers := readers (rwl g) - 1\<rparr>) s)"
proof -
  have i: "t \<in> inside g R_in" using pc t by (simp add: is_inside)
  then have "readers (rwl g) \<noteq> 0" using g by (auto simp: rw_excl_def)
  then show ?thesis using g i pc by (auto simp: rw_excl_def inside_moved unat_pred card_Diff_singleton)
qed

lemma excl_write_out:
  assumes g: "rw_excl g" and pc: "rpc g t = W_in" and t: "t \<noteq> NULL"
  shows "rw_excl (moved g t RW_out ((rwl g)\<lparr>writer := writer (rwl g) - 1\<rparr>) s)"
proof -
  have i: "t \<in> inside g W_in" using pc t by (simp add: is_inside)
  then have w: "writer (rwl g) \<noteq> 0" using g by (auto simp: rw_excl_def)
  have "inside g R_in = {}" using g i by (auto simp: rw_excl_def)
  then show ?thesis using g i w by (auto simp: rw_excl_def inside_moved unat_pred card_Diff_singleton)
qed

lemma acquired_Some:
  "acquired g t p w res = Some g' \<longleftrightarrow> (\<exists>b rw s. res = Some (Returns (b, rw, s)) \<and> g' = moved g t (if b then p else w) rw s)"
  by (cases res rule: opt_outcome_cases) (auto simp: acquired_def)

lemma excl_readlock:
  assumes g: "rw_excl g" and r: "runs g t pc" "pc = RW_out \<or> pc = R_wait"
    and res: "acquired g t R_in R_wait (rw_readlock_acquire dispatch sleepq t (rwl g) s0) = Some g'"
  shows "rw_excl g'"
proof -
  obtain b rw s where a: "rw_readlock_acquire dispatch sleepq t (rwl g) s0 = Some (Returns (b, rw, s))"
    and g': "g' = moved g t (if b then R_in else R_wait) rw s" using res by (auto simp only: acquired_Some)
  have out: "rpc g t \<noteq> R_in" "rpc g t \<noteq> W_in" "t \<noteq> NULL" using r by (auto simp: runs_def)
  show ?thesis
  proof (cases b)
    case True
    then show ?thesis using readlock_acquire_cases [OF a] excl_read [OF g out] by (simp add: g')
  next
    case False
    then show ?thesis using readlock_acquire_cases [OF a] excl_wait [OF g out(1,2)] by (simp add: g')
  qed
qed

lemma excl_readlock_resume:
  assumes g: "rw_excl g" and r: "runs g t R_wait"
    and res: "acquired g t R_in R_wait (rw_readlock_resume dispatch sleepq t (rwl g) s0) = Some g'"
  shows "rw_excl g'"
proof -
  have "\<exists>s1. acquired g t R_in R_wait (rw_readlock_acquire dispatch sleepq t (rwl g) s1) = Some g'"
    using res unfolding acquired_Some by (blast dest: resume_acquire)
  then show ?thesis using excl_readlock [OF g r] by blast
qed

lemma excl_writelock:
  assumes g: "rw_excl g" and r: "runs g t pc" "pc = RW_out \<or> pc = W_wait"
    and res: "acquired g t W_in W_wait (rw_writelock_acquire dispatch sleepq t (rwl g) s0) = Some g'"
  shows "rw_excl g'"
proof -
  obtain b rw s where a: "rw_writelock_acquire dispatch sleepq t (rwl g) s0 = Some (Returns (b, rw, s))"
    and g': "g' = moved g t (if b then W_in else W_wait) rw s" using res by (auto simp only: acquired_Some)
  have out: "rpc g t \<noteq> R_in" "rpc g t \<noteq> W_in" "t \<noteq> NULL" using r by (auto simp: runs_def)
  show ?thesis
  proof (cases b)
    case True
    then show ?thesis using writelock_acquire_cases [OF a] excl_write [OF g out] by (simp add: g')
  next
    case False
    then show ?thesis using writelock_acquire_cases [OF a] excl_wait [OF g out(1,2)] by (simp add: g')
  qed
qed

lemma excl_writelock_resume:
  assumes g: "rw_excl g" and r: "runs g t W_wait"
    and res: "acquired g t W_in W_wait (rw_writelock_resume dispatch sleepq t (rwl g) s0) = Some g'"
  shows "rw_excl g'"
proof -
  have "\<exists>s1. acquired g t W_in W_wait (rw_writelock_acquire dispatch sleepq t (rwl g) s1) = Some g'"
    using res unfolding acquired_Some by (blast dest: resume_acquire)
  then show ?thesis using excl_writelock [OF g r] by blast
qed

lemma readlock_release_fields: "rw_readlock_release c rw s = Some (rw', s') \<Longrightarrow> rw' = rw\<lparr>readers := readers rw - 1\<rparr>"
  by (auto simp: rw_readlock_release_def Let_def bind_eq_Some_conv split: if_splits)

lemma writelock_release_fields: "rw_writelock_release c rw s = Some (rw', s') \<Longrightarrow> rw' = rw\<lparr>writer := writer rw - 1\<rparr>"
  by (auto simp: rw_writelock_release_def Let_def bind_eq_Some_conv split: if_splits)

lemma rw_fire_excl: "rw_excl g \<Longrightarrow> rw_fire dispatch e g = Some g' \<Longrightarrow> rw_excl g'"
proof (induction e)
  case (ReadLock t)
  then show ?case using excl_readlock [of g t RW_out] by (simp split: if_splits)
next
  case (ReadResume t)
  then show ?case using excl_readlock_resume [of g t] by (simp split: if_splits)
next
  case (WriteLock t)
  then show ?case using excl_writelock [of g t RW_out] by (simp split: if_splits)
next
  case (WriteResume t)
  then show ?case using excl_writelock_resume [of g t] by (simp split: if_splits)
next
  case (ReadUnlock t)
  then show ?case by (auto simp: released_def runs_def split: if_splits dest!: readlock_release_fields intro: excl_read_out)
next
  case (WriteUnlock t)
  then show ?case by (auto simp: released_def runs_def split: if_splits dest!: writelock_release_fields intro: excl_write_out)
next
  case (TryRead t)
  then show ?case
    by (auto simp: tried_def runs_def rw_readlock_try_acquire_def split: if_splits intro: excl_read excl_wait)
next
  case (TryWrite t)
  then show ?case using excl_write [of g t "rkern g"]
    by (auto simp: tried_def runs_def rw_writelock_try_acquire_def split: if_splits intro: excl_wait)
next
  case (Schedule c)
  then show ?case by (auto simp: rw_excl_def inside_def)
qed

interpretation rw: invariant_system "rw_fire dispatch" rw_start rw_excl
proof unfold_locales
  show "rw_excl g" if "rw_start g" for g using that by (simp add: rw_start_def rw_excl_def inside_def)
qed (rule rw_fire_excl)

text \<open>C20: Exclusion of the reader-writer lock: in every reachable state, whatever the interleaving, wake-ups and signals, at most one writer is inside, no reader is inside together
  with a writer, and the two counters are the numbers of readers and writers inside, without overflow.\<close>

theorem rwlock_exclusion:
  assumes "reachable (rw_fire dispatch) rw_start g"
  shows "unat (readers (rwl g)) = card (inside g R_in) \<and> unat (writer (rwl g)) = card (inside g W_in) \<and>
    card (inside g W_in) \<le> 1 \<and> (inside g W_in = {} \<or> inside g R_in = {})"
  using rw.reachable_inv [OF assms] by (auto simp: rw_excl_def)

section \<open>Deadlock of the writers\<close>

text \<open>
  Nobody is inside and a writer waits.  The condition of both acquire functions holds here because the queue of the writers is not empty, so every thread
  that asks for the lock or is woken up goes to sleep, and only a thread that is inside wakes another one.  Signal handlers are assumed to leave the wait queues alone.
\<close>

definition quiet_handlers :: "dispatcher \<Rightarrow> bool" where
  "quiet_handlers dispatch \<longleftrightarrow> (\<forall>act i s. wait_qs (dispatch act i s) = wait_qs s)"

definition rw_stuck :: "rw_sys \<Rightarrow> bool" where
  "rw_stuck g \<longleftrightarrow> inside g R_in = {} \<and> inside g W_in = {} \<and> wait_qs (rkern g) (writersq (rwl g)) \<noteq> []"

lemma wait_qs_set [simp]: "wait_qs (set_thread t f s) = wait_qs s" "wait_qs (set_desc a d s) = wait_qs s"
  by (simp_all add: set_thread_def set_desc_def)

lemma signal_dequeue_wait_qs: "signal_dequeue t s = (err, r, s') \<Longrightarrow> wait_qs s' = wait_qs s"
  by (auto simp: signal_dequeue_def try_dequeue_thread_def try_dequeue_proc_def Let_def split: if_splits prod.splits option.splits)

lemma siginfo_free_wait_qs: "siginfo_free p s = Some s' \<Longrightarrow> wait_qs s' = wait_qs s"
  by (auto simp: siginfo_free_def bind_eq_Some_conv split: if_splits option.splits)

lemma mask_wait_qs [simp]: "wait_qs (snd (signal_mask_block t n act s)) = wait_qs s" "wait_qs (signal_mask_restore t m s) = wait_qs s"
  by (auto simp: signal_mask_block_def signal_mask_restore_def Let_def split: prod.splits)

lemma deliver_wait_qs: "quiet_handlers dispatch \<Longrightarrow> deliver dispatch t p i act target s = Some (Returns s') \<Longrightarrow> wait_qs s' = wait_qs s"
  by (auto simp: deliver_def do_default_action_def do_terminate_def quiet_handlers_def bind_eq_Some_conv dest: siginfo_free_wait_qs split: if_splits)

lemma check_pending_wait_qs:
  assumes d: "quiet_handlers dispatch" and r: "signal_check_pending dispatch t s = Some (Returns (err, s'))"
  shows "wait_qs s' = wait_qs s"
proof (cases "t_nsig_nested (threads s t) > ARCH_NSIG_NESTED")
  case False
  obtain e q s1 where q: "signal_dequeue t s = (e, q, s1)" by (cases "signal_dequeue t s") auto
  note [simp] = signal_dequeue_wait_qs [OF q]
  show ?thesis
  proof (cases q)
    case None
    then have "s' = s1" using r False q by (simp add: signal_check_pending_def)
    then show ?thesis by simp
  next
    case (Some x)
    obtain p act target where x: "x = (p, act, target)" by (cases x)
    obtain i where i: "infos s1 p = Some i" using r False q Some x by (cases "infos s1 p") (auto simp: signal_check_pending_def)
    obtain oset s2 where m: "signal_mask_block t (si_signo i) act s1 = (oset, s2)" by fastforce
    then have "wait_qs s2 = wait_qs s" using mask_wait_qs(1) [of t "si_signo i" act s1] by simp
    let ?s = "set_thread t (\<lambda>r. r\<lparr>t_uc_sigmask := map_option (\<lambda>m. fst (snd (sigmask m SIG_SETMASK (Some oset)))) (t_uc_sigmask r)\<rparr>) s2"
    have eq: "signal_check_pending dispatch t s = Option.bind (deliver dispatch t p i act target ?s) (\<lambda>out. case out of Exits v \<Rightarrow> Some (Exits v)
        | Returns s \<Rightarrow> Option.bind (siginfo_free p (signal_mask_restore t oset s)) (\<lambda>s. Some (Returns (0, s))))"
      using False q Some x i m by (simp add: signal_check_pending_def)
    show ?thesis
    proof (cases "deliver dispatch t p i act target ?s" rule: opt_outcome_cases)
      case (returns s3)
      have "wait_qs s3 = wait_qs s" using deliver_wait_qs [OF d returns] \<open>wait_qs s2 = wait_qs s\<close> by (simp only: wait_qs_set)
      moreover have "siginfo_free p (signal_mask_restore t oset s3) = Some s'"
        using r unfolding eq returns by (auto simp: bind_eq_Some_conv)
      ultimately show ?thesis using siginfo_free_wait_qs mask_wait_qs(2) by simp
    next
      case stuck
      then show ?thesis using r unfolding eq stuck by simp
    next
      case (exits v)
      then show ?thesis using r unfolding eq exits by simp
    qed
  qed
qed (use r in \<open>auto simp: signal_check_pending_def\<close>)

lemma check_interrupted_wait_qs:
  assumes d: "quiet_handlers dispatch" and r: "current_check_interrupted dispatch t s = Some (Returns (err, reason, s'))"
  shows "wait_qs s' = wait_qs s"
proof -
  let ?s = "set_thread t (\<lambda>r. r\<lparr>t_wakeup := WAKEUP_NONE\<rparr>) s"
  show ?thesis using r check_pending_wait_qs [OF d, of t ?s]
    by (cases "signal_check_pending dispatch t ?s" rule: opt_outcome_cases)
      (auto simp: current_check_interrupted_def Let_def split: if_splits)
qed

lemma q_enqueue_nonempty: "q_enqueue ps t w = (err, ps') \<Longrightarrow> ps \<noteq> [] \<Longrightarrow> ps' \<noteq> []"
  by (auto simp: q_enqueue_def split: if_splits)

lemma waiting_wait:
  assumes d: "quiet_handlers dispatch" and w: "wait_qs s q \<noteq> []" and r: "sched_wait_whence dispatch sleepq t p st whence s = Some (Returns (e, s'))"
  shows "wait_qs s' q \<noteq> []"
proof (cases "sched_wait_validate_input (if p = NULL then sleepq else p) t st = 0")
  let ?p = "if p = NULL then sleepq else p"
  case True
  show ?thesis
  proof (cases "current_check_interrupted dispatch t s" rule: opt_outcome_cases)
    case (returns y)
    obtain err reason s1 where y: "y = (err, reason, s1)" by (cases y)
    have s1: "wait_qs s1 = wait_qs s" using check_interrupted_wait_qs [OF d] returns y by blast
    obtain e ps where e: "q_enqueue (wait_qs s1 ?p) t whence = (e, ps)" by fastforce
    have "wait_qs (set_sched t sched_adjust (thread_enter_state t st (set_thread t (\<lambda>r. r\<lparr>t_wait_queue := ?p\<rparr>) (set_wq ?p ps s1)))) q \<noteq> []"
      using s1 w q_enqueue_nonempty [OF e] by (auto simp: set_sched_def thread_enter_state_def set_wq_def)
    then show ?thesis using r True returns y s1 e w by (auto simp: sched_wait_whence_def Let_def split: if_splits)
  qed (use r True in \<open>auto simp: sched_wait_whence_def Let_def\<close>)
qed (use r w in \<open>auto simp: sched_wait_whence_def Let_def\<close>)

lemma waiting_loop:
  assumes "wait_while dispatch sleepq current cond p s = Some (Returns (b, s'))" "quiet_handlers dispatch" "wait_qs s q \<noteq> []"
    and "\<And>s. wait_qs s q \<noteq> [] \<Longrightarrow> cond s"
  shows "\<not> b \<and> wait_qs s' q \<noteq> []"
proof -
  let ?P = "\<lambda>d sl c co p s out. quiet_handlers d \<longrightarrow> wait_qs s q \<noteq> [] \<longrightarrow> (\<forall>s. wait_qs s q \<noteq> [] \<longrightarrow> co s) \<longrightarrow>
    (\<forall>b s'. out = Returns (b, s') \<longrightarrow> \<not> b \<and> wait_qs s' q \<noteq> [])"
  have "?P dispatch sleepq current cond p s (Returns (b, s'))"
    using assms(1)
  proof (rule wait_while.raw_induct [where P = ?P, rotated])
    fix f d sl c co p s out
    assume IH: "\<And>d sl c co p s out. f d sl c co p s = Some out \<Longrightarrow> ?P d sl c co p s out"
      and eq: "(if co s then Option.bind (sched_wait_whence d sl c p T_SLEEP QUEUE_TAIL s) (\<lambda>out. case out of Exits v \<Rightarrow> Some (Exits v)
         | Returns r \<Rightarrow> if fst r = Blocked then Some (Returns (False, snd r)) else f d sl c co p (snd r)) else Some (Returns (True, s))) = Some out"
    show "?P d sl c co p s out"
    proof (intro impI)
      assume d: "quiet_handlers d" and w: "wait_qs s q \<noteq> []" and co: "\<forall>s. wait_qs s q \<noteq> [] \<longrightarrow> co s"
      show "\<forall>b s'. out = Returns (b, s') \<longrightarrow> \<not> b \<and> wait_qs s' q \<noteq> []"
      proof (cases "sched_wait_whence d sl c p T_SLEEP QUEUE_TAIL s" rule: opt_outcome_cases)
        case (returns y)
        obtain e s1 where y: "y = (e, s1)" by (cases y)
        have w1: "wait_qs s1 q \<noteq> []" using waiting_wait [OF d w] returns y by blast
        have cs: "co s" using co w by simp
        show ?thesis
        proof (cases "e = Blocked")
          case True
          then show ?thesis using eq cs w1 returns y by auto
        next
          case False
          then have "f d sl c co p s1 = Some out" using eq cs returns y by simp
          then show ?thesis using IH d w1 co by blast
        qed
      qed (use eq co w in auto)
    qed
  qed
  then show ?thesis using assms(2-4) by blast
qed

lemma stuck_read:
  assumes d: "quiet_handlers dispatch" and w: "wait_qs s (writersq rw) \<noteq> []" and r: "rw_readlock_acquire dispatch sleepq t rw s = Some (Returns (b, rw', s'))"
  shows "\<not> b \<and> rw' = rw \<and> wait_qs s' (writersq rw) \<noteq> []"
proof -
  have c: "read_blocked rw s" if "wait_qs s (writersq rw) \<noteq> []" for s using that by (simp add: read_blocked_def sched_wait_queue_length_def)
  have "\<not> b \<and> wait_qs s' (writersq rw) \<noteq> []" if "wait_while dispatch sleepq t (read_blocked rw) (readersq rw) s = Some (Returns (b, s'))" for b s'
    using that d w c by (rule waiting_loop)
  then show ?thesis using r
    by (cases "wait_while dispatch sleepq t (read_blocked rw) (readersq rw) s" rule: opt_outcome_cases)
      (auto simp: rw_readlock_acquire_def split: if_splits)
qed

lemma stuck_write:
  assumes d: "quiet_handlers dispatch" and w: "wait_qs s (writersq rw) \<noteq> []" and r: "rw_writelock_acquire dispatch sleepq t rw s = Some (Returns (b, rw', s'))"
  shows "\<not> b \<and> rw' = rw \<and> wait_qs s' (writersq rw) \<noteq> []"
proof -
  have c: "write_blocked rw s" if "wait_qs s (writersq rw) \<noteq> []" for s using that by (simp add: write_blocked_def sched_wait_queue_length_def)
  have "\<not> b \<and> wait_qs s' (writersq rw) \<noteq> []" if "wait_while dispatch sleepq t (write_blocked rw) (writersq rw) s = Some (Returns (b, s'))" for b s'
    using that d w c by (rule waiting_loop)
  then show ?thesis using r
    by (cases "wait_while dispatch sleepq t (write_blocked rw) (writersq rw) s" rule: opt_outcome_cases)
      (auto simp: rw_writelock_acquire_def split: if_splits)
qed

lemma resume_wait_qs:
  assumes "quiet_handlers dispatch" "sched_wait_resume dispatch t s = Some (Returns (err, s'))"
  shows "wait_qs s' = wait_qs s"
  using assms check_interrupted_wait_qs [OF assms(1), of t s]
  by (cases "current_check_interrupted dispatch t s" rule: opt_outcome_cases) (auto simp: sched_wait_resume_def)

lemma schedule_wait_qs [simp]: "wait_qs (snd (MLFQ_get_next_thread s c)) = wait_qs s"
proof -
  have "wait_qs (snd (next_loop s c ls)) = wait_qs s" for ls
    by (induction ls) (auto simp: pick_def thread_enter_state_def set_sched_def set_rq_def split: list.splits)
  then show ?thesis by (simp add: MLFQ_get_next_thread_def)
qed

lemma stuck_moved: "rw_stuck g \<Longrightarrow> wait_qs s (writersq (rwl g)) \<noteq> [] \<Longrightarrow> pc \<noteq> R_in \<Longrightarrow> pc \<noteq> W_in \<Longrightarrow> rw_stuck (moved g t pc (rwl g) s)"
  by (simp add: rw_stuck_def inside_moved)

lemma stuck_acquired:
  assumes d: "quiet_handlers dispatch" and g: "rw_stuck g" and w: "wait_qs s (writersq (rwl g)) \<noteq> []"
  shows "acquired g t R_in R_wait (rw_readlock_acquire dispatch sleepq t (rwl g) s) = Some g' \<Longrightarrow> rw_stuck g'"
    and "acquired g t W_in W_wait (rw_writelock_acquire dispatch sleepq t (rwl g) s) = Some g' \<Longrightarrow> rw_stuck g'"
  unfolding acquired_Some
  by (elim exE conjE, drule stuck_read [OF d w], simp add: stuck_moved [OF g])
    (elim exE conjE, drule stuck_write [OF d w], simp add: stuck_moved [OF g])

lemma stuck_resumed:
  assumes d: "quiet_handlers dispatch" and g: "rw_stuck g"
  shows "acquired g t R_in R_wait (rw_readlock_resume dispatch sleepq t (rwl g) (rkern g)) = Some g' \<Longrightarrow> rw_stuck g'"
    and "acquired g t W_in W_wait (rw_writelock_resume dispatch sleepq t (rwl g) (rkern g)) = Some g' \<Longrightarrow> rw_stuck g'"
proof -
  have w: "wait_qs s (writersq (rwl g)) \<noteq> []" if "sched_wait_resume dispatch t (rkern g) = Some (Returns (err, s))" for err s
    using resume_wait_qs [OF d that] g by (simp add: rw_stuck_def)
  show "acquired g t R_in R_wait (rw_readlock_resume dispatch sleepq t (rwl g) (rkern g)) = Some g' \<Longrightarrow> rw_stuck g'"
    using w stuck_acquired(1) [OF d g]
    by (cases "sched_wait_resume dispatch t (rkern g)" rule: opt_outcome_cases) (auto simp: rw_readlock_resume_def acquired_def)
  show "acquired g t W_in W_wait (rw_writelock_resume dispatch sleepq t (rwl g) (rkern g)) = Some g' \<Longrightarrow> rw_stuck g'"
    using w stuck_acquired(2) [OF d g]
    by (cases "sched_wait_resume dispatch t (rkern g)" rule: opt_outcome_cases) (auto simp: rw_writelock_resume_def acquired_def)
qed

lemma rw_fire_stuck:
  assumes d: "quiet_handlers dispatch" and g: "rw_stuck g"
  shows "rw_fire dispatch e g = Some g' \<Longrightarrow> rw_stuck g'"
proof -
  have w: "wait_qs (rkern g) (writersq (rwl g)) \<noteq> []" using g by (simp add: rw_stuck_def)
  have out: "\<not> runs g t R_in" "\<not> runs g t W_in" for t using g by (auto simp: rw_stuck_def inside_def runs_def)
  have len: "sched_wait_queue_length (writersq (rwl g)) (rkern g) \<noteq> 0" using w by (simp add: sched_wait_queue_length_def)
  show "rw_fire dispatch e g = Some g' \<Longrightarrow> rw_stuck g'"
  proof (induction e)
    case (Schedule c)
    then show ?case using g by (auto simp: rw_stuck_def inside_def)
  qed (auto simp: out tried_def rw_readlock_try_acquire_def rw_writelock_try_acquire_def len split: if_splits
      intro: stuck_acquired [OF d g w] stuck_resumed [OF d g] stuck_moved [OF g w])
qed

interpretation stuck: invariant_system "rw_fire (\<lambda>a i s. s)" rw_stuck rw_stuck
  by unfold_locales (auto intro: rw_fire_stuck simp: quiet_handlers_def)

definition rw_sample :: rw_sys where
  "rw_sample = \<lparr>rwl = \<lparr>writer = 0, readers = 0, writersq = 64, readersq = 72\<rparr>, rkern = quiet, rpc = (\<lambda>t. RW_out)\<rparr>"

lemma rw_sample_start: "reachable (rw_fire dispatch) rw_start rw_sample"
  by (rule reachable.start) (simp add: rw_start_def rw_sample_def)

text \<open>The reader-writer lock can lock itself up.  A state is reachable, by one reader and two writers alone, in which nobody holds the lock, and from it no run of the operations of the lock
  ever lets a thread in again: the writer that the last reader wakes up sees the other writer in the queue and goes back to sleep behind it.\<close>

theorem rwlock_writers_deadlock:
  "\<exists>g. reachable (rw_fire (\<lambda>a i s. s)) rw_start g \<and> rpc g 16 = W_wait \<and> rpc g 24 = W_wait \<and>
    (\<nexists>es g'. run (rw_fire (\<lambda>a i s. s)) es g = Some g' \<and> inside g' R_in \<union> inside g' W_in \<noteq> {})"
proof -
  let ?es = "[ReadLock 8, WriteLock 16, WriteLock 24, ReadUnlock 8, Schedule 3, WriteResume 16]"
  let ?f = "rw_fire (\<lambda>a i s. s)"
  have "map_option (\<lambda>g. (readers (rwl g), writer (rwl g), rpc g 16, rpc g 24, wait_qs (rkern g) (writersq (rwl g)))) (run ?f ?es rw_sample) =
      Some (0, 0, W_wait, W_wait, [24, 16])"
    by code_simp
  then obtain g where g: "run ?f ?es rw_sample = Some g" "readers (rwl g) = 0" "writer (rwl g) = 0" "rpc g 16 = W_wait" "rpc g 24 = W_wait"
    "wait_qs (rkern g) (writersq (rwl g)) = [24, 16]"
    by auto
  have r: "reachable ?f rw_start g" using g(1) rw_sample_start by (rule reachable_run)
  then have "rw_stuck g" using rw.reachable_inv [OF r] g by (simp add: rw_stuck_def rw_excl_def)
  then have "rw_stuck g'" if "run ?f es g = Some g'" for es g' using stuck.run_inv that by blast
  then show ?thesis using r g(4,5) by (auto simp: rw_stuck_def)
qed

section \<open>Cancelled threads\<close>

text \<open>A cancelled thread that asks for a held reader-writer lock never returns: the wait is refused each time and the loop goes round with the guard held, so every other
  user of the lock spins too.\<close>

theorem rwlock_cancelled_spins:
  assumes t: "t \<noteq> NULL" "thread_is_canceled s t" "t_wakeup (threads s t) = WAKEUP_NONE" and q: "readersq rw \<noteq> NULL" "writersq rw \<noteq> NULL" and w: "writer rw \<noteq> 0"
  shows "rw_readlock_acquire dispatch sleepq t rw s = None \<and> rw_writelock_acquire dispatch sleepq t rw s = None"
proof -
  have "wait_while dispatch sleepq t cond p s = None" if "cond s" "p \<noteq> NULL" for cond p
  proof (rule ccontr)
    assume "wait_while dispatch sleepq t cond p s \<noteq> None"
    then obtain out where out: "wait_while dispatch sleepq t cond p s = Some out" by auto
    let ?P = "\<lambda>d sl c co q s' out. \<not> (d = dispatch \<and> sl = sleepq \<and> c = t \<and> co = cond \<and> q = p \<and> s' = s)"
    have "?P dispatch sleepq t cond p s out" using out
    proof (rule wait_while.raw_induct [where P = ?P, rotated])
      fix f d sl c co q s' out
      assume IH: "\<And>d sl c co q s' out. f d sl c co q s' = Some out \<Longrightarrow> ?P d sl c co q s' out"
        and eq: "(if co s' then Option.bind (sched_wait_whence d sl c q T_SLEEP QUEUE_TAIL s') (\<lambda>out. case out of Exits v \<Rightarrow> Some (Exits v)
           | Returns r \<Rightarrow> if fst r = Blocked then Some (Returns (False, snd r)) else f d sl c co q (snd r)) else Some (Returns (True, s'))) = Some out"
      show "?P d sl c co q s' out"
        using eq IH [of d sl c co q s' out] that canceled_refused [of t p T_SLEEP s dispatch sleepq QUEUE_TAIL] t by auto
    qed
    then show False by simp
  qed
  then show ?thesis using q w by (simp add: rw_readlock_acquire_def rw_writelock_acquire_def read_blocked_def write_blocked_def)
qed

section \<open>Witnesses\<close>

definition rw_written :: rw_sys where
  "rw_written = moved rw_sample 8 W_in ((rwl rw_sample)\<lparr>writer := 1\<rparr>) quiet"

lemma rw_written_reachable: "reachable (rw_fire (\<lambda>a i s. s)) rw_start rw_written"
proof (rule reachable.step [OF rw_sample_start])
  show "rw_fire (\<lambda>a i s. s) (TryWrite 8) rw_sample = Some rw_written"
    by (simp add: runs_def tried_def rw_writelock_try_acquire_def rw_written_def rw_sample_def sched_wait_queue_length_def)
      (simp add: quiet_def sig_thread_def)
qed

theorem rwlock_exclusion_witness: "inside rw_written R_in = {} \<and> unat (writer (rwl rw_written)) = card (inside rw_written W_in)"
proof -
  have "8 \<in> inside rw_written W_in" by (simp add: inside_def rw_written_def)
  then show ?thesis using rwlock_exclusion [OF rw_written_reachable] by blast
qed

definition rw_cancelled :: kstate where
  "rw_cancelled = thread_set_flags 8 OsThreadCanceled quiet"

theorem rwlock_cancelled_spins_witness:
  "rw_readlock_acquire (\<lambda>a i s. s) 32 8 \<lparr>writer = 1, readers = 0, writersq = 64, readersq = 72\<rparr> rw_cancelled = None"
proof -
  have "thread_is_canceled rw_cancelled 8" "t_wakeup (threads rw_cancelled 8) = WAKEUP_NONE" by code_simp+
  then show ?thesis using rwlock_cancelled_spins [of 8 rw_cancelled "\<lparr>writer = 1, readers = 0, writersq = 64, readersq = 72\<rparr>" "\<lambda>a i s. s" 32] by simp
qed

end
