(* ===== verification/Event.thy ===== *)
theory Event
  imports Transition Wait_Proofs
begin

text \<open>
  Events a thread waits for: \<^verbatim>\<open>sync/event.c\<close>.  \<^verbatim>\<open>await_event\<close> gives up \<^verbatim>\<open>ev_lock\<close> before it calls \<^verbatim>\<open>sched_wait\<close>, so it is cut there as well as where its thread blocks:
  first the look at the event, then the wait, then the rest when the thread has been woken up.  The counter is a signed 64-bit word.
\<close>

section \<open>The functions\<close>

record await_event_t =
  ev_count :: u64
  ev_triggered :: bool
  ev_broadcast :: bool
  ev_waitqueue :: addr

definition await_event_init :: "addr \<Rightarrow> addr \<Rightarrow> kstate \<Rightarrow> int \<times> (await_event_t \<times> kstate) option" where
  "await_event_init a q s =
    (if a = NULL then (- EINVAL, None) else (0, Some (\<lparr>ev_count = 0, ev_triggered = False, ev_broadcast = False, ev_waitqueue = q\<rparr>, set_wq q [] s)))"

definition await_event_destroy :: "nat \<Rightarrow> await_event_t \<Rightarrow> kstate \<Rightarrow> (await_event_t \<times> kstate) option" where
  "await_event_destroy cpuid ev s = do {
     let ev = ev\<lparr>ev_count := 0, ev_broadcast := False, ev_triggered := False\<rparr>;
     (err, n, s) \<leftarrow> sched_wakeup_all cpuid (ev_waitqueue ev) WAKEUP_ERROR s;
     Some (ev, s) }"

definition take_one :: "await_event_t \<Rightarrow> await_event_t" where
  "take_one ev = (let ev = ev\<lparr>ev_count := ev_count ev - 1\<rparr> in if ev_count ev = 0 then ev\<lparr>ev_triggered := False\<rparr> else ev)"

definition take_available :: "await_event_t \<Rightarrow> await_event_t" where
  "take_available ev = (if 0 <s ev_count ev then take_one ev else ev)"

definition try_await_event :: "await_event_t \<Rightarrow> int \<times> await_event_t" where
  "try_await_event ev = (if ev_triggered ev then (1, take_available ev) else (0, ev))"

text \<open>
  The condition of the loop, with the deadline if there is one: \<^verbatim>\<open>time_after_eq\<close> subtracts signed numbers.  Neither form of the wait is given the deadline: a timed wait looks at the clock
  only when something else wakes its thread up.
\<close>

definition time_after_eq :: "u64 \<Rightarrow> u64 \<Rightarrow> bool" where
  "time_after_eq unknown known \<longleftrightarrow> sint unknown - sint known \<ge> 0"

datatype await_step = Await_wait | Await_return int

text \<open>The loop condition and, when it does not hold, the rest of the function.  \<open>waiters\<close> is the length of the wait queue.\<close>

definition await_finish :: "nat \<Rightarrow> await_event_t \<Rightarrow> await_event_t" where
  "await_finish waiters ev =
    (if ev_broadcast ev
     then if waiters = 0 then (take_one ev)\<lparr>ev_broadcast := False\<rparr> else ev
     else take_one ev)"

definition await_loop :: "u64 option \<Rightarrow> u64 \<Rightarrow> nat \<Rightarrow> await_event_t \<Rightarrow> await_step \<times> await_event_t" where
  "await_loop deadline jiffies waiters ev =
    (if ev_triggered ev then (Await_return 0, await_finish waiters ev)
     else case deadline of
       None \<Rightarrow> (Await_wait, ev)
     | Some d \<Rightarrow> if time_after_eq jiffies d then (Await_return (- ETIMEDOUT), ev) else (Await_wait, ev))"

definition await_enter :: "u64 option \<Rightarrow> u64 \<Rightarrow> nat \<Rightarrow> await_event_t \<Rightarrow> await_step \<times> await_event_t" where
  "await_enter deadline jiffies waiters ev =
    (if ev_triggered ev then (Await_return 0, take_available ev) else await_loop deadline jiffies waiters ev)"

text \<open>After the wait: an error ends the function, otherwise the loop goes on.\<close>

definition await_after :: "u64 option \<Rightarrow> u64 \<Rightarrow> nat \<Rightarrow> int \<Rightarrow> await_event_t \<Rightarrow> await_step \<times> await_event_t" where
  "await_after deadline jiffies waiters err ev = (if err \<noteq> 0 then (Await_return err, ev) else await_loop deadline jiffies waiters ev)"

definition await_event_signal :: "nat \<Rightarrow> await_event_t \<Rightarrow> kstate \<Rightarrow> (await_event_t \<times> kstate) option" where
  "await_event_signal cpuid ev s = do {
     let ev = ev\<lparr>ev_count := ev_count ev + 1, ev_triggered := True, ev_broadcast := False\<rparr>;
     (err, s) \<leftarrow> sched_wakeup cpuid (ev_waitqueue ev) WAKEUP_NORMAL s;
     Some (ev, s) }"

definition await_event_broadcast :: "nat \<Rightarrow> await_event_t \<Rightarrow> kstate \<Rightarrow> (await_event_t \<times> kstate) option" where
  "await_event_broadcast cpuid ev s = do {
     let ev = ev\<lparr>ev_count := ev_count ev + 1, ev_triggered := True\<rparr>;
     (err, waiters, s) \<leftarrow> sched_wakeup_all cpuid (ev_waitqueue ev) WAKEUP_NORMAL s;
     Some (if waiters > 0 then ev\<lparr>ev_broadcast := True\<rparr> else ev, s) }"

section \<open>Threads that use one event\<close>

text \<open>\<open>E_gap\<close> is the point between the release of \<^verbatim>\<open>ev_lock\<close> and the wait; \<open>posts\<close> counts the signals and broadcasts sent.\<close>

datatype ev_pc = E_out | E_gap | E_wait

record ev_sys =
  evt :: await_event_t
  ekern :: kstate
  epc :: "addr \<Rightarrow> ev_pc"
  posts :: nat

datatype ev_event = Await addr | AwaitSleep addr | AwaitResume addr | TryAwait addr | Signal addr | Broadcast addr | Schedule nat

definition at :: "ev_sys \<Rightarrow> addr \<Rightarrow> ev_pc \<Rightarrow> bool" where
  "at g t pc \<longleftrightarrow> t \<noteq> NULL \<and> ti_state (threads (ekern g) t) = T_RUNNING \<and> epc g t = pc"

definition goes_on :: "ev_sys \<Rightarrow> addr \<Rightarrow> kstate \<Rightarrow> await_step \<times> await_event_t \<Rightarrow> ev_sys" where
  "goes_on g t s r = g\<lparr>evt := snd r, ekern := s, epc := (epc g)(t := case fst r of Await_wait \<Rightarrow> E_gap | Await_return err \<Rightarrow> E_out)\<rparr>"

definition posted :: "ev_sys \<Rightarrow> (await_event_t \<times> kstate) option \<Rightarrow> ev_sys option" where
  "posted g r = map_option (\<lambda>(ev, s). g\<lparr>evt := ev, ekern := s, posts := posts g + 1\<rparr>) r"

definition waiters :: "ev_sys \<Rightarrow> kstate \<Rightarrow> nat" where
  "waiters g s = sched_wait_queue_length (ev_waitqueue (evt g)) s"

fun ev_fire :: "dispatcher \<Rightarrow> ev_event \<Rightarrow> ev_sys \<Rightarrow> ev_sys option" where
  "ev_fire dispatch (Await t) g =
    (if at g t E_out then Some (goes_on g t (ekern g) (await_enter None 0 (waiters g (ekern g)) (evt g))) else None)"
| "ev_fire dispatch (AwaitSleep t) g =
    (if at g t E_gap
     then case sched_wait_whence dispatch NULL t (ev_waitqueue (evt g)) T_SLEEP QUEUE_TAIL (ekern g) of
       Some (Returns (Blocked, s)) \<Rightarrow> Some (g\<lparr>ekern := s, epc := (epc g)(t := E_wait)\<rparr>)
     | Some (Returns (Refused err, s)) \<Rightarrow> Some (goes_on g t s (await_after None 0 (waiters g s) err (evt g)))
     | _ \<Rightarrow> None
     else None)"
| "ev_fire dispatch (AwaitResume t) g =
    (if at g t E_wait
     then case sched_wait_resume dispatch t (ekern g) of
       Some (Returns (err, s)) \<Rightarrow> Some (goes_on g t s (await_after None 0 (waiters g s) err (evt g)))
     | _ \<Rightarrow> None
     else None)"
| "ev_fire dispatch (TryAwait t) g = (if at g t E_out then Some (g\<lparr>evt := snd (try_await_event (evt g))\<rparr>) else None)"
| "ev_fire dispatch (Signal t) g = (if at g t E_out then posted g (await_event_signal 0 (evt g) (ekern g)) else None)"
| "ev_fire dispatch (Broadcast t) g = (if at g t E_out then posted g (await_event_broadcast 0 (evt g) (ekern g)) else None)"
| "ev_fire dispatch (Schedule c) g = Some (g\<lparr>ekern := snd (MLFQ_get_next_thread (ekern g) c)\<rparr>)"

definition ev_start :: "ev_sys \<Rightarrow> bool" where
  "ev_start g \<longleftrightarrow> ev_count (evt g) = 0 \<and> \<not> ev_triggered (evt g) \<and> \<not> ev_broadcast (evt g) \<and> posts g = 0 \<and> (\<forall>t. epc g t = E_out)"

section \<open>The counter\<close>

text \<open>The counter is not negative and the flag says whether an event is available, as long as fewer than \<^term>\<open>2 ^ 63 :: nat\<close> events have been sent.\<close>

definition ev_ok :: "ev_sys \<Rightarrow> bool" where
  "ev_ok g \<longleftrightarrow> posts g < 2 ^ 63 \<longrightarrow> unat (ev_count (evt g)) \<le> posts g \<and> (ev_triggered (evt g) \<longleftrightarrow> ev_count (evt g) \<noteq> 0)"

definition flag_ok :: "await_event_t \<Rightarrow> nat \<Rightarrow> bool" where
  "flag_ok ev n \<longleftrightarrow> unat (ev_count ev) \<le> n \<and> (ev_triggered ev \<longleftrightarrow> ev_count ev \<noteq> 0)"

lemma ev_ok_flag: "ev_ok g \<longleftrightarrow> posts g < 2 ^ 63 \<longrightarrow> flag_ok (evt g) (posts g)"
  by (simp add: ev_ok_def flag_ok_def)

lemma take_one_ok: "flag_ok ev n \<Longrightarrow> ev_triggered ev \<Longrightarrow> flag_ok (take_one ev) n"
  by (auto simp: flag_ok_def take_one_def Let_def unat_minus_one)

lemma flag_ok_broadcast [simp]: "flag_ok (ev\<lparr>ev_broadcast := b\<rparr>) n = flag_ok ev n"
  by (simp add: flag_ok_def)

lemma take_available_ok: "flag_ok ev n \<Longrightarrow> ev_triggered ev \<Longrightarrow> flag_ok (take_available ev) n"
  by (simp add: take_available_def take_one_ok)

lemma await_steps_ok:
  assumes "flag_ok ev n"
  shows "flag_ok (snd (await_loop deadline jiffies w ev)) n" "flag_ok (snd (await_enter deadline jiffies w ev)) n"
    "flag_ok (snd (await_after deadline jiffies w err ev)) n" "flag_ok (snd (try_await_event ev)) n"
  using assms
  by (auto simp: await_loop_def await_enter_def await_after_def await_finish_def try_await_event_def take_one_ok take_available_ok split: option.splits)

lemma post_ok:
  assumes "flag_ok ev n" "Suc n < 2 ^ 63"
  shows "flag_ok (ev\<lparr>ev_count := ev_count ev + 1, ev_triggered := True\<rparr>) (Suc n)"
proof -
  have "unat (ev_count ev) + 1 < 2 ^ 64" using assms by (auto simp: flag_ok_def)
  then have "unat (ev_count ev + 1) = unat (ev_count ev) + 1" by (simp add: unat_word_ariths)
  then show ?thesis using assms by (auto simp: flag_ok_def simp flip: unat_eq_0)
qed

lemma goes_on_fields [simp]: "evt (goes_on g t s r) = snd r" "posts (goes_on g t s r) = posts g"
  by (simp_all add: goes_on_def)

lemma posted_ok:
  assumes g: "ev_ok g" and r: "posted g r = Some g'" and ev: "\<And>ev s. r = Some (ev, s) \<Longrightarrow> Suc (posts g) < 2 ^ 63 \<Longrightarrow> flag_ok (evt g) (posts g) \<Longrightarrow> flag_ok ev (Suc (posts g))"
  shows "ev_ok g'"
  using g r ev by (auto simp: posted_def ev_ok_flag)

lemma ev_fire_ok: "ev_ok g \<Longrightarrow> ev_fire dispatch e g = Some g' \<Longrightarrow> ev_ok g'"
proof (induction e)
  case (Await t)
  then show ?case by (auto simp: ev_ok_flag await_steps_ok split: if_splits)
next
  case (AwaitSleep t)
  then show ?case
    by (cases "sched_wait_whence dispatch NULL t (ev_waitqueue (evt g)) T_SLEEP QUEUE_TAIL (ekern g)" rule: opt_outcome_cases)
      (auto simp: ev_ok_flag await_steps_ok split: if_splits wait_entry.splits)
next
  case (AwaitResume t)
  then show ?case
    by (cases "sched_wait_resume dispatch t (ekern g)" rule: opt_outcome_cases) (auto simp: ev_ok_flag await_steps_ok split: if_splits)
next
  case (TryAwait t)
  then show ?case by (auto simp: ev_ok_flag await_steps_ok split: if_splits)
next
  case (Signal t)
  have "flag_ok ev (Suc (posts g))"
    if "await_event_signal 0 (evt g) (ekern g) = Some (ev, s)" "Suc (posts g) < 2 ^ 63" "flag_ok (evt g) (posts g)" for ev s
    using that post_ok [OF that(3,2)] flag_ok_broadcast [where ev = "(evt g)\<lparr>ev_count := ev_count (evt g) + 1, ev_triggered := True\<rparr>" and b = False]
    by (auto simp: await_event_signal_def Let_def bind_eq_Some_conv)
  then show ?case using Signal posted_ok [of g "await_event_signal 0 (evt g) (ekern g)" g'] by (simp split: if_splits)
next
  case (Broadcast t)
  have "flag_ok ev (Suc (posts g))"
    if "await_event_broadcast 0 (evt g) (ekern g) = Some (ev, s)" "Suc (posts g) < 2 ^ 63" "flag_ok (evt g) (posts g)" for ev s
    using that post_ok [OF that(3,2)] by (auto simp: await_event_broadcast_def Let_def bind_eq_Some_conv split: if_splits)
  then show ?case using Broadcast posted_ok [of g "await_event_broadcast 0 (evt g) (ekern g)" g'] by (simp split: if_splits)
next
  case (Schedule c)
  then show ?case by (auto simp: ev_ok_def)
qed

interpretation ev: invariant_system "ev_fire dispatch" ev_start ev_ok
proof unfold_locales
  show "ev_ok g" if "ev_start g" for g using that by (simp add: ev_start_def ev_ok_def)
qed (rule ev_fire_ok)

text \<open>C21: The event counter under every interleaving of waiters, polls, signals and broadcasts: as long as fewer than \<^term>\<open>2 ^ 63 :: nat\<close> events have been sent the counter is between zero and the number of events
  sent, so it never becomes negative, and \<^verbatim>\<open>ev_triggered\<close> is set exactly when the counter is not zero.\<close>

theorem event_counter_bounds:
  assumes "reachable (ev_fire dispatch) ev_start g" "posts g < 2 ^ 63"
  shows "0 \<le> sint (ev_count (evt g)) \<and> sint (ev_count (evt g)) \<le> int (posts g) \<and> (ev_triggered (evt g) \<longleftrightarrow> ev_count (evt g) \<noteq> 0)"
proof -
  have f: "unat (ev_count (evt g)) \<le> posts g" "ev_triggered (evt g) \<longleftrightarrow> ev_count (evt g) \<noteq> 0"
    using ev.reachable_inv [OF assms(1)] assms(2) by (auto simp: ev_ok_def)
  have "sint (ev_count (evt g)) = int (unat (ev_count (evt g)))" using f(1) assms(2) by (intro sint_small) simp
  then show ?thesis using f by (simp only: of_nat_le_iff of_nat_0_le_iff)
qed

section \<open>Lost and shared wake-ups\<close>

definition ev_sample :: ev_sys where
  "ev_sample = \<lparr>evt = \<lparr>ev_count = 0, ev_triggered = False, ev_broadcast = False, ev_waitqueue = 64\<rparr>, ekern = quiet, epc = (\<lambda>t. E_out), posts = 0\<rparr>"

lemma ev_sample_start: "reachable (ev_fire dispatch) ev_start ev_sample"
  by (rule reachable.start) (simp add: ev_start_def ev_sample_def)

text \<open>A wake-up can be lost.  A state is reachable in which an event has been sent and is available, and yet the thread that asked for it sleeps in the wait queue: the signal came between
  the release of \<^verbatim>\<open>ev_lock\<close> and the entry into the queue.\<close>

theorem event_lost_wakeup:
  "\<exists>g. reachable (ev_fire (\<lambda>a i s. s)) ev_start g \<and> ev_triggered (evt g) \<and> ev_count (evt g) = 1 \<and> epc g 8 = E_wait \<and>
    ti_state (threads (ekern g) 8) = T_SLEEP \<and> wait_qs (ekern g) (ev_waitqueue (evt g)) = [8]"
proof -
  let ?f = "ev_fire (\<lambda>a i s. s)" and ?es = "[Await 8, Signal 16, AwaitSleep 8]"
  have "map_option (\<lambda>g. (ev_triggered (evt g), ev_count (evt g), epc g 8, ti_state (threads (ekern g) 8), wait_qs (ekern g) (ev_waitqueue (evt g))))
      (run ?f ?es ev_sample) = Some (True, 1, E_wait, T_SLEEP, [8])"
    by code_simp
  then obtain g where g: "run ?f ?es ev_sample = Some g" "ev_triggered (evt g)" "ev_count (evt g) = 1" "epc g 8 = E_wait" "ti_state (threads (ekern g) 8) = T_SLEEP"
    "wait_qs (ekern g) (ev_waitqueue (evt g)) = [8]" by auto
  have "reachable ?f ev_start g" using g(1) ev_sample_start by (rule reachable_run)
  then show ?thesis using g by blast
qed

text \<open>A broadcast releases one waiter only.  Two threads sleep, a broadcast wakes both; the first to run takes the event and clears the flag, and the second goes back to sleep.\<close>

theorem event_broadcast_releases_one:
  "\<exists>es g g'. reachable (ev_fire (\<lambda>a i s. s)) ev_start g \<and> wait_qs (ekern g) (ev_waitqueue (evt g)) = [8, 16] \<and>
    run (ev_fire (\<lambda>a i s. s)) (Broadcast 24 # es) g = Some g' \<and> epc g' 8 = E_out \<and>
    epc g' 16 = E_wait \<and> wait_qs (ekern g') (ev_waitqueue (evt g')) = [16] \<and> \<not> ev_triggered (evt g')"
proof -
  let ?f = "ev_fire (\<lambda>a i s. s)" and ?es = "[Await 8, AwaitSleep 8, Await 16, AwaitSleep 16]"
    and ?ds = "[Schedule 3, AwaitResume 8, Schedule 2, AwaitResume 16, AwaitSleep 16]"
  have "map_option (\<lambda>g. wait_qs (ekern g) (ev_waitqueue (evt g))) (run ?f ?es ev_sample) = Some [8, 16]" by code_simp
  then obtain g where g: "run ?f ?es ev_sample = Some g" "wait_qs (ekern g) (ev_waitqueue (evt g)) = [8, 16]" by auto
  have "map_option (\<lambda>g. (epc g 8, epc g 16, wait_qs (ekern g) (ev_waitqueue (evt g)), ev_triggered (evt g))) (run ?f (?es @ Broadcast 24 # ?ds) ev_sample) =
      Some (E_out, E_wait, [16], False)"
    by code_simp
  then obtain g' where g': "run ?f (?es @ Broadcast 24 # ?ds) ev_sample = Some g'" "epc g' 8 = E_out" "epc g' 16 = E_wait"
    "wait_qs (ekern g') (ev_waitqueue (evt g')) = [16]" "\<not> ev_triggered (evt g')" by auto
  have "run ?f (Broadcast 24 # ?ds) g = Some g'" using g'(1) unfolding run_append g(1) by (simp only: Option.bind.simps)
  moreover have "reachable ?f ev_start g" using g(1) ev_sample_start by (rule reachable_run)
  ultimately show ?thesis using g(2) g'(2-5) by blast
qed

section \<open>Witness\<close>

theorem event_counter_bounds_witness: "0 \<le> sint (ev_count (evt ev_sample)) \<and> \<not> ev_triggered (evt ev_sample)"
proof -
  have "posts ev_sample < 2 ^ 63" by (simp add: ev_sample_def)
  then have "0 \<le> sint (ev_count (evt ev_sample)) \<and> (ev_triggered (evt ev_sample) \<longleftrightarrow> ev_count (evt ev_sample) \<noteq> 0)"
    using event_counter_bounds [OF ev_sample_start [of "\<lambda>a i s. s"]] by blast
  then show ?thesis by (simp add: ev_sample_def)
qed

end
