(* ===== verification/Sigsuspend.thy ===== *)
theory Sigsuspend
  imports Wait_Proofs
begin

text \<open>
  \<^verbatim>\<open>sigsuspend\<close> (\<^verbatim>\<open>sys/signal/sigsuspend.c\<close>), \<^verbatim>\<open>pthread_sigmask\<close>, and the invariant that all functions that write signal masks keep: \<^verbatim>\<open>SIGKILL\<close> and \<^verbatim>\<open>SIGSTOP\<close> are in no mask.
\<close>

section \<open>Waiting with another mask\<close>

definition pthread_sigmask :: "addr \<Rightarrow> int \<Rightarrow> sigset option \<Rightarrow> kstate \<Rightarrow> int \<times> sigset \<times> kstate" where
  "pthread_sigmask current how m s = (if current = NULL then (- EINVAL, 0, s) else thread_sigmask current how m s)"

definition signal_dispatch :: "dispatcher \<Rightarrow> addr \<Rightarrow> kstate \<Rightarrow> (int \<times> kstate) outcome option" where
  "signal_dispatch dispatch current s = signal_check_pending dispatch current s"

text \<open>
  One test of the loop and the wait that follows it when there was no signal; \<open>q\<close> is the queue of the waiters.  \<open>Refused err\<close> is the return of \<open>err\<close>, with the old mask \<open>oset\<close> restored.  A wait that does not
  block is refused with an error, and leaves the loop.
\<close>

definition sigsuspend_check :: "dispatcher \<Rightarrow> addr \<Rightarrow> addr \<Rightarrow> sigset \<Rightarrow> kstate \<Rightarrow> (wait_entry \<times> kstate) outcome option" where
  "sigsuspend_check dispatch current q oset s = do {
     out \<leftarrow> signal_dispatch dispatch current s;
     case out of
       Exits v \<Rightarrow> Some (Exits v)
     | Returns (err, s) \<Rightarrow>
         if err = 0 then Some (Returns (Refused 0, signal_mask_restore current oset s))
         else do {
           out \<leftarrow> sched_wait_whence dispatch NULL current q T_SLEEP QUEUE_TAIL s;
           Some (case out of
               Exits v \<Rightarrow> Exits v
             | Returns (Blocked, s) \<Rightarrow> Returns (Blocked, s)
             | Returns (Refused err, s) \<Rightarrow> Returns (Refused err, signal_mask_restore current oset s)) } }"

text \<open>The second result is the mask to restore, which the part after the wait gets.\<close>

definition sigsuspend :: "dispatcher \<Rightarrow> addr \<Rightarrow> addr \<Rightarrow> sigset option \<Rightarrow> kstate \<Rightarrow> (sigset \<times> (wait_entry \<times> kstate) outcome) option" where
  "sigsuspend dispatch current q m s =
    (if m = None \<or> current = NULL then Some (sigsetempty, Returns (Refused (- EINVAL), s))
     else case sigmask (t_sigmask (threads s current)) SIG_SETMASK m of
       (err, new, oset) \<Rightarrow>
         let s = set_thread current (\<lambda>r. r\<lparr>t_sigmask := new\<rparr>) s in
         if err \<noteq> 0 then Some (oset, Returns (Refused err, s))
         else do { out \<leftarrow> sigsuspend_check dispatch current q oset s; Some (oset, out) })"

definition sigsuspend_resume :: "dispatcher \<Rightarrow> addr \<Rightarrow> addr \<Rightarrow> sigset \<Rightarrow> kstate \<Rightarrow> (wait_entry \<times> kstate) outcome option" where
  "sigsuspend_resume dispatch current q oset s = do {
     out \<leftarrow> sched_wait_resume dispatch current s;
     case out of
       Exits v \<Rightarrow> Some (Exits v)
     | Returns (err, s) \<Rightarrow>
         if err \<noteq> 0 then Some (Returns (Refused err, signal_mask_restore current oset s)) else sigsuspend_check dispatch current q oset s }"

section \<open>The masks of a state\<close>

text \<open>The masks of threads and of their saved contexts, of processes and of the actions of processes.\<close>

definition masks_ok :: "kstate \<Rightarrow> bool" where
  "masks_ok s \<longleftrightarrow> (\<forall>t. maskable (t_sigmask (threads s t)) \<and> pred_option maskable (t_uc_sigmask (threads s t))) \<and>
     (\<forall>a. maskable (sig_mask (descs s a)) \<and> (\<forall>n. maskable (sa_mask (sig_action (descs s a) n))))"

definition same_masks :: "kstate \<Rightarrow> kstate \<Rightarrow> bool" where
  "same_masks s s' \<longleftrightarrow> (\<forall>t. t_sigmask (threads s' t) = t_sigmask (threads s t) \<and> t_uc_sigmask (threads s' t) = t_uc_sigmask (threads s t)) \<and>
     (\<forall>a. sig_mask (descs s' a) = sig_mask (descs s a) \<and> sig_action (descs s' a) = sig_action (descs s a))"

lemma same_masks_ok: "same_masks s s' \<Longrightarrow> masks_ok s \<Longrightarrow> masks_ok s'"
  by (simp add: same_masks_def masks_ok_def)

lemma same_masks_refl [simp]: "same_masks s s"
  by (simp add: same_masks_def)

lemma same_masks_trans: "same_masks s s1 \<Longrightarrow> same_masks s1 s2 \<Longrightarrow> same_masks s s2"
  by (simp add: same_masks_def)

lemma masks_ok_thread:
  "masks_ok s \<Longrightarrow> maskable (t_sigmask (f (threads s t))) \<Longrightarrow> pred_option maskable (t_uc_sigmask (f (threads s t))) \<Longrightarrow> masks_ok (set_thread t f s)"
  by (simp add: masks_ok_def set_thread_def)

lemma masks_okD: "masks_ok s \<Longrightarrow> maskable (t_sigmask (threads s t))" "masks_ok s \<Longrightarrow> pred_option maskable (t_uc_sigmask (threads s t))"
  by (simp_all add: masks_ok_def)

lemma masks_ok_sigmask:
  assumes "masks_ok s" "sigmask (t_sigmask (threads s t)) how m = (err, new, old)"
  shows "masks_ok (set_thread t (\<lambda>r. r\<lparr>t_sigmask := new\<rparr>) s)"
  using masks_okD [OF assms(1), of t] sigmask_maskable [of "t_sigmask (threads s t)" how m] assms by (intro masks_ok_thread) auto

lemma block_masks_ok: "masks_ok s \<Longrightarrow> masks_ok (snd (signal_mask_block t n act s))"
  by (auto simp: signal_mask_block_def Let_def split: prod.splits intro: masks_ok_sigmask)

lemma restore_masks_ok: "masks_ok s \<Longrightarrow> masks_ok (signal_mask_restore t oset s)"
  by (auto simp: signal_mask_restore_def split: prod.splits intro: masks_ok_sigmask)

lemma dequeue_same_masks: "signal_dequeue t s = (err, r, s') \<Longrightarrow> same_masks s s'"
  by (auto simp: signal_dequeue_def try_dequeue_thread_def try_dequeue_proc_def Let_def same_masks_def set_thread_def set_desc_def
      split: if_splits prod.splits option.splits)

lemma siginfo_free_same_masks: "siginfo_free p s = Some s' \<Longrightarrow> same_masks s s'"
  by (auto simp: siginfo_free_def bind_eq_Some_conv same_masks_def)

lemma flush_same_masks:
  "desc_flush a n s = Some s' \<Longrightarrow> same_masks s s'" "thread_flush t n s = Some s' \<Longrightarrow> same_masks s s'"
  by (auto simp: desc_flush_def thread_flush_def bind_eq_Some_conv same_masks_def set_thread_def set_desc_def dest!: free_all_frame)

lemma flush_group_same_masks: "flush_group n ts s = Some s' \<Longrightarrow> same_masks s s'"
proof (induction ts arbitrary: s)
  case (Cons t ts)
  show ?case
  proof (cases "sigismember (t_sigpending (threads s t)) n \<noteq> 0")
    case True
    then obtain s1 where s1: "thread_flush t n s = Some s1" "flush_group n ts (set_thread t (\<lambda>r. r\<lparr>t_sigpending := snd (sigsetdel (t_sigpending r) n)\<rparr>) s1) = Some s'"
      using Cons.prems by (auto simp: bind_eq_Some_conv)
    have "same_masks s1 (set_thread t (\<lambda>r. r\<lparr>t_sigpending := snd (sigsetdel (t_sigpending r) n)\<rparr>) s1)" by (simp add: same_masks_def set_thread_def)
    then show ?thesis using flush_same_masks(2) [OF s1(1)] Cons.IH [OF s1(2)] by (blast intro: same_masks_trans)
  qed (use Cons in simp)
qed simp

lemma sigaction_masks_ok:
  assumes "masks_ok s" "do_sigaction t n act s = Some (err, old, s')"
  shows "masks_ok s'"
proof (cases "SIGBAD n \<or> act = None")
  case False
  then obtain new where act: "act = Some new" by auto
  define m where "m = sigsetdelmask (sa_mask new) (SIGMASK SIGKILL OR SIGMASK SIGSTOP)"
  define s1 where "s1 = set_desc (t_signals (threads s t)) (\<lambda>d. d\<lparr>sig_action := (sig_action d)(n := new\<lparr>sa_mask := m\<rparr>)\<rparr>) s"
  have "members m = members (sa_mask new) - {SIGKILL, SIGSTOP}" unfolding m_def sigsetdelmask_def members_minus members_or by auto
  then have ok: "masks_ok s1" using assms(1) by (auto simp: s1_def masks_ok_def set_desc_def maskable_def)
  have "same_masks s1 s'"
    using assms(2) False act by (auto simp: do_sigaction_def Let_def bind_eq_Some_conv s1_def [symmetric] m_def [symmetric] split: if_splits
        intro: same_masks_trans dest!: flush_same_masks flush_group_same_masks)
  then show ?thesis using ok by (rule same_masks_ok)
qed (use assms in \<open>auto simp: do_sigaction_def Let_def split: if_splits\<close>)

section \<open>Delivery and waiting\<close>

text \<open>Signal handlers run code of the process, which changes masks through the same functions.\<close>

definition handlers_keep_masks :: "dispatcher \<Rightarrow> bool" where
  "handlers_keep_masks dispatch \<longleftrightarrow> (\<forall>act i s. masks_ok s \<longrightarrow> masks_ok (dispatch act i s))"

lemma set_same_masks:
  "same_masks s (set_thread t (\<lambda>r. r\<lparr>t_nsig_nested := f r\<rparr>) s)" "same_masks s (set_thread t (\<lambda>r. r\<lparr>t_wakeup := w\<rparr>) s)"
  by (simp_all add: same_masks_def set_thread_def)

lemma deliver_masks_ok:
  assumes "handlers_keep_masks dispatch" "masks_ok s" "deliver dispatch t p i act target s = Some (Returns s')"
  shows "masks_ok s'"
proof (cases "sig_handler_ignored (sa_handler act) (si_signo i) \<or> sa_handler act = SIG_DFL")
  case True
  then show ?thesis using assms(2,3)
    by (auto simp: deliver_def do_default_action_def do_terminate_def bind_eq_Some_conv split: if_splits intro: same_masks_ok [OF siginfo_free_same_masks])
next
  case False
  let ?up = "set_thread t (\<lambda>r. r\<lparr>t_nsig_nested := t_nsig_nested r + 1\<rparr>) s"
  have "masks_ok (dispatch act i ?up)" using assms(1) same_masks_ok [OF set_same_masks(1) assms(2)] by (simp add: handlers_keep_masks_def)
  from same_masks_ok [OF set_same_masks(1) this] show ?thesis using False assms(3) by (auto simp: deliver_def)
qed

lemma check_pending_masks_ok:
  assumes h: "handlers_keep_masks dispatch" and ok: "masks_ok s" and r: "signal_check_pending dispatch t s = Some (Returns (err, s'))"
  shows "masks_ok s'"
proof -
  obtain e r s1 where d: "signal_dequeue t s = (e, r, s1)" by (cases "signal_dequeue t s")
  have ok1: "masks_ok s1" using same_masks_ok [OF dequeue_same_masks [OF d] ok] .
  show ?thesis
  proof (cases "t_nsig_nested (threads s t) > ARCH_NSIG_NESTED \<or> r = None")
    case True
    then show ?thesis using r d ok ok1 by (auto simp: signal_check_pending_def split: if_splits)
  next
    case False
    then obtain p act target where rr: "r = Some (p, act, target)" by (cases r) auto
    obtain i where i: "infos s1 p = Some i" using r d False rr by (auto simp: signal_check_pending_def bind_eq_Some_conv)
    obtain oset s2 where b: "signal_mask_block t (si_signo i) act s1 = (oset, s2)" by (cases "signal_mask_block t (si_signo i) act s1")
    have ok2: "masks_ok s2" using block_masks_ok [OF ok1, of t "si_signo i" act] b by simp
    define s3 where "s3 = set_thread t (\<lambda>r. r\<lparr>t_uc_sigmask := map_option (\<lambda>m. fst (snd (sigmask m SIG_SETMASK (Some oset)))) (t_uc_sigmask r)\<rparr>) s2"
    have ok3: "masks_ok s3" unfolding s3_def
      using masks_okD [OF ok2, of t] by (intro masks_ok_thread [OF ok2]) (auto simp: option.pred_map pred_option_def intro: sigmask_maskable)
    have run: "signal_check_pending dispatch t s = do { out \<leftarrow> deliver dispatch t p i act target s3;
        case out of Exits v \<Rightarrow> Some (Exits v) | Returns s \<Rightarrow> do { s \<leftarrow> siginfo_free p (signal_mask_restore t oset s); Some (Returns (0, s)) } }"
      using d False rr i b by (simp add: signal_check_pending_def s3_def Let_def)
    obtain s4 where s4: "deliver dispatch t p i act target s3 = Some (Returns s4)" "siginfo_free p (signal_mask_restore t oset s4) = Some s'"
      using r run by (cases "deliver dispatch t p i act target s3" rule: opt_outcome_cases) (auto simp: bind_eq_Some_conv)
    show ?thesis using same_masks_ok [OF siginfo_free_same_masks [OF s4(2)]] restore_masks_ok [OF deliver_masks_ok [OF h ok3 s4(1)]] by blast
  qed
qed

lemma check_interrupted_masks_ok:
  assumes h: "handlers_keep_masks dispatch" and ok: "masks_ok s" and r: "current_check_interrupted dispatch t s = Some (Returns (err, reason, s'))"
  shows "masks_ok s'"
proof -
  have "masks_ok (set_thread t (\<lambda>r. r\<lparr>t_wakeup := WAKEUP_NONE\<rparr>) s)" using same_masks_ok [OF set_same_masks(2) ok] .
  from check_pending_masks_ok [OF h this] this show ?thesis
    using r ok by (cases "signal_check_pending dispatch t (set_thread t (\<lambda>r. r\<lparr>t_wakeup := WAKEUP_NONE\<rparr>) s)" rule: opt_outcome_cases)
      (auto simp: current_check_interrupted_def Let_def split: if_splits)
qed

lemma block_same_masks:
  "same_masks s (set_sched t f (thread_enter_state t st (set_thread t (\<lambda>r. r\<lparr>t_wait_queue := q\<rparr>) (set_wq q ps s))))"
  by (simp add: same_masks_def set_sched_def thread_enter_state_def set_thread_def set_wq_def)

lemma wait_masks_ok:
  assumes h: "handlers_keep_masks dispatch" and ok: "masks_ok s" and r: "sched_wait_whence dispatch sleepq t q st whence s = Some (Returns (e, s'))"
  shows "masks_ok s'"
proof (cases "current_check_interrupted dispatch t s" rule: opt_outcome_cases)
  case (returns x)
  then obtain err reason s1 where c: "current_check_interrupted dispatch t s = Some (Returns (err, reason, s1))" by (cases x) simp
  have "masks_ok s1" using check_interrupted_masks_ok [OF h ok c] .
  then show ?thesis using r c ok by (auto simp: sched_wait_whence_def Let_def split: if_splits prod.splits intro: same_masks_ok [OF block_same_masks])
qed (use r ok in \<open>auto simp: sched_wait_whence_def Let_def split: if_splits\<close>)

lemma suspend_check_masks_ok:
  assumes h: "handlers_keep_masks dispatch" and ok: "masks_ok s" and r: "sigsuspend_check dispatch t q oset s = Some (Returns (e, s'))"
  shows "masks_ok s'"
proof (cases "signal_check_pending dispatch t s" rule: opt_outcome_cases)
  case (returns x)
  then obtain err s1 where c: "signal_check_pending dispatch t s = Some (Returns (err, s1))" by (cases x) simp
  have ok1: "masks_ok s1" using check_pending_masks_ok [OF h ok c] .
  show ?thesis
  proof (cases "sched_wait_whence dispatch NULL t q T_SLEEP QUEUE_TAIL s1" rule: opt_outcome_cases)
    case (returns y)
    then obtain e1 s2 where w: "sched_wait_whence dispatch NULL t q T_SLEEP QUEUE_TAIL s1 = Some (Returns (e1, s2))" by (cases y) simp
    then show ?thesis using r c ok1 wait_masks_ok [OF h ok1 w]
      by (cases e1) (auto simp: sigsuspend_check_def signal_dispatch_def intro: restore_masks_ok split: if_splits)
  qed (use r c ok1 in \<open>auto simp: sigsuspend_check_def signal_dispatch_def intro: restore_masks_ok split: if_splits\<close>)
qed (use r in \<open>auto simp: sigsuspend_check_def signal_dispatch_def\<close>)

lemma suspend_masks_ok:
  assumes h: "handlers_keep_masks dispatch" and ok: "masks_ok s" and r: "sigsuspend dispatch t q m s = Some (oset, Returns (e, s'))"
  shows "masks_ok s'"
proof -
  obtain err new old where m: "sigmask (t_sigmask (threads s t)) SIG_SETMASK m = (err, new, old)" by (cases "sigmask (t_sigmask (threads s t)) SIG_SETMASK m")
  show ?thesis using r m ok masks_ok_sigmask [OF ok m] suspend_check_masks_ok [OF h masks_ok_sigmask [OF ok m]]
    by (auto simp: sigsuspend_def Let_def bind_eq_Some_conv split: if_splits)
qed

lemma suspend_resume_masks_ok:
  assumes h: "handlers_keep_masks dispatch" and ok: "masks_ok s" and r: "sigsuspend_resume dispatch t q oset s = Some (Returns (e, s'))"
  shows "masks_ok s'"
proof (cases "current_check_interrupted dispatch t s" rule: opt_outcome_cases)
  case (returns x)
  then obtain err reason s1 where c: "current_check_interrupted dispatch t s = Some (Returns (err, reason, s1))" by (cases x) simp
  have "masks_ok s1" using check_interrupted_masks_ok [OF h ok c] .
  then show ?thesis using r c restore_masks_ok [of s1 t oset] suspend_check_masks_ok [OF h, of s1 t q oset e s']
    by (auto simp: sigsuspend_resume_def sched_wait_resume_def split: if_splits)
qed (use r in \<open>auto simp: sigsuspend_resume_def sched_wait_resume_def\<close>)

text \<open>C25: \<^verbatim>\<open>SIGKILL\<close> and \<^verbatim>\<open>SIGSTOP\<close> are never blocked.  When they are in no mask of a thread, a saved context, a process or an action, they are in none after \<^verbatim>\<open>pthread_sigmask\<close>, \<^verbatim>\<open>sigprocmask\<close> and \<^verbatim>\<open>sigaction\<close> with any
  arguments, after the mask is set up and restored for the delivery of a signal, after the delivery of pending signals, and at every return and every wait of \<^verbatim>\<open>sigsuspend\<close>; handlers are assumed to keep this too, as they
  have no other way to change a mask.\<close>

theorem kill_stop_never_blocked:
  assumes "masks_ok s" "handlers_keep_masks dispatch"
  shows "masks_ok (snd (snd (pthread_sigmask t how m s))) \<and> masks_ok (snd (snd (sigprocmask t how m s))) \<and>
    (\<forall>err old s'. do_sigaction t signo act s = Some (err, old, s') \<longrightarrow> masks_ok s') \<and>
    masks_ok (snd (signal_mask_block t signo a s)) \<and> masks_ok (signal_mask_restore t oset s) \<and>
    (\<forall>err s'. signal_check_pending dispatch t s = Some (Returns (err, s')) \<longrightarrow> masks_ok s') \<and>
    (\<forall>old e s'. sigsuspend dispatch t q m s = Some (old, Returns (e, s')) \<longrightarrow> masks_ok s') \<and>
    (\<forall>e s'. sigsuspend_resume dispatch t q oset s = Some (Returns (e, s')) \<longrightarrow> masks_ok s')"
proof (intro conjI allI impI)
  show "masks_ok (snd (snd (pthread_sigmask t how m s)))"
    using assms(1) masks_ok_sigmask [OF assms(1), of t how m] by (auto simp: pthread_sigmask_def thread_sigmask_def split: prod.splits)
  have "maskable (fst (snd (sigmask (sig_mask (descs s (t_signals (threads s t)))) how m)))"
    using assms(1) by (intro sigmask_maskable) (simp add: masks_ok_def)
  then show "masks_ok (snd (snd (sigprocmask t how m s)))"
    using assms(1) by (auto simp: sigprocmask_def set_desc_def masks_ok_def split: prod.splits)
qed (use assms in \<open>blast intro: sigaction_masks_ok block_masks_ok restore_masks_ok check_pending_masks_ok suspend_masks_ok suspend_resume_masks_ok\<close>)+

theorem kill_stop_never_blocked_witness:
  "masks_ok (snd (snd (pthread_sigmask 8 SIG_SETMASK (Some sigsetfill) quiet)))"
proof -
  have "masks_ok quiet" by (simp add: masks_ok_def quiet_def sig_thread_def default_action_def maskable_def)
  moreover have "handlers_keep_masks (\<lambda>a i s. s)" by (simp add: handlers_keep_masks_def)
  ultimately show ?thesis using kill_stop_never_blocked [of quiet "\<lambda>a i s. s" 8 SIG_SETMASK "Some sigsetfill"] by blast
qed

end
