(* ===== verification/Spec2Isabelle.thy ===== *)
theory Spec2Isabelle
  imports Ringbuf Zones Stack Mmap_Space Vmm_Space Btree_Order Strings_Proofs Sse_Tokens Paths_Proofs Klist Hashmap_Keys Pipe Spinlock Mutex Rwlock Event Sigsuspend
begin

text \<open>
  Verification of the core of XytherOS, a 64-bit x86 kernel written in C (\<^verbatim>\<open>src/src/kernel\<close>).

  \<^bold>\<open>The program.\<close>  The boot loader passes a memory map, which \<^verbatim>\<open>boot/boot.c\<close> collects, sorts and
  extends with the kernel image; a bump allocator hands out memory from it.  \<^verbatim>\<open>mm/pmm\<close> builds memory
  zones out of that table and allocates physical pages from them, with one bitmap (\<^verbatim>\<open>ds/bitmap.c\<close>) and one
  array of page descriptors per zone.  \<^verbatim>\<open>mm/mmap.c\<close> keeps the address space of a process as a sorted list of
  regions; \<^verbatim>\<open>mm/vmm/vmm.c\<close> hands out ranges of kernel addresses.  Everything else in the kernel rests on the containers of \<^verbatim>\<open>ds\<close>: queues of allocated nodes
  (\<^verbatim>\<open>queue/queue.c\<close>), queues whose nodes are embedded in the objects (\<^verbatim>\<open>queue/embedded.c\<close>), stacks, search trees, hash maps and
  ring buffers.  The string library (\<^verbatim>\<open>lib\<close>) has every function twice, for words and for
  vectors, and path names are split with it.  Threads (\<^verbatim>\<open>sys/thread\<close>) wait in the run queues of the scheduler (\<^verbatim>\<open>sys/sched\<close>), four priority levels per core, or in wait queues, from which
  other threads, signals (\<^verbatim>\<open>sys/signal\<close>) and time-outs wake them; mutexes, reader-writer locks, condition variables and events (\<^verbatim>\<open>sync\<close>) are built out of wait queues and spin
  locks.

  \<^bold>\<open>The model.\<close>  C functions become HOL functions over explicit state.  A pointer is a 64-bit word; a
  heap maps pointers to objects; null and unmapped addresses do not load, and a fault, a failed assertion,
  a panic and an endless loop are all the result \<^term>\<open>None\<close>.  Errors are returned as the negative numbers
  of \<^verbatim>\<open>bits/errno.h\<close>.  \<^verbatim>\<open>size_t\<close> and \<^verbatim>\<open>usize\<close> are 64-bit words, so that sums wrap around as in C.  A lock is a
  flag: whether the caller holds it.  Loops over linked lists are \<^theory_text>\<open>partial_function\<close>s and need no fuel; loops
  with counters are terminating functions.  What comes from outside, such as the address that \<^verbatim>\<open>kmalloc\<close>
  returns, is an argument.

  \<^bold>\<open>The theories.\<close>
  \<^item> \<open>Prelude\<close>: types, error numbers, assertions, and lemmas on words shared by all components.
  \<^item> \<open>Bitmap\<close> (\<^verbatim>\<open>ds/bitmap.c\<close>): the set of bits a bitmap represents; every range operation is exact, allocation is
    first fit, and the range check wraps around.
  \<^item> \<open>Ringbuf\<close> (\<^verbatim>\<open>ds/ringbuf.c\<close>): reading and writing refine a bounded queue of bytes.
  \<^item> \<open>Dll\<close>: doubly linked chains, shared by the two kinds of queues and by the lists of regions.
  \<^item> \<open>Queue\<close>, \<open>Queue_Moves\<close> (\<^verbatim>\<open>ds/queue/queue.c\<close>): each operation refines an operation on the list of data; what is
    on other queues does not change.
  \<^item> \<open>Embedded\<close>, \<open>Embedded_Sorted\<close> (\<^verbatim>\<open>ds/queue/embedded.c\<close>): the same for embedded nodes, and sorted insertion.
  \<^item> \<open>Stack\<close> (\<^verbatim>\<open>ds/stack.c\<close>): the interface of a stack as a locale, interpreted on the code's operations.
  \<^item> \<open>Boot\<close> (\<^verbatim>\<open>boot/boot.c\<close>): the memory table, its sort, and the early allocator.
  \<^item> \<open>Pmm\<close>, \<open>Pmm_Proofs\<close> (\<^verbatim>\<open>mm/pmm/alloc.c\<close>, \<^verbatim>\<open>free.c\<close>, \<^verbatim>\<open>pages.c\<close>): page allocation and reference counts keep bitmap,
    counters and descriptors consistent, except where stated.
  \<^item> \<open>Zones\<close> (\<^verbatim>\<open>mm/pmm/zones.c\<close>): initialisation establishes that invariant.
  \<^item> \<open>Mmap\<close> (\<^verbatim>\<open>mm/mmap.c\<close>): regions and memory maps; \<open>Mmap_Proofs\<close>: insertion and removal keep the list sorted and
    disjoint; \<open>Mmap_Holes\<close>: the search for free ranges is first fit; \<open>Mmap_Space\<close>: protection, cleaning, allocating,
    copying and cloning of whole address spaces.
  \<^item> \<open>Vmm\<close>, \<open>Vmm_Proofs\<close>, \<open>Vmm_Free\<close>, \<open>Vmm_Space\<close> (\<^verbatim>\<open>mm/vmm/vmm.c\<close>): the allocator of kernel address ranges is first fit, releasing merges
    neighbours and gives back exactly the range; its contract is the locale \<open>range_allocator\<close>.
  \<^item> \<open>Btree\<close>, \<open>Btree_Proofs\<close>, \<open>Btree_Map\<close>, \<open>Btree_Order\<close> (\<^verbatim>\<open>ds/btree\<close>, \<^verbatim>\<open>ds/iter.c\<close>): the search tree refines a finite map (locale
    \<open>finite_map\<close>), is traversed in key order and emptied.
  \<^item> \<open>Klist\<close> (\<^verbatim>\<open>ds/list.c\<close>): circular lists with a sentinel; the locale \<open>node_list\<close> is what their users rely on.
  \<^item> \<open>Memory\<close>: memory as bytes at addresses, words and vectors as sequences of bytes, and the loops that scan it; \<open>Strings\<close>, \<open>Strings_Proofs\<close> (\<^verbatim>\<open>lib/string.c\<close>, \<^verbatim>\<open>lib/ctype.c\<close>): the functions that work
    a word at a time against lists of bytes.
  \<^item> \<open>Sse_Strings\<close>, \<open>Sse_Proofs\<close> (\<^verbatim>\<open>lib/xyther_strings.c\<close>): the functions that work sixteen bytes at a time against those of \<open>Strings\<close>, and where they miss the terminator.
  \<^item> \<open>Tokens\<close>, \<open>Tokens_Proofs\<close>, \<open>Sse_Tokens\<close>: splitting a string into its fields; \<open>Paths\<close>, \<open>Paths_Proofs\<close> (\<^verbatim>\<open>fs/vfs_path.c\<close>): checking, splitting and joining path names.
  \<^item> \<open>Hashmap\<close>, \<open>Hashmap_Proofs\<close> (\<^verbatim>\<open>ds/hashMap.c\<close>): chains of entries in a search tree against lists of values per key (locales \<open>key_context\<close>, \<open>multimap\<close>); \<open>Pci\<close>
    (\<^verbatim>\<open>dev/bus/pci\<close>): the maps of devices and drivers; \<open>Hashmap_Keys\<close>: strings and device identifiers as keys.
  \<^item> \<open>Transition\<close>: runs of interleaved events, reachable states, and the locale \<open>invariant_system\<close> for the proof of invariants; every concurrent component interprets it.
  \<^item> \<open>Spinlock\<close> (\<^verbatim>\<open>sync/spinlock.h\<close>): the macros at the level of single memory accesses of each core; mutual exclusion and progress.
  \<^item> \<open>Sigset\<close>, \<open>Signal\<close>, \<open>Signal_Proofs\<close> (\<^verbatim>\<open>sys/signal\<close>): signal sets and masks, queues of pending signals, actions and delivery.
  \<^item> \<open>Thread\<close> (\<^verbatim>\<open>sys/thread/thread.c\<close>): threads and the kernel state the following theories share; the lists of threads are refined by the embedded queues.
  \<^item> \<open>Mlfq\<close>, \<open>Mlfq_Proofs\<close> (\<^verbatim>\<open>sys/sched/scheduler.c\<close>, \<^verbatim>\<open>load_balancer.c\<close>): choice of core and thread, balancing, and aging, which excludes starvation.
  \<^item> \<open>Wait\<close>, \<open>Wait_Proofs\<close> (\<^verbatim>\<open>sys/sched/sched.c\<close>, \<^verbatim>\<open>sys/thread/thread_sleep.c\<close>, \<^verbatim>\<open>sync/cond.c\<close>): blocking, waking, interruption and condition variables keep thread states and
    queues consistent.
  \<^item> \<open>Sigsuspend\<close> (\<^verbatim>\<open>sys/signal/sigsuspend.c\<close>): waiting with another mask, and that no function that writes a mask of a thread, process, action or saved context blocks \<^verbatim>\<open>SIGKILL\<close> or \<^verbatim>\<open>SIGSTOP\<close>.
  \<^item> \<open>Mutex\<close>, \<open>Rwlock\<close>, \<open>Event\<close> (\<^verbatim>\<open>sync/mutex.c\<close>, \<^verbatim>\<open>rwlock.c\<close>, \<^verbatim>\<open>event.c\<close>): these objects under every interleaving of their users, with what they ensure and the reachable states in which they
    fail.
  \<^item> \<open>Pipe\<close> (\<^verbatim>\<open>fs/pipefs/pipefs.c\<close>): a ring buffer with two condition variables is a stream of bytes under every interleaving of readers and writers; what a closed end does to the other.

  \<^bold>\<open>Concurrency.\<close>  Spin locks are modelled access by access on all cores.  Where the code holds a spin lock over a section, the theories above it take the section as one step; a function that
  blocks is cut at the points where it does, and its parts interleave with those of all other threads.
  Interrupt handlers are no steps of these systems; the interrupt flag of each core is part of the state of \<open>Spinlock\<close>, which says at which single point of the macros a handler can run on a core that has the guard.

  \<^bold>\<open>Not modelled.\<close>  Page tables, interrupts, devices and other hardware state; the third-party allocator
  \<^verbatim>\<open>liballoc\<close>; console output; creation of threads and processes, the other file systems and formatted output.
\<close>

end
